(* ===== verification/Prelude.thy ===== *)
theory Prelude
  imports Main "HOL-Library.Word" "HOL-Library.Monad_Syntax"
begin

text \<open>
  Shared vocabulary of the development: the C integer types, the model of the
  allocator and of arrays, and the generic facts on lists, bytes and words that the
  component theories use.

  \<^item> A C pointer that may be NULL is an \<open>option\<close>, NULL being \<open>None\<close>.
  \<^item> A computation that may run into undefined behaviour (an access outside an
    allocated array, a use of freed storage) or that may not return has an outer
    \<open>option\<close>; the value \<open>None\<close> says that the C code has no defined result.
  \<^item> A \<open>size_t\<close> is a \<open>nat\<close> below \<open>2 ^ 64\<close> where the code uses it as a length or
    an index, with the wrap-around of an addition or a multiplication written out
    (\<open>sz_add\<close>, \<open>sz_mul\<close>), and a \<open>64 word\<close> where the code works on its bits.
\<close>

unbundle bit_operations_syntax

type_synonym u8 = "8 word"
type_synonym u32 = "32 word"
type_synonym u64 = "64 word"

named_theorems mem_simps "simplification rules of the array operations"
named_theorems byte_class "byte masks as ranges of the byte's value"

section \<open>Sizes with wrap-around\<close>

abbreviation SIZE_RANGE :: nat where
  "SIZE_RANGE \<equiv> 2 ^ 64"

definition sz_add :: "nat \<Rightarrow> nat \<Rightarrow> nat" where
  "sz_add a b = (a + b) mod SIZE_RANGE"

definition sz_mul :: "nat \<Rightarrow> nat \<Rightarrow> nat" where
  "sz_mul a b = (a * b) mod SIZE_RANGE"

lemma sz_add_exact: "a + b < SIZE_RANGE \<Longrightarrow> sz_add a b = a + b"
  by (simp add: sz_add_def)

lemma sz_mul_exact: "a * b < SIZE_RANGE \<Longrightarrow> sz_mul a b = a * b"
  by (simp add: sz_mul_def)

section \<open>The allocator\<close>

text \<open>
  \<open>AK24_ALLOC\<close> and its kin are \<open>malloc\<close> or its garbage-collected counterpart: a call
  yields NULL or fresh storage. A schedule lists the outcomes of the calls to come:
  \<open>None\<close> for NULL, \<open>Some g\<close> for success, where \<open>g\<close> is what the allocator chose (the
  indeterminate contents of fresh bytes, or the address of a fresh cell). An exhausted
  schedule answers NULL. Theorems quantify over the schedule, so they hold for every
  behaviour of the allocator.
\<close>

type_synonym 'g sched = "'g option list"

fun sys_alloc :: "'g sched \<Rightarrow> 'g option \<times> 'g sched" where
  "sys_alloc [] = (None, [])"
| "sys_alloc (r # s) = (r, s)"

type_synonym byte_sched = "(nat \<Rightarrow> u8) sched"

definition alloc_bytes :: "nat \<Rightarrow> byte_sched \<Rightarrow> u8 list option \<times> byte_sched" where
  "alloc_bytes n s =
     (case sys_alloc s of (r, s') \<Rightarrow> (map_option (\<lambda>g. map g [0..<n]) r, s'))"

definition realloc_bytes ::
  "u8 list \<Rightarrow> nat \<Rightarrow> byte_sched \<Rightarrow> u8 list option \<times> byte_sched" where
  "realloc_bytes old n s =
     (case sys_alloc s of
        (r, s') \<Rightarrow> (map_option (\<lambda>g. take n old @ map g [length old..<n]) r, s'))"

text \<open>
  The first \<open>n\<close> calls succeed; and \<open>s'\<close> is what is left of \<open>s\<close> after at most \<open>n\<close> calls.
\<close>

definition grants :: "nat \<Rightarrow> 'g sched \<Rightarrow> bool" where
  "grants n s \<longleftrightarrow> n \<le> length s \<and> None \<notin> set (take n s)"

definition uses :: "nat \<Rightarrow> 'g sched \<Rightarrow> 'g sched \<Rightarrow> bool" where
  "uses n s s' \<longleftrightarrow> (\<exists>k \<le> n. s' = drop k s)"

lemma uses_refl [simp]: "uses n s s"
  by (auto simp: uses_def intro: exI [of _ 0])

lemma uses_tl: "uses (Suc n) s (tl s)"
  by (auto simp: uses_def drop_Suc intro: exI [of _ "Suc 0"])

lemma uses_mono: "uses m s s' \<Longrightarrow> m \<le> n \<Longrightarrow> uses n s s'"
  using order.trans by (fastforce simp: uses_def)

lemma uses_trans: "uses m s s' \<Longrightarrow> uses n s' s'' \<Longrightarrow> uses (m + n) s s''"
  by (auto simp: uses_def) (metis add.commute add_mono)

lemma grants_mono: "grants m s \<Longrightarrow> n \<le> m \<Longrightarrow> grants n s"
  by (auto simp: grants_def dest: set_take_subset_set_take [THEN subsetD])

lemma grants_uses: "grants (m + n) s \<Longrightarrow> uses m s s' \<Longrightarrow> grants n s'"
proof -
  assume g: "grants (m + n) s" and "uses m s s'"
  then obtain k where k: "k \<le> m" "s' = drop k s" by (auto simp: uses_def)
  have "set (take n (drop k s)) \<subseteq> set (take (m + n) s)"
    using k(1) set_drop_subset [of k "take (n + k) s"] set_take_subset_set_take [of "n + k" "m + n" s]
    by (auto simp: take_drop)
  then show ?thesis using g k by (auto simp: grants_def)
qed

lemma grants_1: "grants 1 s \<Longrightarrow> \<exists>g s'. s = Some g # s'"
  by (cases s; cases "hd s") (auto simp: grants_def)

section \<open>Arrays\<close>

text \<open>
  An array is the list of its cells. Reads, writes and block copies are defined inside
  the array only.
\<close>

definition mem_read :: "'a list \<Rightarrow> nat \<Rightarrow> 'a option" where
  "mem_read a i = (if i < length a then Some (a ! i) else None)"

definition mem_write :: "'a list \<Rightarrow> nat \<Rightarrow> 'a \<Rightarrow> 'a list option" where
  "mem_write a i v = (if i < length a then Some (a[i := v]) else None)"

definition mem_copy :: "'a list \<Rightarrow> nat \<Rightarrow> 'a list \<Rightarrow> nat \<Rightarrow> nat \<Rightarrow> 'a list option" where
  "mem_copy dst d src s n =
     (if d + n \<le> length dst \<and> s + n \<le> length src
      then Some (take d dst @ take n (drop s src) @ drop (d + n) dst)
      else None)"

lemma mem_read_Some [mem_simps]: "i < length a \<Longrightarrow> mem_read a i = Some (a ! i)"
  by (simp add: mem_read_def)

lemma mem_write_Some [mem_simps]: "i < length a \<Longrightarrow> mem_write a i v = Some (a[i := v])"
  by (simp add: mem_write_def)

lemma mem_copy_Some [mem_simps]:
  "d + n \<le> length dst \<Longrightarrow> s + n \<le> length src \<Longrightarrow>
   mem_copy dst d src s n = Some (take d dst @ take n (drop s src) @ drop (d + n) dst)"
  by (simp add: mem_copy_def)

lemma mem_copy_length: "mem_copy dst d src s n = Some r \<Longrightarrow> length r = length dst"
  by (auto simp: mem_copy_def split: if_splits)

lemma realloc_bytes_length:
  "realloc_bytes old n s = (Some new, s') \<Longrightarrow> length new = n"
  by (auto simp: realloc_bytes_def split: prod.splits)

lemma realloc_bytes_take:
  "realloc_bytes old n s = (Some new, s') \<Longrightarrow> m \<le> n \<Longrightarrow> m \<le> length old \<Longrightarrow>
   take m new = take m old"
  by (auto simp: realloc_bytes_def min_def split: prod.splits)

lemma alloc_bytes_length:
  "alloc_bytes n s = (Some new, s') \<Longrightarrow> length new = n"
  by (auto simp: alloc_bytes_def split: prod.splits)

section \<open>Masks and bytes\<close>

text \<open>The bytes of a string literal.\<close>

definition lit :: "string \<Rightarrow> u8 list" where
  "lit = map of_char"

text \<open>Clearing or keeping the low bits of a word, as arithmetic on its value.\<close>

lemma and_not_mask_word: "w AND NOT (mask n) = push_bit n (drop_bit n w)" for w :: "'a::len word"
  by (rule bit_eqI) (auto simp: bit_simps)

lemma unat_and_mask: "unat (w AND mask n) = unat w mod 2 ^ n" for w :: "'a::len word"
  unfolding take_bit_eq_mask [symmetric] unsigned_take_bit_eq
  by (simp add: take_bit_eq_mod)

lemma unat_and_not_mask: "unat (w AND NOT (mask n)) = unat w div 2 ^ n * 2 ^ n"
  for w :: "'a::len word"
proof -
  have "unat w div 2 ^ n * 2 ^ n \<le> unat w"
    by simp
  also have "unat w < 2 ^ LENGTH('a)"
    by (rule unsigned_less)
  finally have "unat w div 2 ^ n * 2 ^ n < 2 ^ LENGTH('a)" .
  then show ?thesis
    unfolding and_not_mask_word unsigned_push_bit_eq unsigned_drop_bit_eq
    by (simp add: push_bit_eq_mult drop_bit_eq_div take_bit_nat_eq_self)
qed

lemma byte_masks:
  "(0x80 :: u8) = NOT (mask 7)" "(0xC0 :: u8) = NOT (mask 6)" "(0xE0 :: u8) = NOT (mask 5)"
  "(0xF0 :: u8) = NOT (mask 4)" "(0xF8 :: u8) = NOT (mask 3)" "(0xFE :: u8) = NOT (mask 1)"
  "(0x3F :: u8) = mask 6" "(0x1F :: u8) = mask 5" "(0x0F :: u8) = mask 4"
  "(0x07 :: u8) = mask 3"
  by (simp_all add: mask_eq_exp_minus_1)

lemma and_not_mask_eq_iff:
  "w AND NOT (mask n) = v \<longleftrightarrow> unat w div 2 ^ n * 2 ^ n = unat v" for w v :: "'a::len word"
  by (simp add: word_unat_eq_iff unat_and_not_mask)

lemma unat_byte_less: "unat b < 256" for b :: u8
  using unsigned_less [of b, where ?'a = nat] by simp

lemma byte_class_ascii [byte_class]: "b AND 0x80 = 0 \<longleftrightarrow> unat b < 128" for b :: u8
  using and_not_mask_eq_iff [of b 7 0, folded byte_masks(1)] unat_byte_less [of b] by auto

lemma byte_class_cont [byte_class]:
  "b AND 0xC0 = 0x80 \<longleftrightarrow> 128 \<le> unat b \<and> unat b < 192" for b :: u8
  using and_not_mask_eq_iff [of b 6 "0x80", folded byte_masks(2)] by auto

lemma byte_class_two [byte_class]:
  "b AND 0xE0 = 0xC0 \<longleftrightarrow> 192 \<le> unat b \<and> unat b < 224" for b :: u8
  using and_not_mask_eq_iff [of b 5 "0xC0", folded byte_masks(3)] by auto

lemma byte_class_three [byte_class]:
  "b AND 0xF0 = 0xE0 \<longleftrightarrow> 224 \<le> unat b \<and> unat b < 240" for b :: u8
  using and_not_mask_eq_iff [of b 4 "0xE0", folded byte_masks(4)] by auto

lemma byte_class_four [byte_class]:
  "b AND 0xF8 = 0xF0 \<longleftrightarrow> 240 \<le> unat b \<and> unat b < 248" for b :: u8
  using and_not_mask_eq_iff [of b 3 "0xF0", folded byte_masks(5)] by auto

lemma byte_class_fe [byte_class]: "b AND 0xFE = 0xFE \<longleftrightarrow> 254 \<le> unat b" for b :: u8
  using and_not_mask_eq_iff [of b 1 "0xFE", folded byte_masks(6)] unat_byte_less [of b] by auto

lemma unat_low_bits:
  "unat (b AND 0x3F) = unat b mod 64" "unat (b AND 0x1F) = unat b mod 32"
  "unat (b AND 0x0F) = unat b mod 16" "unat (b AND 0x07) = unat b mod 8" for b :: u8
  using unat_and_mask [of b 6] unat_and_mask [of b 5] unat_and_mask [of b 4]
    unat_and_mask [of b 3] byte_masks(7-10)
  by simp_all

lemma unat_byte_of_nat: "n < 256 \<Longrightarrow> unat (word_of_nat n :: u8) = n"
  by (simp add: unsigned_of_nat take_bit_nat_eq_self)

section \<open>Shifted fields of a word\<close>

text \<open>Joining a shifted field with a lower field by OR is an addition.\<close>

lemma unat_ucast_u32 [simp]: "unat (ucast b :: u32) = unat b" for b :: u8
  using unsigned_less [of b, where ?'a = nat]
  by (simp add: unsigned_ucast_eq take_bit_nat_eq_self_iff)

lemma or_push_bit_nat: "push_bit n x OR y = x * 2 ^ n + y" if "y < 2 ^ n" for x y :: nat
proof -
  have "push_bit n x AND take_bit n y = 0"
    by (rule bit_eqI) (simp add: bit_simps)
  then have "push_bit n x AND y = 0"
    using that by (simp add: take_bit_nat_eq_self)
  then have "push_bit n x + y = push_bit n x OR y"
    by (rule disjunctive_add_eq_or)
  then show ?thesis
    by (simp add: push_bit_eq_mult)
qed

lemma unat_or_push_bit:
  "unat (push_bit n x OR y) = unat x * 2 ^ n + unat y"
  if "unat x * 2 ^ n < 2 ^ LENGTH('a)" and "unat y < 2 ^ n" for x y :: "'a::len word"
proof -
  have "unat (push_bit n x) = push_bit n (unat x)"
    using that(1) unfolding unsigned_push_bit_eq
    by (simp add: take_bit_nat_eq_self push_bit_eq_mult)
  then show ?thesis
    using that(2) by (simp only: unsigned_or_eq or_push_bit_nat)
qed

end
