(* ===== verification/Utf8.thy ===== *)
theory Utf8
  imports Prelude
begin

text \<open>
  Model of kernel/utf8/src/utf8.c: the byte length and decoding of one character,
  character and grapheme counting, validation, backward stepping and the classification
  tables. A pair of arguments \<open>(data, max_bytes)\<close> of the C functions is the slice
  \<open>bs :: u8 list\<close> of the \<open>max_bytes\<close> bytes at \<open>data\<close> (NULL is \<open>None\<close>), so
  \<open>data[i]\<close> is \<open>bs ! i\<close>, read under the guards of the code.

  The decoder is compared with an encoder written from the definition of UTF-8: decoding
  inverts encoding on every Unicode scalar value, accepts nothing else, and the validator
  accepts exactly the encodings of sequences of scalar values.
\<close>

section \<open>Definitions\<close>

record ak_utf8_decode_result =
  codepoint :: u32
  bytes :: nat
  valid :: bool

definition ak_utf8_char_len :: "u8 list option \<Rightarrow> nat" where
  "ak_utf8_char_len data =
     (case data of None \<Rightarrow> 0
      | Some bs \<Rightarrow>
         if length bs = 0 then 0
         else let first = bs ! 0 in
           if first AND 0x80 = 0 then 1
           else if first AND 0xE0 = 0xC0 then
             (if length bs \<ge> 2 \<and> bs ! 1 AND 0xC0 = 0x80 then 2 else 1)
           else if first AND 0xF0 = 0xE0 then
             (if length bs \<ge> 3 \<and> bs ! 1 AND 0xC0 = 0x80 \<and> bs ! 2 AND 0xC0 = 0x80
              then 3 else 1)
           else if first AND 0xF8 = 0xF0 then
             (if length bs \<ge> 4 \<and> bs ! 1 AND 0xC0 = 0x80 \<and> bs ! 2 AND 0xC0 = 0x80
                 \<and> bs ! 3 AND 0xC0 = 0x80
              then 4 else 1)
           else 1)"

definition invalid_byte :: "u8 \<Rightarrow> ak_utf8_decode_result" where
  "invalid_byte first = \<lparr>codepoint = ucast first, bytes = 1, valid = False\<rparr>"

definition ak_utf8_decode :: "u8 list option \<Rightarrow> ak_utf8_decode_result" where
  "ak_utf8_decode data =
     (case data of None \<Rightarrow> \<lparr>codepoint = 0, bytes = 0, valid = False\<rparr>
      | Some bs \<Rightarrow>
         if length bs = 0 then \<lparr>codepoint = 0, bytes = 0, valid = False\<rparr>
         else let first = bs ! 0 in
           if first AND 0x80 = 0
           then \<lparr>codepoint = ucast first, bytes = 1, valid = True\<rparr>
           else if first AND 0xE0 = 0xC0 then
             (if length bs \<ge> 2 \<and> bs ! 1 AND 0xC0 = 0x80
              then let cp = push_bit 6 (ucast (first AND 0x1F)) OR ucast (bs ! 1 AND 0x3F)
                   in \<lparr>codepoint = cp, bytes = 2, valid = (cp \<ge> 0x80)\<rparr>
              else invalid_byte first)
           else if first AND 0xF0 = 0xE0 then
             (if length bs \<ge> 3 \<and> bs ! 1 AND 0xC0 = 0x80 \<and> bs ! 2 AND 0xC0 = 0x80
              then let cp = push_bit 12 (ucast (first AND 0x0F))
                            OR push_bit 6 (ucast (bs ! 1 AND 0x3F))
                            OR ucast (bs ! 2 AND 0x3F)
                   in \<lparr>codepoint = cp, bytes = 3,
                       valid = (cp \<ge> 0x800 \<and> (cp < 0xD800 \<or> cp > 0xDFFF))\<rparr>
              else invalid_byte first)
           else if first AND 0xF8 = 0xF0 then
             (if length bs \<ge> 4 \<and> bs ! 1 AND 0xC0 = 0x80 \<and> bs ! 2 AND 0xC0 = 0x80
                 \<and> bs ! 3 AND 0xC0 = 0x80
              then let cp = push_bit 18 (ucast (first AND 0x07))
                            OR push_bit 12 (ucast (bs ! 1 AND 0x3F))
                            OR push_bit 6 (ucast (bs ! 2 AND 0x3F))
                            OR ucast (bs ! 3 AND 0x3F)
                   in \<lparr>codepoint = cp, bytes = 4,
                       valid = (cp \<ge> 0x10000 \<and> cp \<le> 0x10FFFF)\<rparr>
              else invalid_byte first)
           else invalid_byte first)"

lemma ak_utf8_char_len_bounds:
  assumes "bs \<noteq> []"
  shows "1 \<le> ak_utf8_char_len (Some bs)" and "ak_utf8_char_len (Some bs) \<le> 4"
    and "ak_utf8_char_len (Some bs) \<le> length bs"
  using assms by (auto simp: ak_utf8_char_len_def Let_def Suc_le_eq)

text \<open>The loop of \<open>ak_utf8_char_count\<close>, over the position and the count so far.\<close>

function char_count_loop :: "u8 list \<Rightarrow> nat \<Rightarrow> nat \<Rightarrow> nat" where
  "char_count_loop bs pos cnt =
     (if pos < length bs
      then let char_len = ak_utf8_char_len (Some (drop pos bs)) in
           if char_len = 0 then cnt
           else char_count_loop bs (pos + char_len) (cnt + 1)
      else cnt)"
  by pat_completeness auto
termination
  by (relation "measure (\<lambda>(bs, pos, cnt). length bs - pos)") auto

declare char_count_loop.simps [simp del]

definition ak_utf8_char_count :: "u8 list option \<Rightarrow> nat" where
  "ak_utf8_char_count data =
     (case data of None \<Rightarrow> 0 | Some bs \<Rightarrow> char_count_loop bs 0 0)"

definition ak_utf8_is_whitespace :: "u32 \<Rightarrow> bool" where
  "ak_utf8_is_whitespace cp =
     (if cp = 0x20 \<or> cp = 0x09 \<or> cp = 0x0A \<or> cp = 0x0D then True
      else if cp = 0x00A0 \<or> cp = 0x1680 \<or> (cp \<ge> 0x2000 \<and> cp \<le> 0x200A) \<or> cp = 0x202F
              \<or> cp = 0x205F \<or> cp = 0x3000 then True
      else False)"

text \<open>
  The classification functions are sequences of range tests that return true; a table
  lists the ranges in the order of the code (a test for one code point is a range of
  one).
\<close>

definition in_ranges :: "(u32 \<times> u32) list \<Rightarrow> u32 \<Rightarrow> bool" where
  "in_ranges rs cp = list_ex (\<lambda>(lo, hi). cp \<ge> lo \<and> cp \<le> hi) rs"

definition ak_utf8_is_digit :: "u32 \<Rightarrow> bool" where
  "ak_utf8_is_digit cp = in_ranges
     [(0x0030, 0x0039), (0x0660, 0x0669), (0x06F0, 0x06F9), (0x0966, 0x096F),
      (0x09E6, 0x09EF), (0x0A66, 0x0A6F), (0x0AE6, 0x0AEF), (0x0B66, 0x0B6F),
      (0x0BE6, 0x0BEF), (0x0C66, 0x0C6F), (0x0CE6, 0x0CEF), (0x0D66, 0x0D6F),
      (0x0E50, 0x0E59), (0x0ED0, 0x0ED9), (0x0F20, 0x0F29), (0x1040, 0x1049),
      (0x17E0, 0x17E9), (0x1810, 0x1819), (0xFF10, 0xFF19)] cp"

definition ak_utf8_is_alpha :: "u32 \<Rightarrow> bool" where
  "ak_utf8_is_alpha cp = in_ranges
     [(0x0041, 0x005A), (0x0061, 0x007A), (0x00C0, 0x00D6), (0x00D8, 0x00F6),
      (0x00F8, 0x00FF), (0x0100, 0x017F), (0x0180, 0x024F), (0x0370, 0x03FF),
      (0x0400, 0x04FF), (0x0500, 0x052F), (0x0531, 0x0556), (0x0561, 0x0587),
      (0x05D0, 0x05EA), (0x05F0, 0x05F2), (0x0621, 0x064A), (0x066E, 0x066F),
      (0x0671, 0x06D3), (0x06D5, 0x06D5), (0x06E5, 0x06E6), (0x06EE, 0x06EF),
      (0x06FA, 0x06FC), (0x06FF, 0x06FF), (0x0905, 0x0939), (0x0958, 0x0961),
      (0x0972, 0x097F), (0x0985, 0x098C), (0x098F, 0x0990), (0x0993, 0x09A8),
      (0x09AA, 0x09B0), (0x09B2, 0x09B2), (0x09B6, 0x09B9), (0x09DC, 0x09DD),
      (0x09DF, 0x09E1), (0x09F0, 0x09F1), (0x3041, 0x3096), (0x30A1, 0x30FA),
      (0x4E00, 0x9FFF), (0xAC00, 0xD7A3)] cp"

definition ak_utf8_is_alnum :: "u32 \<Rightarrow> bool" where
  "ak_utf8_is_alnum cp = (ak_utf8_is_alpha cp \<or> ak_utf8_is_digit cp)"

definition ak_utf8_is_combining_mark :: "u32 \<Rightarrow> bool" where
  "ak_utf8_is_combining_mark cp = in_ranges
     [(0x0300, 0x036F), (0x1AB0, 0x1AFF), (0x1DC0, 0x1DFF), (0x20D0, 0x20FF),
      (0xFE20, 0xFE2F), (0x0591, 0x05BD), (0x05BF, 0x05BF), (0x05C1, 0x05C2),
      (0x05C4, 0x05C5), (0x05C7, 0x05C7), (0x0610, 0x061A), (0x064B, 0x065F),
      (0x0670, 0x0670), (0x06D6, 0x06DC), (0x06DF, 0x06E4), (0x06E7, 0x06E8),
      (0x06EA, 0x06ED), (0x0900, 0x0903), (0x093A, 0x093C), (0x093E, 0x094F),
      (0x0951, 0x0957), (0x0962, 0x0963)] cp"

definition ak_utf8_is_start_byte :: "u8 \<Rightarrow> bool" where
  "ak_utf8_is_start_byte b =
     (if b AND 0x80 = 0 then True
      else if b AND 0xC0 = 0x80 then False
      else if b AND 0xFE = 0xFE then False
      else True)"

definition ak_utf8_is_continuation_byte :: "u8 \<Rightarrow> bool" where
  "ak_utf8_is_continuation_byte b = (b AND 0xC0 = 0x80)"

text \<open>
  The backward loop of \<open>ak_utf8_prev_char\<close>, over the position and the number of steps.
  The code reads \<open>data[pos]\<close> with no bound of its own, so a read outside the text is
  the undefined result.
\<close>

function prev_char_loop :: "u8 list \<Rightarrow> nat \<Rightarrow> nat \<Rightarrow> nat option" where
  "prev_char_loop bs pos steps =
     (if pos > 0
      then do {
        b \<leftarrow> mem_read bs pos;
        if ak_utf8_is_continuation_byte b \<and> steps < 3
        then prev_char_loop bs (pos - 1) (steps + 1)
        else Some pos }
      else Some pos)"
  by pat_completeness auto
termination
  by (relation "measure (\<lambda>(bs, pos, steps). pos)") auto

declare prev_char_loop.simps [simp del]

definition ak_utf8_prev_char :: "u8 list \<Rightarrow> nat \<Rightarrow> nat option" where
  "ak_utf8_prev_char bs current_pos =
     (if current_pos = 0 then Some 0 else prev_char_loop bs (current_pos - 1) 0)"

function validate_loop :: "u8 list \<Rightarrow> nat \<Rightarrow> bool" where
  "validate_loop bs pos =
     (if pos < length bs
      then let result = ak_utf8_decode (Some (drop pos bs)) in
           if \<not> valid result \<or> bytes result = 0 then False
           else validate_loop bs (pos + bytes result)
      else True)"
  by pat_completeness auto
termination
  by (relation "measure (\<lambda>(bs, pos). length bs - pos)") auto

declare validate_loop.simps [simp del]

definition ak_utf8_validate :: "u8 list option \<Rightarrow> bool" where
  "ak_utf8_validate data =
     (case data of None \<Rightarrow> False | Some bs \<Rightarrow> validate_loop bs 0)"

lemma ak_utf8_decode_bytes_eq_char_len:
  "bytes (ak_utf8_decode (Some bs)) = ak_utf8_char_len (Some bs)"
  by (simp add: ak_utf8_decode_def ak_utf8_char_len_def invalid_byte_def Let_def)

text \<open>
  The loop of \<open>ak_utf8_grapheme_len\<close>: \<open>total_len\<close> and \<open>pos\<close> advance together.
\<close>

function grapheme_loop :: "u8 list \<Rightarrow> nat \<Rightarrow> nat \<Rightarrow> nat" where
  "grapheme_loop bs pos total_len =
     (if pos < length bs
      then let nxt = ak_utf8_decode (Some (drop pos bs)) in
           if \<not> valid nxt then total_len
           else if \<not> ak_utf8_is_combining_mark (codepoint nxt) then total_len
           else grapheme_loop bs (pos + bytes nxt) (total_len + bytes nxt)
      else total_len)"
  by pat_completeness auto
termination
proof (relation "measure (\<lambda>(bs, pos, total_len). length bs - pos)", goal_cases)
  case (2 bs pos total_len nxt)
  then have "0 < bytes nxt"
    using ak_utf8_char_len_bounds(1) [of "drop pos bs"]
    by (simp add: ak_utf8_decode_bytes_eq_char_len)
  with 2 show ?case by simp
qed simp

declare grapheme_loop.simps [simp del]

definition ak_utf8_grapheme_len :: "u8 list option \<Rightarrow> nat" where
  "ak_utf8_grapheme_len data =
     (case data of None \<Rightarrow> 0
      | Some bs \<Rightarrow>
         if length bs = 0 then 0
         else let total_len = ak_utf8_char_len (Some bs) in
           if total_len = 0 \<or> total_len > length bs then total_len
           else if \<not> valid (ak_utf8_decode (Some bs)) then total_len
           else grapheme_loop bs total_len total_len)"

function grapheme_count_loop :: "u8 list \<Rightarrow> nat \<Rightarrow> nat \<Rightarrow> nat" where
  "grapheme_count_loop bs pos cnt =
     (if pos < length bs
      then let grapheme_len = ak_utf8_grapheme_len (Some (drop pos bs)) in
           if grapheme_len = 0 then cnt
           else grapheme_count_loop bs (pos + grapheme_len) (cnt + 1)
      else cnt)"
  by pat_completeness auto
termination
  by (relation "measure (\<lambda>(bs, pos, cnt). length bs - pos)") auto

declare grapheme_count_loop.simps [simp del]

definition ak_utf8_grapheme_count :: "u8 list option \<Rightarrow> nat" where
  "ak_utf8_grapheme_count data =
     (case data of None \<Rightarrow> 0 | Some bs \<Rightarrow> grapheme_count_loop bs 0 0)"

section \<open>The reference: UTF-8 as an encoding of scalar values\<close>

text \<open>
  A scalar value is a code point up to U+10FFFF outside the surrogate range; its encoding
  spreads its bits over one to four bytes, six bits in each continuation byte.
\<close>

definition is_scalar :: "u32 \<Rightarrow> bool" where
  "is_scalar cp \<longleftrightarrow> unat cp \<le> 0x10FFFF \<and> (unat cp < 0xD800 \<or> unat cp > 0xDFFF)"

definition utf8_encode :: "u32 \<Rightarrow> u8 list" where
  "utf8_encode cp =
     (let n = unat cp in
      if n < 0x80 then [word_of_nat n]
      else if n < 0x800 then [word_of_nat (0xC0 + n div 64), word_of_nat (0x80 + n mod 64)]
      else if n < 0x10000 then
        [word_of_nat (0xE0 + n div 4096), word_of_nat (0x80 + n div 64 mod 64),
         word_of_nat (0x80 + n mod 64)]
      else
        [word_of_nat (0xF0 + n div 262144), word_of_nat (0x80 + n div 4096 mod 64),
         word_of_nat (0x80 + n div 64 mod 64), word_of_nat (0x80 + n mod 64)])"

definition utf8_text :: "u32 list \<Rightarrow> u8 list" where
  "utf8_text cps = concat (map utf8_encode cps)"

section \<open>The decoder as arithmetic on byte values\<close>

lemma unat_cp2:
  "unat (push_bit 6 (ucast (a AND 0x1F)) OR ucast (b AND 0x3F) :: u32)
   = unat a mod 32 * 64 + unat b mod 64" for a b :: u8
  by (subst unat_or_push_bit) (simp_all add: unat_low_bits)

lemma unat_low6_pair:
  "unat (push_bit 6 (ucast (b AND 0x3F)) OR ucast (c AND 0x3F) :: u32)
   = unat b mod 64 * 64 + unat c mod 64" for b c :: u8
  by (subst unat_or_push_bit) (simp_all add: unat_low_bits)

lemma low6_pair_less: "b mod 64 * 64 + c mod 64 < (4096::nat)"
proof -
  have "b mod 64 < 64" and "c mod 64 < 64" by simp_all
  then show ?thesis by linarith
qed

lemma unat_low6_triple:
  "unat (push_bit 12 (ucast (b AND 0x3F)) OR push_bit 6 (ucast (c AND 0x3F))
         OR ucast (d AND 0x3F) :: u32)
   = unat b mod 64 * 4096 + (unat c mod 64 * 64 + unat d mod 64)" for b c d :: u8
  by (subst unat_or_push_bit) (simp_all add: unat_low_bits unat_low6_pair low6_pair_less)

lemma low6_triple_less: "b mod 64 * 4096 + (c mod 64 * 64 + d mod 64) < (262144::nat)"
proof -
  have "b mod 64 < 64" by simp
  with low6_pair_less [of c d] show ?thesis by linarith
qed

lemma unat_cp3:
  "unat (push_bit 12 (ucast (a AND 0x0F)) OR push_bit 6 (ucast (b AND 0x3F))
         OR ucast (c AND 0x3F) :: u32)
   = unat a mod 16 * 4096 + (unat b mod 64 * 64 + unat c mod 64)" for a b c :: u8
  by (subst unat_or_push_bit) (simp_all add: unat_low_bits unat_low6_pair low6_pair_less)

lemma unat_cp4:
  "unat (push_bit 18 (ucast (a AND 0x07)) OR push_bit 12 (ucast (b AND 0x3F))
         OR push_bit 6 (ucast (c AND 0x3F)) OR ucast (d AND 0x3F) :: u32)
   = unat a mod 8 * 262144 + (unat b mod 64 * 4096 + (unat c mod 64 * 64 + unat d mod 64))"
  for a b c d :: u8
  by (subst unat_or_push_bit) (simp_all add: unat_low_bits unat_low6_triple low6_triple_less)

lemmas unat_codepoint = unat_cp2 unat_cp3 unat_cp4

lemma decode_one:
  assumes "unat a < 128"
  shows "ak_utf8_decode (Some (a # r)) = \<lparr>codepoint = word_of_nat (unat a), bytes = 1, valid = True\<rparr>"
  using assms by (simp add: ak_utf8_decode_def byte_class)

lemma decode_two:
  assumes "192 \<le> unat a" "unat a < 224" and "128 \<le> unat b" "unat b < 192"
  shows "ak_utf8_decode (Some (a # b # r)) =
    (let m = unat a mod 32 * 64 + unat b mod 64
     in \<lparr>codepoint = word_of_nat m, bytes = 2, valid = (0x80 \<le> m)\<rparr>)"
  using assms unat_cp2 [of a b, symmetric]
  by (simp add: ak_utf8_decode_def byte_class Let_def word_le_nat_alt)

lemma decode_three:
  assumes "224 \<le> unat a" "unat a < 240" and "128 \<le> unat b" "unat b < 192"
    and "128 \<le> unat c" "unat c < 192"
  shows "ak_utf8_decode (Some (a # b # c # r)) =
    (let m = unat a mod 16 * 4096 + (unat b mod 64 * 64 + unat c mod 64)
     in \<lparr>codepoint = word_of_nat m, bytes = 3,
         valid = (0x800 \<le> m \<and> (m < 0xD800 \<or> 0xDFFF < m))\<rparr>)"
  using assms unat_cp3 [of a b c, symmetric]
  by (simp add: ak_utf8_decode_def byte_class Let_def word_le_nat_alt word_less_nat_alt)

lemma decode_four:
  assumes "240 \<le> unat a" "unat a < 248" and "128 \<le> unat b" "unat b < 192"
    and "128 \<le> unat c" "unat c < 192" and "128 \<le> unat d" "unat d < 192"
  shows "ak_utf8_decode (Some (a # b # c # d # r)) =
    (let m = unat a mod 8 * 262144 + (unat b mod 64 * 4096 + (unat c mod 64 * 64 + unat d mod 64))
     in \<lparr>codepoint = word_of_nat m, bytes = 4, valid = (0x10000 \<le> m \<and> m \<le> 0x10FFFF)\<rparr>)"
  using assms unat_cp4 [of a b c d, symmetric]
  by (simp add: ak_utf8_decode_def byte_class Let_def word_le_nat_alt word_less_nat_alt)

lemmas decode_forms = decode_one decode_two decode_three decode_four

lemma utf8_encode_length: "1 \<le> length (utf8_encode cp)" "length (utf8_encode cp) \<le> 4"
  by (simp_all add: utf8_encode_def Let_def)

lemma two_digits: "n div 64 * 64 + n mod 64 = (n::nat)"
  by simp

lemma three_digits: "n div 4096 * 4096 + (n div 64 mod 64 * 64 + n mod 64) = (n::nat)"
proof -
  have "n div 4096 = n div 64 div 64"
    by (simp add: div_mult2_eq [symmetric])
  then show ?thesis
    using div_mult_mod_eq [of "n div 64" 64] div_mult_mod_eq [of n 64] by linarith
qed

lemma four_digits:
  "n div 262144 * 262144 + (n div 4096 mod 64 * 4096 + (n div 64 mod 64 * 64 + n mod 64)) = (n::nat)"
proof -
  have "n div 262144 = n div 4096 div 64"
    by (simp add: div_mult2_eq [symmetric])
  then show ?thesis
    using div_mult_mod_eq [of "n div 4096" 64] three_digits [of n] by linarith
qed

lemma lead_byte_mod:
  "q < 32 \<Longrightarrow> (192 + q) mod 32 = (q::nat)" "q < 16 \<Longrightarrow> (224 + q) mod 16 = q"
  "q < 8 \<Longrightarrow> (240 + q) mod 8 = q"
  using mod_mult_self1 [of q 6 32] mod_mult_self1 [of q 14 16] mod_mult_self1 [of q 30 8]
  by (simp_all add: add.commute)

lemma cont_byte_mod: "(128 + q) mod 64 = (q::nat) mod 64"
  using mod_mult_self1 [of q 2 64] by (simp add: add.commute)

lemma lead_byte_restore:
  "192 \<le> u \<Longrightarrow> u < 224 \<Longrightarrow> 192 + u mod 32 = (u::nat)"
  "224 \<le> u \<Longrightarrow> u < 240 \<Longrightarrow> 224 + u mod 16 = u"
  "240 \<le> u \<Longrightarrow> u < 248 \<Longrightarrow> 240 + u mod 8 = u"
  "128 \<le> u \<Longrightarrow> u < 192 \<Longrightarrow> 128 + u mod 64 = u"
  using lead_byte_mod(1) [of "u - 192"] lead_byte_mod(2) [of "u - 224"]
    lead_byte_mod(3) [of "u - 240"] cont_byte_mod [of "u - 128"]
  by auto

lemma decode_encode:
  assumes "is_scalar cp"
  shows "ak_utf8_decode (Some (utf8_encode cp @ rest)) =
         \<lparr>codepoint = cp, bytes = length (utf8_encode cp), valid = True\<rparr>"
proof -
  define n where "n = unat cp"
  have cp: "word_of_nat n = cp"
    by (simp add: n_def)
  have n: "n \<le> 0x10FFFF" "n < 0xD800 \<or> n > 0xDFFF"
    using assms by (simp_all add: is_scalar_def n_def)
  note simps = utf8_encode_def n_def [symmetric] unat_byte_of_nat cp cont_byte_mod lead_byte_mod
  consider "n < 0x80" | "0x80 \<le> n" "n < 0x800" | "0x800 \<le> n" "n < 0x10000" | "0x10000 \<le> n"
    by linarith
  then show ?thesis
  proof cases
    case 1
    then show ?thesis by (simp add: simps decode_one)
  next
    case 2
    then show ?thesis by (simp add: simps decode_two two_digits del: of_nat_add)
  next
    case 3
    then have "n div 4096 < 16" by simp
    with 3 n show ?thesis by (simp add: simps decode_three three_digits del: of_nat_add)
  next
    case 4
    with n have "n div 262144 < 8" by simp
    with 4 n show ?thesis by (simp add: simps decode_four four_digits del: of_nat_add)
  qed
qed

text \<open>Conversely a valid decoding is the encoding of a scalar value.\<close>

lemma cp_word_bound: "m \<le> 0x10FFFF \<Longrightarrow> unat (word_of_nat m :: u32) = m"
  by (simp add: unsigned_of_nat take_bit_nat_eq_self)


lemma decode_valid_cases:
  assumes "valid (ak_utf8_decode (Some bs))"
  obtains
    (one) a r where "bs = a # r" "unat a < 128"
  | (two) a b r where "bs = a # b # r" "192 \<le> unat a" "unat a < 224" "128 \<le> unat b" "unat b < 192"
  | (three) a b c r where "bs = a # b # c # r" "224 \<le> unat a" "unat a < 240"
      "128 \<le> unat b" "unat b < 192" "128 \<le> unat c" "unat c < 192"
  | (four) a b c d r where "bs = a # b # c # d # r" "240 \<le> unat a" "unat a < 248"
      "128 \<le> unat b" "unat b < 192" "128 \<le> unat c" "unat c < 192" "128 \<le> unat d" "unat d < 192"
proof -
  have two: "\<exists>a b r. bs = a # b # r" if "2 \<le> length bs"
    using that by (cases bs rule: list.exhaust [case_product list.exhaust [of "tl bs"]]) auto
  have three: "\<exists>a b c r. bs = a # b # c # r" if "3 \<le> length bs"
    using that by (auto simp: numeral_3_eq_3 Suc_le_length_iff)
  have four: "\<exists>a b c d r. bs = a # b # c # d # r" if "4 \<le> length bs"
    using that by (auto simp: numeral_eq_Suc Suc_le_length_iff)
  have "bs \<noteq> []"
    using assms by (auto simp: ak_utf8_decode_def)
  then consider
      "unat (bs ! 0) < 128"
    | "192 \<le> unat (bs ! 0)" "unat (bs ! 0) < 224" "2 \<le> length bs" "128 \<le> unat (bs ! 1)" "unat (bs ! 1) < 192"
    | "224 \<le> unat (bs ! 0)" "unat (bs ! 0) < 240" "3 \<le> length bs" "128 \<le> unat (bs ! 1)" "unat (bs ! 1) < 192"
      "128 \<le> unat (bs ! 2)" "unat (bs ! 2) < 192"
    | "240 \<le> unat (bs ! 0)" "unat (bs ! 0) < 248" "4 \<le> length bs" "128 \<le> unat (bs ! 1)" "unat (bs ! 1) < 192"
      "128 \<le> unat (bs ! 2)" "unat (bs ! 2) < 192" "128 \<le> unat (bs ! 3)" "unat (bs ! 3) < 192"
    using assms by (auto simp: ak_utf8_decode_def byte_class Let_def invalid_byte_def split: if_splits)
  then show thesis
  proof cases
    case 1
    with \<open>bs \<noteq> []\<close> show ?thesis by (auto simp: neq_Nil_conv intro: one)
  next
    case 2
    with two show ?thesis using that(2) by auto
  next
    case 3
    with three show ?thesis using that(3) by fastforce
  next
    case 4
    with four obtain a b c d r where "bs = a # b # c # d # r" by blast
    with 4 show ?thesis using that(4) by simp
  qed
qed

lemma digits2_inv:
  assumes "m = x * 64 + z" and "z < (64::nat)"
  shows "m div 64 = x" and "m mod 64 = z"
  using assms by simp_all

lemma digits3_inv:
  assumes m: "m = x * 4096 + (y * 64 + z)" and y: "y < (64::nat)" and z: "z < 64"
  shows "m div 4096 = x" and "m div 64 mod 64 = y" and "m mod 64 = z"
proof -
  have *: "m = (x * 64 + y) * 64 + z" using m by simp
  have "m div 64 = x * 64 + y" and "m mod 64 = z"
    using digits2_inv [OF * z] by simp_all
  moreover have "m div 4096 = m div 64 div 64"
    by (simp add: div_mult2_eq [symmetric])
  ultimately show "m div 4096 = x" and "m div 64 mod 64 = y" and "m mod 64 = z"
    using y by simp_all
qed

lemma digits4_inv:
  assumes m: "m = w * 262144 + (x * 4096 + (y * 64 + z))"
    and x: "x < (64::nat)" and y: "y < 64" and z: "z < 64"
  shows "m div 262144 = w" and "m div 4096 mod 64 = x" and "m div 64 mod 64 = y" and "m mod 64 = z"
proof -
  have *: "m = (w * 64 + x) * 4096 + (y * 64 + z)" using m by simp
  have "m div 4096 = w * 64 + x" and "m div 64 mod 64 = y" and "m mod 64 = z"
    using digits3_inv [OF * y z] by simp_all
  moreover have "m div 262144 = m div 4096 div 64"
    by (simp add: div_mult2_eq [symmetric])
  ultimately show "m div 262144 = w" and "m div 4096 mod 64 = x" and "m div 64 mod 64 = y"
    and "m mod 64 = z"
    using x by simp_all
qed

lemma byte_restore:
  "192 \<le> unat a \<Longrightarrow> unat a < 224 \<Longrightarrow> word_of_nat (192 + unat a mod 32) = a"
  "224 \<le> unat a \<Longrightarrow> unat a < 240 \<Longrightarrow> word_of_nat (224 + unat a mod 16) = a"
  "240 \<le> unat a \<Longrightarrow> unat a < 248 \<Longrightarrow> word_of_nat (240 + unat a mod 8) = a"
  "128 \<le> unat a \<Longrightarrow> unat a < 192 \<Longrightarrow> word_of_nat (128 + unat a mod 64) = a" for a :: u8
  by (simp_all add: lead_byte_restore flip: of_nat_add)

lemma encode_decode_text:
  assumes "ak_utf8_decode (Some bs) = r" and "valid r"
  shows "is_scalar (codepoint r) \<and> bs = utf8_encode (codepoint r) @ drop (bytes r) bs \<and>
         bytes r = length (utf8_encode (codepoint r))"
proof -
  have "valid (ak_utf8_decode (Some bs))" using assms by simp
  then show ?thesis
  proof (cases rule: decode_valid_cases)
    case (one a rr)
    then have "r = \<lparr>codepoint = word_of_nat (unat a), bytes = 1, valid = True\<rparr>"
      using assms by (simp add: decode_one)
    with one show ?thesis
      by (simp add: is_scalar_def utf8_encode_def)
  next
    case (two a b rr)
    define m where "m = unat a mod 32 * 64 + unat b mod 64"
    have r: "r = \<lparr>codepoint = word_of_nat m, bytes = 2, valid = (0x80 \<le> m)\<rparr>"
      using assms(1) two by (simp only: decode_two Let_def m_def)
    have m: "m < 2048" "m div 64 = unat a mod 32" "m mod 64 = unat b mod 64"
      using digits2_inv [OF m_def] by (auto simp: m_def)
    then have "utf8_encode (word_of_nat m) = [a, b]"
      using r assms(2) two
      by (simp add: utf8_encode_def cp_word_bound byte_restore del: of_nat_add)
    with r m two assms(2) show ?thesis
      by (simp add: is_scalar_def cp_word_bound)
  next
    case (three a b c rr)
    define m where "m = unat a mod 16 * 4096 + (unat b mod 64 * 64 + unat c mod 64)"
    have r: "r = \<lparr>codepoint = word_of_nat m, bytes = 3,
        valid = (0x800 \<le> m \<and> (m < 0xD800 \<or> 0xDFFF < m))\<rparr>"
      using assms(1) three by (simp only: decode_three Let_def m_def)
    have "unat a mod 16 < 16" by simp
    with low6_pair_less [of "unat b" "unat c"] have m: "m < 65536" by (simp add: m_def)
    with digits3_inv [OF m_def] have "utf8_encode (word_of_nat m) = [a, b, c]"
      using r assms(2) three
      by (simp add: utf8_encode_def cp_word_bound byte_restore del: of_nat_add)
    with r m three assms(2) show ?thesis
      by (simp add: is_scalar_def cp_word_bound)
  next
    case (four a b c d rr)
    define m where "m = unat a mod 8 * 262144 +
      (unat b mod 64 * 4096 + (unat c mod 64 * 64 + unat d mod 64))"
    have r: "r = \<lparr>codepoint = word_of_nat m, bytes = 4, valid = (0x10000 \<le> m \<and> m \<le> 0x10FFFF)\<rparr>"
      using assms(1) four by (simp only: decode_four Let_def m_def)
    with assms(2) digits4_inv [OF m_def] have "utf8_encode (word_of_nat m) = [a, b, c, d]"
      using four
      by (simp add: utf8_encode_def cp_word_bound byte_restore del: of_nat_add)
    with r four assms(2) show ?thesis
      by (simp add: is_scalar_def cp_word_bound)
  qed
qed

lemmas encode_decode =
  encode_decode_text [THEN conjunct1] encode_decode_text [THEN conjunct2, THEN conjunct1]
  encode_decode_text [THEN conjunct2, THEN conjunct2]

section \<open>Texts\<close>

lemma utf8_text_simps [simp]:
  "utf8_text [] = []" "utf8_text (cp # cps) = utf8_encode cp @ utf8_text cps"
  "utf8_text (xs @ ys) = utf8_text xs @ utf8_text ys"
  by (simp_all add: utf8_text_def)

lemma utf8_encode_nonempty [simp]: "utf8_encode cp \<noteq> []"
  using utf8_encode_length(1) [of cp] by auto

lemma decode_text_Cons:
  assumes "drop pos bs = utf8_text (cp # cps)" and "is_scalar cp"
  shows "ak_utf8_decode (Some (drop pos bs)) =
      \<lparr>codepoint = cp, bytes = length (utf8_encode cp), valid = True\<rparr>"
    and "ak_utf8_char_len (Some (drop pos bs)) = length (utf8_encode cp)"
    and "drop (pos + length (utf8_encode cp)) bs = utf8_text cps"
    and "pos < length bs"
proof -
  show d: "ak_utf8_decode (Some (drop pos bs)) =
      \<lparr>codepoint = cp, bytes = length (utf8_encode cp), valid = True\<rparr>"
    using assms decode_encode by simp
  then show "ak_utf8_char_len (Some (drop pos bs)) = length (utf8_encode cp)"
    by (metis ak_utf8_decode_bytes_eq_char_len ak_utf8_decode_result.select_convs(2))
  have "drop (length (utf8_encode cp)) (drop pos bs) = utf8_text cps"
    using assms by simp
  then show "drop (pos + length (utf8_encode cp)) bs = utf8_text cps"
    by (simp add: add.commute)
  show "pos < length bs"
    using assms(1) by (cases "pos < length bs") auto
qed

lemma validate_loop_iff:
  "validate_loop bs pos \<longleftrightarrow> (\<exists>cps. list_all is_scalar cps \<and> drop pos bs = utf8_text cps)"
proof (induction bs pos rule: validate_loop.induct)
  case (1 bs pos)
  define r where "r = ak_utf8_decode (Some (drop pos bs))"
  show ?case
  proof (cases "pos < length bs")
    case False
    then show ?thesis
      by (subst validate_loop.simps) (auto intro: exI [of _ "[]"])
  next
    case True
    have unfold: "validate_loop bs pos \<longleftrightarrow>
        valid r \<and> bytes r \<noteq> 0 \<and> validate_loop bs (pos + bytes r)"
      using True by (subst validate_loop.simps) (simp add: Let_def r_def)
    show ?thesis
    proof
      assume "validate_loop bs pos"
      then have v: "valid r" "bytes r \<noteq> 0" "validate_loop bs (pos + bytes r)"
        using unfold by auto
      then obtain cps where cps: "list_all is_scalar cps" "drop (pos + bytes r) bs = utf8_text cps"
        using 1 True unfolding r_def by auto
      have "drop pos bs = utf8_encode (codepoint r) @ drop (bytes r) (drop pos bs)"
        using encode_decode(2) [OF r_def [symmetric] v(1)] .
      then have "drop pos bs = utf8_text (codepoint r # cps)"
        using cps by (simp add: add.commute)
      moreover have "is_scalar (codepoint r)"
        using encode_decode(1) [OF r_def [symmetric] v(1)] .
      ultimately show "\<exists>cps. list_all is_scalar cps \<and> drop pos bs = utf8_text cps"
        using cps(1) by (intro exI [of _ "codepoint r # cps"]) simp
    next
      assume "\<exists>cps. list_all is_scalar cps \<and> drop pos bs = utf8_text cps"
      then obtain cp cps where cps: "list_all is_scalar (cp # cps)" "drop pos bs = utf8_text (cp # cps)"
        using True by (metis Cons_nth_drop_Suc list.distinct(1) neq_Nil_conv utf8_text_simps(1))
      then have r: "r = \<lparr>codepoint = cp, bytes = length (utf8_encode cp), valid = True\<rparr>"
        and "drop (pos + bytes r) bs = utf8_text cps"
        using decode_text_Cons(1,3) [of pos bs cp cps] by (simp_all add: r_def)
      with cps have "validate_loop bs (pos + bytes r)"
        using 1 True unfolding r_def by auto
      with r show "validate_loop bs pos"
        by (simp add: unfold)
    qed
  qed
qed

lemma char_count_loop_text:
  "list_all is_scalar cps \<Longrightarrow> drop pos bs = utf8_text cps \<Longrightarrow>
   char_count_loop bs pos cnt = cnt + length cps"
proof (induction cps arbitrary: pos cnt)
  case Nil
  then show ?case by (subst char_count_loop.simps) simp
next
  case (Cons cp cps)
  then show ?case
    using decode_text_Cons [of pos bs cp cps]
    by (subst char_count_loop.simps) (simp add: Let_def)
qed

lemma grapheme_loop_text:
  "list_all is_scalar cps \<Longrightarrow> drop pos bs = utf8_text cps \<Longrightarrow>
   grapheme_loop bs pos total_len =
     total_len + length (utf8_text (takeWhile ak_utf8_is_combining_mark cps))"
proof (induction cps arbitrary: pos total_len)
  case Nil
  then show ?case by (subst grapheme_loop.simps) simp
next
  case (Cons cp cps)
  then show ?case
    using decode_text_Cons [of pos bs cp cps]
    by (subst grapheme_loop.simps) (simp add: Let_def)
qed

lemma grapheme_len_text:
  assumes "list_all is_scalar (cp # cps)"
  shows "ak_utf8_grapheme_len (Some (utf8_text (cp # cps))) =
    length (utf8_text (cp # takeWhile ak_utf8_is_combining_mark cps))"
proof -
  let ?bs = "utf8_text (cp # cps)"
  have d: "ak_utf8_char_len (Some ?bs) = length (utf8_encode cp)"
    "valid (ak_utf8_decode (Some ?bs))" "drop (length (utf8_encode cp)) ?bs = utf8_text cps"
    using assms decode_text_Cons [of 0 ?bs cp cps] by simp_all
  with assms grapheme_loop_text [of cps "length (utf8_encode cp)" ?bs] show ?thesis
    by (simp add: ak_utf8_grapheme_len_def Let_def)
qed

lemma grapheme_count_loop_text:
  "list_all is_scalar cps \<Longrightarrow> drop pos bs = utf8_text cps \<Longrightarrow>
   grapheme_count_loop bs pos cnt =
     cnt + (case cps of [] \<Rightarrow> 0
            | cp # cps' \<Rightarrow> Suc (length (filter (\<lambda>c. \<not> ak_utf8_is_combining_mark c) cps')))"
proof (induction cps arbitrary: pos cnt rule: length_induct)
  case (1 cps)
  show ?case
  proof (cases cps)
    case Nil
    with 1 show ?thesis by (subst grapheme_count_loop.simps) simp
  next
    case (Cons cp rest)
    let ?P = ak_utf8_is_combining_mark
    let ?g = "utf8_text (cp # takeWhile ?P rest)"
    have pos: "pos < length bs"
      using 1 Cons decode_text_Cons(4) by auto
    have "drop pos bs = ?g @ utf8_text (dropWhile ?P rest)"
      using 1 Cons by (simp flip: utf8_text_simps(3))
    then have rest: "drop (pos + length ?g) bs = utf8_text (dropWhile ?P rest)"
      by (metis add.commute append_eq_conv_conj drop_drop)
    have len: "ak_utf8_grapheme_len (Some (drop pos bs)) = length ?g"
      using 1 Cons grapheme_len_text by simp
    have "list_all is_scalar (dropWhile ?P rest)"
      using 1 Cons by (auto simp: list_all_iff dest: set_dropWhileD)
    moreover have "length (dropWhile ?P rest) < length cps"
      using Cons by (simp add: length_dropWhile_le le_imp_less_Suc)
    ultimately have "grapheme_count_loop bs (pos + length ?g) (cnt + 1) =
        cnt + 1 + (case dropWhile ?P rest of [] \<Rightarrow> 0
          | cp # cps' \<Rightarrow> Suc (length (filter (\<lambda>c. \<not> ?P c) cps')))"
      using 1(1) rest by blast
    also have "(case dropWhile ?P rest of [] \<Rightarrow> 0
          | cp # cps' \<Rightarrow> Suc (length (filter (\<lambda>c. \<not> ?P c) cps')))
        = length (filter (\<lambda>c. \<not> ?P c) rest)"
      by (induction rest) simp_all
    finally show ?thesis
      using pos len Cons by (subst grapheme_count_loop.simps) (simp add: Let_def)
  qed
qed

lemma encode_first_byte:
  assumes "is_scalar cp"
  shows "\<not> ak_utf8_is_continuation_byte (utf8_encode cp ! 0)"
proof -
  define n where "n = unat cp"
  have "n \<le> 0x10FFFF" using assms by (simp add: is_scalar_def n_def)
  then have "n div 262144 < 16" "n < 65536 \<longrightarrow> n div 4096 < 16" "n < 2048 \<longrightarrow> n div 64 < 32" by auto
  then show ?thesis
    by (auto simp: utf8_encode_def n_def [symmetric] ak_utf8_is_continuation_byte_def byte_class
        unat_byte_of_nat simp del: of_nat_add)
qed

lemma encode_next_bytes:
  assumes "0 < i" and "i < length (utf8_encode cp)"
  shows "ak_utf8_is_continuation_byte (utf8_encode cp ! i)"
proof -
  have c: "ak_utf8_is_continuation_byte (word_of_nat (128 + k mod 64))" for k
    by (simp add: ak_utf8_is_continuation_byte_def byte_class unat_byte_of_nat del: of_nat_add)
  have "b \<in> set (tl (utf8_encode cp)) \<Longrightarrow> ak_utf8_is_continuation_byte b" for b
    using c by (auto simp: utf8_encode_def Let_def simp del: of_nat_add split: if_splits)
  moreover have "utf8_encode cp ! i \<in> set (tl (utf8_encode cp))"
    using assms by (cases "utf8_encode cp") (auto simp: nth_Cons split: nat.splits)
  ultimately show ?thesis by blast
qed

lemma prev_char_loop_back:
  assumes "pos + k < length bs"
    and "\<forall>i. 0 < i \<and> i \<le> k \<longrightarrow> ak_utf8_is_continuation_byte (bs ! (pos + i))"
    and "\<not> ak_utf8_is_continuation_byte (bs ! pos)" and "steps + k \<le> 3"
  shows "prev_char_loop bs (pos + k) steps = Some pos"
  using assms
proof (induction k arbitrary: steps)
  case 0
  then show ?case by (subst prev_char_loop.simps) (simp add: mem_simps)
next
  case (Suc k)
  then have "prev_char_loop bs (pos + k) (steps + 1) = Some pos" by simp
  moreover have "ak_utf8_is_continuation_byte (bs ! (pos + Suc k))"
    using Suc.prems(2) by blast
  ultimately show ?case
    using Suc.prems by (subst prev_char_loop.simps) (simp add: mem_simps)
qed

section \<open>Properties\<close>

text \<open>
  C1: decoding inverts the UTF-8 encoding of every Unicode scalar value, whatever follows
  it, and conversely a sequence that the decoder calls valid starts with the encoding of
  the scalar value it reports: overlong forms, surrogates, values beyond U+10FFFF and
  truncated sequences are all rejected.
\<close>

theorem utf8_decode_roundtrip:
  "valid (ak_utf8_decode (Some bs)) \<and> codepoint (ak_utf8_decode (Some bs)) = cp
     \<and> bytes (ak_utf8_decode (Some bs)) = n
   \<longleftrightarrow> is_scalar cp \<and> n = length (utf8_encode cp) \<and> (\<exists>rest. bs = utf8_encode cp @ rest)"
  using encode_decode [OF refl, of bs] decode_encode [of cp] by auto

text \<open>
  C2: the validator accepts exactly the byte sequences that are the concatenated UTF-8
  encodings of some sequence of Unicode scalar values.
\<close>

theorem utf8_validate_iff:
  "ak_utf8_validate (Some bs) \<longleftrightarrow> (\<exists>cps. list_all is_scalar cps \<and> bs = utf8_text cps)"
  by (simp add: ak_utf8_validate_def validate_loop_iff)

text \<open>
  On the encoding of a sequence of scalar values, the character count is the length
  of the sequence and the grapheme count is the number of clusters: one for the first
  character and one more for every later character that is not a combining mark.
\<close>

theorem utf8_counts_text:
  assumes "list_all is_scalar cps"
  shows "ak_utf8_char_count (Some (utf8_text cps)) = length cps \<and>
    ak_utf8_grapheme_count (Some (utf8_text cps)) =
      (case cps of [] \<Rightarrow> 0
       | cp # cps' \<Rightarrow> Suc (length (filter (\<lambda>c. \<not> ak_utf8_is_combining_mark c) cps')))"
  using assms char_count_loop_text [of cps 0 "utf8_text cps" 0]
    grapheme_count_loop_text [of cps 0 "utf8_text cps" 0]
  by (simp_all add: ak_utf8_char_count_def ak_utf8_grapheme_count_def)

theorem utf8_counts_text_witness:
  "ak_utf8_char_count (Some (utf8_text [0x65, 0x301, 0x20AC, 0x1F600])) = 4
   \<and> ak_utf8_grapheme_count (Some (utf8_text [0x65, 0x301, 0x20AC, 0x1F600])) = 3"
proof -
  have "list_all is_scalar [0x65, 0x301, 0x20AC, 0x1F600]"
    by (simp add: is_scalar_def)
  from utf8_counts_text [OF this] show ?thesis
    by (simp add: ak_utf8_is_combining_mark_def in_ranges_def)
qed

text \<open>
  Stepping back from the end of a character of a valid text, with any text before it
  and any bytes after it, lands on the first byte of that character.
\<close>

theorem utf8_prev_char_text:
  assumes "list_all is_scalar (cps @ [cp])"
  shows "ak_utf8_prev_char (utf8_text (cps @ [cp]) @ rest) (length (utf8_text (cps @ [cp])))
         = Some (length (utf8_text cps))"
proof -
  let ?pre = "utf8_text cps" and ?e = "utf8_encode cp"
  let ?bs = "?pre @ ?e @ rest"
  have nth: "?bs ! (length ?pre + i) = ?e ! i" if "i < length ?e" for i
    using that by (simp add: nth_append)
  have "prev_char_loop ?bs (length ?pre + (length ?e - 1)) 0 = Some (length ?pre)"
  proof (rule prev_char_loop_back)
    show "\<not> ak_utf8_is_continuation_byte (?bs ! length ?pre)"
      using assms encode_first_byte [of cp] nth [of 0] by simp
    show "\<forall>i. 0 < i \<and> i \<le> length ?e - 1 \<longrightarrow>
        ak_utf8_is_continuation_byte (?bs ! (length ?pre + i))"
      using encode_next_bytes [of _ cp] nth utf8_encode_length(1) [of cp] by fastforce
    show "length ?pre + (length ?e - 1) < length ?bs"
      using utf8_encode_length(1) [of cp] by simp
    show "0 + (length ?e - 1) \<le> 3"
      using utf8_encode_length(2) [of cp] by simp
  qed
  then show ?thesis
    using utf8_encode_length(1) [of cp] by (simp add: ak_utf8_prev_char_def)
qed

theorem utf8_prev_char_text_witness:
  "ak_utf8_prev_char (utf8_text ([0x61] @ [0x20AC]) @ [0x62])
     (length (utf8_text ([0x61] @ [0x20AC]))) = Some 1"
proof -
  have "list_all is_scalar ([0x61] @ [0x20AC])"
    by (simp add: is_scalar_def)
  from utf8_prev_char_text [OF this] show ?thesis
    by (simp add: utf8_encode_def)
qed

lemma is_start_byte_range:
  "ak_utf8_is_start_byte b \<longleftrightarrow> unat b < 128 \<or> (192 \<le> unat b \<and> unat b < 254)"
  using unat_byte_less [of b] by (auto simp: ak_utf8_is_start_byte_def byte_class)

end
