(* ===== verification/Buffer.thy ===== *)
theory Buffer
  imports Prelude
begin

text \<open>
  Model of kernel/buffer/src/buffer.c: the growable byte buffer. A buffer is a record of
  the fields of \<open>ak_buffer_t\<close>; \<open>buf_data\<close> is the allocated array, whose length is the
  capacity, with arbitrary contents beyond \<open>buf_count\<close>. Operations that copy or index
  memory return an outer \<open>option\<close>, \<open>None\<close> being an access outside an array or a loop
  that does not end.

  The lemmas show that the operations keep the invariant \<open>buf_ok\<close>, never touch memory
  outside the arrays, and act on the contents \<open>buf_bytes\<close> as the list operations
  append, rotate, trim, slice and split.
\<close>

section \<open>Definitions\<close>

record ak_buffer =
  buf_data :: "u8 list"
  buf_capacity :: nat
  buf_count :: nat
  buf_origin_offset :: nat

abbreviation MIN_BUFFER_SIZE :: nat where
  "MIN_BUFFER_SIZE \<equiv> 16"

definition ak_buffer_new :: "nat \<Rightarrow> byte_sched \<Rightarrow> ak_buffer option \<times> byte_sched" where
  "ak_buffer_new initial_size s =
     (case sys_alloc s of
        (None, s1) \<Rightarrow> (None, s1)
      | (Some _, s1) \<Rightarrow>
          let initial_size =
            (if initial_size < MIN_BUFFER_SIZE then MIN_BUFFER_SIZE else initial_size) in
          (case alloc_bytes initial_size s1 of
             (None, s2) \<Rightarrow> (None, s2)
           | (Some d, s2) \<Rightarrow>
               (Some \<lparr>buf_data = d, buf_capacity = initial_size, buf_count = 0,
                      buf_origin_offset = 0\<rparr>, s2)))"

text \<open>
  What the C library does with a file is a parameter: whether opening, the two seeks and
  closing succeed, the size \<open>ftell\<close> reports, the bytes \<open>fread\<close> delivers and the error
  flag.
\<close>

record file_env =
  f_open :: bool
  f_seek_end :: bool
  f_tell :: int
  f_seek_set :: bool
  f_bytes :: "u8 list"
  f_error :: bool
  f_close :: bool

definition ak_buffer_from_file ::
  "string option \<Rightarrow> file_env \<Rightarrow> byte_sched \<Rightarrow> (ak_buffer option \<times> byte_sched) option" where
  "ak_buffer_from_file filepath env s =
     (case filepath of None \<Rightarrow> Some (None, s)
      | Some _ \<Rightarrow>
        if \<not> f_open env then Some (None, s)
        else if \<not> f_seek_end env then Some (None, s)
        else if f_tell env < 0 then Some (None, s)
        else if \<not> f_seek_set env then Some (None, s)
        else let file_size = nat (f_tell env) in
        (case ak_buffer_new file_size s of
           (None, s') \<Rightarrow> Some (None, s')
         | (Some b, s') \<Rightarrow> do {
             r \<leftarrow> (if file_size > 0
                  then let bytes_read = min (length (f_bytes env)) file_size in do {
                    d \<leftarrow> mem_copy (buf_data b) 0 (f_bytes env) 0 bytes_read;
                    if f_error env then Some None
                    else if bytes_read \<noteq> file_size then Some None
                    else Some (Some (b\<lparr>buf_data := d, buf_count := bytes_read\<rparr>)) }
                  else Some (Some b));
             Some (case r of None \<Rightarrow> None
                   | Some b' \<Rightarrow> if f_close env then Some b' else None, s') }))"

text \<open>The doubling loop of \<open>ak_buffer_copy_to\<close>; \<open>*= 2\<close> wraps, so it may not end.\<close>

partial_function (option) grow_capacity :: "nat \<Rightarrow> nat \<Rightarrow> nat option" where
  "grow_capacity new_capacity required =
     (if new_capacity < required then grow_capacity (sz_mul new_capacity 2) required
      else Some new_capacity)"

definition ak_buffer_copy_to ::
  "ak_buffer option \<Rightarrow> u8 list option \<Rightarrow> nat \<Rightarrow> byte_sched
   \<Rightarrow> (int \<times> ak_buffer option \<times> byte_sched) option" where
  "ak_buffer_copy_to buffer src len s =
     (case (buffer, src) of
        (Some b, Some src) \<Rightarrow>
          if len = 0 then Some (0, buffer, s)
          else let required = sz_add (buf_count b) len in do {
            (ok, b', s') \<leftarrow>
              (if required > buf_capacity b then do {
                 new_capacity \<leftarrow> grow_capacity (buf_capacity b) required;
                 case realloc_bytes (buf_data b) new_capacity s of
                   (None, s') \<Rightarrow> Some (False, b, s')
                 | (Some new_data, s') \<Rightarrow>
                     Some (True, b\<lparr>buf_data := new_data, buf_capacity := new_capacity\<rparr>, s') }
               else Some (True, b, s));
            if \<not> ok then Some (-1, Some b', s')
            else do {
              d \<leftarrow> mem_copy (buf_data b') (buf_count b') src 0 len;
              Some (0, Some (b'\<lparr>buf_data := d, buf_count := sz_add (buf_count b') len\<rparr>), s') } }
      | _ \<Rightarrow> Some (-1, buffer, s))"

definition ak_buffer_count :: "ak_buffer option \<Rightarrow> nat" where
  "ak_buffer_count buffer = (case buffer of None \<Rightarrow> 0 | Some b \<Rightarrow> buf_count b)"

definition ak_buffer_data :: "ak_buffer option \<Rightarrow> u8 list option" where
  "ak_buffer_data buffer = map_option buf_data buffer"

definition ak_buffer_clear :: "ak_buffer option \<Rightarrow> ak_buffer option" where
  "ak_buffer_clear buffer = map_option (\<lambda>b. b\<lparr>buf_count := 0\<rparr>) buffer"

definition ak_buffer_shrink_to_fit ::
  "ak_buffer option \<Rightarrow> byte_sched \<Rightarrow> int \<times> ak_buffer option \<times> byte_sched" where
  "ak_buffer_shrink_to_fit buffer s =
     (case buffer of None \<Rightarrow> (-1, None, s)
      | Some b \<Rightarrow>
          if buf_count b = 0 then (0, Some b, s)
          else if buf_count b \<ge> buf_capacity b then (0, Some b, s)
          else (case realloc_bytes (buf_data b) (buf_count b) s of
                  (None, s') \<Rightarrow> (-1, Some b, s')
                | (Some new_data, s') \<Rightarrow>
                    (0, Some (b\<lparr>buf_data := new_data, buf_capacity := buf_count b\<rparr>), s')))"

text \<open>
  \<open>ak_buffer_for_each\<close>: the callback gets the byte, its index and its own data; it may
  write the byte and its data, and its result moves the index (\<open>size_t\<close> plus \<open>int\<close>,
  which wraps).
\<close>

type_synonym 'c iterator_fn = "u8 \<Rightarrow> nat \<Rightarrow> 'c \<Rightarrow> int \<times> u8 \<times> 'c"

partial_function (option) for_each_loop ::
  "'c iterator_fn \<Rightarrow> ak_buffer \<Rightarrow> nat \<Rightarrow> 'c \<Rightarrow> (ak_buffer \<times> 'c) option" where
  "for_each_loop fn b idx cb =
     (if idx < buf_count b
      then Option.bind (mem_read (buf_data b) idx) (\<lambda>x.
        case fn x idx cb of (result, x', cb') \<Rightarrow>
          let b' = b\<lparr>buf_data := (buf_data b)[idx := x']\<rparr> in
          if result = 0 then Some (b', cb')
          else if result = 1 then for_each_loop fn b' (idx + 1) cb'
          else for_each_loop fn b' (nat ((int idx + result) mod 2 ^ 64)) cb')
      else Some (b, cb))"

definition ak_buffer_for_each ::
  "ak_buffer option \<Rightarrow> 'c iterator_fn option \<Rightarrow> 'c \<Rightarrow> (ak_buffer option \<times> 'c) option" where
  "ak_buffer_for_each buffer fn cb =
     (case (buffer, fn) of
        (Some b, Some f) \<Rightarrow> map_option (\<lambda>(b', c). (Some b', c)) (for_each_loop f b 0 cb)
      | _ \<Rightarrow> Some (buffer, cb))"

text \<open>
  \<open>ak_buffer_sub_buffer\<close> returns the new buffer and the value stored in
  \<open>*bytes_copied\<close> when that pointer is not NULL; \<open>(int)\<close> keeps the low 32 bits.
\<close>

definition to_int32 :: "nat \<Rightarrow> int" where
  "to_int32 n = sint (word_of_nat n :: u32)"

definition ak_buffer_sub_buffer ::
  "ak_buffer option \<Rightarrow> nat \<Rightarrow> nat \<Rightarrow> byte_sched
   \<Rightarrow> (ak_buffer option \<times> int \<times> byte_sched) option" where
  "ak_buffer_sub_buffer buffer offset len s =
     (case buffer of None \<Rightarrow> Some (None, 0, s)
      | Some b \<Rightarrow>
          if offset \<ge> buf_count b then Some (None, 0, s)
          else let available = buf_count b - offset;
                   actual_length = (if len > available then available else len) in
          if actual_length = 0 then
            (case ak_buffer_new MIN_BUFFER_SIZE s of (r, s') \<Rightarrow>
               Some (map_option
                       (\<lambda>sb. sb\<lparr>buf_origin_offset := sz_add (buf_origin_offset b) offset\<rparr>) r,
                     0, s'))
          else
            (case ak_buffer_new actual_length s of
               (None, s') \<Rightarrow> Some (None, 0, s')
             | (Some sb, s') \<Rightarrow> do {
                 d \<leftarrow> mem_copy (buf_data sb) 0 (buf_data b) offset actual_length;
                 Some (Some (sb\<lparr>buf_data := d, buf_count := actual_length,
                                buf_origin_offset := sz_add (buf_origin_offset b) offset\<rparr>),
                       to_int32 actual_length, s') }))"

definition ak_buffer_rotate_left ::
  "ak_buffer option \<Rightarrow> nat \<Rightarrow> byte_sched \<Rightarrow> (ak_buffer option \<times> byte_sched) option" where
  "ak_buffer_rotate_left buffer n s =
     (case buffer of None \<Rightarrow> Some (None, s)
      | Some b \<Rightarrow>
          if buf_count b = 0 \<or> n = 0 then Some (Some b, s)
          else let n = n mod buf_count b in
          if n = 0 then Some (Some b, s)
          else (case alloc_bytes n s of
                  (None, s') \<Rightarrow> Some (Some b, s')
                | (Some temp, s') \<Rightarrow> do {
                    temp \<leftarrow> mem_copy temp 0 (buf_data b) 0 n;
                    d \<leftarrow> mem_copy (buf_data b) 0 (buf_data b) n (buf_count b - n);
                    d \<leftarrow> mem_copy d (buf_count b - n) temp 0 n;
                    Some (Some (b\<lparr>buf_data := d\<rparr>), s') }))"

definition ak_buffer_rotate_right ::
  "ak_buffer option \<Rightarrow> nat \<Rightarrow> byte_sched \<Rightarrow> (ak_buffer option \<times> byte_sched) option" where
  "ak_buffer_rotate_right buffer n s =
     (case buffer of None \<Rightarrow> Some (None, s)
      | Some b \<Rightarrow>
          if buf_count b = 0 \<or> n = 0 then Some (Some b, s)
          else let n = n mod buf_count b in
          if n = 0 then Some (Some b, s)
          else (case alloc_bytes n s of
                  (None, s') \<Rightarrow> Some (Some b, s')
                | (Some temp, s') \<Rightarrow> do {
                    temp \<leftarrow> mem_copy temp 0 (buf_data b) (buf_count b - n) n;
                    d \<leftarrow> mem_copy (buf_data b) n (buf_data b) 0 (buf_count b - n);
                    d \<leftarrow> mem_copy d 0 temp 0 n;
                    Some (Some (b\<lparr>buf_data := d\<rparr>), s') }))"

function trim_left_loop :: "u8 list \<Rightarrow> nat \<Rightarrow> u8 \<Rightarrow> nat \<Rightarrow> nat option" where
  "trim_left_loop d cnt byte trim_count =
     (if trim_count < cnt
      then do {
        x \<leftarrow> mem_read d trim_count;
        if x = byte then trim_left_loop d cnt byte (trim_count + 1) else Some trim_count }
      else Some trim_count)"
  by pat_completeness auto
termination
  by (relation "measure (\<lambda>(d, cnt, byte, trim_count). cnt - trim_count)") auto

function trim_right_loop :: "u8 list \<Rightarrow> nat \<Rightarrow> u8 \<Rightarrow> nat \<Rightarrow> nat option" where
  "trim_right_loop d cnt byte trim_count =
     (if trim_count < cnt
      then do {
        x \<leftarrow> mem_read d (cnt - 1 - trim_count);
        if x = byte then trim_right_loop d cnt byte (trim_count + 1) else Some trim_count }
      else Some trim_count)"
  by pat_completeness auto
termination
  by (relation "measure (\<lambda>(d, cnt, byte, trim_count). cnt - trim_count)") auto

declare trim_left_loop.simps [simp del] trim_right_loop.simps [simp del]

definition ak_buffer_trim_left ::
  "ak_buffer option \<Rightarrow> u8 \<Rightarrow> byte_sched \<Rightarrow> (int \<times> ak_buffer option \<times> byte_sched) option" where
  "ak_buffer_trim_left buffer byte s =
     (case buffer of None \<Rightarrow> Some (-1, None, s)
      | Some b \<Rightarrow>
          if buf_count b = 0 then Some (0, Some b, s)
          else do {
            trim_count \<leftarrow> trim_left_loop (buf_data b) (buf_count b) byte 0;
            if trim_count = 0 then Some (0, Some b, s)
            else if trim_count = buf_count b
            then Some (ak_buffer_shrink_to_fit (Some (b\<lparr>buf_count := 0\<rparr>)) s)
            else do {
              d \<leftarrow> mem_copy (buf_data b) 0 (buf_data b) trim_count (buf_count b - trim_count);
              Some (ak_buffer_shrink_to_fit
                      (Some (b\<lparr>buf_data := d, buf_count := buf_count b - trim_count\<rparr>)) s) } })"

definition ak_buffer_trim_right ::
  "ak_buffer option \<Rightarrow> u8 \<Rightarrow> byte_sched \<Rightarrow> (int \<times> ak_buffer option \<times> byte_sched) option" where
  "ak_buffer_trim_right buffer byte s =
     (case buffer of None \<Rightarrow> Some (-1, None, s)
      | Some b \<Rightarrow>
          if buf_count b = 0 then Some (0, Some b, s)
          else do {
            trim_count \<leftarrow> trim_right_loop (buf_data b) (buf_count b) byte 0;
            if trim_count = 0 then Some (0, Some b, s)
            else Some (ak_buffer_shrink_to_fit
                         (Some (b\<lparr>buf_count := buf_count b - trim_count\<rparr>)) s) })"

definition ak_buffer_copy ::
  "ak_buffer option \<Rightarrow> byte_sched \<Rightarrow> (ak_buffer option \<times> byte_sched) option" where
  "ak_buffer_copy buffer s =
     (case buffer of None \<Rightarrow> Some (None, s)
      | Some b \<Rightarrow>
          (case ak_buffer_new (buf_capacity b) s of
             (None, s') \<Rightarrow> Some (None, s')
           | (Some c, s') \<Rightarrow> do {
               c \<leftarrow> (if buf_count b > 0
                    then do {
                      d \<leftarrow> mem_copy (buf_data c) 0 (buf_data b) 0 (buf_count b);
                      Some (c\<lparr>buf_data := d, buf_count := buf_count b\<rparr>) }
                    else Some c);
               Some (Some (c\<lparr>buf_origin_offset := buf_origin_offset b\<rparr>), s') }))"

record split_buffer =
  split_left :: "ak_buffer option"
  split_right :: "ak_buffer option"

definition split_capacity :: "nat \<Rightarrow> nat \<Rightarrow> nat" where
  "split_capacity content_size limit =
     (let cap = (if content_size < limit then content_size else limit) in
      if cap < MIN_BUFFER_SIZE \<and> content_size > 0 then MIN_BUFFER_SIZE
      else if cap = 0 \<and> content_size = 0 then MIN_BUFFER_SIZE
      else cap)"

definition fill_part :: "ak_buffer \<Rightarrow> u8 list \<Rightarrow> nat \<Rightarrow> nat \<Rightarrow> ak_buffer option" where
  "fill_part p src off n =
     (if n > 0
      then do { d \<leftarrow> mem_copy (buf_data p) 0 src off n;
                Some (p\<lparr>buf_data := d, buf_count := n\<rparr>) }
      else Some p)"

definition ak_buffer_split ::
  "ak_buffer option \<Rightarrow> nat \<Rightarrow> nat \<Rightarrow> nat \<Rightarrow> byte_sched \<Rightarrow> (split_buffer \<times> byte_sched) option" where
  "ak_buffer_split buffer index l r s =
     (case buffer of None \<Rightarrow> Some (\<lparr>split_left = None, split_right = None\<rparr>, s)
      | Some b \<Rightarrow>
        if index > buf_count b then Some (\<lparr>split_left = None, split_right = None\<rparr>, s)
        else
        let left_content_size = index;
            right_content_size = buf_count b - index;
            left_capacity = split_capacity left_content_size l;
            right_capacity = split_capacity right_content_size r in
        (case ak_buffer_new left_capacity s of
           (None, s1) \<Rightarrow> Some (\<lparr>split_left = None, split_right = None\<rparr>, s1)
         | (Some lb, s1) \<Rightarrow>
             (case ak_buffer_new right_capacity s1 of
                (None, s2) \<Rightarrow> Some (\<lparr>split_left = None, split_right = None\<rparr>, s2)
              | (Some rb, s2) \<Rightarrow> do {
                  lb \<leftarrow> fill_part lb (buf_data b) 0 left_content_size;
                  rb \<leftarrow> fill_part rb (buf_data b) index right_content_size;
                  Some (\<lparr>split_left = Some lb, split_right = Some rb\<rparr>, s2) })))"

definition ak_split_buffer_free :: "split_buffer option \<Rightarrow> split_buffer option" where
  "ak_split_buffer_free split =
     map_option (\<lambda>sp. sp\<lparr>split_left := None, split_right := None\<rparr>) split"

text \<open>The invariant of a buffer and the contents it stands for.\<close>

definition buf_ok :: "ak_buffer \<Rightarrow> bool" where
  "buf_ok b \<longleftrightarrow> length (buf_data b) = buf_capacity b \<and> buf_count b \<le> buf_capacity b
     \<and> 0 < buf_capacity b \<and> buf_capacity b < SIZE_RANGE"

definition buf_bytes :: "ak_buffer \<Rightarrow> u8 list" where
  "buf_bytes b = take (buf_count b) (buf_data b)"

text \<open>What a callback that always asks for the next byte does to a run of bytes.\<close>

fun visit_all :: "'c iterator_fn \<Rightarrow> nat \<Rightarrow> u8 list \<Rightarrow> 'c \<Rightarrow> u8 list \<times> 'c" where
  "visit_all fn i [] cb = ([], cb)"
| "visit_all fn i (x # xs) cb =
     (case fn x i cb of (_, x', cb') \<Rightarrow>
        case visit_all fn (Suc i) xs cb' of (xs', cb'') \<Rightarrow> (x' # xs', cb''))"

section \<open>Allocation and growth\<close>

lemma length_buf_bytes: "buf_ok b \<Longrightarrow> length (buf_bytes b) = buf_count b"
  by (simp add: buf_ok_def buf_bytes_def)

lemma ak_buffer_new_Some:
  assumes "ak_buffer_new n s = (Some b, s')"
  shows "buf_capacity b = max MIN_BUFFER_SIZE n" and "length (buf_data b) = max MIN_BUFFER_SIZE n"
    and "buf_count b = 0" and "buf_bytes b = []" and "buf_origin_offset b = 0"
  using assms
  by (auto simp: ak_buffer_new_def Let_def buf_bytes_def max_def split: prod.splits option.splits if_splits
      dest: alloc_bytes_length)

lemma ak_buffer_new_ok:
  "ak_buffer_new n s = (Some b, s') \<Longrightarrow> n < SIZE_RANGE \<Longrightarrow> buf_ok b"
  using ak_buffer_new_Some [of n s b s'] by (auto simp: buf_ok_def)

lemma ak_buffer_new_succeeds:
  "ak_buffer_new n (Some g1 # Some g2 # s) = (Some b, s') \<longleftrightarrow>
   s' = s \<and> b = \<lparr>buf_data = map g2 [0..<max MIN_BUFFER_SIZE n], buf_capacity = max MIN_BUFFER_SIZE n,
                  buf_count = 0, buf_origin_offset = 0\<rparr>"
  by (auto simp: ak_buffer_new_def alloc_bytes_def Let_def max_def)

lemma grow_capacity_terminates:
  assumes "0 < c" and "c < SIZE_RANGE" and "required \<le> 2 ^ 63"
  shows "\<exists>c'. grow_capacity c required = Some c' \<and> required \<le> c' \<and> c \<le> c' \<and> c' < SIZE_RANGE"
  using assms
proof (induction "required - c" arbitrary: c rule: less_induct)
  case less
  show ?case
  proof (cases "c < required")
    case True
    with less.prems have "sz_mul c 2 = c * 2"
      by (intro sz_mul_exact) simp
    moreover have "required - c * 2 < required - c" and "c * 2 < SIZE_RANGE"
      using True less.prems by simp_all
    ultimately obtain c' where "grow_capacity (c * 2) required = Some c'" "required \<le> c'"
        "c * 2 \<le> c'" "c' < SIZE_RANGE"
      using less.hyps [of "c * 2"] less.prems by auto
    with True \<open>sz_mul c 2 = c * 2\<close> show ?thesis
      by (subst grow_capacity.simps) auto
  next
    case False
    with less.prems show ?thesis by (subst grow_capacity.simps) auto
  qed
qed

lemma grow_capacity_result:
  assumes "grow_capacity c required = Some c'" and "c < SIZE_RANGE"
  shows "\<exists>k. c' = c * 2 ^ k mod SIZE_RANGE \<and> required \<le> c'"
proof -
  have "c < SIZE_RANGE \<longrightarrow> (\<exists>k. c' = c * 2 ^ k mod SIZE_RANGE \<and> required \<le> c')"
  proof (rule grow_capacity.raw_induct [OF _ assms(1), where
        P = "\<lambda>c r c'. c < SIZE_RANGE \<longrightarrow> (\<exists>k. c' = c * 2 ^ k mod SIZE_RANGE \<and> r \<le> c')"])
    fix grow c r c'
    assume IH: "\<And>c r c'. grow c r = Some c' \<Longrightarrow>
        c < SIZE_RANGE \<longrightarrow> (\<exists>k. c' = c * 2 ^ k mod SIZE_RANGE \<and> r \<le> c')"
      and eq: "(if c < r then grow (sz_mul c 2) r else Some c) = Some c'"
    show "c < SIZE_RANGE \<longrightarrow> (\<exists>k. c' = c * 2 ^ k mod SIZE_RANGE \<and> r \<le> c')"
    proof (cases "c < r")
      case True
      have "sz_mul c 2 < SIZE_RANGE" by (simp add: sz_mul_def)
      with True eq IH [of "sz_mul c 2" r c'] obtain k
        where k: "c' = sz_mul c 2 * 2 ^ k mod SIZE_RANGE" "r \<le> c'" by auto
      have "c' = c * 2 ^ Suc k mod SIZE_RANGE"
        unfolding k(1) sz_mul_def by (simp add: mod_mult_left_eq mult.assoc)
      with k(2) show ?thesis by blast
    next
      case False
      with eq show ?thesis by (auto intro: exI [of _ 0])
    qed
  qed
  with assms(2) show ?thesis by blast
qed

lemma power_mod_size: "2 ^ j mod SIZE_RANGE \<le> 2 ^ 63"
proof (cases "j \<le> 63")
  case True
  then have "(2::nat) ^ j \<le> 2 ^ 63" by (rule power_increasing) simp
  then show ?thesis by simp
next
  case False
  then have "SIZE_RANGE dvd 2 ^ j" by (intro le_imp_power_dvd) simp
  then show ?thesis by simp
qed

lemma grow_capacity_diverges:
  assumes "j < 64" and "2 ^ 63 < required"
  shows "grow_capacity (2 ^ j) required = None"
proof (rule ccontr)
  assume "grow_capacity (2 ^ j) required \<noteq> None"
  then obtain c' where "grow_capacity (2 ^ j) required = Some c'" by auto
  moreover have "(2::nat) ^ j < SIZE_RANGE" using assms(1) by (rule power_strict_increasing) simp
  ultimately obtain k where "c' = 2 ^ j * 2 ^ k mod SIZE_RANGE" "required \<le> c'"
    using grow_capacity_result by blast
  then have "required \<le> 2 ^ (j + k) mod SIZE_RANGE" by (simp add: power_add)
  with power_mod_size [of "j + k"] assms(2) show False by linarith
qed

lemma realloc_bytes_cases:
  obtains "realloc_bytes old n s = (None, tl s)"
  | new where "realloc_bytes old n s = (Some new, tl s)" "length new = n"
      "\<And>m. m \<le> n \<Longrightarrow> m \<le> length old \<Longrightarrow> take m new = take m old"
proof (cases "fst (realloc_bytes old n s)")
  case None
  with that(1) show ?thesis
    by (cases s) (auto simp: realloc_bytes_def)
next
  case (Some new)
  then have "realloc_bytes old n s = (Some new, tl s)"
    by (cases s) (auto simp: realloc_bytes_def)
  with that(2) show ?thesis
    using realloc_bytes_length realloc_bytes_take by blast
qed

lemma append_bytes:
  assumes "length d = cap" "cnt + len \<le> cap" "len \<le> length src"
    "mem_copy d cnt src 0 len = Some d'"
  shows "take (cnt + len) d' = take cnt d @ take len src" "length d' = cap"
  using assms by (auto simp: mem_copy_def)

lemma copy_to_correct:
  assumes ok: "buf_ok b" and src: "len \<le> length src" and small: "buf_count b + len \<le> 2 ^ 63"
  shows "\<exists>rc b' s'. ak_buffer_copy_to (Some b) (Some src) len s = Some (rc, Some b', s')
     \<and> buf_ok b' \<and> (rc = 0 \<and> buf_bytes b' = buf_bytes b @ take len src \<or> rc = -1 \<and> b' = b)
     \<and> buf_origin_offset b' = buf_origin_offset b"
proof (cases "len = 0")
  case True
  with ok show ?thesis by (simp add: ak_buffer_copy_to_def)
next
  case False
  let ?req = "buf_count b + len"
  have req: "sz_add (buf_count b) len = ?req"
    using small by (intro sz_add_exact) simp
  show ?thesis
  proof (cases "?req > buf_capacity b")
    case fits: False
    then have "mem_copy (buf_data b) (buf_count b) src 0 len \<noteq> None"
      using ok src by (simp add: mem_copy_def buf_ok_def)
    then obtain d where d: "mem_copy (buf_data b) (buf_count b) src 0 len = Some d" by auto
    with append_bytes [OF _ _ src d, of "buf_capacity b"] ok fits req False show ?thesis
      by (auto simp: ak_buffer_copy_to_def buf_ok_def buf_bytes_def)
  next
    case True
    obtain nc where nc: "grow_capacity (buf_capacity b) ?req = Some nc" "?req \<le> nc"
        "buf_capacity b \<le> nc" "nc < SIZE_RANGE"
      using grow_capacity_terminates [of "buf_capacity b" ?req] ok small by (auto simp: buf_ok_def)
    show ?thesis
    proof (cases rule: realloc_bytes_cases [of "buf_data b" nc s])
      case 1
      with ok req True False nc show ?thesis
        by (auto simp: ak_buffer_copy_to_def)
    next
      case (2 new)
      then have "mem_copy new (buf_count b) src 0 len \<noteq> None"
        using src nc by (simp add: mem_copy_def)
      then obtain d where d: "mem_copy new (buf_count b) src 0 len = Some d" by auto
      have "take (buf_count b) new = take (buf_count b) (buf_data b)"
        using 2(3) ok nc True by (auto simp: buf_ok_def)
      with append_bytes [OF 2(2) nc(2) src d] 2 ok req True False nc d show ?thesis
        by (auto simp: ak_buffer_copy_to_def buf_ok_def buf_bytes_def)
    qed
  qed
qed

section \<open>Rotation and trimming\<close>

lemma alloc_bytes_cases:
  obtains "alloc_bytes n s = (None, tl s)"
  | d where "alloc_bytes n s = (Some d, tl s)" "length d = n"
proof (cases "fst (alloc_bytes n s)")
  case None
  with that(1) show ?thesis by (cases s) (auto simp: alloc_bytes_def)
next
  case (Some d)
  then have "alloc_bytes n s = (Some d, tl s)" by (cases s) (auto simp: alloc_bytes_def)
  with that(2) show ?thesis using alloc_bytes_length by blast
qed

lemma rotate_left_correct:
  assumes "buf_ok b"
  shows "\<exists>b' s'. ak_buffer_rotate_left (Some b) n s = Some (Some b', s') \<and> buf_ok b'
    \<and> (buf_bytes b' = rotate n (buf_bytes b) \<or> b' = b \<and> (\<exists>s1. s = None # s1 \<or> s = []))"
proof (cases "buf_count b = 0 \<or> n mod buf_count b = 0")
  case True
  then show ?thesis
    using assms by (auto simp: ak_buffer_rotate_left_def buf_bytes_def buf_ok_def Let_def)
next
  case False
  define m where "m = n mod buf_count b"
  have m: "0 < m" "m < buf_count b" using False by (auto simp: m_def)
  have n: "n \<noteq> 0" using m(1) by (cases n) (simp_all add: m_def)
  let ?d = "buf_data b" and ?c = "buf_count b"
  have len: "?c \<le> length ?d" using assms by (simp add: buf_ok_def)
  show ?thesis
  proof (cases rule: alloc_bytes_cases [of m s])
    case 1
    then have "s = [] \<or> (\<exists>s1. s = None # s1)"
      by (cases s) (auto simp: alloc_bytes_def)
    with 1 False assms show ?thesis
      by (auto simp: ak_buffer_rotate_left_def Let_def m_def)
  next
    case (2 t)
    have "mem_copy t 0 ?d 0 m = Some (take m ?d)"
      using 2 m len by (simp add: mem_copy_def)
    moreover have "mem_copy ?d 0 ?d m (?c - m) = Some (take (?c - m) (drop m ?d) @ drop (?c - m) ?d)"
      using m len by (simp add: mem_copy_def)
    moreover have "mem_copy (take (?c - m) (drop m ?d) @ drop (?c - m) ?d) (?c - m) (take m ?d) 0 m
        = Some (take (?c - m) (drop m ?d) @ take m ?d @ drop ?c ?d)"
      using m len by (simp add: mem_copy_def)
    ultimately have "ak_buffer_rotate_left (Some b) n s =
        Some (Some (b\<lparr>buf_data := take (?c - m) (drop m ?d) @ take m ?d @ drop ?c ?d\<rparr>), tl s)"
      using 2 False m n by (simp add: ak_buffer_rotate_left_def Let_def m_def [symmetric])
    moreover have "take ?c (take (?c - m) (drop m ?d) @ take m ?d @ drop ?c ?d) = rotate n (take ?c ?d)"
    proof -
      have "rotate n (take ?c ?d) = drop m (take ?c ?d) @ take m (take ?c ?d)"
        using len by (simp add: rotate_drop_take m_def)
      then show ?thesis
        using m len by (simp add: drop_take min.absorb1)
    qed
    ultimately show ?thesis
      using assms m by (auto simp: buf_ok_def buf_bytes_def)
  qed
qed

lemma rotate_right_correct:
  assumes "buf_ok b"
  shows "\<exists>b' s'. ak_buffer_rotate_right (Some b) n s = Some (Some b', s') \<and> buf_ok b'
    \<and> (rotate n (buf_bytes b') = buf_bytes b \<or> b' = b \<and> (\<exists>s1. s = None # s1 \<or> s = []))"
proof (cases "buf_count b = 0 \<or> n mod buf_count b = 0")
  case True
  then show ?thesis
    using assms by (auto simp: ak_buffer_rotate_right_def buf_bytes_def buf_ok_def Let_def)
next
  case False
  define m where "m = n mod buf_count b"
  have m: "0 < m" "m < buf_count b" using False by (auto simp: m_def)
  have n: "n \<noteq> 0" using m(1) by (cases n) (simp_all add: m_def)
  let ?d = "buf_data b" and ?c = "buf_count b"
  have len: "?c \<le> length ?d" using assms by (simp add: buf_ok_def)
  show ?thesis
  proof (cases rule: alloc_bytes_cases [of m s])
    case 1
    then have "s = [] \<or> (\<exists>s1. s = None # s1)"
      by (cases s) (auto simp: alloc_bytes_def)
    with 1 False assms show ?thesis
      by (auto simp: ak_buffer_rotate_right_def Let_def m_def)
  next
    case (2 t)
    let ?tmp = "take m (drop (?c - m) ?d)"
    have "mem_copy t 0 ?d (?c - m) m = Some ?tmp"
      using 2 m len by (simp add: mem_copy_def)
    moreover have "mem_copy ?d m ?d 0 (?c - m) = Some (take m ?d @ take (?c - m) ?d @ drop ?c ?d)"
      using m len by (simp add: mem_copy_def)
    moreover have "mem_copy (take m ?d @ take (?c - m) ?d @ drop ?c ?d) 0 ?tmp 0 m
        = Some (?tmp @ take (?c - m) ?d @ drop ?c ?d)"
      using m len by (simp add: mem_copy_def)
    ultimately have "ak_buffer_rotate_right (Some b) n s =
        Some (Some (b\<lparr>buf_data := ?tmp @ take (?c - m) ?d @ drop ?c ?d\<rparr>), tl s)"
      using 2 False m n by (simp add: ak_buffer_rotate_right_def Let_def m_def [symmetric])
    moreover have "rotate n (take ?c (?tmp @ take (?c - m) ?d @ drop ?c ?d)) = take ?c ?d"
    proof -
      have "take ?c (?tmp @ take (?c - m) ?d @ drop ?c ?d) = ?tmp @ take (?c - m) ?d"
        using m len by simp
      moreover have "n mod length (?tmp @ take (?c - m) ?d) = m"
        using m len by (simp add: m_def)
      ultimately have "rotate n (take ?c (?tmp @ take (?c - m) ?d @ drop ?c ?d)) = take (?c - m) ?d @ ?tmp"
        using m len by (simp add: rotate_drop_take)
      also have "\<dots> = take ?c ?d"
        using m len by (metis le_add_diff_inverse2 less_imp_le take_add)
      finally show ?thesis .
    qed
    ultimately show ?thesis
      using assms m len by (auto simp: buf_ok_def buf_bytes_def)
  qed
qed

lemma trim_left_loop_eq:
  assumes "cnt \<le> length d"
  shows "trim_left_loop d cnt byte t =
    Some (t + length (takeWhile (\<lambda>x. x = byte) (drop t (take cnt d))))"
  using assms
proof (induction d cnt byte t rule: trim_left_loop.induct)
  case (1 d cnt byte t)
  show ?case
  proof (cases "t < cnt")
    case True
    then have "drop t (take cnt d) = d ! t # drop (Suc t) (take cnt d)"
      using 1 by (simp add: Cons_nth_drop_Suc [symmetric])
    with 1 True show ?thesis
      by (subst trim_left_loop.simps) (simp add: mem_simps)
  next
    case False
    then show ?thesis by (subst trim_left_loop.simps) simp
  qed
qed

lemma trim_right_loop_eq:
  assumes "cnt \<le> length d"
  shows "trim_right_loop d cnt byte t =
    Some (t + length (takeWhile (\<lambda>x. x = byte) (drop t (rev (take cnt d)))))"
  using assms
proof (induction d cnt byte t rule: trim_right_loop.induct)
  case (1 d cnt byte t)
  show ?case
  proof (cases "t < cnt")
    case True
    then have "drop t (rev (take cnt d)) = d ! (cnt - 1 - t) # drop (Suc t) (rev (take cnt d))"
      using 1 by (simp add: Cons_nth_drop_Suc [symmetric] rev_nth)
    with 1 True show ?thesis
      by (subst trim_right_loop.simps) (simp add: mem_simps)
  next
    case False
    then show ?thesis by (subst trim_right_loop.simps) simp
  qed
qed

lemma shrink_to_fit_correct:
  assumes "buf_ok b"
  shows "\<exists>rc b' s'. ak_buffer_shrink_to_fit (Some b) s = (rc, Some b', s') \<and> buf_ok b'
    \<and> buf_bytes b' = buf_bytes b \<and> (rc = 0 \<or> rc = -1 \<and> b' = b)
    \<and> (rc = 0 \<and> buf_count b > 0 \<longrightarrow> buf_capacity b' = buf_count b)"
proof (cases "buf_count b = 0 \<or> buf_count b \<ge> buf_capacity b")
  case True
  with assms show ?thesis by (auto simp: ak_buffer_shrink_to_fit_def buf_ok_def)
next
  case False
  show ?thesis
  proof (cases rule: realloc_bytes_cases [of "buf_data b" "buf_count b" s])
    case 1
    with False assms show ?thesis by (simp add: ak_buffer_shrink_to_fit_def)
  next
    case (2 new)
    with False assms 2(3) [of "buf_count b"] show ?thesis
      by (auto simp: ak_buffer_shrink_to_fit_def buf_ok_def buf_bytes_def)
  qed
qed

lemma take_dropWhile_shift:
  "n = length (takeWhile P (take c d)) \<Longrightarrow> take (c - n) (drop n d) = dropWhile P (take c d)"
  by (simp add: dropWhile_eq_drop drop_take)

lemma trim_left_correct:
  assumes "buf_ok b"
  shows "\<exists>rc b' s'. ak_buffer_trim_left (Some b) byte s = Some (rc, Some b', s') \<and> buf_ok b'
    \<and> buf_bytes b' = dropWhile (\<lambda>x. x = byte) (buf_bytes b) \<and> (rc = 0 \<or> rc = -1)"
proof -
  let ?d = "buf_data b" and ?c = "buf_count b"
  let ?n = "length (takeWhile (\<lambda>x. x = byte) (take ?c ?d))"
  have len: "?c \<le> length ?d" using assms by (simp add: buf_ok_def)
  have loop: "trim_left_loop ?d ?c byte 0 = Some ?n"
    using trim_left_loop_eq [OF len] by simp
  have n: "?n \<le> ?c" using length_takeWhile_le [of _ "take ?c ?d"] len by (metis length_take min.absorb2)
  consider "?c = 0" | "?n = 0" | "?c > 0" "?n = ?c" | "?c > 0" "0 < ?n" "?n < ?c"
    using n by linarith
  then show ?thesis
  proof cases
    case 1
    with assms show ?thesis by (auto simp: ak_buffer_trim_left_def buf_bytes_def)
  next
    case 2
    then have "dropWhile (\<lambda>x. x = byte) (take ?c ?d) = take ?c ?d"
      by (metis dropWhile_eq_drop drop0)
    with 2 assms loop show ?thesis by (auto simp: ak_buffer_trim_left_def buf_bytes_def)
  next
    case 3
    then have nil: "dropWhile (\<lambda>x. x = byte) (buf_bytes b) = []"
      by (simp only: dropWhile_eq_drop buf_bytes_def) simp
    have "buf_ok (b\<lparr>buf_count := 0\<rparr>)" using assms by (simp add: buf_ok_def)
    from shrink_to_fit_correct [OF this, of s] 3 loop show ?thesis
      unfolding nil by (auto simp: ak_buffer_trim_left_def buf_bytes_def)
  next
    case 4
    let ?b = "b\<lparr>buf_data := take (?c - ?n) (drop ?n ?d) @ drop (?c - ?n) ?d, buf_count := ?c - ?n\<rparr>"
    have "mem_copy ?d 0 ?d ?n (?c - ?n) = Some (take (?c - ?n) (drop ?n ?d) @ drop (?c - ?n) ?d)"
      using 4 len by (simp add: mem_copy_def)
    then have "ak_buffer_trim_left (Some b) byte s = Some (ak_buffer_shrink_to_fit (Some ?b) s)"
      using 4 loop by (simp add: ak_buffer_trim_left_def)
    moreover have "buf_ok ?b" using assms 4 by (auto simp: buf_ok_def)
    moreover have "buf_bytes ?b = take (?c - ?n) (drop ?n ?d)"
      using len by (simp add: buf_bytes_def)
    then have "buf_bytes ?b = dropWhile (\<lambda>x. x = byte) (buf_bytes b)"
      by (simp only: take_dropWhile_shift buf_bytes_def [of b])
    ultimately show ?thesis
      using shrink_to_fit_correct [of ?b s] by auto
  qed
qed

lemma trim_right_correct:
  assumes "buf_ok b"
  shows "\<exists>rc b' s'. ak_buffer_trim_right (Some b) byte s = Some (rc, Some b', s') \<and> buf_ok b'
    \<and> buf_bytes b' = rev (dropWhile (\<lambda>x. x = byte) (rev (buf_bytes b))) \<and> (rc = 0 \<or> rc = -1)"
proof -
  let ?d = "buf_data b" and ?c = "buf_count b"
  let ?n = "length (takeWhile (\<lambda>x. x = byte) (rev (take ?c ?d)))"
  have len: "?c \<le> length ?d" using assms by (simp add: buf_ok_def)
  have loop: "trim_right_loop ?d ?c byte 0 = Some ?n"
    using trim_right_loop_eq [OF len] by simp
  have "rev (dropWhile (\<lambda>x. x = byte) (rev (take ?c ?d))) = take (?c - ?n) (take ?c ?d)"
    using len by (simp add: dropWhile_eq_drop rev_drop)
  then have trimmed: "rev (dropWhile (\<lambda>x. x = byte) (rev (buf_bytes b))) = take (?c - ?n) ?d"
    by (simp add: buf_bytes_def)
  have ok: "buf_ok (b\<lparr>buf_count := ?c - ?n\<rparr>)"
    using assms by (auto simp: buf_ok_def)
  show ?thesis
  proof (cases "?c = 0 \<or> ?n = 0")
    case True
    with assms loop trimmed show ?thesis
      by (auto simp: ak_buffer_trim_right_def buf_bytes_def)
  next
    case False
    with loop trimmed ok shrink_to_fit_correct [OF ok, of s] show ?thesis
      by (auto simp: ak_buffer_trim_right_def buf_bytes_def)
  qed
qed

section \<open>Slices, copies, splits, files and iteration\<close>

lemma fresh_part:
  assumes "n \<le> length d" and "off + n \<le> length src"
  shows "mem_copy d 0 src off n = Some (take n (drop off src) @ drop n d)"
  using assms by (simp add: mem_copy_def)

lemma sub_buffer_correct:
  assumes ok: "buf_ok b" and off: "offset < buf_count b"
  shows "\<exists>r c s'. ak_buffer_sub_buffer (Some b) offset len s = Some (r, c, s') \<and>
    (case r of None \<Rightarrow> c = 0
     | Some sb \<Rightarrow> buf_ok sb \<and> buf_bytes sb = take len (drop offset (buf_bytes b))
         \<and> buf_origin_offset sb = sz_add (buf_origin_offset b) offset
         \<and> c = to_int32 (length (buf_bytes sb)))"
proof -
  define n where "n = min len (buf_count b - offset)"
  have n: "(if len > buf_count b - offset then buf_count b - offset else len) = n"
    by (simp add: n_def min_def)
  have bytes: "take len (drop offset (buf_bytes b)) = take n (drop offset (buf_data b))"
    by (simp add: buf_bytes_def drop_take n_def min.commute)
  have bound: "offset + n \<le> length (buf_data b)" "n < SIZE_RANGE" "offset + n \<le> buf_count b"
    using ok off by (auto simp: buf_ok_def n_def)
  show ?thesis
  proof (cases "n = 0")
    case True
    show ?thesis
    proof (cases "ak_buffer_new MIN_BUFFER_SIZE s")
      case (Pair r s')
      then show ?thesis
        using True off n bytes ak_buffer_new_Some [of MIN_BUFFER_SIZE s _ s'] ak_buffer_new_ok [of MIN_BUFFER_SIZE s _ s']
        by (cases r) (auto simp: ak_buffer_sub_buffer_def Let_def to_int32_def buf_ok_def buf_bytes_def)
    qed
  next
    case False
    show ?thesis
    proof (cases "ak_buffer_new n s")
      case (Pair r s')
      show ?thesis
      proof (cases r)
        case None
        with Pair False off n show ?thesis
          by (simp add: ak_buffer_sub_buffer_def Let_def)
      next
        case (Some sb)
        with Pair have new: "length (buf_data sb) = max MIN_BUFFER_SIZE n" "buf_ok sb"
          using ak_buffer_new_Some(2) ak_buffer_new_ok bound(2) by blast+
        then have "mem_copy (buf_data sb) 0 (buf_data b) offset n =
            Some (take n (drop offset (buf_data b)) @ drop n (buf_data sb))"
          using bound by (intro fresh_part) auto
        with Some Pair False off n have "ak_buffer_sub_buffer (Some b) offset len s =
            Some (Some (sb\<lparr>buf_data := take n (drop offset (buf_data b)) @ drop n (buf_data sb),
              buf_count := n, buf_origin_offset := sz_add (buf_origin_offset b) offset\<rparr>),
              to_int32 n, s')"
          by (simp add: ak_buffer_sub_buffer_def Let_def)
        with new bound bytes show ?thesis
          by (auto simp: buf_ok_def buf_bytes_def)
      qed
    qed
  qed
qed

lemma buffer_copy_correct:
  assumes ok: "buf_ok b"
  shows "\<exists>r s'. ak_buffer_copy (Some b) s = Some (r, s') \<and>
    (case r of None \<Rightarrow> True
     | Some c \<Rightarrow> buf_ok c \<and> buf_bytes c = buf_bytes b \<and> buf_origin_offset c = buf_origin_offset b)"
proof (cases "ak_buffer_new (buf_capacity b) s")
  case (Pair r s')
  show ?thesis
  proof (cases r)
    case None
    with Pair show ?thesis by (simp add: ak_buffer_copy_def)
  next
    case (Some c)
    have new: "length (buf_data c) = max MIN_BUFFER_SIZE (buf_capacity b)"
        "buf_capacity c = max MIN_BUFFER_SIZE (buf_capacity b)" "buf_count c = 0" "buf_ok c"
      using ak_buffer_new_Some ak_buffer_new_ok Pair Some ok by (auto simp: buf_ok_def)
    then have "mem_copy (buf_data c) 0 (buf_data b) 0 (buf_count b) =
        Some (take (buf_count b) (buf_data b) @ drop (buf_count b) (buf_data c))"
      using ok by (subst fresh_part) (auto simp: buf_ok_def)
    with Some Pair new ok show ?thesis
      by (auto simp: ak_buffer_copy_def buf_ok_def buf_bytes_def)
  qed
qed

text \<open>
  A part of a split has room for its content exactly when its limit covers the content or
  the content fits the minimum size.
\<close>

lemma split_capacity_room:
  "content \<le> max MIN_BUFFER_SIZE (split_capacity content limit) \<longleftrightarrow>
   content \<le> limit \<or> content \<le> MIN_BUFFER_SIZE"
  by (auto simp: split_capacity_def Let_def max_def)

lemma fill_part_defined:
  assumes "ak_buffer_new (split_capacity n limit) s = (Some p, s')" and "off + n \<le> length src"
    and "n \<le> limit \<or> n \<le> MIN_BUFFER_SIZE" and "n < SIZE_RANGE"
  shows "\<exists>p'. fill_part p src off n = Some p' \<and> buf_ok p' \<and> buf_bytes p' = take n (drop off src)"
proof -
  have room: "n \<le> length (buf_data p)"
    using ak_buffer_new_Some(2) [OF assms(1)] split_capacity_room [of n limit] assms(3) by simp
  have "split_capacity n limit < SIZE_RANGE"
    using assms(4) by (auto simp: split_capacity_def Let_def)
  then have ok: "buf_ok p" using assms(1) ak_buffer_new_ok by blast
  show ?thesis
    using room ok assms(2) ak_buffer_new_Some(4) [OF assms(1)]
    by (auto simp: fill_part_def fresh_part buf_ok_def buf_bytes_def)
qed

lemma fill_part_overflow:
  assumes "ak_buffer_new (split_capacity n limit) s = (Some p, s')"
    and "limit < n" and "MIN_BUFFER_SIZE < n"
  shows "fill_part p src off n = None"
  using ak_buffer_new_Some(2) [OF assms(1)] split_capacity_room [of n limit] assms(2,3)
  by (auto simp: fill_part_def mem_copy_def)

lemma split_unfold:
  assumes "index \<le> buf_count b"
  obtains p q where
    "ak_buffer_new (split_capacity index l) (Some g1 # Some g2 # Some g3 # Some g4 # s)
       = (Some p, Some g3 # Some g4 # s)"
    "ak_buffer_new (split_capacity (buf_count b - index) r) (Some g3 # Some g4 # s) = (Some q, s)"
    "ak_buffer_split (Some b) index l r (Some g1 # Some g2 # Some g3 # Some g4 # s) =
       do { lb \<leftarrow> fill_part p (buf_data b) 0 index;
            rb \<leftarrow> fill_part q (buf_data b) index (buf_count b - index);
            Some (\<lparr>split_left = Some lb, split_right = Some rb\<rparr>, s) }"
proof -
  let ?n = "buf_count b - index" and ?s = "Some g1 # Some g2 # Some g3 # Some g4 # s"
  obtain p where 1: "ak_buffer_new (split_capacity index l) ?s = (Some p, Some g3 # Some g4 # s)"
    by (simp add: ak_buffer_new_def alloc_bytes_def Let_def)
  obtain q where 2: "ak_buffer_new (split_capacity ?n r) (Some g3 # Some g4 # s) = (Some q, s)"
    by (simp add: ak_buffer_new_def alloc_bytes_def Let_def)
  show thesis
    by (rule that [OF 1 2]) (use 1 2 assms in \<open>simp add: ak_buffer_split_def Let_def\<close>)
qed

lemma from_file_correct:
  assumes "ak_buffer_from_file (Some path) env s = Some (Some b, s')"
    and "f_tell env < int SIZE_RANGE"
  shows "buf_ok b \<and> int (buf_count b) = f_tell env
    \<and> buf_bytes b = take (nat (f_tell env)) (f_bytes env)"
proof -
  let ?n = "nat (f_tell env)"
  have pos: "0 \<le> f_tell env"
    using assms(1) by (auto simp: ak_buffer_from_file_def split: if_splits)
  obtain b0 where b0: "ak_buffer_new ?n s = (Some b0, s')"
    using assms(1) by (auto simp: ak_buffer_from_file_def Let_def bind_eq_Some_conv split: if_splits prod.splits option.splits)
  have new: "length (buf_data b0) = max MIN_BUFFER_SIZE ?n" "buf_ok b0" "buf_bytes b0 = []"
    using ak_buffer_new_Some(2,4) [OF b0] ak_buffer_new_ok [OF b0] assms(2) pos by auto
  show ?thesis
    using assms(1) b0 new pos ak_buffer_new_Some(3) [OF b0]
    by (auto simp: ak_buffer_from_file_def Let_def bind_eq_Some_conv mem_copy_def buf_ok_def buf_bytes_def
          min_def split: if_splits option.splits)
qed

lemma visit_all_length: "length (fst (visit_all fn i xs cb)) = length xs"
  by (induction fn i xs cb rule: visit_all.induct) (auto split: prod.splits)

lemma for_each_loop_all:
  assumes step: "\<And>x i c. fst (fn x i c) = 1"
  shows "buf_count b = length ys \<Longrightarrow> idx + length xs = length ys \<Longrightarrow> xs = drop idx ys \<Longrightarrow>
    take (buf_count b) (buf_data b) = ys \<Longrightarrow>
    for_each_loop fn b idx cb =
      (case visit_all fn idx xs cb of (xs', cb') \<Rightarrow>
         Some (b\<lparr>buf_data := take idx (buf_data b) @ xs' @ drop (length ys) (buf_data b)\<rparr>, cb'))"
proof (induction xs arbitrary: idx b cb ys)
  case Nil
  then have "ys @ drop (length ys) (buf_data b) = buf_data b"
    by (metis append_take_drop_id)
  with Nil show ?case by (subst for_each_loop.simps) simp
next
  case (Cons x xs)
  from Cons.prems(2) have "idx < length ys" by (simp only: list.size)
  with Cons.prems(3) have idx: "idx < length ys" "x = ys ! idx" "xs = drop (Suc idx) ys"
    by (simp_all add: Cons_nth_drop_Suc [symmetric])
  have ys: "take (length ys) (buf_data b) = ys" using Cons.prems(1,4) by simp
  then have "length (take (length ys) (buf_data b)) = length ys" by simp
  then have "length ys \<le> length (buf_data b)" by simp
  moreover have "take (length ys) (buf_data b) ! idx = buf_data b ! idx"
    using idx(1) by (rule nth_take)
  ultimately have len: "idx < length (buf_data b)" "buf_data b ! idx = x"
    using idx ys by auto
  obtain x' cb' where f: "fn x idx cb = (1, x', cb')"
    using step by (metis prod.collapse)
  define b' where "b' = b\<lparr>buf_data := (buf_data b)[idx := x']\<rparr>"
  have "for_each_loop fn b idx cb = for_each_loop fn b' (Suc idx) cb'"
    using idx len f Cons.prems by (subst for_each_loop.simps) (simp add: mem_simps Let_def b'_def)
  also have "\<dots> = (case visit_all fn (Suc idx) xs cb' of (xs', cb'') \<Rightarrow>
      Some (b'\<lparr>buf_data := take (Suc idx) (buf_data b') @ xs' @ drop (length ys) (buf_data b')\<rparr>, cb''))"
    using Cons.prems idx
    by (subst Cons.IH [of b' "ys[idx := x']"]) (auto simp: b'_def take_update_swap)
  also have "take (Suc idx) (buf_data b') = take idx (buf_data b) @ [x']"
    using len by (simp add: b'_def take_Suc_conv_app_nth)
  also have "drop (length ys) (buf_data b') = drop (length ys) (buf_data b)"
    using idx by (simp add: b'_def)
  finally show ?case
    using f by (simp add: b'_def split: prod.splits)
qed

section \<open>Properties\<close>



text \<open>
  The doubling loop of \<open>ak_buffer_copy_to\<close> wraps to zero: when the size to reach is
  above \<open>2 ^ 63\<close> and the capacity is a power of two, the call never returns, whatever
  the allocator does (the size is then still a legal \<open>size_t\<close>).
\<close>

theorem buffer_copy_to_diverges:
  assumes "buf_capacity b = 2 ^ j" and "j < 64" and "2 ^ 63 < buf_count b + len"
    and "buf_count b + len < SIZE_RANGE" and "buf_capacity b < buf_count b + len" and "0 < len"
  shows "ak_buffer_copy_to (Some b) (Some src) len s = None"
proof -
  have "sz_add (buf_count b) len = buf_count b + len"
    using assms(4) by (rule sz_add_exact)
  moreover have "grow_capacity (buf_capacity b) (buf_count b + len) = None"
    using grow_capacity_diverges assms(1-3) by simp
  ultimately show ?thesis
    using assms(5,6) by (simp add: ak_buffer_copy_to_def)
qed

theorem buffer_copy_to_diverges_witness:
  "ak_buffer_copy_to (Some \<lparr>buf_data = replicate 16 0, buf_capacity = 16, buf_count = 1,
      buf_origin_offset = 0\<rparr>) (Some []) (2 ^ 63) [] = None"
  by (rule buffer_copy_to_diverges [where j = 4]) simp_all

text \<open>
  Rotations keep the buffer well-formed and stay inside its array; rotating left by
  \<open>n\<close> rotates the contents, and a rotation right by \<open>n\<close> is undone by a rotation left
  by \<open>n\<close>. Only when the temporary array cannot be allocated is the buffer unchanged.
\<close>

theorem buffer_rotations:
  assumes "buf_ok b"
  shows "(\<exists>b' s'. ak_buffer_rotate_left (Some b) n s = Some (Some b', s') \<and> buf_ok b'
      \<and> (buf_bytes b' = rotate n (buf_bytes b) \<or> b' = b \<and> (\<exists>s1. s = None # s1 \<or> s = [])))
    \<and> (\<exists>b' s'. ak_buffer_rotate_right (Some b) n s = Some (Some b', s') \<and> buf_ok b'
      \<and> (rotate n (buf_bytes b') = buf_bytes b \<or> b' = b \<and> (\<exists>s1. s = None # s1 \<or> s = [])))"
  using rotate_left_correct [OF assms] rotate_right_correct [OF assms] by blast

theorem buffer_rotations_witness:
  "\<exists>b' s'. ak_buffer_rotate_left
     (Some \<lparr>buf_data = [1, 2, 3, 9], buf_capacity = 4, buf_count = 3, buf_origin_offset = 0\<rparr>) 4
     [Some (\<lambda>_. 0)] = Some (Some b', s') \<and> buf_ok b' \<and> buf_bytes b' = [2, 3, 1]"
proof -
  let ?b = "\<lparr>buf_data = [1, 2, 3, 9], buf_capacity = 4, buf_count = 3, buf_origin_offset = 0\<rparr>"
  have "buf_ok ?b" by (simp add: buf_ok_def)
  from buffer_rotations [OF this, of 4 "[Some (\<lambda>_. 0)]"]
  have "\<exists>b' s'. ak_buffer_rotate_left (Some ?b) 4 [Some (\<lambda>_. 0)] = Some (Some b', s') \<and> buf_ok b'
      \<and> buf_bytes b' = rotate 4 (buf_bytes ?b)" by auto
  then show ?thesis by (simp add: buf_bytes_def numeral_eq_Suc)
qed

text \<open>
  Trimming removes exactly the leading (trailing) run of the byte, inside the array,
  and keeps the buffer well-formed even when the final shrinking fails; the result code
  is 0 or -1, never the number of bytes removed.
\<close>

theorem buffer_trims:
  assumes "buf_ok b"
  shows "(\<exists>rc b' s'. ak_buffer_trim_left (Some b) byte s = Some (rc, Some b', s') \<and> buf_ok b'
      \<and> buf_bytes b' = dropWhile (\<lambda>x. x = byte) (buf_bytes b) \<and> (rc = 0 \<or> rc = -1))
    \<and> (\<exists>rc b' s'. ak_buffer_trim_right (Some b) byte s = Some (rc, Some b', s') \<and> buf_ok b'
      \<and> buf_bytes b' = rev (dropWhile (\<lambda>x. x = byte) (rev (buf_bytes b))) \<and> (rc = 0 \<or> rc = -1))"
  using trim_left_correct [OF assms] trim_right_correct [OF assms] by blast

theorem buffer_trims_witness:
  "\<exists>rc b' s'. ak_buffer_trim_left
     (Some \<lparr>buf_data = [32, 32, 5, 32], buf_capacity = 4, buf_count = 4, buf_origin_offset = 0\<rparr>) 32
     [None] = Some (rc, Some b', s') \<and> buf_ok b' \<and> buf_bytes b' = [5, 32] \<and> (rc = 0 \<or> rc = -1)"
proof -
  let ?b = "\<lparr>buf_data = [32, 32, 5, 32], buf_capacity = 4, buf_count = 4, buf_origin_offset = 0\<rparr>"
  have "buf_ok ?b" by (simp add: buf_ok_def)
  from buffer_trims [OF this, of 32 "[None]"] show ?thesis
    by (simp add: buf_bytes_def)
qed

text \<open>
  When all allocations of \<open>ak_buffer_split\<close> succeed, the call stays inside its
  arrays exactly when each part fits: its limit is at least the size of its content, or
  the content fits the minimum capacity. Then the parts are the contents before and from
  the index. Otherwise the content is copied into an array that is too small.
\<close>

theorem buffer_split_safe_iff:
  fixes l r :: nat and g1 g2 g3 g4 :: "nat \<Rightarrow> u8" and s :: byte_sched
  assumes "buf_ok b" and "index \<le> buf_count b"
  defines "fits \<equiv> (index \<le> l \<or> index \<le> MIN_BUFFER_SIZE) \<and>
      (buf_count b - index \<le> r \<or> buf_count b - index \<le> MIN_BUFFER_SIZE)"
    and "result \<equiv> ak_buffer_split (Some b) index l r
      (Some g1 # Some g2 # Some g3 # Some g4 # s)"
  shows "(result = None \<longleftrightarrow> \<not> fits) \<and>
    (fits \<longrightarrow> (\<exists>lb rb. result = Some (\<lparr>split_left = Some lb, split_right = Some rb\<rparr>, s)
       \<and> buf_ok lb \<and> buf_ok rb \<and> buf_bytes lb = take index (buf_bytes b)
       \<and> buf_bytes rb = drop index (buf_bytes b)))"
proof -
  let ?n = "buf_count b - index"
  have sizes: "0 + index \<le> length (buf_data b)" "index + ?n \<le> length (buf_data b)"
      "index < SIZE_RANGE" "?n < SIZE_RANGE"
    using assms(1,2) by (auto simp: buf_ok_def)
  have parts: "take index (buf_bytes b) = take index (drop 0 (buf_data b))"
      "drop index (buf_bytes b) = take ?n (drop index (buf_data b))"
    using assms(2) by (simp_all add: buf_bytes_def drop_take)
  obtain p q where pq:
      "ak_buffer_new (split_capacity index l) (Some g1 # Some g2 # Some g3 # Some g4 # s)
        = (Some p, Some g3 # Some g4 # s)"
      "ak_buffer_new (split_capacity ?n r) (Some g3 # Some g4 # s) = (Some q, s)"
      "result = do { lb \<leftarrow> fill_part p (buf_data b) 0 index;
            rb \<leftarrow> fill_part q (buf_data b) index ?n;
            Some (\<lparr>split_left = Some lb, split_right = Some rb\<rparr>, s) }"
    unfolding result_def by (rule split_unfold [OF assms(2)])
  note overflow = fill_part_overflow [OF pq(1), of "buf_data b" 0]
    fill_part_overflow [OF pq(2), of "buf_data b" index]
  show ?thesis
  proof (cases fits)
    case True
    then obtain lb where "fill_part p (buf_data b) 0 index = Some lb" "buf_ok lb"
        "buf_bytes lb = take index (buf_bytes b)"
      using fill_part_defined [OF pq(1) sizes(1) _ sizes(3)]
      unfolding fits_def parts by blast
    moreover obtain rb where "fill_part q (buf_data b) index ?n = Some rb" "buf_ok rb"
        "buf_bytes rb = drop index (buf_bytes b)"
      using True fill_part_defined [OF pq(2) sizes(2) _ sizes(4)]
      unfolding fits_def parts by blast
    ultimately show ?thesis using True pq(3) by simp
  next
    case False
    then have "fill_part p (buf_data b) 0 index = None \<or> fill_part q (buf_data b) index ?n = None"
      using overflow unfolding fits_def by force
    then have "result = None" unfolding pq(3) by (auto simp: bind_eq_None_conv)
    with False show ?thesis by simp
  qed
qed

theorem buffer_split_safe_iff_witness:
  "ak_buffer_split (Some \<lparr>buf_data = replicate 20 0, buf_capacity = 20, buf_count = 20,
       buf_origin_offset = 0\<rparr>) 17 1 3
       (Some (\<lambda>_. 0) # Some (\<lambda>_. 0) # Some (\<lambda>_. 0) # Some (\<lambda>_. 0) # []) = None"
proof -
  let ?b = "\<lparr>buf_data = replicate 20 0, buf_capacity = 20, buf_count = 20, buf_origin_offset = 0\<rparr>"
  have ok: "buf_ok ?b" by (simp add: buf_ok_def)
  show ?thesis
    using buffer_split_safe_iff [OF ok, of 17 1 3 "\<lambda>_. 0" "\<lambda>_. 0" "\<lambda>_. 0" "\<lambda>_. 0" "[]"] by simp
qed

text \<open>
  A callback of \<open>ak_buffer_for_each\<close> that returns 1 is called on every byte in
  order, and may rewrite it; a callback that returns 0 is called on the first byte only
  (the header promises the opposite: 0 to continue).
\<close>

theorem buffer_for_each_contract:
  assumes "buf_ok b"
  shows "((\<forall>x i c. fst (fn x i c) = 1) \<longrightarrow>
      (\<exists>b'. ak_buffer_for_each (Some b) (Some fn) cb =
          Some (Some b', snd (visit_all fn 0 (buf_bytes b) cb))
        \<and> buf_ok b' \<and> buf_bytes b' = fst (visit_all fn 0 (buf_bytes b) cb)))
    \<and> ((\<forall>x i c. fst (fn x i c) = 0) \<and> 0 < buf_count b \<longrightarrow>
      ak_buffer_for_each (Some b) (Some fn) cb =
        (case fn (buf_bytes b ! 0) 0 cb of (_, x', cb') \<Rightarrow>
           Some (Some (b\<lparr>buf_data := (buf_data b)[0 := x']\<rparr>), cb')))"
proof (intro conjI impI)
  assume one: "\<forall>x i c. fst (fn x i c) = 1"
  let ?v = "visit_all fn 0 (buf_bytes b) cb"
  have len: "buf_count b = length (buf_bytes b)" "length (fst ?v) = buf_count b"
    using assms visit_all_length [of fn 0 "buf_bytes b" cb] by (simp_all add: buf_ok_def buf_bytes_def)
  have "for_each_loop fn b 0 cb =
      (case ?v of (xs', cb') \<Rightarrow>
         Some (b\<lparr>buf_data := take 0 (buf_data b) @ xs' @ drop (length (buf_bytes b)) (buf_data b)\<rparr>, cb'))"
    by (rule for_each_loop_all) (use one len in \<open>simp_all add: buf_bytes_def\<close>)
  with len assms show "\<exists>b'. ak_buffer_for_each (Some b) (Some fn) cb = Some (Some b', snd ?v)
      \<and> buf_ok b' \<and> buf_bytes b' = fst ?v"
    by (auto simp: ak_buffer_for_each_def buf_ok_def buf_bytes_def split: prod.splits)
next
  assume zero: "(\<forall>x i c. fst (fn x i c) = 0) \<and> 0 < buf_count b"
  obtain r x' cb' where f: "fn (buf_data b ! 0) 0 cb = (r, x', cb')"
    by (metis prod.collapse)
  then have "r = 0" using zero by (metis fst_conv)
  with f zero assms show "ak_buffer_for_each (Some b) (Some fn) cb =
        (case fn (buf_bytes b ! 0) 0 cb of (_, x', cb') \<Rightarrow>
           Some (Some (b\<lparr>buf_data := (buf_data b)[0 := x']\<rparr>), cb'))"
    by (simp add: ak_buffer_for_each_def for_each_loop.simps [of fn b] mem_read_def Let_def buf_ok_def
        buf_bytes_def)
qed

theorem buffer_for_each_contract_witness:
  "ak_buffer_for_each
     (Some \<lparr>buf_data = [5, 6, 7], buf_capacity = 3, buf_count = 3, buf_origin_offset = 0\<rparr>)
     (Some (\<lambda>x i c. (0, x, c + 1))) (0::nat)
   = Some (Some \<lparr>buf_data = [5, 6, 7], buf_capacity = 3, buf_count = 3, buf_origin_offset = 0\<rparr>, 1)"
proof -
  let ?b = "\<lparr>buf_data = [5, 6, 7], buf_capacity = 3, buf_count = 3, buf_origin_offset = 0\<rparr>"
  have "buf_ok ?b" by (simp add: buf_ok_def)
  from buffer_for_each_contract [OF this, of "\<lambda>x i c. (0, x, c + 1)" "0::nat"] show ?thesis
    by (simp add: buf_bytes_def)
qed

end
