(* ===== verification/Scanner.thy ===== *)
theory Scanner
  imports Utf8 Buffer
begin

text \<open>
  Model of kernel/scanner/src/scanner.c: the lexical scanner over a byte buffer. The
  scanner holds a reference to a buffer it does not own and never changes, so the model
  keeps the buffer's value and a position. The pair \<open>(data + pos, count - pos)\<close> that the
  code hands to the UTF-8 routines is the list \<open>tail_at b pos\<close>; every other access
  \<open>data[pos]\<close> is guarded by \<open>pos < count\<close> and is written \<open>buf_data b ! pos\<close>.

  The lemmas show, on every UTF-8 text, which token \<open>ak_scanner_read_static_base_type\<close>
  finds, how it is classified and where an error is reported; that a token read moves the
  position strictly forward and inside the buffer on every byte sequence; that
  \<open>ak_scanner_find_group\<close> finds the matching delimiter; and what the three skipping
  operations skip.
\<close>

section \<open>Definitions\<close>

datatype ak_static_base =
    AK24_STATIC_BASE_NONE
  | AK24_STATIC_BASE_INTEGER
  | AK24_STATIC_BASE_REAL
  | AK24_STATIC_BASE_SYMBOL

text \<open>A token's \<open>data\<close> pointer points into the buffer: it is NULL or an offset.\<close>

record ak_static_type =
  st_base :: ak_static_base
  st_data :: "nat option"
  st_byte_length :: nat

record ak_scanner =
  sc_buffer :: "ak_buffer option"
  sc_position :: nat

record static_type_result =
  str_success :: bool
  str_start_position :: nat
  str_error_position :: nat
  str_data :: ak_static_type

record stop_symbols =
  stop_syms :: "u8 list option"
  stop_count :: nat

record find_group_result =
  fg_success :: bool
  fg_start :: nat
  fg_closing :: nat

definition ak_scanner_new ::
  "ak_buffer option \<Rightarrow> nat \<Rightarrow> unit sched \<Rightarrow> ak_scanner option \<times> unit sched" where
  "ak_scanner_new buffer position s =
     (case buffer of None \<Rightarrow> (None, s)
      | Some b \<Rightarrow>
          if position > buf_count b then (None, s)
          else (case sys_alloc s of
                  (None, s') \<Rightarrow> (None, s')
                | (Some _, s') \<Rightarrow>
                    (Some \<lparr>sc_buffer = Some b, sc_position = position\<rparr>, s')))"

abbreviation tail_at :: "ak_buffer \<Rightarrow> nat \<Rightarrow> u8 list" where
  "tail_at b pos \<equiv> drop pos (buf_bytes b)"

definition is_whitespace_at :: "ak_buffer \<Rightarrow> nat \<Rightarrow> bool" where
  "is_whitespace_at b pos =
     (if pos \<ge> buf_count b then False
      else let result = ak_utf8_decode (Some (tail_at b pos)) in
        if \<not> valid result
        then let c = buf_data b ! pos in c = 0x20 \<or> c = 0x09 \<or> c = 0x0A \<or> c = 0x0D
        else ak_utf8_is_whitespace (codepoint result))"

definition is_digit_at :: "ak_buffer \<Rightarrow> nat \<Rightarrow> bool" where
  "is_digit_at b pos =
     (if pos \<ge> buf_count b then False
      else let result = ak_utf8_decode (Some (tail_at b pos)) in
        if \<not> valid result
        then let c = buf_data b ! pos in c \<ge> 0x30 \<and> c \<le> 0x39
        else ak_utf8_is_digit (codepoint result))"

definition char_byte_len_at :: "ak_buffer \<Rightarrow> nat \<Rightarrow> nat" where
  "char_byte_len_at b pos =
     (if pos \<ge> buf_count b then 0 else ak_utf8_char_len (Some (tail_at b pos)))"

definition is_stop_symbol :: "u8 \<Rightarrow> stop_symbols option \<Rightarrow> bool" where
  "is_stop_symbol c stops =
     (case stops of None \<Rightarrow> False
      | Some st \<Rightarrow>
         (case stop_syms st of None \<Rightarrow> False
          | Some syms \<Rightarrow> list_ex (\<lambda>i. syms ! i = c) [0..<stop_count st]))"

text \<open>The whitespace loop that four of the operations share.\<close>

function skip_white_loop :: "ak_buffer \<Rightarrow> nat \<Rightarrow> nat" where
  "skip_white_loop b pos =
     (if pos < buf_count b \<and> is_whitespace_at b pos
      then let char_len = char_byte_len_at b pos in
           if char_len = 0 then pos else skip_white_loop b (pos + char_len)
      else pos)"
  by pat_completeness auto
termination
  by (relation "measure (\<lambda>(b, pos). buf_count b - pos)") auto

declare skip_white_loop.simps [simp del]

datatype parse_state =
  STATE_START | STATE_SIGN | STATE_INTEGER | STATE_REAL | STATE_SYMBOL | STATE_ERROR

text \<open>The choice of the first state, with the position after a sign.\<close>

definition first_state :: "ak_buffer \<Rightarrow> nat \<Rightarrow> parse_state \<times> nat" where
  "first_state b token_start =
     (let first_char = buf_data b ! token_start in
      if first_char = 0x2B \<or> first_char = 0x2D then
        let pos = token_start + 1 in
        if pos \<ge> buf_count b then (STATE_SYMBOL, token_start + 1)
        else if is_digit_at b pos then (STATE_INTEGER, pos)
        else if is_whitespace_at b pos then (STATE_SYMBOL, token_start + 1)
        else (STATE_SYMBOL, pos)
      else if is_digit_at b token_start then (STATE_INTEGER, token_start)
      else (STATE_SYMBOL, token_start))"

text \<open>One turn of the \<open>switch\<close> at a byte that does not end the token.\<close>

definition parse_step :: "ak_buffer \<Rightarrow> parse_state \<Rightarrow> nat \<Rightarrow> parse_state \<times> nat" where
  "parse_step b state pos =
     (let c = buf_data b ! pos in
      case state of
        STATE_INTEGER \<Rightarrow>
          if is_digit_at b pos then (STATE_INTEGER, pos + 1)
          else if c = 0x2E then (STATE_REAL, pos + 1)
          else (STATE_ERROR, pos)
      | STATE_REAL \<Rightarrow>
          if is_digit_at b pos then (STATE_REAL, pos + 1)
          else if c = 0x2E then (STATE_ERROR, pos)
          else (STATE_ERROR, pos)
      | STATE_SYMBOL \<Rightarrow>
          let char_len = char_byte_len_at b pos in
          if char_len = 0 then (STATE_ERROR, pos) else (STATE_SYMBOL, pos + char_len)
      | _ \<Rightarrow> (STATE_ERROR, pos))"

function parse_loop ::
  "ak_buffer \<Rightarrow> stop_symbols option \<Rightarrow> parse_state \<Rightarrow> nat \<Rightarrow> parse_state \<times> nat" where
  "parse_loop b stops state pos =
     (if pos < buf_count b \<and> state \<noteq> STATE_ERROR then
        if is_whitespace_at b pos then (state, pos)
        else if is_stop_symbol (buf_data b ! pos) stops then (state, pos)
        else case parse_step b state pos of (state', pos') \<Rightarrow> parse_loop b stops state' pos'
      else (state, pos))"
  by pat_completeness auto
termination
  by (relation "measure (\<lambda>(b, stops, state, pos).
        2 * (buf_count b - pos) + (if state = STATE_ERROR then 0 else 1))")
    (auto simp: parse_step_def Let_def split: parse_state.splits if_splits)

declare parse_loop.simps [simp del]

definition no_token :: ak_static_type where
  "no_token = \<lparr>st_base = AK24_STATIC_BASE_NONE, st_data = None, st_byte_length = 0\<rparr>"

definition static_failure :: "nat \<Rightarrow> nat \<Rightarrow> static_type_result" where
  "static_failure start err =
     \<lparr>str_success = False, str_start_position = start, str_error_position = err,
      str_data = no_token\<rparr>"

text \<open>
  The result and the scanner after the call. The code dereferences \<open>scanner->buffer\<close>
  without a test here, so a NULL buffer has no defined result.
\<close>

definition ak_scanner_read_static_base_type ::
  "ak_scanner option \<Rightarrow> stop_symbols option \<Rightarrow> (static_type_result \<times> ak_scanner option) option"
where
  "ak_scanner_read_static_base_type scanner stops =
     (case scanner of None \<Rightarrow> Some (static_failure 0 0, None)
      | Some sc \<Rightarrow>
        let start_pos = sc_position sc in
        (case sc_buffer sc of None \<Rightarrow> None
         | Some b \<Rightarrow>
           let token_start = skip_white_loop b start_pos in
           if token_start \<ge> buf_count b
           then Some (static_failure start_pos token_start, Some sc)
           else if is_stop_symbol (buf_data b ! token_start) stops
           then Some (static_failure start_pos token_start, Some sc)
           else
             case first_state b token_start of (state0, pos0) \<Rightarrow>
             (case parse_loop b stops state0 pos0 of (state, pos) \<Rightarrow>
                if state = STATE_ERROR
                then Some (static_failure start_pos pos, Some sc)
                else if pos = token_start
                then Some (static_failure start_pos pos, Some sc)
                else
                  let base_type =
                    (if state = STATE_INTEGER then AK24_STATIC_BASE_INTEGER
                     else if state = STATE_REAL then AK24_STATIC_BASE_REAL
                     else AK24_STATIC_BASE_SYMBOL) in
                  Some (\<lparr>str_success = True, str_start_position = start_pos,
                          str_error_position = 0,
                          str_data = \<lparr>st_base = base_type, st_data = Some token_start,
                                      st_byte_length = pos - token_start\<rparr>\<rparr>,
                        Some (sc\<lparr>sc_position := pos\<rparr>)))))"

definition group_failure :: find_group_result where
  "group_failure = \<lparr>fg_success = False, fg_start = 0, fg_closing = 0\<rparr>"

text \<open>
  The search for the closing delimiter. \<open>depth\<close> is a C \<open>int\<close>: counting past \<open>2 ^ 31 - 1\<close>
  has no defined result. The inner \<open>None\<close> is the end of the buffer.
\<close>

abbreviation INT_MAX :: int where
  "INT_MAX \<equiv> 2 ^ 31 - 1"

function group_loop ::
  "ak_buffer \<Rightarrow> u8 \<Rightarrow> u8 \<Rightarrow> u8 option \<Rightarrow> nat \<Rightarrow> nat \<Rightarrow> int \<Rightarrow> nat option option" where
  "group_loop b st en esc start_index pos depth =
     (if pos < buf_count b then
        let current = buf_data b ! pos;
            is_escaped = (case esc of None \<Rightarrow> False
              | Some e \<Rightarrow> pos > start_index + 1 \<and> buf_data b ! (pos - 1) = e) in
        if is_escaped then group_loop b st en esc start_index (pos + 1) depth
        else if st = en then
          (if current = en then Some (Some pos)
           else group_loop b st en esc start_index (pos + 1) depth)
        else if current = st then
          (if depth + 1 > INT_MAX then None
           else group_loop b st en esc start_index (pos + 1) (depth + 1))
        else if current = en then
          (if depth - 1 = 0 then Some (Some pos)
           else group_loop b st en esc start_index (pos + 1) (depth - 1))
        else group_loop b st en esc start_index (pos + 1) depth
      else Some None)"
  by pat_completeness auto
termination
  by (relation "measure (\<lambda>(b, st, en, esc, start_index, pos, depth). buf_count b - pos)") auto

declare group_loop.simps [simp del]

definition ak_scanner_find_group ::
  "ak_scanner option \<Rightarrow> u8 \<Rightarrow> u8 \<Rightarrow> u8 option \<Rightarrow> bool \<Rightarrow>
   (find_group_result \<times> ak_scanner option) option" where
  "ak_scanner_find_group scanner must_start_with must_end_with can_escape_with consume_leading_ws =
     (case scanner of None \<Rightarrow> Some (group_failure, None)
      | Some sc \<Rightarrow>
        (case sc_buffer sc of None \<Rightarrow> Some (group_failure, Some sc)
         | Some b \<Rightarrow>
           if sc_position sc \<ge> buf_count b then Some (group_failure, Some sc)
           else
             let pos = (if consume_leading_ws then skip_white_loop b (sc_position sc)
                        else sc_position sc) in
             if consume_leading_ws \<and> pos \<ge> buf_count b then Some (group_failure, Some sc)
             else if buf_data b ! pos \<noteq> must_start_with then Some (group_failure, Some sc)
             else
               case group_loop b must_start_with must_end_with can_escape_with pos (pos + 1) 1 of
                 None \<Rightarrow> None
               | Some None \<Rightarrow> Some (group_failure, Some sc)
               | Some (Some close) \<Rightarrow>
                   Some (\<lparr>fg_success = True, fg_start = pos, fg_closing = close\<rparr>,
                         Some (sc\<lparr>sc_position := close\<rparr>))))"

definition ak_scanner_goto_next_non_white :: "ak_scanner option \<Rightarrow> bool \<times> ak_scanner option" where
  "ak_scanner_goto_next_non_white scanner =
     (case scanner of None \<Rightarrow> (False, None)
      | Some sc \<Rightarrow>
        (case sc_buffer sc of None \<Rightarrow> (False, Some sc)
         | Some b \<Rightarrow>
           let pos = skip_white_loop b (sc_position sc) in
           if pos \<ge> buf_count b then (False, Some sc)
           else (True, Some (sc\<lparr>sc_position := pos\<rparr>))))"

text \<open>A loop \<open>while (pos < count && data[pos] != c) pos++\<close>.\<close>

function seek_byte :: "ak_buffer \<Rightarrow> u8 \<Rightarrow> nat \<Rightarrow> nat" where
  "seek_byte b c pos =
     (if pos < buf_count b \<and> buf_data b ! pos \<noteq> c then seek_byte b c (pos + 1) else pos)"
  by pat_completeness auto
termination
  by (relation "measure (\<lambda>(b, c, pos). buf_count b - pos)") auto

declare seek_byte.simps [simp del]

definition skip_comment :: "ak_buffer \<Rightarrow> nat \<Rightarrow> nat" where
  "skip_comment b pos =
     (let pos = seek_byte b 0x0A pos in
      if pos < buf_count b \<and> buf_data b ! pos = 0x0A then pos + 1 else pos)"

lemma seek_byte_mono: "pos \<le> seek_byte b c pos"
  by (induction b c pos rule: seek_byte.induct) (subst seek_byte.simps, force)

lemma skip_comment_advances:
  assumes "pos < buf_count b" and "buf_data b ! pos = 0x3B"
  shows "pos < skip_comment b pos"
proof -
  have "seek_byte b 0x0A pos = seek_byte b 0x0A (pos + 1)"
    using assms by (subst seek_byte.simps) simp
  then show ?thesis
    using seek_byte_mono [of "pos + 1" b "0x0A"] by (simp add: skip_comment_def Let_def)
qed

function skip_trivia_loop :: "ak_buffer \<Rightarrow> nat \<Rightarrow> nat" where
  "skip_trivia_loop b pos =
     (if pos < buf_count b then
        if is_whitespace_at b pos then
          (let char_len = char_byte_len_at b pos in
           if char_len = 0 then pos else skip_trivia_loop b (pos + char_len))
        else if buf_data b ! pos = 0x3B then skip_trivia_loop b (skip_comment b pos)
        else pos
      else pos)"
  by pat_completeness auto
termination
proof (relation "measure (\<lambda>(b, pos). buf_count b - pos)", goal_cases)
  case (3 b pos)
  then show ?case
    using skip_comment_advances [of pos b] by simp
qed auto

declare skip_trivia_loop.simps [simp del]

definition ak_scanner_skip_whitespace_and_comments ::
  "ak_scanner option \<Rightarrow> bool \<times> ak_scanner option" where
  "ak_scanner_skip_whitespace_and_comments scanner =
     (case scanner of None \<Rightarrow> (False, None)
      | Some sc \<Rightarrow>
        (case sc_buffer sc of None \<Rightarrow> (False, Some sc)
         | Some b \<Rightarrow>
           let pos = skip_trivia_loop b (sc_position sc) in
           if pos \<ge> buf_count b then (False, Some sc)
           else (True, Some (sc\<lparr>sc_position := pos\<rparr>))))"

definition ak_scanner_goto_next_target ::
  "ak_scanner option \<Rightarrow> u8 \<Rightarrow> bool \<times> ak_scanner option" where
  "ak_scanner_goto_next_target scanner target_byte =
     (case scanner of None \<Rightarrow> (False, None)
      | Some sc \<Rightarrow>
        (case sc_buffer sc of None \<Rightarrow> (False, Some sc)
         | Some b \<Rightarrow>
           let pos = sc_position sc in
           if pos \<ge> buf_count b then (False, Some sc)
           else if buf_data b ! pos = target_byte then (True, Some (sc\<lparr>sc_position := pos\<rparr>))
           else
             let pos = seek_byte b target_byte pos in
             if pos \<ge> buf_count b then (False, Some sc)
             else (True, Some (sc\<lparr>sc_position := pos\<rparr>))))"

section \<open>The specification of a token\<close>

text \<open>
  A UTF-8 text as its list of code points. A token ends at whitespace or at a code point
  whose first byte is a stop symbol. A number is a run of ASCII digits with at most one
  period after the first digit; other digits start a number and then fail.
\<close>

definition token_end :: "stop_symbols option \<Rightarrow> u32 \<Rightarrow> bool" where
  "token_end stops cp \<longleftrightarrow> ak_utf8_is_whitespace cp \<or> is_stop_symbol (hd (utf8_encode cp)) stops"

definition ascii_digit :: "u32 \<Rightarrow> bool" where
  "ascii_digit cp \<longleftrightarrow> 0x30 \<le> cp \<and> cp \<le> 0x39"

definition bad_digit :: "u32 \<Rightarrow> nat" where
  "bad_digit cp = (if ak_utf8_is_digit cp then 1 else 0)"

text \<open>The class of a number and the bytes it takes; the class NONE is an error there.\<close>

definition fraction_class :: "u32 list \<Rightarrow> ak_static_base \<times> nat" where
  "fraction_class frac =
     (let n = length (takeWhile ascii_digit frac) in
      case dropWhile ascii_digit frac of
        [] \<Rightarrow> (AK24_STATIC_BASE_REAL, n)
      | c # _ \<Rightarrow> (AK24_STATIC_BASE_NONE, n + bad_digit c))"

definition number_class :: "u32 list \<Rightarrow> ak_static_base \<times> nat" where
  "number_class body =
     (let n = length (takeWhile ascii_digit body) in
      case dropWhile ascii_digit body of
        [] \<Rightarrow> (AK24_STATIC_BASE_INTEGER, n)
      | c # frac \<Rightarrow>
          if c = 0x2E then map_prod id ((+) (Suc n)) (fraction_class frac)
          else (AK24_STATIC_BASE_NONE, n + bad_digit c))"

definition static_success :: "nat \<Rightarrow> nat \<Rightarrow> nat \<Rightarrow> ak_static_base \<Rightarrow> static_type_result" where
  "static_success start token_start len base =
     \<lparr>str_success = True, str_start_position = start, str_error_position = 0,
      str_data = \<lparr>st_base = base, st_data = Some token_start, st_byte_length = len\<rparr>\<rparr>"

definition expected_token :: "stop_symbols option \<Rightarrow> nat \<Rightarrow> u32 list \<Rightarrow> static_type_result" where
  "expected_token stops start cps =
     (let token_start = start + length (utf8_text (takeWhile ak_utf8_is_whitespace cps)) in
      case dropWhile ak_utf8_is_whitespace cps of
        [] \<Rightarrow> static_failure start token_start
      | c # cs \<Rightarrow>
          if token_end stops c then static_failure start token_start
          else
            let has_sign = (c = 0x2B \<or> c = 0x2D);
                body = (if has_sign then cs else c # cs);
                sign_len = (if has_sign then 1 else 0) in
            if body \<noteq> [] \<and> ak_utf8_is_digit (hd body) then
              (case number_class (takeWhile (\<lambda>cp. \<not> token_end stops cp) body) of
                 (base, len) \<Rightarrow>
                   if base = AK24_STATIC_BASE_NONE
                   then static_failure start (token_start + (sign_len + len))
                   else static_success start token_start (sign_len + len) base)
            else static_success start token_start
                   (length (utf8_text (takeWhile (\<lambda>cp. \<not> token_end stops cp) (c # cs))))
                   AK24_STATIC_BASE_SYMBOL)"

text \<open>The scanner after a token was read: it moves past the token, or not at all.\<close>

definition after_token :: "ak_scanner \<Rightarrow> static_type_result \<Rightarrow> ak_scanner" where
  "after_token sc r =
     (case st_data (str_data r) of None \<Rightarrow> sc
      | Some p \<Rightarrow> sc\<lparr>sc_position := p + st_byte_length (str_data r)\<rparr>)"

section \<open>Reading a text\<close>

lemma buf_bytes_length: "buf_ok b \<Longrightarrow> length (buf_bytes b) = buf_count b"
  by (simp add: buf_ok_def buf_bytes_def)

lemma buf_bytes_nth: "buf_ok b \<Longrightarrow> pos < buf_count b \<Longrightarrow> buf_bytes b ! pos = buf_data b ! pos"
  by (simp add: buf_ok_def buf_bytes_def)

lemma tail_at_first:
  "buf_ok b \<Longrightarrow> pos < buf_count b \<Longrightarrow> buf_data b ! pos = tail_at b pos ! 0"
  by (simp add: buf_bytes_length buf_bytes_nth)

lemma char_byte_len_at_bounds:
  assumes "buf_ok b" and "pos < buf_count b"
  shows "0 < char_byte_len_at b pos" and "pos + char_byte_len_at b pos \<le> buf_count b"
proof -
  have "tail_at b pos \<noteq> []" and "length (tail_at b pos) = buf_count b - pos"
    using assms by (simp_all add: buf_bytes_length)
  then show "0 < char_byte_len_at b pos" "pos + char_byte_len_at b pos \<le> buf_count b"
    using ak_utf8_char_len_bounds [of "tail_at b pos"] assms(2)
    by (auto simp: char_byte_len_at_def)
qed

lemma at_text:
  assumes "buf_ok b" and "tail_at b pos = utf8_text (cp # cps)" and "is_scalar cp"
  shows "pos < buf_count b"
    and "is_whitespace_at b pos = ak_utf8_is_whitespace cp"
    and "is_digit_at b pos = ak_utf8_is_digit cp"
    and "char_byte_len_at b pos = length (utf8_encode cp)"
    and "tail_at b (pos + length (utf8_encode cp)) = utf8_text cps"
    and "buf_data b ! pos = hd (utf8_encode cp)"
proof -
  note dec = decode_text_Cons [OF assms(2,3)]
  show pos: "pos < buf_count b"
    using dec(4) assms(1) by (simp add: buf_bytes_length)
  show "is_whitespace_at b pos = ak_utf8_is_whitespace cp"
    "is_digit_at b pos = ak_utf8_is_digit cp"
    "char_byte_len_at b pos = length (utf8_encode cp)"
    using dec(1,2) pos
    by (simp_all add: is_whitespace_at_def is_digit_at_def char_byte_len_at_def)
  show "tail_at b (pos + length (utf8_encode cp)) = utf8_text cps"
    by (rule dec(3))
  have "buf_data b ! pos = utf8_text (cp # cps) ! 0"
    using tail_at_first [OF assms(1) pos] unfolding assms(2) .
  also have "\<dots> = hd (utf8_encode cp)"
    by (cases "utf8_encode cp") simp_all
  finally show "buf_data b ! pos = hd (utf8_encode cp)" .
qed

lemma at_text_end: "buf_ok b \<Longrightarrow> tail_at b pos = [] \<Longrightarrow> \<not> pos < buf_count b"
  by (simp add: buf_bytes_length)

lemma encode_ascii:
  "unat cp < 128 \<Longrightarrow> utf8_encode cp = [word_of_nat (unat cp)]"
  by (simp add: utf8_encode_def)

lemma encode_non_ascii:
  assumes "is_scalar cp" and "128 \<le> unat cp"
  shows "192 \<le> unat (hd (utf8_encode cp))" and "2 \<le> length (utf8_encode cp)"
proof -
  have n: "unat cp \<le> 0x10FFFF" using assms(1) by (simp add: is_scalar_def)
  then have "unat cp div 262144 < 16" "unat cp < 65536 \<longrightarrow> unat cp div 4096 < 16"
    "unat cp < 2048 \<longrightarrow> unat cp div 64 < 32" by auto
  then show "192 \<le> unat (hd (utf8_encode cp))" and "2 \<le> length (utf8_encode cp)"
    using assms(2) by (auto simp: utf8_encode_def Let_def unat_byte_of_nat simp del: of_nat_add)
qed

lemma encode_hd_ascii:
  assumes "is_scalar cp" and "unat c < 128"
  shows "hd (utf8_encode cp) = c \<longleftrightarrow> unat cp = unat c"
proof (cases "unat cp < 128")
  case True
  then show ?thesis
    using assms unat_byte_of_nat [of "unat cp"] by (simp add: encode_ascii word_unat_eq_iff)
next
  case False
  then show ?thesis
    using assms encode_non_ascii(1) [of cp] by auto
qed

lemma digit_ascii: "ascii_digit cp \<longleftrightarrow> ak_utf8_is_digit cp \<and> unat cp < 128"
proof
  assume "ascii_digit cp"
  then show "ak_utf8_is_digit cp \<and> unat cp < 128"
    by (auto simp: ascii_digit_def ak_utf8_is_digit_def in_ranges_def word_le_nat_alt)
next
  assume "ak_utf8_is_digit cp \<and> unat cp < 128"
  then show "ascii_digit cp"
    by (auto simp: ascii_digit_def ak_utf8_is_digit_def in_ranges_def word_le_nat_alt)
qed

lemma period_not_digit: "\<not> ak_utf8_is_digit 0x2E" "\<not> ascii_digit 0x2E"
  by (simp_all add: ak_utf8_is_digit_def in_ranges_def ascii_digit_def)

lemma continuation_is_error:
  assumes ok: "buf_ok b" and pos: "pos < buf_count b"
    and cont: "ak_utf8_is_continuation_byte (buf_data b ! pos)"
    and stops: "\<And>c. is_stop_symbol c stops \<Longrightarrow> unat c < 128"
    and state: "state = STATE_INTEGER \<or> state = STATE_REAL"
  shows "parse_loop b stops state pos = (STATE_ERROR, pos)"
proof -
  define c where "c = buf_data b ! pos"
  have c: "128 \<le> unat c" "unat c < 192"
    using cont by (auto simp: c_def ak_utf8_is_continuation_byte_def byte_class)
  have "tail_at b pos \<noteq> []" "tail_at b pos ! 0 = c"
    using ok pos by (simp_all add: buf_bytes_length tail_at_first [OF ok pos, symmetric] c_def)
  then have "\<not> valid (ak_utf8_decode (Some (tail_at b pos)))"
    using c by (simp add: ak_utf8_decode_def Let_def byte_class invalid_byte_def)
  moreover have "c \<noteq> 0x20" "c \<noteq> 0x09" "c \<noteq> 0x0A" "c \<noteq> 0x0D" "c \<noteq> 0x2E" "\<not> c \<le> 0x39"
    using c by (auto simp: word_le_nat_alt)
  ultimately have "\<not> is_whitespace_at b pos" "\<not> is_digit_at b pos" "buf_data b ! pos \<noteq> 0x2E"
    using pos by (simp_all add: is_whitespace_at_def is_digit_at_def c_def)
  moreover have "\<not> is_stop_symbol (buf_data b ! pos) stops"
    using stops [of c] c by (auto simp: c_def)
  moreover have "parse_loop b stops STATE_ERROR pos = (STATE_ERROR, pos)"
    by (subst parse_loop.simps) simp
  ultimately show ?thesis
    using pos state by (subst parse_loop.simps) (auto simp: parse_step_def Let_def)
qed

lemma skip_white_loop_text:
  assumes "buf_ok b"
  shows "list_all is_scalar cps \<Longrightarrow> tail_at b pos = utf8_text cps \<Longrightarrow>
    skip_white_loop b pos = pos + length (utf8_text (takeWhile ak_utf8_is_whitespace cps)) \<and>
    tail_at b (skip_white_loop b pos) = utf8_text (dropWhile ak_utf8_is_whitespace cps)"
proof (induction cps arbitrary: pos)
  case Nil
  then show ?case
    using at_text_end [OF assms, of pos] by (subst (1 2) skip_white_loop.simps) simp
next
  case (Cons cp cps)
  note at = at_text [OF assms Cons.prems(2)]
  have cp: "is_scalar cp" and rest: "list_all is_scalar cps"
    using Cons.prems by simp_all
  show ?case
  proof (cases "ak_utf8_is_whitespace cp")
    case True
    then have "skip_white_loop b pos = skip_white_loop b (pos + length (utf8_encode cp))"
      using at [OF cp] by (subst skip_white_loop.simps) simp
    then show ?thesis
      using Cons.IH [OF rest at(5) [OF cp]] True by auto
  next
    case False
    then have "skip_white_loop b pos = pos"
      using at [OF cp] by (subst skip_white_loop.simps) simp
    then show ?thesis
      using False Cons.prems(2) by simp
  qed
qed

text \<open>One turn of the parser's loop at a code point.\<close>

lemma parse_loop_text_step:
  assumes "buf_ok b" and "tail_at b pos = utf8_text (cp # cps)" and "is_scalar cp"
    and "state \<noteq> STATE_ERROR"
  shows "parse_loop b stops state pos =
    (if token_end stops cp then (state, pos)
     else case parse_step b state pos of (state', pos') \<Rightarrow> parse_loop b stops state' pos')"
  using at_text [OF assms(1-3)] assms(4)
  by (subst parse_loop.simps) (simp add: token_end_def)

lemma parse_loop_stop:
  "\<not> pos < buf_count b \<Longrightarrow> parse_loop b stops state pos = (state, pos)"
  "parse_loop b stops STATE_ERROR pos = (STATE_ERROR, pos)"
  by (subst parse_loop.simps, simp)+

lemma parse_symbol_text:
  assumes "buf_ok b"
  shows "list_all is_scalar cps \<Longrightarrow> tail_at b pos = utf8_text cps \<Longrightarrow>
    parse_loop b stops STATE_SYMBOL pos =
      (STATE_SYMBOL, pos + length (utf8_text (takeWhile (\<lambda>cp. \<not> token_end stops cp) cps)))"
proof (induction cps arbitrary: pos)
  case Nil
  then show ?case
    using at_text_end [OF assms, of pos] by (simp add: parse_loop_stop)
next
  case (Cons cp cps)
  then have cp: "is_scalar cp" by simp
  note at = at_text [OF assms Cons.prems(2) cp]
  have "parse_step b STATE_SYMBOL pos = (STATE_SYMBOL, pos + length (utf8_encode cp))"
    using at(4) by (simp add: parse_step_def)
  then show ?case
    using Cons.IH [OF _ at(5)] Cons.prems parse_loop_text_step [OF assms Cons.prems(2) cp]
    by simp
qed

text \<open>In the two number states a code point is a digit, a period or an error.\<close>

lemma number_step_text:
  assumes ok: "buf_ok b" and tail: "tail_at b pos = utf8_text (cp # cps)" and cp: "is_scalar cp"
    and stops: "\<And>c. is_stop_symbol c stops \<Longrightarrow> unat c < 128"
    and state: "state = STATE_INTEGER \<or> state = STATE_REAL"
    and no_end: "\<not> token_end stops cp"
  shows "ascii_digit cp \<Longrightarrow> parse_loop b stops state pos = parse_loop b stops state (pos + 1)
      \<and> tail_at b (pos + 1) = utf8_text cps"
    and "cp = 0x2E \<Longrightarrow> tail_at b (pos + 1) = utf8_text cps"
    and "cp = 0x2E \<Longrightarrow> state = STATE_INTEGER \<Longrightarrow>
      parse_loop b stops state pos = parse_loop b stops STATE_REAL (pos + 1)"
    and "\<not> ascii_digit cp \<Longrightarrow> cp = 0x2E \<longrightarrow> state = STATE_REAL \<Longrightarrow>
      parse_loop b stops state pos = (STATE_ERROR, pos + bad_digit cp)"
proof -
  note at = at_text [OF ok tail cp]
  have err: "state \<noteq> STATE_ERROR" using state by auto
  note unfold = parse_loop_text_step [OF ok tail cp err, of stops]
  have dot: "buf_data b ! pos = 0x2E \<longleftrightarrow> cp = 0x2E"
    using encode_hd_ascii [OF cp, of "0x2E"] at(6) by (auto simp: word_unat_eq_iff)
  have one: "tail_at b (pos + 1) = utf8_text cps" if "unat cp < 128"
    using at(5) that by (simp add: encode_ascii)
  show "parse_loop b stops state pos = parse_loop b stops state (pos + 1)
      \<and> tail_at b (pos + 1) = utf8_text cps" if "ascii_digit cp"
    using that one at(3) state no_end unfold by (auto simp: digit_ascii parse_step_def)
  show "tail_at b (pos + 1) = utf8_text cps" if "cp = 0x2E"
    using one that by simp
  show "parse_loop b stops state pos = parse_loop b stops STATE_REAL (pos + 1)"
    if "cp = 0x2E" "state = STATE_INTEGER"
    using that at(3) dot no_end unfold period_not_digit by (auto simp: parse_step_def)
  show "parse_loop b stops state pos = (STATE_ERROR, pos + bad_digit cp)"
    if "\<not> ascii_digit cp" "cp = 0x2E \<longrightarrow> state = STATE_REAL"
  proof (cases "ak_utf8_is_digit cp")
    case False
    then have "parse_step b state pos = (STATE_ERROR, pos)"
      using at(3) state dot that by (auto simp: parse_step_def Let_def)
    then show ?thesis
      using unfold no_end False by (simp add: parse_loop_stop bad_digit_def)
  next
    case True
    then have big: "128 \<le> unat cp" using that(1) by (simp add: digit_ascii)
    have len: "1 < length (utf8_encode cp)"
      using encode_non_ascii(2) [OF cp big] by simp
    have "pos + length (utf8_encode cp) \<le> buf_count b"
      using char_byte_len_at_bounds(2) [OF ok at(1)] at(4) by simp
    then have p1: "pos + 1 < buf_count b" using len by simp
    have "buf_data b ! (pos + 1) = tail_at b pos ! 1"
      using ok p1 by (simp add: buf_bytes_length buf_bytes_nth)
    also have "\<dots> = utf8_encode cp ! 1"
      unfolding tail using len by (simp add: nth_append)
    finally have "ak_utf8_is_continuation_byte (buf_data b ! (pos + 1))"
      using encode_next_bytes [of 1 cp] len by simp
    from continuation_is_error [OF ok p1 this stops state]
    have "parse_loop b stops state (pos + 1) = (STATE_ERROR, pos + 1)" .
    moreover have "parse_step b state pos = (state, pos + 1)"
      using at(3) state True by (auto simp: parse_step_def)
    ultimately show ?thesis
      using unfold no_end True by (simp add: bad_digit_def)
  qed
qed

lemma fraction_class_Cons:
  "ascii_digit c \<Longrightarrow> fraction_class (c # cs) = map_prod id Suc (fraction_class cs)"
  "\<not> ascii_digit c \<Longrightarrow> fraction_class (c # cs) = (AK24_STATIC_BASE_NONE, bad_digit c)"
  by (auto simp: fraction_class_def Let_def simp del: dropWhile_eq_Nil_conv split: list.splits)

lemma number_class_Cons:
  "ascii_digit c \<Longrightarrow> number_class (c # cs) = map_prod id Suc (number_class cs)"
  "number_class (0x2E # cs) = map_prod id Suc (fraction_class cs)"
  "\<not> ascii_digit c \<Longrightarrow> c \<noteq> 0x2E \<Longrightarrow> number_class (c # cs) = (AK24_STATIC_BASE_NONE, bad_digit c)"
  using period_not_digit
  by (auto simp: number_class_def Let_def map_prod_def simp del: dropWhile_eq_Nil_conv
      split: list.splits prod.splits)

lemma class_Nil:
  "fraction_class [] = (AK24_STATIC_BASE_REAL, 0)" "number_class [] = (AK24_STATIC_BASE_INTEGER, 0)"
  by (simp_all add: fraction_class_def number_class_def)

definition state_of_class :: "ak_static_base \<Rightarrow> parse_state" where
  "state_of_class base =
     (case base of AK24_STATIC_BASE_NONE \<Rightarrow> STATE_ERROR
      | AK24_STATIC_BASE_INTEGER \<Rightarrow> STATE_INTEGER
      | AK24_STATIC_BASE_REAL \<Rightarrow> STATE_REAL
      | AK24_STATIC_BASE_SYMBOL \<Rightarrow> STATE_SYMBOL)"

lemma parse_real_text:
  assumes ok: "buf_ok b" and stops: "\<And>c. is_stop_symbol c stops \<Longrightarrow> unat c < 128"
  shows "list_all is_scalar cps \<Longrightarrow> tail_at b pos = utf8_text cps \<Longrightarrow>
    parse_loop b stops STATE_REAL pos =
      map_prod state_of_class ((+) pos) (fraction_class (takeWhile (\<lambda>cp. \<not> token_end stops cp) cps))"
proof (induction cps arbitrary: pos)
  case Nil
  then show ?case
    using at_text_end [OF ok, of pos] by (simp add: parse_loop_stop class_Nil state_of_class_def)
next
  case (Cons cp cps)
  then have cp: "is_scalar cp" and rest: "list_all is_scalar cps" by simp_all
  show ?case
  proof (cases "token_end stops cp")
    case True
    then show ?thesis
      using parse_loop_text_step [OF ok Cons.prems(2) cp, of STATE_REAL stops]
      by (simp add: class_Nil state_of_class_def)
  next
    case False
    note step = number_step_text [OF ok Cons.prems(2) cp stops, where state = STATE_REAL]
    show ?thesis
    proof (cases "ascii_digit cp")
      case True
      then show ?thesis
        using step(1) False Cons.IH [OF rest, of "pos + 1"]
        by (simp add: fraction_class_Cons map_prod_def split: prod.splits)
    next
      case digit: False
      then show ?thesis
        using step(4) False by (simp add: fraction_class_Cons state_of_class_def)
    qed
  qed
qed

lemma parse_integer_text:
  assumes ok: "buf_ok b" and stops: "\<And>c. is_stop_symbol c stops \<Longrightarrow> unat c < 128"
  shows "list_all is_scalar cps \<Longrightarrow> tail_at b pos = utf8_text cps \<Longrightarrow>
    parse_loop b stops STATE_INTEGER pos =
      map_prod state_of_class ((+) pos) (number_class (takeWhile (\<lambda>cp. \<not> token_end stops cp) cps))"
proof (induction cps arbitrary: pos)
  case Nil
  then show ?case
    using at_text_end [OF ok, of pos] by (simp add: parse_loop_stop class_Nil state_of_class_def)
next
  case (Cons cp cps)
  then have cp: "is_scalar cp" and rest: "list_all is_scalar cps" by simp_all
  show ?case
  proof (cases "token_end stops cp")
    case True
    then show ?thesis
      using parse_loop_text_step [OF ok Cons.prems(2) cp, of STATE_INTEGER stops]
      by (simp add: class_Nil state_of_class_def)
  next
    case False
    note step = number_step_text [OF ok Cons.prems(2) cp stops, where state = STATE_INTEGER]
    consider "ascii_digit cp" | "cp = 0x2E" | "\<not> ascii_digit cp" "cp \<noteq> 0x2E" by blast
    then show ?thesis
    proof cases
      case 1
      then show ?thesis
        using step(1) False Cons.IH [OF rest, of "pos + 1"]
        by (simp add: number_class_Cons map_prod_def split: prod.splits)
    next
      case 2
      then show ?thesis
        using step(2,3) False parse_real_text [OF ok stops rest, where pos = "pos + 1"]
        by (simp add: number_class_Cons map_prod_def split: prod.splits)
    next
      case 3
      then show ?thesis
        using step(4) False by (simp add: number_class_Cons state_of_class_def)
    qed
  qed
qed

lemma number_class_not_symbol: "fst (number_class cs) \<noteq> AK24_STATIC_BASE_SYMBOL"
  by (auto simp: number_class_def fraction_class_def Let_def split: list.splits prod.splits)

lemma number_class_advances:
  "cs \<noteq> [] \<Longrightarrow> ak_utf8_is_digit (hd cs) \<Longrightarrow> 0 < snd (number_class cs)"
  using period_not_digit
  by (cases cs; cases "ascii_digit (hd cs)"; cases "hd cs = 0x2E")
    (auto simp: number_class_Cons bad_digit_def)

lemma sign_chars:
  assumes "is_scalar c"
  shows "hd (utf8_encode c) = 0x2B \<longleftrightarrow> c = 0x2B" "hd (utf8_encode c) = 0x2D \<longleftrightarrow> c = 0x2D"
  using encode_hd_ascii [OF assms, of "0x2B"] encode_hd_ascii [OF assms, of "0x2D"]
  by (auto simp: word_unat_eq_iff)

text \<open>The first state and the whole automaton on a token.\<close>

lemma token_automaton:
  assumes ok: "buf_ok b" and stops: "\<And>c. is_stop_symbol c stops \<Longrightarrow> unat c < 128"
    and scalars: "list_all is_scalar (c # cs)" and tail: "tail_at b t = utf8_text (c # cs)"
    and start: "\<not> token_end stops c"
  defines "has_sign \<equiv> c = 0x2B \<or> c = 0x2D"
  defines "body \<equiv> if has_sign then cs else c # cs"
  defines "sign_len \<equiv> if has_sign then 1 else 0"
  shows "case_prod (parse_loop b stops) (first_state b t) =
    (if body \<noteq> [] \<and> ak_utf8_is_digit (hd body)
     then map_prod state_of_class ((+) (t + sign_len))
            (number_class (takeWhile (\<lambda>cp. \<not> token_end stops cp) body))
     else (STATE_SYMBOL,
           t + length (utf8_text (takeWhile (\<lambda>cp. \<not> token_end stops cp) (c # cs)))))"
proof -
  have c: "is_scalar c" and cs: "list_all is_scalar cs" using scalars by simp_all
  note at = at_text [OF ok tail c]
  have sgn: "buf_data b ! t = 0x2B \<or> buf_data b ! t = 0x2D \<longleftrightarrow> has_sign"
    using sign_chars [OF c] at(6) by (simp add: has_sign_def)
  show ?thesis
  proof (cases has_sign)
    case False
    then show ?thesis
      using sgn at(3) parse_integer_text [OF ok stops scalars tail]
        parse_symbol_text [OF ok scalars tail, of stops]
      by (simp add: first_state_def Let_def body_def sign_len_def)
  next
    case True
    then have "unat c < 128" by (auto simp: has_sign_def)
    then have one: "utf8_encode c = [word_of_nat (unat c)]" by (rule encode_ascii)
    then have tail': "tail_at b (t + 1) = utf8_text cs"
      using at(5) by simp
    have state: "first_state b t =
        (if cs \<noteq> [] \<and> ak_utf8_is_digit (hd cs) then STATE_INTEGER else STATE_SYMBOL, t + 1)"
    proof (cases cs)
      case Nil
      then show ?thesis
        using at_text_end [OF ok, of "t + 1"] tail' True sgn
        by (simp add: first_state_def Let_def)
    next
      case (Cons d ds)
      then show ?thesis
        using at_text [OF ok, of "t + 1" d ds] tail' cs True sgn
        by (simp add: first_state_def Let_def)
    qed
    then show ?thesis
      using parse_integer_text [OF ok stops cs tail'] parse_symbol_text [OF ok cs tail', of stops]
        True start one
      by (simp add: body_def sign_len_def add.assoc)
  qed
qed

definition class_of_state :: "parse_state \<Rightarrow> ak_static_base" where
  "class_of_state state =
     (if state = STATE_INTEGER then AK24_STATIC_BASE_INTEGER
      else if state = STATE_REAL then AK24_STATIC_BASE_REAL
      else AK24_STATIC_BASE_SYMBOL)"

lemma read_token_unfold:
  assumes "sc_buffer sc = Some b" and "t = skip_white_loop b (sc_position sc)"
    and "t < buf_count b" and "\<not> is_stop_symbol (buf_data b ! t) stops"
    and "case_prod (parse_loop b stops) (first_state b t) = (state, pos)"
  shows "ak_scanner_read_static_base_type (Some sc) stops = Some
    (if state = STATE_ERROR \<or> pos = t then (static_failure (sc_position sc) pos, Some sc)
     else (static_success (sc_position sc) t (pos - t) (class_of_state state),
           Some (sc\<lparr>sc_position := pos\<rparr>)))"
proof -
  obtain s0 p0 where first: "first_state b t = (s0, p0)" by (rule prod.exhaust)
  with assms(5) have loop: "parse_loop b stops s0 p0 = (state, pos)" by simp
  show ?thesis
    using assms(1,3,4) first loop
    by (simp add: ak_scanner_read_static_base_type_def static_success_def class_of_state_def
        Let_def assms(2) [symmetric])
qed

lemma after_token_simps:
  "after_token sc (static_failure start err) = sc"
  "after_token sc (static_success start t n base) = sc\<lparr>sc_position := t + n\<rparr>"
  by (simp_all add: after_token_def static_failure_def static_success_def no_token_def)

lemma read_token_text:
  assumes ok: "buf_ok b" and sc: "sc_buffer sc = Some b"
    and stops: "\<And>c. is_stop_symbol c stops \<Longrightarrow> unat c < 128"
    and scalars: "list_all is_scalar cps" and tail: "tail_at b (sc_position sc) = utf8_text cps"
  defines "r \<equiv> expected_token stops (sc_position sc) cps"
  shows "ak_scanner_read_static_base_type (Some sc) stops = Some (r, Some (after_token sc r))"
proof -
  define t where "t = skip_white_loop b (sc_position sc)"
  note skip = skip_white_loop_text [OF ok scalars tail, folded t_def]
  note defs = ak_scanner_read_static_base_type_def sc r_def expected_token_def Let_def
    t_def [symmetric] static_failure_def no_token_def after_token_def static_success_def
  show ?thesis
  proof (cases "dropWhile ak_utf8_is_whitespace cps")
    case Nil
    then show ?thesis
      using skip at_text_end [OF ok, of t] by (simp add: defs del: dropWhile_eq_Nil_conv)
  next
    case (Cons c cs)
    have all: "list_all is_scalar (c # cs)"
      using scalars set_dropWhileD [of _ ak_utf8_is_whitespace cps] Cons
      by (auto simp: list_all_iff)
    have t: "tail_at b t = utf8_text (c # cs)"
      using conjunct2 [OF skip] Cons by simp
    have ws: "\<not> ak_utf8_is_whitespace c"
      using Cons hd_dropWhile [of ak_utf8_is_whitespace cps] by simp
    note at = at_text [OF ok t]
    show ?thesis
    proof (cases "token_end stops c")
      case True
      then show ?thesis
        using at(1,6) all skip Cons ws by (simp add: defs token_end_def)
    next
      case False
      define tok where "tok = takeWhile (\<lambda>cp. \<not> token_end stops cp)"
      define body where "body = (if c = 0x2B \<or> c = 0x2D then cs else c # cs)"
      define sign_len :: nat where "sign_len = (if c = 0x2B \<or> c = 0x2D then 1 else 0)"
      obtain base len where nc: "number_class (tok body) = (base, len)"
        by (rule prod.exhaust)
      have base: "base \<noteq> AK24_STATIC_BASE_SYMBOL"
        using number_class_not_symbol [of "tok body"] nc by simp
      have adv: "0 < sign_len + len" if "body \<noteq> []" "ak_utf8_is_digit (hd body)"
        using that number_class_advances [of "tok body"] nc False
        by (auto simp: sign_len_def body_def tok_def split: if_splits)
      have sym: "0 < length (utf8_text (tok (c # cs)))"
        using False by (simp add: tok_def)
      have auto: "case_prod (parse_loop b stops) (first_state b t) =
        (if body \<noteq> [] \<and> ak_utf8_is_digit (hd body)
         then (state_of_class base, t + sign_len + len)
         else (STATE_SYMBOL, t + length (utf8_text (tok (c # cs)))))"
        using token_automaton [OF ok stops all t False] nc
        by (simp add: body_def sign_len_def tok_def)
      have start: "t < buf_count b" "\<not> is_stop_symbol (buf_data b ! t) stops"
        using at(1,6) all False by (simp_all add: token_end_def)
      have r: "r = (if body \<noteq> [] \<and> ak_utf8_is_digit (hd body) then
          if base = AK24_STATIC_BASE_NONE
          then static_failure (sc_position sc) (t + (sign_len + len))
          else static_success (sc_position sc) t (sign_len + len) base
        else static_success (sc_position sc) t (length (utf8_text (tok (c # cs))))
               AK24_STATIC_BASE_SYMBOL)"
        using nc conjunct1 [OF skip] Cons False
        by (simp add: r_def expected_token_def Let_def body_def sign_len_def tok_def)
      show ?thesis
      proof (cases "body \<noteq> [] \<and> ak_utf8_is_digit (hd body)")
        case True
        then have loop: "case_prod (parse_loop b stops) (first_state b t) =
            (state_of_class base, t + sign_len + len)"
          using auto by simp
        show ?thesis
          using read_token_unfold [OF sc t_def start loop] adv True base
          by (cases base) (auto simp: r state_of_class_def class_of_state_def
              after_token_simps add.assoc)
      next
        case no: False
        have loop: "case_prod (parse_loop b stops) (first_state b t) =
            (STATE_SYMBOL, t + length (utf8_text (tok (c # cs))))"
          unfolding auto if_not_P [OF no] ..
        have "r = static_success (sc_position sc) t (length (utf8_text (tok (c # cs))))
               AK24_STATIC_BASE_SYMBOL"
          unfolding r if_not_P [OF no] ..
        then show ?thesis
          using read_token_unfold [OF sc t_def start loop] sym
          by (simp add: class_of_state_def after_token_simps)
      qed
    qed
  qed
qed

section \<open>Arbitrary bytes: positions stay in the buffer\<close>

lemma skip_white_loop_step:
  assumes "buf_ok b"
  shows "skip_white_loop b pos =
    (if is_whitespace_at b pos then skip_white_loop b (pos + char_byte_len_at b pos) else pos)"
  using char_byte_len_at_bounds(1) [OF assms, of pos]
  by (subst skip_white_loop.simps) (auto simp: is_whitespace_at_def Let_def)

lemma is_whitespace_at_bound: "is_whitespace_at b pos \<Longrightarrow> pos < buf_count b"
  by (simp add: is_whitespace_at_def split: if_splits)

lemma skip_white_loop_bounds:
  assumes ok: "buf_ok b"
  shows "pos \<le> skip_white_loop b pos
    \<and> (pos \<le> buf_count b \<longrightarrow> skip_white_loop b pos \<le> buf_count b)
    \<and> \<not> is_whitespace_at b (skip_white_loop b pos)"
proof (induction "buf_count b - pos" arbitrary: pos rule: less_induct)
  case less
  show ?case
  proof (cases "is_whitespace_at b pos")
    case True
    note len = char_byte_len_at_bounds [OF ok is_whitespace_at_bound [OF True]]
    have "buf_count b - (pos + char_byte_len_at b pos) < buf_count b - pos"
      using len by simp
    from less [OF this] show ?thesis
      using len True skip_white_loop_step [OF ok, of pos] by auto
  next
    case False
    then show ?thesis
      using skip_white_loop_step [OF ok, of pos] by simp
  qed
qed

lemma parse_step_bounds:
  assumes "buf_ok b" and "pos < buf_count b" and "parse_step b state pos = (state', pos')"
  shows "pos \<le> pos'" and "pos' \<le> buf_count b" and "state' \<noteq> STATE_ERROR \<Longrightarrow> pos < pos'"
  using assms char_byte_len_at_bounds [OF assms(1,2)]
  by (auto simp: parse_step_def Let_def split: parse_state.splits if_splits)

lemma parse_loop_bounds:
  assumes "buf_ok b"
  shows "parse_loop b stops state pos = (state', pos') \<Longrightarrow> pos \<le> buf_count b \<Longrightarrow>
    pos \<le> pos' \<and> pos' \<le> buf_count b \<and>
    (state' \<noteq> STATE_ERROR \<longrightarrow>
       pos' = buf_count b \<or> is_whitespace_at b pos' \<or> is_stop_symbol (buf_data b ! pos') stops)"
  using assms
proof (induction b stops state pos rule: parse_loop.induct)
  case (1 b stops state pos)
  obtain state1 pos1 where step: "parse_step b state pos = (state1, pos1)"
    by (rule prod.exhaust)
  show ?case
  proof (cases "pos < buf_count b \<and> state \<noteq> STATE_ERROR \<and> \<not> is_whitespace_at b pos \<and>
      \<not> is_stop_symbol (buf_data b ! pos) stops")
    case True
    then have "parse_loop b stops state pos = parse_loop b stops state1 pos1"
      using step by (subst parse_loop.simps) simp
    then show ?thesis
      using 1 True step parse_step_bounds(1,2) [OF 1(4) _ step] by force
  next
    case False
    then have "state' = state" "pos' = pos"
      using 1(2) by (subst (asm) parse_loop.simps, auto split: if_splits)+
    then show ?thesis
      using False 1(3) by auto
  qed
qed

lemma first_state_bounds:
  assumes "t < buf_count b" and "first_state b t = (state, pos)"
  shows "t \<le> pos" and "pos \<le> buf_count b"
  using assms by (auto simp: first_state_def Let_def split: if_splits)

lemma read_token_bytes:
  assumes ok: "buf_ok b" and sc: "sc_buffer sc = Some b" "sc_position sc \<le> buf_count b"
  shows "\<exists>r sc'. ak_scanner_read_static_base_type (Some sc) stops = Some (r, Some sc')
    \<and> str_start_position r = sc_position sc \<and> sc_buffer sc' = Some b
    \<and> (\<not> str_success r \<longrightarrow> sc' = sc \<and> sc_position sc \<le> str_error_position r
         \<and> str_error_position r \<le> buf_count b)
    \<and> (str_success r \<longrightarrow>
        (\<exists>t n. st_data (str_data r) = Some t \<and> st_byte_length (str_data r) = n
           \<and> sc_position sc \<le> t \<and> 0 < n \<and> t + n \<le> buf_count b \<and> sc_position sc' = t + n
           \<and> t = skip_white_loop b (sc_position sc)
           \<and> \<not> is_stop_symbol (buf_data b ! t) stops
           \<and> (t + n = buf_count b \<or> is_whitespace_at b (t + n)
              \<or> is_stop_symbol (buf_data b ! (t + n)) stops)))"
proof -
  define t where "t = skip_white_loop b (sc_position sc)"
  have t: "sc_position sc \<le> t" "t \<le> buf_count b"
    using skip_white_loop_bounds [OF ok, of "sc_position sc"] sc(2) by (simp_all add: t_def)
  note defs = ak_scanner_read_static_base_type_def sc Let_def t_def [symmetric]
    static_failure_def
  show ?thesis
  proof (cases "t < buf_count b \<and> \<not> is_stop_symbol (buf_data b ! t) stops")
    case False
    then show ?thesis
      using t sc(1) by (auto simp: defs)
  next
    case True
    obtain s0 p0 where f: "first_state b t = (s0, p0)" by (rule prod.exhaust)
    obtain s1 p1 where l: "parse_loop b stops s0 p0 = (s1, p1)" by (rule prod.exhaust)
    note fb = first_state_bounds [OF conjunct1 [OF True] f]
    note lb = parse_loop_bounds [OF ok l fb(2)]
    show ?thesis
      using True t sc fb lb f l by (auto simp: defs)
  qed
qed

section \<open>Matching delimiters\<close>

text \<open>
  A delimiter counts unless the byte before it is the escape byte (the byte right after
  the opening delimiter always counts). The nesting depth after a run of positions is
  one for the opening delimiter plus the counted openings minus the counted closings.
\<close>

definition counted :: "ak_buffer \<Rightarrow> u8 option \<Rightarrow> nat \<Rightarrow> nat \<Rightarrow> bool" where
  "counted b esc start i \<longleftrightarrow>
     \<not> (\<exists>e. esc = Some e \<and> i > start + 1 \<and> buf_data b ! (i - 1) = e)"

definition occurrences :: "ak_buffer \<Rightarrow> u8 option \<Rightarrow> nat \<Rightarrow> u8 \<Rightarrow> nat \<Rightarrow> nat" where
  "occurrences b esc start c n =
     length (filter (\<lambda>i. counted b esc start i \<and> buf_data b ! i = c) [start + 1..<n])"

text \<open>Position \<open>n\<close> closes the group: its byte counts and no opening is left after it.\<close>

definition closes :: "ak_buffer \<Rightarrow> u8 \<Rightarrow> u8 \<Rightarrow> u8 option \<Rightarrow> nat \<Rightarrow> nat \<Rightarrow> bool" where
  "closes b st en esc start n \<longleftrightarrow>
     start < n \<and> n < buf_count b \<and> counted b esc start n \<and> buf_data b ! n = en \<and>
     (st = en \<or> occurrences b esc start en n = occurrences b esc start st n)"

lemma occurrences_Suc:
  "start < n \<Longrightarrow> occurrences b esc start c (Suc n) =
     occurrences b esc start c n + (if counted b esc start n \<and> buf_data b ! n = c then 1 else 0)"
  by (simp add: occurrences_def)

lemma occurrences_start: "occurrences b esc start c (Suc start) = 0"
  by (simp add: occurrences_def)

lemma occurrences_le: "occurrences b esc start c n \<le> n"
  unfolding occurrences_def
  by (rule order_trans [OF length_filter_le]) simp

lemma group_loop_step:
  "group_loop b st en esc start pos depth =
     (if pos < buf_count b then
        if counted b esc start pos \<and> buf_data b ! pos = en \<and> (st = en \<or> depth = 1)
        then Some (Some pos)
        else if counted b esc start pos \<and> st \<noteq> en \<and> buf_data b ! pos = st then
          (if depth + 1 > INT_MAX then None
           else group_loop b st en esc start (pos + 1) (depth + 1))
        else if counted b esc start pos \<and> st \<noteq> en \<and> buf_data b ! pos = en
        then group_loop b st en esc start (pos + 1) (depth - 1)
        else group_loop b st en esc start (pos + 1) depth
      else Some None)"
  by (subst group_loop.simps) (auto simp: Let_def counted_def split: option.splits)

lemma group_loop_correct:
  assumes "buf_count b < 2 ^ 31 - 1"
  shows "start < pos \<Longrightarrow> pos \<le> buf_count b \<Longrightarrow>
    (st \<noteq> en \<Longrightarrow> depth = 1 + int (occurrences b esc start st pos) - int (occurrences b esc start en pos)) \<Longrightarrow>
    (\<And>i. i < pos \<Longrightarrow> \<not> closes b st en esc start i) \<Longrightarrow>
    (case group_loop b st en esc start pos depth of
       None \<Rightarrow> False
     | Some None \<Rightarrow> \<forall>i. \<not> closes b st en esc start i
     | Some (Some n) \<Rightarrow> closes b st en esc start n \<and> (\<forall>i<n. \<not> closes b st en esc start i))"
proof (induction "buf_count b - pos" arbitrary: pos depth rule: less_induct)
  case less
  note step = group_loop_step [of b st en esc start pos depth]
  show ?case
  proof (cases "pos < buf_count b")
    case False
    then have "\<not> closes b st en esc start i" for i
      using less.prems(2) less.prems(4) [of i] by (auto simp: closes_def)
    then show ?thesis
      using False step by simp
  next
    case True
    have depth: "depth \<le> INT_MAX - 1" if "st \<noteq> en"
      using less.prems(3) [OF that] assms True occurrences_le [of b esc start st pos] by simp
    have closes: "closes b st en esc start pos \<longleftrightarrow>
        counted b esc start pos \<and> buf_data b ! pos = en \<and> (st = en \<or> depth = 1)"
      using less.prems(1,3) True by (cases "st = en") (auto simp: closes_def)
    show ?thesis
    proof (cases "closes b st en esc start pos")
      case True
      then show ?thesis
        using step closes less.prems(4) \<open>pos < buf_count b\<close> by simp
    next
      case no: False
      define depth' where "depth' = (if st = en then depth
        else 1 + int (occurrences b esc start st (Suc pos)) - int (occurrences b esc start en (Suc pos)))"
      have eq: "depth' = (if st \<noteq> en \<and> counted b esc start pos \<and> buf_data b ! pos = st then depth + 1
          else if st \<noteq> en \<and> counted b esc start pos \<and> buf_data b ! pos = en then depth - 1
          else depth)"
        using less.prems(1,3) by (cases "st = en") (auto simp: depth'_def occurrences_Suc)
      have "group_loop b st en esc start pos depth = group_loop b st en esc start (pos + 1) depth'"
        using step no closes depth True unfolding eq by auto
      moreover have "\<not> closes b st en esc start i" if "i < pos + 1" for i
        using that no less.prems(4) [of i] by (cases "i = pos") auto
      ultimately show ?thesis
        using less.hyps [of "pos + 1" depth'] True less.prems(1) by (simp add: depth'_def)
    qed
  qed
qed

section \<open>Skipping\<close>

lemma seek_byte_correct:
  assumes "pos \<le> buf_count b"
  shows "pos \<le> seek_byte b c pos \<and> seek_byte b c pos \<le> buf_count b
    \<and> (seek_byte b c pos < buf_count b \<longrightarrow> buf_data b ! seek_byte b c pos = c)
    \<and> (\<forall>i. pos \<le> i \<longrightarrow> i < seek_byte b c pos \<longrightarrow> buf_data b ! i \<noteq> c)"
  using assms
proof (induction b c pos rule: seek_byte.induct)
  case (1 b c pos)
  show ?case
  proof (cases "pos < buf_count b \<and> buf_data b ! pos \<noteq> c")
    case True
    then have eq: "seek_byte b c pos = seek_byte b c (pos + 1)"
      by (subst seek_byte.simps) simp
    have ih: "pos + 1 \<le> seek_byte b c (pos + 1) \<and> seek_byte b c (pos + 1) \<le> buf_count b
      \<and> (seek_byte b c (pos + 1) < buf_count b \<longrightarrow> buf_data b ! seek_byte b c (pos + 1) = c)
      \<and> (\<forall>i. pos + 1 \<le> i \<longrightarrow> i < seek_byte b c (pos + 1) \<longrightarrow> buf_data b ! i \<noteq> c)"
      using 1 True by simp
    have "buf_data b ! i \<noteq> c" if "pos \<le> i" "i < seek_byte b c (pos + 1)" for i
      using that ih True by (cases "i = pos") auto
    then show ?thesis
      using ih unfolding eq by simp
  next
    case False
    then have "seek_byte b c pos = pos"
      by (subst seek_byte.simps) auto
    then show ?thesis
      using 1(2) False by auto
  qed
qed

text \<open>
  Trivia: a whitespace character, or a comment, which runs from a semicolon to the end of
  its line or of the buffer.
\<close>

inductive trivia :: "ak_buffer \<Rightarrow> nat \<Rightarrow> nat \<Rightarrow> bool" for b where
  trivia_done: "trivia b p p"
| trivia_white: "is_whitespace_at b p \<Longrightarrow> trivia b (p + char_byte_len_at b p) q \<Longrightarrow> trivia b p q"
| trivia_comment: "p < buf_count b \<Longrightarrow> buf_data b ! p = 0x3B \<Longrightarrow>
    (\<forall>i. p \<le> i \<longrightarrow> i < e \<longrightarrow> buf_data b ! i \<noteq> 0x0A) \<Longrightarrow>
    e < buf_count b \<Longrightarrow> buf_data b ! e = 0x0A \<Longrightarrow> trivia b (e + 1) q \<Longrightarrow> trivia b p q"
| trivia_last_comment: "p < buf_count b \<Longrightarrow> buf_data b ! p = 0x3B \<Longrightarrow>
    (\<forall>i. p \<le> i \<longrightarrow> i < buf_count b \<longrightarrow> buf_data b ! i \<noteq> 0x0A) \<Longrightarrow> trivia b p (buf_count b)"

lemma skip_trivia_loop_correct:
  assumes "buf_ok b"
  shows "pos \<le> buf_count b \<Longrightarrow>
    trivia b pos (skip_trivia_loop b pos) \<and> skip_trivia_loop b pos \<le> buf_count b
    \<and> \<not> is_whitespace_at b (skip_trivia_loop b pos)
    \<and> (skip_trivia_loop b pos < buf_count b \<longrightarrow> buf_data b ! skip_trivia_loop b pos \<noteq> 0x3B)"
proof (induction "buf_count b - pos" arbitrary: pos rule: less_induct)
  case less
  let ?goal = "\<lambda>p q. trivia b p q \<and> q \<le> buf_count b \<and> \<not> is_whitespace_at b q
    \<and> (q < buf_count b \<longrightarrow> buf_data b ! q \<noteq> 0x3B)"
  consider (stop) "\<not> is_whitespace_at b pos" "\<not> (pos < buf_count b \<and> buf_data b ! pos = 0x3B)"
    | (white) "is_whitespace_at b pos" "pos < buf_count b"
    | (comment) "\<not> is_whitespace_at b pos" "pos < buf_count b" "buf_data b ! pos = 0x3B"
    using is_whitespace_at_bound by blast
  then show ?case
  proof cases
    case stop
    then have "skip_trivia_loop b pos = pos"
      by (subst skip_trivia_loop.simps) auto
    then show ?thesis
      using stop less.prems trivia_done by auto
  next
    case white
    note len = char_byte_len_at_bounds [OF assms white(2)]
    have eq: "skip_trivia_loop b pos = skip_trivia_loop b (pos + char_byte_len_at b pos)"
      using white len(1) by (subst skip_trivia_loop.simps) (simp add: Let_def)
    have "?goal (pos + char_byte_len_at b pos) (skip_trivia_loop b (pos + char_byte_len_at b pos))"
      using less.hyps [of "pos + char_byte_len_at b pos"] len white(2) by simp
    then show ?thesis
      using trivia_white [OF white(1)] unfolding eq by blast
  next
    case comment
    define e where "e = seek_byte b 0x0A pos"
    note e = seek_byte_correct [OF less.prems, of "0x0A", folded e_def]
    have eq: "skip_trivia_loop b pos = skip_trivia_loop b (skip_comment b pos)"
      using comment by (subst skip_trivia_loop.simps) simp
    have skip: "skip_comment b pos = (if e < buf_count b then e + 1 else e)"
      using e by (auto simp: skip_comment_def Let_def e_def [symmetric])
    have ih: "?goal (skip_comment b pos) (skip_trivia_loop b (skip_comment b pos))"
      using less.hyps [of "skip_comment b pos"] skip_comment_advances [OF comment(2,3)] comment(2) e
      by (simp add: skip)
    show ?thesis
    proof (cases "e < buf_count b")
      case True
      then show ?thesis
        using ih e comment trivia_comment [of pos b e] unfolding eq by (auto simp: skip)
    next
      case False
      then have "skip_comment b pos = buf_count b" using e skip by simp
      moreover have "skip_trivia_loop b (buf_count b) = buf_count b"
        by (subst skip_trivia_loop.simps) simp
      moreover have "trivia b pos (buf_count b)"
        using trivia_last_comment [OF comment(2,3)] e False by auto
      ultimately show ?thesis
        using ih unfolding eq by auto
    qed
  qed
qed

section \<open>Properties\<close>

text \<open>
  C4: on every UTF-8 text, with ASCII stop symbols, reading a token skips the leading
  whitespace, takes the code points up to the next whitespace or stop symbol, classifies
  them as INTEGER, REAL or SYMBOL or reports the error at the offending byte, and moves
  the scanner past the token on success and not at all on failure.
\<close>

theorem scanner_token_spec:
  assumes "buf_ok b" and "sc_buffer sc = Some b"
    and "\<And>c. is_stop_symbol c stops \<Longrightarrow> unat c < 128"
    and "list_all is_scalar cps" and "tail_at b (sc_position sc) = utf8_text cps"
  shows "ak_scanner_read_static_base_type (Some sc) stops =
    Some (expected_token stops (sc_position sc) cps,
          Some (after_token sc (expected_token stops (sc_position sc) cps)))"
  using assms by (rule read_token_text)

definition demo_buffer :: "u8 list \<Rightarrow> ak_buffer" where
  "demo_buffer bs = \<lparr>buf_data = bs, buf_capacity = length bs, buf_count = length bs,
                     buf_origin_offset = 0\<rparr>"

lemma demo_buffer_facts:
  "bs \<noteq> [] \<Longrightarrow> length bs < SIZE_RANGE \<Longrightarrow> buf_ok (demo_buffer bs)"
  "buf_bytes (demo_buffer bs) = bs" "buf_count (demo_buffer bs) = length bs"
  "buf_data (demo_buffer bs) = bs"
  by (simp_all add: demo_buffer_def buf_ok_def buf_bytes_def)

theorem scanner_token_spec_witness:
  "ak_scanner_read_static_base_type
     (Some \<lparr>sc_buffer = Some (demo_buffer [0x20, 0x2D, 0x31, 0x32, 0x2E, 0x35, 0x29]),
            sc_position = 0\<rparr>)
     (Some \<lparr>stop_syms = Some [0x29], stop_count = 1\<rparr>) =
   Some (static_success 0 1 5 AK24_STATIC_BASE_REAL,
     Some \<lparr>sc_buffer = Some (demo_buffer [0x20, 0x2D, 0x31, 0x32, 0x2E, 0x35, 0x29]),
           sc_position = 6\<rparr>)"
proof -
  let ?bs = "[0x20, 0x2D, 0x31, 0x32, 0x2E, 0x35, 0x29] :: u8 list"
  let ?sc = "\<lparr>sc_buffer = Some (demo_buffer ?bs), sc_position = 0\<rparr>"
  let ?stops = "Some \<lparr>stop_syms = Some [0x29 :: u8], stop_count = 1\<rparr>"
  let ?cps = "[0x20, 0x2D, 0x31, 0x32, 0x2E, 0x35, 0x29] :: u32 list"
  have exp: "expected_token ?stops 0 ?cps = static_success 0 1 5 AK24_STATIC_BASE_REAL"
    by (simp add: expected_token_def token_end_def ak_utf8_is_whitespace_def is_stop_symbol_def
        utf8_text_def utf8_encode_def number_class_def fraction_class_def ascii_digit_def
        ak_utf8_is_digit_def in_ranges_def static_success_def)
  have "ak_scanner_read_static_base_type (Some ?sc) ?stops =
    Some (expected_token ?stops (sc_position ?sc) ?cps,
          Some (after_token ?sc (expected_token ?stops (sc_position ?sc) ?cps)))"
  proof (rule scanner_token_spec [of "demo_buffer ?bs"])
    show "list_all is_scalar ?cps" by (simp add: is_scalar_def)
    show "tail_at (demo_buffer ?bs) (sc_position ?sc) = utf8_text ?cps"
      by (simp add: demo_buffer_facts utf8_text_def utf8_encode_def)
    show "unat c < 128" if "is_stop_symbol c ?stops" for c
      using that by (auto simp: is_stop_symbol_def)
  qed (simp_all add: demo_buffer_facts)
  then show ?thesis
    unfolding ak_scanner.select_convs exp after_token_simps by simp
qed

text \<open>
  C11: on every byte sequence, reading a token returns; on success the token starts after
  the skipped whitespace, is not empty, lies inside the buffer, ends at the end of the
  buffer, at whitespace or at a stop symbol, and the scanner moves to its end, strictly
  forward; on failure the scanner does not move and the error lies in the buffer.
\<close>

theorem scanner_token_progress:
  assumes "buf_ok b" and "sc_buffer sc = Some b" and "sc_position sc \<le> buf_count b"
  shows "\<exists>r sc'. ak_scanner_read_static_base_type (Some sc) stops = Some (r, Some sc')
    \<and> str_start_position r = sc_position sc \<and> sc_buffer sc' = Some b
    \<and> (\<not> str_success r \<longrightarrow> sc' = sc \<and> sc_position sc \<le> str_error_position r
         \<and> str_error_position r \<le> buf_count b)
    \<and> (str_success r \<longrightarrow>
        (\<exists>t n. st_data (str_data r) = Some t \<and> st_byte_length (str_data r) = n
           \<and> sc_position sc \<le> t \<and> 0 < n \<and> t + n \<le> buf_count b \<and> sc_position sc' = t + n
           \<and> t = skip_white_loop b (sc_position sc)
           \<and> \<not> is_stop_symbol (buf_data b ! t) stops
           \<and> (t + n = buf_count b \<or> is_whitespace_at b (t + n)
              \<or> is_stop_symbol (buf_data b ! (t + n)) stops)))"
  using assms by (rule read_token_bytes)

theorem scanner_token_progress_witness:
  "\<exists>r sc'. ak_scanner_read_static_base_type
     (Some \<lparr>sc_buffer = Some (demo_buffer [0xFF, 0x61]), sc_position = 0\<rparr>) None = Some (r, Some sc')
   \<and> str_start_position r = 0"
  using scanner_token_progress [of "demo_buffer [0xFF, 0x61]"
      "\<lparr>sc_buffer = Some (demo_buffer [0xFF, 0x61]), sc_position = 0\<rparr>" None]
  by (auto simp: demo_buffer_facts)

text \<open>
  C9: \<open>ak_scanner_find_group\<close> succeeds exactly when the byte at the (whitespace-skipped)
  position is the opening delimiter and some later position closes it, and then returns
  the first such position and moves the scanner there; otherwise the scanner is
  unchanged. The buffer is shorter than \<open>INT_MAX\<close>, the range of the depth counter.
\<close>

theorem scanner_find_group_matches:
  assumes "buf_ok b" and "sc_buffer sc = Some b" and "sc_position sc < buf_count b"
    and "buf_count b < 2 ^ 31 - 1"
    and "p = (if ws then skip_white_loop b (sc_position sc) else sc_position sc)"
  shows "ak_scanner_find_group (Some sc) st en esc ws = Some
    (if p < buf_count b \<and> buf_data b ! p = st \<and> (\<exists>n. closes b st en esc p n)
     then (\<lparr>fg_success = True, fg_start = p, fg_closing = (LEAST n. closes b st en esc p n)\<rparr>,
           Some (sc\<lparr>sc_position := LEAST n. closes b st en esc p n\<rparr>))
     else (group_failure, Some sc))"
proof (cases "p < buf_count b \<and> buf_data b ! p = st")
  case False
  then show ?thesis
    using assms by (auto simp: ak_scanner_find_group_def Let_def)
next
  case True
  have loop: "case group_loop b st en esc p (p + 1) 1 of
       None \<Rightarrow> False
     | Some None \<Rightarrow> \<forall>i. \<not> closes b st en esc p i
     | Some (Some n) \<Rightarrow> closes b st en esc p n \<and> (\<forall>i<n. \<not> closes b st en esc p i)"
    by (rule group_loop_correct [OF assms(4)]) (use True in \<open>auto simp: occurrences_start closes_def\<close>)
  have least: "(LEAST i. closes b st en esc p i) = n"
    if "closes b st en esc p n" "\<forall>i<n. \<not> closes b st en esc p i" for n
    using that by (intro Least_equality) (auto simp: not_less [symmetric])
  show ?thesis
    using True loop least assms(2,3) assms(5) [symmetric]
    by (auto simp: ak_scanner_find_group_def Let_def split: option.splits)
qed

theorem scanner_find_group_matches_witness:
  "ak_scanner_find_group
     (Some \<lparr>sc_buffer = Some (demo_buffer [0x28, 0x28, 0x5C, 0x29, 0x29, 0x29]), sc_position = 0\<rparr>)
     0x28 0x29 (Some 0x5C) True =
   Some (\<lparr>fg_success = True, fg_start = 0, fg_closing = 5\<rparr>,
     Some \<lparr>sc_buffer = Some (demo_buffer [0x28, 0x28, 0x5C, 0x29, 0x29, 0x29]), sc_position = 5\<rparr>)"
proof -
  let ?b = "demo_buffer [0x28, 0x28, 0x5C, 0x29, 0x29, 0x29]"
  let ?c = "closes ?b 0x28 0x29 (Some 0x5C) 0"
  have "?c 5"
    by (simp add: closes_def counted_def occurrences_def demo_buffer_facts upt_conv_Cons)
  moreover have "\<not> ?c i" if "i < 5" for i
  proof -
    have "i = 0 \<or> i = 1 \<or> i = 2 \<or> i = 3 \<or> i = 4" using that by auto
    then show ?thesis
      by (elim disjE) (simp_all add: closes_def counted_def occurrences_def demo_buffer_facts
          upt_conv_Cons)
  qed
  ultimately have least: "(LEAST n. ?c n) = 5" "\<exists>n. ?c n"
    by (auto intro!: Least_equality simp: not_less [symmetric])
  have "skip_white_loop ?b 0 = 0"
    by code_simp
  then show ?thesis
    using scanner_find_group_matches [of ?b "\<lparr>sc_buffer = Some ?b, sc_position = 0\<rparr>" 0 True
        "0x28" "0x29" "Some 0x5C"] least
    by (simp add: demo_buffer_facts)
qed

text \<open>
  The skipping operations. \<open>goto_next_non_white\<close> moves over whitespace to the first
  byte that is not whitespace; \<open>skip_whitespace_and_comments\<close> moves over trivia to the
  first byte that starts neither whitespace nor a comment; \<open>goto_next_target\<close> moves to
  the first occurrence of the target. Each reports false exactly when the end of the
  buffer comes first, and then leaves the scanner where it was.
\<close>

theorem scanner_skips:
  assumes "buf_ok b" and "sc_buffer sc = Some b" and "sc_position sc \<le> buf_count b"
  shows "(\<exists>q. sc_position sc \<le> q \<and> q \<le> buf_count b \<and> \<not> is_whitespace_at b q
        \<and> ak_scanner_goto_next_non_white (Some sc) =
            (if q < buf_count b then (True, Some (sc\<lparr>sc_position := q\<rparr>)) else (False, Some sc)))
    \<and> (\<exists>q. trivia b (sc_position sc) q \<and> q \<le> buf_count b \<and> \<not> is_whitespace_at b q
        \<and> (q < buf_count b \<longrightarrow> buf_data b ! q \<noteq> 0x3B)
        \<and> ak_scanner_skip_whitespace_and_comments (Some sc) =
            (if q < buf_count b then (True, Some (sc\<lparr>sc_position := q\<rparr>)) else (False, Some sc)))
    \<and> (\<exists>q. sc_position sc \<le> q \<and> q \<le> buf_count b
        \<and> (\<forall>i. sc_position sc \<le> i \<longrightarrow> i < q \<longrightarrow> buf_data b ! i \<noteq> c)
        \<and> (q < buf_count b \<longrightarrow> buf_data b ! q = c)
        \<and> ak_scanner_goto_next_target (Some sc) c =
            (if q < buf_count b then (True, Some (sc\<lparr>sc_position := q\<rparr>)) else (False, Some sc)))"
proof (intro conjI)
  let ?p = "sc_position sc"
  show "\<exists>q. ?p \<le> q \<and> q \<le> buf_count b \<and> \<not> is_whitespace_at b q
        \<and> ak_scanner_goto_next_non_white (Some sc) =
            (if q < buf_count b then (True, Some (sc\<lparr>sc_position := q\<rparr>)) else (False, Some sc))"
    using skip_white_loop_bounds [OF assms(1), of ?p] assms(2,3)
    by (intro exI [of _ "skip_white_loop b ?p"])
      (simp add: ak_scanner_goto_next_non_white_def Let_def)
  show "\<exists>q. trivia b ?p q \<and> q \<le> buf_count b \<and> \<not> is_whitespace_at b q
        \<and> (q < buf_count b \<longrightarrow> buf_data b ! q \<noteq> 0x3B)
        \<and> ak_scanner_skip_whitespace_and_comments (Some sc) =
            (if q < buf_count b then (True, Some (sc\<lparr>sc_position := q\<rparr>)) else (False, Some sc))"
    using skip_trivia_loop_correct [OF assms(1,3)] assms(2)
    by (intro exI [of _ "skip_trivia_loop b ?p"])
      (simp add: ak_scanner_skip_whitespace_and_comments_def Let_def)
  have "ak_scanner_goto_next_target (Some sc) c =
      (if seek_byte b c ?p < buf_count b then (True, Some (sc\<lparr>sc_position := seek_byte b c ?p\<rparr>))
       else (False, Some sc))"
    using assms(2) seek_byte.simps [of b c ?p]
    by (auto simp: ak_scanner_goto_next_target_def Let_def)
  then show "\<exists>q. ?p \<le> q \<and> q \<le> buf_count b
        \<and> (\<forall>i. ?p \<le> i \<longrightarrow> i < q \<longrightarrow> buf_data b ! i \<noteq> c) \<and> (q < buf_count b \<longrightarrow> buf_data b ! q = c)
        \<and> ak_scanner_goto_next_target (Some sc) c =
            (if q < buf_count b then (True, Some (sc\<lparr>sc_position := q\<rparr>)) else (False, Some sc))"
    using seek_byte_correct [OF assms(3), of c] by (intro exI [of _ "seek_byte b c ?p"]) simp
qed

theorem scanner_skips_witness:
  "\<exists>q. trivia (demo_buffer [0x3B, 0x0A, 0x61]) 0 q \<and> q \<le> 3"
  using scanner_skips [of "demo_buffer [0x3B, 0x0A, 0x61]"
      "\<lparr>sc_buffer = Some (demo_buffer [0x3B, 0x0A, 0x61]), sc_position = 0\<rparr>" 0]
  by (auto simp: demo_buffer_facts)

end
