(* ===== verification/DynList.thy ===== *)
theory DynList
  imports Prelude
begin

text \<open>
  Model of kernel/list/src/list.c and the macros of list.h: the growable list of the
  kernel. The list is an array \<open>items\<close> of pointers to separately allocated cells, one per
  element. A pointer is a positive number and \<open>cells\<close> holds the live cells this list has
  allocated, so that a use of a freed cell or a double free has no defined result
  (\<open>None\<close>). Counts are C \<open>unsigned\<close>, 32 bits wide.

  The lemmas show that every operation keeps the invariant \<open>list_ok\<close> and acts on the
  contents \<open>list_view\<close> as the corresponding operation on HOL lists; that growing ends below
  \<open>2 ^ 31\<close> elements and does not above; and that the operations that free cells never
  free one twice. The locale \<open>sequence\<close> is the interface other components rely on.
\<close>

section \<open>Definitions\<close>

abbreviation UINT_RANGE :: nat where
  "UINT_RANGE \<equiv> 2 ^ 32"

abbreviation LIST_INITIAL_CAPACITY :: nat where
  "LIST_INITIAL_CAPACITY \<equiv> 8"

record 'v list_base =
  items :: "nat list option"
  list_capacity :: nat
  list_count :: nat
  item_size :: nat
  cells :: "nat \<rightharpoonup> 'v"

record list_iter =
  iter_index :: nat
  iter_valid :: bool

text \<open>
  The outcome \<open>Some g\<close> of an allocation gives the address \<open>g 0\<close> of a fresh cell, or the
  indeterminate contents \<open>g i\<close> of a fresh array of pointers. An address that is NULL or
  still in use is not one \<open>malloc\<close> may answer; it is read as a failure.
\<close>

type_synonym ptr_sched = "(nat \<Rightarrow> nat) sched"

definition alloc_cell :: "(nat \<rightharpoonup> 'v) \<Rightarrow> ptr_sched \<Rightarrow> nat option \<times> ptr_sched" where
  "alloc_cell h s =
     (case sys_alloc s of
        (None, s') \<Rightarrow> (None, s')
      | (Some g, s') \<Rightarrow> (if g 0 \<noteq> 0 \<and> h (g 0) = None then Some (g 0) else None, s'))"

definition free_cell :: "(nat \<rightharpoonup> 'v) \<Rightarrow> nat \<Rightarrow> (nat \<rightharpoonup> 'v) option" where
  "free_cell h a =
     (if a = 0 then Some h else if h a = None then None else Some (h(a := None)))"

definition alloc_ptrs :: "nat \<Rightarrow> ptr_sched \<Rightarrow> nat list option \<times> ptr_sched" where
  "alloc_ptrs n s = (case sys_alloc s of (r, s') \<Rightarrow> (map_option (\<lambda>g. map g [0..<n]) r, s'))"

definition realloc_ptrs ::
  "nat list option \<Rightarrow> nat \<Rightarrow> ptr_sched \<Rightarrow> nat list option \<times> ptr_sched" where
  "realloc_ptrs old n s =
     (let o' = (case old of None \<Rightarrow> [] | Some xs \<Rightarrow> xs) in
      case sys_alloc s of
        (r, s') \<Rightarrow> (map_option (\<lambda>g. take n o' @ map g [length o'..<n]) r, s'))"

text \<open>The macro \<open>list_init\<close>: zeroed storage and the element size.\<close>

definition list_init :: "nat \<Rightarrow> 'v list_base" where
  "list_init sz = \<lparr>items = None, list_capacity = 0, list_count = 0, item_size = sz,
                   cells = Map.empty\<rparr>"

partial_function (option) list_grow :: "nat \<Rightarrow> nat \<Rightarrow> nat option" where
  "list_grow new_capacity required =
     (if new_capacity < required then list_grow (new_capacity * 2 mod UINT_RANGE) required
      else Some new_capacity)"

declare list_grow.simps [code]

definition list_ensure_capacity ::
  "'v list_base \<Rightarrow> nat \<Rightarrow> ptr_sched \<Rightarrow> (int \<times> 'v list_base \<times> ptr_sched) option" where
  "list_ensure_capacity l required s =
     (if list_capacity l \<ge> required then Some (0, l, s)
      else do {
        new_capacity \<leftarrow>
          list_grow (if list_capacity l = 0 then LIST_INITIAL_CAPACITY else list_capacity l) required;
        (case realloc_ptrs (items l) new_capacity s of
           (None, s') \<Rightarrow> Some (-1, l, s')
         | (Some new_items, s') \<Rightarrow>
             Some (0, l\<lparr>items := Some new_items, list_capacity := new_capacity\<rparr>, s'))
      })"

text \<open>An access \<open>l->items[i]\<close>; a NULL array has no elements.\<close>

definition item_at :: "'v list_base \<Rightarrow> nat \<Rightarrow> nat option" where
  "item_at l i = Option.bind (items l) (\<lambda>xs. mem_read xs i)"

text \<open>The loop \<open>for (i = start; i < n; i++) if (items[i]) free(items[i])\<close>.\<close>

fun free_items :: "(nat \<rightharpoonup> 'v) \<Rightarrow> nat list \<Rightarrow> nat \<Rightarrow> nat \<Rightarrow> (nat \<rightharpoonup> 'v) option" where
  "free_items h xs i 0 = Some h"
| "free_items h xs i (Suc n) = do {
     a \<leftarrow> mem_read xs i;
     h' \<leftarrow> (if a \<noteq> 0 then free_cell h a else Some h);
     free_items h' xs (i + 1) n
   }"

definition list_deinit :: "'v list_base \<Rightarrow> 'v list_base option" where
  "list_deinit l = do {
     h \<leftarrow> (case items l of None \<Rightarrow> Some (cells l)
           | Some xs \<Rightarrow> free_items (cells l) xs 0 (list_count l));
     Some (l\<lparr>items := None, list_count := 0, list_capacity := 0, cells := h\<rparr>)
   }"

definition list_push ::
  "'v list_base \<Rightarrow> 'v \<Rightarrow> ptr_sched \<Rightarrow> (int \<times> 'v list_base \<times> ptr_sched) option" where
  "list_push l value s = do {
     (r, l1, s1) \<leftarrow> list_ensure_capacity l ((list_count l + 1) mod UINT_RANGE) s;
     if r \<noteq> 0 then Some (-1, l1, s1)
     else (case alloc_cell (cells l1) s1 of
       (None, s2) \<Rightarrow> Some (-1, l1, s2)
     | (Some item, s2) \<Rightarrow> do {
         xs \<leftarrow> items l1;
         xs' \<leftarrow> mem_write xs (list_count l1) item;
         Some (0, l1\<lparr>items := Some xs', list_count := (list_count l1 + 1) mod UINT_RANGE,
                      cells := (cells l1)(item \<mapsto> value)\<rparr>, s2)
       })
   }"

text \<open>The popped cell is returned, not freed: it stays live.\<close>

definition list_pop :: "'v list_base \<Rightarrow> (nat option \<times> 'v list_base) option" where
  "list_pop l =
     (if list_count l = 0 then Some (None, l)
      else let l' = l\<lparr>list_count := list_count l - 1\<rparr> in do {
        a \<leftarrow> item_at l' (list_count l');
        Some (Some a, l')
      })"

definition list_get :: "'v list_base \<Rightarrow> nat \<Rightarrow> nat option option" where
  "list_get l index =
     (if index \<ge> list_count l then Some None else map_option Some (item_at l index))"

definition list_set :: "'v list_base \<Rightarrow> nat \<Rightarrow> 'v \<Rightarrow> (int \<times> 'v list_base) option" where
  "list_set l index value =
     (if index \<ge> list_count l then Some (-1, l)
      else do {
        a \<leftarrow> item_at l index;
        _ \<leftarrow> cells l a;
        Some (0, l\<lparr>cells := (cells l)(a \<mapsto> value)\<rparr>)
      })"

text \<open>\<open>for (i = hi; i >= lo; i--) items[i] = items[i - d]\<close>, for \<open>lo > 0\<close>; the first argument counts
  the turns left.\<close>

fun shift_up :: "nat \<Rightarrow> nat list \<Rightarrow> nat \<Rightarrow> nat \<Rightarrow> nat list option" where
  "shift_up 0 xs i d = Some xs"
| "shift_up (Suc n) xs i d = do {
     a \<leftarrow> mem_read xs (i - d);
     xs' \<leftarrow> mem_write xs i a;
     shift_up n xs' (i - 1) d
   }"

text \<open>\<open>for (i = start; i < n; i++) items[i] = items[i + d]\<close>.\<close>

fun shift_down :: "nat \<Rightarrow> nat list \<Rightarrow> nat \<Rightarrow> nat \<Rightarrow> nat list option" where
  "shift_down 0 xs i d = Some xs"
| "shift_down (Suc n) xs i d = do {
     a \<leftarrow> mem_read xs (i + d);
     xs' \<leftarrow> mem_write xs i a;
     shift_down n xs' (i + 1) d
   }"

definition list_insert ::
  "'v list_base \<Rightarrow> nat \<Rightarrow> 'v \<Rightarrow> ptr_sched \<Rightarrow> (int \<times> 'v list_base \<times> ptr_sched) option" where
  "list_insert l index value s =
     (if index > list_count l then Some (-1, l, s)
      else do {
        (r, l1, s1) \<leftarrow> list_ensure_capacity l ((list_count l + 1) mod UINT_RANGE) s;
        if r \<noteq> 0 then Some (-1, l1, s1)
        else (case alloc_cell (cells l1) s1 of
          (None, s2) \<Rightarrow> Some (-1, l1, s2)
        | (Some item, s2) \<Rightarrow> do {
            xs \<leftarrow> items l1;
            xs1 \<leftarrow> shift_up (list_count l1 - index) xs (list_count l1) 1;
            xs2 \<leftarrow> mem_write xs1 index item;
            Some (0, l1\<lparr>items := Some xs2, list_count := (list_count l1 + 1) mod UINT_RANGE,
                         cells := (cells l1)(item \<mapsto> value)\<rparr>, s2)
          })
      })"

definition list_remove :: "'v list_base \<Rightarrow> nat \<Rightarrow> (int \<times> 'v list_base) option" where
  "list_remove l index =
     (if index \<ge> list_count l then Some (-1, l)
      else do {
        a \<leftarrow> item_at l index;
        h \<leftarrow> free_cell (cells l) a;
        xs \<leftarrow> items l;
        xs1 \<leftarrow> shift_down (list_count l - 1 - index) xs index 1;
        Some (0, l\<lparr>items := Some xs1, list_count := list_count l - 1, cells := h\<rparr>)
      })"

definition list_clear :: "'v list_base \<Rightarrow> 'v list_base option" where
  "list_clear l = do {
     h \<leftarrow> (if list_count l = 0 then Some (cells l)
           else do { xs \<leftarrow> items l; free_items (cells l) xs 0 (list_count l) });
     Some (l\<lparr>list_count := 0, cells := h\<rparr>)
   }"

definition list_iter_new :: list_iter where
  "list_iter_new = \<lparr>iter_index = 0, iter_valid = True\<rparr>"

definition list_next :: "'v list_base \<Rightarrow> list_iter \<Rightarrow> (nat option \<times> list_iter) option" where
  "list_next l it =
     (if \<not> iter_valid it \<or> iter_index it \<ge> list_count l
      then Some (None, it\<lparr>iter_valid := False\<rparr>)
      else do {
        a \<leftarrow> item_at l (iter_index it);
        Some (Some a, it\<lparr>iter_index := iter_index it + 1\<rparr>)
      })"

text \<open>\<open>for (i = 0; i < n; i++) dst[d + i] = src[s + i]\<close> between two arrays.\<close>

fun copy_items :: "nat \<Rightarrow> nat list \<Rightarrow> nat \<Rightarrow> nat list \<Rightarrow> nat \<Rightarrow> nat list option" where
  "copy_items 0 dst d src s = Some dst"
| "copy_items (Suc n) dst d src s = do {
     a \<leftarrow> mem_read src s;
     dst' \<leftarrow> mem_write dst d a;
     copy_items n dst' (d + 1) src (s + 1)
   }"

definition list_rotate_left ::
  "'v list_base \<Rightarrow> nat \<Rightarrow> ptr_sched \<Rightarrow> (int \<times> 'v list_base \<times> ptr_sched) option" where
  "list_rotate_left l n s =
     (if list_count l = 0 \<or> n = 0 then Some (0, l, s)
      else let n = n mod list_count l in
        if n = 0 then Some (0, l, s)
        else (case alloc_ptrs n s of
          (None, s') \<Rightarrow> Some (-1, l, s')
        | (Some temp, s') \<Rightarrow> do {
            xs \<leftarrow> items l;
            temp' \<leftarrow> copy_items n temp 0 xs 0;
            xs1 \<leftarrow> shift_down (list_count l - n) xs 0 n;
            xs2 \<leftarrow> copy_items n xs1 (list_count l - n) temp' 0;
            Some (0, l\<lparr>items := Some xs2\<rparr>, s')
          }))"

definition list_rotate_right ::
  "'v list_base \<Rightarrow> nat \<Rightarrow> ptr_sched \<Rightarrow> (int \<times> 'v list_base \<times> ptr_sched) option" where
  "list_rotate_right l n s =
     (if list_count l = 0 \<or> n = 0 then Some (0, l, s)
      else let n = n mod list_count l in
        if n = 0 then Some (0, l, s)
        else (case alloc_ptrs n s of
          (None, s') \<Rightarrow> Some (-1, l, s')
        | (Some temp, s') \<Rightarrow> do {
            xs \<leftarrow> items l;
            temp' \<leftarrow> copy_items n temp 0 xs (list_count l - n);
            xs1 \<leftarrow> shift_up (list_count l - n) xs (list_count l - 1) n;
            xs2 \<leftarrow> copy_items n xs1 0 temp' 0;
            Some (0, l\<lparr>items := Some xs2\<rparr>, s')
          }))"

section \<open>Invariant and contents\<close>

definition item_ptrs :: "'v list_base \<Rightarrow> nat list" where
  "item_ptrs l = take (list_count l) (case items l of None \<Rightarrow> [] | Some xs \<Rightarrow> xs)"

definition list_ok :: "'v list_base \<Rightarrow> bool" where
  "list_ok l \<longleftrightarrow>
     list_capacity l = (case items l of None \<Rightarrow> 0 | Some xs \<Rightarrow> length xs)
     \<and> list_count l \<le> list_capacity l \<and> list_capacity l < UINT_RANGE
     \<and> distinct (item_ptrs l) \<and> 0 \<notin> set (item_ptrs l) \<and> set (item_ptrs l) \<subseteq> dom (cells l)"

definition list_view :: "'v list_base \<Rightarrow> 'v list" where
  "list_view l = map (\<lambda>a. the (cells l a)) (item_ptrs l)"

text \<open>
  The loop \<open>while ((p = list_next(l, &it))) body\<close> of the list's clients. The body gets the
  element and the accumulated state and says whether the loop goes on.
\<close>

function list_while ::
  "'v list_base \<Rightarrow> ('v \<Rightarrow> 'a \<Rightarrow> 'a \<times> bool) \<Rightarrow> list_iter \<Rightarrow> 'a \<Rightarrow> 'a option" where
  "list_while l body it acc =
     (case list_next l it of None \<Rightarrow> None
      | Some (None, it') \<Rightarrow> Some acc
      | Some (Some a, it') \<Rightarrow>
          (case cells l a of None \<Rightarrow> None
           | Some v \<Rightarrow>
              (case body v acc of (acc', go_on) \<Rightarrow>
                 if go_on then list_while l body it' acc' else Some acc')))"
  by pat_completeness auto
termination
proof (relation "measure (\<lambda>(l, body, it, acc). list_count l - iter_index it)", goal_cases)
  case 1
  then show ?case by simp
next
  case (2 l body it acc x y it' a v acc' go_on)
  then show ?case
    by (auto simp: list_next_def split: if_splits bind_splits option.splits)
qed

declare list_while.simps [simp del]

fun fold_until :: "('v \<Rightarrow> 'a \<Rightarrow> 'a \<times> bool) \<Rightarrow> 'v list \<Rightarrow> 'a \<Rightarrow> 'a" where
  "fold_until body [] acc = acc"
| "fold_until body (v # vs) acc =
     (case body v acc of (acc', go_on) \<Rightarrow> if go_on then fold_until body vs acc' else acc')"

section \<open>Growth\<close>

lemma list_grow_terminates:
  assumes "0 < c" and "c < UINT_RANGE" and "required \<le> 2 ^ 31"
  shows "\<exists>c'. list_grow c required = Some c' \<and> required \<le> c' \<and> c \<le> c' \<and> c' < UINT_RANGE"
  using assms
proof (induction "required - c" arbitrary: c rule: less_induct)
  case less
  show ?case
  proof (cases "c < required")
    case True
    with less.prems have eq: "c * 2 mod UINT_RANGE = c * 2" by simp
    have "required - c * 2 < required - c" and "c * 2 < UINT_RANGE"
      using True less.prems by simp_all
    then obtain c' where "list_grow (c * 2) required = Some c'" "required \<le> c'"
        "c * 2 \<le> c'" "c' < UINT_RANGE"
      using less.hyps [of "c * 2"] less.prems by auto
    with True show ?thesis
      by (subst list_grow.simps) (auto simp: eq simp del: mod_mult_self1_is_0)
  next
    case False
    with less.prems show ?thesis by (subst list_grow.simps) auto
  qed
qed

text \<open>A wrapped capacity is zero and stays zero, so the loop does not end.\<close>

lemma list_grow_from_zero: "0 < required \<Longrightarrow> list_grow 0 required = None"
proof (rule ccontr)
  assume pos: "0 < required" and "list_grow 0 required \<noteq> None"
  then obtain c' where "list_grow 0 required = Some c'" by auto
  then have "0 = (0::nat) \<longrightarrow> required = 0"
  proof (rule list_grow.raw_induct [rotated, where P = "\<lambda>c r c'. c = 0 \<longrightarrow> r = 0"])
    fix grow c r c'
    assume IH: "\<And>c r c'. grow c r = Some c' \<Longrightarrow> c = 0 \<longrightarrow> r = (0::nat)"
      and eq: "(if c < r then grow (c * 2 mod UINT_RANGE) r else Some c) = Some c'"
    show "c = 0 \<longrightarrow> r = 0"
      using IH [of "c * 2 mod UINT_RANGE" r c'] eq by (auto split: if_splits)
  qed
  with pos show False by simp
qed

lemma list_grow_diverges:
  assumes "2 ^ 31 < required" and "j \<le> 31"
  shows "list_grow (2 ^ j) required = None"
  using assms(2)
proof (induction "31 - j" arbitrary: j)
  case 0
  then have "j = 31" by simp
  moreover have "list_grow 0 required = None"
    using assms(1) by (intro list_grow_from_zero) simp
  ultimately show ?case
    using assms(1) by (subst list_grow.simps) simp
next
  case (Suc m)
  then have j: "j < 31" by simp
  then have "(2::nat) ^ j < 2 ^ 31" and "(2::nat) ^ Suc j < UINT_RANGE"
    by (intro power_strict_increasing; simp)+
  moreover have "list_grow (2 ^ Suc j) required = None"
    using Suc.hyps(1) [of "Suc j"] Suc.hyps(2) j by simp
  ultimately show ?case
    using assms(1) by (subst list_grow.simps) (simp add: mult.commute)
qed

section \<open>The array loops\<close>

lemma shift_down_eq:
  "i + d + n \<le> length xs \<Longrightarrow> 0 < d \<Longrightarrow>
   shift_down n xs i d = Some (take i xs @ take n (drop (i + d) xs) @ drop (i + n) xs)"
proof (induction n arbitrary: xs i)
  case (Suc n)
  let ?xs = "xs[i := xs ! (i + d)]"
  have "shift_down (Suc n) xs i d = shift_down n ?xs (i + 1) d"
    using Suc.prems by (simp add: mem_simps)
  also have "\<dots> = Some (take (i + 1) ?xs @ take n (drop (i + 1 + d) ?xs) @ drop (i + 1 + n) ?xs)"
    using Suc.prems by (intro Suc.IH) simp_all
  also have "take (i + 1) ?xs = take i xs @ [xs ! (i + d)]"
    using Suc.prems by (simp add: take_Suc_conv_app_nth)
  also have "drop (i + 1 + d) ?xs = drop (i + 1 + d) xs"
    using Suc.prems by simp
  also have "drop (i + 1 + n) ?xs = drop (i + 1 + n) xs"
    using Suc.prems by simp
  also have "(take i xs @ [xs ! (i + d)]) @ take n (drop (i + 1 + d) xs) @ drop (i + 1 + n) xs =
      take i xs @ take (Suc n) (drop (i + d) xs) @ drop (i + Suc n) xs"
    using Suc.prems by (simp add: Cons_nth_drop_Suc [symmetric])
  finally show ?case .
qed simp

lemma shift_up_eq:
  "i < length xs \<Longrightarrow> 0 < d \<Longrightarrow> d + n \<le> i + 1 \<Longrightarrow>
   shift_up n xs i d =
     Some (take (i + 1 - n) xs @ take n (drop (i + 1 - n - d) xs) @ drop (i + 1) xs)"
proof (induction n arbitrary: xs i)
  case (Suc n)
  let ?xs = "xs[i := xs ! (i - d)]"
  have i: "0 < i" "i - d < length xs" using Suc.prems by simp_all
  have "shift_up (Suc n) xs i d = shift_up n ?xs (i - 1) d"
    using Suc.prems i by (simp add: mem_simps)
  also have "\<dots> = Some (take (i - 1 + 1 - n) ?xs @ take n (drop (i - 1 + 1 - n - d) ?xs) @
      drop (i - 1 + 1) ?xs)"
    using Suc.prems i by (intro Suc.IH) simp_all
  also have "i - 1 + 1 = i" using i by simp
  also have "take (i - n) ?xs = take (i - n) xs" by simp
  also have "take n (drop (i - n - d) ?xs) = take n (drop (i - n - d) xs)"
    using Suc.prems by (intro nth_equalityI) auto
  also have "drop i ?xs = xs ! (i - d) # drop (i + 1) xs"
    using Suc.prems by (simp add: Cons_nth_drop_Suc [symmetric] drop_update_swap)
  also have "take n (drop (i - n - d) xs) @ xs ! (i - d) # drop (i + 1) xs =
      take (Suc n) (drop (i - n - d) xs) @ drop (i + 1) xs"
    using Suc.prems by (simp add: take_Suc_conv_app_nth)
  finally show ?case by simp
qed simp

lemma copy_items_eq:
  "d + n \<le> length dst \<Longrightarrow> s + n \<le> length src \<Longrightarrow>
   copy_items n dst d src s = Some (take d dst @ take n (drop s src) @ drop (d + n) dst)"
proof (induction n arbitrary: dst d s)
  case (Suc n)
  let ?dst = "dst[d := src ! s]"
  have "copy_items (Suc n) dst d src s = copy_items n ?dst (d + 1) src (s + 1)"
    using Suc.prems by (simp add: mem_simps)
  also have "\<dots> = Some (take (d + 1) ?dst @ take n (drop (s + 1) src) @ drop (d + 1 + n) ?dst)"
    using Suc.prems by (intro Suc.IH) simp_all
  also have "take (d + 1) ?dst = take d dst @ [src ! s]"
    using Suc.prems by (simp add: take_Suc_conv_app_nth)
  also have "drop (d + 1 + n) ?dst = drop (d + 1 + n) dst"
    by simp
  also have "(take d dst @ [src ! s]) @ take n (drop (s + 1) src) @ drop (d + 1 + n) dst =
      take d dst @ take (Suc n) (drop s src) @ drop (d + Suc n) dst"
    using Suc.prems by (simp add: Cons_nth_drop_Suc [symmetric])
  finally show ?case .
qed simp

text \<open>Freeing a run of distinct live cells removes exactly them.\<close>

lemma free_items_eq:
  "i + n \<le> length xs \<Longrightarrow> distinct (take n (drop i xs)) \<Longrightarrow> 0 \<notin> set (take n (drop i xs)) \<Longrightarrow>
   set (take n (drop i xs)) \<subseteq> dom h \<Longrightarrow>
   free_items h xs i n = Some (h |` (- set (take n (drop i xs))))"
proof (induction n arbitrary: h i)
  case (Suc n)
  have split: "take (Suc n) (drop i xs) = xs ! i # take n (drop (Suc i) xs)"
    using Suc.prems(1) by (simp add: Cons_nth_drop_Suc [symmetric])
  have live: "xs ! i \<noteq> 0" "xs ! i \<in> dom h" "xs ! i \<notin> set (take n (drop (Suc i) xs))"
    using Suc.prems(2-4) unfolding split by auto
  have "free_items h xs i (Suc n) = free_items (h(xs ! i := None)) xs (Suc i) n"
    using Suc.prems(1) live by (auto simp: mem_simps free_cell_def)
  also have "\<dots> = Some (h(xs ! i := None) |` (- set (take n (drop (Suc i) xs))))"
    using Suc.prems live unfolding split by (intro Suc.IH) auto
  also have "h(xs ! i := None) |` (- set (take n (drop (Suc i) xs))) =
      h |` (- set (take (Suc n) (drop i xs)))"
    unfolding split by (auto simp: restrict_map_def)
  finally show ?case .
qed (simp add: restrict_map_def)

section \<open>Operations on the contents\<close>

lemma item_ptrs_Some: "items l = Some xs \<Longrightarrow> item_ptrs l = take (list_count l) xs"
  by (simp add: item_ptrs_def)

lemma list_ok_items:
  assumes "list_ok l" and "0 < list_count l"
  obtains xs where "items l = Some xs" "length xs = list_capacity l"
    "item_ptrs l = take (list_count l) xs" "list_count l \<le> length xs"
  using assms by (cases "items l") (auto simp: list_ok_def item_ptrs_def)

lemma length_item_ptrs: "list_ok l \<Longrightarrow> length (item_ptrs l) = list_count l"
  by (cases "items l") (auto simp: list_ok_def item_ptrs_def)

lemma length_list_view: "list_ok l \<Longrightarrow> length (list_view l) = list_count l"
  by (simp add: list_view_def length_item_ptrs)

lemma item_at_eq: "list_ok l \<Longrightarrow> i < list_count l \<Longrightarrow> item_at l i = Some (item_ptrs l ! i)"
  by (rule list_ok_items [of l]) (auto simp: item_at_def mem_simps)

lemma list_ok_nth:
  "list_ok l \<Longrightarrow> i < list_count l \<Longrightarrow> item_ptrs l ! i \<noteq> 0 \<and> item_ptrs l ! i \<in> dom (cells l)"
proof -
  assume "list_ok l" "i < list_count l"
  then have "item_ptrs l ! i \<in> set (item_ptrs l)" by (simp add: length_item_ptrs)
  with \<open>list_ok l\<close> show ?thesis unfolding list_ok_def by (metis subsetD)
qed

lemma list_view_nth:
  "list_ok l \<Longrightarrow> i < list_count l \<Longrightarrow> cells l (item_ptrs l ! i) = Some (list_view l ! i)"
  using list_ok_nth [of l i] by (auto simp: list_view_def length_item_ptrs)

lemma realloc_ptrs_Some:
  assumes "realloc_ptrs old n s = (Some new, s')"
  shows "length new = max n (min n (length (case old of None \<Rightarrow> [] | Some xs \<Rightarrow> xs)))"
    and "m \<le> n \<Longrightarrow> m \<le> length (case old of None \<Rightarrow> [] | Some xs \<Rightarrow> xs) \<Longrightarrow>
      take m new = take m (case old of None \<Rightarrow> [] | Some xs \<Rightarrow> xs)"
  using assms by (auto simp: realloc_ptrs_def Let_def min_def split: prod.splits)

text \<open>Growing the array changes neither the element pointers nor the cells.\<close>

lemma ensure_capacity_correct:
  assumes ok: "list_ok l" and required: "required \<le> 2 ^ 31"
  obtains r l' s' where "list_ensure_capacity l required s = Some (r, l', s')" "list_ok l'"
    "list_count l' = list_count l" "item_ptrs l' = item_ptrs l" "cells l' = cells l"
    "r = 0 \<and> required \<le> list_capacity l' \<or> r = -1 \<and> l' = l"
    "r = -1 \<longrightarrow> (\<exists>s1. s = None # s1 \<or> s = [])"
proof (cases "list_capacity l \<ge> required")
  case True
  then show thesis
    using that [of 0 l s] ok by (simp add: list_ensure_capacity_def)
next
  case False
  let ?c = "if list_capacity l = 0 then LIST_INITIAL_CAPACITY else list_capacity l"
  let ?old = "case items l of None \<Rightarrow> [] | Some xs \<Rightarrow> xs"
  have cap: "length ?old = list_capacity l" "list_capacity l < UINT_RANGE"
    "list_count l \<le> list_capacity l"
    using ok by (auto simp: list_ok_def split: option.splits)
  have start: "0 < ?c" "?c < UINT_RANGE" using cap(2) by simp_all
  obtain c where c: "list_grow ?c required = Some c" "required \<le> c" "c < UINT_RANGE" "?c \<le> c"
    using list_grow_terminates [OF start required] by blast
  then have le: "list_capacity l \<le> c" by (simp split: if_splits)
  obtain new s' where re: "realloc_ptrs (items l) c s = (new, s')" by (rule prod.exhaust)
  show thesis
  proof (cases new)
    case None
    then have "\<exists>s1. s = None # s1 \<or> s = []"
      using re by (cases s) (auto simp: realloc_ptrs_def Let_def split: option.splits)
    then show thesis
      using that [of "-1" l s'] None c(1) re False ok by (simp add: list_ensure_capacity_def)
  next
    case (Some xs)
    let ?l = "l\<lparr>items := Some xs, list_capacity := c\<rparr>"
    have len: "length xs = c"
      using realloc_ptrs_Some(1) [OF re [unfolded Some]] by simp
    have ptrs: "item_ptrs ?l = item_ptrs l"
      using realloc_ptrs_Some(2) [OF re [unfolded Some], of "list_count l"] le cap
      by (simp add: item_ptrs_def)
    then have "list_ok ?l"
      using ok len c(3) le cap by (simp add: list_ok_def)
    then show thesis
      using that [of 0 ?l s'] Some c(1,2) re False ptrs by (simp add: list_ensure_capacity_def)
  qed
qed

text \<open>
  An allocator that answers the calls of a push or an insertion: the array may grow and
  the next cell is fresh, whichever of the next two answers it is.
\<close>

definition grants_cell :: "(nat \<rightharpoonup> 'v) \<Rightarrow> ptr_sched \<Rightarrow> bool" where
  "grants_cell h s \<longleftrightarrow> (\<exists>g1 g2 s'. s = Some g1 # Some g2 # s'
     \<and> g1 0 \<noteq> 0 \<and> h (g1 0) = None \<and> g2 0 \<noteq> 0 \<and> h (g2 0) = None)"

lemma alloc_cell_Some:
  "alloc_cell h s = (Some a, s') \<Longrightarrow> a \<noteq> 0 \<and> h a = None"
  by (auto simp: alloc_cell_def split: prod.splits option.splits if_splits)

text \<open>Inserting a fresh pointer among the pointers inserts the value in the contents.\<close>

lemma list_ok_insert:
  assumes ok: "list_ok l" and fresh: "a \<noteq> 0" "cells l a = None" and i: "i \<le> list_count l"
    and l': "items l' = Some xs" "length xs = list_capacity l'" "list_capacity l' < UINT_RANGE"
      "list_count l' = Suc (list_count l)" "Suc (list_count l) \<le> list_capacity l'"
      "cells l' = (cells l)(a \<mapsto> v)"
      "item_ptrs l' = take i (item_ptrs l) @ a # drop i (item_ptrs l)"
  shows "list_ok l'" and "list_view l' = take i (list_view l) @ v # drop i (list_view l)"
proof -
  have notin: "a \<notin> set (item_ptrs l)"
    using ok fresh by (auto simp: list_ok_def)
  have set: "set (item_ptrs l') = insert a (set (item_ptrs l))"
    unfolding l'(7) using append_take_drop_id [of i "item_ptrs l"]
    by (metis Un_insert_right list.simps(15) set_append)
  have d: "distinct (item_ptrs l)" using ok by (simp add: list_ok_def)
  then have "distinct (item_ptrs l')"
    unfolding l'(7) using notin set_take_disj_set_drop_if_distinct [OF d, of i i]
    by (auto dest: in_set_takeD in_set_dropD)
  with set show "list_ok l'"
    using ok l' fresh by (auto simp: list_ok_def)
  have "map (\<lambda>b. the (((cells l)(a \<mapsto> v)) b)) bs = map (\<lambda>b. the (cells l b)) bs"
    if "set bs \<subseteq> set (item_ptrs l)" for bs
    using that notin by auto
  from this [of "take i (item_ptrs l)"] this [of "drop i (item_ptrs l)"]
  show "list_view l' = take i (list_view l) @ v # drop i (list_view l)"
    by (simp add: list_view_def l'(6,7) take_map drop_map set_take_subset set_drop_subset)
qed

lemma list_insert_correct:
  assumes ok: "list_ok l" and room: "list_count l < 2 ^ 31" and i: "i \<le> list_count l"
  obtains r l' s' where "list_insert l i v s = Some (r, l', s')" "list_ok l'"
    "r = 0 \<and> list_view l' = take i (list_view l) @ v # drop i (list_view l)
     \<or> r = -1 \<and> list_view l' = list_view l"
    "grants_cell (cells l) s \<longrightarrow> r = 0"
proof -
  have req: "(list_count l + 1) mod UINT_RANGE \<le> 2 ^ 31"
    and eq: "(list_count l + 1) mod UINT_RANGE = Suc (list_count l)"
    using room by simp_all
  obtain r l1 s1 where ens:
      "list_ensure_capacity l ((list_count l + 1) mod UINT_RANGE) s = Some (r, l1, s1)" "list_ok l1"
      "list_count l1 = list_count l" "item_ptrs l1 = item_ptrs l" "cells l1 = cells l"
      "r = 0 \<and> (list_count l + 1) mod UINT_RANGE \<le> list_capacity l1 \<or> r = -1 \<and> l1 = l"
      "r = -1 \<longrightarrow> (\<exists>s1. s = None # s1 \<or> s = [])"
    by (rule ensure_capacity_correct [OF ok req, of s])
  have view1: "list_view l1 = list_view l" by (simp add: list_view_def ens)
  obtain a s2 where alloc: "alloc_cell (cells l1) s1 = (a, s2)" by (rule prod.exhaust)
  have granted: "r = 0 \<and> a \<noteq> None" if grant: "grants_cell (cells l) s"
  proof -
    obtain g1 g2 s' where s: "s = Some g1 # Some g2 # s'" "g1 0 \<noteq> 0" "cells l (g1 0) = None"
        "g2 0 \<noteq> 0" "cells l (g2 0) = None"
      using grant by (auto simp: grants_cell_def)
    then have "r = 0" using ens(6,7) by auto
    moreover have "s1 = s \<or> s1 = Some g2 # s'"
      using ens(1) s(1) by (auto simp: list_ensure_capacity_def realloc_ptrs_def Let_def
          split: if_splits bind_splits)
    ultimately show ?thesis
      using alloc s by (auto simp: alloc_cell_def ens(5) split: if_splits)
  qed
  show thesis
  proof (cases "r = 0 \<and> a \<noteq> None")
    case False
    then have "list_insert l i v s = Some (-1, l1, if r = 0 then s2 else s1)"
      using ens(1) alloc i by (auto simp: list_insert_def split: option.splits)
    then show thesis
      using that ens(2) view1 granted False by blast
  next
    case True
    then obtain b where b: "a = Some b" by auto
    note fresh = alloc_cell_Some [OF alloc [unfolded b]]
    have cap: "Suc (list_count l) \<le> list_capacity l1" using ens(6) True eq by simp
    obtain xs where xs: "items l1 = Some xs" "length xs = list_capacity l1"
      using ens(2) cap by (cases "items l1") (auto simp: list_ok_def)
    have up: "shift_up (list_count l1 - i) xs (list_count l1) 1 =
        Some (take (Suc i) xs @ take (list_count l - i) (drop i xs) @ drop (Suc (list_count l)) xs)"
      using shift_up_eq [of "list_count l1" xs 1 "list_count l1 - i"] i ens(3) xs cap by simp
    define xs2 where "xs2 = take i xs @ b # take (list_count l - i) (drop i xs)
      @ drop (Suc (list_count l)) xs"
    have wr: "mem_write (take (Suc i) xs @ take (list_count l - i) (drop i xs)
        @ drop (Suc (list_count l)) xs) i b = Some xs2"
      using xs cap i by (simp add: mem_write_def xs2_def take_Suc_conv_app_nth list_update_append)
    define l' where "l' = l1\<lparr>items := Some xs2, list_count := Suc (list_count l),
      cells := (cells l)(b \<mapsto> v)\<rparr>"
    have run: "list_insert l i v s = Some (0, l', s2)"
      using ens(1,3,5) True alloc b i xs(1) up wr eq
      by (simp add: list_insert_def l'_def)
    have len: "length xs2 = list_capacity l1"
      using xs cap i by (simp add: xs2_def)
    have ptrs: "item_ptrs l' = take i (item_ptrs l) @ b # drop i (item_ptrs l)"
    proof -
      have p: "item_ptrs l = take (list_count l) xs"
        using item_ptrs_Some [OF xs(1)] ens(3,4) by simp
      have "length (take (list_count l - i) (drop i xs)) = list_count l - i"
        using xs(2) cap i by simp
      then show ?thesis
        unfolding p using xs(2) cap i
        by (simp add: l'_def item_ptrs_def xs2_def Suc_diff_le drop_take)
    qed
    have "list_capacity l1 < UINT_RANGE" using ens(2) by (simp add: list_ok_def)
    then have "list_ok l'" and "list_view l' = take i (list_view l) @ v # drop i (list_view l)"
      using list_ok_insert [OF ok _ _ i, where l' = l' and a = b and xs = xs2 and v = v]
        fresh ens(5) cap len ptrs by (simp_all add: l'_def)
    then show thesis
      using that [OF run] by simp
  qed
qed

text \<open>A push is an insertion at the end.\<close>

lemma list_push_insert:
  assumes "list_ok l" and "list_count l < 2 ^ 31"
  shows "list_push l v s = list_insert l (list_count l) v s"
proof -
  have req: "(list_count l + 1) mod UINT_RANGE \<le> 2 ^ 31" using assms(2) by simp
  obtain r l1 s1 where ens:
      "list_ensure_capacity l ((list_count l + 1) mod UINT_RANGE) s = Some (r, l1, s1)" "list_ok l1"
      "list_count l1 = list_count l"
    by (rule ensure_capacity_correct [OF assms(1) req, of s])
  then show ?thesis
    by (simp add: list_push_def list_insert_def split: option.splits prod.splits)
qed

lemma list_pop_correct:
  assumes ok: "list_ok l" and ne: "0 < list_count l"
  shows "list_pop l = Some (Some (item_ptrs l ! (list_count l - 1)), l\<lparr>list_count := list_count l - 1\<rparr>)"
    and "list_ok (l\<lparr>list_count := list_count l - 1\<rparr>)"
    and "list_view (l\<lparr>list_count := list_count l - 1\<rparr>) = butlast (list_view l)"
    and "cells l (item_ptrs l ! (list_count l - 1)) = Some (last (list_view l))"
proof -
  let ?l = "l\<lparr>list_count := list_count l - 1\<rparr>"
  obtain xs where xs: "items l = Some xs" "length xs = list_capacity l"
      "item_ptrs l = take (list_count l) xs" "list_count l \<le> length xs"
    using ok ne by (rule list_ok_items)
  show "list_pop l = Some (Some (item_ptrs l ! (list_count l - 1)), ?l)"
    using xs ne by (simp add: list_pop_def item_at_def mem_simps)
  have "item_ptrs ?l = take (list_count l - 1) xs"
    using xs by (simp add: item_ptrs_def)
  also have "\<dots> = butlast (item_ptrs l)"
    using xs ne by (simp add: butlast_take)
  finally have ptrs: "item_ptrs ?l = butlast (item_ptrs l)" .
  show "list_view ?l = butlast (list_view l)"
    unfolding list_view_def ptrs by (simp add: map_butlast)
  have "set (butlast (item_ptrs l)) \<subseteq> set (item_ptrs l)"
    by (auto dest: in_set_butlastD)
  moreover have "distinct (butlast (item_ptrs l))"
    using ok by (simp add: list_ok_def distinct_butlast)
  ultimately show "list_ok ?l"
    using ok ptrs by (auto simp: list_ok_def)
  have "list_view l \<noteq> []" using length_list_view [OF ok] ne by auto
  then show "cells l (item_ptrs l ! (list_count l - 1)) = Some (last (list_view l))"
    using list_view_nth [OF ok, of "list_count l - 1"] ne length_list_view [OF ok]
    by (simp add: last_conv_nth)
qed

lemma list_get_correct:
  assumes "list_ok l"
  shows "list_get l i = Some (if i < list_count l then Some (item_ptrs l ! i) else None)"
  using assms item_at_eq [of l i] by (simp add: list_get_def)

lemma list_set_correct:
  fixes v :: 'v
  assumes ok: "list_ok l" and i: "i < list_count l"
  defines "l' \<equiv> l\<lparr>cells := (cells l)(item_ptrs l ! i \<mapsto> v)\<rparr>"
  shows "list_set l i v = Some (0, l')" and "list_ok l'" and "list_view l' = (list_view l)[i := v]"
proof -
  show "list_set l i v = Some (0, l')"
    using i item_at_eq [OF ok i] list_view_nth [OF ok i] by (simp add: list_set_def l'_def)
  have ptrs: "item_ptrs l' = item_ptrs l" by (simp add: l'_def item_ptrs_def)
  then show "list_ok l'"
    using ok by (auto simp: list_ok_def l'_def)
  have d: "distinct (item_ptrs l)" and len: "length (item_ptrs l) = list_count l"
    using ok by (simp_all add: list_ok_def length_item_ptrs)
  then have "item_ptrs l ! j \<noteq> item_ptrs l ! i" if "j < list_count l" "j \<noteq> i" for j
    using that i by (simp add: nth_eq_iff_index_eq)
  then show "list_view l' = (list_view l)[i := v]"
    using i len by (intro nth_equalityI) (auto simp: list_view_def ptrs nth_list_update, auto simp: l'_def)
qed

lemma list_remove_correct:
  assumes ok: "list_ok l" and i: "i < list_count l"
  obtains l' where "list_remove l i = Some (0, l')" "list_ok l'"
    "list_view l' = take i (list_view l) @ drop (Suc i) (list_view l)"
    "cells l' = (cells l)(item_ptrs l ! i := None)"
proof -
  let ?a = "item_ptrs l ! i"
  obtain xs where xs: "items l = Some xs" "length xs = list_capacity l"
      "item_ptrs l = take (list_count l) xs" "list_count l \<le> length xs"
    using ok i by (rule list_ok_items [OF _ order.strict_trans1 [OF le0]])
  define ys where "ys = take i xs @ take (list_count l - 1 - i) (drop (i + 1) xs)
    @ drop (i + (list_count l - 1 - i)) xs"
  define l' where "l' = l\<lparr>items := Some ys, list_count := list_count l - 1,
    cells := (cells l)(?a := None)\<rparr>"
  have down: "shift_down (list_count l - 1 - i) xs i 1 = Some ys"
    unfolding ys_def using xs(4) i by (intro shift_down_eq) simp_all
  have live: "?a \<noteq> 0" "cells l ?a \<noteq> None"
    using list_ok_nth [OF ok i] by auto
  have run: "list_remove l i = Some (0, l')"
    using i item_at_eq [OF ok i] live xs(1) down
    by (simp add: list_remove_def free_cell_def l'_def)
  have ptrs: "item_ptrs l' = take i (item_ptrs l) @ drop (Suc i) (item_ptrs l)"
    using xs i by (cases "i = list_count l - 1")
      (auto simp: l'_def item_ptrs_def ys_def drop_take min_def)
  have d: "distinct (item_ptrs l)" using ok by (simp add: list_ok_def)
  have split: "item_ptrs l = take i (item_ptrs l) @ ?a # drop (Suc i) (item_ptrs l)"
    using i length_item_ptrs [OF ok] by (simp add: id_take_nth_drop)
  have dist: "distinct (take i (item_ptrs l) @ ?a # drop (Suc i) (item_ptrs l))"
    using d split by simp
  then have notin: "?a \<notin> set (item_ptrs l')" and d': "distinct (item_ptrs l')"
    unfolding ptrs by auto
  have sub: "set (item_ptrs l') \<subseteq> set (item_ptrs l)"
    unfolding ptrs by (auto dest: in_set_takeD in_set_dropD)
  have "length ys = list_capacity l"
    using xs i by (simp add: ys_def)
  then have "list_ok l'"
    using ok notin d' sub i by (auto simp: list_ok_def l'_def)
  moreover have "list_view l' = map (\<lambda>b. the (cells l b)) (item_ptrs l')"
    unfolding list_view_def using notin by (intro map_cong) (auto simp: l'_def)
  then have "list_view l' = take i (list_view l) @ drop (Suc i) (list_view l)"
    by (simp add: ptrs list_view_def take_map drop_map)
  ultimately show thesis
    using that [OF run] by (simp add: l'_def)
qed

lemma free_list_items:
  assumes "list_ok l" and "items l = Some xs"
  shows "free_items (cells l) xs 0 (list_count l) = Some (cells l |` (- set (item_ptrs l)))"
proof -
  have ptrs: "item_ptrs l = take (list_count l) xs" using assms(2) by (rule item_ptrs_Some)
  show ?thesis
    unfolding ptrs using assms
    by (subst free_items_eq) (auto simp: list_ok_def ptrs [symmetric])
qed

text \<open>Clearing and deinitialising free each element's cell once and nothing else.\<close>

lemma list_clear_correct:
  assumes ok: "list_ok l"
  shows "\<exists>l'. list_clear l = Some l' \<and> list_ok l' \<and> list_view l' = []
    \<and> list_capacity l' = list_capacity l \<and> cells l' = cells l |` (- set (item_ptrs l))"
proof (cases "items l")
  case None
  then have "item_ptrs l = []" "list_count l = 0" using ok by (auto simp: list_ok_def item_ptrs_def)
  then show ?thesis
    using ok None by (auto simp: list_clear_def list_ok_def item_ptrs_def list_view_def
        restrict_map_def)
next
  case (Some xs)
  have "list_clear l = Some (l\<lparr>list_count := 0, cells := cells l |` (- set (item_ptrs l))\<rparr>)"
    using free_list_items [OF ok Some] Some
    by (cases "list_count l") (auto simp: list_clear_def)
  then show ?thesis
    using ok Some by (auto simp: list_ok_def item_ptrs_def list_view_def)
qed

lemma list_deinit_correct:
  assumes ok: "list_ok l"
  shows "\<exists>l'. list_deinit l = Some l' \<and> list_ok l' \<and> list_view l' = []
    \<and> cells l' = cells l |` (- set (item_ptrs l))"
proof (cases "items l")
  case None
  then have "item_ptrs l = []" using ok by (auto simp: list_ok_def item_ptrs_def)
  then show ?thesis
    using None by (auto simp: list_deinit_def list_ok_def item_ptrs_def list_view_def
        restrict_map_def)
next
  case (Some xs)
  then show ?thesis
    using free_list_items [OF ok Some]
    by (auto simp: list_deinit_def list_ok_def item_ptrs_def list_view_def)
qed

text \<open>An array with the same pointers in another order holds the contents in that order.\<close>

lemma list_ok_permute:
  assumes "list_ok l" and "length ys = list_capacity l" and "items l \<noteq> None"
    and "take (list_count l) ys = rotate k (item_ptrs l)"
  shows "list_ok (l\<lparr>items := Some ys\<rparr>)"
    and "list_view (l\<lparr>items := Some ys\<rparr>) = rotate k (list_view l)"
  using assms by (auto simp: list_ok_def item_ptrs_def list_view_def rotate_map)

lemma list_rotate_left_correct:
  assumes ok: "list_ok l"
  obtains r l' s' where "list_rotate_left l n s = Some (r, l', s')" "list_ok l'"
    "cells l' = cells l"
    "r = 0 \<and> list_view l' = rotate n (list_view l)
     \<or> r = -1 \<and> l' = l \<and> (\<exists>s1. s = None # s1 \<or> s = [])"
proof (cases "list_count l = 0 \<or> n mod list_count l = 0")
  case True
  have "rotate n (list_view l) = list_view l"
    using True length_list_view [OF ok] rotate_conv_mod [of n "list_view l"] by auto
  then show thesis
    using that [of 0 l s] True ok by (auto simp: list_rotate_left_def Let_def)
next
  case False
  define m where "m = n mod list_count l"
  have m: "0 < m" "m < list_count l" using False by (simp_all add: m_def)
  then have n: "n \<noteq> 0" by (cases n) (simp_all add: m_def)
  obtain xs where xs: "items l = Some xs" "length xs = list_capacity l"
      "item_ptrs l = take (list_count l) xs" "list_count l \<le> length xs"
    using ok m(2) by (rule list_ok_items [OF _ order.strict_trans1 [OF le0]])
  obtain temp s' where alloc: "alloc_ptrs m s = (temp, s')" by (rule prod.exhaust)
  show thesis
  proof (cases temp)
    case None
    then have "\<exists>s1. s = None # s1 \<or> s = []"
      using alloc by (cases s) (auto simp: alloc_ptrs_def)
    then show thesis
      using that [of "-1" l s'] None alloc m n ok by (simp add: list_rotate_left_def Let_def m_def)
  next
    case (Some tmp)
    have tlen: "length tmp = m" using alloc Some by (auto simp: alloc_ptrs_def split: prod.splits)
    define xs1 where "xs1 = take 0 xs @ take (list_count l - m) (drop (0 + m) xs)
      @ drop (0 + (list_count l - m)) xs"
    define xs2 where "xs2 = take (list_count l - m) xs1 @ take m (take m xs)
      @ drop (list_count l - m + m) xs1"
    have c1: "copy_items m tmp 0 xs 0 = Some (take m xs)"
      using copy_items_eq [of 0 m tmp 0 xs] tlen m xs(4) by simp
    have c2: "shift_down (list_count l - m) xs 0 m = Some xs1"
      unfolding xs1_def using m xs(4) by (intro shift_down_eq) simp_all
    have len1: "length xs1 = length xs" using m xs(4) by (simp add: xs1_def)
    have c3: "copy_items m xs1 (list_count l - m) (take m xs) 0 = Some xs2"
      using copy_items_eq [of "list_count l - m" m xs1 0 "take m xs"] m xs(4) len1
      by (simp add: xs2_def)
    have run: "list_rotate_left l n s = Some (0, l\<lparr>items := Some xs2\<rparr>, s')"
      using m n alloc Some xs(1) c1 c2 c3 by (simp add: list_rotate_left_def m_def [symmetric] Let_def)
    have "take (list_count l) xs2 = drop m (item_ptrs l) @ take m (item_ptrs l)"
    proof -
      have "length (take (list_count l - m) (drop m xs)) = list_count l - m"
        using m xs(4) by simp
      then show ?thesis
        using m xs by (simp add: xs2_def xs1_def drop_take)
    qed
    also have "\<dots> = rotate n (item_ptrs l)"
      using m length_item_ptrs [OF ok] by (simp add: rotate_drop_take m_def)
    finally have t: "take (list_count l) xs2 = rotate n (item_ptrs l)" .
    have "length xs2 = list_capacity l" using len1 m xs by (simp add: xs2_def)
    note perm = list_ok_permute [OF ok this _ t]
    show thesis
      using that [OF run] perm xs(1) by simp
  qed
qed

lemma rotate_back:
  assumes "length xs = c" and "0 < c"
  shows "rotate n (rotate (c - n mod c) xs) = xs"
proof -
  have "n mod c < c" using assms(2) by simp
  then have "n + (c - n mod c) = c * (n div c) + c"
    using mult_div_mod_eq [of c n] by linarith
  then have "(n + (c - n mod c)) mod c = 0"
    by (metis mod_mult_self1_is_0 mult_Suc_right mult.commute add.commute)
  then show ?thesis
    using assms(1) by (simp add: rotate_rotate)
qed

lemma list_rotate_right_correct:
  assumes ok: "list_ok l"
  obtains r l' s' where "list_rotate_right l n s = Some (r, l', s')" "list_ok l'"
    "cells l' = cells l"
    "r = 0 \<and> rotate n (list_view l') = list_view l
     \<or> r = -1 \<and> l' = l \<and> (\<exists>s1. s = None # s1 \<or> s = [])"
proof (cases "list_count l = 0 \<or> n mod list_count l = 0")
  case True
  have "rotate n (list_view l) = list_view l"
    using True length_list_view [OF ok] rotate_conv_mod [of n "list_view l"] by auto
  then show thesis
    using that [of 0 l s] True ok by (auto simp: list_rotate_right_def Let_def)
next
  case False
  define m where "m = n mod list_count l"
  have m: "0 < m" "m < list_count l" using False by (simp_all add: m_def)
  then have n: "n \<noteq> 0" by (cases n) (simp_all add: m_def)
  obtain xs where xs: "items l = Some xs" "length xs = list_capacity l"
      "item_ptrs l = take (list_count l) xs" "list_count l \<le> length xs"
    using ok m(2) by (rule list_ok_items [OF _ order.strict_trans1 [OF le0]])
  obtain temp s' where alloc: "alloc_ptrs m s = (temp, s')" by (rule prod.exhaust)
  show thesis
  proof (cases temp)
    case None
    then have "\<exists>s1. s = None # s1 \<or> s = []"
      using alloc by (cases s) (auto simp: alloc_ptrs_def)
    then show thesis
      using that [of "-1" l s'] None alloc m n ok by (simp add: list_rotate_right_def Let_def m_def)
  next
    case (Some tmp)
    let ?c = "list_count l"
    have tlen: "length tmp = m" using alloc Some by (auto simp: alloc_ptrs_def split: prod.splits)
    define saved where "saved = take m (drop (?c - m) xs)"
    define xs1 where "xs1 = take m xs @ take (?c - m) xs @ drop ?c xs"
    define xs2 where "xs2 = saved @ drop m xs1"
    have c1: "copy_items m tmp 0 xs (?c - m) = Some saved"
      using copy_items_eq [of 0 m tmp "?c - m" xs] tlen m xs(4) by (simp add: saved_def)
    have slen: "length saved = m" using m xs(4) by (simp add: saved_def)
    have c2: "shift_up (?c - m) xs (?c - 1) m = Some xs1"
      using shift_up_eq [of "?c - 1" xs m "?c - m"] m xs(4) by (simp add: xs1_def)
    have len1: "length xs1 = length xs" using m xs(4) by (simp add: xs1_def)
    have c3: "copy_items m xs1 0 saved 0 = Some xs2"
      using copy_items_eq [of 0 m xs1 0 saved] m xs(4) len1 slen by (simp add: xs2_def)
    have run: "list_rotate_right l n s = Some (0, l\<lparr>items := Some xs2\<rparr>, s')"
      using m n alloc Some xs(1) c1 c2 c3 by (simp add: list_rotate_right_def m_def [symmetric] Let_def)
    have "take ?c xs2 = drop (?c - m) (item_ptrs l) @ take (?c - m) (item_ptrs l)"
      using m xs slen by (simp add: xs2_def xs1_def saved_def drop_take)
    also have "\<dots> = rotate (?c - m) (item_ptrs l)"
      using m length_item_ptrs [OF ok] by (simp add: rotate_drop_take)
    finally have t: "take ?c xs2 = rotate (?c - m) (item_ptrs l)" .
    have "length xs2 = list_capacity l" using len1 m xs slen by (simp add: xs2_def)
    note perm = list_ok_permute [OF ok this _ t]
    have "rotate n (rotate (?c - m) (list_view l)) = list_view l"
      unfolding m_def using m length_list_view [OF ok] by (intro rotate_back) auto
    then show thesis
      using that [OF run] perm xs(1) by simp
  qed
qed

section \<open>Iteration\<close>

lemma list_while_fold:
  assumes ok: "list_ok l"
  shows "iter_valid it \<Longrightarrow>
    list_while l body it acc = Some (fold_until body (drop (iter_index it) (list_view l)) acc)"
proof (induction "list_count l - iter_index it" arbitrary: it acc rule: less_induct)
  case less
  let ?i = "iter_index it"
  show ?case
  proof (cases "?i < list_count l")
    case False
    then have "list_next l it = Some (None, it\<lparr>iter_valid := False\<rparr>)"
      by (simp add: list_next_def)
    then show ?thesis
      using False length_list_view [OF ok] by (subst list_while.simps) simp
  next
    case True
    let ?it = "it\<lparr>iter_index := ?i + 1\<rparr>"
    have next_eq: "list_next l it = Some (Some (item_ptrs l ! ?i), ?it)"
      using True less.prems item_at_eq [OF ok True] by (simp add: list_next_def)
    have step: "drop ?i (list_view l) = list_view l ! ?i # drop (?i + 1) (list_view l)"
      using True length_list_view [OF ok] by (simp add: Cons_nth_drop_Suc)
    obtain acc' go_on where body: "body (list_view l ! ?i) acc = (acc', go_on)"
      by (rule prod.exhaust)
    have ih: "list_while l body ?it acc' =
        Some (fold_until body (drop (?i + 1) (list_view l)) acc')"
      using less.hyps [of ?it] True less.prems by simp
    show ?thesis
      using next_eq body ih list_view_nth [OF ok True]
      by (subst list_while.simps) (simp add: step)
  qed
qed

lemma list_while_new:
  "list_ok l \<Longrightarrow> list_while l body list_iter_new acc = Some (fold_until body (list_view l) acc)"
  using list_while_fold [of l list_iter_new body acc] by (simp add: list_iter_new_def)

section \<open>The interface\<close>

text \<open>
  What a client of the list relies on: a push appends or, when the allocator fails,
  leaves the contents as they are.
\<close>

locale sequence =
  fixes ok :: "'l \<Rightarrow> bool" and view :: "'l \<Rightarrow> 'v list" and new :: 'l
    and push :: "'l \<Rightarrow> 'v \<Rightarrow> 'g sched \<Rightarrow> (int \<times> 'l \<times> 'g sched) option"
    and room :: nat
  assumes new_ok: "ok new" and new_view: "view new = []"
    and push_law: "ok l \<Longrightarrow> length (view l) < room \<Longrightarrow>
      \<exists>r l' s'. push l v s = Some (r, l', s') \<and> ok l' \<and>
        (r = 0 \<and> view l' = view l @ [v] \<or> r = -1 \<and> view l' = view l)"
begin

text \<open>Pushing only what is not there keeps the contents free of duplicates.\<close>

lemma push_new_distinct:
  assumes "ok l" and "length (view l) < room" and "distinct (view l)" and "v \<notin> set (view l)"
    and "push l v s = Some (r, l', s')"
  shows "ok l'" and "distinct (view l')" and "set (view l') \<subseteq> insert v (set (view l))"
    and "r = 0 \<Longrightarrow> set (view l') = insert v (set (view l))"
  using push_law [OF assms(1,2), of v s] assms(3-5) by auto

end

lemma list_init_ok: "list_ok (list_init sz)" "list_view (list_init sz) = []"
  by (simp_all add: list_init_def list_ok_def item_ptrs_def list_view_def)

lemma list_push_correct:
  assumes ok: "list_ok l" and room: "list_count l < 2 ^ 31"
  obtains r l' s' where "list_push l v s = Some (r, l', s')" "list_ok l'"
    "r = 0 \<and> list_view l' = list_view l @ [v] \<or> r = -1 \<and> list_view l' = list_view l"
    "grants_cell (cells l) s \<longrightarrow> r = 0"
proof -
  obtain r l' s' where ins: "list_insert l (list_count l) v s = Some (r, l', s')" "list_ok l'"
    "r = 0 \<and> list_view l' = take (list_count l) (list_view l) @ v # drop (list_count l) (list_view l)
     \<or> r = -1 \<and> list_view l' = list_view l"
    "grants_cell (cells l) s \<longrightarrow> r = 0"
    by (rule list_insert_correct [OF ok room order.refl, of v s])
  show thesis
  proof (rule that [OF _ ins(2) _ ins(4)])
    show "list_push l v s = Some (r, l', s')"
      using list_push_insert [OF ok room] ins(1) by simp
    show "r = 0 \<and> list_view l' = list_view l @ [v] \<or> r = -1 \<and> list_view l' = list_view l"
      using ins(3) length_list_view [OF ok] by simp
  qed
qed

interpretation dl: sequence list_ok list_view "list_init 8" list_push "2 ^ 31"
proof
  fix l :: "'v list_base" and v :: 'v and s
  assume ok: "list_ok l" and room: "length (list_view l) < 2 ^ 31"
  then have "list_count l < 2 ^ 31" by (simp add: length_list_view)
  with ok obtain r l' s' where "list_push l v s = Some (r, l', s')" "list_ok l'"
    "r = 0 \<and> list_view l' = list_view l @ [v] \<or> r = -1 \<and> list_view l' = list_view l"
    by (rule list_push_correct)
  then show "\<exists>r l' s'. list_push l v s = Some (r, l', s') \<and> list_ok l' \<and>
      (r = 0 \<and> list_view l' = list_view l @ [v] \<or> r = -1 \<and> list_view l' = list_view l)"
    by blast
qed (simp_all add: list_init_ok)

lemma list_push_diverges:
  assumes "list_capacity l = 2 ^ 31" and "list_count l = 2 ^ 31"
  shows "list_push l v s = None"
proof -
  have "list_grow (2 ^ 31) (2 ^ 31 + 1) = None"
    by (rule list_grow_diverges) simp_all
  then show ?thesis
    using assms by (simp add: list_push_def list_ensure_capacity_def)
qed

section \<open>Properties\<close>

text \<open>
  C7: below \<open>2 ^ 31\<close> elements, an insertion at a position up to the count, and a push,
  return and act on the contents as insertion and appending; they fail only when the
  allocator fails, and then leave the contents unchanged. A full list of \<open>2 ^ 31\<close>
  elements is the limit: the doubled capacity wraps to zero and the push never returns.
\<close>

theorem list_insert_push_spec:
  assumes "list_ok l" and "i \<le> list_count l"
  shows "(list_count l < 2 ^ 31 \<longrightarrow>
      (\<exists>r l' s'. list_insert l i v s = Some (r, l', s') \<and> list_ok l'
        \<and> (r = 0 \<and> list_view l' = take i (list_view l) @ v # drop i (list_view l)
           \<or> r = -1 \<and> list_view l' = list_view l) \<and> (grants_cell (cells l) s \<longrightarrow> r = 0))
      \<and> (\<exists>r l' s'. list_push l v s = Some (r, l', s') \<and> list_ok l'
        \<and> (r = 0 \<and> list_view l' = list_view l @ [v] \<or> r = -1 \<and> list_view l' = list_view l)
        \<and> (grants_cell (cells l) s \<longrightarrow> r = 0)))
    \<and> (list_count l = 2 ^ 31 \<and> list_capacity l = 2 ^ 31 \<longrightarrow> list_push l v s = None)"
proof (intro conjI impI)
  assume room: "list_count l < 2 ^ 31"
  show "\<exists>r l' s'. list_insert l i v s = Some (r, l', s') \<and> list_ok l'
        \<and> (r = 0 \<and> list_view l' = take i (list_view l) @ v # drop i (list_view l)
           \<or> r = -1 \<and> list_view l' = list_view l) \<and> (grants_cell (cells l) s \<longrightarrow> r = 0)"
    by (rule list_insert_correct [OF assms(1) room assms(2), of v s]) blast
  show "\<exists>r l' s'. list_push l v s = Some (r, l', s') \<and> list_ok l'
        \<and> (r = 0 \<and> list_view l' = list_view l @ [v] \<or> r = -1 \<and> list_view l' = list_view l)
        \<and> (grants_cell (cells l) s \<longrightarrow> r = 0)"
    by (rule list_push_correct [OF assms(1) room, of v s]) blast
qed (simp add: list_push_diverges)

theorem list_insert_push_spec_witness:
  "\<exists>r l' s'. list_push (list_init 8) True [Some (\<lambda>_. 1), Some (\<lambda>_. 2)] = Some (r, l', s')
     \<and> r = 0 \<and> list_view l' = [True]"
proof -
  let ?l = "list_init 8 :: bool list_base" and ?s = "[Some (\<lambda>_. 1), Some (\<lambda>_. 2)] :: ptr_sched"
  have grant: "grants_cell (cells ?l) ?s" and room: "list_count ?l < 2 ^ 31"
    by (simp_all add: grants_cell_def list_init_def)
  note spec = list_insert_push_spec [OF list_init_ok(1) le0, of 8 True ?s]
  show ?thesis
    using spec [THEN conjunct1, rule_format, OF room, THEN conjunct2] grant list_init_ok(2) by auto
qed

text \<open>
  Element access. A pop of a non-empty list returns the cell of the last element,
  still live, and drops it from the contents; \<open>list_get\<close> returns the cell of the indexed
  element and NULL out of range; \<open>list_set\<close> replaces and \<open>list_remove\<close> deletes the indexed
  element, freeing its cell, and both answer \<open>-1\<close> out of range and change nothing.
\<close>

theorem list_access_spec:
  assumes "list_ok l"
  shows "(list_view l \<noteq> [] \<longrightarrow>
      (\<exists>a l'. list_pop l = Some (Some a, l') \<and> list_ok l' \<and> list_view l' = butlast (list_view l)
        \<and> cells l' = cells l \<and> cells l a = Some (last (list_view l))))
    \<and> (list_view l = [] \<longrightarrow> list_pop l = Some (None, l))
    \<and> (if i < length (list_view l)
       then \<exists>a l1 l2. list_get l i = Some (Some a) \<and> cells l a = Some (list_view l ! i)
         \<and> list_set l i v = Some (0, l1) \<and> list_ok l1 \<and> list_view l1 = (list_view l)[i := v]
         \<and> list_remove l i = Some (0, l2) \<and> list_ok l2
         \<and> list_view l2 = take i (list_view l) @ drop (Suc i) (list_view l)
         \<and> cells l2 = (cells l)(a := None)
       else list_get l i = Some None \<and> list_set l i v = Some (-1, l) \<and> list_remove l i = Some (-1, l))"
proof (intro conjI impI)
  note len = length_list_view [OF assms]
  show "\<exists>a l'. list_pop l = Some (Some a, l') \<and> list_ok l' \<and> list_view l' = butlast (list_view l)
        \<and> cells l' = cells l \<and> cells l a = Some (last (list_view l))" if "list_view l \<noteq> []"
    using list_pop_correct [OF assms] that len by (cases "list_count l") auto
  show "list_pop l = Some (None, l)" if "list_view l = []"
    using that len by (simp add: list_pop_def)
  show "if i < length (list_view l)
       then \<exists>a l1 l2. list_get l i = Some (Some a) \<and> cells l a = Some (list_view l ! i)
         \<and> list_set l i v = Some (0, l1) \<and> list_ok l1 \<and> list_view l1 = (list_view l)[i := v]
         \<and> list_remove l i = Some (0, l2) \<and> list_ok l2
         \<and> list_view l2 = take i (list_view l) @ drop (Suc i) (list_view l)
         \<and> cells l2 = (cells l)(a := None)
       else list_get l i = Some None \<and> list_set l i v = Some (-1, l) \<and> list_remove l i = Some (-1, l)"
  proof (cases "i < list_count l")
    case True
    obtain l2 where "list_remove l i = Some (0, l2)" "list_ok l2"
      "list_view l2 = take i (list_view l) @ drop (Suc i) (list_view l)"
      "cells l2 = (cells l)(item_ptrs l ! i := None)"
      using assms True by (rule list_remove_correct)
    then show ?thesis
      using True len list_get_correct [OF assms, of i] list_view_nth [OF assms True]
        list_set_correct [OF assms True, of v] by auto
  next
    case False
    then show ?thesis
      using len by (simp add: list_get_def list_set_def list_remove_def)
  qed
qed

theorem list_access_spec_witness:
  "\<exists>l2. list_remove \<lparr>items = Some [5, 7], list_capacity = 2, list_count = 2, item_size = 8,
       cells = [5 \<mapsto> True, 7 \<mapsto> False]\<rparr> 0 = Some (0, l2) \<and> list_view l2 = [False]"
proof -
  let ?l = "\<lparr>items = Some [5, 7], list_capacity = 2, list_count = 2, item_size = 8,
       cells = [5 \<mapsto> True, 7 \<mapsto> False]\<rparr>"
  have ok: "list_ok ?l" and view: "list_view ?l = [True, False]"
    by (simp_all add: list_ok_def item_ptrs_def list_view_def)
  show ?thesis
    using list_access_spec [OF ok, of 0] view by auto
qed

text \<open>
  Rotation, clearing and release. Rotating left is rotation of the contents and
  rotating right its inverse, failing only when the allocator does; clearing and
  deinitialising empty the list, free the cell of each element exactly once and touch no
  other cell.
\<close>

theorem list_bulk_spec:
  assumes "list_ok l"
  shows "(\<exists>r l' s'. list_rotate_left l n s = Some (r, l', s') \<and> list_ok l' \<and> cells l' = cells l
        \<and> (r = 0 \<and> list_view l' = rotate n (list_view l)
           \<or> r = -1 \<and> l' = l \<and> (\<exists>s1. s = None # s1 \<or> s = [])))
    \<and> (\<exists>r l' s'. list_rotate_right l n s = Some (r, l', s') \<and> list_ok l' \<and> cells l' = cells l
        \<and> (r = 0 \<and> rotate n (list_view l') = list_view l
           \<or> r = -1 \<and> l' = l \<and> (\<exists>s1. s = None # s1 \<or> s = [])))
    \<and> (\<exists>l'. list_clear l = Some l' \<and> list_ok l' \<and> list_view l' = []
        \<and> list_capacity l' = list_capacity l \<and> cells l' = cells l |` (- set (item_ptrs l)))
    \<and> (\<exists>l'. list_deinit l = Some l' \<and> list_ok l' \<and> list_view l' = []
        \<and> cells l' = cells l |` (- set (item_ptrs l)))"
proof (intro conjI)
  show "\<exists>r l' s'. list_rotate_left l n s = Some (r, l', s') \<and> list_ok l' \<and> cells l' = cells l
        \<and> (r = 0 \<and> list_view l' = rotate n (list_view l)
           \<or> r = -1 \<and> l' = l \<and> (\<exists>s1. s = None # s1 \<or> s = []))"
    by (rule list_rotate_left_correct [OF assms, of n s]) blast
  show "\<exists>r l' s'. list_rotate_right l n s = Some (r, l', s') \<and> list_ok l' \<and> cells l' = cells l
        \<and> (r = 0 \<and> rotate n (list_view l') = list_view l
           \<or> r = -1 \<and> l' = l \<and> (\<exists>s1. s = None # s1 \<or> s = []))"
    by (rule list_rotate_right_correct [OF assms, of n s]) blast
qed (simp_all add: list_clear_correct list_deinit_correct assms)

theorem list_bulk_spec_witness:
  "\<exists>l'. list_clear \<lparr>items = Some [5, 7], list_capacity = 2, list_count = 2, item_size = 8,
       cells = [5 \<mapsto> True, 7 \<mapsto> False, 9 \<mapsto> True]\<rparr> = Some l' \<and> list_view l' = []
     \<and> cells l' = [9 \<mapsto> True]"
proof -
  let ?l = "\<lparr>items = Some [5, 7], list_capacity = 2, list_count = 2, item_size = 8,
       cells = [5 \<mapsto> True, 7 \<mapsto> False, 9 \<mapsto> True]\<rparr>"
  have ok: "list_ok ?l" and ptrs: "item_ptrs ?l = [5, 7]"
    by (simp_all add: list_ok_def item_ptrs_def)
  have cells: "[5 :: nat \<mapsto> True, 7 \<mapsto> False, 9 \<mapsto> True] |` (- set [5, 7]) = [9 \<mapsto> True]"
    by (rule ext) (simp add: restrict_map_def)
  show ?thesis
    using list_bulk_spec [OF ok] unfolding ptrs by (auto simp: cells [simplified])
qed

end
