(* ===== verification/HashMap.thy ===== *)
theory HashMap
  imports Prelude "HOL-Library.Multiset"
begin

text \<open>
  Model of kernel/map/src/map.c: the chained hash table behind the \<open>map_t\<close> macros. A key
  is the bytes it is made of (the \<open>ksize\<close> bytes of a fixed-size key, the characters of a
  string key); the hash and comparison functions are fields of the table, as in the code.
  A bucket's chain is the list of its nodes; a reference into a chain
  (\<open>map_node_t **\<close>) is the pair of a bucket index and a position in the chain. The outer
  \<open>option\<close> of an operation is \<open>None\<close> for an access outside the bucket array.

  The locale \<open>hash_keys\<close> states what the table relies on, that the comparison function
  decides equality of keys; the two comparison functions of the code are instances. Its
  lemmas show that the table keeps its invariant and implements a finite map through
  growth, collisions and allocation failures, and that iteration visits every key once.
\<close>

section \<open>Hash and comparison functions\<close>

text \<open>A little-endian integer in memory.\<close>

fun le_word :: "u8 list \<Rightarrow> 'a::len word" where
  "le_word [] = 0"
| "le_word (b # bs) = ucast b OR push_bit 8 (le_word bs)"

text \<open>The characters of a C string up to its NUL; \<open>char\<close> is signed, so it extends by sign.\<close>

definition c_string :: "u8 list \<Rightarrow> u8 list" where
  "c_string bs = takeWhile (\<lambda>c. c \<noteq> 0) bs"

definition map_hash_str :: "u8 list \<Rightarrow> nat \<Rightarrow> u32" where
  "map_hash_str key ksize =
     foldl (\<lambda>hash c. (push_bit 5 hash + hash) XOR scast c) 5381 (c_string key)"

definition map_hash_i8 :: "u8 list \<Rightarrow> nat \<Rightarrow> u32" where
  "map_hash_i8 key ksize = scast (le_word (take 1 key) :: u8)"

definition map_hash_i16 :: "u8 list \<Rightarrow> nat \<Rightarrow> u32" where
  "map_hash_i16 key ksize = scast (le_word (take 2 key) :: 16 word)"

definition map_hash_i32 :: "u8 list \<Rightarrow> nat \<Rightarrow> u32" where
  "map_hash_i32 key ksize = le_word (take 4 key)"

definition map_hash_i64 :: "u8 list \<Rightarrow> nat \<Rightarrow> u32" where
  "map_hash_i64 key ksize =
     (let val = le_word (take 8 key) :: u64 in ucast (val XOR signed_drop_bit 32 val))"

definition map_hash_u8 :: "u8 list \<Rightarrow> nat \<Rightarrow> u32" where
  "map_hash_u8 key ksize = ucast (le_word (take 1 key) :: u8)"

definition map_hash_u16 :: "u8 list \<Rightarrow> nat \<Rightarrow> u32" where
  "map_hash_u16 key ksize = ucast (le_word (take 2 key) :: 16 word)"

definition map_hash_u32 :: "u8 list \<Rightarrow> nat \<Rightarrow> u32" where
  "map_hash_u32 key ksize = le_word (take 4 key)"

definition map_hash_u64 :: "u8 list \<Rightarrow> nat \<Rightarrow> u32" where
  "map_hash_u64 key ksize =
     (let val = le_word (take 8 key) :: u64 in ucast (val XOR drop_bit 32 val))"

text \<open>The bits of a float are read through a union.\<close>

definition map_hash_f32 :: "u8 list \<Rightarrow> nat \<Rightarrow> u32" where
  "map_hash_f32 key ksize = le_word (take 4 key)"

definition map_hash_f64 :: "u8 list \<Rightarrow> nat \<Rightarrow> u32" where
  "map_hash_f64 key ksize =
     (let u = le_word (take 8 key) :: u64 in ucast (u XOR drop_bit 32 u))"

definition map_hash_bool :: "u8 list \<Rightarrow> nat \<Rightarrow> u32" where
  "map_hash_bool key ksize = ucast (le_word (take 1 key) :: u8)"

text \<open>\<open>strcmp\<close> and \<open>memcmp\<close>: the difference at the first place the arguments differ.\<close>

fun c_strcmp :: "u8 list \<Rightarrow> u8 list \<Rightarrow> int" where
  "c_strcmp [] [] = 0"
| "c_strcmp [] (y # ys) = - uint y"
| "c_strcmp (x # xs) [] = uint x"
| "c_strcmp (x # xs) (y # ys) = (if x = y then c_strcmp xs ys else uint x - uint y)"

definition map_cmp_str :: "u8 list \<Rightarrow> u8 list \<Rightarrow> nat \<Rightarrow> int" where
  "map_cmp_str a b ksize = c_strcmp (c_string a) (c_string b)"

definition map_cmp_mem :: "u8 list \<Rightarrow> u8 list \<Rightarrow> nat \<Rightarrow> int" where
  "map_cmp_mem a b ksize = c_strcmp (take ksize a) (take ksize b)"

section \<open>The table\<close>

abbreviation UINT_MOD :: nat where
  "UINT_MOD \<equiv> 2 ^ 32"

record 'v map_node =
  node_hash :: u32
  node_key :: "u8 list"
  node_value :: 'v

record 'v map_base =
  buckets :: "'v map_node list list option"
  nbuckets :: nat
  nnodes :: nat
  ksize :: nat
  hash_fn :: "u8 list \<Rightarrow> nat \<Rightarrow> u32"
  cmp_fn :: "u8 list \<Rightarrow> u8 list \<Rightarrow> nat \<Rightarrow> int"

record map_iter =
  mi_bucketidx :: nat
  mi_node :: "nat option"

definition map_init_generic ::
  "nat \<Rightarrow> (u8 list \<Rightarrow> nat \<Rightarrow> u32) \<Rightarrow> (u8 list \<Rightarrow> u8 list \<Rightarrow> nat \<Rightarrow> int) \<Rightarrow> 'v map_base" where
  "map_init_generic keysize hashfn cmpfn =
     \<lparr>buckets = None, nbuckets = 0, nnodes = 0, ksize = keysize, hash_fn = hashfn,
      cmp_fn = cmpfn\<rparr>"

text \<open>
  The offset of the value behind the key in a node: \<open>sizeof(void *) - ksize\<close> is computed
  in \<open>size_t\<close> and wraps for a key longer than a pointer.
\<close>

definition map_voffset :: "nat \<Rightarrow> nat" where
  "map_voffset ksz = ksz + ((8 + (SIZE_RANGE - ksz)) mod SIZE_RANGE) mod 8"

definition map_newnode ::
  "'v map_base \<Rightarrow> u8 list \<Rightarrow> 'v \<Rightarrow> 'g sched \<Rightarrow> 'v map_node option \<times> 'g sched" where
  "map_newnode m key value s =
     (case sys_alloc s of
        (None, s') \<Rightarrow> (None, s')
      | (Some _, s') \<Rightarrow>
          (Some \<lparr>node_hash = hash_fn m key (ksize m), node_key = key, node_value = value\<rparr>, s'))"

definition map_bucketidx :: "'v map_base \<Rightarrow> u32 \<Rightarrow> nat" where
  "map_bucketidx m hash = unat (hash AND (word_of_nat (nbuckets m) - 1))"

definition map_addnode :: "'v map_base \<Rightarrow> 'v map_node \<Rightarrow> 'v map_base option" where
  "map_addnode m node = do {
     let n = map_bucketidx m (node_hash node);
     bs \<leftarrow> buckets m;
     chain \<leftarrow> mem_read bs n;
     bs' \<leftarrow> mem_write bs n (node # chain);
     Some (m\<lparr>buckets := Some bs'\<rparr>)
   }"

text \<open>The two loops that unlink every node, and the loop that links them again.\<close>

fun unlink_chain :: "'v map_node list \<Rightarrow> 'v map_node list \<Rightarrow> 'v map_node list" where
  "unlink_chain [] nodes = nodes"
| "unlink_chain (node # rest) nodes = unlink_chain rest (node # nodes)"

fun unlink_buckets :: "nat \<Rightarrow> 'v map_node list list \<Rightarrow> 'v map_node list \<Rightarrow> 'v map_node list option"
where
  "unlink_buckets 0 bs nodes = Some nodes"
| "unlink_buckets (Suc i) bs nodes = do {
     chain \<leftarrow> mem_read bs i;
     unlink_buckets i bs (unlink_chain chain nodes)
   }"

fun add_nodes :: "'v map_base \<Rightarrow> 'v map_node list \<Rightarrow> 'v map_base option" where
  "add_nodes m [] = Some m"
| "add_nodes m (node # rest) = do { m' \<leftarrow> map_addnode m node; add_nodes m' rest }"

definition map_resize ::
  "'v map_base \<Rightarrow> nat \<Rightarrow> 'g sched \<Rightarrow> (int \<times> 'v map_base \<times> 'g sched) option" where
  "map_resize m n s = do {
     nodes \<leftarrow> unlink_buckets (nbuckets m) (case buckets m of None \<Rightarrow> [] | Some bs \<Rightarrow> bs) [];
     let (r, s') = sys_alloc s;
     let m1 = (case r of None \<Rightarrow> m
               | Some _ \<Rightarrow> m\<lparr>buckets := Some (replicate n []), nbuckets := n\<rparr>);
     m2 \<leftarrow> (case buckets m1 of None \<Rightarrow> Some m1
            | Some _ \<Rightarrow> add_nodes (m1\<lparr>buckets := Some (replicate (nbuckets m1) [])\<rparr>) nodes);
     Some (if r = None then -1 else 0, m2, s')
   }"

text \<open>The search in a chain, from a position on.\<close>

fun find_in_chain ::
  "'v map_base \<Rightarrow> u32 \<Rightarrow> u8 list \<Rightarrow> 'v map_node list \<Rightarrow> nat \<Rightarrow> nat option" where
  "find_in_chain m hash key [] p = None"
| "find_in_chain m hash key (node # rest) p =
     (if node_hash node = hash \<and> cmp_fn m (node_key node) key (ksize m) = 0 then Some p
      else find_in_chain m hash key rest (p + 1))"

definition map_getref :: "'v map_base \<Rightarrow> u8 list \<Rightarrow> (nat \<times> nat) option option" where
  "map_getref m key =
     (let hash = hash_fn m key (ksize m) in
      if nbuckets m > 0 then do {
        let n = map_bucketidx m hash;
        bs \<leftarrow> buckets m;
        chain \<leftarrow> mem_read bs n;
        Some (map_option (\<lambda>p. (n, p)) (find_in_chain m hash key chain 0))
      }
      else Some None)"

text \<open>The nodes \<open>map_deinit\<close> frees, in order; the table is gone afterwards.\<close>

fun free_buckets :: "nat \<Rightarrow> 'v map_node list list \<Rightarrow> 'v map_node list option" where
  "free_buckets 0 bs = Some []"
| "free_buckets (Suc i) bs = do {
     chain \<leftarrow> mem_read bs i;
     rest \<leftarrow> free_buckets i bs;
     Some (chain @ rest)
   }"

definition map_deinit :: "'v map_base \<Rightarrow> 'v map_node list option" where
  "map_deinit m =
     free_buckets (nbuckets m) (case buckets m of None \<Rightarrow> [] | Some bs \<Rightarrow> bs)"

text \<open>The node a reference denotes.\<close>

definition node_at :: "'v map_base \<Rightarrow> nat \<times> nat \<Rightarrow> 'v map_node option" where
  "node_at m r = do { bs \<leftarrow> buckets m; chain \<leftarrow> mem_read bs (fst r); mem_read chain (snd r) }"

definition set_chain :: "'v map_base \<Rightarrow> nat \<Rightarrow> 'v map_node list \<Rightarrow> 'v map_base option" where
  "set_chain m i chain =
     do { bs \<leftarrow> buckets m; bs' \<leftarrow> mem_write bs i chain; Some (m\<lparr>buckets := Some bs'\<rparr>) }"

definition map_get :: "'v map_base \<Rightarrow> u8 list \<Rightarrow> 'v option option" where
  "map_get m key = do {
     r \<leftarrow> map_getref m key;
     (case r of None \<Rightarrow> Some None
      | Some ref \<Rightarrow> map_option (Some \<circ> node_value) (node_at m ref))
   }"

definition map_set ::
  "'v map_base \<Rightarrow> u8 list \<Rightarrow> 'v \<Rightarrow> 'g sched \<Rightarrow> (int \<times> 'v map_base \<times> 'g sched) option" where
  "map_set m key value s = do {
     r \<leftarrow> map_getref m key;
     (case r of
        Some (i, p) \<Rightarrow> do {
          bs \<leftarrow> buckets m;
          chain \<leftarrow> mem_read bs i;
          node \<leftarrow> mem_read chain p;
          m' \<leftarrow> set_chain m i (chain[p := node\<lparr>node_value := value\<rparr>]);
          Some (0, m', s)
        }
      | None \<Rightarrow>
        (case map_newnode m key value s of
           (None, s1) \<Rightarrow> Some (-1, m, s1)
         | (Some node, s1) \<Rightarrow> do {
             (err, m1, s2) \<leftarrow>
               (if nnodes m \<ge> nbuckets m
                then map_resize m (if nbuckets m > 0 then 2 * nbuckets m mod UINT_MOD else 1) s1
                else Some (0, m, s1));
             if err \<noteq> 0 then Some (-1, m1, s2)
             else do {
               m2 \<leftarrow> map_addnode m1 node;
               Some (0, m2\<lparr>nnodes := (nnodes m2 + 1) mod UINT_MOD\<rparr>, s2)
             }
           }))
   }"

definition map_remove :: "'v map_base \<Rightarrow> u8 list \<Rightarrow> 'v map_base option" where
  "map_remove m key = do {
     r \<leftarrow> map_getref m key;
     (case r of None \<Rightarrow> Some m
      | Some (i, p) \<Rightarrow> do {
          bs \<leftarrow> buckets m;
          chain \<leftarrow> mem_read bs i;
          m' \<leftarrow> set_chain m i (take p chain @ drop (p + 1) chain);
          Some (m'\<lparr>nnodes := nnodes m' - 1\<rparr>)
        })
   }"

text \<open>An iterator starts before the first bucket: \<open>bucketidx\<close> is \<open>-1\<close> as an \<open>unsigned\<close>.\<close>

definition map_iter_new :: map_iter where
  "map_iter_new = \<lparr>mi_bucketidx = UINT_MOD - 1, mi_node = None\<rparr>"

text \<open>The loop to the next bucket that is not empty.\<close>

function next_bucket :: "'v map_base \<Rightarrow> nat \<Rightarrow> (u8 list option \<times> map_iter) option" where
  "next_bucket m idx =
     (if idx \<ge> nbuckets m then Some (None, \<lparr>mi_bucketidx = idx, mi_node = None\<rparr>)
      else (case Option.bind (buckets m) (\<lambda>bs. mem_read bs idx) of
          None \<Rightarrow> None
        | Some [] \<Rightarrow> next_bucket m (idx + 1)
        | Some (node # rest) \<Rightarrow>
            Some (Some (node_key node), \<lparr>mi_bucketidx = idx, mi_node = Some 0\<rparr>)))"
  by pat_completeness auto
termination
  by (relation "measure (\<lambda>(m, idx). nbuckets m - idx)") auto

declare next_bucket.simps [simp del]

definition map_next :: "'v map_base \<Rightarrow> map_iter \<Rightarrow> (u8 list option \<times> map_iter) option" where
  "map_next m it =
     (case mi_node it of
        Some p \<Rightarrow> do {
          bs \<leftarrow> buckets m;
          chain \<leftarrow> mem_read bs (mi_bucketidx it);
          if p + 1 < length chain
          then Some (Some (node_key (chain ! (p + 1))), it\<lparr>mi_node := Some (p + 1)\<rparr>)
          else next_bucket m ((mi_bucketidx it + 1) mod UINT_MOD)
        }
      | None \<Rightarrow> next_bucket m ((mi_bucketidx it + 1) mod UINT_MOD))"

section \<open>Invariant and contents\<close>

definition bucket_list :: "'v map_base \<Rightarrow> 'v map_node list list" where
  "bucket_list m = (case buckets m of None \<Rightarrow> [] | Some bs \<Rightarrow> bs)"

definition all_nodes :: "'v map_base \<Rightarrow> 'v map_node list" where
  "all_nodes m = concat (bucket_list m)"

definition node_pair :: "'v map_node \<Rightarrow> u8 list \<times> 'v" where
  "node_pair n = (node_key n, node_value n)"

definition map_view :: "'v map_base \<Rightarrow> u8 list \<rightharpoonup> 'v" where
  "map_view m = map_of (map node_pair (all_nodes m))"

text \<open>Every node sits in the bucket of its hash, which is the hash of its key.\<close>

definition placed :: "'v map_base \<Rightarrow> bool" where
  "placed m \<longleftrightarrow> length (bucket_list m) = nbuckets m
     \<and> (nbuckets m = 0 \<and> buckets m = None \<or> buckets m \<noteq> None \<and> (\<exists>k\<le>30. nbuckets m = 2 ^ k))
     \<and> (\<forall>i < nbuckets m. \<forall>n \<in> set (bucket_list m ! i).
          map_bucketidx m (node_hash n) = i \<and> node_hash n = hash_fn m (node_key n) (ksize m))"

definition map_ok :: "(u8 list \<Rightarrow> bool) \<Rightarrow> 'v map_base \<Rightarrow> bool" where
  "map_ok valid m \<longleftrightarrow> placed m \<and> nnodes m = length (all_nodes m) \<and> nnodes m \<le> nbuckets m
     \<and> distinct (map node_key (all_nodes m)) \<and> (\<forall>n \<in> set (all_nodes m). valid (node_key n))"

text \<open>The keys an iterator delivers; \<open>fuel\<close> bounds the number of steps.\<close>

fun map_walk :: "nat \<Rightarrow> 'v map_base \<Rightarrow> map_iter \<Rightarrow> u8 list list option" where
  "map_walk 0 m it = None"
| "map_walk (Suc fuel) m it = do {
     (r, it') \<leftarrow> map_next m it;
     (case r of None \<Rightarrow> Some []
      | Some key \<Rightarrow> do { keys \<leftarrow> map_walk fuel m it'; Some (key # keys) })
   }"

section \<open>Comparison and layout\<close>

lemma c_strcmp_eq_0: "0 \<notin> set xs \<Longrightarrow> 0 \<notin> set ys \<Longrightarrow> c_strcmp xs ys = 0 \<longleftrightarrow> xs = ys"
  by (induction xs ys rule: c_strcmp.induct) (auto simp: word_uint_eq_iff)

lemma c_strcmp_mem_eq_0: "length xs = length ys \<Longrightarrow> c_strcmp xs ys = 0 \<longleftrightarrow> xs = ys"
  by (induction xs ys rule: c_strcmp.induct) (auto simp: word_uint_eq_iff)

lemma c_string_id: "0 \<notin> set key \<Longrightarrow> c_string key = key"
  by (auto simp: c_string_def takeWhile_eq_all_conv)

text \<open>The value area of a node lies behind the key and is aligned to a pointer.\<close>

lemma map_voffset_aligned:
  assumes "k < 2 ^ 31"
  shows "k \<le> map_voffset k" and "map_voffset k < k + 8" and "map_voffset k mod 8 = 0"
proof -
  define r where "r = ((8 + (SIZE_RANGE - k)) mod SIZE_RANGE) mod 8"
  have "r = (8 + (SIZE_RANGE - k)) mod 8"
    unfolding r_def by (rule mod_mod_cancel) simp
  then have "(k + r) mod 8 = (k + (8 + (SIZE_RANGE - k))) mod 8"
    by (simp only: mod_add_right_eq)
  also have "k + (8 + (SIZE_RANGE - k)) = SIZE_RANGE + 8"
    using assms by simp
  also have "(SIZE_RANGE + 8) mod 8 = 0"
    by simp
  finally show "map_voffset k mod 8 = 0"
    by (simp add: map_voffset_def r_def)
  have "r < 8" by (simp add: r_def)
  then show "k \<le> map_voffset k" "map_voffset k < k + 8"
    by (simp_all add: map_voffset_def r_def)
qed

text \<open>Signed and unsigned 64-bit keys hash alike: the sign bits fall outside the result.\<close>

lemma map_hash_i64_u64: "map_hash_i64 = map_hash_u64"
proof (intro ext)
  fix key ksz
  show "map_hash_i64 key ksz = map_hash_u64 key ksz"
    unfolding map_hash_i64_def map_hash_u64_def Let_def
    by (rule bit_word_eqI) (auto simp: bit_simps)
qed

section \<open>Buckets\<close>

lemma mset_concat_update:
  assumes "i < length bs"
  shows "mset (concat (bs[i := c])) + mset (bs ! i) = mset (concat bs) + mset c"
proof -
  have bs: "bs = take i bs @ bs ! i # drop (Suc i) bs"
    using assms by (rule id_take_nth_drop)
  have "mset (concat bs) = mset (concat (take i bs)) + mset (bs ! i) + mset (concat (drop (Suc i) bs))"
    by (subst bs) (simp only: concat_append concat.simps mset_append ac_simps)
  moreover have "mset (concat (bs[i := c])) =
      mset (concat (take i bs)) + mset c + mset (concat (drop (Suc i) bs))"
    using assms by (simp add: upd_conv_take_nth_drop ac_simps)
  ultimately show ?thesis by (simp add: ac_simps)
qed

lemma mask_minus_one: "k < 32 \<Longrightarrow> word_of_nat (2 ^ k) - 1 = (mask k :: u32)"
  by (simp add: mask_eq_exp_minus_1)

lemma map_bucketidx_mod:
  assumes "nbuckets m = 2 ^ k" and "k \<le> 30"
  shows "map_bucketidx m h = unat h mod 2 ^ k"
  using assms mask_minus_one [of k] by (simp add: map_bucketidx_def unat_and_mask)

lemma placed_bucketidx: "placed m \<Longrightarrow> nbuckets m \<noteq> 0 \<Longrightarrow> map_bucketidx m h < nbuckets m"
  by (auto simp: placed_def map_bucketidx_mod)

lemma placed_buckets:
  assumes "placed m" and "nbuckets m \<noteq> 0"
  shows "buckets m = Some (bucket_list m)" and "length (bucket_list m) = nbuckets m"
  using assms by (auto simp: placed_def bucket_list_def)

lemma placed_node:
  "placed m \<Longrightarrow> i < nbuckets m \<Longrightarrow> n \<in> set (bucket_list m ! i) \<Longrightarrow>
   map_bucketidx m (node_hash n) = i \<and> node_hash n = hash_fn m (node_key n) (ksize m)"
  unfolding placed_def by blast

lemma all_nodes_bucket:
  assumes "placed m" and "n \<in> set (all_nodes m)"
  obtains i where "i < nbuckets m" "n \<in> set (bucket_list m ! i)"
proof -
  have "length (bucket_list m) = nbuckets m" using assms(1) by (simp add: placed_def)
  moreover obtain c where "c \<in> set (bucket_list m)" "n \<in> set c"
    using assms(2) by (auto simp: all_nodes_def)
  ultimately show thesis using that by (metis in_set_conv_nth)
qed

lemma bucket_subset:
  assumes "placed m" and "i < nbuckets m"
  shows "set (bucket_list m ! i) \<subseteq> set (all_nodes m)"
proof -
  have "bucket_list m ! i \<in> set (bucket_list m)"
    using assms by (simp add: placed_def)
  then show ?thesis by (auto simp: all_nodes_def)
qed

lemma placed_empty: "placed m \<Longrightarrow> nbuckets m = 0 \<Longrightarrow> buckets m = None \<and> all_nodes m = []"
  by (auto simp: placed_def bucket_list_def all_nodes_def)

lemma map_bucketidx_cong: "nbuckets m = nbuckets m' \<Longrightarrow> map_bucketidx m = map_bucketidx m'"
  by (rule ext) (simp add: map_bucketidx_def)

lemma nnodes_update [simp]:
  "bucket_list (m\<lparr>nnodes := x\<rparr>) = bucket_list m" "all_nodes (m\<lparr>nnodes := x\<rparr>) = all_nodes m"
  "map_view (m\<lparr>nnodes := x\<rparr>) = map_view m" "placed (m\<lparr>nnodes := x\<rparr>) = placed m"
  using map_bucketidx_cong [of "m\<lparr>nnodes := x\<rparr>" m]
  by (simp_all add: bucket_list_def all_nodes_def map_view_def placed_def)

lemma bucket_list_update [simp]: "bucket_list (m\<lparr>buckets := Some bs\<rparr>) = bs"
  by (simp add: bucket_list_def)

text \<open>Replacing one chain by nodes that belong there keeps every node in its place.\<close>

lemma placed_set_chain:
  assumes ok: "placed m" and i: "i < nbuckets m"
    and chain: "\<And>n. n \<in> set c \<Longrightarrow> map_bucketidx m (node_hash n) = i
      \<and> node_hash n = hash_fn m (node_key n) (ksize m)"
  defines "m' \<equiv> m\<lparr>buckets := Some ((bucket_list m)[i := c])\<rparr>"
  shows "set_chain m i c = Some m'" and "placed m'"
    and "mset (all_nodes m') + mset (bucket_list m ! i) = mset (all_nodes m) + mset c"
proof -
  note b = placed_buckets [OF ok, OF gr_implies_not_zero [OF i]]
  show "set_chain m i c = Some m'"
    using b i by (simp add: set_chain_def mem_simps m'_def)
  have idx: "map_bucketidx m' = map_bucketidx m"
    by (rule map_bucketidx_cong) (simp add: m'_def)
  show "placed m'"
    unfolding placed_def
  proof (intro conjI allI impI ballI)
    show "length (bucket_list m') = nbuckets m'"
      using b by (simp add: m'_def)
    show "nbuckets m' = 0 \<and> buckets m' = None \<or> buckets m' \<noteq> None \<and> (\<exists>k\<le>30. nbuckets m' = 2 ^ k)"
      using ok i by (auto simp: placed_def m'_def)
    fix j n
    assume j: "j < nbuckets m'" and n: "n \<in> set (bucket_list m' ! j)"
    have "map_bucketidx m (node_hash n) = j \<and> node_hash n = hash_fn m (node_key n) (ksize m)"
    proof (cases "j = i")
      case True
      then show ?thesis using n b(2) i chain [of n] by (auto simp: m'_def)
    next
      case False
      then show ?thesis using placed_node [OF ok, of j n] n j by (auto simp: m'_def)
    qed
    then show "map_bucketidx m' (node_hash n) = j"
      and "node_hash n = hash_fn m' (node_key n) (ksize m')"
      unfolding idx by (auto simp: m'_def)
  qed
  show "mset (all_nodes m') + mset (bucket_list m ! i) = mset (all_nodes m) + mset c"
    using mset_concat_update [of i "bucket_list m" c] b(2) i by (simp add: all_nodes_def m'_def)
qed

definition same_table :: "'v map_base \<Rightarrow> 'v map_base \<Rightarrow> bool" where
  "same_table m m' \<longleftrightarrow> nbuckets m' = nbuckets m \<and> nnodes m' = nnodes m \<and> ksize m' = ksize m
     \<and> hash_fn m' = hash_fn m \<and> cmp_fn m' = cmp_fn m"

lemma same_table_refl [simp]: "same_table m m"
  by (simp add: same_table_def)

lemma same_table_buckets [simp]: "same_table m (m\<lparr>buckets := b\<rparr>)"
  by (simp add: same_table_def)

lemma same_table_trans: "same_table a b \<Longrightarrow> same_table b c \<Longrightarrow> same_table a c"
  by (simp add: same_table_def)

lemma map_addnode_correct:
  assumes ok: "placed m" and nb: "nbuckets m \<noteq> 0"
    and node: "node_hash node = hash_fn m (node_key node) (ksize m)"
  obtains m' where "map_addnode m node = Some m'" "placed m'" "same_table m m'"
    "mset (all_nodes m') = add_mset node (mset (all_nodes m))"
proof -
  let ?i = "map_bucketidx m (node_hash node)"
  have i: "?i < nbuckets m" using ok nb by (rule placed_bucketidx)
  note b = placed_buckets [OF ok nb]
  let ?c = "node # bucket_list m ! ?i"
  let ?m = "m\<lparr>buckets := Some ((bucket_list m)[?i := ?c])\<rparr>"
  have "map_bucketidx m (node_hash n) = ?i \<and> node_hash n = hash_fn m (node_key n) (ksize m)"
    if "n \<in> set ?c" for n
    using that placed_node [OF ok i, of n] node by auto
  note upd = placed_set_chain [OF ok i, where c = "?c", OF this]
  have "mset (all_nodes ?m) = add_mset node (mset (all_nodes m))"
    using upd(3) by simp
  moreover have "map_addnode m node = Some ?m"
    using b i by (simp add: map_addnode_def mem_simps Let_def)
  ultimately show thesis
    using that upd(2) by simp
qed

lemma add_nodes_correct:
  "placed m \<Longrightarrow> nbuckets m \<noteq> 0 \<Longrightarrow>
   (\<And>n. n \<in> set ns \<Longrightarrow> node_hash n = hash_fn m (node_key n) (ksize m)) \<Longrightarrow>
   \<exists>m'. add_nodes m ns = Some m' \<and> placed m' \<and> same_table m m'
     \<and> mset (all_nodes m') = mset (all_nodes m) + mset ns"
proof (induction ns arbitrary: m)
  case (Cons n ns)
  have hash: "node_hash n = hash_fn m (node_key n) (ksize m)" using Cons.prems(3) by simp
  obtain m1 where m1: "map_addnode m n = Some m1" "placed m1" "same_table m m1"
      "mset (all_nodes m1) = add_mset n (mset (all_nodes m))"
    using Cons.prems(1,2) hash by (rule map_addnode_correct)
  have "\<exists>m'. add_nodes m1 ns = Some m' \<and> placed m' \<and> same_table m1 m'
     \<and> mset (all_nodes m') = mset (all_nodes m1) + mset ns"
    using Cons.prems m1(2,3) by (intro Cons.IH) (auto simp: same_table_def)
  then show ?case
    using m1 same_table_trans [OF m1(3)] by auto
qed simp

lemma unlink_chain_eq: "unlink_chain chain nodes = rev chain @ nodes"
  by (induction chain arbitrary: nodes) auto

lemma unlink_buckets_correct:
  "n \<le> length bs \<Longrightarrow>
   \<exists>ns'. unlink_buckets n bs ns = Some ns' \<and> mset ns' = mset (concat (take n bs)) + mset ns"
proof (induction n arbitrary: ns)
  case (Suc n)
  then obtain ns' where "unlink_buckets n bs (unlink_chain (bs ! n) ns) = Some ns'"
      "mset ns' = mset (concat (take n bs)) + mset (unlink_chain (bs ! n) ns)"
    using Suc.IH [of "unlink_chain (bs ! n) ns"] by auto
  then show ?case
    using Suc.prems by (auto simp: mem_simps unlink_chain_eq take_Suc_conv_app_nth)
qed simp

lemma placed_fresh:
  assumes "k \<le> 30"
  shows "placed (m\<lparr>buckets := Some (replicate (2 ^ k) []), nbuckets := 2 ^ k\<rparr>)"
  using assms by (auto simp: placed_def bucket_list_def)

lemma concat_replicate_Nil [simp]: "concat (replicate n []) = []"
  by (induction n) simp_all

text \<open>
  Resizing keeps the nodes, whether or not the allocator gives the new array; when it
  does not, the old array is linked again.
\<close>

lemma map_resize_correct:
  assumes ok: "placed m" and k: "k \<le> 30"
  obtains r m' s' where "map_resize m (2 ^ k) s = Some (r, m', s')" "placed m'"
    "mset (all_nodes m') = mset (all_nodes m)" "nnodes m' = nnodes m" "ksize m' = ksize m"
    "hash_fn m' = hash_fn m" "cmp_fn m' = cmp_fn m"
    "r = 0 \<and> nbuckets m' = 2 ^ k \<or> r = -1 \<and> nbuckets m' = nbuckets m"
    "fst (sys_alloc s) \<noteq> None \<longrightarrow> r = 0"
proof -
  obtain ns where ns: "unlink_buckets (nbuckets m) (bucket_list m) [] = Some ns"
      "mset ns = mset (all_nodes m)"
    using unlink_buckets_correct [of "nbuckets m" "bucket_list m" "[]"] ok
    by (auto simp: placed_def all_nodes_def)
  have hash: "node_hash n = hash_fn m (node_key n) (ksize m)" if "n \<in> set ns" for n
  proof -
    have "n \<in> set (all_nodes m)" using that ns(2) by (metis set_mset_mset)
    then obtain i where "i < nbuckets m" "n \<in> set (bucket_list m ! i)"
      by (rule all_nodes_bucket [OF ok])
    then show ?thesis using placed_node [OF ok] by blast
  qed
  obtain r s' where alloc: "sys_alloc s = (r, s')" by (rule prod.exhaust)
  define m1 where "m1 = (case r of None \<Rightarrow> m
      | Some _ \<Rightarrow> m\<lparr>buckets := Some (replicate (2 ^ k) []), nbuckets := 2 ^ k\<rparr>)"
  have run: "map_resize m (2 ^ k) s = Option.bind
      (case buckets m1 of None \<Rightarrow> Some m1
       | Some _ \<Rightarrow> add_nodes (m1\<lparr>buckets := Some (replicate (nbuckets m1) [])\<rparr>) ns)
      (\<lambda>m2. Some (if r = None then -1 else 0, m2, s'))"
    using ns(1) alloc by (cases r; cases "buckets m")
      (simp_all add: map_resize_def m1_def bucket_list_def Let_def)
  show thesis
  proof (cases "buckets m1")
    case None
    then have "r = None" "buckets m = None" by (auto simp: m1_def split: option.splits)
    then show thesis
      using that [of "-1" m s'] run None ok alloc by (simp add: m1_def)
  next
    case (Some bs)
    let ?m = "m1\<lparr>buckets := Some (replicate (nbuckets m1) [])\<rparr>"
    have nb: "\<exists>j\<le>30. nbuckets m1 = 2 ^ j"
    proof (cases r)
      case None
      then show ?thesis using Some ok by (auto simp: m1_def placed_def)
    next
      case (Some u)
      then show ?thesis using k by (auto simp: m1_def)
    qed
    then have p: "placed ?m" and ne: "nbuckets ?m \<noteq> 0"
      by (auto simp: placed_def)
    have "node_hash n = hash_fn ?m (node_key n) (ksize ?m)" if "n \<in> set ns" for n
      using hash [OF that] by (simp add: m1_def split: option.splits)
    with p ne obtain m2 where m2: "add_nodes ?m ns = Some m2" "placed m2" "same_table ?m m2"
        "mset (all_nodes m2) = mset (all_nodes ?m) + mset ns"
      using add_nodes_correct [of ?m ns] by blast
    show thesis
    proof (rule that [of "if r = None then -1 else 0" m2 s'])
      show "map_resize m (2 ^ k) s = Some (if r = None then -1 else 0, m2, s')"
        using run Some m2(1) by simp
      show "mset (all_nodes m2) = mset (all_nodes m)"
        using m2(4) ns(2) by (simp add: all_nodes_def)
    qed (use m2 alloc in \<open>auto simp: same_table_def m1_def split: option.splits\<close>)
  qed
qed

section \<open>The contents of a list of nodes\<close>

lemma map_view_Some:
  assumes "distinct (map node_key (all_nodes m))"
  shows "map_view m k = Some v \<longleftrightarrow> (\<exists>n \<in> set (all_nodes m). node_key n = k \<and> node_value n = v)"
proof -
  have keys: "map fst (map node_pair (all_nodes m)) = map node_key (all_nodes m)"
    by (simp add: node_pair_def)
  have "distinct (map fst (map node_pair (all_nodes m)))"
    unfolding keys by (rule assms)
  then show ?thesis
    by (force simp: map_view_def map_of_eq_Some_iff node_pair_def)
qed

lemma map_view_None: "map_view m k = None \<longleftrightarrow> k \<notin> node_key ` set (all_nodes m)"
  by (force simp: map_view_def map_of_eq_None_iff node_pair_def)

lemma key_notin: "k \<notin> node_key ` set ns \<longleftrightarrow> (\<forall>x \<in> set ns. node_key x \<noteq> k)"
  unfolding image_iff by metis

lemma option_eq_by_Some: "(\<And>v. x = Some v \<longleftrightarrow> y = Some v) \<Longrightarrow> x = y"
  by (cases x; cases y) auto

lemma distinct_keys_mset:
  "image_mset node_key (mset xs) = image_mset node_key (mset ys) \<Longrightarrow>
   distinct (map node_key xs) \<longleftrightarrow> distinct (map node_key ys)"
  by (rule mset_eq_imp_distinct_iff) simp

lemma map_view_same_nodes:
  assumes "distinct (map node_key (all_nodes m))" and "mset (all_nodes m') = mset (all_nodes m)"
  shows "distinct (map node_key (all_nodes m'))" and "map_view m' = map_view m"
proof -
  show d: "distinct (map node_key (all_nodes m'))"
    using assms distinct_keys_mset [of "all_nodes m'" "all_nodes m"] by simp
  have "set (all_nodes m') = set (all_nodes m)" using assms(2) by (rule mset_eq_setD)
  then show "map_view m' = map_view m"
    by (intro ext option_eq_by_Some) (simp add: map_view_Some d assms(1))
qed

lemma map_view_add_node:
  assumes d: "distinct (map node_key (all_nodes m))" and new: "map_view m (node_key n) = None"
    and nodes: "mset (all_nodes m') = add_mset n (mset (all_nodes m))"
  shows "distinct (map node_key (all_nodes m'))"
    and "map_view m' = (map_view m)(node_key n \<mapsto> node_value n)"
proof -
  have keys: "\<forall>x \<in> set (all_nodes m). node_key x \<noteq> node_key n"
    using new by (simp add: map_view_None key_notin)
  show d': "distinct (map node_key (all_nodes m'))"
    using distinct_keys_mset [of "all_nodes m'" "n # all_nodes m"] nodes d keys by (simp add: key_notin)
  have "set (all_nodes m') = insert n (set (all_nodes m))"
    using mset_eq_setD [of "all_nodes m'" "n # all_nodes m"] nodes by simp
  then show "map_view m' = (map_view m)(node_key n \<mapsto> node_value n)"
    using keys
    by (intro ext option_eq_by_Some) (auto simp: map_view_Some d d')
qed

lemma map_view_replace_node:
  assumes d: "distinct (map node_key (all_nodes m))" and old: "n \<in> set (all_nodes m)"
    and key: "node_key n' = node_key n"
    and nodes: "add_mset n (mset (all_nodes m')) = add_mset n' (mset (all_nodes m))"
  shows "distinct (map node_key (all_nodes m'))"
    and "map_view m' = (map_view m)(node_key n \<mapsto> node_value n')"
proof -
  obtain ms where ms: "mset (all_nodes m) = mset (n # ms)"
    using old by (metis insert_DiffM set_mset_mset ex_mset mset.simps(2))
  then have ms': "mset (all_nodes m') = mset (n' # ms)"
    using nodes by simp
  show d': "distinct (map node_key (all_nodes m'))"
    using distinct_keys_mset [of "all_nodes m'" "all_nodes m"] ms ms' d key by simp
  have "distinct (map node_key (n # ms))"
    using distinct_keys_mset [of "n # ms" "all_nodes m"] ms d by simp
  then have "\<forall>x \<in> set ms. node_key x \<noteq> node_key n" by (simp add: key_notin)
  then show "map_view m' = (map_view m)(node_key n \<mapsto> node_value n')"
    using key mset_eq_setD [OF ms] mset_eq_setD [OF ms']
    by (intro ext option_eq_by_Some) (auto simp: map_view_Some d d')
qed

lemma map_view_remove_node:
  assumes d: "distinct (map node_key (all_nodes m))"
    and nodes: "add_mset n (mset (all_nodes m')) = mset (all_nodes m)"
  shows "distinct (map node_key (all_nodes m'))"
    and "map_view m' = (map_view m)(node_key n := None)"
proof -
  have ms: "mset (all_nodes m) = mset (n # all_nodes m')" using nodes by simp
  have "distinct (map node_key (n # all_nodes m'))"
    using distinct_keys_mset [of "n # all_nodes m'" "all_nodes m"] nodes d by simp
  then have d': "distinct (map node_key (all_nodes m'))"
    and keys: "\<forall>x \<in> set (all_nodes m'). node_key x \<noteq> node_key n" by (simp_all add: key_notin)
  show "distinct (map node_key (all_nodes m'))" by (rule d')
  show "map_view m' = (map_view m)(node_key n := None)"
    using keys mset_eq_setD [OF ms]
    by (intro ext option_eq_by_Some) (auto simp: map_view_Some d d')
qed

section \<open>The table as a finite map\<close>

text \<open>What the table relies on: on the keys in use, the comparison decides equality.\<close>

locale hash_keys =
  fixes cmp :: "u8 list \<Rightarrow> u8 list \<Rightarrow> nat \<Rightarrow> int" and ksz :: nat and valid :: "u8 list \<Rightarrow> bool"
  assumes cmp_eq: "valid a \<Longrightarrow> valid b \<Longrightarrow> cmp a b ksz = 0 \<longleftrightarrow> a = b"
begin

lemma find_in_chain_correct:
  assumes "cmp_fn m = cmp" and "ksize m = ksz" and "valid key"
    and "\<forall>n \<in> set chain. valid (node_key n) \<and> node_hash n = hash_fn m (node_key n) ksz"
  shows "case find_in_chain m (hash_fn m key ksz) key chain p of
      None \<Rightarrow> key \<notin> node_key ` set chain
    | Some q \<Rightarrow> p \<le> q \<and> q - p < length chain \<and> node_key (chain ! (q - p)) = key"
  using assms(4)
proof (induction chain arbitrary: p)
  case (Cons n ns)
  show ?case
  proof (cases "node_key n = key")
    case True
    then show ?thesis using assms(1-3) Cons.prems cmp_eq [of key key] by simp
  next
    case False
    then have "\<not> (node_hash n = hash_fn m key ksz \<and> cmp (node_key n) key ksz = 0)"
      using cmp_eq [of "node_key n" key] assms(3) Cons.prems by simp
    then have step: "find_in_chain m (hash_fn m key ksz) key (n # ns) p =
        find_in_chain m (hash_fn m key ksz) key ns (p + 1)"
      using assms(1,2) by auto
    show ?thesis
    proof (cases "find_in_chain m (hash_fn m key ksz) key ns (p + 1)")
      case None
      then show ?thesis using Cons.IH [of "p + 1"] Cons.prems step False by simp
    next
      case (Some q)
      then have "p + 1 \<le> q" "q - (p + 1) < length ns" "node_key (ns ! (q - (p + 1))) = key"
        using Cons.IH [of "p + 1"] Cons.prems by simp_all
      moreover have "q - p = Suc (q - (p + 1))" using \<open>p + 1 \<le> q\<close> by simp
      ultimately show ?thesis using step Some by simp
    qed
  qed
qed simp

text \<open>A lookup finds the node of its key, in the bucket of the key's hash.\<close>

lemma map_getref_correct:
  assumes ok: "map_ok valid m" and m: "cmp_fn m = cmp" "ksize m = ksz" and key: "valid key"
  obtains (absent) "map_getref m key = Some None" "map_view m key = None"
    | (present) i p where "map_getref m key = Some (Some (i, p))" "i < nbuckets m"
        "p < length (bucket_list m ! i)" "node_key (bucket_list m ! i ! p) = key"
        "bucket_list m ! i ! p \<in> set (all_nodes m)"
proof (cases "nbuckets m = 0")
  case True
  then have "all_nodes m = []" using ok placed_empty by (auto simp: map_ok_def)
  then show thesis
    using absent True by (simp add: map_getref_def map_view_None)
next
  case False
  have p: "placed m" using ok by (simp add: map_ok_def)
  note b = placed_buckets [OF p False]
  let ?h = "hash_fn m key ksz"
  let ?i = "map_bucketidx m ?h"
  have i: "?i < nbuckets m" using p False by (rule placed_bucketidx)
  have sub: "set (bucket_list m ! ?i) \<subseteq> set (all_nodes m)"
    using p i by (rule bucket_subset)
  have chain: "\<forall>n \<in> set (bucket_list m ! ?i). valid (node_key n)
      \<and> node_hash n = hash_fn m (node_key n) ksz"
    using placed_node [OF p i] sub ok m(2) by (auto simp: map_ok_def)
  have ref: "map_getref m key =
      Some (map_option (\<lambda>p. (?i, p)) (find_in_chain m ?h key (bucket_list m ! ?i) 0))"
    using b i False m(2) by (simp add: map_getref_def mem_simps Let_def)
  note find = find_in_chain_correct [OF m key chain, of 0]
  show thesis
  proof (cases "find_in_chain m ?h key (bucket_list m ! ?i) 0")
    case None
    have "key \<notin> node_key ` set (all_nodes m)"
    proof
      assume "key \<in> node_key ` set (all_nodes m)"
      then obtain n where n: "n \<in> set (all_nodes m)" "node_key n = key" by auto
      obtain j where j: "j < nbuckets m" "n \<in> set (bucket_list m ! j)"
        using p n(1) by (rule all_nodes_bucket)
      then have "j = ?i" using placed_node [OF p j] n(2) m(2) by auto
      with find None j(2) n(2) show False by auto
    qed
    then show thesis
      using absent ref None by (simp add: map_view_None)
  next
    case (Some q)
    then have q: "q < length (bucket_list m ! ?i)" "node_key (bucket_list m ! ?i ! q) = key"
      using find by simp_all
    have "bucket_list m ! ?i ! q \<in> set (all_nodes m)"
      using sub nth_mem [OF q(1)] by blast
    then show thesis
      using present [of ?i q] ref Some i q by simp
  qed
qed

lemma map_get_correct:
  assumes ok: "map_ok valid m" and m: "cmp_fn m = cmp" "ksize m = ksz" and key: "valid key"
  shows "map_get m key = Some (map_view m key)"
proof (rule map_getref_correct [OF assms])
  assume "map_getref m key = Some None" "map_view m key = None"
  then show ?thesis by (simp add: map_get_def)
next
  fix i p
  assume r: "map_getref m key = Some (Some (i, p))" "i < nbuckets m"
    "p < length (bucket_list m ! i)" "node_key (bucket_list m ! i ! p) = key"
    "bucket_list m ! i ! p \<in> set (all_nodes m)"
  have d: "distinct (map node_key (all_nodes m))" and pl: "placed m"
    using ok by (simp_all add: map_ok_def)
  have "map_view m key = Some (node_value (bucket_list m ! i ! p))"
    using r(4,5) by (auto simp: map_view_Some [OF d])
  then show ?thesis
    using r placed_buckets [OF pl] by (simp add: map_get_def node_at_def mem_simps)
qed

lemma map_set_present:
  assumes ok: "map_ok valid m" and r: "map_getref m key = Some (Some (i, p))" "i < nbuckets m"
    "p < length (bucket_list m ! i)" "node_key (bucket_list m ! i ! p) = key"
    "bucket_list m ! i ! p \<in> set (all_nodes m)"
  obtains m' where "map_set m key v s = Some (0, m', s)" "map_ok valid m'" "same_table m m'"
    "map_view m' = (map_view m)(key \<mapsto> v)"
proof -
  let ?c = "bucket_list m ! i" and ?n = "bucket_list m ! i ! p"
  let ?n' = "?n\<lparr>node_value := v\<rparr>"
  let ?m = "m\<lparr>buckets := Some ((bucket_list m)[i := ?c[p := ?n']])\<rparr>"
  have pl: "placed m" and d: "distinct (map node_key (all_nodes m))"
    using ok by (simp_all add: map_ok_def)
  note b = placed_buckets [OF pl, OF gr_implies_not_zero [OF r(2)]]
  have "map_bucketidx m (node_hash n) = i \<and> node_hash n = hash_fn m (node_key n) (ksize m)"
    if "n \<in> set (?c[p := ?n'])" for n
  proof -
    have "n = ?n' \<or> n \<in> set ?c"
      using that set_update_subset_insert [of ?c p ?n'] by blast
    then show ?thesis
      using placed_node [OF pl r(2), of ?n] placed_node [OF pl r(2), of n] r(3)
      by (elim disjE) auto
  qed
  note upd = placed_set_chain [OF pl r(2), where c = "?c[p := ?n']", OF this]
  have swap: "add_mset ?n (mset (?c[p := ?n'])) = add_mset ?n' (mset ?c)"
    using r(3) by (simp add: mset_update)
  have "add_mset ?n (mset (all_nodes ?m)) + mset ?c =
      mset (all_nodes m) + add_mset ?n (mset (?c[p := ?n']))"
    using upd(3) by simp
  also have "\<dots> = add_mset ?n' (mset (all_nodes m)) + mset ?c"
    unfolding swap by simp
  finally have nodes: "add_mset ?n (mset (all_nodes ?m)) = add_mset ?n' (mset (all_nodes m))"
    by simp
  have key: "node_key ?n' = node_key ?n" by simp
  note view = map_view_replace_node [OF d r(5) key nodes]
  have "length (all_nodes ?m) = length (all_nodes m)"
    using arg_cong [OF nodes, of size] by simp
  moreover have "valid (node_key n)" if "n \<in> set (all_nodes ?m)" for n
  proof -
    have "n \<in># add_mset ?n' (mset (all_nodes m))"
      using that by (simp flip: nodes)
    then show ?thesis using ok r(5) by (auto simp: map_ok_def)
  qed
  ultimately have "map_ok valid ?m"
    using ok upd(2) view(1) by (simp add: map_ok_def)
  moreover have "map_set m key v s = Some (0, ?m, s)"
    using r b upd(1) by (simp add: map_set_def mem_simps)
  ultimately show thesis
    using that view(2) r(4) by simp
qed

lemma map_set_correct:
  assumes ok: "map_ok valid m" and m: "cmp_fn m = cmp" "ksize m = ksz" and key: "valid key"
    and room: "nbuckets m < 2 ^ 30"
  obtains r m' s' where "map_set m key v s = Some (r, m', s')" "map_ok valid m'"
    "cmp_fn m' = cmp" "ksize m' = ksz" "nbuckets m' \<le> max (nbuckets m) (max 1 (2 * nnodes m))" "nnodes m' \<le> Suc (nnodes m)"
    "r = 0 \<and> map_view m' = (map_view m)(key \<mapsto> v)
     \<or> r = -1 \<and> map_view m' = map_view m \<and> map_view m key = None"
    "(\<exists>g1 g2 s1. s = Some g1 # Some g2 # s1) \<longrightarrow> r = 0"
proof (rule map_getref_correct [OF ok m key])
  fix i p
  assume r: "map_getref m key = Some (Some (i, p))" "i < nbuckets m"
    "p < length (bucket_list m ! i)" "node_key (bucket_list m ! i ! p) = key"
    "bucket_list m ! i ! p \<in> set (all_nodes m)"
  obtain m' where "map_set m key v s = Some (0, m', s)" "map_ok valid m'" "same_table m m'"
      "map_view m' = (map_view m)(key \<mapsto> v)"
    using ok r by (rule map_set_present)
  then show thesis
    using that [of 0 m' s] m by (simp add: same_table_def)
next
  assume absent: "map_getref m key = Some None" "map_view m key = None"
  have pl: "placed m" and d: "distinct (map node_key (all_nodes m))"
    and nn: "nnodes m = length (all_nodes m)" "nnodes m \<le> nbuckets m"
    using ok by (simp_all add: map_ok_def)
  show thesis
  proof (cases s)
    case Nil
    then show thesis
      using that [of "-1" m "[]"] absent ok m by (simp add: map_set_def map_newnode_def)
  next
    case (Cons a s1)
    show thesis
    proof (cases a)
      case None
      then show thesis
        using that [of "-1" m s1] absent ok m Cons by (simp add: map_set_def map_newnode_def)
    next
      case (Some u)
      define node where
        "node = \<lparr>node_hash = hash_fn m key (ksize m), node_key = key, node_value = v\<rparr>"
      have new: "map_newnode m key v s = (Some node, s1)"
        using Cons Some by (simp add: map_newnode_def node_def)
      define grown where "grown = (if nnodes m \<ge> nbuckets m
          then map_resize m (if nbuckets m > 0 then 2 * nbuckets m mod UINT_MOD else 1) s1
          else Some (0, m, s1))"
      obtain err m1 s2 where g: "grown = Some (err, m1, s2)" "placed m1"
          "mset (all_nodes m1) = mset (all_nodes m)" "nnodes m1 = nnodes m" "ksize m1 = ksize m"
          "hash_fn m1 = hash_fn m" "cmp_fn m1 = cmp_fn m"
          "err = 0 \<and> nnodes m < nbuckets m1 \<or> err = -1" "nbuckets m1 \<le> max (nbuckets m) (max 1 (2 * nnodes m))"
          "nnodes m \<le> nbuckets m1" "(\<exists>g s'. s1 = Some g # s') \<longrightarrow> err = 0"
      proof (cases "nnodes m \<ge> nbuckets m")
        case False
        then show thesis using that [of 0 m s1] pl by (simp add: grown_def)
      next
        case True
        obtain k where k: "k \<le> 30" "(if nbuckets m > 0 then 2 * nbuckets m mod UINT_MOD else 1) = 2 ^ k"
            "(2::nat) ^ k = max 1 (2 * nbuckets m)"
        proof (cases "nbuckets m = 0")
          case True
          then show thesis using that [of 0] by simp
        next
          case False
          then obtain j where j: "nbuckets m = 2 ^ j" "j \<le> 30"
            using pl by (auto simp: placed_def)
          with room have "(2::nat) ^ j < 2 ^ 30" by simp
          then have "j < 30" by (simp only: power_strict_increasing_iff)
          then show thesis using that [of "Suc j"] j room by simp
        qed
        obtain r' m' s' where re: "map_resize m (2 ^ k) s1 = Some (r', m', s')" "placed m'"
            "mset (all_nodes m') = mset (all_nodes m)" "nnodes m' = nnodes m" "ksize m' = ksize m"
            "hash_fn m' = hash_fn m" "cmp_fn m' = cmp_fn m"
            "r' = 0 \<and> nbuckets m' = 2 ^ k \<or> r' = -1 \<and> nbuckets m' = nbuckets m"
            "fst (sys_alloc s1) \<noteq> None \<longrightarrow> r' = 0"
          by (rule map_resize_correct [OF pl k(1), of s1])
        have gr: "grown = Some (r', m', s')"
          using re(1) k(2) True by (simp add: grown_def)
        show thesis
          by (rule that [OF gr re(2-7)]) (use re(8,9) k(3) nn True in auto)
      qed
      note same = map_view_same_nodes [OF d g(3)]
      have run: "map_set m key v s = (if err \<noteq> 0 then Some (-1, m1, s2)
          else Option.bind (map_addnode m1 node)
            (\<lambda>m2. Some (0, m2\<lparr>nnodes := (nnodes m2 + 1) mod UINT_MOD\<rparr>, s2)))"
        using absent(1) new g(1) by (simp add: map_set_def flip: grown_def)
      have len: "length (all_nodes m1) = length (all_nodes m)"
        using g(3) by (rule mset_eq_length)
      have granted: "(\<exists>g1 g2 s1. s = Some g1 # Some g2 # s1) \<longrightarrow> err = 0"
        using g(11) Cons by auto
      show thesis
      proof (cases "err = 0")
        case False
        have "map_ok valid m1"
          using ok g(2,4,10) same(1) len mset_eq_setD [OF g(3)] by (simp add: map_ok_def)
        then show thesis
          using that [of "-1" m1 s2] run False same(2) absent(2) g(4,5,7,9) m granted by simp
      next
        case True
        then have nb: "nbuckets m1 \<noteq> 0" using g(8) by auto
        have hash: "node_hash node = hash_fn m1 (node_key node) (ksize m1)"
          by (simp add: node_def g(5,6))
        obtain m2 where m2: "map_addnode m1 node = Some m2" "placed m2" "same_table m1 m2"
            "mset (all_nodes m2) = add_mset node (mset (all_nodes m1))"
          using g(2) nb hash by (rule map_addnode_correct)
        let ?m = "m2\<lparr>nnodes := (nnodes m2 + 1) mod UINT_MOD\<rparr>"
        have nodes_eq: "all_nodes ?m = all_nodes m2" by simp
        have none: "map_view m1 (node_key node) = None"
          using absent(2) same(2) by (simp add: node_def)
        note add = map_view_add_node [OF same(1) none, of ?m, unfolded nodes_eq, OF m2(4)]
        have view: "map_view ?m = (map_view m)(key \<mapsto> v)"
          using add(2) same(2) by (simp add: node_def)
        have "length (all_nodes m2) = Suc (length (all_nodes m))"
          using arg_cong [OF m2(4), of size] len by simp
        moreover have "set (all_nodes m2) = insert node (set (all_nodes m))"
          using mset_eq_setD [of "all_nodes m2" "node # all_nodes m"] m2(4) g(3) by simp
        moreover have "placed ?m"
          using m2(2) by simp
        moreover have "Suc (nnodes m) \<le> nbuckets m1" "nbuckets m1 < UINT_MOD"
          using True g(8,9) room nn(2) by auto
        moreover have "nnodes m2 = nnodes m" "nbuckets m2 = nbuckets m1"
          using m2(3) g(4) by (simp_all add: same_table_def)
        moreover have "\<forall>n \<in> insert node (set (all_nodes m)). valid (node_key n)"
          using ok key by (simp add: map_ok_def node_def)
        ultimately have "map_ok valid ?m"
          using nn(1) add(1) by (simp add: map_ok_def nodes_eq)
        then show thesis
          using that [of 0 ?m s2] run True m2(1,3) g(4,5,7,9) m view mod_less_eq_dividend [of "Suc (nnodes m)" UINT_MOD]
          by (simp add: same_table_def)
      qed
    qed
  qed
qed

lemma map_remove_correct:
  assumes ok: "map_ok valid m" and m: "cmp_fn m = cmp" "ksize m = ksz" and key: "valid key"
  obtains m' where "map_remove m key = Some m'" "map_ok valid m'" "cmp_fn m' = cmp"
    "ksize m' = ksz" "nbuckets m' = nbuckets m" "map_view m' = (map_view m)(key := None)"
proof (rule map_getref_correct [OF ok m key])
  assume "map_getref m key = Some None" "map_view m key = None"
  then show thesis
    using that [of m] ok m by (simp add: map_remove_def fun_upd_idem)
next
  fix i p
  assume r: "map_getref m key = Some (Some (i, p))" "i < nbuckets m"
    "p < length (bucket_list m ! i)" "node_key (bucket_list m ! i ! p) = key"
    "bucket_list m ! i ! p \<in> set (all_nodes m)"
  let ?c = "bucket_list m ! i" and ?n = "bucket_list m ! i ! p"
  let ?c' = "take p ?c @ drop (p + 1) ?c"
  let ?m1 = "m\<lparr>buckets := Some ((bucket_list m)[i := ?c'])\<rparr>"
  let ?m = "?m1\<lparr>nnodes := nnodes m - 1\<rparr>"
  have pl: "placed m" and d: "distinct (map node_key (all_nodes m))"
    and nn: "nnodes m = length (all_nodes m)" "nnodes m \<le> nbuckets m"
    using ok by (simp_all add: map_ok_def)
  note b = placed_buckets [OF pl, OF gr_implies_not_zero [OF r(2)]]
  have "map_bucketidx m (node_hash n) = i \<and> node_hash n = hash_fn m (node_key n) (ksize m)"
    if "n \<in> set ?c'" for n
    using that by (intro placed_node [OF pl r(2)]) (auto dest: in_set_takeD in_set_dropD)
  note upd = placed_set_chain [OF pl r(2), where c = "?c'", OF this]
  have chain: "add_mset ?n (mset ?c') = mset ?c"
    using id_take_nth_drop [OF r(3)] by (metis mset_append mset.simps(2) union_mset_add_mset_right Suc_eq_plus1)
  have "add_mset ?n (mset (all_nodes ?m1)) + mset ?c = mset (all_nodes m) + add_mset ?n (mset ?c')"
    using upd(3) by simp
  then have nodes: "add_mset ?n (mset (all_nodes ?m1)) = mset (all_nodes m)"
    unfolding chain by simp
  note view = map_view_remove_node [OF d nodes]
  have "length (all_nodes ?m1) = length (all_nodes m) - 1"
    using arg_cong [OF nodes, of size] by simp
  moreover have "valid (node_key n)" if "n \<in> set (all_nodes ?m1)" for n
  proof -
    have "n \<in># mset (all_nodes m)" using that by (simp flip: nodes)
    then show ?thesis using ok by (auto simp: map_ok_def)
  qed
  ultimately have "map_ok valid ?m"
    using nn upd(2) view(1) by (simp add: map_ok_def)
  moreover have "map_remove m key = Some ?m"
    using r b upd(1) by (simp add: map_remove_def mem_simps)
  ultimately show thesis
    using that [of ?m] m view(2) r(4) by simp
qed

end

section \<open>Iteration\<close>

text \<open>The nodes an iterator has yet to deliver.\<close>

definition remaining :: "'v map_base \<Rightarrow> map_iter \<Rightarrow> 'v map_node list" where
  "remaining m it =
     (case mi_node it of
        Some p \<Rightarrow> drop (p + 1) (bucket_list m ! mi_bucketidx it)
                    @ concat (drop (mi_bucketidx it + 1) (bucket_list m))
      | None \<Rightarrow> concat (drop ((mi_bucketidx it + 1) mod UINT_MOD) (bucket_list m)))"

definition iter_ok :: "'v map_base \<Rightarrow> map_iter \<Rightarrow> bool" where
  "iter_ok m it \<longleftrightarrow>
     (\<forall>p. mi_node it = Some p \<longrightarrow>
        mi_bucketidx it < nbuckets m \<and> p < length (bucket_list m ! mi_bucketidx it))"

text \<open>A step delivers the first of the nodes \<open>ns\<close> and leaves the rest, or ends.\<close>

definition delivers ::
  "'v map_base \<Rightarrow> 'v map_node list \<Rightarrow> (u8 list option \<times> map_iter) option \<Rightarrow> bool" where
  "delivers m ns r \<longleftrightarrow>
     (case ns of [] \<Rightarrow> \<exists>it. r = Some (None, it)
      | n # rest \<Rightarrow> \<exists>it. r = Some (Some (node_key n), it) \<and> iter_ok m it \<and> remaining m it = rest)"

lemma delivers_simps [simp]:
  "delivers m [] r \<longleftrightarrow> (\<exists>it. r = Some (None, it))"
  "delivers m (n # rest) r \<longleftrightarrow>
     (\<exists>it. r = Some (Some (node_key n), it) \<and> iter_ok m it \<and> remaining m it = rest)"
  by (simp_all add: delivers_def)

lemma next_bucket_correct:
  assumes pl: "placed m"
  shows "delivers m (concat (drop idx (bucket_list m))) (next_bucket m idx)"
proof (induction "nbuckets m - idx" arbitrary: idx rule: less_induct)
  case less
  have len: "length (bucket_list m) = nbuckets m" using pl by (simp add: placed_def)
  show ?case
  proof (cases "idx < nbuckets m")
    case False
    then show ?thesis
      using len by (subst next_bucket.simps) simp
  next
    case True
    then have b: "buckets m = Some (bucket_list m)" using placed_buckets [OF pl] by simp
    have split: "drop idx (bucket_list m) = bucket_list m ! idx # drop (idx + 1) (bucket_list m)"
      using True len by (simp add: Cons_nth_drop_Suc)
    show ?thesis
    proof (cases "bucket_list m ! idx")
      case Nil
      then have "next_bucket m idx = next_bucket m (idx + 1)"
        using True b len by (subst next_bucket.simps) (simp add: mem_simps)
      then show ?thesis
        using less [of "idx + 1"] True split Nil by simp
    next
      case (Cons n rest)
      then have "next_bucket m idx =
          Some (Some (node_key n), \<lparr>mi_bucketidx = idx, mi_node = Some 0\<rparr>)"
        using True b len by (subst next_bucket.simps) (simp add: mem_simps)
      then show ?thesis
        using True split Cons by (simp add: remaining_def iter_ok_def)
    qed
  qed
qed

lemma map_next_correct:
  assumes pl: "placed m" and it: "iter_ok m it"
  shows "delivers m (remaining m it) (map_next m it)"
proof (cases "mi_node it")
  case None
  then show ?thesis
    using next_bucket_correct [OF pl, of "(mi_bucketidx it + 1) mod UINT_MOD"]
    by (simp add: map_next_def remaining_def)
next
  case (Some p)
  let ?i = "mi_bucketidx it"
  have i: "?i < nbuckets m" "p < length (bucket_list m ! ?i)" using it Some by (auto simp: iter_ok_def)
  have len: "length (bucket_list m) = nbuckets m" using pl by (simp add: placed_def)
  have b: "buckets m = Some (bucket_list m)" using placed_buckets [OF pl] i by simp
  obtain k where "k \<le> 30" "nbuckets m = 2 ^ k" using pl i by (auto simp: placed_def)
  then have "nbuckets m \<le> 2 ^ 30" using power_increasing [of k 30 "2::nat"] by simp
  then have wrap: "(?i + 1) mod UINT_MOD = ?i + 1" using i by simp
  show ?thesis
  proof (cases "p + 1 < length (bucket_list m ! ?i)")
    case True
    then have "drop (p + 1) (bucket_list m ! ?i) =
        bucket_list m ! ?i ! (p + 1) # drop (p + 2) (bucket_list m ! ?i)"
      by (simp add: Cons_nth_drop_Suc)
    then show ?thesis
      using True Some b len i
      by (simp add: map_next_def remaining_def iter_ok_def mem_simps)
  next
    case False
    then have "map_next m it = next_bucket m (?i + 1)"
      using Some b len i wrap by (simp add: map_next_def mem_simps)
    then show ?thesis
      using next_bucket_correct [OF pl, of "?i + 1"] False Some by (simp add: remaining_def)
  qed
qed

lemma map_walk_correct:
  "placed m \<Longrightarrow> iter_ok m it \<Longrightarrow> length (remaining m it) < fuel \<Longrightarrow>
   map_walk fuel m it = Some (map node_key (remaining m it))"
proof (induction fuel arbitrary: it)
  case (Suc fuel)
  note nx = map_next_correct [OF Suc.prems(1,2)]
  show ?case
  proof (cases "remaining m it")
    case Nil
    then show ?thesis using nx by auto
  next
    case (Cons n rest)
    then obtain it' where "map_next m it = Some (Some (node_key n), it')" "iter_ok m it'"
        "remaining m it' = rest"
      using nx by auto
    then show ?thesis
      using Suc.IH [of it'] Suc.prems Cons by simp
  qed
qed simp

lemma iter_new: "iter_ok m map_iter_new" "remaining m map_iter_new = all_nodes m"
  by (simp_all add: iter_ok_def remaining_def map_iter_new_def all_nodes_def)

lemma free_buckets_mset:
  "n \<le> length bs \<Longrightarrow>
   \<exists>ns. free_buckets n bs = Some ns \<and> mset ns = mset (concat (take n bs))"
proof (induction n)
  case (Suc n)
  then obtain ns where "free_buckets n bs = Some ns" "mset ns = mset (concat (take n bs))"
    by auto
  then show ?case
    using Suc.prems by (auto simp: mem_simps take_Suc_conv_app_nth)
qed simp

section \<open>The two kinds of keys\<close>

definition str_key :: "u8 list \<Rightarrow> bool" where
  "str_key key \<longleftrightarrow> 0 \<notin> set key"

definition mem_key :: "nat \<Rightarrow> u8 list \<Rightarrow> bool" where
  "mem_key ksz key \<longleftrightarrow> length key = ksz"

interpretation str: hash_keys map_cmp_str ksz str_key
  by unfold_locales (simp add: map_cmp_str_def str_key_def c_string_id c_strcmp_eq_0)

interpretation mem: hash_keys map_cmp_mem ksz "mem_key ksz"
  by unfold_locales (simp add: map_cmp_mem_def mem_key_def c_strcmp_mem_eq_0)

lemma map_init_ok:
  "map_ok valid (map_init_generic ksz hf cf)" "map_view (map_init_generic ksz hf cf) = Map.empty"
  by (simp_all add: map_ok_def map_init_generic_def placed_def bucket_list_def all_nodes_def
      map_view_def)

section \<open>The interface of a key store\<close>

lemma map_newnode_sched: "map_newnode m k v s = (x, s') \<Longrightarrow> s' = tl s"
  by (cases s) (auto simp: map_newnode_def split: option.splits)

lemma map_resize_sched: "map_resize m n s = Some (r, m', s') \<Longrightarrow> s' = tl s"
  by (cases s) (auto simp: map_resize_def Let_def split: bind_splits)

text \<open>A store calls the allocator at most twice.\<close>

lemma map_set_sched:
  assumes "map_set m k v s = Some (r, m', s')"
  shows "s' = s \<or> s' = tl s \<or> s' = tl (tl s)"
  using assms
  by (auto simp: map_set_def split: bind_splits option.splits prod.splits if_splits
      dest!: map_newnode_sched map_resize_sched)

text \<open>A schedule in which the allocator grants the calls of \<open>n\<close> stores.\<close>

definition granted :: "nat \<Rightarrow> 'g sched \<Rightarrow> bool" where
  "granted n s \<longleftrightarrow> 2 * n \<le> length s \<and> list_all (\<lambda>x. x \<noteq> None) s"

lemma granted_Suc:
  assumes "granted (Suc n) s"
  shows "\<exists>g1 g2 s1. s = Some g1 # Some g2 # s1"
    and "s' = s \<or> s' = tl s \<or> s' = tl (tl s) \<Longrightarrow> granted n s'"
proof -
  show "\<exists>g1 g2 s1. s = Some g1 # Some g2 # s1"
    using assms by (cases s; cases "tl s") (auto simp: granted_def)
  then show "s' = s \<or> s' = tl s \<or> s' = tl (tl s) \<Longrightarrow> granted n s'"
    using assms by (auto simp: granted_def)
qed

text \<open>
  What a client relies on: a lookup sees the contents, and a store updates one key or,
  when the allocator fails on a new key, leaves the contents unchanged. \<open>room n\<close> says that
  \<open>n\<close> more keys stay below the table's growth limit.
\<close>

locale key_store =
  fixes ok :: "'m \<Rightarrow> bool" and key_ok :: "'k \<Rightarrow> bool" and room :: "nat \<Rightarrow> 'm \<Rightarrow> bool"
    and view :: "'m \<Rightarrow> 'k \<rightharpoonup> 'v" and new :: 'm
    and get :: "'m \<Rightarrow> 'k \<Rightarrow> 'v option option"
    and put :: "'m \<Rightarrow> 'k \<Rightarrow> 'v \<Rightarrow> 'g sched \<Rightarrow> (int \<times> 'm \<times> 'g sched) option"
  assumes new_ok: "ok new" and new_view: "view new = Map.empty"
    and room_less: "room (Suc n) m \<Longrightarrow> room n m"
    and get_law: "ok m \<Longrightarrow> key_ok k \<Longrightarrow> get m k = Some (view m k)"
    and put_law: "ok m \<Longrightarrow> key_ok k \<Longrightarrow> room (Suc n) m \<Longrightarrow>
      \<exists>r m' s'. put m k v s = Some (r, m', s') \<and> ok m' \<and> room n m' \<and>
        (s' = s \<or> s' = tl s \<or> s' = tl (tl s)) \<and>
        ((\<exists>g1 g2 s1. s = Some g1 # Some g2 # s1) \<longrightarrow> r = 0) \<and>
        (r = 0 \<and> view m' = (view m)(k \<mapsto> v) \<or> r = -1 \<and> view m' = view m \<and> view m k = None)"
begin

text \<open>After a store, the stored key reads back and every other key reads as before.\<close>

lemma put_get:
  assumes "ok m" and "key_ok k" and "room (Suc n) m" and "put m k v s = Some (0, m', s')"
    and "key_ok k'"
  shows "get m' k' = Some (if k' = k then Some v else view m k')"
  using put_law [OF assms(1-3), of v s] assms(4,5) get_law [of m' k'] by auto

end

definition str_map_ok :: "nat \<Rightarrow> 'v map_base \<Rightarrow> bool" where
  "str_map_ok ksz m \<longleftrightarrow> map_ok str_key m \<and> cmp_fn m = map_cmp_str \<and> ksize m = ksz"

definition map_room :: "nat \<Rightarrow> 'v map_base \<Rightarrow> bool" where
  "map_room n m \<longleftrightarrow> nbuckets m < 2 ^ 30 \<and> nnodes m + n < 2 ^ 29"

interpretation str_store: key_store "str_map_ok ksz" str_key map_room map_view
  "map_init_generic ksz map_hash_str map_cmp_str" map_get map_set
proof
  show "str_map_ok ksz (map_init_generic ksz map_hash_str map_cmp_str)"
    and "map_view (map_init_generic ksz map_hash_str map_cmp_str) = Map.empty"
    by (simp_all add: str_map_ok_def map_init_ok) (simp_all add: map_init_generic_def)
  fix m :: "'v map_base" and k v s n
  show "map_room (Suc n) m \<Longrightarrow> map_room n m"
    by (simp add: map_room_def)
  assume ok: "str_map_ok ksz m" and k: "str_key k"
  then show "map_get m k = Some (map_view m k)"
    by (auto simp: str_map_ok_def intro: str.map_get_correct)
  assume room: "map_room (Suc n) m"
  have m: "map_ok str_key m" "cmp_fn m = map_cmp_str" "ksize m = ksz" and small: "nbuckets m < 2 ^ 30"
    using ok room by (simp_all add: str_map_ok_def map_room_def)
  obtain r m' s' where set: "map_set m k v s = Some (r, m', s')" "map_ok str_key m'"
    "cmp_fn m' = map_cmp_str" "ksize m' = ksz"
    "nbuckets m' \<le> max (nbuckets m) (max 1 (2 * nnodes m))" "nnodes m' \<le> Suc (nnodes m)"
    "r = 0 \<and> map_view m' = (map_view m)(k \<mapsto> v)
     \<or> r = -1 \<and> map_view m' = map_view m \<and> map_view m k = None"
    "(\<exists>g1 g2 s1. s = Some g1 # Some g2 # s1) \<longrightarrow> r = 0"
    by (rule str.map_set_correct [OF m k small, of v s])
  have "map_room n m'"
    using set(5,6) room by (auto simp: map_room_def)
  then show "\<exists>r m' s'. map_set m k v s = Some (r, m', s') \<and> str_map_ok ksz m' \<and> map_room n m' \<and>
      (s' = s \<or> s' = tl s \<or> s' = tl (tl s)) \<and>
      ((\<exists>g1 g2 s1. s = Some g1 # Some g2 # s1) \<longrightarrow> r = 0) \<and>
      (r = 0 \<and> map_view m' = (map_view m)(k \<mapsto> v)
       \<or> r = -1 \<and> map_view m' = map_view m \<and> map_view m k = None)"
    using set map_set_sched [OF set(1)] by (auto simp: str_map_ok_def)
qed

section \<open>Properties\<close>

text \<open>
  C3: with string keys, a lookup returns the value last stored under the key; a store
  returns, keeps the table's invariant and updates exactly its key; it fails only when
  the allocator fails on a new key, and then changes nothing; a removal deletes exactly
  its key. The table may hold up to \<open>2 ^ 30\<close> buckets.
\<close>

theorem map_str_refines:
  assumes "map_ok str_key m" and "cmp_fn m = map_cmp_str" and "str_key key"
  shows "map_get m key = Some (map_view m key)
    \<and> (nbuckets m < 2 ^ 30 \<longrightarrow>
        (\<exists>r m' s'. map_set m key v s = Some (r, m', s') \<and> map_ok str_key m' \<and> cmp_fn m' = map_cmp_str
          \<and> (r = 0 \<and> map_view m' = (map_view m)(key \<mapsto> v)
             \<or> r = -1 \<and> map_view m' = map_view m \<and> map_view m key = None)
          \<and> ((\<exists>g1 g2 s1. s = Some g1 # Some g2 # s1) \<longrightarrow> r = 0)))
    \<and> (\<exists>m'. map_remove m key = Some m' \<and> map_ok str_key m' \<and> cmp_fn m' = map_cmp_str
        \<and> map_view m' = (map_view m)(key := None))"
proof (intro conjI impI)
  show "map_get m key = Some (map_view m key)"
    using assms(1,2) refl assms(3) by (rule str.map_get_correct)
  show "\<exists>r m' s'. map_set m key v s = Some (r, m', s') \<and> map_ok str_key m' \<and> cmp_fn m' = map_cmp_str
          \<and> (r = 0 \<and> map_view m' = (map_view m)(key \<mapsto> v)
             \<or> r = -1 \<and> map_view m' = map_view m \<and> map_view m key = None)
          \<and> ((\<exists>g1 g2 s1. s = Some g1 # Some g2 # s1) \<longrightarrow> r = 0)" if "nbuckets m < 2 ^ 30"
    by (rule str.map_set_correct [OF assms(1,2) refl assms(3) that, of v s]) blast
  show "\<exists>m'. map_remove m key = Some m' \<and> map_ok str_key m' \<and> cmp_fn m' = map_cmp_str
        \<and> map_view m' = (map_view m)(key := None)"
    by (rule str.map_remove_correct [OF assms(1,2) refl assms(3)]) blast
qed

theorem map_str_refines_witness:
  "\<exists>m' s'. map_set (map_init_generic 8 map_hash_str map_cmp_str) [0x61] True [Some (), Some ()]
     = Some (0, m', s') \<and> map_view m' [0x61] = Some True"
proof -
  let ?m = "map_init_generic 8 map_hash_str map_cmp_str :: bool map_base"
  have "map_ok str_key ?m" by (rule map_init_ok)
  moreover have "cmp_fn ?m = map_cmp_str" "nbuckets ?m < 2 ^ 30" by (simp_all add: map_init_generic_def)
  moreover have "str_key [0x61]" by (simp add: str_key_def)
  ultimately show ?thesis
    using map_str_refines [of ?m "[0x61]" True "[Some (), Some ()]"] by fastforce
qed

text \<open>
  The same for keys of a fixed size compared byte by byte, as the numeric, boolean
  and floating-point tables use them.
\<close>

theorem map_mem_refines:
  assumes "map_ok (mem_key (ksize m)) m" and "cmp_fn m = map_cmp_mem" and "length key = ksize m"
  shows "map_get m key = Some (map_view m key)
    \<and> (nbuckets m < 2 ^ 30 \<longrightarrow>
        (\<exists>r m' s'. map_set m key v s = Some (r, m', s') \<and> map_ok (mem_key (ksize m)) m'
          \<and> cmp_fn m' = map_cmp_mem \<and> ksize m' = ksize m
          \<and> (r = 0 \<and> map_view m' = (map_view m)(key \<mapsto> v)
             \<or> r = -1 \<and> map_view m' = map_view m \<and> map_view m key = None)
          \<and> ((\<exists>g1 g2 s1. s = Some g1 # Some g2 # s1) \<longrightarrow> r = 0)))
    \<and> (\<exists>m'. map_remove m key = Some m' \<and> map_ok (mem_key (ksize m)) m'
        \<and> cmp_fn m' = map_cmp_mem \<and> ksize m' = ksize m
        \<and> map_view m' = (map_view m)(key := None))"
proof (intro conjI impI)
  have key: "mem_key (ksize m) key" using assms(3) by (simp add: mem_key_def)
  show "map_get m key = Some (map_view m key)"
    using assms(1,2) refl key by (rule mem.map_get_correct)
  show "\<exists>r m' s'. map_set m key v s = Some (r, m', s') \<and> map_ok (mem_key (ksize m)) m'
          \<and> cmp_fn m' = map_cmp_mem \<and> ksize m' = ksize m
          \<and> (r = 0 \<and> map_view m' = (map_view m)(key \<mapsto> v)
             \<or> r = -1 \<and> map_view m' = map_view m \<and> map_view m key = None)
          \<and> ((\<exists>g1 g2 s1. s = Some g1 # Some g2 # s1) \<longrightarrow> r = 0)" if "nbuckets m < 2 ^ 30"
    by (rule mem.map_set_correct [OF assms(1,2) refl key that, of v s]) blast
  show "\<exists>m'. map_remove m key = Some m' \<and> map_ok (mem_key (ksize m)) m'
        \<and> cmp_fn m' = map_cmp_mem \<and> ksize m' = ksize m
        \<and> map_view m' = (map_view m)(key := None)"
    by (rule mem.map_remove_correct [OF assms(1,2) refl key]) blast
qed

theorem map_mem_refines_witness:
  "\<exists>m' s'. map_set (map_init_generic 2 map_hash_i16 map_cmp_mem) [0xFF, 0x00] True
     [Some (), Some ()] = Some (0, m', s') \<and> map_view m' [0xFF, 0x00] = Some True"
proof -
  let ?m = "map_init_generic 2 map_hash_i16 map_cmp_mem :: bool map_base"
  have "map_ok (mem_key (ksize ?m)) ?m" by (rule map_init_ok)
  moreover have "cmp_fn ?m = map_cmp_mem" "nbuckets ?m < 2 ^ 30" "ksize ?m = 2"
    by (simp_all add: map_init_generic_def)
  ultimately show ?thesis
    using map_mem_refines [of ?m "[0xFF, 0x00]" True "[Some (), Some ()]"] by fastforce
qed

text \<open>
  C10: iterating from a new iterator ends within one step more than there are entries
  and delivers every key of the table exactly once; deinitialising frees every node
  exactly once.
\<close>

theorem map_iteration_complete:
  assumes "map_ok valid m"
  shows "(\<exists>keys. map_walk (Suc (nnodes m)) m map_iter_new = Some keys \<and> distinct keys
      \<and> set keys = dom (map_view m))
    \<and> (\<exists>ns. map_deinit m = Some ns \<and> mset ns = mset (all_nodes m))"
proof
  have pl: "placed m" and d: "distinct (map node_key (all_nodes m))"
    and nn: "nnodes m = length (all_nodes m)"
    using assms by (simp_all add: map_ok_def)
  have "map_walk (Suc (nnodes m)) m map_iter_new = Some (map node_key (all_nodes m))"
    using map_walk_correct [OF pl iter_new(1), of "Suc (nnodes m)"] nn
    by (simp add: iter_new(2) del: map_walk.simps)
  moreover have "dom (map_view m) = node_key ` set (all_nodes m)"
    by (auto simp: dom_def map_view_Some [OF d])
  ultimately show "\<exists>keys. map_walk (Suc (nnodes m)) m map_iter_new = Some keys \<and> distinct keys
      \<and> set keys = dom (map_view m)"
    using d by (simp del: map_walk.simps)
  show "\<exists>ns. map_deinit m = Some ns \<and> mset ns = mset (all_nodes m)"
    using free_buckets_mset [of "nbuckets m" "bucket_list m"] pl
    by (auto simp: map_deinit_def placed_def bucket_list_def all_nodes_def)
qed

theorem map_iteration_complete_witness:
  "\<exists>keys. map_walk 2 \<lparr>buckets = Some [[\<lparr>node_hash = 0x61, node_key = [0x61], node_value = True\<rparr>]],
      nbuckets = 1, nnodes = 1, ksize = 1, hash_fn = map_hash_u8, cmp_fn = map_cmp_mem\<rparr> map_iter_new
     = Some keys \<and> set keys = {[0x61]}"
proof -
  let ?m = "\<lparr>buckets = Some [[\<lparr>node_hash = 0x61, node_key = [0x61], node_value = True\<rparr>]],
      nbuckets = 1, nnodes = 1, ksize = 1, hash_fn = map_hash_u8, cmp_fn = map_cmp_mem\<rparr>"
  have "map_ok (mem_key 1) ?m"
    by (auto simp: map_ok_def placed_def bucket_list_def all_nodes_def map_bucketidx_def
        map_hash_u8_def mem_key_def)
  moreover have "dom (map_view ?m) = {[0x61]}"
    by (simp add: map_view_def all_nodes_def bucket_list_def node_pair_def)
  ultimately show ?thesis
    using map_iteration_complete [of "mem_key 1" ?m]
    by (auto simp: numeral_2_eq_2 simp del: map_walk.simps)
qed

end
