(* ===== verification/Context.thy ===== *)
theory Context
  imports DynList HashMap
begin

text \<open>
  Model of kernel/context/src/context.c: scopes linked to their parents. Contexts live in
  a store from addresses to records, because several children may share a parent and a
  pop writes into it. The value of a key is a \<open>void *\<close>, a number with \<open>0\<close> for NULL. A
  string argument is its characters; the code keeps the caller's pointer as the key, so
  the model supposes the caller keeps a key's characters alive and unchanged. The loops
  along the parents may meet a freed context or a cycle: they are partial functions whose
  value \<open>None\<close> is no defined result.

  The lemmas show that in a well-formed store every walk along the parents ends, a lookup
  returns the innermost binding, the hoist queue has no duplicates, a pop copies the
  hoisted bindings into the parent and changes nothing else, and every operation keeps
  the store well-formed.
\<close>

section \<open>Definitions\<close>

record ak_context =
  ctx_parent :: "nat option"
  ctx_data :: "nat map_base"
  hoist_queue :: "u8 list list_base"

type_synonym ctx_store = "nat \<rightharpoonup> ak_context"

definition new_context :: ak_context where
  "new_context = \<lparr>ctx_parent = None, ctx_data = map_init_generic 8 map_hash_str map_cmp_str,
                  hoist_queue = list_init 8\<rparr>"

definition ak_context_new :: "ctx_store \<Rightarrow> ptr_sched \<Rightarrow> nat option \<times> ctx_store \<times> ptr_sched" where
  "ak_context_new st s =
     (case alloc_cell st s of
        (None, s') \<Rightarrow> (None, st, s')
      | (Some c, s') \<Rightarrow> (Some c, st(c \<mapsto> new_context), s'))"

definition ak_context_push ::
  "ctx_store \<Rightarrow> nat option \<Rightarrow> ptr_sched \<Rightarrow> nat option \<times> ctx_store \<times> ptr_sched" where
  "ak_context_push st ctx s =
     (case ctx of None \<Rightarrow> (None, st, s)
      | Some p \<Rightarrow>
         (case ak_context_new st s of
            (None, st', s') \<Rightarrow> (None, st', s')
          | (Some c, st', s') \<Rightarrow>
              (Some c, st'(c := map_option (\<lambda>r. r\<lparr>ctx_parent := Some p\<rparr>) (st' c)), s')))"

text \<open>One turn of the hoisting loop of a pop, on the parent's table; failures of the store
  are ignored, and \<open>None\<close> records an undefined access.\<close>

definition hoist_step ::
  "nat map_base \<Rightarrow> u8 list \<Rightarrow> (nat map_base \<times> ptr_sched) option \<Rightarrow>
   (nat map_base \<times> ptr_sched) option \<times> bool" where
  "hoist_step child key acc =
     (case acc of None \<Rightarrow> (None, False)
      | Some (pd, s) \<Rightarrow>
         (case map_get child key of
            None \<Rightarrow> (None, False)
          | Some None \<Rightarrow> (Some (pd, s), True)
          | Some (Some value) \<Rightarrow>
             (case map_set pd key value s of
                None \<Rightarrow> (None, False)
              | Some (_, pd', s') \<Rightarrow> (Some (pd', s'), True))))"

definition ak_context_pop ::
  "ctx_store \<Rightarrow> nat option \<Rightarrow> ptr_sched \<Rightarrow> (nat option \<times> ctx_store \<times> ptr_sched) option" where
  "ak_context_pop st ctx s =
     (case ctx of None \<Rightarrow> Some (None, st, s)
      | Some c \<Rightarrow> do {
          r \<leftarrow> st c;
          (st', s') \<leftarrow>
            (case ctx_parent r of None \<Rightarrow> Some (st, s)
             | Some p \<Rightarrow> do {
                 pr \<leftarrow> st p;
                 hoisted \<leftarrow> list_while (hoist_queue r) (hoist_step (ctx_data r)) list_iter_new
                              (Some (ctx_data pr, s));
                 (pd, s1) \<leftarrow> hoisted;
                 Some (st(p \<mapsto> pr\<lparr>ctx_data := pd\<rparr>), s1)
               });
          _ \<leftarrow> map_deinit (ctx_data r);
          _ \<leftarrow> list_deinit (hoist_queue r);
          Some (ctx_parent r, st'(c := None), s')
        })"

definition ak_context_set ::
  "ctx_store \<Rightarrow> nat option \<Rightarrow> u8 list option \<Rightarrow> nat \<Rightarrow> ptr_sched \<Rightarrow>
   (int \<times> ctx_store \<times> ptr_sched) option" where
  "ak_context_set st ctx key value s =
     (case (ctx, key) of
        (Some c, Some k) \<Rightarrow> do {
          r \<leftarrow> st c;
          (err, d, s') \<leftarrow> map_set (ctx_data r) k value s;
          Some (err, st(c \<mapsto> r\<lparr>ctx_data := d\<rparr>), s')
        }
      | _ \<Rightarrow> Some (-1, st, s))"

text \<open>
  The loop along the parents that \<open>ak_context_get\<close>, \<open>ak_context_get_containing_context\<close>
  and \<open>ak_context_has\<close> each contain: the first context with the key, and its value.
\<close>

partial_function (option) lookup_loop ::
  "ctx_store \<Rightarrow> nat option \<Rightarrow> u8 list \<Rightarrow> (nat \<times> nat) option option" where
  "lookup_loop st current key =
     (case current of None \<Rightarrow> Some None
      | Some c \<Rightarrow>
         (case st c of None \<Rightarrow> None
          | Some r \<Rightarrow>
             (case map_get (ctx_data r) key of None \<Rightarrow> None
              | Some (Some value) \<Rightarrow> Some (Some (c, value))
              | Some None \<Rightarrow> lookup_loop st (ctx_parent r) key)))"

declare lookup_loop.simps [code]

definition ak_context_get :: "ctx_store \<Rightarrow> nat option \<Rightarrow> u8 list option \<Rightarrow> nat option" where
  "ak_context_get st ctx key =
     (case (ctx, key) of
        (Some c, Some k) \<Rightarrow>
          map_option (\<lambda>r. case r of None \<Rightarrow> 0 | Some (_, value) \<Rightarrow> value) (lookup_loop st (Some c) k)
      | _ \<Rightarrow> Some 0)"

definition ak_context_get_local :: "ctx_store \<Rightarrow> nat option \<Rightarrow> u8 list option \<Rightarrow> nat option" where
  "ak_context_get_local st ctx key =
     (case (ctx, key) of
        (Some c, Some k) \<Rightarrow> do {
          r \<leftarrow> st c;
          value \<leftarrow> map_get (ctx_data r) k;
          Some (case value of None \<Rightarrow> 0 | Some v \<Rightarrow> v)
        }
      | _ \<Rightarrow> Some 0)"

definition ak_context_get_containing_context ::
  "ctx_store \<Rightarrow> nat option \<Rightarrow> u8 list option \<Rightarrow> nat option option" where
  "ak_context_get_containing_context st ctx key =
     (case (ctx, key) of
        (Some c, Some k) \<Rightarrow> map_option (map_option fst) (lookup_loop st (Some c) k)
      | _ \<Rightarrow> Some None)"

definition ak_context_hoist ::
  "ctx_store \<Rightarrow> nat option \<Rightarrow> u8 list option \<Rightarrow> ptr_sched \<Rightarrow>
   (int \<times> ctx_store \<times> ptr_sched) option" where
  "ak_context_hoist st ctx key s =
     (case (ctx, key) of
        (Some c, Some k) \<Rightarrow> do {
          r \<leftarrow> st c;
          if ctx_parent r = None then Some (-1, st, s)
          else do {
            found \<leftarrow> list_while (hoist_queue r)
              (\<lambda>existing acc. if c_strcmp existing k = 0 then (True, False) else (acc, True))
              list_iter_new False;
            if found then Some (0, st, s)
            else do {
              (err, q, s') \<leftarrow> list_push (hoist_queue r) k s;
              Some (err, st(c \<mapsto> r\<lparr>hoist_queue := q\<rparr>), s')
            }
          }
        }
      | _ \<Rightarrow> Some (-1, st, s))"

definition ak_context_free :: "ctx_store \<Rightarrow> nat option \<Rightarrow> ctx_store option" where
  "ak_context_free st ctx =
     (case ctx of None \<Rightarrow> Some st
      | Some c \<Rightarrow> do {
          r \<leftarrow> st c;
          _ \<leftarrow> map_deinit (ctx_data r);
          _ \<leftarrow> list_deinit (hoist_queue r);
          Some (st(c := None))
        })"

definition ak_context_has :: "ctx_store \<Rightarrow> nat option \<Rightarrow> u8 list option \<Rightarrow> int option" where
  "ak_context_has st ctx key =
     (case (ctx, key) of
        (Some c, Some k) \<Rightarrow>
          map_option (\<lambda>r. case r of None \<Rightarrow> 0 | Some _ \<Rightarrow> 1) (lookup_loop st (Some c) k)
      | _ \<Rightarrow> Some 0)"

definition ak_context_has_local :: "ctx_store \<Rightarrow> nat option \<Rightarrow> u8 list option \<Rightarrow> int option" where
  "ak_context_has_local st ctx key =
     (case (ctx, key) of
        (Some c, Some k) \<Rightarrow> do {
          r \<leftarrow> st c;
          value \<leftarrow> map_get (ctx_data r) k;
          Some (if value \<noteq> None then 1 else 0)
        }
      | _ \<Rightarrow> Some 0)"

partial_function (option) depth_loop :: "ctx_store \<Rightarrow> nat option \<Rightarrow> nat \<Rightarrow> nat option" where
  "depth_loop st current depth =
     (case current of None \<Rightarrow> Some depth
      | Some c \<Rightarrow>
         (case st c of None \<Rightarrow> None
          | Some r \<Rightarrow> depth_loop st (ctx_parent r) ((depth + 1) mod UINT_RANGE)))"

declare depth_loop.simps [code]

definition ak_context_depth :: "ctx_store \<Rightarrow> nat option \<Rightarrow> nat option" where
  "ak_context_depth st ctx = depth_loop st ctx 0"

section \<open>Well-formed stores\<close>

text \<open>The contexts from a pointer up to the root.\<close>

inductive ctx_chain :: "ctx_store \<Rightarrow> nat option \<Rightarrow> nat list \<Rightarrow> bool" for st where
  chain_root: "ctx_chain st None []"
| chain_step: "st c = Some r \<Longrightarrow> ctx_chain st (ctx_parent r) cs \<Longrightarrow> ctx_chain st (Some c) (c # cs)"

inductive_cases ctx_chain_NoneE: "ctx_chain st None cs"
inductive_cases ctx_chain_SomeE: "ctx_chain st (Some c) cs"

definition ctx_record_ok :: "ak_context \<Rightarrow> bool" where
  "ctx_record_ok r \<longleftrightarrow> str_map_ok 8 (ctx_data r) \<and> list_ok (hoist_queue r)
     \<and> list_all str_key (list_view (hoist_queue r)) \<and> distinct (list_view (hoist_queue r))"

definition store_ok :: "ctx_store \<Rightarrow> bool" where
  "store_ok st \<longleftrightarrow> (\<forall>c r. st c = Some r \<longrightarrow> ctx_record_ok r \<and> (\<exists>cs. ctx_chain st (Some c) cs))"

text \<open>The bindings of a context, and the lookup through a list of scopes.\<close>

definition scope :: "ctx_store \<Rightarrow> nat \<Rightarrow> u8 list \<rightharpoonup> nat" where
  "scope st c = (case st c of None \<Rightarrow> Map.empty | Some r \<Rightarrow> map_view (ctx_data r))"

fun innermost :: "ctx_store \<Rightarrow> nat list \<Rightarrow> u8 list \<Rightarrow> (nat \<times> nat) option" where
  "innermost st [] k = None"
| "innermost st (c # cs) k =
     (case scope st c k of Some v \<Rightarrow> Some (c, v) | None \<Rightarrow> innermost st cs k)"

section \<open>Hoisting through the interface of the table\<close>

text \<open>Storing into one table the values another has under a list of keys.\<close>

fun put_all ::
  "('m \<Rightarrow> 'k \<Rightarrow> 'v option option) \<Rightarrow> ('m \<Rightarrow> 'k \<Rightarrow> 'v \<Rightarrow> 'g sched \<Rightarrow> (int \<times> 'm \<times> 'g sched) option) \<Rightarrow>
   'm \<Rightarrow> 'k list \<Rightarrow> 'm \<Rightarrow> 'g sched \<Rightarrow> ('m \<times> 'g sched) option" where
  "put_all get put child [] pd s = Some (pd, s)"
| "put_all get put child (k # ks) pd s =
     (case get child k of
        None \<Rightarrow> None
      | Some None \<Rightarrow> put_all get put child ks pd s
      | Some (Some v) \<Rightarrow>
          (case put pd k v s of
             None \<Rightarrow> None
           | Some (_, pd', s') \<Rightarrow> put_all get put child ks pd' s'))"

text \<open>
  What hoisting the keys \<open>ks\<close> may do to the parent's bindings: a key ends up with the
  child's value or, after a failed store of a new key, stays absent; a key the child does
  not bind or that is not hoisted keeps its value.
\<close>

definition hoisted :: "('k \<rightharpoonup> 'v) \<Rightarrow> 'k set \<Rightarrow> ('k \<rightharpoonup> 'v) \<Rightarrow> ('k \<rightharpoonup> 'v) \<Rightarrow> bool" where
  "hoisted child ks p p' \<longleftrightarrow>
     (\<forall>k. if k \<in> ks \<and> child k \<noteq> None
          then p' k = child k \<or> p k = None \<and> p' k = None
          else p' k = p k)"

lemma hoisted_step:
  assumes "hoisted child ks q p'" and "q = p(k \<mapsto> v) \<or> q = p \<and> p k = None" and "child k = Some v"
  shows "hoisted child (insert k ks) p p'"
  unfolding hoisted_def
proof
  fix x
  show "if x \<in> insert k ks \<and> child x \<noteq> None
    then p' x = child x \<or> p x = None \<and> p' x = None else p' x = p x"
    using assms unfolding hoisted_def by (cases "x = k"; cases "x \<in> ks") (auto dest: spec [of _ x])
qed

lemma hoisted_skip:
  assumes "hoisted child ks p p'" and "child k = None"
  shows "hoisted child (insert k ks) p p'"
proof -
  have "(x \<in> insert k ks \<and> child x \<noteq> None) = (x \<in> ks \<and> child x \<noteq> None)" for x
    using assms(2) by auto
  then show ?thesis
    using assms(1) unfolding hoisted_def by simp
qed

context key_store
begin

lemma put_all_correct:
  assumes child: "ok child"
  shows "ok pd \<Longrightarrow> list_all key_ok ks \<Longrightarrow> room (length ks) pd \<Longrightarrow>
    \<exists>pd' s'. put_all get put child ks pd s = Some (pd', s') \<and> ok pd'
      \<and> hoisted (view child) (set ks) (view pd) (view pd')
      \<and> (granted (length ks) s \<longrightarrow> view pd' = view pd ++ (view child |` set ks))"
proof (induction ks arbitrary: pd s)
  case Nil
  then show ?case by (simp add: hoisted_def)
next
  case (Cons k ks)
  have k: "key_ok k" and ks: "list_all key_ok ks" using Cons.prems by simp_all
  have room: "room (Suc (length ks)) pd" using Cons.prems by simp
  note get = get_law [OF child k]
  show ?case
  proof (cases "view child k")
    case None
    obtain pd' s' where ih: "put_all get put child ks pd s = Some (pd', s')" "ok pd'"
        "hoisted (view child) (set ks) (view pd) (view pd')"
        "granted (length ks) s \<longrightarrow> view pd' = view pd ++ (view child |` set ks)"
      using Cons.IH [OF Cons.prems(1) ks room_less [OF room], of s] by blast
    have "hoisted (view child) (set (k # ks)) (view pd) (view pd')"
      using hoisted_skip [OF ih(3) None] by simp
    moreover have "view child |` set (k # ks) = view child |` set ks"
      using None by (auto simp: restrict_map_def)
    moreover have "granted (length (k # ks)) s \<longrightarrow> granted (length ks) s"
      by (simp add: granted_def)
    ultimately show ?thesis
      using ih get None by simp
  next
    case (Some v)
    obtain r m1 s1 where put: "put pd k v s = Some (r, m1, s1)" "ok m1" "room (length ks) m1"
        "s1 = s \<or> s1 = tl s \<or> s1 = tl (tl s)" "(\<exists>g1 g2 s1. s = Some g1 # Some g2 # s1) \<longrightarrow> r = 0"
        "r = 0 \<and> view m1 = (view pd)(k \<mapsto> v) \<or> r = -1 \<and> view m1 = view pd \<and> view pd k = None"
      using put_law [OF Cons.prems(1) k room, of v s] by blast
    obtain pd' s' where ih: "put_all get put child ks m1 s1 = Some (pd', s')" "ok pd'"
        "hoisted (view child) (set ks) (view m1) (view pd')"
        "granted (length ks) s1 \<longrightarrow> view pd' = view m1 ++ (view child |` set ks)"
      using Cons.IH [OF put(2) ks put(3), of s1] by blast
    have run: "put_all get put child (k # ks) pd s = Some (pd', s')"
      using get Some put(1) ih(1) by simp
    have "hoisted (view child) (set (k # ks)) (view pd) (view pd')"
      using hoisted_step [OF ih(3) _ Some, of "view pd"] put(6) by auto
    moreover have "view pd' = view pd ++ (view child |` set (k # ks))"
      if g: "granted (length (k # ks)) s"
    proof -
      have "granted (length ks) s1" and "r = 0"
        using granted_Suc [of "length ks" s] g put(4,5) by simp_all
      then have "view pd' = (view pd)(k \<mapsto> v) ++ (view child |` set ks)"
        using ih(4) put(6) by auto
      also have "\<dots> = view pd ++ (view child |` set (k # ks))"
        using Some by (auto simp: map_add_def restrict_map_def split: option.splits)
      finally show ?thesis .
    qed
    ultimately show ?thesis
      using run ih(2) by blast
  qed
qed

end

text \<open>The loop of a pop is this recursion over the queue's contents.\<close>

lemma hoist_loop_put_all:
  "fold_until (hoist_step child) ks (Some (pd, s)) = put_all map_get map_set child ks pd s"
  by (induction ks arbitrary: pd s) (auto simp: hoist_step_def split: option.splits)

section \<open>Lookups\<close>

lemma lookup_loop_chain:
  assumes "store_ok st" and "str_key k"
  shows "ctx_chain st current cs \<Longrightarrow> lookup_loop st current k = Some (innermost st cs k)"
proof (induction rule: ctx_chain.induct)
  case chain_root
  then show ?case by (subst lookup_loop.simps) simp
next
  case (chain_step c r cs)
  have "str_map_ok 8 (ctx_data r)"
    using assms(1) chain_step(1) by (auto simp: store_ok_def ctx_record_ok_def)
  then have "map_get (ctx_data r) k = Some (map_view (ctx_data r) k)"
    using assms(2) by (rule str_store.get_law)
  then show ?case
    using chain_step by (subst lookup_loop.simps) (simp add: scope_def split: option.splits)
qed

lemma depth_loop_chain:
  "ctx_chain st current cs \<Longrightarrow> depth_loop st current (d mod UINT_RANGE) = Some ((d + length cs) mod UINT_RANGE)"
proof (induction arbitrary: d rule: ctx_chain.induct)
  case chain_root
  then show ?case by (subst depth_loop.simps) simp
next
  case (chain_step c r cs)
  then show ?case
    using chain_step.IH [of "Suc d"] by (subst depth_loop.simps) (simp add: mod_Suc_eq)
qed

section \<open>Operations keep the store well-formed\<close>

lemma ctx_chain_det: "ctx_chain st p cs \<Longrightarrow> ctx_chain st p ds \<Longrightarrow> cs = ds"
proof (induction arbitrary: ds rule: ctx_chain.induct)
  case chain_root
  then show ?case by (auto elim: ctx_chain_NoneE)
next
  case (chain_step c r cs)
  from \<open>ctx_chain st (Some c) ds\<close> obtain r' ds'
    where "ds = c # ds'" "st c = Some r'" "ctx_chain st (ctx_parent r') ds'"
    by (rule ctx_chain_SomeE)
  then show ?case using chain_step by auto
qed

text \<open>Chains only look at the parent links of the contexts on them.\<close>

lemma ctx_chain_cong:
  "ctx_chain st p cs \<Longrightarrow>
   (\<And>c r. c \<in> set cs \<Longrightarrow> st c = Some r \<Longrightarrow> \<exists>r'. st' c = Some r' \<and> ctx_parent r' = ctx_parent r) \<Longrightarrow>
   ctx_chain st' p cs"
proof (induction rule: ctx_chain.induct)
  case chain_root
  then show ?case by (intro ctx_chain.intros)
next
  case (chain_step c r cs)
  then obtain r' where "st' c = Some r'" "ctx_parent r' = ctx_parent r" by force
  then show ?case
    using chain_step by (intro ctx_chain.chain_step [of _ _ r']) auto
qed

lemma ctx_chain_live: "ctx_chain st p cs \<Longrightarrow> c \<in> set cs \<Longrightarrow> st c \<noteq> None"
  by (induction rule: ctx_chain.induct) auto

lemma store_ok_update:
  assumes "store_ok st" and "st c = Some r" and "ctx_parent r' = ctx_parent r" and "ctx_record_ok r'"
  shows "store_ok (st(c \<mapsto> r'))"
  unfolding store_ok_def
proof (intro allI impI conjI)
  fix d x
  assume d: "(st(c \<mapsto> r')) d = Some x"
  show "ctx_record_ok x"
    using d assms by (auto simp: store_ok_def split: if_splits)
  obtain cs where "ctx_chain st (Some d) cs"
    using d assms(1,2) by (auto simp: store_ok_def split: if_splits)
  then have "ctx_chain (st(c \<mapsto> r')) (Some d) cs"
    using assms(2,3) by (rule_tac ctx_chain_cong) auto
  then show "\<exists>cs. ctx_chain (st(c \<mapsto> r')) (Some d) cs" ..
qed

lemma new_record_ok: "ctx_record_ok (new_context\<lparr>ctx_parent := p\<rparr>)"
  using str_store.new_ok [of 8] by (simp add: ctx_record_ok_def new_context_def list_init_ok)

lemma push_correct:
  assumes ok: "store_ok st" and p: "st p \<noteq> None" and push: "ak_context_push st (Some p) s = (ctx, st', s')"
  shows "store_ok st'"
    and "ctx = None \<Longrightarrow> st' = st"
    and "ctx = Some c \<Longrightarrow> st c = None \<and> st' = st(c \<mapsto> new_context\<lparr>ctx_parent := Some p\<rparr>)
      \<and> (\<forall>cs. ctx_chain st (Some p) cs \<longrightarrow> ctx_chain st' (Some c) (c # cs)) \<and> scope st' c = Map.empty"
proof -
  let ?new = "new_context\<lparr>ctx_parent := Some p\<rparr>"
  have view: "map_view (ctx_data ?new) = Map.empty"
    by (simp add: new_context_def map_init_ok)
  show none: "ctx = None \<Longrightarrow> st' = st"
    using push by (auto simp: ak_context_push_def ak_context_new_def split: prod.splits option.splits)
  have some: "st c = None \<and> st' = st(c \<mapsto> ?new)" if "ctx = Some c" for c
    using that push alloc_cell_Some [of st s c]
    by (auto simp: ak_context_push_def ak_context_new_def split: prod.splits option.splits)
  have old: "ctx_chain (st(c \<mapsto> ?new)) q cs" if "st c = None" "ctx_chain st q cs" for c q cs
    using that(2) by (rule ctx_chain_cong) (use that ctx_chain_live in fastforce)
  have new: "ctx_chain (st(c \<mapsto> ?new)) (Some c) (c # cs)" if "st c = None" "ctx_chain st (Some p) cs" for c cs
    using old [OF that] by (intro ctx_chain.chain_step [of _ _ ?new]) auto
  show "ctx = Some c \<Longrightarrow> st c = None \<and> st' = st(c \<mapsto> ?new)
      \<and> (\<forall>cs. ctx_chain st (Some p) cs \<longrightarrow> ctx_chain st' (Some c) (c # cs)) \<and> scope st' c = Map.empty"
    using some new view by (auto simp: scope_def)
  show "store_ok st'"
  proof (cases ctx)
    case None
    then show ?thesis using none ok by simp
  next
    case (Some c)
    obtain cs where cs: "ctx_chain st (Some p) cs" using ok p by (auto simp: store_ok_def)
    have c: "st c = None" "st' = st(c \<mapsto> ?new)" using some [OF Some] by simp_all
    show ?thesis
      unfolding store_ok_def c(2)
    proof (intro allI impI conjI)
      fix d x
      assume d: "(st(c \<mapsto> ?new)) d = Some x"
      show "ctx_record_ok x"
        using d ok new_record_ok by (auto simp: store_ok_def split: if_splits)
      show "\<exists>cs. ctx_chain (st(c \<mapsto> ?new)) (Some d) cs"
      proof (cases "d = c")
        case True
        then show ?thesis using new [OF c(1) cs] by auto
      next
        case False
        then have "st d = Some x" using d by simp
        then obtain ds where "ctx_chain st (Some d) ds" using ok unfolding store_ok_def by blast
        then show ?thesis using old [OF c(1)] by blast
      qed
    qed
  qed
qed

lemma record_of: "store_ok st \<Longrightarrow> st c = Some r \<Longrightarrow> ctx_record_ok r"
  by (auto simp: store_ok_def)

lemma context_set_correct:
  assumes ok: "store_ok st" and c: "st c = Some r" and k: "str_key k" and room: "map_room 1 (ctx_data r)"
  obtains e st' s' where "ak_context_set st (Some c) (Some k) v s = Some (e, st', s')" "store_ok st'"
    "e = 0 \<and> scope st' c = (scope st c)(k \<mapsto> v) \<or> e = -1 \<and> scope st' c = scope st c \<and> scope st c k = None"
    "\<forall>d. d \<noteq> c \<longrightarrow> st' d = st d" "\<forall>cs p. ctx_chain st p cs \<longrightarrow> ctx_chain st' p cs"
proof -
  have rec: "ctx_record_ok r" using ok c by (rule record_of)
  then have m: "str_map_ok 8 (ctx_data r)" by (simp add: ctx_record_ok_def)
  have room': "map_room (Suc 0) (ctx_data r)" using room by simp
  obtain e d s' where set: "map_set (ctx_data r) k v s = Some (e, d, s')" "str_map_ok 8 d"
      "e = 0 \<and> map_view d = (map_view (ctx_data r))(k \<mapsto> v)
       \<or> e = -1 \<and> map_view d = map_view (ctx_data r) \<and> map_view (ctx_data r) k = None"
    using str_store.put_law [OF m k room', of v s] by blast
  let ?r = "r\<lparr>ctx_data := d\<rparr>"
  have run: "ak_context_set st (Some c) (Some k) v s = Some (e, st(c \<mapsto> ?r), s')"
    using c set(1) by (simp add: ak_context_set_def)
  have "store_ok (st(c \<mapsto> ?r))"
    using ok c by (rule store_ok_update) (use rec set(2) in \<open>simp_all add: ctx_record_ok_def\<close>)
  moreover have "\<forall>cs p. ctx_chain st p cs \<longrightarrow> ctx_chain (st(c \<mapsto> ?r)) p cs"
    using c by (auto elim!: ctx_chain_cong)
  ultimately show thesis
    using that [OF run] set(3) c by (simp add: scope_def)
qed

lemma search_queue:
  "list_all str_key xs \<Longrightarrow> str_key k \<Longrightarrow>
   fold_until (\<lambda>existing acc. if c_strcmp existing k = 0 then (True, False) else (acc, True)) xs False
     \<longleftrightarrow> k \<in> set xs"
  by (induction xs) (auto simp: str_key_def c_strcmp_eq_0)

lemma context_hoist_correct:
  assumes ok: "store_ok st" and c: "st c = Some r" and k: "str_key k" and p: "ctx_parent r \<noteq> None"
    and room: "list_count (hoist_queue r) < 2 ^ 31"
  obtains e st' s' r' where "ak_context_hoist st (Some c) (Some k) s = Some (e, st', s')"
    "store_ok st'" "st' c = Some r'" "ctx_parent r' = ctx_parent r" "ctx_data r' = ctx_data r"
    "e = 0 \<and> set (list_view (hoist_queue r')) = insert k (set (list_view (hoist_queue r)))
     \<or> e = -1 \<and> list_view (hoist_queue r') = list_view (hoist_queue r)"
    "\<forall>d. d \<noteq> c \<longrightarrow> st' d = st d"
proof -
  have rec: "ctx_record_ok r" using ok c by (rule record_of)
  then have q: "list_ok (hoist_queue r)" "list_all str_key (list_view (hoist_queue r))"
      "distinct (list_view (hoist_queue r))"
    by (simp_all add: ctx_record_ok_def)
  have found: "list_while (hoist_queue r)
      (\<lambda>existing acc. if c_strcmp existing k = 0 then (True, False) else (acc, True))
      list_iter_new False = Some (k \<in> set (list_view (hoist_queue r)))"
    unfolding list_while_new [OF q(1)] search_queue [OF q(2) k] ..
  show thesis
  proof (cases "k \<in> set (list_view (hoist_queue r))")
    case True
    then have "ak_context_hoist st (Some c) (Some k) s = Some (0, st, s)"
      using c p found by (auto simp: ak_context_hoist_def)
    then show thesis
      using that ok c True by (simp add: insert_absorb)
  next
    case False
    have len: "length (list_view (hoist_queue r)) < 2 ^ 31"
      using room length_list_view [OF q(1)] by simp
    obtain e l s' where push: "list_push (hoist_queue r) k s = Some (e, l, s')" "list_ok l"
        "e = 0 \<and> list_view l = list_view (hoist_queue r) @ [k]
         \<or> e = -1 \<and> list_view l = list_view (hoist_queue r)"
      using dl.push_law [OF q(1) len, of k s] by blast
    let ?r = "r\<lparr>hoist_queue := l\<rparr>"
    have run: "ak_context_hoist st (Some c) (Some k) s = Some (e, st(c \<mapsto> ?r), s')"
      using c p found push(1) False by (auto simp: ak_context_hoist_def)
    have "distinct (list_view l)"
      using dl.push_new_distinct(2) [OF q(1) len q(3) False push(1)] .
    then have rec': "ctx_record_ok ?r"
      using rec push(2,3) k by (auto simp: ctx_record_ok_def)
    have "store_ok (st(c \<mapsto> ?r))"
      using ok c by (rule store_ok_update) (use rec' in simp_all)
    then show thesis
      using that [OF run, of ?r] push(3) by auto
  qed
qed

lemma ctx_parent_not_self:
  assumes "store_ok st" and "st c = Some r"
  shows "ctx_parent r \<noteq> Some c"
proof
  assume self: "ctx_parent r = Some c"
  obtain cs where cs: "ctx_chain st (Some c) cs" using assms by (auto simp: store_ok_def)
  then obtain ds where "cs = c # ds" "ctx_chain st (Some c) ds"
    using assms(2) self by (auto elim: ctx_chain_SomeE)
  then show False using ctx_chain_det [OF cs] by simp
qed

text \<open>A context without children is on no other context's chain, so removing it is safe.\<close>

lemma childless_not_on_chain:
  assumes "\<forall>d x. st d = Some x \<longrightarrow> ctx_parent x \<noteq> Some c"
  shows "ctx_chain st q cs \<Longrightarrow> q \<noteq> Some c \<Longrightarrow> c \<notin> set cs"
proof (induction rule: ctx_chain.induct)
  case (chain_step b r cs)
  then show ?case using assms by auto
qed simp

lemma store_ok_remove:
  assumes ok: "store_ok st" and leaf: "\<forall>d x. st d = Some x \<longrightarrow> ctx_parent x \<noteq> Some c"
  shows "store_ok (st(c := None))"
  unfolding store_ok_def
proof (intro allI impI conjI)
  fix d x
  assume "(st(c := None)) d = Some x"
  then have d: "d \<noteq> c" "st d = Some x" by (auto split: if_splits)
  then show "ctx_record_ok x" using ok by (auto simp: store_ok_def)
  obtain cs where cs: "ctx_chain st (Some d) cs" using ok d(2) by (auto simp: store_ok_def)
  have c: "c \<notin> set cs" using childless_not_on_chain [OF leaf cs] d(1) by simp
  have "ctx_chain (st(c := None)) (Some d) cs"
    by (rule ctx_chain_cong [OF cs]) (use c in auto)
  then show "\<exists>cs. ctx_chain (st(c := None)) (Some d) cs" ..
qed

lemma deinit_defined:
  assumes "ctx_record_ok r"
  shows "\<exists>ns. map_deinit (ctx_data r) = Some ns" and "\<exists>l. list_deinit (hoist_queue r) = Some l"
proof -
  have "placed (ctx_data r)" using assms by (simp add: ctx_record_ok_def str_map_ok_def map_ok_def)
  then show "\<exists>ns. map_deinit (ctx_data r) = Some ns"
    using free_buckets_mset [of "nbuckets (ctx_data r)" "bucket_list (ctx_data r)"]
    by (auto simp: map_deinit_def placed_def bucket_list_def)
  show "\<exists>l. list_deinit (hoist_queue r) = Some l"
    using list_deinit_correct assms by (auto simp: ctx_record_ok_def)
qed

lemma context_pop_correct:
  assumes ok: "store_ok st" and c: "st c = Some r" and p: "ctx_parent r = Some p" "st p = Some pr"
    and leaf: "\<forall>d x. st d = Some x \<longrightarrow> ctx_parent x \<noteq> Some c"
    and room: "map_room (length (list_view (hoist_queue r))) (ctx_data pr)"
  obtains st' s' where "ak_context_pop st (Some c) s = Some (Some p, st', s')" "store_ok st'"
    "st' c = None" "\<forall>d. d \<noteq> c \<and> d \<noteq> p \<longrightarrow> st' d = st d"
    "hoisted (scope st c) (set (list_view (hoist_queue r))) (scope st p) (scope st' p)"
    "granted (length (list_view (hoist_queue r))) s \<longrightarrow>
       scope st' p = scope st p ++ (scope st c |` set (list_view (hoist_queue r)))"
proof -
  let ?ks = "list_view (hoist_queue r)"
  have rec: "ctx_record_ok r" and prec: "ctx_record_ok pr"
    using record_of [OF ok] c p(2) by auto
  have m: "str_map_ok 8 (ctx_data r)" "str_map_ok 8 (ctx_data pr)" and q: "list_ok (hoist_queue r)"
    "list_all str_key ?ks"
    using rec prec by (simp_all add: ctx_record_ok_def)
  obtain pd s1 where h: "put_all map_get map_set (ctx_data r) ?ks (ctx_data pr) s = Some (pd, s1)"
      "str_map_ok 8 pd" "hoisted (map_view (ctx_data r)) (set ?ks) (map_view (ctx_data pr)) (map_view pd)"
      "granted (length ?ks) s \<longrightarrow>
         map_view pd = map_view (ctx_data pr) ++ (map_view (ctx_data r) |` set ?ks)"
    using str_store.put_all_correct [OF m(1,2) q(2) room, of s] by blast
  have loop: "list_while (hoist_queue r) (hoist_step (ctx_data r)) list_iter_new
      (Some (ctx_data pr, s)) = Some (Some (pd, s1))"
    unfolding list_while_new [OF q(1)] hoist_loop_put_all h(1) ..
  let ?pr = "pr\<lparr>ctx_data := pd\<rparr>"
  let ?st = "(st(p \<mapsto> ?pr))(c := None)"
  have pc: "p \<noteq> c" using ctx_parent_not_self [OF ok c] p(1) by auto
  have run: "ak_context_pop st (Some c) s = Some (Some p, ?st, s1)"
    using c p loop deinit_defined [OF rec] by (auto simp: ak_context_pop_def)
  have "store_ok (st(p \<mapsto> ?pr))"
    using ok p(2) by (rule store_ok_update) (use prec h(2) in \<open>simp_all add: ctx_record_ok_def\<close>)
  then have "store_ok ?st"
    by (rule store_ok_remove) (use leaf p(2) in auto)
  then show thesis
    using that [OF run] h(3,4) c p(2) pc by (simp add: scope_def)
qed

section \<open>Properties\<close>

text \<open>
  C8: in a well-formed store every lookup walk ends. \<open>ak_context_get\<close> returns the value of
  the innermost context that binds the key and NULL when none does, \<open>ak_context_has\<close> and
  \<open>ak_context_get_containing_context\<close> agree with it, the local variants look at one
  context only, and the depth is the number of contexts up to the root, the context
  itself included.
\<close>

theorem context_lookup_spec:
  assumes "store_ok st" and "ctx_chain st (Some c) cs" and "str_key k"
  shows "ak_context_get st (Some c) (Some k) =
      Some (case innermost st cs k of None \<Rightarrow> 0 | Some (d, v) \<Rightarrow> v)
    \<and> ak_context_has st (Some c) (Some k) = Some (if innermost st cs k = None then 0 else 1)
    \<and> ak_context_get_containing_context st (Some c) (Some k) = Some (map_option fst (innermost st cs k))
    \<and> ak_context_get_local st (Some c) (Some k) = Some (case scope st c k of None \<Rightarrow> 0 | Some v \<Rightarrow> v)
    \<and> ak_context_has_local st (Some c) (Some k) = Some (if scope st c k = None then 0 else 1)
    \<and> ak_context_depth st (Some c) = Some (length cs mod UINT_RANGE)"
proof -
  note loop = lookup_loop_chain [OF assms(1,3,2)]
  obtain r where r: "st c = Some r" using assms(2) by (auto elim: ctx_chain_SomeE)
  then have "str_map_ok 8 (ctx_data r)"
    using record_of [OF assms(1)] by (simp add: ctx_record_ok_def)
  then have get: "map_get (ctx_data r) k = Some (map_view (ctx_data r) k)"
    using assms(3) by (rule str_store.get_law)
  show ?thesis
    using loop get r depth_loop_chain [OF assms(2), of 0]
    by (auto simp: ak_context_get_def ak_context_has_def ak_context_get_containing_context_def
        ak_context_get_local_def ak_context_has_local_def ak_context_depth_def scope_def
        split: option.splits)
qed

theorem context_lookup_spec_witness:
  "ak_context_get [5 \<mapsto> new_context] (Some 5) (Some [0x61]) = Some 0
   \<and> ak_context_depth [5 \<mapsto> new_context] (Some 5) = Some 1"
proof -
  let ?st = "[5 \<mapsto> new_context] :: ctx_store"
  have chain: "ctx_chain ?st (Some 5) [5]"
    by (rule ctx_chain.intros) (auto simp: new_context_def intro: ctx_chain.intros)
  moreover have "store_ok ?st"
    using chain new_record_ok [of None] by (auto simp: store_ok_def new_context_def split: if_splits)
  moreover have "str_key [0x61]" by (simp add: str_key_def)
  moreover have "scope ?st 5 = Map.empty" by (simp add: scope_def new_context_def map_init_ok)
  ultimately show ?thesis
    using context_lookup_spec [of ?st 5 "[5]" "[0x61]"] by simp
qed



text \<open>
  Pushing, setting and hoisting keep the store well-formed. A push adds a context
  with no bindings under its parent at a fresh address or, without memory, changes
  nothing; a set binds its key in the one context; a hoist adds its key to the queue
  unless it is there.
\<close>

theorem context_updates_ok:
  assumes "store_ok st" and "st c = Some r" and "str_key k" and "map_room 1 (ctx_data r)"
    and "ctx_parent r \<noteq> None" and "list_count (hoist_queue r) < 2 ^ 31"
  shows "(\<exists>ctx st' s'. ak_context_push st (Some c) s = (ctx, st', s') \<and> store_ok st'
        \<and> (case ctx of None \<Rightarrow> st' = st
           | Some d \<Rightarrow> st d = None \<and> st' = st(d \<mapsto> new_context\<lparr>ctx_parent := Some c\<rparr>)
               \<and> scope st' d = Map.empty))
    \<and> (\<exists>e st' s'. ak_context_set st (Some c) (Some k) v s = Some (e, st', s') \<and> store_ok st'
        \<and> (e = 0 \<and> scope st' c = (scope st c)(k \<mapsto> v)
           \<or> e = -1 \<and> scope st' c = scope st c \<and> scope st c k = None)
        \<and> (\<forall>d. d \<noteq> c \<longrightarrow> st' d = st d))
    \<and> (\<exists>e st' s' r'. ak_context_hoist st (Some c) (Some k) s = Some (e, st', s') \<and> store_ok st'
        \<and> st' c = Some r' \<and> ctx_parent r' = ctx_parent r \<and> ctx_data r' = ctx_data r
        \<and> (e = 0 \<and> set (list_view (hoist_queue r')) = insert k (set (list_view (hoist_queue r)))
           \<or> e = -1 \<and> list_view (hoist_queue r') = list_view (hoist_queue r))
        \<and> (\<forall>d. d \<noteq> c \<longrightarrow> st' d = st d))"
proof (intro conjI)
  obtain ctx st' s' where push: "ak_context_push st (Some c) s = (ctx, st', s')"
    by (metis prod.exhaust)
  have live: "st c \<noteq> None" using assms(2) by simp
  note ps = push_correct [OF assms(1) live push]
  show "\<exists>ctx st' s'. ak_context_push st (Some c) s = (ctx, st', s') \<and> store_ok st'
        \<and> (case ctx of None \<Rightarrow> st' = st
           | Some d \<Rightarrow> st d = None \<and> st' = st(d \<mapsto> new_context\<lparr>ctx_parent := Some c\<rparr>)
               \<and> scope st' d = Map.empty)"
    using push ps by (cases ctx) auto
  show "\<exists>e st' s'. ak_context_set st (Some c) (Some k) v s = Some (e, st', s') \<and> store_ok st'
        \<and> (e = 0 \<and> scope st' c = (scope st c)(k \<mapsto> v)
           \<or> e = -1 \<and> scope st' c = scope st c \<and> scope st c k = None)
        \<and> (\<forall>d. d \<noteq> c \<longrightarrow> st' d = st d)"
    by (rule context_set_correct [OF assms(1-4), of v s]) blast
  show "\<exists>e st' s' r'. ak_context_hoist st (Some c) (Some k) s = Some (e, st', s') \<and> store_ok st'
        \<and> st' c = Some r' \<and> ctx_parent r' = ctx_parent r \<and> ctx_data r' = ctx_data r
        \<and> (e = 0 \<and> set (list_view (hoist_queue r')) = insert k (set (list_view (hoist_queue r)))
           \<or> e = -1 \<and> list_view (hoist_queue r') = list_view (hoist_queue r))
        \<and> (\<forall>d. d \<noteq> c \<longrightarrow> st' d = st d)"
    by (rule context_hoist_correct [OF assms(1-3) assms(5,6), of s]) blast
qed

theorem context_updates_ok_witness:
  "\<exists>e st' s'. ak_context_set [5 \<mapsto> new_context, 6 \<mapsto> new_context\<lparr>ctx_parent := Some 5\<rparr>] (Some 6)
     (Some [0x61]) 9 [] = Some (e, st', s') \<and> store_ok st'"
proof -
  let ?st = "[5 \<mapsto> new_context, 6 \<mapsto> new_context\<lparr>ctx_parent := Some 5\<rparr>] :: ctx_store"
  have c5: "ctx_chain ?st (Some 5) [5]"
    by (rule ctx_chain.intros) (auto simp: new_context_def intro: ctx_chain.intros)
  then have c6: "ctx_chain ?st (Some 6) [6, 5]"
    by (intro ctx_chain.chain_step [of _ _ "new_context\<lparr>ctx_parent := Some 5\<rparr>"]) auto
  have "ctx_record_ok new_context"
    using new_record_ok [of None] by (simp add: new_context_def)
  then have "store_ok ?st"
    using c5 c6 new_record_ok [of "Some 5"] by (auto simp: store_ok_def split: if_splits)
  moreover have "map_room 1 (ctx_data new_context)" "list_count (hoist_queue new_context) < 2 ^ 31"
    by (simp_all add: map_room_def new_context_def list_init_def map_init_generic_def)
  moreover have "str_key [0x61]" by (simp add: str_key_def)
  ultimately show ?thesis
    using context_updates_ok [of ?st 6 "new_context\<lparr>ctx_parent := Some 5\<rparr>" "[0x61]" "[]" 9] by auto
qed

end
