(* ===== verification/Intern.thy ===== *)
theory Intern
  imports DynList HashMap
begin

text \<open>
  Model of kernel/intern/src/intern.c: the global table of interned strings. The table is
  a record of the fields of \<open>g_intern_table\<close>; the strings the table owns live in \<open>it_mem\<close>,
  from addresses to their bytes, the terminating NUL included. The argument
  \<open>(str, len)\<close> is the list of its \<open>len\<close> bytes. Each public operation holds the table's
  mutex around its accesses, so an operation is one step; a sequence of operations is a
  list of steps. The outer \<open>option\<close> is \<open>None\<close> for an undefined access or a double free.

  The lemmas show that the table is well-formed in every reachable state, that a pointer
  returned for a string holds that string and stays the same for as long as the table is
  not cleared, that two interned strings have the same pointer exactly when they are
  equal, and that the statistics count the distinct strings and their bytes.
\<close>

section \<open>Definitions\<close>

abbreviation FNV_OFFSET_BASIS :: u64 where
  "FNV_OFFSET_BASIS \<equiv> 14695981039346656037"

abbreviation FNV_PRIME :: u64 where
  "FNV_PRIME \<equiv> 1099511628211"

abbreviation INITIAL_TABLE_SIZE :: nat where
  "INITIAL_TABLE_SIZE \<equiv> 1024"

record intern_entry =
  ie_str :: nat
  ie_len :: nat
  ie_hash :: u64

record intern_table =
  it_buckets :: "intern_entry list list option"
  bucket_count :: nat
  string_count :: nat
  total_bytes :: nat
  it_initialized :: bool
  it_mem :: "nat \<rightharpoonup> u8 list"

definition zero_table :: intern_table where
  "zero_table = \<lparr>it_buckets = None, bucket_count = 0, string_count = 0, total_bytes = 0,
                 it_initialized = False, it_mem = Map.empty\<rparr>"

definition hash_string :: "u8 list \<Rightarrow> u64" where
  "hash_string str = foldl (\<lambda>hash c. (hash XOR ucast c) * FNV_PRIME) FNV_OFFSET_BASIS str"

definition bucket_of :: "intern_table \<Rightarrow> u64 \<Rightarrow> nat" where
  "bucket_of t hash = unat (hash AND (word_of_nat (bucket_count t) - 1))"

text \<open>The walk of a chain. The \<open>memcmp\<close> reads \<open>len\<close> bytes of both strings.\<close>

fun find_chain ::
  "(nat \<rightharpoonup> u8 list) \<Rightarrow> u8 list \<Rightarrow> u64 \<Rightarrow> intern_entry list \<Rightarrow> intern_entry option option" where
  "find_chain mem str hash [] = Some None"
| "find_chain mem str hash (e # es) =
     (if ie_hash e = hash \<and> ie_len e = length str then
        (case mem (ie_str e) of None \<Rightarrow> None
         | Some bs \<Rightarrow>
             if c_strcmp (take (length str) bs) str = 0 then Some (Some e)
             else find_chain mem str hash es)
      else find_chain mem str hash es)"

definition find_entry :: "intern_table \<Rightarrow> u8 list \<Rightarrow> u64 \<Rightarrow> intern_entry option option" where
  "find_entry t str hash = do {
     let bucket_idx = bucket_of t hash;
     bs \<leftarrow> it_buckets t;
     chain \<leftarrow> mem_read bs bucket_idx;
     find_chain (it_mem t) str hash chain
   }"

definition create_entry ::
  "intern_table \<Rightarrow> u8 list \<Rightarrow> u64 \<Rightarrow> ptr_sched \<Rightarrow>
   (intern_entry option \<times> intern_table \<times> ptr_sched) option" where
  "create_entry t str hash s =
     (case sys_alloc s of
        (None, s1) \<Rightarrow> Some (None, t, s1)
      | (Some _, s1) \<Rightarrow>
         (case alloc_cell (it_mem t) s1 of
            (None, s2) \<Rightarrow> Some (None, t, s2)
          | (Some str_copy, s2) \<Rightarrow> do {
              let entry = \<lparr>ie_str = str_copy, ie_len = length str, ie_hash = hash\<rparr>;
              let bucket_idx = bucket_of t hash;
              bs \<leftarrow> it_buckets t;
              chain \<leftarrow> mem_read bs bucket_idx;
              bs' \<leftarrow> mem_write bs bucket_idx (entry # chain);
              Some (Some entry,
                t\<lparr>it_buckets := Some bs', string_count := sz_add (string_count t) 1,
                  total_bytes := sz_add (total_bytes t) (length str + 1),
                  it_mem := (it_mem t)(str_copy \<mapsto> str @ [0])\<rparr>, s2)
            }))"

definition ak_intern_init :: "intern_table \<Rightarrow> ptr_sched \<Rightarrow> intern_table \<times> ptr_sched" where
  "ak_intern_init t s =
     (if it_initialized t then (t, s)
      else (case sys_alloc s of
              (None, s') \<Rightarrow> (t\<lparr>it_buckets := None\<rparr>, s')
            | (Some _, s') \<Rightarrow>
                (t\<lparr>it_buckets := Some (replicate INITIAL_TABLE_SIZE []),
                   bucket_count := INITIAL_TABLE_SIZE, string_count := 0, total_bytes := 0,
                   it_initialized := True\<rparr>, s')))"

fun free_chain :: "(nat \<rightharpoonup> u8 list) \<Rightarrow> intern_entry list \<Rightarrow> (nat \<rightharpoonup> u8 list) option" where
  "free_chain mem [] = Some mem"
| "free_chain mem (e # es) = do { mem' \<leftarrow> free_cell mem (ie_str e); free_chain mem' es }"

text \<open>The loop over the buckets, from index \<open>i\<close> with \<open>n\<close> buckets left.\<close>

fun free_entries ::
  "nat \<Rightarrow> nat \<Rightarrow> intern_entry list list \<Rightarrow> (nat \<rightharpoonup> u8 list) \<Rightarrow> (nat \<rightharpoonup> u8 list) option" where
  "free_entries 0 i bs mem = Some mem"
| "free_entries (Suc n) i bs mem = do {
     chain \<leftarrow> mem_read bs i;
     mem' \<leftarrow> free_chain mem chain;
     free_entries n (i + 1) bs mem'
   }"

definition ak_intern_shutdown :: "intern_table \<Rightarrow> intern_table option" where
  "ak_intern_shutdown t =
     (if \<not> it_initialized t then Some t
      else do {
        bs \<leftarrow> it_buckets t;
        mem \<leftarrow> free_entries (bucket_count t) 0 bs (it_mem t);
        Some (t\<lparr>it_buckets := None, bucket_count := 0, string_count := 0, total_bytes := 0,
                it_initialized := False, it_mem := mem\<rparr>)
      })"

definition ak_intern_n ::
  "intern_table \<Rightarrow> u8 list option \<Rightarrow> ptr_sched \<Rightarrow> (nat option \<times> intern_table \<times> ptr_sched) option"
where
  "ak_intern_n t str s =
     (case str of None \<Rightarrow> Some (None, t, s)
      | Some bs \<Rightarrow>
         if \<not> it_initialized t then Some (None, t, s)
         else do {
           let hash = hash_string bs;
           existing \<leftarrow> find_entry t bs hash;
           (case existing of
              Some e \<Rightarrow> Some (Some (ie_str e), t, s)
            | None \<Rightarrow> do {
                (new_entry, t', s') \<leftarrow> create_entry t bs hash s;
                Some (map_option ie_str new_entry, t', s')
              })
         })"

definition ak_intern ::
  "intern_table \<Rightarrow> u8 list option \<Rightarrow> ptr_sched \<Rightarrow> (nat option \<times> intern_table \<times> ptr_sched) option"
where
  "ak_intern t str s =
     (case str of None \<Rightarrow> Some (None, t, s) | Some bs \<Rightarrow> ak_intern_n t (Some (c_string bs)) s)"

definition ak_intern_stats :: "intern_table \<Rightarrow> nat \<times> nat" where
  "ak_intern_stats t =
     (if \<not> it_initialized t then (0, 0) else (string_count t, total_bytes t))"

definition ak_intern_clear :: "intern_table \<Rightarrow> intern_table option" where
  "ak_intern_clear t =
     (if \<not> it_initialized t then Some t
      else do {
        bs \<leftarrow> it_buckets t;
        mem \<leftarrow> free_entries (bucket_count t) 0 bs (it_mem t);
        Some (t\<lparr>it_buckets := Some (map (\<lambda>_. []) (take (bucket_count t) bs)
                                    @ drop (bucket_count t) bs),
                string_count := 0, total_bytes := 0, it_mem := mem\<rparr>)
      })"

section \<open>Invariant and contents\<close>

definition entries :: "intern_table \<Rightarrow> intern_entry list" where
  "entries t = (case it_buckets t of None \<Rightarrow> [] | Some bs \<Rightarrow> concat bs)"

definition entry_text :: "intern_table \<Rightarrow> intern_entry \<Rightarrow> u8 list" where
  "entry_text t e = butlast (the (it_mem t (ie_str e)))"

definition entry_ok :: "intern_table \<Rightarrow> intern_entry \<Rightarrow> bool" where
  "entry_ok t e \<longleftrightarrow> (\<exists>str. it_mem t (ie_str e) = Some (str @ [0]) \<and> ie_len e = length str
     \<and> ie_hash e = hash_string str) \<and> ie_str e \<noteq> 0"

definition intern_ok :: "intern_table \<Rightarrow> bool" where
  "intern_ok t \<longleftrightarrow>
     (if it_initialized t then
        (\<exists>bs. it_buckets t = Some bs \<and> length bs = bucket_count t
           \<and> (\<forall>i < length bs. \<forall>e \<in> set (bs ! i). bucket_of t (ie_hash e) = i))
        \<and> bucket_count t = INITIAL_TABLE_SIZE
        \<and> string_count t = length (entries t) mod SIZE_RANGE
        \<and> total_bytes t = sum_list (map (\<lambda>e. ie_len e + 1) (entries t)) mod SIZE_RANGE
      else it_buckets t = None)
     \<and> (\<forall>e \<in> set (entries t). entry_ok t e)
     \<and> distinct (map ie_str (entries t)) \<and> distinct (map (entry_text t) (entries t))
     \<and> dom (it_mem t) = set (map ie_str (entries t))"

text \<open>The pointer under which a string is interned.\<close>

definition interned :: "intern_table \<Rightarrow> u8 list \<rightharpoonup> nat" where
  "interned t = map_of (map (\<lambda>e. (entry_text t e, ie_str e)) (entries t))"

text \<open>The operations a program performs on the table, and a run of them.\<close>

datatype intern_op = Op_init | Op_shutdown | Op_clear | Op_intern "u8 list option"

fun intern_do :: "intern_op \<Rightarrow> intern_table \<Rightarrow> ptr_sched \<Rightarrow> (intern_table \<times> ptr_sched) option" where
  "intern_do Op_init t s = Some (ak_intern_init t s)"
| "intern_do Op_shutdown t s = map_option (\<lambda>t'. (t', s)) (ak_intern_shutdown t)"
| "intern_do Op_clear t s = map_option (\<lambda>t'. (t', s)) (ak_intern_clear t)"
| "intern_do (Op_intern str) t s = map_option snd (ak_intern_n t str s)"

fun intern_run :: "intern_op list \<Rightarrow> intern_table \<Rightarrow> ptr_sched \<Rightarrow> (intern_table \<times> ptr_sched) option"
where
  "intern_run [] t s = Some (t, s)"
| "intern_run (op # ops) t s = Option.bind (intern_do op t s) (\<lambda>(t', s'). intern_run ops t' s')"

section \<open>Looking up\<close>

lemma bucket_of_less: "bucket_count t = INITIAL_TABLE_SIZE \<Longrightarrow> bucket_of t h < INITIAL_TABLE_SIZE"
  using unat_and_mask [of h 10] by (simp add: bucket_of_def mask_eq_exp_minus_1)

lemma entry_ok_text:
  assumes "entry_ok t e"
  shows "it_mem t (ie_str e) = Some (entry_text t e @ [0])" and "ie_len e = length (entry_text t e)"
    and "ie_hash e = hash_string (entry_text t e)" and "ie_str e \<noteq> 0"
  using assms by (auto simp: entry_ok_def entry_text_def)

lemma find_chain_correct:
  assumes "\<forall>e \<in> set chain. entry_ok t e"
  shows "\<exists>r. find_chain (it_mem t) str (hash_string str) chain = Some r
    \<and> (case r of None \<Rightarrow> \<forall>e \<in> set chain. entry_text t e \<noteq> str
       | Some e \<Rightarrow> e \<in> set chain \<and> entry_text t e = str)"
  using assms
proof (induction chain)
  case (Cons e es)
  note etx = entry_ok_text [of t e]
  have e: "entry_ok t e" using Cons.prems by simp
  obtain r where r: "find_chain (it_mem t) str (hash_string str) es = Some r"
      "case r of None \<Rightarrow> \<forall>e \<in> set es. entry_text t e \<noteq> str
       | Some e \<Rightarrow> e \<in> set es \<and> entry_text t e = str"
    using Cons by auto
  show ?case
  proof (cases "entry_text t e = str")
    case True
    then show ?thesis using etx [OF e] by (simp add: c_strcmp_mem_eq_0)
  next
    case False
    then have "find_chain (it_mem t) str (hash_string str) (e # es) = Some r"
      using etx [OF e] r(1) by (simp add: c_strcmp_mem_eq_0)
    then show ?thesis using r(2) False by (auto split: option.splits)
  qed
qed simp

lemma interned_Some:
  assumes "intern_ok t"
  shows "interned t str = Some p \<longleftrightarrow> (\<exists>e \<in> set (entries t). entry_text t e = str \<and> ie_str e = p)"
proof -
  have keys: "map fst (map (\<lambda>e. (entry_text t e, ie_str e)) (entries t)) = map (entry_text t) (entries t)"
    by simp
  have "distinct (map fst (map (\<lambda>e. (entry_text t e, ie_str e)) (entries t)))"
    unfolding keys using assms by (simp add: intern_ok_def)
  then show ?thesis
    unfolding interned_def by (subst map_of_eq_Some_iff) auto
qed

lemma interned_None: "interned t str = None \<longleftrightarrow> (\<forall>e \<in> set (entries t). entry_text t e \<noteq> str)"
  by (auto simp: interned_def map_of_eq_None_iff image_iff)

lemma intern_ok_buckets:
  assumes "intern_ok t" and "it_initialized t"
  obtains bs where "it_buckets t = Some bs" "length bs = INITIAL_TABLE_SIZE" "entries t = concat bs"
    "bucket_count t = INITIAL_TABLE_SIZE"
    "\<And>i e. i < length bs \<Longrightarrow> e \<in> set (bs ! i) \<Longrightarrow> bucket_of t (ie_hash e) = i"
  using assms by (auto simp: intern_ok_def entries_def)

lemma find_entry_correct:
  assumes ok: "intern_ok t" and init: "it_initialized t"
  shows "\<exists>r. find_entry t str (hash_string str) = Some r
    \<and> (case r of None \<Rightarrow> interned t str = None
       | Some e \<Rightarrow> interned t str = Some (ie_str e))"
proof -
  obtain bs where bs: "it_buckets t = Some bs" "length bs = INITIAL_TABLE_SIZE" "entries t = concat bs"
      "bucket_count t = INITIAL_TABLE_SIZE"
      "\<And>i e. i < length bs \<Longrightarrow> e \<in> set (bs ! i) \<Longrightarrow> bucket_of t (ie_hash e) = i"
    using intern_ok_buckets [OF ok init] by blast
  let ?i = "bucket_of t (hash_string str)"
  have i: "?i < length bs" using bucket_of_less [OF bs(4)] bs(2) by simp
  have ent: "\<forall>e \<in> set (entries t). entry_ok t e" using ok by (simp add: intern_ok_def)
  have sub: "set (bs ! ?i) \<subseteq> set (entries t)"
    using nth_mem [OF i] by (auto simp: bs(3))
  then have "\<forall>e \<in> set (bs ! ?i). entry_ok t e" using ent by auto
  then obtain r where r: "find_chain (it_mem t) str (hash_string str) (bs ! ?i) = Some r"
      "case r of None \<Rightarrow> \<forall>e \<in> set (bs ! ?i). entry_text t e \<noteq> str
       | Some e \<Rightarrow> e \<in> set (bs ! ?i) \<and> entry_text t e = str"
    using find_chain_correct by blast
  have run: "find_entry t str (hash_string str) = Some r"
    using r(1) bs(1) i by (simp add: find_entry_def mem_simps Let_def)
  show ?thesis
  proof (cases r)
    case None
    have "entry_text t e \<noteq> str" if e: "e \<in> set (entries t)" for e
    proof
      assume text_eq: "entry_text t e = str"
      obtain j where j: "j < length bs" "e \<in> set (bs ! j)"
        using e by (auto simp: bs(3) in_set_conv_nth) blast
      then have "j = ?i"
        using bs(5) [OF j] entry_ok_text(3) [of t e] ent e text_eq by simp
      then show False using r(2) None j text_eq by simp
    qed
    then show ?thesis using run None by (simp add: interned_None)
  next
    case (Some e)
    then show ?thesis
      using run r(2) sub by (auto simp: interned_Some [OF ok])
  qed
qed

section \<open>Adding a string\<close>

lemma concat_update_Cons:
  assumes "i < length bs"
  shows "mset (concat (bs[i := e # bs ! i])) = add_mset e (mset (concat bs))"
  using mset_concat_update [OF assms, of "e # bs ! i"] by simp

lemma create_entry_correct:
  assumes ok: "intern_ok t" and init: "it_initialized t" and new: "interned t str = None"
  obtains (failed) s' where "create_entry t str (hash_string str) s = Some (None, t, s')"
      "\<not> grants_cell (it_mem t) s"
    | (created) e t' s' where "create_entry t str (hash_string str) s = Some (Some e, t', s')"
      "intern_ok t'" "it_initialized t'" "interned t' = (interned t)(str \<mapsto> ie_str e)"
      "\<forall>a. it_mem t a \<noteq> None \<longrightarrow> it_mem t' a = it_mem t a"
      "it_mem t' (ie_str e) = Some (str @ [0])" "ie_str e \<notin> ran (interned t)"
proof -
  obtain bs where bs: "it_buckets t = Some bs" "length bs = INITIAL_TABLE_SIZE" "entries t = concat bs"
      "bucket_count t = INITIAL_TABLE_SIZE"
      "\<And>i e. i < length bs \<Longrightarrow> e \<in> set (bs ! i) \<Longrightarrow> bucket_of t (ie_hash e) = i"
    using intern_ok_buckets [OF ok init] by blast
  let ?h = "hash_string str"
  let ?i = "bucket_of t ?h"
  have i: "?i < length bs" using bucket_of_less [OF bs(4)] bs(2) by simp
  obtain x s1 where a1: "sys_alloc s = (x, s1)" by (rule prod.exhaust)
  obtain y s2 where a2: "alloc_cell (it_mem t) s1 = (y, s2)" by (rule prod.exhaust)
  show thesis
  proof (cases "x = None \<or> y = None")
    case True
    have "\<not> grants_cell (it_mem t) s"
      using True a1 a2 by (auto simp: grants_cell_def alloc_cell_def)
    moreover have "create_entry t str ?h s = Some (None, t, if x = None then s1 else s2)"
      using True a1 a2 by (cases x) (auto simp: create_entry_def)
    ultimately show thesis
      using failed by blast
  next
    case False
    then obtain g p where xy: "x = Some g" "y = Some p" by auto
    have p: "p \<noteq> 0" "it_mem t p = None" using alloc_cell_Some [of "it_mem t" s1 p] a2 xy by auto
    define e where "e = \<lparr>ie_str = p, ie_len = length str, ie_hash = ?h\<rparr>"
    define t' where "t' = t\<lparr>it_buckets := Some (bs[?i := e # bs ! ?i]),
        string_count := sz_add (string_count t) 1,
        total_bytes := sz_add (total_bytes t) (length str + 1),
        it_mem := (it_mem t)(p \<mapsto> str @ [0])\<rparr>"
    have run: "create_entry t str ?h s = Some (Some e, t', s2)"
      using a1 a2 xy bs(1) i by (simp add: create_entry_def mem_simps Let_def e_def t'_def)
    have ents: "mset (entries t') = add_mset e (mset (entries t))"
      using concat_update_Cons [OF i] by (simp add: entries_def t'_def bs(1))
    have live: "ie_str d \<noteq> p" if "d \<in> set (entries t)" for d
      using ok that p(2) entry_ok_text(1) [of t d] by (auto simp: intern_ok_def)
    have etx: "entry_text t' d = entry_text t d" if "d \<in> set (entries t)" for d
      using live [OF that] by (simp add: entry_text_def t'_def)
    have etx_e: "entry_text t' e = str" by (simp add: entry_text_def t'_def e_def)
    have set: "set (entries t') = insert e (set (entries t))"
      using mset_eq_setD [of "entries t'" "e # entries t"] ents by simp
    have ents_ok: "\<forall>d \<in> set (entries t'). entry_ok t' d"
      using ok live p(1) unfolding set
      by (auto simp: intern_ok_def entry_ok_def t'_def e_def)
    have d1: "distinct (map ie_str (entries t'))"
    proof -
      have "distinct (ie_str e # map ie_str (entries t))"
        using ok live by (auto simp: intern_ok_def e_def)
      then show ?thesis
        using mset_eq_imp_distinct_iff [of "map ie_str (entries t')" "ie_str e # map ie_str (entries t)"]
          ents by simp
    qed
    have map_eq: "map (entry_text t') (entries t) = map (entry_text t) (entries t)"
      using etx by simp
    have d2: "distinct (map (entry_text t') (entries t'))"
    proof -
      have d: "distinct (str # map (entry_text t) (entries t))"
        using ok new by (auto simp: intern_ok_def interned_None)
      have "mset (map (entry_text t') (entries t')) = mset (map (entry_text t') (e # entries t))"
        using ents by simp
      then have m: "mset (map (entry_text t') (entries t')) = mset (str # map (entry_text t) (entries t))"
        by (simp only: list.map etx_e map_eq)
      show ?thesis
        using mset_eq_imp_distinct_iff [OF m] d by blast
    qed
    have len: "length (entries t') = Suc (length (entries t))"
      using arg_cong [OF ents, of size] by simp
    have sum: "sum_list (map (\<lambda>e. ie_len e + 1) (entries t')) =
        (length str + 1) + sum_list (map (\<lambda>e. ie_len e + 1) (entries t))"
    proof -
      have "sum_mset (mset (map (\<lambda>e. ie_len e + 1) (entries t'))) =
          (ie_len e + 1) + sum_mset (mset (map (\<lambda>e. ie_len e + 1) (entries t)))"
        by (simp add: ents)
      then show ?thesis by (simp only: sum_mset_sum_list) (simp add: e_def)
    qed
    have buckets_ok: "bucket_of t' (ie_hash d) = j"
      if "j < length bs" "d \<in> set (bs[?i := e # bs ! ?i] ! j)" for j d
      using that bs(5) i by (cases "j = ?i") (auto simp: bucket_of_def t'_def e_def)
    have dom: "dom (it_mem t') = set (map ie_str (entries t'))"
      using ok by (simp add: set) (simp add: intern_ok_def t'_def e_def)
    let ?sum = "sum_list (map (\<lambda>e. ie_len e + 1) (entries t))"
    have old: "string_count t = length (entries t) mod SIZE_RANGE" "total_bytes t = ?sum mod SIZE_RANGE"
      using ok init by (simp_all add: intern_ok_def)
    have "string_count t' = (length (entries t) mod SIZE_RANGE + 1) mod SIZE_RANGE"
      unfolding old(1) [symmetric] by (simp add: t'_def sz_add_def)
    then have c1: "string_count t' = length (entries t') mod SIZE_RANGE"
      unfolding len mod_add_left_eq by simp
    have "total_bytes t' = (?sum mod SIZE_RANGE + (length str + 1)) mod SIZE_RANGE"
      unfolding old(2) [symmetric] by (simp add: t'_def sz_add_def)
    then have c2: "total_bytes t' = sum_list (map (\<lambda>e. ie_len e + 1) (entries t')) mod SIZE_RANGE"
      unfolding sum mod_add_left_eq by (simp only: add.commute)
    have init': "it_initialized t'" "bucket_count t' = INITIAL_TABLE_SIZE"
      using init bs(4) by (simp_all add: t'_def)
    have bk: "it_buckets t' = Some (bs[?i := e # bs ! ?i])" by (simp add: t'_def)
    have ok': "intern_ok t'"
      unfolding intern_ok_def if_P [OF init'(1)]
      using c1 c2 init' bk bs(2) buckets_ok ents_ok d1 d2 dom by auto
    have view: "interned t' = (interned t)(str \<mapsto> ie_str e)"
    proof (intro ext option_eq_by_Some)
      fix k v
      show "interned t' k = Some v \<longleftrightarrow> ((interned t)(str \<mapsto> ie_str e)) k = Some v"
        using etx etx_e new
        by (auto simp: interned_Some [OF ok] interned_Some [OF ok'] set interned_None)
    qed
    have "ie_str e \<notin> ran (interned t)"
      using live by (auto simp: ran_def interned_Some [OF ok] e_def)
    then show thesis
      using created [OF run ok' init'(1) view] p(2) by (auto simp: t'_def e_def)
  qed
qed

text \<open>Interning returns the one pointer of the string, adding it when it is new.\<close>

lemma intern_n_correct:
  assumes ok: "intern_ok t" and init: "it_initialized t"
  obtains r t' s' where "ak_intern_n t (Some str) s = Some (r, t', s')" "intern_ok t'"
    "it_initialized t'" "interned t \<subseteq>\<^sub>m interned t'"
    "\<forall>a. it_mem t a \<noteq> None \<longrightarrow> it_mem t' a = it_mem t a"
    "r = None \<longrightarrow> t' = t \<and> interned t str = None \<and> \<not> grants_cell (it_mem t) s"
    "\<forall>p. r = Some p \<longrightarrow> interned t' str = Some p \<and> it_mem t' p = Some (str @ [0])"
    "interned t str \<noteq> None \<longrightarrow> r = interned t str \<and> t' = t \<and> s' = s"
proof -
  obtain f where f: "find_entry t str (hash_string str) = Some f"
      "case f of None \<Rightarrow> interned t str = None | Some e \<Rightarrow> interned t str = Some (ie_str e)"
    using find_entry_correct [OF ok init] by blast
  show thesis
  proof (cases f)
    case (Some e)
    then have e: "interned t str = Some (ie_str e)" using f(2) by simp
    then obtain d where "d \<in> set (entries t)" "entry_text t d = str" "ie_str d = ie_str e"
      by (auto simp: interned_Some [OF ok])
    then have "it_mem t (ie_str e) = Some (str @ [0])"
      using ok entry_ok_text(1) [of t d] by (auto simp: intern_ok_def)
    moreover have "ak_intern_n t (Some str) s = Some (Some (ie_str e), t, s)"
      using f(1) Some init by (simp add: ak_intern_n_def Let_def)
    ultimately show thesis
      by (intro that [of "Some (ie_str e)" t s]) (simp_all add: ok init e)
  next
    case None
    then have new: "interned t str = None" using f(2) by simp
    from ok init new show thesis
    proof (cases rule: create_entry_correct [where s = s])
      case (failed s')
      then have "ak_intern_n t (Some str) s = Some (None, t, s')"
        using f(1) None init by (simp add: ak_intern_n_def Let_def)
      then show thesis using that [of None t s'] ok init new failed by simp
    next
      case (created e t' s')
      then have "ak_intern_n t (Some str) s = Some (Some (ie_str e), t', s')"
        using f(1) None init by (simp add: ak_intern_n_def Let_def)
      moreover have "interned t \<subseteq>\<^sub>m interned t'"
        using created new by (auto simp: map_le_def)
      ultimately show thesis
        using that [of "Some (ie_str e)" t' s'] created new by simp
    qed
  qed
qed

section \<open>Releasing\<close>

lemma free_chain_eq:
  "distinct (map ie_str es) \<Longrightarrow> set (map ie_str es) \<subseteq> dom mem \<Longrightarrow> 0 \<notin> set (map ie_str es) \<Longrightarrow>
   free_chain mem es = Some (mem |` (- set (map ie_str es)))"
proof (induction es arbitrary: mem)
  case (Cons e es)
  have "free_chain mem (e # es) = free_chain (mem(ie_str e := None)) es"
    using Cons.prems by (auto simp: free_cell_def)
  also have "\<dots> = Some (mem(ie_str e := None) |` (- set (map ie_str es)))"
  proof (rule Cons.IH)
    have "set (map ie_str es) \<subseteq> dom mem - {ie_str e}" using Cons.prems(1,2) by (simp del: set_map) blast
    then show "set (map ie_str es) \<subseteq> dom (mem(ie_str e := None))" by (simp only: dom_fun_upd if_True simp_thms)
  qed (use Cons.prems in simp_all)
  also have "mem(ie_str e := None) |` (- set (map ie_str es)) = mem |` (- set (map ie_str (e # es)))"
    by (auto simp: restrict_map_def)
  finally show ?case .
qed (simp add: restrict_map_def)

lemma free_entries_eq:
  "i + n = length bs \<Longrightarrow> distinct (map ie_str (concat (drop i bs))) \<Longrightarrow>
   set (map ie_str (concat (drop i bs))) \<subseteq> dom mem \<Longrightarrow> 0 \<notin> set (map ie_str (concat (drop i bs))) \<Longrightarrow>
   free_entries n i bs mem = Some (mem |` (- set (map ie_str (concat (drop i bs)))))"
proof (induction n arbitrary: i mem)
  case (Suc n)
  have split: "drop i bs = bs ! i # drop (i + 1) bs"
    using Suc.prems(1) by (simp add: Cons_nth_drop_Suc)
  let ?m = "mem |` (- set (map ie_str (bs ! i)))"
  have chain: "free_chain mem (bs ! i) = Some ?m"
    using Suc.prems(2-4) by (intro free_chain_eq) (auto simp: split)
  have "set (map ie_str (bs ! i)) \<inter> set (map ie_str (concat (drop (i + 1) bs))) = {}"
      "set (map ie_str (concat (drop (i + 1) bs))) \<subseteq> dom mem"
    using Suc.prems(2,3) by (simp_all add: split)
  then have "set (map ie_str (concat (drop (i + 1) bs))) \<subseteq> dom ?m"
    unfolding dom_restrict by blast
  then have "free_entries n (i + 1) bs ?m = Some (?m |` (- set (map ie_str (concat (drop (i + 1) bs)))))"
    using Suc.prems by (intro Suc.IH) (simp_all add: split)
  moreover have "?m |` (- set (map ie_str (concat (drop (i + 1) bs)))) =
      mem |` (- set (map ie_str (concat (drop i bs))))"
    by (auto simp: split restrict_map_def)
  ultimately show ?case
    using Suc.prems(1) chain by (simp add: mem_simps)
qed (simp add: restrict_map_def)

text \<open>All the memory of the table is its strings, so releasing them leaves none.\<close>

lemma free_table:
  assumes ok: "intern_ok t" and init: "it_initialized t" and bs: "it_buckets t = Some bs"
  shows "free_entries (bucket_count t) 0 bs (it_mem t) = Some Map.empty"
proof -
  have e: "entries t = concat bs" "length bs = bucket_count t"
    using ok init bs by (simp_all add: intern_ok_def entries_def)
  have "\<forall>e \<in> set (entries t). ie_str e \<noteq> 0" using ok by (simp add: intern_ok_def entry_ok_def)
  then have "0 \<notin> set (map ie_str (entries t))" by force
  then have "free_entries (bucket_count t) 0 bs (it_mem t) =
      Some (it_mem t |` (- set (map ie_str (concat (drop 0 bs)))))"
    using ok e by (intro free_entries_eq) (auto simp: intern_ok_def)
  also have "it_mem t |` (- set (map ie_str (concat (drop 0 bs)))) = Map.empty"
  proof -
    have "dom (it_mem t) = set (map ie_str (entries t))" using ok by (simp add: intern_ok_def)
    then show ?thesis by (auto simp: e(1) restrict_map_def fun_eq_iff)
  qed
  finally show ?thesis .
qed

lemma empty_table_ok:
  assumes "bucket_count t = INITIAL_TABLE_SIZE" and "it_initialized t"
    and "it_buckets t = Some (replicate INITIAL_TABLE_SIZE [])" and "string_count t = 0"
    and "total_bytes t = 0" and "it_mem t = Map.empty"
  shows "intern_ok t" and "entries t = []" and "interned t = Map.empty"
proof -
  show e: "entries t = []" using assms(3) by (simp add: entries_def)
  then show "interned t = Map.empty" by (simp add: interned_def)
  show "intern_ok t"
    unfolding intern_ok_def e using assms by (auto simp: nth_replicate)
qed

lemma intern_clear_correct:
  assumes ok: "intern_ok t" and init: "it_initialized t"
  obtains t' where "ak_intern_clear t = Some t'" "intern_ok t'" "it_initialized t'"
    "interned t' = Map.empty" "it_mem t' = Map.empty" "ak_intern_stats t' = (0, 0)"
proof -
  obtain bs where bs: "it_buckets t = Some bs" "length bs = INITIAL_TABLE_SIZE"
      "bucket_count t = INITIAL_TABLE_SIZE"
    using intern_ok_buckets [OF ok init] by blast
  let ?t = "t\<lparr>it_buckets := Some (replicate INITIAL_TABLE_SIZE []), string_count := 0,
      total_bytes := 0, it_mem := Map.empty\<rparr>"
  have "map (\<lambda>_. []) bs = replicate INITIAL_TABLE_SIZE ([] :: intern_entry list)"
    using bs(2) by (simp add: map_replicate_const)
  then have "ak_intern_clear t = Some ?t"
    using free_table [OF ok init bs(1)] bs init by (simp add: ak_intern_clear_def)
  then show thesis
    using that empty_table_ok [of ?t] bs(3) init by (simp add: ak_intern_stats_def)
qed

lemma zero_like_ok: "it_buckets t = None \<Longrightarrow> \<not> it_initialized t \<Longrightarrow> it_mem t = Map.empty \<Longrightarrow> intern_ok t"
  by (simp add: intern_ok_def entries_def)

lemma uninitialized_mem:
  "intern_ok t \<Longrightarrow> \<not> it_initialized t \<Longrightarrow> it_buckets t = None \<and> it_mem t = Map.empty"
  by (auto simp: intern_ok_def entries_def)

lemma intern_shutdown_correct:
  assumes ok: "intern_ok t"
  obtains t' where "ak_intern_shutdown t = Some t'" "intern_ok t'" "\<not> it_initialized t'"
    "it_mem t' = Map.empty"
proof (cases "it_initialized t")
  case False
  then show thesis
    using that [of t] ok uninitialized_mem by (simp add: ak_intern_shutdown_def)
next
  case True
  obtain bs where bs: "it_buckets t = Some bs" using intern_ok_buckets [OF ok True] by blast
  let ?t = "t\<lparr>it_buckets := None, bucket_count := 0, string_count := 0, total_bytes := 0,
      it_initialized := False, it_mem := Map.empty\<rparr>"
  have "ak_intern_shutdown t = Some ?t"
    using free_table [OF ok True bs] bs True by (simp add: ak_intern_shutdown_def)
  then show thesis using that [of ?t] zero_like_ok [of ?t] by simp
qed

lemma intern_init_ok:
  assumes "intern_ok t"
  shows "intern_ok (fst (ak_intern_init t s))"
proof (cases "it_initialized t")
  case True
  then show ?thesis using assms by (simp add: ak_intern_init_def)
next
  case False
  note u = uninitialized_mem [OF assms False]
  obtain g s' where "sys_alloc s = (g, s')" by fastforce
  then show ?thesis
    using False u by (cases g) (simp_all add: ak_intern_init_def zero_like_ok empty_table_ok(1))
qed

lemma intern_do_ok:
  assumes "intern_ok t"
  shows "\<exists>t' s'. intern_do op t s = Some (t', s') \<and> intern_ok t'"
proof (cases op)
  case Op_init
  then show ?thesis using intern_init_ok [OF assms, of s] by (cases "ak_intern_init t s") simp
next
  case Op_shutdown
  then show ?thesis using intern_shutdown_correct [OF assms] by force
next
  case Op_clear
  show ?thesis
  proof (cases "it_initialized t")
    case True
    then show ?thesis using intern_clear_correct [OF assms True] Op_clear by force
  next
    case False
    then show ?thesis using assms Op_clear by (simp add: ak_intern_clear_def)
  qed
next
  case (Op_intern str)
  show ?thesis
  proof (cases "str = None \<or> \<not> it_initialized t")
    case True
    then show ?thesis using assms Op_intern by (auto simp: ak_intern_n_def split: option.splits)
  next
    case False
    then obtain b where b: "str = Some b" "it_initialized t" by auto
    obtain r t' s' where "ak_intern_n t (Some b) s = Some (r, t', s')" "intern_ok t'"
      by (rule intern_n_correct [OF assms b(2), of b s])
    then show ?thesis using Op_intern b(1) by simp
  qed
qed

section \<open>The interface of an interner\<close>

text \<open>
  What clients rely on: the pointer returned for a string is recorded for it, records are
  never changed, and different strings have different pointers.
\<close>

locale interner =
  fixes ok :: "'t \<Rightarrow> bool" and record_of :: "'t \<Rightarrow> 'b \<rightharpoonup> 'p"
    and intern :: "'t \<Rightarrow> 'b \<Rightarrow> 'g sched \<Rightarrow> ('p option \<times> 't \<times> 'g sched) option"
  assumes intern_law: "ok t \<Longrightarrow> \<exists>r t' s'. intern t b s = Some (r, t', s') \<and> ok t'
      \<and> record_of t \<subseteq>\<^sub>m record_of t' \<and> (\<forall>p. r = Some p \<longrightarrow> record_of t' b = Some p)"
    and record_inj: "ok t \<Longrightarrow> record_of t a = Some p \<Longrightarrow> record_of t b = Some p \<Longrightarrow> a = b"

text \<open>Interning a list of strings, one after the other.\<close>

fun intern_all ::
  "('t \<Rightarrow> 'b \<Rightarrow> 'g sched \<Rightarrow> ('p option \<times> 't \<times> 'g sched) option) \<Rightarrow> 't \<Rightarrow> 'b list \<Rightarrow> 'g sched \<Rightarrow>
   ('p option list \<times> 't \<times> 'g sched) option" where
  "intern_all intern t [] s = Some ([], t, s)"
| "intern_all intern t (b # bs) s = do {
     (r, t', s') \<leftarrow> intern t b s;
     (rs, t'', s'') \<leftarrow> intern_all intern t' bs s';
     Some (r # rs, t'', s'')
   }"

context interner
begin

lemma intern_all_recorded:
  "ok t \<Longrightarrow> \<exists>rs t' s'. intern_all intern t bs s = Some (rs, t', s') \<and> ok t'
     \<and> record_of t \<subseteq>\<^sub>m record_of t' \<and> length rs = length bs
     \<and> (\<forall>i < length bs. \<forall>p. rs ! i = Some p \<longrightarrow> record_of t' (bs ! i) = Some p)"
proof (induction bs arbitrary: t s)
  case (Cons b bs)
  obtain r t1 s1 where one: "intern t b s = Some (r, t1, s1)" "ok t1"
      "record_of t \<subseteq>\<^sub>m record_of t1" "\<forall>p. r = Some p \<longrightarrow> record_of t1 b = Some p"
    using intern_law [OF Cons.prems, of b s] by blast
  obtain rs t2 s2 where rest: "intern_all intern t1 bs s1 = Some (rs, t2, s2)" "ok t2"
      "record_of t1 \<subseteq>\<^sub>m record_of t2" "length rs = length bs"
      "\<forall>i < length bs. \<forall>p. rs ! i = Some p \<longrightarrow> record_of t2 (bs ! i) = Some p"
    using Cons.IH [OF one(2), of s1] by blast
  have "record_of t2 b = Some p" if "r = Some p" for p
    using one(4) that rest(3) by (auto simp: map_le_def dom_def)
  then have "\<forall>i < length (b # bs). \<forall>p. (r # rs) ! i = Some p \<longrightarrow> record_of t2 ((b # bs) ! i) = Some p"
    using rest(5) by (auto simp: nth_Cons split: nat.splits)
  then show ?case
    using one(1,3) rest(1-4) map_le_trans [of "record_of t" "record_of t1" "record_of t2"] by auto
qed (simp add: map_le_refl)

text \<open>Two results of a run of interns are the same pointer exactly for equal strings.\<close>

lemma canonical:
  assumes "ok t" and "intern_all intern t bs s = Some (rs, t', s')"
    and "i < length bs" and "j < length bs" and "rs ! i = Some p" and "rs ! j = Some q"
  shows "p = q \<longleftrightarrow> bs ! i = bs ! j"
proof -
  have "ok t'" "record_of t' (bs ! i) = Some p" "record_of t' (bs ! j) = Some q"
    using intern_all_recorded [OF assms(1), of bs s] assms(2-6) by auto
  then show ?thesis using record_inj [of t' "bs ! i" p "bs ! j"] by auto
qed

end

lemma interned_inj:
  assumes ok: "intern_ok t" and "interned t a = Some p" and "interned t b = Some p"
  shows "a = b"
proof -
  obtain d e where de: "d \<in> set (entries t)" "entry_text t d = a" "ie_str d = p"
      "e \<in> set (entries t)" "entry_text t e = b" "ie_str e = p"
    using assms by (auto simp: interned_Some [OF ok])
  have "distinct (map ie_str (entries t))" using ok by (simp add: intern_ok_def)
  then have "d = e" using de inj_onD [of ie_str "set (entries t)" d e] by (simp add: distinct_map)
  then show ?thesis using de by simp
qed

definition live_table :: "intern_table \<Rightarrow> bool" where
  "live_table t \<longleftrightarrow> intern_ok t \<and> it_initialized t"

interpretation tab: interner live_table interned "\<lambda>t b. ak_intern_n t (Some b)"
proof
  fix t b and s :: ptr_sched
  assume "live_table t"
  then have t: "intern_ok t" "it_initialized t" by (simp_all add: live_table_def)
  obtain r t' s' where "ak_intern_n t (Some b) s = Some (r, t', s')" "intern_ok t'"
    "it_initialized t'" "interned t \<subseteq>\<^sub>m interned t'"
    "\<forall>p. r = Some p \<longrightarrow> interned t' b = Some p \<and> it_mem t' p = Some (b @ [0])"
    by (rule intern_n_correct [OF t, of b s])
  then show "\<exists>r t' s'. ak_intern_n t (Some b) s = Some (r, t', s') \<and> live_table t'
      \<and> interned t \<subseteq>\<^sub>m interned t' \<and> (\<forall>p. r = Some p \<longrightarrow> interned t' b = Some p)"
    by (auto simp: live_table_def)
qed (auto simp: live_table_def dest: interned_inj)


section \<open>Properties of the interner\<close>

lemma live_intern:
  assumes "live_table t"
  obtains r t' s' where "ak_intern_n t (Some str) s = Some (r, t', s')" "live_table t'"
    "interned t \<subseteq>\<^sub>m interned t'" "\<forall>a. it_mem t a \<noteq> None \<longrightarrow> it_mem t' a = it_mem t a"
    "r = None \<longrightarrow> t' = t \<and> interned t str = None \<and> \<not> grants_cell (it_mem t) s"
    "\<forall>p. r = Some p \<longrightarrow> interned t' str = Some p \<and> it_mem t' p = Some (str @ [0])"
    "interned t str \<noteq> None \<longrightarrow> r = interned t str \<and> t' = t \<and> s' = s"
proof -
  have t: "intern_ok t" "it_initialized t" using assms by (simp_all add: live_table_def)
  obtain r t' s' where i: "ak_intern_n t (Some str) s = Some (r, t', s')" "intern_ok t'"
    "it_initialized t'" "interned t \<subseteq>\<^sub>m interned t'"
    "\<forall>a. it_mem t a \<noteq> None \<longrightarrow> it_mem t' a = it_mem t a"
    "r = None \<longrightarrow> t' = t \<and> interned t str = None \<and> \<not> grants_cell (it_mem t) s"
    "\<forall>p. r = Some p \<longrightarrow> interned t' str = Some p \<and> it_mem t' p = Some (str @ [0])"
    "interned t str \<noteq> None \<longrightarrow> r = interned t str \<and> t' = t \<and> s' = s"
    by (rule intern_n_correct [OF t, of str s])
  have "live_table t'" using i(2,3) by (simp add: live_table_def)
  from i(1) this i(4-8) show thesis by (rule that)
qed

lemma intern_run_ok:
  "intern_ok t \<Longrightarrow> \<exists>t' s'. intern_run ops t s = Some (t', s') \<and> intern_ok t'"
proof (induction ops arbitrary: t s)
  case (Cons op ops)
  then show ?case using intern_do_ok [OF Cons.prems, of op s] by fastforce
qed simp

lemma zero_table_ok: "intern_ok zero_table"
  by (rule zero_like_ok) (simp_all add: zero_table_def)

text \<open>The entries of a well-formed table are in bijection with the recorded strings.\<close>

lemma dom_interned: "dom (interned t) = entry_text t ` set (entries t)"
  by (simp add: interned_def dom_map_of_conv_image_fst image_image)

lemma interned_counts:
  assumes "live_table t"
  shows "ak_intern_stats t = (card (dom (interned t)) mod SIZE_RANGE,
           (\<Sum>str \<in> dom (interned t). length str + 1) mod SIZE_RANGE)"
proof -
  have ok: "intern_ok t" "it_initialized t" using assms by (simp_all add: live_table_def)
  have d: "distinct (map (entry_text t) (entries t))" using ok(1) by (simp add: intern_ok_def)
  have "card (dom (interned t)) = length (entries t)"
    using distinct_card [OF d] by (simp add: dom_interned)
  moreover have "(\<Sum>str \<in> dom (interned t). length str + 1)
      = sum_list (map (\<lambda>e. ie_len e + 1) (entries t))"
  proof -
    have "map (\<lambda>str. length str + 1) (map (entry_text t) (entries t))
        = map (\<lambda>e. ie_len e + 1) (entries t)"
      using ok(1) entry_ok_text(2) [of t] by (simp add: intern_ok_def)
    then show ?thesis
      using sum_list_distinct_conv_sum_set [OF d, of "\<lambda>str. length str + 1"]
      by (simp only: dom_interned set_map)
  qed
  moreover have "string_count t = length (entries t) mod SIZE_RANGE"
      "total_bytes t = sum_list (map (\<lambda>e. ie_len e + 1) (entries t)) mod SIZE_RANGE"
    using ok by (simp_all add: intern_ok_def)
  ultimately show ?thesis
    using ok(2) by (simp only: ak_intern_stats_def if_False simp_thms)
qed


text \<open>
  Interning a string in an initialised table always returns; the table keeps its
  invariant and every recorded string keeps its pointer and its bytes. The pointer returned
  holds the string and a NUL; a string already recorded gets its recorded pointer without
  an allocation; NULL is returned only when an allocation is refused, and then nothing
  changes.\<close>

theorem intern_n_spec:
  assumes "live_table t"
  shows "\<exists>r t' s'. ak_intern_n t (Some str) s = Some (r, t', s') \<and> live_table t'
    \<and> interned t \<subseteq>\<^sub>m interned t' \<and> (\<forall>a \<in> dom (it_mem t). it_mem t' a = it_mem t a)
    \<and> (case r of Some p \<Rightarrow> interned t' str = Some p \<and> it_mem t' p = Some (str @ [0])
        | None \<Rightarrow> t' = t \<and> interned t str = None \<and> \<not> grants_cell (it_mem t) s)
    \<and> (\<forall>p. interned t str = Some p \<longrightarrow> r = Some p \<and> t' = t \<and> s' = s)"
proof -
  obtain r t' s' where i: "ak_intern_n t (Some str) s = Some (r, t', s')" "live_table t'"
    "interned t \<subseteq>\<^sub>m interned t'" "\<forall>a. it_mem t a \<noteq> None \<longrightarrow> it_mem t' a = it_mem t a"
    "r = None \<longrightarrow> t' = t \<and> interned t str = None \<and> \<not> grants_cell (it_mem t) s"
    "\<forall>p. r = Some p \<longrightarrow> interned t' str = Some p \<and> it_mem t' p = Some (str @ [0])"
    "interned t str \<noteq> None \<longrightarrow> r = interned t str \<and> t' = t \<and> s' = s"
    by (rule live_intern [OF assms, of str s])
  have kept: "\<forall>a \<in> dom (it_mem t). it_mem t' a = it_mem t a" using i(4) by auto
  have result: "case r of Some p \<Rightarrow> interned t' str = Some p \<and> it_mem t' p = Some (str @ [0])
      | None \<Rightarrow> t' = t \<and> interned t str = None \<and> \<not> grants_cell (it_mem t) s"
    using i(5,6) by (cases r) auto
  have "\<forall>p. interned t str = Some p \<longrightarrow> r = Some p \<and> t' = t \<and> s' = s" using i(7) by auto
  with i(1-3) kept result show ?thesis by blast
qed

text \<open>
  Every sequence of calls of init, shutdown, clear and intern from the zeroed global
  table runs to its end with every access defined and no string freed twice, and the
  table's invariant holds in the state it reaches; there, the statistics of an initialised
  table are the number and the total size of the recorded strings, clear and shutdown
  return, and after either of them no string of the table is left allocated.\<close>

theorem intern_reachable:
  "\<exists>t s'. intern_run ops zero_table s = Some (t, s') \<and> intern_ok t
    \<and> (if it_initialized t
        then ak_intern_stats t = (card (dom (interned t)) mod SIZE_RANGE,
               (\<Sum>str \<in> dom (interned t). length str + 1) mod SIZE_RANGE)
        else ak_intern_stats t = (0, 0))
    \<and> (\<exists>tc. ak_intern_clear t = Some tc \<and> it_mem tc = Map.empty \<and> ak_intern_stats tc = (0, 0)
         \<and> it_initialized tc = it_initialized t)
    \<and> (\<exists>td. ak_intern_shutdown t = Some td \<and> it_mem td = Map.empty \<and> \<not> it_initialized td)"
proof -
  obtain t s' where t: "intern_run ops zero_table s = Some (t, s')" "intern_ok t"
    using intern_run_ok [OF zero_table_ok] by blast
  have stats: "if it_initialized t
      then ak_intern_stats t = (card (dom (interned t)) mod SIZE_RANGE,
             (\<Sum>str \<in> dom (interned t). length str + 1) mod SIZE_RANGE)
      else ak_intern_stats t = (0, 0)"
    using interned_counts [of t] t(2) by (auto simp: live_table_def ak_intern_stats_def)
  have clear: "\<exists>tc. ak_intern_clear t = Some tc \<and> it_mem tc = Map.empty
      \<and> ak_intern_stats tc = (0, 0) \<and> it_initialized tc = it_initialized t"
  proof (cases "it_initialized t")
    case True
    then show ?thesis using intern_clear_correct [OF t(2) True] by metis
  next
    case False
    then show ?thesis
      using uninitialized_mem [OF t(2)] by (simp add: ak_intern_clear_def ak_intern_stats_def)
  qed
  have "\<exists>td. ak_intern_shutdown t = Some td \<and> it_mem td = Map.empty \<and> \<not> it_initialized td"
    using intern_shutdown_correct [OF t(2)] by metis
  with t stats clear show ?thesis by blast
qed

definition live_example :: intern_table where
  "live_example = fst (ak_intern_init zero_table [Some id])"

lemma live_example_live: "live_table live_example"
  using intern_init_ok [OF zero_table_ok, of "[Some id]"]
  by (simp add: live_example_def live_table_def ak_intern_init_def zero_table_def)


theorem intern_n_spec_witness:
  "\<exists>r t' s'. ak_intern_n live_example (Some [97]) [] = Some (r, t', s') \<and> live_table t'
    \<and> interned live_example \<subseteq>\<^sub>m interned t'"
  using intern_n_spec [OF live_example_live, of "[97]" "[]"] by blast

end
