(* ===== verification/Arena.thy ===== *)
theory Arena
  imports DynList
begin

text \<open>
  Model of kernel/arena/src/arena.c: the region allocator. The blocks of an arena live in
  the store \<open>blocks\<close>, from addresses to blocks, linked by \<open>blk_next\<close> (0 is NULL); a block's
  data is the list of its bytes. A pointer into the arena is a block and an offset into its
  data; two such pointers are equal when block and offset are. A \<open>size_t\<close> is a 64-bit word,
  so every sum of the code wraps as it does in C. The loops along the chain of blocks are
  partial functions: \<open>None\<close> is an undefined access, or a chain without an end.

  The lemmas show that in every reachable state the blocks form one chain from the first
  block through the current one and the counters are the sums of the fields of the blocks; that
  an allocation of at most \<open>2 ^ 62\<close> bytes lies inside its block, at an aligned offset, apart
  from every byte in use; that restoring a snapshot gives back exactly the bytes that were
  in use; what is copied by the duplicating operations; and how the code fails for sizes
  whose sums wrap and for blocks behind the current one.
\<close>

section \<open>Definitions\<close>

abbreviation AK_ARENA_DEFAULT_BLOCK_SIZE :: u64 where
  "AK_ARENA_DEFAULT_BLOCK_SIZE \<equiv> 64 * 1024"

abbreviation AK_ARENA_DEFAULT_ALIGNMENT :: u64 where
  "AK_ARENA_DEFAULT_ALIGNMENT \<equiv> 8"

record arena_block =
  blk_data :: "u8 list"
  blk_size :: u64
  blk_used :: u64
  blk_num :: u64
  blk_next :: nat

type_synonym block_store = "nat \<rightharpoonup> arena_block"

record ak_arena =
  first_block :: nat
  current_block :: nat
  block_size :: u64
  total_allocated :: u64
  total_used :: u64
  next_block_num :: u64
  blocks :: block_store

record ak_arena_mark =
  mark_block :: nat
  mark_offset :: u64
  mark_block_num :: u64

type_synonym arena_ptr = "nat \<times> u64"

definition align_up :: "u64 \<Rightarrow> u64 \<Rightarrow> u64" where
  "align_up v align = (v + align - 1) AND NOT (align - 1)"

text \<open>The outcome \<open>Some g\<close> of an allocation of bytes gives their indeterminate contents.\<close>

definition alloc_data :: "u64 \<Rightarrow> ptr_sched \<Rightarrow> u8 list option \<times> ptr_sched" where
  "alloc_data sz s =
     (case sys_alloc s of
        (r, s') \<Rightarrow> (map_option (\<lambda>g. map (\<lambda>i. word_of_nat (g i)) [0..<unat sz]) r, s'))"

definition allocate_block ::
  "block_store \<Rightarrow> u64 \<Rightarrow> u64 \<Rightarrow> ptr_sched \<Rightarrow> nat option \<times> block_store \<times> ptr_sched" where
  "allocate_block st sz num s =
     (case alloc_cell st s of
        (None, s1) \<Rightarrow> (None, st, s1)
      | (Some b, s1) \<Rightarrow>
         (case alloc_data sz s1 of
            (None, s2) \<Rightarrow> (None, st, s2)
          | (Some d, s2) \<Rightarrow>
              (Some b,
               st(b \<mapsto> \<lparr>blk_data = d, blk_size = sz, blk_used = 0, blk_num = num, blk_next = 0\<rparr>),
               s2)))"

partial_function (option) free_block_chain :: "block_store \<Rightarrow> nat \<Rightarrow> block_store option" where
  "free_block_chain st block =
     (if block = 0 then Some st
      else Option.bind (st block) (\<lambda>r. free_block_chain (st(block := None)) (blk_next r)))"

definition ak_arena_new :: "u64 \<Rightarrow> ptr_sched \<Rightarrow> ak_arena option \<times> ptr_sched" where
  "ak_arena_new bsize s =
     (if bsize = 0 then (None, s)
      else (case sys_alloc s of
              (None, s1) \<Rightarrow> (None, s1)
            | (Some _, s1) \<Rightarrow>
               (case allocate_block Map.empty bsize 0 s1 of
                  (None, _, s2) \<Rightarrow> (None, s2)
                | (Some b, st, s2) \<Rightarrow>
                    (Some \<lparr>first_block = b, current_block = b, block_size = bsize,
                           total_allocated = bsize, total_used = 0, next_block_num = 1,
                           blocks = st\<rparr>, s2))))"

definition ak_arena_new_default :: "ptr_sched \<Rightarrow> ak_arena option \<times> ptr_sched" where
  "ak_arena_new_default s = ak_arena_new AK_ARENA_DEFAULT_BLOCK_SIZE s"

text \<open>The blocks that are still allocated when the arena has been freed.\<close>

definition ak_arena_free :: "ak_arena option \<Rightarrow> block_store option" where
  "ak_arena_free arena =
     (case arena of None \<Rightarrow> Some Map.empty
      | Some a \<Rightarrow> free_block_chain (blocks a) (first_block a))"

text \<open>The end of an allocation: the pointer into block \<open>b\<close>, and the counters.\<close>

definition take_bytes ::
  "ak_arena \<Rightarrow> nat \<Rightarrow> u64 \<Rightarrow> u64 \<Rightarrow> u64 \<Rightarrow> (arena_ptr option \<times> ak_arena option) option" where
  "take_bytes a b aligned_offset sz needed =
     map_option (\<lambda>block.
       (Some (b, aligned_offset),
        Some (a\<lparr>blocks := (blocks a)(b \<mapsto> block\<lparr>blk_used := aligned_offset + sz\<rparr>),
                total_used := total_used a + needed\<rparr>))) (blocks a b)"

text \<open>The branch of an allocation that needs a new block behind \<open>block\<close>.\<close>

definition grow_arena ::
  "ak_arena \<Rightarrow> arena_block \<Rightarrow> u64 \<Rightarrow> ptr_sched \<Rightarrow>
   (arena_ptr option \<times> ak_arena option \<times> ptr_sched) option" where
  "grow_arena a block sz s =
     (let new_block_size = (if sz > block_size a then align_up sz (block_size a)
                            else block_size a);
          a1 = a\<lparr>next_block_num := next_block_num a + 1\<rparr>
      in case allocate_block (blocks a) new_block_size (next_block_num a) s of
           (None, _, s') \<Rightarrow> Some (None, Some a1, s')
         | (Some nb, st, s') \<Rightarrow>
             map_option (\<lambda>(p, a'). (p, a', s'))
               (take_bytes
                  (a1\<lparr>blocks := st(current_block a \<mapsto> block\<lparr>blk_next := nb\<rparr>),
                      current_block := nb,
                      total_allocated := total_allocated a + new_block_size\<rparr>)
                  nb 0 sz sz))"

definition ak_arena_alloc_aligned ::
  "ak_arena option \<Rightarrow> u64 \<Rightarrow> u64 \<Rightarrow> ptr_sched \<Rightarrow>
   (arena_ptr option \<times> ak_arena option \<times> ptr_sched) option" where
  "ak_arena_alloc_aligned arena sz align s =
     (case arena of None \<Rightarrow> Some (None, None, s)
      | Some a \<Rightarrow>
         if sz = 0 then Some (None, Some a, s)
         else if align = 0 \<or> align AND (align - 1) \<noteq> 0 then Some (None, Some a, s)
         else do {
           block \<leftarrow> blocks a (current_block a);
           let aligned_offset = align_up (blk_used block) align;
           let needed = aligned_offset - blk_used block + sz;
           if blk_used block + needed > blk_size block then grow_arena a block sz s
           else map_option (\<lambda>(p, a'). (p, a', s))
                  (take_bytes a (current_block a) aligned_offset sz needed)
         })"

definition ak_arena_alloc ::
  "ak_arena option \<Rightarrow> u64 \<Rightarrow> ptr_sched \<Rightarrow>
   (arena_ptr option \<times> ak_arena option \<times> ptr_sched) option" where
  "ak_arena_alloc arena sz s = ak_arena_alloc_aligned arena sz AK_ARENA_DEFAULT_ALIGNMENT s"

text \<open>Reads and writes through a pointer, inside the data of its block only.\<close>

definition load_bytes :: "ak_arena \<Rightarrow> arena_ptr \<Rightarrow> nat \<Rightarrow> u8 list option" where
  "load_bytes a p n =
     (case blocks a (fst p) of None \<Rightarrow> None
      | Some r \<Rightarrow> if unat (snd p) + n \<le> length (blk_data r)
                  then Some (take n (drop (unat (snd p)) (blk_data r))) else None)"

definition store_bytes :: "ak_arena \<Rightarrow> arena_ptr \<Rightarrow> u8 list \<Rightarrow> ak_arena option" where
  "store_bytes a p bs =
     (case blocks a (fst p) of None \<Rightarrow> None
      | Some r \<Rightarrow> map_option
          (\<lambda>d. a\<lparr>blocks := (blocks a)(fst p \<mapsto> r\<lparr>blk_data := d\<rparr>)\<rparr>)
          (mem_copy (blk_data r) (unat (snd p)) bs 0 (length bs)))"

definition ak_arena_calloc ::
  "ak_arena option \<Rightarrow> u64 \<Rightarrow> u64 \<Rightarrow> ptr_sched \<Rightarrow>
   (arena_ptr option \<times> ak_arena option \<times> ptr_sched) option" where
  "ak_arena_calloc arena nmemb sz s =
     (if arena = None \<or> nmemb = 0 \<or> sz = 0 then Some (None, arena, s)
      else let total_size = nmemb * sz in
        if total_size div nmemb \<noteq> sz then Some (None, arena, s)
        else do {
          (ptr, arena', s') \<leftarrow> ak_arena_alloc arena total_size s;
          (case (ptr, arena') of
             (Some p, Some a) \<Rightarrow> do {
               a' \<leftarrow> store_bytes a p (replicate (unat total_size) 0);
               Some (Some p, Some a', s')
             }
           | _ \<Rightarrow> Some (ptr, arena', s'))
        })"

text \<open>The \<open>memcpy\<close> of a reallocation, undefined for regions that overlap.\<close>

definition copy_bytes :: "ak_arena \<Rightarrow> arena_ptr \<Rightarrow> arena_ptr \<Rightarrow> nat \<Rightarrow> ak_arena option" where
  "copy_bytes a dst src n =
     (if fst dst = fst src \<and> unat (snd dst) < unat (snd src) + n \<and> unat (snd src) < unat (snd dst) + n
      then None
      else Option.bind (load_bytes a src n) (store_bytes a dst))"

definition ak_arena_realloc ::
  "ak_arena option \<Rightarrow> arena_ptr option \<Rightarrow> u64 \<Rightarrow> u64 \<Rightarrow> ptr_sched \<Rightarrow>
   (arena_ptr option \<times> ak_arena option \<times> ptr_sched) option" where
  "ak_arena_realloc arena ptr old_size new_size s =
     (case arena of None \<Rightarrow> Some (None, None, s)
      | Some a \<Rightarrow>
         if new_size = 0 then Some (None, arena, s)
         else (case ptr of None \<Rightarrow> ak_arena_alloc arena new_size s
           | Some p \<Rightarrow>
              if new_size \<le> old_size then Some (Some p, arena, s)
              else do {
                block \<leftarrow> blocks a (current_block a);
                let additional = new_size - old_size;
                if fst p = current_block a \<and> snd p + old_size = blk_used block
                   \<and> blk_used block + additional \<le> blk_size block
                then Some (Some p,
                  Some (a\<lparr>blocks := (blocks a)(current_block a \<mapsto>
                            block\<lparr>blk_used := blk_used block + additional\<rparr>),
                          total_used := total_used a + additional\<rparr>), s)
                else do {
                  (new_ptr, arena', s') \<leftarrow> ak_arena_alloc arena new_size s;
                  (case (new_ptr, arena') of
                     (Some q, Some a') \<Rightarrow> do {
                       a'' \<leftarrow> copy_bytes a' q p (unat old_size);
                       Some (Some q, Some a'', s')
                     }
                   | _ \<Rightarrow> Some (None, arena', s'))
                }
              }))"

partial_function (option) reset_blocks :: "block_store \<Rightarrow> nat \<Rightarrow> block_store option" where
  "reset_blocks st block =
     (if block = 0 then Some st
      else Option.bind (st block)
             (\<lambda>r. reset_blocks (st(block \<mapsto> r\<lparr>blk_used := 0\<rparr>)) (blk_next r)))"

definition ak_arena_reset :: "ak_arena option \<Rightarrow> ak_arena option option" where
  "ak_arena_reset arena =
     (case arena of None \<Rightarrow> Some None
      | Some a \<Rightarrow> do {
          st \<leftarrow> reset_blocks (blocks a) (first_block a);
          Some (Some (a\<lparr>blocks := st, current_block := first_block a, total_used := 0\<rparr>))
        })"

definition ak_arena_snapshot :: "ak_arena option \<Rightarrow> ak_arena_mark option" where
  "ak_arena_snapshot arena =
     (case arena of None \<Rightarrow> Some \<lparr>mark_block = 0, mark_offset = 0, mark_block_num = 0\<rparr>
      | Some a \<Rightarrow> do {
          r \<leftarrow> blocks a (current_block a);
          Some \<lparr>mark_block = current_block a, mark_offset = blk_used r, mark_block_num = blk_num r\<rparr>
        })"

partial_function (option) seek_block :: "block_store \<Rightarrow> nat \<Rightarrow> nat \<Rightarrow> nat option" where
  "seek_block st current block =
     (if current \<noteq> 0 \<and> current \<noteq> block
      then Option.bind (st current) (\<lambda>r. seek_block st (blk_next r) block)
      else Some current)"

partial_function (option) reclaim_blocks ::
  "block_store \<Rightarrow> nat \<Rightarrow> u64 \<Rightarrow> (block_store \<times> u64) option" where
  "reclaim_blocks st nxt reclaimed =
     (if nxt = 0 then Some (st, reclaimed)
      else Option.bind (st nxt)
             (\<lambda>r. reclaim_blocks (st(nxt \<mapsto> r\<lparr>blk_used := 0\<rparr>)) (blk_next r)
                    (reclaimed + blk_used r)))"

definition ak_arena_restore :: "ak_arena option \<Rightarrow> ak_arena_mark \<Rightarrow> ak_arena option option" where
  "ak_arena_restore arena mark =
     (case arena of None \<Rightarrow> Some None
      | Some a \<Rightarrow>
         if mark_block mark = 0 then Some arena
         else do {
           r \<leftarrow> blocks a (mark_block mark);
           if blk_num r \<noteq> mark_block_num mark then Some arena
           else do {
             current \<leftarrow> seek_block (blocks a) (first_block a) (mark_block mark);
             if current \<noteq> mark_block mark then Some arena
             else do {
               (st, reclaimed) \<leftarrow> reclaim_blocks (blocks a) (blk_next r) 0;
               block \<leftarrow> st (mark_block mark);
               Some (Some (a\<lparr>
                 blocks := st(mark_block mark \<mapsto> block\<lparr>blk_used := mark_offset mark\<rparr>),
                 current_block := mark_block mark,
                 total_used := total_used a - (reclaimed + (blk_used block - mark_offset mark))\<rparr>))
             }
           }
         })"

definition ak_arena_stats :: "ak_arena option \<Rightarrow> u64 \<times> u64" where
  "ak_arena_stats arena =
     (case arena of None \<Rightarrow> (0, 0) | Some a \<Rightarrow> (total_allocated a, total_used a))"

text \<open>\<open>strlen\<close> is defined on the bytes of a string that has a terminating NUL.\<close>

definition c_strlen :: "u8 list \<Rightarrow> nat option" where
  "c_strlen str = (if 0 \<in> set str then Some (length (takeWhile (\<lambda>c. c \<noteq> 0) str)) else None)"

definition ak_arena_strdup ::
  "ak_arena option \<Rightarrow> u8 list option \<Rightarrow> ptr_sched \<Rightarrow>
   (arena_ptr option \<times> ak_arena option \<times> ptr_sched) option" where
  "ak_arena_strdup arena str s =
     (case str of None \<Rightarrow> Some (None, arena, s)
      | Some bs \<Rightarrow>
         if arena = None then Some (None, arena, s)
         else do {
           len \<leftarrow> c_strlen bs;
           (copy, arena', s') \<leftarrow> ak_arena_alloc arena (word_of_nat len + 1) s;
           (case (copy, arena') of
              (Some p, Some a) \<Rightarrow> do {
                a' \<leftarrow> store_bytes a p (take (len + 1) bs);
                Some (Some p, Some a', s')
              }
            | _ \<Rightarrow> Some (None, arena', s'))
         })"

text \<open>The loop that measures at most \<open>n\<close> bytes, from index \<open>len\<close>.\<close>

function strnlen_loop :: "u8 list \<Rightarrow> nat \<Rightarrow> nat \<Rightarrow> nat option" where
  "strnlen_loop str n len =
     (if len < n
      then (case mem_read str len of None \<Rightarrow> None
            | Some c \<Rightarrow> if c \<noteq> 0 then strnlen_loop str n (len + 1) else Some len)
      else Some len)"
  by pat_completeness auto
termination by (relation "measure (\<lambda>(str, n, len). n - len)") auto

declare strnlen_loop.simps [simp del]

definition ak_arena_strndup ::
  "ak_arena option \<Rightarrow> u8 list option \<Rightarrow> u64 \<Rightarrow> ptr_sched \<Rightarrow>
   (arena_ptr option \<times> ak_arena option \<times> ptr_sched) option" where
  "ak_arena_strndup arena str n s =
     (case str of None \<Rightarrow> Some (None, arena, s)
      | Some bs \<Rightarrow>
         if arena = None then Some (None, arena, s)
         else do {
           len \<leftarrow> strnlen_loop bs (unat n) 0;
           (copy, arena', s') \<leftarrow> ak_arena_alloc arena (word_of_nat len + 1) s;
           (case (copy, arena') of
              (Some p, Some a) \<Rightarrow> do {
                a1 \<leftarrow> store_bytes a p (take len bs);
                a2 \<leftarrow> store_bytes a1 (fst p, snd p + word_of_nat len) [0];
                Some (Some p, Some a2, s')
              }
            | _ \<Rightarrow> Some (None, arena', s'))
         })"

declare free_block_chain.simps [code]
declare reset_blocks.simps [code]
declare seek_block.simps [code]
declare reclaim_blocks.simps [code]

section \<open>Invariant and contents\<close>

text \<open>The list of the addresses of the blocks linked from \<open>b\<close> on.\<close>

fun block_chain :: "block_store \<Rightarrow> nat \<Rightarrow> nat list \<Rightarrow> bool" where
  "block_chain st b [] \<longleftrightarrow> b = 0"
| "block_chain st b (c # cs) \<longleftrightarrow>
     b = c \<and> b \<noteq> 0 \<and> (case st b of None \<Rightarrow> False | Some r \<Rightarrow> block_chain st (blk_next r) cs)"

definition used_of :: "block_store \<Rightarrow> nat \<Rightarrow> u64" where
  "used_of st b = (case st b of None \<Rightarrow> 0 | Some r \<Rightarrow> blk_used r)"

definition size_of :: "block_store \<Rightarrow> nat \<Rightarrow> u64" where
  "size_of st b = (case st b of None \<Rightarrow> 0 | Some r \<Rightarrow> blk_size r)"

definition block_ok :: "arena_block \<Rightarrow> bool" where
  "block_ok r \<longleftrightarrow> length (blk_data r) = unat (blk_size r) \<and> blk_used r \<le> blk_size r
     \<and> unat (blk_size r) < 2 ^ 63"

text \<open>
  The blocks \<open>pre\<close> before the current one, \<open>post\<close> behind it; those behind it, and those
  that are no longer linked, have no byte in use.
\<close>

definition arena_shape :: "ak_arena \<Rightarrow> nat list \<Rightarrow> nat list \<Rightarrow> bool" where
  "arena_shape a pre post \<longleftrightarrow>
     block_chain (blocks a) (first_block a) (pre @ current_block a # post)
     \<and> distinct (pre @ current_block a # post)
     \<and> (\<forall>b. b \<notin> set (pre @ [current_block a]) \<longrightarrow> used_of (blocks a) b = 0)"

definition arena_counts :: "ak_arena \<Rightarrow> bool" where
  "arena_counts a \<longleftrightarrow> finite (dom (blocks a)) \<and> (\<forall>b r. blocks a b = Some r \<longrightarrow> block_ok r)
     \<and> total_used a = (\<Sum>b \<in> dom (blocks a). used_of (blocks a) b)
     \<and> total_allocated a = (\<Sum>b \<in> dom (blocks a). size_of (blocks a) b)
     \<and> 0 < block_size a \<and> unat (block_size a) \<le> 2 ^ 62"

definition arena_ok :: "ak_arena \<Rightarrow> bool" where
  "arena_ok a \<longleftrightarrow> arena_counts a \<and> (\<exists>pre post. arena_shape a pre post)"

text \<open>The bytes in use, and what a byte holds.\<close>

definition in_use :: "ak_arena \<Rightarrow> (nat \<times> nat) set" where
  "in_use a = {(b, i). i < unat (used_of (blocks a) b)}"

definition byte_at :: "ak_arena \<Rightarrow> nat \<times> nat \<Rightarrow> u8" where
  "byte_at a = (\<lambda>(b, i). blk_data (the (blocks a b)) ! i)"

definition valid_ptr :: "ak_arena \<Rightarrow> arena_ptr \<Rightarrow> nat \<Rightarrow> bool" where
  "valid_ptr a p n \<longleftrightarrow> fst p \<in> dom (blocks a) \<and> unat (snd p) + n \<le> unat (used_of (blocks a) (fst p))"

definition region :: "arena_ptr \<Rightarrow> nat \<Rightarrow> (nat \<times> nat) set" where
  "region p n = {fst p} \<times> {unat (snd p)..<unat (snd p) + n}"

text \<open>
  What an operation between a snapshot and its restoration does: it changes the current
  block behind its used part only, or links a new block behind it and makes it current.
\<close>

definition arena_step :: "ak_arena \<Rightarrow> ak_arena \<Rightarrow> bool" where
  "arena_step a a' \<longleftrightarrow>
     first_block a' = first_block a \<and> block_size a' = block_size a
     \<and> (\<forall>b \<in> dom (blocks a). b \<noteq> current_block a \<longrightarrow> blocks a' b = blocks a b)
     \<and> (\<exists>r r'. blocks a (current_block a) = Some r \<and> blocks a' (current_block a) = Some r'
          \<and> blk_used r \<le> blk_used r' \<and> blk_num r' = blk_num r \<and> blk_size r' = blk_size r
          \<and> take (unat (blk_used r)) (blk_data r') = take (unat (blk_used r)) (blk_data r)
          \<and> (current_block a' = current_block a \<and> blk_next r' = blk_next r
               \<and> dom (blocks a') = dom (blocks a)
             \<or> current_block a' \<notin> dom (blocks a) \<and> current_block a' \<noteq> 0
               \<and> blk_next r' = current_block a' \<and> blk_used r' = blk_used r
               \<and> dom (blocks a') = insert (current_block a') (dom (blocks a))
               \<and> (\<exists>n. blocks a' (current_block a') = Some n \<and> blk_next n = 0)))"

abbreviation SMALL :: nat where
  "SMALL \<equiv> 2 ^ 62"

text \<open>
  The states that allocations of at most \<open>SMALL\<close> bytes reach from \<open>a\<close>; a reallocation is
  given a pointer to bytes in use.
\<close>

inductive arena_exec :: "ak_arena \<Rightarrow> ak_arena \<Rightarrow> bool" for a where
  exec_start: "arena_exec a a"
| exec_alloc:
    "arena_exec a b \<Longrightarrow> unat sz \<le> SMALL \<Longrightarrow> unat align \<le> SMALL \<Longrightarrow>
     ak_arena_alloc_aligned (Some b) sz align s = Some (p, Some c, s') \<Longrightarrow> arena_exec a c"
| exec_calloc:
    "arena_exec a b \<Longrightarrow> unat nmemb * unat sz \<le> SMALL \<Longrightarrow>
     ak_arena_calloc (Some b) nmemb sz s = Some (p, Some c, s') \<Longrightarrow> arena_exec a c"
| exec_realloc:
    "arena_exec a b \<Longrightarrow> unat new_size \<le> SMALL \<Longrightarrow> valid_ptr b q (unat old_size) \<Longrightarrow>
     ak_arena_realloc (Some b) (Some q) old_size new_size s = Some (p, Some c, s') \<Longrightarrow>
     arena_exec a c"
| exec_strdup:
    "arena_exec a b \<Longrightarrow> length str < SMALL \<Longrightarrow>
     ak_arena_strdup (Some b) (Some str) s = Some (p, Some c, s') \<Longrightarrow> arena_exec a c"
| exec_strndup:
    "arena_exec a b \<Longrightarrow> length str < SMALL \<Longrightarrow>
     ak_arena_strndup (Some b) (Some str) n s = Some (p, Some c, s') \<Longrightarrow> arena_exec a c"

section \<open>Alignment\<close>

lemma and_split_sum: "unat (x AND m) + unat (x AND NOT m) = unat x" for x m :: "'a::len word"
proof -
  have "unat (x AND m) AND unat (x AND NOT m) = 0"
    by (simp flip: unsigned_and_eq) (simp add: and.left_commute and.assoc)
  then have "unat (x AND m) + unat (x AND NOT m) = unat (x AND m) OR unat (x AND NOT m)"
    by (rule disjunctive_add_eq_or)
  also have "\<dots> = unat ((x AND m) OR (x AND NOT m))"
    by (simp only: unsigned_or_eq)
  also have "(x AND m) OR (x AND NOT m) = x"
    by (rule bit_eqI) (auto simp: bit_simps)
  finally show ?thesis .
qed

text \<open>
  Rounding up never goes below the value, whatever the alignment, as long as the sum does
  not wrap.
\<close>

lemma align_up_bounds:
  assumes "unat v + unat (align - 1) < 2 ^ 64"
  shows "unat v \<le> unat (align_up v align)"
    and "unat (align_up v align) \<le> unat v + unat (align - 1)"
proof -
  let ?x = "v + (align - 1)"
  have x: "unat ?x = unat v + unat (align - 1)"
    using assms by (simp add: unat_word_ariths)
  have "unat (?x AND (align - 1)) \<le> unat (align - 1)"
    using word_and_le1 [of ?x "align - 1"] word_and_le2 [of ?x "align - 1"] by (simp add: word_le_nat_alt)
  then show "unat v \<le> unat (align_up v align)"
    "unat (align_up v align) \<le> unat v + unat (align - 1)"
    using and_split_sum [of ?x "align - 1"] x by (simp_all add: align_up_def algebra_simps)
qed

lemma power_of_two_nat: "0 < n \<Longrightarrow> n AND (n - 1) = 0 \<Longrightarrow> \<exists>k. n = 2 ^ k" for n :: nat
proof (induction n rule: less_induct)
  case (less n)
  obtain h where "n = 2 * h + 1 \<or> n = 2 * h" by (metis oddE evenE)
  then show ?case
  proof
    assume n: "n = 2 * h + 1"
    then have "n AND (n - 1) = 2 * (h AND h)" by (subst and_rec) simp
    then show ?thesis using less.prems n by (auto intro: exI [of _ 0])
  next
    assume n: "n = 2 * h"
    then have h: "0 < h" "(n - 1) div 2 = h - 1" "odd (n - 1)" using less.prems by auto
    then have "n AND (n - 1) = 2 * (h AND (h - 1))" using n by (subst and_rec) simp
    then obtain k where "h = 2 ^ k" using less.IH [of h] less.prems n h by auto
    then show ?thesis using n by (auto intro: exI [of _ "Suc k"])
  qed
qed

lemma power_of_two_word:
  fixes align :: u64
  assumes "align \<noteq> 0" and "align AND (align - 1) = 0"
  obtains k where "unat align = 2 ^ k" "align - 1 = mask k"
proof -
  have pos: "0 < unat align" using assms(1) by (simp add: unat_gt_0)
  have pred: "unat (align - 1) = unat align - 1"
    using assms(1) by (simp add: unat_minus_one)
  have "unat align AND (unat align - 1) = 0"
    using assms(2) pred by (metis unsigned_and_eq unsigned_0)
  then obtain k where k: "unat align = 2 ^ k" using power_of_two_nat [OF pos] by blast
  then have "align = word_of_nat (2 ^ k)" using of_nat_unat [of align, where ?'a = "64 word"] by simp
  then have "align = 2 ^ k" by simp
  then have "align - 1 = mask k" by (simp add: mask_eq_exp_minus_1)
  with k show thesis by (rule that)
qed

lemma align_up_dvd:
  assumes "align \<noteq> 0" and "align AND (align - 1) = 0"
  shows "unat align dvd unat (align_up v align)"
proof -
  obtain k where k: "unat align = 2 ^ k" "align - 1 = mask k"
    by (rule power_of_two_word [OF assms])
  have "align_up v align = (v + (align - 1)) AND NOT (mask k)"
    unfolding align_up_def k(2) [symmetric] by (simp add: algebra_simps)
  then show ?thesis unfolding k(1) by (simp add: unat_and_not_mask)
qed

lemma align_up_id:
  assumes "align \<noteq> 0" and "align AND (align - 1) = 0" and "unat align dvd unat v"
    and "unat v + unat (align - 1) < 2 ^ 64"
  shows "align_up v align = v"
proof -
  obtain q where q: "unat (align_up v align) = unat align * q"
    using align_up_dvd [OF assms(1,2)] by (auto elim: dvdE)
  obtain p where p: "unat v = unat align * p" using assms(3) by (auto elim: dvdE)
  have pos: "0 < unat align" using assms(1) by (simp add: unat_gt_0)
  have "unat (align - 1) < unat align" using assms(1) pos by (simp add: unat_minus_one)
  then have "unat align * p \<le> unat align * q" "unat align * q < unat align * (p + 1)"
    using align_up_bounds [OF assms(4)] q p by auto
  then have "p \<le> q" "q < p + 1" using pos by (simp_all only: mult_less_cancel1 nat_mult_le_cancel1)
  then have "unat (align_up v align) = unat v" using p q by simp
  then show ?thesis by (simp only: word_unat_eq_iff)
qed

section \<open>Chains of blocks\<close>

lemma block_chain_cong:
  "(\<And>b. b \<in> set cs \<Longrightarrow> map_option blk_next (st' b) = map_option blk_next (st b)) \<Longrightarrow>
   block_chain st' b cs = block_chain st b cs"
proof (induction cs arbitrary: b)
  case (Cons c cs)
  have IH: "block_chain st' d cs = block_chain st d cs" for d using Cons by simp
  show ?case
    using Cons.prems [of c] by (cases "st c"; cases "st' c") (auto simp: IH)
qed simp

lemma block_chain_regrow:
  assumes "block_chain st b (pre @ c # post)" and "\<forall>x \<in> set pre. st' x = st x"
    and "c \<noteq> 0" and "st' c = Some r" and "blk_next r = n" and "n \<noteq> 0" and "st' n = Some rn"
    and "blk_next rn = 0"
  shows "block_chain st' b (pre @ [c, n])"
  using assms
proof (induction pre arbitrary: b)
  case (Cons x pre)
  then show ?case by (cases "st x") auto
qed simp

lemma block_chain_dom:
  "block_chain st b cs \<Longrightarrow> c \<in> set cs \<Longrightarrow> c \<noteq> 0 \<and> c \<in> dom st"
  by (induction cs arbitrary: b) (auto split: option.splits)

lemma block_chain_tail:
  "block_chain st b (pre @ c # post) \<Longrightarrow> st c = Some r \<Longrightarrow> block_chain st (blk_next r) post"
  by (induction pre arbitrary: b) (auto split: option.splits)

text \<open>The loops along a chain.\<close>

definition map_blocks :: "(arena_block \<Rightarrow> arena_block) \<Rightarrow> nat set \<Rightarrow> block_store \<Rightarrow> block_store" where
  "map_blocks f bs st = (\<lambda>b. if b \<in> bs then map_option f (st b) else st b)"

lemma free_block_chain_eq:
  "block_chain st b cs \<Longrightarrow> distinct cs \<Longrightarrow> free_block_chain st b = Some (st |` (- set cs))"
proof (induction cs arbitrary: b st)
  case Nil
  then show ?case by (simp add: free_block_chain.simps restrict_map_def)
next
  case (Cons c cs)
  then obtain r where r: "st c = Some r" "b = c" "c \<noteq> 0" "block_chain st (blk_next r) cs" "c \<notin> set cs"
    by (auto split: option.splits)
  have "block_chain (st(c := None)) (blk_next r) cs"
    using r(4,5) by (subst block_chain_cong) auto
  then have "free_block_chain (st(c := None)) (blk_next r) = Some (st(c := None) |` (- set cs))"
    by (rule Cons.IH) (use Cons.prems(2) in simp)
  then have "free_block_chain st b = Some (st(c := None) |` (- set cs))"
    using r(1-3) by (subst free_block_chain.simps) (simp del: fun_upd_restrict_conv)
  also have "st(c := None) |` (- set cs) = st |` (- set (c # cs))"
    by (auto simp: restrict_map_def)
  finally show ?case .
qed

lemma reset_blocks_eq:
  "block_chain st b cs \<Longrightarrow> distinct cs \<Longrightarrow>
   reset_blocks st b = Some (map_blocks (\<lambda>r. r\<lparr>blk_used := 0\<rparr>) (set cs) st)"
proof (induction cs arbitrary: b st)
  case Nil
  then show ?case by (simp add: reset_blocks.simps map_blocks_def)
next
  case (Cons c cs)
  then obtain r where r: "st c = Some r" "b = c" "c \<noteq> 0" "block_chain st (blk_next r) cs" "c \<notin> set cs"
    by (auto split: option.splits)
  let ?st = "st(c \<mapsto> r\<lparr>blk_used := 0\<rparr>)"
  have "block_chain ?st (blk_next r) cs"
    using r(4,5) by (subst block_chain_cong) auto
  then have "reset_blocks st b = Some (map_blocks (\<lambda>r. r\<lparr>blk_used := 0\<rparr>) (set cs) ?st)"
    using r Cons.IH Cons.prems(2) by (simp add: reset_blocks.simps [of st c])
  also have "map_blocks (\<lambda>r. r\<lparr>blk_used := 0\<rparr>) (set cs) ?st
      = map_blocks (\<lambda>r. r\<lparr>blk_used := 0\<rparr>) (set (c # cs)) st"
    using r by (auto simp: map_blocks_def fun_eq_iff)
  finally show ?case .
qed

lemma reclaim_blocks_eq:
  "block_chain st b cs \<Longrightarrow> distinct cs \<Longrightarrow>
   reclaim_blocks st b n = Some (map_blocks (\<lambda>r. r\<lparr>blk_used := 0\<rparr>) (set cs) st,
     n + (\<Sum>c \<in> set cs. used_of st c))"
proof (induction cs arbitrary: b st n)
  case Nil
  then show ?case by (simp add: reclaim_blocks.simps map_blocks_def)
next
  case (Cons c cs)
  then obtain r where r: "st c = Some r" "b = c" "c \<noteq> 0" "block_chain st (blk_next r) cs" "c \<notin> set cs"
    by (auto split: option.splits)
  let ?st = "st(c \<mapsto> r\<lparr>blk_used := 0\<rparr>)"
  have "block_chain ?st (blk_next r) cs"
    using r(4,5) by (subst block_chain_cong) auto
  then have "reclaim_blocks st b n = Some (map_blocks (\<lambda>r. r\<lparr>blk_used := 0\<rparr>) (set cs) ?st,
      n + blk_used r + (\<Sum>d \<in> set cs. used_of ?st d))"
    using r Cons.IH Cons.prems(2) by (simp add: reclaim_blocks.simps [of st c])
  also have "map_blocks (\<lambda>r. r\<lparr>blk_used := 0\<rparr>) (set cs) ?st
      = map_blocks (\<lambda>r. r\<lparr>blk_used := 0\<rparr>) (set (c # cs)) st"
    using r by (auto simp: map_blocks_def fun_eq_iff)
  also have "(\<Sum>d \<in> set cs. used_of ?st d) = (\<Sum>d \<in> set cs. used_of st d)"
    using r(5) by (intro sum.cong) (auto simp: used_of_def)
  finally show ?case using r by (simp add: used_of_def)
qed

lemma seek_block_eq:
  "block_chain st b (pre @ c # post) \<Longrightarrow> c \<notin> set pre \<Longrightarrow> seek_block st b c = Some c"
proof (induction pre arbitrary: b)
  case Nil
  then show ?case by (auto simp: seek_block.simps)
next
  case (Cons x pre)
  then show ?case by (auto simp: seek_block.simps [of st x] split: option.splits)
qed

section \<open>Sums over the blocks\<close>

lemma sum_dom_update:
  fixes f :: "block_store \<Rightarrow> nat \<Rightarrow> u64"
  assumes "finite (dom st)" and "\<And>d. d \<noteq> b \<Longrightarrow> f (st(b \<mapsto> r)) d = f st d"
    and "b \<notin> dom st \<Longrightarrow> f st b = 0"
  shows "(\<Sum>d \<in> dom (st(b \<mapsto> r)). f (st(b \<mapsto> r)) d) =
    (\<Sum>d \<in> dom st. f st d) - f st b + f (st(b \<mapsto> r)) b"
proof -
  have "(\<Sum>d \<in> dom (st(b \<mapsto> r)). f (st(b \<mapsto> r)) d) =
      f (st(b \<mapsto> r)) b + (\<Sum>d \<in> dom st - {b}. f (st(b \<mapsto> r)) d)"
    using assms(1) by (simp add: sum.insert_remove)
  also have "(\<Sum>d \<in> dom st - {b}. f (st(b \<mapsto> r)) d) = (\<Sum>d \<in> dom st - {b}. f st d)"
    by (intro sum.cong) (auto simp: assms(2))
  also have "\<dots> = (\<Sum>d \<in> dom st. f st d) - f st b"
  proof (cases "b \<in> dom st")
    case True
    then show ?thesis using assms(1) by (simp add: sum_diff1)
  qed (use assms(3) in simp)
  finally show ?thesis by (simp only: add.commute)
qed

lemma used_of_simps [simp]:
  "used_of (st(b \<mapsto> r)) d = (if d = b then blk_used r else used_of st d)"
  "st b = Some r \<Longrightarrow> used_of st b = blk_used r" "st b = None \<Longrightarrow> used_of st b = 0"
  by (simp_all add: used_of_def)

lemma size_of_simps [simp]:
  "size_of (st(b \<mapsto> r)) d = (if d = b then blk_size r else size_of st d)"
  "st b = Some r \<Longrightarrow> size_of st b = blk_size r" "st b = None \<Longrightarrow> size_of st b = 0"
  by (simp_all add: size_of_def)

lemma sum_used_update:
  "finite (dom st) \<Longrightarrow> (\<Sum>d \<in> dom (st(b \<mapsto> r)). used_of (st(b \<mapsto> r)) d) =
     (\<Sum>d \<in> dom st. used_of st d) - used_of st b + blk_used r"
  by (subst sum_dom_update) (auto simp: domIff)

lemma sum_size_update:
  "finite (dom st) \<Longrightarrow> (\<Sum>d \<in> dom (st(b \<mapsto> r)). size_of (st(b \<mapsto> r)) d) =
     (\<Sum>d \<in> dom st. size_of st d) - size_of st b + blk_size r"
  by (subst sum_dom_update) (auto simp: domIff)

lemma arena_countsD:
  assumes "arena_counts a"
  shows "finite (dom (blocks a))" and "blocks a b = Some r \<Longrightarrow> block_ok r"
    and "total_used a = (\<Sum>b \<in> dom (blocks a). used_of (blocks a) b)"
    and "total_allocated a = (\<Sum>b \<in> dom (blocks a). size_of (blocks a) b)"
    and "0 < block_size a" and "unat (block_size a) \<le> SMALL"
  using assms by (auto simp: arena_counts_def)

text \<open>The counters after a block has been replaced or added.\<close>

lemma arena_counts_update:
  assumes "arena_counts a" and "block_ok r"
    and "blocks a' = (blocks a)(b \<mapsto> r)" and "block_size a' = block_size a"
    and "total_used a' = total_used a - used_of (blocks a) b + blk_used r"
    and "total_allocated a' = total_allocated a - size_of (blocks a) b + blk_size r"
  shows "arena_counts a'"
proof -
  note c = arena_countsD [OF assms(1)]
  have "\<forall>d x. blocks a' d = Some x \<longrightarrow> block_ok x" using c(2) assms(2,3) by auto
  moreover have "total_used a' = (\<Sum>d \<in> dom (blocks a'). used_of (blocks a') d)"
    unfolding assms(3,5) sum_used_update [OF c(1)] c(3) ..
  moreover have "total_allocated a' = (\<Sum>d \<in> dom (blocks a'). size_of (blocks a') d)"
    unfolding assms(3,6) sum_size_update [OF c(1)] c(4) ..
  ultimately show ?thesis using c(1,5,6) assms(3,4) by (simp add: arena_counts_def)
qed

section \<open>Allocation\<close>

definition grants_block :: "block_store \<Rightarrow> ptr_sched \<Rightarrow> bool" where
  "grants_block st s \<longleftrightarrow> (\<exists>g1 g2 s'. s = Some g1 # Some g2 # s' \<and> g1 0 \<noteq> 0 \<and> st (g1 0) = None)"

lemma allocate_block_cases:
  obtains (refused) s' where "allocate_block st sz num s = (None, st, s')" "\<not> grants_block st s"
  | (granted) b d s' where "allocate_block st sz num s = (Some b, st(b \<mapsto> \<lparr>blk_data = d,
        blk_size = sz, blk_used = 0, blk_num = num, blk_next = 0\<rparr>), s')"
      "b \<noteq> 0" "st b = None" "length d = unat sz"
proof (cases "grants_block st s")
  case True
  then obtain g1 g2 s' where s: "s = Some g1 # Some g2 # s'" "g1 0 \<noteq> 0" "st (g1 0) = None"
    by (auto simp: grants_block_def)
  then show thesis
    by (intro granted [of "g1 0" "map (\<lambda>i. word_of_nat (g2 i)) [0..<unat sz]" s'])
      (simp_all add: allocate_block_def alloc_cell_def alloc_data_def)
next
  case False
  then have "\<exists>s'. allocate_block st sz num s = (None, st, s')"
    by (cases s rule: list.exhaust; cases "tl s")
      (auto simp: allocate_block_def alloc_cell_def alloc_data_def grants_block_def
        split: option.splits)
  with False refused show thesis by blast
qed

lemma arena_ok_current:
  assumes "arena_ok a"
  obtains r where "blocks a (current_block a) = Some r" "block_ok r" "current_block a \<noteq> 0"
proof -
  obtain pre post where "arena_shape a pre post" using assms by (auto simp: arena_ok_def)
  then have "current_block a \<noteq> 0 \<and> current_block a \<in> dom (blocks a)"
    using block_chain_dom [of "blocks a" "first_block a" "pre @ current_block a # post"]
    by (simp add: arena_shape_def)
  then show thesis using that assms by (auto simp: arena_ok_def arena_counts_def)
qed

text \<open>The current block with more bytes in use, and other bytes behind the used part.\<close>

definition set_current :: "ak_arena \<Rightarrow> arena_block \<Rightarrow> ak_arena" where
  "set_current a r = a\<lparr>blocks := (blocks a)(current_block a \<mapsto> r),
     total_used := total_used a - used_of (blocks a) (current_block a) + blk_used r\<rparr>"

lemma set_current_ok:
  assumes ok: "arena_ok a" and r: "blocks a (current_block a) = Some r"
    and r': "block_ok r'" "blk_next r' = blk_next r" "blk_size r' = blk_size r"
  shows "arena_ok (set_current a r')"
proof -
  obtain pre post where sh: "arena_shape a pre post" and c: "arena_counts a"
    using ok by (auto simp: arena_ok_def)
  have "arena_counts (set_current a r')"
    using r r' by (intro arena_counts_update [OF c, of r' _ "current_block a"])
      (simp_all add: set_current_def)
  moreover have "arena_shape (set_current a r') pre post"
    using sh r r'(2) block_chain_cong [of "pre @ current_block a # post" "(blocks a)(current_block a \<mapsto> r')" "blocks a"]
    by (auto simp: arena_shape_def set_current_def)
  ultimately show ?thesis by (auto simp: arena_ok_def)
qed

lemma set_current_step:
  assumes "blocks a (current_block a) = Some r" "blk_used r \<le> blk_used r'"
    "blk_num r' = blk_num r" "blk_next r' = blk_next r" "blk_size r' = blk_size r"
    "take (unat (blk_used r)) (blk_data r') = take (unat (blk_used r)) (blk_data r)"
  shows "arena_step a (set_current a r')"
  using assms by (auto simp: arena_step_def set_current_def)

text \<open>A new block behind the current one.\<close>

definition add_block :: "ak_arena \<Rightarrow> nat \<Rightarrow> arena_block \<Rightarrow> ak_arena" where
  "add_block a b n = a\<lparr>
     blocks := (blocks a)(b \<mapsto> n, current_block a \<mapsto> the (blocks a (current_block a))\<lparr>blk_next := b\<rparr>),
     current_block := b, next_block_num := next_block_num a + 1,
     total_allocated := total_allocated a + blk_size n, total_used := total_used a + blk_used n\<rparr>"

lemma add_block_ok:
  assumes ok: "arena_ok a" and b: "b \<noteq> 0" "blocks a b = None" and n: "block_ok n" "blk_next n = 0"
  shows "arena_ok (add_block a b n)" and "arena_step a (add_block a b n)"
proof -
  obtain r where r: "blocks a (current_block a) = Some r" "block_ok r" "current_block a \<noteq> 0"
    by (rule arena_ok_current [OF ok])
  obtain pre post where sh: "arena_shape a pre post" and c: "arena_counts a"
    using ok by (auto simp: arena_ok_def)
  have ne: "b \<noteq> current_block a" using b r by auto
  let ?a1 = "a\<lparr>blocks := (blocks a)(b \<mapsto> n), total_used := total_used a + blk_used n,
      total_allocated := total_allocated a + blk_size n\<rparr>"
  have a1: "arena_counts ?a1"
    using b n(1) by (intro arena_counts_update [OF c, of n _ b]) simp_all
  have "arena_counts (add_block a b n)"
  proof (rule arena_counts_update [OF a1])
    show "block_ok (r\<lparr>blk_next := b\<rparr>)" using r(2) by (simp add: block_ok_def)
    show "blocks (add_block a b n) = (blocks ?a1)(current_block a \<mapsto> r\<lparr>blk_next := b\<rparr>)"
      using r(1) by (simp add: add_block_def)
  qed (use r(1) ne in \<open>simp_all add: add_block_def\<close>)
  moreover have "arena_shape (add_block a b n) (pre @ [current_block a]) []"
  proof -
    have pre: "current_block a \<notin> set pre" "b \<notin> set pre"
      using sh b block_chain_dom [of "blocks a" "first_block a" "pre @ current_block a # post" b]
      by (auto simp: arena_shape_def)
    have "block_chain (blocks (add_block a b n)) (first_block a) (pre @ [current_block a, b])"
      using sh pre r b n ne
      by (intro block_chain_regrow [where st = "blocks a" and post = post])
        (auto simp: arena_shape_def add_block_def)
    then show ?thesis
      using sh pre ne r by (auto simp: arena_shape_def add_block_def)
  qed
  ultimately show "arena_ok (add_block a b n)" by (auto simp: arena_ok_def)
  show "arena_step a (add_block a b n)"
    using b n(2) r ne by (auto simp: arena_step_def add_block_def)
qed

lemma arena_ok_next_num [simp]: "arena_ok (a\<lparr>next_block_num := k\<rparr>) = arena_ok a"
  by (simp add: arena_ok_def arena_shape_def arena_counts_def)

lemma take_bytes_current:
  assumes "blocks a (current_block a) = Some r"
  shows "take_bytes a (current_block a) off sz (off - blk_used r + sz) =
    Some (Some (current_block a, off), Some (set_current a (r\<lparr>blk_used := off + sz\<rparr>)))"
  using assms by (simp add: take_bytes_def set_current_def algebra_simps)

lemma new_size_bounds:
  assumes "arena_ok a" and "unat sz \<le> SMALL"
  defines "n \<equiv> if sz > block_size a then align_up sz (block_size a) else block_size a"
  shows "unat sz \<le> unat n" and "unat n < 2 ^ 63"
proof -
  have bs: "0 < block_size a" "unat (block_size a) \<le> SMALL"
    using assms(1) by (auto simp: arena_ok_def arena_counts_def)
  then have "unat (block_size a - 1) = unat (block_size a) - 1" "0 < unat (block_size a)"
    by (auto simp: unat_minus_one unat_gt_0)
  then have "unat sz + unat (block_size a - 1) < 2 ^ 63" using bs(2) assms(2) by simp
  then have up: "unat sz \<le> unat (align_up sz (block_size a))" "unat (align_up sz (block_size a)) < 2 ^ 63"
    using align_up_bounds [of sz "block_size a"] by simp_all
  show "unat sz \<le> unat n" using up(1) by (auto simp: n_def word_less_nat_alt)
  show "unat n < 2 ^ 63" using up(2) bs(2) by (auto simp: n_def)
qed

lemma grow_arena_eq:
  assumes ok: "arena_ok a" and r: "blocks a (current_block a) = Some r" and sz: "unat sz \<le> SMALL"
  obtains (refused) s' where "grow_arena a r sz s = Some (None, Some (a\<lparr>next_block_num := next_block_num a + 1\<rparr>), s')"
      "\<not> grants_block (blocks a) s"
  | (granted) b n s' where "grow_arena a r sz s = Some (Some (b, 0), Some (add_block a b n), s')"
      "b \<noteq> 0" "blocks a b = None" "block_ok n" "blk_next n = 0" "blk_used n = sz"
proof -
  define k where "k = (if sz > block_size a then align_up sz (block_size a) else block_size a)"
  have k: "unat sz \<le> unat k" "unat k < 2 ^ 63"
    using new_size_bounds [OF ok sz] by (simp_all only: k_def)
  show thesis
  proof (cases rule: allocate_block_cases [of "blocks a" k "next_block_num a" s])
    case (refused s')
    then show thesis
      using that(1) [of s'] by (simp add: grow_arena_def Let_def flip: k_def)
  next
    case (granted b d s')
    let ?n = "\<lparr>blk_data = d, blk_size = k, blk_used = sz, blk_num = next_block_num a, blk_next = 0\<rparr>"
    have ne: "b \<noteq> current_block a" using granted(3) r by auto
    have "grow_arena a r sz s = Some (Some (b, 0), Some (add_block a b ?n), s')"
      using granted(1,2) r ne
      by (simp add: grow_arena_def Let_def take_bytes_def add_block_def fun_upd_twist flip: k_def)
    then show thesis
      using that(2) [of b ?n s'] granted k by (simp add: block_ok_def word_le_nat_alt)
  qed
qed

lemma alloc_aligned_correct:
  assumes ok: "arena_ok a" and sz: "sz \<noteq> 0" "unat sz \<le> SMALL"
    and al: "align \<noteq> 0" "align AND (align - 1) = 0" "unat align \<le> SMALL"
  obtains (refused) s' where
      "ak_arena_alloc_aligned (Some a) sz align s = Some (None, Some (a\<lparr>next_block_num := next_block_num a + 1\<rparr>), s')"
      "\<not> grants_block (blocks a) s"
  | (current) r off where "blocks a (current_block a) = Some r"
      "ak_arena_alloc_aligned (Some a) sz align s =
         Some (Some (current_block a, off), Some (set_current a (r\<lparr>blk_used := off + sz\<rparr>)), s)"
      "unat align dvd unat off" "blk_used r \<le> off" "unat (off + sz) = unat off + unat sz"
      "block_ok (r\<lparr>blk_used := off + sz\<rparr>)"
  | (fresh) b n s' where
      "ak_arena_alloc_aligned (Some a) sz align s = Some (Some (b, 0), Some (add_block a b n), s')"
      "b \<noteq> 0" "blocks a b = None" "block_ok n" "blk_next n = 0" "blk_used n = sz"
proof -
  obtain r where r: "blocks a (current_block a) = Some r" "block_ok r"
    by (rule arena_ok_current [OF ok])
  let ?off = "align_up (blk_used r) align"
  have u: "unat (blk_used r) < 2 ^ 63" using r(2) by (simp add: block_ok_def word_le_nat_alt)
  have "unat (align - 1) = unat align - 1" using al(1) by (simp add: unat_minus_one)
  then have sum: "unat (blk_used r) + unat (align - 1) + unat sz < 2 ^ 64"
    using u sz(2) al(3) by simp
  have off: "unat (blk_used r) \<le> unat ?off" "unat ?off \<le> unat (blk_used r) + unat (align - 1)"
    using align_up_bounds [of "blk_used r" align] sum by simp_all
  have exact: "unat (?off + sz) = unat ?off + unat sz"
    using sum off(2) by (intro unat_add_lem [THEN iffD1]) simp
  have dvd: "unat align dvd unat ?off" by (rule align_up_dvd [OF al(1,2)])
  have needed: "blk_used r + (?off - blk_used r + sz) = ?off + sz" by simp
  show thesis
  proof (cases "?off + sz > blk_size r")
    case True
    then have "ak_arena_alloc_aligned (Some a) sz align s = grow_arena a r sz s"
      using sz(1) al(1,2) r(1) by (simp add: ak_arena_alloc_aligned_def Let_def needed)
    then show thesis
      by (cases rule: grow_arena_eq [OF ok r(1) sz(2), of s]) (simp_all add: refused fresh)
  next
    case False
    then have "ak_arena_alloc_aligned (Some a) sz align s =
        Some (Some (current_block a, ?off), Some (set_current a (r\<lparr>blk_used := ?off + sz\<rparr>)), s)"
      using sz(1) al(1,2) r(1)
      by (simp add: ak_arena_alloc_aligned_def Let_def needed take_bytes_current)
    then show thesis
      using current [of r ?off] r dvd off exact False
      by (simp add: block_ok_def word_le_nat_alt word_less_nat_alt)
  qed
qed

text \<open>
  Where an allocation is placed: at the end of the current block, behind the bytes that
  were in use.
\<close>

definition placed :: "ak_arena \<Rightarrow> arena_ptr \<Rightarrow> nat \<Rightarrow> ak_arena \<Rightarrow> bool" where
  "placed a p n a' \<longleftrightarrow> fst p = current_block a' \<and> used_of (blocks a) (fst p) \<le> snd p
     \<and> unat (snd p) + n = unat (used_of (blocks a') (fst p))
     \<and> (\<forall>d. d \<noteq> fst p \<longrightarrow> used_of (blocks a') d = used_of (blocks a) d)"

lemma alloc_aligned_placed:
  assumes "arena_ok a" "sz \<noteq> 0" "unat sz \<le> SMALL"
    "align \<noteq> 0" "align AND (align - 1) = 0" "unat align \<le> SMALL"
  obtains (refused) s' where
      "ak_arena_alloc_aligned (Some a) sz align s = Some (None, Some (a\<lparr>next_block_num := next_block_num a + 1\<rparr>), s')"
      "\<not> grants_block (blocks a) s"
  | (allocated) p a' s' where
      "ak_arena_alloc_aligned (Some a) sz align s = Some (Some p, Some a', s')"
      "arena_ok a'" "arena_step a a'" "placed a p (unat sz) a'" "unat align dvd unat (snd p)"
      "\<forall>c. fst c \<in> dom (blocks a) \<longrightarrow> byte_at a' c = byte_at a c"
  using assms
proof (cases rule: alloc_aligned_correct [where s = s])
  case (refused s')
  with that(1) show thesis by blast
next
  case (current r off)
  let ?a = "set_current a (r\<lparr>blk_used := off + sz\<rparr>)"
  have le: "blk_used r \<le> off + sz" using current(4,5) by (simp add: word_le_nat_alt)
  have "arena_ok ?a" using current by (intro set_current_ok [OF assms(1)]) simp_all
  moreover have "arena_step a ?a" using current(1) le by (intro set_current_step) simp_all
  moreover have "placed a (current_block a, off) (unat sz) ?a"
    using current by (simp add: placed_def set_current_def)
  moreover have "\<forall>c. fst c \<in> dom (blocks a) \<longrightarrow> byte_at ?a c = byte_at a c"
    using current(1) by (auto simp: byte_at_def set_current_def)
  ultimately show thesis using that(2) current(2,3) by simp
next
  case (fresh b n s')
  have ne: "b \<noteq> current_block a" using arena_ok_current [OF assms(1)] fresh(3) by force
  have "placed a (b, 0) (unat sz) (add_block a b n)"
    using fresh(3,6) ne arena_ok_current [OF assms(1)] by (force simp: placed_def add_block_def)
  moreover have "\<forall>c. fst c \<in> dom (blocks a) \<longrightarrow> byte_at (add_block a b n) c = byte_at a c"
    using fresh(3) by (auto simp: byte_at_def add_block_def)
  ultimately show thesis
    using that(2) fresh(1) add_block_ok [OF assms(1) fresh(2-5)] by simp
qed

lemma default_alignment:
  "AK_ARENA_DEFAULT_ALIGNMENT \<noteq> 0" "AK_ARENA_DEFAULT_ALIGNMENT AND (AK_ARENA_DEFAULT_ALIGNMENT - 1) = 0"
  "unat AK_ARENA_DEFAULT_ALIGNMENT \<le> SMALL"
  by simp_all

lemma alloc_placed:
  assumes "arena_ok a" "sz \<noteq> 0" "unat sz \<le> SMALL"
  obtains (refused) s' where
      "ak_arena_alloc (Some a) sz s = Some (None, Some (a\<lparr>next_block_num := next_block_num a + 1\<rparr>), s')"
      "\<not> grants_block (blocks a) s"
  | (allocated) p a' s' where "ak_arena_alloc (Some a) sz s = Some (Some p, Some a', s')"
      "arena_ok a'" "arena_step a a'" "placed a p (unat sz) a'" "unat AK_ARENA_DEFAULT_ALIGNMENT dvd unat (snd p)"
      "\<forall>c. fst c \<in> dom (blocks a) \<longrightarrow> byte_at a' c = byte_at a c"
  unfolding ak_arena_alloc_def by (rule alloc_aligned_placed [OF assms default_alignment])

lemma arena_ok_block: "arena_ok a \<Longrightarrow> blocks a b = Some r \<Longrightarrow> block_ok r"
  by (auto simp: arena_ok_def arena_counts_def)

lemma used_le_length: "block_ok r \<Longrightarrow> unat (blk_used r) \<le> length (blk_data r)"
  by (simp add: block_ok_def word_le_nat_alt)

lemma take_eq_le: "take n xs = take n ys \<Longrightarrow> m \<le> n \<Longrightarrow> take m xs = take m ys"
  by (metis min.absorb1 take_take)

lemma step_block:
  assumes "arena_step a a'" and "blocks a b = Some x"
  obtains y where "blocks a' b = Some y" "blk_used x \<le> blk_used y" "blk_num y = blk_num x"
    "blk_size y = blk_size x"
    "take (unat (blk_used x)) (blk_data y) = take (unat (blk_used x)) (blk_data x)"
  using assms by (cases "b = current_block a") (auto simp: arena_step_def)

lemma step_keeps:
  assumes "arena_ok a" and "arena_step a a'" and "c \<in> in_use a"
  shows "c \<in> in_use a'" and "byte_at a' c = byte_at a c"
proof -
  obtain b i where c: "c = (b, i)" "i < unat (used_of (blocks a) b)"
    using assms(3) by (auto simp: in_use_def)
  then obtain x where x: "blocks a b = Some x" by (cases "blocks a b") auto
  then have i: "i < unat (blk_used x)" "i < length (blk_data x)"
    using c used_le_length [OF arena_ok_block [OF assms(1) x]] by auto
  obtain y where y: "blocks a' b = Some y" "blk_used x \<le> blk_used y"
      "take (unat (blk_used x)) (blk_data y) = take (unat (blk_used x)) (blk_data x)"
    by (rule step_block [OF assms(2) x])
  then show "c \<in> in_use a'" using c(1) i(1) by (simp add: in_use_def word_le_nat_alt)
  have "blk_data y ! i = blk_data x ! i" using i(1) y(3) by (metis nth_take)
  then show "byte_at a' c = byte_at a c" using c(1) x y(1) by (simp add: byte_at_def)
qed

lemma placed_region:
  assumes "placed a p n a'"
  shows "region p n \<inter> in_use a = {}" and "in_use a' \<supseteq> region p n"
    and "fst c \<noteq> fst p \<Longrightarrow> c \<in> in_use a' \<longleftrightarrow> c \<in> in_use a"
  using assms by (auto simp: placed_def region_def in_use_def word_le_nat_alt)

text \<open>Writing inside the new region.\<close>

lemma store_placed:
  assumes ok: "arena_ok a1" and st: "arena_step a a1" and pl: "placed a p n a1"
    and off: "unat (snd p) \<le> unat off" "unat off + length bs \<le> unat (snd p) + n"
  obtains a2 where "store_bytes a1 (fst p, off) bs = Some a2" "arena_ok a2" "arena_step a a2"
    "placed a p n a2" "load_bytes a2 (fst p, off) (length bs) = Some bs"
    "\<forall>q k. unat (snd q) + k \<le> unat off \<longrightarrow> load_bytes a2 q k = load_bytes a1 q k"
    "total_used a2 = total_used a1"
proof -
  obtain r where r: "blocks a1 (current_block a1) = Some r" "block_ok r"
    by (rule arena_ok_current [OF ok])
  have p: "fst p = current_block a1" "unat (snd p) + n = unat (blk_used r)"
    using pl r(1) by (simp_all add: placed_def)
  have fits: "unat off + length bs \<le> length (blk_data r)"
    using off(2) p(2) r(2) by (simp add: block_ok_def word_le_nat_alt)
  define d where "d = take (unat off) (blk_data r) @ bs @ drop (unat off + length bs) (blk_data r)"
  have d: "length d = length (blk_data r)" "take (unat off) d = take (unat off) (blk_data r)"
      "take (length bs) (drop (unat off) d) = bs"
    using fits by (simp_all add: d_def)
  define a2 where "a2 = set_current a1 (r\<lparr>blk_data := d\<rparr>)"
  have a2: "blocks a2 = (blocks a1)(current_block a1 \<mapsto> r\<lparr>blk_data := d\<rparr>)"
      "total_used a2 = total_used a1" "current_block a2 = current_block a1"
    using r(1) by (simp_all add: a2_def set_current_def)
  have "store_bytes a1 (fst p, off) bs = Some a2"
    using fits r(1) p(1) by (simp add: store_bytes_def mem_simps a2_def set_current_def d_def)
  moreover have "arena_ok a2"
    unfolding a2_def using r d(1) by (intro set_current_ok [OF ok]) (simp_all add: block_ok_def)
  moreover have "arena_step a a2"
  proof (cases "current_block a1 = current_block a")
    case True
    have "take (unat (used_of (blocks a) (current_block a))) d =
        take (unat (used_of (blocks a) (current_block a))) (blk_data r)"
      using pl True p(1) off(1) by (intro take_eq_le [OF d(2)]) (simp add: placed_def word_le_nat_alt)
    then show ?thesis using st r(1) True by (auto simp: arena_step_def a2_def set_current_def)
  next
    case False
    then show ?thesis using st r(1) by (auto simp: arena_step_def a2_def set_current_def)
  qed
  moreover have "placed a p n a2" using pl r(1) by (auto simp: placed_def a2)
  moreover have "load_bytes a2 (fst p, off) (length bs) = Some bs"
    using fits p(1) d by (simp add: load_bytes_def a2)
  moreover have "\<forall>q k. unat (snd q) + k \<le> unat off \<longrightarrow> load_bytes a2 q k = load_bytes a1 q k"
  proof (intro allI impI)
    fix q :: arena_ptr and k
    assume q: "unat (snd q) + k \<le> unat off"
    have "take k (drop (unat (snd q)) d) = take k (drop (unat (snd q)) (blk_data r))"
      using take_eq_le [OF d(2) q] by (simp add: take_drop add.commute)
    then show "load_bytes a2 q k = load_bytes a1 q k"
      using r(1) d(1) by (simp add: load_bytes_def a2)
  qed
  ultimately show thesis using that a2(2) by blast
qed

section \<open>Operations that fill what they allocate\<close>

lemma calloc_check:
  fixes nmemb sz :: u64
  assumes "nmemb \<noteq> 0"
  shows "(nmemb * sz) div nmemb = sz \<longleftrightarrow> unat nmemb * unat sz < 2 ^ 64"
proof
  have pos: "0 < unat nmemb" using assms by (simp add: unat_gt_0)
  assume "(nmemb * sz) div nmemb = sz"
  then have "unat (nmemb * sz) div unat nmemb = unat sz" by (metis unat_div)
  then have "unat nmemb * unat sz \<le> unat (nmemb * sz)" by (metis mult.commute div_times_less_eq_dividend)
  also have "\<dots> < 2 ^ 64" using unsigned_less [of "nmemb * sz", where ?'a = nat] by simp
  finally show "unat nmemb * unat sz < 2 ^ 64" .
next
  have pos: "0 < unat nmemb" using assms by (simp add: unat_gt_0)
  assume "unat nmemb * unat sz < 2 ^ 64"
  then have "unat (nmemb * sz) = unat nmemb * unat sz" by (simp add: unat_word_ariths)
  then have "unat ((nmemb * sz) div nmemb) = unat sz" using pos by (simp add: unat_div)
  then show "(nmemb * sz) div nmemb = sz" by (simp only: word_unat_eq_iff)
qed

lemma calloc_overflow:
  assumes "2 ^ 64 \<le> unat nmemb * unat sz"
  shows "ak_arena_calloc (Some a) nmemb sz s = Some (None, Some a, s)"
proof -
  have "nmemb \<noteq> 0" "sz \<noteq> 0" using assms by auto
  then show ?thesis using calloc_check [of nmemb sz] assms by (simp add: ak_arena_calloc_def)
qed

lemma calloc_correct:
  assumes ok: "arena_ok a" and n: "nmemb \<noteq> 0" "sz \<noteq> 0" "unat nmemb * unat sz \<le> SMALL"
  obtains (refused) s' where
      "ak_arena_calloc (Some a) nmemb sz s = Some (None, Some (a\<lparr>next_block_num := next_block_num a + 1\<rparr>), s')"
      "\<not> grants_block (blocks a) s"
  | (allocated) p a' s' where
      "ak_arena_calloc (Some a) nmemb sz s = Some (Some p, Some a', s')" "arena_ok a'"
      "arena_step a a'" "placed a p (unat nmemb * unat sz) a'"
      "load_bytes a' p (unat nmemb * unat sz) = Some (replicate (unat nmemb * unat sz) 0)"
proof -
  let ?t = "nmemb * sz"
  have lt: "unat nmemb * unat sz < 2 ^ 64" using n(3) by simp
  then have t: "unat ?t = unat nmemb * unat sz" by (simp add: unat_word_ariths)
  have pos: "0 < unat nmemb * unat sz" using n(1,2) by (simp add: unat_gt_0)
  then have "?t \<noteq> 0" "unat ?t \<le> SMALL" using t n(3) by auto
  with ok show thesis
  proof (cases rule: alloc_placed [where s = s])
    case (refused s')
    then show thesis
      using that(1) n calloc_check [OF n(1), of sz] lt by (simp add: ak_arena_calloc_def)
  next
    case (allocated p a1 s')
    obtain a2 where a2: "store_bytes a1 (fst p, snd p) (replicate (unat ?t) 0) = Some a2" "arena_ok a2"
        "arena_step a a2" "placed a p (unat ?t) a2"
        "load_bytes a2 (fst p, snd p) (length (replicate (unat ?t) (0 :: u8))) = Some (replicate (unat ?t) 0)"
      using store_placed [OF allocated(2-4), of "snd p" "replicate (unat ?t) 0"] by force
    then have "ak_arena_calloc (Some a) nmemb sz s = Some (Some p, Some a2, s')"
      using allocated(1) n calloc_check [OF n(1), of sz] lt by (simp add: ak_arena_calloc_def)
    then show thesis using that(2) [of p a2 s'] a2 by (simp add: t)
  qed
qed

lemma takeWhile_upto_0: "0 \<notin> set xs \<Longrightarrow> takeWhile (\<lambda>c. c \<noteq> 0) (xs @ 0 # ys) = xs" for xs :: "u8 list"
  by (induction xs) auto

lemma unat_Suc_len: "n < SMALL \<Longrightarrow> unat (word_of_nat n + 1 :: u64) = n + 1"
  by (simp add: unat_word_ariths unsigned_of_nat take_bit_nat_eq_self)

lemma strdup_correct:
  assumes ok: "arena_ok a" and str: "0 \<notin> set str" "length str < SMALL"
  obtains (refused) s' where
      "ak_arena_strdup (Some a) (Some (str @ 0 # rest)) s =
         Some (None, Some (a\<lparr>next_block_num := next_block_num a + 1\<rparr>), s')"
      "\<not> grants_block (blocks a) s"
  | (allocated) p a' s' where
      "ak_arena_strdup (Some a) (Some (str @ 0 # rest)) s = Some (Some p, Some a', s')" "arena_ok a'"
      "arena_step a a'" "placed a p (length str + 1) a'"
      "load_bytes a' p (length str + 1) = Some (str @ [0])"
proof -
  let ?n = "word_of_nat (length str) + 1 :: u64"
  have len: "c_strlen (str @ 0 # rest) = Some (length str)"
    unfolding c_strlen_def takeWhile_upto_0 [OF str(1)] by simp
  have n: "unat ?n = length str + 1" by (rule unat_Suc_len [OF str(2)])
  then have "?n \<noteq> 0" "unat ?n \<le> SMALL" using str(2) by auto
  with ok show thesis
  proof (cases rule: alloc_placed [where s = s])
    case (refused s')
    then show thesis using that(1) len by (simp add: ak_arena_strdup_def)
  next
    case (allocated p a1 s')
    obtain a2 where a2: "store_bytes a1 (fst p, snd p) (str @ [0]) = Some a2" "arena_ok a2"
        "arena_step a a2" "placed a p (unat ?n) a2"
        "load_bytes a2 (fst p, snd p) (length (str @ [0])) = Some (str @ [0])"
      using store_placed [OF allocated(2-4), of "snd p" "str @ [0]"] n by force
    then have "ak_arena_strdup (Some a) (Some (str @ 0 # rest)) s = Some (Some p, Some a2, s')"
      using allocated(1) len by (simp add: ak_arena_strdup_def)
    then show thesis using that(2) [of p a2 s'] a2 by (simp add: n)
  qed
qed

lemma strnlen_loop_eq:
  "i \<le> n \<Longrightarrow> i \<le> length str \<Longrightarrow> 0 \<notin> set (take i str) \<Longrightarrow> n \<le> length str \<or> 0 \<in> set str \<Longrightarrow>
   strnlen_loop str n i = Some (length (takeWhile (\<lambda>c. c \<noteq> 0) (take n str)))"
proof (induction "n - i" arbitrary: i)
  case 0
  have "takeWhile (\<lambda>c. c \<noteq> 0) (take i str) = take i str"
    using "0.prems"(3) by (auto simp: takeWhile_eq_all_conv)
  then have "length (takeWhile (\<lambda>c. c \<noteq> 0) (take i str)) = length (take i str)" by (rule arg_cong)
  also have "\<dots> = i" using "0.prems"(2) by simp
  finally have "length (takeWhile (\<lambda>c. c \<noteq> 0) (take i str)) = i" .
  moreover have "n = i" using 0 by simp
  ultimately show ?case by (simp add: strnlen_loop.simps)
next
  case (Suc k)
  then have lt: "i < n" by simp
  have i: "i < length str"
  proof (rule ccontr)
    assume "\<not> i < length str"
    then show False using Suc.prems lt by auto
  qed
  show ?case
  proof (cases "str ! i = 0")
    case True
    have "take n str = take i str @ 0 # drop (Suc i) (take n str)"
      using id_take_nth_drop [of i "take n str"] lt i True by (simp add: min_def)
    then have "takeWhile (\<lambda>c. c \<noteq> 0) (take n str) = take i str"
      using takeWhile_upto_0 [OF Suc.prems(3)] by metis
    then show ?thesis using True lt i by (simp add: strnlen_loop.simps mem_simps)
  next
    case False
    have "0 \<notin> set (take (i + 1) str)"
      using Suc.prems(3) i False by (simp add: take_Suc_conv_app_nth)
    then have "strnlen_loop str n (i + 1) = Some (length (takeWhile (\<lambda>c. c \<noteq> 0) (take n str)))"
      using Suc.hyps lt i Suc.prems(4) by (intro Suc.hyps(1)) auto
    then show ?thesis using False lt i by (simp add: strnlen_loop.simps [of str n i] mem_simps)
  qed
qed

lemma load_join:
  assumes "load_bytes a (b, off) m = Some xs" and "load_bytes a (b, off + word_of_nat m) n = Some ys"
    and "unat (off + word_of_nat m) = unat off + m"
  shows "load_bytes a (b, off) (m + n) = Some (xs @ ys)"
  using assms
  by (auto simp: load_bytes_def take_add ac_simps split: option.splits if_splits)

lemma strndup_correct:
  assumes ok: "arena_ok a" and str: "unat n \<le> length str \<or> 0 \<in> set str" "length str < SMALL"
  defines "cp \<equiv> takeWhile (\<lambda>c. c \<noteq> 0) (take (unat n) str)"
  obtains (refused) s' where
      "ak_arena_strndup (Some a) (Some str) n s =
         Some (None, Some (a\<lparr>next_block_num := next_block_num a + 1\<rparr>), s')"
      "\<not> grants_block (blocks a) s"
  | (allocated) p a' s' where
      "ak_arena_strndup (Some a) (Some str) n s = Some (Some p, Some a', s')" "arena_ok a'"
      "arena_step a a'" "placed a p (length cp + 1) a'"
      "load_bytes a' p (length cp + 1) = Some (cp @ [0])"
proof -
  let ?l = "length cp" and ?n = "word_of_nat (length cp) + 1 :: u64"
  have "?l \<le> length (take (unat n) str)" unfolding cp_def by (rule length_takeWhile_le)
  then have l: "?l \<le> length str" "?l \<le> unat n" by simp_all
  have "cp = take ?l (take (unat n) str)" unfolding cp_def by (rule takeWhile_eq_take)
  then have cp: "take ?l str = cp" using l(2) by (simp add: min_def)
  have len: "strnlen_loop str (unat n) 0 = Some ?l"
    using strnlen_loop_eq [of 0 "unat n" str] str(1) by (simp add: cp_def)
  have n: "unat ?n = ?l + 1" using l(1) str(2) by (intro unat_Suc_len) simp
  then have "?n \<noteq> 0" "unat ?n \<le> SMALL" using l(1) str(2) by auto
  with ok show thesis
  proof (cases rule: alloc_placed [where s = s])
    case (refused s')
    then show thesis using that(1) len by (simp add: ak_arena_strndup_def)
  next
    case (allocated p a1 s')
    have end_le: "unat (snd p) + (?l + 1) < 2 ^ 64"
      using allocated(4) n unsigned_less [of "used_of (blocks a1) (fst p)", where ?'a = nat]
      by (simp add: placed_def)
    then have off: "unat (snd p + word_of_nat ?l) = unat (snd p) + ?l"
      by (simp add: unat_word_ariths unsigned_of_nat take_bit_nat_eq_self)
    obtain a2 where a2: "store_bytes a1 (fst p, snd p) cp = Some a2" "arena_ok a2"
        "arena_step a a2" "placed a p (unat ?n) a2" "load_bytes a2 (fst p, snd p) ?l = Some cp"
      by (rule store_placed [OF allocated(2-4), of "snd p" cp]) (use n in auto)
    obtain a3 where a3: "store_bytes a2 (fst p, snd p + word_of_nat ?l) [0] = Some a3" "arena_ok a3"
        "arena_step a a3" "placed a p (unat ?n) a3"
        "load_bytes a3 (fst p, snd p + word_of_nat ?l) (length [0 :: u8]) = Some [0]"
        "\<forall>q k. unat (snd q) + k \<le> unat (snd p + word_of_nat ?l) \<longrightarrow> load_bytes a3 q k = load_bytes a2 q k"
      by (rule store_placed [OF a2(2-4), of "snd p + word_of_nat ?l" "[0]"]) (use n off in auto)
    have "load_bytes a3 (fst p, snd p) ?l = Some cp"
      using a3(6) [rule_format, of "(fst p, snd p)" ?l] a2(5) off by simp
    then have "load_bytes a3 p (?l + 1) = Some (cp @ [0])"
      using load_join [of a3 "fst p" "snd p" ?l cp 1 "[0]"] a3(5) off by simp
    moreover have "ak_arena_strndup (Some a) (Some str) n s = Some (Some p, Some a3, s')"
      using allocated(1) len a2(1) a3(1) cp by (simp add: ak_arena_strndup_def)
    ultimately show thesis using that(2) [of p a3 s'] a3 by (simp add: n)
  qed
qed

lemma valid_load:
  assumes "arena_ok a" and "valid_ptr a p n"
  shows "\<exists>bs. load_bytes a p n = Some bs \<and> length bs = n"
  using assms used_le_length [OF arena_ok_block [OF assms(1)]]
  by (fastforce simp: valid_ptr_def load_bytes_def)

lemma step_load:
  assumes ok: "arena_ok a" and st: "arena_step a a'" and v: "valid_ptr a p n"
    and len: "\<forall>r r'. blocks a (fst p) = Some r \<longrightarrow> blocks a' (fst p) = Some r' \<longrightarrow>
      length (blk_data r') = length (blk_data r)"
  shows "load_bytes a' p n = load_bytes a p n"
proof -
  obtain x where x: "blocks a (fst p) = Some x" "unat (snd p) + n \<le> unat (blk_used x)"
    using v by (auto simp: valid_ptr_def)
  obtain y where y: "blocks a' (fst p) = Some y"
      "take (unat (blk_used x)) (blk_data y) = take (unat (blk_used x)) (blk_data x)"
    by (rule step_block [OF st x(1)])
  have "take n (drop (unat (snd p)) (blk_data y)) = take n (drop (unat (snd p)) (blk_data x))"
    using take_eq_le [OF y(2) x(2)] by (simp add: take_drop add.commute)
  then show ?thesis using x y len by (simp add: load_bytes_def)
qed

lemma step_lengths:
  assumes "arena_ok a" "arena_ok a'" "arena_step a a'" "blocks a b = Some r" "blocks a' b = Some r'"
  shows "length (blk_data r') = length (blk_data r)"
proof -
  have "blk_size r' = blk_size r" using step_block [OF assms(3,4)] assms(5) by auto
  then show ?thesis
    using arena_ok_block [OF assms(1,4)] arena_ok_block [OF assms(2,5)] by (simp add: block_ok_def)
qed

text \<open>Growing in place, when the pointer is the last allocation of the current block.\<close>

lemma realloc_in_place:
  assumes ok: "arena_ok a" and v: "valid_ptr a p (unat old_size)" and sz: "old_size < new_size" "unat new_size \<le> SMALL"
    and r: "blocks a (current_block a) = Some r" "fst p = current_block a" "snd p + old_size = blk_used r"
      "blk_used r + (new_size - old_size) \<le> blk_size r"
  defines "a' \<equiv> set_current a (r\<lparr>blk_used := blk_used r + (new_size - old_size)\<rparr>)"
  shows "ak_arena_realloc (Some a) (Some p) old_size new_size s = Some (Some p, Some a', s)"
    and "arena_ok a'" and "arena_step a a'" and "valid_ptr a' p (unat new_size)"
    and "load_bytes a' p (unat old_size) = load_bytes a p (unat old_size)"
    and "\<forall>d. d \<noteq> fst p \<longrightarrow> used_of (blocks a') d = used_of (blocks a) d"
    and "fst p = current_block a'"
proof -
  have nz: "new_size \<noteq> 0" using sz(1) by auto
  show "ak_arena_realloc (Some a) (Some p) old_size new_size s = Some (Some p, Some a', s)"
    using nz sz(1) r by (simp add: ak_arena_realloc_def Let_def a'_def set_current_def)
  have "unat (blk_used r) < 2 ^ 63"
    using arena_ok_block [OF ok r(1)] by (simp add: block_ok_def word_le_nat_alt)
  moreover have "unat (new_size - old_size) = unat new_size - unat old_size"
    using sz(1) by (simp add: unat_sub)
  ultimately have sum: "unat (blk_used r + (new_size - old_size)) = unat (blk_used r) + (unat new_size - unat old_size)"
    using sz(2) by (subst unat_add_lem [THEN iffD1]) simp_all
  have step: "arena_step a a'"
    unfolding a'_def using r(1) sum by (intro set_current_step) (simp_all add: word_le_nat_alt)
  have ok': "arena_ok a'"
    unfolding a'_def using r(4) arena_ok_block [OF ok r(1)]
    by (intro set_current_ok [OF ok r(1)]) (simp_all add: block_ok_def)
  show "arena_ok a'" "arena_step a a'" by fact+
  have "unat (snd p) + unat old_size = unat (blk_used r)"
    using v r(1-3) by (metis valid_ptr_def used_of_simps(2) le_antisym le_add1 word_arith_nat_add unat_word_ariths(1) mod_less_eq_dividend)
  then show "valid_ptr a' p (unat new_size)"
    using r(1,2) sum sz(1) by (simp add: valid_ptr_def a'_def set_current_def word_less_nat_alt)
  show "load_bytes a' p (unat old_size) = load_bytes a p (unat old_size)"
    using step_load [OF ok step v] step_lengths [OF ok ok' step] by blast
  show "\<forall>d. d \<noteq> fst p \<longrightarrow> used_of (blocks a') d = used_of (blocks a) d"
    using r(2) by (simp add: a'_def set_current_def)
  show "fst p = current_block a'" using r(2) by (simp add: a'_def set_current_def)
qed

lemma realloc_correct:
  assumes ok: "arena_ok a" and v: "valid_ptr a p (unat old_size)" and sz: "old_size < new_size" "unat new_size \<le> SMALL"
  obtains (refused) s' where
      "ak_arena_realloc (Some a) (Some p) old_size new_size s =
         Some (None, Some (a\<lparr>next_block_num := next_block_num a + 1\<rparr>), s')"
      "\<not> grants_block (blocks a) s"
  | (resized) q a' s' where
      "ak_arena_realloc (Some a) (Some p) old_size new_size s = Some (Some q, Some a', s')"
      "arena_ok a'" "arena_step a a'" "valid_ptr a' q (unat new_size)"
      "q = p \<or> placed a q (unat new_size) a'"
      "load_bytes a' q (unat old_size) = load_bytes a p (unat old_size)"
      "\<forall>d. d \<noteq> fst q \<longrightarrow> used_of (blocks a') d = used_of (blocks a) d" "fst q = current_block a'"
proof -
  obtain r where r: "blocks a (current_block a) = Some r" by (rule arena_ok_current [OF ok])
  let ?here = "fst p = current_block a \<and> snd p + old_size = blk_used r
    \<and> blk_used r + (new_size - old_size) \<le> blk_size r"
  have nz: "new_size \<noteq> 0" "\<not> new_size \<le> old_size" using sz(1) by auto
  show thesis
  proof (cases ?here)
    case True
    then show thesis using resized realloc_in_place [OF assms r] by blast
  next
    case False
    from ok nz(1) sz(2) show thesis
    proof (cases rule: alloc_placed [where s = s])
      case (refused s')
      then show thesis
        using that(1) nz r False by (simp add: ak_arena_realloc_def Let_def)
    next
      case (allocated q a1 s')
      obtain bs where bs: "load_bytes a p (unat old_size) = Some bs" "length bs = unat old_size"
        using valid_load [OF ok v] by blast
      have "load_bytes a1 p (unat old_size) = Some bs"
        using step_load [OF ok allocated(3) v] step_lengths [OF ok allocated(2,3)] bs(1) by simp
      moreover have "\<not> (fst q = fst p \<and> unat (snd q) < unat (snd p) + unat old_size)"
        using v allocated(4) by (auto simp: valid_ptr_def placed_def word_le_nat_alt)
      moreover obtain a2 where a2: "store_bytes a1 (fst q, snd q) bs = Some a2" "arena_ok a2"
          "arena_step a a2" "placed a q (unat new_size) a2"
          "load_bytes a2 (fst q, snd q) (length bs) = Some bs"
        by (rule store_placed [OF allocated(2-4), of "snd q" bs])
          (use bs(2) sz(1) in \<open>auto simp: word_less_nat_alt\<close>)
      ultimately have "ak_arena_realloc (Some a) (Some p) old_size new_size s = Some (Some q, Some a2, s')"
        using allocated(1) nz r False
        by (auto simp: ak_arena_realloc_def copy_bytes_def Let_def)
      moreover obtain r2 where "blocks a2 (current_block a2) = Some r2" by (rule arena_ok_current [OF a2(2)])
      then have "valid_ptr a2 q (unat new_size)"
        using a2(4) by (auto simp: valid_ptr_def placed_def)
      moreover have "load_bytes a2 q (unat old_size) = load_bytes a p (unat old_size)"
        using a2(5) bs by simp
      moreover have "\<forall>d. d \<noteq> fst q \<longrightarrow> used_of (blocks a2) d = used_of (blocks a) d"
          "fst q = current_block a2"
        using a2(4) by (simp_all add: placed_def)
      ultimately show thesis using that(2) [of q a2 s'] a2(2-4) by blast
    qed
  qed
qed

section \<open>Snapshots\<close>

text \<open>
  The states of an arena since a snapshot in state \<open>o\<close> with the blocks \<open>pre\<close> before its
  current block \<open>m\<close>: the chain still starts with \<open>pre\<close> and \<open>m\<close>, the blocks of \<open>pre\<close> are in
  use as they were, and so are the bytes of \<open>m\<close>.
\<close>

definition since :: "ak_arena \<Rightarrow> nat list \<Rightarrow> ak_arena \<Rightarrow> bool" where
  "since a0 pre a \<longleftrightarrow>
     (\<exists>mid post. arena_shape a mid post
        \<and> (\<exists>rest. mid @ [current_block a] = pre @ current_block a0 # rest))
     \<and> arena_counts a
     \<and> (\<forall>b \<in> set pre. used_of (blocks a) b = used_of (blocks a0) b)
     \<and> used_of (blocks a0) (current_block a0) \<le> used_of (blocks a) (current_block a0)
     \<and> map_option blk_num (blocks a (current_block a0)) = map_option blk_num (blocks a0 (current_block a0))
     \<and> (\<forall>c \<in> in_use a0. c \<in> in_use a \<and> byte_at a c = byte_at a0 c)"

lemma since_start: "arena_shape a pre post \<Longrightarrow> arena_counts a \<Longrightarrow> since a pre a"
  unfolding since_def by blast

lemma since_next_num:
  "since a0 pre a \<Longrightarrow> since a0 pre (a\<lparr>next_block_num := k\<rparr>)"
  by (simp add: since_def arena_shape_def arena_counts_def in_use_def byte_at_def)

lemma since_ok: "since a0 pre a \<Longrightarrow> arena_ok a"
  by (auto simp: since_def arena_ok_def)

text \<open>The chain after a step.\<close>

lemma step_shape:
  assumes ok: "arena_counts a'" and sh: "arena_shape a mid post" and st: "arena_step a a'"
    and used: "\<forall>d. d \<noteq> current_block a' \<longrightarrow> used_of (blocks a') d = used_of (blocks a) d"
  shows "\<exists>mid' post'. arena_shape a' mid' post'
    \<and> (mid' = mid \<and> current_block a' = current_block a \<or> mid' = mid @ [current_block a])"
proof -
  obtain r r' where r: "blocks a (current_block a) = Some r" "blocks a' (current_block a) = Some r'"
      "first_block a' = first_block a"
      "\<forall>b \<in> dom (blocks a). b \<noteq> current_block a \<longrightarrow> blocks a' b = blocks a b"
    and alt: "current_block a' = current_block a \<and> blk_next r' = blk_next r
        \<or> current_block a' \<notin> dom (blocks a) \<and> current_block a' \<noteq> 0
          \<and> blk_next r' = current_block a' \<and> (\<exists>n. blocks a' (current_block a') = Some n \<and> blk_next n = 0)"
    using st unfolding arena_step_def by blast
  have ch: "block_chain (blocks a) (first_block a) (mid @ current_block a # post)"
      "distinct (mid @ current_block a # post)"
    using sh by (simp_all add: arena_shape_def)
  have dom: "\<forall>b \<in> set (mid @ current_block a # post). b \<noteq> 0 \<and> b \<in> dom (blocks a)"
    using block_chain_dom [OF ch(1)] by blast
  from alt show ?thesis
  proof
    assume same: "current_block a' = current_block a \<and> blk_next r' = blk_next r"
    have "map_option blk_next (blocks a' b) = map_option blk_next (blocks a b)"
      if "b \<in> set (mid @ current_block a # post)" for b
      using that dom r same by (cases "b = current_block a") auto
    then have "block_chain (blocks a') (first_block a) (mid @ current_block a # post)"
      using ch(1) block_chain_cong by metis
    then have "arena_shape a' mid post"
      using sh same used r(3) by (auto simp: arena_shape_def)
    then show ?thesis using same by blast
  next
    assume new: "current_block a' \<notin> dom (blocks a) \<and> current_block a' \<noteq> 0
      \<and> blk_next r' = current_block a' \<and> (\<exists>n. blocks a' (current_block a') = Some n \<and> blk_next n = 0)"
    then obtain n where n: "blocks a' (current_block a') = Some n" "blk_next n = 0" by blast
    have "\<forall>x \<in> set mid. x \<in> dom (blocks a) \<and> x \<noteq> current_block a" using dom ch(2) by auto
    then have pre: "\<forall>x \<in> set mid. blocks a' x = blocks a x" using r(4) by blast
    have "block_chain (blocks a') (first_block a) (mid @ [current_block a, current_block a'])"
      using dom r new n by (intro block_chain_regrow [OF ch(1) pre]) auto
    moreover have "current_block a' \<notin> set (mid @ [current_block a])" using dom new by auto
    ultimately have "arena_shape a' (mid @ [current_block a]) []"
      using sh used r(3) ch(2) by (auto simp: arena_shape_def)
    then show ?thesis by blast
  qed
qed

lemma since_step:
  assumes s: "since a0 pre a" and st: "arena_step a a'" and ok: "arena_ok a'"
    and used: "\<forall>d. d \<noteq> current_block a' \<longrightarrow> used_of (blocks a') d = used_of (blocks a) d"
  shows "since a0 pre a'"
proof -
  obtain mid post rest where sh: "arena_shape a mid post"
      "mid @ [current_block a] = pre @ current_block a0 # rest"
    using s by (auto simp: since_def)
  have counts: "arena_counts a'" using ok by (simp add: arena_ok_def)
  obtain mid' post' where sh': "arena_shape a' mid' post'"
      "mid' = mid \<and> current_block a' = current_block a \<or> mid' = mid @ [current_block a]"
    using step_shape [OF counts sh(1) st used] by blast
  have chain: "\<exists>rest. mid' @ [current_block a'] = pre @ current_block a0 # rest"
    using sh'(2) sh(2) by (metis append_Cons append_assoc)
  have dist: "distinct (mid @ [current_block a])" "distinct (mid' @ [current_block a'])"
    using sh(1) sh'(1) by (auto simp: arena_shape_def)
  have "current_block a' \<notin> set pre"
    using sh'(2) sh(2) dist by (metis Un_iff append_is_Nil_conv distinct_append disjoint_iff last_ConsR
        last_append last_in_set last_snoc list.simps(3) not_in_set_insert set_append in_set_conv_decomp)
  then have pre: "\<forall>b \<in> set pre. used_of (blocks a') b = used_of (blocks a) b" using used by metis
  have keep: "\<forall>c \<in> in_use a. c \<in> in_use a' \<and> byte_at a' c = byte_at a c"
    using step_keeps [OF since_ok [OF s] st] by blast
  have "current_block a0 \<in> dom (blocks a)"
    using sh block_chain_dom [of "blocks a" "first_block a" "mid @ current_block a # post" "current_block a0"]
    by (metis Un_iff append_Cons append_assoc arena_shape_def in_set_conv_decomp set_append append_Nil)
  then obtain x where x: "blocks a (current_block a0) = Some x" by blast
  obtain y where y: "blocks a' (current_block a0) = Some y" "blk_used x \<le> blk_used y" "blk_num y = blk_num x"
    by (rule step_block [OF st x])
  have num: "map_option blk_num (blocks a' (current_block a0)) = map_option blk_num (blocks a (current_block a0))"
    and grows: "used_of (blocks a) (current_block a0) \<le> used_of (blocks a') (current_block a0)"
    using x y by simp_all
  have old: "\<forall>b \<in> set pre. used_of (blocks a) b = used_of (blocks a0) b"
      "used_of (blocks a0) (current_block a0) \<le> used_of (blocks a) (current_block a0)"
      "map_option blk_num (blocks a (current_block a0)) = map_option blk_num (blocks a0 (current_block a0))"
      "\<forall>c \<in> in_use a0. c \<in> in_use a \<and> byte_at a c = byte_at a0 c"
    using s by (simp_all add: since_def)
  have "\<forall>b \<in> set pre. used_of (blocks a') b = used_of (blocks a0) b" using old(1) pre by simp
  moreover have "\<forall>c \<in> in_use a0. c \<in> in_use a' \<and> byte_at a' c = byte_at a0 c"
    using old(4) keep by metis
  ultimately show ?thesis
    using counts sh'(1) chain num old(3) order_trans [OF old(2) grows] unfolding since_def by metis
qed

text \<open>Blocks whose use is reset.\<close>

abbreviation clear_blocks :: "nat set \<Rightarrow> block_store \<Rightarrow> block_store" where
  "clear_blocks \<equiv> map_blocks (\<lambda>r. r\<lparr>blk_used := 0\<rparr>)"

lemma clear_blocks_simps [simp]:
  "dom (clear_blocks cs st) = dom st"
  "used_of (clear_blocks cs st) b = (if b \<in> cs then 0 else used_of st b)"
  "size_of (clear_blocks cs st) b = size_of st b"
  "map_option blk_next (clear_blocks cs st b) = map_option blk_next (st b)"
  "b \<notin> cs \<Longrightarrow> clear_blocks cs st b = st b"
  by (auto simp: map_blocks_def used_of_def size_of_def dom_def option.map_comp o_def split: option.splits)

lemma sum_clear_blocks:
  assumes "finite (dom st)" and "cs \<subseteq> dom st"
  shows "(\<Sum>b \<in> dom st. used_of (clear_blocks cs st) b) =
    (\<Sum>b \<in> dom st. used_of st b) - (\<Sum>b \<in> cs. used_of st b)"
proof -
  have "(\<Sum>b \<in> dom st. used_of st b) = (\<Sum>b \<in> dom st - cs. used_of st b) + (\<Sum>b \<in> cs. used_of st b)"
    by (rule sum.subset_diff [OF assms(2,1)])
  moreover have "(\<Sum>b \<in> dom st. used_of (clear_blocks cs st) b) =
      (\<Sum>b \<in> dom st - cs. used_of (clear_blocks cs st) b) + (\<Sum>b \<in> cs. used_of (clear_blocks cs st) b)"
    by (rule sum.subset_diff [OF assms(2,1)])
  ultimately show ?thesis by simp
qed

lemma arena_counts_clear:
  assumes c: "arena_counts a" and cs: "cs \<subseteq> dom (blocks a)"
  shows "arena_counts (a\<lparr>blocks := clear_blocks cs (blocks a),
           total_used := total_used a - (\<Sum>b \<in> cs. used_of (blocks a) b), current_block := m\<rparr>)"
proof -
  note d = arena_countsD [OF c]
  have "block_ok r" if "clear_blocks cs (blocks a) b = Some r" for b r
    using that d(2) by (auto simp: map_blocks_def block_ok_def split: if_splits)
  then show ?thesis
    using d(1,3-6) sum_clear_blocks [OF d(1) cs] by (simp add: arena_counts_def)
qed

lemma total_used_cong:
  assumes "arena_counts a" and "arena_counts b" and "used_of (blocks a) = used_of (blocks b)"
  shows "total_used a = total_used b"
proof -
  let ?D = "dom (blocks a) \<union> dom (blocks b)"
  have "(\<Sum>d \<in> dom (blocks x). used_of (blocks x) d) = (\<Sum>d \<in> ?D. used_of (blocks x) d)"
    if "x = a \<or> x = b" for x
    using that arena_countsD(1) [OF assms(1)] arena_countsD(1) [OF assms(2)]
    by (intro sum.mono_neutral_left) (auto simp: domIff)
  then show ?thesis
    using arena_countsD(3) [OF assms(1)] arena_countsD(3) [OF assms(2)] assms(3) by metis
qed

lemma since_split:
  assumes "since a0 pre a"
  obtains cs where "block_chain (blocks a) (first_block a) (pre @ current_block a0 # cs)"
    "distinct (pre @ current_block a0 # cs)"
    "\<forall>b. b \<notin> set (pre @ current_block a0 # cs) \<longrightarrow> used_of (blocks a) b = 0"
proof -
  obtain mid post rest where sh: "arena_shape a mid post"
      "mid @ [current_block a] = pre @ current_block a0 # rest"
    using assms by (auto simp: since_def)
  have "mid @ current_block a # post = (mid @ [current_block a]) @ post" by simp
  also have "\<dots> = pre @ current_block a0 # (rest @ post)" by (simp add: sh(2))
  finally have eq: "mid @ current_block a # post = pre @ current_block a0 # (rest @ post)" .
  have "set (mid @ [current_block a]) \<subseteq> set (mid @ current_block a # post)" by auto
  then show thesis
    using that [of "rest @ post"] sh(1) unfolding arena_shape_def eq by blast
qed

lemma restore_correct:
  assumes s: "since a0 pre a" and sh0: "arena_shape a0 pre post0" and c0: "arena_counts a0"
    and mark: "ak_arena_snapshot (Some a0) = Some mark"
  obtains a' where "ak_arena_restore (Some a) mark = Some (Some a')" "arena_ok a'"
    "used_of (blocks a') = used_of (blocks a0)" "current_block a' = current_block a0"
    "total_used a' = total_used a0" "total_allocated a' = total_allocated a"
    "\<forall>b. map_option blk_data (blocks a' b) = map_option blk_data (blocks a b)"
proof -
  let ?m = "current_block a0"
  obtain cs where ch: "block_chain (blocks a) (first_block a) (pre @ ?m # cs)" "distinct (pre @ ?m # cs)"
      "\<forall>b. b \<notin> set (pre @ ?m # cs) \<longrightarrow> used_of (blocks a) b = 0"
    by (rule since_split [OF s])
  have dom: "\<forall>b \<in> set (pre @ ?m # cs). b \<noteq> 0 \<and> b \<in> dom (blocks a)" using block_chain_dom [OF ch(1)] by blast
  obtain r where r: "blocks a ?m = Some r" using dom by auto
  obtain r0 where r0: "blocks a0 ?m = Some r0"
    using arena_ok_current [of a0] sh0 c0 by (auto simp: arena_ok_def)
  have old: "\<forall>b \<in> set pre. used_of (blocks a) b = used_of (blocks a0) b" "blk_used r0 \<le> blk_used r"
      "blk_num r = blk_num r0" "arena_counts a"
    using s r r0 by (simp_all add: since_def)
  have mk: "mark = \<lparr>mark_block = ?m, mark_offset = blk_used r0, mark_block_num = blk_num r0\<rparr>"
    using mark r0 by (simp add: ak_arena_snapshot_def)
  let ?st = "clear_blocks (set cs) (blocks a)"
  let ?sum = "\<Sum>b \<in> set cs. used_of (blocks a) b"
  define a1 where "a1 = a\<lparr>blocks := ?st, total_used := total_used a - ?sum, current_block := ?m\<rparr>"
  define a2 where "a2 = a1\<lparr>blocks := ?st(?m \<mapsto> r\<lparr>blk_used := blk_used r0\<rparr>),
      total_used := total_used a - (?sum + (blk_used r - blk_used r0))\<rparr>"
  have m: "?m \<notin> set cs" "?m \<notin> set pre" "?m \<noteq> 0" using ch(2) dom by auto
  have a1: "arena_counts a1" unfolding a1_def using dom by (intro arena_counts_clear [OF old(4)]) auto
  have rs: "?st ?m = Some r" using m(1) r by simp
  have "block_ok r" using arena_countsD(2) [OF old(4) r] .
  then have "block_ok (r\<lparr>blk_used := blk_used r0\<rparr>)" using old(2) by (auto simp: block_ok_def)
  then have a2: "arena_counts a2"
    using m(1) r by (intro arena_counts_update [OF a1, of "r\<lparr>blk_used := blk_used r0\<rparr>" a2 ?m])
      (simp_all add: a1_def a2_def algebra_simps)
  have "ak_arena_restore (Some a) mark = Some (Some a2)"
  proof -
    have "seek_block (blocks a) (first_block a) ?m = Some ?m" by (rule seek_block_eq [OF ch(1) m(2)])
    moreover have "reclaim_blocks (blocks a) (blk_next r) 0 = Some (?st, ?sum)"
      using reclaim_blocks_eq [OF block_chain_tail [OF ch(1) r], of 0] ch(2) by simp
    ultimately show ?thesis
      using r rs m(3) old(3) by (simp add: ak_arena_restore_def mk a1_def a2_def)
  qed
  moreover have used: "used_of (blocks a2) = used_of (blocks a0)"
  proof
    fix b
    consider "b = ?m" | "b \<in> set cs" | "b \<in> set pre" | "b \<notin> set (pre @ ?m # cs)" by auto
    then show "used_of (blocks a2) b = used_of (blocks a0) b"
      using m r0 sh0 ch(2,3) old(1) by cases (auto simp: a2_def arena_shape_def)
  qed
  moreover have "arena_shape a2 pre cs"
  proof -
    have "block_chain (blocks a2) (first_block a) (pre @ ?m # cs)"
      using block_chain_cong [of "pre @ ?m # cs" "blocks a2" "blocks a"] ch(1) r
      by (auto simp: a2_def)
    then show ?thesis
      using ch(2) used sh0 by (simp add: arena_shape_def a2_def a1_def)
  qed
  moreover have "\<forall>b. map_option blk_data (blocks a2 b) = map_option blk_data (blocks a b)"
    using r by (simp add: a2_def map_blocks_def option.map_comp o_def)
  moreover have "current_block a2 = ?m" "total_allocated a2 = total_allocated a"
    by (simp_all add: a2_def a1_def)
  moreover have "arena_ok a2 \<longleftrightarrow> (\<exists>pre post. arena_shape a2 pre post)" using a2 by (simp add: arena_ok_def)
  ultimately show thesis using that [of a2] total_used_cong [OF a2 c0 used] by blast
qed

lemma reset_correct:
  assumes ok: "arena_ok a"
  obtains a' where "ak_arena_reset (Some a) = Some (Some a')" "arena_ok a'" "in_use a' = {}"
    "total_used a' = 0" "total_allocated a' = total_allocated a" "current_block a' = first_block a"
    "dom (blocks a') = dom (blocks a)"
proof -
  obtain pre post where sh: "arena_shape a pre post" and c: "arena_counts a"
    using ok by (auto simp: arena_ok_def)
  let ?cs = "pre @ current_block a # post"
  have ch: "block_chain (blocks a) (first_block a) ?cs" "distinct ?cs" using sh by (simp_all add: arena_shape_def)
  let ?st = "clear_blocks (set ?cs) (blocks a)"
  let ?a = "a\<lparr>blocks := ?st, current_block := first_block a, total_used := 0\<rparr>"
  have zero: "used_of ?st b = 0" for b using sh by (simp add: arena_shape_def)
  have "\<forall>b r. ?st b = Some r \<longrightarrow> block_ok r"
    using arena_countsD(2) [OF c] by (auto simp: map_blocks_def block_ok_def split: if_splits)
  then have "arena_counts ?a" using arena_countsD [OF c] zero by (simp add: arena_counts_def)
  moreover have "\<exists>cs'. ?cs = first_block a # cs'" using ch(1) by (cases pre) auto
  then obtain cs' where cs': "?cs = first_block a # cs'" by blast
  have "block_chain ?st (first_block a) ?cs" using ch(1) block_chain_cong [of ?cs ?st "blocks a"] by simp
  then have "block_chain ?st (first_block a) (first_block a # cs')" "distinct (first_block a # cs')"
    using ch(2) unfolding cs' by blast+
  then have "arena_shape ?a [] cs'" using zero by (simp add: arena_shape_def)
  ultimately have "arena_ok ?a" unfolding arena_ok_def by blast
  moreover have "ak_arena_reset (Some a) = Some (Some ?a)"
    using reset_blocks_eq [OF ch] by (simp add: ak_arena_reset_def)
  ultimately show thesis using that [of ?a] zero by (simp add: in_use_def)
qed

text \<open>Every operation between a snapshot and its restoration.\<close>

lemma since_placed:
  assumes "since a0 pre b" "arena_ok c" "arena_step b c" "placed b p n c"
  shows "since a0 pre c"
  using assms by (intro since_step [OF assms(1,3,2)]) (simp add: placed_def)

lemma alloc_trivial:
  assumes "sz = 0 \<or> align = 0 \<or> align AND (align - 1) \<noteq> 0"
  shows "ak_arena_alloc_aligned (Some a) sz align s = Some (None, Some a, s)"
  using assms by (auto simp: ak_arena_alloc_aligned_def)

lemma alloc_since:
  assumes s: "since a0 pre b" and sz: "unat sz \<le> SMALL" "unat align \<le> SMALL"
    and run: "ak_arena_alloc_aligned (Some b) sz align s = Some (p, Some c, s')"
  shows "since a0 pre c"
proof (cases "sz = 0 \<or> align = 0 \<or> align AND (align - 1) \<noteq> 0")
  case True
  then show ?thesis using alloc_trivial [OF True, of b s] run s by simp
next
  case False
  then have nz: "sz \<noteq> 0" "align \<noteq> 0" "align AND (align - 1) = 0" by auto
  show ?thesis
    by (rule alloc_aligned_placed [OF since_ok [OF s] nz(1) sz(1) nz(2,3) sz(2), of s])
      (use run s in \<open>auto intro: since_placed since_next_num\<close>)
qed

lemma calloc_since:
  assumes s: "since a0 pre b" and sz: "unat nmemb * unat sz \<le> SMALL"
    and run: "ak_arena_calloc (Some b) nmemb sz s = Some (p, Some c, s')"
  shows "since a0 pre c"
proof (cases "nmemb = 0 \<or> sz = 0")
  case True
  then show ?thesis using run s by (auto simp: ak_arena_calloc_def)
next
  case False
  then have nz: "nmemb \<noteq> 0" "sz \<noteq> 0" by auto
  show ?thesis
    by (rule calloc_correct [OF since_ok [OF s] nz sz, of s])
      (use run s in \<open>auto intro: since_placed since_next_num\<close>)
qed

lemma strdup_since:
  assumes s: "since a0 pre b" and len: "length str < SMALL"
    and run: "ak_arena_strdup (Some b) (Some str) s = Some (p, Some c, s')"
  shows "since a0 pre c"
proof -
  have "0 \<in> set str" using run by (auto simp: ak_arena_strdup_def c_strlen_def split: if_splits)
  then obtain xs ys where str: "str = xs @ 0 # ys" "0 \<notin> set xs" by (metis split_list_first)
  then have l: "length xs < SMALL" using len by simp
  show ?thesis
    by (rule strdup_correct [OF since_ok [OF s] str(2) l, where rest = ys and s = s])
      (use run s str(1) in \<open>auto intro: since_placed since_next_num\<close>)
qed

lemma strnlen_loop_defined:
  "strnlen_loop str n i = Some l \<Longrightarrow> i \<le> length str \<Longrightarrow> n \<le> length str \<or> 0 \<in> set str"
proof (induction str n i rule: strnlen_loop.induct)
  case (1 str n i)
  show ?case
  proof (cases "i < n")
    case True
    then have i: "i < length str" using "1.prems" by (cases "i < length str") (auto simp: strnlen_loop.simps [of str n i] mem_read_def)
    show ?thesis
    proof (cases "str ! i = 0")
      case True
      then show ?thesis using i by (metis nth_mem)
    next
      case False
      then show ?thesis
        using "1.IH" [OF True mem_read_Some [OF i]] "1.prems"(1) True i
        by (simp add: strnlen_loop.simps [of str n i] mem_simps)
    qed
  next
    case False
    then show ?thesis using "1.prems"(2) by simp
  qed
qed

lemma strndup_since:
  assumes s: "since a0 pre b" and len: "length str < SMALL"
    and run: "ak_arena_strndup (Some b) (Some str) n s = Some (p, Some c, s')"
  shows "since a0 pre c"
proof -
  have "unat n \<le> length str \<or> 0 \<in> set str"
    using run strnlen_loop_defined [of str "unat n" 0] by (auto simp: ak_arena_strndup_def Option.bind_eq_Some_conv)
  note st = this len
  show ?thesis
    by (rule strndup_correct [OF since_ok [OF s] st, of s])
      (use run s in \<open>auto intro: since_placed since_next_num\<close>)
qed

lemma realloc_since:
  assumes s: "since a0 pre b" and sz: "unat new_size \<le> SMALL" and v: "valid_ptr b q (unat old_size)"
    and run: "ak_arena_realloc (Some b) (Some q) old_size new_size s = Some (p, Some c, s')"
  shows "since a0 pre c"
proof (cases "new_size \<le> old_size")
  case True
  then show ?thesis using run s by (auto simp: ak_arena_realloc_def split: if_splits)
next
  case False
  then have lt: "old_size < new_size" by simp
  have ok: "arena_ok b" by (rule since_ok [OF s])
  from ok v lt sz show ?thesis
  proof (cases rule: realloc_correct [where s = s])
    case (refused s')
    then show ?thesis using run s by (auto intro: since_next_num)
  next
    case (resized x a' s1)
    then have "\<forall>d. d \<noteq> current_block a' \<longrightarrow> used_of (blocks a') d = used_of (blocks b) d" by simp
    then show ?thesis using since_step [OF s resized(3,2)] run resized(1) by auto
  qed
qed

lemma exec_since:
  assumes "arena_exec a b" and "since a0 pre a"
  shows "since a0 pre b"
  using assms
  by (induction rule: arena_exec.induct)
    (auto intro: alloc_since calloc_since realloc_since strdup_since strndup_since)

section \<open>The interface of a region allocator\<close>

text \<open>
  What clients of an arena rely on: an allocation leaves the bytes in use alone and gives
  cells that were not in use.
\<close>

locale region_allocator =
  fixes ok :: "'t \<Rightarrow> bool" and live :: "'t \<Rightarrow> 'c set" and content :: "'t \<Rightarrow> 'c \<Rightarrow> 'v"
    and cells_of :: "'p \<Rightarrow> 'n \<Rightarrow> 'c set" and small :: "'n \<Rightarrow> bool"
    and alloc :: "'t \<Rightarrow> 'n \<Rightarrow> 'g sched \<Rightarrow> ('p option \<times> 't \<times> 'g sched) option"
  assumes alloc_law: "ok t \<Longrightarrow> small n \<Longrightarrow> \<exists>p t' s'. alloc t n s = Some (p, t', s') \<and> ok t'
      \<and> live t \<subseteq> live t' \<and> (\<forall>c \<in> live t. content t' c = content t c)
      \<and> (\<forall>q. p = Some q \<longrightarrow> cells_of q n \<subseteq> live t' - live t)"

text \<open>Several allocations, one after the other.\<close>

fun alloc_many ::
  "('t \<Rightarrow> 'n \<Rightarrow> 'g sched \<Rightarrow> ('p option \<times> 't \<times> 'g sched) option) \<Rightarrow> 't \<Rightarrow> 'n list \<Rightarrow> 'g sched \<Rightarrow>
   ('p option list \<times> 't \<times> 'g sched) option" where
  "alloc_many alloc t [] s = Some ([], t, s)"
| "alloc_many alloc t (n # ns) s = do {
     (p, t', s') \<leftarrow> alloc t n s;
     (ps, t'', s'') \<leftarrow> alloc_many alloc t' ns s';
     Some (p # ps, t'', s'')
   }"

text \<open>The cells each of them was given, none for a refused one.\<close>

definition regions :: "('p \<Rightarrow> 'n \<Rightarrow> 'c set) \<Rightarrow> 'p option list \<Rightarrow> 'n list \<Rightarrow> 'c set list" where
  "regions cells_of ps ns = map2 (\<lambda>p n. case p of None \<Rightarrow> {} | Some q \<Rightarrow> cells_of q n) ps ns"

context region_allocator
begin

lemma alloc_many_law:
  "ok t \<Longrightarrow> \<forall>n \<in> set ns. small n \<Longrightarrow>
   \<exists>ps t' s'. alloc_many alloc t ns s = Some (ps, t', s') \<and> ok t' \<and> length ps = length ns
     \<and> live t \<subseteq> live t' \<and> (\<forall>c \<in> live t. content t' c = content t c)
     \<and> (\<forall>r \<in> set (regions cells_of ps ns). r \<subseteq> live t' - live t)
     \<and> (\<forall>i < length ns. \<forall>j < i. regions cells_of ps ns ! i \<inter> regions cells_of ps ns ! j = {})"
proof (induction ns arbitrary: t s)
  case (Cons n ns)
  obtain p t1 s1 where one: "alloc t n s = Some (p, t1, s1)" "ok t1" "live t \<subseteq> live t1"
      "\<forall>c \<in> live t. content t1 c = content t c" "\<forall>q. p = Some q \<longrightarrow> cells_of q n \<subseteq> live t1 - live t"
    using alloc_law [of t n s] Cons.prems by auto
  obtain ps t2 s2 where rest: "alloc_many alloc t1 ns s1 = Some (ps, t2, s2)" "ok t2"
      "length ps = length ns" "live t1 \<subseteq> live t2" "\<forall>c \<in> live t1. content t2 c = content t1 c"
      "\<forall>r \<in> set (regions cells_of ps ns). r \<subseteq> live t2 - live t1"
      "\<forall>i < length ns. \<forall>j < i. regions cells_of ps ns ! i \<inter> regions cells_of ps ns ! j = {}"
    using Cons.IH [OF one(2), of s1] Cons.prems(2) by auto
  define r where "r = (case p of None \<Rightarrow> {} | Some q \<Rightarrow> cells_of q n)"
  have eq: "regions cells_of (p # ps) (n # ns) = r # regions cells_of ps ns" by (simp add: regions_def r_def)
  have r: "r \<subseteq> live t1 - live t" using one(5) by (cases p) (simp_all add: r_def)
  have "\<forall>x \<in> set (regions cells_of (p # ps) (n # ns)). x \<subseteq> live t2 - live t"
    unfolding eq using r rest(4,6) one(3) by (simp, blast)
  moreover have "regions cells_of (p # ps) (n # ns) ! i \<inter> regions cells_of (p # ps) (n # ns) ! j = {}"
    if i: "i < length (n # ns)" and j: "j < i" for i j
  proof -
    obtain k where k: "i = Suc k" "k < length ns" using i j by (cases i) auto
    have "regions cells_of ps ns ! k \<in> set (regions cells_of ps ns)" 
      using k(2) rest(3) by (intro nth_mem) (simp add: regions_def)
    then have fresh: "regions cells_of ps ns ! k \<inter> live t1 = {}" using rest(6) by blast
    show ?thesis
    proof (cases j)
      case 0
      then show ?thesis unfolding eq using fresh r k(1) by auto
    next
      case (Suc l)
      then show ?thesis unfolding eq using rest(7) k j by simp
    qed
  qed
  moreover have "\<forall>c \<in> live t. content t2 c = content t c" using one(3,4) rest(5) by auto
  ultimately show ?case using one(1,3) rest(1-4) by auto
qed (simp add: regions_def)

end

definition request_ok :: "u64 \<Rightarrow> bool" where
  "request_ok sz \<longleftrightarrow> sz \<noteq> 0 \<and> unat sz \<le> SMALL"

definition alloc_in :: "ak_arena \<Rightarrow> u64 \<Rightarrow> ptr_sched \<Rightarrow> (arena_ptr option \<times> ak_arena \<times> ptr_sched) option" where
  "alloc_in a sz s = Option.bind (ak_arena_alloc (Some a) sz s)
     (\<lambda>(p, a', s'). map_option (\<lambda>x. (p, x, s')) a')"

lemma in_use_next_num [simp]:
  "in_use (a\<lparr>next_block_num := k\<rparr>) = in_use a" "byte_at (a\<lparr>next_block_num := k\<rparr>) = byte_at a"
  by (simp_all add: in_use_def byte_at_def)

lemma placed_bytes:
  assumes "arena_ok a" "arena_ok a'" "arena_step a a'" "placed a p n a'"
  shows "region p n \<subseteq> in_use a' - in_use a" and "in_use a \<subseteq> in_use a'"
    and "\<forall>c \<in> in_use a. byte_at a' c = byte_at a c"
    and "\<exists>r. blocks a' (fst p) = Some r \<and> unat (snd p) + n \<le> length (blk_data r)"
proof -
  show "region p n \<subseteq> in_use a' - in_use a" using placed_region [OF assms(4)] by blast
  show "in_use a \<subseteq> in_use a'" "\<forall>c \<in> in_use a. byte_at a' c = byte_at a c"
    using step_keeps [OF assms(1,3)] by blast+
  obtain r where "blocks a' (current_block a') = Some r" "block_ok r" by (rule arena_ok_current [OF assms(2)])
  then show "\<exists>r. blocks a' (fst p) = Some r \<and> unat (snd p) + n \<le> length (blk_data r)"
    using assms(4) used_le_length [of r] by (auto simp: placed_def)
qed

interpretation ar: region_allocator arena_ok in_use byte_at "\<lambda>p sz. region p (unat sz)" request_ok alloc_in
proof
  fix t sz and s :: ptr_sched
  assume ok: "arena_ok t" and "request_ok sz"
  then have sz: "sz \<noteq> 0" "unat sz \<le> SMALL" by (simp_all add: request_ok_def)
  from ok sz show "\<exists>p t' s'. alloc_in t sz s = Some (p, t', s') \<and> arena_ok t' \<and> in_use t \<subseteq> in_use t'
      \<and> (\<forall>c \<in> in_use t. byte_at t' c = byte_at t c)
      \<and> (\<forall>q. p = Some q \<longrightarrow> region q (unat sz) \<subseteq> in_use t' - in_use t)"
  proof (cases rule: alloc_placed [where s = s])
    case (refused s')
    then show ?thesis using ok by (simp add: alloc_in_def)
  next
    case (allocated p a' s')
    then show ?thesis
      using placed_bytes [OF ok allocated(2-4)] by (auto simp: alloc_in_def)
  qed
qed

section \<open>Properties of arenas\<close>


text \<open>
  C14: Any number of allocations from a well-formed arena give pairwise disjoint regions,
  none of which overlaps a byte that was in use before, and the bytes in use before keep
  their values throughout.\<close>

theorem arena_regions_disjoint:
  assumes "arena_ok a" and "\<forall>n \<in> set ns. request_ok n"
  shows "\<exists>ps a' s'. alloc_many alloc_in a ns s = Some (ps, a', s') \<and> arena_ok a' \<and> length ps = length ns
    \<and> in_use a \<subseteq> in_use a' \<and> (\<forall>c \<in> in_use a. byte_at a' c = byte_at a c)
    \<and> (\<forall>r \<in> set (regions (\<lambda>p n. region p (unat n)) ps ns). r \<subseteq> in_use a' - in_use a)
    \<and> (\<forall>i < length ns. \<forall>j < i. regions (\<lambda>p n. region p (unat n)) ps ns ! i
          \<inter> regions (\<lambda>p n. region p (unat n)) ps ns ! j = {})"
  using assms by (rule ar.alloc_many_law)


text \<open>
  What the filling operations leave in the arena: a zeroed allocation holds zeros and is
  refused when the product of its sizes does not fit 64 bits; a string copy holds the string
  up to its NUL; a bounded copy holds the bytes before the first NUL among the first n, and
  a NUL.\<close>

theorem arena_fills:
  assumes "arena_ok a"
  shows "(2 ^ 64 \<le> unat nmemb * unat sz \<longrightarrow> ak_arena_calloc (Some a) nmemb sz s = Some (None, Some a, s))
    \<and> (nmemb \<noteq> 0 \<longrightarrow> sz \<noteq> 0 \<longrightarrow> unat nmemb * unat sz \<le> SMALL \<longrightarrow>
        (\<exists>p a' s'. ak_arena_calloc (Some a) nmemb sz s = Some (p, Some a', s') \<and> arena_ok a'
          \<and> (\<forall>q. p = Some q \<longrightarrow> load_bytes a' q (unat nmemb * unat sz) = Some (replicate (unat nmemb * unat sz) 0))))
    \<and> (0 \<notin> set str \<longrightarrow> length str < SMALL \<longrightarrow>
        (\<exists>p a' s'. ak_arena_strdup (Some a) (Some (str @ 0 # rest)) s = Some (p, Some a', s') \<and> arena_ok a'
          \<and> (\<forall>q. p = Some q \<longrightarrow> load_bytes a' q (length str + 1) = Some (str @ [0]))))
    \<and> (unat n \<le> length text1 \<or> 0 \<in> set text1 \<longrightarrow> length text1 < SMALL \<longrightarrow>
        (\<exists>p a' s'. ak_arena_strndup (Some a) (Some text1) n s = Some (p, Some a', s') \<and> arena_ok a'
          \<and> (\<forall>q. p = Some q \<longrightarrow>
               (let cp = takeWhile (\<lambda>c. c \<noteq> 0) (take (unat n) text1)
                in load_bytes a' q (length cp + 1) = Some (cp @ [0])))))"
proof (intro conjI impI)
  show "ak_arena_calloc (Some a) nmemb sz s = Some (None, Some a, s)" if "2 ^ 64 \<le> unat nmemb * unat sz"
    using calloc_overflow [OF that] .
  show "\<exists>p a' s'. ak_arena_calloc (Some a) nmemb sz s = Some (p, Some a', s') \<and> arena_ok a'
      \<and> (\<forall>q. p = Some q \<longrightarrow> load_bytes a' q (unat nmemb * unat sz) = Some (replicate (unat nmemb * unat sz) 0))"
    if "nmemb \<noteq> 0" "sz \<noteq> 0" "unat nmemb * unat sz \<le> SMALL"
    by (rule calloc_correct [OF assms that, of s]) (use assms in auto)
  show "\<exists>p a' s'. ak_arena_strdup (Some a) (Some (str @ 0 # rest)) s = Some (p, Some a', s') \<and> arena_ok a'
      \<and> (\<forall>q. p = Some q \<longrightarrow> load_bytes a' q (length str + 1) = Some (str @ [0]))"
    if "0 \<notin> set str" "length str < SMALL"
    by (rule strdup_correct [OF assms that, where rest = rest and s = s]) (use assms in auto)
  show "\<exists>p a' s'. ak_arena_strndup (Some a) (Some text1) n s = Some (p, Some a', s') \<and> arena_ok a'
      \<and> (\<forall>q. p = Some q \<longrightarrow>
           (let cp = takeWhile (\<lambda>c. c \<noteq> 0) (take (unat n) text1)
            in load_bytes a' q (length cp + 1) = Some (cp @ [0])))"
    if "unat n \<le> length text1 \<or> 0 \<in> set text1" "length text1 < SMALL"
    by (rule strndup_correct [OF assms that, of s]) (use assms in \<open>auto simp: Let_def\<close>)
qed

text \<open>
  Growing an allocation keeps its bytes: with a pointer to \<open>old_size\<close> bytes in use, the
  reallocation returns, in a well-formed arena, either NULL when a block is refused, or a
  pointer to \<open>new_size\<close> bytes in use whose first \<open>old_size\<close> bytes hold what they held; every
  byte in use keeps its value. A smaller size returns the same pointer and changes nothing.\<close>

theorem arena_realloc_spec:
  assumes "arena_ok a" and "valid_ptr a p (unat old_size)" and "new_size \<noteq> 0" and "unat new_size \<le> SMALL"
  shows "\<exists>q a' s'. ak_arena_realloc (Some a) (Some p) old_size new_size s = Some (q, Some a', s') \<and> arena_ok a'
    \<and> in_use a \<subseteq> in_use a' \<and> (\<forall>c \<in> in_use a. byte_at a' c = byte_at a c)
    \<and> (case q of None \<Rightarrow> old_size < new_size \<and> \<not> grants_block (blocks a) s
        | Some r \<Rightarrow> valid_ptr a' r (unat new_size)
            \<and> (new_size \<le> old_size \<longrightarrow> r = p \<and> a' = a)
            \<and> (old_size < new_size \<longrightarrow>
                 load_bytes a' r (unat old_size) = load_bytes a p (unat old_size)))"
proof (cases "new_size \<le> old_size")
  case True
  then have "valid_ptr a p (unat new_size)"
    using assms(2) by (auto simp: valid_ptr_def word_le_nat_alt)
  then show ?thesis using assms(1,3) True by (simp add: ak_arena_realloc_def)
next
  case False
  then have lt: "old_size < new_size" by simp
  from assms(1,2) lt assms(4) show ?thesis
  proof (cases rule: realloc_correct [where s = s])
    case (refused s')
    then show ?thesis using assms(1) lt by simp
  next
    case (resized q a' s')
    have "in_use a \<subseteq> in_use a'" "\<forall>c \<in> in_use a. byte_at a' c = byte_at a c"
      using step_keeps [OF assms(1) resized(3)] by blast+
    then show ?thesis using resized(1,2,4,6) lt False by simp
  qed
qed

lemma new_correct:
  assumes "bs \<noteq> 0" and "unat bs \<le> SMALL" and "ak_arena_new bs s = (Some a, s')"
  shows "arena_ok a" and "in_use a = {}" and "total_used a = 0" and "total_allocated a = bs"
proof -
  obtain b d where a: "a = \<lparr>first_block = b, current_block = b, block_size = bs, total_allocated = bs,
      total_used = 0, next_block_num = 1, blocks = [b \<mapsto> \<lparr>blk_data = d, blk_size = bs,
      blk_used = 0, blk_num = 0, blk_next = 0\<rparr>]\<rparr>" and b: "b \<noteq> 0" "length d = unat bs"
    using assms(1,3)
    by (cases rule: allocate_block_cases [of Map.empty bs 0 "snd (sys_alloc s)"])
      (auto simp: ak_arena_new_def split: prod.splits option.splits)
  have "arena_counts a"
    using assms(1,2) b by (simp add: a arena_counts_def block_ok_def word_less_nat_alt unat_gt_0)
  moreover have "arena_shape a [] []" using b(1) by (simp add: a arena_shape_def)
  ultimately show "arena_ok a" by (auto simp: arena_ok_def)
  show "in_use a = {}" "total_used a = 0" "total_allocated a = bs"
    by (simp_all add: a in_use_def used_of_def split: if_splits)
qed

lemma free_correct:
  assumes "arena_shape a pre post"
  shows "ak_arena_free (Some a) = Some (blocks a |` (- set (pre @ current_block a # post)))"
  using assms free_block_chain_eq unfolding ak_arena_free_def arena_shape_def by auto

text \<open>
  An arena from creation to release. A new arena is well-formed with nothing in use;
  resetting a well-formed arena leaves every block allocated and no byte in use; freeing it
  releases exactly the blocks that are linked from the first one. When an allocation needs a
  new block while blocks kept by a reset or a restoration are linked behind the current one,
  those blocks are unlinked and freeing the arena leaves them allocated.\<close>

theorem arena_lifecycle:
  assumes "arena_shape a pre post" and "arena_counts a"
  shows "(bs \<noteq> 0 \<and> unat bs \<le> SMALL \<and> ak_arena_new bs s0 = (Some n, s1) \<longrightarrow> arena_ok n \<and> in_use n = {})
    \<and> (\<exists>a'. ak_arena_reset (Some a) = Some (Some a') \<and> arena_ok a' \<and> in_use a' = {}
          \<and> dom (blocks a') = dom (blocks a) \<and> total_allocated a' = total_allocated a)
    \<and> ak_arena_free (Some a) = Some (blocks a |` (- set (pre @ current_block a # post)))
    \<and> (request_ok sz \<and> ak_arena_alloc (Some a) sz s = Some (Some p, Some c, s') \<and> blocks a (fst p) = None \<longrightarrow>
        (\<exists>st. ak_arena_free (Some c) = Some st \<and> set post \<subseteq> dom st))"
proof (intro conjI impI)
  have ok: "arena_ok a" using assms by (auto simp: arena_ok_def)
  show "arena_ok n" if "bs \<noteq> 0 \<and> unat bs \<le> SMALL \<and> ak_arena_new bs s0 = (Some n, s1)"
    using that new_correct(1) by blast
  show "in_use n = {}" if "bs \<noteq> 0 \<and> unat bs \<le> SMALL \<and> ak_arena_new bs s0 = (Some n, s1)"
    using that new_correct(2) by blast
  show "\<exists>a'. ak_arena_reset (Some a) = Some (Some a') \<and> arena_ok a' \<and> in_use a' = {}
      \<and> dom (blocks a') = dom (blocks a) \<and> total_allocated a' = total_allocated a"
    using reset_correct [OF ok] by metis
  show "ak_arena_free (Some a) = Some (blocks a |` (- set (pre @ current_block a # post)))"
    by (rule free_correct [OF assms(1)])
  assume r: "request_ok sz \<and> ak_arena_alloc (Some a) sz s = Some (Some p, Some c, s') \<and> blocks a (fst p) = None"
  then have sz: "sz \<noteq> 0" "unat sz \<le> SMALL" by (simp_all add: request_ok_def)
  from ok sz show "\<exists>st. ak_arena_free (Some c) = Some st \<and> set post \<subseteq> dom st"
  proof (cases rule: alloc_placed [where s = s])
    case (allocated q a' s'')
    then have eq: "a' = c" "q = p" using r by simp_all
    have used: "\<forall>d. d \<noteq> current_block c \<longrightarrow> used_of (blocks c) d = used_of (blocks a) d"
      using allocated(4) by (simp add: placed_def eq)
    obtain mid' post' where sh: "arena_shape c mid' post'"
        "mid' = pre \<and> current_block c = current_block a \<or> mid' = pre @ [current_block a]"
      using step_shape [OF _ assms(1) _ used] allocated(2,3) by (auto simp: arena_ok_def eq)
    have cur: "current_block c = fst p" using allocated(4) by (simp add: placed_def eq)
    obtain ra where ra: "blocks a (current_block a) = Some ra" by (rule arena_ok_current [OF ok])
    then have mid: "mid' = pre @ [current_block a]" "current_block c \<notin> dom (blocks a)"
      using sh(2) r cur by auto
    have dom: "set post \<subseteq> dom (blocks a)" "set post \<inter> set (pre @ [current_block a]) = {}"
      using assms(1) block_chain_dom [of "blocks a" "first_block a" "pre @ current_block a # post"]
      by (auto simp: arena_shape_def)
    have "current_block c \<noteq> current_block a" using mid(2) ra by auto
    then obtain n where n: "blocks c (current_block c) = Some n" "blk_next n = 0"
      using allocated(3) unfolding eq arena_step_def by metis
    have "block_chain (blocks c) (first_block c) (mid' @ current_block c # post')"
      using sh(1) by (simp add: arena_shape_def)
    from block_chain_tail [OF this n(1)] have "post' = []" using n(2) by (cases post') simp_all
    then have "ak_arena_free (Some c) = Some (blocks c |` (- set (pre @ [current_block a, current_block c])))"
      using free_correct [OF sh(1)] mid(1) by simp
    moreover have "x \<in> dom (blocks c)" if x: "x \<in> set post" for x
    proof -
      obtain rx where "blocks a x = Some rx" using x dom(1) by blast
      from step_block [OF allocated(3) this] show ?thesis unfolding eq by blast
    qed
    then have "set post \<subseteq> dom (blocks c) \<inter> - set (pre @ [current_block a, current_block c])"
      using dom mid(2) by auto
    ultimately show ?thesis by (metis dom_restrict)
  qed (use r in simp)
qed

text \<open>
  A size whose sum with the used bytes wraps is not refused. With \<open>u\<close> bytes in use in
  the current block, \<open>u\<close> a positive multiple of 8, a request of \<open>2 ^ 64 - u\<close> bytes returns
  a pointer into the block and sets its used bytes to 0, so that the next request that fits
  the block is given bytes that are still in use.\<close>

theorem arena_size_wraps:
  assumes "arena_ok a" and "blocks a (current_block a) = Some r" and "blk_used r \<noteq> 0"
    and "8 dvd unat (blk_used r)" and "sz \<noteq> 0" and "sz \<le> blk_size r"
  shows "\<exists>a'. ak_arena_alloc (Some a) (- blk_used r) s = Some (Some (current_block a, blk_used r), Some a', s)
    \<and> used_of (blocks a') (current_block a) = 0
    \<and> (\<exists>a''. ak_arena_alloc (Some a') sz s = Some (Some (current_block a, 0), Some a'', s))
    \<and> region (current_block a, 0) (unat sz) \<inter> in_use a \<noteq> {}"
proof -
  have ok: "block_ok r" by (rule arena_ok_block [OF assms(1,2)])
  then have "unat (blk_used r) + unat (AK_ARENA_DEFAULT_ALIGNMENT - 1) < 2 ^ 64"
    by (simp add: block_ok_def word_le_nat_alt)
  then have up: "align_up (blk_used r) AK_ARENA_DEFAULT_ALIGNMENT = blk_used r"
    using assms(4) by (intro align_up_id [OF default_alignment(1,2)]) simp_all
  have up0: "align_up 0 AK_ARENA_DEFAULT_ALIGNMENT = 0" by (simp add: align_up_def)
  let ?a = "set_current a (r\<lparr>blk_used := 0\<rparr>)"
  have "ak_arena_alloc (Some a) (- blk_used r) s = Some (Some (current_block a, blk_used r), Some ?a, s)"
    using assms(2,3) up take_bytes_current [OF assms(2), of "blk_used r" "- blk_used r"]
    by (simp add: ak_arena_alloc_def ak_arena_alloc_aligned_def Let_def)
  moreover have cur: "blocks ?a (current_block ?a) = Some (r\<lparr>blk_used := 0\<rparr>)"
      "current_block ?a = current_block a" by (simp_all add: set_current_def)
  moreover have "\<exists>a''. ak_arena_alloc (Some ?a) sz s = Some (Some (current_block a, 0), Some a'', s)"
    using assms(5) leD [OF assms(6)] up0 take_bytes_current [OF cur(1), of 0 sz] cur
    by (simp add: ak_arena_alloc_def ak_arena_alloc_aligned_def Let_def)
  moreover have "(current_block a, 0) \<in> region (current_block a, 0) (unat sz) \<inter> in_use a"
    using assms(2,3,5) by (simp add: region_def in_use_def unat_gt_0)
  ultimately show ?thesis by auto
qed

definition demo_arena :: ak_arena where
  "demo_arena = \<lparr>first_block = 1, current_block = 1, block_size = 64, total_allocated = 64,
     total_used = 8, next_block_num = 1, blocks = [1 \<mapsto> \<lparr>blk_data = replicate 64 0, blk_size = 64,
     blk_used = 8, blk_num = 0, blk_next = 0\<rparr>]\<rparr>"

lemma demo_arena_shape: "arena_shape demo_arena [] []" and demo_arena_counts: "arena_counts demo_arena"
  by (simp_all add: demo_arena_def arena_shape_def arena_counts_def block_ok_def used_of_def size_of_def)

lemma demo_arena_ok: "arena_ok demo_arena"
  using demo_arena_shape demo_arena_counts by (auto simp: arena_ok_def)


theorem arena_regions_disjoint_witness:
  "\<exists>ps a' s'. alloc_many alloc_in demo_arena [16, 100] [] = Some (ps, a', s') \<and> length ps = 2
    \<and> regions (\<lambda>p n. region p (unat n)) ps [16 :: u64, 100] ! 1
        \<inter> regions (\<lambda>p n. region p (unat n)) ps [16 :: u64, 100] ! 0 = {}"
proof -
  have "\<forall>n \<in> set [16, 100]. request_ok n" by (simp add: request_ok_def)
  from arena_regions_disjoint [OF demo_arena_ok this, of "[]"] obtain ps a' s' where
    "alloc_many alloc_in demo_arena [16, 100] [] = Some (ps, a', s')" "length ps = length [16 :: u64, 100]"
    "\<forall>i < length [16 :: u64, 100]. \<forall>j < i. regions (\<lambda>p n. region p (unat n)) ps [16 :: u64, 100] ! i
       \<inter> regions (\<lambda>p n. region p (unat n)) ps [16 :: u64, 100] ! j = {}"
    by (elim exE conjE) (rule that; assumption)
  then show ?thesis by (intro exI [of _ ps] exI [of _ a'] exI [of _ s']) simp
qed


theorem arena_fills_witness:
  "(\<exists>p a' s'. ak_arena_calloc (Some demo_arena) 2 4 [] = Some (p, Some a', s') \<and> arena_ok a')
   \<and> (\<exists>p a' s'. ak_arena_strdup (Some demo_arena) (Some [97, 0]) [] = Some (p, Some a', s') \<and> arena_ok a')
   \<and> (\<exists>p a' s'. ak_arena_strndup (Some demo_arena) (Some [97, 98]) 1 [] = Some (p, Some a', s') \<and> arena_ok a')"
  using arena_fills [OF demo_arena_ok, of 2 4 "[]" "[97]" "[]" 1 "[97, 98]"] by auto

theorem arena_realloc_spec_witness:
  "\<exists>q a' s'. ak_arena_realloc (Some demo_arena) (Some (1, 0)) 8 24 [] = Some (q, Some a', s') \<and> arena_ok a'
    \<and> in_use demo_arena \<subseteq> in_use a'"
  using arena_realloc_spec [OF demo_arena_ok, of "(1, 0)" 8 24 "[]"]
  by (auto simp: valid_ptr_def demo_arena_def used_of_def)

theorem arena_lifecycle_witness:
  "(\<exists>a'. ak_arena_reset (Some demo_arena) = Some (Some a') \<and> arena_ok a' \<and> in_use a' = {})
    \<and> ak_arena_free (Some demo_arena) = Some Map.empty"
proof -
  have "ak_arena_free (Some demo_arena) = Some (blocks demo_arena |` (- set ([] @ current_block demo_arena # [])))"
    "\<exists>a'. ak_arena_reset (Some demo_arena) = Some (Some a') \<and> arena_ok a' \<and> in_use a' = {}"
    using arena_lifecycle [OF demo_arena_shape demo_arena_counts] by blast+
  moreover have "blocks demo_arena |` (- set ([] @ current_block demo_arena # [])) = Map.empty"
    by (auto simp: demo_arena_def restrict_map_def)
  ultimately show ?thesis by simp
qed

theorem arena_size_wraps_witness:
  "\<exists>a'. ak_arena_alloc (Some demo_arena) (- 8) [] = Some (Some (1, 8), Some a', [])
    \<and> used_of (blocks a') 1 = 0"
  using arena_size_wraps [OF demo_arena_ok, of "the (blocks demo_arena 1)" 8 "[]"]
  by (auto simp: demo_arena_def)

end
