(* ===== verification/Arbuff.thy ===== *)
theory Arbuff
  imports Prelude
begin

text \<open>
  Model of kernel/arbuff/src/arbuff.c: the bounded queue of pointers in an array of slots
  with sequence numbers. Positions and sequence numbers are 64-bit words; an item is the
  address it stands for, 0 being NULL. An operation is modelled twice: as a function for a
  caller that runs alone, where the list of booleans gives the outcomes of its weak
  compare-and-swap instructions (they may fail spuriously; an exhausted list succeeds), and
  as a sequence of steps of one atomic access each, for threads that interleave. In the
  functions, \<open>None\<close> is an undefined access, an overflowing signed difference, or a loop
  without an end.

  The lemmas show that for capacities from 2 to \<open>2 ^ 59\<close> the functions implement a bounded
  queue, that under every interleaving each item is delivered once and in the order of the
  reservations, that a buffer of capacity 1 accepts a second item and then never delivers,
  and that clearing leaves a buffer on which the next push does not return unless the head
  is a multiple of the capacity.
\<close>

section \<open>Definitions\<close>

record ak_arbuff_slot =
  slot_value :: nat
  slot_seq :: u64

record ak_arbuff =
  slots :: "ak_arbuff_slot list"
  arb_capacity :: u64
  arb_mask :: u64
  arb_head :: u64
  arb_tail :: u64

definition next_power_of_2 :: "u64 \<Rightarrow> u64" where
  "next_power_of_2 n =
     (if n = 0 then 1
      else let n = n - 1;
               n = n OR drop_bit 1 n;
               n = n OR drop_bit 2 n;
               n = n OR drop_bit 4 n;
               n = n OR drop_bit 8 n;
               n = n OR drop_bit 16 n;
               n = n OR drop_bit 32 n
           in n + 1)"

text \<open>The size in bytes of a slot: two words.\<close>

abbreviation sizeof_slot :: u64 where
  "sizeof_slot \<equiv> 16"

text \<open>The loop that initialises the slots, from index \<open>i\<close> with \<open>n\<close> slots left.\<close>

fun init_slots :: "nat \<Rightarrow> nat \<Rightarrow> ak_arbuff_slot list \<Rightarrow> ak_arbuff_slot list option" where
  "init_slots 0 i ss = Some ss"
| "init_slots (Suc n) i ss = do {
     ss' \<leftarrow> mem_write ss i \<lparr>slot_value = 0, slot_seq = word_of_nat i\<rparr>;
     init_slots n (i + 1) ss'
   }"

type_synonym slot_sched = "(nat \<Rightarrow> ak_arbuff_slot) sched"

definition ak_arbuff_new :: "u64 \<Rightarrow> slot_sched \<Rightarrow> (ak_arbuff option \<times> slot_sched) option" where
  "ak_arbuff_new capacity s =
     (if capacity = 0 then Some (None, s)
      else let capacity = next_power_of_2 capacity in
        (case sys_alloc s of
           (None, s1) \<Rightarrow> Some (None, s1)
         | (Some _, s1) \<Rightarrow>
            (case sys_alloc s1 of
               (None, s2) \<Rightarrow> Some (None, s2)
             | (Some g, s2) \<Rightarrow> do {
                 ss \<leftarrow> init_slots (unat capacity) 0
                        (map g [0..<unat (sizeof_slot * capacity) div unat sizeof_slot]);
                 Some (Some \<lparr>slots = ss, arb_capacity = capacity, arb_mask = capacity - 1,
                             arb_head = 0, arb_tail = 0\<rparr>, s2)
               })))"

definition slot_at :: "ak_arbuff \<Rightarrow> u64 \<Rightarrow> ak_arbuff_slot option" where
  "slot_at q pos = mem_read (slots q) (unat (pos AND arb_mask q))"

definition set_slot :: "ak_arbuff \<Rightarrow> u64 \<Rightarrow> (ak_arbuff_slot \<Rightarrow> ak_arbuff_slot) \<Rightarrow> ak_arbuff option" where
  "set_slot q pos f = do {
     sl \<leftarrow> slot_at q pos;
     ss \<leftarrow> mem_write (slots q) (unat (pos AND arb_mask q)) (f sl);
     Some (q\<lparr>slots := ss\<rparr>)
   }"

text \<open>\<open>(intptr_t)a - (intptr_t)b\<close>, undefined when the signed difference overflows.\<close>

definition ptr_diff :: "u64 \<Rightarrow> u64 \<Rightarrow> int option" where
  "ptr_diff a b =
     (let d = sint a - sint b in if - (2 ^ 63) \<le> d \<and> d < 2 ^ 63 then Some d else None)"

text \<open>A weak compare-and-swap by a caller that runs alone: it fails only spuriously.\<close>

definition cas_succeeds :: "bool list \<Rightarrow> bool" where
  "cas_succeeds cas = (case cas of [] \<Rightarrow> True | b # _ \<Rightarrow> b)"

text \<open>The loop of a push: the head it reserved, or \<open>None\<close> for a full buffer.\<close>

partial_function (option) push_loop :: "ak_arbuff \<Rightarrow> bool list \<Rightarrow> (u64 option \<times> bool list) option" where
  "push_loop q cas =
     Option.bind (slot_at q (arb_head q)) (\<lambda>sl.
     Option.bind (ptr_diff (slot_seq sl) (arb_head q)) (\<lambda>diff.
       if diff = 0 then
         (if cas_succeeds cas then Some (Some (arb_head q), tl cas) else push_loop q (tl cas))
       else if diff < 0 then Some (None, cas)
       else push_loop q cas))"

definition ak_arbuff_push ::
  "ak_arbuff option \<Rightarrow> nat \<Rightarrow> bool list \<Rightarrow> (int \<times> ak_arbuff option \<times> bool list) option" where
  "ak_arbuff_push arbuff item cas =
     (case arbuff of None \<Rightarrow> Some (-1, None, cas)
      | Some q \<Rightarrow> do {
          (reserved, cas') \<leftarrow> push_loop q cas;
          (case reserved of
             None \<Rightarrow> Some (-1, Some q, cas')
           | Some h \<Rightarrow> do {
               q1 \<leftarrow> set_slot (q\<lparr>arb_head := h + 1\<rparr>) h (\<lambda>sl. sl\<lparr>slot_value := item\<rparr>);
               q2 \<leftarrow> set_slot q1 h (\<lambda>sl. sl\<lparr>slot_seq := h + 1\<rparr>);
               Some (0, Some q2, cas')
             })
        })"

partial_function (option) pop_loop :: "ak_arbuff \<Rightarrow> bool list \<Rightarrow> (u64 option \<times> bool list) option" where
  "pop_loop q cas =
     Option.bind (slot_at q (arb_tail q)) (\<lambda>sl.
     Option.bind (ptr_diff (slot_seq sl) (arb_tail q + 1)) (\<lambda>diff.
       if diff = 0 then
         (if cas_succeeds cas then Some (Some (arb_tail q), tl cas) else pop_loop q (tl cas))
       else if diff < 0 then Some (None, cas)
       else pop_loop q cas))"

definition ak_arbuff_pop ::
  "ak_arbuff option \<Rightarrow> bool list \<Rightarrow> (nat \<times> ak_arbuff option \<times> bool list) option" where
  "ak_arbuff_pop arbuff cas =
     (case arbuff of None \<Rightarrow> Some (0, None, cas)
      | Some q \<Rightarrow> do {
          (reserved, cas') \<leftarrow> pop_loop q cas;
          (case reserved of
             None \<Rightarrow> Some (0, Some q, cas')
           | Some t \<Rightarrow> do {
               let q1 = q\<lparr>arb_tail := t + 1\<rparr>;
               sl \<leftarrow> slot_at q1 t;
               q2 \<leftarrow> set_slot q1 t (\<lambda>x. x\<lparr>slot_seq := t + arb_mask q + 1\<rparr>);
               Some (slot_value sl, Some q2, cas')
             })
        })"

definition ak_arbuff_peek :: "ak_arbuff option \<Rightarrow> nat option" where
  "ak_arbuff_peek arbuff =
     (case arbuff of None \<Rightarrow> Some 0
      | Some q \<Rightarrow> do {
          sl \<leftarrow> slot_at q (arb_tail q);
          diff \<leftarrow> ptr_diff (slot_seq sl) (arb_tail q + 1);
          Some (if diff = 0 then slot_value sl else 0)
        })"

definition ak_arbuff_count :: "ak_arbuff option \<Rightarrow> u64" where
  "ak_arbuff_count arbuff =
     (case arbuff of None \<Rightarrow> 0
      | Some q \<Rightarrow> if arb_head q \<ge> arb_tail q then arb_head q - arb_tail q else 0)"

definition ak_arbuff_capacity :: "ak_arbuff option \<Rightarrow> u64" where
  "ak_arbuff_capacity arbuff = (case arbuff of None \<Rightarrow> 0 | Some q \<Rightarrow> arb_capacity q)"

definition ak_arbuff_is_empty :: "ak_arbuff option \<Rightarrow> bool" where
  "ak_arbuff_is_empty arbuff = (case arbuff of None \<Rightarrow> True | Some q \<Rightarrow> arb_head q = arb_tail q)"

definition ak_arbuff_is_full :: "ak_arbuff option \<Rightarrow> bool" where
  "ak_arbuff_is_full arbuff =
     (case arbuff of None \<Rightarrow> False | Some q \<Rightarrow> arb_head q - arb_tail q \<ge> arb_capacity q)"

text \<open>The loop that clears the slots, from index \<open>i\<close> with \<open>n\<close> slots left.\<close>

fun clear_slots :: "u64 \<Rightarrow> nat \<Rightarrow> nat \<Rightarrow> ak_arbuff_slot list \<Rightarrow> ak_arbuff_slot list option" where
  "clear_slots h 0 i ss = Some ss"
| "clear_slots h (Suc n) i ss = do {
     ss' \<leftarrow> mem_write ss i \<lparr>slot_value = 0, slot_seq = h + word_of_nat i\<rparr>;
     clear_slots h n (i + 1) ss'
   }"

definition ak_arbuff_clear :: "ak_arbuff option \<Rightarrow> ak_arbuff option option" where
  "ak_arbuff_clear arbuff =
     (case arbuff of None \<Rightarrow> Some None
      | Some q \<Rightarrow> do {
          ss \<leftarrow> clear_slots (arb_head q) (unat (arb_capacity q)) 0 (slots q);
          Some (Some (q\<lparr>arb_tail := arb_head q, slots := ss\<rparr>))
        })"

declare push_loop.simps [code]
declare pop_loop.simps [code]

section \<open>Interleaved threads\<close>

text \<open>Where a thread is in the code of a push or a pop, before its next atomic access.\<close>

datatype arb_pc =
    Push_head nat
  | Push_seq nat u64
  | Push_cas nat u64
  | Push_value nat u64
  | Push_publish u64
  | Push_return int
  | Pop_tail
  | Pop_seq u64
  | Pop_cas u64
  | Pop_value u64
  | Pop_release u64 nat
  | Pop_return nat

text \<open>
  One access of a thread. The argument \<open>weak\<close> says that a compare-and-swap fails although
  the values are equal.
\<close>

fun arb_access :: "bool \<Rightarrow> ak_arbuff \<Rightarrow> arb_pc \<Rightarrow> (ak_arbuff \<times> arb_pc) option" where
  "arb_access weak q (Push_head item) = Some (q, Push_seq item (arb_head q))"
| "arb_access weak q (Push_seq item h) = do {
     sl \<leftarrow> slot_at q h;
     diff \<leftarrow> ptr_diff (slot_seq sl) h;
     Some (q, if diff = 0 then Push_cas item h
              else if diff < 0 then Push_return (-1) else Push_head item)
   }"
| "arb_access weak q (Push_cas item h) =
     (if arb_head q = h \<and> \<not> weak then Some (q\<lparr>arb_head := h + 1\<rparr>, Push_value item h)
      else Some (q, Push_head item))"
| "arb_access weak q (Push_value item h) =
     map_option (\<lambda>q'. (q', Push_publish h)) (set_slot q h (\<lambda>sl. sl\<lparr>slot_value := item\<rparr>))"
| "arb_access weak q (Push_publish h) =
     map_option (\<lambda>q'. (q', Push_return 0)) (set_slot q h (\<lambda>sl. sl\<lparr>slot_seq := h + 1\<rparr>))"
| "arb_access weak q (Push_return r) = None"
| "arb_access weak q Pop_tail = Some (q, Pop_seq (arb_tail q))"
| "arb_access weak q (Pop_seq t) = do {
     sl \<leftarrow> slot_at q t;
     diff \<leftarrow> ptr_diff (slot_seq sl) (t + 1);
     Some (q, if diff = 0 then Pop_cas t else if diff < 0 then Pop_return 0 else Pop_tail)
   }"
| "arb_access weak q (Pop_cas t) =
     (if arb_tail q = t \<and> \<not> weak then Some (q\<lparr>arb_tail := t + 1\<rparr>, Pop_value t)
      else Some (q, Pop_tail))"
| "arb_access weak q (Pop_value t) = map_option (\<lambda>sl. (q, Pop_release t (slot_value sl))) (slot_at q t)"
| "arb_access weak q (Pop_release t item) =
     map_option (\<lambda>q'. (q', Pop_return item))
       (set_slot q t (\<lambda>sl. sl\<lparr>slot_seq := t + arb_mask q + 1\<rparr>))"
| "arb_access weak q (Pop_return item) = None"

text \<open>
  The buffer and the threads at work on it, with two histories: the items in the order in
  which their pushes reserved a position, and the items the pops delivered, by position.
\<close>

record arb_system =
  buf :: ak_arbuff
  threads :: "nat \<rightharpoonup> arb_pc"
  pushed :: "nat list"
  popped :: "nat \<rightharpoonup> nat"

definition record_access :: "arb_pc \<Rightarrow> arb_pc \<Rightarrow> arb_system \<Rightarrow> arb_system" where
  "record_access pc pc' y =
     (case (pc, pc') of
        (Push_cas item h, Push_value _ _) \<Rightarrow> y\<lparr>pushed := pushed y @ [item]\<rparr>
      | (Pop_release t item, _) \<Rightarrow> y\<lparr>popped := (popped y)(unat t \<mapsto> item)\<rparr>
      | _ \<Rightarrow> y)"

inductive arb_step :: "arb_system \<Rightarrow> arb_system \<Rightarrow> bool" where
  call_push: "threads y i = None \<Longrightarrow> arb_step y (y\<lparr>threads := (threads y)(i \<mapsto> Push_head item)\<rparr>)"
| call_pop: "threads y i = None \<Longrightarrow> arb_step y (y\<lparr>threads := (threads y)(i \<mapsto> Pop_tail)\<rparr>)"
| access: "threads y i = Some pc \<Longrightarrow> arb_access weak (buf y) pc = Some (q, pc') \<Longrightarrow>
    arb_step y (record_access pc pc' (y\<lparr>buf := q, threads := (threads y)(i \<mapsto> pc')\<rparr>))"
| return: "threads y i = Some pc \<Longrightarrow> (\<exists>r. pc = Push_return r) \<or> (\<exists>r. pc = Pop_return r) \<Longrightarrow>
    arb_step y (y\<lparr>threads := (threads y)(i := None)\<rparr>)"

section \<open>Rounding up to a power of two\<close>

text \<open>Each step of the smearing doubles the distance a bit is copied down.\<close>

definition smeared :: "nat \<Rightarrow> u64 \<Rightarrow> u64 \<Rightarrow> bool" where
  "smeared w m n \<longleftrightarrow> (\<forall>i. bit n i \<longleftrightarrow> (\<exists>j \<in> {i..<i + w}. bit m j))"

lemma smear_step:
  assumes "smeared w m n" and "v = 2 * w"
  shows "smeared v m (n OR drop_bit w n)"
  unfolding smeared_def
proof
  fix i
  have "{i..<i + v} = {i..<i + w} \<union> {w + i..<w + i + w}" using assms(2) by auto
  then show "bit (n OR drop_bit w n) i \<longleftrightarrow> (\<exists>j \<in> {i..<i + v}. bit m j)"
    using assms(1) by (simp add: smeared_def bit_simps bex_Un)
qed

definition smear :: "u64 \<Rightarrow> u64" where
  "smear n =
     (let n = n OR drop_bit 1 n; n = n OR drop_bit 2 n; n = n OR drop_bit 4 n;
          n = n OR drop_bit 8 n; n = n OR drop_bit 16 n in n OR drop_bit 32 n)"

lemma next_power_of_2_smear: "n \<noteq> 0 \<Longrightarrow> next_power_of_2 n = smear (n - 1) + 1"
  by (simp add: next_power_of_2_def smear_def Let_def)

lemma bit_smear: "bit (smear m) i \<longleftrightarrow> (\<exists>j \<ge> i. bit m j)"
proof -
  have "smeared 1 m m" by (simp add: smeared_def)
  then have "smeared 64 m (smear m)"
    unfolding smear_def Let_def
    by (intro smear_step [where w = 32] smear_step [where w = 16] smear_step [where w = 8]
        smear_step [where w = 4] smear_step [where w = 2] smear_step [where w = 1]) simp_all
  then have "bit (smear m) i \<longleftrightarrow> (\<exists>j \<in> {i..<i + 64}. bit m j)" by (simp add: smeared_def)
  also have "\<dots> \<longleftrightarrow> (\<exists>j \<ge> i. bit m j)"
    using bit_imp_le_length [of m] by fastforce
  finally show ?thesis .
qed

lemma highest_bit:
  fixes m :: u64
  assumes "m \<noteq> 0"
  obtains l where "2 ^ l \<le> unat m" "unat m < 2 ^ (l + 1)" "\<forall>i. (\<exists>j \<ge> i. bit m j) \<longleftrightarrow> i \<le> l" "l < 64"
proof -
  have "1 \<le> unat m" using assms by (simp add: Suc_le_eq unat_gt_0)
  then obtain l where l: "2 ^ l \<le> unat m" "unat m < 2 ^ (l + 1)"
    using ex_power_ivl1 [of 2 "unat m"] by auto
  have nat_bit: "bit m i \<longleftrightarrow> odd (unat m div 2 ^ i)" for i
    by (simp add: bit_unsigned_iff flip: bit_iff_odd)
  have "unat m div 2 ^ l = 1" using l by (intro div_nat_eqI) simp_all
  then have top: "bit m l" by (simp add: nat_bit)
  have "\<not> bit m j" if "l < j" for j
  proof -
    have "(2 :: nat) ^ (l + 1) \<le> 2 ^ j" using that by (intro power_increasing) simp_all
    then show ?thesis using l(2) by (simp add: nat_bit)
  qed
  then have "\<forall>i. (\<exists>j \<ge> i. bit m j) \<longleftrightarrow> i \<le> l" using top by (meson leI le_trans)
  moreover have "l < 64" using bit_imp_le_length [OF top] by simp
  ultimately show thesis using l that by blast
qed

lemma unat_of_small: "n < 2 ^ 64 \<Longrightarrow> unat (word_of_nat n :: u64) = n"
  by (simp add: unsigned_of_nat take_bit_nat_eq_self)

lemma unat_exp: "k < 64 \<Longrightarrow> unat (2 ^ k :: u64) = 2 ^ k"
proof -
  assume "k < 64"
  then have "(2 :: nat) ^ k < 2 ^ 64" by (intro power_strict_increasing) simp_all
  from unat_of_small [OF this] show ?thesis by simp
qed

lemma next_power_of_2_least:
  assumes "n \<noteq> 0" and "unat n \<le> 2 ^ 63"
  obtains k where "unat (next_power_of_2 n) = 2 ^ k" "unat n \<le> 2 ^ k" "2 ^ k < 2 * unat n" "k \<le> 63"
proof (cases "n = 1")
  case True
  then show thesis using that [of 0] by (simp add: next_power_of_2_def)
next
  case False
  have m: "unat (n - 1) = unat n - 1" "n - 1 \<noteq> 0" using assms(1) False by (simp_all add: unat_minus_one)
  obtain l where l: "2 ^ l \<le> unat (n - 1)" "unat (n - 1) < 2 ^ (l + 1)"
      "\<forall>i. (\<exists>j \<ge> i. bit (n - 1) j) \<longleftrightarrow> i \<le> l" "l < 64"
    by (rule highest_bit [OF m(2)])
  have "(2 :: nat) ^ l < 2 ^ 63" using l(1) m(1) assms by (simp add: unat_gt_0)
  then have l63: "l < 63" by (rule power_less_imp_less_exp [rotated]) simp
  have "smear (n - 1) = mask (l + 1)"
    by (rule bit_eqI) (simp add: bit_smear l(3) bit_mask_iff less_Suc_eq_le)
  then have "next_power_of_2 n = 2 ^ (l + 1)"
    using next_power_of_2_smear [OF assms(1)] by (simp add: mask_eq_exp_minus_1)
  then have "unat (next_power_of_2 n) = 2 ^ (l + 1)"
    using l63 unat_exp [of "l + 1"] by simp
  then show thesis using that [of "l + 1"] l m(1) l63 assms(1) by (simp add: unat_gt_0)
qed

text \<open>Above \<open>2 ^ 63\<close> the result wraps to 0.\<close>

lemma next_power_of_2_wraps:
  assumes "2 ^ 63 < unat n"
  shows "next_power_of_2 n = 0"
proof -
  have n: "n \<noteq> 0" using assms by auto
  then have m: "unat (n - 1) = unat n - 1" by (simp add: unat_minus_one)
  then have m0: "n - 1 \<noteq> 0" using assms by auto
  obtain l where l: "2 ^ l \<le> unat (n - 1)" "unat (n - 1) < 2 ^ (l + 1)"
      "\<forall>i. (\<exists>j \<ge> i. bit (n - 1) j) \<longleftrightarrow> i \<le> l" "l < 64"
    by (rule highest_bit [OF m0])
  have "(2 :: nat) ^ 63 < 2 ^ (l + 1)" using l(2) m assms by simp
  then have "63 < l + 1" by (rule power_less_imp_less_exp [rotated]) simp
  then have "l = 63" using l(4) by simp
  then have "smear (n - 1) = - 1"
    by (intro bit_eqI) (simp add: bit_smear l(3) bit_simps less_Suc_eq_le)
  then show ?thesis using next_power_of_2_smear [OF n] by simp
qed

section \<open>The buffer as a queue\<close>

text \<open>
  \<open>arb_rep n q xs\<close>: the buffer holds the items \<open>xs\<close>, oldest first, and its positions leave
  room for \<open>n\<close> more pushes below \<open>2 ^ 63\<close>. The slot of a position is its remainder; the
  sequence number is the position plus one for an item, the position for a free slot.
\<close>

definition slot_ok :: "ak_arbuff_slot \<Rightarrow> nat \<Rightarrow> nat list \<Rightarrow> nat \<Rightarrow> bool" where
  "slot_ok sl t xs i \<longleftrightarrow>
     (if i < length xs then slot_value sl = xs ! i \<and> unat (slot_seq sl) = t + i + 1
      else unat (slot_seq sl) = t + i)"

definition arb_shape :: "nat \<Rightarrow> ak_arbuff \<Rightarrow> bool" where
  "arb_shape k q \<longleftrightarrow> k \<le> 59 \<and> arb_capacity q = 2 ^ k \<and> arb_mask q = mask k \<and> length (slots q) = 2 ^ k"

definition arb_repk :: "nat \<Rightarrow> nat \<Rightarrow> ak_arbuff \<Rightarrow> nat list \<Rightarrow> bool" where
  "arb_repk k n q xs \<longleftrightarrow> arb_shape k q \<and> length xs \<le> 2 ^ k
     \<and> unat (arb_head q) = unat (arb_tail q) + length xs
     \<and> unat (arb_head q) + 2 ^ k + n < 2 ^ 63
     \<and> (\<forall>i < 2 ^ k. slot_ok (slots q ! ((unat (arb_tail q) + i) mod 2 ^ k)) (unat (arb_tail q)) xs i)"

lemma arb_shape_upd [simp]:
  "arb_shape k (q\<lparr>arb_head := h\<rparr>) = arb_shape k q" "arb_shape k (q\<lparr>arb_tail := h\<rparr>) = arb_shape k q"
  "length ss = length (slots q) \<Longrightarrow> arb_shape k (q\<lparr>slots := ss\<rparr>) = arb_shape k q"
  by (simp_all add: arb_shape_def)

lemma slot_at_eq:
  assumes "arb_shape k q"
  shows "slot_at q p = Some (slots q ! (unat p mod 2 ^ k))"
    and "set_slot q p f = Some (q\<lparr>slots := (slots q)[unat p mod 2 ^ k := f (slots q ! (unat p mod 2 ^ k))]\<rparr>)"
proof -
  have i: "unat (p AND arb_mask q) = unat p mod 2 ^ k" "unat p mod 2 ^ k < length (slots q)"
    using assms unat_and_mask [of p k] by (simp_all add: arb_shape_def)
  then show "slot_at q p = Some (slots q ! (unat p mod 2 ^ k))"
    by (simp add: slot_at_def mem_simps)
  with i show "set_slot q p f = Some (q\<lparr>slots := (slots q)[unat p mod 2 ^ k := f (slots q ! (unat p mod 2 ^ k))]\<rparr>)"
    by (simp add: set_slot_def mem_simps)
qed

lemma uint_small: "unat a < 2 ^ 63 \<Longrightarrow> uint a < 2 ^ 63" for a :: u64
proof -
  assume "unat a < 2 ^ 63"
  then have "int (unat a) < int (2 ^ 63)" by (simp only: of_nat_less_iff)
  then show ?thesis by simp
qed

lemma sint_small: "unat a < 2 ^ 63 \<Longrightarrow> sint a = uint a" for a :: u64
proof -
  assume a: "unat a < 2 ^ 63"
  have "- (2 ^ 63) \<le> uint a" using unsigned_greater_eq [of a, where ?'a = int]
    by (rule order_trans [rotated]) simp
  then have "signed_take_bit 63 (uint a) = uint a"
    using uint_small [OF a] by (intro signed_take_bit_int_eq_self) simp_all
  then show ?thesis by (simp add: sint_uint)
qed

lemma ptr_diff_small:
  assumes "unat a < 2 ^ 63" and "unat b < 2 ^ 63"
  shows "ptr_diff a b = Some (int (unat a) - int (unat b))"
proof -
  have "0 \<le> uint a" "uint a < 2 ^ 63" "0 \<le> uint b" "uint b < 2 ^ 63"
    using uint_small [OF assms(1)] uint_small [OF assms(2)] by simp_all
  then have "- (2 ^ 63) \<le> uint a - uint b" "uint a - uint b < 2 ^ 63" by linarith+
  then show ?thesis
    using sint_small [OF assms(1)] sint_small [OF assms(2)] by (simp add: ptr_diff_def Let_def)
qed

lemma mod_shift_inj:
  fixes t i j n :: nat
  assumes "(t + i) mod n = (t + j) mod n" and "i < n" and "j < n"
  shows "i = j"
  using assms
proof (induction i j rule: linorder_wlog)
  case (le i j)
  then have "n dvd (t + j) - (t + i)" by (metis mod_eq_dvd_iff_nat add_le_cancel_left)
  then have "n dvd j - i" by simp
  then show ?case using le by (metis dvd_imp_le less_imp_diff_less not_less zero_less_diff le_antisym linorder_not_le)
qed simp

text \<open>The loops, by the difference the slot shows.\<close>

lemma push_loop_room:
  assumes "slot_at q (arb_head q) = Some sl" and "ptr_diff (slot_seq sl) (arb_head q) = Some 0"
  shows "push_loop q cas = Some (Some (arb_head q), tl (dropWhile Not cas))"
proof (induction cas)
  case Nil
  show ?case using assms by (simp add: push_loop.simps [of q "[]"] cas_succeeds_def)
next
  case (Cons b cas)
  then show ?case using assms by (simp add: push_loop.simps [of q "b # cas"] cas_succeeds_def)
qed

lemma push_loop_full:
  assumes "slot_at q (arb_head q) = Some sl" and "ptr_diff (slot_seq sl) (arb_head q) = Some d" and "d < 0"
  shows "push_loop q cas = Some (None, cas)"
  using assms by (simp add: push_loop.simps [of q cas])

lemma pop_loop_item:
  assumes "slot_at q (arb_tail q) = Some sl" and "ptr_diff (slot_seq sl) (arb_tail q + 1) = Some 0"
  shows "pop_loop q cas = Some (Some (arb_tail q), tl (dropWhile Not cas))"
proof (induction cas)
  case Nil
  show ?case using assms by (simp add: pop_loop.simps [of q "[]"] cas_succeeds_def)
next
  case (Cons b cas)
  then show ?case using assms by (simp add: pop_loop.simps [of q "b # cas"] cas_succeeds_def)
qed

lemma pop_loop_empty:
  assumes "slot_at q (arb_tail q) = Some sl" and "ptr_diff (slot_seq sl) (arb_tail q + 1) = Some d" and "d < 0"
  shows "pop_loop q cas = Some (None, cas)"
  using assms by (simp add: pop_loop.simps [of q cas])

text \<open>
  A slot whose sequence number is ahead of the position makes the loop go round for ever:
  nothing but another thread changes what it reads.
\<close>

lemma push_loop_stuck:
  assumes "slot_at q (arb_head q) = Some sl" and "ptr_diff (slot_seq sl) (arb_head q) = Some d" and "0 < d"
  shows "push_loop q cas = None"
proof (rule ccontr)
  assume "push_loop q cas \<noteq> None"
  then obtain y where "push_loop q cas = Some y" by blast
  then have "\<not> (slot_at q (arb_head q) = Some sl \<and> ptr_diff (slot_seq sl) (arb_head q) = Some d \<and> 0 < d)"
    by (rule push_loop.raw_induct [rotated, where P = "\<lambda>q cas y. \<not> (slot_at q (arb_head q) = Some sl
          \<and> ptr_diff (slot_seq sl) (arb_head q) = Some d \<and> 0 < d)"])
      (auto simp: bind_eq_Some_conv split: if_splits)
  with assms show False by blast
qed

lemma arb_repkD:
  assumes "arb_repk k n q xs"
  shows "arb_shape k q" and "length xs \<le> 2 ^ k" and "unat (arb_head q) = unat (arb_tail q) + length xs"
    and "unat (arb_head q) + 2 ^ k + n < 2 ^ 63"
    and "i < 2 ^ k \<Longrightarrow> slot_ok (slots q ! ((unat (arb_tail q) + i) mod 2 ^ k)) (unat (arb_tail q)) xs i"
  using assms by (simp_all add: arb_repk_def)

lemma unat_Suc_small: "unat w < 2 ^ 63 \<Longrightarrow> unat (w + 1) = unat w + 1" for w :: u64
  by (simp add: unat_word_ariths)

lemma push_room:
  assumes rep: "arb_repk k (Suc n) q xs" and room: "length xs < 2 ^ k"
  obtains q' where "ak_arbuff_push (Some q) x cas = Some (0, Some q', tl (dropWhile Not cas))"
    "arb_repk k n q' (xs @ [x])"
proof -
  note r = arb_repkD [OF rep]
  let ?h = "unat (arb_head q)" and ?t = "unat (arb_tail q)" and ?c = "(2 :: nat) ^ k"
  let ?sl = "slots q ! (?h mod ?c)"
  have len: "length (slots q) = ?c" using r(1) by (simp add: arb_shape_def)
  have free: "unat (slot_seq ?sl) = ?h" using r(5) [OF room] r(3) by (simp add: slot_ok_def)
  have d: "ptr_diff (slot_seq ?sl) (arb_head q) = Some 0"
    using ptr_diff_small [of "slot_seq ?sl" "arb_head q"] free r(4) by simp
  have h1: "unat (arb_head q + 1) = ?h + 1" using r(4) by (intro unat_Suc_small) simp
  define q' where "q' = q\<lparr>arb_head := arb_head q + 1,
      slots := (slots q)[?h mod ?c := ?sl\<lparr>slot_value := x, slot_seq := arb_head q + 1\<rparr>]\<rparr>"
  have "ak_arbuff_push (Some q) x cas = Some (0, Some q', tl (dropWhile Not cas))"
    using push_loop_room [OF slot_at_eq(1) [OF r(1)] d] r(1) len
    by (simp add: ak_arbuff_push_def slot_at_eq [of k] q'_def)
  moreover have "arb_repk k n q' (xs @ [x])"
    unfolding arb_repk_def
  proof (intro conjI allI impI)
    show "arb_shape k q'" using r(1) by (simp add: q'_def arb_shape_def)
    show "unat (arb_head q') + 2 ^ k + n < 2 ^ 63" "unat (arb_head q') = unat (arb_tail q') + length (xs @ [x])"
      using r(3,4) h1 by (simp_all add: q'_def)
    fix i assume i: "i < ?c"
    show "slot_ok (slots q' ! ((unat (arb_tail q') + i) mod ?c)) (unat (arb_tail q')) (xs @ [x]) i"
    proof (cases "i = length xs")
      case True
      then show ?thesis using r(3) len h1 by (simp add: q'_def slot_ok_def)
    next
      case False
      then have "(?t + i) mod ?c \<noteq> ?h mod ?c"
        using mod_shift_inj [of ?t i ?c "length xs"] i room r(3) by auto
      then have "slots q' ! ((?t + i) mod ?c) = slots q ! ((?t + i) mod ?c)" by (simp add: q'_def)
      then show ?thesis
        using r(5) [OF i] False by (simp add: q'_def slot_ok_def nth_append split: if_splits)
    qed
  qed (use room in simp)
  ultimately show thesis by (rule that)
qed

lemma push_full:
  assumes rep: "arb_repk k n q xs" and full: "length xs = 2 ^ k" and k: "1 \<le> k"
  shows "ak_arbuff_push (Some q) x cas = Some (-1, Some q, cas)"
proof -
  note r = arb_repkD [OF rep]
  let ?h = "unat (arb_head q)" and ?t = "unat (arb_tail q)" and ?c = "(2 :: nat) ^ k"
  have c: "2 \<le> ?c" using k by (metis one_le_numeral power_increasing power_one_right)
  let ?sl = "slots q ! (?h mod ?c)"
  have "?h mod ?c = (?t + 0) mod ?c" using r(3) full by simp
  then have "unat (slot_seq ?sl) = ?t + 1"
    using r(5) [of 0] full c by (simp add: slot_ok_def)
  moreover have lt: "?t + 1 < ?h" using r(3) full c by linarith
  ultimately have "ptr_diff (slot_seq ?sl) (arb_head q) = Some (int (?t + 1) - int ?h)"
    using ptr_diff_small [of "slot_seq ?sl" "arb_head q"] r(4) by simp
  moreover have "int (?t + 1) - int ?h < 0" using lt by linarith
  ultimately have "push_loop q cas = Some (None, cas)"
    by (rule push_loop_full [OF slot_at_eq(1) [OF r(1)]])
  then show ?thesis by (simp add: ak_arbuff_push_def)
qed

lemma pop_item:
  assumes rep: "arb_repk k n q (x # xs)"
  obtains q' where "ak_arbuff_pop (Some q) cas = Some (x, Some q', tl (dropWhile Not cas))"
    "arb_repk k n q' xs"
proof -
  note r = arb_repkD [OF rep]
  let ?t = "unat (arb_tail q)" and ?c = "(2 :: nat) ^ k"
  let ?sl = "slots q ! (?t mod ?c)"
  have len: "length (slots q) = ?c" and mask: "arb_mask q = mask k" and k: "k \<le> 59"
    using r(1) by (simp_all add: arb_shape_def)
  have head: "slot_value ?sl = x" "unat (slot_seq ?sl) = ?t + 1"
    using r(5) [of 0] by (simp_all add: slot_ok_def)
  have t1: "unat (arb_tail q + 1) = ?t + 1" using r(3,4) by (intro unat_Suc_small) simp
  have d: "ptr_diff (slot_seq ?sl) (arb_tail q + 1) = Some 0"
    using ptr_diff_small [of "slot_seq ?sl" "arb_tail q + 1"] head(2) t1 r(3,4) by simp
  have seq: "unat (arb_tail q + arb_mask q + 1) = ?t + ?c"
  proof -
    have "arb_tail q + arb_mask q + 1 = arb_tail q + 2 ^ k" by (simp add: mask mask_eq_exp_minus_1)
    moreover have "unat (2 ^ k :: u64) = ?c" using k by (intro unat_exp) simp
    moreover have "?t + unat (2 ^ k :: u64) < 2 ^ LENGTH(64)" using r(3,4) calculation(2) by simp
    then have "unat (arb_tail q + 2 ^ k) = ?t + unat (2 ^ k :: u64)" by (simp only: unat_add_lem)
    ultimately show ?thesis by (simp only:)
  qed
  define q' where "q' = q\<lparr>arb_tail := arb_tail q + 1,
      slots := (slots q)[?t mod ?c := ?sl\<lparr>slot_seq := arb_tail q + arb_mask q + 1\<rparr>]\<rparr>"
  have "ak_arbuff_pop (Some q) cas = Some (x, Some q', tl (dropWhile Not cas))"
    using pop_loop_item [OF slot_at_eq(1) [OF r(1)] d] r(1) head(1)
    by (simp add: ak_arbuff_pop_def slot_at_eq [of k] q'_def)
  moreover have "arb_repk k n q' xs"
    unfolding arb_repk_def
  proof (intro conjI allI impI)
    show "arb_shape k q'" using r(1) by (simp add: q'_def arb_shape_def)
    show "unat (arb_head q') + 2 ^ k + n < 2 ^ 63" "unat (arb_head q') = unat (arb_tail q') + length xs"
      "length xs \<le> 2 ^ k"
      using r(2,3,4) t1 by (simp_all add: q'_def)
    fix i assume i: "i < ?c"
    show "slot_ok (slots q' ! ((unat (arb_tail q') + i) mod ?c)) (unat (arb_tail q')) xs i"
    proof (cases "i + 1 = ?c")
      case True
      then have "(unat (arb_tail q') + i) mod ?c = ?t mod ?c" using t1 by (simp add: q'_def) (metis add.assoc mod_add_self2 add_Suc_right Suc_eq_plus1)
      then show ?thesis
        using len seq t1 True r(2) by (simp add: q'_def slot_ok_def)
    next
      case False
      then have i1: "i + 1 < ?c" using i by simp
      then have ne: "(?t + (i + 1)) mod ?c \<noteq> (?t + 0) mod ?c"
        using mod_shift_inj [of ?t "i + 1" ?c 0] by auto
      have eq: "(unat (arb_tail q') + i) mod ?c = (?t + (i + 1)) mod ?c" using t1 by (simp add: q'_def)
      have "slots q' ! ((?t + (i + 1)) mod ?c) = slots q ! ((?t + (i + 1)) mod ?c)"
        using ne by (simp add: q'_def)
      then show ?thesis
        using r(5) [OF i1] t1 unfolding eq by (simp add: q'_def slot_ok_def)
    qed
  qed
  ultimately show thesis by (rule that)
qed

lemma pop_nothing:
  assumes rep: "arb_repk k n q []"
  shows "ak_arbuff_pop (Some q) cas = Some (0, Some q, cas)"
proof -
  note r = arb_repkD [OF rep]
  let ?t = "unat (arb_tail q)"
  let ?sl = "slots q ! (?t mod 2 ^ k)"
  have "unat (slot_seq ?sl) = ?t" using r(5) [of 0] by (simp add: slot_ok_def)
  moreover have "unat (arb_tail q + 1) = ?t + 1" using r(3,4) by (intro unat_Suc_small) simp
  moreover have "1 \<le> (2 :: nat) ^ k" by simp
  then have "?t + 1 < 2 ^ 63" using r(3,4) by linarith
  ultimately have "ptr_diff (slot_seq ?sl) (arb_tail q + 1) = Some (-1)"
    using ptr_diff_small [of "slot_seq ?sl" "arb_tail q + 1"] by simp
  then show ?thesis
    using pop_loop_empty [OF slot_at_eq(1) [OF r(1)]] by (simp add: ak_arbuff_pop_def)
qed

section \<open>Creating and clearing\<close>

lemma init_slots_clear: "init_slots n i ss = clear_slots 0 n i ss"
  by (induction n arbitrary: i ss) (simp_all cong: Option.bind_cong)

lemma clear_slots_eq:
  "i + n \<le> length ss \<Longrightarrow> clear_slots h n i ss = Some (take i ss
     @ map (\<lambda>j. \<lparr>slot_value = 0, slot_seq = h + word_of_nat j\<rparr>) [i..<i + n] @ drop (i + n) ss)"
proof (induction n arbitrary: i ss)
  case (Suc n)
  let ?f = "\<lambda>j. \<lparr>slot_value = 0, slot_seq = h + word_of_nat j\<rparr>"
  have "clear_slots h (Suc n) i ss = clear_slots h n (i + 1) (ss[i := ?f i])"
    using Suc.prems by (simp add: mem_simps)
  also have "\<dots> = Some (take (i + 1) (ss[i := ?f i]) @ map ?f [i + 1..<i + 1 + n]
      @ drop (i + 1 + n) (ss[i := ?f i]))"
    using Suc.prems by (intro Suc.IH) simp
  also have "take (i + 1) (ss[i := ?f i]) = take i ss @ [?f i]"
    using Suc.prems by (simp add: take_Suc_conv_app_nth)
  also have "drop (i + 1 + n) (ss[i := ?f i]) = drop (i + Suc n) ss" by simp
  finally have "clear_slots h (Suc n) i ss = Some ((take i ss @ [?f i]) @ map ?f [i + 1..<i + 1 + n] @ drop (i + Suc n) ss)" .
  moreover have "[i..<i + Suc n] = i # [i + 1..<i + 1 + n]" by (simp add: upt_conv_Cons del: upt_Suc)
  ultimately show ?case by (simp del: clear_slots.simps upt_Suc)
qed simp

lemma clear_slots_outside: "length ss < i + n \<Longrightarrow> i \<le> length ss \<Longrightarrow> clear_slots h n i ss = None"
proof (induction n arbitrary: i ss)
  case (Suc n)
  then show ?case by (cases "i < length ss") (simp_all add: mem_write_def)
qed simp

lemma fresh_rep:
  assumes "arb_shape k q" and "arb_head q = arb_tail q" and "unat (arb_head q) + 2 ^ k + n < 2 ^ 63"
    and "2 ^ k dvd unat (arb_head q)"
    and "slots q = map (\<lambda>j. \<lparr>slot_value = 0, slot_seq = arb_head q + word_of_nat j\<rparr>) [0..<2 ^ k]"
  shows "arb_repk k n q []"
  unfolding arb_repk_def
proof (intro conjI allI impI)
  fix i :: nat assume i: "i < 2 ^ k"
  then have small: "i < 2 ^ 64" "unat (arb_head q) + i < 2 ^ 64" using assms(3) by simp_all
  then have "unat (arb_head q + word_of_nat i) = unat (arb_head q) + i"
    using unat_of_small [of i] by (simp add: unat_add_lem [THEN iffD1])
  moreover have "(unat (arb_tail q) + i) mod 2 ^ k = i" using assms(2,4) i by (metis dvd_eq_mod_eq_0 mod_add_left_eq add_0 mod_less)
  ultimately show "slot_ok (slots q ! ((unat (arb_tail q) + i) mod 2 ^ k)) (unat (arb_tail q)) [] i"
    using i assms(2,5) by (simp add: slot_ok_def)
qed (use assms in simp_all)

lemma new_rep:
  assumes c: "c \<noteq> 0" "unat c \<le> 2 ^ 59" and n: "n \<le> 2 ^ 62"
  obtains k q where "ak_arbuff_new c (Some g1 # Some g2 # s) = Some (Some q, s)" "arb_repk k n q []"
    "unat c \<le> 2 ^ k" "2 ^ k < 2 * unat c"
proof -
  have "unat c \<le> 2 ^ 63" using c(2) by (rule order_trans) simp
  then obtain k where k: "unat (next_power_of_2 c) = 2 ^ k" "unat c \<le> 2 ^ k" "2 ^ k < 2 * unat c"
    using next_power_of_2_least [OF c(1)] by metis
  have "(2 :: nat) ^ k < 2 ^ 60" using k(3) c(2) by simp
  then have "k < 60" by (rule power_less_imp_less_exp [rotated]) simp
  then have k59: "k \<le> 59" by simp
  then have k2: "(2 :: nat) ^ k \<le> 2 ^ 59" by (intro power_increasing) simp_all
  let ?c = "next_power_of_2 c"
  have "unat ?c = unat (2 ^ k :: u64)" using k(1) unat_exp [of k] k59 by simp
  then have cap: "?c = 2 ^ k" by (simp only: word_unat_eq_iff)
  have "unat (sizeof_slot * ?c) = 16 * 2 ^ k"
    using k(1) k2 by (simp add: unat_word_ariths)
  then have count: "unat (sizeof_slot * ?c) div unat sizeof_slot = 2 ^ k" by simp
  let ?ss = "map (\<lambda>j. \<lparr>slot_value = 0, slot_seq = 0 + word_of_nat j\<rparr>) [0..<2 ^ k]"
  let ?q = "\<lparr>slots = ?ss, arb_capacity = ?c, arb_mask = ?c - 1, arb_head = 0, arb_tail = 0\<rparr>"
  have "init_slots (2 ^ k) 0 (map g2 [0..<2 ^ k]) = Some ?ss"
    unfolding init_slots_clear by (subst clear_slots_eq) simp_all
  then have "ak_arbuff_new c (Some g1 # Some g2 # s) = Some (Some ?q, s)"
    using c(1) k(1) count by (simp add: ak_arbuff_new_def Let_def)
  moreover have "arb_repk k n ?q []"
    using k59 k2 n cap by (intro fresh_rep) (simp_all add: arb_shape_def mask_eq_exp_minus_1)
  ultimately show thesis using that k by blast
qed

text \<open>Above \<open>2 ^ 59\<close> the size in bytes wraps, and the slots are written out of bounds.\<close>

lemma new_overflows:
  assumes "2 ^ 59 < unat c" and "unat c \<le> 2 ^ 63"
  shows "ak_arbuff_new c (Some g1 # Some g2 # s) = None"
proof -
  have c: "c \<noteq> 0" using assms(1) by auto
  obtain k where k: "unat (next_power_of_2 c) = 2 ^ k" "unat c \<le> 2 ^ k" "k \<le> 63"
    using next_power_of_2_least [OF c assms(2)] by metis
  have "(2 :: nat) ^ 59 < 2 ^ k" using assms(1) k(2) by simp
  then have "59 < k" by (rule power_less_imp_less_exp [rotated]) simp
  then obtain j where j: "k = 60 + j" using le_Suc_ex [of 60 k] by auto
  have "16 * (2 :: nat) ^ k mod 2 ^ 64 = 0" unfolding j power_add by simp
  then have "unat (sizeof_slot * next_power_of_2 c) = 0" using k(1) by (simp add: unat_word_ariths)
  moreover have "init_slots (2 ^ k) 0 [] = None" unfolding init_slots_clear by (intro clear_slots_outside) simp_all
  ultimately show ?thesis using c k(1) by (simp add: ak_arbuff_new_def Let_def)
qed

lemma clear_rep:
  assumes rep: "arb_repk k n q xs"
  obtains q' where "ak_arbuff_clear (Some q) = Some (Some q')"
    "2 ^ k dvd unat (arb_head q) \<longrightarrow> arb_repk k n q' []"
    "\<not> 2 ^ k dvd unat (arb_head q) \<longrightarrow> (\<forall>x cas. ak_arbuff_push (Some q') x cas = None)"
proof -
  note r = arb_repkD [OF rep]
  let ?h = "arb_head q" and ?c = "(2 :: nat) ^ k"
  let ?ss = "map (\<lambda>j. \<lparr>slot_value = 0, slot_seq = ?h + word_of_nat j\<rparr>) [0..<2 ^ k]"
  have sh: "length (slots q) = ?c" "unat (arb_capacity q) = ?c"
    using r(1) unat_exp [of k] by (simp_all add: arb_shape_def)
  define q' where "q' = q\<lparr>arb_tail := ?h, slots := ?ss\<rparr>"
  have "clear_slots ?h ?c 0 (slots q) = Some ?ss" using sh(1) by (subst clear_slots_eq) simp_all
  then have "ak_arbuff_clear (Some q) = Some (Some q')"
    using sh(2) by (simp add: ak_arbuff_clear_def q'_def)
  moreover have shape: "arb_shape k q'" using r(1) sh(1) by (simp add: q'_def arb_shape_def)
  then have "arb_repk k n q' []" if "2 ^ k dvd unat ?h"
    using that r(4) by (intro fresh_rep) (simp_all add: q'_def)
  moreover have "ak_arbuff_push (Some q') x cas = None" if nd: "\<not> 2 ^ k dvd unat ?h" for x cas
  proof -
    let ?i = "unat ?h mod ?c"
    have i: "0 < ?i" "?i < ?c" using nd by (simp_all add: dvd_eq_mod_eq_0)
    have "unat ?h + ?i < 2 ^ 63" using i(2) r(4) by linarith
    then have small: "?i < 2 ^ 64" "unat ?h + ?i < 2 ^ 63" by simp_all
    then have "unat (?h + word_of_nat ?i) = unat ?h + ?i"
      using unat_of_small [of ?i] by (simp add: unat_add_lem [THEN iffD1])
    then have "ptr_diff (?h + word_of_nat ?i) ?h = Some (int ?i)"
      using ptr_diff_small [of "?h + word_of_nat ?i" ?h] small(2) by simp
    moreover have "slot_at q' ?h = Some \<lparr>slot_value = 0, slot_seq = ?h + word_of_nat ?i\<rparr>"
      using slot_at_eq(1) [OF shape, of ?h] i(2) by (simp add: q'_def)
    ultimately have "push_loop q' cas = None"
      using push_loop_stuck [of q' _ "int ?i" cas] i(1) by (simp add: q'_def)
    then show ?thesis by (simp add: ak_arbuff_push_def)
  qed
  ultimately show thesis using that by blast
qed

section \<open>The interface of a bounded queue\<close>

text \<open>The operations of a queue, and what a queue of capacity \<open>c\<close> answers to them.\<close>

datatype 'a queue_op = Enqueue 'a | Dequeue

fun spec_queue :: "nat \<Rightarrow> 'a \<Rightarrow> 'a queue_op list \<Rightarrow> 'a list \<Rightarrow> (int + 'a) list \<times> 'a list" where
  "spec_queue c none [] xs = ([], xs)"
| "spec_queue c none (Enqueue x # ops) xs =
     (if length xs < c then (case spec_queue c none ops (xs @ [x]) of (rs, ys) \<Rightarrow> (Inl 0 # rs, ys))
      else (case spec_queue c none ops xs of (rs, ys) \<Rightarrow> (Inl (-1) # rs, ys)))"
| "spec_queue c none (Dequeue # ops) xs =
     (case xs of [] \<Rightarrow> (case spec_queue c none ops [] of (rs, ys) \<Rightarrow> (Inr none # rs, ys))
      | x # xs' \<Rightarrow> (case spec_queue c none ops xs' of (rs, ys) \<Rightarrow> (Inr x # rs, ys)))"

fun run_queue ::
  "('q \<Rightarrow> 'a \<Rightarrow> 'o \<Rightarrow> (int \<times> 'q \<times> 'o) option) \<Rightarrow> ('q \<Rightarrow> 'o \<Rightarrow> ('a \<times> 'q \<times> 'o) option) \<Rightarrow>
   'a queue_op list \<Rightarrow> 'q \<Rightarrow> 'o \<Rightarrow> ((int + 'a) list \<times> 'q \<times> 'o) option" where
  "run_queue push pop [] q cas = Some ([], q, cas)"
| "run_queue push pop (Enqueue x # ops) q cas = do {
     (r, q', cas') \<leftarrow> push q x cas;
     (rs, q'', cas'') \<leftarrow> run_queue push pop ops q' cas';
     Some (Inl r # rs, q'', cas'')
   }"
| "run_queue push pop (Dequeue # ops) q cas = do {
     (r, q', cas') \<leftarrow> pop q cas;
     (rs, q'', cas'') \<leftarrow> run_queue push pop ops q' cas';
     Some (Inr r # rs, q'', cas'')
   }"

definition enqueues :: "'a queue_op list \<Rightarrow> nat" where
  "enqueues ops = length (filter (\<lambda>opn. opn \<noteq> Dequeue) ops)"

locale bounded_queue =
  fixes rep :: "nat \<Rightarrow> nat \<Rightarrow> 'q \<Rightarrow> 'a list \<Rightarrow> bool" and none :: 'a
    and push :: "'q \<Rightarrow> 'a \<Rightarrow> 'o \<Rightarrow> (int \<times> 'q \<times> 'o) option"
    and pop :: "'q \<Rightarrow> 'o \<Rightarrow> ('a \<times> 'q \<times> 'o) option"
  assumes push_room_law: "rep c (Suc n) q xs \<Longrightarrow> length xs < c \<Longrightarrow>
      \<exists>q' o'. push q x cas = Some (0, q', o') \<and> rep c n q' (xs @ [x])"
    and push_full_law: "rep c n q xs \<Longrightarrow> \<not> length xs < c \<Longrightarrow> push q x cas = Some (-1, q, cas)"
    and pop_item_law: "rep c n q (x # xs) \<Longrightarrow> \<exists>q' o'. pop q cas = Some (x, q', o') \<and> rep c n q' xs"
    and pop_empty_law: "rep c n q [] \<Longrightarrow> pop q cas = Some (none, q, cas)"
    and budget_law: "rep c (Suc n) q xs \<Longrightarrow> rep c n q xs"
begin

lemma run_refines:
  "rep c (n + enqueues ops) q xs \<Longrightarrow>
   \<exists>q' o'. run_queue push pop ops q cas = Some (fst (spec_queue c none ops xs), q', o')
     \<and> rep c n q' (snd (spec_queue c none ops xs))"
proof (induction ops arbitrary: q xs cas)
  case Nil
  then show ?case by (simp add: enqueues_def)
next
  case (Cons opn ops)
  show ?case
  proof (cases opn)
    case (Enqueue x)
    then have rep: "rep c (Suc (n + enqueues ops)) q xs" using Cons.prems by (simp add: enqueues_def)
    show ?thesis
    proof (cases "length xs < c")
      case True
      then obtain q1 o1 where "push q x cas = Some (0, q1, o1)" "rep c (n + enqueues ops) q1 (xs @ [x])"
        using push_room_law [OF rep, of x cas] by blast
      then show ?thesis
        using Cons.IH [of q1 "xs @ [x]" o1] Enqueue True by (auto split: prod.splits)
    next
      case False
      then have "push q x cas = Some (-1, q, cas)" by (rule push_full_law [OF rep])
      then show ?thesis
        using Cons.IH [OF budget_law [OF rep], of cas] Enqueue False by (auto split: prod.splits)
    qed
  next
    case Dequeue
    then have rep: "rep c (n + enqueues ops) q xs" using Cons.prems by (simp add: enqueues_def)
    show ?thesis
    proof (cases xs)
      case Nil
      then show ?thesis
        using pop_empty_law [of c "n + enqueues ops" q cas] Cons.IH [OF rep, of cas] rep Dequeue
        by (auto split: prod.splits)
    next
      case (Cons x xs')
      then obtain q1 o1 where "pop q cas = Some (x, q1, o1)" "rep c (n + enqueues ops) q1 xs'"
        using pop_item_law [of c "n + enqueues ops" q x xs' cas] rep by blast
      then show ?thesis
        using Cons.IH [of q1 xs' o1] Cons Dequeue by (auto split: prod.splits)
    qed
  qed
qed

end

definition arb_rep :: "nat \<Rightarrow> nat \<Rightarrow> ak_arbuff \<Rightarrow> nat list \<Rightarrow> bool" where
  "arb_rep c n q xs \<longleftrightarrow> (\<exists>k \<ge> 1. c = 2 ^ k \<and> arb_repk k n q xs)"

definition arb_push :: "ak_arbuff \<Rightarrow> nat \<Rightarrow> bool list \<Rightarrow> (int \<times> ak_arbuff \<times> bool list) option" where
  "arb_push q x cas = Option.bind (ak_arbuff_push (Some q) x cas)
     (\<lambda>(r, q', cas'). map_option (\<lambda>z. (r, z, cas')) q')"

definition arb_pop :: "ak_arbuff \<Rightarrow> bool list \<Rightarrow> (nat \<times> ak_arbuff \<times> bool list) option" where
  "arb_pop q cas = Option.bind (ak_arbuff_pop (Some q) cas)
     (\<lambda>(r, q', cas'). map_option (\<lambda>z. (r, z, cas')) q')"

interpretation ring: bounded_queue arb_rep 0 arb_push arb_pop
proof
  fix c n q x cas and xs :: "nat list"
  show "\<exists>q' o'. arb_push q x cas = Some (0, q', o') \<and> arb_rep c n q' (xs @ [x])"
    if "arb_rep c (Suc n) q xs" "length xs < c"
    using that by (auto simp: arb_rep_def arb_push_def elim!: push_room [where x = x and cas = cas])
  show "arb_push q x cas = Some (-1, q, cas)" if rep: "arb_rep c n q xs" and full: "\<not> length xs < c"
  proof -
    obtain k where k: "1 \<le> k" "c = 2 ^ k" "arb_repk k n q xs" using rep by (auto simp: arb_rep_def)
    then have "length xs = 2 ^ k" using full arb_repkD(2) [OF k(3)] by simp
    then show ?thesis using push_full [OF k(3) _ k(1)] by (simp add: arb_push_def)
  qed
  show "\<exists>q' o'. arb_pop q cas = Some (x, q', o') \<and> arb_rep c n q' xs" if "arb_rep c n q (x # xs)"
    using that by (auto simp: arb_rep_def arb_pop_def elim!: pop_item [where cas = cas])
  show "arb_pop q cas = Some (0, q, cas)" if "arb_rep c n q []"
    using that by (auto simp: arb_rep_def arb_pop_def pop_nothing)
  show "arb_rep c n q xs" if "arb_rep c (Suc n) q xs"
    using that by (auto simp: arb_rep_def arb_repk_def)
qed

section \<open>Properties of the buffer for one caller\<close>

lemma pop_loop_stuck:
  assumes "slot_at q (arb_tail q) = Some sl" and "ptr_diff (slot_seq sl) (arb_tail q + 1) = Some d" and "0 < d"
  shows "pop_loop q cas = None"
proof (rule ccontr)
  assume "pop_loop q cas \<noteq> None"
  then obtain y where "pop_loop q cas = Some y" by blast
  then have "\<not> (slot_at q (arb_tail q) = Some sl \<and> ptr_diff (slot_seq sl) (arb_tail q + 1) = Some d \<and> 0 < d)"
    by (rule pop_loop.raw_induct [rotated, where P = "\<lambda>q cas y. \<not> (slot_at q (arb_tail q) = Some sl
          \<and> ptr_diff (slot_seq sl) (arb_tail q + 1) = Some d \<and> 0 < d)"])
      (auto simp: bind_eq_Some_conv split: if_splits)
  with assms show False by blast
qed

lemma push_capacity_one:
  assumes rep: "arb_repk 0 (Suc (Suc n)) q [x]"
  obtains q' where "ak_arbuff_push (Some q) y cas = Some (0, Some q', tl (dropWhile Not cas))"
    "\<And>cas'. ak_arbuff_pop (Some q') cas' = None"
proof -
  note r = arb_repkD [OF rep]
  let ?h = "unat (arb_head q)" and ?t = "unat (arb_tail q)"
  have len: "length (slots q) = 1" using r(1) by (simp add: arb_shape_def)
  have seq: "unat (slot_seq (slots q ! 0)) = ?h" and h: "?h = ?t + 1" "?h + 3 < 2 ^ 63"
    using r(3,4) r(5) [of 0] by (simp_all add: slot_ok_def)
  have d: "ptr_diff (slot_seq (slots q ! 0)) (arb_head q) = Some 0"
    using ptr_diff_small [of "slot_seq (slots q ! 0)" "arb_head q"] seq h by simp
  have h1: "unat (arb_head q + 1) = ?t + 2" "unat (arb_tail q + 1) = ?t + 1"
    using unat_Suc_small [of "arb_head q"] unat_Suc_small [of "arb_tail q"] h by simp_all
  define q' where "q' = q\<lparr>arb_head := arb_head q + 1,
      slots := (slots q)[0 := (slots q ! 0)\<lparr>slot_value := y, slot_seq := arb_head q + 1\<rparr>]\<rparr>"
  have push: "ak_arbuff_push (Some q) y cas = Some (0, Some q', tl (dropWhile Not cas))"
    using push_loop_room [of q "slots q ! 0" cas] slot_at_eq [OF r(1)] d r(1) len
    by (simp add: ak_arbuff_push_def slot_at_eq [of 0] q'_def)
  have sh: "arb_shape 0 q'" using r(1) by (simp add: q'_def)
  have "ptr_diff (arb_head q + 1) (arb_tail q + 1) = Some 1"
    using ptr_diff_small [of "arb_head q + 1" "arb_tail q + 1"] h1 h by simp
  then have "pop_loop q' cas' = None" for cas'
    using pop_loop_stuck [of q' "slots q' ! 0" 1 cas'] slot_at_eq(1) [OF sh, of "arb_tail q'"] len
    by (simp add: q'_def)
  then have "ak_arbuff_pop (Some q') cas' = None" for cas' by (simp add: ak_arbuff_pop_def)
  with push show thesis by (rule that)
qed

text \<open>
  C16: For one caller the buffer is a bounded queue. From a buffer that holds \<open>xs\<close>, every
  sequence of pushes and pops returns what a queue of the same capacity returns, a refused
  push being -1 and a pop of an empty buffer NULL, and leaves a buffer that holds what the
  queue holds, whatever spurious failures the compare-and-swap instructions have. The
  capacity is at least 2, and the positions stay below \<open>2 ^ 63\<close>.\<close>

theorem arbuff_refines_queue:
  assumes "arb_rep c (n + enqueues ops) q xs"
  shows "\<exists>q' cas'. run_queue arb_push arb_pop ops q cas = Some (fst (spec_queue c 0 ops xs), q', cas')
    \<and> arb_rep c n q' (snd (spec_queue c 0 ops xs))"
  using assms by (rule ring.run_refines)

text \<open>
  Creating a buffer rounds the capacity up to the least power of two that is not below
  it, and gives an empty buffer, for 1 to \<open>2 ^ 59\<close> slots; the count, emptiness, fullness,
  capacity and peek of a buffer are those of the queue it holds. Above \<open>2 ^ 59\<close> slots the
  size of the array wraps and the slots are initialised outside it.\<close>

theorem arbuff_new_and_queries:
  assumes "c \<noteq> 0" and "arb_repk k n q xs"
  shows "(unat c \<le> 2 ^ 59 \<longrightarrow> (\<exists>j q'. ak_arbuff_new c (Some g1 # Some g2 # s) = Some (Some q', s)
        \<and> arb_repk j (2 ^ 62) q' [] \<and> unat c \<le> 2 ^ j \<and> 2 ^ j < 2 * unat c))
    \<and> (2 ^ 59 < unat c \<and> unat c \<le> 2 ^ 63 \<longrightarrow> ak_arbuff_new c (Some g1 # Some g2 # s) = None)
    \<and> (2 ^ 63 < unat c \<longrightarrow> next_power_of_2 c = 0)
    \<and> unat (ak_arbuff_count (Some q)) = length xs
    \<and> ak_arbuff_is_empty (Some q) = (xs = []) \<and> ak_arbuff_is_full (Some q) = (length xs = 2 ^ k)
    \<and> unat (ak_arbuff_capacity (Some q)) = 2 ^ k
    \<and> ak_arbuff_peek (Some q) = Some (case xs of [] \<Rightarrow> 0 | x # _ \<Rightarrow> x)"
proof (intro conjI impI)
  note r = arb_repkD [OF assms(2)]
  let ?t = "unat (arb_tail q)" and ?sl = "slots q ! (unat (arb_tail q) mod 2 ^ k)"
  have le: "arb_tail q \<le> arb_head q" using r(3) by (simp add: word_le_nat_alt)
  have sub: "unat (arb_head q - arb_tail q) = length xs" using unat_sub [OF le] r(3) by simp
  have cap: "unat (arb_capacity q) = 2 ^ k" using r(1) unat_exp [of k] by (simp add: arb_shape_def)
  show "\<exists>j q'. ak_arbuff_new c (Some g1 # Some g2 # s) = Some (Some q', s)
      \<and> arb_repk j (2 ^ 62) q' [] \<and> unat c \<le> 2 ^ j \<and> 2 ^ j < 2 * unat c" if small: "unat c \<le> 2 ^ 59"
    by (rule new_rep [OF assms(1) small order_refl, of g1 g2 s]) blast
  show "ak_arbuff_new c (Some g1 # Some g2 # s) = None" if "2 ^ 59 < unat c \<and> unat c \<le> 2 ^ 63"
    using that by (intro new_overflows) blast+
  show "next_power_of_2 c = 0" if "2 ^ 63 < unat c" using that by (rule next_power_of_2_wraps)
  show "unat (ak_arbuff_count (Some q)) = length xs" using le sub by (simp add: ak_arbuff_count_def)
  have "arb_head q = arb_tail q \<longleftrightarrow> unat (arb_head q) = unat (arb_tail q)" by (simp only: word_unat_eq_iff)
  then show "ak_arbuff_is_empty (Some q) = (xs = [])" using r(3) by (simp add: ak_arbuff_is_empty_def)
  show "ak_arbuff_is_full (Some q) = (length xs = 2 ^ k)"
    using sub cap r(2) by (auto simp: ak_arbuff_is_full_def word_le_nat_alt)
  show "unat (ak_arbuff_capacity (Some q)) = 2 ^ k" using cap by (simp add: ak_arbuff_capacity_def)
  have "1 \<le> (2 :: nat) ^ k" by simp
  then have t1: "?t + 1 < 2 ^ 63" using r(3,4) by linarith
  then have "unat (arb_tail q + 1) = ?t + 1" by (intro unat_Suc_small) simp
  moreover have seq: "unat (slot_seq ?sl) = (if xs = [] then ?t else ?t + 1)" "xs \<noteq> [] \<longrightarrow> slot_value ?sl = hd xs"
    using r(5) [of 0] by (auto simp: slot_ok_def hd_conv_nth)
  ultimately have "ptr_diff (slot_seq ?sl) (arb_tail q + 1) = Some (if xs = [] then -1 else 0)"
    using ptr_diff_small [of "slot_seq ?sl" "arb_tail q + 1"] t1 by (auto split: if_splits)
  then show "ak_arbuff_peek (Some q) = Some (case xs of [] \<Rightarrow> 0 | x # _ \<Rightarrow> x)"
    using slot_at_eq(1) [OF r(1)] seq(2) by (cases xs) (simp_all add: ak_arbuff_peek_def)
qed

text \<open>
  A buffer of one slot loses items and hangs: when it holds an item, a push is accepted
  instead of refused, and no pop returns after it, because the sequence number of a filled
  slot is the one that marks the slot free for the next position.\<close>

theorem arbuff_capacity_one_hangs:
  assumes "arb_repk 0 (Suc (Suc n)) q [x]"
  shows "\<exists>q'. ak_arbuff_push (Some q) y cas = Some (0, Some q', tl (dropWhile Not cas))
    \<and> (\<forall>cas'. ak_arbuff_pop (Some q') cas' = None)"
  using push_capacity_one [OF assms, of y cas] by metis

text \<open>
  Clearing gives an empty buffer when the head is a multiple of the capacity. Otherwise
  slot \<open>i\<close> gets the sequence number of position \<open>head + i\<close>, which belongs to another slot,
  and no push returns on the cleared buffer.\<close>

theorem arbuff_clear_spec:
  assumes "arb_repk k n q xs"
  shows "\<exists>q'. ak_arbuff_clear (Some q) = Some (Some q')
    \<and> (if 2 ^ k dvd unat (arb_head q) then arb_repk k n q' []
       else \<forall>x cas. ak_arbuff_push (Some q') x cas = None)"
  using clear_rep [OF assms] by metis

definition demo_arbuff :: "nat \<Rightarrow> ak_arbuff" where
  "demo_arbuff k = \<lparr>slots = map (\<lambda>j. \<lparr>slot_value = 0, slot_seq = 0 + word_of_nat j\<rparr>) [0..<2 ^ k],
     arb_capacity = 2 ^ k, arb_mask = mask k, arb_head = 0, arb_tail = 0\<rparr>"

lemma demo_arbuff_rep: "k \<le> 4 \<Longrightarrow> n \<le> 100 \<Longrightarrow> arb_repk k n (demo_arbuff k) []"
proof -
  assume k: "k \<le> 4" and n: "n \<le> 100"
  have "(2 :: nat) ^ k \<le> 2 ^ 4" using k by (intro power_increasing) simp_all
  then show ?thesis using k n by (intro fresh_rep) (simp_all add: demo_arbuff_def arb_shape_def)
qed

theorem arbuff_refines_queue_witness:
  "\<exists>q' cas'. run_queue arb_push arb_pop [Enqueue 7, Enqueue 8, Enqueue 9, Dequeue] (demo_arbuff 1) [False, True]
    = Some ([Inl 0, Inl 0, Inl (-1), Inr 7], q', cas')"
proof -
  have "arb_rep 2 (0 + enqueues [Enqueue (7 :: nat), Enqueue 8, Enqueue 9, Dequeue]) (demo_arbuff 1) []"
    using demo_arbuff_rep [of 1 3] by (auto simp: arb_rep_def enqueues_def numeral_3_eq_3 intro!: exI [of _ 1])
  from arbuff_refines_queue [OF this, of "[False, True]"] show ?thesis by auto
qed

theorem arbuff_new_and_queries_witness:
  "(\<exists>j q'. ak_arbuff_new 3 [Some (\<lambda>_. \<lparr>slot_value = 0, slot_seq = 0\<rparr>), Some (\<lambda>_. \<lparr>slot_value = 0, slot_seq = 0\<rparr>)] = Some (Some q', []) \<and> arb_repk j (2 ^ 62) q' []
      \<and> 3 \<le> (2 :: nat) ^ j \<and> (2 :: nat) ^ j < 6)
   \<and> unat (ak_arbuff_count (Some (demo_arbuff 1))) = 0"
  using arbuff_new_and_queries [OF _ demo_arbuff_rep [of 1 0], of 3 "(\<lambda>_. \<lparr>slot_value = 0, slot_seq = 0\<rparr>)" "(\<lambda>_. \<lparr>slot_value = 0, slot_seq = 0\<rparr>)" "[]"] by auto

theorem arbuff_capacity_one_hangs_witness:
  "\<exists>q q'. ak_arbuff_push (Some q) 8 [] = Some (0, Some q', []) \<and> (\<forall>cas'. ak_arbuff_pop (Some q') cas' = None)"
proof -
  have "arb_repk 0 3 (demo_arbuff 0) []" by (rule demo_arbuff_rep) simp_all
  then obtain q where "arb_repk 0 (Suc (Suc 0)) q ([] @ [7])"
    using push_room [of 0 2 "demo_arbuff 0" "[]" 7 "[]"] by (auto simp: numeral_2_eq_2 numeral_3_eq_3)
  then show ?thesis using arbuff_capacity_one_hangs [of 0 q 7 8 "[]"] by auto
qed

theorem arbuff_clear_spec_witness:
  "\<exists>q'. ak_arbuff_clear (Some (demo_arbuff 1)) = Some (Some q') \<and> arb_repk 1 0 q' []"
  using arbuff_clear_spec [OF demo_arbuff_rep [of 1 0]] by (auto simp: demo_arbuff_def)

section \<open>Interleaved threads: the slots\<close>

text \<open>
  The state of the slots under any interleaving, as a relation between the sequence numbers
  \<open>sq\<close> and values \<open>vl\<close> by slot, the positions \<open>h\<close> and \<open>t\<close> handed out to pushes and pops, the
  positions \<open>P\<close> of pushes and \<open>Q\<close> of pops that are between their reservation and their last
  access, and the items \<open>ps\<close> in the order of their positions. A slot is free for a position,
  or holds the item of a position.
\<close>

definition slot_free :: "nat \<Rightarrow> nat \<Rightarrow> nat \<Rightarrow> nat set \<Rightarrow> nat set \<Rightarrow> nat \<Rightarrow> bool" where
  "slot_free c h t P Q p \<longleftrightarrow> (p < c \<or> p - c < t \<and> p - c \<notin> Q) \<and> (h \<le> p \<or> p \<in> P \<and> h \<le> p + c)"

definition slot_full :: "nat \<Rightarrow> nat \<Rightarrow> nat \<Rightarrow> nat set \<Rightarrow> nat set \<Rightarrow> nat \<Rightarrow> bool" where
  "slot_full c h t P Q p \<longleftrightarrow> p < h \<and> h \<le> p + c \<and> p < t + c \<and> p \<notin> P \<and> (t \<le> p \<or> p \<in> Q)"

definition ring_slot ::
  "nat \<Rightarrow> (nat \<Rightarrow> nat) \<Rightarrow> (nat \<Rightarrow> nat) \<Rightarrow> nat \<Rightarrow> nat \<Rightarrow> nat set \<Rightarrow> nat set \<Rightarrow> nat list \<Rightarrow> nat \<Rightarrow> bool" where
  "ring_slot c sq vl h t P Q ps i \<longleftrightarrow>
     (\<exists>p. p mod c = i \<and> (sq i = p \<and> slot_free c h t P Q p
        \<or> sq i = p + 1 \<and> slot_full c h t P Q p \<and> vl i = ps ! p))"

definition ring_ok ::
  "nat \<Rightarrow> (nat \<Rightarrow> nat) \<Rightarrow> (nat \<Rightarrow> nat) \<Rightarrow> nat \<Rightarrow> nat \<Rightarrow> nat set \<Rightarrow> nat set \<Rightarrow> nat list \<Rightarrow> bool" where
  "ring_ok c sq vl h t P Q ps \<longleftrightarrow> 2 \<le> c \<and> length ps = h \<and> t \<le> h
     \<and> (\<forall>p \<in> P. t \<le> p \<and> p < h \<and> sq (p mod c) = p) \<and> (\<forall>p \<in> Q. p < t \<and> sq (p mod c) = p + 1)
     \<and> (\<forall>i < c. ring_slot c sq vl h t P Q ps i)"

lemma mod_Suc_ne: "2 \<le> c \<Longrightarrow> (p + 1) mod c \<noteq> p mod c" for p c :: nat
  using mod_shift_inj [of p 1 c 0] by auto

lemma ring_okD:
  assumes "ring_ok c sq vl h t P Q ps"
  shows "2 \<le> c" and "length ps = h" and "t \<le> h"
    and "p \<in> P \<Longrightarrow> t \<le> p \<and> p < h \<and> sq (p mod c) = p" and "p \<in> Q \<Longrightarrow> p < t \<and> sq (p mod c) = p + 1"
    and "ring_slot c sq vl h t P Q ps (p mod c)"
  using assms by (auto simp: ring_ok_def)

text \<open>What the sequence number of a slot tells.\<close>

lemma ring_free:
  assumes ok: "ring_ok c sq vl h t P Q ps" and sq: "sq (p mod c) = p"
  shows "slot_free c h t P Q p"
proof -
  note r = ring_okD [OF ok]
  obtain x where x: "x mod c = p mod c" "sq (p mod c) = x \<and> slot_free c h t P Q x \<or> sq (p mod c) = x + 1"
    using r(6) [of p] by (auto simp: ring_slot_def)
  then show ?thesis using sq mod_Suc_ne [OF r(1), of x] by auto
qed

lemma ring_full:
  assumes ok: "ring_ok c sq vl h t P Q ps" and sq: "sq (p mod c) = p + 1"
  shows "slot_full c h t P Q p" and "vl (p mod c) = ps ! p"
proof -
  note r = ring_okD [OF ok]
  obtain x where x: "x mod c = p mod c"
      "sq (p mod c) = x \<or> sq (p mod c) = x + 1 \<and> slot_full c h t P Q x \<and> vl (p mod c) = ps ! x"
    using r(6) [of p] by (auto simp: ring_slot_def)
  then have "slot_full c h t P Q p \<and> vl (p mod c) = ps ! p" using sq mod_Suc_ne [OF r(1), of p] by auto
  then show "slot_full c h t P Q p" "vl (p mod c) = ps ! p" by blast+
qed

text \<open>
  An access that changes no sequence number: the state of each slot is kept if its position
  is in the same state after it.
\<close>

lemma ring_slot_mono:
  assumes "ring_slot c sq vl h t P Q ps i"
    and "\<And>p. p mod c = i \<Longrightarrow> sq i = p \<Longrightarrow> slot_free c h t P Q p \<Longrightarrow> slot_free c h' t' P' Q' p"
    and "\<And>p. p mod c = i \<Longrightarrow> sq i = p + 1 \<Longrightarrow> slot_full c h t P Q p \<Longrightarrow> vl i = ps ! p \<Longrightarrow>
      slot_full c h' t' P' Q' p \<and> vl' i = ps' ! p"
  shows "ring_slot c sq vl' h' t' P' Q' ps' i"
  using assms unfolding ring_slot_def by blast

lemma ring_reserve_push:
  assumes ok: "ring_ok c sq vl h t P Q ps" and sq: "sq (h mod c) = h"
  shows "ring_ok c sq vl (h + 1) t (insert h P) Q (ps @ [x])"
proof -
  note r = ring_okD [OF ok]
  have ne: "h \<noteq> p + c" if "sq (p mod c) = p \<and> 0 < c \<or> sq (p mod c) = p + 1" for p
    using that sq r(1) by auto
  have "ring_slot c sq vl (h + 1) t (insert h P) Q (ps @ [x]) i" if i: "i < c" for i
  proof (rule ring_slot_mono)
    show "ring_slot c sq vl h t P Q ps i" using r(6) [of i] i by simp
    show "slot_free c (h + 1) t (insert h P) Q p"
      if "p mod c = i" "sq i = p" "slot_free c h t P Q p" for p
      using that ne [of p] r(1) by (auto simp: slot_free_def)
    show "slot_full c (h + 1) t (insert h P) Q p \<and> vl i = (ps @ [x]) ! p"
      if "p mod c = i" "sq i = p + 1" "slot_full c h t P Q p" "vl i = ps ! p" for p
      using that ne [of p] r(2) by (auto simp: slot_full_def nth_append)
  qed
  then show ?thesis using ok sq by (auto simp: ring_ok_def)
qed

lemma ring_store:
  assumes ok: "ring_ok c sq vl h t P Q ps" and p: "p \<in> P"
  shows "ring_ok c sq (vl(p mod c := x)) h t P Q ps"
proof -
  note r = ring_okD [OF ok]
  have "ring_slot c sq (vl(p mod c := x)) h t P Q ps i" if i: "i < c" for i
  proof (rule ring_slot_mono)
    show "ring_slot c sq vl h t P Q ps i" using r(6) [of i] i by simp
    show "slot_full c h t P Q y \<and> (vl(p mod c := x)) i = ps ! y"
      if "y mod c = i" "sq i = y + 1" "slot_full c h t P Q y" "vl i = ps ! y" for y
      using that r(4) [OF p] mod_Suc_ne [OF r(1), of y] by auto
  qed
  then show ?thesis using ok by (auto simp: ring_ok_def)
qed

lemma ring_publish:
  assumes ok: "ring_ok c sq vl h t P Q ps" and p: "p \<in> P" and v: "vl (p mod c) = ps ! p"
  shows "ring_ok c (sq(p mod c := p + 1)) vl h t (P - {p}) Q ps"
proof -
  note r = ring_okD [OF ok]
  note rp = r(4) [OF p]
  have free: "slot_free c h t P Q p" using ring_free [OF ok] rp by blast
  then have full: "slot_full c h t (P - {p}) Q p" using rp r(1) by (auto simp: slot_free_def slot_full_def)
  have other: "x mod c \<noteq> p mod c" if "sq (x mod c) = x \<and> x \<noteq> p \<or> sq (x mod c) = x + 1" for x
    using that rp mod_Suc_ne [OF r(1), of x] by auto
  have "ring_slot c (sq(p mod c := p + 1)) vl h t (P - {p}) Q ps i" if i: "i < c" for i
  proof (cases "i = p mod c")
    case True
    then show ?thesis using full v unfolding ring_slot_def by (intro exI [of _ p]) simp
  next
    case False
    have "ring_slot c sq vl h t (P - {p}) Q ps i"
    proof (rule ring_slot_mono)
      show "ring_slot c sq vl h t P Q ps i" using r(6) [of i] i by simp
      show "slot_free c h t (P - {p}) Q y" if "y mod c = i" "slot_free c h t P Q y" for y
        using that False by (auto simp: slot_free_def)
      show "slot_full c h t (P - {p}) Q y \<and> vl i = ps ! y" if "slot_full c h t P Q y" "vl i = ps ! y" for y
        using that by (simp add: slot_full_def)
    qed
    then show ?thesis using False by (simp add: ring_slot_def)
  qed
  moreover have "\<forall>x \<in> P - {p}. (sq(p mod c := p + 1)) (x mod c) = x" using r(4) other by auto
  moreover have "\<forall>x \<in> Q. (sq(p mod c := p + 1)) (x mod c) = x + 1" using r(5) other by auto
  ultimately show ?thesis using ok by (auto simp: ring_ok_def)
qed

lemma ring_reserve_pop:
  assumes ok: "ring_ok c sq vl h t P Q ps" and sq: "sq (t mod c) = t + 1"
  shows "ring_ok c sq vl h (t + 1) P (insert t Q) ps"
proof -
  note r = ring_okD [OF ok]
  have full: "slot_full c h t P Q t" by (rule ring_full [OF ok sq])
  then have t: "t < h" "t \<notin> P" by (simp_all add: slot_full_def)
  have "ring_slot c sq vl h (t + 1) P (insert t Q) ps i" if i: "i < c" for i
  proof (rule ring_slot_mono)
    show "ring_slot c sq vl h t P Q ps i" using r(6) [of i] i by simp
    show "slot_free c h (t + 1) P (insert t Q) y" if "slot_free c h t P Q y" for y
      using that by (auto simp: slot_free_def)
    show "slot_full c h (t + 1) P (insert t Q) y \<and> vl i = ps ! y"
      if "slot_full c h t P Q y" "vl i = ps ! y" for y
      using that by (auto simp: slot_full_def)
  qed
  moreover have "\<forall>p \<in> P. t + 1 \<le> p" using r(4) t(2) by (metis Suc_eq_plus1 Suc_leI le_neq_implies_less)
  ultimately show ?thesis using ok sq t by (auto simp: ring_ok_def)
qed

lemma ring_release:
  assumes ok: "ring_ok c sq vl h t P Q ps" and p: "p \<in> Q"
  shows "ring_ok c (sq(p mod c := p + c)) vl h t P (Q - {p}) ps"
proof -
  note r = ring_okD [OF ok]
  note rp = r(5) [OF p]
  have full: "slot_full c h t P Q p" using ring_full [OF ok] rp by blast
  then have free: "slot_free c h t P (Q - {p}) (p + c)" using rp by (auto simp: slot_free_def slot_full_def)
  have other: "x mod c \<noteq> p mod c" if "sq (x mod c) = x \<or> sq (x mod c) = x + 1 \<and> x \<noteq> p" for x
    using that rp mod_Suc_ne [OF r(1), of p] by auto
  have "ring_slot c (sq(p mod c := p + c)) vl h t P (Q - {p}) ps i" if i: "i < c" for i
  proof (cases "i = p mod c")
    case True
    then show ?thesis using free unfolding ring_slot_def by (intro exI [of _ "p + c"]) simp
  next
    case False
    have "ring_slot c sq vl h t P (Q - {p}) ps i"
    proof (rule ring_slot_mono)
      show "ring_slot c sq vl h t P Q ps i" using r(6) [of i] i by simp
      show "slot_free c h t P (Q - {p}) y" if "slot_free c h t P Q y" for y
        using that by (auto simp: slot_free_def)
      show "slot_full c h t P (Q - {p}) y \<and> vl i = ps ! y"
        if "y mod c = i" "slot_full c h t P Q y" "vl i = ps ! y" for y
        using that False by (auto simp: slot_full_def)
    qed
    then show ?thesis using False by (simp add: ring_slot_def)
  qed
  moreover have "\<forall>x \<in> P. (sq(p mod c := p + c)) (x mod c) = x" using r(4) other by auto
  moreover have "\<forall>x \<in> Q - {p}. (sq(p mod c := p + c)) (x mod c) = x + 1" using r(5) other by auto
  ultimately show ?thesis using ok by (auto simp: ring_ok_def)
qed

section \<open>Interleaved threads: the invariant\<close>

fun push_ticket :: "arb_pc \<Rightarrow> nat option" where
  "push_ticket (Push_value item h) = Some (unat h)"
| "push_ticket (Push_publish h) = Some (unat h)"
| "push_ticket _ = None"

fun pop_ticket :: "arb_pc \<Rightarrow> nat option" where
  "pop_ticket (Pop_value t) = Some (unat t)"
| "pop_ticket (Pop_release t item) = Some (unat t)"
| "pop_ticket _ = None"

definition holds_ticket :: "(arb_pc \<Rightarrow> nat option) \<Rightarrow> (nat \<rightharpoonup> arb_pc) \<Rightarrow> nat \<Rightarrow> nat \<Rightarrow> bool" where
  "holds_ticket f th i p \<longleftrightarrow> (\<exists>pc. th i = Some pc \<and> f pc = Some p)"

definition tickets :: "(arb_pc \<Rightarrow> nat option) \<Rightarrow> (nat \<rightharpoonup> arb_pc) \<Rightarrow> nat set" where
  "tickets f th = {p. \<exists>i. holds_ticket f th i p}"

definition unique_tickets :: "(arb_pc \<Rightarrow> nat option) \<Rightarrow> (nat \<rightharpoonup> arb_pc) \<Rightarrow> bool" where
  "unique_tickets f th \<longleftrightarrow> (\<forall>i j p. holds_ticket f th i p \<longrightarrow> holds_ticket f th j p \<longrightarrow> i = j)"

definition seq_fun :: "ak_arbuff \<Rightarrow> nat \<Rightarrow> nat" where
  "seq_fun q = (\<lambda>i. unat (slot_seq (slots q ! i)))"

definition val_fun :: "ak_arbuff \<Rightarrow> nat \<Rightarrow> nat" where
  "val_fun q = (\<lambda>i. slot_value (slots q ! i))"

text \<open>What a thread knows at each point of its code.\<close>

fun pc_ok :: "nat \<Rightarrow> (nat \<Rightarrow> nat) \<Rightarrow> (nat \<Rightarrow> nat) \<Rightarrow> nat \<Rightarrow> nat \<Rightarrow> nat list \<Rightarrow> arb_pc \<Rightarrow> bool" where
  "pc_ok c sq vl h t ps (Push_seq item x) \<longleftrightarrow> unat x \<le> h"
| "pc_ok c sq vl h t ps (Push_cas item x) \<longleftrightarrow> unat x \<le> h \<and> (unat x = h \<longrightarrow> sq (h mod c) = h)"
| "pc_ok c sq vl h t ps (Push_value item x) \<longleftrightarrow> ps ! unat x = item"
| "pc_ok c sq vl h t ps (Push_publish x) \<longleftrightarrow> vl (unat x mod c) = ps ! unat x"
| "pc_ok c sq vl h t ps (Pop_seq x) \<longleftrightarrow> unat x \<le> t"
| "pc_ok c sq vl h t ps (Pop_cas x) \<longleftrightarrow> unat x \<le> t \<and> (unat x = t \<longrightarrow> sq (t mod c) = t + 1)"
| "pc_ok c sq vl h t ps (Pop_release x item) \<longleftrightarrow> item = ps ! unat x"
| "pc_ok c sq vl h t ps _ \<longleftrightarrow> True"

abbreviation head_of :: "arb_system \<Rightarrow> nat" where
  "head_of y \<equiv> unat (arb_head (buf y))"

abbreviation tail_of :: "arb_system \<Rightarrow> nat" where
  "tail_of y \<equiv> unat (arb_tail (buf y))"

definition sys_ok :: "nat \<Rightarrow> arb_system \<Rightarrow> bool" where
  "sys_ok k y \<longleftrightarrow> arb_shape k (buf y) \<and> head_of y + 2 ^ k < 2 ^ 63
     \<and> ring_ok (2 ^ k) (seq_fun (buf y)) (val_fun (buf y)) (head_of y) (tail_of y)
         (tickets push_ticket (threads y)) (tickets pop_ticket (threads y)) (pushed y)
     \<and> (\<forall>i pc. threads y i = Some pc \<longrightarrow>
         pc_ok (2 ^ k) (seq_fun (buf y)) (val_fun (buf y)) (head_of y) (tail_of y) (pushed y) pc)
     \<and> unique_tickets push_ticket (threads y) \<and> unique_tickets pop_ticket (threads y)
     \<and> (\<forall>t. popped y t = (if t < tail_of y \<and> t \<notin> tickets pop_ticket (threads y)
                           then Some (pushed y ! t) else None))"

text \<open>The tickets after a thread has moved on.\<close>

lemma tickets_upd:
  assumes "unique_tickets f th" and "th i = Some pc"
  shows "tickets f (th(i \<mapsto> pc')) = (tickets f th - set_option (f pc)) \<union> set_option (f pc')"
proof -
  have "holds_ticket f (th(i \<mapsto> pc')) j p \<longleftrightarrow> (if j = i then f pc' = Some p else holds_ticket f th j p)" for j p
    by (simp add: holds_ticket_def)
  moreover have "p \<notin> set_option (f pc)" if "j \<noteq> i" "holds_ticket f th j p" for j p
    using assms that by (auto simp: unique_tickets_def holds_ticket_def)
  moreover have "j \<noteq> i" if "p \<notin> set_option (f pc)" "holds_ticket f th j p" for j p
    using assms(2) that by (auto simp: holds_ticket_def)
  ultimately show ?thesis unfolding tickets_def by (auto simp: set_eq_iff) metis+
qed

lemma unique_tickets_upd:
  assumes "unique_tickets f th" and "th i = Some pc"
    and "\<forall>p. f pc' = Some p \<longrightarrow> f pc = Some p \<or> p \<notin> tickets f th"
  shows "unique_tickets f (th(i \<mapsto> pc'))"
proof -
  have h: "holds_ticket f (th(i \<mapsto> pc')) j p \<longleftrightarrow> (if j = i then f pc' = Some p else holds_ticket f th j p)" for j p
    by (simp add: holds_ticket_def)
  have "j = i" if "f pc' = Some p" "holds_ticket f th j p" for j p
  proof -
    have "p \<in> tickets f th" using that(2) by (auto simp: tickets_def)
    then have "holds_ticket f th i p" using assms(2,3) that(1) by (auto simp: holds_ticket_def)
    then show ?thesis using assms(1) that(2) by (auto simp: unique_tickets_def)
  qed
  then show ?thesis using assms(1) unfolding unique_tickets_def h by (metis (full_types))
qed

lemma tickets_call:
  assumes "th i = None" and "f pc' = None"
  shows "tickets f (th(i \<mapsto> pc')) = tickets f th" and "unique_tickets f (th(i \<mapsto> pc')) = unique_tickets f th"
proof -
  have h: "holds_ticket f (th(i \<mapsto> pc')) j p \<longleftrightarrow> holds_ticket f th j p" for j p
    using assms by (auto simp: holds_ticket_def)
  show "tickets f (th(i \<mapsto> pc')) = tickets f th" "unique_tickets f (th(i \<mapsto> pc')) = unique_tickets f th"
    unfolding tickets_def unique_tickets_def h by blast+
qed

lemma tickets_return:
  assumes "th i = Some pc" and "f pc = None"
  shows "tickets f (th(i := None)) = tickets f th" and "unique_tickets f (th(i := None)) = unique_tickets f th"
proof -
  have h: "holds_ticket f (th(i := None)) j p \<longleftrightarrow> holds_ticket f th j p" for j p
    using assms by (auto simp: holds_ticket_def)
  show "tickets f (th(i := None)) = tickets f th" "unique_tickets f (th(i := None)) = unique_tickets f th"
    unfolding tickets_def unique_tickets_def h by blast+
qed

text \<open>What the other threads know is kept by each access to the shared state.\<close>

lemma pc_ok_reserve_push:
  assumes "ring_ok c sq vl h t P Q ps" and "pc_ok c sq vl h t ps pc"
    and "\<forall>p. push_ticket pc = Some p \<longrightarrow> p \<in> P" and "\<forall>p. pop_ticket pc = Some p \<longrightarrow> p \<in> Q"
  shows "pc_ok c sq vl (h + 1) t (ps @ [x]) pc"
proof -
  have "p < length ps" if "p \<in> P \<or> p \<in> Q" for p using that assms(1) by (force simp: ring_ok_def)
  then show ?thesis using assms(2-4) by (cases pc) (auto simp: nth_append)
qed

lemma pc_ok_store:
  assumes "ring_ok c sq vl h t P Q ps" and "pc_ok c sq vl h t ps pc" and "p \<in> P"
    and "\<forall>q. push_ticket pc = Some q \<longrightarrow> q \<in> P \<and> q \<noteq> p"
  shows "pc_ok c sq (vl(p mod c := x)) h t ps pc"
proof -
  have "q mod c \<noteq> p mod c" if "q \<in> P" "q \<noteq> p" for q
    using ring_okD(4) [OF assms(1) that(1)] ring_okD(4) [OF assms(1,3)] that(2) by auto
  then show ?thesis using assms(2,4) by (cases pc) auto
qed

lemma pc_ok_publish:
  assumes ok: "ring_ok c sq vl h t P Q ps" and "pc_ok c sq vl h t ps pc" and p: "p \<in> P"
  shows "pc_ok c (sq(p mod c := p + 1)) vl h t ps pc"
proof -
  have "h mod c \<noteq> p mod c" if "sq (h mod c) = h" using ring_okD(4) [OF ok p] that by auto
  moreover have "t mod c \<noteq> p mod c" if "sq (t mod c) = t + 1"
    using ring_okD(4) [OF ok p] mod_Suc_ne [OF ring_okD(1) [OF ok], of t] that by auto
  ultimately show ?thesis using assms(2) by (cases pc) auto
qed

lemma pc_ok_reserve_pop: "pc_ok c sq vl h t ps pc \<Longrightarrow> pc_ok c sq vl h (t + 1) ps pc"
  by (cases pc) auto

lemma pc_ok_release:
  assumes ok: "ring_ok c sq vl h t P Q ps" and "pc_ok c sq vl h t ps pc" and p: "p \<in> Q"
  shows "pc_ok c (sq(p mod c := p + c)) vl h t ps pc"
proof -
  have "h mod c \<noteq> p mod c" if "sq (h mod c) = h"
    using ring_okD(5) [OF ok p] mod_Suc_ne [OF ring_okD(1) [OF ok], of p] that by auto
  moreover have "t mod c \<noteq> p mod c" if "sq (t mod c) = t + 1" using ring_okD(5) [OF ok p] that by auto
  ultimately show ?thesis using assms(2) by (cases pc) auto
qed

lemma sys_okD:
  assumes "sys_ok k y"
  shows "arb_shape k (buf y)" and "head_of y + 2 ^ k < 2 ^ 63"
    and "ring_ok (2 ^ k) (seq_fun (buf y)) (val_fun (buf y)) (head_of y) (tail_of y)
         (tickets push_ticket (threads y)) (tickets pop_ticket (threads y)) (pushed y)"
    and "threads y i = Some pc \<Longrightarrow>
         pc_ok (2 ^ k) (seq_fun (buf y)) (val_fun (buf y)) (head_of y) (tail_of y) (pushed y) pc"
    and "unique_tickets push_ticket (threads y)" and "unique_tickets pop_ticket (threads y)"
    and "popped y t = (if t < tail_of y \<and> t \<notin> tickets pop_ticket (threads y)
                       then Some (pushed y ! t) else None)"
  using assms unfolding sys_ok_def by blast+

lemma ticket_held: "th i = Some pc \<Longrightarrow> f pc = Some p \<Longrightarrow> p \<in> tickets f th"
  by (auto simp: tickets_def holds_ticket_def)

text \<open>A step that keeps the buffer and the thread's tickets.\<close>

lemma quiet_ok:
  assumes ok: "sys_ok k y" and pc: "threads y i = Some pc"
    and tick: "push_ticket pc' = push_ticket pc" "pop_ticket pc' = pop_ticket pc"
    and pc': "pc_ok (2 ^ k) (seq_fun (buf y)) (val_fun (buf y)) (head_of y) (tail_of y) (pushed y) pc'"
  shows "sys_ok k (y\<lparr>threads := (threads y)(i \<mapsto> pc')\<rparr>)"
proof -
  note r = sys_okD [OF ok]
  have same: "tickets f ((threads y)(i \<mapsto> pc')) = tickets f (threads y)"
      "unique_tickets f ((threads y)(i \<mapsto> pc'))"
    if "f pc' = f pc" "unique_tickets f (threads y)" for f
    using tickets_upd [OF that(2) pc, of pc'] unique_tickets_upd [OF that(2) pc, of pc'] that(1)
      ticket_held [where f = f and th = "threads y" and i = i and pc = pc] pc
    by (cases "f pc"; auto)+
  show ?thesis
    using r pc' same(1) [OF tick(1) r(5)] same(1) [OF tick(2) r(6)]
      same(2) [OF tick(1) r(5)] same(2) [OF tick(2) r(6)]
    unfolding sys_ok_def by (simp split: if_splits)
qed

lemma slot_funs_upd:
  assumes "i < length (slots q)"
  shows "seq_fun (q\<lparr>slots := (slots q)[i := sl]\<rparr>) = (seq_fun q)(i := unat (slot_seq sl))"
    and "val_fun (q\<lparr>slots := (slots q)[i := sl]\<rparr>) = (val_fun q)(i := slot_value sl)"
  using assms by (auto simp: seq_fun_def val_fun_def)

lemma slot_fun_at: "unat (slot_seq (slots q ! i)) = seq_fun q i" "slot_value (slots q ! i) = val_fun q i"
  by (simp_all add: seq_fun_def val_fun_def)

text \<open>The sequence numbers are far from the sign bit, so the differences are exact.\<close>

lemma seq_small:
  assumes ok: "sys_ok k y" and i: "i < 2 ^ k"
  shows "seq_fun (buf y) i < 2 ^ 63"
proof -
  note r = sys_okD [OF ok]
  let ?h = "head_of y" and ?t = "tail_of y" and ?c = "(2 :: nat) ^ k"
  have "ring_slot ?c (seq_fun (buf y)) (val_fun (buf y)) ?h ?t
      (tickets push_ticket (threads y)) (tickets pop_ticket (threads y)) (pushed y) (i mod ?c)"
    by (rule ring_okD(6) [OF r(3)])
  then have "seq_fun (buf y) i \<le> ?h + ?c"
    using i ring_okD(3) [OF r(3)] by (auto simp: ring_slot_def slot_free_def slot_full_def)
  then show ?thesis using r(2) by linarith
qed

lemma access_push_seq:
  assumes ok: "sys_ok k y" and pc: "threads y i = Some (Push_seq item h)"
  shows "\<exists>pc'. arb_access weak (buf y) (Push_seq item h) = Some (buf y, pc')
    \<and> sys_ok k (y\<lparr>threads := (threads y)(i \<mapsto> pc')\<rparr>)"
proof -
  note r = sys_okD [OF ok]
  let ?s = "seq_fun (buf y) (unat h mod 2 ^ k)"
  let ?d = "int ?s - int (unat h)"
  have h: "unat h \<le> head_of y" using r(4) [OF pc] by simp
  then have "unat h < 2 ^ 63" using r(2) by linarith
  then have d: "ptr_diff (slot_seq (slots (buf y) ! (unat h mod 2 ^ k))) h = Some ?d"
    using seq_small [OF ok, of "unat h mod 2 ^ k"] ptr_diff_small by (simp add: seq_fun_def)
  let ?pc = "if ?d = 0 then Push_cas item h else if ?d < 0 then Push_return (-1) else Push_head item"
  have "arb_access weak (buf y) (Push_seq item h) = Some (buf y, ?pc)"
    using d slot_at_eq(1) [OF r(1)] by simp
  moreover have z: "?d = 0 \<longleftrightarrow> ?s = unat h" by linarith
  have "sys_ok k (y\<lparr>threads := (threads y)(i \<mapsto> ?pc)\<rparr>)"
    unfolding z using h by (intro quiet_ok [OF ok pc]) auto
  ultimately show ?thesis by blast
qed

lemma access_pop_seq:
  assumes ok: "sys_ok k y" and pc: "threads y i = Some (Pop_seq t)"
  shows "\<exists>pc'. arb_access weak (buf y) (Pop_seq t) = Some (buf y, pc')
    \<and> sys_ok k (y\<lparr>threads := (threads y)(i \<mapsto> pc')\<rparr>)"
proof -
  note r = sys_okD [OF ok]
  let ?s = "seq_fun (buf y) (unat t mod 2 ^ k)"
  let ?d = "int ?s - int (unat t + 1)"
  have t: "unat t \<le> tail_of y" using r(4) [OF pc] by simp
  have "1 \<le> (2 :: nat) ^ k" by simp
  then have t1: "unat t + 1 < 2 ^ 63" using r(2) t ring_okD(3) [OF r(3)] by linarith
  then have "unat (t + 1) = unat t + 1" by (intro unat_Suc_small) simp
  then have d: "ptr_diff (slot_seq (slots (buf y) ! (unat t mod 2 ^ k))) (t + 1) = Some ?d"
    using seq_small [OF ok, of "unat t mod 2 ^ k"] t1
      ptr_diff_small [of "slot_seq (slots (buf y) ! (unat t mod 2 ^ k))" "t + 1"] by (simp add: seq_fun_def)
  let ?pc = "if ?d = 0 then Pop_cas t else if ?d < 0 then Pop_return 0 else Pop_tail"
  have "arb_access weak (buf y) (Pop_seq t) = Some (buf y, ?pc)"
    using d slot_at_eq(1) [OF r(1)] by simp
  moreover have z: "?d = 0 \<longleftrightarrow> ?s = unat t + 1" by linarith
  have "sys_ok k (y\<lparr>threads := (threads y)(i \<mapsto> ?pc)\<rparr>)"
    unfolding z using t by (intro quiet_ok [OF ok pc]) auto
  ultimately show ?thesis by blast
qed

text \<open>A step that changes the buffer: what is left to show of it.\<close>

lemma access_ok:
  assumes ok: "sys_ok k y" and pc: "threads y i = Some pc"
    and sh: "arb_shape k q" "unat (arb_head q) + 2 ^ k < 2 ^ 63"
    and ring: "ring_ok (2 ^ k) (seq_fun q) (val_fun q) (unat (arb_head q)) (unat (arb_tail q))
      ((tickets push_ticket (threads y) - set_option (push_ticket pc)) \<union> set_option (push_ticket pc'))
      ((tickets pop_ticket (threads y) - set_option (pop_ticket pc)) \<union> set_option (pop_ticket pc')) ps"
    and own: "pc_ok (2 ^ k) (seq_fun q) (val_fun q) (unat (arb_head q)) (unat (arb_tail q)) ps pc'"
    and others: "\<And>j pcj. j \<noteq> i \<Longrightarrow> threads y j = Some pcj \<Longrightarrow>
      pc_ok (2 ^ k) (seq_fun q) (val_fun q) (unat (arb_head q)) (unat (arb_tail q)) ps pcj"
    and fresh: "\<forall>p. push_ticket pc' = Some p \<longrightarrow> push_ticket pc = Some p \<or> p \<notin> tickets push_ticket (threads y)"
      "\<forall>p. pop_ticket pc' = Some p \<longrightarrow> pop_ticket pc = Some p \<or> p \<notin> tickets pop_ticket (threads y)"
    and out: "\<forall>t. pp t = (if t < unat (arb_tail q)
      \<and> t \<notin> (tickets pop_ticket (threads y) - set_option (pop_ticket pc)) \<union> set_option (pop_ticket pc')
      then Some (ps ! t) else None)"
  shows "sys_ok k (y\<lparr>buf := q, threads := (threads y)(i \<mapsto> pc'), pushed := ps, popped := pp\<rparr>)"
proof -
  note r = sys_okD [OF ok]
  note t = tickets_upd [OF r(5) pc, of pc'] tickets_upd [OF r(6) pc, of pc']
    unique_tickets_upd [OF r(5) pc fresh(1)] unique_tickets_upd [OF r(6) pc fresh(2)]
  have "\<forall>j pcj. ((threads y)(i \<mapsto> pc')) j = Some pcj \<longrightarrow>
      pc_ok (2 ^ k) (seq_fun q) (val_fun q) (unat (arb_head q)) (unat (arb_tail q)) ps pcj"
    using own others by simp
  then show ?thesis using sh ring out t unfolding sys_ok_def by simp
qed

lemma other_ticket:
  assumes "unique_tickets f th" "th i = Some pc" "f pc = Some p" "j \<noteq> i" "th j = Some pcj" "f pcj = Some x"
  shows "x \<in> tickets f th \<and> x \<noteq> p"
  using assms by (auto simp: tickets_def unique_tickets_def holds_ticket_def)

lemma access_push_cas:
  assumes ok: "sys_ok k y" and pc: "threads y i = Some (Push_cas item x)" and x: "arb_head (buf y) = x"
    and bound: "head_of y + 1 + 2 ^ k < 2 ^ 63"
  shows "sys_ok k (y\<lparr>buf := (buf y)\<lparr>arb_head := x + 1\<rparr>, threads := (threads y)(i \<mapsto> Push_value item x),
    pushed := pushed y @ [item]\<rparr>)"
proof -
  note r = sys_okD [OF ok]
  let ?q = "(buf y)\<lparr>arb_head := x + 1\<rparr>" and ?P = "tickets push_ticket (threads y)"
  have h: "unat x = head_of y" using x by simp
  have sq: "seq_fun (buf y) (head_of y mod 2 ^ k) = head_of y" using r(4) [OF pc] h by simp
  have h1: "unat (x + 1) = head_of y + 1" using unat_Suc_small [of x] h r(2) by simp
  have same: "seq_fun ?q = seq_fun (buf y)" "val_fun ?q = val_fun (buf y)"
    by (simp_all add: seq_fun_def val_fun_def)
  have new: "head_of y \<notin> ?P" using ring_okD(4) [OF r(3), of "head_of y"] by auto
  have "sys_ok k (y\<lparr>buf := ?q, threads := (threads y)(i \<mapsto> Push_value item x),
      pushed := pushed y @ [item], popped := popped y\<rparr>)"
  proof (rule access_ok [OF ok pc])
    show "ring_ok (2 ^ k) (seq_fun ?q) (val_fun ?q) (unat (arb_head ?q)) (unat (arb_tail ?q))
        ((?P - set_option (push_ticket (Push_cas item x))) \<union> set_option (push_ticket (Push_value item x)))
        ((tickets pop_ticket (threads y) - set_option (pop_ticket (Push_cas item x)))
          \<union> set_option (pop_ticket (Push_value item x))) (pushed y @ [item])"
      using ring_reserve_push [OF r(3) sq, of item] h1 h same by simp
    show "pc_ok (2 ^ k) (seq_fun ?q) (val_fun ?q) (unat (arb_head ?q)) (unat (arb_tail ?q))
        (pushed y @ [item]) pcj" if j: "j \<noteq> i" "threads y j = Some pcj" for j pcj
      using pc_ok_reserve_push [OF r(3) r(4) [OF j(2)], of item] ticket_held [of "threads y" j pcj, OF j(2)] h1 same
      by simp
    have "t < length (pushed y)" if "t < tail_of y" for t
      using that ring_okD(2,3) [OF r(3)] by linarith
    then show "\<forall>t. popped y t = (if t < unat (arb_tail ?q)
        \<and> t \<notin> (tickets pop_ticket (threads y) - set_option (pop_ticket (Push_cas item x)))
               \<union> set_option (pop_ticket (Push_value item x))
        then Some ((pushed y @ [item]) ! t) else None)"
      using r(7) by (simp add: nth_append)
  qed (use r(1) bound h h1 new ring_okD(2) [OF r(3)] in \<open>simp_all add: nth_append\<close>)
  then show ?thesis by simp
qed

lemma access_push_value:
  assumes ok: "sys_ok k y" and pc: "threads y i = Some (Push_value item x)"
  obtains q where "set_slot (buf y) x (\<lambda>sl. sl\<lparr>slot_value := item\<rparr>) = Some q"
    "sys_ok k (y\<lparr>buf := q, threads := (threads y)(i \<mapsto> Push_publish x)\<rparr>)"
proof -
  note r = sys_okD [OF ok]
  let ?P = "tickets push_ticket (threads y)" and ?i = "unat x mod 2 ^ k"
  let ?q = "(buf y)\<lparr>slots := (slots (buf y))[?i := (slots (buf y) ! ?i)\<lparr>slot_value := item\<rparr>]\<rparr>"
  have p: "unat x \<in> ?P" using ticket_held [where f = push_ticket and th = "threads y" and i = i] pc by simp
  have i: "?i < length (slots (buf y))" using r(1) by (simp add: arb_shape_def)
  have same: "seq_fun ?q = seq_fun (buf y)" "val_fun ?q = (val_fun (buf y))(?i := item)"
    using slot_funs_upd [OF i] by (simp_all add: slot_fun_at)
  have "sys_ok k (y\<lparr>buf := ?q, threads := (threads y)(i \<mapsto> Push_publish x),
      pushed := pushed y, popped := popped y\<rparr>)"
  proof (rule access_ok [OF ok pc])
    show "ring_ok (2 ^ k) (seq_fun ?q) (val_fun ?q) (unat (arb_head ?q)) (unat (arb_tail ?q))
        ((?P - set_option (push_ticket (Push_value item x))) \<union> set_option (push_ticket (Push_publish x)))
        ((tickets pop_ticket (threads y) - set_option (pop_ticket (Push_value item x)))
          \<union> set_option (pop_ticket (Push_publish x))) (pushed y)"
      using ring_store [OF r(3) p, of item] p same by (simp add: insert_absorb)
    show "pc_ok (2 ^ k) (seq_fun ?q) (val_fun ?q) (unat (arb_head ?q)) (unat (arb_tail ?q)) (pushed y) pcj"
      if j: "j \<noteq> i" "threads y j = Some pcj" for j pcj
      using pc_ok_store [OF r(3) r(4) [OF j(2)] p, of item]
        other_ticket [OF r(5) pc _ j, of "unat x"] same by simp
    show "pc_ok (2 ^ k) (seq_fun ?q) (val_fun ?q) (unat (arb_head ?q)) (unat (arb_tail ?q)) (pushed y) (Push_publish x)"
      using r(4) [OF pc] same by simp
  qed (use r i in simp_all)
  then show thesis using that slot_at_eq(2) [OF r(1)] by simp
qed

lemma access_push_publish:
  assumes ok: "sys_ok k y" and pc: "threads y i = Some (Push_publish x)"
  obtains q where "set_slot (buf y) x (\<lambda>sl. sl\<lparr>slot_seq := x + 1\<rparr>) = Some q"
    "sys_ok k (y\<lparr>buf := q, threads := (threads y)(i \<mapsto> Push_return 0)\<rparr>)"
proof -
  note r = sys_okD [OF ok]
  let ?P = "tickets push_ticket (threads y)" and ?i = "unat x mod 2 ^ k"
  let ?q = "(buf y)\<lparr>slots := (slots (buf y))[?i := (slots (buf y) ! ?i)\<lparr>slot_seq := x + 1\<rparr>]\<rparr>"
  have p: "unat x \<in> ?P" using ticket_held [where f = push_ticket and th = "threads y" and i = i] pc by simp
  have "unat x < head_of y" using ring_okD(4) [OF r(3) p] by simp
  then have x1: "unat (x + 1) = unat x + 1" using r(2) by (intro unat_Suc_small) simp
  have i: "?i < length (slots (buf y))" using r(1) by (simp add: arb_shape_def)
  have same: "val_fun ?q = val_fun (buf y)" "seq_fun ?q = (seq_fun (buf y))(?i := unat x + 1)"
    using slot_funs_upd [OF i] x1 by (simp_all add: slot_fun_at)
  have v: "val_fun (buf y) ?i = pushed y ! unat x" using r(4) [OF pc] by simp
  have "sys_ok k (y\<lparr>buf := ?q, threads := (threads y)(i \<mapsto> Push_return 0),
      pushed := pushed y, popped := popped y\<rparr>)"
  proof (rule access_ok [OF ok pc])
    show "ring_ok (2 ^ k) (seq_fun ?q) (val_fun ?q) (unat (arb_head ?q)) (unat (arb_tail ?q))
        ((?P - set_option (push_ticket (Push_publish x))) \<union> set_option (push_ticket (Push_return 0)))
        ((tickets pop_ticket (threads y) - set_option (pop_ticket (Push_publish x)))
          \<union> set_option (pop_ticket (Push_return 0))) (pushed y)"
      using ring_publish [OF r(3) p v] same by simp
    show "pc_ok (2 ^ k) (seq_fun ?q) (val_fun ?q) (unat (arb_head ?q)) (unat (arb_tail ?q)) (pushed y) pcj"
      if j: "j \<noteq> i" "threads y j = Some pcj" for j pcj
      using pc_ok_publish [OF r(3) r(4) [OF j(2)] p] same by simp
  qed (use r i in simp_all)
  then show thesis using that slot_at_eq(2) [OF r(1)] by simp
qed

lemma access_pop_cas:
  assumes ok: "sys_ok k y" and pc: "threads y i = Some (Pop_cas x)" and x: "arb_tail (buf y) = x"
  shows "sys_ok k (y\<lparr>buf := (buf y)\<lparr>arb_tail := x + 1\<rparr>, threads := (threads y)(i \<mapsto> Pop_value x)\<rparr>)"
proof -
  note r = sys_okD [OF ok]
  let ?q = "(buf y)\<lparr>arb_tail := x + 1\<rparr>" and ?Q = "tickets pop_ticket (threads y)"
  have t: "unat x = tail_of y" using x by simp
  have sq: "seq_fun (buf y) (tail_of y mod 2 ^ k) = tail_of y + 1" using r(4) [OF pc] t by simp
  have t1: "unat (x + 1) = tail_of y + 1"
    using unat_Suc_small [of x] t r(2) ring_okD(3) [OF r(3)] by simp
  have same: "seq_fun ?q = seq_fun (buf y)" "val_fun ?q = val_fun (buf y)"
    by (simp_all add: seq_fun_def val_fun_def)
  have new: "tail_of y \<notin> ?Q" using ring_okD(5) [OF r(3), of "tail_of y"] by auto
  have "sys_ok k (y\<lparr>buf := ?q, threads := (threads y)(i \<mapsto> Pop_value x),
      pushed := pushed y, popped := popped y\<rparr>)"
  proof (rule access_ok [OF ok pc])
    show "ring_ok (2 ^ k) (seq_fun ?q) (val_fun ?q) (unat (arb_head ?q)) (unat (arb_tail ?q))
        ((tickets push_ticket (threads y) - set_option (push_ticket (Pop_cas x)))
          \<union> set_option (push_ticket (Pop_value x)))
        ((?Q - set_option (pop_ticket (Pop_cas x))) \<union> set_option (pop_ticket (Pop_value x))) (pushed y)"
      using ring_reserve_pop [OF r(3) sq] t1 t same by simp
    show "pc_ok (2 ^ k) (seq_fun ?q) (val_fun ?q) (unat (arb_head ?q)) (unat (arb_tail ?q)) (pushed y) pcj"
      if j: "j \<noteq> i" "threads y j = Some pcj" for j pcj
      using pc_ok_reserve_pop [OF r(4) [OF j(2)]] t1 same by simp
  qed (use r(1,2,7) t t1 new less_Suc_eq in auto)
  then show ?thesis by simp
qed

lemma access_pop_value:
  assumes ok: "sys_ok k y" and pc: "threads y i = Some (Pop_value x)"
  obtains sl where "slot_at (buf y) x = Some sl"
    "sys_ok k (y\<lparr>threads := (threads y)(i \<mapsto> Pop_release x (slot_value sl))\<rparr>)"
proof -
  note r = sys_okD [OF ok]
  have "unat x \<in> tickets pop_ticket (threads y)" using ticket_held [where f = pop_ticket and th = "threads y" and i = i] pc by simp
  then have "val_fun (buf y) (unat x mod 2 ^ k) = pushed y ! unat x"
    using ring_okD(5) [OF r(3)] ring_full(2) [OF r(3)] by blast
  then have "sys_ok k (y\<lparr>threads := (threads y)(i \<mapsto>
      Pop_release x (slot_value (slots (buf y) ! (unat x mod 2 ^ k))))\<rparr>)"
    by (intro quiet_ok [OF ok pc]) (simp_all add: val_fun_def)
  then show thesis using that slot_at_eq(1) [OF r(1)] by blast
qed

lemma access_pop_release:
  assumes ok: "sys_ok k y" and pc: "threads y i = Some (Pop_release x item)"
  obtains q where "set_slot (buf y) x (\<lambda>sl. sl\<lparr>slot_seq := x + arb_mask (buf y) + 1\<rparr>) = Some q"
    "sys_ok k (y\<lparr>buf := q, threads := (threads y)(i \<mapsto> Pop_return item),
       popped := (popped y)(unat x \<mapsto> item)\<rparr>)"
proof -
  note r = sys_okD [OF ok]
  let ?Q = "tickets pop_ticket (threads y)" and ?i = "unat x mod 2 ^ k" and ?s = "x + arb_mask (buf y) + 1"
  let ?q = "(buf y)\<lparr>slots := (slots (buf y))[?i := (slots (buf y) ! ?i)\<lparr>slot_seq := ?s\<rparr>]\<rparr>"
  have p: "unat x \<in> ?Q" using ticket_held [where f = pop_ticket and th = "threads y" and i = i] pc by simp
  have lt: "unat x < tail_of y" "tail_of y \<le> head_of y"
    using ring_okD(5) [OF r(3) p] ring_okD(3) [OF r(3)] by simp_all
  have seq: "unat ?s = unat x + 2 ^ k"
  proof -
    have "?s = x + 2 ^ k" "k \<le> 59" using r(1) by (simp_all add: arb_shape_def mask_eq_exp_minus_1)
    moreover have "unat (2 ^ k :: u64) = 2 ^ k" using calculation(2) by (intro unat_exp) simp
    moreover have "unat x + unat (2 ^ k :: u64) < 2 ^ LENGTH(64)"
      using r(2) lt calculation(3) by simp
    then have "unat (x + 2 ^ k) = unat x + unat (2 ^ k :: u64)" by (simp only: unat_add_lem)
    ultimately show ?thesis by (simp only:)
  qed
  have i: "?i < length (slots (buf y))" using r(1) by (simp add: arb_shape_def)
  have same: "val_fun ?q = val_fun (buf y)" "seq_fun ?q = (seq_fun (buf y))(?i := unat x + 2 ^ k)"
    using slot_funs_upd [OF i] seq by (simp_all add: slot_fun_at)
  have "sys_ok k (y\<lparr>buf := ?q, threads := (threads y)(i \<mapsto> Pop_return item),
      pushed := pushed y, popped := (popped y)(unat x \<mapsto> item)\<rparr>)"
  proof (rule access_ok [OF ok pc])
    show "ring_ok (2 ^ k) (seq_fun ?q) (val_fun ?q) (unat (arb_head ?q)) (unat (arb_tail ?q))
        ((tickets push_ticket (threads y) - set_option (push_ticket (Pop_release x item)))
          \<union> set_option (push_ticket (Pop_return item)))
        ((?Q - set_option (pop_ticket (Pop_release x item))) \<union> set_option (pop_ticket (Pop_return item))) (pushed y)"
      using ring_release [OF r(3) p] same by simp
    show "pc_ok (2 ^ k) (seq_fun ?q) (val_fun ?q) (unat (arb_head ?q)) (unat (arb_tail ?q)) (pushed y) pcj"
      if j: "j \<noteq> i" "threads y j = Some pcj" for j pcj
      using pc_ok_release [OF r(3) r(4) [OF j(2)] p] same by simp
    show "\<forall>t. ((popped y)(unat x \<mapsto> item)) t = (if t < unat (arb_tail ?q)
        \<and> t \<notin> (?Q - set_option (pop_ticket (Pop_release x item))) \<union> set_option (pop_ticket (Pop_return item))
        then Some (pushed y ! t) else None)"
      using r(4) [OF pc] r(7) lt(1) by simp
  qed (use r i in simp_all)
  then show thesis using that slot_at_eq(2) [OF r(1)] by simp
qed

lemma arb_access_ok:
  assumes ok: "sys_ok k y" and pc: "threads y i = Some pc"
    and run: "arb_access weak (buf y) pc = Some (q, pc')"
    and bound: "length (pushed (record_access pc pc' (y\<lparr>buf := q, threads := (threads y)(i \<mapsto> pc')\<rparr>))) + 2 ^ k < 2 ^ 63"
  shows "sys_ok k (record_access pc pc' (y\<lparr>buf := q, threads := (threads y)(i \<mapsto> pc')\<rparr>))"
proof (cases pc)
  case (Push_head item)
  have "sys_ok k (y\<lparr>threads := (threads y)(i \<mapsto> Push_seq item (arb_head (buf y)))\<rparr>)"
    using Push_head by (intro quiet_ok [OF ok pc]) simp_all
  then show ?thesis using run Push_head by (auto simp: record_access_def)
next
  case (Push_seq item h)
  obtain pc1 where "arb_access weak (buf y) pc = Some (buf y, pc1)"
      "sys_ok k (y\<lparr>threads := (threads y)(i \<mapsto> pc1)\<rparr>)"
    using access_push_seq [OF ok, of i item h weak] pc Push_seq by blast
  then show ?thesis using run Push_seq by (auto simp: record_access_def split: arb_pc.splits)
next
  case (Push_cas item h)
  show ?thesis
  proof (cases "arb_head (buf y) = h \<and> \<not> weak")
    case True
    have "head_of y = length (pushed y)" using ring_okD(2) [OF sys_okD(3) [OF ok]] by simp
    then have "head_of y + 1 + 2 ^ k < 2 ^ 63" using bound run True Push_cas by (auto simp: record_access_def)
    then show ?thesis
      using access_push_cas [OF ok, of i item h] pc run True Push_cas by (auto simp: record_access_def)
  next
    case False
    have "sys_ok k (y\<lparr>threads := (threads y)(i \<mapsto> Push_head item)\<rparr>)"
      using Push_cas by (intro quiet_ok [OF ok pc]) simp_all
    then show ?thesis using run False Push_cas by (auto simp: record_access_def)
  qed
next
  case (Push_value item h)
  show ?thesis
    by (rule access_push_value [OF ok, of i item h])
      (use pc run Push_value in \<open>auto simp: record_access_def\<close>)
next
  case (Push_publish h)
  show ?thesis
    by (rule access_push_publish [OF ok, of i h])
      (use pc run Push_publish in \<open>auto simp: record_access_def\<close>)
next
  case Pop_tail
  have "sys_ok k (y\<lparr>threads := (threads y)(i \<mapsto> Pop_seq (arb_tail (buf y)))\<rparr>)"
    using Pop_tail by (intro quiet_ok [OF ok pc]) simp_all
  then show ?thesis using run Pop_tail by (auto simp: record_access_def)
next
  case (Pop_seq t)
  obtain pc1 where "arb_access weak (buf y) pc = Some (buf y, pc1)"
      "sys_ok k (y\<lparr>threads := (threads y)(i \<mapsto> pc1)\<rparr>)"
    using access_pop_seq [OF ok, of i t weak] pc Pop_seq by blast
  then show ?thesis using run Pop_seq by (auto simp: record_access_def split: arb_pc.splits)
next
  case (Pop_cas t)
  show ?thesis
  proof (cases "arb_tail (buf y) = t \<and> \<not> weak")
    case True
    then show ?thesis using access_pop_cas [OF ok, of i t] pc run Pop_cas by (auto simp: record_access_def)
  next
    case False
    have "sys_ok k (y\<lparr>threads := (threads y)(i \<mapsto> Pop_tail)\<rparr>)"
      using Pop_cas by (intro quiet_ok [OF ok pc]) simp_all
    then show ?thesis using run False Pop_cas by (auto simp: record_access_def)
  qed
next
  case (Pop_value t)
  show ?thesis
    by (rule access_pop_value [OF ok, of i t])
      (use pc run Pop_value in \<open>auto simp: record_access_def\<close>)
next
  case (Pop_release t item)
  show ?thesis
    by (rule access_pop_release [OF ok, of i t item])
      (use pc run Pop_release in \<open>auto simp: record_access_def\<close>)
qed (use run in simp_all)

lemma call_ok:
  assumes ok: "sys_ok k y" and new: "threads y i = None" and pc: "pc = Push_head item \<or> pc = Pop_tail"
  shows "sys_ok k (y\<lparr>threads := (threads y)(i \<mapsto> pc)\<rparr>)"
proof -
  have none: "push_ticket pc = None" "pop_ticket pc = None" using pc by auto
  have own: "pc_ok c sq vl h t ps pc" for c sq vl h t ps using pc by auto
  show ?thesis
    using ok own unfolding sys_ok_def
    by (simp add: tickets_call [where f = push_ticket and th = "threads y", OF new none(1)]
        tickets_call [where f = pop_ticket and th = "threads y", OF new none(2)])
qed

lemma return_ok:
  assumes ok: "sys_ok k y" and pc: "threads y i = Some pc" "(\<exists>r. pc = Push_return r) \<or> (\<exists>r. pc = Pop_return r)"
  shows "sys_ok k (y\<lparr>threads := (threads y)(i := None)\<rparr>)"
proof -
  have none: "push_ticket pc = None" "pop_ticket pc = None" using pc(2) by auto
  show ?thesis
    using ok unfolding sys_ok_def
    by (simp add: tickets_return [where f = push_ticket and th = "threads y", OF pc(1) none(1)]
        tickets_return [where f = pop_ticket and th = "threads y", OF pc(1) none(2)])
qed

lemma arb_step_ok:
  assumes "arb_step y y'" and "sys_ok k y" and "length (pushed y') + 2 ^ k < 2 ^ 63"
  shows "sys_ok k y'"
  using assms
proof (induction rule: arb_step.induct)
  case (call_push y i item)
  then show ?case using call_ok by blast
next
  case (call_pop y i)
  then show ?case using call_ok by blast
next
  case (access y i pc weak q pc')
  then show ?case using arb_access_ok by blast
next
  case (return y i pc)
  then show ?case using return_ok by blast
qed

lemma arb_step_pushed: "arb_step y y' \<Longrightarrow> length (pushed y) \<le> length (pushed y')"
  by (induction rule: arb_step.induct) (auto simp: record_access_def split: arb_pc.splits)

definition arb_start :: "ak_arbuff \<Rightarrow> arb_system" where
  "arb_start q = \<lparr>buf = q, threads = Map.empty, pushed = [], popped = Map.empty\<rparr>"

lemma arb_start_ok:
  assumes rep: "arb_repk k n q []" and k: "1 \<le> k" and t: "arb_tail q = 0"
  shows "sys_ok k (arb_start q)"
proof -
  note r = arb_repkD [OF rep]
  have zero: "unat (arb_head q) = 0" "unat (arb_tail q) = 0" using r(3) t by simp_all
  have c: "2 \<le> (2 :: nat) ^ k" using k by (metis one_le_numeral power_increasing power_one_right)
  have none: "tickets f Map.empty = {}" "unique_tickets f Map.empty" for f
    by (simp_all add: tickets_def unique_tickets_def holds_ticket_def)
  have "ring_slot (2 ^ k) (seq_fun q) (val_fun q) 0 0 {} {} [] i" if i: "i < 2 ^ k" for i
    using r(5) [OF i] i zero
    by (auto simp: ring_slot_def slot_free_def slot_ok_def seq_fun_def intro!: exI [of _ i])
  then have "ring_ok (2 ^ k) (seq_fun q) (val_fun q) 0 0 {} {} []" using c by (simp add: ring_ok_def)
  then show ?thesis
    using r(1,4) zero by (simp add: sys_ok_def arb_start_def none)
qed

lemma arb_reachable_ok:
  assumes "arb_step\<^sup>*\<^sup>* (arb_start q) y" and "length (pushed y) + 2 ^ k < 2 ^ 63"
    and "arb_repk k n q []" and "1 \<le> k" and "arb_tail q = 0"
  shows "sys_ok k y"
  using assms(1,2)
proof (induction rule: rtranclp_induct)
  case base
  show ?case by (rule arb_start_ok [OF assms(3-5)])
next
  case (step y z)
  have "length (pushed y) + 2 ^ k < 2 ^ 63" using arb_step_pushed [OF step.hyps(2)] step.prems by linarith
  then show ?case using arb_step_ok [OF step.hyps(2) step.IH] step.prems by blast
qed

text \<open>Two positions in the window behind the tail that share a slot are equal.\<close>

lemma window_inj:
  fixes p q t c :: nat
  assumes "p mod c = q mod c" "t \<le> p" "p < t + c" "t \<le> q" "q < t + c"
  shows "p = q"
proof -
  obtain i j where "p = t + i" "q = t + j" using assms(2,4) le_Suc_ex by metis
  then show ?thesis using mod_shift_inj [of t i c j] assms(1,3,5) by simp
qed

lemma ring_bound:
  assumes ok: "ring_ok c sq vl h t P Q ps"
  shows "h \<le> t + c"
proof -
  note r = ring_okD [OF ok]
  obtain p where p: "p mod c = t mod c" "slot_free c h t P Q p \<or> slot_full c h t P Q p"
    using r(6) [of t] by (auto simp: ring_slot_def)
  have eq: "p = t" if "t \<le> p" "p < t + c" using window_inj [OF p(1) that] r(1) by simp
  have "p < t + c" using p(2) r(1) by (auto simp: slot_free_def slot_full_def)
  with p(2) show ?thesis
    using r(4) [of p] r(5) [of p] eq r(1) by (auto simp: slot_free_def slot_full_def)
qed

lemma quiescent_rep:
  assumes ok: "sys_ok k y" and idle: "threads y = Map.empty" and n: "head_of y + 2 ^ k + n < 2 ^ 63"
  shows "arb_repk k n (buf y) (drop (tail_of y) (pushed y))"
    and "popped y = (\<lambda>t. if t < tail_of y then Some (pushed y ! t) else None)"
proof -
  note r = sys_okD [OF ok]
  let ?h = "head_of y" and ?t = "tail_of y" and ?c = "(2 :: nat) ^ k" and ?xs = "drop (tail_of y) (pushed y)"
  have none: "tickets f (threads y) = {}" for f by (simp add: tickets_def holds_ticket_def idle)
  note ring = r(3) [unfolded none]
  note d = ring_okD [OF ring]
  have len: "length ?xs = ?h - ?t" using d(2) by simp
  show "arb_repk k n (buf y) ?xs"
    unfolding arb_repk_def
  proof (intro conjI allI impI)
    show "length ?xs \<le> ?c" using ring_bound [OF ring] len by simp
    show "?h = ?t + length ?xs" using d(3) len by simp
    fix i assume i: "i < ?c"
    let ?j = "(?t + i) mod ?c"
    obtain p where p: "p mod ?c = ?j"
        "seq_fun (buf y) ?j = p \<and> slot_free ?c ?h ?t {} {} p
          \<or> seq_fun (buf y) ?j = p + 1 \<and> slot_full ?c ?h ?t {} {} p \<and> val_fun (buf y) ?j = pushed y ! p"
      using d(6) [of "?t + i"] by (auto simp: ring_slot_def)
    have "?t \<le> p \<and> p < ?t + ?c" using p(2) d(3) by (auto simp: slot_free_def slot_full_def)
    then have "p = ?t + i" using window_inj [OF p(1), of ?t] i by simp
    then show "slot_ok (slots (buf y) ! ?j) ?t ?xs i"
      using p(2) len d(2) by (auto simp: slot_ok_def slot_free_def slot_full_def seq_fun_def val_fun_def)
  qed (use r(1) n in simp_all)
  show "popped y = (\<lambda>t. if t < ?t then Some (pushed y ! t) else None)"
    using r(7) by (auto simp: none)
qed

lemma arb_access_defined:
  assumes ok: "sys_ok k y" and pc: "threads y i = Some pc"
    and run: "(\<forall>r. pc \<noteq> Push_return r) \<and> (\<forall>r. pc \<noteq> Pop_return r)"
  shows "arb_access weak (buf y) pc \<noteq> None"
proof (cases pc)
  case (Push_seq item h)
  then show ?thesis using access_push_seq [OF ok, of i item h weak] pc by auto
next
  case (Pop_seq t)
  then show ?thesis using access_pop_seq [OF ok, of i t weak] pc by auto
qed (use run slot_at_eq [OF sys_okD(1) [OF ok]] in auto)

section \<open>Properties of the buffer for interleaved threads\<close>


text \<open>
  Nothing is lost. Whenever all calls have returned, whatever the interleaving was, the
  items delivered are exactly those of the positions below the tail, and the buffer is a
  queue that holds exactly the remaining items in the order of their reservations, so that
  what the functions for one caller do next is what the queue does.\<close>

theorem arbuff_quiescent_queue:
  assumes "arb_repk k n q []" and "1 \<le> k" and "arb_tail q = 0"
    and "arb_step\<^sup>*\<^sup>* (arb_start q) y" and "length (pushed y) + 2 ^ k + m < 2 ^ 63"
    and "threads y = Map.empty"
  shows "arb_rep (2 ^ k) m (buf y) (drop (tail_of y) (pushed y))
    \<and> popped y = (\<lambda>t. if t < tail_of y then Some (pushed y ! t) else None)"
proof -
  have "length (pushed y) + 2 ^ k < 2 ^ 63" using assms(5) by linarith
  then have ok: "sys_ok k y" by (rule arb_reachable_ok [OF assms(4) _ assms(1-3)])
  have "head_of y + 2 ^ k + m < 2 ^ 63" using assms(5) ring_okD(2) [OF sys_okD(3) [OF ok]] by simp
  then show ?thesis
    using quiescent_rep [OF ok assms(6)] assms(2) unfolding arb_rep_def by blast
qed


theorem arbuff_quiescent_queue_witness:
  "arb_rep 2 0 (buf (arb_start (demo_arbuff 1))) [] \<and> popped (arb_start (demo_arbuff 1)) = Map.empty"
proof -
  have rep: "arb_repk 1 0 (demo_arbuff 1) []" by (rule demo_arbuff_rep) simp_all
  show ?thesis
    using arbuff_quiescent_queue [OF rep, of "arb_start (demo_arbuff 1)" 0]
    by (simp add: arb_start_def demo_arbuff_def)
qed

end
