(* ===== verification/Sourceloc.thy ===== *)
theory Sourceloc
  imports Utf8 Intern "HOL-Library.Multiset"
begin

text \<open>
  Model of kernel/sourceloc/src/sourceloc.c: source files with a table of line starts,
  reference counts, locations and ranges. The files live in a store from addresses (0 is
  NULL) to records; the file names are interned, so the state includes the table of
  Intern.thy. Each lock is held around one group of accesses, so an operation is one step.
  Line numbers, columns, offsets and reference counts are 32-bit words. The outer \<open>option\<close>
  is \<open>None\<close> for an undefined access or a loop without an end.

  The lemmas show that the line table of a new file lists the positions that follow a
  newline, that the binary search returns the line and column of every offset, that the
  lines with their terminators make up the file, what text a line and a range have, and that
  a file lives exactly as long as its references, which the statistics count.
\<close>

section \<open>Definitions\<close>

record ak_source_file =
  sf_filename :: nat
  sf_contents :: "u8 list"
  sf_length :: nat
  sf_line_starts :: "u32 list"
  sf_line_count :: u32
  sf_ref_count :: u32

record sourceloc_system =
  ss_file_count :: nat
  ss_total_bytes :: nat
  ss_initialized :: bool

record sl_world =
  sl_files :: "nat \<rightharpoonup> ak_source_file"
  sl_system :: sourceloc_system
  sl_names :: intern_table

record ak_source_loc =
  loc_file :: nat
  loc_line :: u32
  loc_column :: u32
  loc_offset :: u32

record ak_source_range =
  range_start :: ak_source_loc
  range_end :: ak_source_loc

definition sz_sub :: "nat \<Rightarrow> nat \<Rightarrow> nat" where
  "sz_sub a b = (if b \<le> a then a - b else a + SIZE_RANGE - b)"

abbreviation NL :: u8 where "NL \<equiv> 10"
abbreviation CR :: u8 where "CR \<equiv> 13"

text \<open>How far \<open>utf8_strlen\<close> moves for a first byte.\<close>

definition char_step :: "u8 \<Rightarrow> nat" where
  "char_step c =
     (if c AND 0x80 = 0 then 1
      else if c AND 0xE0 = 0xC0 then 2
      else if c AND 0xF0 = 0xE0 then 3
      else if c AND 0xF8 = 0xF0 then 4
      else 1)"

text \<open>The count of code points in the bytes from \<open>s\<close> up to \<open>e\<close>.\<close>

function utf8_strlen_loop :: "u8 list \<Rightarrow> nat \<Rightarrow> nat \<Rightarrow> nat \<Rightarrow> nat option" where
  "utf8_strlen_loop bs s e cnt =
     (if s < e
      then (case mem_read bs s of None \<Rightarrow> None
            | Some c \<Rightarrow> if c = 0 then Some cnt else utf8_strlen_loop bs (s + char_step c) e (cnt + 1))
      else Some cnt)"
  by pat_completeness auto
termination
  by (relation "measure (\<lambda>(bs, s, e, cnt). e - s)") (auto simp: char_step_def)

declare utf8_strlen_loop.simps [simp del]

definition utf8_strlen :: "u8 list \<Rightarrow> nat \<Rightarrow> nat \<Rightarrow> nat option" where
  "utf8_strlen bs start byte_len = utf8_strlen_loop bs start (start + byte_len) 0"

text \<open>The two passes of \<open>compute_line_starts\<close>, from index \<open>i\<close> with \<open>n\<close> bytes left.\<close>

fun count_lines :: "u8 list \<Rightarrow> nat \<Rightarrow> nat \<Rightarrow> nat \<Rightarrow> u32 \<Rightarrow> u32 option" where
  "count_lines bs len i 0 line_count = Some line_count"
| "count_lines bs len i (Suc n) line_count = do {
     c \<leftarrow> mem_read bs i;
     count_lines bs len (i + 1) n (if c = NL \<and> i + 1 < len then line_count + 1 else line_count)
   }"

fun store_lines :: "u8 list \<Rightarrow> nat \<Rightarrow> nat \<Rightarrow> nat \<Rightarrow> u32 \<Rightarrow> u32 list \<Rightarrow> u32 list option" where
  "store_lines bs len i 0 line_idx ss = Some ss"
| "store_lines bs len i (Suc n) line_idx ss = do {
     c \<leftarrow> mem_read bs i;
     if c = NL \<and> i + 1 < len
     then do {
       ss' \<leftarrow> mem_write ss (unat line_idx) (word_of_nat (i + 1));
       store_lines bs len (i + 1) n (line_idx + 1) ss'
     }
     else store_lines bs len (i + 1) n line_idx ss
   }"

definition compute_line_starts ::
  "ak_source_file \<Rightarrow> ptr_sched \<Rightarrow> (ak_source_file option \<times> ptr_sched) option" where
  "compute_line_starts f s = do {
     line_count \<leftarrow> count_lines (sf_contents f) (sf_length f) 0 (sf_length f) 1;
     (case sys_alloc s of
        (None, s') \<Rightarrow> Some (None, s')
      | (Some g, s') \<Rightarrow> do {
          ss \<leftarrow> mem_write (map (\<lambda>i. word_of_nat (g i)) [0..<unat line_count]) 0 0;
          ss' \<leftarrow> store_lines (sf_contents f) (sf_length f) 0 (sf_length f) 1 ss;
          Some (Some (f\<lparr>sf_line_starts := ss', sf_line_count := line_count\<rparr>), s')
        })
   }"

definition alloc_chars :: "nat \<Rightarrow> ptr_sched \<Rightarrow> u8 list option \<times> ptr_sched" where
  "alloc_chars n s =
     (case sys_alloc s of
        (r, s') \<Rightarrow> (map_option (\<lambda>g. map (\<lambda>i. word_of_nat (g i)) [0..<n]) r, s'))"

text \<open>
  What the C library answers for a path: whether it opens, the position \<open>ftell\<close> reports at
  the end, and the bytes \<open>fread\<close> can deliver.
\<close>

record read_env =
  re_open :: bool
  re_size :: int
  re_bytes :: "u8 list"

definition read_file ::
  "read_env \<Rightarrow> ptr_sched \<Rightarrow> ((u8 list \<times> nat) option \<times> ptr_sched) option" where
  "read_file env s =
     (if \<not> re_open env then Some (None, s)
      else if re_size env < 0 then Some (None, s)
      else let sz = nat (re_size env) in
        (case alloc_chars (sz + 1) s of
           (None, s') \<Rightarrow> Some (None, s')
         | (Some buffer, s') \<Rightarrow> do {
             let bytes_read = min sz (length (re_bytes env));
             b1 \<leftarrow> mem_copy buffer 0 (re_bytes env) 0 bytes_read;
             b2 \<leftarrow> mem_write b1 bytes_read 0;
             Some (Some (b2, bytes_read), s')
           }))"

definition ak_sourceloc_init :: "sl_world \<Rightarrow> sl_world" where
  "ak_sourceloc_init w =
     (if ss_initialized (sl_system w) then w
      else w\<lparr>sl_system := \<lparr>ss_file_count = 0, ss_total_bytes = 0, ss_initialized = True\<rparr>\<rparr>)"

definition ak_sourceloc_shutdown :: "sl_world \<Rightarrow> sl_world" where
  "ak_sourceloc_shutdown w =
     (if \<not> ss_initialized (sl_system w) then w
      else w\<lparr>sl_system := \<lparr>ss_file_count = 0, ss_total_bytes = 0, ss_initialized = False\<rparr>\<rparr>)"

text \<open>
  The outcome of \<open>AK24_MUTEX_INIT\<close> is an entry of the schedule too. A file that fails on the
  way is freed again, while its interned name stays.
\<close>

definition ak_source_file_new ::
  "sl_world \<Rightarrow> u8 list option \<Rightarrow> u8 list option \<Rightarrow> nat \<Rightarrow> ptr_sched \<Rightarrow>
   (nat option \<times> sl_world \<times> ptr_sched) option" where
  "ak_source_file_new w filename contents len s =
     (case (filename, contents) of
        (Some name, Some bs) \<Rightarrow>
         (case alloc_cell (sl_files w) s of
            (None, s1) \<Rightarrow> Some (None, w, s1)
          | (Some fp, s1) \<Rightarrow>
           (case sys_alloc s1 of
              (None, s2) \<Rightarrow> Some (None, w, s2)
            | (Some _, s2) \<Rightarrow> do {
                (interned, names, s3) \<leftarrow> ak_intern (sl_names w) (Some name) s2;
                let w1 = w\<lparr>sl_names := names\<rparr>;
                (case interned of
                   None \<Rightarrow> Some (None, w1, s3)
                 | Some np \<Rightarrow>
                   (case alloc_chars (sz_add len 1) s3 of
                      (None, s4) \<Rightarrow> Some (None, w1, s4)
                    | (Some mem, s4) \<Rightarrow> do {
                        m1 \<leftarrow> mem_copy mem 0 bs 0 len;
                        m2 \<leftarrow> mem_write m1 len 0;
                        (computed, s5) \<leftarrow> compute_line_starts
                          \<lparr>sf_filename = np, sf_contents = m2, sf_length = len, sf_line_starts = [],
                           sf_line_count = 0, sf_ref_count = 1\<rparr> s4;
                        (case computed of
                           None \<Rightarrow> Some (None, w1, s5)
                         | Some f \<Rightarrow>
                             let sys = sl_system w in
                             Some (Some fp,
                               w1\<lparr>sl_files := (sl_files w)(fp \<mapsto> f),
                                  sl_system :=
                                    (if ss_initialized sys
                                     then sys\<lparr>ss_file_count := sz_add (ss_file_count sys) 1,
                                              ss_total_bytes := sz_add (ss_total_bytes sys) len\<rparr>
                                     else sys)\<rparr>, s5))
                      }))
              }))
      | _ \<Rightarrow> Some (None, w, s))"

definition ak_source_file_from_path ::
  "sl_world \<Rightarrow> u8 list option \<Rightarrow> read_env \<Rightarrow> ptr_sched \<Rightarrow> (nat option \<times> sl_world \<times> ptr_sched) option"
where
  "ak_source_file_from_path w path env s =
     (case path of None \<Rightarrow> Some (None, w, s)
      | Some p \<Rightarrow> do {
          (r, s') \<leftarrow> read_file env s;
          (case r of None \<Rightarrow> Some (None, w, s')
           | Some (contents, len) \<Rightarrow> ak_source_file_new w (Some p) (Some contents) len s')
        })"

definition ak_source_file_retain :: "sl_world \<Rightarrow> nat \<Rightarrow> (nat \<times> sl_world) option" where
  "ak_source_file_retain w fp =
     (if fp = 0 then Some (0, w)
      else do {
        f \<leftarrow> sl_files w fp;
        Some (fp, w\<lparr>sl_files := (sl_files w)(fp \<mapsto> f\<lparr>sf_ref_count := sf_ref_count f + 1\<rparr>)\<rparr>)
      })"

definition ak_source_file_release :: "sl_world \<Rightarrow> nat \<Rightarrow> sl_world option" where
  "ak_source_file_release w fp =
     (if fp = 0 then Some w
      else do {
        f \<leftarrow> sl_files w fp;
        let ref_count = sf_ref_count f - 1;
        if ref_count = 0
        then let sys = sl_system w in
          Some (w\<lparr>sl_files := (sl_files w)(fp := None),
                  sl_system :=
                    (if ss_initialized sys
                     then sys\<lparr>ss_file_count := sz_sub (ss_file_count sys) 1,
                              ss_total_bytes := sz_sub (ss_total_bytes sys) (sf_length f)\<rparr>
                     else sys)\<rparr>)
        else Some (w\<lparr>sl_files := (sl_files w)(fp \<mapsto> f\<lparr>sf_ref_count := ref_count\<rparr>)\<rparr>)
      })"

definition ak_source_file_contents :: "sl_world \<Rightarrow> nat \<Rightarrow> u8 list option option" where
  "ak_source_file_contents w fp =
     (if fp = 0 then Some None else map_option (\<lambda>f. Some (sf_contents f)) (sl_files w fp))"

definition ak_source_file_length :: "sl_world \<Rightarrow> nat \<Rightarrow> nat option" where
  "ak_source_file_length w fp = (if fp = 0 then Some 0 else map_option sf_length (sl_files w fp))"

definition ak_source_file_name :: "sl_world \<Rightarrow> nat \<Rightarrow> nat option" where
  "ak_source_file_name w fp = (if fp = 0 then Some 0 else map_option sf_filename (sl_files w fp))"

definition ak_source_loc_new :: "nat \<Rightarrow> u32 \<Rightarrow> u32 \<Rightarrow> u32 \<Rightarrow> ak_source_loc" where
  "ak_source_loc_new fp line column offset =
     \<lparr>loc_file = fp, loc_line = line, loc_column = column, loc_offset = offset\<rparr>"

partial_function (option) line_search :: "u32 list \<Rightarrow> u32 \<Rightarrow> u32 \<Rightarrow> u32 \<Rightarrow> u32 \<Rightarrow> u32 option" where
  "line_search starts offset left right line_idx =
     (if left \<le> right
      then Option.bind (mem_read starts (unat (left + (right - left) div 2))) (\<lambda>start.
        let mid = left + (right - left) div 2 in
        if start \<le> offset
        then (if mid = right then Some mid else line_search starts offset (mid + 1) right mid)
        else (if mid = 0 then Some line_idx else line_search starts offset left (mid - 1) line_idx))
      else Some line_idx)"

definition zero_loc :: ak_source_loc where
  "zero_loc = \<lparr>loc_file = 0, loc_line = 0, loc_column = 0, loc_offset = 0\<rparr>"

definition ak_source_loc_from_offset :: "sl_world \<Rightarrow> nat \<Rightarrow> u32 \<Rightarrow> ak_source_loc option" where
  "ak_source_loc_from_offset w fp offset =
     (if fp = 0 then Some zero_loc
      else do {
        f \<leftarrow> sl_files w fp;
        if unat offset > sf_length f then Some zero_loc
        else do {
          line_idx \<leftarrow> line_search (sf_line_starts f) offset 0 (sf_line_count f - 1) 0;
          line_start \<leftarrow> mem_read (sf_line_starts f) (unat line_idx);
          count \<leftarrow> utf8_strlen (sf_contents f) (unat line_start) (unat (offset - line_start));
          Some \<lparr>loc_file = fp, loc_line = line_idx + 1, loc_column = word_of_nat count + 1,
                loc_offset = offset\<rparr>
        }
      })"

definition ak_source_range_new :: "ak_source_loc \<Rightarrow> ak_source_loc \<Rightarrow> ak_source_range" where
  "ak_source_range_new start stop = \<lparr>range_start = start, range_end = stop\<rparr>"

definition ak_source_range_contains :: "ak_source_range option \<Rightarrow> ak_source_loc \<Rightarrow> bool" where
  "ak_source_range_contains rng loc =
     (case rng of None \<Rightarrow> False
      | Some r \<Rightarrow>
         if loc_file (range_start r) = 0 \<or> loc_file loc = 0 then False
         else if loc_file (range_start r) \<noteq> loc_file loc then False
         else loc_offset loc \<ge> loc_offset (range_start r) \<and> loc_offset loc < loc_offset (range_end r))"

definition ak_source_range_overlaps :: "ak_source_range option \<Rightarrow> ak_source_range option \<Rightarrow> bool" where
  "ak_source_range_overlaps a b =
     (case (a, b) of
        (Some a, Some b) \<Rightarrow>
         if loc_file (range_start a) = 0 \<or> loc_file (range_start b) = 0 then False
         else if loc_file (range_start a) \<noteq> loc_file (range_start b) then False
         else loc_offset (range_start a) < loc_offset (range_end b)
              \<and> loc_offset (range_start b) < loc_offset (range_end a)
      | _ \<Rightarrow> False)"

definition ak_source_extract ::
  "sl_world \<Rightarrow> ak_source_range \<Rightarrow> ptr_sched \<Rightarrow> (u8 list option \<times> ptr_sched) option" where
  "ak_source_extract w rng s =
     (let a = range_start rng; b = range_end rng in
      if loc_file a = 0 \<or> loc_file b = 0 then Some (None, s)
      else if loc_file a \<noteq> loc_file b then Some (None, s)
      else do {
        f \<leftarrow> sl_files w (loc_file a);
        if unat (loc_offset a) > sf_length f \<or> unat (loc_offset b) > sf_length f then Some (None, s)
        else if loc_offset a > loc_offset b then Some (None, s)
        else let len = unat (loc_offset b - loc_offset a) in
          (case alloc_chars (len + 1) s of
             (None, s') \<Rightarrow> Some (None, s')
           | (Some mem, s') \<Rightarrow> do {
               m1 \<leftarrow> mem_copy mem 0 (sf_contents f) (unat (loc_offset a)) len;
               m2 \<leftarrow> mem_write m1 len 0;
               Some (Some m2, s')
             })
      })"

text \<open>A line's pointer is its offset in the contents.\<close>

definition ak_source_get_line :: "sl_world \<Rightarrow> nat \<Rightarrow> u32 \<Rightarrow> nat option option" where
  "ak_source_get_line w fp line =
     (if fp = 0 then Some None
      else do {
        f \<leftarrow> sl_files w fp;
        if line = 0 \<or> line > sf_line_count f then Some None
        else do {
          start \<leftarrow> mem_read (sf_line_starts f) (unat (line - 1));
          Some (Some (unat start))
        }
      })"

text \<open>\<open>if (end > low && contents[end - 1] == c) end--\<close>, twice: the line feed, then the return.\<close>

definition strip_terminator :: "u8 list \<Rightarrow> u32 \<Rightarrow> u32 \<Rightarrow> u32 option" where
  "strip_terminator bs low stop =
     (if stop > low
      then do {
        c \<leftarrow> mem_read bs (unat (stop - 1));
        if c = NL
        then if stop - 1 > low
          then do {
            d \<leftarrow> mem_read bs (unat (stop - 1 - 1));
            Some (if d = CR then stop - 1 - 1 else stop - 1)
          }
          else Some (stop - 1)
        else Some stop
      }
      else Some stop)"

definition ak_source_get_line_len :: "sl_world \<Rightarrow> nat \<Rightarrow> u32 \<Rightarrow> nat option" where
  "ak_source_get_line_len w fp line =
     (if fp = 0 then Some 0
      else do {
        f \<leftarrow> sl_files w fp;
        if line = 0 \<or> line > sf_line_count f then Some 0
        else do {
          let line_idx = line - 1;
          line_start \<leftarrow> mem_read (sf_line_starts f) (unat line_idx);
          line_end \<leftarrow>
            (if line_idx + 1 < sf_line_count f
             then do {
               e \<leftarrow> mem_read (sf_line_starts f) (unat (line_idx + 1));
               strip_terminator (sf_contents f) 0 e
             }
             else strip_terminator (sf_contents f) line_start (word_of_nat (sf_length f)));
          Some (if line_end > line_start then unat (line_end - line_start) else 0)
        }
      })"

text \<open>The conversion \<open>%u\<close>, and \<open>snprintf\<close> into a buffer of \<open>size\<close> bytes.\<close>

fun decimal :: "nat \<Rightarrow> u8 list" where
  "decimal n = (if n < 10 then [word_of_nat (48 + n)] else decimal (n div 10) @ [word_of_nat (48 + n mod 10)])"

declare decimal.simps [simp del]

definition snprintf :: "u8 list \<Rightarrow> nat \<Rightarrow> u8 list \<Rightarrow> (int \<times> u8 list) option" where
  "snprintf buf sz str = do {
     let out = take (sz - 1) str @ [0];
     buf' \<leftarrow> mem_copy buf 0 out 0 (length out);
     Some (int (length str), buf')
   }"

abbreviation COLON :: u8 where "COLON \<equiv> 58"
abbreviation DASH :: u8 where "DASH \<equiv> 45"

definition name_bytes :: "sl_world \<Rightarrow> nat \<Rightarrow> u8 list option" where
  "name_bytes w fp = do {
     f \<leftarrow> sl_files w fp;
     bs \<leftarrow> it_mem (sl_names w) (sf_filename f);
     Some (c_string bs)
   }"

definition ak_source_loc_format ::
  "sl_world \<Rightarrow> ak_source_loc \<Rightarrow> u8 list option \<Rightarrow> nat \<Rightarrow> (int \<times> u8 list option) option" where
  "ak_source_loc_format w loc buf sz =
     (case buf of None \<Rightarrow> Some (0, None)
      | Some b \<Rightarrow>
         if loc_file loc = 0 \<or> sz = 0 then Some (0, Some b)
         else do {
           name \<leftarrow> name_bytes w (loc_file loc);
           (r, b') \<leftarrow> snprintf b sz (name @ COLON # decimal (unat (loc_line loc))
                        @ COLON # decimal (unat (loc_column loc)));
           Some (r, Some b')
         })"

definition ak_source_range_format ::
  "sl_world \<Rightarrow> ak_source_range \<Rightarrow> u8 list option \<Rightarrow> nat \<Rightarrow> (int \<times> u8 list option) option" where
  "ak_source_range_format w rng buf sz =
     (let a = range_start rng; b = range_end rng in
      case buf of None \<Rightarrow> Some (0, None)
      | Some mem \<Rightarrow>
         if loc_file a = 0 \<or> sz = 0 then Some (0, Some mem)
         else do {
           name \<leftarrow> name_bytes w (loc_file a);
           (r, mem') \<leftarrow> snprintf mem sz
             (name @ COLON # decimal (unat (loc_line a)) @ COLON # decimal (unat (loc_column a))
              @ DASH # (if loc_line a = loc_line b then decimal (unat (loc_column b))
                        else decimal (unat (loc_line b)) @ COLON # decimal (unat (loc_column b))));
           Some (r, Some mem')
         })"

definition ak_sourceloc_stats :: "sl_world \<Rightarrow> nat \<times> nat" where
  "ak_sourceloc_stats w =
     (if \<not> ss_initialized (sl_system w) then (0, 0)
      else (ss_file_count (sl_system w), ss_total_bytes (sl_system w)))"

declare line_search.simps [code]
section \<open>Lines\<close>

text \<open>
  The lines of a text with their terminators; a newline that ends the text opens no line.
\<close>

fun split_lines :: "u8 list \<Rightarrow> u8 list list" where
  "split_lines [] = [[]]"
| "split_lines (b # bs) =
     (if b = NL \<and> bs \<noteq> [] then [b] # split_lines bs
      else (case split_lines bs of [] \<Rightarrow> [[b]] | l # ls \<Rightarrow> (b # l) # ls))"

text \<open>The offset of line \<open>k\<close>, and a line without its terminator.\<close>

definition line_begin :: "u8 list \<Rightarrow> nat \<Rightarrow> nat" where
  "line_begin bs k = length (concat (take k (split_lines bs)))"

definition chomp :: "u8 list \<Rightarrow> u8 list" where
  "chomp l =
     (if l \<noteq> [] \<and> last l = NL
      then let l' = butlast l in if l' \<noteq> [] \<and> last l' = CR then butlast l' else l'
      else l)"

definition source_file_ok :: "ak_source_file \<Rightarrow> u8 list \<Rightarrow> bool" where
  "source_file_ok f bs \<longleftrightarrow> sf_contents f = bs @ [0] \<and> sf_length f = length bs \<and> length bs < 2 ^ 32
     \<and> sf_line_starts f = map (\<lambda>k. word_of_nat (line_begin bs k)) [0..<length (split_lines bs)]
     \<and> sf_line_count f = word_of_nat (length (split_lines bs))"

lemma split_lines_nonempty [simp]: "split_lines bs \<noteq> []"
  by (cases bs) (auto split: list.splits)

lemma split_lines_Cons:
  "split_lines (b # bs) =
     (if b = NL \<and> bs \<noteq> [] then [b] # split_lines bs
      else (b # hd (split_lines bs)) # tl (split_lines bs))"
  using split_lines_nonempty [of bs] by (auto split: list.splits simp del: split_lines_nonempty)

lemma concat_split_lines: "concat (split_lines bs) = bs"
proof (induction bs)
  case (Cons b bs)
  then show ?case
    unfolding split_lines_Cons using split_lines_nonempty [of bs]
    by (cases "split_lines bs") (auto simp del: split_lines_nonempty)
qed simp

lemma length_split_lines: "length (split_lines bs) \<le> max 1 (length bs)"
proof (induction bs)
  case (Cons b bs)
  obtain l ls where "split_lines bs = l # ls" by (cases "split_lines bs") auto
  then show ?case using Cons.IH by (cases bs) (auto simp: split_lines_Cons)
qed simp

text \<open>Every line but the last has its newline at the end and nowhere else.\<close>

lemma split_lines_terminated:
  "Suc k < length (split_lines bs) \<Longrightarrow> \<exists>l. split_lines bs ! k = l @ [NL] \<and> NL \<notin> set l"
proof (induction bs arbitrary: k)
  case (Cons b bs)
  show ?case
  proof (cases "b = NL \<and> bs \<noteq> []")
    case True
    then show ?thesis using Cons by (cases k) (auto simp: split_lines_Cons)
  next
    case False
    obtain l ls where ls: "split_lines bs = l # ls" by (cases "split_lines bs") auto
    have "bs \<noteq> []" using Cons.prems False ls by auto
    then have b: "b \<noteq> NL" using False by simp
    have "\<exists>m. (l # ls) ! k = m @ [NL] \<and> NL \<notin> set m"
      using Cons.IH [of k] Cons.prems False ls by (auto simp: split_lines_Cons)
    then show ?thesis using b ls by (cases k) (auto simp: split_lines_Cons)
  qed
qed simp

lemma split_lines_inner_nonempty: "Suc k < length (split_lines bs) \<Longrightarrow> split_lines bs ! k \<noteq> []"
  using split_lines_terminated [of k bs] by auto

lemma line_begin_Suc:
  "k < length (split_lines bs) \<Longrightarrow> line_begin bs (Suc k) = line_begin bs k + length (split_lines bs ! k)"
  by (simp add: line_begin_def take_Suc_conv_app_nth)

lemma line_begin_0 [simp]: "line_begin bs 0 = 0"
  by (simp add: line_begin_def)

lemma line_begin_total: "line_begin bs (length (split_lines bs)) = length bs"
  by (simp add: line_begin_def concat_split_lines)

lemma line_begin_mono: "i \<le> j \<Longrightarrow> j \<le> length (split_lines bs) \<Longrightarrow> line_begin bs i \<le> line_begin bs j"
proof (induction j)
  case (Suc j)
  then show ?case using line_begin_Suc [of j bs] by (cases "i = Suc j") auto
qed simp

lemma line_begin_strict:
  assumes "i < j" and "j < length (split_lines bs)"
  shows "line_begin bs i < line_begin bs j"
proof -
  have "line_begin bs i < line_begin bs (Suc i)"
    using assms line_begin_Suc [of i bs] split_lines_inner_nonempty [of i bs] by simp
  also have "\<dots> \<le> line_begin bs j" using assms by (intro line_begin_mono) auto
  finally show ?thesis .
qed

lemma line_begin_le: "k \<le> length (split_lines bs) \<Longrightarrow> line_begin bs k \<le> length bs"
  using line_begin_mono [of k "length (split_lines bs)" bs] line_begin_total [of bs] by simp

text \<open>The bytes from a line's offset on.\<close>

lemma drop_line_begin:
  assumes "k < length (split_lines bs)"
  shows "drop (line_begin bs k) bs = split_lines bs ! k @ concat (drop (Suc k) (split_lines bs))"
proof -
  have "bs = concat (take k (split_lines bs)) @ split_lines bs ! k @ concat (drop (Suc k) (split_lines bs))"
    using assms concat_split_lines [of bs] id_take_nth_drop [OF assms] concat_append
    by (metis concat.simps(2))
  then have "drop (line_begin bs k) bs = drop (line_begin bs k) (concat (take k (split_lines bs))
      @ split_lines bs ! k @ concat (drop (Suc k) (split_lines bs)))"
    by (rule arg_cong)
  then show ?thesis by (simp add: line_begin_def)
qed

section \<open>The line table\<close>

text \<open>The offsets the two passes find in the text \<open>bs\<close> that starts at offset \<open>i\<close>.\<close>

fun begins_from :: "nat \<Rightarrow> u8 list \<Rightarrow> nat list" where
  "begins_from i [] = []"
| "begins_from i (b # bs) = (if b = NL \<and> bs \<noteq> [] then [Suc i] else []) @ begins_from (Suc i) bs"

fun starts_of :: "nat \<Rightarrow> u8 list list \<Rightarrow> nat list" where
  "starts_of i [] = []"
| "starts_of i (l # ls) = i # starts_of (i + length l) ls"

lemma begins_from_lines: "i # begins_from i bs = starts_of i (split_lines bs)"
proof (induction bs arbitrary: i)
  case (Cons b bs)
  obtain l ls where ls: "split_lines bs = l # ls" by (cases "split_lines bs") auto
  show ?case using Cons.IH [of "Suc i"] ls by (auto simp: split_lines_Cons)
qed simp

lemma starts_of_eq: "starts_of i ls = map (\<lambda>k. i + length (concat (take k ls))) [0..<length ls]"
proof (induction ls arbitrary: i)
  case (Cons l ls)
  have "map (\<lambda>k. i + length (concat (take k (l # ls)))) [0..<length (l # ls)]
      = i # map (\<lambda>k. i + length (concat (take (Suc k) (l # ls)))) [0..<length ls]"
    using map_upt_Suc [of "\<lambda>k. i + length (concat (take k (l # ls)))" "length ls"] by simp
  then show ?case using Cons.IH [of "i + length l"] by (simp add: add.assoc)
qed simp

lemma line_begins_eq: "0 # begins_from 0 bs = map (line_begin bs) [0..<length (split_lines bs)]"
  using begins_from_lines [of 0 bs] starts_of_eq [of 0 "split_lines bs"] by (simp add: line_begin_def)

lemma length_begins: "Suc (length (begins_from 0 bs)) = length (split_lines bs)"
  using arg_cong [OF line_begins_eq, of length bs] by simp

lemma count_lines_eq:
  "len = i + n \<Longrightarrow> len \<le> length bs \<Longrightarrow>
   count_lines bs len i n c = Some (c + word_of_nat (length (begins_from i (take n (drop i bs)))))"
proof (induction n arbitrary: i c)
  case (Suc n)
  then have i: "i < length bs" by simp
  have split: "take (Suc n) (drop i bs) = bs ! i # take n (drop (Suc i) bs)"
    using i by (simp add: Cons_nth_drop_Suc [symmetric])
  have ne: "take n (drop (Suc i) bs) \<noteq> [] \<longleftrightarrow> i + 1 < len" using Suc.prems by auto
  show ?case
    using Suc.IH [of "Suc i" "if bs ! i = NL \<and> i + 1 < len then c + 1 else c"] Suc.prems i ne
    unfolding split by (simp add: mem_simps algebra_simps)
qed simp

lemma store_lines_eq:
  "len = i + n \<Longrightarrow> len \<le> length bs \<Longrightarrow> ys = begins_from i (take n (drop i bs)) \<Longrightarrow>
   length ss = unat idx + length ys \<Longrightarrow> length ss < 2 ^ 32 \<Longrightarrow>
   store_lines bs len i n idx ss = Some (take (unat idx) ss @ map word_of_nat ys)"
proof (induction n arbitrary: i idx ss ys)
  case (Suc n)
  then have i: "i < length bs" by simp
  have split: "take (Suc n) (drop i bs) = bs ! i # take n (drop (Suc i) bs)"
    using i by (simp add: Cons_nth_drop_Suc [symmetric])
  define zs where "zs = begins_from (Suc i) (take n (drop (Suc i) bs))"
  have ne: "take n (drop (Suc i) bs) \<noteq> [] \<longleftrightarrow> i + 1 < len" using Suc.prems by auto
  have ys: "ys = (if bs ! i = NL \<and> i + 1 < len then [Suc i] else []) @ zs"
    using Suc.prems(3) ne unfolding split zs_def by simp
  show ?case
  proof (cases "bs ! i = NL \<and> i + 1 < len")
    case True
    then have len: "length ss = Suc (unat idx) + length zs" using Suc.prems(4) ys by simp
    have idx: "unat (idx + 1) = Suc (unat idx)"
      using len Suc.prems(5) by (simp add: unat_word_ariths)
    have "store_lines bs len (Suc i) n (idx + 1) (ss[unat idx := word_of_nat (i + 1)])
        = Some (take (unat (idx + 1)) (ss[unat idx := word_of_nat (i + 1)]) @ map word_of_nat zs)"
      using Suc.prems len idx by (intro Suc.IH) (auto simp: zs_def)
    moreover have "take (Suc (unat idx)) (ss[unat idx := word_of_nat (i + 1)])
        = take (unat idx) ss @ [word_of_nat (i + 1)]"
      using len by (simp add: take_Suc_conv_app_nth)
    ultimately show ?thesis using True i len idx ys by (simp add: mem_simps)
  next
    case False
    then have z: "ys = zs" using ys by auto
    have "store_lines bs len (Suc i) n idx ss = Some (take (unat idx) ss @ map word_of_nat zs)"
      using Suc.prems z by (intro Suc.IH) (auto simp: zs_def)
    then show ?thesis using False i z by (auto simp: mem_simps)
  qed
qed auto
lemma compute_line_starts_ok:
  assumes "sf_contents f = bs @ [0]" and "sf_length f = length bs" and "length bs < 2 ^ 32"
  shows "compute_line_starts f s =
    (case sys_alloc s of
       (None, s') \<Rightarrow> Some (None, s')
     | (Some g, s') \<Rightarrow>
         Some (Some (f\<lparr>sf_line_starts := map (\<lambda>k. word_of_nat (line_begin bs k)) [0..<length (split_lines bs)],
                       sf_line_count := word_of_nat (length (split_lines bs))\<rparr>), s'))"
proof -
  let ?n = "length (split_lines bs)"
  have n: "?n < 2 ^ 32" using length_split_lines [of bs] assms(3) by simp
  have "count_lines (bs @ [0]) (length bs) 0 (length bs) 1
      = Some (1 + word_of_nat (length (begins_from 0 bs)))"
    using count_lines_eq [of "length bs" 0 "length bs" "bs @ [0]" 1] by simp
  also have "1 + word_of_nat (length (begins_from 0 bs)) = (word_of_nat ?n :: u32)"
    by (simp only: length_begins [symmetric] of_nat_Suc)
  finally have count: "count_lines (bs @ [0]) (length bs) 0 (length bs) 1 = Some (word_of_nat ?n)" .
  have un: "unat (word_of_nat ?n :: u32) = ?n"
    using n by (simp add: unsigned_of_nat take_bit_nat_eq_self)
  have store: "store_lines (bs @ [0]) (length bs) 0 (length bs) 1 ((map a [0..<?n])[0 := 0])
      = Some (map (\<lambda>k. word_of_nat (line_begin bs k)) [0..<?n])" for a
  proof -
    have "store_lines (bs @ [0]) (length bs) 0 (length bs) 1 ((map a [0..<?n])[0 := 0])
        = Some (take (unat (1::u32)) ((map a [0..<?n])[0 := 0]) @ map word_of_nat (begins_from 0 bs))"
      using n length_begins [of bs] by (intro store_lines_eq) auto
    also have "take (unat (1::u32)) ((map a [0..<?n])[0 := 0]) = [0]"
      using length_begins [of bs] by (cases ?n) (simp_all add: upt_conv_Cons del: upt_Suc)
    also have "[0] @ map word_of_nat (begins_from 0 bs) = map word_of_nat (0 # begins_from 0 bs)"
      by simp
    finally show ?thesis by (simp only: line_begins_eq list.map_comp comp_def)
  qed
  have "0 < ?n" by simp
  then show ?thesis
    using assms(1,2) count un store
    by (auto simp: compute_line_starts_def mem_simps split: option.splits prod.splits)
qed

section \<open>The binary search\<close>

lemma unat_mid:
  fixes l r :: u32
  assumes "l \<le> r"
  shows "unat (l + (r - l) div 2) = unat l + (unat r - unat l) div 2"
proof -
  have lr: "unat l \<le> unat r" using assms by (simp add: word_le_nat_alt)
  have "unat ((r - l) div 2) = (unat r - unat l) div 2"
    using assms by (simp add: unat_div_distrib unat_sub)
  moreover have "unat l + (unat r - unat l) div 2 < 2 ^ 32"
    using lr unsigned_less [of r, where ?'a = nat] by simp
  ultimately show ?thesis by (simp add: unat_word_ariths)
qed

text \<open>
  Below \<open>left\<close> every start is at most the offset, above \<open>right\<close> every start is larger, and
  \<open>line_idx\<close> is the start before \<open>left\<close>.
\<close>

lemma line_search_correct:
  assumes "sorted (map unat starts)" and "starts \<noteq> []" and "length starts \<le> 2 ^ 32"
    and "unat (starts ! 0) \<le> unat offset"
    and "unat left \<le> unat right" and "unat right < length starts"
    and "\<forall>j < unat left. unat (starts ! j) \<le> unat offset"
    and "\<forall>j < length starts. unat right < j \<longrightarrow> unat offset < unat (starts ! j)"
    and "unat line_idx = unat left - 1"
  shows "\<exists>k. line_search starts offset left right line_idx = Some k \<and> unat k < length starts
    \<and> unat (starts ! unat k) \<le> unat offset
    \<and> (\<forall>j < length starts. unat k < j \<longrightarrow> unat offset < unat (starts ! j))"
  using assms(5-9)
proof (induction "unat right - unat left" arbitrary: left right line_idx rule: less_induct)
  case less
  define mid where "mid = left + (right - left) div 2"
  have le: "left \<le> right" using less.prems(1) by (simp add: word_le_nat_alt)
  have mid: "unat mid = unat left + (unat right - unat left) div 2"
    unfolding mid_def by (rule unat_mid [OF le])
  have m: "unat left \<le> unat mid" "unat mid \<le> unat right" using mid less.prems(1) by auto
  have sorted: "unat (starts ! i) \<le> unat (starts ! j)" if "i \<le> j" "j < length starts" for i j
    using sorted_nth_mono [OF assms(1), of i j] that by simp
  have step: "line_search starts offset left right line_idx =
      (if starts ! unat mid \<le> offset
       then (if mid = right then Some mid else line_search starts offset (mid + 1) right mid)
       else (if mid = 0 then Some line_idx else line_search starts offset left (mid - 1) line_idx))"
    using le m less.prems(2) by (subst line_search.simps) (simp add: mem_simps mid_def [symmetric] Let_def)
  show ?case
  proof (cases "starts ! unat mid \<le> offset")
    case True
    then have low: "\<forall>j \<le> unat mid. unat (starts ! j) \<le> unat offset"
      using sorted [of _ "unat mid"] m less.prems(2)
      by (meson le_less_trans le_trans word_le_nat_alt)
    show ?thesis
    proof (cases "mid = right")
      case True
      then show ?thesis using \<open>starts ! unat mid \<le> offset\<close> step low less.prems(2,4) by auto
    next
      case False
      then have "unat mid < unat right" using m by (simp add: word_unat_eq_iff)
      then have s: "unat (mid + 1) = Suc (unat mid)"
        using unsigned_less [of right, where ?'a = nat] by (simp add: unat_word_ariths)
      have "\<exists>k. line_search starts offset (mid + 1) right mid = Some k \<and> unat k < length starts
        \<and> unat (starts ! unat k) \<le> unat offset
        \<and> (\<forall>j < length starts. unat k < j \<longrightarrow> unat offset < unat (starts ! j))"
        using \<open>unat mid < unat right\<close> s m low less.prems(2,4) by (intro less.hyps) auto
      then show ?thesis using step True False by simp
    qed
  next
    case False
    then have big: "unat offset < unat (starts ! unat mid)"
      by (simp add: word_le_nat_alt)
    have pos: "unat mid \<noteq> 0"
    proof
      assume "unat mid = 0"
      then show False using big assms(4) by simp
    qed
    then have ne: "mid \<noteq> 0" by auto
    have s: "unat (mid - 1) = unat mid - 1"
      using pos by (simp add: unat_minus_one [OF ne])
    have high: "\<forall>j < length starts. unat (mid - 1) < j \<longrightarrow> unat offset < unat (starts ! j)"
    proof (intro allI impI)
      fix j
      assume j: "j < length starts" and "unat (mid - 1) < j"
      then have "unat mid \<le> j" using s pos by linarith
      then show "unat offset < unat (starts ! j)"
        using big sorted [of "unat mid" j] j by linarith
    qed
    show ?thesis
    proof (cases "unat left \<le> unat (mid - 1)")
      case le': True
      have "\<exists>k. line_search starts offset left (mid - 1) line_idx = Some k \<and> unat k < length starts
        \<and> unat (starts ! unat k) \<le> unat offset
        \<and> (\<forall>j < length starts. unat k < j \<longrightarrow> unat offset < unat (starts ! j))"
        using le' s m pos high less.prems by (intro less.hyps) auto
      then show ?thesis using step False ne by simp
    next
      case gt: False
      then have l: "unat left = unat mid" using s m pos by simp
      have "\<not> left \<le> mid - 1" using gt by (simp add: word_le_nat_alt)
      then have "line_search starts offset left (mid - 1) line_idx = Some line_idx"
        by (subst line_search.simps) simp
      moreover have "unat line_idx = unat mid - 1" using less.prems(5) l by simp
      moreover have "unat mid - 1 < unat left" using l pos by simp
      ultimately show ?thesis
        using step False ne s high m less.prems(2,3) by auto
    qed
  qed
qed
section \<open>Columns\<close>

lemma char_step_bounds: "1 \<le> char_step c" "char_step c \<le> 4"
  by (simp_all add: char_step_def)

text \<open>The count is defined and at most the number of bytes, whatever the bytes are.\<close>

lemma utf8_strlen_loop_total:
  "e \<le> length bs \<Longrightarrow> \<exists>n. utf8_strlen_loop bs s e cnt = Some n \<and> n \<le> cnt + (e - s)"
proof (induction bs s e cnt rule: utf8_strlen_loop.induct)
  case (1 bs s e cnt)
  show ?case
  proof (cases "s < e \<and> bs ! s \<noteq> 0")
    case True
    then have r: "mem_read bs s = Some (bs ! s)" using 1 by (simp add: mem_simps)
    obtain n where n: "utf8_strlen_loop bs (s + char_step (bs ! s)) e (cnt + 1) = Some n"
        "n \<le> cnt + 1 + (e - (s + char_step (bs ! s)))"
      using 1(1) [OF _ r] 1(2) True by auto
    have "n \<le> cnt + (e - s)" using n(2) True char_step_bounds(1) [of "bs ! s"] by linarith
    then show ?thesis using n(1) True r by (subst utf8_strlen_loop.simps) simp
  next
    case False
    then show ?thesis using 1(2) by (subst utf8_strlen_loop.simps) (auto simp: mem_simps)
  qed
qed

lemma encode_head:
  assumes "is_scalar cp"
  shows "char_step (hd (utf8_encode cp)) = length (utf8_encode cp)"
    and "hd (utf8_encode cp) = 0 \<longleftrightarrow> cp = 0"
proof -
  define n where "n = unat cp"
  have "n \<le> 0x10FFFF" using assms by (simp add: is_scalar_def n_def)
  then have b: "n div 262144 \<le> 4" "n < 65536 \<longrightarrow> n div 4096 < 16" "n < 2048 \<longrightarrow> n div 64 < 32" by auto
  have w: "unat (word_of_nat k :: u8) = k" if "k < 256" for k using that by (rule unat_byte_of_nat)
  show "char_step (hd (utf8_encode cp)) = length (utf8_encode cp)"
    using b by (auto simp: utf8_encode_def n_def [symmetric] char_step_def byte_class w
        simp del: of_nat_add)
  have "cp = 0 \<longleftrightarrow> n = 0" by (simp add: n_def unat_eq_zero)
  then show "hd (utf8_encode cp) = 0 \<longleftrightarrow> cp = 0"
    using b by (auto simp: utf8_encode_def n_def [symmetric] word_unat_eq_iff w simp del: of_nat_add)
qed

lemma utf8_strlen_loop_text:
  "list_all is_scalar cps \<Longrightarrow> 0 \<notin> set cps \<Longrightarrow>
   utf8_strlen_loop (pre @ utf8_text cps @ rest) (length pre)
     (length pre + length (utf8_text cps)) cnt = Some (cnt + length cps)"
proof (induction cps arbitrary: pre cnt)
  case Nil
  then show ?case by (subst utf8_strlen_loop.simps) simp
next
  case (Cons cp cps)
  let ?bs = "pre @ utf8_text (cp # cps) @ rest"
  have cp: "is_scalar cp" "cp \<noteq> 0" using Cons.prems by auto
  have at: "?bs ! length pre = hd (utf8_encode cp)"
    by (simp add: nth_append hd_conv_nth)
  have "utf8_strlen_loop ?bs (length pre) (length pre + length (utf8_text (cp # cps))) cnt
      = utf8_strlen_loop ?bs (length pre + length (utf8_encode cp))
          (length pre + length (utf8_text (cp # cps))) (cnt + 1)"
    using encode_head [OF cp(1)] cp(2) at by (subst utf8_strlen_loop.simps) (simp add: mem_simps)
  also have "\<dots> = Some (cnt + 1 + length cps)"
    using Cons.IH [of "pre @ utf8_encode cp" "cnt + 1"] Cons.prems by (simp add: add.assoc)
  finally show ?case by simp
qed

section \<open>Locations\<close>

lemma source_file_ok_starts:
  assumes ok: "source_file_ok f bs"
  shows "length (sf_line_starts f) = length (split_lines bs)"
    and "k < length (split_lines bs) \<Longrightarrow> unat (sf_line_starts f ! k) = line_begin bs k"
    and "unat (sf_line_count f) = length (split_lines bs)"
proof -
  have b: "length bs < 2 ^ 32" using ok by (simp add: source_file_ok_def)
  show "length (sf_line_starts f) = length (split_lines bs)"
    using ok by (simp add: source_file_ok_def)
  show "unat (sf_line_starts f ! k) = line_begin bs k" if "k < length (split_lines bs)"
    using ok b that line_begin_le [of k bs]
    by (simp add: source_file_ok_def unsigned_of_nat take_bit_nat_eq_self)
  have "length (split_lines bs) < 2 ^ 32" using length_split_lines [of bs] b by simp
  then show "unat (sf_line_count f) = length (split_lines bs)"
    using ok by (simp add: source_file_ok_def unsigned_of_nat take_bit_nat_eq_self)
qed

lemma line_search_file:
  assumes ok: "source_file_ok f bs"
  obtains k where "k < length (split_lines bs)"
    "line_search (sf_line_starts f) offset 0 (sf_line_count f - 1) 0 = Some (word_of_nat k)"
    "line_begin bs k \<le> unat offset"
    "\<forall>j. k < j \<and> j < length (split_lines bs) \<longrightarrow> unat offset < line_begin bs j"
proof -
  let ?n = "length (split_lines bs)"
  note st = source_file_ok_starts [OF ok]
  have n: "0 < ?n" by simp
  then have cnt: "sf_line_count f \<noteq> 0" using st(3) by auto
  have r: "unat (sf_line_count f - 1) = ?n - 1"
    using unat_minus_one [OF cnt] st(3) by simp
  have srt: "sorted (map unat (sf_line_starts f))"
    using st line_begin_mono [of _ _ bs] by (auto simp: sorted_iff_nth_mono)
  have "\<exists>k. line_search (sf_line_starts f) offset 0 (sf_line_count f - 1) 0 = Some k
    \<and> unat k < length (sf_line_starts f) \<and> unat (sf_line_starts f ! unat k) \<le> unat offset
    \<and> (\<forall>j < length (sf_line_starts f). unat k < j \<longrightarrow> unat offset < unat (sf_line_starts f ! j))"
  proof (rule line_search_correct [OF srt])
    show "sf_line_starts f \<noteq> []" using st(1) n by auto
    show "length (sf_line_starts f) \<le> 2 ^ 32"
      using st(1,3) unsigned_less [of "sf_line_count f", where ?'a = nat] by simp
    show "unat (sf_line_starts f ! 0) \<le> unat offset" using st(2) [OF n] by simp
    show "unat (sf_line_count f - 1) < length (sf_line_starts f)" using r st(1) n by linarith
    show "\<forall>j < length (sf_line_starts f). unat (sf_line_count f - 1) < j \<longrightarrow>
        unat offset < unat (sf_line_starts f ! j)"
      using r st(1) by auto
  qed simp_all
  then obtain k where k: "line_search (sf_line_starts f) offset 0 (sf_line_count f - 1) 0 = Some k"
    "unat k < ?n" "line_begin bs (unat k) \<le> unat offset"
    "\<forall>j < ?n. unat k < j \<longrightarrow> unat offset < line_begin bs j"
    using st by auto
  show thesis by (rule that [of "unat k"]) (use k in auto)
qed

text \<open>
  An offset of the file is in exactly one line: after \<open>x\<close> and before \<open>y\<close> there, with \<open>y\<close>
  empty only at the end of the file.
\<close>

definition in_line :: "u8 list \<Rightarrow> nat \<Rightarrow> nat \<Rightarrow> u8 list \<Rightarrow> u8 list \<Rightarrow> bool" where
  "in_line bs offset k x y \<longleftrightarrow> k < length (split_lines bs) \<and> split_lines bs ! k = x @ y
     \<and> offset = line_begin bs k + length x \<and> (y = [] \<longrightarrow> Suc k = length (split_lines bs))"

lemma in_line_exists:
  assumes "k < length (split_lines bs)" and "line_begin bs k \<le> offset" and "offset \<le> length bs"
    and "\<forall>j. k < j \<and> j < length (split_lines bs) \<longrightarrow> offset < line_begin bs j"
  shows "in_line bs offset k (take (offset - line_begin bs k) (split_lines bs ! k))
           (drop (offset - line_begin bs k) (split_lines bs ! k))"
proof -
  let ?l = "split_lines bs ! k"
  have next_line: "line_begin bs (Suc k) = line_begin bs k + length ?l" by (rule line_begin_Suc [OF assms(1)])
  have le: "offset - line_begin bs k \<le> length ?l
      \<and> (Suc k < length (split_lines bs) \<longrightarrow> offset - line_begin bs k < length ?l)"
  proof (cases "Suc k < length (split_lines bs)")
    case True
    then have "offset < line_begin bs (Suc k)" using assms(4) by simp
    then show ?thesis using next_line assms(2) by linarith
  next
    case False
    then have "Suc k = length (split_lines bs)" using assms(1) by simp
    then have "line_begin bs (Suc k) = length bs" using line_begin_total [of bs] by simp
    then show ?thesis using next_line assms(2,3) False by linarith
  qed
  then show ?thesis using assms(1,2) by (auto simp: in_line_def)
qed

lemma in_line_unique:
  assumes "in_line bs offset k x y" and "in_line bs offset k' x' y'"
  shows "k = k' \<and> x = x' \<and> y = y'"
proof -
  have no: "\<not> a < b" if a: "in_line bs offset a xa ya" and b: "in_line bs offset b xb yb" for a b xa ya xb yb
  proof
    assume "a < b"
    have "ya \<noteq> []" using a b \<open>a < b\<close> by (auto simp: in_line_def)
    then have "offset < line_begin bs (Suc a)" using a line_begin_Suc [of a bs] by (auto simp: in_line_def)
    also have "\<dots> \<le> line_begin bs b" using \<open>a < b\<close> b by (intro line_begin_mono) (auto simp: in_line_def)
    also have "\<dots> \<le> offset" using b by (simp add: in_line_def)
    finally show False by simp
  qed
  have "k = k'" using no [OF assms] no [OF assms(2,1)] by simp
  then show ?thesis using assms by (auto simp: in_line_def)
qed

lemma loc_from_offset:
  assumes fp: "fp \<noteq> 0" "sl_files w fp = Some f" and ok: "source_file_ok f bs"
    and off: "unat offset \<le> length bs"
  obtains k x y c where "in_line bs (unat offset) k x y"
    "ak_source_loc_from_offset w fp offset =
       Some \<lparr>loc_file = fp, loc_line = word_of_nat (Suc k), loc_column = c, loc_offset = offset\<rparr>"
    "\<forall>cps. x = utf8_text cps \<and> list_all is_scalar cps \<and> 0 \<notin> set cps \<longrightarrow>
       c = word_of_nat (Suc (length cps))"
proof -
  obtain k where k: "k < length (split_lines bs)"
    "line_search (sf_line_starts f) offset 0 (sf_line_count f - 1) 0 = Some (word_of_nat k)"
    "line_begin bs k \<le> unat offset"
    "\<forall>j. k < j \<and> j < length (split_lines bs) \<longrightarrow> unat offset < line_begin bs j"
    by (rule line_search_file [OF ok])
  note st = source_file_ok_starts [OF ok]
  define d where "d = unat offset - line_begin bs k"
  define x where "x = take d (split_lines bs ! k)"
  have il: "in_line bs (unat offset) k x (drop d (split_lines bs ! k))"
    unfolding x_def d_def by (rule in_line_exists [OF k(1,3) off k(4)])
  have uk: "unat (word_of_nat k :: u32) = k"
    using k(1) st(3) unsigned_less [of "sf_line_count f", where ?'a = nat]
    by (simp add: unsigned_of_nat take_bit_nat_eq_self)
  have ls: "unat (sf_line_starts f ! k) = line_begin bs k" by (rule st(2) [OF k(1)])
  have diff: "unat (offset - sf_line_starts f ! k) = d"
    using k(3) ls by (simp add: d_def unat_sub word_le_nat_alt)
  have len: "line_begin bs k + d = unat offset" using k(3) by (simp add: d_def)
  have con: "sf_contents f = bs @ [0]" "sf_length f = length bs"
    using ok by (simp_all add: source_file_ok_def)
  obtain n where n: "utf8_strlen (sf_contents f) (line_begin bs k) d = Some n"
    using utf8_strlen_loop_total [of "line_begin bs k + d" "bs @ [0]" "line_begin bs k" 0] len off con(1)
    by (auto simp: utf8_strlen_def)
  have loc: "ak_source_loc_from_offset w fp offset = Some \<lparr>loc_file = fp,
      loc_line = word_of_nat (Suc k), loc_column = word_of_nat n + 1, loc_offset = offset\<rparr>"
    using fp con(2) off k(2) uk st(1) k(1) ls diff n
    by (simp add: ak_source_loc_from_offset_def mem_simps)
  have "n = length cps" if x: "x = utf8_text cps" "list_all is_scalar cps" "0 \<notin> set cps" for cps
  proof -
    let ?b = "line_begin bs k"
    have dl: "drop ?b bs = x @ drop d (split_lines bs ! k) @ concat (drop (Suc k) (split_lines bs))"
      using drop_line_begin [OF k(1)] by (simp add: x_def)
    have pre: "length (take ?b bs) = ?b" using line_begin_le [of k bs] k(1) by simp
    have xd: "length x = d" using il len by (auto simp: in_line_def)
    obtain rest where rest: "bs @ [0] = take ?b bs @ utf8_text cps @ rest"
      using dl append_take_drop_id [of ?b bs] x(1) by (metis append_assoc)
    have "length (utf8_text cps) = d" using xd x(1) by simp
    then have "utf8_strlen (bs @ [0]) ?b d = Some (length cps)"
      using utf8_strlen_loop_text [OF x(2,3), of "take ?b bs" rest 0]
      by (simp only: utf8_strlen_def rest pre add_0)
    then show "n = length cps" using n con(1) by simp
  qed
  then show thesis by (intro that [OF il loc]) auto
qed
section \<open>The text of a line\<close>

lemma chomp_length:
  "length (chomp l) =
     (if l \<noteq> [] \<and> l ! (length l - 1) = NL
      then if 1 < length l \<and> l ! (length l - 2) = CR then length l - 2 else length l - 1
      else length l)"
  by (auto simp: chomp_def Let_def last_conv_nth nth_butlast butlast_conv_take numeral_2_eq_2
      length_butlast simp flip: length_greater_0_conv)

lemma chomp_take: "take (length (chomp l)) l = chomp l"
  by (auto simp: chomp_def Let_def butlast_conv_take)

lemma unat_pred: "w \<noteq> 0 \<Longrightarrow> unat (w - 1) = unat w - 1" for w :: u32
  by (rule unat_minus_one)

lemma strip_terminator_eq:
  assumes "unat stop \<le> length bs" and "unat low \<le> unat stop"
  obtains r where "strip_terminator bs low stop = Some r"
    "unat r = (if unat low < unat stop \<and> bs ! (unat stop - 1) = NL
       then if unat low < unat stop - 1 \<and> bs ! (unat stop - 2) = CR then unat stop - 2 else unat stop - 1
       else unat stop)"
proof (cases "low < stop")
  case False
  then show thesis using assms that [of stop] by (simp add: strip_terminator_def word_less_nat_alt)
next
  case True
  then have lt: "unat low < unat stop" by (simp add: word_less_nat_alt)
  then have "stop \<noteq> 0" by auto
  then have p: "unat (stop - 1) = unat stop - 1" by (rule unat_pred)
  have rd: "mem_read bs (unat (stop - 1)) = Some (bs ! (unat stop - 1))"
    using assms lt p by (simp add: mem_simps)
  show thesis
  proof (cases "bs ! (unat stop - 1) = NL \<and> unat low < unat stop - 1")
    case True
    then have lt2: "low < stop - 1" using p by (simp add: word_less_nat_alt)
    then have "stop - 1 \<noteq> 0" by auto
    then have p2: "unat (stop - 1 - 1) = unat stop - 2" using unat_pred [of "stop - 1"] p by simp
    have rd2: "mem_read bs (unat (stop - 1 - 1)) = Some (bs ! (unat stop - 2))"
      unfolding p2 using assms lt by (simp add: mem_simps)
    have "strip_terminator bs low stop =
        Some (if bs ! (unat stop - 2) = CR then stop - 1 - 1 else stop - 1)"
      using \<open>low < stop\<close> True rd lt2 rd2 by (simp add: strip_terminator_def)
    then show thesis using that True lt p p2 by (simp split: if_splits)
  next
    case False
    then have "strip_terminator bs low stop =
        Some (if bs ! (unat stop - 1) = NL then stop - 1 else stop)"
      using \<open>low < stop\<close> rd p by (auto simp: strip_terminator_def word_less_nat_alt)
    then show thesis using that False lt p by (simp split: if_splits)
  qed
qed

text \<open>Bytes of a line, and the byte before it.\<close>

lemma line_byte:
  assumes "k < length (split_lines bs)" and "i < length (split_lines bs ! k)"
  shows "bs ! (line_begin bs k + i) = split_lines bs ! k ! i"
proof -
  have "bs ! (line_begin bs k + i) = drop (line_begin bs k) bs ! i"
    using line_begin_le [of k bs] assms(1) by simp
  then show ?thesis using drop_line_begin [OF assms(1)] assms(2) by (simp add: nth_append)
qed

lemma byte_before_line:
  assumes "Suc k < length (split_lines bs)"
  shows "bs ! (line_begin bs (Suc k) - 1) = NL"
proof -
  obtain l where l: "split_lines bs ! k = l @ [NL]" using split_lines_terminated [OF assms] by blast
  then have "bs ! (line_begin bs k + length l) = NL"
    using line_byte [of k bs "length l"] assms by simp
  then show ?thesis using line_begin_Suc [of k bs] assms l by simp
qed

text \<open>What the length computation finds as the end of a line: the end of its text.\<close>

lemma strip_inner_line:
  assumes k: "Suc k < length (split_lines bs)" and e: "unat e = line_begin bs (Suc k)"
  shows "\<exists>r. strip_terminator (bs @ [0]) 0 e = Some r
    \<and> unat r = line_begin bs k + length (chomp (split_lines bs ! k))"
proof -
  let ?l = "split_lines bs ! k" and ?b = "line_begin bs k"
  have k': "k < length (split_lines bs)" using k by simp
  have ue: "unat e = ?b + length ?l" using e line_begin_Suc [OF k'] by simp
  have le: "unat e \<le> length bs" using e line_begin_le [of "Suc k" bs] k by simp
  obtain m where m: "?l = m @ [NL]" using split_lines_terminated [OF k] by blast
  have last: "bs ! (unat e - 1) = NL" using byte_before_line [OF k] e by simp
  have before: "0 < unat e - 1 \<and> bs ! (unat e - 2) = CR \<longleftrightarrow> 1 < length ?l \<and> ?l ! (length ?l - 2) = CR"
  proof (cases "m = []")
    case empty: True
    have "bs ! (unat e - 2) = NL" if "0 < unat e - 1"
    proof (cases k)
      case 0
      then show ?thesis using that ue m empty by simp
    next
      case (Suc j)
      then show ?thesis using byte_before_line [of j bs] k ue m empty by (simp add: numeral_2_eq_2)
    qed
    then show ?thesis using m empty by auto
  next
    case False
    then have l: "1 < length ?l" using m by simp
    then have "bs ! (?b + (length ?l - 2)) = ?l ! (length ?l - 2)"
      by (intro line_byte [OF k']) simp
    moreover have "unat e - 2 = ?b + (length ?l - 2)" using ue l by simp
    moreover have "0 < unat e - 1" using ue l by simp
    ultimately show ?thesis using l by simp
  qed
  have pos: "0 < unat e" using ue m by simp
  have le': "unat e \<le> length (bs @ [0])" "unat (0::u32) \<le> unat e" using le by simp_all
  have nth: "(bs @ [0]) ! (unat e - 1) = bs ! (unat e - 1)" "(bs @ [0]) ! (unat e - 2) = bs ! (unat e - 2)"
  proof -
    have "unat e - 1 < length bs" "unat e - 2 < length bs" using le pos by linarith+
    then show "(bs @ [0]) ! (unat e - 1) = bs ! (unat e - 1)" "(bs @ [0]) ! (unat e - 2) = bs ! (unat e - 2)"
      by (simp_all only: nth_append if_True)
  qed
  obtain r where r: "strip_terminator (bs @ [0]) 0 e = Some r"
    "unat r = (if unat (0::u32) < unat e \<and> (bs @ [0]) ! (unat e - 1) = NL
       then if unat (0::u32) < unat e - 1 \<and> (bs @ [0]) ! (unat e - 2) = CR then unat e - 2 else unat e - 1
       else unat e)"
    by (rule strip_terminator_eq [OF le'])
  have "unat r = (if 1 < length ?l \<and> ?l ! (length ?l - 2) = CR then unat e - 2 else unat e - 1)"
    unfolding r(2) nth last using pos before by simp
  moreover have "length (chomp ?l) = (if 1 < length ?l \<and> ?l ! (length ?l - 2) = CR then length ?l - 2 else length ?l - 1)"
    unfolding chomp_length using m by simp
  ultimately have "unat r = ?b + length (chomp ?l)" using ue m by (cases m) auto
  with r(1) show ?thesis by blast
qed

lemma strip_last_line:
  assumes k: "Suc k = length (split_lines bs)" and e: "unat e = length bs"
    and b: "unat b = line_begin bs k"
  shows "\<exists>r. strip_terminator (bs @ [0]) b e = Some r
    \<and> unat r = line_begin bs k + length (chomp (split_lines bs ! k))"
proof -
  let ?l = "split_lines bs ! k" and ?b = "line_begin bs k"
  have k': "k < length (split_lines bs)" using k by simp
  have tot: "length bs = ?b + length ?l"
    using line_begin_Suc [OF k'] line_begin_total [of bs] k by simp
  have pre: "unat e \<le> length (bs @ [0])" "unat b \<le> unat e" using e b tot by simp_all
  have at: "(bs @ [0]) ! (length bs - j) = ?l ! (length ?l - j)" if "0 < j" "j \<le> length ?l" for j
  proof -
    have "bs ! (?b + (length ?l - j)) = ?l ! (length ?l - j)"
      using that by (intro line_byte [OF k']) simp
    moreover have "?b + (length ?l - j) = length bs - j" "length bs - j < length bs"
      using tot that by simp_all
    ultimately show ?thesis by (simp add: nth_append)
  qed
  obtain r where r: "strip_terminator (bs @ [0]) b e = Some r"
    "unat r = (if unat b < unat e \<and> (bs @ [0]) ! (unat e - 1) = NL
       then if unat b < unat e - 1 \<and> (bs @ [0]) ! (unat e - 2) = CR then unat e - 2 else unat e - 1
       else unat e)"
    by (rule strip_terminator_eq [OF pre])
  have c: "unat b < unat e \<longleftrightarrow> ?l \<noteq> []" "unat b < unat e - 1 \<longleftrightarrow> 1 < length ?l"
    using tot e b by auto
  have "unat r = ?b + length (chomp ?l)"
  proof (cases "?l = []")
    case True
    then show ?thesis using r(2) c(1) e tot by (simp add: chomp_length)
  next
    case False
    have p: "(bs @ [0]) ! (unat e - 1) = ?l ! (length ?l - 1)"
      using at [of 1] False e by (simp add: Suc_le_eq)
    have q: "1 < length ?l \<Longrightarrow> (bs @ [0]) ! (unat e - 2) = ?l ! (length ?l - 2)"
      using at [of 2] e by simp
    show ?thesis
    proof (cases "1 < length ?l")
      case True
      then show ?thesis unfolding r(2) c chomp_length p q [OF True] using False e tot by simp
    next
      case one: False
      then have "length ?l = 1" using False by (simp flip: length_greater_0_conv)
      then show ?thesis unfolding r(2) c chomp_length p using False e tot by simp
    qed
  qed
  with r(1) show ?thesis by blast
qed

lemma get_line_text:
  assumes fp: "fp \<noteq> 0" "sl_files w fp = Some f" and ok: "source_file_ok f bs"
    and k: "k < length (split_lines bs)"
  shows "ak_source_get_line w fp (word_of_nat (Suc k)) = Some (Some (line_begin bs k))"
    and "ak_source_get_line_len w fp (word_of_nat (Suc k)) = Some (length (chomp (split_lines bs ! k)))"
proof -
  let ?n = "length (split_lines bs)" and ?c = "length (chomp (split_lines bs ! k))"
  define v :: u32 where "v = word_of_nat (Suc k)"
  note st = source_file_ok_starts [OF ok]
  have con: "sf_contents f = bs @ [0]" "sf_length f = length bs" "length bs < 2 ^ 32"
    using ok by (simp_all add: source_file_ok_def)
  have "?n < 2 ^ 32" using st(3) unsigned_less [of "sf_line_count f", where ?'a = nat] by simp
  then have uv: "unat v = Suc k"
    using k by (simp add: v_def unsigned_of_nat take_bit_nat_eq_self del: of_nat_Suc)
  then have v0: "v \<noteq> 0" by auto
  have vk: "unat (v - 1) = k" using unat_pred [OF v0] uv by simp
  have bound: "\<not> (v = 0 \<or> v > sf_line_count f)"
    using v0 uv st(3) k by (simp add: word_less_nat_alt)
  have rd: "mem_read (sf_line_starts f) k = Some (sf_line_starts f ! k)"
    using st(1) k by (simp add: mem_simps)
  have ub: "unat (sf_line_starts f ! k) = line_begin bs k" by (rule st(2) [OF k])
  show "ak_source_get_line w fp (word_of_nat (Suc k)) = Some (Some (line_begin bs k))"
    using fp bound vk rd ub unfolding v_def [symmetric] by (simp add: ak_source_get_line_def)
  have more: "v - 1 + 1 < sf_line_count f \<longleftrightarrow> Suc k < ?n"
    using uv st(3) by (simp add: word_less_nat_alt)
  define line_end where "line_end = (if v - 1 + 1 < sf_line_count f
     then mem_read (sf_line_starts f) (unat (v - 1 + 1)) \<bind> strip_terminator (sf_contents f) 0
     else strip_terminator (sf_contents f) (sf_line_starts f ! k) (word_of_nat (sf_length f)))"
  have "\<exists>r. line_end = Some r \<and> unat r = line_begin bs k + ?c"
  proof (cases "Suc k < ?n")
    case True
    then have "line_end = strip_terminator (bs @ [0]) 0 (sf_line_starts f ! Suc k)"
      using more uv st(1) con(1) by (simp add: line_end_def mem_simps)
    then show ?thesis using strip_inner_line [OF True st(2) [OF True]] by simp
  next
    case False
    then have "line_end = strip_terminator (bs @ [0]) (sf_line_starts f ! k) (word_of_nat (length bs))"
      using more con(1,2) by (simp add: line_end_def)
    moreover have "unat (word_of_nat (length bs) :: u32) = length bs"
      using con(3) by (simp add: unsigned_of_nat take_bit_nat_eq_self)
    moreover have "Suc k = ?n" using False k by simp
    ultimately show ?thesis using strip_last_line [of k bs _ "sf_line_starts f ! k"] ub by simp
  qed
  then obtain r where r: "line_end = Some r" "unat r = line_begin bs k + ?c" by blast
  have "(if sf_line_starts f ! k < r then unat (r - sf_line_starts f ! k) else 0) = ?c"
    using r(2) ub by (auto simp: word_less_nat_alt unat_sub_if_size)
  then show "ak_source_get_line_len w fp (word_of_nat (Suc k)) = Some ?c"
    using fp bound vk rd r(1) unfolding v_def [symmetric] line_end_def
    by (simp add: ak_source_get_line_len_def)
qed
section \<open>Creating and releasing files\<close>

lemma sz_sub_mod:
  assumes "b \<le> a" and "b < SIZE_RANGE"
  shows "sz_sub (a mod SIZE_RANGE) b = (a - b) mod SIZE_RANGE"
proof -
  define q r where "q = a div SIZE_RANGE" and "r = a mod SIZE_RANGE"
  have a: "a = q * SIZE_RANGE + r" "r < SIZE_RANGE" by (simp_all add: q_def r_def)
  show ?thesis
  proof (cases "b \<le> r")
    case True
    then have "a - b = q * SIZE_RANGE + (r - b)" using a by simp
    then have "(a - b) mod SIZE_RANGE = (r - b) mod SIZE_RANGE" by (simp only: mod_mult_self3)
    also have "\<dots> = r - b" using a(2) by (intro mod_less) linarith
    finally show ?thesis using True by (simp only: sz_sub_def r_def if_True)
  next
    case False
    then have "q \<noteq> 0" using a assms(1) by (metis add_0 mult_0)
    then obtain p where p: "q = Suc p" by (cases q) auto
    have "a - b = p * SIZE_RANGE + (r + SIZE_RANGE - b)"
      using a(1) p assms(2) by simp
    then have "(a - b) mod SIZE_RANGE = (r + SIZE_RANGE - b) mod SIZE_RANGE"
      by (simp only: mod_mult_self3)
    also have "\<dots> = r + SIZE_RANGE - b" using False by (intro mod_less) simp
    finally show ?thesis using False by (simp only: sz_sub_def r_def if_False)
  qed
qed

lemma alloc_chars_length: "alloc_chars n s = (Some mem, s') \<Longrightarrow> length mem = n"
  by (auto simp: alloc_chars_def split: prod.splits)

text \<open>The global state after the creation of a file of \<open>n\<close> bytes.\<close>

definition count_file :: "nat \<Rightarrow> sourceloc_system \<Rightarrow> sourceloc_system" where
  "count_file n sys =
     (if ss_initialized sys
      then sys\<lparr>ss_file_count := sz_add (ss_file_count sys) 1, ss_total_bytes := sz_add (ss_total_bytes sys) n\<rparr>
      else sys)"

definition named :: "intern_table \<Rightarrow> u8 list \<Rightarrow> nat \<Rightarrow> bool" where
  "named t str p \<longleftrightarrow> interned t str = Some p \<and> it_mem t p = Some (str @ [0])"

lemma named_mono:
  "named t str p \<Longrightarrow> interned t \<subseteq>\<^sub>m interned t' \<Longrightarrow> \<forall>a. it_mem t a \<noteq> None \<longrightarrow> it_mem t' a = it_mem t a \<Longrightarrow>
   named t' str p"
  by (auto simp: named_def map_le_def dom_def)

text \<open>
  The allocator lets the creation succeed: the name is interned already, and the requests for
  the structure, its mutex, the contents and the line table are granted.
\<close>

definition grants_file :: "sl_world \<Rightarrow> u8 list \<Rightarrow> ptr_sched \<Rightarrow> bool" where
  "grants_file w name s \<longleftrightarrow> interned (sl_names w) (c_string name) \<noteq> None
     \<and> (\<exists>g a b c s'. s = Some g # Some a # Some b # Some c # s' \<and> g 0 \<noteq> 0 \<and> sl_files w (g 0) = None)"

text \<open>Copying \<open>len\<close> bytes into an array of \<open>len + 1\<close> and terminating them.\<close>

lemma copy_terminated:
  assumes "length mem = len + 1" and "off + len \<le> length bs"
  obtains m where "mem_copy mem 0 bs off len = Some m"
    "mem_write m len 0 = Some (take len (drop off bs) @ [0 :: u8])"
proof -
  let ?m = "take len (drop off bs) @ drop len mem"
  have l: "length (take len (drop off bs)) = len" using assms(2) by simp
  have "length (drop len mem) = Suc 0" using assms(1) by simp
  then obtain a where "drop len mem = [a]" by (auto simp only: length_Suc_conv length_0_conv)
  then have "mem_write ?m len 0 = Some (take len (drop off bs) @ [0])"
    using l by (simp add: mem_write_def list_update_append)
  moreover have "mem_copy mem 0 bs off len = Some ?m" using assms by (simp add: mem_copy_def)
  ultimately show thesis using that by blast
qed

definition new_file :: "nat \<Rightarrow> u8 list \<Rightarrow> ak_source_file" where
  "new_file np bs = \<lparr>sf_filename = np, sf_contents = bs @ [0], sf_length = length bs,
     sf_line_starts = map (\<lambda>k. word_of_nat (line_begin bs k)) [0..<length (split_lines bs)],
     sf_line_count = word_of_nat (length (split_lines bs)), sf_ref_count = 1\<rparr>"

lemma new_file_ok: "length bs < 2 ^ 32 \<Longrightarrow> source_file_ok (new_file np bs) bs"
  by (simp add: source_file_ok_def new_file_def)

lemma source_file_new_eq:
  assumes "alloc_cell (sl_files w) s = (Some fp, s1)" and "sys_alloc s1 = (Some g, s2)"
    and "ak_intern_n (sl_names w) (Some (c_string name)) s2 = Some (Some np, names, s3)"
    and ch: "alloc_chars (sz_add len 1) s3 = (Some mem, s4)"
    and len: "len \<le> length bs" "len < 2 ^ 32"
  shows "ak_source_file_new w (Some name) (Some bs) len s =
    (case sys_alloc s4 of
       (None, s5) \<Rightarrow> Some (None, w\<lparr>sl_names := names\<rparr>, s5)
     | (Some _, s5) \<Rightarrow> Some (Some fp, w\<lparr>sl_names := names, sl_files := (sl_files w)(fp \<mapsto> new_file np (take len bs)),
                            sl_system := count_file len (sl_system w)\<rparr>, s5))"
proof -
  have "length mem = len + 1" using alloc_chars_length [OF ch] len(2) by (simp add: sz_add_exact)
  then obtain m where "mem_copy mem 0 bs 0 len = Some m"
      "mem_write m len 0 = Some (take len (drop 0 bs) @ [0])"
    by (rule copy_terminated [of mem len 0 bs]) (use len in auto)
  then show ?thesis
    using assms
    by (auto simp: ak_source_file_new_def ak_intern_def compute_line_starts_ok [of _ "take len bs"]
        min_def new_file_def count_file_def Let_def split: option.splits prod.splits)
qed

lemma source_file_new_cases:
  assumes live: "live_table (sl_names w)" and len: "len \<le> length bs" "len < 2 ^ 32"
  obtains (failed) names s' where "ak_source_file_new w (Some name) (Some bs) len s = Some (None, w\<lparr>sl_names := names\<rparr>, s')"
      "live_table names" "interned (sl_names w) \<subseteq>\<^sub>m interned names"
      "\<forall>a. it_mem (sl_names w) a \<noteq> None \<longrightarrow> it_mem names a = it_mem (sl_names w) a"
      "\<not> grants_file w name s"
  | (made) fp names f s' where "ak_source_file_new w (Some name) (Some bs) len s =
        Some (Some fp, w\<lparr>sl_names := names, sl_files := (sl_files w)(fp \<mapsto> f),
                        sl_system := count_file len (sl_system w)\<rparr>, s')"
      "live_table names" "interned (sl_names w) \<subseteq>\<^sub>m interned names"
      "\<forall>a. it_mem (sl_names w) a \<noteq> None \<longrightarrow> it_mem names a = it_mem (sl_names w) a"
      "fp \<noteq> 0" "sl_files w fp = None" "source_file_ok f (take len bs)" "sf_ref_count f = 1"
      "named names (c_string name) (sf_filename f)"
proof -
  obtain c s1 where c: "alloc_cell (sl_files w) s = (c, s1)" by fastforce
  obtain m s2 where m: "sys_alloc s1 = (m, s2)" by fastforce
  have idle: "w\<lparr>sl_names := sl_names w\<rparr> = w" by simp
  have no_grant: "\<not> grants_file w name s" if "c = None \<or> m = None"
    using that c m by (auto simp: grants_file_def alloc_cell_def)
  show thesis
  proof (cases "c = None \<or> m = None")
    case True
    then have "\<exists>s'. ak_source_file_new w (Some name) (Some bs) len s = Some (None, w\<lparr>sl_names := sl_names w\<rparr>, s')"
      unfolding idle by (cases c) (auto simp: ak_source_file_new_def c m)
    then show thesis using failed [of "sl_names w"] live no_grant [OF True] map_le_refl by blast
  next
    case False
    then obtain fp g where fp: "c = Some fp" "m = Some g" by auto
    have fresh: "fp \<noteq> 0" "sl_files w fp = None" using alloc_cell_Some c fp(1) by blast+
    obtain r names s3 where i: "ak_intern_n (sl_names w) (Some (c_string name)) s2 = Some (r, names, s3)"
      "live_table names" "interned (sl_names w) \<subseteq>\<^sub>m interned names"
      "\<forall>a. it_mem (sl_names w) a \<noteq> None \<longrightarrow> it_mem names a = it_mem (sl_names w) a"
      "r = None \<longrightarrow> names = sl_names w \<and> interned (sl_names w) (c_string name) = None
         \<and> \<not> grants_cell (it_mem (sl_names w)) s2"
      "\<forall>p. r = Some p \<longrightarrow> interned names (c_string name) = Some p
         \<and> it_mem names p = Some (c_string name @ [0])"
      "interned (sl_names w) (c_string name) \<noteq> None \<longrightarrow>
         r = interned (sl_names w) (c_string name) \<and> names = sl_names w \<and> s3 = s2"
      by (rule live_intern [OF live, of "c_string name" s2])
    have grant: "\<exists>b c s'. s3 = Some b # Some c # s'" if "grants_file w name s"
      using that c m i(7) fp by (auto simp: grants_file_def alloc_cell_def)
    obtain ch s4 where ch: "alloc_chars (sz_add len 1) s3 = (ch, s4)" by fastforce
    have sz: "sz_add len 1 = len + 1" using len(2) by (simp add: sz_add_exact)
    obtain t s5 where t: "sys_alloc s4 = (t, s5)" by fastforce
    have ref: "\<not> grants_file w name s" if "r = None \<or> ch = None \<or> t = None"
    proof
      assume g: "grants_file w name s"
      obtain b c' s' where s3: "s3 = Some b # Some c' # s'" using grant [OF g] by blast
      have "r \<noteq> None" using g i(5) by (auto simp: grants_file_def)
      then show False using that ch t s3 by (auto simp: alloc_chars_def)
    qed
    let ?new = "ak_source_file_new w (Some name) (Some bs) len s"
    show thesis
    proof (cases "r = None \<or> ch = None \<or> t = None")
      case True
      have "\<exists>s'. ?new = Some (None, w\<lparr>sl_names := names\<rparr>, s')"
      proof (cases "r = None \<or> ch = None")
        case True
        then show ?thesis using c m fp i(1) ch by (cases r) (auto simp: ak_source_file_new_def ak_intern_def)
      next
        case False
        then obtain np mem where "r = Some np" "ch = Some mem" "t = None" using True by auto
        then show ?thesis
          using source_file_new_eq [of w s fp s1 g s2 name np names s3 len mem s4 bs] c m fp i(1) ch t len
          by simp
      qed
      then show thesis using failed [of names] i(2-4) ref [OF True] by blast
    next
      case False
      then obtain np mem g' where rm: "r = Some np" "ch = Some mem" "t = Some g'" by auto
      then have "?new = Some (Some fp, w\<lparr>sl_names := names,
          sl_files := (sl_files w)(fp \<mapsto> new_file np (take len bs)),
          sl_system := count_file len (sl_system w)\<rparr>, s5)"
        using source_file_new_eq [of w s fp s1 g s2 name np names s3 len mem s4 bs] c m fp i(1) ch t len
        by simp
      moreover have "source_file_ok (new_file np (take len bs)) (take len bs)"
        using len by (intro new_file_ok) simp
      moreover have "named names (c_string name) np" using i(6) rm(1) by (simp add: named_def)
      ultimately show thesis using made i(2-4) fresh by (simp add: new_file_def)
    qed
  qed
qed
section \<open>References\<close>

text \<open>
  The reachable states of a program that creates files and retains and releases the
  references it holds; \<open>R\<close> is the multiset of references held, below \<open>2 ^ 32\<close> for each file.
\<close>

definition zero_world :: "intern_table \<Rightarrow> sl_world" where
  "zero_world names = \<lparr>sl_files = Map.empty,
     sl_system = \<lparr>ss_file_count = 0, ss_total_bytes = 0, ss_initialized = False\<rparr>, sl_names = names\<rparr>"

inductive sl_reach :: "sl_world \<Rightarrow> nat multiset \<Rightarrow> bool" where
  init: "live_table names \<Longrightarrow> sl_reach (ak_sourceloc_init (zero_world names)) {#}"
| new: "sl_reach w R \<Longrightarrow> len \<le> length bs \<Longrightarrow> len < 2 ^ 32 \<Longrightarrow>
    ak_source_file_new w (Some name) (Some bs) len s = Some (r, w', s') \<Longrightarrow>
    sl_reach w' (case r of None \<Rightarrow> R | Some fp \<Rightarrow> add_mset fp R)"
| retain: "sl_reach w R \<Longrightarrow> fp \<in># R \<Longrightarrow> count R fp < 2 ^ 32 - 1 \<Longrightarrow>
    ak_source_file_retain w fp = Some (p, w') \<Longrightarrow> sl_reach w' (add_mset fp R)"
| release: "sl_reach w R \<Longrightarrow> fp \<in># R \<Longrightarrow> ak_source_file_release w fp = Some w' \<Longrightarrow>
    sl_reach w' (R - {#fp#})"

definition sl_inv :: "sl_world \<Rightarrow> nat multiset \<Rightarrow> bool" where
  "sl_inv w R \<longleftrightarrow> live_table (sl_names w) \<and> ss_initialized (sl_system w)
     \<and> dom (sl_files w) = set_mset R \<and> 0 \<notin># R
     \<and> (\<forall>fp f. sl_files w fp = Some f \<longrightarrow> unat (sf_ref_count f) = count R fp
          \<and> (\<exists>bs. source_file_ok f bs) \<and> (\<exists>str. named (sl_names w) str (sf_filename f)))
     \<and> ss_file_count (sl_system w) = card (set_mset R) mod SIZE_RANGE
     \<and> ss_total_bytes (sl_system w) = (\<Sum>fp \<in> set_mset R. sf_length (the (sl_files w fp))) mod SIZE_RANGE"

lemma sl_inv_files:
  assumes "sl_inv w R" and "fp \<in># R"
  obtains f bs where "sl_files w fp = Some f" "fp \<noteq> 0" "unat (sf_ref_count f) = count R fp"
    "source_file_ok f bs" "sf_length f < SIZE_RANGE"
proof -
  have "fp \<in> dom (sl_files w)" using assms by (simp add: sl_inv_def)
  then obtain f where f: "sl_files w fp = Some f" by blast
  then have c: "unat (sf_ref_count f) = count R fp" "\<exists>bs. source_file_ok f bs"
    using assms(1) by (simp_all add: sl_inv_def)
  then obtain bs where bs: "source_file_ok f bs" by blast
  moreover have "fp \<noteq> 0" using assms by (auto simp: sl_inv_def)
  moreover have "sf_length f < SIZE_RANGE" using bs by (simp add: source_file_ok_def)
  ultimately show thesis using that f c by blast
qed

lemma sl_inv_init: "live_table names \<Longrightarrow> sl_inv (ak_sourceloc_init (zero_world names)) {#}"
  by (simp add: sl_inv_def ak_sourceloc_init_def zero_world_def)

lemma sl_inv_names:
  assumes "sl_inv w R" and "live_table names" and "interned (sl_names w) \<subseteq>\<^sub>m interned names"
    and "\<forall>a. it_mem (sl_names w) a \<noteq> None \<longrightarrow> it_mem names a = it_mem (sl_names w) a"
  shows "sl_inv (w\<lparr>sl_names := names\<rparr>) R"
proof -
  have "\<exists>str. named names str p" if "\<exists>str. named (sl_names w) str p" for p
    using that named_mono [OF _ assms(3,4)] by blast
  then show ?thesis using assms(1,2) by (simp add: sl_inv_def)
qed

lemma sl_inv_new:
  assumes inv: "sl_inv w R" and new: "fp \<noteq> 0" "sl_files w fp = None"
    and f: "source_file_ok f bs" "sf_ref_count f = 1" "named (sl_names w) str (sf_filename f)"
  shows "sl_inv (w\<lparr>sl_files := (sl_files w)(fp \<mapsto> f), sl_system := count_file (length bs) (sl_system w)\<rparr>)
           (add_mset fp R)"
proof -
  have fresh: "fp \<notin># R" using inv new(2) by (auto simp: sl_inv_def)
  have d: "dom (sl_files w) = set_mset R" using inv by (simp add: sl_inv_def)
  have init: "ss_initialized (sl_system w)" using inv by (simp add: sl_inv_def)
  have l: "sf_length f = length bs" using f(1) by (simp add: source_file_ok_def)
  have cnt: "card (insert fp (set_mset R)) = card (set_mset R) + 1" using fresh by simp
  have same: "(\<Sum>x \<in> set_mset R. sf_length (the (((sl_files w)(fp \<mapsto> f)) x)))
      = (\<Sum>x \<in> set_mset R. sf_length (the (sl_files w x)))"
    using fresh by (intro sum.cong) auto
  have tot: "(\<Sum>x \<in> insert fp (set_mset R). sf_length (the (((sl_files w)(fp \<mapsto> f)) x)))
      = (\<Sum>x \<in> set_mset R. sf_length (the (sl_files w x))) + length bs"
    using fresh l same by simp
  have "ss_file_count (count_file (length bs) (sl_system w)) = card (insert fp (set_mset R)) mod SIZE_RANGE"
    unfolding cnt using inv init by (simp add: sl_inv_def count_file_def sz_add_def mod_simps)
  moreover have "ss_total_bytes (count_file (length bs) (sl_system w))
      = (\<Sum>x \<in> insert fp (set_mset R). sf_length (the (((sl_files w)(fp \<mapsto> f)) x))) mod SIZE_RANGE"
    unfolding tot using inv init by (simp add: sl_inv_def count_file_def sz_add_def mod_simps)
  moreover have "unat (sf_ref_count f) = count (add_mset fp R) fp"
    using f(2) fresh by (simp add: not_in_iff)
  moreover have "\<forall>x g. ((sl_files w)(fp \<mapsto> f)) x = Some g \<longrightarrow>
      unat (sf_ref_count g) = count (add_mset fp R) x
      \<and> (\<exists>bs. source_file_ok g bs) \<and> (\<exists>str. named (sl_names w) str (sf_filename g))"
    using inv f calculation(3) by (auto simp: sl_inv_def)
  moreover have "ss_initialized (count_file (length bs) (sl_system w))"
    using init by (simp add: count_file_def)
  ultimately show ?thesis
    using inv new(1) d by (simp add: sl_inv_def)
qed

lemma sl_inv_retain:
  assumes inv: "sl_inv w R" and fp: "fp \<in># R" and lim: "count R fp < 2 ^ 32 - 1"
  obtains f w' where "sl_files w fp = Some f" "ak_source_file_retain w fp = Some (fp, w')"
    "w' = w\<lparr>sl_files := (sl_files w)(fp \<mapsto> f\<lparr>sf_ref_count := sf_ref_count f + 1\<rparr>)\<rparr>"
    "sl_inv w' (add_mset fp R)"
proof -
  obtain f bs where f: "sl_files w fp = Some f" "fp \<noteq> 0" "unat (sf_ref_count f) = count R fp"
    "source_file_ok f bs" by (rule sl_inv_files [OF inv fp])
  let ?f = "f\<lparr>sf_ref_count := sf_ref_count f + 1\<rparr>"
  let ?w = "w\<lparr>sl_files := (sl_files w)(fp \<mapsto> ?f)\<rparr>"
  have n: "unat (sf_ref_count ?f) = count (add_mset fp R) fp"
    using f(3) lim by (simp add: unat_word_ariths)
  have same: "(\<Sum>x \<in> set_mset R. sf_length (the (((sl_files w)(fp \<mapsto> ?f)) x)))
      = (\<Sum>x \<in> set_mset R. sf_length (the (sl_files w x)))"
    using f(1) by (intro sum.cong) auto
  have ins: "insert fp (set_mset R) = set_mset R" using fp by auto
  have files: "\<forall>x g. ((sl_files w)(fp \<mapsto> ?f)) x = Some g \<longrightarrow>
      unat (sf_ref_count g) = count (add_mset fp R) x
      \<and> (\<exists>bs. source_file_ok g bs) \<and> (\<exists>str. named (sl_names w) str (sf_filename g))"
    using inv f(1) n by (auto simp: sl_inv_def source_file_ok_def)
  have "sl_inv ?w (add_mset fp R)"
    using inv f(2) files same ins by (simp add: sl_inv_def)
  then show thesis using that [OF f(1), of ?w] f(1,2) by (simp add: ak_source_file_retain_def)
qed

lemma set_mset_less_one:
  "set_mset (R - {#x#}) = (if count R x = 1 then set_mset R - {x} else set_mset R)"
proof -
  have mem: "y \<in># R - {#x#} \<longleftrightarrow> (if count R x = 1 then y \<in># R \<and> y \<noteq> x else y \<in># R)" for y
  proof (cases "y = x")
    case True
    have e: "x \<in># R \<longleftrightarrow> 0 < count R x" by simp
    show ?thesis unfolding True in_diff_count e by (auto simp del: count_greater_zero_iff)
  qed (simp add: in_diff_count)
  show ?thesis by (rule set_eqI, unfold mem) simp
qed

text \<open>The last reference releases the file; another one only decrements its count.\<close>

lemma sl_inv_release:
  assumes inv: "sl_inv w R" and fp: "fp \<in># R"
  obtains f w' where "sl_files w fp = Some f" "ak_source_file_release w fp = Some w'"
    "sl_files w' = (if count R fp = 1 then (sl_files w)(fp := None)
       else (sl_files w)(fp \<mapsto> f\<lparr>sf_ref_count := sf_ref_count f - 1\<rparr>))"
    "sl_inv w' (R - {#fp#})"
proof -
  obtain f bs where f: "sl_files w fp = Some f" "fp \<noteq> 0" "unat (sf_ref_count f) = count R fp"
    "source_file_ok f bs" "sf_length f < SIZE_RANGE" by (rule sl_inv_files [OF inv fp])
  have "count R fp > 0" using fp by simp
  then have "sf_ref_count f \<noteq> 0" using f(3) by (metis less_irrefl unsigned_0)
  then have n: "unat (sf_ref_count f - 1) = count R fp - 1" using unat_pred f(3) by metis
  then have z: "sf_ref_count f - 1 = 0 \<longleftrightarrow> count R fp = 1"
    unfolding word_unat_eq_iff n unsigned_0 using \<open>count R fp > 0\<close> by linarith
  have d: "dom (sl_files w) = set_mset R" and init: "ss_initialized (sl_system w)"
    using inv by (simp_all add: sl_inv_def)
  show thesis
  proof (cases "count R fp = 1")
    case True
    let ?sys = "(sl_system w)\<lparr>ss_file_count := sz_sub (ss_file_count (sl_system w)) 1,
                  ss_total_bytes := sz_sub (ss_total_bytes (sl_system w)) (sf_length f)\<rparr>"
    let ?w = "w\<lparr>sl_files := (sl_files w)(fp := None), sl_system := ?sys\<rparr>"
    have R: "set_mset (R - {#fp#}) = set_mset R - {fp}"
      using True by (simp add: set_mset_less_one)
    have cnt: "card (set_mset R - {fp}) = card (set_mset R) - 1" using fp by simp
    have pos: "1 \<le> card (set_mset R)" using fp by (simp add: Suc_le_eq card_gt_0_iff) auto
    have "(\<Sum>x \<in> set_mset R - {fp}. sf_length (the (sl_files w x)))
        = (\<Sum>x \<in> set_mset R. sf_length (the (sl_files w x))) - sf_length f"
      using fp f(1) by (simp add: sum_diff1_nat)
    moreover have "(\<Sum>x \<in> set_mset R - {fp}. sf_length (the (((sl_files w)(fp := None)) x)))
        = (\<Sum>x \<in> set_mset R - {fp}. sf_length (the (sl_files w x)))"
      by (intro sum.cong) auto
    moreover have le: "sf_length f \<le> (\<Sum>x \<in> set_mset R. sf_length (the (sl_files w x)))"
      using member_le_sum [of fp "set_mset R" "\<lambda>x. sf_length (the (sl_files w x))"] fp f(1) by simp
    ultimately have tot: "ss_total_bytes ?sys
        = (\<Sum>x \<in> set_mset R - {fp}. sf_length (the (((sl_files w)(fp := None)) x))) mod SIZE_RANGE"
      using inv sz_sub_mod [OF le f(5)] by (simp add: sl_inv_def)
    have fc: "ss_file_count ?sys = card (set_mset R - {fp}) mod SIZE_RANGE"
      using inv sz_sub_mod [OF pos] cnt by (simp add: sl_inv_def)
    have "\<forall>x g. ((sl_files w)(fp := None)) x = Some g \<longrightarrow> unat (sf_ref_count g) = count (R - {#fp#}) x
      \<and> (\<exists>bs. source_file_ok g bs) \<and> (\<exists>str. named (sl_names w) str (sf_filename g))"
      using inv by (auto simp: sl_inv_def)
    then have "sl_inv ?w (R - {#fp#})"
      using inv d tot fc R by (simp add: sl_inv_def) 
    then show thesis
      using that [OF f(1), of ?w] f(1,2) True z init by (simp add: ak_source_file_release_def Let_def)
  next
    case False
    let ?f = "f\<lparr>sf_ref_count := sf_ref_count f - 1\<rparr>"
    let ?w = "w\<lparr>sl_files := (sl_files w)(fp \<mapsto> ?f)\<rparr>"
    have R: "set_mset (R - {#fp#}) = set_mset R"
      using False by (simp add: set_mset_less_one)
    have same: "(\<Sum>x \<in> set_mset R. sf_length (the (((sl_files w)(fp \<mapsto> ?f)) x)))
        = (\<Sum>x \<in> set_mset R. sf_length (the (sl_files w x)))"
      using f(1) by (intro sum.cong) auto
    have "\<forall>x g. ((sl_files w)(fp \<mapsto> ?f)) x = Some g \<longrightarrow> unat (sf_ref_count g) = count (R - {#fp#}) x
      \<and> (\<exists>bs. source_file_ok g bs) \<and> (\<exists>str. named (sl_names w) str (sf_filename g))"
      using inv f(1) n by (auto simp: sl_inv_def source_file_ok_def)
    moreover have "insert fp (set_mset R) = set_mset R" using fp by auto
    ultimately have "sl_inv ?w (R - {#fp#})"
      using inv d same R fp by (simp add: sl_inv_def)
    then show thesis
      using that [OF f(1), of ?w] f(1,2) False z by (simp add: ak_source_file_release_def Let_def)
  qed
qed
lemma chomp_length_le: "length (chomp l) \<le> length l"
  by (simp add: chomp_length)

lemma sl_reach_inv: "sl_reach w R \<Longrightarrow> sl_inv w R"
proof (induction rule: sl_reach.induct)
  case (init names)
  then show ?case by (rule sl_inv_init)
next
  case (new w R len bs name s r w' s')
  have live: "live_table (sl_names w)" using new.IH by (simp add: sl_inv_def)
  show ?case
    using live new.hyps(2,3)
  proof (cases rule: source_file_new_cases [where s = s and name = name])
    case (failed names s1)
    then have "sl_inv (w\<lparr>sl_names := names\<rparr>) R" by (intro sl_inv_names [OF new.IH])
    moreover have "r = None" "w' = w\<lparr>sl_names := names\<rparr>" using failed(1) new.hyps(4) by simp_all
    ultimately show ?thesis by simp
  next
    case (made fp names f s1)
    let ?v = "w\<lparr>sl_names := names\<rparr>"
    have v: "sl_inv ?v R" using made by (intro sl_inv_names [OF new.IH])
    have "sl_inv (?v\<lparr>sl_files := (sl_files ?v)(fp \<mapsto> f),
        sl_system := count_file (length (take len bs)) (sl_system ?v)\<rparr>) (add_mset fp R)"
      by (rule sl_inv_new [OF v made(5) _ made(7,8)]) (use made in simp_all)
    moreover have "length (take len bs) = len" using new.hyps(2) by simp
    ultimately show ?thesis using made(1) new.hyps(4) by auto
  qed
next
  case (retain w R fp p w')
  then show ?case using sl_inv_retain [OF retain.IH retain.hyps(2,3)] by (metis Pair_inject option.inject)
next
  case (release w R fp w')
  then show ?case using sl_inv_release [OF release.IH release.hyps(2)] by (metis option.inject)
qed

section \<open>Properties of source files\<close>

text \<open>
  C30: The location of an offset. For a file whose line table belongs to its text, every
  offset up to the length is in exactly one line; the code returns the number of that line,
  counted from 1, whatever the bytes are, and when the bytes of the line before the offset
  are UTF-8 text without a NUL, the column is their number of code points plus 1. An offset
  beyond the file gives the zero location. The binary search always ends.\<close>

theorem source_loc_from_offset_spec:
  assumes "fp \<noteq> 0" and "sl_files w fp = Some f" and "source_file_ok f bs"
  shows "if unat offset \<le> length bs
    then (\<exists>k x y loc. in_line bs (unat offset) k x y
        \<and> (\<forall>k' x' y'. in_line bs (unat offset) k' x' y' \<longrightarrow> k' = k \<and> x' = x \<and> y' = y)
        \<and> ak_source_loc_from_offset w fp offset = Some loc
        \<and> loc_file loc = fp \<and> loc_offset loc = offset \<and> loc_line loc = word_of_nat (Suc k)
        \<and> (\<forall>cps. x = utf8_text cps \<and> list_all is_scalar cps \<and> 0 \<notin> set cps \<longrightarrow>
             loc_column loc = word_of_nat (Suc (length cps))))
    else ak_source_loc_from_offset w fp offset = Some zero_loc"
proof (cases "unat offset \<le> length bs")
  case True
  obtain k x y c where l: "in_line bs (unat offset) k x y"
    "ak_source_loc_from_offset w fp offset =
       Some \<lparr>loc_file = fp, loc_line = word_of_nat (Suc k), loc_column = c, loc_offset = offset\<rparr>"
    "\<forall>cps. x = utf8_text cps \<and> list_all is_scalar cps \<and> 0 \<notin> set cps \<longrightarrow>
       c = word_of_nat (Suc (length cps))"
    by (rule loc_from_offset [OF assms True])
  have uniq: "\<forall>k' x' y'. in_line bs (unat offset) k' x' y' \<longrightarrow> k' = k \<and> x' = x \<and> y' = y"
    using in_line_unique [OF _ l(1)] by blast
  show ?thesis
    unfolding if_P [OF True]
    by (intro exI conjI, rule l(1), rule uniq, rule l(2)) (simp_all only: ak_source_loc.simps, rule l(3))
next
  case False
  then show ?thesis
    using assms by (simp add: ak_source_loc_from_offset_def source_file_ok_def)
qed

text \<open>A file with two lines, the second one with a two-byte character.\<close>

definition example_text :: "u8 list" where
  "example_text = [0x61, CR, NL, 0xC3, 0xA9, 0x62]"

definition example_world :: sl_world where
  "example_world = (zero_world live_example)\<lparr>sl_files := [5 \<mapsto> new_file 7 example_text]\<rparr>"

lemma example_file:
  "sl_files example_world 5 = Some (new_file 7 example_text)"
  "source_file_ok (new_file 7 example_text) example_text"
  by (simp_all add: example_world_def new_file_ok example_text_def)

lemma example_lines: "split_lines example_text = [[0x61, CR, NL], [0xC3, 0xA9, 0x62]]"
  by (simp add: example_text_def)

theorem source_loc_from_offset_spec_witness:
  "(\<exists>loc. ak_source_loc_from_offset example_world 5 5 = Some loc \<and> loc_line loc = 2 \<and> loc_column loc = 2)
   \<and> ak_source_loc_from_offset example_world 5 7 = Some zero_loc"
proof -
  have at: "in_line example_text 5 1 [0xC3, 0xA9] [0x62]"
    by (simp add: in_line_def example_lines line_begin_def)
  have utf: "[0xC3, 0xA9] = utf8_text [0xE9]" "list_all is_scalar [0xE9]" "0 \<notin> set [0xE9 :: u32]"
    by (simp_all add: utf8_text_def utf8_encode_def is_scalar_def)
  have len: "length example_text = 6" by (simp add: example_text_def)
  have "\<exists>loc. ak_source_loc_from_offset example_world 5 5 = Some loc \<and> loc_line loc = 2 \<and> loc_column loc = 2"
    using source_loc_from_offset_spec [OF _ example_file, of 5] at utf len
    by (fastforce simp del: utf8_text_simps)
  moreover have "ak_source_loc_from_offset example_world 5 7 = Some zero_loc"
    using source_loc_from_offset_spec [OF _ example_file, of 7] len by simp
  ultimately show ?thesis ..
qed

text \<open>
  C31: The lines of a file. The lines with their terminators make up the text, every line
  but the last ends with its only newline; for the line numbers from 1 the code returns the
  offset at which the line starts and the length of the line without its terminator
  (a newline, or a return and a newline), so that the bytes there are that text; for every
  other number it returns NULL and 0.\<close>

theorem source_lines_spec:
  assumes "fp \<noteq> 0" and "sl_files w fp = Some f" and "source_file_ok f bs"
  shows "concat (split_lines bs) = bs
    \<and> (\<forall>k. Suc k < length (split_lines bs) \<longrightarrow> (\<exists>l. split_lines bs ! k = l @ [NL] \<and> NL \<notin> set l))
    \<and> (\<forall>line. if 0 < unat line \<and> unat line \<le> length (split_lines bs)
         then (\<exists>p n. ak_source_get_line w fp line = Some (Some p)
           \<and> ak_source_get_line_len w fp line = Some n
           \<and> take n (drop p (sf_contents f)) = chomp (split_lines bs ! (unat line - 1)))
         else ak_source_get_line w fp line = Some None \<and> ak_source_get_line_len w fp line = Some 0)"
proof -
  have st: "unat (sf_line_count f) = length (split_lines bs)" by (rule source_file_ok_starts(3) [OF assms(3)])
  have inside: "\<exists>p n. ak_source_get_line w fp line = Some (Some p)
      \<and> ak_source_get_line_len w fp line = Some n
      \<and> take n (drop p (sf_contents f)) = chomp (split_lines bs ! (unat line - 1))"
    if h: "0 < unat line" "unat line \<le> length (split_lines bs)" for line
  proof -
    define k where "k = unat line - 1"
    have k: "k < length (split_lines bs)" "Suc k = unat line" using h by (simp_all add: k_def)
    have line: "line = word_of_nat (Suc k)" unfolding k(2) by simp
    have "drop (line_begin bs k) (sf_contents f)
        = split_lines bs ! k @ concat (drop (Suc k) (split_lines bs)) @ [0]"
      using drop_line_begin [OF k(1)] line_begin_le [of k bs] k(1) assms(3)
      by (simp add: source_file_ok_def)
    then have "take (length (chomp (split_lines bs ! k))) (drop (line_begin bs k) (sf_contents f))
        = chomp (split_lines bs ! k)"
      using chomp_take [of "split_lines bs ! k"] chomp_length_le [of "split_lines bs ! k"] by simp
    then show ?thesis
      using get_line_text [OF assms k(1), folded line] unfolding k_def [symmetric] by blast
  qed
  have outside: "ak_source_get_line w fp line = Some None \<and> ak_source_get_line_len w fp line = Some 0"
    if "\<not> (0 < unat line \<and> unat line \<le> length (split_lines bs))" for line
  proof -
    have "line = 0 \<or> line > sf_line_count f"
      using that st by (auto simp: word_less_nat_alt unat_eq_zero)
    then show ?thesis using assms by (simp add: ak_source_get_line_def ak_source_get_line_len_def)
  qed
  show ?thesis
    using concat_split_lines [of bs] split_lines_terminated [of _ bs] inside outside by presburger
qed

theorem source_lines_spec_witness:
  "(\<exists>p n. ak_source_get_line example_world 5 1 = Some (Some p)
     \<and> ak_source_get_line_len example_world 5 1 = Some n
     \<and> take n (drop p (sf_contents (new_file 7 example_text))) = [0x61])
   \<and> ak_source_get_line example_world 5 3 = Some None"
proof -
  have "chomp [0x61, CR, NL] = [0x61]" by (simp add: chomp_def)
  note all = source_lines_spec [OF _ example_file, THEN conjunct2, THEN conjunct2, rule_format]
  show ?thesis
    using all [of 1] all [of 3] \<open>chomp [0x61, CR, NL] = [0x61]\<close> by (simp add: example_lines)
qed

text \<open>
  C32: The lifetime of files. In every state reached by creating files and by retaining and
  releasing held references, the files in the store are exactly those with a reference, each
  count is the number of its references, the statistics are the number of files and their
  total size; a held reference can be retained (below the limit of the counter) and released,
  and the release frees the file exactly when it was the last reference.\<close>

theorem source_file_lifetime:
  assumes "sl_reach w R"
  shows "dom (sl_files w) = set_mset R
    \<and> (\<forall>fp f. sl_files w fp = Some f \<longrightarrow> unat (sf_ref_count f) = count R fp
         \<and> (\<exists>bs. source_file_ok f bs) \<and> (\<exists>str. named (sl_names w) str (sf_filename f)))
    \<and> ak_sourceloc_stats w = (card (set_mset R) mod SIZE_RANGE,
         (\<Sum>fp \<in> set_mset R. sf_length (the (sl_files w fp))) mod SIZE_RANGE)
    \<and> (\<forall>fp. fp \<in># R \<longrightarrow>
         (count R fp < 2 ^ 32 - 1 \<longrightarrow> (\<exists>w'. ak_source_file_retain w fp = Some (fp, w') \<and> sl_reach w' (add_mset fp R)))
         \<and> (\<exists>w'. ak_source_file_release w fp = Some w' \<and> sl_reach w' (R - {#fp#})
              \<and> (sl_files w' fp = None \<longleftrightarrow> count R fp = 1)
              \<and> (\<forall>q. q \<noteq> fp \<longrightarrow> sl_files w' q = sl_files w q)))"
proof -
  have inv: "sl_inv w R" by (rule sl_reach_inv [OF assms])
  have retain: "\<exists>w'. ak_source_file_retain w fp = Some (fp, w') \<and> sl_reach w' (add_mset fp R)"
    if "fp \<in># R" "count R fp < 2 ^ 32 - 1" for fp
    using sl_inv_retain [OF inv that] sl_reach.retain [OF assms that] by metis
  have release: "\<exists>w'. ak_source_file_release w fp = Some w' \<and> sl_reach w' (R - {#fp#})
      \<and> (sl_files w' fp = None \<longleftrightarrow> count R fp = 1) \<and> (\<forall>q. q \<noteq> fp \<longrightarrow> sl_files w' q = sl_files w q)"
    if held: "fp \<in># R" for fp
  proof -
    obtain f w' where r: "sl_files w fp = Some f" "ak_source_file_release w fp = Some w'"
      "sl_files w' = (if count R fp = 1 then (sl_files w)(fp := None)
         else (sl_files w)(fp \<mapsto> f\<lparr>sf_ref_count := sf_ref_count f - 1\<rparr>))"
      using sl_inv_release [OF inv held] by metis
    have "sl_reach w' (R - {#fp#})" by (rule sl_reach.release [OF assms held r(2)])
    then show ?thesis using r by auto
  qed
  have "dom (sl_files w) = set_mset R"
    "ak_sourceloc_stats w = (card (set_mset R) mod SIZE_RANGE,
         (\<Sum>fp \<in> set_mset R. sf_length (the (sl_files w fp))) mod SIZE_RANGE)"
    "\<forall>fp f. sl_files w fp = Some f \<longrightarrow> unat (sf_ref_count f) = count R fp
         \<and> (\<exists>bs. source_file_ok f bs) \<and> (\<exists>str. named (sl_names w) str (sf_filename f))"
    using inv by (simp_all add: sl_inv_def ak_sourceloc_stats_def)
  with retain release show ?thesis by blast
qed

lemma example_reach: "\<exists>fp w. sl_reach w {#fp#}"
proof -
  obtain r names s' where n: "ak_intern_n live_example (Some [97]) [Some (\<lambda>_. 1), Some (\<lambda>_. 2)] = Some (r, names, s')"
    "live_table names" "interned live_example \<subseteq>\<^sub>m interned names"
    "\<forall>a. it_mem live_example a \<noteq> None \<longrightarrow> it_mem names a = it_mem live_example a"
    "r = None \<longrightarrow> names = live_example \<and> interned live_example [97] = None
       \<and> \<not> grants_cell (it_mem live_example) [Some (\<lambda>_. 1), Some (\<lambda>_. 2)]"
    "\<forall>p. r = Some p \<longrightarrow> interned names [97] = Some p \<and> it_mem names p = Some ([97] @ [0])"
    "interned live_example [97] \<noteq> None \<longrightarrow> r = interned live_example [97] \<and> names = live_example
       \<and> s' = [Some (\<lambda>_. 1), Some (\<lambda>_. 2)]"
    by (rule live_intern [OF live_example_live])
  have "it_mem live_example = Map.empty"
    by (simp add: live_example_def ak_intern_init_def zero_table_def)
  then have "grants_cell (it_mem live_example) [Some (\<lambda>_. 1), Some (\<lambda>_. 2)]" by (simp add: grants_cell_def)
  then have name: "interned names [97] \<noteq> None" using n(5,6) by (cases r) auto
  let ?w = "ak_sourceloc_init (zero_world names)" and ?s = "[Some (\<lambda>_. 3), Some id, Some id, Some id]"
  have w: "sl_names ?w = names" "sl_files ?w = Map.empty"
    by (simp_all add: ak_sourceloc_init_def zero_world_def)
  have g: "grants_file ?w [97] ?s" using name w by (simp add: grants_file_def c_string_def)
  have live: "live_table (sl_names ?w)" using n(2) w by simp
  have len: "0 \<le> length ([] :: u8 list)" "(0 :: nat) < 2 ^ 32" by simp_all
  show ?thesis
    using live len
  proof (cases rule: source_file_new_cases [where len = 0 and bs = "[]" and name = "[97]" and s = ?s])
    case (made fp names' f s1)
    then show ?thesis using sl_reach.new [OF sl_reach.init [OF n(2)] _ _ made(1)] by auto
  qed (use g in auto)
qed

theorem source_file_lifetime_witness:
  "\<exists>fp w. sl_reach w {#fp#} \<and> dom (sl_files w) = {fp} \<and> fst (ak_sourceloc_stats w) = 1
     \<and> (\<exists>w'. ak_source_file_release w fp = Some w' \<and> sl_files w' fp = None)"
proof -
  obtain fp w where w: "sl_reach w {#fp#}" using example_reach by blast
  show ?thesis
    using source_file_lifetime [OF w] w by (intro exI [of _ fp] exI [of _ w]) auto
qed
lemma extract_text:
  assumes fp: "sl_files w fp = Some f" "source_file_ok f bs" "fp \<noteq> 0" "loc_file a = fp" "loc_file b = fp"
    and le: "loc_offset a \<le> loc_offset b" and len: "unat (loc_offset b) \<le> length bs"
  shows "\<exists>r s'. ak_source_extract w (ak_source_range_new a b) s = Some (r, s')
    \<and> (case r of None \<Rightarrow> fst (sys_alloc s) = None
        | Some mem \<Rightarrow> mem = take (unat (loc_offset b) - unat (loc_offset a)) (drop (unat (loc_offset a)) bs) @ [0])"
proof -
  let ?a = "unat (loc_offset a)" and ?n = "unat (loc_offset b) - unat (loc_offset a)"
  have con: "sf_contents f = bs @ [0]" "sf_length f = length bs" using fp(2) by (simp_all add: source_file_ok_def)
  have ab: "?a \<le> unat (loc_offset b)" "\<not> loc_offset b < loc_offset a" using le by (simp_all add: word_le_nat_alt not_less)
  have n: "unat (loc_offset b - loc_offset a) = ?n" using le by (simp add: unat_sub)
  obtain r s' where al: "alloc_chars (?n + 1) s = (r, s')" by fastforce
  have eq: "ak_source_extract w (ak_source_range_new a b) s =
      (case (r, s') of (None, s') \<Rightarrow> Some (None, s')
       | (Some mem, s') \<Rightarrow> do {
           m1 \<leftarrow> mem_copy mem 0 (bs @ [0]) ?a ?n;
           m2 \<leftarrow> mem_write m1 ?n 0;
           Some (Some m2, s')
         })"
    using fp con ab n len al
    by (auto simp: ak_source_extract_def ak_source_range_new_def Let_def split: option.splits)
  show ?thesis
  proof (cases r)
    case None
    then have "fst (sys_alloc s) = None" using al by (auto simp: alloc_chars_def split: prod.splits)
    then show ?thesis using eq None by simp
  next
    case (Some mem)
    have "length mem = ?n + 1" using al alloc_chars_length Some by simp
    moreover have "?a + ?n \<le> length (bs @ [0])" using ab len by simp
    ultimately obtain m where "mem_copy mem 0 (bs @ [0]) ?a ?n = Some m"
        "mem_write m ?n 0 = Some (take ?n (drop ?a (bs @ [0])) @ [0])"
      by (rule copy_terminated)
    moreover have "take ?n (drop ?a (bs @ [0])) = take ?n (drop ?a bs)" using ab len by simp
    ultimately show ?thesis using eq Some by simp
  qed
qed

lemma contains_iff:
  "ak_source_range_contains (Some (ak_source_range_new a b)) loc \<longleftrightarrow>
     loc_file a \<noteq> 0 \<and> loc_file loc = loc_file a \<and> loc_offset loc \<in> {loc_offset a ..< loc_offset b}"
  by (auto simp: ak_source_range_contains_def ak_source_range_new_def)

lemma overlaps_iff:
  assumes "loc_offset a < loc_offset b" and "loc_offset c < loc_offset d"
  shows "ak_source_range_overlaps (Some (ak_source_range_new a b)) (Some (ak_source_range_new c d)) \<longleftrightarrow>
    (\<exists>loc. ak_source_range_contains (Some (ak_source_range_new a b)) loc
       \<and> ak_source_range_contains (Some (ak_source_range_new c d)) loc)" (is "?o = (\<exists>loc. ?c loc)")
proof
  let ?m = "max (loc_offset a) (loc_offset c)"
  assume ?o
  then have "loc_file a \<noteq> 0" "loc_file a = loc_file c" "loc_offset a < loc_offset d" "loc_offset c < loc_offset b"
    by (auto simp: ak_source_range_overlaps_def ak_source_range_new_def split: if_splits)
  then have "?c (ak_source_loc_new (loc_file a) 0 0 ?m)"
    using assms unfolding contains_iff by (simp add: ak_source_loc_new_def)
  then show "\<exists>loc. ?c loc" ..
next
  assume "\<exists>loc. ?c loc"
  then show ?o
    unfolding contains_iff by (auto simp: ak_source_range_overlaps_def ak_source_range_new_def)
qed

text \<open>
  Ranges. For a range between two locations of a file, the extracted text is the bytes
  from the first offset up to the second, terminated, unless the allocator refuses; a range
  that is reversed, leaves the file or spans two files gives NULL. A non-empty range
  contains exactly the locations of its file with an offset in it, and two non-empty ranges
  overlap exactly when some location is in both.\<close>

theorem source_range_spec:
  assumes "sl_files w fp = Some f" and "source_file_ok f bs" and "fp \<noteq> 0"
    and "loc_file a = fp"
  shows "(loc_file b = fp \<and> loc_offset a \<le> loc_offset b \<and> unat (loc_offset b) \<le> length bs \<longrightarrow>
       (\<exists>r s'. ak_source_extract w (ak_source_range_new a b) s = Some (r, s')
          \<and> (case r of None \<Rightarrow> fst (sys_alloc s) = None
              | Some mem \<Rightarrow> mem = take (unat (loc_offset b) - unat (loc_offset a)) (drop (unat (loc_offset a)) bs) @ [0])))
    \<and> (loc_file b \<noteq> fp \<or> loc_offset b < loc_offset a \<or> length bs < unat (loc_offset b) \<longrightarrow>
        ak_source_extract w (ak_source_range_new a b) s = Some (None, s))
    \<and> (\<forall>loc. ak_source_range_contains (Some (ak_source_range_new a b)) loc \<longleftrightarrow>
        loc_file loc = fp \<and> loc_offset loc \<in> {loc_offset a ..< loc_offset b})
    \<and> (\<forall>c d. loc_offset a < loc_offset b \<and> loc_offset c < loc_offset d \<longrightarrow>
        (ak_source_range_overlaps (Some (ak_source_range_new a b)) (Some (ak_source_range_new c d)) \<longleftrightarrow>
         (\<exists>loc. ak_source_range_contains (Some (ak_source_range_new a b)) loc
            \<and> ak_source_range_contains (Some (ak_source_range_new c d)) loc)))"
proof (intro conjI impI allI, goal_cases)
  case 1
  then show ?case using assms by (intro extract_text [OF assms]) auto
next
  case 2
  then show ?case
    using assms by (auto simp: ak_source_extract_def ak_source_range_new_def Let_def source_file_ok_def)
next
  case 3
  then show ?case unfolding contains_iff using assms by auto
next
  case 4
  then show ?case by (intro overlaps_iff) auto
qed

theorem source_range_spec_witness:
  "\<exists>r s'. ak_source_extract example_world
       (ak_source_range_new (ak_source_loc_new 5 2 1 3) (ak_source_loc_new 5 2 2 5)) [Some id] = Some (r, s')
     \<and> r = Some [0xC3, 0xA9, 0]"
proof -
  let ?a = "ak_source_loc_new 5 2 1 3" and ?b = "ak_source_loc_new 5 2 2 5"
  have h: "loc_file ?a = 5" "loc_file ?b = 5 \<and> loc_offset ?a \<le> loc_offset ?b
      \<and> unat (loc_offset ?b) \<le> length example_text"
    by (simp_all add: ak_source_loc_new_def example_text_def)
  have "take (unat (loc_offset ?b) - unat (loc_offset ?a)) (drop (unat (loc_offset ?a)) example_text)
      = [0xC3, 0xA9]"
    by (simp add: ak_source_loc_new_def example_text_def)
  then show ?thesis
    using source_range_spec [OF example_file _ h(1), of ?b "[Some id]", THEN conjunct1, THEN mp, OF _ h(2)]
    by (auto split: option.splits)
qed

end
