(* ===== verification/Atoms.thy ===== *)
theory Atoms
  imports DynList
begin

text \<open>
  Model of kernel/atoms/src/atom.c: typed values linked to their neighbours, and clusters of
  atoms. Atoms and the cells of the neighbour lists live in two stores from addresses to
  records, 0 being NULL; a cluster is a record of the fields of \<open>ak_atom_cluster_t\<close>. Each
  operation is the sequence of its accesses for a caller that runs alone (the atomic accesses
  of the code order the accesses of other threads, which are not modelled). The outer
  \<open>option\<close> is \<open>None\<close> for an access outside the stores or a list without an end.

  A value is the word of the union member that the atom's type selects; the other members
  have no defined contents and are never read, because the type of an atom is fixed.

  The lemmas show that the stores represent a graph of neighbour lists, that bonding and
  unbonding act on it and undo each other, that a search for neighbours returns atoms that
  are reached by a walk of the given length, once each, all of them at distance 1, and that
  at distance 2 it misses some.
\<close>

section \<open>Definitions\<close>

datatype ak_atom_type = AK24_ATOM_BYTE | AK24_ATOM_U8 | AK24_ATOM_U16 | AK24_ATOM_U32
  | AK24_ATOM_U64 | AK24_ATOM_I8 | AK24_ATOM_I16 | AK24_ATOM_I32 | AK24_ATOM_I64
  | AK24_ATOM_F32 | AK24_ATOM_F64 | AK24_ATOM_CHAR | AK24_ATOM_CLUSTER

record ak_atom_neighbor =
  nb_atom :: nat
  nb_next :: nat

record ak_atom =
  at_type :: ak_atom_type
  at_dimensionality :: nat
  at_neighbors :: nat
  at_value :: u64

record atom_world =
  aw_atoms :: "nat \<rightharpoonup> ak_atom"
  aw_links :: "nat \<rightharpoonup> ak_atom_neighbor"

record ak_atom_cluster =
  cl_atoms :: "nat list"
  cl_count :: nat
  cl_capacity :: nat

text \<open>The bytes of the union member for a type, and its bits.\<close>

fun member_size :: "ak_atom_type \<Rightarrow> nat" where
  "member_size AK24_ATOM_BYTE = 1"
| "member_size AK24_ATOM_U8 = 1"
| "member_size AK24_ATOM_U16 = 2"
| "member_size AK24_ATOM_U32 = 4"
| "member_size AK24_ATOM_U64 = 8"
| "member_size AK24_ATOM_I8 = 1"
| "member_size AK24_ATOM_I16 = 2"
| "member_size AK24_ATOM_I32 = 4"
| "member_size AK24_ATOM_I64 = 8"
| "member_size AK24_ATOM_F32 = 4"
| "member_size AK24_ATOM_F64 = 8"
| "member_size AK24_ATOM_CHAR = 1"
| "member_size AK24_ATOM_CLUSTER = 8"

definition member_bits :: "ak_atom_type \<Rightarrow> u64 \<Rightarrow> u64" where
  "member_bits ty v = take_bit (8 * member_size ty) v"

definition ak_atom_new ::
  "atom_world \<Rightarrow> ak_atom_type \<Rightarrow> u64 \<Rightarrow> nat \<Rightarrow> ptr_sched \<Rightarrow> nat option \<times> atom_world \<times> ptr_sched" where
  "ak_atom_new w ty value dimensionality s =
     (case alloc_cell (aw_atoms w) s of
        (None, s') \<Rightarrow> (None, w, s')
      | (Some a, s') \<Rightarrow>
          (Some a, w\<lparr>aw_atoms := (aw_atoms w)(a \<mapsto> \<lparr>at_type = ty, at_dimensionality = dimensionality,
                      at_neighbors = 0, at_value = member_bits ty value\<rparr>)\<rparr>, s'))"

partial_function (option) free_links ::
  "(nat \<rightharpoonup> ak_atom_neighbor) \<Rightarrow> nat \<Rightarrow> (nat \<rightharpoonup> ak_atom_neighbor) option" where
  "free_links h neighbor =
     (if neighbor = 0 then Some h
      else Option.bind (h neighbor) (\<lambda>c. free_links (h(neighbor := None)) (nb_next c)))"

definition ak_atom_free :: "atom_world \<Rightarrow> nat \<Rightarrow> atom_world option" where
  "ak_atom_free w a =
     (if a = 0 then Some w
      else do {
        r \<leftarrow> aw_atoms w a;
        h \<leftarrow> free_links (aw_links w) (at_neighbors r);
        Some (w\<lparr>aw_atoms := (aw_atoms w)(a := None), aw_links := h\<rparr>)
      })"

definition ak_atom_get_value :: "atom_world \<Rightarrow> nat \<Rightarrow> u64 option" where
  "ak_atom_get_value w a =
     (if a = 0 then Some 0
      else map_option (\<lambda>r. member_bits (at_type r) (at_value r)) (aw_atoms w a))"

definition ak_atom_set_value :: "atom_world \<Rightarrow> nat \<Rightarrow> u64 \<Rightarrow> atom_world option" where
  "ak_atom_set_value w a value =
     (if a = 0 then Some w
      else do {
        r \<leftarrow> aw_atoms w a;
        Some (w\<lparr>aw_atoms := (aw_atoms w)(a \<mapsto> r\<lparr>at_value := member_bits (at_type r) value\<rparr>)\<rparr>)
      })"

definition ak_atom_get_type :: "atom_world \<Rightarrow> nat \<Rightarrow> ak_atom_type option" where
  "ak_atom_get_type w a = (if a = 0 then Some AK24_ATOM_BYTE else map_option at_type (aw_atoms w a))"

definition ak_atom_get_dimensionality :: "atom_world \<Rightarrow> nat \<Rightarrow> nat option" where
  "ak_atom_get_dimensionality w a = (if a = 0 then Some 0 else map_option at_dimensionality (aw_atoms w a))"

text \<open>Cell \<open>n\<close>, for the atom \<open>b\<close>, becomes the head of the list of \<open>a\<close>.\<close>

definition push_link :: "atom_world \<Rightarrow> nat \<Rightarrow> nat \<Rightarrow> nat \<Rightarrow> atom_world option" where
  "push_link w a n b = do {
     r \<leftarrow> aw_atoms w a;
     Some (w\<lparr>aw_links := (aw_links w)(n \<mapsto> \<lparr>nb_atom = b, nb_next = at_neighbors r\<rparr>),
             aw_atoms := (aw_atoms w)(a \<mapsto> r\<lparr>at_neighbors := n\<rparr>)\<rparr>)
   }"

definition ak_atom_bond ::
  "atom_world \<Rightarrow> nat \<Rightarrow> nat \<Rightarrow> ptr_sched \<Rightarrow> (int \<times> atom_world \<times> ptr_sched) option" where
  "ak_atom_bond w atom1 atom2 s =
     (if atom1 = 0 \<or> atom2 = 0 then Some (-1, w, s)
      else case alloc_cell (aw_links w) s of
        (neighbor1, s1) \<Rightarrow>
         (case alloc_cell
                 (case neighbor1 of None \<Rightarrow> aw_links w
                  | Some n \<Rightarrow> (aw_links w)(n \<mapsto> \<lparr>nb_atom = atom2, nb_next = 0\<rparr>)) s1 of
            (neighbor2, s2) \<Rightarrow>
             (case (neighbor1, neighbor2) of
                (Some n1, Some n2) \<Rightarrow> do {
                  w1 \<leftarrow> push_link w atom1 n1 atom2;
                  w2 \<leftarrow> push_link w1 atom2 n2 atom1;
                  Some (0, w2, s2)
                }
              | _ \<Rightarrow> Some (-1, w, s2))))"

partial_function (option) unlink_loop ::
  "atom_world \<Rightarrow> nat \<Rightarrow> nat \<Rightarrow> nat \<Rightarrow> nat \<Rightarrow> atom_world option" where
  "unlink_loop w a b prev current =
     (if current = 0 then Some w
      else Option.bind (aw_links w current) (\<lambda>c.
        if nb_atom c = b
        then Option.bind
               (if prev \<noteq> 0
                then Option.bind (aw_links w prev) (\<lambda>p.
                  Some (w\<lparr>aw_links := (aw_links w)(prev \<mapsto> p\<lparr>nb_next := nb_next c\<rparr>)\<rparr>))
                else Option.bind (aw_atoms w a) (\<lambda>r.
                  Some (w\<lparr>aw_atoms := (aw_atoms w)(a \<mapsto> r\<lparr>at_neighbors := nb_next c\<rparr>)\<rparr>)))
               (\<lambda>w1. map_option (\<lambda>h. w1\<lparr>aw_links := h\<rparr>) (free_cell (aw_links w1) current))
        else unlink_loop w a b current (nb_next c)))"

definition unlink :: "atom_world \<Rightarrow> nat \<Rightarrow> nat \<Rightarrow> atom_world option" where
  "unlink w a b = do {
     r \<leftarrow> aw_atoms w a;
     unlink_loop w a b 0 (at_neighbors r)
   }"

definition ak_atom_unbond :: "atom_world \<Rightarrow> nat \<Rightarrow> nat \<Rightarrow> (int \<times> atom_world) option" where
  "ak_atom_unbond w atom1 atom2 =
     (if atom1 = 0 \<or> atom2 = 0 then Some (-1, w)
      else do {
        w1 \<leftarrow> unlink w atom1 atom2;
        w2 \<leftarrow> unlink w1 atom2 atom1;
        Some (0, w2)
      })"

definition ak_atom_cluster_new :: "nat \<Rightarrow> ptr_sched \<Rightarrow> ak_atom_cluster option \<times> ptr_sched" where
  "ak_atom_cluster_new initial_capacity s =
     (case sys_alloc s of
        (None, s1) \<Rightarrow> (None, s1)
      | (Some _, s1) \<Rightarrow>
         (case alloc_ptrs (sz_mul 8 initial_capacity div 8) s1 of
            (None, s2) \<Rightarrow> (None, s2)
          | (Some xs, s2) \<Rightarrow>
              (Some \<lparr>cl_atoms = xs, cl_count = 0, cl_capacity = initial_capacity\<rparr>, s2)))"

definition ak_atom_cluster_add ::
  "ak_atom_cluster \<Rightarrow> nat \<Rightarrow> ptr_sched \<Rightarrow> (int \<times> ak_atom_cluster \<times> ptr_sched) option" where
  "ak_atom_cluster_add cl a s =
     (if a = 0 then Some (-1, cl, s)
      else do {
        (ok, cl', s') \<leftarrow>
          (if cl_count cl \<ge> cl_capacity cl
           then let new_capacity = sz_mul (cl_capacity cl) 2 in
             (case realloc_ptrs (Some (cl_atoms cl)) (sz_mul 8 new_capacity div 8) s of
                (None, s') \<Rightarrow> Some (False, cl, s')
              | (Some xs, s') \<Rightarrow> Some (True, cl\<lparr>cl_atoms := xs, cl_capacity := new_capacity\<rparr>, s'))
           else Some (True, cl, s));
        if \<not> ok then Some (-1, cl', s')
        else do {
          xs \<leftarrow> mem_write (cl_atoms cl') (cl_count cl') a;
          Some (0, cl'\<lparr>cl_atoms := xs, cl_count := sz_add (cl_count cl') 1\<rparr>, s')
        }
      })"

definition ak_atom_cluster_get :: "ak_atom_cluster option \<Rightarrow> nat \<Rightarrow> nat option" where
  "ak_atom_cluster_get cluster index =
     (case cluster of None \<Rightarrow> Some 0
      | Some cl \<Rightarrow> if index \<ge> cl_count cl then Some 0 else mem_read (cl_atoms cl) index)"

definition ak_atom_cluster_count :: "ak_atom_cluster option \<Rightarrow> nat" where
  "ak_atom_cluster_count cluster = (case cluster of None \<Rightarrow> 0 | Some cl \<Rightarrow> cl_count cl)"

text \<open>The walk along a neighbour list, with the action on each neighbour.\<close>

partial_function (option) for_links ::
  "(nat \<Rightarrow> 's \<Rightarrow> 's option) \<Rightarrow> (nat \<rightharpoonup> ak_atom_neighbor) \<Rightarrow> nat \<Rightarrow> 's \<Rightarrow> 's option" where
  "for_links f h neighbor st =
     (if neighbor = 0 then Some st
      else Option.bind (h neighbor) (\<lambda>c.
        Option.bind (f (nb_atom c) st) (\<lambda>st'. for_links f h (nb_next c) st')))"

abbreviation VISITED_CAPACITY :: nat where
  "VISITED_CAPACITY \<equiv> 1024"

text \<open>
  The state of a search is the cluster, the atoms recorded in the array \<open>visited\<close>, and the
  schedule. The first argument counts the levels that are left: a call with \<open>Suc n\<close> levels
  left is one at \<open>current_distance = distance - n\<close>, and none are left when
  \<open>current_distance > distance\<close>.
\<close>

type_synonym search = "ak_atom_cluster \<times> nat list \<times> ptr_sched"

primrec ak_atom_neighbors_recursive ::
  "nat \<Rightarrow> atom_world \<Rightarrow> nat \<Rightarrow> nat \<Rightarrow> search \<Rightarrow> search option" where
  "ak_atom_neighbors_recursive 0 w distance a st = Some st"
| "ak_atom_neighbors_recursive (Suc n) w distance a st =
     (if a = 0 then Some st
      else case st of (cluster, visited, s) \<Rightarrow>
        if a \<in> set visited then Some st
        else let visited' = (if length visited < VISITED_CAPACITY then visited @ [a] else visited) in
          if n = 0 \<and> distance > 0
          then do {
            (_, cluster', s') \<leftarrow> ak_atom_cluster_add cluster a s;
            Some (cluster', visited', s')
          }
          else do {
            r \<leftarrow> aw_atoms w a;
            for_links (ak_atom_neighbors_recursive n w distance) (aw_links w) (at_neighbors r)
              (cluster, visited', s)
          })"

definition ak_atom_neighbors ::
  "atom_world \<Rightarrow> nat \<Rightarrow> nat \<Rightarrow> ptr_sched \<Rightarrow> (ak_atom_cluster option \<times> ptr_sched) option" where
  "ak_atom_neighbors w a distance s =
     (if a = 0 then Some (None, s)
      else case ak_atom_cluster_new 16 s of
        (None, s1) \<Rightarrow> Some (None, s1)
      | (Some cluster, s1) \<Rightarrow>
         if distance = 0
         then do {
           (_, cluster', s2) \<leftarrow> ak_atom_cluster_add cluster a s1;
           Some (Some cluster', s2)
         }
         else case sys_alloc s1 of
           (None, s2) \<Rightarrow> Some (None, s2)
         | (Some _, s2) \<Rightarrow> do {
             (cluster', _, s3) \<leftarrow>
               ak_atom_neighbors_recursive (Suc distance) w distance a (cluster, [], s2);
             Some (Some cluster', s3)
           })"

declare free_links.simps [code] unlink_loop.simps [code] for_links.simps [code]
section \<open>The graph of neighbour lists\<close>

fun link_chain :: "(nat \<rightharpoonup> ak_atom_neighbor) \<Rightarrow> nat \<Rightarrow> nat list \<Rightarrow> bool" where
  "link_chain h p [] \<longleftrightarrow> p = 0"
| "link_chain h p (c # cs) \<longleftrightarrow>
     p = c \<and> c \<noteq> 0 \<and> (case h c of None \<Rightarrow> False | Some x \<Rightarrow> link_chain h (nb_next x) cs)"

definition link_atom :: "(nat \<rightharpoonup> ak_atom_neighbor) \<Rightarrow> nat \<Rightarrow> nat" where
  "link_atom h c = nb_atom (the (h c))"

text \<open>
  The stores hold the graph \<open>G\<close>, which maps every atom to its list of neighbours; \<open>C\<close> gives
  the cells of each list. No cell is in two lists, and no cell is outside all of them.
\<close>

definition rep :: "atom_world \<Rightarrow> (nat \<Rightarrow> nat list) \<Rightarrow> (nat \<rightharpoonup> nat list) \<Rightarrow> bool" where
  "rep w C G \<longleftrightarrow> dom G = dom (aw_atoms w) \<and> 0 \<notin> dom G
     \<and> (\<forall>a r. aw_atoms w a = Some r \<longrightarrow> link_chain (aw_links w) (at_neighbors r) (C a)
          \<and> distinct (C a) \<and> G a = Some (map (link_atom (aw_links w)) (C a)))
     \<and> (\<forall>a \<in> dom G. \<forall>b \<in> dom G. a \<noteq> b \<longrightarrow> set (C a) \<inter> set (C b) = {})
     \<and> dom (aw_links w) = (\<Union>a \<in> dom G. set (C a))"

definition represents :: "atom_world \<Rightarrow> (nat \<rightharpoonup> nat list) \<Rightarrow> bool" where
  "represents w G \<longleftrightarrow> (\<exists>C. rep w C G)"

text \<open>The effect of a bond and of the two halves of its removal.\<close>

definition add_neighbor :: "nat \<Rightarrow> nat \<Rightarrow> (nat \<rightharpoonup> nat list) \<Rightarrow> nat \<rightharpoonup> nat list" where
  "add_neighbor a b G = G(a \<mapsto> b # the (G a))"

definition cut_neighbor :: "nat \<Rightarrow> nat \<Rightarrow> (nat \<rightharpoonup> nat list) \<Rightarrow> nat \<rightharpoonup> nat list" where
  "cut_neighbor a b G = G(a \<mapsto> remove1 b (the (G a)))"

lemma link_chain_cong:
  "(\<And>c. c \<in> set cs \<Longrightarrow> h' c = h c) \<Longrightarrow> link_chain h' p cs = link_chain h p cs"
  by (induction cs arbitrary: p) (auto split: option.splits)

lemma link_chain_dom: "link_chain h p cs \<Longrightarrow> set cs \<subseteq> dom h - {0}"
  by (induction cs arbitrary: p) (auto split: option.splits)

lemma repE:
  assumes "rep w C G" and "a \<in> dom G"
  obtains r where "aw_atoms w a = Some r" "link_chain (aw_links w) (at_neighbors r) (C a)"
    "distinct (C a)" "G a = Some (map (link_atom (aw_links w)) (C a))" "a \<noteq> 0"
proof -
  have "a \<in> dom (aw_atoms w)" using assms by (simp add: rep_def)
  then obtain r where "aw_atoms w a = Some r" by blast
  then show thesis using that [of r] assms unfolding rep_def by auto
qed

text \<open>
  A step that gives one atom a new list of cells, drops the cells that left it, and leaves
  the cells of the other atoms alone.
\<close>

lemma rep_update:
  assumes rep: "rep w C G" and a: "aw_atoms w a = Some r"
    and links: "\<And>c. c \<notin> set (C a) \<union> set cs \<Longrightarrow> h c = aw_links w c" "dom h = dom (aw_links w) - set (C a) \<union> set cs"
    and new: "set cs \<inter> (dom (aw_links w) - set (C a)) = {}" "distinct cs"
    and r': "link_chain h (at_neighbors r') cs"
  shows "rep (w\<lparr>aw_links := h, aw_atoms := (aw_atoms w)(a \<mapsto> r')\<rparr>) (C(a := cs))
           (G(a \<mapsto> map (link_atom h) cs))"
proof -
  have d: "dom G = dom (aw_atoms w)" "0 \<notin> dom G" and aG: "a \<in> dom G"
    using rep a by (auto simp: rep_def)
  have cells: "dom (aw_links w) = (\<Union>x \<in> dom G. set (C x))" using rep by (simp add: rep_def)
  have disj: "set (C x) \<inter> set (C a) = {}" if "x \<in> dom G" "x \<noteq> a" for x
    using rep aG that unfolding rep_def by blast
  have other: "set (C x) \<inter> (set (C a) \<union> set cs) = {}" if "x \<in> dom G" "x \<noteq> a" for x
  proof -
    have "set (C x) \<subseteq> dom (aw_links w) - set (C a)" using cells disj [OF that] that(1) by blast
    then show ?thesis using new(1) disj [OF that] by blast
  qed
  have keep: "h c = aw_links w c" if "x \<in> dom G" "x \<noteq> a" "c \<in> set (C x)" for x c
    using links(1) other [OF that(1,2)] that(3) by blast
  have lists: "link_chain h (at_neighbors q) ((C(a := cs)) x) \<and> distinct ((C(a := cs)) x)
      \<and> (G(a \<mapsto> map (link_atom h) cs)) x = Some (map (link_atom h) ((C(a := cs)) x))"
    if q: "((aw_atoms w)(a \<mapsto> r')) x = Some q" for x q
  proof (cases "x = a")
    case True
    then show ?thesis using q r' new(2) by simp
  next
    case False
    then have x: "aw_atoms w x = Some q" "x \<in> dom G" using q d by auto
    then have old: "link_chain (aw_links w) (at_neighbors q) (C x)" "distinct (C x)"
        "G x = Some (map (link_atom (aw_links w)) (C x))"
      using rep unfolding rep_def by auto
    have "link_chain h (at_neighbors q) (C x)"
      using old(1) link_chain_cong [of "C x" h "aw_links w"] keep [OF x(2) False] by blast
    moreover have "map (link_atom h) (C x) = map (link_atom (aw_links w)) (C x)"
      using keep [OF x(2) False] by (simp add: link_atom_def)
    ultimately show ?thesis using old(2,3) False by simp
  qed
  have sep: "set ((C(a := cs)) x) \<inter> set ((C(a := cs)) y) = {}"
    if "x \<in> dom G" "y \<in> dom G" "x \<noteq> y" for x y
    using other [of x] other [of y] that rep unfolding rep_def by (cases "x = a"; cases "y = a") auto
  have "(\<Union>x \<in> dom G. set ((C(a := cs)) x)) = (\<Union>x \<in> dom G - {a}. set (C x)) \<union> set cs"
    using aG by (auto split: if_splits)
  also have "\<dots> = dom h"
    unfolding links(2) cells using disj by blast
  finally have cells': "dom h = (\<Union>x \<in> dom G. set ((C(a := cs)) x))" ..
  have "insert a (dom G) = dom G" "insert a (dom (aw_atoms w)) = dom G" using aG d by auto
  then show ?thesis
    using d lists sep cells' unfolding rep_def by simp
qed

lemma push_link_rep:
  assumes rep: "rep w C G" and a: "a \<in> dom G" and n: "n \<noteq> 0" "aw_links w n = None"
  obtains w' where "push_link w a n b = Some w'" "rep w' (C(a := n # C a)) (add_neighbor a b G)"
    "dom (aw_links w') = insert n (dom (aw_links w))"
proof -
  obtain r where r: "aw_atoms w a = Some r" "link_chain (aw_links w) (at_neighbors r) (C a)"
    "distinct (C a)" "G a = Some (map (link_atom (aw_links w)) (C a))"
    by (rule repE [OF rep a])
  let ?h = "(aw_links w)(n \<mapsto> \<lparr>nb_atom = b, nb_next = at_neighbors r\<rparr>)"
  let ?r = "r\<lparr>at_neighbors := n\<rparr>"
  have nC: "n \<notin> set (C a)" using link_chain_dom [OF r(2)] n(2) by blast
  have ch: "link_chain ?h (at_neighbors ?r) (n # C a)"
  proof -
    have "link_chain ?h (at_neighbors r) (C a) = link_chain (aw_links w) (at_neighbors r) (C a)"
      by (rule link_chain_cong) (use nC in auto)
    then show ?thesis using r(2) n(1) by simp
  qed
  have cells: "set (C a) \<subseteq> dom (aw_links w)" using link_chain_dom [OF r(2)] by blast
  have "rep (w\<lparr>aw_links := ?h, aw_atoms := (aw_atoms w)(a \<mapsto> ?r)\<rparr>) (C(a := n # C a))
      (G(a \<mapsto> map (link_atom ?h) (n # C a)))"
    by (rule rep_update [OF rep r(1) _ _ _ _ ch]) (use n(2) cells nC r(3) in auto)
  moreover have "map (link_atom ?h) (n # C a) = b # the (G a)"
    using r(4) nC by (auto simp: link_atom_def)
  ultimately show thesis
    using that r(1) by (simp add: push_link_def add_neighbor_def)
qed
section \<open>Unlinking\<close>

text \<open>A segment of a list, from \<open>p\<close> through the cells up to \<open>q\<close>.\<close>

fun link_seg :: "(nat \<rightharpoonup> ak_atom_neighbor) \<Rightarrow> nat \<Rightarrow> nat list \<Rightarrow> nat \<Rightarrow> bool" where
  "link_seg h p [] q \<longleftrightarrow> p = q"
| "link_seg h p (c # cs) q \<longleftrightarrow>
     p = c \<and> c \<noteq> 0 \<and> (case h c of None \<Rightarrow> False | Some x \<Rightarrow> link_seg h (nb_next x) cs q)"

lemma link_chain_append: "link_chain h p (xs @ ys) \<longleftrightarrow> (\<exists>q. link_seg h p xs q \<and> link_chain h q ys)"
  by (induction xs arbitrary: p) (auto split: option.splits)

lemma link_seg_snoc:
  "link_seg h p (xs @ [c]) q \<longleftrightarrow> link_seg h p xs c \<and> c \<noteq> 0 \<and> (\<exists>x. h c = Some x \<and> nb_next x = q)"
  by (induction xs arbitrary: p) (auto split: option.splits)

lemma link_seg_cong:
  "(\<And>c. c \<in> set cs \<Longrightarrow> h' c = h c) \<Longrightarrow> link_seg h' p cs q = link_seg h p cs q"
  by (induction cs arbitrary: p) (auto split: option.splits)

lemma world_swap: "w\<lparr>aw_atoms := x, aw_links := y\<rparr> = w\<lparr>aw_links := y, aw_atoms := x\<rparr>"
  by simp

lemma rep_list:
  assumes "rep w C G" and "aw_atoms w a = Some r"
  shows "link_chain (aw_links w) (at_neighbors r) (C a)" "distinct (C a)"
    "G a = Some (map (link_atom (aw_links w)) (C a))"
  using assms by (simp_all add: rep_def)

lemma unlink_hit:
  assumes rep: "rep w C G" and a: "aw_atoms w a = Some r" and C: "C a = ps @ c # cs"
    and c: "aw_links w c = Some x" "nb_atom x = b" and no: "b \<notin> link_atom (aw_links w) ` set ps"
    and prev: "prev = (if ps = [] then 0 else last ps)"
  shows "\<exists>w'. unlink_loop w a b prev c = Some w' \<and> rep w' (C(a := ps @ cs)) (cut_neighbor a b G)"
proof -
  have aG: "a \<in> dom G" using rep a by (auto simp: rep_def)
  have ch: "link_chain (aw_links w) (at_neighbors r) (ps @ c # cs)" and dist: "distinct (ps @ c # cs)"
    and Ga: "G a = Some (map (link_atom (aw_links w)) (ps @ c # cs))"
    using rep_list [OF rep a] C by simp_all
  have seg: "link_seg (aw_links w) (at_neighbors r) ps c" and rest: "link_chain (aw_links w) (nb_next x) cs"
    and c0: "c \<noteq> 0"
    using ch c(1) by (auto simp: link_chain_append)
  have sub: "set (ps @ c # cs) \<subseteq> dom (aw_links w) - {0}" by (rule link_chain_dom [OF ch])
  have cut: "cut_neighbor a b G = G(a \<mapsto> map (link_atom (aw_links w)) (ps @ cs))"
    using Ga no c by (auto simp: cut_neighbor_def remove1_append link_atom_def)
  show ?thesis
  proof (cases "ps = []")
    case True
    let ?h = "(aw_links w)(c := None)"
    let ?r = "r\<lparr>at_neighbors := nb_next x\<rparr>"
    have "link_chain ?h (nb_next x) cs = link_chain (aw_links w) (nb_next x) cs"
      by (rule link_chain_cong) (use dist in auto)
    then have new: "link_chain ?h (at_neighbors ?r) cs" using rest by simp
    have "rep (w\<lparr>aw_links := ?h, aw_atoms := (aw_atoms w)(a \<mapsto> ?r)\<rparr>) (C(a := cs)) (G(a \<mapsto> map (link_atom ?h) cs))"
      by (rule rep_update [OF rep a _ _ _ _ new]) (use C True dist sub in auto)
    moreover have "map (link_atom ?h) cs = map (link_atom (aw_links w)) cs"
      using dist by (auto simp: link_atom_def)
    ultimately show ?thesis
      using True prev a c c0 cut by (subst unlink_loop.simps) (simp add: free_cell_def world_swap)
  next
    case False
    then obtain qs p where ps: "ps = qs @ [p]" by (metis rev_exhaust)
    then obtain y where y: "aw_links w p = Some y" "nb_next y = c" "p \<noteq> 0"
        "link_seg (aw_links w) (at_neighbors r) qs p"
      using seg by (auto simp: link_seg_snoc)
    let ?h = "((aw_links w)(p \<mapsto> y\<lparr>nb_next := nb_next x\<rparr>))(c := None)"
    have pc: "p \<noteq> c" using dist ps by auto
    have "link_seg ?h (at_neighbors r) qs p = link_seg (aw_links w) (at_neighbors r) qs p"
      by (rule link_seg_cong) (use dist ps in auto)
    then have "link_seg ?h (at_neighbors r) ps (nb_next x)"
      unfolding ps link_seg_snoc using y pc by simp
    moreover have "link_chain ?h (nb_next x) cs = link_chain (aw_links w) (nb_next x) cs"
      by (rule link_chain_cong) (use dist ps in auto)
    ultimately have new: "link_chain ?h (at_neighbors r) (ps @ cs)"
      using rest by (auto simp: link_chain_append)
    have upd: "rep (w\<lparr>aw_links := ?h, aw_atoms := (aw_atoms w)(a \<mapsto> r)\<rparr>) (C(a := ps @ cs))
        (G(a \<mapsto> map (link_atom ?h) (ps @ cs)))"
      by (rule rep_update [OF rep a _ _ _ _ new]) (use C ps dist sub in auto)
    have triv: "(aw_atoms w)(a \<mapsto> r) = aw_atoms w" using a by (simp add: fun_upd_idem)
    have same: "map (link_atom ?h) (ps @ cs) = map (link_atom (aw_links w)) (ps @ cs)"
      using dist ps y(1) by (auto simp: link_atom_def)
    have "unlink_loop w a b prev c = Some (w\<lparr>aw_links := ?h\<rparr>)"
      using False prev ps y c c0 pc by (subst unlink_loop.simps) (simp add: free_cell_def)
    moreover have "rep (w\<lparr>aw_links := ?h\<rparr>) (C(a := ps @ cs)) (cut_neighbor a b G)"
      using upd unfolding triv same cut by simp
    ultimately show ?thesis by blast
  qed
qed

lemma unlink_loop_rep:
  assumes rep: "rep w C G" and a: "aw_atoms w a = Some r"
  shows "C a = ps @ cs \<Longrightarrow> link_chain (aw_links w) current cs \<Longrightarrow>
     b \<notin> link_atom (aw_links w) ` set ps \<Longrightarrow> prev = (if ps = [] then 0 else last ps) \<Longrightarrow>
     \<exists>w' C'. unlink_loop w a b prev current = Some w' \<and> rep w' C' (cut_neighbor a b G)"
proof (induction cs arbitrary: ps prev current)
  case Nil
  have aG: "a \<in> dom G" using rep a by (auto simp: rep_def)
  have "G a = Some (map (link_atom (aw_links w)) ps)" using rep_list(3) [OF rep a] Nil.prems(1) by simp
  then have "cut_neighbor a b G = G"
    using Nil.prems(3) by (auto simp: cut_neighbor_def remove1_idem fun_upd_idem)
  then show ?case using Nil.prems(2) rep by (subst unlink_loop.simps) auto
next
  case (Cons c cs)
  then obtain x where x: "aw_links w c = Some x" "current = c" "c \<noteq> 0" "link_chain (aw_links w) (nb_next x) cs"
    by (auto split: option.splits)
  show ?case
  proof (cases "nb_atom x = b")
    case True
    show ?thesis
      unfolding x(2) using unlink_hit [OF rep a Cons.prems(1) x(1) True Cons.prems(3,4)] by blast
  next
    case False
    have "\<exists>w' C'. unlink_loop w a b c (nb_next x) = Some w' \<and> rep w' C' (cut_neighbor a b G)"
      by (rule Cons.IH [of "ps @ [c]"]) (use Cons.prems x False in \<open>auto simp: link_atom_def\<close>)
    then show ?thesis using x False by (subst unlink_loop.simps) simp
  qed
qed

lemma unlink_rep:
  assumes "represents w G" and "a \<in> dom G"
  shows "\<exists>w'. unlink w a b = Some w' \<and> represents w' (cut_neighbor a b G)"
proof -
  obtain C where rep: "rep w C G" using assms(1) by (auto simp: represents_def)
  obtain r where r: "aw_atoms w a = Some r" "link_chain (aw_links w) (at_neighbors r) (C a)"
    by (rule repE [OF rep assms(2)])
  then show ?thesis
    using unlink_loop_rep [OF rep r(1), of "[]" "C a"] by (auto simp: unlink_def represents_def)
qed

section \<open>Bonds\<close>

lemma bond_rep:
  assumes "represents w G" and ab: "a \<in> dom G" "b \<in> dom G"
  obtains (bonded) w' s' where "ak_atom_bond w a b s = Some (0, w', s')"
      "represents w' (add_neighbor b a (add_neighbor a b G))"
  | (failed) s' where "ak_atom_bond w a b s = Some (-1, w, s')"
      "\<not> (\<exists>g1 g2 s'. s = Some g1 # Some g2 # s' \<and> g1 0 \<noteq> 0 \<and> aw_links w (g1 0) = None
           \<and> g2 0 \<noteq> 0 \<and> aw_links w (g2 0) = None \<and> g1 0 \<noteq> g2 0)"
proof -
  obtain C where rep: "rep w C G" using assms(1) by (auto simp: represents_def)
  have nz: "a \<noteq> 0" "b \<noteq> 0" using rep ab by (auto simp: rep_def)
  obtain n1 s1 where n1: "alloc_cell (aw_links w) s = (n1, s1)" by fastforce
  let ?h = "case n1 of None \<Rightarrow> aw_links w | Some n \<Rightarrow> (aw_links w)(n \<mapsto> \<lparr>nb_atom = b, nb_next = 0\<rparr>)"
  obtain n2 s2 where n2: "alloc_cell ?h s1 = (n2, s2)" by fastforce
  show thesis
  proof (cases "n1 = None \<or> n2 = None")
    case True
    have "ak_atom_bond w a b s = Some (-1, w, s2)"
      using True nz n1 n2 by (cases n1; cases n2) (auto simp: ak_atom_bond_def)
    moreover have "\<not> (\<exists>g1 g2 s'. s = Some g1 # Some g2 # s' \<and> g1 0 \<noteq> 0 \<and> aw_links w (g1 0) = None
           \<and> g2 0 \<noteq> 0 \<and> aw_links w (g2 0) = None \<and> g1 0 \<noteq> g2 0)"
      using True n1 n2 by (auto simp: alloc_cell_def)
    ultimately show thesis by (rule failed)
  next
    case False
    then obtain p q where pq: "n1 = Some p" "n2 = Some q" by auto
    have p: "p \<noteq> 0" "aw_links w p = None" using alloc_cell_Some n1 pq(1) by blast+
    have q: "q \<noteq> 0" "aw_links w q = None" "q \<noteq> p"
      using alloc_cell_Some [of ?h s1 q s2] n2 pq by (auto split: if_splits)
    obtain w1 where w1: "push_link w a p b = Some w1" "rep w1 (C(a := p # C a)) (add_neighbor a b G)"
        "dom (aw_links w1) = insert p (dom (aw_links w))"
      by (rule push_link_rep [OF rep ab(1) p])
    have b1: "b \<in> dom (add_neighbor a b G)" using ab by (auto simp: add_neighbor_def)
    have "aw_links w1 q = None" using w1(3) q by blast
    then obtain w2 where w2: "push_link w1 b q a = Some w2"
        "\<exists>C'. rep w2 C' (add_neighbor b a (add_neighbor a b G))"
      using push_link_rep [OF w1(2) b1 q(1)] by metis
    have "ak_atom_bond w a b s = Some (0, w2, s2)"
      using nz n1 n2 pq w1(1) w2(1) by (simp add: ak_atom_bond_def)
    then show thesis using bonded w2(2) by (auto simp: represents_def)
  qed
qed

lemma unbond_rep:
  assumes "represents w G" and "a \<in> dom G" and "b \<in> dom G"
  shows "\<exists>w'. ak_atom_unbond w a b = Some (0, w') \<and> represents w' (cut_neighbor b a (cut_neighbor a b G))"
proof -
  have nz: "a \<noteq> 0" "b \<noteq> 0" using assms by (auto simp: represents_def rep_def)
  obtain w1 where w1: "unlink w a b = Some w1" "represents w1 (cut_neighbor a b G)"
    using unlink_rep [OF assms(1,2)] by blast
  have "b \<in> dom (cut_neighbor a b G)" using assms by (auto simp: cut_neighbor_def)
  then obtain w2 where "unlink w1 b a = Some w2" "represents w2 (cut_neighbor b a (cut_neighbor a b G))"
    using unlink_rep [OF w1(2)] by blast
  then show ?thesis using nz w1(1) by (simp add: ak_atom_unbond_def)
qed

lemma cut_add_neighbor:
  "a \<in> dom G \<Longrightarrow> b \<in> dom G \<Longrightarrow>
   cut_neighbor b a (cut_neighbor a b (add_neighbor b a (add_neighbor a b G))) = G"
  by (auto simp: cut_neighbor_def add_neighbor_def fun_eq_iff)

text \<open>Every bond is entered at both ends.\<close>

definition bonds :: "(nat \<rightharpoonup> nat list) \<Rightarrow> nat \<Rightarrow> nat \<Rightarrow> nat" where
  "bonds G a b = count_list (the (G a)) b"

definition symmetric :: "(nat \<rightharpoonup> nat list) \<Rightarrow> bool" where
  "symmetric G \<longleftrightarrow> (\<forall>a \<in> dom G. set (the (G a)) \<subseteq> dom G) \<and> (\<forall>a \<in> dom G. \<forall>b \<in> dom G. bonds G a b = bonds G b a)"

lemma count_list_remove1: "count_list (remove1 x xs) y = count_list xs y - (if x = y then 1 else 0)"
  by (induction xs) (auto simp: count_list_0_iff)

lemma bonds_add: "bonds (add_neighbor a b G) x y = bonds G x y + (if x = a \<and> y = b then 1 else 0)"
  by (auto simp: bonds_def add_neighbor_def)

lemma bonds_cut: "bonds (cut_neighbor a b G) x y = bonds G x y - (if x = a \<and> y = b then 1 else 0)"
  by (auto simp: bonds_def cut_neighbor_def count_list_remove1)

lemma dom_neighbor [simp]:
  "dom (add_neighbor a b G) = insert a (dom G)" "dom (cut_neighbor a b G) = insert a (dom G)"
  by (auto simp: add_neighbor_def cut_neighbor_def)

lemma set_neighbor:
  "set (the (add_neighbor a b G x)) \<subseteq> insert b (set (the (G x)))"
  "set (the (cut_neighbor a b G x)) \<subseteq> set (the (G x))"
  using set_remove1_subset [of b "the (G x)"] by (auto simp: add_neighbor_def cut_neighbor_def)

lemma symmetric_bonds: "symmetric G \<Longrightarrow> a \<in> dom G \<Longrightarrow> b \<in> dom G \<Longrightarrow> bonds G a b = bonds G b a"
  unfolding symmetric_def by (elim conjE) (drule (1) bspec, drule (1) bspec, assumption)

lemma symmetric_add:
  assumes "symmetric G" and "a \<in> dom G" and "b \<in> dom G"
  shows "symmetric (add_neighbor b a (add_neighbor a b G))"
proof -
  let ?H = "add_neighbor b a (add_neighbor a b G)"
  have d: "dom ?H = dom G" using assms(2,3) by auto
  have "set (the (?H x)) \<subseteq> dom G" if "x \<in> dom G" for x
  proof -
    have "set (the (G x)) \<subseteq> dom G" using assms(1) that by (simp add: symmetric_def)
    then show ?thesis
      using set_neighbor(1) [of b a "add_neighbor a b G" x] set_neighbor(1) [of a b G x] assms(2,3) by blast
  qed
  moreover have "bonds ?H x y = bonds ?H y x" if "x \<in> dom G" "y \<in> dom G" for x y
  proof -
    have swap: "bonds G x y = bonds G y x" by (rule symmetric_bonds [OF assms(1) that])
    show ?thesis unfolding bonds_add swap by (simp only: conj_commute ac_simps)
  qed
  ultimately show ?thesis unfolding symmetric_def d by (intro conjI ballI)
qed

lemma symmetric_cut:
  assumes "symmetric G" and "a \<in> dom G" and "b \<in> dom G"
  shows "symmetric (cut_neighbor b a (cut_neighbor a b G))"
proof -
  let ?H = "cut_neighbor b a (cut_neighbor a b G)"
  have d: "dom ?H = dom G" using assms(2,3) by auto
  have "set (the (?H x)) \<subseteq> dom G" if "x \<in> dom G" for x
  proof -
    have "set (the (G x)) \<subseteq> dom G" using assms(1) that by (simp add: symmetric_def)
    then show ?thesis
      using set_neighbor(2) [of b a "cut_neighbor a b G" x] set_neighbor(2) [of a b G x] by blast
  qed
  moreover have "bonds ?H x y = bonds ?H y x" if "x \<in> dom G" "y \<in> dom G" for x y
  proof -
    have swap: "bonds G x y = bonds G y x" by (rule symmetric_bonds [OF assms(1) that])
    show ?thesis unfolding bonds_cut swap by (simp only: conj_commute diff_diff_left ac_simps)
  qed
  ultimately show ?thesis unfolding symmetric_def d by (intro conjI ballI)
qed
section \<open>Clusters\<close>

definition cluster_ok :: "ak_atom_cluster \<Rightarrow> bool" where
  "cluster_ok cl \<longleftrightarrow> length (cl_atoms cl) = cl_capacity cl \<and> cl_count cl \<le> cl_capacity cl
     \<and> 0 < cl_capacity cl \<and> cl_capacity cl < 2 ^ 59"

definition cluster_view :: "ak_atom_cluster \<Rightarrow> nat list" where
  "cluster_view cl = take (cl_count cl) (cl_atoms cl)"

lemma cluster_view_length: "cluster_ok cl \<Longrightarrow> length (cluster_view cl) = cl_count cl"
  by (simp add: cluster_ok_def cluster_view_def)

lemma cluster_new_cases:
  assumes "0 < n" and "n < 2 ^ 59"
  obtains (failed) s' where "ak_atom_cluster_new n s = (None, s')" "None \<in> set s \<or> length s < 2"
  | (made) cl s' where "ak_atom_cluster_new n s = (Some cl, s')" "cluster_ok cl" "cluster_view cl = []"
      "cl_capacity cl = n" "set s' \<subseteq> set s" "length s = 2 + length s'"
proof (cases "\<exists>g1 g2 s'. s = Some g1 # Some g2 # s'")
  case True
  then obtain g1 g2 s' where s: "s = Some g1 # Some g2 # s'" by blast
  have "sz_mul 8 n div 8 = n" using assms(2) by (simp add: sz_mul_exact)
  then show thesis
    using s assms made by (auto simp: ak_atom_cluster_new_def alloc_ptrs_def cluster_ok_def cluster_view_def)
next
  case False
  then have "(\<exists>s'. ak_atom_cluster_new n s = (None, s')) \<and> (None \<in> set s \<or> length s < 2)"
    by (cases s; cases "hd s"; cases "tl s"; cases "hd (tl s)")
      (auto simp: ak_atom_cluster_new_def alloc_ptrs_def)
  then show thesis using failed by blast
qed

text \<open>
  Adding an atom appends it, or leaves the cluster alone when it has to grow and the
  allocator refuses.
\<close>

lemma cluster_add_cases:
  assumes ok: "cluster_ok cl" and a: "a \<noteq> 0" and small: "cl_capacity cl < 2 ^ 58"
  obtains (failed) s' where "ak_atom_cluster_add cl a s = Some (-1, cl, s')"
      "s = [] \<and> s' = [] \<or> s = None # s'"
  | (added) cl' s' where "ak_atom_cluster_add cl a s = Some (0, cl', s')" "cluster_ok cl'"
      "cluster_view cl' = cluster_view cl @ [a]"
      "cl_capacity cl' \<le> max (cl_capacity cl) (2 * cl_count cl)" "s' = s \<or> (\<exists>r. s = r # s')"
proof (cases "cl_capacity cl \<le> cl_count cl")
  case False
  then have "ak_atom_cluster_add cl a s = Some (0, cl\<lparr>cl_atoms := (cl_atoms cl)[cl_count cl := a],
      cl_count := cl_count cl + 1\<rparr>, s)"
    using a ok by (simp add: ak_atom_cluster_add_def cluster_ok_def mem_simps sz_add_exact)
  then show thesis
    using False ok added
    by (simp add: cluster_ok_def cluster_view_def take_Suc_conv_app_nth)
next
  case True
  then have full: "cl_count cl = cl_capacity cl" "length (cl_atoms cl) = cl_count cl" "0 < cl_count cl"
    using ok by (simp_all add: cluster_ok_def)
  have sz: "sz_mul (cl_capacity cl) 2 = 2 * cl_capacity cl" "sz_mul 8 (2 * cl_capacity cl) div 8 = 2 * cl_capacity cl"
    using small by (simp_all add: sz_mul_exact)
  obtain r s' where r: "realloc_ptrs (Some (cl_atoms cl)) (2 * cl_capacity cl) s = (r, s')" by fastforce
  show thesis
  proof (cases r)
    case None
    then have "ak_atom_cluster_add cl a s = Some (-1, cl, s')"
      using True a sz r by (simp add: ak_atom_cluster_add_def Let_def)
    moreover have "s = [] \<and> s' = [] \<or> s = None # s'"
      using r None by (cases s) (auto simp: realloc_ptrs_def Let_def split: prod.splits)
    ultimately show thesis by (rule failed)
  next
    case (Some xs)
    have xs: "length xs = 2 * cl_count cl" "take (cl_count cl) xs = cl_atoms cl"
      using realloc_ptrs_Some [OF r [unfolded Some]] realloc_ptrs_Some(2) [OF r [unfolded Some], of "cl_count cl"] full
      by simp_all
    let ?cl = "cl\<lparr>cl_atoms := xs[cl_count cl := a], cl_capacity := 2 * cl_capacity cl,
                  cl_count := cl_count cl + 1\<rparr>"
    have "ak_atom_cluster_add cl a s = Some (0, ?cl, s')"
      using True a sz r Some xs full small by (simp add: ak_atom_cluster_add_def Let_def mem_simps sz_add_exact)
    moreover have "cluster_ok ?cl" using full xs small by (simp add: cluster_ok_def)
    moreover have "cluster_view ?cl = cluster_view cl @ [a]"
      using full xs by (simp add: cluster_view_def take_Suc_conv_app_nth)
    moreover have "\<exists>r. s = r # s'"
      using r Some by (cases s) (auto simp: realloc_ptrs_def Let_def split: prod.splits)
    ultimately show thesis using added [of ?cl s'] full by simp
  qed
qed

section \<open>The search\<close>

fun walk :: "(nat \<rightharpoonup> nat list) \<Rightarrow> nat \<Rightarrow> nat \<Rightarrow> nat \<Rightarrow> bool" where
  "walk G 0 a b \<longleftrightarrow> a = b"
| "walk G (Suc n) a b \<longleftrightarrow> (\<exists>c \<in> set (the (G a)). walk G n c b)"

fun fold_opt :: "('x \<Rightarrow> 's \<Rightarrow> 's option) \<Rightarrow> 'x list \<Rightarrow> 's \<Rightarrow> 's option" where
  "fold_opt f [] st = Some st"
| "fold_opt f (x # xs) st = Option.bind (f x st) (fold_opt f xs)"

lemma for_links_fold:
  "link_chain h p cs \<Longrightarrow> for_links f h p st = fold_opt f (map (link_atom h) cs) st"
proof (induction cs arbitrary: p st)
  case Nil
  then show ?case by (subst for_links.simps) simp
next
  case (Cons c cs)
  then obtain x where x: "h c = Some x" "p = c" "c \<noteq> 0" "link_chain h (nb_next x) cs"
    by (auto split: option.splits)
  have "for_links f h (nb_next x) = fold_opt f (map (link_atom h) cs)"
    by (rule ext) (rule Cons.IH [OF x(4)])
  then show ?case using x(1-3) by (subst for_links.simps) (simp add: link_atom_def)
qed

lemma search_step:
  assumes "represents w G" and "a \<in> dom G"
  shows "ak_atom_neighbors_recursive (Suc n) w distance a (cl, vis, s) =
    (if a \<in> set vis then Some (cl, vis, s)
     else let vis' = (if length vis < VISITED_CAPACITY then vis @ [a] else vis) in
       if n = 0 \<and> distance > 0
       then Option.bind (ak_atom_cluster_add cl a s) (\<lambda>(_, cl', s'). Some (cl', vis', s'))
       else fold_opt (ak_atom_neighbors_recursive n w distance) (the (G a)) (cl, vis', s))"
proof -
  obtain C where rep: "rep w C G" using assms(1) by (auto simp: represents_def)
  obtain r where r: "aw_atoms w a = Some r" "link_chain (aw_links w) (at_neighbors r) (C a)"
    "G a = Some (map (link_atom (aw_links w)) (C a))" "a \<noteq> 0"
    by (rule repE [OF rep assms(2)])
  show ?thesis
    using r by (simp add: for_links_fold [OF r(2)] Let_def)
qed

declare ak_atom_neighbors_recursive.simps(2) [simp del]

text \<open>
  The invariant of a search in a graph of at most 1024 atoms: no atom is recorded twice, and
  the cluster holds recorded atoms, none of them twice.
\<close>

definition search_ok :: "(nat \<rightharpoonup> nat list) \<Rightarrow> search \<Rightarrow> bool" where
  "search_ok G st \<longleftrightarrow> (case st of (cl, vis, s) \<Rightarrow>
     distinct vis \<and> set vis \<subseteq> dom G \<and> cluster_ok cl \<and> cl_capacity cl \<le> 2048
     \<and> distinct (cluster_view cl) \<and> set (cluster_view cl) \<subseteq> set vis)"

definition search_adds :: "(nat \<Rightarrow> bool) \<Rightarrow> search \<Rightarrow> search \<Rightarrow> bool" where
  "search_adds P st st' \<longleftrightarrow> (case (st, st') of ((cl, vis, s), (cl', vis', s')) \<Rightarrow>
     set vis \<subseteq> set vis' \<and> (\<forall>b \<in> set (cluster_view cl'). b \<in> set (cluster_view cl) \<or> b \<notin> set vis \<and> P b))"

lemma search_adds_refl: "search_adds P st st"
  by (auto simp: search_adds_def split: prod.splits)

lemma search_adds_trans:
  "search_adds P st st' \<Longrightarrow> search_adds P st' st'' \<Longrightarrow> search_adds P st st''"
  unfolding search_adds_def by (auto split: prod.splits)

lemma search_adds_mono:
  "search_adds P st st' \<Longrightarrow> (\<And>b. P b \<Longrightarrow> Q b) \<Longrightarrow> search_adds Q st st'"
  unfolding search_adds_def by (auto split: prod.splits)

lemma fold_search:
  assumes "\<And>x st. x \<in> set xs \<Longrightarrow> search_ok G st \<Longrightarrow>
      \<exists>st'. f x st = Some st' \<and> search_ok G st' \<and> search_adds P st st'"
  shows "search_ok G st \<Longrightarrow> \<exists>st'. fold_opt f xs st = Some st' \<and> search_ok G st' \<and> search_adds P st st'"
  using assms
proof (induction xs arbitrary: st)
  case Nil
  then show ?case using search_adds_refl by auto
next
  case (Cons x xs)
  obtain st1 where st1: "f x st = Some st1" "search_ok G st1" "search_adds P st st1"
    using Cons.prems by fastforce
  obtain st2 where "fold_opt f xs st1 = Some st2" "search_ok G st2" "search_adds P st1 st2"
    using Cons.IH [OF st1(2)] Cons.prems(2) by auto
  then show ?case using st1 search_adds_trans by auto
qed

text \<open>The search at its last level.\<close>

lemma search_leaf_cases:
  assumes w: "represents w G" and size: "finite (dom G)" "card (dom G) \<le> VISITED_CAPACITY"
    and d: "0 < distance" and a: "a \<in> dom G" "a \<notin> set vis" and sok: "search_ok G (cl, vis, s)"
  obtains (failed) s' where "ak_atom_neighbors_recursive (Suc 0) w distance a (cl, vis, s) = Some (cl, vis @ [a], s')"
      "search_ok G (cl, vis @ [a], s')" "s = [] \<or> None \<in> set s"
  | (added) cl' s' where "ak_atom_neighbors_recursive (Suc 0) w distance a (cl, vis, s) = Some (cl', vis @ [a], s')"
      "search_ok G (cl', vis @ [a], s')" "cluster_view cl' = cluster_view cl @ [a]" "s' = s \<or> (\<exists>r. s = r # s')"
proof -
  note ok = sok [unfolded search_ok_def prod.case]
  have "length vis = card (set vis)" using ok by (simp add: distinct_card)
  also have "\<dots> < card (dom G)" using ok a size(1) by (intro psubset_card_mono) auto
  finally have room: "length vis < VISITED_CAPACITY" using size(2) by simp
  have a0: "a \<noteq> 0" using w a(1) by (auto simp: represents_def rep_def)
  have "cl_count cl = card (set (cluster_view cl))"
    using ok cluster_view_length [of cl] distinct_card [of "cluster_view cl"] by simp
  also have "\<dots> \<le> card (set vis)" using ok by (intro card_mono) auto
  finally have count: "cl_count cl \<le> length vis" using ok by (simp add: distinct_card)
  have eq: "ak_atom_neighbors_recursive (Suc 0) w distance a (cl, vis, s) =
      Option.bind (ak_atom_cluster_add cl a s) (\<lambda>(_, cl', s'). Some (cl', vis @ [a], s'))"
    using a(2) room d search_step [OF w a(1), of 0 distance cl vis s] by (simp add: Let_def)
  have cl: "cluster_ok cl" "cl_capacity cl < 2 ^ 58" using ok by auto
  from cl(1) a0 cl(2) show thesis
  proof (cases rule: cluster_add_cases [where s = s])
    case (failed s')
    moreover have "search_ok G (cl, vis @ [a], s')" using ok a by (auto simp: search_ok_def)
    ultimately show thesis using eq that(1) [of s'] by auto
  next
    case (added cl' s')
    moreover have "search_ok G (cl', vis @ [a], s')"
      using ok a added count room by (auto simp: search_ok_def)
    ultimately show thesis using eq that(2) [of cl' s'] by simp
  qed
qed

lemma search_leaf:
  assumes w: "represents w G" and size: "finite (dom G)" "card (dom G) \<le> VISITED_CAPACITY"
    and d: "0 < distance" and a: "a \<in> dom G" and sok: "search_ok G st"
  shows "\<exists>st'. ak_atom_neighbors_recursive (Suc 0) w distance a st = Some st' \<and> search_ok G st'
      \<and> search_adds (walk G 0 a) st st'"
proof -
  obtain cl vis s where st: "st = (cl, vis, s)" by (cases st)
  show ?thesis
  proof (cases "a \<in> set vis")
    case True
    then show ?thesis using sok search_step [OF w a] search_adds_refl st by auto
  next
    case False
    from w size d a False sok [unfolded st] show ?thesis
      unfolding st
      by (cases rule: search_leaf_cases) (use False in \<open>auto simp: search_adds_def\<close>)
  qed
qed

text \<open>At the last level every new atom is added when the allocator never refuses.\<close>

lemma fold_leaves:
  assumes w: "represents w G" and size: "finite (dom G)" "card (dom G) \<le> VISITED_CAPACITY" and d: "0 < distance"
  shows "set xs \<subseteq> dom G \<Longrightarrow> search_ok G (cl, vis, s) \<Longrightarrow> None \<notin> set s \<Longrightarrow>
    card (dom G) \<le> length s + length vis \<Longrightarrow>
    \<exists>cl' vis' s'. fold_opt (ak_atom_neighbors_recursive (Suc 0) w distance) xs (cl, vis, s) = Some (cl', vis', s')
      \<and> set (cluster_view cl') = set (cluster_view cl) \<union> (set xs - set vis)"
proof (induction xs arbitrary: cl vis s)
  case (Cons x xs)
  show ?case
  proof (cases "x \<in> set vis")
    case True
    then have "ak_atom_neighbors_recursive (Suc 0) w distance x (cl, vis, s) = Some (cl, vis, s)"
      using search_step [OF w] Cons.prems(1) by simp
    then show ?thesis using Cons.IH [OF _ Cons.prems(2-4)] Cons.prems(1) True by auto
  next
    case False
    have x: "x \<in> dom G" using Cons.prems(1) by simp
    have "length vis < card (dom G)"
    proof -
      have "length vis = card (set vis)" using Cons.prems(2) by (simp add: search_ok_def distinct_card)
      also have "\<dots> < card (dom G)"
        using Cons.prems(2) x False size(1) by (intro psubset_card_mono) (auto simp: search_ok_def)
      finally show ?thesis .
    qed
    then have "s \<noteq> []" using Cons.prems(4) by auto
    from w size d x False Cons.prems(2) show ?thesis
    proof (cases rule: search_leaf_cases)
      case (failed s')
      then show ?thesis using \<open>s \<noteq> []\<close> Cons.prems(3) by blast
    next
      case (added cl1 s1)
      have s1: "None \<notin> set s1" "card (dom G) \<le> length s1 + length (vis @ [x])"
        using added(4) Cons.prems(3,4) by auto
      obtain cl2 vis2 s2 where "fold_opt (ak_atom_neighbors_recursive (Suc 0) w distance) xs (cl1, vis @ [x], s1)
            = Some (cl2, vis2, s2)"
          "set (cluster_view cl2) = set (cluster_view cl1) \<union> (set xs - set (vis @ [x]))"
        using Cons.IH [OF _ added(2) s1] Cons.prems(1) by auto
      then show ?thesis using added(1,3) False by auto
    qed
  qed
qed simp

lemma search_correct:
  assumes w: "represents w G" and closed: "\<forall>a \<in> dom G. set (the (G a)) \<subseteq> dom G"
    and size: "finite (dom G)" "card (dom G) \<le> VISITED_CAPACITY" and d: "0 < distance"
  shows "a \<in> dom G \<Longrightarrow> search_ok G st \<Longrightarrow>
    \<exists>st'. ak_atom_neighbors_recursive (Suc n) w distance a st = Some st' \<and> search_ok G st'
      \<and> search_adds (walk G n a) st st'"
proof (induction n arbitrary: a st)
  case 0
  then show ?case by (rule search_leaf [OF w size d])
next
  case (Suc n)
  obtain cl vis s where st: "st = (cl, vis, s)" by (cases st)
  note ok = Suc(3) [unfolded st search_ok_def prod.case]
  show ?case
  proof (cases "a \<in> set vis")
    case True
    then show ?thesis using Suc(3) search_step [OF w Suc(2)] search_adds_refl st by auto
  next
    case False
    let ?vis = "if length vis < VISITED_CAPACITY then vis @ [a] else vis"
    let ?st = "(cl, ?vis, s)"
    have ok': "search_ok G ?st" using ok False Suc(2) by (auto simp: search_ok_def)
    have first: "search_adds (walk G (Suc n) a) st ?st" by (auto simp: st search_adds_def)
    have body: "\<exists>st'. ak_atom_neighbors_recursive (Suc n) w distance x t = Some st' \<and> search_ok G st'
        \<and> search_adds (walk G (Suc n) a) t st'" if x: "x \<in> set (the (G a))" and t: "search_ok G t" for x t
    proof -
      have "x \<in> dom G" using closed Suc(2) x by blast
      then obtain st' where "ak_atom_neighbors_recursive (Suc n) w distance x t = Some st'"
          "search_ok G st'" "search_adds (walk G n x) t st'"
        using Suc.IH [OF _ t] by blast
      then show ?thesis using search_adds_mono [of "walk G n x" t st' "walk G (Suc n) a"] x by auto
    qed
    obtain st' where st': "fold_opt (ak_atom_neighbors_recursive (Suc n) w distance) (the (G a)) ?st = Some st'"
        "search_ok G st'" "search_adds (walk G (Suc n) a) ?st st'"
      using fold_search [where xs = "the (G a)" and f = "ak_atom_neighbors_recursive (Suc n) w distance"
          and P = "walk G (Suc n) a" and G = G, OF body ok'] by blast
    have "ak_atom_neighbors_recursive (Suc (Suc n)) w distance a st = Some st'"
      using False st'(1) search_step [OF w Suc(2), of "Suc n" distance cl vis s] st by (simp add: Let_def)
    then show ?thesis using st' search_adds_trans [OF first st'(3)] by blast
  qed
qed
section \<open>Atoms and their lifetime\<close>

lemma free_links_eq:
  "link_chain h p cs \<Longrightarrow> distinct cs \<Longrightarrow> free_links h p = Some (h |` (- set cs))"
proof (induction cs arbitrary: p h)
  case Nil
  then show ?case by (subst free_links.simps) (simp add: restrict_map_def)
next
  case (Cons c cs)
  then obtain x where x: "h c = Some x" "p = c" "c \<noteq> 0" "link_chain h (nb_next x) cs"
    by (auto split: option.splits)
  have "link_chain (h(c := None)) (nb_next x) cs = link_chain h (nb_next x) cs"
    by (rule link_chain_cong) (use Cons.prems(2) in auto)
  then have ch: "link_chain (h(c := None)) (nb_next x) cs" using x(4) by simp
  have "free_links (h(c := None)) (nb_next x) = Some (h(c := None) |` (- set cs))"
    by (rule Cons.IH [OF ch]) (use Cons.prems(2) in simp)
  then have "free_links h p = Some (h(c := None) |` (- set cs))"
    using x(1-3) by (subst free_links.simps) (simp del: fun_upd_restrict_conv)
  also have "h(c := None) |` (- set cs) = h |` (- set (c # cs))" by (auto simp: restrict_map_def)
  finally show ?case .
qed

lemma rep_disjoint:
  "rep w C G \<Longrightarrow> x \<in> dom G \<Longrightarrow> y \<in> dom G \<Longrightarrow> x \<noteq> y \<Longrightarrow> set (C x) \<inter> set (C y) = {}"
  unfolding rep_def by blast

lemma free_rep:
  assumes "represents w G" and a: "a \<in> dom G"
  shows "\<exists>w'. ak_atom_free w a = Some w' \<and> represents w' (G(a := None))"
proof -
  obtain C where rep: "rep w C G" using assms(1) by (auto simp: represents_def)
  obtain r where r: "aw_atoms w a = Some r" "link_chain (aw_links w) (at_neighbors r) (C a)"
      "distinct (C a)" "a \<noteq> 0"
    by (rule repE [OF rep a])
  let ?h = "aw_links w |` (- set (C a))"
  let ?w = "w\<lparr>aw_atoms := (aw_atoms w)(a := None), aw_links := ?h\<rparr>"
  have free: "ak_atom_free w a = Some ?w" using r free_links_eq [OF r(2,3)] by (simp add: ak_atom_free_def)
  have disj: "set (C x) \<inter> set (C a) = {}" if "x \<in> dom G" "x \<noteq> a" for x
    using rep a that unfolding rep_def by blast
  have lists: "link_chain ?h (at_neighbors q) (C x) \<and> distinct (C x)
      \<and> G x = Some (map (link_atom ?h) (C x))" if q: "aw_atoms w x = Some q" "x \<noteq> a" for x q
  proof -
    have "x \<in> dom G" using rep q(1) by (auto simp: rep_def)
    then have keep: "?h c = aw_links w c" if "c \<in> set (C x)" for c
      using disj [of x] q(2) that by (auto simp: restrict_map_def)
    have "link_chain ?h (at_neighbors q) (C x) = link_chain (aw_links w) (at_neighbors q) (C x)"
      by (rule link_chain_cong) (rule keep)
    moreover have "map (link_atom ?h) (C x) = map (link_atom (aw_links w)) (C x)"
      using keep by (simp add: link_atom_def)
    ultimately show ?thesis using rep_list [OF rep q(1)] by simp
  qed
  have sep: "set (C x) \<inter> set (C y) = {}" if "x \<in> dom (aw_atoms w)" "y \<in> dom (aw_atoms w)" "x \<noteq> y" for x y
    using rep that unfolding rep_def by blast
  have "dom ?h = (\<Union>x \<in> dom G - {a}. set (C x))"
    using rep disj unfolding rep_def by auto
  moreover have "dom (G(a := None)) = dom ((aw_atoms w)(a := None))" "0 \<notin> dom (G(a := None))"
    using rep unfolding rep_def by auto
  ultimately have "rep ?w C (G(a := None))"
    using lists sep unfolding rep_def by auto
  then show ?thesis using free by (auto simp: represents_def)
qed

lemma atom_new_rep:
  assumes "represents w G" and new: "ak_atom_new w ty v d s = (Some a, w', s')"
  shows "represents w' (G(a \<mapsto> [])) \<and> a \<notin> dom G \<and> a \<noteq> 0"
proof -
  obtain C where rep: "rep w C G" using assms(1) by (auto simp: represents_def)
  have a: "a \<noteq> 0" "aw_atoms w a = None"
    using new alloc_cell_Some [of "aw_atoms w" s a] by (auto simp: ak_atom_new_def split: prod.splits option.splits)
  have d: "dom G = dom (aw_atoms w)" using rep by (simp add: rep_def)
  then have aG: "a \<notin> dom G" using a(2) by blast
  have w': "w' = w\<lparr>aw_atoms := (aw_atoms w)(a \<mapsto> \<lparr>at_type = ty, at_dimensionality = d,
      at_neighbors = 0, at_value = member_bits ty v\<rparr>)\<rparr>"
    using new by (auto simp: ak_atom_new_def split: prod.splits option.splits)
  have lists: "link_chain (aw_links w) (at_neighbors q) (C x) \<and> distinct (C x)
      \<and> G x = Some (map (link_atom (aw_links w)) (C x))" if "aw_atoms w x = Some q" for x q
    using rep_list [OF rep that] by simp
  have cells: "dom (aw_links w) = (\<Union>x \<in> dom G. set ((C(a := [])) x))"
  proof -
    have "(\<Union>x \<in> dom G. set ((C(a := [])) x)) = (\<Union>x \<in> dom G. set (C x))" using aG by (intro SUP_cong) auto
    then show ?thesis using rep by (simp add: rep_def)
  qed
  have sep: "set ((C(a := [])) x) \<inter> set ((C(a := [])) y) = {}" if "x \<noteq> y" "x \<in> insert a (dom G)" "y \<in> insert a (dom G)" for x y
    using rep_disjoint [OF rep, of x y] that by (cases "x = a"; cases "y = a") auto
  have "rep w' (C(a := [])) (G(a \<mapsto> []))"
    using rep a(1) d lists cells sep unfolding w' rep_def by auto
  then show ?thesis using a(1) aG by (auto simp: represents_def)
qed

section \<open>Properties of atoms\<close>

text \<open>
  C38: Bonds. When the stores represent a graph in which every bond is entered at both ends,
  bonding two atoms returns and either enters each at the front of the other's list, or
  changes nothing because the allocator refused a cell; unbonding removes the first entry
  for each other at both ends and frees the cells. Both keep the stores well-formed and the
  graph symmetric, and unbonding undoes a bond.\<close>

theorem atom_bond_spec:
  assumes "represents w G" and "symmetric G" and "a \<in> dom G" and "b \<in> dom G"
  shows "(\<exists>r w' s'. ak_atom_bond w a b s = Some (r, w', s')
      \<and> (if r = 0
         then represents w' (add_neighbor b a (add_neighbor a b G))
           \<and> symmetric (add_neighbor b a (add_neighbor a b G))
           \<and> (\<exists>w''. ak_atom_unbond w' a b = Some (0, w'') \<and> represents w'' G)
         else r = -1 \<and> w' = w
           \<and> \<not> (\<exists>g1 g2 s'. s = Some g1 # Some g2 # s' \<and> g1 0 \<noteq> 0 \<and> aw_links w (g1 0) = None
                 \<and> g2 0 \<noteq> 0 \<and> aw_links w (g2 0) = None \<and> g1 0 \<noteq> g2 0)))
    \<and> (\<exists>w'. ak_atom_unbond w a b = Some (0, w')
        \<and> represents w' (cut_neighbor b a (cut_neighbor a b G))
        \<and> symmetric (cut_neighbor b a (cut_neighbor a b G)))"
proof -
  let ?H = "add_neighbor b a (add_neighbor a b G)"
  have unbond: "\<exists>w'. ak_atom_unbond w a b = Some (0, w')
        \<and> represents w' (cut_neighbor b a (cut_neighbor a b G))
        \<and> symmetric (cut_neighbor b a (cut_neighbor a b G))"
    using unbond_rep [OF assms(1,3,4)] symmetric_cut [OF assms(2-4)] by blast
  from assms(1,3,4) show ?thesis
  proof (cases rule: bond_rep [where s = s])
    case (bonded w' s')
    have ab: "a \<in> dom ?H" "b \<in> dom ?H" using assms(3,4) by simp_all
    have "\<exists>w''. ak_atom_unbond w' a b = Some (0, w'') \<and> represents w'' G"
      using unbond_rep [OF bonded(2) ab] cut_add_neighbor [OF assms(3,4)] by simp
    then show ?thesis using bonded symmetric_add [OF assms(2-4)] unbond by simp
  next
    case (failed s')
    then show ?thesis using unbond by simp
  qed
qed

text \<open>A search from the empty state.\<close>

lemma search_from_start:
  assumes w: "represents w G" and closed: "\<forall>a \<in> dom G. set (the (G a)) \<subseteq> dom G"
    and size: "finite (dom G)" "card (dom G) \<le> VISITED_CAPACITY" and a: "a \<in> dom G" and d: "0 < distance"
    and cl: "search_ok G (cl, [], s)" "cluster_view cl = []"
  obtains cl' vis' s' where
    "ak_atom_neighbors_recursive (Suc distance) w distance a (cl, [], s) = Some (cl', vis', s')"
    "distinct (cluster_view cl')" "a \<notin> set (cluster_view cl')" "\<forall>b \<in> set (cluster_view cl'). walk G distance a b"
    "distance = 1 \<and> None \<notin> set s \<and> card (dom G) \<le> length s \<longrightarrow> set (cluster_view cl') = set (the (G a)) - {a}"
proof -
  let ?f = "ak_atom_neighbors_recursive distance w distance"
  obtain d' where d': "distance = Suc d'" using d by (cases distance) auto
  obtain cl' vis' s' where res: "ak_atom_neighbors_recursive (Suc distance) w distance a (cl, [], s) = Some (cl', vis', s')"
      "search_ok G (cl', vis', s')" "search_adds (walk G distance a) (cl, [], s) (cl', vis', s')"
    using search_correct [OF w closed size d a cl(1)] by (metis prod_cases3)
  have first: "ak_atom_neighbors_recursive (Suc distance) w distance a (cl, [], s)
      = fold_opt ?f (the (G a)) (cl, [a], s)"
    using search_step [OF w a, of distance distance cl "[]" s] d by (simp add: Let_def)
  have ok1: "search_ok G (cl, [a], s)" using cl a by (simp add: search_ok_def)
  have "\<exists>st'. fold_opt ?f (the (G a)) (cl, [a], s) = Some st' \<and> search_ok G st' \<and> search_adds (\<lambda>_. True) (cl, [a], s) st'"
  proof (rule fold_search [OF _ ok1])
    fix x st
    assume x: "x \<in> set (the (G a))" and st: "search_ok G st"
    then have "x \<in> dom G" using closed a by blast
    then obtain st' where "?f x st = Some st'" "search_ok G st'" "search_adds (walk G d' x) st st'"
      using search_correct [OF w closed size d _ st, of x d'] d' by auto
    then show "\<exists>st'. ?f x st = Some st' \<and> search_ok G st' \<and> search_adds (\<lambda>_. True) st st'"
      using search_adds_mono [of "walk G d' x" st st' "\<lambda>_. True"] by auto
  qed
  then have "a \<notin> set (cluster_view cl')" using res(1) first cl(2) by (auto simp: search_adds_def)
  moreover have "set (cluster_view cl') = set (the (G a)) - {a}"
    if "distance = 1 \<and> None \<notin> set s \<and> card (dom G) \<le> length s"
    using fold_leaves [OF w size d _ ok1, of "the (G a)"] closed a that first res(1) cl(2) by auto
  moreover have "\<forall>b \<in> set (cluster_view cl'). walk G distance a b"
    using res(3) cl(2) by (auto simp: search_adds_def)
  moreover have "distinct (cluster_view cl')" using res(2) by (simp add: search_ok_def)
  ultimately show thesis using that res(1) by blast
qed

text \<open>
  Searching neighbours. In a graph of at most 1024 atoms whose lists hold live atoms, the
  search at a distance of at least 1 returns; the cluster holds no atom twice and not the
  atom itself, and each atom in it is the end of a walk of exactly that many bonds. At
  distance 1, when the allocator never refuses, the cluster holds all neighbours of the atom
  other than itself. NULL is returned only when one of the first requests is refused.\<close>

theorem atom_neighbors_spec:
  assumes "represents w G" and "\<forall>a \<in> dom G. set (the (G a)) \<subseteq> dom G"
    and "finite (dom G)" and "card (dom G) \<le> VISITED_CAPACITY"
    and "a \<in> dom G" and "0 < distance"
  shows "\<exists>r s'. ak_atom_neighbors w a distance s = Some (r, s')
    \<and> (case r of None \<Rightarrow> None \<in> set s \<or> length s < 3
        | Some cl \<Rightarrow> distinct (cluster_view cl) \<and> a \<notin> set (cluster_view cl)
            \<and> (\<forall>b \<in> set (cluster_view cl). walk G distance a b)
            \<and> (distance = 1 \<and> None \<notin> set s \<and> card (dom G) + 3 \<le> length s \<longrightarrow>
                 set (cluster_view cl) = set (the (G a)) - {a}))"
proof -
  have a0: "a \<noteq> 0" using assms(1,5) by (auto simp: represents_def rep_def)
  have "(0::nat) < 16" "(16::nat) < 2 ^ 59" by simp_all
  then show ?thesis
  proof (cases rule: cluster_new_cases [where s = s])
    case (failed s1)
    then show ?thesis using a0 by (auto simp: ak_atom_neighbors_def)
  next
    case (made cl s1)
    show ?thesis
    proof (cases "fst (sys_alloc s1) = None")
      case True
      then have "None \<in> set s \<or> length s < 3"
        using made(5,6) by (cases s1) auto
      then show ?thesis using True made(1) a0 assms(6)
        by (auto simp: ak_atom_neighbors_def split: prod.splits)
    next
      case False
      then obtain g s2 where s1: "s1 = Some g # s2" by (cases s1) auto
      have s: "set s2 \<subseteq> set s" "length s = 3 + length s2"
        using made(5,6) s1 by auto
      have ok: "search_ok G (cl, [], s2)" using made by (simp add: search_ok_def)
      obtain cl' vis' s3 where res:
        "ak_atom_neighbors_recursive (Suc distance) w distance a (cl, [], s2) = Some (cl', vis', s3)"
        "distinct (cluster_view cl')" "a \<notin> set (cluster_view cl')" "\<forall>b \<in> set (cluster_view cl'). walk G distance a b"
        "distance = 1 \<and> None \<notin> set s2 \<and> card (dom G) \<le> length s2 \<longrightarrow> set (cluster_view cl') = set (the (G a)) - {a}"
        by (rule search_from_start [OF assms(1-5,6) ok made(3)])
      have "ak_atom_neighbors w a distance s = Some (Some cl', s3)"
        using a0 made(1) s1 assms(6) res(1) by (simp add: ak_atom_neighbors_def)
      then show ?thesis using res(2-5) s by auto
    qed
  qed
qed
text \<open>
  The life of an atom. A new atom is at a fresh address, has no neighbours, and yields
  the member of the value that its type selects; setting a value is read back and changes no
  neighbour list and no other atom; freeing an atom frees its cells, each once, and takes it
  out of the graph. The stores stay well-formed throughout.\<close>

theorem atom_life:
  assumes "represents w G"
  shows "(case ak_atom_new w ty v dim s of
       (None, w', s') \<Rightarrow> w' = w
     | (Some a, w', s') \<Rightarrow> a \<notin> dom G \<and> represents w' (G(a \<mapsto> []))
         \<and> ak_atom_get_value w' a = Some (member_bits ty v) \<and> ak_atom_get_type w' a = Some ty
         \<and> ak_atom_get_dimensionality w' a = Some dim)
    \<and> (\<forall>a \<in> dom G. (\<exists>w' ty'. ak_atom_set_value w a v = Some w' \<and> represents w' G
           \<and> ak_atom_get_type w a = Some ty' \<and> ak_atom_get_value w' a = Some (member_bits ty' v)
           \<and> (\<forall>b. b \<noteq> a \<longrightarrow> ak_atom_get_value w' b = ak_atom_get_value w b))
         \<and> (\<exists>w'. ak_atom_free w a = Some w' \<and> represents w' (G(a := None))))"
proof -
  have bits: "member_bits t (member_bits t x) = member_bits t x" for t x
    by (simp add: member_bits_def)
  have new: "case ak_atom_new w ty v dim s of
       (None, w', s') \<Rightarrow> w' = w
     | (Some a, w', s') \<Rightarrow> a \<notin> dom G \<and> represents w' (G(a \<mapsto> []))
         \<and> ak_atom_get_value w' a = Some (member_bits ty v) \<and> ak_atom_get_type w' a = Some ty
         \<and> ak_atom_get_dimensionality w' a = Some dim"
  proof (cases "fst (ak_atom_new w ty v dim s)")
    case None
    then show ?thesis by (auto simp: ak_atom_new_def split: prod.splits option.splits)
  next
    case (Some a)
    then obtain w' s' where n: "ak_atom_new w ty v dim s = (Some a, w', s')" by (metis prod.collapse)
    then have "aw_atoms w' a = Some \<lparr>at_type = ty, at_dimensionality = dim, at_neighbors = 0,
        at_value = member_bits ty v\<rparr>"
      by (auto simp: ak_atom_new_def split: prod.splits option.splits)
    then show ?thesis
      using n atom_new_rep [OF assms n] bits
      by (simp add: ak_atom_get_value_def ak_atom_get_type_def ak_atom_get_dimensionality_def)
  qed
  have set: "\<exists>w' ty'. ak_atom_set_value w a v = Some w' \<and> represents w' G
      \<and> ak_atom_get_type w a = Some ty' \<and> ak_atom_get_value w' a = Some (member_bits ty' v)
      \<and> (\<forall>b. b \<noteq> a \<longrightarrow> ak_atom_get_value w' b = ak_atom_get_value w b)" if a: "a \<in> dom G" for a
  proof -
    obtain C where rep: "rep w C G" using assms by (auto simp: represents_def)
    obtain r where r: "aw_atoms w a = Some r" "link_chain (aw_links w) (at_neighbors r) (C a)"
        "distinct (C a)" "G a = Some (map (link_atom (aw_links w)) (C a))" "a \<noteq> 0"
      by (rule repE [OF rep a])
    let ?r = "r\<lparr>at_value := member_bits (at_type r) v\<rparr>"
    have cells: "set (C a) \<subseteq> dom (aw_links w)" using link_chain_dom [OF r(2)] by blast
    have "rep (w\<lparr>aw_links := aw_links w, aw_atoms := (aw_atoms w)(a \<mapsto> ?r)\<rparr>) (C(a := C a))
        (G(a \<mapsto> map (link_atom (aw_links w)) (C a)))"
      by (rule rep_update [OF rep r(1)]) (use r cells in auto)
    then have "represents (w\<lparr>aw_atoms := (aw_atoms w)(a \<mapsto> ?r)\<rparr>) G"
      using r(4) by (auto simp: represents_def fun_upd_idem)
    then show ?thesis
      using r(1,5) bits
      by (auto simp: ak_atom_set_value_def ak_atom_get_type_def ak_atom_get_value_def)
  qed
  show ?thesis using new set free_rep [OF assms] by blast
qed

text \<open>Four atoms with the bonds 21-22, 21-23, 22-23 and 22-24, made by the code's operations.\<close>

definition four_atoms :: "atom_world option" where
  "four_atoms =
     (let new = (\<lambda>i w. fst (snd (ak_atom_new w AK24_ATOM_U8 7 1 [Some (\<lambda>_. i)])));
          w0 = new 24 (new 23 (new 22 (new 21 \<lparr>aw_atoms = Map.empty, aw_links = Map.empty\<rparr>)));
          bond = (\<lambda>w a b i j. map_option (fst \<circ> snd) (ak_atom_bond w a b [Some (\<lambda>_. i), Some (\<lambda>_. j)]))
      in do {
        w1 \<leftarrow> bond w0 21 22 11 12;
        w2 \<leftarrow> bond w1 21 23 13 14;
        w3 \<leftarrow> bond w2 22 23 15 16;
        bond w3 22 24 17 18
      })"

definition four_graph :: "nat \<rightharpoonup> nat list" where
  "four_graph = [21 \<mapsto> [23, 22], 22 \<mapsto> [24, 23, 21], 23 \<mapsto> [22, 21], 24 \<mapsto> [22]]"

definition four_world :: atom_world where
  "four_world = \<lparr>aw_atoms = [
       21 \<mapsto> \<lparr>at_type = AK24_ATOM_U8, at_dimensionality = 1, at_neighbors = 13, at_value = 7\<rparr>,
       22 \<mapsto> \<lparr>at_type = AK24_ATOM_U8, at_dimensionality = 1, at_neighbors = 17, at_value = 7\<rparr>,
       23 \<mapsto> \<lparr>at_type = AK24_ATOM_U8, at_dimensionality = 1, at_neighbors = 16, at_value = 7\<rparr>,
       24 \<mapsto> \<lparr>at_type = AK24_ATOM_U8, at_dimensionality = 1, at_neighbors = 18, at_value = 7\<rparr>],
     aw_links = [
       11 \<mapsto> \<lparr>nb_atom = 22, nb_next = 0\<rparr>, 12 \<mapsto> \<lparr>nb_atom = 21, nb_next = 0\<rparr>,
       13 \<mapsto> \<lparr>nb_atom = 23, nb_next = 11\<rparr>, 14 \<mapsto> \<lparr>nb_atom = 21, nb_next = 0\<rparr>,
       15 \<mapsto> \<lparr>nb_atom = 23, nb_next = 12\<rparr>, 16 \<mapsto> \<lparr>nb_atom = 22, nb_next = 14\<rparr>,
       17 \<mapsto> \<lparr>nb_atom = 24, nb_next = 15\<rparr>, 18 \<mapsto> \<lparr>nb_atom = 22, nb_next = 0\<rparr>]\<rparr>"

lemma four_atoms_eq: "four_atoms = Some four_world"
  by (simp add: four_atoms_def four_world_def ak_atom_new_def ak_atom_bond_def push_link_def
      alloc_cell_def member_bits_def fun_upd_twist)

lemma four_world_represents: "represents four_world four_graph"
proof -
  let ?C = "(\<lambda>_. [])(21 := [13, 11], 22 := [17, 15, 12], 23 := [16, 14], 24 := [18 :: nat])"
  have dom: "dom four_graph = {21, 22, 23, 24}" "dom (aw_atoms four_world) = {21, 22, 23, 24}"
      "dom (aw_links four_world) = {11, 12, 13, 14, 15, 16, 17, 18}"
    by (auto simp: four_graph_def four_world_def split: if_splits)
  have lists: "link_chain (aw_links four_world) (at_neighbors r) (?C a) \<and> distinct (?C a)
      \<and> four_graph a = Some (map (link_atom (aw_links four_world)) (?C a))"
    if "aw_atoms four_world a = Some r" for a r
    using that by (auto simp: four_world_def four_graph_def link_atom_def split: if_splits)
  have sep: "\<forall>a \<in> dom four_graph. \<forall>b \<in> dom four_graph. a \<noteq> b \<longrightarrow> set (?C a) \<inter> set (?C b) = {}"
    unfolding dom by simp
  have "dom (aw_links four_world) = (\<Union>a \<in> dom four_graph. set (?C a))"
    unfolding dom by auto
  then have "rep four_world ?C four_graph"
    using lists sep dom unfolding rep_def by auto
  then show ?thesis by (auto simp: represents_def)
qed

lemma four_graph_facts:
  "dom four_graph = {21, 22, 23, 24}" "symmetric four_graph"
  "\<forall>a \<in> dom four_graph. set (the (four_graph a)) \<subseteq> dom four_graph"
  "finite (dom four_graph)" "card (dom four_graph) = 4"
proof -
  show d: "dom four_graph = {21, 22, 23, 24}" by (auto simp: four_graph_def split: if_splits)
  show c: "\<forall>a \<in> dom four_graph. set (the (four_graph a)) \<subseteq> dom four_graph"
    unfolding d by (simp add: four_graph_def)
  show "symmetric four_graph"
    unfolding symmetric_def using c unfolding d by (simp add: bonds_def four_graph_def)
  show "finite (dom four_graph)" "card (dom four_graph) = 4" unfolding d by simp_all
qed

text \<open>
  The search does not deliver the atoms at a given distance. For four atoms with the
  bonds 21-22, 21-23, 22-23 and 22-24, made by the operations of the code, the search from
  21 at distance 2 returns exactly the atom 22, which is a neighbour of 21, and misses the
  atom 24, which is bonded to 22 and is the only atom at distance 2: an atom that the
  depth-first search meets first on a longer way is never visited again.\<close>

theorem atom_neighbors_misses:
  "\<exists>w cl s'. four_atoms = Some w \<and> represents w four_graph
     \<and> ak_atom_neighbors w 21 2 [Some id, Some id, Some id] = Some (Some cl, s')
     \<and> cluster_view cl = [22]
     \<and> walk four_graph 1 21 22 \<and> walk four_graph 2 21 24 \<and> \<not> walk four_graph 1 21 24"
proof -
  define w where "w = four_world"
  have w: "four_atoms = Some w" "represents w four_graph"
    by (simp_all add: w_def four_atoms_eq four_world_represents)
  have dom: "21 \<in> dom four_graph" "22 \<in> dom four_graph" "23 \<in> dom four_graph"
    using four_graph_facts(1) by simp_all
  have lists: "the (four_graph 21) = [23, 22]" "the (four_graph 23) = [22, 21]"
    by (simp_all add: four_graph_def)
  let ?f = "\<lambda>n. ak_atom_neighbors_recursive n w 2"
  define cl0 where "cl0 = \<lparr>cl_atoms = map id [0..<16], cl_count = 0, cl_capacity = 16\<rparr>"
  define cl1 where "cl1 = \<lparr>cl_atoms = (map id [0..<16])[0 := 22], cl_count = 1, cl_capacity = 16\<rparr>"
  have add: "ak_atom_cluster_add cl0 22 s = Some (0, cl1, s)" for s
    by (simp add: cl0_def cl1_def ak_atom_cluster_add_def mem_simps sz_add_def)
  have leaf: "?f (Suc 0) 22 (cl0, [21, 23], s) = Some (cl1, [21, 23, 22], s)" for s
    using search_step [OF w(2) dom(2), of 0 2 cl0 "[21, 23]" s] add by simp
  have seen: "?f (Suc n) 21 (cl1, [21, 23, 22], s) = Some (cl1, [21, 23, 22], s)"
      "?f (Suc n) 22 (cl1, [21, 23, 22], s) = Some (cl1, [21, 23, 22], s)" for n s
    using search_step [OF w(2) dom(1)] search_step [OF w(2) dom(2)] by simp_all
  have mid: "?f (Suc (Suc 0)) 23 (cl0, [21], s) = Some (cl1, [21, 23, 22], s)" for s
    using search_step [OF w(2) dom(3), of "Suc 0" 2 cl0 "[21]" s] lists(2) leaf seen by simp
  have top: "?f (Suc (Suc (Suc 0))) 21 (cl0, [], s) = Some (cl1, [21, 23, 22], s)" for s
    using search_step [OF w(2) dom(1), of "Suc (Suc 0)" 2 cl0 "[]" s] lists(1) mid seen by simp
  have new: "ak_atom_cluster_new 16 [Some id, Some id, Some id] = (Some cl0, [Some id])"
    by (simp add: ak_atom_cluster_new_def alloc_ptrs_def sz_mul_def cl0_def)
  have "ak_atom_neighbors w 21 2 [Some id, Some id, Some id] = Some (Some cl1, [])"
    using new top by (simp add: ak_atom_neighbors_def numeral_2_eq_2)
  moreover have "cluster_view cl1 = [22]" by (simp add: cluster_view_def cl1_def upt_rec)
  moreover have "walk four_graph 1 21 22" "walk four_graph 2 21 24" "\<not> walk four_graph 1 21 24"
    by (simp_all add: four_graph_def numeral_2_eq_2)
  ultimately show ?thesis
    by (intro exI conjI) (rule w | assumption)+
qed

theorem atom_bond_spec_witness:
  "\<exists>r w' s'. ak_atom_bond four_world 21 24 [Some (\<lambda>_. 30), None] = Some (r, w', s') \<and> (r = 0 \<or> w' = four_world)"
proof -
  have ab: "21 \<in> dom four_graph" "24 \<in> dom four_graph" using four_graph_facts(1) by simp_all
  from atom_bond_spec [OF four_world_represents four_graph_facts(2) ab, of "[Some (\<lambda>_. 30), None]", THEN conjunct1]
  show ?thesis by (elim exE conjE) (intro exI conjI, assumption, simp split: if_splits)
qed

theorem atom_neighbors_spec_witness:
  "\<exists>cl s'. ak_atom_neighbors four_world 22 1 (replicate 7 (Some id)) = Some (Some cl, s')
     \<and> set (cluster_view cl) = {21, 23, 24}"
proof -
  let ?s = "replicate 7 (Some (id :: nat \<Rightarrow> nat))"
  have "card (dom four_graph) \<le> VISITED_CAPACITY" "22 \<in> dom four_graph" "(0::nat) < 1"
    using four_graph_facts by simp_all
  from atom_neighbors_spec [OF four_world_represents four_graph_facts(3,4) this, of ?s]
  obtain r s' where r: "ak_atom_neighbors four_world 22 1 (?s) = Some (r, s')"
    and c: "case r of None \<Rightarrow> None \<in> set (?s) \<or> length (?s) < 3
      | Some cl \<Rightarrow> distinct (cluster_view cl) \<and> 22 \<notin> set (cluster_view cl)
          \<and> (\<forall>b \<in> set (cluster_view cl). walk four_graph 1 22 b)
          \<and> (1 = (1::nat) \<and> None \<notin> set (?s)
             \<and> card (dom four_graph) + 3 \<le> length (?s) \<longrightarrow>
               set (cluster_view cl) = set (the (four_graph 22)) - {22})"
    by (elim exE conjE) (rule that; assumption)
  have "set (the (four_graph 22)) - {22} = {21, 23, 24}" by (auto simp: four_graph_def)
  then show ?thesis using r c four_graph_facts(5) by (cases r) auto
qed

theorem atom_life_witness:
  "\<exists>w'. ak_atom_free four_world 22 = Some w' \<and> represents w' (four_graph(22 := None))"
proof -
  have "22 \<in> dom four_graph" using four_graph_facts(1) by simp
  then show ?thesis
    by (rule atom_life [OF four_world_represents, THEN conjunct2, THEN bspec, THEN conjunct2])
qed

end
