(* ===== verification/Lambda.thy ===== *)
theory Lambda
  imports DynList "HOL-Library.Multiset"
begin

text \<open>
  Model of kernel/lambda/src/lambda.c: closures with a captured context. Lambdas live in a
  store from addresses to records, 0 being NULL. Function pointers are numbers that stand for
  code of the caller; the model records the calls the kernel makes to them, in order, and
  what a function does is not part of it. The outer \<open>option\<close> is \<open>None\<close> for an access to a
  lambda that is not allocated.

  The lemmas show that a context is freed once by the lambda that owns it and never by a
  clone: the contexts handed over are at all times those freed so far and those still owned.
\<close>

section \<open>Definitions\<close>

record ak_lambda =
  la_fn :: nat
  captured_ctx :: nat
  ctx_free :: nat

datatype lambda_event = Call_fn nat nat nat | Call_free nat nat

record lambda_world =
  lw_lambdas :: "nat \<rightharpoonup> ak_lambda"
  lw_calls :: "lambda_event list"

definition ak_lambda_new ::
  "lambda_world \<Rightarrow> nat \<Rightarrow> nat \<Rightarrow> nat \<Rightarrow> ptr_sched \<Rightarrow> nat \<times> lambda_world \<times> ptr_sched" where
  "ak_lambda_new w fn ctx free s =
     (if fn = 0 then (0, w, s)
      else case alloc_cell (lw_lambdas w) s of
        (None, s') \<Rightarrow> (0, w, s')
      | (Some a, s') \<Rightarrow>
          (a, w\<lparr>lw_lambdas := (lw_lambdas w)(a \<mapsto> \<lparr>la_fn = fn, captured_ctx = ctx, ctx_free = free\<rparr>)\<rparr>, s'))"

definition ak_lambda_invoke :: "lambda_world \<Rightarrow> nat \<Rightarrow> nat \<Rightarrow> lambda_world option" where
  "ak_lambda_invoke w a args =
     (if a = 0 then Some w
      else do {
        l \<leftarrow> lw_lambdas w a;
        Some (if la_fn l = 0 then w
              else w\<lparr>lw_calls := lw_calls w @ [Call_fn (la_fn l) (captured_ctx l) args]\<rparr>)
      })"

text \<open>\<open>if (lambda->captured_ctx && lambda->ctx_free) lambda->ctx_free(lambda->captured_ctx)\<close>\<close>

definition free_context :: "ak_lambda \<Rightarrow> lambda_event list" where
  "free_context l =
     (if captured_ctx l \<noteq> 0 \<and> ctx_free l \<noteq> 0 then [Call_free (ctx_free l) (captured_ctx l)] else [])"

definition ak_lambda_free :: "lambda_world \<Rightarrow> nat \<Rightarrow> lambda_world option" where
  "ak_lambda_free w a =
     (if a = 0 then Some w
      else do {
        l \<leftarrow> lw_lambdas w a;
        Some (w\<lparr>lw_calls := lw_calls w @ free_context l, lw_lambdas := (lw_lambdas w)(a := None)\<rparr>)
      })"

definition ak_lambda_clone ::
  "lambda_world \<Rightarrow> nat \<Rightarrow> ptr_sched \<Rightarrow> (nat \<times> lambda_world \<times> ptr_sched) option" where
  "ak_lambda_clone w a s =
     (if a = 0 then Some (0, w, s)
      else case alloc_cell (lw_lambdas w) s of
        (None, s') \<Rightarrow> Some (0, w, s')
      | (Some b, s') \<Rightarrow> do {
          l \<leftarrow> lw_lambdas w a;
          Some (b, w\<lparr>lw_lambdas := (lw_lambdas w)(b \<mapsto> l\<lparr>ctx_free := 0\<rparr>)\<rparr>, s')
        })"

definition ak_lambda_has_context :: "lambda_world \<Rightarrow> nat \<Rightarrow> bool option" where
  "ak_lambda_has_context w a =
     (if a = 0 then Some False else map_option (\<lambda>l. captured_ctx l \<noteq> 0) (lw_lambdas w a))"

definition ak_lambda_get_context :: "lambda_world \<Rightarrow> nat \<Rightarrow> nat option" where
  "ak_lambda_get_context w a = (if a = 0 then Some 0 else map_option captured_ctx (lw_lambdas w a))"

definition ak_lambda_set_context ::
  "lambda_world \<Rightarrow> nat \<Rightarrow> nat \<Rightarrow> nat \<Rightarrow> (int \<times> lambda_world) option" where
  "ak_lambda_set_context w a ctx free =
     (if a = 0 then Some (-1, w)
      else do {
        l \<leftarrow> lw_lambdas w a;
        Some (0, w\<lparr>lw_calls := lw_calls w @ free_context l,
                   lw_lambdas := (lw_lambdas w)(a \<mapsto> l\<lparr>captured_ctx := ctx, ctx_free := free\<rparr>)\<rparr>)
      })"

section \<open>Ownership of contexts\<close>

text \<open>
  A context handed over with a function that frees it, the contexts freed by a list of
  calls, and the contexts the lambdas of the store own.
\<close>

definition handed :: "nat \<Rightarrow> nat \<Rightarrow> (nat \<times> nat) multiset" where
  "handed free ctx = (if ctx \<noteq> 0 \<and> free \<noteq> 0 then {#(free, ctx)#} else {#})"

fun freed :: "lambda_event list \<Rightarrow> (nat \<times> nat) multiset" where
  "freed [] = {#}"
| "freed (Call_fn f c a # es) = freed es"
| "freed (Call_free f c # es) = add_mset (f, c) (freed es)"

definition owns :: "ak_lambda \<Rightarrow> (nat \<times> nat) multiset" where
  "owns l = handed (ctx_free l) (captured_ctx l)"

definition owned :: "lambda_world \<Rightarrow> (nat \<times> nat) multiset" where
  "owned w = (\<Sum>a \<in> dom (lw_lambdas w). owns (the (lw_lambdas w a)))"

text \<open>
  The states a program reaches by the operations, with the contexts it handed over.
\<close>

inductive lambda_reach :: "lambda_world \<Rightarrow> (nat \<times> nat) multiset \<Rightarrow> bool" where
  empty: "lambda_reach \<lparr>lw_lambdas = Map.empty, lw_calls = []\<rparr> {#}"
| new: "lambda_reach w H \<Longrightarrow> ak_lambda_new w fn ctx free s = (a, w', s') \<Longrightarrow>
    lambda_reach w' (H + (if a = 0 then {#} else handed free ctx))"
| invoke: "lambda_reach w H \<Longrightarrow> ak_lambda_invoke w a args = Some w' \<Longrightarrow> lambda_reach w' H"
| free: "lambda_reach w H \<Longrightarrow> ak_lambda_free w a = Some w' \<Longrightarrow> lambda_reach w' H"
| clone: "lambda_reach w H \<Longrightarrow> ak_lambda_clone w a s = Some (b, w', s') \<Longrightarrow> lambda_reach w' H"
| set: "lambda_reach w H \<Longrightarrow> ak_lambda_set_context w a ctx free = Some (r, w') \<Longrightarrow>
    lambda_reach w' (H + (if a = 0 then {#} else handed free ctx))"

definition lambda_inv :: "lambda_world \<Rightarrow> (nat \<times> nat) multiset \<Rightarrow> bool" where
  "lambda_inv w H \<longleftrightarrow> finite (dom (lw_lambdas w)) \<and> 0 \<notin> dom (lw_lambdas w)
     \<and> H = freed (lw_calls w) + owned w"

lemma freed_append: "freed (xs @ ys) = freed xs + freed ys"
  by (induction xs rule: freed.induct) auto

lemma freed_free_context: "freed (free_context l) = owns l"
  by (simp add: free_context_def owns_def handed_def)

lemma owned_put:
  assumes "finite (dom (lw_lambdas w))"
  shows "owned (w\<lparr>lw_lambdas := (lw_lambdas w)(a \<mapsto> l)\<rparr>)
    = owns l + (\<Sum>x \<in> dom (lw_lambdas w) - {a}. owns (the (lw_lambdas w x)))"
proof -
  have "owned (w\<lparr>lw_lambdas := (lw_lambdas w)(a \<mapsto> l)\<rparr>)
      = (\<Sum>x \<in> insert a (dom (lw_lambdas w) - {a}). owns (the (((lw_lambdas w)(a \<mapsto> l)) x)))"
    by (simp add: owned_def insert_Diff_if insert_absorb)
  also have "\<dots> = owns l + (\<Sum>x \<in> dom (lw_lambdas w) - {a}. owns (the (((lw_lambdas w)(a \<mapsto> l)) x)))"
    using assms by (subst sum.insert) auto
  also have "(\<Sum>x \<in> dom (lw_lambdas w) - {a}. owns (the (((lw_lambdas w)(a \<mapsto> l)) x)))
      = (\<Sum>x \<in> dom (lw_lambdas w) - {a}. owns (the (lw_lambdas w x)))"
    by (intro sum.cong) auto
  finally show ?thesis .
qed

lemma owned_take:
  assumes "finite (dom (lw_lambdas w))" and "lw_lambdas w a = Some l"
  shows "owned w = owns l + (\<Sum>x \<in> dom (lw_lambdas w) - {a}. owns (the (lw_lambdas w x)))"
  using assms by (simp add: owned_def sum.remove [of "dom (lw_lambdas w)" a] domI)

lemma owned_calls: "owned (w\<lparr>lw_calls := c\<rparr>) = owned w"
  by (simp add: owned_def)

lemma lambda_inv_new:
  assumes inv: "lambda_inv w H" and new: "ak_lambda_new w fn ctx free s = (a, w', s')"
  shows "lambda_inv w' (H + (if a = 0 then {#} else handed free ctx))"
proof (cases "a = 0")
  case True
  then have "w' = w"
    using new alloc_cell_Some [of "lw_lambdas w" s]
    by (auto simp: ak_lambda_new_def split: if_splits prod.splits option.splits)
  then show ?thesis using inv True by simp
next
  case False
  let ?l = "\<lparr>la_fn = fn, captured_ctx = ctx, ctx_free = free\<rparr>"
  have w': "w' = w\<lparr>lw_lambdas := (lw_lambdas w)(a \<mapsto> ?l)\<rparr>" and fresh: "lw_lambdas w a = None"
    using False new alloc_cell_Some [of "lw_lambdas w" s a]
    by (auto simp: ak_lambda_new_def split: if_splits prod.splits option.splits)
  have fin: "finite (dom (lw_lambdas w))" using inv by (simp add: lambda_inv_def)
  have "dom (lw_lambdas w) - {a} = dom (lw_lambdas w)" using fresh by auto
  then have "owned w' = handed free ctx + owned w"
    unfolding w' owned_put [OF fin] by (simp add: owned_def owns_def)
  then show ?thesis using inv False w' by (simp add: lambda_inv_def ac_simps)
qed

lemma lambda_inv_free:
  assumes inv: "lambda_inv w H" and free: "ak_lambda_free w a = Some w'"
  shows "lambda_inv w' H"
proof (cases "a = 0")
  case True
  then show ?thesis using inv free by (simp add: ak_lambda_free_def)
next
  case False
  then obtain l where l: "lw_lambdas w a = Some l"
      "w' = w\<lparr>lw_calls := lw_calls w @ free_context l, lw_lambdas := (lw_lambdas w)(a := None)\<rparr>"
    using free by (auto simp: ak_lambda_free_def bind_eq_Some_conv)
  have fin: "finite (dom (lw_lambdas w))" using inv by (simp add: lambda_inv_def)
  have "owned w' = (\<Sum>x \<in> dom (lw_lambdas w) - {a}. owns (the (lw_lambdas w x)))"
    by (simp add: l(2) owned_def)
  then show ?thesis
    using inv l owned_take [OF fin l(1)]
    by (simp add: lambda_inv_def freed_append freed_free_context ac_simps)
qed

lemma lambda_inv_clone:
  assumes inv: "lambda_inv w H" and clone: "ak_lambda_clone w a s = Some (b, w', s')"
  shows "lambda_inv w' H"
proof (cases "w' = w")
  case True
  then show ?thesis using inv by simp
next
  case False
  then obtain l where l: "lw_lambdas w a = Some l" "w' = w\<lparr>lw_lambdas := (lw_lambdas w)(b \<mapsto> l\<lparr>ctx_free := 0\<rparr>)\<rparr>"
      "lw_lambdas w b = None" "b \<noteq> 0"
    using clone alloc_cell_Some [of "lw_lambdas w" s b]
    by (auto simp: ak_lambda_clone_def bind_eq_Some_conv split: if_splits prod.splits option.splits)
  have fin: "finite (dom (lw_lambdas w))" using inv by (simp add: lambda_inv_def)
  have "dom (lw_lambdas w) - {b} = dom (lw_lambdas w)" using l(3) by auto
  then have "owned w' = owned w"
    unfolding l(2) owned_put [OF fin] by (simp add: owned_def owns_def handed_def)
  then show ?thesis using inv l by (simp add: lambda_inv_def)
qed

lemma lambda_inv_set:
  assumes inv: "lambda_inv w H" and set: "ak_lambda_set_context w a ctx free = Some (r, w')"
  shows "lambda_inv w' (H + (if a = 0 then {#} else handed free ctx))"
proof (cases "a = 0")
  case True
  then show ?thesis using inv set by (simp add: ak_lambda_set_context_def)
next
  case False
  then obtain l where l: "lw_lambdas w a = Some l"
      "w' = w\<lparr>lw_calls := lw_calls w @ free_context l,
              lw_lambdas := (lw_lambdas w)(a \<mapsto> l\<lparr>captured_ctx := ctx, ctx_free := free\<rparr>)\<rparr>"
    using set by (auto simp: ak_lambda_set_context_def bind_eq_Some_conv)
  let ?l = "l\<lparr>captured_ctx := ctx, ctx_free := free\<rparr>"
  let ?rest = "\<Sum>x \<in> dom (lw_lambdas w) - {a}. owns (the (lw_lambdas w x))"
  have fin: "finite (dom (lw_lambdas w))" using inv by (simp add: lambda_inv_def)
  have "owned w' = owned (w\<lparr>lw_lambdas := (lw_lambdas w)(a \<mapsto> ?l)\<rparr>)" by (simp add: l(2) owned_def)
  then have "owned w' = handed free ctx + ?rest" unfolding owned_put [OF fin] by (simp add: owns_def)
  then show ?thesis
    using inv l False owned_take [OF fin l(1)]
    by (simp add: lambda_inv_def freed_append freed_free_context ac_simps)
qed

lemma lambda_reach_inv: "lambda_reach w H \<Longrightarrow> lambda_inv w H"
proof (induction rule: lambda_reach.induct)
  case empty
  then show ?case by (simp add: lambda_inv_def owned_def)
next
  case (invoke w H a args w')
  then show ?case
    by (auto simp: ak_lambda_invoke_def lambda_inv_def freed_append owned_def bind_eq_Some_conv split: if_splits)
qed (rule lambda_inv_new lambda_inv_free lambda_inv_clone lambda_inv_set; assumption)+

section \<open>Properties of lambdas\<close>

text \<open>
  C39: Ownership of captured contexts. In every state a program reaches by creating,
  invoking, cloning and freeing lambdas and replacing their contexts, the contexts it handed
  over together with a function to free them are exactly those freed so far, each by the
  function given with it, and those owned by a live lambda; so a context handed over once is
  never freed twice, and once no lambda is left all of them have been freed. A clone owns
  nothing: freeing it calls no function.\<close>

theorem lambda_contexts_freed_once:
  assumes "lambda_reach w H"
  shows "H = freed (lw_calls w) + owned w
    \<and> (\<forall>p. count H p \<le> 1 \<longrightarrow> count (freed (lw_calls w)) p \<le> 1)
    \<and> (lw_lambdas w = Map.empty \<longrightarrow> freed (lw_calls w) = H)
    \<and> (\<forall>a s b w1 s'. ak_lambda_clone w a s = Some (b, w1, s') \<and> b \<noteq> 0 \<longrightarrow>
         (\<exists>w2. ak_lambda_free w1 b = Some w2 \<and> lw_calls w2 = lw_calls w \<and> lw_lambdas w2 = lw_lambdas w))"
proof -
  have H: "H = freed (lw_calls w) + owned w"
    using lambda_reach_inv [OF assms] by (simp add: lambda_inv_def)
  have clone: "\<exists>w2. ak_lambda_free w1 b = Some w2 \<and> lw_calls w2 = lw_calls w \<and> lw_lambdas w2 = lw_lambdas w"
    if c: "ak_lambda_clone w a s = Some (b, w1, s')" "b \<noteq> 0" for a s b w1 s'
  proof -
    obtain l where "w1 = w\<lparr>lw_lambdas := (lw_lambdas w)(b \<mapsto> l\<lparr>ctx_free := 0\<rparr>)\<rparr>" "lw_lambdas w b = None"
      using c alloc_cell_Some [of "lw_lambdas w" s b]
      by (auto simp: ak_lambda_clone_def bind_eq_Some_conv split: if_splits prod.splits option.splits)
    then show ?thesis using c(2) by (simp add: ak_lambda_free_def free_context_def fun_upd_idem)
  qed
  have "count (freed (lw_calls w)) p \<le> 1" if "count H p \<le> 1" for p
    using that H by (metis count_union le_add1 le_trans)
  moreover have "freed (lw_calls w) = H" if "lw_lambdas w = Map.empty" using that H by (simp add: owned_def)
  ultimately show ?thesis using H clone by blast
qed

theorem lambda_contexts_freed_once_witness:
  "\<exists>w. lambda_reach w {#(9, 5)#} \<and> lw_lambdas w = Map.empty \<and> freed (lw_calls w) = {#(9, 5)#}"
proof -
  let ?w0 = "\<lparr>lw_lambdas = Map.empty, lw_calls = []\<rparr>"
  let ?w1 = "\<lparr>lw_lambdas = [3 \<mapsto> \<lparr>la_fn = 7, captured_ctx = 5, ctx_free = 9\<rparr>], lw_calls = []\<rparr>"
  let ?w2 = "\<lparr>lw_lambdas = Map.empty, lw_calls = [Call_free 9 5]\<rparr>"
  have "ak_lambda_new ?w0 7 5 9 [Some (\<lambda>_. 3)] = (3, ?w1, [])"
    by (simp add: ak_lambda_new_def alloc_cell_def)
  then have r1: "lambda_reach ?w1 {#(9, 5)#}"
    using lambda_reach.new [OF lambda_reach.empty, of 7 5 9 "[Some (\<lambda>_. 3)]" 3 ?w1 "[]"] by (simp add: handed_def)
  have "ak_lambda_free ?w1 3 = Some ?w2"
    by (simp add: ak_lambda_free_def free_context_def)
  then have r2: "lambda_reach ?w2 {#(9, 5)#}" by (rule lambda_reach.free [OF r1])
  show ?thesis using lambda_contexts_freed_once [OF r2] r2 by (intro exI [of _ ?w2]) simp
qed

end
