(* ===== verification/Box.thy ===== *)
theory Box
  imports Lambda
begin

text \<open>
  Model of kernel/box/src/box.c: a pointer behind a mutex. The operations are modelled twice:
  as functions on a store of boxes, for a caller that runs alone, and as the sequence of
  their accesses to the mutex and to the data, for threads that interleave on one box. The
  lambda a visit invokes runs between two steps, with the mutex held.

  The lemmas show that at most one thread is between lock and unlock, that the results of all
  completed accesses are those of a register accessed in that order, that the data a visitor
  was given stays in the box until the visitor returns, and that a visitor that calls an
  operation on the same box never gets any further.
\<close>

section \<open>Definitions\<close>

record ak_box =
  bx_data :: nat

type_synonym box_store = "nat \<rightharpoonup> ak_box"

text \<open>The outcome of the initialisation of the mutex is an entry of the schedule too.\<close>

definition ak_box_new :: "box_store \<Rightarrow> nat \<Rightarrow> ptr_sched \<Rightarrow> nat \<times> box_store \<times> ptr_sched" where
  "ak_box_new st data s =
     (case alloc_cell st s of
        (None, s1) \<Rightarrow> (0, st, s1)
      | (Some b, s1) \<Rightarrow>
         (case sys_alloc s1 of
            (None, s2) \<Rightarrow> (0, st, s2)
          | (Some _, s2) \<Rightarrow> (b, st(b \<mapsto> \<lparr>bx_data = data\<rparr>), s2)))"

definition ak_box_free :: "box_store \<Rightarrow> nat \<Rightarrow> box_store option" where
  "ak_box_free st b = (if b = 0 then Some st else free_cell st b)"

definition ak_box_swap :: "box_store \<Rightarrow> nat \<Rightarrow> nat \<Rightarrow> (nat \<times> box_store) option" where
  "ak_box_swap st b new_data =
     (if b = 0 then Some (0, st)
      else do {
        r \<leftarrow> st b;
        Some (bx_data r, st(b \<mapsto> r\<lparr>bx_data := new_data\<rparr>))
      })"

definition ak_box_get :: "box_store \<Rightarrow> nat \<Rightarrow> nat option" where
  "ak_box_get st b = (if b = 0 then Some 0 else map_option bx_data (st b))"

definition ak_box_visit ::
  "box_store \<Rightarrow> lambda_world \<Rightarrow> nat \<Rightarrow> nat \<Rightarrow> (int \<times> lambda_world) option" where
  "ak_box_visit st w b lambda =
     (if b = 0 \<or> lambda = 0 then Some (-1, w)
      else do {
        r \<leftarrow> st b;
        w' \<leftarrow> ak_lambda_invoke w lambda (bx_data r);
        Some (0, w')
      })"

section \<open>Threads on one box\<close>

datatype box_call = Swap nat | Get | Visit

text \<open>
  Where a thread is in a call: before the lock, after it, after the read of a swap, in the
  visitor with the data it was given, before the unlock with the result.
\<close>

datatype box_pc = Idle | Locking box_call | Locked box_call | Read_old nat nat | Visiting nat
  | Unlocking box_call nat

record box_system =
  sys_data :: nat
  sys_owner :: "nat option"
  sys_pc :: "nat \<Rightarrow> box_pc"
  sys_log :: "(box_call \<times> nat) list"

text \<open>One access of the thread \<open>t\<close>; the log lists the accesses to the data with their results.\<close>

inductive box_step :: "box_system \<Rightarrow> nat \<Rightarrow> box_system \<Rightarrow> bool" where
  call: "sys_pc s t = Idle \<Longrightarrow> box_step s t (s\<lparr>sys_pc := (sys_pc s)(t := Locking c)\<rparr>)"
| lock: "sys_pc s t = Locking c \<Longrightarrow> sys_owner s = None \<Longrightarrow>
    box_step s t (s\<lparr>sys_owner := Some t, sys_pc := (sys_pc s)(t := Locked c)\<rparr>)"
| get: "sys_pc s t = Locked Get \<Longrightarrow>
    box_step s t (s\<lparr>sys_pc := (sys_pc s)(t := Unlocking Get (sys_data s)),
                    sys_log := sys_log s @ [(Get, sys_data s)]\<rparr>)"
| read_old: "sys_pc s t = Locked (Swap v) \<Longrightarrow>
    box_step s t (s\<lparr>sys_pc := (sys_pc s)(t := Read_old v (sys_data s))\<rparr>)"
| write_new: "sys_pc s t = Read_old v d \<Longrightarrow>
    box_step s t (s\<lparr>sys_data := v, sys_pc := (sys_pc s)(t := Unlocking (Swap v) d),
                    sys_log := sys_log s @ [(Swap v, d)]\<rparr>)"
| visit: "sys_pc s t = Locked Visit \<Longrightarrow>
    box_step s t (s\<lparr>sys_pc := (sys_pc s)(t := Visiting (sys_data s)),
                    sys_log := sys_log s @ [(Visit, sys_data s)]\<rparr>)"
| visited: "sys_pc s t = Visiting d \<Longrightarrow>
    box_step s t (s\<lparr>sys_pc := (sys_pc s)(t := Unlocking Visit d)\<rparr>)"
| unlock: "sys_pc s t = Unlocking c d \<Longrightarrow>
    box_step s t (s\<lparr>sys_owner := None, sys_pc := (sys_pc s)(t := Idle)\<rparr>)"

inductive box_reach :: "nat \<Rightarrow> box_system \<Rightarrow> bool" for d where
  start: "box_reach d \<lparr>sys_data = d, sys_owner = None, sys_pc = (\<lambda>_. Idle), sys_log = []\<rparr>"
| step: "box_reach d s \<Longrightarrow> box_step s t s' \<Longrightarrow> box_reach d s'"

text \<open>The specification: a register, and the histories it can have.\<close>

fun register :: "nat \<Rightarrow> (box_call \<times> nat) list \<Rightarrow> nat option" where
  "register d [] = Some d"
| "register d ((c, r) # es) =
     (if r = d then register (case c of Swap v \<Rightarrow> v | _ \<Rightarrow> d) es else None)"

fun in_critical :: "box_pc \<Rightarrow> bool" where
  "in_critical Idle \<longleftrightarrow> False"
| "in_critical (Locking c) \<longleftrightarrow> False"
| "in_critical _ \<longleftrightarrow> True"

text \<open>What a thread that holds the mutex knows of the data.\<close>

fun pc_data :: "box_pc \<Rightarrow> nat \<Rightarrow> bool" where
  "pc_data (Read_old v d') d \<longleftrightarrow> d = d'"
| "pc_data (Visiting d') d \<longleftrightarrow> d = d'"
| "pc_data _ d \<longleftrightarrow> True"

definition box_inv :: "nat \<Rightarrow> box_system \<Rightarrow> bool" where
  "box_inv d s \<longleftrightarrow> (\<forall>t. in_critical (sys_pc s t) \<longleftrightarrow> sys_owner s = Some t)
     \<and> (\<forall>t. pc_data (sys_pc s t) (sys_data s)) \<and> register d (sys_log s) = Some (sys_data s)"

lemma register_append:
  "register d (xs @ ys) = Option.bind (register d xs) (\<lambda>d'. register d' ys)"
  by (induction d xs rule: register.induct) auto

lemma pc_data_outside: "\<not> in_critical pc \<Longrightarrow> pc_data pc v"
  by (cases pc) auto

lemma critical_step: "in_critical (sys_pc s t) \<Longrightarrow> \<exists>s'. box_step s t s'"
proof (cases "sys_pc s t")
  case (Locked c)
  then show ?thesis by (cases c) (auto intro: box_step.intros)
qed (auto intro: box_step.intros)

inductive_cases box_step_elims: "box_step s t s'"

lemma box_inv_step:
  assumes inv: "box_inv d s" and step: "box_step s t s'"
  shows "box_inv d s'"
  using step
proof cases
  case (write_new v d')
  have own: "sys_owner s = Some t" and old: "sys_data s = d'"
    using inv write_new(2) unfolding box_inv_def by (metis in_critical.simps(4), metis pc_data.simps(1))
  have "\<not> in_critical (sys_pc s u)" if "u \<noteq> t" for u
    using inv own that by (auto simp: box_inv_def)
  then have "pc_data (sys_pc s u) v" if "u \<noteq> t" for u
    using that by (simp add: pc_data_outside)
  then show ?thesis
    using inv own old write_new(1) by (auto simp: box_inv_def register_append)
next
  case (lock c)
  then show ?thesis using inv by (auto simp: box_inv_def)
next
  case (unlock c r)
  have "sys_owner s = Some t" using inv unlock(2) unfolding box_inv_def by (metis in_critical.simps(6))
  then show ?thesis using inv unlock(1) by (auto simp: box_inv_def)
qed (use inv in \<open>auto simp: box_inv_def register_append dest: spec [of _ t]\<close>)

lemma box_reach_inv: "box_reach d s \<Longrightarrow> box_inv d s"
proof (induction rule: box_reach.induct)
  case (step s t s')
  then show ?case by (blast intro: box_inv_step)
qed (simp add: box_inv_def)

section \<open>Properties of boxes\<close>

text \<open>
  C40: Boxes under concurrency. For every interleaving of threads that call swap, get and
  visit on one box: at most one thread is between lock and unlock; the results of all
  accesses are those of a register accessed in the order of the log, and the box holds the
  register's value; while a visitor runs, the box holds the data it was given and no thread
  can take the mutex, so a visitor that calls an operation on its own box never returns; and
  as long as some thread is in a call, some thread in a call can take a step.\<close>

theorem box_linearizable:
  assumes "box_reach d s"
  shows "(\<forall>t u. in_critical (sys_pc s t) \<and> in_critical (sys_pc s u) \<longrightarrow> t = u)
    \<and> register d (sys_log s) = Some (sys_data s)
    \<and> (\<forall>t d'. sys_pc s t = Visiting d' \<longrightarrow> sys_data s = d' \<and>
         (\<forall>u c s'. sys_pc s u = Locking c \<longrightarrow> \<not> box_step s u s'))
    \<and> ((\<exists>t. sys_pc s t \<noteq> Idle) \<longrightarrow> (\<exists>t s'. sys_pc s t \<noteq> Idle \<and> box_step s t s'))"
proof -
  have inv: "box_inv d s" by (rule box_reach_inv [OF assms])
  have own: "in_critical (sys_pc s t) \<longleftrightarrow> sys_owner s = Some t" for t using inv by (simp add: box_inv_def)
  have visit: "sys_data s = d' \<and> (\<forall>u c s'. sys_pc s u = Locking c \<longrightarrow> \<not> box_step s u s')"
    if "sys_pc s t = Visiting d'" for t d'
  proof -
    have "sys_owner s = Some t" using own [of t] that by simp
    moreover have "pc_data (sys_pc s t) (sys_data s)" using inv by (simp add: box_inv_def)
    ultimately show ?thesis using that by (auto elim: box_step_elims)
  qed
  have progress: "\<exists>u s'. sys_pc s u \<noteq> Idle \<and> box_step s u s'" if t: "sys_pc s t \<noteq> Idle" for t
  proof (cases "sys_owner s")
    case None
    then have "\<not> in_critical (sys_pc s t)" using own [of t] by simp
    then obtain c where "sys_pc s t = Locking c" using t by (cases "sys_pc s t") auto
    then show ?thesis using None box_step.lock [of s t c] t by blast
  next
    case (Some u)
    then have u: "in_critical (sys_pc s u)" using own [of u] by simp
    then have "\<exists>s'. box_step s u s'" by (rule critical_step)
    moreover have "sys_pc s u \<noteq> Idle" using u by auto
    ultimately show ?thesis by blast
  qed
  have "\<forall>t u. in_critical (sys_pc s t) \<and> in_critical (sys_pc s u) \<longrightarrow> t = u" using own by auto
  moreover have "register d (sys_log s) = Some (sys_data s)" using inv by (simp add: box_inv_def)
  ultimately show ?thesis using visit progress by blast
qed

theorem box_linearizable_witness:
  "\<exists>s. box_reach 5 s \<and> sys_log s = [(Get, 5)] \<and> register 5 [(Get, 5)] = Some (sys_data s)"
proof -
  let ?s0 = "\<lparr>sys_data = 5, sys_owner = None, sys_pc = (\<lambda>_. Idle), sys_log = []\<rparr>"
  let ?s1 = "?s0\<lparr>sys_pc := (sys_pc ?s0)(1 := Locking Get)\<rparr>"
  let ?s2 = "?s1\<lparr>sys_owner := Some 1, sys_pc := (sys_pc ?s1)(1 := Locked Get)\<rparr>"
  let ?s3 = "?s2\<lparr>sys_pc := (sys_pc ?s2)(1 := Unlocking Get (sys_data ?s2)), sys_log := sys_log ?s2 @ [(Get, sys_data ?s2)]\<rparr>"
  have "box_step ?s0 1 ?s1" by (rule box_step.call) simp
  then have "box_reach 5 ?s1" by (rule box_reach.step [OF box_reach.start])
  moreover have "box_step ?s1 1 ?s2" by (rule box_step.lock) simp_all
  ultimately have "box_reach 5 ?s2" by (rule box_reach.step)
  moreover have "box_step ?s2 1 ?s3" by (rule box_step.get) simp
  ultimately have r: "box_reach 5 ?s3" by (rule box_reach.step)
  show ?thesis using box_linearizable [OF r] r by (intro exI [of _ ?s3]) simp
qed

text \<open>
  For a caller alone: a box made from some data returns it, a swap returns the previous
  data, and a visit invokes the lambda once, with the data.
\<close>

lemma box_sequential:
  assumes "ak_box_new st d s = (b, st', s')" and "b \<noteq> 0"
  shows "ak_box_get st' b = Some d"
    and "\<exists>st''. ak_box_swap st' b v = Some (d, st'') \<and> ak_box_get st'' b = Some v"
    and "ak_lambda_invoke w l d = Some w' \<Longrightarrow> l \<noteq> 0 \<Longrightarrow> ak_box_visit st' w b l = Some (0, w')"
    and "ak_box_free st' b = Some st"
proof -
  have st': "st' = st(b \<mapsto> \<lparr>bx_data = d\<rparr>)" "st b = None"
    using assms alloc_cell_Some [of st s b]
    by (auto simp: ak_box_new_def split: prod.splits option.splits)
  then show "ak_box_get st' b = Some d"
    "\<exists>st''. ak_box_swap st' b v = Some (d, st'') \<and> ak_box_get st'' b = Some v"
    "ak_lambda_invoke w l d = Some w' \<Longrightarrow> l \<noteq> 0 \<Longrightarrow> ak_box_visit st' w b l = Some (0, w')"
    "ak_box_free st' b = Some st"
    using assms(2)
    by (simp_all add: ak_box_get_def ak_box_swap_def ak_box_visit_def ak_box_free_def free_cell_def fun_upd_idem)
qed

end
