(* ===== verification/Filepath.thy ===== *)
theory Filepath
  imports Buffer DynList
begin

text \<open>
  Model of kernel/filepath/src/filepath.c, as compiled for Linux: joining, normalising and
  taking apart of paths, and the directories of the user. A C string is the list of the bytes
  before its terminator, so a byte of it is never 0. Buffers are those of Buffer.thy, the list
  of components is that of DynList.thy, and the component strings live in a store from
  addresses to strings. What \<open>getenv\<close>, \<open>getpwuid\<close> and \<open>getcwd\<close> answer is an argument. There
  are two schedules, one for the byte arrays and one for the strings and the cells of the
  list. The outer \<open>option\<close> is \<open>None\<close> for an access outside an array or to freed storage.

  The lemmas show that the operations are always defined and free every component they have
  stored, and that, when the allocator grants its calls, joining puts one separator between
  components, normalising resolves the components of the path and is idempotent, and the
  directory, the base name and the extension make up the path again.
\<close>

section \<open>Definitions\<close>

record filepath_state =
  fp_initialized :: bool
  separator :: u8
  list_separator :: u8

abbreviation PATH_MAX :: nat where
  "PATH_MAX \<equiv> 4096"

text \<open>The bytes of a string literal of the source.\<close>

definition bytes :: "string \<Rightarrow> u8 list" where
  "bytes = map of_char"

abbreviation slash :: u8 where
  "slash \<equiv> 47"

abbreviation dot :: u8 where
  "dot \<equiv> 46"

definition ak_filepath_init :: "filepath_state \<Rightarrow> filepath_state" where
  "ak_filepath_init st =
     (if fp_initialized st then st
      else st\<lparr>separator := slash, list_separator := 58, fp_initialized := True\<rparr>)"

definition ak_filepath_shutdown :: "filepath_state \<Rightarrow> filepath_state" where
  "ak_filepath_shutdown st = st\<lparr>fp_initialized := False\<rparr>"

definition ak_filepath_separator :: "filepath_state \<Rightarrow> u8" where
  "ak_filepath_separator st = separator st"

definition ak_filepath_list_separator :: "filepath_state \<Rightarrow> u8" where
  "ak_filepath_list_separator st = list_separator st"

definition is_separator :: "u8 \<Rightarrow> bool" where
  "is_separator c \<longleftrightarrow> c = slash"

definition buffer_from_str ::
  "u8 list option \<Rightarrow> byte_sched \<Rightarrow> (ak_buffer option \<times> byte_sched) option" where
  "buffer_from_str str s =
     (case str of None \<Rightarrow> Some (None, s)
      | Some str' \<Rightarrow>
          let len = length str' in
          (case ak_buffer_new (sz_add len 1) s of
             (None, s1) \<Rightarrow> Some (None, s1)
           | (Some b, s1) \<Rightarrow> do {
               (rc, b', s2) \<leftarrow> ak_buffer_copy_to (Some b) (Some str') len s1;
               Some (if rc \<noteq> 0 then None else b', s2)
             }))"

definition buffer_append_str ::
  "ak_buffer option \<Rightarrow> u8 list option \<Rightarrow> byte_sched
   \<Rightarrow> (int \<times> ak_buffer option \<times> byte_sched) option" where
  "buffer_append_str buf str s =
     (case (buf, str) of
        (Some b, Some str') \<Rightarrow>
          let len = length str'; old_count = ak_buffer_count (Some b) in do {
            (ok, b', s') \<leftarrow>
              (if buf_capacity b < sz_add old_count len then
                 let new_capacity = sz_mul (sz_add old_count len) 2 in
                 (case alloc_bytes new_capacity s of
                    (None, s') \<Rightarrow> Some (False, b, s')
                  | (Some new_data, s') \<Rightarrow> do {
                      d \<leftarrow> mem_copy new_data 0 (buf_data b) 0 old_count;
                      Some (True, b\<lparr>buf_data := d, buf_capacity := new_capacity\<rparr>, s')
                    })
               else Some (True, b, s));
            if \<not> ok then Some (-1, Some b', s')
            else do {
              d \<leftarrow> mem_copy (buf_data b') old_count str' 0 len;
              Some (0, Some (b'\<lparr>buf_data := d, buf_count := sz_add old_count len\<rparr>), s')
            }
          }
      | _ \<Rightarrow> Some (-1, buf, s))"

definition buffer_append_char ::
  "ak_buffer option \<Rightarrow> u8 \<Rightarrow> byte_sched \<Rightarrow> (int \<times> ak_buffer option \<times> byte_sched) option" where
  "buffer_append_char buf c s = buffer_append_str buf (Some (if c = 0 then [] else [c])) s"

text \<open>The buffer with its terminator written behind the contents; NULL when it cannot grow.\<close>

definition buffer_to_cstr ::
  "ak_buffer option \<Rightarrow> byte_sched
   \<Rightarrow> (u8 list option \<times> ak_buffer option \<times> byte_sched) option" where
  "buffer_to_cstr buf s =
     (case buf of None \<Rightarrow> Some (None, None, s)
      | Some b \<Rightarrow>
          let count = ak_buffer_count (Some b) in do {
            (ok, b', s') \<leftarrow>
              (if buf_capacity b < sz_add count 1 then
                 (case alloc_bytes (sz_add count 1) s of
                    (None, s') \<Rightarrow> Some (False, b, s')
                  | (Some new_data, s') \<Rightarrow> do {
                      d \<leftarrow> mem_copy new_data 0 (buf_data b) 0 count;
                      Some (True, b\<lparr>buf_data := d, buf_capacity := sz_add count 1\<rparr>, s')
                    })
               else Some (True, b, s));
            if \<not> ok then Some (None, Some b', s')
            else do {
              d \<leftarrow> mem_write (buf_data b') count 0;
              Some (Some (takeWhile (\<lambda>c. c \<noteq> 0) d), Some (b'\<lparr>buf_data := d\<rparr>), s')
            }
          })"

text \<open>One turn of the loop of \<open>ak_filepath_join\<close>; the results of the appends are ignored.\<close>

definition join_step ::
  "filepath_state \<Rightarrow> ak_buffer \<Rightarrow> u8 list option \<Rightarrow> byte_sched
   \<Rightarrow> (ak_buffer \<times> byte_sched) option" where
  "join_step st result component s =
     (case component of None \<Rightarrow> Some (result, s)
      | Some [] \<Rightarrow> Some (result, s)
      | Some (c # cs) \<Rightarrow>
          let result_count = ak_buffer_count (Some result) in
          if result_count = 0 then do {
            (_, r, s1) \<leftarrow> buffer_append_str (Some result) (Some (c # cs)) s;
            r' \<leftarrow> r;
            Some (r', s1)
          }
          else do {
            last \<leftarrow> mem_read (buf_data result) (result_count - 1);
            let needs_sep = \<not> is_separator last;
            let component_starts_with_sep = is_separator c;
            (_, r1, s1) \<leftarrow>
              (if needs_sep \<and> \<not> component_starts_with_sep
               then buffer_append_char (Some result) (separator st) s
               else Some (0, Some result, s));
            (_, r2, s2) \<leftarrow>
              buffer_append_str r1
                (Some (if \<not> needs_sep \<and> component_starts_with_sep then cs else c # cs)) s1;
            r' \<leftarrow> r2;
            Some (r', s2)
          })"

fun join_loop ::
  "filepath_state \<Rightarrow> ak_buffer \<Rightarrow> u8 list option list \<Rightarrow> byte_sched
   \<Rightarrow> (ak_buffer \<times> byte_sched) option" where
  "join_loop st result [] s = Some (result, s)"
| "join_loop st result (component # args) s = do {
     (result', s') \<leftarrow> join_step st result component s;
     join_loop st result' args s'
   }"

definition ak_filepath_join ::
  "filepath_state \<Rightarrow> u8 list option list \<Rightarrow> byte_sched
   \<Rightarrow> (ak_buffer option \<times> byte_sched) option" where
  "ak_filepath_join st args s =
     (if \<not> fp_initialized st then Some (None, s)
      else (case ak_buffer_new 256 s of
        (None, s1) \<Rightarrow> Some (None, s1)
      | (Some result, s1) \<Rightarrow> do {
          (result', s2) \<leftarrow> join_loop st result args s1;
          Some (Some result', s2)
        }))"

definition ak_filepath_is_absolute :: "u8 list option \<Rightarrow> bool" where
  "ak_filepath_is_absolute path =
     (case path of None \<Rightarrow> False | Some [] \<Rightarrow> False | Some (c # cs) \<Rightarrow> c = slash)"

text \<open>
  \<open>ak_filepath_normalize\<close>. The strings of the components live in a store; the list holds
  their addresses. The loop keeps in \<open>part\<close> the first \<open>comp_idx\<close> bytes of \<open>component_buf\<close>.
\<close>

record norm_state =
  components :: "nat list_base"
  strings :: "nat \<rightharpoonup> u8 list"
  ptrs :: ptr_sched

definition drop_last :: "norm_state \<Rightarrow> norm_state option" where
  "drop_last n =
     (if list_count (components n) > 0 then do {
        (last, l) \<leftarrow> list_pop (components n);
        (case last of None \<Rightarrow> Some (n\<lparr>components := l\<rparr>)
         | Some a \<Rightarrow> do {
             p \<leftarrow> cells l a;
             h \<leftarrow> (if p \<noteq> 0 then free_cell (strings n) p else Some (strings n));
             Some (n\<lparr>components := l, strings := h\<rparr>)
           })
      }
      else Some n)"

definition add_component :: "norm_state \<Rightarrow> u8 list \<Rightarrow> norm_state option" where
  "add_component n part =
     (case alloc_cell (strings n) (ptrs n) of
        (None, s) \<Rightarrow> Some (n\<lparr>ptrs := s\<rparr>)
      | (Some p, s) \<Rightarrow> do {
          (_, l, s') \<leftarrow> list_push (components n) p s;
          Some (n\<lparr>components := l, strings := (strings n)(p \<mapsto> part), ptrs := s'\<rparr>)
        })"

definition end_component :: "norm_state \<Rightarrow> u8 list \<Rightarrow> norm_state option" where
  "end_component n part =
     (if part = bytes ''.'' then Some n
      else if part = bytes ''..'' then drop_last n
      else add_component n part)"

fun parse_components ::
  "norm_state \<Rightarrow> u8 list \<Rightarrow> u8 list \<Rightarrow> (norm_state \<times> u8 list) option" where
  "parse_components n part [] = Some (n, part)"
| "parse_components n part (c # p) =
     (if is_separator c then
        (if part \<noteq> [] then do {
           n' \<leftarrow> end_component n part;
           parse_components n' [] p
         }
         else parse_components n part p)
      else parse_components n (if length part < PATH_MAX - 1 then part @ [c] else part) p)"

text \<open>One turn of the loop that frees the strings when there is no buffer for the result.\<close>

definition release_string :: "nat \<Rightarrow> (nat \<rightharpoonup> u8 list) option \<Rightarrow> (nat \<rightharpoonup> u8 list) option \<times> bool" where
  "release_string p acc =
     (do { h \<leftarrow> acc; if p \<noteq> 0 then free_cell h p else Some h }, True)"

text \<open>One turn of the loop that writes the components; the state is the result, \<open>first\<close>, the
  strings and the schedule.\<close>

type_synonym emit_state = "(ak_buffer \<times> bool \<times> (nat \<rightharpoonup> u8 list) \<times> byte_sched) option"

definition emit_component :: "filepath_state \<Rightarrow> nat \<Rightarrow> emit_state \<Rightarrow> emit_state \<times> bool" where
  "emit_component st p acc =
     (do {
        (result, first, h, s) \<leftarrow> acc;
        if p \<noteq> 0 then do {
          (_, r1, s1) \<leftarrow>
            (if \<not> first then buffer_append_char (Some result) (separator st) s
             else Some (0, Some result, s));
          part \<leftarrow> h p;
          (_, r2, s2) \<leftarrow> buffer_append_str r1 (Some part) s1;
          result' \<leftarrow> r2;
          h' \<leftarrow> free_cell h p;
          Some (result', False, h', s2)
        }
        else Some (result, first, h, s)
      }, True)"

text \<open>The part of the function behind the loops that take the path apart.\<close>

definition build_result ::
  "filepath_state \<Rightarrow> bool \<Rightarrow> norm_state \<Rightarrow> byte_sched
   \<Rightarrow> (ak_buffer option \<times> norm_state \<times> byte_sched) option" where
  "build_result st is_absolute n s =
     (case ak_buffer_new 256 s of
        (None, s1) \<Rightarrow> do {
          freed \<leftarrow> list_while (components n) release_string list_iter_new (Some (strings n));
          h \<leftarrow> freed;
          l \<leftarrow> list_deinit (components n);
          Some (None, n\<lparr>components := l, strings := h\<rparr>, s1)
        }
      | (Some result, s1) \<Rightarrow> do {
          (_, r1, s2) \<leftarrow>
            (if is_absolute then buffer_append_char (Some result) (separator st) s1
             else Some (0, Some result, s1));
          result1 \<leftarrow> r1;
          written \<leftarrow> list_while (components n) (emit_component st) list_iter_new
                       (Some (result1, True, strings n, s2));
          (result2, _, h, s3) \<leftarrow> written;
          l \<leftarrow> list_deinit (components n);
          (_, r3, s4) \<leftarrow>
            (if ak_buffer_count (Some result2) = 0 \<and> \<not> is_absolute
             then buffer_append_str (Some result2) (Some (bytes ''.'')) s3
             else Some (0, Some result2, s3));
          Some (r3, n\<lparr>components := l, strings := h\<rparr>, s4)
        })"

definition ak_filepath_normalize ::
  "filepath_state \<Rightarrow> u8 list option \<Rightarrow> (nat \<rightharpoonup> u8 list) \<Rightarrow> ptr_sched \<Rightarrow> byte_sched
   \<Rightarrow> (ak_buffer option \<times> norm_state \<times> byte_sched) option" where
  "ak_filepath_normalize st path h ps s =
     (let n = \<lparr>components = list_init 8, strings = h, ptrs = ps\<rparr> in
      case path of None \<Rightarrow> Some (None, n, s)
      | Some p \<Rightarrow>
          if \<not> fp_initialized st then Some (None, n, s)
          else do {
            let is_absolute = ak_filepath_is_absolute (Some p);
            (n1, part) \<leftarrow> parse_components n [] p;
            n2 \<leftarrow> (if part \<noteq> [] then end_component n1 part else Some n1);
            build_result st is_absolute n2 s
          })"

text \<open>The loop that finds the last byte with a property; its position counts from the start.\<close>

fun find_last :: "(u8 \<Rightarrow> bool) \<Rightarrow> u8 list \<Rightarrow> nat \<Rightarrow> nat option \<Rightarrow> nat option" where
  "find_last P [] i found = found"
| "find_last P (c # cs) i found = find_last P cs (i + 1) (if P c then Some i else found)"

definition ak_filepath_basename ::
  "filepath_state \<Rightarrow> u8 list option \<Rightarrow> byte_sched \<Rightarrow> (ak_buffer option \<times> byte_sched) option" where
  "ak_filepath_basename st path s =
     (case path of None \<Rightarrow> Some (None, s)
      | Some p \<Rightarrow>
          if \<not> fp_initialized st \<or> p = [] then Some (None, s)
          else (case find_last is_separator p 0 None of
            None \<Rightarrow> buffer_from_str (Some p) s
          | Some last_sep \<Rightarrow> buffer_from_str (Some (drop (last_sep + 1) p)) s))"

definition ak_filepath_dirname ::
  "filepath_state \<Rightarrow> u8 list option \<Rightarrow> byte_sched \<Rightarrow> (ak_buffer option \<times> byte_sched) option" where
  "ak_filepath_dirname st path s =
     (case path of None \<Rightarrow> Some (None, s)
      | Some p \<Rightarrow>
          if \<not> fp_initialized st \<or> p = [] then Some (None, s)
          else (case find_last is_separator p 0 None of
            None \<Rightarrow> buffer_from_str (Some (bytes ''.'')) s
          | Some last_sep \<Rightarrow>
              if last_sep = 0
              then buffer_from_str (Some (if separator st = 0 then [] else [separator st])) s
              else let len = last_sep in
                (case ak_buffer_new (len + 1) s of
                   (None, s1) \<Rightarrow> Some (None, s1)
                 | (Some b, s1) \<Rightarrow> do {
                     (_, b', s2) \<leftarrow> ak_buffer_copy_to (Some b) (Some p) len s1;
                     Some (b', s2)
                   })))"

definition ak_filepath_extension ::
  "filepath_state \<Rightarrow> u8 list option \<Rightarrow> byte_sched \<Rightarrow> (ak_buffer option \<times> byte_sched) option" where
  "ak_filepath_extension st path s =
     (case path of None \<Rightarrow> Some (None, s)
      | Some p \<Rightarrow>
          if \<not> fp_initialized st \<or> p = [] then Some (None, s)
          else do {
            (base, s1) \<leftarrow> ak_filepath_basename st (Some p) s;
            (case base of None \<Rightarrow> Some (None, s1)
             | Some b \<Rightarrow> do {
                 (base_str, _, s2) \<leftarrow> buffer_to_cstr (Some b) s1;
                 (case base_str of None \<Rightarrow> Some (None, s2)
                  | Some str \<Rightarrow>
                      (case find_last (\<lambda>c. c = dot) str 0 None of
                         None \<Rightarrow> Some (None, s2)
                       | Some last_dot \<Rightarrow>
                           if last_dot = 0 then Some (None, s2)
                           else buffer_from_str (Some (drop last_dot str)) s2))
               })
          })"

text \<open>What the C library answers about the process: variables, home directory, directory.\<close>

record os_env =
  getenv :: "string \<Rightarrow> u8 list option"
  pw_dir :: "u8 list option"
  getcwd :: "u8 list option"

text \<open>\<open>char *v = getenv(name); if (v && *v) return buffer_from_str(v); ...\<close>\<close>

definition from_variable ::
  "os_env \<Rightarrow> string \<Rightarrow> (byte_sched \<Rightarrow> (ak_buffer option \<times> byte_sched) option) \<Rightarrow> byte_sched
   \<Rightarrow> (ak_buffer option \<times> byte_sched) option" where
  "from_variable env name otherwise s =
     (case getenv env name of
        None \<Rightarrow> otherwise s
      | Some v \<Rightarrow> if v \<noteq> [] then buffer_from_str (Some v) s else otherwise s)"

definition ak_filepath_home ::
  "filepath_state \<Rightarrow> os_env \<Rightarrow> byte_sched \<Rightarrow> (ak_buffer option \<times> byte_sched) option" where
  "ak_filepath_home st env s =
     (if \<not> fp_initialized st then Some (None, s)
      else from_variable env ''HOME'' (\<lambda>s.
        case pw_dir env of None \<Rightarrow> Some (None, s)
        | Some d \<Rightarrow> buffer_from_str (Some d) s) s)"

text \<open>\<open>ak_filepath_join(2, buffer_to_cstr(home), name)\<close>, after which \<open>home\<close> is freed.\<close>

definition below_home ::
  "filepath_state \<Rightarrow> os_env \<Rightarrow> string \<Rightarrow> byte_sched \<Rightarrow> (ak_buffer option \<times> byte_sched) option" where
  "below_home st env name s = do {
     (home, s1) \<leftarrow> ak_filepath_home st env s;
     (case home of None \<Rightarrow> Some (None, s1)
      | Some b \<Rightarrow> do {
          (str, _, s2) \<leftarrow> buffer_to_cstr (Some b) s1;
          ak_filepath_join st [str, Some (bytes name)] s2
        })
   }"

definition ak_filepath_cache ::
  "filepath_state \<Rightarrow> os_env \<Rightarrow> byte_sched \<Rightarrow> (ak_buffer option \<times> byte_sched) option" where
  "ak_filepath_cache st env s =
     (if \<not> fp_initialized st then Some (None, s)
      else from_variable env ''XDG_CACHE_HOME'' (below_home st env ''.cache'') s)"

definition ak_filepath_config ::
  "filepath_state \<Rightarrow> os_env \<Rightarrow> byte_sched \<Rightarrow> (ak_buffer option \<times> byte_sched) option" where
  "ak_filepath_config st env s =
     (if \<not> fp_initialized st then Some (None, s)
      else from_variable env ''XDG_CONFIG_HOME'' (below_home st env ''.config'') s)"

definition ak_filepath_data ::
  "filepath_state \<Rightarrow> os_env \<Rightarrow> byte_sched \<Rightarrow> (ak_buffer option \<times> byte_sched) option" where
  "ak_filepath_data st env s =
     (if \<not> fp_initialized st then Some (None, s)
      else from_variable env ''XDG_DATA_HOME'' (below_home st env ''.local/share'') s)"

definition ak_filepath_temp ::
  "filepath_state \<Rightarrow> os_env \<Rightarrow> byte_sched \<Rightarrow> (ak_buffer option \<times> byte_sched) option" where
  "ak_filepath_temp st env s =
     (if \<not> fp_initialized st then Some (None, s)
      else from_variable env ''TMPDIR'' (\<lambda>s. buffer_from_str (Some (bytes ''/tmp'')) s) s)"

text \<open>\<open>getcwd\<close> gets \<open>PATH_MAX\<close> bytes and fails when the name does not fit.\<close>

definition ak_filepath_cwd ::
  "filepath_state \<Rightarrow> os_env \<Rightarrow> byte_sched \<Rightarrow> (ak_buffer option \<times> byte_sched) option" where
  "ak_filepath_cwd st env s =
     (if \<not> fp_initialized st then Some (None, s)
      else (case alloc_bytes PATH_MAX s of
        (None, s1) \<Rightarrow> Some (None, s1)
      | (Some _, s1) \<Rightarrow>
          (case getcwd env of None \<Rightarrow> Some (None, s1)
           | Some d \<Rightarrow>
               if length d < PATH_MAX then buffer_from_str (Some d) s1 else Some (None, s1))))"

fun native_loop ::
  "filepath_state \<Rightarrow> ak_buffer option \<Rightarrow> u8 list \<Rightarrow> byte_sched
   \<Rightarrow> (ak_buffer option \<times> byte_sched) option" where
  "native_loop st result [] s = Some (result, s)"
| "native_loop st result (c # p) s = do {
     (_, result', s') \<leftarrow> buffer_append_char result (if is_separator c then separator st else c) s;
     native_loop st result' p s'
   }"

definition ak_filepath_to_native ::
  "filepath_state \<Rightarrow> u8 list option \<Rightarrow> byte_sched \<Rightarrow> (ak_buffer option \<times> byte_sched) option" where
  "ak_filepath_to_native st path s =
     (case path of None \<Rightarrow> Some (None, s)
      | Some p \<Rightarrow>
          if \<not> fp_initialized st then Some (None, s)
          else (case ak_buffer_new (sz_add (length p) 1) s of
            (None, s1) \<Rightarrow> Some (None, s1)
          | (Some result, s1) \<Rightarrow> native_loop st (Some result) p s1))"

section \<open>Specification\<close>

text \<open>One component joined to what there is so far; NULL and empty components are skipped.\<close>

definition join_path :: "u8 list \<Rightarrow> u8 list option \<Rightarrow> u8 list" where
  "join_path r component =
     (case component of None \<Rightarrow> r
      | Some [] \<Rightarrow> r
      | Some (c # cs) \<Rightarrow>
          if r = [] then c # cs
          else if last r = slash then r @ (if c = slash then cs else c # cs)
          else if c = slash then r @ c # cs
          else r @ slash # c # cs)"

text \<open>
  The pieces of a path between its separators, and the components that are left when each
  ``.'' is dropped and each ``..'' takes away the component before it, if there is one.
\<close>

fun pieces :: "u8 list \<Rightarrow> u8 list list" where
  "pieces [] = [[]]"
| "pieces (c # p) = (if c = slash then [] # pieces p else (c # hd (pieces p)) # tl (pieces p))"

definition resolve_step :: "u8 list list \<Rightarrow> u8 list \<Rightarrow> u8 list list" where
  "resolve_step qs q =
     (if q = [] \<or> q = [dot] then qs else if q = [dot, dot] then butlast qs else qs @ [q])"

definition resolved :: "u8 list \<Rightarrow> u8 list list" where
  "resolved p = foldl resolve_step [] (map (take (PATH_MAX - 1)) (pieces p))"

fun with_slashes :: "u8 list list \<Rightarrow> u8 list" where
  "with_slashes [] = []"
| "with_slashes [q] = q"
| "with_slashes (q # q' # qs) = q @ slash # with_slashes (q' # qs)"

definition normal_path :: "u8 list \<Rightarrow> u8 list" where
  "normal_path p =
     (if ak_filepath_is_absolute (Some p) then slash # with_slashes (resolved p)
      else if resolved p = [] then [dot]
      else with_slashes (resolved p))"

definition fp_ready :: "filepath_state \<Rightarrow> bool" where
  "fp_ready st \<longleftrightarrow> fp_initialized st \<and> separator st = slash"

section \<open>Strings in buffers\<close>

lemma grown_ok:
  assumes "length d = cap" and "0 < cap" and "cap < SIZE_RANGE" and "cnt \<le> cap"
  shows "buf_ok (b\<lparr>buf_data := d, buf_capacity := cap, buf_count := cnt\<rparr>)"
  using assms by (simp add: buf_ok_def)

lemma append_str_correct:
  assumes ok: "buf_ok b" and small: "buf_count b + length str < 2 ^ 62"
  obtains rc b' s' where "buffer_append_str (Some b) (Some str) s = Some (rc, Some b', s')"
    "buf_ok b'" "uses 1 s s'" "buf_bytes b' = buf_bytes b @ str \<or> b' = b"
    "grants 1 s \<longrightarrow> buf_bytes b' = buf_bytes b @ str"
proof -
  let ?n = "buf_count b + length str"
  have n: "sz_add (buf_count b) (length str) = ?n"
    using small by (intro sz_add_exact) simp
  have n2: "sz_mul ?n 2 = ?n * 2"
    using small by (intro sz_mul_exact) simp
  show thesis
  proof (cases "buf_capacity b < ?n")
    case False
    then have mc: "mem_copy (buf_data b) (buf_count b) str 0 (length str)
        = Some (take (buf_count b) (buf_data b) @ str @ drop ?n (buf_data b))" (is "_ = Some ?d")
      using ok by (simp add: mem_copy_def buf_ok_def)
    have "buf_ok (b\<lparr>buf_data := ?d, buf_count := ?n\<rparr>)"
      "buf_bytes (b\<lparr>buf_data := ?d, buf_count := ?n\<rparr>) = buf_bytes b @ str"
      using ok False by (simp_all add: buf_ok_def buf_bytes_def)
    then show thesis
      using False that [of 0 "b\<lparr>buf_data := ?d, buf_count := ?n\<rparr>" s] mc n
      by (simp add: buffer_append_str_def ak_buffer_count_def Let_def)
  next
    case True
    show thesis
    proof (cases rule: alloc_bytes_cases [of "?n * 2" s])
      case 1
      then have "\<not> grants 1 s"
        using grants_1 [of s] by (auto simp: alloc_bytes_def)
      then show thesis
        using 1 True n n2 ok that [of "-1" b "tl s"] uses_tl [of 0 s]
        by (simp add: buffer_append_str_def ak_buffer_count_def Let_def)
    next
      case (2 d)
      let ?d = "take (buf_count b) (buf_data b) @ drop (buf_count b) d"
      have c: "mem_copy d 0 (buf_data b) 0 (buf_count b) = Some ?d"
        using 2(2) ok by (simp add: mem_copy_def buf_ok_def)
      let ?e = "take (buf_count b) (buf_data b) @ str @ drop ?n ?d"
      have len: "length ?d = ?n * 2" using 2(2) ok by (simp add: buf_ok_def)
      have e: "mem_copy ?d (buf_count b) str 0 (length str) = Some ?e"
        using len ok by (simp add: mem_copy_def buf_ok_def)
      let ?b = "b\<lparr>buf_data := ?e, buf_capacity := ?n * 2, buf_count := ?n\<rparr>"
      have "buf_ok ?b"
        using len True small ok by (intro grown_ok) (auto simp: buf_ok_def)
      moreover have "buf_bytes ?b = buf_bytes b @ str"
        using ok by (simp add: buf_bytes_def buf_ok_def)
      ultimately show thesis
        using 2(1) True n n2 c e that [of 0 ?b "tl s"] uses_tl [of 0 s]
        by (simp add: buffer_append_str_def ak_buffer_count_def Let_def)
    qed
  qed
qed

lemma append_char_str: "c \<noteq> 0 \<Longrightarrow> buffer_append_char b c s = buffer_append_str b (Some [c]) s"
  by (simp add: buffer_append_char_def)

lemma buffer_new_uses: "ak_buffer_new n s = (r, s') \<Longrightarrow> uses 2 s s' \<and> (grants 2 s \<longrightarrow> r \<noteq> None)"
  by (cases s; cases "tl s"; cases "hd s"; cases "hd (tl s)")
    (auto simp: ak_buffer_new_def alloc_bytes_def Let_def uses_def grants_def
      intro: exI [of _ 0] exI [of _ "Suc 0"] exI [of _ 2])

lemma new_empty:
  assumes "ak_buffer_new n s = (Some b, s')" and "n < SIZE_RANGE"
  shows "buf_ok b" and "buf_bytes b = []" and "n \<le> buf_capacity b" and "buf_count b = 0"
  using ak_buffer_new_ok [OF assms] ak_buffer_new_Some [OF assms(1)] by simp_all

lemma copy_to_fits:
  assumes "buf_ok b" and "buf_count b + len \<le> buf_capacity b" and "len \<le> length src"
  obtains b' where "ak_buffer_copy_to (Some b) (Some src) len s = Some (0, Some b', s)"
    "buf_ok b'" "buf_bytes b' = buf_bytes b @ take len src"
proof -
  show thesis
  proof (cases "len = 0")
    case True
    then show thesis using that [of b] assms(1) by (simp add: ak_buffer_copy_to_def)
  next
    case False
    have n: "sz_add (buf_count b) len = buf_count b + len"
      using assms by (intro sz_add_exact) (simp add: buf_ok_def)
    let ?d = "take (buf_count b) (buf_data b) @ take len src @ drop (buf_count b + len) (buf_data b)"
    have "mem_copy (buf_data b) (buf_count b) src 0 len = Some ?d"
      using assms by (simp add: mem_copy_def buf_ok_def)
    then show thesis
      using that [of "b\<lparr>buf_data := ?d, buf_count := buf_count b + len\<rparr>"] assms False n
      by (simp add: ak_buffer_copy_to_def buf_ok_def buf_bytes_def Let_def)
  qed
qed

lemma from_str_correct:
  assumes small: "length str < 2 ^ 62"
  obtains r s' where "buffer_from_str (Some str) s = Some (r, s')" "uses 2 s s'"
    "case r of None \<Rightarrow> \<not> grants 2 s | Some b \<Rightarrow> buf_ok b \<and> buf_bytes b = str"
proof -
  have len: "sz_add (length str) 1 = length str + 1" "length str + 1 < SIZE_RANGE"
    using small by (simp_all add: sz_add_exact)
  obtain r s1 where new: "ak_buffer_new (length str + 1) s = (r, s1)" by (rule prod.exhaust)
  show thesis
  proof (cases r)
    case None
    then show thesis
      using that [of None s1] new len(1) buffer_new_uses [OF new] by (auto simp: buffer_from_str_def)
  next
    case (Some b)
    note b = new_empty [OF new [unfolded Some] len(2)]
    obtain b' where "ak_buffer_copy_to (Some b) (Some str) (length str) s1 = Some (0, Some b', s1)"
        "buf_ok b'" "buf_bytes b' = buf_bytes b @ take (length str) str"
      by (rule copy_to_fits [of b "length str" str s1]) (use b in auto)
    then show thesis
      using that [of "Some b'" s1] new Some len(1) b buffer_new_uses [OF new]
      by (simp add: buffer_from_str_def)
  qed
qed

lemma to_cstr_correct:
  assumes ok: "buf_ok b" and small: "buf_count b < 2 ^ 62"
  obtains r b' s' where "buffer_to_cstr (Some b) s = Some (r, b', s')" "uses 1 s s'"
    "case r of None \<Rightarrow> \<not> grants 1 s | Some str \<Rightarrow> str = takeWhile (\<lambda>c. c \<noteq> 0) (buf_bytes b)"
proof -
  let ?n = "buf_count b"
  have n: "sz_add ?n 1 = ?n + 1" using small by (intro sz_add_exact) simp
  have terminated: "takeWhile (\<lambda>c. c \<noteq> 0) (d[?n := 0]) = takeWhile (\<lambda>c. c \<noteq> 0) (buf_bytes b)"
    if "?n < length d" and "take ?n d = buf_bytes b" for d
    using that by (simp add: upd_conv_take_nth_drop takeWhile_tail)
  show thesis
  proof (cases "buf_capacity b < ?n + 1")
    case False
    then have "mem_write (buf_data b) ?n 0 = Some ((buf_data b)[?n := 0])"
      using ok by (simp add: mem_write_def buf_ok_def)
    then show thesis
      using that [of "Some (takeWhile (\<lambda>c. c \<noteq> 0) (buf_bytes b))" _ s] False n ok
        terminated [of "buf_data b"]
      by (simp add: buffer_to_cstr_def ak_buffer_count_def buf_ok_def buf_bytes_def Let_def)
  next
    case True
    show thesis
    proof (cases rule: alloc_bytes_cases [of "?n + 1" s])
      case 1
      then have "\<not> grants 1 s"
        using grants_1 [of s] by (auto simp: alloc_bytes_def)
      then show thesis
        using 1 True n that [of None "Some b" "tl s"] uses_tl [of 0 s]
        by (simp add: buffer_to_cstr_def ak_buffer_count_def Let_def)
    next
      case (2 d)
      let ?d = "buf_bytes b @ drop ?n d"
      have "mem_copy d 0 (buf_data b) 0 ?n = Some ?d"
        using 2(2) ok by (simp add: mem_copy_def buf_ok_def buf_bytes_def)
      moreover have "mem_write ?d ?n 0 = Some (?d[?n := 0])"
        using 2(2) length_buf_bytes [OF ok] by (simp add: mem_write_def)
      ultimately show thesis
        using that [of "Some (takeWhile (\<lambda>c. c \<noteq> 0) (buf_bytes b))" _ "tl s"] 2 True n
          terminated [of ?d] length_buf_bytes [OF ok] uses_tl [of 0 s]
        by (simp add: buffer_to_cstr_def ak_buffer_count_def Let_def)
    qed
  qed
qed

section \<open>Joining\<close>

definition part_size :: "u8 list option \<Rightarrow> nat" where
  "part_size component = (case component of None \<Rightarrow> 0 | Some cs \<Rightarrow> length cs + 1)"

definition parts_size :: "u8 list option list \<Rightarrow> nat" where
  "parts_size args = sum_list (map part_size args)"

lemma join_step_correct:
  assumes st: "fp_ready st" and ok: "buf_ok b" and small: "buf_count b + part_size component < 2 ^ 62"
  obtains b' s' where "join_step st b component s = Some (b', s')" "buf_ok b'" "uses 2 s s'"
    "buf_count b' \<le> buf_count b + part_size component"
    "grants 2 s \<longrightarrow> buf_bytes b' = join_path (buf_bytes b) component"
proof (cases "component = None \<or> component = Some []")
  case True
  then show thesis
    using that [of b s] ok by (auto simp: join_step_def join_path_def)
next
  case False
  then obtain c cs where comp: "component = Some (c # cs)"
    by (cases component; cases "the component") auto
  note len = length_buf_bytes [OF ok]
  show thesis
  proof (cases "buf_count b = 0")
    case True
    obtain rc b' s' where app: "buffer_append_str (Some b) (Some (c # cs)) s = Some (rc, Some b', s')"
      "buf_ok b'" "uses 1 s s'" "buf_bytes b' = buf_bytes b @ c # cs \<or> b' = b"
      "grants 1 s \<longrightarrow> buf_bytes b' = buf_bytes b @ c # cs"
      by (rule append_str_correct [OF ok, of "c # cs" s]) (use small comp in \<open>simp add: part_size_def\<close>)
    have "buf_count b' \<le> buf_count b + part_size component"
      using app(4) length_buf_bytes [OF app(2)] len by (auto simp: comp part_size_def)
    then show thesis
      using that [of b' s'] app True len uses_mono [OF app(3), of 2] grants_mono [of 2 s 1]
      by (simp add: join_step_def join_path_def comp ak_buffer_count_def)
  next
    case ne: False
    let ?last = "buf_data b ! (buf_count b - 1)"
    have rd: "mem_read (buf_data b) (buf_count b - 1) = Some ?last"
      using ok ne by (auto simp: mem_read_def buf_ok_def)
    have ne': "buf_bytes b \<noteq> []" using len ne by auto
    have last: "last (buf_bytes b) = ?last" "buf_bytes b \<noteq> []"
      using ne' len ne unfolding last_conv_nth [OF ne'] by (simp_all add: buf_bytes_def)
    define sep where "sep = (if ?last \<noteq> slash \<and> c \<noteq> slash then [slash] else [])"
    define str where "str = (if ?last = slash \<and> c = slash then cs else c # cs)"
    have jp: "join_path (buf_bytes b) component = buf_bytes b @ sep @ str"
      using last by (auto simp: join_path_def comp sep_def str_def)
    have sizes: "length sep + length str \<le> part_size component"
      by (auto simp: sep_def str_def comp part_size_def)
    obtain rc1 b1 s1 where sep1: "(if ?last \<noteq> slash \<and> c \<noteq> slash
          then buffer_append_char (Some b) (separator st) s else Some (0, Some b, s))
          = Some (rc1, Some b1, s1)"
        "buf_ok b1" "uses 1 s s1" "buf_bytes b1 = buf_bytes b @ sep \<or> b1 = b"
        "grants 1 s \<longrightarrow> buf_bytes b1 = buf_bytes b @ sep"
    proof (cases "?last \<noteq> slash \<and> c \<noteq> slash")
      case True
      then have "buf_count b + length [slash] < 2 ^ 62"
        using small by (simp add: comp part_size_def)
      from append_str_correct [OF ok this, of s] show thesis
        using that True st by (auto simp: sep_def append_char_str fp_ready_def)
    next
      case False
      then show thesis using that [of 0 b s] ok by (auto simp: sep_def)
    qed
    have c1: "buf_count b1 \<le> buf_count b + length sep"
      using sep1(4) length_buf_bytes [OF sep1(2)] len by auto
    have "buf_count b1 + length str < 2 ^ 62" using c1 sizes small by linarith
    then obtain rc2 b2 s2 where app: "buffer_append_str (Some b1) (Some str) s1 = Some (rc2, Some b2, s2)"
        "buf_ok b2" "uses 1 s1 s2" "buf_bytes b2 = buf_bytes b1 @ str \<or> b2 = b1"
        "grants 1 s1 \<longrightarrow> buf_bytes b2 = buf_bytes b1 @ str"
      by (rule append_str_correct [OF sep1(2), of str s1])
    have c2: "buf_count b2 \<le> buf_count b + part_size component"
      using app(4) length_buf_bytes [OF app(2)] length_buf_bytes [OF sep1(2)] c1 sizes by auto
    have u: "uses 2 s s2" using uses_trans [OF sep1(3) app(3)] by (simp add: numeral_2_eq_2)
    have g: "grants 2 s \<longrightarrow> buf_bytes b2 = join_path (buf_bytes b) component"
      using sep1(5) app(5) grants_mono [of 2 s 1] grants_uses [of 1 1 s s1] sep1(3) jp
      by (auto simp: numeral_2_eq_2)
    have "join_step st b component s = Some (b2, s2)"
      using ne rd sep1(1) app(1)
      by (simp add: join_step_def comp ak_buffer_count_def is_separator_def Let_def str_def)
    then show thesis using that app(2) u c2 g by blast
  qed
qed

lemma join_loop_correct:
  assumes "fp_ready st"
  shows "buf_ok b \<Longrightarrow> buf_count b + parts_size args < 2 ^ 62 \<Longrightarrow>
    \<exists>b' s'. join_loop st b args s = Some (b', s') \<and> buf_ok b' \<and> uses (2 * length args) s s'
      \<and> buf_count b' \<le> buf_count b + parts_size args
      \<and> (grants (2 * length args) s \<longrightarrow> buf_bytes b' = foldl join_path (buf_bytes b) args)"
proof (induction args arbitrary: b s)
  case Nil
  then show ?case by (simp add: parts_size_def)
next
  case (Cons c args)
  have sz: "parts_size (c # args) = part_size c + parts_size args" by (simp add: parts_size_def)
  obtain b1 s1 where b1: "join_step st b c s = Some (b1, s1)" "buf_ok b1" "uses 2 s s1"
      "buf_count b1 \<le> buf_count b + part_size c"
      "grants 2 s \<longrightarrow> buf_bytes b1 = join_path (buf_bytes b) c"
    by (rule join_step_correct [OF assms Cons.prems(1), of c s]) (use Cons.prems(2) sz in simp)
  have "buf_count b1 + parts_size args < 2 ^ 62" using b1(4) Cons.prems(2) sz by simp
  from Cons.IH [OF b1(2) this, of s1] obtain b2 s2 where b2:
      "join_loop st b1 args s1 = Some (b2, s2)" "buf_ok b2" "uses (2 * length args) s1 s2"
      "buf_count b2 \<le> buf_count b1 + parts_size args"
      "grants (2 * length args) s1 \<longrightarrow> buf_bytes b2 = foldl join_path (buf_bytes b1) args"
    by blast
  have "uses (2 * length (c # args)) s s2"
    using uses_trans [OF b1(3) b2(3)] by simp
  moreover have "grants (2 * length (c # args)) s \<longrightarrow>
      buf_bytes b2 = foldl join_path (buf_bytes b) (c # args)"
    using b1(5) b2(5) grants_mono [of "2 * length (c # args)" s 2]
      grants_uses [of 2 "2 * length args" s s1] b1(3) by simp
  ultimately show ?case
    using b1 b2 sz by (auto simp: exI [of _ b2])
qed

lemma join_correct:
  assumes st: "fp_ready st" and small: "parts_size args < 2 ^ 62"
  obtains r s' where "ak_filepath_join st args s = Some (r, s')"
    "case r of None \<Rightarrow> \<not> grants 2 s
     | Some b \<Rightarrow> buf_ok b \<and> (grants (2 + 2 * length args) s \<longrightarrow> buf_bytes b = foldl join_path [] args)"
proof -
  obtain r s1 where new: "ak_buffer_new 256 s = (r, s1)" by (rule prod.exhaust)
  note u = buffer_new_uses [OF new]
  show thesis
  proof (cases r)
    case None
    then show thesis using that [of None s1] new u st by (simp add: ak_filepath_join_def fp_ready_def)
  next
    case (Some b)
    have b: "buf_ok b" "buf_bytes b = []" "buf_count b = 0"
      using new_empty [OF new [unfolded Some]] by simp_all
    have "buf_count b + parts_size args < 2 ^ 62" using b(3) small by simp
    from join_loop_correct [OF st b(1) this, of s1] obtain b' s' where
        "join_loop st b args s1 = Some (b', s')" "buf_ok b'"
        "grants (2 * length args) s1 \<longrightarrow> buf_bytes b' = foldl join_path (buf_bytes b) args"
      by blast
    then show thesis
      using that [of "Some b'" s'] new Some u st b(2) grants_uses [of 2 "2 * length args" s s1]
      by (simp add: ak_filepath_join_def fp_ready_def)
  qed
qed

section \<open>Components of a path\<close>

text \<open>The components of a path are its pieces that are not empty.\<close>

definition parts :: "u8 list \<Rightarrow> u8 list list" where
  "parts p = filter (\<lambda>q. q \<noteq> []) (pieces p)"

lemma pieces_not_Nil [simp]: "pieces p \<noteq> []"
  by (induction p) auto

lemma pieces_append: "pieces (p @ slash # p') = pieces p @ pieces p'"
  by (induction p) auto

lemma pieces_no_slash: "slash \<notin> set q \<Longrightarrow> pieces q = [q]"
  by (induction q) auto

lemma pieces_slash: "q \<in> set (pieces p) \<Longrightarrow> slash \<notin> set q"
proof (induction p arbitrary: q)
  case (Cons c p)
  have "set (pieces p) = insert (hd (pieces p)) (set (tl (pieces p)))"
    by (cases "pieces p") auto
  with Cons show ?case by (auto split: if_splits)
qed simp

lemma length_pieces: "length (pieces p) \<le> Suc (length p)"
proof (induction p)
  case (Cons c p)
  then show ?case by (cases "pieces p") auto
qed simp

lemma parts_append: "parts (p @ slash # p') = parts p @ parts p'"
  by (simp add: parts_def pieces_append)

lemma parts_slash: "parts (slash # p) = parts p"
  by (simp add: parts_def)

lemma parts_slash_end: "parts (p @ [slash]) = parts p"
  using parts_append [of p "[]"] by (simp add: parts_def)

lemma join_path_parts:
  "parts (join_path r component) = parts r @ (case component of None \<Rightarrow> [] | Some cs \<Rightarrow> parts cs)"
proof (cases "component = None \<or> component = Some []")
  case True
  then show ?thesis by (auto simp: join_path_def parts_def)
next
  case False
  then obtain c cs where comp: "component = Some (c # cs)"
    by (cases component; cases "the component") auto
  show ?thesis
  proof (cases "r \<noteq> [] \<and> last r = slash")
    case True
    then obtain r' where r: "r = r' @ [slash]" by (metis append_butlast_last_id)
    show ?thesis
      using parts_append [of r' "c # cs"] parts_append [of r' cs] parts_slash [of cs]
        parts_slash_end [of r'] by (auto simp: join_path_def comp r)
  next
    case False
    then show ?thesis
      using parts_append [of r "c # cs"] parts_append [of r cs] parts_slash [of cs]
      by (auto simp: join_path_def comp parts_def)
  qed
qed

lemma join_paths_parts:
  "parts (foldl join_path r args)
   = parts r @ concat (map (\<lambda>a. case a of None \<Rightarrow> [] | Some cs \<Rightarrow> parts cs) args)"
  by (induction args arbitrary: r) (simp_all add: join_path_parts)

text \<open>Joining puts no empty piece between two components.\<close>

definition tidy :: "u8 list \<Rightarrow> bool" where
  "tidy p \<longleftrightarrow> (\<forall>i. Suc i < length p \<longrightarrow> \<not> (p ! i = slash \<and> p ! Suc i = slash))"

lemma tidy_append:
  "tidy (p @ p') \<longleftrightarrow> tidy p \<and> tidy p' \<and> \<not> (p \<noteq> [] \<and> p' \<noteq> [] \<and> last p = slash \<and> hd p' = slash)"
proof (induction p rule: induct_list012)
  case 1
  then show ?case by (simp add: tidy_def)
next
  case (2 x)
  then show ?case
    by (cases p') (auto simp: tidy_def nth_Cons split: nat.splits)
next
  case (3 x y zs)
  have step: "tidy (x # y # ws) \<longleftrightarrow> \<not> (x = slash \<and> y = slash) \<and> tidy (y # ws)" for ws
    by (auto simp: tidy_def nth_Cons split: nat.splits)
  show ?case using 3(2) by (auto simp: step)
qed

lemma tidy_Cons: "tidy (c # p) \<longleftrightarrow> tidy p \<and> \<not> (p \<noteq> [] \<and> c = slash \<and> hd p = slash)"
  using tidy_append [of "[c]" p] by (auto simp: tidy_def)

lemma join_path_tidy:
  assumes "tidy r" and "case component of None \<Rightarrow> True | Some cs \<Rightarrow> tidy cs"
  shows "tidy (join_path r component)"
  using assms
  by (auto simp: join_path_def tidy_append tidy_Cons split: option.splits list.splits)

lemma join_paths_tidy:
  assumes "tidy r" and "\<And>cs. Some cs \<in> set args \<Longrightarrow> tidy cs"
  shows "tidy (foldl join_path r args)"
  using assms
proof (induction args arbitrary: r)
  case (Cons a args)
  have "tidy (join_path r a)"
    using Cons.prems by (intro join_path_tidy) (auto split: option.splits)
  with Cons show ?case by simp
qed simp

lemma join_path_absolute:
  assumes "r \<noteq> []"
  shows "ak_filepath_is_absolute (Some (join_path r component)) = ak_filepath_is_absolute (Some r)
    \<and> join_path r component \<noteq> []"
  using assms
  by (cases r) (auto simp: join_path_def ak_filepath_is_absolute_def split: option.splits list.splits)

section \<open>Normal paths\<close>

lemma resolve_step_empty [simp]: "resolve_step qs [] = qs"
  by (simp add: resolve_step_def)

lemma resolve_nonempty:
  "foldl resolve_step qs (map (take m) ps) = foldl resolve_step qs (map (take m) (filter (\<lambda>q. q \<noteq> []) ps))"
  by (induction ps arbitrary: qs) auto

lemma resolved_parts: "resolved p = foldl resolve_step [] (map (take (PATH_MAX - 1)) (parts p))"
  unfolding resolved_def parts_def by (rule resolve_nonempty)

text \<open>A component that stands for itself.\<close>

definition plain_part :: "u8 list \<Rightarrow> bool" where
  "plain_part q \<longleftrightarrow> q \<noteq> [] \<and> q \<noteq> [dot] \<and> q \<noteq> [dot, dot] \<and> slash \<notin> set q \<and> length q < PATH_MAX"

lemma resolve_plain:
  assumes "\<And>q. q \<in> set qs \<Longrightarrow> plain_part q"
    and "\<And>q. q \<in> set ps \<Longrightarrow> slash \<notin> set q \<and> length q < PATH_MAX"
  shows "q \<in> set (foldl resolve_step qs ps) \<Longrightarrow> plain_part q"
  using assms
proof (induction ps arbitrary: qs)
  case (Cons p ps)
  have "plain_part r" if "r \<in> set (resolve_step qs p)" for r
    using that Cons.prems(2,3)
    by (auto simp: resolve_step_def plain_part_def split: if_splits dest: in_set_butlastD)
  with Cons show ?case by simp
qed simp

lemma resolved_plain: "q \<in> set (resolved p) \<Longrightarrow> plain_part q"
  unfolding resolved_def
  by (rule resolve_plain [of "[]"]) (auto dest: in_set_takeD pieces_slash)

lemma resolve_self:
  "(\<And>q. q \<in> set ps \<Longrightarrow> plain_part q) \<Longrightarrow> foldl resolve_step qs (map (take (PATH_MAX - 1)) ps) = qs @ ps"
proof (induction ps arbitrary: qs)
  case (Cons p ps)
  then have "plain_part p" by simp
  then have "resolve_step qs (take (PATH_MAX - 1) p) = qs @ [p]"
    by (simp add: resolve_step_def plain_part_def)
  with Cons show ?case by simp
qed simp

lemma pieces_with_slashes:
  "qs \<noteq> [] \<Longrightarrow> (\<And>q. q \<in> set qs \<Longrightarrow> slash \<notin> set q) \<Longrightarrow> pieces (with_slashes qs) = qs"
  by (induction qs rule: with_slashes.induct) (auto simp: pieces_append pieces_no_slash)

lemma with_slashes_hd:
  "qs \<noteq> [] \<Longrightarrow> hd qs \<noteq> [] \<Longrightarrow> with_slashes qs \<noteq> [] \<and> hd (with_slashes qs) = hd (hd qs)"
  by (cases qs rule: with_slashes.cases) auto

lemma resolved_with_slashes:
  assumes "\<And>q. q \<in> set qs \<Longrightarrow> plain_part q"
  shows "resolved (with_slashes qs) = qs" and "resolved (slash # with_slashes qs) = qs"
proof -
  have "foldl resolve_step [] (map (take (PATH_MAX - 1)) (pieces (with_slashes qs))) = qs"
  proof (cases "qs = []")
    case True
    then show ?thesis by simp
  next
    case False
    then show ?thesis
      using pieces_with_slashes [of qs] resolve_self [of qs "[]"] assms by (simp add: plain_part_def)
  qed
  then show "resolved (with_slashes qs) = qs" "resolved (slash # with_slashes qs) = qs"
    by (simp_all add: resolved_def)
qed

lemma normal_path_idem: "normal_path (normal_path p) = normal_path p"
proof -
  have plain: "plain_part q" if "q \<in> set (resolved p)" for q
    using that by (rule resolved_plain)
  note self = resolved_with_slashes [OF plain]
  consider "ak_filepath_is_absolute (Some p)" | "\<not> ak_filepath_is_absolute (Some p)" "resolved p = []"
    | "\<not> ak_filepath_is_absolute (Some p)" "resolved p \<noteq> []" by blast
  then show ?thesis
  proof cases
    case 1
    then show ?thesis using self(2) by (simp add: normal_path_def ak_filepath_is_absolute_def)
  next
    case 2
    have "resolved [dot] = []" by (simp add: resolved_def resolve_step_def)
    with 2 show ?thesis by (simp add: normal_path_def ak_filepath_is_absolute_def)
  next
    case 3
    have "plain_part (hd (resolved p))" using 3 plain by simp
    then have "hd (resolved p) \<noteq> []" "hd (hd (resolved p)) \<noteq> slash"
      unfolding plain_part_def by (blast, metis hd_in_set)
    then have "\<not> ak_filepath_is_absolute (Some (with_slashes (resolved p)))"
      using with_slashes_hd [of "resolved p"] 3
      by (cases "with_slashes (resolved p)") (auto simp: ak_filepath_is_absolute_def)
    with 3 self(1) show ?thesis by (simp add: normal_path_def)
  qed
qed

section \<open>The components stored while a path is taken apart\<close>

text \<open>
  An allocator whose next \<open>k\<close> answers are addresses that were not in use before.
\<close>

fun ready :: "nat \<Rightarrow> nat set \<Rightarrow> ptr_sched \<Rightarrow> bool" where
  "ready 0 D s = True"
| "ready (Suc k) D [] = False"
| "ready (Suc k) D (r # s) =
     (case r of None \<Rightarrow> False | Some g \<Rightarrow> g 0 \<noteq> 0 \<and> g 0 \<notin> D \<and> ready k (insert (g 0) D) s)"

lemma ready_mono: "ready k D s \<Longrightarrow> D' \<subseteq> D \<Longrightarrow> j \<le> k \<Longrightarrow> ready j D' s"
proof (induction k D s arbitrary: j D' rule: ready.induct)
  case (3 k D r s)
  show ?case
  proof (cases j)
    case (Suc i)
    from "3.prems" obtain g where g: "r = Some g" "g 0 \<noteq> 0" "g 0 \<notin> D" "ready k (insert (g 0) D) s"
      by (auto split: option.splits)
    have "ready i (insert (g 0) D') s"
      using "3.IH" [OF g(1), of "insert (g 0) D'" i] g "3.prems" Suc by auto
    then show ?thesis using g "3.prems" Suc by auto
  qed simp
qed auto

lemma ready_Suc:
  "ready (Suc k) D s \<longleftrightarrow> (\<exists>g s'. s = Some g # s' \<and> g 0 \<noteq> 0 \<and> g 0 \<notin> D \<and> ready k (insert (g 0) D) s')"
  by (cases s; cases "hd s") auto

lemma ready_tl: "ready (Suc k) D s \<Longrightarrow> ready k (insert (the (hd s) 0) D) (tl s)"
  by (auto simp: ready_Suc)

lemma ensure_capacity_sched:
  "list_ensure_capacity l r s = Some (rc, l', s') \<Longrightarrow> s' = s \<or> s' = tl s"
  by (cases s) (auto simp: list_ensure_capacity_def realloc_ptrs_def Let_def
      split: if_splits bind_splits option.splits prod.splits)

lemma list_push_ready:
  assumes ok: "list_ok l" and room: "list_count l < 2 ^ 31" and D: "dom (cells l) \<subseteq> D"
    and ready: "ready (k + 2) D s"
  obtains l' s' D' where "list_push l v s = Some (0, l', s')" "dom (cells l') \<subseteq> D'" "D \<subseteq> D'"
    "ready k D' s'"
proof -
  have req: "(list_count l + 1) mod UINT_RANGE \<le> 2 ^ 31" using room by simp
  obtain r l1 s1 where ens:
      "list_ensure_capacity l ((list_count l + 1) mod UINT_RANGE) s = Some (r, l1, s1)" "list_ok l1"
      "list_count l1 = list_count l" "cells l1 = cells l"
      "r = 0 \<and> (list_count l + 1) mod UINT_RANGE \<le> list_capacity l1 \<or> r = -1 \<and> l1 = l"
      "r = -1 \<longrightarrow> (\<exists>s1. s = None # s1 \<or> s = [])"
    by (rule ensure_capacity_correct [OF ok req, of s])
  have r: "r = 0" "Suc (list_count l) \<le> list_capacity l1"
    using ens(5,6) ready room by (auto simp: ready_Suc)
  obtain D1 where D1: "D \<subseteq> D1" "ready (Suc k) D1 s1"
    using ensure_capacity_sched [OF ens(1)] ready ready_tl [of "Suc k" D s]
      ready_mono [of "k + 2" D s D "Suc k"] by auto
  then obtain g s2 where g: "s1 = Some g # s2" "g 0 \<noteq> 0" "g 0 \<notin> D1" "ready k (insert (g 0) D1) s2"
    by (auto simp: ready_Suc)
  have "g 0 \<notin> dom (cells l)" using g(3) D D1(1) by blast
  then have "cells l1 (g 0) = None" by (simp add: ens(4) domIff)
  then have alloc: "alloc_cell (cells l1) s1 = (Some (g 0), s2)"
    using g by (simp add: alloc_cell_def)
  obtain xs where xs: "items l1 = Some xs" "length xs = list_capacity l1"
    using ens(2) r(2) by (auto simp: list_ok_def split: option.splits)
  have "mem_write xs (list_count l1) (g 0) = Some (xs[list_count l1 := g 0])"
    using xs(2) r(2) ens(3) by (simp add: mem_write_def)
  then have "list_push l v s = Some (0, l1\<lparr>items := Some (xs[list_count l1 := g 0]),
      list_count := (list_count l1 + 1) mod UINT_RANGE, cells := (cells l1)(g 0 \<mapsto> v)\<rparr>, s2)"
    using ens(1) r(1) alloc xs(1) by (simp add: list_push_def)
  moreover have "dom ((cells l1)(g 0 \<mapsto> v)) \<subseteq> insert (g 0) D1" using D D1(1) ens(4) by auto
  ultimately show thesis
    using that [of _ s2 "insert (g 0) D1"] D1(1) g(4) by auto
qed

text \<open>
  The pointers in the list are distinct live strings that were not there at the start, and
  \<open>h\<close>, what was there, is kept. The addresses in use, the strings stored and their size.
\<close>

abbreviation part_ptrs :: "norm_state \<Rightarrow> nat list" where
  "part_ptrs n \<equiv> list_view (components n)"

definition norm_ok :: "(nat \<rightharpoonup> u8 list) \<Rightarrow> norm_state \<Rightarrow> bool" where
  "norm_ok h n \<longleftrightarrow> list_ok (components n) \<and> distinct (part_ptrs n) \<and> 0 \<notin> set (part_ptrs n)
     \<and> set (part_ptrs n) \<subseteq> dom (strings n) \<and> set (part_ptrs n) \<inter> dom h = {} \<and> h \<subseteq>\<^sub>m strings n"

definition used :: "norm_state \<Rightarrow> nat set" where
  "used n = dom (strings n) \<union> dom (cells (components n))"

definition stored :: "norm_state \<Rightarrow> u8 list list" where
  "stored n = map (\<lambda>p. the (strings n p)) (part_ptrs n)"

definition stored_size :: "u8 list list \<Rightarrow> nat" where
  "stored_size qs = sum_list (map (\<lambda>q. length q + 1) qs)"

definition tight :: "(nat \<rightharpoonup> u8 list) \<Rightarrow> norm_state \<Rightarrow> bool" where
  "tight h n \<longleftrightarrow> dom (strings n) = dom h \<union> set (part_ptrs n)"

lemma stored_size_length: "length qs \<le> stored_size qs"
  by (induction qs) (auto simp: stored_size_def)

lemma stored_size_snoc: "stored_size (qs @ [q]) = stored_size qs + length q + 1"
  by (simp add: stored_size_def)

lemma stored_size_butlast: "stored_size (butlast qs) \<le> stored_size qs"
  by (cases qs rule: rev_cases) (auto simp: stored_size_snoc)

lemma drop_last_correct:
  assumes ok: "norm_ok h n"
  obtains n' where "drop_last n = Some n'" "norm_ok h n'" "stored n' = butlast (stored n)"
    "ptrs n' = ptrs n" "used n' \<subseteq> used n" "tight h n \<longrightarrow> tight h n'"
proof (cases "list_count (components n) > 0")
  case False
  have l: "list_ok (components n)" using ok by (simp add: norm_ok_def)
  then have "stored n = []" using False length_list_view [OF l] by (simp add: stored_def)
  then show thesis using False that [of n] ok by (simp add: drop_last_def)
next
  case True
  let ?l = "(components n)\<lparr>list_count := list_count (components n) - 1\<rparr>"
  have l: "list_ok (components n)" using ok by (simp add: norm_ok_def)
  note pop = list_pop_correct [OF l True]
  let ?ps = "part_ptrs n" and ?p = "last (part_ptrs n)"
  have ne: "?ps \<noteq> []" using True length_list_view [OF l] by auto
  then have split: "?ps = butlast ?ps @ [?p]" by simp
  have p: "?p \<noteq> 0" "strings n ?p \<noteq> None" "?p \<notin> dom h" "?p \<notin> set (butlast ?ps)" "distinct (butlast ?ps)"
    using ok last_in_set [OF ne] distinct_append [of "butlast ?ps" "[?p]"] unfolding split [symmetric]
    by (auto simp: norm_ok_def)
  let ?n = "n\<lparr>components := ?l, strings := (strings n)(?p := None)\<rparr>"
  have run: "drop_last n = Some ?n"
    using True pop(1,4) p by (simp add: drop_last_def free_cell_def)
  have sub: "set (butlast ?ps) \<subseteq> set ?ps" by (auto dest: in_set_butlastD)
  have set: "set ?ps = insert ?p (set (butlast ?ps))" by (subst split) simp
  have "norm_ok h ?n"
    using ok pop(2,3) p sub by (auto simp: norm_ok_def map_le_def dom_def)
  moreover have "stored ?n = butlast (stored n)"
    using pop(3) p(4) by (simp add: stored_def map_butlast [symmetric])
  moreover have "used ?n \<subseteq> used n" by (auto simp: used_def)
  moreover have "tight h n \<longrightarrow> tight h ?n"
    using pop(3) p(3,4) by (simp add: tight_def set)
  ultimately show thesis using that [OF run] by simp
qed

lemma add_component_correct:
  assumes ok: "norm_ok h n" and room: "stored_size (stored n) < 2 ^ 31"
  obtains n' where "add_component n q = Some n'" "norm_ok h n'"
    "stored n' = stored n @ [q] \<or> stored n' = stored n"
    "\<And>k. ready (k + 3) (used n) (ptrs n) \<Longrightarrow> tight h n \<Longrightarrow>
      tight h n' \<and> stored n' = stored n @ [q] \<and> ready k (used n') (ptrs n')"
proof -
  let ?l = "components n"
  have l: "list_ok ?l" using ok by (simp add: norm_ok_def)
  have "list_count ?l \<le> stored_size (stored n)"
    using length_list_view [OF l] stored_size_length [of "stored n"] by (simp add: stored_def)
  with room have room: "list_count ?l < 2 ^ 31" by simp
  obtain a s where al: "alloc_cell (strings n) (ptrs n) = (a, s)" by (rule prod.exhaust)
  show thesis
  proof (cases a)
    case None
    then have not_ready: "\<not> ready (k + 3) (used n) (ptrs n)" for k
      using al by (auto simp: alloc_cell_def numeral_3_eq_3 ready_Suc used_def split: if_splits)
    show thesis
      by (rule that [of "n\<lparr>ptrs := s\<rparr>"])
        (use None al ok not_ready in \<open>auto simp: add_component_def norm_ok_def stored_def\<close>)
  next
    case (Some p)
    have p: "p \<noteq> 0" "strings n p = None" using alloc_cell_Some al Some by blast+
    have notin: "p \<notin> set (part_ptrs n)" "p \<notin> dom h"
      using ok p(2) map_le_implies_dom_le [of h "strings n"] by (auto simp: norm_ok_def)
    obtain r l' s' where push: "list_push ?l p s = Some (r, l', s')" "list_ok l'"
        "r = 0 \<and> list_view l' = list_view ?l @ [p] \<or> r = -1 \<and> list_view l' = list_view ?l"
      by (rule list_push_correct [OF l room, of p s]) blast
    let ?n = "n\<lparr>components := l', strings := (strings n)(p \<mapsto> q), ptrs := s'\<rparr>"
    have run: "add_component n q = Some ?n"
      using al Some push(1) by (simp add: add_component_def)
    have "map (\<lambda>x. the (((strings n)(p \<mapsto> q)) x)) (part_ptrs n) = stored n"
      using notin(1) by (auto simp: stored_def)
    then have stored: "stored ?n = (if r = 0 then stored n @ [q] else stored n)"
      using push(3) by (auto simp: stored_def)
    have "h \<subseteq>\<^sub>m (strings n)(p \<mapsto> q)"
      using ok notin(2) by (auto simp: norm_ok_def map_le_def)
    then have ok': "norm_ok h ?n"
      using ok push(2,3) p(1) notin by (auto simp: norm_ok_def disjoint_iff domIff)
    show thesis
    proof (rule that [OF run ok'])
      show "stored ?n = stored n @ [q] \<or> stored ?n = stored n" using stored by simp
    next
      fix k assume ready: "ready (k + 3) (used n) (ptrs n)" and t: "tight h n"
      then obtain g where g: "ptrs n = Some g # s" "p = g 0" "ready (k + 2) (insert (g 0) (used n)) s"
        using al Some by (auto simp: alloc_cell_def numeral_3_eq_3 ready_Suc split: if_splits)
      have "dom (cells ?l) \<subseteq> insert (g 0) (used n)" by (auto simp: used_def)
      from list_push_ready [OF l room this g(3), of p] obtain l2 s2 D' where
          p2: "list_push ?l p s = Some (0, l2, s2)" "dom (cells l2) \<subseteq> D'"
            "insert (g 0) (used n) \<subseteq> D'" "ready k D' s2" by blast
      have eq: "r = 0" "l2 = l'" "s2 = s'" using p2(1) push(1) by auto
      have "used ?n \<subseteq> D'" using p2(2,3) g(2) eq by (auto simp: used_def)
      then have "ready k (used ?n) s'" using ready_mono [OF p2(4), of "used ?n" k] eq by simp
      moreover have "tight h ?n" using t push(3) eq by (auto simp: tight_def)
      ultimately show "tight h ?n \<and> stored ?n = stored n @ [q] \<and> ready k (used ?n) (ptrs ?n)"
        using stored eq by simp
    qed
  qed
qed

lemma bytes_dots: "bytes ''.'' = [dot]" "bytes ''..'' = [dot, dot]"
  by (simp_all add: bytes_def)

lemma end_component_correct:
  assumes ok: "norm_ok h n" and room: "stored_size (stored n) < 2 ^ 31" and q: "q \<noteq> []"
  obtains n' where "end_component n q = Some n'" "norm_ok h n'"
    "stored_size (stored n') \<le> stored_size (stored n) + length q + 1"
    "\<And>k. ready (k + 3) (used n) (ptrs n) \<Longrightarrow> tight h n \<Longrightarrow>
      tight h n' \<and> stored n' = resolve_step (stored n) q \<and> ready k (used n') (ptrs n')"
proof -
  consider (dot) "q = [dot]" | (up) "q = [dot, dot]" | (plain) "q \<noteq> [dot]" "q \<noteq> [dot, dot]" by blast
  then show thesis
  proof cases
    case dot
    then show thesis
      using that [of n] ok ready_mono [of _ "used n" "ptrs n" "used n"]
      by (auto simp: end_component_def bytes_dots resolve_step_def)
  next
    case up
    obtain n' where n': "drop_last n = Some n'" "norm_ok h n'" "stored n' = butlast (stored n)"
        "ptrs n' = ptrs n" "used n' \<subseteq> used n" "tight h n \<longrightarrow> tight h n'"
      by (rule drop_last_correct [OF ok])
    show thesis
    proof (rule that [of n'])
      show "end_component n q = Some n'" using up n'(1) by (simp add: end_component_def bytes_dots)
      show "norm_ok h n'" by fact
      show "stored_size (stored n') \<le> stored_size (stored n) + length q + 1"
        using n'(3) stored_size_butlast [of "stored n"] by simp
      show "tight h n' \<and> stored n' = resolve_step (stored n) q \<and> ready k (used n') (ptrs n')"
        if "ready (k + 3) (used n) (ptrs n)" "tight h n" for k
        using that n' ready_mono [OF that(1), of "used n'" k] up by (simp add: resolve_step_def)
    qed
  next
    case plain
    obtain n' where n': "add_component n q = Some n'" "norm_ok h n'"
        "stored n' = stored n @ [q] \<or> stored n' = stored n"
        "\<And>k. ready (k + 3) (used n) (ptrs n) \<Longrightarrow> tight h n \<Longrightarrow>
          tight h n' \<and> stored n' = stored n @ [q] \<and> ready k (used n') (ptrs n')"
      by (rule add_component_correct [OF ok room, of q]) blast
    show thesis
    proof (rule that [of n'])
      show "end_component n q = Some n'" using plain n'(1) by (simp add: end_component_def bytes_dots)
      show "norm_ok h n'" by fact
      show "stored_size (stored n') \<le> stored_size (stored n) + length q + 1"
        using n'(3) by (auto simp: stored_size_snoc)
      show "tight h n' \<and> stored n' = resolve_step (stored n) q \<and> ready k (used n') (ptrs n')"
        if "ready (k + 3) (used n) (ptrs n)" "tight h n" for k
        using n'(4) [OF that] plain q by (simp add: resolve_step_def)
    qed
  qed
qed

text \<open>The loop over the path, with the component after the last separator.\<close>

definition take_apart :: "norm_state \<Rightarrow> u8 list \<Rightarrow> u8 list \<Rightarrow> norm_state option" where
  "take_apart n q p =
     Option.bind (parse_components n q p)
       (\<lambda>(n1, q'). if q' \<noteq> [] then end_component n1 q' else Some n1)"

definition kept :: "u8 list \<Rightarrow> u8 list" where
  "kept = take (PATH_MAX - 1)"

lemma take_apart_correct:
  assumes "norm_ok h n" and "stored_size (stored n) + length q + length p + 1 < 2 ^ 31"
    and "length q \<le> PATH_MAX - 1"
  shows "\<exists>n'. take_apart n q p = Some n' \<and> norm_ok h n'
    \<and> stored_size (stored n') \<le> stored_size (stored n) + length q + length p + 1
    \<and> (ready (3 * length (pieces p)) (used n) (ptrs n) \<longrightarrow> tight h n \<longrightarrow>
        tight h n' \<and> stored n'
          = foldl resolve_step (stored n) (map kept ((q @ hd (pieces p)) # tl (pieces p))))"
  using assms
proof (induction p arbitrary: n q)
  case Nil
  show ?case
  proof (cases "q = []")
    case True
    then show ?thesis using Nil by (simp add: take_apart_def kept_def)
  next
    case False
    have "stored_size (stored n) < 2 ^ 31" using Nil by simp
    then obtain n' where n': "end_component n q = Some n'" "norm_ok h n'"
        "stored_size (stored n') \<le> stored_size (stored n) + length q + 1"
        "\<And>k. ready (k + 3) (used n) (ptrs n) \<Longrightarrow> tight h n \<Longrightarrow>
          tight h n' \<and> stored n' = resolve_step (stored n) q \<and> ready k (used n') (ptrs n')"
      by (rule end_component_correct [OF Nil(1) _ False]) blast
    from n'(4) [of 0] have "ready 3 (used n) (ptrs n) \<longrightarrow> tight h n \<longrightarrow>
        tight h n' \<and> stored n' = resolve_step (stored n) q" by simp
    then show ?thesis
      using n'(1-3) Nil(3) False by (simp add: take_apart_def kept_def)
  qed
next
  case (Cons c p)
  show ?case
  proof (cases "c = slash")
    case False
    let ?q = "if length q < PATH_MAX - 1 then q @ [c] else q"
    have len: "length ?q \<le> PATH_MAX - 1" "length ?q \<le> Suc (length q)" using Cons.prems(3) by auto
    have "stored_size (stored n) + length ?q + length p + 1 < 2 ^ 31" using Cons.prems(2) len by simp
    note IH = Cons.IH [OF Cons.prems(1) this len(1)]
    have "kept (?q @ hd (pieces p)) = kept (q @ c # hd (pieces p))"
    proof (cases "length q < PATH_MAX - 1")
      case True
      then have "?q @ hd (pieces p) = q @ c # hd (pieces p)" by simp
      then show ?thesis by (rule arg_cong)
    next
      case False
      then show ?thesis using Cons.prems(3) by (simp add: kept_def)
    qed
    moreover have "take_apart n q (c # p) = take_apart n ?q p"
      using False by (simp add: take_apart_def is_separator_def)
    moreover have "length (pieces (c # p)) = length (pieces p)"
      using False by (cases "pieces p") auto
    ultimately show ?thesis using IH len(2) False by auto
  next
    case True
    show ?thesis
    proof (cases "q = []")
      case empty: True
      have "stored_size (stored n) + length ([] :: u8 list) + length p + 1 < 2 ^ 31"
        using Cons.prems(2) by simp
      from Cons.IH [OF Cons.prems(1) this] obtain n' where n': "take_apart n [] p = Some n'" "norm_ok h n'"
          "stored_size (stored n') \<le> stored_size (stored n) + length p + 1"
          "ready (3 * length (pieces p)) (used n) (ptrs n) \<longrightarrow> tight h n \<longrightarrow>
            tight h n' \<and> stored n' = foldl resolve_step (stored n) (map kept (pieces p))"
        by auto
      have "take_apart n q (c # p) = take_apart n [] p"
        using True empty by (simp add: take_apart_def is_separator_def)
      moreover have "ready (3 * length (pieces (c # p))) (used n) (ptrs n) \<longrightarrow>
          ready (3 * length (pieces p)) (used n) (ptrs n)"
        using ready_mono [of "3 * length (pieces (c # p))" "used n" "ptrs n" "used n"] True by simp
      ultimately show ?thesis using n' True empty by (auto simp: kept_def)
    next
      case ne: False
      have "stored_size (stored n) < 2 ^ 31" using Cons.prems(2) by simp
      then obtain n1 where n1: "end_component n q = Some n1" "norm_ok h n1"
          "stored_size (stored n1) \<le> stored_size (stored n) + length q + 1"
          "\<And>k. ready (k + 3) (used n) (ptrs n) \<Longrightarrow> tight h n \<Longrightarrow>
            tight h n1 \<and> stored n1 = resolve_step (stored n) q \<and> ready k (used n1) (ptrs n1)"
        by (rule end_component_correct [OF Cons.prems(1) _ ne]) blast
      have "stored_size (stored n1) + length ([] :: u8 list) + length p + 1 < 2 ^ 31"
        using Cons.prems(2) n1(3) by simp
      from Cons.IH [OF n1(2) this] obtain n' where n': "take_apart n1 [] p = Some n'" "norm_ok h n'"
          "stored_size (stored n') \<le> stored_size (stored n1) + length p + 1"
          "ready (3 * length (pieces p)) (used n1) (ptrs n1) \<longrightarrow> tight h n1 \<longrightarrow>
            tight h n' \<and> stored n' = foldl resolve_step (stored n1) (map kept (pieces p))"
        by auto
      have "take_apart n q (c # p) = take_apart n1 [] p"
        using True ne n1(1) by (simp add: take_apart_def is_separator_def)
      moreover have "ready (3 * length (pieces (c # p))) (used n) (ptrs n) \<longrightarrow> tight h n \<longrightarrow>
          tight h n' \<and> stored n' = foldl resolve_step (resolve_step (stored n) q) (map kept (pieces p))"
        using n'(4) n1(4) [of "3 * length (pieces p)"] True by (auto simp: add.commute)
      ultimately show ?thesis
        using n' n1(3) True Cons.prems(3) by (auto simp: kept_def)
    qed
  qed
qed

section \<open>Writing the components\<close>

lemma fold_until_all: "(\<And>v acc. snd (body v acc)) \<Longrightarrow>
  fold_until body vs acc = fold (\<lambda>v a. fst (body v a)) vs acc"
proof (induction vs arbitrary: acc)
  case (Cons v vs)
  show ?case using Cons.IH [OF Cons.prems] Cons.prems [of v acc] by (cases "body v acc") simp
qed simp

lemma release_all:
  assumes "distinct ps" and "0 \<notin> set ps" and "set ps \<subseteq> dom h"
  shows "fold_until release_string ps (Some h) = Some (h |` (- set ps))"
proof -
  have "fold (\<lambda>p a. fst (release_string p a)) ps (Some h) = Some (h |` (- set ps))"
    using assms
  proof (induction ps arbitrary: h)
    case (Cons p ps)
    then have "fst (release_string p (Some h)) = Some (h(p := None))"
      by (auto simp: release_string_def free_cell_def)
    moreover have "fold (\<lambda>p a. fst (release_string p a)) ps (Some (h(p := None)))
        = Some (h(p := None) |` (- set ps))"
      by (rule Cons.IH) (use Cons.prems in auto)
    moreover have "h(p := None) |` (- set ps) = h |` (- set (p # ps))"
      by (auto simp: restrict_map_def)
    ultimately show ?case by (simp only: fold_simps)
  qed (simp add: restrict_map_def)
  then show ?thesis by (simp add: fold_until_all release_string_def)
qed

definition written :: "bool \<Rightarrow> u8 list list \<Rightarrow> u8 list" where
  "written first qs = (if first then with_slashes qs else concat (map (Cons slash) qs))"

lemma with_slashes_Cons: "with_slashes (q # qs) = q @ concat (map (Cons slash) qs)"
  by (induction qs arbitrary: q) auto

lemma written_Cons: "written first (q # qs) = (if first then q else slash # q) @ written False qs"
  by (simp add: written_def with_slashes_Cons)

lemma append_sep_correct:
  assumes st: "fp_ready st" and ok: "buf_ok b" and small: "buf_count b + 1 < 2 ^ 62"
  obtains rc b' s' where "(if cond then buffer_append_char (Some b) (separator st) s
      else Some (0, Some b, s)) = Some (rc, Some b', s')"
    "buf_ok b'" "uses 1 s s'" "buf_count b' \<le> buf_count b + 1"
    "grants 1 s \<longrightarrow> buf_bytes b' = buf_bytes b @ (if cond then [slash] else [])"
proof (cases cond)
  case False
  then show thesis using that [of 0 b s] ok by simp
next
  case True
  have "buf_count b + length [slash] < 2 ^ 62" using small by simp
  then obtain rc b' s' where app: "buffer_append_str (Some b) (Some [slash]) s = Some (rc, Some b', s')"
      "buf_ok b'" "uses 1 s s'" "buf_bytes b' = buf_bytes b @ [slash] \<or> b' = b"
      "grants 1 s \<longrightarrow> buf_bytes b' = buf_bytes b @ [slash]"
    by (rule append_str_correct [OF ok])
  have "buf_count b' \<le> buf_count b + 1"
    using app(4) length_buf_bytes [OF app(2)] length_buf_bytes [OF ok] by auto
  then show thesis
    using that [of rc b' s'] app True st by (simp add: append_char_str fp_ready_def)
qed

lemma emit_all:
  assumes st: "fp_ready st"
  shows "distinct ps \<Longrightarrow> 0 \<notin> set ps \<Longrightarrow> set ps \<subseteq> dom h \<Longrightarrow> buf_ok b \<Longrightarrow>
    buf_count b + stored_size (map (\<lambda>p. the (h p)) ps) < 2 ^ 62 \<Longrightarrow>
    \<exists>b' f s'. fold_until (emit_component st) ps (Some (b, first, h, s)) = Some (b', f, h |` (- set ps), s')
      \<and> buf_ok b' \<and> uses (2 * length ps) s s'
      \<and> buf_count b' \<le> buf_count b + stored_size (map (\<lambda>p. the (h p)) ps)
      \<and> (grants (2 * length ps) s \<longrightarrow>
          buf_bytes b' = buf_bytes b @ written first (map (\<lambda>p. the (h p)) ps))"
proof (induction ps arbitrary: b first h s)
  case Nil
  then show ?case by (simp add: written_def restrict_map_def)
next
  case (Cons p ps)
  obtain q where q: "h p = Some q" using Cons.prems(3) by auto
  have p: "p \<noteq> 0" "p \<notin> set ps" using Cons.prems by auto
  have rest: "map (\<lambda>x. the ((h(p := None)) x)) ps = map (\<lambda>x. the (h x)) ps" using p(2) by auto
  have sz: "stored_size (map (\<lambda>x. the (h x)) (p # ps))
      = Suc (length q) + stored_size (map (\<lambda>x. the (h x)) ps)"
    by (simp add: stored_size_def q)
  have "buf_count b + 1 < 2 ^ 62" using Cons.prems(5) sz by simp
  then obtain rc1 b1 s1 where b1: "(if \<not> first then buffer_append_char (Some b) (separator st) s
        else Some (0, Some b, s)) = Some (rc1, Some b1, s1)"
      "buf_ok b1" "uses 1 s s1" "buf_count b1 \<le> buf_count b + 1"
      "grants 1 s \<longrightarrow> buf_bytes b1 = buf_bytes b @ (if \<not> first then [slash] else [])"
    by (rule append_sep_correct [OF st Cons.prems(4)])
  have "buf_count b1 + length q < 2 ^ 62" using b1(4) Cons.prems(5) sz by simp
  then obtain rc2 b2 s2 where b2: "buffer_append_str (Some b1) (Some q) s1 = Some (rc2, Some b2, s2)"
      "buf_ok b2" "uses 1 s1 s2" "buf_bytes b2 = buf_bytes b1 @ q \<or> b2 = b1"
      "grants 1 s1 \<longrightarrow> buf_bytes b2 = buf_bytes b1 @ q"
    by (rule append_str_correct [OF b1(2)])
  have c2: "buf_count b2 \<le> buf_count b + Suc (length q)"
    using b2(4) length_buf_bytes [OF b2(2)] length_buf_bytes [OF b1(2)] b1(4) by auto
  have step: "emit_component st p (Some (b, first, h, s)) = (Some (b2, False, h(p := None), s2), True)"
    using p(1) q b1(1) b2(1) by (simp add: emit_component_def free_cell_def)
  have size: "buf_count b2 + stored_size (map (\<lambda>x. the ((h(p := None)) x)) ps) < 2 ^ 62"
    unfolding rest using Cons.prems(5) c2 sz by simp
  have "distinct ps" "0 \<notin> set ps" "set ps \<subseteq> dom (h(p := None))"
    using Cons.prems p by auto
  from Cons.IH [OF this b2(2) size, of False s2] obtain b' f s' where b':
      "fold_until (emit_component st) ps (Some (b2, False, h(p := None), s2))
        = Some (b', f, h(p := None) |` (- set ps), s')"
      "buf_ok b'" "uses (2 * length ps) s2 s'"
      "buf_count b' \<le> buf_count b2 + stored_size (map (\<lambda>x. the (h x)) ps)"
      "grants (2 * length ps) s2 \<longrightarrow> buf_bytes b' = buf_bytes b2 @ written False (map (\<lambda>x. the (h x)) ps)"
    unfolding rest by blast
  have u2: "uses 2 s s2" using uses_trans [OF b1(3) b2(3)] by (simp add: numeral_2_eq_2)
  have u: "uses (2 * length (p # ps)) s s'" using uses_trans [OF u2 b'(3)] by simp
  have g: "buf_bytes b' = buf_bytes b @ written first (map (\<lambda>x. the (h x)) (p # ps))"
    if "grants (2 * length (p # ps)) s"
  proof -
    have "grants 1 s" "grants 1 s1" "grants (2 * length ps) s2"
      using grants_mono [OF that, of 1] grants_uses [OF grants_mono [OF that, of "1 + 1"] b1(3)]
        grants_uses [of 2 "2 * length ps" s s2] u2 that by simp_all
    then show ?thesis using b1(5) b2(5) b'(5) q by (simp add: written_Cons)
  qed
  have "h(p := None) |` (- set ps) = h |` (- set (p # ps))" by (auto simp: restrict_map_def)
  then show ?case
    using step b'(1,2) u g c2 b'(4) sz by (intro exI [of _ b'] exI [of _ f] exI [of _ s']) simp
qed

definition rendered :: "bool \<Rightarrow> u8 list list \<Rightarrow> u8 list" where
  "rendered is_absolute qs =
     (if is_absolute then slash # with_slashes qs
      else if with_slashes qs = [] then [dot] else with_slashes qs)"

lemma dot_if_empty:
  assumes ok: "buf_ok b" and small: "buf_count b + 1 < 2 ^ 62"
  obtains rc b' s' where
    "(if ak_buffer_count (Some b) = 0 \<and> \<not> is_absolute then buffer_append_str (Some b) (Some (bytes ''.'')) s
      else Some (0, Some b, s)) = Some (rc, Some b', s')"
    "buf_ok b'"
    "grants 1 s \<longrightarrow> buf_bytes b' = (if buf_bytes b = [] \<and> \<not> is_absolute then [dot] else buf_bytes b)"
proof (cases "buf_count b = 0 \<and> \<not> is_absolute")
  case False
  then have "\<not> (buf_bytes b = [] \<and> \<not> is_absolute)" using length_buf_bytes [OF ok] by auto
  then show thesis
    by (intro that [of 0 b s]) (use False ok in \<open>auto simp: ak_buffer_count_def\<close>)
next
  case True
  have "buf_count b + length [dot] < 2 ^ 62" using small by simp
  then obtain rc b' s' where "buffer_append_str (Some b) (Some [dot]) s = Some (rc, Some b', s')"
      "buf_ok b'" "uses 1 s s'" "buf_bytes b' = buf_bytes b @ [dot] \<or> b' = b"
      "grants 1 s \<longrightarrow> buf_bytes b' = buf_bytes b @ [dot]"
    by (rule append_str_correct [OF ok])
  then show thesis
    using that [of rc b' s'] True length_buf_bytes [OF ok]
    by (auto simp: ak_buffer_count_def bytes_dots)
qed

lemma build_correct:
  assumes st: "fp_ready st" and ok: "norm_ok h n" and small: "stored_size (stored n) < 2 ^ 31"
  obtains r n' s' where "build_result st is_absolute n s = Some (r, n', s')"
    "strings n' = strings n |` (- set (part_ptrs n))"
    "case r of None \<Rightarrow> \<not> grants 2 s
     | Some b \<Rightarrow> buf_ok b \<and> (grants (2 * length (stored n) + 4) s \<longrightarrow>
         buf_bytes b = rendered is_absolute (stored n))"
proof -
  have l: "list_ok (components n)" using ok by (simp add: norm_ok_def)
  have ps: "distinct (part_ptrs n)" "0 \<notin> set (part_ptrs n)" "set (part_ptrs n) \<subseteq> dom (strings n)"
    using ok by (simp_all add: norm_ok_def)
  obtain l' where de: "list_deinit (components n) = Some l'" using list_deinit_correct [OF l] by blast
  obtain r s1 where new: "ak_buffer_new 256 s = (r, s1)" by (rule prod.exhaust)
  note u = buffer_new_uses [OF new]
  show thesis
  proof (cases r)
    case None
    then show thesis
      using that [of None _ s1] new u de list_while_new [OF l, of release_string] release_all [OF ps]
      by (simp add: build_result_def)
  next
    case (Some b)
    have b: "buf_ok b" "buf_bytes b = []" "buf_count b = 0"
      using new_empty [OF new [unfolded Some]] by simp_all
    have "buf_count b + 1 < 2 ^ 62" using b(3) by simp
    then obtain rc1 b1 s2 where b1: "(if is_absolute then buffer_append_char (Some b) (separator st) s1
          else Some (0, Some b, s1)) = Some (rc1, Some b1, s2)"
        "buf_ok b1" "uses 1 s1 s2" "buf_count b1 \<le> buf_count b + 1"
        "grants 1 s1 \<longrightarrow> buf_bytes b1 = buf_bytes b @ (if is_absolute then [slash] else [])"
      by (rule append_sep_correct [OF st b(1), of is_absolute s1])
    have qs: "map (\<lambda>p. the (strings n p)) (part_ptrs n) = stored n" by (simp add: stored_def)
    have "buf_count b1 + stored_size (map (\<lambda>p. the (strings n p)) (part_ptrs n)) < 2 ^ 62"
      unfolding qs using b1(4) b(3) small by simp
    from emit_all [OF st ps b1(2) this, of True s2, unfolded qs] obtain b2 f s3 where b2:
        "fold_until (emit_component st) (part_ptrs n) (Some (b1, True, strings n, s2))
          = Some (b2, f, strings n |` (- set (part_ptrs n)), s3)"
        "buf_ok b2" "uses (2 * length (part_ptrs n)) s2 s3"
        "buf_count b2 \<le> buf_count b1 + stored_size (stored n)"
        "grants (2 * length (part_ptrs n)) s2 \<longrightarrow> buf_bytes b2 = buf_bytes b1 @ written True (stored n)"
      by blast
    have "buf_count b2 + 1 < 2 ^ 62" using b2(4) b1(4) b(3) small by simp
    then obtain rc3 b3 s4 where b3:
        "(if ak_buffer_count (Some b2) = 0 \<and> \<not> is_absolute
          then buffer_append_str (Some b2) (Some (bytes ''.'')) s3
          else Some (0, Some b2, s3)) = Some (rc3, Some b3, s4)"
        "buf_ok b3"
        "grants 1 s3 \<longrightarrow> buf_bytes b3 = (if buf_bytes b2 = [] \<and> \<not> is_absolute then [dot] else buf_bytes b2)"
      by (rule dot_if_empty [OF b2(2), of is_absolute s3])
    let ?k = "2 * length (part_ptrs n)"
    have "buf_bytes b3 = rendered is_absolute (stored n)" if g: "grants (?k + 4) s"
    proof -
      have "grants (2 + (1 + (?k + 1))) s" using grants_mono [OF g, of "2 + (1 + (?k + 1))"] by simp
      then have g1: "grants (1 + (?k + 1)) s1" by (rule grants_uses) (rule conjunct1 [OF u])
      have g2: "grants (?k + 1) s2" using grants_uses [OF g1 b1(3)] .
      have "grants 1 s3" using grants_uses [OF g2 b2(3)] .
      moreover have "grants 1 s1" "grants ?k s2"
        using grants_mono [OF g1, of 1] grants_mono [OF g2, of ?k] by simp_all
      ultimately show ?thesis
        using b1(5) b2(5) b3(3) b(2) by (auto simp: rendered_def written_def)
    qed
    moreover have "build_result st is_absolute n s
        = Some (Some b3, n\<lparr>components := l', strings := strings n |` (- set (part_ptrs n))\<rparr>, s4)"
      using new Some b1(1) b2(1) b3(1) de list_while_new [OF l, of "emit_component st"]
      by (simp add: build_result_def)
    moreover have "length (stored n) = length (part_ptrs n)" by (simp add: stored_def)
    ultimately show thesis
      using that [of "Some b3"] b3(2) by simp
  qed
qed

lemma length_resolve: "length (foldl resolve_step qs ps) \<le> length qs + length ps"
proof (induction ps arbitrary: qs)
  case (Cons p ps)
  have "length (resolve_step qs p) \<le> Suc (length qs)" by (auto simp: resolve_step_def)
  with Cons [of "resolve_step qs p"] show ?case by simp
qed simp

lemma rendered_resolved:
  "rendered (ak_filepath_is_absolute (Some p)) (resolved p) = normal_path p"
proof -
  have "with_slashes (resolved p) = [] \<longleftrightarrow> resolved p = []"
  proof (cases "resolved p = []")
    case False
    then have "plain_part (hd (resolved p))" by (intro resolved_plain [of _ p]) simp
    with False show ?thesis using with_slashes_hd [of "resolved p"] by (simp add: plain_part_def)
  qed simp
  then show ?thesis by (simp add: rendered_def normal_path_def)
qed

lemma normalize_correct:
  assumes st: "fp_ready st" and short: "length p + 1 < 2 ^ 31"
  obtains r n s' where "ak_filepath_normalize st (Some p) h ps s = Some (r, n, s')" "h \<subseteq>\<^sub>m strings n"
    "ready (3 * length p + 3) (dom h) ps \<longrightarrow> strings n = h"
    "case r of None \<Rightarrow> \<not> grants 2 s
     | Some b \<Rightarrow> buf_ok b \<and> (grants (2 * length p + 6) s \<longrightarrow> ready (3 * length p + 3) (dom h) ps \<longrightarrow>
         buf_bytes b = normal_path p)"
proof -
  let ?n = "\<lparr>components = list_init 8, strings = h, ptrs = ps\<rparr> :: norm_state"
  have start: "norm_ok h ?n" "stored ?n = []" "tight h ?n" "used ?n = dom h"
    by (simp_all add: norm_ok_def stored_def tight_def used_def list_init_ok)
      (simp add: list_init_def)
  have "stored_size (stored ?n) + length ([] :: u8 list) + length p + 1 < 2 ^ 31"
    using short by (simp add: start(2) stored_size_def)
  from take_apart_correct [OF start(1) this] obtain n2 where n2: "take_apart ?n [] p = Some n2"
      "norm_ok h n2" "stored_size (stored n2) \<le> length p + 1"
      "ready (3 * length (pieces p)) (dom h) ps \<longrightarrow> tight h n2 \<and>
        stored n2 = foldl resolve_step [] (map kept (pieces p))"
    using start by (auto simp: stored_size_def)
  have all: "tight h n2" "stored n2 = resolved p" if "ready (3 * length p + 3) (dom h) ps"
    using n2(4) ready_mono [OF that, of "dom h" "3 * length (pieces p)"] length_pieces [of p]
    by (auto simp: resolved_def kept_def)
  have "stored_size (stored n2) < 2 ^ 31" using n2(3) short by simp
  then obtain r n' s' where bd: "build_result st (ak_filepath_is_absolute (Some p)) n2 s = Some (r, n', s')"
      "strings n' = strings n2 |` (- set (part_ptrs n2))"
      "case r of None \<Rightarrow> \<not> grants 2 s
       | Some b \<Rightarrow> buf_ok b \<and> (grants (2 * length (stored n2) + 4) s \<longrightarrow>
           buf_bytes b = rendered (ak_filepath_is_absolute (Some p)) (stored n2))"
    by (rule build_correct [OF st n2(2)])
  obtain n1 q where "parse_components ?n [] p = Some (n1, q)"
      "(if q \<noteq> [] then end_component n1 q else Some n1) = Some n2"
    using n2(1) by (auto simp: take_apart_def bind_eq_Some_conv)
  then have run: "ak_filepath_normalize st (Some p) h ps s = Some (r, n', s')"
    using st bd(1) by (simp add: ak_filepath_normalize_def fp_ready_def Let_def)
  have le: "h \<subseteq>\<^sub>m strings n'"
    using n2(2) unfolding bd(2) norm_ok_def map_le_def restrict_map_def by auto
  have eq: "strings n' = h" if h: "ready (3 * length p + 3) (dom h) ps"
  proof (rule map_le_antisym)
    have "a \<in> dom h" if "a \<in> dom (strings n')" for a
      using that all(1) [OF h] unfolding bd(2) tight_def by auto
    then show "strings n' \<subseteq>\<^sub>m h"
      using le by (simp add: map_le_def)
  qed (rule le)
  have "grants (2 * length (stored n2) + 4) s"
    if "grants (2 * length p + 6) s" "ready (3 * length p + 3) (dom h) ps"
    using grants_mono [OF that(1)] length_resolve [of "[]" "map (take (PATH_MAX - 1)) (pieces p)"]
      length_pieces [of p] all(2) [OF that(2)] by (simp add: resolved_def)
  then show thesis
    using that [OF run le] eq bd(3) all(2) rendered_resolved [of p] by (auto split: option.splits)
qed

section \<open>Directory, base name and extension\<close>

lemma find_last_none: "(\<And>c. c \<in> set cs \<Longrightarrow> \<not> P c) \<Longrightarrow> find_last P cs i found = found"
  by (induction cs arbitrary: i) auto

lemma find_last_split:
  "P c \<Longrightarrow> (\<And>d. d \<in> set y \<Longrightarrow> \<not> P d) \<Longrightarrow> find_last P (x @ c # y) i found = Some (i + length x)"
  by (induction x arbitrary: i found) (auto simp: find_last_none)

text \<open>The part of a path before its last separator, and the part behind it.\<close>

definition before_last :: "u8 \<Rightarrow> u8 list \<Rightarrow> u8 list" where
  "before_last c p = rev (tl (dropWhile (\<lambda>x. x \<noteq> c) (rev p)))"

definition behind_last :: "u8 \<Rightarrow> u8 list \<Rightarrow> u8 list" where
  "behind_last c p = rev (takeWhile (\<lambda>x. x \<noteq> c) (rev p))"

lemma behind_last_notin: "c \<notin> set (behind_last c p)"
  by (auto simp: behind_last_def dest: set_takeWhileD)

lemma split_last:
  assumes "c \<in> set p"
  shows "p = before_last c p @ c # behind_last c p"
proof -
  have "dropWhile (\<lambda>x. x \<noteq> c) (rev p) \<noteq> []" using assms by (simp add: dropWhile_eq_Nil_conv)
  then have "dropWhile (\<lambda>x. x \<noteq> c) (rev p) = c # tl (dropWhile (\<lambda>x. x \<noteq> c) (rev p))"
    using hd_dropWhile [of "\<lambda>x. x \<noteq> c" "rev p"] by (cases "dropWhile (\<lambda>x. x \<noteq> c) (rev p)") auto
  then have "rev p = takeWhile (\<lambda>x. x \<noteq> c) (rev p) @ c # tl (dropWhile (\<lambda>x. x \<noteq> c) (rev p))"
    by (metis takeWhile_dropWhile_id)
  from arg_cong [OF this, of rev] show ?thesis
    by (simp add: before_last_def behind_last_def)
qed

lemma behind_last_whole: "c \<notin> set p \<Longrightarrow> behind_last c p = p"
  by (subst behind_last_def, subst takeWhile_eq_all_conv [THEN iffD2]) auto

lemma find_last_eq:
  "find_last (\<lambda>x. x = c) p 0 None = (if c \<in> set p then Some (length (before_last c p)) else None)"
proof (cases "c \<in> set p")
  case True
  have "find_last (\<lambda>x. x = c) (before_last c p @ c # behind_last c p) 0 None
      = Some (0 + length (before_last c p))"
    using behind_last_notin by (intro find_last_split) auto
  then show ?thesis using True split_last [OF True] by simp
next
  case False
  then show ?thesis by (auto intro: find_last_none)
qed

lemma is_separator_eq: "is_separator = (\<lambda>x. x = slash)"
  by (simp add: fun_eq_iff is_separator_def)

lemma drop_behind: "c \<in> set p \<Longrightarrow> drop (Suc (length (before_last c p))) p = behind_last c p"
  using arg_cong [OF split_last, of c p "drop (Suc (length (before_last c p)))"] by simp

lemma take_before: "c \<in> set p \<Longrightarrow> take (length (before_last c p)) p = before_last c p"
  using arg_cong [OF split_last, of c p "take (length (before_last c p))"] by simp

definition base_name :: "u8 list \<Rightarrow> u8 list" where
  "base_name p = behind_last slash p"

definition dir_name :: "u8 list \<Rightarrow> u8 list" where
  "dir_name p =
     (if slash \<notin> set p then [dot]
      else if before_last slash p = [] then [slash] else before_last slash p)"

lemma length_last_parts: "length (behind_last c p) \<le> length p" "length (before_last c p) \<le> length p"
  by (simp_all add: behind_last_def before_last_def)
    (metis length_rev length_takeWhile_le, metis diff_le_self le_trans length_dropWhile_le length_rev)

lemma basename_correct:
  assumes st: "fp_ready st" and p: "p \<noteq> []" "length p < 2 ^ 61"
  obtains r s' where "ak_filepath_basename st (Some p) s = Some (r, s')" "uses 2 s s'"
    "case r of None \<Rightarrow> \<not> grants 2 s | Some b \<Rightarrow> buf_ok b \<and> buf_bytes b = base_name p"
proof -
  have eq: "ak_filepath_basename st (Some p) s = buffer_from_str (Some (base_name p)) s"
    using st p by (simp add: ak_filepath_basename_def fp_ready_def is_separator_eq find_last_eq
        drop_behind base_name_def behind_last_whole)
  have "length (base_name p) < 2 ^ 62"
    using length_last_parts(1) [of slash p] p(2) by (simp add: base_name_def)
  then obtain r s' where "buffer_from_str (Some (base_name p)) s = Some (r, s')" "uses 2 s s'"
      "case r of None \<Rightarrow> \<not> grants 2 s | Some b \<Rightarrow> buf_ok b \<and> buf_bytes b = base_name p"
    by (rule from_str_correct)
  then show thesis using that eq by simp
qed

lemma dirname_correct:
  assumes st: "fp_ready st" and p: "p \<noteq> []" "length p < 2 ^ 61"
  obtains r s' where "ak_filepath_dirname st (Some p) s = Some (r, s')"
    "case r of None \<Rightarrow> \<not> grants 2 s | Some b \<Rightarrow> buf_ok b \<and> buf_bytes b = dir_name p"
proof (cases "slash \<in> set p \<and> before_last slash p \<noteq> []")
  case False
  have eq: "ak_filepath_dirname st (Some p) s = buffer_from_str (Some (dir_name p)) s"
    using st p False by (auto simp: ak_filepath_dirname_def fp_ready_def is_separator_eq find_last_eq
        dir_name_def bytes_dots)
  have "length (dir_name p) < 2 ^ 62" using False by (auto simp: dir_name_def)
  then obtain r s' where "buffer_from_str (Some (dir_name p)) s = Some (r, s')" "uses 2 s s'"
      "case r of None \<Rightarrow> \<not> grants 2 s | Some b \<Rightarrow> buf_ok b \<and> buf_bytes b = dir_name p"
    by (rule from_str_correct)
  then show thesis using that eq by simp
next
  case True
  let ?x = "before_last slash p"
  have len: "length ?x \<le> length p" "length ?x + 1 < SIZE_RANGE"
    using length_last_parts(2) [of slash p] p(2) by simp_all
  obtain r s1 where new: "ak_buffer_new (length ?x + 1) s = (r, s1)" by (rule prod.exhaust)
  note u = buffer_new_uses [OF new]
  show thesis
  proof (cases r)
    case None
    then show thesis
      using that [of None s1] new u st p True
      by (simp add: ak_filepath_dirname_def fp_ready_def is_separator_eq find_last_eq)
  next
    case (Some b)
    note b = new_empty [OF new [unfolded Some] len(2)]
    obtain b' where "ak_buffer_copy_to (Some b) (Some p) (length ?x) s1 = Some (0, Some b', s1)"
        "buf_ok b'" "buf_bytes b' = buf_bytes b @ take (length ?x) p"
      by (rule copy_to_fits [of b "length ?x" p s1]) (use b len in auto)
    then show thesis
      using that [of "Some b'" s1] new Some st p True b take_before [of slash p]
      by (simp add: ak_filepath_dirname_def fp_ready_def is_separator_eq find_last_eq dir_name_def)
  qed
qed

lemma absolute_hd: "ak_filepath_is_absolute (Some p) \<longleftrightarrow> p \<noteq> [] \<and> hd p = slash"
  by (simp add: ak_filepath_is_absolute_def split: list.splits)

lemma dir_base_parts:
  assumes "p \<noteq> []"
  shows "normal_path (join_path (dir_name p) (Some (base_name p))) = normal_path p"
proof -
  let ?d = "dir_name p" and ?j = "join_path (dir_name p) (Some (base_name p))"
  have d: "?d \<noteq> []" by (simp add: dir_name_def)
  have same: "ak_filepath_is_absolute (Some ?d) = ak_filepath_is_absolute (Some p)"
  proof (cases "slash \<in> set p")
    case True
    then show ?thesis
      using arg_cong [OF split_last [OF True], of hd] assms
      by (simp add: dir_name_def absolute_hd hd_append)
  next
    case False
    then show ?thesis using assms by (cases p) (auto simp: dir_name_def ak_filepath_is_absolute_def)
  qed
  have abs: "ak_filepath_is_absolute (Some ?j) = ak_filepath_is_absolute (Some p)"
    using join_path_absolute [OF d, of "Some (base_name p)"] same by simp
  have parts: "parts ?j = parts ?d @ parts (base_name p)"
    using join_path_parts [of ?d "Some (base_name p)"] by simp
  have "resolved ?j = resolved p"
  proof (cases "slash \<in> set p")
    case True
    have "parts ?d = parts (before_last slash p)" using True by (auto simp: dir_name_def parts_def)
    moreover have "parts p = parts (before_last slash p) @ parts (base_name p)"
      using parts_append [of "before_last slash p" "base_name p"] split_last [OF True]
      by (simp add: base_name_def)
    ultimately show ?thesis using parts by (simp add: resolved_parts)
  next
    case False
    have "parts ?d = [[dot]]" "base_name p = p"
      using False by (simp_all add: dir_name_def parts_def base_name_def behind_last_whole)
    then show ?thesis using parts by (simp add: resolved_parts resolve_step_def)
  qed
  with abs show ?thesis by (simp add: normal_path_def)
qed

text \<open>The extension of a base name, if it has one.\<close>

definition extension :: "u8 list \<Rightarrow> u8 list option" where
  "extension q =
     (if dot \<in> set q \<and> before_last dot q \<noteq> [] then Some (dot # behind_last dot q) else None)"

lemma drop_before: "c \<in> set p \<Longrightarrow> drop (length (before_last c p)) p = c # behind_last c p"
  using arg_cong [OF split_last, of c p "drop (length (before_last c p))"] by simp

lemma extension_correct:
  assumes st: "fp_ready st" and p: "p \<noteq> []" "length p < 2 ^ 61" "0 \<notin> set p"
  obtains r s' where "ak_filepath_extension st (Some p) s = Some (r, s')"
    "case r of None \<Rightarrow> grants 5 s \<longrightarrow> extension (base_name p) = None
     | Some b \<Rightarrow> buf_ok b \<and> extension (base_name p) = Some (buf_bytes b)"
proof -
  let ?q = "base_name p"
  obtain r s1 where base: "ak_filepath_basename st (Some p) s = Some (r, s1)" "uses 2 s s1"
      "case r of None \<Rightarrow> \<not> grants 2 s | Some b \<Rightarrow> buf_ok b \<and> buf_bytes b = ?q"
    by (rule basename_correct [OF st p(1,2)])
  have g1: "grants 3 s1" if "grants 5 s"
    using grants_uses [of 2 3 s s1] base(2) that by simp
  show thesis
  proof (cases r)
    case None
    then show thesis
      using that [of None s1] base st p grants_mono [of 5 s 2]
      by (auto simp add: ak_filepath_extension_def fp_ready_def)
  next
    case (Some b)
    then have b: "buf_ok b" "buf_bytes b = ?q" using base(3) by simp_all
    have len: "length ?q < 2 ^ 61" using length_last_parts(1) [of slash p] p(2) by (simp add: base_name_def)
    have "buf_count b < 2 ^ 62" using length_buf_bytes [OF b(1)] b(2) len by simp
    then obtain t b' s2 where str: "buffer_to_cstr (Some b) s1 = Some (t, b', s2)" "uses 1 s1 s2"
        "case t of None \<Rightarrow> \<not> grants 1 s1 | Some x \<Rightarrow> x = takeWhile (\<lambda>c. c \<noteq> 0) (buf_bytes b)"
      by (rule to_cstr_correct [OF b(1)])
    have "0 \<notin> set ?q" using p(3) set_takeWhileD [of _ _ "rev p"] by (auto simp: base_name_def behind_last_def)
    then have whole: "takeWhile (\<lambda>c. c \<noteq> 0) ?q = ?q" by (intro takeWhile_eq_all_conv [THEN iffD2]) auto
    have g2: "grants 2 s2" if "grants 5 s"
      using grants_uses [OF grants_mono [OF g1 [OF that], of "1 + 2"] str(2)] by simp
    show thesis
    proof (cases t)
      case None
      then have "\<not> grants 5 s" using str(3) g1 grants_mono [of 3 s1 1] by auto
      then show thesis
        using that [of None s2] base(1) Some str(1) None st p
        by (simp add: ak_filepath_extension_def fp_ready_def)
    next
      case t: (Some x)
      then have x: "x = ?q" using str(3) b(2) whole by simp
      show thesis
      proof (cases "extension ?q")
        case None
        then show thesis
          using that [of None s2] base(1) Some str(1) t x st p
          by (auto simp: ak_filepath_extension_def fp_ready_def find_last_eq extension_def split: if_splits)
      next
        case (Some e)
        then have e: "e = drop (length (before_last dot ?q)) ?q" "dot \<in> set ?q" "before_last dot ?q \<noteq> []"
          by (auto simp: extension_def drop_before split: if_splits)
        have "length e < 2 ^ 62" using e(1) len by simp
        then obtain r' s' where "buffer_from_str (Some e) s2 = Some (r', s')" "uses 2 s2 s'"
            "case r' of None \<Rightarrow> \<not> grants 2 s2 | Some b \<Rightarrow> buf_ok b \<and> buf_bytes b = e"
          by (rule from_str_correct)
        then show thesis
          using that [of r' s'] base(1) \<open>r = Some b\<close> str(1) t x st p e Some g2
          by (auto simp: ak_filepath_extension_def fp_ready_def find_last_eq split: option.splits)
      qed
    qed
  qed
qed

section \<open>The user's directories\<close>

definition c_str :: "u8 list option \<Rightarrow> bool" where
  "c_str v = (case v of None \<Rightarrow> True | Some cs \<Rightarrow> 0 \<notin> set cs \<and> length cs < 2 ^ 60)"

text \<open>The strings of the environment have no byte 0 and a length that a process can have.\<close>

definition env_ok :: "os_env \<Rightarrow> bool" where
  "env_ok env \<longleftrightarrow> (\<forall>name. c_str (getenv env name)) \<and> c_str (pw_dir env) \<and> c_str (getcwd env)"

definition variable_or :: "os_env \<Rightarrow> string \<Rightarrow> u8 list option \<Rightarrow> u8 list option" where
  "variable_or env name v =
     (case getenv env name of None \<Rightarrow> v | Some w \<Rightarrow> if w \<noteq> [] then Some w else v)"

definition home_dir :: "os_env \<Rightarrow> u8 list option" where
  "home_dir env = variable_or env ''HOME'' (pw_dir env)"

definition user_dir :: "os_env \<Rightarrow> string \<Rightarrow> string \<Rightarrow> u8 list option" where
  "user_dir env name sub =
     variable_or env name (map_option (\<lambda>d. join_path (join_path [] (Some d)) (Some (bytes sub))) (home_dir env))"

lemma from_str_granted:
  assumes "length str < 2 ^ 62" and "grants 2 s"
  obtains b s' where "buffer_from_str (Some str) s = Some (Some b, s')" "uses 2 s s'" "buf_ok b"
    "buf_bytes b = str"
proof -
  obtain r s' where "buffer_from_str (Some str) s = Some (r, s')" "uses 2 s s'"
    "case r of None \<Rightarrow> \<not> grants 2 s | Some b \<Rightarrow> buf_ok b \<and> buf_bytes b = str"
    by (rule from_str_correct [OF assms(1), of s])
  then show thesis using assms(2) that by (cases r) auto
qed

lemma from_variable_correct:
  assumes env: "env_ok env" and g: "grants 2 s"
    and other: "variable_or env name None = None \<Longrightarrow>
      \<exists>r s'. otherwise s = Some (r, s') \<and> P s' \<and> rel_option (\<lambda>b v. buf_ok b \<and> buf_bytes b = v) r v"
    and P: "\<And>s'. uses 2 s s' \<Longrightarrow> P s'"
  shows "\<exists>r s'. from_variable env name otherwise s = Some (r, s') \<and> P s'
    \<and> rel_option (\<lambda>b v. buf_ok b \<and> buf_bytes b = v) r (variable_or env name v)"
proof (cases "variable_or env name None")
  case None
  then have "getenv env name = None \<or> getenv env name = Some []"
    by (auto simp: variable_or_def split: option.splits if_splits)
  then show ?thesis using other [OF None] by (auto simp: from_variable_def variable_or_def)
next
  case (Some w)
  then have w: "getenv env name = Some w" "w \<noteq> []"
    by (auto simp: variable_or_def split: option.splits if_splits)
  have "c_str (Some w)" using env w(1) by (metis env_ok_def)
  then have "length w < 2 ^ 62" by (simp add: c_str_def)
  then obtain b s' where "buffer_from_str (Some w) s = Some (Some b, s')" "uses 2 s s'" "buf_ok b"
      "buf_bytes b = w" using g by (rule from_str_granted)
  then show ?thesis using w P by (auto simp: from_variable_def variable_or_def)
qed

lemma home_correct:
  assumes st: "fp_ready st" and env: "env_ok env" and g: "grants 2 s"
  shows "\<exists>r s'. ak_filepath_home st env s = Some (r, s') \<and> uses 2 s s'
    \<and> rel_option (\<lambda>b v. buf_ok b \<and> buf_bytes b = v) r (home_dir env)"
proof -
  let ?other = "\<lambda>s. case pw_dir env of None \<Rightarrow> Some (None, s) | Some d \<Rightarrow> buffer_from_str (Some d) s"
  have "\<exists>r s'. ?other s = Some (r, s') \<and> uses 2 s s'
      \<and> rel_option (\<lambda>b v. buf_ok b \<and> buf_bytes b = v) r (pw_dir env)"
  proof (cases "pw_dir env")
    case (Some d)
    have "length d < 2 ^ 62" using env Some by (auto simp: env_ok_def c_str_def)
    then obtain b s' where "buffer_from_str (Some d) s = Some (Some b, s')" "uses 2 s s'" "buf_ok b"
        "buf_bytes b = d" using g by (rule from_str_granted)
    then show ?thesis using Some by auto
  qed simp
  from from_variable_correct [OF env g, of "''HOME''" ?other "uses 2 s" "pw_dir env"] this
  show ?thesis using st by (simp add: ak_filepath_home_def home_dir_def fp_ready_def)
qed

lemma below_home_correct:
  assumes st: "fp_ready st" and env: "env_ok env" and sub: "length sub < 2 ^ 60" and g: "grants 9 s"
  shows "\<exists>r s'. below_home st env sub s = Some (r, s') \<and> rel_option (\<lambda>b v. buf_ok b \<and> buf_bytes b = v) r
    (map_option (\<lambda>d. join_path (join_path [] (Some d)) (Some (bytes sub))) (home_dir env))"
proof -
  obtain r s1 where home: "ak_filepath_home st env s = Some (r, s1)" "uses 2 s s1"
      "rel_option (\<lambda>b v. buf_ok b \<and> buf_bytes b = v) r (home_dir env)"
    using home_correct [OF st env grants_mono [OF g]] by auto
  show ?thesis
  proof (cases r)
    case None
    then show ?thesis using home(1,3) by (simp add: below_home_def)
  next
    case (Some b)
    then have b: "home_dir env = Some (buf_bytes b)" "buf_ok b"
      using home(3) by (auto elim!: option.rel_cases)
    have "c_str (getenv env ''HOME'')" "c_str (pw_dir env)"
      using env unfolding env_ok_def by blast+
    then have "c_str (home_dir env)"
      by (auto simp: home_dir_def variable_or_def split: option.splits)
    then have str: "0 \<notin> set (buf_bytes b)" "length (buf_bytes b) < 2 ^ 60"
      by (simp_all add: b(1) c_str_def)
    have "buf_count b < 2 ^ 62" using str(2) length_buf_bytes [OF b(2)] by simp
    then obtain t b' s2 where t: "buffer_to_cstr (Some b) s1 = Some (t, b', s2)" "uses 1 s1 s2"
        "case t of None \<Rightarrow> \<not> grants 1 s1 | Some x \<Rightarrow> x = takeWhile (\<lambda>c. c \<noteq> 0) (buf_bytes b)"
      by (rule to_cstr_correct [OF b(2)])
    have g1: "grants (1 + 6) s1" using grants_uses [OF grants_mono [OF g, of "2 + (1 + 6)"] home(2)] by simp
    have "grants 1 s1" using grants_mono [OF g1, of 1] by simp
    moreover have "takeWhile (\<lambda>c. c \<noteq> 0) (buf_bytes b) = buf_bytes b"
      using str(1) by (intro takeWhile_eq_all_conv [THEN iffD2]) auto
    ultimately have t': "t = Some (buf_bytes b)" using t(3) by (auto split: option.splits)
    have g2: "grants 6 s2" using grants_uses [OF g1 t(2)] .
    have "parts_size [t, Some (bytes sub)] < 2 ^ 62"
      using str(2) sub by (simp add: t' parts_size_def part_size_def bytes_def)
    then obtain r' s' where j: "ak_filepath_join st [t, Some (bytes sub)] s2 = Some (r', s')"
        "case r' of None \<Rightarrow> \<not> grants 2 s2
         | Some b \<Rightarrow> buf_ok b \<and> (grants (2 + 2 * length [t, Some (bytes sub)]) s2 \<longrightarrow>
             buf_bytes b = foldl join_path [] [t, Some (bytes sub)])"
      by (rule join_correct [OF st])
    then obtain b2 where "r' = Some b2" "buf_ok b2"
        "buf_bytes b2 = join_path (join_path [] (Some (buf_bytes b))) (Some (bytes sub))"
      using g2 grants_mono [OF g2, of 2] by (auto simp: t' split: option.splits)
    then show ?thesis using home(1) Some t(1) j(1) b(1) by (auto simp: below_home_def)
  qed
qed

lemma user_dir_correct:
  assumes "fp_ready st" and "env_ok env" and "length sub < 2 ^ 60" and "grants 9 s"
  shows "\<exists>r s'. from_variable env name (below_home st env sub) s = Some (r, s')
    \<and> rel_option (\<lambda>b v. buf_ok b \<and> buf_bytes b = v) r (user_dir env name sub)"
  using from_variable_correct [OF assms(2) grants_mono [OF assms(4)], of name "below_home st env sub"
      "\<lambda>_. True"] below_home_correct [OF assms] by (simp add: user_dir_def)

lemma native_loop_correct:
  assumes "fp_ready st"
  shows "buf_ok b \<Longrightarrow> buf_count b + length p < 2 ^ 62 \<Longrightarrow> 0 \<notin> set p \<Longrightarrow> grants (length p) s \<Longrightarrow>
    \<exists>b' s'. native_loop st (Some b) p s = Some (Some b', s') \<and> buf_ok b' \<and> buf_bytes b' = buf_bytes b @ p"
proof (induction p arbitrary: b s)
  case (Cons c p)
  have "buf_count b + length [c] < 2 ^ 62" using Cons.prems(2) by simp
  then obtain rc b1 s1 where b1: "buffer_append_str (Some b) (Some [c]) s = Some (rc, Some b1, s1)"
      "buf_ok b1" "uses 1 s s1" "buf_bytes b1 = buf_bytes b @ [c] \<or> b1 = b"
      "grants 1 s \<longrightarrow> buf_bytes b1 = buf_bytes b @ [c]"
    by (rule append_str_correct [OF Cons.prems(1)])
  have bytes: "buf_bytes b1 = buf_bytes b @ [c]"
    using b1(5) grants_mono [OF Cons.prems(4), of 1] by simp
  have "buffer_append_char (Some b) (if is_separator c then separator st else c) s = Some (rc, Some b1, s1)"
    using b1(1) Cons.prems(3) assms by (auto simp: append_char_str is_separator_def fp_ready_def)
  moreover have "buf_count b1 + length p < 2 ^ 62"
    using Cons.prems(2) length_buf_bytes [OF b1(2)] length_buf_bytes [OF Cons.prems(1)] bytes by simp
  moreover have "grants (length p) s1" using grants_uses [of 1 "length p" s s1] b1(3) Cons.prems(4) by simp
  ultimately show ?case
    using Cons.IH [OF b1(2), of s1] Cons.prems(3) bytes by simp
qed simp

section \<open>Properties\<close>

definition first_part :: "u8 list option list \<Rightarrow> u8 list option" where
  "first_part args = (case filter (\<lambda>a. a \<noteq> None \<and> a \<noteq> Some []) args of [] \<Rightarrow> None | a # as \<Rightarrow> a)"

lemma join_paths_absolute_from:
  "r \<noteq> [] \<Longrightarrow> ak_filepath_is_absolute (Some (foldl join_path r args)) = ak_filepath_is_absolute (Some r)"
  by (induction args arbitrary: r) (auto simp: join_path_absolute)

lemma join_paths_absolute:
  "ak_filepath_is_absolute (Some (foldl join_path [] args)) = ak_filepath_is_absolute (first_part args)"
proof (induction args)
  case Nil
  then show ?case by (simp add: first_part_def ak_filepath_is_absolute_def)
next
  case (Cons a args)
  show ?case
  proof (cases "a = None \<or> a = Some []")
    case True
    then have "join_path [] a = []" by (auto simp: join_path_def)
    with True Cons show ?thesis by (auto simp: first_part_def)
  next
    case False
    then obtain c cs where a: "a = Some (c # cs)" by (cases a; cases "the a") auto
    have "join_path [] a = c # cs" by (simp add: a join_path_def)
    then show ?thesis
      using join_paths_absolute_from [of "c # cs" args] by (simp add: first_part_def a)
  qed
qed

text \<open>
  Joining paths is defined for every list of components below \<open>2 ^ 62\<close> bytes and returns
  NULL only when there is no memory for the buffer. When the allocator grants its calls, the
  components of the result are those of the arguments in order (NULL and empty arguments have
  none), it is absolute exactly when the first argument that is not empty is, and it has no
  doubled separator unless an argument has one.
\<close>

theorem filepath_join_spec:
  assumes "fp_ready st" and "parts_size args < 2 ^ 62"
  shows "\<exists>r s'. ak_filepath_join st args s = Some (r, s') \<and>
    (case r of None \<Rightarrow> \<not> grants 2 s
     | Some b \<Rightarrow> buf_ok b \<and> (grants (2 + 2 * length args) s \<longrightarrow>
         parts (buf_bytes b) = concat (map (\<lambda>a. case a of None \<Rightarrow> [] | Some cs \<Rightarrow> parts cs) args)
         \<and> ak_filepath_is_absolute (Some (buf_bytes b)) = ak_filepath_is_absolute (first_part args)
         \<and> ((\<forall>cs. Some cs \<in> set args \<longrightarrow> tidy cs) \<longrightarrow> tidy (buf_bytes b))))"
proof -
  obtain r s' where run: "ak_filepath_join st args s = Some (r, s')"
      "case r of None \<Rightarrow> \<not> grants 2 s
       | Some b \<Rightarrow> buf_ok b \<and> (grants (2 + 2 * length args) s \<longrightarrow> buf_bytes b = foldl join_path [] args)"
    by (rule join_correct [OF assms])
  have "tidy []" by (simp add: tidy_def)
  moreover have "parts [] = []" by (simp add: parts_def)
  ultimately show ?thesis
    using run join_paths_parts [of "[]" args] join_paths_absolute [of args] join_paths_tidy [of "[]" args]
    by (intro exI [of _ r] exI [of _ s']) (auto split: option.splits)
qed

theorem filepath_join_spec_witness:
  "\<exists>r s'. ak_filepath_join \<lparr>fp_initialized = True, separator = 47, list_separator = 58\<rparr>
      [Some [47, 97, 47], None, Some [47, 98]] (replicate 8 (Some (\<lambda>_. 0))) = Some (r, s') \<and>
    (case r of None \<Rightarrow> False | Some b \<Rightarrow> buf_ok b \<and> parts (buf_bytes b) = [[97], [98]]
       \<and> ak_filepath_is_absolute (Some (buf_bytes b)))"
proof -
  let ?st = "\<lparr>fp_initialized = True, separator = 47, list_separator = 58\<rparr> :: filepath_state"
  let ?args = "[Some [47, 97, 47], None, Some [47, 98]] :: u8 list option list"
  let ?s = "replicate 8 (Some (\<lambda>_. 0)) :: byte_sched"
  have "fp_ready ?st" by (simp add: fp_ready_def)
  moreover have "parts_size ?args < 2 ^ 62" by (simp add: parts_size_def part_size_def)
  moreover have "grants 2 ?s" "grants 8 ?s" by (simp_all add: grants_def)
  ultimately show ?thesis
    using filepath_join_spec [of ?st ?args ?s]
    by (auto simp: parts_def first_part_def ak_filepath_is_absolute_def split: option.splits)
qed

text \<open>
  C33: normalising a path of less than \<open>2 ^ 31 - 1\<close> bytes is defined whatever the allocator
  does: no string is freed twice and no string of the caller is touched; it returns NULL only when
  there is no memory for the buffer. When the allocator grants its calls, every component
  string has been freed in the end, and the result is the path of the components that are left
  when each \<^verbatim>\<open>.\<close> is dropped and each \<^verbatim>\<open>..\<close> takes away the component before it:
  absolute if the path is, and \<^verbatim>\<open>.\<close> when nothing is left of a relative path. A component of
  4096 bytes or more is cut to 4095.
\<close>

theorem filepath_normalize_spec:
  assumes "fp_ready st" and "length p + 1 < 2 ^ 31"
  shows "\<exists>r n s'. ak_filepath_normalize st (Some p) h ps s = Some (r, n, s') \<and> h \<subseteq>\<^sub>m strings n
    \<and> (r = None \<longrightarrow> \<not> grants 2 s) \<and> (\<forall>b. r = Some b \<longrightarrow> buf_ok b)
    \<and> (ready (3 * length p + 3) (dom h) ps \<longrightarrow> strings n = h
         \<and> (grants (2 * length p + 6) s \<longrightarrow> map_option buf_bytes r = Some (normal_path p)))"
proof -
  obtain r n s' where "ak_filepath_normalize st (Some p) h ps s = Some (r, n, s')" "h \<subseteq>\<^sub>m strings n"
    "ready (3 * length p + 3) (dom h) ps \<longrightarrow> strings n = h"
    "case r of None \<Rightarrow> \<not> grants 2 s
     | Some b \<Rightarrow> buf_ok b \<and> (grants (2 * length p + 6) s \<longrightarrow> ready (3 * length p + 3) (dom h) ps \<longrightarrow>
         buf_bytes b = normal_path p)"
    by (rule normalize_correct [OF assms])
  then show ?thesis
    using grants_mono [of "2 * length p + 6" s 2] by (cases r) auto
qed

text \<open>The addresses 11, 12, ... in turn.\<close>

definition counting :: "nat \<Rightarrow> ptr_sched" where
  "counting n = map (\<lambda>i. Some (\<lambda>_. i)) [11..<11 + n]"

lemma ready_counting: "D \<subseteq> {..< 11 + i} \<Longrightarrow> ready k D (map (\<lambda>i. Some (\<lambda>_. i)) [11 + i..<11 + i + k])"
proof (induction k arbitrary: D i)
  case (Suc k)
  have "insert (11 + i) D \<subseteq> {..< 11 + Suc i}" using Suc.prems by auto
  from Suc.IH [OF this] show ?case
    using Suc.prems by (auto simp: upt_conv_Cons add.assoc)
qed simp

lemma counting_ready: "ready n {} (counting n)"
  using ready_counting [of "{}" 0 n] by (simp only: counting_def add_0_right empty_subsetI)

theorem filepath_normalize_spec_witness:
  "\<exists>r n s'. ak_filepath_normalize \<lparr>fp_initialized = True, separator = 47, list_separator = 58\<rparr>
      (Some [47, 97, 47, 46, 46, 47, 46, 47, 98]) Map.empty (counting 30) (replicate 24 (Some (\<lambda>_. 0)))
      = Some (r, n, s') \<and> strings n = Map.empty \<and> map_option buf_bytes r = Some [47, 98]"
proof -
  let ?st = "\<lparr>fp_initialized = True, separator = 47, list_separator = 58\<rparr> :: filepath_state"
  let ?p = "[47, 97, 47, 46, 46, 47, 46, 47, 98] :: u8 list"
  let ?s = "replicate 24 (Some (\<lambda>_. 0)) :: byte_sched"
  have 1: "fp_ready ?st" "length ?p + 1 < 2 ^ 31" by (simp_all add: fp_ready_def)
  have 2: "ready 30 {} (counting 30)" by (rule counting_ready)
  have 3: "grants 24 ?s" by (simp add: grants_def)
  have 4: "normal_path ?p = [47, 98]"
    by (simp add: normal_path_def resolved_def resolve_step_def ak_filepath_is_absolute_def)
  have "3 * length ?p + 3 = 30" "2 * length ?p + 6 = 24" by simp_all
  with filepath_normalize_spec [OF 1, of Map.empty "counting 30" ?s] 2 3 show ?thesis
    unfolding 4 by auto
qed

text \<open>
  Normalising is idempotent: the result of normalising a path, normalised again, is
  unchanged, when the allocator grants the calls.
\<close>

theorem filepath_normalize_idempotent:
  assumes "fp_ready st" and "length p + 1 < 2 ^ 31" and "length (normal_path p) + 1 < 2 ^ 31"
    and "ready (3 * length p + 3) (dom h) ps" and "grants (2 * length p + 6) s"
    and "ready (3 * length (normal_path p) + 3) (dom h) ps'"
    and "grants (2 * length (normal_path p) + 6) s'"
  shows "\<exists>b n t b' n' t'. ak_filepath_normalize st (Some p) h ps s = Some (Some b, n, t)
    \<and> ak_filepath_normalize st (Some (buf_bytes b)) (strings n) ps' s' = Some (Some b', n', t')
    \<and> strings n' = h \<and> buf_bytes b' = buf_bytes b"
proof -
  have once: "\<exists>b n t. ak_filepath_normalize st (Some q) h qs u = Some (Some b, n, t)
      \<and> strings n = h \<and> buf_bytes b = normal_path q"
    if h: "length q + 1 < 2 ^ 31" "ready (3 * length q + 3) (dom h) qs" "grants (2 * length q + 6) u"
    for q qs u
  proof -
    obtain r n t where "ak_filepath_normalize st (Some q) h qs u = Some (r, n, t)"
        "ready (3 * length q + 3) (dom h) qs \<longrightarrow> strings n = h"
        "case r of None \<Rightarrow> \<not> grants 2 u
         | Some b \<Rightarrow> buf_ok b \<and> (grants (2 * length q + 6) u \<longrightarrow> ready (3 * length q + 3) (dom h) qs \<longrightarrow>
             buf_bytes b = normal_path q)"
      by (rule normalize_correct [OF assms(1) h(1)])
    then show ?thesis
      using h grants_mono [OF h(3), of 2] by (cases r) auto
  qed
  obtain b n t where 1: "ak_filepath_normalize st (Some p) h ps s = Some (Some b, n, t)"
      "strings n = h" "buf_bytes b = normal_path p"
    using once [OF assms(2,4,5)] by blast
  obtain b' n' t' where
      "ak_filepath_normalize st (Some (normal_path p)) h ps' s' = Some (Some b', n', t')"
      "strings n' = h" "buf_bytes b' = normal_path (normal_path p)"
    using once [OF assms(3,6,7)] by blast
  then show ?thesis using 1 normal_path_idem [of p] by auto
qed

theorem filepath_normalize_idempotent_witness:
  "\<exists>b n t b' n' t'. ak_filepath_normalize \<lparr>fp_initialized = True, separator = 47, list_separator = 58\<rparr>
      (Some [97, 47, 47, 98, 47]) Map.empty (counting 18) (replicate 16 (Some (\<lambda>_. 0))) = Some (Some b, n, t)
    \<and> ak_filepath_normalize \<lparr>fp_initialized = True, separator = 47, list_separator = 58\<rparr>
      (Some (buf_bytes b)) (strings n) (counting 12) (replicate 12 (Some (\<lambda>_. 0))) = Some (Some b', n', t')
    \<and> strings n' = Map.empty \<and> buf_bytes b' = buf_bytes b"
proof -
  let ?st = "\<lparr>fp_initialized = True, separator = 47, list_separator = 58\<rparr> :: filepath_state"
  let ?p = "[97, 47, 47, 98, 47] :: u8 list"
  have n: "normal_path ?p = [97, 47, 98]"
    by (simp add: normal_path_def resolved_def resolve_step_def ak_filepath_is_absolute_def)
  have r: "ready 18 {} (counting 18)" "ready 12 {} (counting 12)"
    by (rule counting_ready)+
  have g: "grants 16 (replicate 16 (Some (\<lambda>_. 0)) :: byte_sched)"
    "grants 12 (replicate 12 (Some (\<lambda>_. 0)) :: byte_sched)" by (simp_all add: grants_def)
  show ?thesis
    by (rule filepath_normalize_idempotent [where p = ?p and h = Map.empty])
      (use r g in \<open>simp_all add: n fp_ready_def\<close>)
qed

text \<open>
  C34: the directory and the base name of a path that is not empty make up the path again:
  without a separator the base name is the whole path and the directory is \<^verbatim>\<open>.\<close>, otherwise the
  path is split at its last separator; joined, they normalise to the same path. The extension
  is the part of the base name from its last dot on, unless there is none or it comes first.
  NULL is returned only when the allocator refuses or there is no extension.
\<close>

theorem filepath_split_spec:
  assumes st: "fp_ready st" and p: "p \<noteq> []" "length p < 2 ^ 61" "0 \<notin> set p" and g: "grants 5 s"
  shows "\<exists>d t1 q t2 e t3. ak_filepath_dirname st (Some p) s = Some (Some d, t1)
    \<and> ak_filepath_basename st (Some p) s = Some (Some q, t2)
    \<and> ak_filepath_extension st (Some p) s = Some (e, t3)
    \<and> slash \<notin> set (buf_bytes q)
    \<and> (if slash \<in> set p
        then \<exists>x. p = x @ slash # buf_bytes q \<and> buf_bytes d = (if x = [] then [slash] else x)
        else buf_bytes q = p \<and> buf_bytes d = [dot])
    \<and> normal_path (join_path (buf_bytes d) (Some (buf_bytes q))) = normal_path p
    \<and> (case e of None \<Rightarrow> \<forall>x y. buf_bytes q = x @ dot # y \<longrightarrow> dot \<notin> set y \<longrightarrow> x = []
        | Some f \<Rightarrow> \<exists>x y. buf_bytes q = x @ buf_bytes f \<and> x \<noteq> [] \<and> buf_bytes f = dot # y \<and> dot \<notin> set y)"
proof -
  have g2: "grants 2 s" using grants_mono [OF g, of 2] by simp
  obtain r1 t1 where d: "ak_filepath_dirname st (Some p) s = Some (r1, t1)"
      "case r1 of None \<Rightarrow> \<not> grants 2 s | Some b \<Rightarrow> buf_ok b \<and> buf_bytes b = dir_name p"
    by (rule dirname_correct [OF st p(1,2)])
  obtain r2 t2 where q: "ak_filepath_basename st (Some p) s = Some (r2, t2)" "uses 2 s t2"
      "case r2 of None \<Rightarrow> \<not> grants 2 s | Some b \<Rightarrow> buf_ok b \<and> buf_bytes b = base_name p"
    by (rule basename_correct [OF st p(1,2)])
  obtain e t3 where e: "ak_filepath_extension st (Some p) s = Some (e, t3)"
      "case e of None \<Rightarrow> grants 5 s \<longrightarrow> extension (base_name p) = None
       | Some b \<Rightarrow> buf_ok b \<and> extension (base_name p) = Some (buf_bytes b)"
    by (rule extension_correct [OF st p])
  obtain bd bq where b: "r1 = Some bd" "buf_bytes bd = dir_name p" "r2 = Some bq" "buf_bytes bq = base_name p"
    using d(2) q(3) g2 by (cases r1; cases r2) auto
  have split: "if slash \<in> set p
      then \<exists>x. p = x @ slash # base_name p \<and> dir_name p = (if x = [] then [slash] else x)
      else base_name p = p \<and> dir_name p = [dot]"
  proof (cases "slash \<in> set p")
    case True
    have "p = before_last slash p @ slash # base_name p"
      unfolding base_name_def by (rule split_last [OF True])
    then have "\<exists>x. p = x @ slash # base_name p \<and> dir_name p = (if x = [] then [slash] else x)"
      by (rule exI [of _ "before_last slash p", OF conjI]) (simp add: dir_name_def True)
    with True show ?thesis by simp
  next
    case False
    then show ?thesis by (simp add: base_name_def dir_name_def behind_last_whole)
  qed
  have ext: "case e of None \<Rightarrow> \<forall>x y. base_name p = x @ dot # y \<longrightarrow> dot \<notin> set y \<longrightarrow> x = []
      | Some f \<Rightarrow> \<exists>x y. base_name p = x @ buf_bytes f \<and> x \<noteq> [] \<and> buf_bytes f = dot # y \<and> dot \<notin> set y"
  proof (cases e)
    case None
    then have no: "extension (base_name p) = None" using e(2) g by simp
    have "x = []" if "base_name p = x @ dot # y" "dot \<notin> set y" for x y
    proof -
      have "dropWhile (\<lambda>c. c \<noteq> dot) (rev y) = []"
        using that(2) by (auto simp: dropWhile_eq_Nil_conv)
      then have "before_last dot (base_name p) = x"
        by (simp add: that(1) before_last_def dropWhile_append3 del: dropWhile_eq_Nil_conv)
      then show ?thesis using no that by (auto simp: extension_def split: if_splits)
    qed
    then show ?thesis using None by simp
  next
    case (Some f)
    then have "dot \<in> set (base_name p)" "before_last dot (base_name p) \<noteq> []"
        "buf_bytes f = dot # behind_last dot (base_name p)"
      using e(2) by (auto simp: extension_def split: if_splits)
    then show ?thesis
      using Some split_last [of dot "base_name p"] behind_last_notin [of dot "base_name p"]
      by (auto intro!: exI [of _ "before_last dot (base_name p)"])
  qed
  have nsl: "slash \<notin> set (base_name p)"
    unfolding base_name_def by (rule behind_last_notin)
  show ?thesis
    using d(1) q(1) e(1) b(1,3) split ext dir_base_parts [OF p(1)] nsl
    by - (rule exI [of _ bd], rule exI [of _ t1], rule exI [of _ bq], rule exI [of _ t2],
        rule exI [of _ e], rule exI [of _ t3], unfold b(2,4), intro conjI, simp_all)
qed

theorem filepath_split_spec_witness:
  "\<exists>d t1 q t2 e t3. ak_filepath_dirname \<lparr>fp_initialized = True, separator = 47, list_separator = 58\<rparr>
      (Some [47, 97, 47, 98, 46, 99]) (replicate 5 (Some (\<lambda>_. 0))) = Some (Some d, t1)
    \<and> ak_filepath_basename \<lparr>fp_initialized = True, separator = 47, list_separator = 58\<rparr>
      (Some [47, 97, 47, 98, 46, 99]) (replicate 5 (Some (\<lambda>_. 0))) = Some (Some q, t2)
    \<and> ak_filepath_extension \<lparr>fp_initialized = True, separator = 47, list_separator = 58\<rparr>
      (Some [47, 97, 47, 98, 46, 99]) (replicate 5 (Some (\<lambda>_. 0))) = Some (e, t3)
    \<and> normal_path (join_path (buf_bytes d) (Some (buf_bytes q))) = [47, 97, 47, 98, 46, 99]"
proof -
  let ?st = "\<lparr>fp_initialized = True, separator = 47, list_separator = 58\<rparr> :: filepath_state"
  let ?p = "[47, 97, 47, 98, 46, 99] :: u8 list" and ?s = "replicate 5 (Some (\<lambda>_. 0)) :: byte_sched"
  have n: "normal_path ?p = ?p"
    by (simp add: normal_path_def resolved_def resolve_step_def ak_filepath_is_absolute_def)
  have "fp_ready ?st" "?p \<noteq> []" "length ?p < 2 ^ 61" "0 \<notin> set ?p" "grants 5 ?s"
    by (simp_all add: fp_ready_def grants_def)
  from filepath_split_spec [OF this] show ?thesis unfolding n by blast
qed

text \<open>
  The directories of the user: the variable if it is set and not empty, otherwise the given
  directory below the home directory, which is that of \<open>HOME\<close> or of the user's record; the
  directory of temporary files; and a path in native form, which is the path itself.
\<close>

theorem filepath_directories:
  assumes st: "fp_ready st" and env: "env_ok env" and g: "grants 9 s"
  shows "\<exists>r s'. ak_filepath_cache st env s = Some (r, s')
      \<and> map_option buf_bytes r = user_dir env ''XDG_CACHE_HOME'' ''.cache''"
    and "\<exists>r s'. ak_filepath_config st env s = Some (r, s')
      \<and> map_option buf_bytes r = user_dir env ''XDG_CONFIG_HOME'' ''.config''"
    and "\<exists>r s'. ak_filepath_data st env s = Some (r, s')
      \<and> map_option buf_bytes r = user_dir env ''XDG_DATA_HOME'' ''.local/share''"
    and "\<exists>r s'. ak_filepath_temp st env s = Some (r, s')
      \<and> map_option buf_bytes r = variable_or env ''TMPDIR'' (Some (bytes ''/tmp''))"
    and "\<exists>r s'. ak_filepath_home st env s = Some (r, s') \<and> map_option buf_bytes r = home_dir env"
proof -
  have rel: "map_option buf_bytes r = v" if "rel_option (\<lambda>b v. buf_ok b \<and> buf_bytes b = v) r v" for r v
    using that by (auto elim!: option.rel_cases)
  have init: "fp_initialized st" using st by (simp add: fp_ready_def)
  show "\<exists>r s'. ak_filepath_cache st env s = Some (r, s')
      \<and> map_option buf_bytes r = user_dir env ''XDG_CACHE_HOME'' ''.cache''"
    using user_dir_correct [OF st env _ g, of "''.cache''" "''XDG_CACHE_HOME''"] rel init
    by (auto simp: ak_filepath_cache_def)
  show "\<exists>r s'. ak_filepath_config st env s = Some (r, s')
      \<and> map_option buf_bytes r = user_dir env ''XDG_CONFIG_HOME'' ''.config''"
    using user_dir_correct [OF st env _ g, of "''.config''" "''XDG_CONFIG_HOME''"] rel init
    by (auto simp: ak_filepath_config_def)
  show "\<exists>r s'. ak_filepath_data st env s = Some (r, s')
      \<and> map_option buf_bytes r = user_dir env ''XDG_DATA_HOME'' ''.local/share''"
    using user_dir_correct [OF st env _ g, of "''.local/share''" "''XDG_DATA_HOME''"] rel init
    by (auto simp: ak_filepath_data_def)
  have g2: "grants 2 s" using grants_mono [OF g, of 2] by simp
  show "\<exists>r s'. ak_filepath_home st env s = Some (r, s') \<and> map_option buf_bytes r = home_dir env"
    using home_correct [OF st env g2] rel by blast
  have "length (bytes ''/tmp'') < 2 ^ 62" by (simp add: bytes_def)
  then obtain b s' where "buffer_from_str (Some (bytes ''/tmp'')) s = Some (Some b, s')" "uses 2 s s'"
      "buf_ok b" "buf_bytes b = bytes ''/tmp''" using g2 by (rule from_str_granted)
  then show "\<exists>r s'. ak_filepath_temp st env s = Some (r, s')
      \<and> map_option buf_bytes r = variable_or env ''TMPDIR'' (Some (bytes ''/tmp''))"
    using from_variable_correct [OF env g2, of "''TMPDIR''" "\<lambda>s. buffer_from_str (Some (bytes ''/tmp'')) s"
        "\<lambda>_. True" "Some (bytes ''/tmp'')"] rel init
    by (auto simp: ak_filepath_temp_def)
qed

theorem filepath_to_native_id:
  assumes "fp_ready st" and "length p < 2 ^ 61" and "0 \<notin> set p" and "grants (2 + length p) s"
  shows "\<exists>b s'. ak_filepath_to_native st (Some p) s = Some (Some b, s') \<and> buf_ok b \<and> buf_bytes b = p"
proof -
  have len: "sz_add (length p) 1 = length p + 1" "length p + 1 < SIZE_RANGE"
    using assms(2) by (simp_all add: sz_add_exact)
  obtain r s1 where new: "ak_buffer_new (length p + 1) s = (r, s1)" by (rule prod.exhaust)
  note u = buffer_new_uses [OF new]
  then obtain b where b: "r = Some b" using grants_mono [OF assms(4), of 2] by auto
  note e = new_empty [OF new [unfolded b] len(2)]
  have "grants (length p) s1" using grants_uses [OF assms(4)] u by blast
  then show ?thesis
    using native_loop_correct [OF assms(1) e(1) _ assms(3), of s1] e assms(1,2) new b len(1)
    by (simp add: ak_filepath_to_native_def fp_ready_def)
qed

end
