(* ===== verification/Forms.thy ===== *)
theory Forms
  imports Context Lambda "HOL-Library.Sublist"
begin

text \<open>
  Model of kernel/forms/src/forms.c and forms_primitives.c: descriptions of data as trees of
  forms, the affordances (\<open>affects\<close>) attached to them, the table of primitive forms, and the
  built-in operations on instances. A form owns the forms below it, since every constructor
  clones its arguments; so a form is a value, a tree, and the store \<open>fw_forms\<close> has the roots
  that callers hold. Affordances are shared by address and live in the store \<open>fw_affects\<close>,
  with their lambdas in the state of Lambda.thy. The lists inside forms and affordances are
  represented by their contents, with a push that fails or appends, as the interface
  \<open>sequence\<close> of DynList.thy has it. The strings a struct form refers to belong to the caller
  and are represented by their bytes. Pointers are numbers, 0 being NULL; the outer \<open>option\<close>
  is \<open>None\<close> for an access through NULL or to storage that was freed.

  The lemmas show that structural equality is equality of shapes, and an equivalence unless
  an alias names an alias; that cloning yields the same form when the allocator grants its
  calls; that the affordances listed are those answered; that freeing a form is defined
  exactly when its tree holds every affordance once and alive; and that the table of
  primitives creates each form once.
\<close>

section \<open>Definitions\<close>

datatype ak_form_primitive_type =
    AK_FORM_PRIMITIVE_BYTE | AK_FORM_PRIMITIVE_U8 | AK_FORM_PRIMITIVE_U16 | AK_FORM_PRIMITIVE_U32
  | AK_FORM_PRIMITIVE_U64 | AK_FORM_PRIMITIVE_I8 | AK_FORM_PRIMITIVE_I16 | AK_FORM_PRIMITIVE_I32
  | AK_FORM_PRIMITIVE_I64 | AK_FORM_PRIMITIVE_F32 | AK_FORM_PRIMITIVE_F64 | AK_FORM_PRIMITIVE_CHAR

datatype ak_form_kind =
    AK_FORM_PRIMITIVE | AK_FORM_COMPOUND | AK_FORM_OPTIONAL | AK_FORM_REPEATABLE
  | AK_FORM_STRUCT | AK_FORM_LIST | AK_FORM_MAP | AK_FORM_NAMED

text \<open>The union \<open>data\<close>, with \<open>kind\<close> as its constructor. An inner pointer may be NULL.\<close>

datatype ak_form = Form (form_name: "u8 list option") (form_data: form_data) (affects: "nat list")
and form_data =
    Primitive ak_form_primitive_type
  | Compound "ak_form list"
  | Optional "ak_form option"
  | Repeatable "ak_form option"
  | Struct "ak_form option" "u8 list list"
  | List_of "ak_form option"
  | Map_of ak_form_primitive_type "ak_form option"
  | Named "ak_form option"

fun kind_of :: "form_data \<Rightarrow> ak_form_kind" where
  "kind_of (Primitive t) = AK_FORM_PRIMITIVE"
| "kind_of (Compound fs) = AK_FORM_COMPOUND"
| "kind_of (Optional f) = AK_FORM_OPTIONAL"
| "kind_of (Repeatable f) = AK_FORM_REPEATABLE"
| "kind_of (Struct f ns) = AK_FORM_STRUCT"
| "kind_of (List_of f) = AK_FORM_LIST"
| "kind_of (Map_of t f) = AK_FORM_MAP"
| "kind_of (Named f) = AK_FORM_NAMED"

record ak_affect =
  af_name :: "u8 list"
  af_lambda :: nat
  parameter_forms :: "nat list"
  return_form :: nat
  also_includes :: "u8 list list"

record form_world =
  fw_forms :: "nat \<rightharpoonup> ak_form"
  fw_affects :: "nat \<rightharpoonup> ak_affect"
  fw_lambdas :: lambda_world
  fw_contexts :: ctx_store

text \<open>\<open>list_push\<close> on the contents of a list, and the loop that pushes every element.\<close>

definition push_item :: "'v list \<Rightarrow> 'v \<Rightarrow> 'g sched \<Rightarrow> (int \<times> 'v list \<times> 'g sched) option" where
  "push_item xs v s =
     (case sys_alloc s of
        (None, s') \<Rightarrow> Some (-1, xs, s')
      | (Some _, s') \<Rightarrow> Some (0, xs @ [v], s'))"

fun push_all :: "'v list \<Rightarrow> 'v list \<Rightarrow> 'g sched \<Rightarrow> 'v list \<times> 'g sched" where
  "push_all xs [] s = (xs, s)"
| "push_all xs (v # vs) s =
     (case push_item xs v s of None \<Rightarrow> (xs, s) | Some (_, xs', s') \<Rightarrow> push_all xs' vs s')"

text \<open>A copy of a string; a failed copy of a name is not reported.\<close>

definition copy_name :: "u8 list option \<Rightarrow> 'g sched \<Rightarrow> u8 list option \<times> 'g sched" where
  "copy_name nm s =
     (case nm of None \<Rightarrow> (None, s)
      | Some cs \<Rightarrow> (case sys_alloc s of (r, s') \<Rightarrow> (if r = None then None else Some cs, s')))"

fun ak_form_clone :: "ak_form option \<Rightarrow> ptr_sched \<Rightarrow> ak_form option \<times> ptr_sched"
  and clone_data :: "form_data \<Rightarrow> ptr_sched \<Rightarrow> form_data \<times> ptr_sched"
  and clone_parts :: "ak_form list \<Rightarrow> ak_form list \<Rightarrow> ptr_sched \<Rightarrow> ak_form list \<times> ptr_sched" where
  "ak_form_clone None s = (None, s)"
| "ak_form_clone (Some (Form nm d as)) s =
     (case sys_alloc s of
        (None, s1) \<Rightarrow> (None, s1)
      | (Some _, s1) \<Rightarrow>
         (case copy_name nm s1 of (nm', s2) \<Rightarrow>
            case clone_data d s2 of (d', s3) \<Rightarrow>
              case push_all [] as s3 of (as', s4) \<Rightarrow> (Some (Form nm' d' as'), s4)))"
| "clone_data (Primitive t) s = (Primitive t, s)"
| "clone_data (Compound fs) s = (case clone_parts [] fs s of (fs', s') \<Rightarrow> (Compound fs', s'))"
| "clone_data (Optional f) s = (case ak_form_clone f s of (f', s') \<Rightarrow> (Optional f', s'))"
| "clone_data (Repeatable f) s = (case ak_form_clone f s of (f', s') \<Rightarrow> (Repeatable f', s'))"
| "clone_data (Struct f ns) s =
     (case ak_form_clone f s of (f', s1) \<Rightarrow>
        case push_all [] ns s1 of (ns', s2) \<Rightarrow> (Struct f' ns', s2))"
| "clone_data (List_of f) s = (case ak_form_clone f s of (f', s') \<Rightarrow> (List_of f', s'))"
| "clone_data (Map_of t f) s = (case ak_form_clone f s of (f', s') \<Rightarrow> (Map_of t f', s'))"
| "clone_data (Named f) s = (case ak_form_clone f s of (f', s') \<Rightarrow> (Named f', s'))"
| "clone_parts acc [] s = (acc, s)"
| "clone_parts acc (f # fs) s =
     (case ak_form_clone (Some f) s of
        (None, s1) \<Rightarrow> clone_parts acc fs s1
      | (Some f', s1) \<Rightarrow>
         (case push_item acc f' s1 of
            None \<Rightarrow> (acc, s1)
          | Some (_, acc', s2) \<Rightarrow> clone_parts acc' fs s2))"

text \<open>The form a pointer of the caller denotes, cloned.\<close>

definition clone_at :: "form_world \<Rightarrow> nat \<Rightarrow> ptr_sched \<Rightarrow> (ak_form option \<times> ptr_sched) option" where
  "clone_at w p s =
     (if p = 0 then Some (None, s) else map_option (\<lambda>f. ak_form_clone (Some f) s) (fw_forms w p))"

definition put_form :: "form_world \<Rightarrow> nat \<Rightarrow> ak_form \<Rightarrow> form_world" where
  "put_form w p f = w\<lparr>fw_forms := (fw_forms w)(p \<mapsto> f)\<rparr>"

definition ak_form_new_primitive ::
  "form_world \<Rightarrow> ak_form_primitive_type \<Rightarrow> ptr_sched \<Rightarrow> nat \<times> form_world \<times> ptr_sched" where
  "ak_form_new_primitive w t s =
     (case alloc_cell (fw_forms w) s of
        (None, s') \<Rightarrow> (0, w, s')
      | (Some p, s') \<Rightarrow> (p, put_form w p (Form None (Primitive t) []), s'))"

fun clone_all :: "form_world \<Rightarrow> ak_form list \<Rightarrow> nat list \<Rightarrow> ptr_sched \<Rightarrow> (ak_form list \<times> ptr_sched) option"
where
  "clone_all w acc [] s = Some (acc, s)"
| "clone_all w acc (p # ps) s = do {
     (f, s1) \<leftarrow> clone_at w p s;
     (case f of None \<Rightarrow> clone_all w acc ps s1
      | Some f' \<Rightarrow> do {
          (_, acc', s2) \<leftarrow> push_item acc f' s1;
          clone_all w acc' ps s2
        })
   }"

definition ak_form_new_compound ::
  "form_world \<Rightarrow> nat list option \<Rightarrow> ptr_sched \<Rightarrow> (nat \<times> form_world \<times> ptr_sched) option" where
  "ak_form_new_compound w parts s =
     (case parts of None \<Rightarrow> Some (0, w, s)
      | Some ps \<Rightarrow>
         (case alloc_cell (fw_forms w) s of
            (None, s1) \<Rightarrow> Some (0, w, s1)
          | (Some p, s1) \<Rightarrow> do {
              (fs, s2) \<leftarrow> clone_all w [] ps s1;
              Some (p, put_form w p (Form None (Compound fs) []), s2)
            }))"

text \<open>
  The constructors with one inner form: allocate, clone the argument, give up when the clone
  failed.
\<close>

definition new_around ::
  "form_world \<Rightarrow> (ak_form option \<Rightarrow> form_data) \<Rightarrow> nat \<Rightarrow> ptr_sched
   \<Rightarrow> (nat \<times> form_world \<times> ptr_sched) option" where
  "new_around w mk q s =
     (if q = 0 then Some (0, w, s)
      else (case alloc_cell (fw_forms w) s of
        (None, s1) \<Rightarrow> Some (0, w, s1)
      | (Some p, s1) \<Rightarrow> do {
          (f, s2) \<leftarrow> clone_at w q s1;
          Some (if f = None then (0, w, s2) else (p, put_form w p (Form None (mk f) []), s2))
        }))"

definition ak_form_new_optional ::
  "form_world \<Rightarrow> nat \<Rightarrow> ptr_sched \<Rightarrow> (nat \<times> form_world \<times> ptr_sched) option" where
  "ak_form_new_optional w inner s = new_around w Optional inner s"

definition ak_form_new_repeatable ::
  "form_world \<Rightarrow> nat \<Rightarrow> ptr_sched \<Rightarrow> (nat \<times> form_world \<times> ptr_sched) option" where
  "ak_form_new_repeatable w inner s = new_around w Repeatable inner s"

definition ak_form_new_struct ::
  "form_world \<Rightarrow> nat \<Rightarrow> u8 list list option \<Rightarrow> ptr_sched \<Rightarrow> (nat \<times> form_world \<times> ptr_sched) option" where
  "ak_form_new_struct w pattern field_names s =
     (case field_names of None \<Rightarrow> Some (0, w, s)
      | Some ns \<Rightarrow> do {
          (p, w1, s1) \<leftarrow> new_around w (\<lambda>f. Struct f []) pattern s;
          if p = 0 then Some (0, w1, s1)
          else do {
            f \<leftarrow> fw_forms w1 p;
            (case form_data f of
               Struct g _ \<Rightarrow>
                 (case push_all [] ns s1 of (ns', s2) \<Rightarrow>
                    Some (p, put_form w1 p (Form None (Struct g ns') []), s2))
             | _ \<Rightarrow> None)
          }
        })"

definition ak_form_new_list ::
  "form_world \<Rightarrow> nat \<Rightarrow> ptr_sched \<Rightarrow> (nat \<times> form_world \<times> ptr_sched) option" where
  "ak_form_new_list w element_type s = new_around w List_of element_type s"

definition ak_form_new_map ::
  "form_world \<Rightarrow> ak_form_primitive_type \<Rightarrow> nat \<Rightarrow> ptr_sched \<Rightarrow> (nat \<times> form_world \<times> ptr_sched) option" where
  "ak_form_new_map w key_type value_type s = new_around w (Map_of key_type) value_type s"

definition ak_form_new_named ::
  "form_world \<Rightarrow> u8 list option \<Rightarrow> nat \<Rightarrow> ptr_sched \<Rightarrow> (nat \<times> form_world \<times> ptr_sched) option" where
  "ak_form_new_named w name q s =
     (case name of None \<Rightarrow> Some (0, w, s)
      | Some nm \<Rightarrow>
         if q = 0 then Some (0, w, s)
         else (case alloc_cell (fw_forms w) s of
           (None, s1) \<Rightarrow> Some (0, w, s1)
         | (Some p, s1) \<Rightarrow>
            (case sys_alloc s1 of
               (None, s2) \<Rightarrow> Some (0, w, s2)
             | (Some _, s2) \<Rightarrow> do {
                 (f, s3) \<leftarrow> clone_at w q s2;
                 Some (if f = None then (0, w, s3)
                       else (p, put_form w p (Form (Some nm) (Named f) []), s3))
               })))"

definition ak_affect_free :: "form_world \<Rightarrow> nat \<Rightarrow> form_world option" where
  "ak_affect_free w a =
     (if a = 0 then Some w
      else do {
        af \<leftarrow> fw_affects w a;
        ls \<leftarrow> (if af_lambda af \<noteq> 0 then ak_lambda_free (fw_lambdas w) (af_lambda af)
               else Some (fw_lambdas w));
        Some (w\<lparr>fw_lambdas := ls, fw_affects := (fw_affects w)(a := None)\<rparr>)
      })"

fun free_affects :: "form_world \<Rightarrow> nat list \<Rightarrow> form_world option" where
  "free_affects w [] = Some w"
| "free_affects w (a # as) = do { w' \<leftarrow> ak_affect_free w a; free_affects w' as }"

text \<open>The recursion of \<open>ak_form_free\<close>: the inner forms first, then the affordances.\<close>

fun free_tree :: "form_world \<Rightarrow> ak_form option \<Rightarrow> form_world option"
  and free_data :: "form_world \<Rightarrow> form_data \<Rightarrow> form_world option"
  and free_parts :: "form_world \<Rightarrow> ak_form list \<Rightarrow> form_world option" where
  "free_tree w None = Some w"
| "free_tree w (Some (Form nm d as)) = do { w' \<leftarrow> free_data w d; free_affects w' as }"
| "free_data w (Primitive t) = Some w"
| "free_data w (Compound fs) = free_parts w fs"
| "free_data w (Optional f) = free_tree w f"
| "free_data w (Repeatable f) = free_tree w f"
| "free_data w (Struct f ns) = free_tree w f"
| "free_data w (List_of f) = free_tree w f"
| "free_data w (Map_of t f) = free_tree w f"
| "free_data w (Named f) = free_tree w f"
| "free_parts w [] = Some w"
| "free_parts w (f # fs) = do { w' \<leftarrow> free_tree w (Some f); free_parts w' fs }"

definition ak_form_free :: "form_world \<Rightarrow> nat \<Rightarrow> form_world option" where
  "ak_form_free w p =
     (if p = 0 then Some w
      else do {
        f \<leftarrow> fw_forms w p;
        w' \<leftarrow> free_tree w (Some f);
        Some (w'\<lparr>fw_forms := (fw_forms w')(p := None)\<rparr>)
      })"

definition opt_ptr :: "nat \<Rightarrow> nat option" where
  "opt_ptr p = (if p = 0 then None else Some p)"

definition ak_form_register ::
  "form_world \<Rightarrow> nat \<Rightarrow> u8 list option \<Rightarrow> nat \<Rightarrow> ptr_sched \<Rightarrow> (int \<times> form_world \<times> ptr_sched) option" where
  "ak_form_register w ctx name p s =
     (if ctx = 0 \<or> name = None \<or> p = 0 then Some (-1, w, s)
      else do {
        (rc, st, s') \<leftarrow> ak_context_set (fw_contexts w) (Some ctx) name p s;
        Some (rc, w\<lparr>fw_contexts := st\<rparr>, s')
      })"

definition ak_form_lookup :: "form_world \<Rightarrow> nat \<Rightarrow> u8 list option \<Rightarrow> nat option" where
  "ak_form_lookup w ctx name = ak_context_get (fw_contexts w) (opt_ptr ctx) name"

definition ak_form_lookup_local :: "form_world \<Rightarrow> nat \<Rightarrow> u8 list option \<Rightarrow> nat option" where
  "ak_form_lookup_local w ctx name = ak_context_get_local (fw_contexts w) (opt_ptr ctx) name"

text \<open>\<open>if (form->kind == AK_FORM_NAMED) form = form->data.named.actual_form\<close>: one level only.\<close>

fun resolve_named :: "ak_form \<Rightarrow> ak_form option" where
  "resolve_named (Form nm (Named f) as) = f"
| "resolve_named (Form nm d as) = Some (Form nm d as)"

lemma resolve_named_size: "resolve_named f = Some (Form nm d as) \<Longrightarrow> size d < size f"
  by (cases f rule: resolve_named.cases) auto

function forms_structurally_equal :: "ak_form option \<Rightarrow> ak_form option \<Rightarrow> bool option"
  and data_equal :: "form_data \<Rightarrow> form_data \<Rightarrow> bool option"
  and parts_equal :: "ak_form list \<Rightarrow> ak_form list \<Rightarrow> bool option" where
  "forms_structurally_equal f1 f2 =
     (case f1 of None \<Rightarrow> Some False
      | Some g1 \<Rightarrow>
         (case f2 of None \<Rightarrow> Some False
          | Some g2 \<Rightarrow>
             (case resolve_named g1 of None \<Rightarrow> None
              | Some (Form nm1 d1 as1) \<Rightarrow>
                 (case resolve_named g2 of None \<Rightarrow> None
                  | Some (Form nm2 d2 as2) \<Rightarrow>
                      if kind_of d1 \<noteq> kind_of d2 then Some False else data_equal d1 d2))))"
| "data_equal d1 d2 =
     (case d1 of
        Primitive t1 \<Rightarrow> (case d2 of Primitive t2 \<Rightarrow> Some (t1 = t2) | _ \<Rightarrow> None)
      | Compound fs1 \<Rightarrow>
          (case d2 of Compound fs2 \<Rightarrow>
             if length fs1 \<noteq> length fs2 then Some False else parts_equal fs1 fs2
           | _ \<Rightarrow> None)
      | Optional f1 \<Rightarrow> (case d2 of Optional f2 \<Rightarrow> forms_structurally_equal f1 f2 | _ \<Rightarrow> None)
      | Repeatable f1 \<Rightarrow> (case d2 of Repeatable f2 \<Rightarrow> forms_structurally_equal f1 f2 | _ \<Rightarrow> None)
      | Struct f1 ns1 \<Rightarrow>
          (case d2 of Struct f2 ns2 \<Rightarrow>
             if length ns1 \<noteq> length ns2 then Some False else forms_structurally_equal f1 f2
           | _ \<Rightarrow> None)
      | List_of f1 \<Rightarrow> (case d2 of List_of f2 \<Rightarrow> forms_structurally_equal f1 f2 | _ \<Rightarrow> None)
      | Map_of t1 f1 \<Rightarrow>
          (case d2 of Map_of t2 f2 \<Rightarrow>
             if t1 \<noteq> t2 then Some False else forms_structurally_equal f1 f2
           | _ \<Rightarrow> None)
      | Named f1 \<Rightarrow> Some False)"
| "parts_equal fs1 fs2 =
     (case fs1 of [] \<Rightarrow> Some True
      | f1 # rest1 \<Rightarrow>
         (case fs2 of [] \<Rightarrow> Some False
          | f2 # rest2 \<Rightarrow>
             (case forms_structurally_equal (Some f1) (Some f2) of None \<Rightarrow> None
              | Some e \<Rightarrow> if e then parts_equal rest1 rest2 else Some False)))"
  by pat_completeness auto
termination
  by (relation "measure (\<lambda>x. case x of Inl (f1, f2) \<Rightarrow> 2 * size_option size f1
        | Inr (Inl (d1, d2)) \<Rightarrow> 2 * size d1 | Inr (Inr (fs1, fs2)) \<Rightarrow> 2 * size_list size fs1 + 1)")
    (auto dest: resolve_named_size)

declare forms_structurally_equal.simps [simp del] data_equal.simps [simp del] parts_equal.simps [simp del]

definition ak_form_matches_pattern :: "form_world \<Rightarrow> nat \<Rightarrow> nat \<Rightarrow> bool option" where
  "ak_form_matches_pattern w p q =
     (if p = 0 \<or> q = 0 then Some False
      else do { f \<leftarrow> fw_forms w p; g \<leftarrow> fw_forms w q; forms_structurally_equal (Some f) (Some g) })"

definition ak_form_is_compatible :: "form_world \<Rightarrow> nat \<Rightarrow> nat \<Rightarrow> bool option" where
  "ak_form_is_compatible w p q =
     (if p = 0 \<or> q = 0 then Some False
      else do { f \<leftarrow> fw_forms w p; g \<leftarrow> fw_forms w q; forms_structurally_equal (Some f) (Some g) })"

definition ak_affect_new ::
  "form_world \<Rightarrow> u8 list option \<Rightarrow> nat \<Rightarrow> nat list option \<Rightarrow> nat \<Rightarrow> ptr_sched
   \<Rightarrow> nat \<times> form_world \<times> ptr_sched" where
  "ak_affect_new w name lambda params return_type s =
     (case name of None \<Rightarrow> (0, w, s)
      | Some nm \<Rightarrow>
         (case alloc_cell (fw_affects w) s of
            (None, s1) \<Rightarrow> (0, w, s1)
          | (Some a, s1) \<Rightarrow>
             (case sys_alloc s1 of
                (None, s2) \<Rightarrow> (0, w, s2)
              | (Some _, s2) \<Rightarrow>
                 (case (case params of None \<Rightarrow> ([], s2) | Some ps \<Rightarrow> push_all [] ps s2) of
                    (ps', s3) \<Rightarrow>
                      (a, w\<lparr>fw_affects := (fw_affects w)(a \<mapsto>
                           \<lparr>af_name = nm, af_lambda = lambda, parameter_forms = ps',
                            return_form = return_type, also_includes = []\<rparr>)\<rparr>, s3)))))"

definition ak_form_add_affect ::
  "form_world \<Rightarrow> nat \<Rightarrow> nat \<Rightarrow> ptr_sched \<Rightarrow> (int \<times> form_world \<times> ptr_sched) option" where
  "ak_form_add_affect w p a s =
     (if p = 0 \<or> a = 0 then Some (-1, w, s)
      else do {
        f \<leftarrow> fw_forms w p;
        (rc, as, s') \<leftarrow> push_item (affects f) a s;
        Some (rc, put_form w p (Form (form_name f) (form_data f) as), s')
      })"

text \<open>The loop over the affordances of a form: the first one with the name.\<close>

fun find_affect :: "form_world \<Rightarrow> u8 list \<Rightarrow> nat list \<Rightarrow> nat option" where
  "find_affect w name [] = Some 0"
| "find_affect w name (a # as) = do {
     af \<leftarrow> fw_affects w a;
     if af_name af = name then Some a else find_affect w name as
   }"

definition ak_form_get_affect :: "form_world \<Rightarrow> nat \<Rightarrow> u8 list option \<Rightarrow> nat option" where
  "ak_form_get_affect w p name =
     (if p = 0 then Some 0
      else (case name of None \<Rightarrow> Some 0
        | Some nm \<Rightarrow> do {
            f \<leftarrow> fw_forms w p;
            current \<leftarrow> resolve_named f;
            find_affect w nm (affects current)
          }))"

definition ak_form_has_affect :: "form_world \<Rightarrow> nat \<Rightarrow> u8 list option \<Rightarrow> bool option" where
  "ak_form_has_affect w p name = map_option (\<lambda>a. a \<noteq> 0) (ak_form_get_affect w p name)"

definition ak_affect_add_also ::
  "form_world \<Rightarrow> nat \<Rightarrow> u8 list option \<Rightarrow> ptr_sched \<Rightarrow> (int \<times> form_world \<times> ptr_sched) option" where
  "ak_affect_add_also w a name s =
     (if a = 0 then Some (-1, w, s)
      else (case name of None \<Rightarrow> Some (-1, w, s)
        | Some nm \<Rightarrow>
           (case sys_alloc s of
              (None, s1) \<Rightarrow> Some (-1, w, s1)
            | (Some _, s1) \<Rightarrow> do {
                af \<leftarrow> fw_affects w a;
                (rc, ns, s2) \<leftarrow> push_item (also_includes af) nm s1;
                Some (rc, w\<lparr>fw_affects := (fw_affects w)(a \<mapsto> af\<lparr>also_includes := ns\<rparr>)\<rparr>, s2)
              })))"

definition form_has_structural_affordance :: "ak_form \<Rightarrow> u8 list \<Rightarrow> bool option" where
  "form_has_structural_affordance f name = do {
     current \<leftarrow> resolve_named f;
     Some (case form_data current of
         Optional _ \<Rightarrow> name = lit ''is_none'' \<or> name = lit ''is_some''
       | Repeatable _ \<Rightarrow>
           name = lit ''append'' \<or> name = lit ''pop'' \<or> name = lit ''push''
           \<or> name = lit ''rest'' \<or> name = lit ''iterate''
       | List_of _ \<Rightarrow> name = lit ''index'' \<or> name = lit ''iterate'' \<or> name = lit ''length''
       | Map_of _ _ \<Rightarrow>
           name = lit ''get'' \<or> name = lit ''set'' \<or> name = lit ''has'' \<or> name = lit ''iterate''
       | Struct _ ns \<Rightarrow> name \<in> set ns
       | _ \<Rightarrow> False)
   }"

definition ak_form_has_affordance :: "form_world \<Rightarrow> nat \<Rightarrow> u8 list option \<Rightarrow> bool option" where
  "ak_form_has_affordance w p name =
     (if p = 0 then Some False
      else (case name of None \<Rightarrow> Some False
        | Some nm \<Rightarrow> do {
            has \<leftarrow> ak_form_has_affect w p name;
            if has then Some True
            else do { f \<leftarrow> fw_forms w p; form_has_structural_affordance f nm }
          }))"

text \<open>
  The loops that copy a name and push the copy; a failed copy or push drops the name. The
  two names of an optional form are dropped together when a copy fails.
\<close>

definition push_copy :: "u8 list list \<Rightarrow> u8 list \<Rightarrow> ptr_sched \<Rightarrow> u8 list list \<times> ptr_sched" where
  "push_copy out nm s =
     (case sys_alloc s of
        (None, s1) \<Rightarrow> (out, s1)
      | (Some _, s1) \<Rightarrow> (case push_item out nm s1 of None \<Rightarrow> (out, s1) | Some (_, out', s2) \<Rightarrow> (out', s2)))"

fun push_copies :: "u8 list list \<Rightarrow> u8 list list \<Rightarrow> ptr_sched \<Rightarrow> u8 list list \<times> ptr_sched" where
  "push_copies out [] s = (out, s)"
| "push_copies out (nm # ns) s = (case push_copy out nm s of (out', s') \<Rightarrow> push_copies out' ns s')"

fun push_affect_names ::
  "form_world \<Rightarrow> u8 list list \<Rightarrow> nat list \<Rightarrow> ptr_sched \<Rightarrow> (u8 list list \<times> ptr_sched) option" where
  "push_affect_names w out [] s = Some (out, s)"
| "push_affect_names w out (a # as) s = do {
     af \<leftarrow> fw_affects w a;
     (case push_copy out (af_name af) s of (out', s') \<Rightarrow> push_affect_names w out' as s')
   }"

definition push_both ::
  "u8 list list \<Rightarrow> u8 list \<Rightarrow> u8 list \<Rightarrow> ptr_sched \<Rightarrow> u8 list list \<times> ptr_sched" where
  "push_both out n1 n2 s =
     (case sys_alloc s of (r1, s1) \<Rightarrow>
        case sys_alloc s1 of (r2, s2) \<Rightarrow>
          if r1 \<noteq> None \<and> r2 \<noteq> None then push_all out [n1, n2] s2 else (out, s2))"

definition ak_form_get_affordances ::
  "form_world \<Rightarrow> nat \<Rightarrow> ptr_sched \<Rightarrow> (u8 list list \<times> ptr_sched) option" where
  "ak_form_get_affordances w p s =
     (if p = 0 then Some ([], s)
      else do {
        f \<leftarrow> fw_forms w p;
        current \<leftarrow> resolve_named f;
        (out, s1) \<leftarrow> push_affect_names w [] (affects current) s;
        Some (case form_data current of
            Optional _ \<Rightarrow> push_both out (lit ''is_none'') (lit ''is_some'') s1
          | Repeatable _ \<Rightarrow>
              push_copies out (map lit [''append'', ''pop'', ''push'', ''rest'', ''iterate'']) s1
          | List_of _ \<Rightarrow> push_copies out (map lit [''index'', ''iterate'', ''length'']) s1
          | Map_of _ _ \<Rightarrow> push_copies out (map lit [''get'', ''set'', ''has'', ''iterate'']) s1
          | Struct _ ns \<Rightarrow> push_copies out ns s1
          | _ \<Rightarrow> (out, s1))
      })"

subsection \<open>The table of primitive forms\<close>

record root_form_ctx =
  root_ctx :: nat

definition ak_root_form_ctx_new ::
  "form_world \<Rightarrow> ptr_sched \<Rightarrow> root_form_ctx option \<times> form_world \<times> ptr_sched" where
  "ak_root_form_ctx_new w s =
     (case sys_alloc s of
        (None, s1) \<Rightarrow> (None, w, s1)
      | (Some _, s1) \<Rightarrow>
         (case ak_context_new (fw_contexts w) s1 of
            (None, st, s2) \<Rightarrow> (None, w\<lparr>fw_contexts := st\<rparr>, s2)
          | (Some c, st, s2) \<Rightarrow> (Some \<lparr>root_ctx = c\<rparr>, w\<lparr>fw_contexts := st\<rparr>, s2)))"

text \<open>The loop that frees the form of every key of the table.\<close>

partial_function (option) free_bound_forms ::
  "nat map_base \<Rightarrow> map_iter \<Rightarrow> form_world \<Rightarrow> form_world option" where
  "free_bound_forms m it w =
     (case map_next m it of None \<Rightarrow> None
      | Some (key, it') \<Rightarrow>
         (case key of None \<Rightarrow> Some w
          | Some k \<Rightarrow>
             (case map_get m k of None \<Rightarrow> None
              | Some v \<Rightarrow>
                 (case v of None \<Rightarrow> free_bound_forms m it' w
                  | Some p \<Rightarrow>
                     (case ak_form_free w p of None \<Rightarrow> None
                      | Some w' \<Rightarrow> free_bound_forms m it' w')))))"

declare free_bound_forms.simps [code]

definition ak_root_form_ctx_free :: "form_world \<Rightarrow> root_form_ctx option \<Rightarrow> form_world option" where
  "ak_root_form_ctx_free w root =
     (case root of None \<Rightarrow> Some w
      | Some r \<Rightarrow>
         if root_ctx r = 0 then Some w
         else do {
           c \<leftarrow> fw_contexts w (root_ctx r);
           w' \<leftarrow> free_bound_forms (ctx_data c) map_iter_new w;
           st \<leftarrow> ak_context_free (fw_contexts w') (Some (root_ctx r));
           Some (w'\<lparr>fw_contexts := st\<rparr>)
         })"

definition root_form_ctx_get_or_create ::
  "form_world \<Rightarrow> root_form_ctx option \<Rightarrow> u8 list \<Rightarrow> ak_form_primitive_type \<Rightarrow> ptr_sched
   \<Rightarrow> (nat \<times> form_world \<times> ptr_sched) option" where
  "root_form_ctx_get_or_create w root name t s =
     (case root of None \<Rightarrow> Some (0, w, s)
      | Some r \<Rightarrow>
         if root_ctx r = 0 then Some (0, w, s)
         else do {
           p \<leftarrow> ak_form_lookup_local w (root_ctx r) (Some name);
           if p \<noteq> 0 then Some (p, w, s)
           else (case ak_form_new_primitive w t s of (q, w1, s1) \<Rightarrow>
             if q = 0 then Some (0, w1, s1)
             else do {
               (rc, w2, s2) \<leftarrow> ak_form_register w1 (root_ctx r) (Some name) q s1;
               if rc \<noteq> 0 then do { w3 \<leftarrow> ak_form_free w2 q; Some (0, w3, s2) }
               else Some (q, w2, s2)
             })
         })"

definition ak_root_form_ctx_get_bool ::
  "form_world \<Rightarrow> root_form_ctx option \<Rightarrow> ptr_sched \<Rightarrow> (nat \<times> form_world \<times> ptr_sched) option" where
  "ak_root_form_ctx_get_bool w root s =
     root_form_ctx_get_or_create w root (lit ''bool'') AK_FORM_PRIMITIVE_U8 s"

definition ak_root_form_ctx_get_u8 ::
  "form_world \<Rightarrow> root_form_ctx option \<Rightarrow> ptr_sched \<Rightarrow> (nat \<times> form_world \<times> ptr_sched) option" where
  "ak_root_form_ctx_get_u8 w root s =
     root_form_ctx_get_or_create w root (lit ''u8'') AK_FORM_PRIMITIVE_U8 s"

definition ak_root_form_ctx_get_u16 ::
  "form_world \<Rightarrow> root_form_ctx option \<Rightarrow> ptr_sched \<Rightarrow> (nat \<times> form_world \<times> ptr_sched) option" where
  "ak_root_form_ctx_get_u16 w root s =
     root_form_ctx_get_or_create w root (lit ''u16'') AK_FORM_PRIMITIVE_U16 s"

definition ak_root_form_ctx_get_u32 ::
  "form_world \<Rightarrow> root_form_ctx option \<Rightarrow> ptr_sched \<Rightarrow> (nat \<times> form_world \<times> ptr_sched) option" where
  "ak_root_form_ctx_get_u32 w root s =
     root_form_ctx_get_or_create w root (lit ''u32'') AK_FORM_PRIMITIVE_U32 s"

definition ak_root_form_ctx_get_u64 ::
  "form_world \<Rightarrow> root_form_ctx option \<Rightarrow> ptr_sched \<Rightarrow> (nat \<times> form_world \<times> ptr_sched) option" where
  "ak_root_form_ctx_get_u64 w root s =
     root_form_ctx_get_or_create w root (lit ''u64'') AK_FORM_PRIMITIVE_U64 s"

definition ak_root_form_ctx_get_i8 ::
  "form_world \<Rightarrow> root_form_ctx option \<Rightarrow> ptr_sched \<Rightarrow> (nat \<times> form_world \<times> ptr_sched) option" where
  "ak_root_form_ctx_get_i8 w root s =
     root_form_ctx_get_or_create w root (lit ''i8'') AK_FORM_PRIMITIVE_I8 s"

definition ak_root_form_ctx_get_i16 ::
  "form_world \<Rightarrow> root_form_ctx option \<Rightarrow> ptr_sched \<Rightarrow> (nat \<times> form_world \<times> ptr_sched) option" where
  "ak_root_form_ctx_get_i16 w root s =
     root_form_ctx_get_or_create w root (lit ''i16'') AK_FORM_PRIMITIVE_I16 s"

definition ak_root_form_ctx_get_i32 ::
  "form_world \<Rightarrow> root_form_ctx option \<Rightarrow> ptr_sched \<Rightarrow> (nat \<times> form_world \<times> ptr_sched) option" where
  "ak_root_form_ctx_get_i32 w root s =
     root_form_ctx_get_or_create w root (lit ''i32'') AK_FORM_PRIMITIVE_I32 s"

definition ak_root_form_ctx_get_i64 ::
  "form_world \<Rightarrow> root_form_ctx option \<Rightarrow> ptr_sched \<Rightarrow> (nat \<times> form_world \<times> ptr_sched) option" where
  "ak_root_form_ctx_get_i64 w root s =
     root_form_ctx_get_or_create w root (lit ''i64'') AK_FORM_PRIMITIVE_I64 s"

definition ak_root_form_ctx_get_f32 ::
  "form_world \<Rightarrow> root_form_ctx option \<Rightarrow> ptr_sched \<Rightarrow> (nat \<times> form_world \<times> ptr_sched) option" where
  "ak_root_form_ctx_get_f32 w root s =
     root_form_ctx_get_or_create w root (lit ''f32'') AK_FORM_PRIMITIVE_F32 s"

definition ak_root_form_ctx_get_f64 ::
  "form_world \<Rightarrow> root_form_ctx option \<Rightarrow> ptr_sched \<Rightarrow> (nat \<times> form_world \<times> ptr_sched) option" where
  "ak_root_form_ctx_get_f64 w root s =
     root_form_ctx_get_or_create w root (lit ''f64'') AK_FORM_PRIMITIVE_F64 s"

subsection \<open>Instances and the built-in operations\<close>

record ak_optional_instance =
  oi_form :: nat
  is_present :: int
  oi_value :: nat

record ak_repeatable_instance =
  ri_form :: nat
  ri_items :: "nat list_base"

record ak_list_instance =
  li_form :: nat
  li_items :: "nat list_base"

record ak_map_instance =
  mi_form :: nat
  mi_items :: "nat map_base"

text \<open>What a built-in operation leaves in the caller's result cell.\<close>

datatype builtin_value =
    Int_value int | Unsigned_value nat | Pointer_value nat | Instance_value ak_repeatable_instance

text \<open>
  The functions take the captured context as a flag: whether there is a result cell. Without
  one, the write through NULL has no defined result, and so has the write to a number that
  could not be allocated.
\<close>

definition builtin_is_none_fn ::
  "bool \<Rightarrow> ak_optional_instance \<Rightarrow> ptr_sched \<Rightarrow> (builtin_value \<times> ptr_sched) option" where
  "builtin_is_none_fn captured inst s =
     (case sys_alloc s of
        (None, _) \<Rightarrow> None
      | (Some _, s') \<Rightarrow>
          if captured then Some (Int_value (if is_present inst = 0 then 1 else 0), s') else None)"

definition builtin_is_some_fn ::
  "bool \<Rightarrow> ak_optional_instance \<Rightarrow> ptr_sched \<Rightarrow> (builtin_value \<times> ptr_sched) option" where
  "builtin_is_some_fn captured inst s =
     (case sys_alloc s of
        (None, _) \<Rightarrow> None
      | (Some _, s') \<Rightarrow> if captured then Some (Int_value (is_present inst), s') else None)"

definition builtin_append_fn ::
  "ak_repeatable_instance \<Rightarrow> nat \<Rightarrow> ptr_sched \<Rightarrow> (ak_repeatable_instance \<times> ptr_sched) option" where
  "builtin_append_fn inst value s = do {
     (_, l, s') \<leftarrow> list_push (ri_items inst) value s;
     Some (inst\<lparr>ri_items := l\<rparr>, s')
   }"

definition builtin_pop_fn ::
  "bool \<Rightarrow> ak_repeatable_instance \<Rightarrow> (builtin_value \<times> ak_repeatable_instance) option" where
  "builtin_pop_fn captured inst = do {
     (v, inst') \<leftarrow>
       (if list_count (ri_items inst) > 0 then do {
          (item, l) \<leftarrow> list_pop (ri_items inst);
          v \<leftarrow> (case item of None \<Rightarrow> Some 0 | Some a \<Rightarrow> cells l a);
          Some (v, inst\<lparr>ri_items := l\<rparr>)
        }
        else Some (0, inst));
     if captured then Some (Pointer_value v, inst') else None
   }"

definition builtin_push_fn ::
  "ak_repeatable_instance \<Rightarrow> nat \<Rightarrow> ptr_sched \<Rightarrow> (ak_repeatable_instance \<times> ptr_sched) option" where
  "builtin_push_fn inst value s = do {
     (_, l, s') \<leftarrow> list_push (ri_items inst) value s;
     Some (inst\<lparr>ri_items := l\<rparr>, s')
   }"

text \<open>\<open>for (i = start; i < count; i++)\<close>; the first argument counts the turns left.\<close>

fun copy_rest ::
  "nat \<Rightarrow> nat list_base \<Rightarrow> nat \<Rightarrow> nat list_base \<Rightarrow> ptr_sched \<Rightarrow> (nat list_base \<times> ptr_sched) option" where
  "copy_rest 0 l i out s = Some (out, s)"
| "copy_rest (Suc n) l i out s = do {
     item \<leftarrow> list_get l i;
     (case item of None \<Rightarrow> copy_rest n l (i + 1) out s
      | Some a \<Rightarrow> do {
          v \<leftarrow> cells l a;
          (_, out', s') \<leftarrow> list_push out v s;
          copy_rest n l (i + 1) out' s'
        })
   }"

definition builtin_rest_fn ::
  "bool \<Rightarrow> ak_repeatable_instance \<Rightarrow> ptr_sched \<Rightarrow> (builtin_value \<times> ptr_sched) option" where
  "builtin_rest_fn captured inst s =
     (case sys_alloc s of
        (None, _) \<Rightarrow> None
      | (Some _, s1) \<Rightarrow> do {
          (l, s2) \<leftarrow> copy_rest (list_count (ri_items inst) - 1) (ri_items inst) 1 (list_init 8) s1;
          if captured then Some (Instance_value \<lparr>ri_form = ri_form inst, ri_items = l\<rparr>, s2)
          else None
        })"

definition builtin_list_index_fn :: "bool \<Rightarrow> ak_list_instance \<Rightarrow> nat \<Rightarrow> builtin_value option" where
  "builtin_list_index_fn captured inst index = do {
     v \<leftarrow> (if index < list_count (li_items inst) then do {
            item \<leftarrow> list_get (li_items inst) index;
            (case item of None \<Rightarrow> Some 0 | Some a \<Rightarrow> cells (li_items inst) a)
          }
          else Some 0);
     if captured then Some (Pointer_value v) else None
   }"

definition builtin_list_length_fn ::
  "bool \<Rightarrow> ak_list_instance \<Rightarrow> ptr_sched \<Rightarrow> (builtin_value \<times> ptr_sched) option" where
  "builtin_list_length_fn captured inst s =
     (case sys_alloc s of
        (None, _) \<Rightarrow> None
      | (Some _, s') \<Rightarrow>
          if captured then Some (Unsigned_value (list_count (li_items inst)), s') else None)"

text \<open>The eight bytes of a pointer, which are the key of a map instance.\<close>

definition ptr_bytes :: "nat \<Rightarrow> u8 list" where
  "ptr_bytes p = map (\<lambda>i. word_of_nat (p div 256 ^ i)) [0..<8]"

definition builtin_map_get_fn :: "bool \<Rightarrow> ak_map_instance \<Rightarrow> nat \<Rightarrow> builtin_value option" where
  "builtin_map_get_fn captured inst key = do {
     value \<leftarrow> map_get (mi_items inst) (ptr_bytes key);
     if captured then Some (Pointer_value (case value of None \<Rightarrow> 0 | Some v \<Rightarrow> v)) else None
   }"

definition builtin_map_set_fn ::
  "ak_map_instance \<Rightarrow> nat \<Rightarrow> nat \<Rightarrow> ptr_sched \<Rightarrow> (ak_map_instance \<times> ptr_sched) option" where
  "builtin_map_set_fn inst key value s = do {
     (_, m, s') \<leftarrow> map_set (mi_items inst) (ptr_bytes key) value s;
     Some (inst\<lparr>mi_items := m\<rparr>, s')
   }"

definition builtin_map_has_fn ::
  "bool \<Rightarrow> ak_map_instance \<Rightarrow> nat \<Rightarrow> ptr_sched \<Rightarrow> (builtin_value \<times> ptr_sched) option" where
  "builtin_map_has_fn captured inst key s = do {
     value \<leftarrow> map_get (mi_items inst) (ptr_bytes key);
     (case sys_alloc s of
        (None, _) \<Rightarrow> None
      | (Some _, s') \<Rightarrow>
          if captured then Some (Int_value (if value = None then 0 else 1), s') else None)
   }"

definition ak_optional_instance_new ::
  "nat \<Rightarrow> ptr_sched \<Rightarrow> ak_optional_instance option \<times> ptr_sched" where
  "ak_optional_instance_new f s =
     (case sys_alloc s of (r, s') \<Rightarrow>
        (if r = None then None else Some \<lparr>oi_form = f, is_present = 0, oi_value = 0\<rparr>, s'))"

definition ak_optional_instance_set ::
  "ak_optional_instance option \<Rightarrow> nat \<Rightarrow> ak_optional_instance option" where
  "ak_optional_instance_set inst value =
     map_option (\<lambda>i. i\<lparr>is_present := 1, oi_value := value\<rparr>) inst"

definition ak_optional_instance_get :: "ak_optional_instance option \<Rightarrow> nat" where
  "ak_optional_instance_get inst =
     (case inst of None \<Rightarrow> 0 | Some i \<Rightarrow> if is_present i = 0 then 0 else oi_value i)"

definition ak_repeatable_instance_new ::
  "nat \<Rightarrow> ptr_sched \<Rightarrow> ak_repeatable_instance option \<times> ptr_sched" where
  "ak_repeatable_instance_new f s =
     (case sys_alloc s of (r, s') \<Rightarrow>
        (if r = None then None else Some \<lparr>ri_form = f, ri_items = list_init 8\<rparr>, s'))"

definition ak_repeatable_instance_free :: "ak_repeatable_instance option \<Rightarrow> nat list_base option option" where
  "ak_repeatable_instance_free inst =
     (case inst of None \<Rightarrow> Some None | Some i \<Rightarrow> map_option Some (list_deinit (ri_items i)))"

definition ak_list_instance_new :: "nat \<Rightarrow> ptr_sched \<Rightarrow> ak_list_instance option \<times> ptr_sched" where
  "ak_list_instance_new f s =
     (case sys_alloc s of (r, s') \<Rightarrow>
        (if r = None then None else Some \<lparr>li_form = f, li_items = list_init 8\<rparr>, s'))"

definition ak_list_instance_free :: "ak_list_instance option \<Rightarrow> nat list_base option option" where
  "ak_list_instance_free inst =
     (case inst of None \<Rightarrow> Some None | Some i \<Rightarrow> map_option Some (list_deinit (li_items i)))"

definition ak_map_instance_new :: "nat \<Rightarrow> ptr_sched \<Rightarrow> ak_map_instance option \<times> ptr_sched" where
  "ak_map_instance_new f s =
     (case sys_alloc s of (r, s') \<Rightarrow>
        (if r = None then None
         else Some \<lparr>mi_form = f, mi_items = map_init_generic 8 map_hash_u64 map_cmp_mem\<rparr>, s'))"

definition ak_map_instance_free :: "ak_map_instance option \<Rightarrow> nat map_node list option option" where
  "ak_map_instance_free inst =
     (case inst of None \<Rightarrow> Some None | Some i \<Rightarrow> map_option Some (map_deinit (mi_items i)))"

text \<open>
  \<open>ak_affect_new(name, ak_builtin_...(), NULL, NULL)\<close>, for the names and function pointers of
  a list, and the additions that follow. The built-in functions are numbered in the order of
  the source, from 1; each lambda captures NULL.
\<close>

fun new_builtins ::
  "form_world \<Rightarrow> (string \<times> nat) list \<Rightarrow> ptr_sched \<Rightarrow> nat list \<times> form_world \<times> ptr_sched" where
  "new_builtins w [] s = ([], w, s)"
| "new_builtins w ((name, fn) # rest) s =
     (case ak_lambda_new (fw_lambdas w) fn 0 0 s of (l, ls, s1) \<Rightarrow>
        case ak_affect_new (w\<lparr>fw_lambdas := ls\<rparr>) (Some (lit name)) l None 0 s1 of (a, w1, s2) \<Rightarrow>
          case new_builtins w1 rest s2 of (as, w2, s3) \<Rightarrow> (a # as, w2, s3))"

fun add_affects :: "form_world \<Rightarrow> nat \<Rightarrow> nat list \<Rightarrow> ptr_sched \<Rightarrow> (form_world \<times> ptr_sched) option" where
  "add_affects w p [] s = Some (w, s)"
| "add_affects w p (a # as) s = do {
     (_, w', s') \<leftarrow> ak_form_add_affect w p a s;
     add_affects w' p as s'
   }"

definition builtin_names :: "form_data \<Rightarrow> (string \<times> nat) list" where
  "builtin_names d =
     (case d of
        Optional _ \<Rightarrow> [(''is_none'', 1), (''is_some'', 2)]
      | Repeatable _ \<Rightarrow> [(''append'', 3), (''pop'', 4), (''push'', 5), (''rest'', 6)]
      | List_of _ \<Rightarrow> [(''index'', 7), (''length'', 8)]
      | Map_of _ _ \<Rightarrow> [(''get'', 9), (''set'', 10), (''has'', 11)]
      | _ \<Rightarrow> [])"

definition ak_form_attach_builtin_affects ::
  "form_world \<Rightarrow> nat \<Rightarrow> ptr_sched \<Rightarrow> (form_world \<times> ptr_sched) option" where
  "ak_form_attach_builtin_affects w p s =
     (if p = 0 then Some (w, s)
      else do {
        f \<leftarrow> fw_forms w p;
        current \<leftarrow> resolve_named f;
        (case new_builtins w (builtin_names (form_data current)) s of (as, w1, s1) \<Rightarrow>
           add_affects w1 p as s1)
      })"

text \<open>The constructors of the single primitives, and of the lambdas of the built-in functions.\<close>

definition ak_primitive_bool :: "form_world \<Rightarrow> ptr_sched \<Rightarrow> nat \<times> form_world \<times> ptr_sched" where
  "ak_primitive_bool w s = ak_form_new_primitive w AK_FORM_PRIMITIVE_U8 s"

definition ak_primitive_u8 :: "form_world \<Rightarrow> ptr_sched \<Rightarrow> nat \<times> form_world \<times> ptr_sched" where
  "ak_primitive_u8 w s = ak_form_new_primitive w AK_FORM_PRIMITIVE_U8 s"

definition ak_primitive_u16 :: "form_world \<Rightarrow> ptr_sched \<Rightarrow> nat \<times> form_world \<times> ptr_sched" where
  "ak_primitive_u16 w s = ak_form_new_primitive w AK_FORM_PRIMITIVE_U16 s"

definition ak_primitive_u32 :: "form_world \<Rightarrow> ptr_sched \<Rightarrow> nat \<times> form_world \<times> ptr_sched" where
  "ak_primitive_u32 w s = ak_form_new_primitive w AK_FORM_PRIMITIVE_U32 s"

definition ak_primitive_u64 :: "form_world \<Rightarrow> ptr_sched \<Rightarrow> nat \<times> form_world \<times> ptr_sched" where
  "ak_primitive_u64 w s = ak_form_new_primitive w AK_FORM_PRIMITIVE_U64 s"

definition ak_primitive_i8 :: "form_world \<Rightarrow> ptr_sched \<Rightarrow> nat \<times> form_world \<times> ptr_sched" where
  "ak_primitive_i8 w s = ak_form_new_primitive w AK_FORM_PRIMITIVE_I8 s"

definition ak_primitive_i16 :: "form_world \<Rightarrow> ptr_sched \<Rightarrow> nat \<times> form_world \<times> ptr_sched" where
  "ak_primitive_i16 w s = ak_form_new_primitive w AK_FORM_PRIMITIVE_I16 s"

definition ak_primitive_i32 :: "form_world \<Rightarrow> ptr_sched \<Rightarrow> nat \<times> form_world \<times> ptr_sched" where
  "ak_primitive_i32 w s = ak_form_new_primitive w AK_FORM_PRIMITIVE_I32 s"

definition ak_primitive_i64 :: "form_world \<Rightarrow> ptr_sched \<Rightarrow> nat \<times> form_world \<times> ptr_sched" where
  "ak_primitive_i64 w s = ak_form_new_primitive w AK_FORM_PRIMITIVE_I64 s"

definition ak_primitive_f32 :: "form_world \<Rightarrow> ptr_sched \<Rightarrow> nat \<times> form_world \<times> ptr_sched" where
  "ak_primitive_f32 w s = ak_form_new_primitive w AK_FORM_PRIMITIVE_F32 s"

definition ak_primitive_f64 :: "form_world \<Rightarrow> ptr_sched \<Rightarrow> nat \<times> form_world \<times> ptr_sched" where
  "ak_primitive_f64 w s = ak_form_new_primitive w AK_FORM_PRIMITIVE_F64 s"

definition ak_builtin_is_none :: "lambda_world \<Rightarrow> ptr_sched \<Rightarrow> nat \<times> lambda_world \<times> ptr_sched" where
  "ak_builtin_is_none w s = ak_lambda_new w 1 0 0 s"

definition ak_builtin_is_some :: "lambda_world \<Rightarrow> ptr_sched \<Rightarrow> nat \<times> lambda_world \<times> ptr_sched" where
  "ak_builtin_is_some w s = ak_lambda_new w 2 0 0 s"

definition ak_builtin_append :: "lambda_world \<Rightarrow> ptr_sched \<Rightarrow> nat \<times> lambda_world \<times> ptr_sched" where
  "ak_builtin_append w s = ak_lambda_new w 3 0 0 s"

definition ak_builtin_pop :: "lambda_world \<Rightarrow> ptr_sched \<Rightarrow> nat \<times> lambda_world \<times> ptr_sched" where
  "ak_builtin_pop w s = ak_lambda_new w 4 0 0 s"

definition ak_builtin_push :: "lambda_world \<Rightarrow> ptr_sched \<Rightarrow> nat \<times> lambda_world \<times> ptr_sched" where
  "ak_builtin_push w s = ak_lambda_new w 5 0 0 s"

definition ak_builtin_rest :: "lambda_world \<Rightarrow> ptr_sched \<Rightarrow> nat \<times> lambda_world \<times> ptr_sched" where
  "ak_builtin_rest w s = ak_lambda_new w 6 0 0 s"

definition ak_builtin_list_index :: "lambda_world \<Rightarrow> ptr_sched \<Rightarrow> nat \<times> lambda_world \<times> ptr_sched" where
  "ak_builtin_list_index w s = ak_lambda_new w 7 0 0 s"

definition ak_builtin_list_length :: "lambda_world \<Rightarrow> ptr_sched \<Rightarrow> nat \<times> lambda_world \<times> ptr_sched" where
  "ak_builtin_list_length w s = ak_lambda_new w 8 0 0 s"

definition ak_builtin_map_get :: "lambda_world \<Rightarrow> ptr_sched \<Rightarrow> nat \<times> lambda_world \<times> ptr_sched" where
  "ak_builtin_map_get w s = ak_lambda_new w 9 0 0 s"

definition ak_builtin_map_set :: "lambda_world \<Rightarrow> ptr_sched \<Rightarrow> nat \<times> lambda_world \<times> ptr_sched" where
  "ak_builtin_map_set w s = ak_lambda_new w 10 0 0 s"

definition ak_builtin_map_has :: "lambda_world \<Rightarrow> ptr_sched \<Rightarrow> nat \<times> lambda_world \<times> ptr_sched" where
  "ak_builtin_map_has w s = ak_lambda_new w 11 0 0 s"
section \<open>Lists by their contents\<close>

interpretation contents: sequence "\<lambda>_. True" "\<lambda>xs. xs" "[]" push_item n
  by unfold_locales (auto simp: push_item_def split: prod.splits option.splits)

lemma sys_alloc_granted:
  assumes "grants (Suc n) s"
  obtains g where "sys_alloc s = (Some g, drop 1 s)" "grants n (drop 1 s)"
proof -
  obtain g s' where s: "s = Some g # s'"
    using grants_1 [OF grants_mono [OF assms, of 1]] by auto
  then show thesis using that [of g] assms by (simp add: grants_def)
qed

lemma push_item_granted: "grants (Suc n) s \<Longrightarrow> push_item xs v s = Some (0, xs @ [v], drop 1 s)"
  by (erule sys_alloc_granted) (simp add: push_item_def)

lemma push_all_granted: "grants (length vs) s \<Longrightarrow> push_all xs vs s = (xs @ vs, drop (length vs) s)"
proof (induction vs arbitrary: xs s)
  case (Cons v vs)
  then have "grants (length vs) (drop 1 s)" by (auto elim: sys_alloc_granted)
  from Cons.IH [OF this, of "xs @ [v]"] show ?case
    using push_item_granted [of "length vs" s xs v] Cons.prems by (simp add: drop_drop)
qed simp

lemma push_all_subset: "set (fst (push_all xs vs s)) \<subseteq> set xs \<union> set vs"
proof (induction vs arbitrary: xs s)
  case (Cons v vs)
  then show ?case
    by (fastforce simp: push_item_def split: prod.splits option.splits)
qed simp

section \<open>Shapes and structural equality\<close>

text \<open>
  The shape of a form leaves out names, affordances, aliases and the names of fields, of
  which only the number counts.
\<close>

datatype shape =
    Sh_null | Sh_primitive ak_form_primitive_type | Sh_compound "shape list" | Sh_optional shape
  | Sh_repeatable shape | Sh_struct shape nat | Sh_list shape | Sh_map ak_form_primitive_type shape

fun shape_of :: "ak_form \<Rightarrow> shape"
  and shape_data :: "form_data \<Rightarrow> shape"
  and shape_opt :: "ak_form option \<Rightarrow> shape" where
  "shape_of (Form nm d as) = shape_data d"
| "shape_data (Primitive t) = Sh_primitive t"
| "shape_data (Compound fs) = Sh_compound (map shape_of fs)"
| "shape_data (Optional f) = Sh_optional (shape_opt f)"
| "shape_data (Repeatable f) = Sh_repeatable (shape_opt f)"
| "shape_data (Struct f ns) = Sh_struct (shape_opt f) (length ns)"
| "shape_data (List_of f) = Sh_list (shape_opt f)"
| "shape_data (Map_of t f) = Sh_map t (shape_opt f)"
| "shape_data (Named f) = shape_opt f"
| "shape_opt None = Sh_null"
| "shape_opt (Some f) = shape_of f"

text \<open>A form without a NULL inside in which no alias names an alias.\<close>

fun solid :: "ak_form \<Rightarrow> bool"
  and solid_data :: "form_data \<Rightarrow> bool"
  and solid_opt :: "ak_form option \<Rightarrow> bool" where
  "solid (Form nm d as) = solid_data d"
| "solid_data (Primitive t) = True"
| "solid_data (Compound fs) = list_all solid fs"
| "solid_data (Optional f) = solid_opt f"
| "solid_data (Repeatable f) = solid_opt f"
| "solid_data (Struct f ns) = solid_opt f"
| "solid_data (List_of f) = solid_opt f"
| "solid_data (Map_of t f) = solid_opt f"
| "solid_data (Named f) =
     (solid_opt f \<and> (case f of Some g \<Rightarrow> kind_of (form_data g) \<noteq> AK_FORM_NAMED | None \<Rightarrow> False))"
| "solid_opt None = False"
| "solid_opt (Some f) = solid f"

lemma solid_form_data: "solid f = solid_data (form_data f)" "shape_of f = shape_data (form_data f)"
  by (cases f; simp)+

lemma resolve_solid:
  assumes "solid f"
  obtains nm d as where "resolve_named f = Some (Form nm d as)" "solid_data d"
    "kind_of d \<noteq> AK_FORM_NAMED" "shape_data d = shape_of f"
proof (cases "kind_of (form_data f) = AK_FORM_NAMED")
  case True
  then obtain nm g as where f: "f = Form nm (Named g) as" by (cases f; cases "form_data f") auto
  then obtain h where h: "g = Some h" "solid h" "kind_of (form_data h) \<noteq> AK_FORM_NAMED"
    using assms by (auto split: option.splits)
  then show thesis
    using that [of "form_name h" "form_data h" "affects h"] f by (simp add: solid_form_data)
next
  case False
  then have "resolve_named f = Some f"
    by (cases f rule: resolve_named.cases) auto
  then show thesis
    using that [of "form_name f" "form_data f" "affects f"] assms False by (simp add: solid_form_data)
qed

lemma shape_kind:
  "shape_data d1 = shape_data d2 \<Longrightarrow> kind_of d1 \<noteq> AK_FORM_NAMED \<Longrightarrow> kind_of d2 \<noteq> AK_FORM_NAMED \<Longrightarrow>
   kind_of d1 = kind_of d2"
  by (cases d1; cases d2) auto

lemma equal_shapes:
  "solid_opt f1 \<Longrightarrow> solid_opt f2 \<Longrightarrow> forms_structurally_equal f1 f2 = Some (shape_opt f1 = shape_opt f2)"
  "solid_data d1 \<Longrightarrow> solid_data d2 \<Longrightarrow> kind_of d1 = kind_of d2 \<Longrightarrow> kind_of d1 \<noteq> AK_FORM_NAMED \<Longrightarrow>
    data_equal d1 d2 = Some (shape_data d1 = shape_data d2)"
  "list_all solid fs1 \<Longrightarrow> list_all solid fs2 \<Longrightarrow> length fs1 = length fs2 \<Longrightarrow>
    parts_equal fs1 fs2 = Some (map shape_of fs1 = map shape_of fs2)"
proof (induction f1 f2 and d1 d2 and fs1 fs2
    rule: forms_structurally_equal_data_equal_parts_equal.induct)
  case (1 f1 f2)
  then obtain g1 g2 where g: "f1 = Some g1" "f2 = Some g2" "solid g1" "solid g2"
    by (cases f1; cases f2) auto
  obtain nm1 d1 as1 where d1: "resolve_named g1 = Some (Form nm1 d1 as1)" "solid_data d1"
      "kind_of d1 \<noteq> AK_FORM_NAMED" "shape_data d1 = shape_of g1" by (rule resolve_solid [OF g(3)])
  obtain nm2 d2 as2 where d2: "resolve_named g2 = Some (Form nm2 d2 as2)" "solid_data d2"
      "kind_of d2 \<noteq> AK_FORM_NAMED" "shape_data d2 = shape_of g2" by (rule resolve_solid [OF g(4)])
  show ?case
  proof (cases "kind_of d1 = kind_of d2")
    case True
    have "data_equal d1 d2 = Some (shape_data d1 = shape_data d2)"
      using "1.IH" [OF g(1,2) d1(1) refl d2(1) refl] True d1 d2 by simp
    then show ?thesis
      using g d1 d2 True by (subst forms_structurally_equal.simps) simp
  next
    case False
    then have "shape_data d1 \<noteq> shape_data d2" using shape_kind [of d1 d2] d1(3) d2(3) by blast
    then show ?thesis
      using g d1 d2 False by (subst forms_structurally_equal.simps) simp
  qed
next
  case (2 d1 d2)
  show ?case
    using "2.prems" "2.IH" by (subst data_equal.simps) (cases d1; cases d2; auto dest: map_eq_imp_length_eq)
next
  case (3 fs1 fs2)
  show ?case
    using "3.prems" "3.IH" by (subst parts_equal.simps) (cases fs1; cases fs2; auto)
qed

section \<open>Cloning\<close>

text \<open>The number of allocations a clone makes when none of them fails.\<close>

fun clone_cost :: "ak_form option \<Rightarrow> nat"
  and data_cost :: "form_data \<Rightarrow> nat"
  and parts_cost :: "ak_form list \<Rightarrow> nat" where
  "clone_cost None = 0"
| "clone_cost (Some (Form nm d as)) = 1 + (if nm = None then 0 else 1) + data_cost d + length as"
| "data_cost (Primitive t) = 0"
| "data_cost (Compound fs) = parts_cost fs"
| "data_cost (Optional f) = clone_cost f"
| "data_cost (Repeatable f) = clone_cost f"
| "data_cost (Struct f ns) = clone_cost f + length ns"
| "data_cost (List_of f) = clone_cost f"
| "data_cost (Map_of t f) = clone_cost f"
| "data_cost (Named f) = clone_cost f"
| "parts_cost [] = 0"
| "parts_cost (f # fs) = clone_cost (Some f) + 1 + parts_cost fs"

lemma grants_drop: "grants (m + n) s \<Longrightarrow> grants n (drop m s)"
  by (erule grants_uses) (auto simp: uses_def)

lemma grants_le: "grants (m + n) s \<Longrightarrow> grants m s"
  by (erule grants_mono) simp

lemma copy_name_granted:
  assumes "grants ((if nm = None then 0 else 1) + n) s"
  shows "copy_name nm s = (nm, drop (if nm = None then 0 else 1) s)"
proof (cases nm)
  case (Some cs)
  then have "grants (Suc n) s" using assms by simp
  then show ?thesis using Some by (auto simp: copy_name_def elim: sys_alloc_granted)
qed (simp add: copy_name_def)

lemma clone_granted:
  "grants (clone_cost f + n) s \<Longrightarrow> ak_form_clone f s = (f, drop (clone_cost f) s)"
  "grants (data_cost d + n) s \<Longrightarrow> clone_data d s = (d, drop (data_cost d) s)"
  "grants (parts_cost fs + n) s \<Longrightarrow> clone_parts acc fs s = (acc @ fs, drop (parts_cost fs) s)"
proof (induction f and d and fs arbitrary: n s and n s and n s acc
    rule: clone_cost_data_cost_parts_cost.induct)
  case (2 nm d as)
  let ?k = "if nm = None then 0 else 1"
  have g: "grants (Suc (?k + (data_cost d + (length as + n)))) s" using "2.prems" by (simp add: ac_simps)
  obtain x where x: "sys_alloc s = (Some x, drop 1 s)" "grants (?k + (data_cost d + (length as + n))) (drop 1 s)"
    by (rule sys_alloc_granted [OF g])
  note c = copy_name_granted [OF x(2)]
  have g2: "grants (data_cost d + (length as + n)) (drop ?k (drop 1 s))" by (rule grants_drop [OF x(2)])
  note d = "2.IH" [OF g2]
  have "grants (length as + n) (drop (data_cost d) (drop ?k (drop 1 s)))" by (rule grants_drop [OF g2])
  then have "grants (length as) (drop (data_cost d) (drop ?k (drop 1 s)))" by (rule grants_le)
  note p = push_all_granted [OF this, of "[]"]
  show ?case using x(1) c d p by (simp add: drop_drop ac_simps)
next
  case (7 f ns)
  have g: "grants (clone_cost f + (length ns + n)) s" using "7.prems" by (simp add: ac_simps)
  have "grants (length ns) (drop (clone_cost f) s)"
    using grants_le [OF grants_drop [OF g]] .
  from push_all_granted [OF this, of "[]"] show ?case
    using "7.IH" [OF g] by (simp add: drop_drop ac_simps)
next
  case (12 f fs)
  have g: "grants (clone_cost (Some f) + (Suc (parts_cost fs + n))) s" using "12.prems" by (simp add: ac_simps)
  have g1: "grants (Suc (parts_cost fs + n)) (drop (clone_cost (Some f)) s)" by (rule grants_drop [OF g])
  have "grants (parts_cost fs + n) (drop 1 (drop (clone_cost (Some f)) s))"
    using g1 by (rule sys_alloc_granted)
  from "12.IH"(2) [OF this, of "acc @ [f]"] show ?case
    using "12.IH"(1) [OF g] push_item_granted [OF g1, of acc f] by (simp add: drop_drop ac_simps)
qed simp_all

section \<open>Freeing\<close>

text \<open>The affordances of a tree, in the order in which they are freed.\<close>

fun tree_affects :: "ak_form option \<Rightarrow> nat list"
  and data_affects :: "form_data \<Rightarrow> nat list"
  and parts_affects :: "ak_form list \<Rightarrow> nat list" where
  "tree_affects None = []"
| "tree_affects (Some (Form nm d as)) = data_affects d @ as"
| "data_affects (Primitive t) = []"
| "data_affects (Compound fs) = parts_affects fs"
| "data_affects (Optional f) = tree_affects f"
| "data_affects (Repeatable f) = tree_affects f"
| "data_affects (Struct f ns) = tree_affects f"
| "data_affects (List_of f) = tree_affects f"
| "data_affects (Map_of t f) = tree_affects f"
| "data_affects (Named f) = tree_affects f"
| "parts_affects [] = []"
| "parts_affects (f # fs) = tree_affects (Some f) @ parts_affects fs"

lemma free_affects_append:
  "free_affects w (as @ bs) = Option.bind (free_affects w as) (\<lambda>w'. free_affects w' bs)"
  by (induction as arbitrary: w) (auto simp: bind_assoc)

lemma free_tree_affects:
  "free_tree w f = free_affects w (tree_affects f)"
  "free_data w d = free_affects w (data_affects d)"
  "free_parts w fs = free_affects w (parts_affects fs)"
  by (induction f and d and fs arbitrary: w and w and w rule: tree_affects_data_affects_parts_affects.induct)
    (auto simp: free_affects_append)

text \<open>The lambda of an affordance, and what a list of affordances needs to be freed.\<close>

definition lambda_of :: "form_world \<Rightarrow> nat \<Rightarrow> nat" where
  "lambda_of w a = (case fw_affects w a of None \<Rightarrow> 0 | Some af \<Rightarrow> af_lambda af)"

definition releasable :: "form_world \<Rightarrow> nat list \<Rightarrow> bool" where
  "releasable w as \<longleftrightarrow>
     (let bs = filter (\<lambda>a. a \<noteq> 0) as; ls = filter (\<lambda>l. l \<noteq> 0) (map (lambda_of w) bs) in
      distinct bs \<and> set bs \<subseteq> dom (fw_affects w) \<and> distinct ls \<and> set ls \<subseteq> dom (lw_lambdas (fw_lambdas w)))"

lemma affect_free_Some:
  "ak_affect_free w a = Some w' \<longleftrightarrow>
   (if a = 0 then w' = w
    else fw_affects w a \<noteq> None \<and>
      (\<exists>ls. (if lambda_of w a \<noteq> 0 then ak_lambda_free (fw_lambdas w) (lambda_of w a)
             else Some (fw_lambdas w)) = Some ls
        \<and> w' = w\<lparr>fw_lambdas := ls, fw_affects := (fw_affects w)(a := None)\<rparr>))"
  by (auto simp: ak_affect_free_def lambda_of_def bind_eq_Some_conv split: option.splits)

lemma lambda_free_Some:
  "l \<noteq> 0 \<Longrightarrow> (\<exists>ls. ak_lambda_free lw l = Some ls) \<longleftrightarrow> l \<in> dom (lw_lambdas lw)"
  by (auto simp: ak_lambda_free_def bind_eq_Some_conv)

lemma lambda_free_lambdas:
  "ak_lambda_free lw l = Some ls \<Longrightarrow> l \<noteq> 0 \<Longrightarrow> lw_lambdas ls = (lw_lambdas lw)(l := None)"
  by (auto simp: ak_lambda_free_def bind_eq_Some_conv)

text \<open>One affordance freed: what is left to be released is what was there before it.\<close>

lemma releasable_step:
  assumes "ak_affect_free w a = Some w'"
  shows "releasable w (a # as) \<longleftrightarrow> releasable w' as" and "fw_forms w' = fw_forms w"
    and "fw_affects w' = (if a = 0 then fw_affects w else (fw_affects w)(a := None))"
    and "fw_contexts w' = fw_contexts w"
proof -
  show "fw_forms w' = fw_forms w" "fw_contexts w' = fw_contexts w"
    "fw_affects w' = (if a = 0 then fw_affects w else (fw_affects w)(a := None))"
    using assms by (auto simp: affect_free_Some split: if_splits)
  show "releasable w (a # as) \<longleftrightarrow> releasable w' as"
  proof (cases "a = 0")
    case True
    then show ?thesis using assms by (simp add: affect_free_Some releasable_def)
  next
    case False
    let ?l = "lambda_of w a"
    obtain ls where ls: "(if ?l \<noteq> 0 then ak_lambda_free (fw_lambdas w) ?l else Some (fw_lambdas w)) = Some ls"
        "w' = w\<lparr>fw_lambdas := ls, fw_affects := (fw_affects w)(a := None)\<rparr>" and live: "fw_affects w a \<noteq> None"
      using assms False by (auto simp: affect_free_Some)
    have lams: "lw_lambdas (fw_lambdas w') = (if ?l = 0 then lw_lambdas (fw_lambdas w)
        else (lw_lambdas (fw_lambdas w))(?l := None))"
      using ls lambda_free_lambdas by (auto split: if_splits)
    have dom_l: "?l \<noteq> 0 \<Longrightarrow> ?l \<in> dom (lw_lambdas (fw_lambdas w))"
      using ls(1) lambda_free_Some [of ?l "fw_lambdas w"] by (auto split: if_splits)
    let ?bs = "filter (\<lambda>a. a \<noteq> 0) as"
    have same: "map (lambda_of w') ?bs = map (lambda_of w) ?bs" if "a \<notin> set ?bs"
      using that ls(2) by (auto simp: lambda_of_def)
    show ?thesis
    proof (cases "a \<in> set ?bs")
      case True
      then show ?thesis using False ls(2) by (auto simp: releasable_def Let_def)
    next
      case fresh: False
      have sub: "set ?bs \<subseteq> dom (fw_affects w') \<longleftrightarrow> set ?bs \<subseteq> dom (fw_affects w)"
        using fresh ls(2) by auto
      let ?ls = "filter (\<lambda>l. l \<noteq> 0) (map (lambda_of w) ?bs)"
      have A: "releasable w' as \<longleftrightarrow> distinct ?bs \<and> set ?bs \<subseteq> dom (fw_affects w) \<and> distinct ?ls
          \<and> set ?ls \<subseteq> dom (lw_lambdas (fw_lambdas w'))"
        unfolding releasable_def Let_def same [OF fresh] sub ..
      have B: "releasable w (a # as) \<longleftrightarrow> distinct ?bs \<and> set ?bs \<subseteq> dom (fw_affects w)
          \<and> distinct (if ?l = 0 then ?ls else ?l # ?ls)
          \<and> set (if ?l = 0 then ?ls else ?l # ?ls) \<subseteq> dom (lw_lambdas (fw_lambdas w))"
      proof -
        have bs: "filter (\<lambda>a. a \<noteq> 0) (a # as) = a # ?bs"
          and ls: "filter (\<lambda>l. l \<noteq> 0) (map (lambda_of w) (a # ?bs)) = (if ?l = 0 then ?ls else ?l # ?ls)"
          using False by simp_all
        have "a \<in> dom (fw_affects w)" using live by blast
        then show ?thesis
          unfolding releasable_def Let_def bs ls using fresh by (simp only: distinct.simps list.simps insert_subset) blast
      qed
      have C: "dom (lw_lambdas (fw_lambdas w')) =
          (if ?l = 0 then dom (lw_lambdas (fw_lambdas w)) else dom (lw_lambdas (fw_lambdas w)) - {?l})"
        using lams by (cases "?l = 0") simp_all
      show ?thesis
      proof (cases "?l = 0")
        case True
        show ?thesis unfolding A B C by (simp only: True if_True refl)
      next
        case l: False
        show ?thesis
          unfolding A B C using dom_l [OF l]
          by (simp only: l if_False distinct.simps list.set insert_subset subset_Diff_insert) blast
      qed
    qed
  qed
qed

lemma free_affects_defined:
  "(\<exists>w'. free_affects w as = Some w') \<longleftrightarrow> releasable w as"
proof (induction as arbitrary: w)
  case Nil
  then show ?case by (simp add: releasable_def)
next
  case (Cons a as)
  show ?case
  proof (cases "ak_affect_free w a")
    case (Some w1)
    then show ?thesis using Cons.IH [of w1] releasable_step(1) [OF Some, of as] by simp
  next
    case None
    then have "a \<noteq> 0" by (auto simp: ak_affect_free_def split: if_splits)
    have "\<not> releasable w (a # as)"
    proof
      assume r: "releasable w (a # as)"
      then have "a \<in> dom (fw_affects w)" using \<open>a \<noteq> 0\<close> by (auto simp: releasable_def Let_def)
      then obtain af where af: "fw_affects w a = Some af" by auto
      then have l: "lambda_of w a = af_lambda af" by (simp add: lambda_of_def)
      then have "af_lambda af \<noteq> 0" "\<nexists>ls. ak_lambda_free (fw_lambdas w) (af_lambda af) = Some ls"
        using None \<open>a \<noteq> 0\<close> af by (auto simp: ak_affect_free_def bind_eq_None_conv split: if_splits)
      moreover have "af_lambda af \<noteq> 0 \<longrightarrow> af_lambda af \<in> dom (lw_lambdas (fw_lambdas w))"
        using r \<open>a \<noteq> 0\<close> l by (auto simp: releasable_def Let_def)
      ultimately show False using lambda_free_Some by blast
    qed
    then show ?thesis using None by simp
  qed
qed

lemma free_affects_result:
  "free_affects w as = Some w' \<Longrightarrow> fw_forms w' = fw_forms w
    \<and> fw_affects w' = fw_affects w |` (- (set as - {0})) \<and> fw_contexts w' = fw_contexts w"
proof (induction as arbitrary: w)
  case (Cons a as)
  then obtain w1 where w1: "ak_affect_free w a = Some w1" "free_affects w1 as = Some w'"
    by (auto simp: bind_eq_Some_conv)
  have "(if a = 0 then fw_affects w else (fw_affects w)(a := None)) |` (- (set as - {0}))
      = fw_affects w |` (- (set (a # as) - {0}))"
    by (auto simp: restrict_map_def)
  then show ?case using Cons.IH [OF w1(2)] releasable_step(2-4) [OF w1(1)] by simp
qed (simp add: restrict_map_def)

section \<open>Affordances\<close>

text \<open>The names a form affords by its structure.\<close>

definition structural :: "form_data \<Rightarrow> u8 list list" where
  "structural d =
     (case d of
        Optional _ \<Rightarrow> [lit ''is_none'', lit ''is_some'']
      | Repeatable _ \<Rightarrow> map lit [''append'', ''pop'', ''push'', ''rest'', ''iterate'']
      | List_of _ \<Rightarrow> map lit [''index'', ''iterate'', ''length'']
      | Map_of _ _ \<Rightarrow> map lit [''get'', ''set'', ''has'', ''iterate'']
      | Struct _ ns \<Rightarrow> ns
      | _ \<Rightarrow> [])"

definition affect_name :: "form_world \<Rightarrow> nat \<Rightarrow> u8 list" where
  "affect_name w a = af_name (the (fw_affects w a))"

lemma structural_affordance:
  "resolve_named f = Some g \<Longrightarrow>
   form_has_structural_affordance f nm = Some (nm \<in> set (structural (form_data g)))"
  by (auto simp: form_has_structural_affordance_def structural_def split: form_data.splits)

lemma push_copy_granted:
  assumes "grants 2 s"
  shows "push_copy out nm s = (out @ [nm], drop 2 s)"
proof -
  have g: "grants (Suc (Suc 0)) s" using assms by (simp add: numeral_2_eq_2)
  obtain x where x: "sys_alloc s = (Some x, drop 1 s)" "grants (Suc 0) (drop 1 s)"
    by (rule sys_alloc_granted [OF g])
  show ?thesis
    using x push_item_granted [OF x(2), of out nm] by (simp add: push_copy_def numeral_2_eq_2 drop_drop)
qed

lemma push_copies_granted:
  "grants (2 * length ns) s \<Longrightarrow> push_copies out ns s = (out @ ns, drop (2 * length ns) s)"
proof (induction ns arbitrary: out s)
  case (Cons nm ns)
  have "grants (2 + 2 * length ns) s" using Cons.prems by simp
  from push_copy_granted [OF grants_le [OF this], of out nm] Cons.IH [OF grants_drop [OF this], of "out @ [nm]"]
  show ?case by (simp add: drop_drop ac_simps)
qed simp

lemma push_affect_names_granted:
  "set as \<subseteq> dom (fw_affects w) \<Longrightarrow> grants (2 * length as) s \<Longrightarrow>
   push_affect_names w out as s = Some (out @ map (affect_name w) as, drop (2 * length as) s)"
proof (induction as arbitrary: out s)
  case (Cons a as)
  have "grants (2 + 2 * length as) s" using Cons.prems by simp
  from push_copy_granted [OF grants_le [OF this], of out "affect_name w a"]
    Cons.IH [OF _ grants_drop [OF this], of "out @ [affect_name w a]"] Cons.prems(1)
  show ?case by (auto simp: affect_name_def drop_drop ac_simps)
qed simp

lemma push_both_granted:
  assumes "grants 4 s"
  shows "push_both out n1 n2 s = (out @ [n1, n2], drop 4 s)"
proof -
  have g: "grants (Suc (Suc 2)) s" using assms by simp
  obtain x where x: "sys_alloc s = (Some x, drop 1 s)" "grants (Suc 2) (drop 1 s)"
    by (rule sys_alloc_granted [OF g])
  obtain y where y: "sys_alloc (drop 1 s) = (Some y, drop 1 (drop 1 s))" "grants 2 (drop 1 (drop 1 s))"
    by (rule sys_alloc_granted [OF x(2)])
  have "length [n1, n2] = 2" by simp
  from push_all_granted [of "[n1, n2]", unfolded this, OF y(2), of out] show ?thesis
    using x(1) y(1) by (simp add: push_both_def drop_drop)
qed

lemma find_affect_name:
  "set as \<subseteq> dom (fw_affects w) \<Longrightarrow> 0 \<notin> set as \<Longrightarrow>
   \<exists>a. find_affect w nm as = Some a \<and> (a \<noteq> 0 \<longleftrightarrow> nm \<in> set (map (affect_name w) as))"
  by (induction as) (auto simp: affect_name_def)

lemma affordances_correct:
  assumes p: "p \<noteq> 0" "fw_forms w p = Some f" "resolve_named f = Some g"
    and live: "set (affects g) \<subseteq> dom (fw_affects w)" "0 \<notin> set (affects g)"
    and granted: "grants (2 * (length (affects g) + length (structural (form_data g)))) s"
  shows "\<exists>s'. ak_form_get_affordances w p s
      = Some (map (affect_name w) (affects g) @ structural (form_data g), s')"
    and "ak_form_has_affordance w p (Some nm)
      = Some (nm \<in> set (map (affect_name w) (affects g) @ structural (form_data g)))"
proof -
  let ?a = "affects g" and ?d = "form_data g"
  have g: "grants (2 * length ?a + 2 * length (structural ?d)) s" using granted by (simp add: algebra_simps)
  note names = push_affect_names_granted [OF live(1) grants_le [OF g], of "[]"]
  have rest: "grants (2 * length (structural ?d)) (drop (2 * length ?a) s)" by (rule grants_drop [OF g])
  have "\<exists>s'. (case ?d of
            Optional _ \<Rightarrow> push_both out (lit ''is_none'') (lit ''is_some'') s1
          | Repeatable _ \<Rightarrow>
              push_copies out (map lit [''append'', ''pop'', ''push'', ''rest'', ''iterate'']) s1
          | List_of _ \<Rightarrow> push_copies out (map lit [''index'', ''iterate'', ''length'']) s1
          | Map_of _ _ \<Rightarrow> push_copies out (map lit [''get'', ''set'', ''has'', ''iterate'']) s1
          | Struct _ ns \<Rightarrow> push_copies out ns s1
          | _ \<Rightarrow> (out, s1)) = (out @ structural ?d, s')"
    if "grants (2 * length (structural ?d)) s1" for out s1
    using that push_both_granted [of s1 out] push_copies_granted [of "structural ?d" s1 out]
    by (cases ?d) (simp_all add: structural_def)
  from this [OF rest, of "map (affect_name w) ?a"]
  show "\<exists>s'. ak_form_get_affordances w p s = Some (map (affect_name w) ?a @ structural ?d, s')"
    using p names by (simp add: ak_form_get_affordances_def)
  obtain a where "find_affect w nm ?a = Some a" "a \<noteq> 0 \<longleftrightarrow> nm \<in> set (map (affect_name w) ?a)"
    using find_affect_name [OF live, of nm] by blast
  then show "ak_form_has_affordance w p (Some nm)
      = Some (nm \<in> set (map (affect_name w) ?a @ structural ?d))"
    using p structural_affordance [OF p(3), of nm]
    by (auto simp: ak_form_has_affordance_def ak_form_has_affect_def ak_form_get_affect_def)
qed

section \<open>The table of primitives\<close>

text \<open>
  The table is a context of the store; the forms bound in it are live primitives, and no two
  names share a form.
\<close>

definition table_ok :: "form_world \<Rightarrow> root_form_ctx \<Rightarrow> bool" where
  "table_ok w r \<longleftrightarrow> store_ok (fw_contexts w) \<and> root_ctx r \<noteq> 0 \<and> fw_contexts w (root_ctx r) \<noteq> None
     \<and> inj_on (scope (fw_contexts w) (root_ctx r)) (dom (scope (fw_contexts w) (root_ctx r)))
     \<and> (\<forall>p \<in> ran (scope (fw_contexts w) (root_ctx r)).
          p \<noteq> 0 \<and> (\<exists>t. fw_forms w p = Some (Form None (Primitive t) [])))"

abbreviation table :: "form_world \<Rightarrow> root_form_ctx \<Rightarrow> u8 list \<rightharpoonup> nat" where
  "table w r \<equiv> scope (fw_contexts w) (root_ctx r)"

definition table_room :: "nat \<Rightarrow> form_world \<Rightarrow> root_form_ctx \<Rightarrow> bool" where
  "table_room n w r \<longleftrightarrow> (\<forall>c. fw_contexts w (root_ctx r) = Some c \<longrightarrow> map_room n (ctx_data c))"

lemma lookup_table:
  assumes "table_ok w r" and "str_key k"
  shows "ak_form_lookup_local w (root_ctx r) (Some k) = Some (case table w r k of None \<Rightarrow> 0 | Some p \<Rightarrow> p)"
proof -
  obtain c where c: "fw_contexts w (root_ctx r) = Some c" "str_map_ok 8 (ctx_data c)"
    using assms(1) record_of by (fastforce simp: table_ok_def ctx_record_ok_def)
  then show ?thesis
    using str_store.get_law [OF c(2) assms(2)] assms(1)
    by (simp add: ak_form_lookup_local_def ak_context_get_local_def opt_ptr_def table_ok_def scope_def)
qed

lemma new_primitive_cases:
  obtains (failed) s' where "ak_form_new_primitive w t s = (0, w, s')"
  | (created) q s' where "ak_form_new_primitive w t s = (q, put_form w q (Form None (Primitive t) []), s')"
      "q \<noteq> 0" "fw_forms w q = None"
proof (cases "alloc_cell (fw_forms w) s")
  case (Pair a s')
  then show thesis
    using that(1) [of s'] that(2) [of "the a" s'] alloc_cell_Some [of "fw_forms w" s]
    by (cases a) (auto simp: ak_form_new_primitive_def)
qed

lemma get_or_create_bound:
  assumes "table_ok w r" and "str_key name" and "table w r name = Some p"
  shows "root_form_ctx_get_or_create w (Some r) name t s = Some (p, w, s)"
proof -
  have "p \<noteq> 0" using assms(1,3) by (auto simp: table_ok_def intro: ranI)
  then show ?thesis
    using lookup_table [OF assms(1,2)] assms(1,3) by (simp add: root_form_ctx_get_or_create_def table_ok_def)
qed

lemma free_plain:
  assumes "q \<noteq> 0" and "fw_forms w q = Some (Form nm (Primitive t) [])"
  shows "ak_form_free w q = Some (w\<lparr>fw_forms := (fw_forms w)(q := None)\<rparr>)"
  using assms by (simp add: ak_form_free_def)

lemma get_or_create_new:
  assumes ok: "table_ok w r" and k: "str_key name" and new: "table w r name = None"
    and room: "table_room 1 w r"
  obtains (refused) w' s' where "root_form_ctx_get_or_create w (Some r) name t s = Some (0, w', s')"
      "table_ok w' r" "fw_forms w' = fw_forms w" "table w' r = table w r" "fw_affects w' = fw_affects w"
  | (created) q w' s' where "root_form_ctx_get_or_create w (Some r) name t s = Some (q, w', s')"
      "table_ok w' r" "q \<noteq> 0" "fw_forms w q = None" "table w' r = (table w r)(name \<mapsto> q)"
      "fw_forms w' = (fw_forms w)(q \<mapsto> Form None (Primitive t) [])" "fw_affects w' = fw_affects w"
proof -
  let ?c = "root_ctx r"
  have c0: "?c \<noteq> 0" and st: "store_ok (fw_contexts w)" using ok by (simp_all add: table_ok_def)
  obtain c where c: "fw_contexts w ?c = Some c" using ok by (auto simp: table_ok_def)
  have look: "ak_form_lookup_local w ?c (Some name) = Some 0" using lookup_table [OF ok k] new by simp
  show thesis
  proof (cases rule: new_primitive_cases [of w t s])
    case (failed s')
    then show thesis
      using refused [of w s'] look c0 ok by (simp add: root_form_ctx_get_or_create_def)
  next
    case (created q s1)
    let ?w1 = "put_form w q (Form None (Primitive t) [])"
    have q: "q \<notin> ran (table w r)" using created(3) ok by (auto simp: table_ok_def)
    have "map_room 1 (ctx_data c)" using room c by (simp add: table_room_def)
    then obtain e cs s2 where set: "ak_context_set (fw_contexts w) (Some ?c) (Some name) q s1 = Some (e, cs, s2)"
        "store_ok cs" "e = 0 \<and> scope cs ?c = (scope (fw_contexts w) ?c)(name \<mapsto> q)
          \<or> e = -1 \<and> scope cs ?c = scope (fw_contexts w) ?c \<and> scope (fw_contexts w) ?c name = None"
      by (rule context_set_correct [OF st c k]) blast
    have live: "cs ?c \<noteq> None"
      using set(1) by (auto simp: ak_context_set_def bind_eq_Some_conv)
    let ?w2 = "?w1\<lparr>fw_contexts := cs\<rparr>"
    have reg: "ak_form_register ?w1 ?c (Some name) q s1 = Some (e, ?w2, s2)"
      using set(1) c0 created(2) by (simp add: ak_form_register_def put_form_def)
    have run: "root_form_ctx_get_or_create w (Some r) name t s =
        (if e \<noteq> 0 then map_option (\<lambda>w3. (0, w3, s2)) (ak_form_free ?w2 q) else Some (q, ?w2, s2))"
      using look c0 created(1,2) reg by (simp add: root_form_ctx_get_or_create_def map_option_case bind_map_option split: option.splits)
    show thesis
    proof (cases "e = 0")
      case True
      then have tab: "table ?w2 r = (table w r)(name \<mapsto> q)" using set(3) by simp
      have "inj_on ((table w r)(name \<mapsto> q)) (dom ((table w r)(name \<mapsto> q)))"
        using ok q new by (auto simp: table_ok_def inj_on_def ran_def domIff split: if_splits)
      moreover have "ran ((table w r)(name \<mapsto> q)) = insert q (ran (table w r))"
        using new by (rule ran_map_upd)
      ultimately have "table_ok ?w2 r"
        unfolding table_ok_def tab using ok set(2) live c0 created(2,3)
        by (auto simp: put_form_def table_ok_def)
      then show thesis
        using that(2) [of q ?w2 s2] run True created(2,3) tab by (simp add: put_form_def)
    next
      case False
      then have tab: "table ?w2 r = table w r" using set(3) by simp
      have "ak_form_free ?w2 q = Some (?w2\<lparr>fw_forms := (fw_forms ?w2)(q := None)\<rparr>)"
        by (rule free_plain) (use created(2) in \<open>simp_all add: put_form_def\<close>)
      moreover have "(fw_forms ?w2)(q := None) = fw_forms w"
        using created(3) by (auto simp: put_form_def fun_eq_iff)
      ultimately have free: "ak_form_free ?w2 q = Some (?w2\<lparr>fw_forms := fw_forms w\<rparr>)" by simp
      have "table_ok (?w2\<lparr>fw_forms := fw_forms w\<rparr>) r"
        using ok set(2) live tab by (simp add: table_ok_def)
      then show thesis
        using that(1) [of "?w2\<lparr>fw_forms := fw_forms w\<rparr>" s2] run False free tab
        by (simp add: put_form_def)
    qed
  qed
qed

text \<open>Freeing the table frees every form bound in it, once.\<close>

lemma free_bound_correct:
  assumes pl: "placed m" and get: "\<And>n. n \<in> set (all_nodes m) \<Longrightarrow> map_get m (node_key n) = Some (Some (node_value n))"
  shows "iter_ok m it \<Longrightarrow> set (remaining m it) \<subseteq> set (all_nodes m) \<Longrightarrow>
    distinct (map node_value (remaining m it)) \<Longrightarrow>
    (\<And>n. n \<in> set (remaining m it) \<Longrightarrow>
      node_value n \<noteq> 0 \<and> (\<exists>t. fw_forms w (node_value n) = Some (Form None (Primitive t) []))) \<Longrightarrow>
    free_bound_forms m it w
      = Some (w\<lparr>fw_forms := fw_forms w |` (- node_value ` set (remaining m it))\<rparr>)"
proof (induction "length (remaining m it)" arbitrary: it w)
  case 0
  then have "delivers m [] (map_next m it)" using map_next_correct [OF pl "0.prems"(1)] by simp
  then show ?case
    using "0.hyps" by (subst free_bound_forms.simps) (auto simp: restrict_map_def)
next
  case (Suc k)
  then obtain n rest where n: "remaining m it = n # rest" by (cases "remaining m it") auto
  then obtain it' where it': "map_next m it = Some (Some (node_key n), it')" "iter_ok m it'"
      "remaining m it' = rest"
    using map_next_correct [OF pl Suc.prems(1)] by auto
  have g: "map_get m (node_key n) = Some (Some (node_value n))" using get Suc.prems(2) n by auto
  let ?w = "w\<lparr>fw_forms := (fw_forms w)(node_value n := None)\<rparr>"
  obtain t where "node_value n \<noteq> 0" "fw_forms w (node_value n) = Some (Form None (Primitive t) [])"
    using Suc.prems(4) [of n] n by auto
  then have free: "ak_form_free w (node_value n) = Some ?w" by (rule free_plain)
  have "free_bound_forms m it' ?w
      = Some (?w\<lparr>fw_forms := fw_forms ?w |` (- node_value ` set (remaining m it'))\<rparr>)"
  proof (rule Suc.hyps(1))
    show "k = length (remaining m it')" using Suc.hyps(2) n it'(3) by simp
    show "node_value x \<noteq> 0 \<and> (\<exists>t. fw_forms ?w (node_value x) = Some (Form None (Primitive t) []))"
      if "x \<in> set (remaining m it')" for x
    proof -
      have "node_value n \<notin> node_value ` set rest" using Suc.prems(3) n by simp
      then have "node_value x \<noteq> node_value n" using that it'(3) by (metis imageI)
      then show ?thesis using Suc.prems(4) [of x] that n it'(3) by simp
    qed
  qed (use Suc.prems(2,3) n it'(2,3) in auto)
  moreover have "(fw_forms w)(node_value n := None) |` (- node_value ` set rest)
      = fw_forms w |` (- node_value ` set (n # rest))"
    by (auto simp: restrict_map_def)
  ultimately show ?case
    using it'(1,3) g free n by (subst free_bound_forms.simps) simp
qed

lemma table_free_correct:
  assumes ok: "table_ok w r"
  shows "\<exists>w'. ak_root_form_ctx_free w (Some r) = Some w'
    \<and> fw_forms w' = fw_forms w |` (- ran (table w r)) \<and> fw_affects w' = fw_affects w
    \<and> fw_contexts w' = (fw_contexts w)(root_ctx r := None)"
proof -
  obtain c where c: "fw_contexts w (root_ctx r) = Some c" "ctx_record_ok c"
    using ok record_of by (fastforce simp: table_ok_def)
  let ?m = "ctx_data c"
  have m: "map_ok str_key ?m" "cmp_fn ?m = map_cmp_str" "str_map_ok 8 ?m"
    using c(2) by (auto simp: ctx_record_ok_def str_map_ok_def)
  have tab: "table w r = map_view ?m" using c(1) by (simp add: scope_def)
  have dist: "distinct (map node_key (all_nodes ?m))" using m(1) by (simp add: map_ok_def)
  have keys: "map fst (map node_pair (all_nodes ?m)) = map node_key (all_nodes ?m)"
    by (simp add: node_pair_def)
  have view: "map_view ?m (node_key n) = Some (node_value n)" if "n \<in> set (all_nodes ?m)" for n
    unfolding map_view_def
  proof (rule map_of_is_SomeI)
    show "distinct (map fst (map node_pair (all_nodes ?m)))" unfolding keys by (rule dist)
    show "(node_key n, node_value n) \<in> set (map node_pair (all_nodes ?m))"
      using that by (force simp: node_pair_def)
  qed
  have ran: "ran (map_view ?m) = node_value ` set (all_nodes ?m)"
  proof
    show "ran (map_view ?m) \<subseteq> node_value ` set (all_nodes ?m)"
      by (auto simp: map_view_def ran_def node_pair_def dest!: map_of_SomeD)
    show "node_value ` set (all_nodes ?m) \<subseteq> ran (map_view ?m)" using view by (auto intro: ranI)
  qed
  have "inj_on node_value (set (all_nodes ?m))"
  proof (rule inj_onI)
    fix x y assume xy: "x \<in> set (all_nodes ?m)" "y \<in> set (all_nodes ?m)" "node_value x = node_value y"
    then have "map_view ?m (node_key x) = map_view ?m (node_key y)" using view by simp
    moreover have "inj_on (map_view ?m) (dom (map_view ?m))" using ok tab by (simp add: table_ok_def)
    ultimately have "node_key x = node_key y" using view xy by (auto simp: inj_on_def dom_def)
    then show "x = y" using dist xy by (auto simp: distinct_map inj_on_def)
  qed
  then have dv: "distinct (map node_value (all_nodes ?m))" using dist by (simp add: distinct_map)
  have "free_bound_forms ?m map_iter_new w
      = Some (w\<lparr>fw_forms := fw_forms w |` (- node_value ` set (remaining ?m map_iter_new))\<rparr>)"
  proof (rule free_bound_correct)
    show "placed ?m" using m(1) by (simp add: map_ok_def)
    show "map_get ?m (node_key n) = Some (Some (node_value n))" if "n \<in> set (all_nodes ?m)" for n
      using str_store.get_law [OF m(3), of "node_key n"] m(1) that view [OF that] by (simp add: map_ok_def)
    show "node_value n \<noteq> 0 \<and> (\<exists>t. fw_forms w (node_value n) = Some (Form None (Primitive t) []))"
      if "n \<in> set (remaining ?m map_iter_new)" for n
      using ok that iter_new(2) [of ?m] unfolding table_ok_def tab ran by auto
  qed (simp_all add: iter_new dv)
  then show ?thesis
    using c ok deinit_defined [OF c(2)] ran tab
    by (auto simp: ak_root_form_ctx_free_def ak_context_free_def iter_new table_ok_def)
qed

section \<open>Instances\<close>

lemma digits_eq:
  fixes p q b :: nat
  assumes "\<And>i. i < n \<Longrightarrow> p div b ^ i mod b = q div b ^ i mod b"
  shows "p mod b ^ n = q mod b ^ n"
  using assms
proof (induction n)
  case (Suc n)
  have "x mod b ^ Suc n = b ^ n * (x div b ^ n mod b) + x mod b ^ n" for x
    using mod_mult2_eq [of x "b ^ n" b] by (simp add: mult.commute)
  then show ?case using Suc.IH Suc.prems by simp
qed simp

lemma ptr_bytes_inject:
  assumes "p < SIZE_RANGE" and "q < SIZE_RANGE"
  shows "ptr_bytes p = ptr_bytes q \<longleftrightarrow> p = q"
proof
  assume eq: "ptr_bytes p = ptr_bytes q"
  have "p div 256 ^ i mod 256 = q div 256 ^ i mod 256" if "i < 8" for i
  proof -
    have "ptr_bytes p ! i = ptr_bytes q ! i" using eq by simp
    then have "(word_of_nat (p div 256 ^ i) :: u8) = word_of_nat (q div 256 ^ i)"
      using that by (simp add: ptr_bytes_def)
    from arg_cong [OF this, of unat] show ?thesis
      by (simp add: unsigned_of_nat take_bit_eq_mod)
  qed
  then have "p mod 256 ^ 8 = q mod 256 ^ 8" by (rule digits_eq)
  then show "p = q" using assms by simp
qed simp

lemma ptr_bytes_key: "mem_key 8 (ptr_bytes p)"
  by (simp add: mem_key_def ptr_bytes_def)

lemma push_builtin_correct:
  assumes ok: "list_ok (ri_items inst)" and room: "list_count (ri_items inst) < 2 ^ 31"
    and g: "grants_cell (cells (ri_items inst)) s"
  obtains inst' s' where "builtin_push_fn inst v s = Some (inst', s')"
    "builtin_append_fn inst v s = Some (inst', s')" "list_ok (ri_items inst')"
    "list_view (ri_items inst') = list_view (ri_items inst) @ [v]"
proof -
  obtain r l' s' where "list_push (ri_items inst) v s = Some (r, l', s')" "list_ok l'"
      "r = 0 \<and> list_view l' = list_view (ri_items inst) @ [v] \<or> r = -1 \<and> list_view l' = list_view (ri_items inst)"
      "grants_cell (cells (ri_items inst)) s \<longrightarrow> r = 0"
    by (rule list_push_correct [OF ok room])
  then show thesis
    using that [of "inst\<lparr>ri_items := l'\<rparr>" s'] g by (auto simp: builtin_push_fn_def builtin_append_fn_def)
qed

lemma pop_builtin_correct:
  assumes ok: "list_ok (ri_items inst)"
  obtains inst' where
    "builtin_pop_fn True inst = Some (Pointer_value
       (if list_view (ri_items inst) = [] then 0 else last (list_view (ri_items inst))), inst')"
    "list_ok (ri_items inst')" "list_view (ri_items inst') = butlast (list_view (ri_items inst))"
proof (cases "list_count (ri_items inst) > 0")
  case True
  note pop = list_pop_correct [OF ok True]
  have "list_view (ri_items inst) \<noteq> []" using True length_list_view [OF ok] by auto
  then show thesis
    using that [of "inst\<lparr>ri_items := (ri_items inst)\<lparr>list_count := list_count (ri_items inst) - 1\<rparr>\<rparr>"] True pop
    by (simp add: builtin_pop_fn_def)
next
  case False
  then have "list_view (ri_items inst) = []" using length_list_view [OF ok] by simp
  then show thesis using that [of inst] False ok by (simp add: builtin_pop_fn_def)
qed

lemma index_builtin_correct:
  assumes ok: "list_ok (li_items inst)"
  shows "builtin_list_index_fn True inst i = Some (Pointer_value
    (if i < length (list_view (li_items inst)) then list_view (li_items inst) ! i else 0))"
proof (cases "i < list_count (li_items inst)")
  case True
  then show ?thesis
    using list_ok_nth [OF ok True] item_at_eq [OF ok True] list_view_nth [OF ok True] length_list_view [OF ok]
    by (auto simp: builtin_list_index_fn_def list_get_def)
next
  case False
  then show ?thesis using length_list_view [OF ok] by (simp add: builtin_list_index_fn_def)
qed

lemma rest_builtin_subseq:
  assumes ok: "list_ok l" and small: "list_count l < 2 ^ 31"
  shows "list_ok out \<Longrightarrow> i + k = list_count l \<Longrightarrow> length (list_view out) \<le> i \<Longrightarrow>
    \<exists>out' s'. copy_rest k l i out s = Some (out', s') \<and> list_ok out'
      \<and> (\<exists>ys. list_view out' = list_view out @ ys \<and> subseq ys (drop i (list_view l)))"
proof (induction k arbitrary: i out s)
  case 0
  then show ?case by auto
next
  case (Suc k)
  then have i: "i < list_count l" by simp
  have v: "list_get l i = Some (Some (item_ptrs l ! i))" "cells l (item_ptrs l ! i) = Some (list_view l ! i)"
    using i list_ok_nth [OF ok i] item_at_eq [OF ok i] list_view_nth [OF ok i] by (auto simp: list_get_def)
  have "list_count out < 2 ^ 31" using Suc.prems small length_list_view [OF Suc.prems(1)] by simp
  then obtain r l' s' where p: "list_push out (list_view l ! i) s = Some (r, l', s')" "list_ok l'"
      "r = 0 \<and> list_view l' = list_view out @ [list_view l ! i] \<or> r = -1 \<and> list_view l' = list_view out"
    by (rule list_push_correct [OF Suc.prems(1)]) blast
  have "length (list_view l') \<le> Suc i" using p(3) Suc.prems(3) by auto
  from Suc.IH [OF p(2) _ this, of s'] Suc.prems(2) obtain out' s2 ys where o:
      "copy_rest k l (Suc i) l' s' = Some (out', s2)" "list_ok out'" "list_view out' = list_view l' @ ys"
      "subseq ys (drop (Suc i) (list_view l))" by auto
  have d: "drop i (list_view l) = list_view l ! i # drop (Suc i) (list_view l)"
    using i length_list_view [OF ok] by (simp add: Cons_nth_drop_Suc)
  show ?case
    using v p(1,3) o by (auto simp: d)
qed

lemma rest_builtin_correct:
  assumes ok: "list_ok (ri_items ri)" "list_count (ri_items ri) < 2 ^ 31"
  obtains rest s2 where "builtin_rest_fn True ri (Some g # s) = Some (Instance_value rest, s2)"
    "subseq (list_view (ri_items rest)) (tl (list_view (ri_items ri)))"
proof -
  let ?l = "ri_items ri"
  obtain out s2 where out: "copy_rest (list_count ?l - 1) ?l 1 (list_init 8) s = Some (out, s2)"
      "subseq (list_view out) (tl (list_view ?l))"
  proof (cases "list_count ?l")
    case 0
    then show thesis using that [of "list_init 8" s] by (simp add: list_init_ok)
  next
    case (Suc n)
    then have "1 + (list_count ?l - 1) = list_count ?l" by simp
    from rest_builtin_subseq [OF ok list_init_ok(1) [of 8] this, of s] obtain out s2 where
        "copy_rest (list_count ?l - 1) ?l 1 (list_init 8) s = Some (out, s2)"
        "subseq (list_view out) (drop 1 (list_view ?l))"
      by (auto simp: list_init_ok)
    then show thesis using that by (simp add: drop_Suc)
  qed
  show thesis
    by (rule that [of "\<lparr>ri_form = ri_form ri, ri_items = out\<rparr>" s2])
      (use out in \<open>simp_all add: builtin_rest_fn_def\<close>)
qed

lemma map_builtins_correct:
  assumes mi: "map_ok (mem_key 8) (mi_items mi)" "cmp_fn (mi_items mi) = map_cmp_mem" "ksize (mi_items mi) = 8"
    and room: "nbuckets (mi_items mi) < 2 ^ 30" "ms = Some g1 # Some g2 # ms'"
    and keys: "key < SIZE_RANGE" "other < SIZE_RANGE"
  shows "\<exists>mi' ms2. builtin_map_set_fn mi key v ms = Some (mi', ms2)
    \<and> builtin_map_get_fn True mi' key = Some (Pointer_value v)
    \<and> (other \<noteq> key \<longrightarrow> builtin_map_get_fn True mi' other = builtin_map_get_fn True mi other)"
    and "builtin_map_get_fn False mi key = None"
proof -
  let ?m = "mi_items mi"
  obtain rc m' s' where m': "map_set ?m (ptr_bytes key) v ms = Some (rc, m', s')" "map_ok (mem_key 8) m'"
      "cmp_fn m' = map_cmp_mem" "ksize m' = 8"
      "rc = 0 \<and> map_view m' = (map_view ?m)(ptr_bytes key \<mapsto> v)
       \<or> rc = -1 \<and> map_view m' = map_view ?m \<and> map_view ?m (ptr_bytes key) = None"
      "(\<exists>g1 g2 s1. ms = Some g1 # Some g2 # s1) \<longrightarrow> rc = 0"
    by (rule mem.map_set_correct [OF mi ptr_bytes_key [of key] room(1), of v ms])
  then have view: "map_view m' = (map_view ?m)(ptr_bytes key \<mapsto> v)" using room(2) by auto
  have get': "map_get m' (ptr_bytes x) = Some (map_view m' (ptr_bytes x))" for x
    using mem.map_get_correct [OF m'(2-4) ptr_bytes_key] .
  have get: "map_get ?m (ptr_bytes x) = Some (map_view ?m (ptr_bytes x))" for x
    using mem.map_get_correct [OF mi ptr_bytes_key] .
  show "\<exists>mi' ms2. builtin_map_set_fn mi key v ms = Some (mi', ms2)
    \<and> builtin_map_get_fn True mi' key = Some (Pointer_value v)
    \<and> (other \<noteq> key \<longrightarrow> builtin_map_get_fn True mi' other = builtin_map_get_fn True mi other)"
    using m'(1) get get' view ptr_bytes_inject [OF keys]
    by (auto simp: builtin_map_set_fn_def builtin_map_get_fn_def)
  show "builtin_map_get_fn False mi key = None" using get by (simp add: builtin_map_get_fn_def)
qed

section \<open>Properties\<close>

text \<open>
  C35: on forms without a NULL inside in which no alias names an alias, structural equality is
  always defined and is equality of the shapes: the same kinds in the same places, the same
  primitive types, the same number of parts and of fields; names, affordances and aliases do
  not count. So it is an equivalence there. A form whose alias names an alias is equal to no
  form, not even to itself.
\<close>

theorem forms_equal_iff_shapes:
  assumes "solid f" and "solid g"
  shows "forms_structurally_equal (Some f) (Some g) = Some (shape_of f = shape_of g)
    \<and> forms_structurally_equal (Some (Form nm1 (Named (Some (Form nm2 (Named h) as2))) as1)) (Some g)
      = Some False
    \<and> forms_structurally_equal (Some (Form nm1 (Named (Some (Form nm2 (Named h) as2))) as1))
        (Some (Form nm1 (Named (Some (Form nm2 (Named h) as2))) as1)) = Some False"
proof (intro conjI)
  show "forms_structurally_equal (Some f) (Some g) = Some (shape_of f = shape_of g)"
    using equal_shapes(1) [of "Some f" "Some g"] assms by simp
  obtain nm d as where "resolve_named g = Some (Form nm d as)" "kind_of d \<noteq> AK_FORM_NAMED"
    by (rule resolve_solid [OF assms(2)])
  then show "forms_structurally_equal (Some (Form nm1 (Named (Some (Form nm2 (Named h) as2))) as1)) (Some g)
      = Some False"
    by (subst forms_structurally_equal.simps) (simp add: data_equal.simps)
  show "forms_structurally_equal (Some (Form nm1 (Named (Some (Form nm2 (Named h) as2))) as1))
       (Some (Form nm1 (Named (Some (Form nm2 (Named h) as2))) as1)) = Some False"
    by (subst forms_structurally_equal.simps) (simp add: data_equal.simps)
qed

theorem forms_equal_iff_shapes_witness:
  "forms_structurally_equal
      (Some (Form None (Optional (Some (Form None (Primitive AK_FORM_PRIMITIVE_U8) [11]))) []))
      (Some (Form (Some [97]) (Named (Some (Form None (Optional (Some
         (Form None (Primitive AK_FORM_PRIMITIVE_U8) []))) []))) [])) = Some True"
proof -
  let ?f = "Form None (Optional (Some (Form None (Primitive AK_FORM_PRIMITIVE_U8) [11]))) []"
  let ?g = "Form (Some [97]) (Named (Some (Form None (Optional (Some
         (Form None (Primitive AK_FORM_PRIMITIVE_U8) []))) []))) []"
  have "solid ?f" "solid ?g" by simp_all
  from forms_equal_iff_shapes [OF this] show ?thesis by simp
qed

text \<open>
  C36: freeing a form is defined exactly when every affordance in its tree is alive and occurs
  once, and so do their lambdas; then exactly these affordances and the form are gone. An
  optional form made of a form shares its affordances: when the form has one and the allocator
  grants the calls, freeing both is not defined.
\<close>

theorem form_free_safe_iff:
  assumes p: "p \<noteq> 0" "fw_forms w p = Some f"
  shows "((\<exists>w'. ak_form_free w p = Some w') \<longleftrightarrow> releasable w (tree_affects (Some f)))
    \<and> (\<forall>w'. ak_form_free w p = Some w' \<longrightarrow> fw_forms w' = (fw_forms w)(p := None)
          \<and> fw_affects w' = fw_affects w |` (- (set (tree_affects (Some f)) - {0})))
    \<and> (\<forall>(g :: nat \<Rightarrow> nat) s t. sys_alloc s = (Some g, t) \<longrightarrow> g 0 \<noteq> 0 \<longrightarrow> fw_forms w (g 0) = None \<longrightarrow>
          grants (clone_cost (Some f)) t \<longrightarrow> set (tree_affects (Some f)) - {0} \<noteq> {} \<longrightarrow>
          (\<exists>q w1 s1. ak_form_new_optional w p s = Some (q, w1, s1) \<and> q \<noteq> 0 \<and>
             Option.bind (ak_form_free w1 p) (\<lambda>w3. ak_form_free w3 q) = None))"
proof (intro conjI allI impI)
  show "(\<exists>w'. ak_form_free w p = Some w') \<longleftrightarrow> releasable w (tree_affects (Some f))"
    using free_affects_defined [of w "tree_affects (Some f)"] p
    by (auto simp: ak_form_free_def free_tree_affects)
next
  fix w' assume "ak_form_free w p = Some w'"
  then obtain w1 where w1: "free_affects w (tree_affects (Some f)) = Some w1"
      "w' = w1\<lparr>fw_forms := (fw_forms w1)(p := None)\<rparr>"
    using p by (auto simp: ak_form_free_def free_tree_affects bind_eq_Some_conv)
  from free_affects_result [OF w1(1)] w1(2)
  show "fw_forms w' = (fw_forms w)(p := None)"
    "fw_affects w' = fw_affects w |` (- (set (tree_affects (Some f)) - {0}))" by simp_all
next
  fix g :: "nat \<Rightarrow> nat" and s t
  assume a: "sys_alloc s = (Some g, t)" "g 0 \<noteq> 0" "fw_forms w (g 0) = None"
    "grants (clone_cost (Some f)) t" "set (tree_affects (Some f)) - {0} \<noteq> {}"
  let ?o = "Form None (Optional (Some f)) []"
  let ?w1 = "put_form w (g 0) ?o"
  have ne: "g 0 \<noteq> p" using a(3) p(2) by auto
  have "ak_form_clone (Some f) t = (Some f, drop (clone_cost (Some f)) t)"
    using clone_granted(1) [of "Some f" 0 t] a(4) by simp
  then have new: "ak_form_new_optional w p s = Some (g 0, ?w1, drop (clone_cost (Some f)) t)"
    using a p by (simp add: ak_form_new_optional_def new_around_def alloc_cell_def clone_at_def)
  have "ak_form_free w3 (g 0) = None" if w3: "ak_form_free ?w1 p = Some w3" for w3
  proof -
    have "fw_forms ?w1 p = Some f" using p ne by (simp add: put_form_def)
    then obtain w4 where w4: "free_affects ?w1 (tree_affects (Some f)) = Some w4"
        "w3 = w4\<lparr>fw_forms := (fw_forms w4)(p := None)\<rparr>"
      using w3 p(1) by (auto simp: ak_form_free_def free_tree_affects bind_eq_Some_conv)
    have forms: "fw_forms w3 (g 0) = Some ?o"
      using free_affects_result [OF w4(1)] w4(2) ne by (simp add: put_form_def)
    obtain b where b: "b \<in> set (tree_affects (Some f))" "b \<noteq> 0" using a(5) by blast
    have "fw_affects w3 b = None" using free_affects_result [OF w4(1)] w4(2) b by simp
    then have "\<not> releasable w3 (tree_affects (Some f))" using b by (auto simp: releasable_def Let_def)
    then have "free_affects w3 (tree_affects (Some f)) = None"
      using free_affects_defined [of w3 "tree_affects (Some f)"] by (cases "free_affects w3 (tree_affects (Some f))") auto
    then show ?thesis using forms a(2) by (simp add: ak_form_free_def free_tree_affects)
  qed
  then have "Option.bind (ak_form_free ?w1 p) (\<lambda>w3. ak_form_free w3 (g 0)) = None"
    by (cases "ak_form_free ?w1 p") simp_all
  then show "\<exists>q w1 s1. ak_form_new_optional w p s = Some (q, w1, s1) \<and> q \<noteq> 0 \<and>
      Option.bind (ak_form_free w1 p) (\<lambda>w3. ak_form_free w3 q) = None"
    using new a(2) by blast
qed

definition one_affect_world :: form_world where
  "one_affect_world = \<lparr>fw_forms = [11 \<mapsto> Form None (Primitive AK_FORM_PRIMITIVE_U8) [21]],
     fw_affects = [21 \<mapsto> \<lparr>af_name = [97], af_lambda = 0, parameter_forms = [], return_form = 0,
                          also_includes = []\<rparr>],
     fw_lambdas = \<lparr>lw_lambdas = Map.empty, lw_calls = []\<rparr>, fw_contexts = Map.empty\<rparr>"

theorem form_free_safe_iff_witness:
  "(\<exists>w'. ak_form_free one_affect_world 11 = Some w') \<and>
   (\<exists>q w1 s1. ak_form_new_optional one_affect_world 11
        [Some (\<lambda>_. 12), Some (\<lambda>_. 13), Some (\<lambda>_. 14)] = Some (q, w1, s1) \<and> q \<noteq> 0 \<and>
      Option.bind (ak_form_free w1 11) (\<lambda>w3. ak_form_free w3 q) = None)"
proof -
  let ?f = "Form None (Primitive AK_FORM_PRIMITIVE_U8) [21]"
  have p: "(11 :: nat) \<noteq> 0" "fw_forms one_affect_world 11 = Some ?f" by (simp_all add: one_affect_world_def)
  have r: "releasable one_affect_world (tree_affects (Some ?f))"
    by (simp add: releasable_def one_affect_world_def lambda_of_def)
  let ?s = "[Some (\<lambda>_. 12), Some (\<lambda>_. 13), Some (\<lambda>_. 14)] :: ptr_sched"
  have s: "sys_alloc ?s = (Some (\<lambda>_. 12), [Some (\<lambda>_. 13), Some (\<lambda>_. 14)])"
    "fw_forms one_affect_world 12 = None" "grants (clone_cost (Some ?f)) [Some (\<lambda>_. 13), Some (\<lambda>_. 14)]"
    "set (tree_affects (Some ?f)) - {0} \<noteq> {}"
    by (simp_all add: one_affect_world_def grants_def)
  have "\<exists>w'. ak_form_free one_affect_world 11 = Some w'"
    using conjunct1 [OF form_free_safe_iff [OF p]] r by (rule iffD2)
  moreover have "\<exists>q w1 s1. ak_form_new_optional one_affect_world 11 ?s = Some (q, w1, s1) \<and> q \<noteq> 0 \<and>
      Option.bind (ak_form_free w1 11) (\<lambda>w3. ak_form_free w3 q) = None"
    by (rule form_free_safe_iff [OF p, THEN conjunct2, THEN conjunct2, rule_format, OF s(1) _ s(2,3,4)]) simp
  ultimately show ?thesis ..
qed

text \<open>
  The affordances a form lists, when the allocator grants the calls, are the names of the
  affordances attached to it (to the form an alias names, for an alias) followed by those of
  its structure; and a form is said to have an affordance exactly when it is in that list.
\<close>

theorem form_affordances_spec:
  assumes "p \<noteq> 0" and "fw_forms w p = Some f" and "resolve_named f = Some g"
    and "set (affects g) \<subseteq> dom (fw_affects w)" and "0 \<notin> set (affects g)"
    and "grants (2 * (length (affects g) + length (structural (form_data g)))) s"
  shows "\<exists>names s'. ak_form_get_affordances w p s = Some (names, s')
    \<and> names = map (affect_name w) (affects g) @ structural (form_data g)
    \<and> (\<forall>nm. ak_form_has_affordance w p (Some nm) = Some (nm \<in> set names))"
  using affordances_correct [OF assms] by blast

theorem form_affordances_spec_witness:
  "\<exists>names s'. ak_form_get_affordances
      (one_affect_world\<lparr>fw_forms := [11 \<mapsto> Form (Some [98]) (Named (Some (Form None (Optional None) [21]))) []]\<rparr>)
      11 (replicate 6 (Some (\<lambda>_. 13))) = Some (names, s')
    \<and> names = [[97], lit ''is_none'', lit ''is_some'']
    \<and> ak_form_has_affordance
      (one_affect_world\<lparr>fw_forms := [11 \<mapsto> Form (Some [98]) (Named (Some (Form None (Optional None) [21]))) []]\<rparr>)
      11 (Some [97]) = Some True"
proof -
  let ?g = "Form None (Optional None) [21]" and ?s = "replicate 6 (Some (\<lambda>_. 13)) :: ptr_sched"
  let ?f = "Form (Some [98]) (Named (Some ?g)) []"
  let ?w = "one_affect_world\<lparr>fw_forms := [11 \<mapsto> ?f]\<rparr>"
  have "(11 :: nat) \<noteq> 0" "fw_forms ?w 11 = Some ?f" "resolve_named ?f = Some ?g"
    "set (affects ?g) \<subseteq> dom (fw_affects ?w)" "0 \<notin> set (affects ?g)"
    "grants (2 * (length (affects ?g) + length (structural (form_data ?g)))) ?s"
    by (simp_all add: one_affect_world_def structural_def grants_def)
  from form_affordances_spec [OF this] show ?thesis
    by (auto simp: structural_def affect_name_def one_affect_world_def)
qed

text \<open>
  C37: the table of primitive forms. Asking for a name that is bound returns its form and
  changes nothing; asking for a new name creates a primitive form of the type at a fresh address,
  bound to the name and to no other, or returns NULL and leaves forms and bindings as they were.
  Asking again returns the same form. Freeing the table frees exactly the forms bound in it,
  each once, and its context.
\<close>

theorem form_table_spec:
  assumes ok: "table_ok w r" and k: "str_key name" and room: "table_room 1 w r"
  shows "(\<exists>p w' s'. root_form_ctx_get_or_create w (Some r) name t s = Some (p, w', s') \<and> table_ok w' r
      \<and> fw_affects w' = fw_affects w
      \<and> (case table w r name of
           Some q \<Rightarrow> p = q \<and> w' = w \<and> s' = s
         | None \<Rightarrow> p = 0 \<and> fw_forms w' = fw_forms w \<and> table w' r = table w r
             \<or> p \<noteq> 0 \<and> fw_forms w p = None \<and> table w' r = (table w r)(name \<mapsto> p)
               \<and> fw_forms w' = (fw_forms w)(p \<mapsto> Form None (Primitive t) []))
      \<and> (p \<noteq> 0 \<longrightarrow> (\<forall>t' s2. root_form_ctx_get_or_create w' (Some r) name t' s2 = Some (p, w', s2))))
    \<and> (\<exists>w'. ak_root_form_ctx_free w (Some r) = Some w' \<and> fw_forms w' = fw_forms w |` (- ran (table w r))
        \<and> fw_affects w' = fw_affects w \<and> fw_contexts w' = (fw_contexts w)(root_ctx r := None))"
proof (rule conjI [OF _ table_free_correct [OF ok]])
  show "\<exists>p w' s'. root_form_ctx_get_or_create w (Some r) name t s = Some (p, w', s') \<and> table_ok w' r
      \<and> fw_affects w' = fw_affects w
      \<and> (case table w r name of
           Some q \<Rightarrow> p = q \<and> w' = w \<and> s' = s
         | None \<Rightarrow> p = 0 \<and> fw_forms w' = fw_forms w \<and> table w' r = table w r
             \<or> p \<noteq> 0 \<and> fw_forms w p = None \<and> table w' r = (table w r)(name \<mapsto> p)
               \<and> fw_forms w' = (fw_forms w)(p \<mapsto> Form None (Primitive t) []))
      \<and> (p \<noteq> 0 \<longrightarrow> (\<forall>t' s2. root_form_ctx_get_or_create w' (Some r) name t' s2 = Some (p, w', s2)))"
  proof (cases "table w r name")
    case (Some q)
    then show ?thesis using get_or_create_bound [OF ok k Some] ok by simp
  next
    case None
    show ?thesis
    proof (cases rule: get_or_create_new [OF ok k None room, of t s])
      case (1 w' s')
      then show ?thesis using None by simp
    next
      case (2 q w' s')
      then have "root_form_ctx_get_or_create w' (Some r) name t' s2 = Some (q, w', s2)" for t' s2
        using get_or_create_bound [OF 2(2) k, of q] by simp
      with 2 None show ?thesis by simp
    qed
  qed
qed

definition empty_table_world :: form_world where
  "empty_table_world = \<lparr>fw_forms = Map.empty, fw_affects = Map.empty,
     fw_lambdas = \<lparr>lw_lambdas = Map.empty, lw_calls = []\<rparr>, fw_contexts = [11 \<mapsto> new_context]\<rparr>"

lemma fresh_table_ok: "table_ok empty_table_world \<lparr>root_ctx = 11\<rparr>"
  "table_room 1 empty_table_world \<lparr>root_ctx = 11\<rparr>" "table empty_table_world \<lparr>root_ctx = 11\<rparr> = Map.empty"
proof -
  have "ctx_record_ok new_context"
    using new_record_ok [of None] by (simp add: new_context_def)
  moreover have "ctx_chain [11 \<mapsto> new_context] (Some 11) [11]"
    by (rule chain_step [of _ _ new_context]) (auto simp: new_context_def intro: chain_root)
  ultimately have st: "store_ok [11 \<mapsto> new_context]" by (auto simp: store_ok_def)
  show tab: "table empty_table_world \<lparr>root_ctx = 11\<rparr> = Map.empty"
    by (simp add: empty_table_world_def scope_def new_context_def map_init_ok)
  show "table_ok empty_table_world \<lparr>root_ctx = 11\<rparr>"
    unfolding table_ok_def tab using st by (simp add: empty_table_world_def)
  show "table_room 1 empty_table_world \<lparr>root_ctx = 11\<rparr>"
    by (simp add: table_room_def empty_table_world_def new_context_def map_room_def map_init_generic_def)
qed

theorem form_table_spec_witness:
  "\<exists>p w' s'. root_form_ctx_get_or_create empty_table_world (Some \<lparr>root_ctx = 11\<rparr>) (lit ''u16'')
      AK_FORM_PRIMITIVE_U16 (replicate 3 (Some (\<lambda>_. 21))) = Some (p, w', s') \<and> table_ok w' \<lparr>root_ctx = 11\<rparr>
    \<and> (p \<noteq> 0 \<longrightarrow> root_form_ctx_get_or_create w' (Some \<lparr>root_ctx = 11\<rparr>) (lit ''u16'')
        AK_FORM_PRIMITIVE_U16 [] = Some (p, w', []))"
proof -
  have "str_key (lit ''u16'')" by (simp add: str_key_def lit_def)
  from form_table_spec [OF fresh_table_ok(1) this fresh_table_ok(2)] show ?thesis by blast
qed

text \<open>
  The built-in operations of instances, given a result cell. Below \<open>2 ^ 31\<close> items, when the
  allocator grants the calls, append and push add the value at the end, and pop then takes it
  away and returns it; pop of an empty instance returns NULL; index returns the item at the
  position and NULL outside; rest yields items behind the first in their order. In a map
  instance, a value stored under a key is found under it, and the values under all other keys
  stay. Without a result cell, which is how the attached lambdas are built, the operations
  that return a value have no defined result.
\<close>

theorem form_builtins_spec:
  assumes ri: "list_ok (ri_items ri)" "list_count (ri_items ri) < 2 ^ 31" "grants_cell (cells (ri_items ri)) s"
    and li: "list_ok (li_items li)"
    and mi: "map_ok (mem_key 8) (mi_items mi)" "cmp_fn (mi_items mi) = map_cmp_mem" "ksize (mi_items mi) = 8"
      "nbuckets (mi_items mi) < 2 ^ 30" "ms = Some g1 # Some g2 # ms'"
    and keys: "key < SIZE_RANGE" "other < SIZE_RANGE"
  shows "(\<exists>ri' s' ri''. builtin_push_fn ri v s = Some (ri', s') \<and> builtin_append_fn ri v s = Some (ri', s')
      \<and> list_view (ri_items ri') = list_view (ri_items ri) @ [v]
      \<and> builtin_pop_fn True ri' = Some (Pointer_value v, ri'')
      \<and> list_view (ri_items ri'') = list_view (ri_items ri))
    \<and> (\<forall>u. builtin_rest_fn True ri (Some g # s) \<noteq> None \<and>
          (builtin_rest_fn True ri (Some g # s) = Some u \<longrightarrow> (\<exists>rest s2. u = (Instance_value rest, s2)
            \<and> subseq (list_view (ri_items rest)) (tl (list_view (ri_items ri))))))
    \<and> builtin_list_index_fn True li i = Some (Pointer_value
        (if i < length (list_view (li_items li)) then list_view (li_items li) ! i else 0))
    \<and> (\<exists>mi' ms2. builtin_map_set_fn mi key v ms = Some (mi', ms2)
        \<and> builtin_map_get_fn True mi' key = Some (Pointer_value v)
        \<and> (other \<noteq> key \<longrightarrow> builtin_map_get_fn True mi' other = builtin_map_get_fn True mi other))
    \<and> builtin_pop_fn False ri = None \<and> builtin_list_index_fn False li i = None
    \<and> builtin_map_get_fn False mi key = None"
proof (intro conjI allI)
  obtain ri' s' where push: "builtin_push_fn ri v s = Some (ri', s')"
      "builtin_append_fn ri v s = Some (ri', s')" "list_ok (ri_items ri')"
      "list_view (ri_items ri') = list_view (ri_items ri) @ [v]"
    by (rule push_builtin_correct [OF ri])
  obtain ri'' where "builtin_pop_fn True ri' = Some (Pointer_value
      (if list_view (ri_items ri') = [] then 0 else last (list_view (ri_items ri'))), ri'')"
      "list_ok (ri_items ri'')" "list_view (ri_items ri'') = butlast (list_view (ri_items ri'))"
    by (rule pop_builtin_correct [OF push(3)])
  then show "\<exists>ri' s' ri''. builtin_push_fn ri v s = Some (ri', s') \<and> builtin_append_fn ri v s = Some (ri', s')
      \<and> list_view (ri_items ri') = list_view (ri_items ri) @ [v]
      \<and> builtin_pop_fn True ri' = Some (Pointer_value v, ri'')
      \<and> list_view (ri_items ri'') = list_view (ri_items ri)"
    using push by auto
next
  obtain rest s2 where run: "builtin_rest_fn True ri (Some g # s) = Some (Instance_value rest, s2)"
      "subseq (list_view (ri_items rest)) (tl (list_view (ri_items ri)))"
    by (rule rest_builtin_correct [OF ri(1,2)])
  fix u
  show "builtin_rest_fn True ri (Some g # s) \<noteq> None" using run by simp
  show "builtin_rest_fn True ri (Some g # s) = Some u \<longrightarrow> (\<exists>rest s2. u = (Instance_value rest, s2)
      \<and> subseq (list_view (ri_items rest)) (tl (list_view (ri_items ri))))"
    using run by auto
next
  show "builtin_list_index_fn True li i = Some (Pointer_value
      (if i < length (list_view (li_items li)) then list_view (li_items li) ! i else 0))"
    by (rule index_builtin_correct [OF li])
next
  show "\<exists>mi' ms2. builtin_map_set_fn mi key v ms = Some (mi', ms2)
        \<and> builtin_map_get_fn True mi' key = Some (Pointer_value v)
        \<and> (other \<noteq> key \<longrightarrow> builtin_map_get_fn True mi' other = builtin_map_get_fn True mi other)"
    "builtin_map_get_fn False mi key = None"
    by (rule map_builtins_correct [OF mi keys])+
next
  show "builtin_pop_fn False ri = None" "builtin_list_index_fn False li i = None"
    by (auto simp: builtin_pop_fn_def builtin_list_index_fn_def bind_eq_None_conv split: prod.splits)
qed

theorem form_builtins_spec_witness:
  "\<exists>ri' s' ri''. builtin_push_fn \<lparr>ri_form = 0, ri_items = list_init 8\<rparr> 33
      [Some (\<lambda>_. 21), Some (\<lambda>_. 22)] = Some (ri', s')
    \<and> builtin_pop_fn True ri' = Some (Pointer_value 33, ri'') \<and> list_view (ri_items ri'') = []"
proof -
  let ?ri = "\<lparr>ri_form = 0, ri_items = list_init 8\<rparr> :: ak_repeatable_instance"
  let ?li = "\<lparr>li_form = 0, li_items = list_init 8\<rparr> :: ak_list_instance"
  let ?mi = "\<lparr>mi_form = 0, mi_items = map_init_generic 8 map_hash_u64 map_cmp_mem\<rparr> :: ak_map_instance"
  let ?s = "[Some (\<lambda>_. 21), Some (\<lambda>_. 22)] :: ptr_sched"
  have 1: "list_ok (ri_items ?ri)" "list_count (ri_items ?ri) < 2 ^ 31" "grants_cell (cells (ri_items ?ri)) ?s"
    "list_ok (li_items ?li)"
    by (simp_all add: list_init_ok) (simp_all add: list_init_def grants_cell_def)
  have 2: "map_ok (mem_key 8) (mi_items ?mi)" "cmp_fn (mi_items ?mi) = map_cmp_mem" "ksize (mi_items ?mi) = 8"
    "nbuckets (mi_items ?mi) < 2 ^ 30"
    by (simp_all add: map_init_ok) (simp_all add: map_init_generic_def)
  have "(11 :: nat) < SIZE_RANGE" "(12 :: nat) < SIZE_RANGE" by simp_all
  from form_builtins_spec [OF 1 2 refl this, THEN conjunct1, of 33] show ?thesis
    by (auto simp: list_init_ok)
qed

end
