(* ===== verification/Threads.thy ===== *)
theory Threads
  imports Lambda
begin

text \<open>
  Model of kernel/threads/src/threads.c: a pool of worker threads that take tasks from a
  bounded queue. The code between lock and unlock is a function on the memory of the pool
  (\<open>pool_mem\<close>: the pool, the queue's nodes, the tasks and the lambdas, each a store by
  address). The threads are a transition system: a step of a worker is one access (the lock,
  the test of the wait condition with the mutex held, the wait, each stage of a task outside
  the lock), a step of a client is one critical section of enqueue or wait, and the thread that
  creates and frees the pool has the steps of \<open>ak_thread_pool_new\<close> and
  \<open>ak_thread_pool_free\<close>. A signal wakes one waiting worker, a broadcast all of them, and a
  waiting worker may wake up spuriously, as POSIX allows.

  The lemmas show that the queue of nodes is a queue, that the tasks are started in the order
  they were accepted and each is run once by one worker and freed once, that the counters are
  those of the threads, that no wake-up is lost once the pool is returned, and that the
  shutdown ends with every accepted task done.
\<close>

section \<open>Definitions\<close>

datatype ak_task_state = TASK_PENDING | TASK_RUNNING | TASK_COMPLETED | TASK_CANCELLED | TASK_FAILED

datatype ak_pool_state = POOL_INITIALIZING | POOL_RUNNING | POOL_SHUTTING_DOWN | POOL_TERMINATED

fun task_state_code :: "ak_task_state \<Rightarrow> nat" where
  "task_state_code TASK_PENDING = 0"
| "task_state_code TASK_RUNNING = 1"
| "task_state_code TASK_COMPLETED = 2"
| "task_state_code TASK_CANCELLED = 3"
| "task_state_code TASK_FAILED = 4"

fun ak_task_state_str :: "ak_task_state \<Rightarrow> string" where
  "ak_task_state_str TASK_PENDING = ''PENDING''"
| "ak_task_state_str TASK_RUNNING = ''RUNNING''"
| "ak_task_state_str TASK_COMPLETED = ''COMPLETED''"
| "ak_task_state_str TASK_CANCELLED = ''CANCELLED''"
| "ak_task_state_str TASK_FAILED = ''FAILED''"

fun ak_pool_state_str :: "ak_pool_state \<Rightarrow> string" where
  "ak_pool_state_str POOL_INITIALIZING = ''INITIALIZING''"
| "ak_pool_state_str POOL_RUNNING = ''RUNNING''"
| "ak_pool_state_str POOL_SHUTTING_DOWN = ''SHUTTING_DOWN''"
| "ak_pool_state_str POOL_TERMINATED = ''TERMINATED''"

record ak_task_node =
  node_task :: nat
  node_next :: nat

record ak_task =
  task_lambda :: nat
  completion_callback :: nat
  task_state :: ak_task_state

record ak_thread_pool_config =
  cfg_max_workers :: nat
  cfg_max_queue_size :: nat

text \<open>The workers are an array of \<open>workers_room\<close> threads; the threads themselves are below.\<close>

record ak_thread_pool =
  max_workers :: nat
  max_queue_size :: nat
  workers_room :: nat
  worker_count :: nat
  active_count :: nat
  queue_head :: nat
  queue_tail :: nat
  queue_size :: nat
  pool_state :: ak_pool_state

record pool_mem =
  pm_pool :: ak_thread_pool
  pm_nodes :: "nat \<rightharpoonup> ak_task_node"
  pm_tasks :: "nat \<rightharpoonup> ak_task"
  pm_world :: lambda_world

definition sz_pred :: "nat \<Rightarrow> nat" where
  "sz_pred n = (n + (SIZE_RANGE - 1)) mod SIZE_RANGE"

subsection \<open>Tasks\<close>

definition task_transition_state ::
  "pool_mem \<Rightarrow> nat \<Rightarrow> ak_task_state \<Rightarrow> ak_task_state \<Rightarrow> (int \<times> pool_mem) option" where
  "task_transition_state m t from to =
     (if t = 0 then Some (-1, m)
      else do {
        r \<leftarrow> pm_tasks m t;
        Some (if task_state r \<noteq> from then (-1, m)
              else (0, m\<lparr>pm_tasks := (pm_tasks m)(t \<mapsto> r\<lparr>task_state := to\<rparr>)\<rparr>))
      })"

definition task_get_state :: "pool_mem \<Rightarrow> nat \<Rightarrow> ak_task_state option" where
  "task_get_state m t = (if t = 0 then Some TASK_FAILED else map_option task_state (pm_tasks m t))"

text \<open>The outcome of the initialisation of the task's mutex is an entry of the schedule too.\<close>

definition task_new ::
  "pool_mem \<Rightarrow> nat \<Rightarrow> nat \<Rightarrow> ptr_sched \<Rightarrow> nat \<times> pool_mem \<times> ptr_sched" where
  "task_new m l c s =
     (if l = 0 then (0, m, s)
      else case alloc_cell (pm_tasks m) s of
        (None, s1) \<Rightarrow> (0, m, s1)
      | (Some t, s1) \<Rightarrow>
         (case sys_alloc s1 of
            (None, s2) \<Rightarrow> (0, m, s2)
          | (Some _, s2) \<Rightarrow>
              (t, m\<lparr>pm_tasks := (pm_tasks m)(t \<mapsto>
                     \<lparr>task_lambda = l, completion_callback = c, task_state = TASK_PENDING\<rparr>)\<rparr>, s2)))"

definition task_free :: "pool_mem \<Rightarrow> nat \<Rightarrow> pool_mem option" where
  "task_free m t =
     (if t = 0 then Some m
      else do {
        r \<leftarrow> pm_tasks m t;
        w1 \<leftarrow> (if task_lambda r \<noteq> 0 then ak_lambda_free (pm_world m) (task_lambda r) else Some (pm_world m));
        w2 \<leftarrow> (if completion_callback r \<noteq> 0 then ak_lambda_free w1 (completion_callback r) else Some w1);
        Some (m\<lparr>pm_tasks := (pm_tasks m)(t := None), pm_world := w2\<rparr>)
      })"

text \<open>
  The stages of a task in a worker: before the transition to RUNNING, before the call of the
  lambda, before the transition to COMPLETED, before the completion callback, before the
  task is freed. Each stage is one step, since other threads run between them. The argument of
  the callback is a pointer to the final state; the model passes the state's number.
\<close>

datatype task_pc = T_start | T_invoke | T_finish | T_callback | T_free

datatype worker_pc = W_lock | W_check | W_wait | W_waiting | W_task task_pc nat | W_done | W_exited

fun task_stage :: "task_pc \<Rightarrow> nat \<Rightarrow> pool_mem \<Rightarrow> (worker_pc \<times> pool_mem) option" where
  "task_stage T_start t m = do {
     (r, m') \<leftarrow> task_transition_state m t TASK_PENDING TASK_RUNNING;
     Some (W_task (if r \<noteq> 0 then T_free else T_invoke) t, m')
   }"
| "task_stage T_invoke t m = do {
     r \<leftarrow> pm_tasks m t;
     w \<leftarrow> ak_lambda_invoke (pm_world m) (task_lambda r) 0;
     Some (W_task T_finish t, m\<lparr>pm_world := w\<rparr>)
   }"
| "task_stage T_finish t m = do {
     (r, m') \<leftarrow> task_transition_state m t TASK_RUNNING TASK_COMPLETED;
     if r \<noteq> 0 then do {
       k \<leftarrow> pm_tasks m' t;
       Some (W_task T_callback t, m'\<lparr>pm_tasks := (pm_tasks m')(t \<mapsto> k\<lparr>task_state := TASK_FAILED\<rparr>)\<rparr>)
     } else Some (W_task T_callback t, m')
   }"
| "task_stage T_callback t m = do {
     r \<leftarrow> pm_tasks m t;
     if completion_callback r \<noteq> 0 then do {
       final_state \<leftarrow> task_get_state m t;
       w \<leftarrow> ak_lambda_invoke (pm_world m) (completion_callback r) (task_state_code final_state);
       Some (W_task T_free t, m\<lparr>pm_world := w\<rparr>)
     } else Some (W_task T_free t, m)
   }"
| "task_stage T_free t m = do {
     m' \<leftarrow> task_free m t;
     Some (W_done, m')
   }"

subsection \<open>The queue and the critical sections\<close>

definition pool_dequeue_task :: "pool_mem \<Rightarrow> (nat \<times> pool_mem) option" where
  "pool_dequeue_task m =
     (let p = pm_pool m in
      if queue_head p = 0 then Some (0, m)
      else do {
        node \<leftarrow> pm_nodes m (queue_head p);
        let h = node_next node;
        nodes \<leftarrow> free_cell (pm_nodes m) (queue_head p);
        Some (node_task node,
          m\<lparr>pm_nodes := nodes,
            pm_pool := p\<lparr>queue_head := h, queue_tail := (if h = 0 then 0 else queue_tail p),
                         queue_size := sz_pred (queue_size p)\<rparr>\<rparr>)
      })"

text \<open>
  The worker with the mutex held: it decides to wait, leaves, or takes a task. The second
  component says where it goes.
\<close>

definition worker_check :: "pool_mem \<Rightarrow> (worker_pc \<times> pool_mem) option" where
  "worker_check m =
     (let p = pm_pool m in
      if pool_state p = POOL_RUNNING \<and> queue_size p = 0 then Some (W_wait, m)
      else if pool_state p \<noteq> POOL_RUNNING \<and> queue_size p = 0 then Some (W_exited, m)
      else do {
        (t, m1) \<leftarrow> pool_dequeue_task m;
        Some (if t = 0 then W_done else W_task T_start t,
              m1\<lparr>pm_pool := (pm_pool m1)\<lparr>active_count := sz_add (active_count (pm_pool m1)) 1\<rparr>\<rparr>)
      })"

text \<open>After a task: the result says whether the completion of all work is broadcast.\<close>

definition worker_done :: "pool_mem \<Rightarrow> bool \<times> pool_mem" where
  "worker_done m =
     (let p = pm_pool m; a = sz_pred (active_count p)
      in (queue_size p = 0 \<and> a = 0, m\<lparr>pm_pool := p\<lparr>active_count := a\<rparr>\<rparr>))"

definition ak_thread_pool_config_default :: ak_thread_pool_config where
  "ak_thread_pool_config_default = \<lparr>cfg_max_workers = 8, cfg_max_queue_size = 0\<rparr>"

text \<open>
  The creation of a pool up to the start of the threads. The schedule answers for the pool,
  the mutex, the two conditions and the array of threads (8 bytes each).
\<close>

definition pool_init ::
  "ak_thread_pool_config option \<Rightarrow> ptr_sched \<Rightarrow> ak_thread_pool option \<times> ptr_sched" where
  "pool_init config s =
     (let cfg = (case config of None \<Rightarrow> ak_thread_pool_config_default | Some c \<Rightarrow> c) in
      if cfg_max_workers cfg = 0 then (None, s)
      else case sys_alloc s of (None, s1) \<Rightarrow> (None, s1) | (Some _, s1) \<Rightarrow>
        (case sys_alloc s1 of (None, s2) \<Rightarrow> (None, s2) | (Some _, s2) \<Rightarrow>
          (case sys_alloc s2 of (None, s3) \<Rightarrow> (None, s3) | (Some _, s3) \<Rightarrow>
            (case sys_alloc s3 of (None, s4) \<Rightarrow> (None, s4) | (Some _, s4) \<Rightarrow>
              (case sys_alloc s4 of (None, s5) \<Rightarrow> (None, s5) | (Some _, s5) \<Rightarrow>
                (Some \<lparr>max_workers = cfg_max_workers cfg, max_queue_size = cfg_max_queue_size cfg,
                       workers_room = sz_mul 8 (cfg_max_workers cfg) div 8,
                       worker_count = cfg_max_workers cfg, active_count = 0,
                       queue_head = 0, queue_tail = 0, queue_size = 0,
                       pool_state = POOL_RUNNING\<rparr>, s5))))))"

text \<open>Linking a new node behind the tail, the last part of an enqueue.\<close>

definition queue_append :: "pool_mem \<Rightarrow> nat \<Rightarrow> nat \<Rightarrow> pool_mem option" where
  "queue_append m node t =
     (let p = pm_pool m; nodes = (pm_nodes m)(node \<mapsto> \<lparr>node_task = t, node_next = 0\<rparr>) in
      do {
        (nodes', h) \<leftarrow>
          (if queue_tail p \<noteq> 0 then do {
             r \<leftarrow> nodes (queue_tail p);
             Some (nodes(queue_tail p \<mapsto> r\<lparr>node_next := node\<rparr>), queue_head p)
           } else Some (nodes, node));
        Some (m\<lparr>pm_nodes := nodes',
                pm_pool := p\<lparr>queue_head := h, queue_tail := node, queue_size := sz_add (queue_size p) 1\<rparr>\<rparr>)
      })"

definition enqueue_locked ::
  "pool_mem \<Rightarrow> nat \<Rightarrow> nat \<Rightarrow> ptr_sched \<Rightarrow> (int \<times> pool_mem \<times> ptr_sched) option" where
  "enqueue_locked m l c s =
     (let p = pm_pool m in
      if pool_state p \<noteq> POOL_RUNNING then Some (-1, m, s)
      else if max_queue_size p > 0 \<and> queue_size p \<ge> max_queue_size p then Some (-1, m, s)
      else case task_new m l c s of (t, m1, s1) \<Rightarrow>
        if t = 0 then Some (-1, m1, s1)
        else case alloc_cell (pm_nodes m1) s1 of
          (None, s2) \<Rightarrow> do { m2 \<leftarrow> task_free m1 t; Some (-1, m2, s2) }
        | (Some node, s2) \<Rightarrow> do { m2 \<leftarrow> queue_append m1 node t; Some (0, m2, s2) })"

definition ak_thread_pool_enqueue ::
  "pool_mem option \<Rightarrow> nat \<Rightarrow> nat \<Rightarrow> ptr_sched \<Rightarrow> (int \<times> pool_mem option \<times> ptr_sched) option" where
  "ak_thread_pool_enqueue pool l c s =
     (case pool of
        None \<Rightarrow> Some (-1, None, s)
      | Some m \<Rightarrow>
          if l = 0 then Some (-1, Some m, s)
          else do { (r, m', s') \<leftarrow> enqueue_locked m l c s; Some (r, Some m', s') })"

definition ak_thread_pool_pending_count :: "pool_mem option \<Rightarrow> nat" where
  "ak_thread_pool_pending_count pool = (case pool of None \<Rightarrow> 0 | Some m \<Rightarrow> queue_size (pm_pool m))"

definition ak_thread_pool_active_count :: "pool_mem option \<Rightarrow> nat" where
  "ak_thread_pool_active_count pool = (case pool of None \<Rightarrow> 0 | Some m \<Rightarrow> active_count (pm_pool m))"

definition ak_thread_pool_get_state :: "pool_mem option \<Rightarrow> ak_pool_state" where
  "ak_thread_pool_get_state pool =
     (case pool of None \<Rightarrow> POOL_TERMINATED | Some m \<Rightarrow> pool_state (pm_pool m))"

definition set_state :: "ak_pool_state \<Rightarrow> pool_mem \<Rightarrow> pool_mem" where
  "set_state st m = m\<lparr>pm_pool := (pm_pool m)\<lparr>pool_state := st\<rparr>\<rparr>"

text \<open>The last part of \<open>ak_thread_pool_free\<close>: what is left in the queue is freed.\<close>

partial_function (option) drain_queue :: "pool_mem \<Rightarrow> pool_mem option" where
  "drain_queue m =
     (if queue_head (pm_pool m) = 0 then Some m
      else do {
        (t, m1) \<leftarrow> pool_dequeue_task m;
        m2 \<leftarrow> (if t \<noteq> 0 then task_free m1 t else Some m1);
        drain_queue m2
      })"

subsection \<open>The threads\<close>

text \<open>
  The thread that owns the pool: it creates the workers, gives up after a failed creation
  (set the state, broadcast, join), returns the pool, and later frees it (shut down, join,
  terminate, drain). A client thread is in no call of wait, asleep in one, or woken.
\<close>

datatype main_pc = M_creating | M_failing | M_abandon nat | M_running | M_joining nat | M_draining | M_gone

datatype client_pc = C_out | C_waiting | C_woken

text \<open>
  A job is what a task runs: its lambda and its callback. The last four fields record the
  jobs that were accepted, started (in this order), finished, and freed by an enqueue that
  failed after it had made the task.
\<close>

type_synonym job = "ak_lambda \<times> ak_lambda option"

record pool_sys =
  ps_mem :: pool_mem
  ps_owner :: "nat option"
  ps_workers :: "worker_pc list"
  ps_main :: main_pc
  ps_clients :: "nat \<Rightarrow> client_pc"
  ps_accepted :: "job list"
  ps_started :: "job list"
  ps_finished :: "job list"
  ps_dropped :: "job list"

definition pool_start :: "ak_thread_pool \<Rightarrow> lambda_world \<Rightarrow> pool_sys" where
  "pool_start p w =
     \<lparr>ps_mem = \<lparr>pm_pool = p, pm_nodes = Map.empty, pm_tasks = Map.empty, pm_world = w\<rparr>,
      ps_owner = None, ps_workers = [], ps_main = M_creating, ps_clients = (\<lambda>_. C_out),
      ps_accepted = [], ps_started = [], ps_finished = [], ps_dropped = []\<rparr>"

definition job_at :: "lambda_world \<Rightarrow> nat \<Rightarrow> nat \<Rightarrow> job" where
  "job_at w l c = (the (lw_lambdas w l), if c = 0 then None else lw_lambdas w c)"

definition job_of :: "pool_mem \<Rightarrow> nat \<Rightarrow> job" where
  "job_of m t = (case pm_tasks m t of Some r \<Rightarrow> job_at (pm_world m) (task_lambda r) (completion_callback r))"

text \<open>The lambdas a task holds.\<close>

definition held :: "ak_task \<Rightarrow> nat list" where
  "held r = task_lambda r # (if completion_callback r = 0 then [] else [completion_callback r])"

definition wake_all :: "worker_pc list \<Rightarrow> worker_pc list" where
  "wake_all ws = map (\<lambda>pc. if pc = W_waiting then W_lock else pc) ws"

definition wake_clients :: "(nat \<Rightarrow> client_pc) \<Rightarrow> nat \<Rightarrow> client_pc" where
  "wake_clients cs = (\<lambda>c. if cs c = C_waiting then C_woken else cs c)"

inductive signal :: "worker_pc list \<Rightarrow> worker_pc list \<Rightarrow> bool" where
  nobody: "W_waiting \<notin> set ws \<Longrightarrow> signal ws ws"
| one: "i < length ws \<Longrightarrow> ws ! i = W_waiting \<Longrightarrow> signal ws (ws[i := W_lock])"

text \<open>The steps of the worker \<open>i\<close>.\<close>

inductive worker_step :: "pool_sys \<Rightarrow> nat \<Rightarrow> pool_sys \<Rightarrow> bool" where
  w_lock: "i < length (ps_workers s) \<Longrightarrow> ps_workers s ! i = W_lock \<Longrightarrow> ps_owner s = None \<Longrightarrow>
    worker_step s i (s\<lparr>ps_owner := Some i, ps_workers := (ps_workers s)[i := W_check]\<rparr>)"
| w_idle: "i < length (ps_workers s) \<Longrightarrow> ps_workers s ! i = W_check \<Longrightarrow>
    worker_check (ps_mem s) = Some (W_wait, m) \<Longrightarrow>
    worker_step s i (s\<lparr>ps_mem := m, ps_workers := (ps_workers s)[i := W_wait]\<rparr>)"
| w_exit: "i < length (ps_workers s) \<Longrightarrow> ps_workers s ! i = W_check \<Longrightarrow>
    worker_check (ps_mem s) = Some (W_exited, m) \<Longrightarrow>
    worker_step s i (s\<lparr>ps_mem := m, ps_owner := None, ps_workers := (ps_workers s)[i := W_exited]\<rparr>)"
| w_nothing: "i < length (ps_workers s) \<Longrightarrow> ps_workers s ! i = W_check \<Longrightarrow>
    worker_check (ps_mem s) = Some (W_done, m) \<Longrightarrow>
    worker_step s i (s\<lparr>ps_mem := m, ps_owner := None, ps_workers := (ps_workers s)[i := W_done]\<rparr>)"
| w_take: "i < length (ps_workers s) \<Longrightarrow> ps_workers s ! i = W_check \<Longrightarrow>
    worker_check (ps_mem s) = Some (W_task T_start t, m) \<Longrightarrow>
    worker_step s i (s\<lparr>ps_mem := m, ps_owner := None, ps_workers := (ps_workers s)[i := W_task T_start t],
                       ps_started := ps_started s @ [job_of (ps_mem s) t]\<rparr>)"
| w_sleep: "i < length (ps_workers s) \<Longrightarrow> ps_workers s ! i = W_wait \<Longrightarrow>
    worker_step s i (s\<lparr>ps_owner := None, ps_workers := (ps_workers s)[i := W_waiting]\<rparr>)"
| w_stage: "i < length (ps_workers s) \<Longrightarrow> ps_workers s ! i = W_task pc t \<Longrightarrow>
    task_stage pc t (ps_mem s) = Some (pc', m) \<Longrightarrow>
    worker_step s i (s\<lparr>ps_mem := m, ps_workers := (ps_workers s)[i := pc'],
                       ps_finished := ps_finished s @ (if pc = T_free then [job_of (ps_mem s) t] else [])\<rparr>)"
| w_done: "i < length (ps_workers s) \<Longrightarrow> ps_workers s ! i = W_done \<Longrightarrow> ps_owner s = None \<Longrightarrow>
    worker_done (ps_mem s) = (all_done, m) \<Longrightarrow>
    worker_step s i (s\<lparr>ps_mem := m, ps_workers := (ps_workers s)[i := W_lock],
                       ps_clients := (if all_done then wake_clients (ps_clients s) else ps_clients s)\<rparr>)"

inductive spurious_step :: "pool_sys \<Rightarrow> pool_sys \<Rightarrow> bool" where
  s_wake: "i < length (ps_workers s) \<Longrightarrow> ps_workers s ! i = W_waiting \<Longrightarrow>
    spurious_step s (s\<lparr>ps_workers := (ps_workers s)[i := W_lock]\<rparr>)"
| s_client: "ps_clients s c = C_waiting \<Longrightarrow>
    spurious_step s (s\<lparr>ps_clients := (ps_clients s)(c := C_woken)\<rparr>)"

text \<open>
  The pool may be used from its return to the end of the joins. A caller of enqueue hands over
  live lambdas that no task holds. The address space has no room for \<open>2 ^ 64\<close> nodes.
\<close>

fun usable :: "main_pc \<Rightarrow> bool" where
  "usable M_running \<longleftrightarrow> True"
| "usable (M_joining n) \<longleftrightarrow> True"
| "usable _ \<longleftrightarrow> False"

definition may_hand :: "pool_mem \<Rightarrow> nat \<Rightarrow> nat \<Rightarrow> bool" where
  "may_hand m l c \<longleftrightarrow> l \<noteq> 0 \<and> l \<noteq> c \<and> lw_lambdas (pm_world m) l \<noteq> None
     \<and> (c = 0 \<or> lw_lambdas (pm_world m) c \<noteq> None)
     \<and> (\<forall>t r. pm_tasks m t = Some r \<longrightarrow> l \<notin> set (held r) \<and> c \<notin> set (held r))"

inductive client_step :: "pool_sys \<Rightarrow> pool_sys \<Rightarrow> bool" where
  c_enqueue: "usable (ps_main s) \<Longrightarrow> ps_owner s = None \<Longrightarrow> may_hand (ps_mem s) l c \<Longrightarrow>
    queue_size (pm_pool (ps_mem s)) + 1 < SIZE_RANGE \<Longrightarrow>
    enqueue_locked (ps_mem s) l c sch = Some (0, m, sch') \<Longrightarrow> signal (ps_workers s) ws \<Longrightarrow>
    client_step s (s\<lparr>ps_mem := m, ps_workers := ws,
                     ps_accepted := ps_accepted s @ [job_at (pm_world (ps_mem s)) l c]\<rparr>)"
| c_refused: "usable (ps_main s) \<Longrightarrow> ps_owner s = None \<Longrightarrow> may_hand (ps_mem s) l c \<Longrightarrow>
    queue_size (pm_pool (ps_mem s)) + 1 < SIZE_RANGE \<Longrightarrow>
    enqueue_locked (ps_mem s) l c sch = Some (-1, m, sch') \<Longrightarrow>
    client_step s (s\<lparr>ps_mem := m,
                     ps_dropped := ps_dropped s @
                       (if lw_lambdas (pm_world m) l = None then [job_at (pm_world (ps_mem s)) l c] else [])\<rparr>)"
| c_sleep: "usable (ps_main s) \<Longrightarrow> ps_owner s = None \<Longrightarrow> ps_clients s c \<noteq> C_waiting \<Longrightarrow>
    queue_size (pm_pool (ps_mem s)) > 0 \<or> active_count (pm_pool (ps_mem s)) > 0 \<Longrightarrow>
    client_step s (s\<lparr>ps_clients := (ps_clients s)(c := C_waiting)\<rparr>)"
| c_return: "usable (ps_main s) \<Longrightarrow> ps_owner s = None \<Longrightarrow> ps_clients s c \<noteq> C_waiting \<Longrightarrow>
    \<not> (queue_size (pm_pool (ps_mem s)) > 0 \<or> active_count (pm_pool (ps_mem s)) > 0) \<Longrightarrow>
    client_step s (s\<lparr>ps_clients := (ps_clients s)(c := C_out)\<rparr>)"
| c_lambda: "ak_lambda_new (pm_world (ps_mem s)) fn ctx free sch = (a, w, sch') \<Longrightarrow>
    client_step s (s\<lparr>ps_mem := (ps_mem s)\<lparr>pm_world := w\<rparr>\<rparr>)"

text \<open>
  The owner of the pool in \<open>ak_thread_pool_new\<close>, from the start of the threads on. The failing
  path sets the state and broadcasts without the mutex.
\<close>

inductive create_step :: "pool_sys \<Rightarrow> pool_sys \<Rightarrow> bool" where
  m_create: "ps_main s = M_creating \<Longrightarrow> length (ps_workers s) < worker_count (pm_pool (ps_mem s)) \<Longrightarrow>
    length (ps_workers s) < workers_room (pm_pool (ps_mem s)) \<Longrightarrow>
    create_step s (s\<lparr>ps_workers := ps_workers s @ [W_lock]\<rparr>)"
| m_create_fails: "ps_main s = M_creating \<Longrightarrow> length (ps_workers s) < worker_count (pm_pool (ps_mem s)) \<Longrightarrow>
    create_step s (s\<lparr>ps_mem := set_state POOL_SHUTTING_DOWN (ps_mem s), ps_main := M_failing\<rparr>)"
| m_broadcast: "ps_main s = M_failing \<Longrightarrow>
    create_step s (s\<lparr>ps_workers := wake_all (ps_workers s), ps_main := M_abandon 0\<rparr>)"
| m_abandon: "ps_main s = M_abandon j \<Longrightarrow> j < length (ps_workers s) \<Longrightarrow> ps_workers s ! j = W_exited \<Longrightarrow>
    create_step s (s\<lparr>ps_main := M_abandon (Suc j)\<rparr>)"
| m_abandoned: "ps_main s = M_abandon (length (ps_workers s)) \<Longrightarrow> create_step s (s\<lparr>ps_main := M_gone\<rparr>)"
| m_return: "ps_main s = M_creating \<Longrightarrow> length (ps_workers s) = worker_count (pm_pool (ps_mem s)) \<Longrightarrow>
    create_step s (s\<lparr>ps_main := M_running\<rparr>)"

text \<open>The owner of the pool over its life: the creation, then \<open>ak_thread_pool_free\<close>.\<close>

inductive main_step :: "pool_sys \<Rightarrow> pool_sys \<Rightarrow> bool" where
  m_new: "create_step s s' \<Longrightarrow> main_step s s'"
| m_free: "ps_main s = M_running \<Longrightarrow> ps_owner s = None \<Longrightarrow>
    main_step s (s\<lparr>ps_mem := set_state POOL_SHUTTING_DOWN (ps_mem s),
                   ps_workers := wake_all (ps_workers s), ps_main := M_joining 0\<rparr>)"
| m_join: "ps_main s = M_joining j \<Longrightarrow> j < length (ps_workers s) \<Longrightarrow> ps_workers s ! j = W_exited \<Longrightarrow>
    main_step s (s\<lparr>ps_main := M_joining (Suc j)\<rparr>)"
| m_terminate: "ps_main s = M_joining (length (ps_workers s)) \<Longrightarrow> ps_owner s = None \<Longrightarrow>
    main_step s (s\<lparr>ps_mem := set_state POOL_TERMINATED (ps_mem s), ps_main := M_draining\<rparr>)"
| m_drain: "ps_main s = M_draining \<Longrightarrow> drain_queue (ps_mem s) = Some m \<Longrightarrow>
    main_step s (s\<lparr>ps_mem := m, ps_main := M_gone\<rparr>)"

text \<open>
  The states a pool made with a configuration (whose fields are of type \<open>size_t\<close>) reaches, from
  a given world of lambdas.
\<close>

inductive pool_reach :: "ak_thread_pool_config option \<Rightarrow> lambda_world \<Rightarrow> pool_sys \<Rightarrow> bool" for cfg w where
  start: "pool_init cfg sch = (Some p, sch') \<Longrightarrow> max_workers p < SIZE_RANGE \<Longrightarrow> pool_reach cfg w (pool_start p w)"
| worker: "pool_reach cfg w s \<Longrightarrow> worker_step s i s' \<Longrightarrow> pool_reach cfg w s'"
| spurious: "pool_reach cfg w s \<Longrightarrow> spurious_step s s' \<Longrightarrow> pool_reach cfg w s'"
| client: "pool_reach cfg w s \<Longrightarrow> client_step s s' \<Longrightarrow> pool_reach cfg w s'"
| main: "pool_reach cfg w s \<Longrightarrow> main_step s s' \<Longrightarrow> pool_reach cfg w s'"

section \<open>The queue of nodes\<close>

text \<open>The nodes from \<open>h\<close> on are \<open>ns\<close> and hold the tasks \<open>ts\<close>.\<close>

fun linked :: "(nat \<rightharpoonup> ak_task_node) \<Rightarrow> nat \<Rightarrow> nat list \<Rightarrow> nat list \<Rightarrow> bool" where
  "linked N h [] [] \<longleftrightarrow> h = 0"
| "linked N h (n # ns) (t # ts) \<longleftrightarrow> h = n \<and> n \<noteq> 0 \<and>
     (\<exists>r. N n = Some r \<and> node_task r = t \<and> linked N (node_next r) ns ts)"
| "linked N h _ _ \<longleftrightarrow> False"

definition queue_inv :: "pool_mem \<Rightarrow> nat list \<Rightarrow> nat list \<Rightarrow> bool" where
  "queue_inv m ns q \<longleftrightarrow> linked (pm_nodes m) (queue_head (pm_pool m)) ns q \<and> distinct ns
     \<and> dom (pm_nodes m) = set ns \<and> queue_tail (pm_pool m) = (if ns = [] then 0 else last ns)
     \<and> queue_size (pm_pool m) = length q \<and> length q < SIZE_RANGE"

lemma linked_length: "linked N h ns q \<Longrightarrow> length ns = length q"
  by (induction N h ns q rule: linked.induct) auto

lemma linked_nonzero: "linked N h ns q \<Longrightarrow> 0 \<notin> set ns"
  by (induction N h ns q rule: linked.induct) auto

lemma linked_cong:
  "linked N h ns q \<Longrightarrow> (\<And>n. n \<in> set ns \<Longrightarrow> N' n = N n) \<Longrightarrow> linked N' h ns q"
  by (induction N h ns q rule: linked.induct) auto

lemma linked_snoc:
  assumes "linked N h ns q" and "distinct ns" and "node \<notin> set ns" and "node \<noteq> 0"
    and "N' node = Some \<lparr>node_task = t, node_next = 0\<rparr>"
    and "\<And>n. n \<in> set ns \<Longrightarrow> n \<noteq> last ns \<Longrightarrow> N' n = N n"
    and "ns \<noteq> [] \<Longrightarrow> N' (last ns) = map_option (node_next_update (\<lambda>_. node)) (N (last ns))"
  shows "linked N' (if ns = [] then node else h) (ns @ [node]) (q @ [t])"
  using assms
proof (induction N h ns q rule: linked.induct)
  case (2 N h n ns t' ts)
  then obtain r where r: "h = n" "n \<noteq> 0" "N n = Some r" "node_task r = t'" "linked N (node_next r) ns ts"
    by auto
  have n: "n \<notin> set ns" using 2 by auto
  have IH: "linked N' (if ns = [] then node else node_next r) (ns @ [node]) (ts @ [t])"
    using 2 r n by (intro "2.IH") (auto split: if_splits)
  show ?case
  proof (cases "ns = []")
    case True
    then show ?thesis using 2 r IH by auto
  next
    case False
    then have "n \<noteq> last ns" using n last_in_set by metis
    then have "N' n = Some r" using 2(7) [of n] r n False by auto
    then show ?thesis using r IH False by auto
  qed
qed auto

lemma queue_inv_length: "queue_inv m ns q \<Longrightarrow> length ns = length q"
  by (auto simp: queue_inv_def linked_length)

lemma sz_pred_Suc: "Suc n < SIZE_RANGE \<Longrightarrow> sz_pred (Suc n) = n"
  by (simp add: sz_pred_def)

lemma queue_inv_empty: "queue_inv m ns [] \<Longrightarrow> queue_head (pm_pool m) = 0 \<and> ns = []"
  by (cases ns) (auto simp: queue_inv_def)

text \<open>What the operations on the queue leave as it was.\<close>

definition same_pool :: "ak_thread_pool \<Rightarrow> ak_thread_pool \<Rightarrow> bool" where
  "same_pool p p' \<longleftrightarrow> active_count p' = active_count p \<and> pool_state p' = pool_state p
     \<and> worker_count p' = worker_count p \<and> max_queue_size p' = max_queue_size p
     \<and> workers_room p' = workers_room p"

text \<open>Taking the first task and adding one behind the last, on the nodes and on the queue.\<close>

lemma dequeue_queue:
  assumes "queue_inv m ns (t # q)"
  obtains m' where "pool_dequeue_task m = Some (t, m')" "queue_inv m' (tl ns) q"
    "pm_tasks m' = pm_tasks m" "pm_world m' = pm_world m"
    "same_pool (pm_pool m) (pm_pool m')"
proof -
  obtain n ns' where ns: "ns = n # ns'" using queue_inv_length [OF assms] by (cases ns) auto
  then obtain r where r: "queue_head (pm_pool m) = n" "n \<noteq> 0" "pm_nodes m n = Some r" "node_task r = t"
      "linked (pm_nodes m) (node_next r) ns' q"
    using assms by (auto simp: queue_inv_def)
  let ?p = "pm_pool m"
  let ?m = "m\<lparr>pm_nodes := (pm_nodes m)(n := None),
              pm_pool := ?p\<lparr>queue_head := node_next r, queue_tail := (if node_next r = 0 then 0 else queue_tail ?p),
                            queue_size := sz_pred (queue_size ?p)\<rparr>\<rparr>"
  have fresh: "n \<notin> set ns'" using assms ns by (auto simp: queue_inv_def)
  have zero: "node_next r = 0 \<longleftrightarrow> ns' = []" using r(5) by (cases ns'; cases q) auto
  have "linked ((pm_nodes m)(n := None)) (node_next r) ns' q"
    using r(5) by (rule linked_cong) (use fresh in auto)
  then have inv: "queue_inv ?m ns' q"
    using assms ns zero fresh by (auto simp: queue_inv_def sz_pred_Suc)
  show thesis
    by (rule that [of ?m]) (use r ns inv in \<open>auto simp: pool_dequeue_task_def free_cell_def Let_def same_pool_def\<close>)
qed

lemma append_queue:
  assumes "queue_inv m ns q" and "pm_nodes m node = None" and "node \<noteq> 0" and "length q + 1 < SIZE_RANGE"
  obtains m' where "queue_append m node t = Some m'" "queue_inv m' (ns @ [node]) (q @ [t])"
    "pm_tasks m' = pm_tasks m" "pm_world m' = pm_world m"
    "same_pool (pm_pool m) (pm_pool m')"
proof -
  let ?p = "pm_pool m" and ?N = "(pm_nodes m)(node \<mapsto> \<lparr>node_task = t, node_next = 0\<rparr>)"
  let ?N' = "\<lambda>n. if ns \<noteq> [] \<and> n = last ns then map_option (node_next_update (\<lambda>_. node)) (pm_nodes m n) else ?N n"
  have fresh: "node \<notin> set ns" using assms by (auto simp: queue_inv_def)
  have tail: "queue_tail ?p = (if ns = [] then 0 else last ns)" and dom: "dom (pm_nodes m) = set ns"
    using assms(1) by (auto simp: queue_inv_def)
  have nz: "x \<noteq> 0" if "x \<in> set ns" for x
    using assms(1) that linked_nonzero unfolding queue_inv_def by metis
  let ?h = "if ns = [] then node else queue_head ?p"
  let ?m = "m\<lparr>pm_nodes := ?N', pm_pool := ?p\<lparr>queue_head := ?h, queue_tail := node, queue_size := length q + 1\<rparr>\<rparr>"
  have last_node: "last ns \<noteq> node" if "ns \<noteq> []" using fresh that by (metis last_in_set)
  have "linked ?N' ?h (ns @ [node]) (q @ [t])"
    using assms(1,3) fresh last_node
    by (intro linked_snoc [of "pm_nodes m"]) (auto simp: queue_inv_def)
  moreover have "dom ?N' = insert node (set ns)"
    using dom fresh by (auto simp: dom_def split: if_splits)
  ultimately have inv: "queue_inv ?m (ns @ [node]) (q @ [t])"
    using assms(1,4) fresh by (auto simp: queue_inv_def)
  have app: "queue_append m node t = Some ?m"
  proof (cases "ns = []")
    case True
    then show ?thesis using assms(1,4) tail by (simp add: queue_append_def Let_def queue_inv_def sz_add_def fun_upd_def)
  next
    case False
    then obtain r where r: "pm_nodes m (last ns) = Some r" using dom last_in_set by blast
    have "?N' = ?N(last ns \<mapsto> r\<lparr>node_next := node\<rparr>)" using r False by auto
    then show ?thesis
      using assms(1,4) tail False r last_node nz [of "last ns"]
      by (simp add: queue_append_def Let_def queue_inv_def sz_add_def)
  qed
  show thesis by (rule that [OF app inv]) (simp_all add: same_pool_def)
qed

section \<open>Tasks and jobs\<close>

text \<open>
  The state a task has at each stage, the calls a worker has made for a job at each stage,
  and all the calls of a finished job.
\<close>

fun stage_state :: "task_pc \<Rightarrow> ak_task_state" where
  "stage_state T_start = TASK_PENDING"
| "stage_state T_invoke = TASK_RUNNING"
| "stage_state T_finish = TASK_RUNNING"
| "stage_state _ = TASK_COMPLETED"

definition call_of :: "ak_lambda \<Rightarrow> nat \<Rightarrow> lambda_event list" where
  "call_of l args = (if la_fn l = 0 then [] else [Call_fn (la_fn l) (captured_ctx l) args])"

fun run_calls :: "job \<Rightarrow> lambda_event list" where
  "run_calls (l, None) = call_of l 0"
| "run_calls (l, Some c) = call_of l 0 @ call_of c (task_state_code TASK_COMPLETED)"

fun free_calls :: "job \<Rightarrow> lambda_event list" where
  "free_calls (l, None) = free_context l"
| "free_calls (l, Some c) = free_context l @ free_context c"

definition job_calls :: "job \<Rightarrow> lambda_event list" where
  "job_calls j = run_calls j @ free_calls j"

fun stage_calls :: "task_pc \<Rightarrow> job \<Rightarrow> lambda_event list" where
  "stage_calls T_start j = []"
| "stage_calls T_invoke j = []"
| "stage_calls T_finish j = call_of (fst j) 0"
| "stage_calls T_callback j = call_of (fst j) 0"
| "stage_calls T_free j = run_calls j"

fun busy :: "worker_pc \<Rightarrow> bool" where
  "busy (W_task pc t) \<longleftrightarrow> True"
| "busy W_done \<longleftrightarrow> True"
| "busy _ \<longleftrightarrow> False"

fun pc_tasks :: "worker_pc \<Rightarrow> nat multiset" where
  "pc_tasks (W_task pc t) = {#t#}"
| "pc_tasks _ = {#}"

fun pc_jobs :: "pool_mem \<Rightarrow> worker_pc \<Rightarrow> job multiset" where
  "pc_jobs m (W_task pc t) = {#job_of m t#}"
| "pc_jobs m _ = {#}"

fun pc_calls :: "pool_mem \<Rightarrow> worker_pc \<Rightarrow> lambda_event multiset" where
  "pc_calls m (W_task pc t) = mset (stage_calls pc (job_of m t))"
| "pc_calls m _ = {#}"

text \<open>
  The live tasks are those of the queue and those of the busy workers \<open>B\<close>, each once; they
  hold distinct live lambdas.
\<close>

definition tasks_ok :: "pool_mem \<Rightarrow> nat list \<Rightarrow> worker_pc multiset \<Rightarrow> bool" where
  "tasks_ok m q B \<longleftrightarrow> finite (dom (pm_tasks m)) \<and> 0 \<notin> dom (pm_tasks m)
     \<and> mset_set (dom (pm_tasks m)) = mset q + (\<Sum>pc\<in>#B. pc_tasks pc)
     \<and> (\<forall>t \<in> set q. \<forall>r. pm_tasks m t = Some r \<longrightarrow> task_state r = TASK_PENDING)
     \<and> (\<forall>pc t. W_task pc t \<in># B \<longrightarrow> (\<forall>r. pm_tasks m t = Some r \<longrightarrow> task_state r = stage_state pc))"

definition lambdas_ok :: "pool_mem \<Rightarrow> bool" where
  "lambdas_ok m \<longleftrightarrow>
     (\<forall>t r. pm_tasks m t = Some r \<longrightarrow> distinct (held r) \<and> task_lambda r \<noteq> 0
        \<and> set (held r) \<subseteq> dom (lw_lambdas (pm_world m)))
     \<and> (\<forall>t u r k. pm_tasks m t = Some r \<and> pm_tasks m u = Some k \<and> t \<noteq> u \<longrightarrow> set (held r) \<inter> set (held k) = {})"

definition jobs_ok ::
  "lambda_event list \<Rightarrow> pool_mem \<Rightarrow> nat list \<Rightarrow> worker_pc multiset \<Rightarrow>
   job list \<Rightarrow> job list \<Rightarrow> job list \<Rightarrow> job list \<Rightarrow> bool" where
  "jobs_ok calls0 m q B accepted started finished dropped \<longleftrightarrow>
     accepted = started @ map (job_of m) q
     \<and> mset started = mset finished + (\<Sum>pc\<in>#B. pc_jobs m pc)
     \<and> mset (lw_calls (pm_world m)) = mset calls0 + (\<Sum>j\<in>#mset finished. mset (job_calls j))
         + (\<Sum>pc\<in>#B. pc_calls m pc) + (\<Sum>j\<in>#mset dropped. mset (free_calls j))"

lemma sum_mset_cong: "(\<And>x. x \<in># M \<Longrightarrow> f x = g x) \<Longrightarrow> (\<Sum>x\<in>#M. f x) = (\<Sum>x\<in>#M. g x)"
  by (metis image_mset_cong)

lemma in_sum_mset: "x \<in># M \<Longrightarrow> y \<in># f x \<Longrightarrow> y \<in># (\<Sum>x\<in>#M. f x)"
  by (induction M) auto

text \<open>A task that a busy worker runs is live, and no other worker and no queue entry has it.\<close>

lemma running_task:
  assumes ok: "tasks_ok m q (add_mset (W_task pc t) B)"
  obtains r where "pm_tasks m t = Some r" "t \<noteq> 0" "t \<notin> set q" "task_state r = stage_state pc"
    "\<And>pc' u. W_task pc' u \<in># B \<Longrightarrow> u \<noteq> t"
proof -
  define X where "X = mset q + (\<Sum>pc\<in>#B. pc_tasks pc)"
  have eq: "mset_set (dom (pm_tasks m)) = add_mset t X"
    using ok by (simp add: tasks_ok_def X_def)
  have fin: "finite (dom (pm_tasks m))" using ok by (simp add: tasks_ok_def)
  have "t \<in># mset_set (dom (pm_tasks m))" using eq by simp
  then obtain r where r: "pm_tasks m t = Some r" using fin by auto
  have "count (mset_set (dom (pm_tasks m))) t \<le> 1" by (simp add: count_mset_set')
  then have "t \<notin># X" using eq by (simp add: not_in_iff)
  then have notin: "t \<notin> set q" "t \<notin># (\<Sum>pc\<in>#B. pc_tasks pc)" unfolding X_def by (metis set_mset_mset union_iff)+
  have "u \<noteq> t" if "W_task pc' u \<in># B" for pc' u
    using notin(2) in_sum_mset [OF that, of t pc_tasks] by auto
  moreover have "task_state r = stage_state pc" using ok r by (auto simp: tasks_ok_def)
  moreover have "t \<noteq> 0" using ok r unfolding tasks_ok_def by (metis domI)
  ultimately show thesis using that [OF r] notin(1) by blast
qed

lemma queued_task:
  assumes ok: "tasks_ok m (t # q) B"
  obtains r where "pm_tasks m t = Some r" "t \<noteq> 0" "task_state r = TASK_PENDING"
proof -
  have "t \<in># mset (t # q) + (\<Sum>pc\<in>#B. pc_tasks pc)" by simp
  then have "t \<in># mset_set (dom (pm_tasks m))" using ok unfolding tasks_ok_def by metis
  then obtain r where r: "pm_tasks m t = Some r" using ok unfolding tasks_ok_def by (metis domD finite_set_mset_mset_set)
  moreover have "task_state r = TASK_PENDING" using ok r by (auto simp: tasks_ok_def)
  moreover have "t \<noteq> 0" using ok r unfolding tasks_ok_def by (metis domI)
  ultimately show thesis using that by blast
qed

lemma live_task: "tasks_ok m q B \<Longrightarrow> W_task pc t \<in># B \<Longrightarrow> pm_tasks m t \<noteq> None"
  using running_task [of m q pc t "B - {#W_task pc t#}"] by (metis insert_DiffM option.distinct(1))

lemma live_queued: "tasks_ok m q B \<Longrightarrow> t \<in> set q \<Longrightarrow> pm_tasks m t \<noteq> None"
  unfolding tasks_ok_def by (metis domIff finite_set_mset_mset_set set_mset_mset union_iff)

text \<open>The job of a task depends on its lambdas only.\<close>

lemma job_of_cong:
  assumes "pm_tasks m t = Some r" and "pm_tasks m' t = Some r'"
    and "task_lambda r' = task_lambda r" and "completion_callback r' = completion_callback r"
    and "\<And>x. x \<in> set (held r) \<Longrightarrow> lw_lambdas (pm_world m') x = lw_lambdas (pm_world m) x"
  shows "job_of m' t = job_of m t"
  using assms by (auto simp: job_of_def job_at_def held_def split: if_splits)

lemma pc_cong:
  assumes "\<And>p t. pc = W_task p t \<Longrightarrow> job_of m' t = job_of m t"
  shows "pc_jobs m' pc = pc_jobs m pc" "pc_calls m' pc = pc_calls m pc"
  using assms by (cases pc; simp)+

text \<open>What only touches the pool and the nodes keeps the tasks and the jobs.\<close>

lemma mem_same:
  assumes "pm_tasks m' = pm_tasks m" and "pm_world m' = pm_world m"
  shows "tasks_ok m' q B \<longleftrightarrow> tasks_ok m q B" "lambdas_ok m' \<longleftrightarrow> lambdas_ok m"
    "jobs_ok c m' q B a st f d \<longleftrightarrow> jobs_ok c m q B a st f d" "job_of m' t = job_of m t"
proof -
  have job: "job_of m' = job_of m" using assms by (auto simp: job_of_def fun_eq_iff split: option.splits)
  moreover have "pc_jobs m' = pc_jobs m" "pc_calls m' = pc_calls m"
    by (rule ext, rule pc_cong, simp add: job)+
  ultimately show "tasks_ok m' q B \<longleftrightarrow> tasks_ok m q B" "lambdas_ok m' \<longleftrightarrow> lambdas_ok m"
    "jobs_ok c m' q B a st f d \<longleftrightarrow> jobs_ok c m q B a st f d" "job_of m' t = job_of m t"
    using assms by (simp_all add: tasks_ok_def lambdas_ok_def jobs_ok_def)
qed

lemma take_task:
  assumes "tasks_ok m (t # q) B" and "jobs_ok c m (t # q) B a st f d"
  shows "tasks_ok m q (add_mset (W_task T_start t) B)"
    and "jobs_ok c m q (add_mset (W_task T_start t) B) a (st @ [job_of m t]) f d"
  using assms by (auto simp: tasks_ok_def jobs_ok_def)

lemma finish_task:
  "tasks_ok m q (add_mset W_done B) \<longleftrightarrow> tasks_ok m q B"
  "jobs_ok c m q (add_mset W_done B) a st f d \<longleftrightarrow> jobs_ok c m q B a st f d"
  by (auto simp: tasks_ok_def jobs_ok_def)

text \<open>A stage that changes the state of its task only.\<close>

lemma transition_task:
  assumes ok: "tasks_ok m q (add_mset (W_task pc t) B)" "lambdas_ok m"
      "jobs_ok c m q (add_mset (W_task pc t) B) a st f d"
    and r: "pm_tasks m t = Some r"
    and m': "m' = m\<lparr>pm_tasks := (pm_tasks m)(t \<mapsto> r\<lparr>task_state := stage_state pc'\<rparr>)\<rparr>"
    and same: "\<And>j. stage_calls pc' j = stage_calls pc j"
  shows "tasks_ok m' q (add_mset (W_task pc' t) B)" "lambdas_ok m'"
    "jobs_ok c m' q (add_mset (W_task pc' t) B) a st f d"
proof -
  have sep: "t \<notin> set q" "\<And>p u. W_task p u \<in># B \<Longrightarrow> u \<noteq> t" using running_task [OF ok(1)] by metis+
  have dom: "dom (pm_tasks m') = dom (pm_tasks m)" using r m' by auto
  show "tasks_ok m' q (add_mset (W_task pc' t) B)"
    using ok(1) sep unfolding tasks_ok_def dom by (auto simp: m')
  have origin: "\<exists>k0. pm_tasks m u = Some k0 \<and> held k = held k0 \<and> task_lambda k = task_lambda k0"
    if "pm_tasks m' u = Some k" for u k
    using that r by (auto simp: m' held_def split: if_splits)
  have world: "pm_world m' = pm_world m" using m' by simp
  show "lambdas_ok m'" using ok(2) unfolding lambdas_ok_def world by (metis origin)
  have job: "job_of m' u = job_of m u" for u
    by (auto simp: job_of_def m' r split: option.splits)
  have "(\<Sum>pc\<in>#B. pc_jobs m' pc) = (\<Sum>pc\<in>#B. pc_jobs m pc)" "(\<Sum>pc\<in>#B. pc_calls m' pc) = (\<Sum>pc\<in>#B. pc_calls m pc)"
    by (rule sum_mset_cong, rule pc_cong, rule job)+
  moreover have "map (job_of m') q = map (job_of m) q" using job by simp
  ultimately show "jobs_ok c m' q (add_mset (W_task pc' t) B) a st f d"
    using ok(3) world by (simp add: jobs_ok_def job same)
qed

text \<open>A stage that calls a lambda of its task.\<close>

lemma call_task:
  assumes ok: "tasks_ok m q (add_mset (W_task pc t) B)" "lambdas_ok m"
      "jobs_ok c m q (add_mset (W_task pc t) B) a st f d"
    and m': "m' = m\<lparr>pm_world := (pm_world m)\<lparr>lw_calls := lw_calls (pm_world m) @ es\<rparr>\<rparr>"
    and state: "stage_state pc' = stage_state pc"
    and calls: "stage_calls pc' (job_of m t) = stage_calls pc (job_of m t) @ es"
  shows "tasks_ok m' q (add_mset (W_task pc' t) B)" "lambdas_ok m'"
    "jobs_ok c m' q (add_mset (W_task pc' t) B) a st f d"
proof -
  show "tasks_ok m' q (add_mset (W_task pc' t) B)" using ok(1) state by (auto simp: tasks_ok_def m')
  show "lambdas_ok m'" using ok(2) by (simp add: lambdas_ok_def m')
  have job: "job_of m' u = job_of m u" for u
    by (auto simp: job_of_def job_at_def m' split: option.splits)
  have "(\<Sum>pc\<in>#B. pc_jobs m' pc) = (\<Sum>pc\<in>#B. pc_jobs m pc)" "(\<Sum>pc\<in>#B. pc_calls m' pc) = (\<Sum>pc\<in>#B. pc_calls m pc)"
    by (rule sum_mset_cong, rule pc_cong, rule job)+
  moreover have "map (job_of m') q = map (job_of m) q" using job by simp
  moreover have "lw_calls (pm_world m') = lw_calls (pm_world m) @ es" using m' by simp
  ultimately show "jobs_ok c m' q (add_mset (W_task pc' t) B) a st f d"
    using ok(3) by (simp add: jobs_ok_def job calls ac_simps)
qed

lemma held_live:
  assumes "lambdas_ok m" and "pm_tasks m t = Some r"
  obtains l where "lw_lambdas (pm_world m) (task_lambda r) = Some l" "task_lambda r \<noteq> 0"
    "fst (job_of m t) = l" "completion_callback r = 0 \<Longrightarrow> job_of m t = (l, None)"
    "completion_callback r \<noteq> 0 \<Longrightarrow> task_lambda r \<noteq> completion_callback r \<and>
       (\<exists>k. lw_lambdas (pm_world m) (completion_callback r) = Some k \<and> job_of m t = (l, Some k))"
proof -
  have h: "distinct (held r)" "task_lambda r \<noteq> 0" "set (held r) \<subseteq> dom (lw_lambdas (pm_world m))"
    using assms unfolding lambdas_ok_def by blast+
  then obtain l where "lw_lambdas (pm_world m) (task_lambda r) = Some l" by (auto simp: held_def)
  then show thesis
    using that h assms(2) by (cases "completion_callback r = 0") (auto simp: job_of_def job_at_def held_def)
qed

text \<open>Freeing a task frees its lambdas and makes the calls that free their contexts.\<close>

lemma task_free_spec:
  assumes "lambdas_ok m" and r: "pm_tasks m t = Some r" and "t \<noteq> 0"
  obtains m' where "task_free m t = Some m'" "pm_pool m' = pm_pool m" "pm_nodes m' = pm_nodes m"
    "pm_tasks m' = (pm_tasks m)(t := None)"
    "lw_calls (pm_world m') = lw_calls (pm_world m) @ free_calls (job_of m t)"
    "\<And>x. lw_lambdas (pm_world m') x = (if x \<in> set (held r) then None else lw_lambdas (pm_world m) x)"
proof -
  obtain l where l: "lw_lambdas (pm_world m) (task_lambda r) = Some l" "task_lambda r \<noteq> 0"
    "completion_callback r = 0 \<Longrightarrow> job_of m t = (l, None)"
    "completion_callback r \<noteq> 0 \<Longrightarrow> task_lambda r \<noteq> completion_callback r \<and>
       (\<exists>k. lw_lambdas (pm_world m) (completion_callback r) = Some k \<and> job_of m t = (l, Some k))"
    using held_live [OF assms(1) r] by metis
  show thesis
  proof (cases "completion_callback r = 0")
    case True
    show thesis
      by (rule that [of "the (task_free m t)"]) (use True l assms in \<open>auto simp: task_free_def ak_lambda_free_def held_def\<close>)
  next
    case False
    then obtain k where "lw_lambdas (pm_world m) (completion_callback r) = Some k" "job_of m t = (l, Some k)"
        "task_lambda r \<noteq> completion_callback r"
      using l(4) by blast
    then show thesis
      by (intro that [of "the (task_free m t)"]) (use False l assms in \<open>auto simp: task_free_def ak_lambda_free_def held_def\<close>)
  qed
qed

text \<open>The other tasks do not notice that one is freed.\<close>

lemma free_keeps_jobs:
  assumes ok: "lambdas_ok m" and r: "pm_tasks m t = Some r"
    and tasks: "pm_tasks m' = (pm_tasks m)(t := None)"
    and lambdas: "\<And>x. lw_lambdas (pm_world m') x = (if x \<in> set (held r) then None else lw_lambdas (pm_world m) x)"
  shows "lambdas_ok m'" and "u \<noteq> t \<Longrightarrow> pm_tasks m u \<noteq> None \<Longrightarrow> job_of m' u = job_of m u"
proof -
  have other: "pm_tasks m u = Some k \<and> u \<noteq> t \<and> set (held k) \<inter> set (held r) = {}" if "pm_tasks m' u = Some k" for u k
    using that ok r unfolding tasks lambdas_ok_def by (metis fun_upd_apply option.distinct(1))
  have live: "x \<in> dom (lw_lambdas (pm_world m'))"
    if "x \<in> set (held k)" "set (held k) \<inter> set (held r) = {}" "set (held k) \<subseteq> dom (lw_lambdas (pm_world m))" for x k
    using that lambdas [of x] by auto
  show "lambdas_ok m'"
    unfolding lambdas_ok_def
  proof (intro conjI allI impI subsetI)
    fix u k x assume u: "pm_tasks m' u = Some k"
    then have k: "pm_tasks m u = Some k" "set (held k) \<inter> set (held r) = {}" using other by blast+
    then show "distinct (held k)" "task_lambda k \<noteq> 0" using ok unfolding lambdas_ok_def by blast+
    show "x \<in> dom (lw_lambdas (pm_world m'))" if "x \<in> set (held k)"
      using live [OF that k(2)] k(1) ok unfolding lambdas_ok_def by blast
  next
    fix u v k k' assume "pm_tasks m' u = Some k \<and> pm_tasks m' v = Some k' \<and> u \<noteq> v"
    then show "set (held k) \<inter> set (held k') = {}" using other ok unfolding lambdas_ok_def by metis
  qed
  assume u: "u \<noteq> t" "pm_tasks m u \<noteq> None"
  then obtain k where k: "pm_tasks m u = Some k" "pm_tasks m' u = Some k" using tasks by auto
  then have "set (held k) \<inter> set (held r) = {}" using other by blast
  then show "job_of m' u = job_of m u"
    by (intro job_of_cong [OF k]) (use lambdas in auto)
qed

lemma free_task:
  assumes ok: "tasks_ok m q (add_mset (W_task T_free t) B)" "lambdas_ok m"
      "jobs_ok c m q (add_mset (W_task T_free t) B) a st f d"
    and r: "pm_tasks m t = Some r"
    and tasks: "pm_tasks m' = (pm_tasks m)(t := None)"
    and calls: "lw_calls (pm_world m') = lw_calls (pm_world m) @ free_calls (job_of m t)"
    and lambdas: "\<And>x. lw_lambdas (pm_world m') x = (if x \<in> set (held r) then None else lw_lambdas (pm_world m) x)"
  shows "tasks_ok m' q (add_mset W_done B)" "lambdas_ok m'"
    "jobs_ok c m' q (add_mset W_done B) a st (f @ [job_of m t]) d"
proof -
  have sep: "t \<notin> set q" "\<And>p u. W_task p u \<in># B \<Longrightarrow> u \<noteq> t" using running_task [OF ok(1)] by metis+
  have live: "\<And>p u. W_task p u \<in># B \<Longrightarrow> pm_tasks m u \<noteq> None" "\<And>u. u \<in> set q \<Longrightarrow> pm_tasks m u \<noteq> None"
    using live_task [OF ok(1)] live_queued [OF ok(1)] by (metis insert_iff set_mset_add_mset_insert, blast)
  have dom: "dom (pm_tasks m') = dom (pm_tasks m) - {t}" using tasks by auto
  show lam: "lambdas_ok m'" by (rule free_keeps_jobs(1) [OF ok(2) r tasks lambdas])
  have job: "job_of m' u = job_of m u" if "u \<noteq> t" "pm_tasks m u \<noteq> None" for u
    by (rule free_keeps_jobs(2) [OF ok(2) r tasks lambdas that])
  have "mset_set (dom (pm_tasks m) - {t}) = mset_set (dom (pm_tasks m)) - {#t#}"
    using ok(1) r by (simp add: tasks_ok_def mset_set_Diff domI)
  then show "tasks_ok m' q (add_mset W_done B)"
    using ok(1) sep unfolding tasks_ok_def dom by (auto simp: tasks)
  have "(\<Sum>pc\<in>#B. pc_jobs m' pc) = (\<Sum>pc\<in>#B. pc_jobs m pc)" "(\<Sum>pc\<in>#B. pc_calls m' pc) = (\<Sum>pc\<in>#B. pc_calls m pc)"
    by (rule sum_mset_cong, rule pc_cong, rule job, (use sep live in blast)+)+
  moreover have "map (job_of m') q = map (job_of m) q" by (intro map_cong refl job) (use sep live in blast)+
  ultimately show "jobs_ok c m' q (add_mset W_done B) a st (f @ [job_of m t]) d"
    using ok(3) calls by (simp add: jobs_ok_def job_calls_def ac_simps)
qed

text \<open>Every stage is defined and keeps the invariants.\<close>

lemma stage_task:
  assumes ok: "tasks_ok m q (add_mset (W_task pc t) B)" "lambdas_ok m"
      "jobs_ok c m q (add_mset (W_task pc t) B) a st f d"
  obtains pc' m' where "task_stage pc t m = Some (pc', m')" "busy pc'"
    "pm_pool m' = pm_pool m" "pm_nodes m' = pm_nodes m"
    "tasks_ok m' q (add_mset pc' B)" "lambdas_ok m'"
    "jobs_ok c m' q (add_mset pc' B) a st (f @ (if pc = T_free then [job_of m t] else [])) d"
proof -
  obtain r where r: "pm_tasks m t = Some r" "t \<noteq> 0" "task_state r = stage_state pc"
    using running_task [OF ok(1)] by metis
  obtain l where l: "lw_lambdas (pm_world m) (task_lambda r) = Some l" "task_lambda r \<noteq> 0" "fst (job_of m t) = l"
    "completion_callback r = 0 \<Longrightarrow> job_of m t = (l, None)"
    "completion_callback r \<noteq> 0 \<Longrightarrow> task_lambda r \<noteq> completion_callback r \<and>
       (\<exists>k. lw_lambdas (pm_world m) (completion_callback r) = Some k \<and> job_of m t = (l, Some k))"
    using held_live [OF ok(2) r(1)] by metis
  show thesis
  proof (cases pc)
    case T_start
    note T = transition_task [OF ok r(1) refl, of T_invoke]
    show thesis
      by (rule that [of "W_task T_invoke t"], simp add: T_start r task_transition_state_def)
        (use T in \<open>auto simp: T_start r task_transition_state_def\<close>)
  next
    case T_finish
    note T = transition_task [OF ok r(1) refl, of T_callback]
    show thesis
      by (rule that [of "W_task T_callback t"], simp add: T_finish r task_transition_state_def)
        (use T in \<open>auto simp: T_finish r task_transition_state_def\<close>)
  next
    case T_invoke
    note T = call_task [OF ok refl, of T_finish "call_of l 0"]
    show thesis
      by (rule that [of "W_task T_finish t" "m\<lparr>pm_world := (pm_world m)\<lparr>lw_calls := lw_calls (pm_world m) @ call_of l 0\<rparr>\<rparr>"])
        (use T in \<open>auto simp: T_invoke r l(1-3) ak_lambda_invoke_def call_of_def\<close>)
  next
    case T_callback
    show thesis
    proof (cases "completion_callback r = 0")
      case True
      note T = call_task [OF ok refl, of T_free "[]"]
      show thesis
        by (rule that [of "W_task T_free t" m]) (use T True l(4) in \<open>auto simp: T_callback r\<close>)
    next
      case False
      then obtain k where k: "lw_lambdas (pm_world m) (completion_callback r) = Some k" "job_of m t = (l, Some k)"
        using l(5) by blast
      note T = call_task [OF ok refl, of T_free "call_of k (task_state_code TASK_COMPLETED)"]
      show thesis
        by (rule that [of "W_task T_free t"
              "m\<lparr>pm_world := (pm_world m)\<lparr>lw_calls := lw_calls (pm_world m) @ call_of k (task_state_code TASK_COMPLETED)\<rparr>\<rparr>"])
          (use T False k in \<open>auto simp: T_callback r ak_lambda_invoke_def call_of_def task_get_state_def\<close>)
    qed
  next
    case T_free
    obtain m' where m': "task_free m t = Some m'" "pm_pool m' = pm_pool m" "pm_nodes m' = pm_nodes m"
      "pm_tasks m' = (pm_tasks m)(t := None)"
      "lw_calls (pm_world m') = lw_calls (pm_world m) @ free_calls (job_of m t)"
      "\<And>x. lw_lambdas (pm_world m') x = (if x \<in> set (held r) then None else lw_lambdas (pm_world m) x)"
      using task_free_spec [OF ok(2) r(1,2)] by metis
    note T = free_task [OF ok [unfolded T_free] r(1) m'(4-6)]
    show thesis by (rule that [of W_done m']) (use T m' in \<open>auto simp: T_free\<close>)
  qed
qed

section \<open>Enqueue\<close>

lemma task_new_spec:
  assumes "may_hand m l c"
  shows "task_new m l c s = (t, m1, s1) \<Longrightarrow> t = 0 \<and> m1 = m \<or>
    t \<noteq> 0 \<and> pm_tasks m t = None \<and>
    m1 = m\<lparr>pm_tasks := (pm_tasks m)(t \<mapsto> \<lparr>task_lambda = l, completion_callback = c, task_state = TASK_PENDING\<rparr>)\<rparr>"
  using assms alloc_cell_Some [of "pm_tasks m" s]
  by (auto simp: task_new_def may_hand_def split: prod.splits option.splits)

lemma add_task:
  assumes ok: "tasks_ok m q B" "lambdas_ok m" "jobs_ok c0 m q B a st f d"
    and hand: "may_hand m l c" and t: "t \<noteq> 0" "pm_tasks m t = None"
    and m1: "m1 = m\<lparr>pm_tasks := (pm_tasks m)(t \<mapsto> \<lparr>task_lambda = l, completion_callback = c, task_state = TASK_PENDING\<rparr>)\<rparr>"
  shows "tasks_ok m1 (q @ [t]) B" "lambdas_ok m1"
    "jobs_ok c0 m1 (q @ [t]) B (a @ [job_at (pm_world m) l c]) st f d"
    "\<And>u. pm_tasks m u \<noteq> None \<Longrightarrow> job_of m1 u = job_of m u" "job_of m1 t = job_at (pm_world m) l c"
proof -
  have sep: "t \<notin> set q" "\<And>p u. W_task p u \<in># B \<Longrightarrow> u \<noteq> t"
    using live_queued [OF ok(1)] live_task [OF ok(1)] t(2) by metis+
  have dom: "dom (pm_tasks m1) = insert t (dom (pm_tasks m))" by (auto simp: m1)
  show "tasks_ok m1 (q @ [t]) B"
    using ok(1) sep t unfolding tasks_ok_def dom by (auto simp: m1 dom_def)
  let ?r = "\<lparr>task_lambda = l, completion_callback = c, task_state = TASK_PENDING\<rparr>"
  have held: "distinct (held ?r)" "set (held ?r) \<subseteq> dom (lw_lambdas (pm_world m))"
    using hand by (auto simp: may_hand_def held_def)
  have apart: "set (held ?r) \<inter> set (held k) = {}" if "pm_tasks m u = Some k" for u k
  proof -
    have "l \<notin> set (held k)" "c \<notin> set (held k)" using hand that unfolding may_hand_def by blast+
    then show ?thesis by (auto simp: held_def [of ?r])
  qed
  have r: "l \<noteq> 0" using hand by (simp add: may_hand_def)
  have get: "pm_tasks m1 u = (if u = t then Some ?r else pm_tasks m u)" for u by (simp add: m1)
  have world: "pm_world m1 = pm_world m" by (simp add: m1)
  show "lambdas_ok m1"
    unfolding lambdas_ok_def world
  proof (intro conjI allI impI)
    fix u k assume u: "pm_tasks m1 u = Some k"
    consider "k = ?r" | "pm_tasks m u = Some k" using u get [of u] by (metis option.inject)
    then have "distinct (held k) \<and> task_lambda k \<noteq> 0 \<and> set (held k) \<subseteq> dom (lw_lambdas (pm_world m))"
    proof cases
      case 1
      then show ?thesis using held r by simp
    next
      case 2
      then show ?thesis using ok(2) unfolding lambdas_ok_def by blast
    qed
    then show "distinct (held k)" "task_lambda k \<noteq> 0" "set (held k) \<subseteq> dom (lw_lambdas (pm_world m))" by blast+
  next
    fix u v k k' assume uv: "pm_tasks m1 u = Some k \<and> pm_tasks m1 v = Some k' \<and> u \<noteq> v"
    then consider "u = t" "k = ?r" "pm_tasks m v = Some k'" | "v = t" "k' = ?r" "pm_tasks m u = Some k"
      | "pm_tasks m u = Some k" "pm_tasks m v = Some k'"
      using get [of u] get [of v] by (metis option.inject)
    then show "set (held k) \<inter> set (held k') = {}"
    proof cases
      case 1
      then show ?thesis using apart [of v k'] by simp
    next
      case 2
      then show ?thesis using apart [of u k] by (simp add: Int_commute)
    next
      case 3
      then show ?thesis using uv ok(2) unfolding lambdas_ok_def by blast
    qed
  qed
  show job: "job_of m1 u = job_of m u" if "pm_tasks m u \<noteq> None" for u
    using that t(2) by (auto simp: job_of_def m1)
  show new: "job_of m1 t = job_at (pm_world m) l c" by (simp add: job_of_def m1)
  have live: "\<And>p u. W_task p u \<in># B \<Longrightarrow> pm_tasks m u \<noteq> None" "\<And>u. u \<in> set q \<Longrightarrow> pm_tasks m u \<noteq> None"
    using live_task [OF ok(1)] live_queued [OF ok(1)] by blast+
  have "(\<Sum>pc\<in>#B. pc_jobs m1 pc) = (\<Sum>pc\<in>#B. pc_jobs m pc)" "(\<Sum>pc\<in>#B. pc_calls m1 pc) = (\<Sum>pc\<in>#B. pc_calls m pc)"
    by (rule sum_mset_cong, rule pc_cong, rule job, use live in blast)+
  moreover have "map (job_of m1) q = map (job_of m) q" by (intro map_cong refl job) (use live in blast)
  ultimately show "jobs_ok c0 m1 (q @ [t]) B (a @ [job_at (pm_world m) l c]) st f d"
    using ok(3) new world by (simp add: jobs_ok_def)
qed

text \<open>An enqueue that fails after the task was made frees the caller's lambdas.\<close>

lemma drop_task:
  assumes ok: "tasks_ok m q B" "lambdas_ok m" "jobs_ok c0 m q B a st f d"
    and hand: "may_hand m l c" and t: "t \<noteq> 0" "pm_tasks m t = None"
    and m1: "m1 = m\<lparr>pm_tasks := (pm_tasks m)(t \<mapsto> \<lparr>task_lambda = l, completion_callback = c, task_state = TASK_PENDING\<rparr>)\<rparr>"
  obtains m2 where "task_free m1 t = Some m2" "pm_pool m2 = pm_pool m" "pm_nodes m2 = pm_nodes m"
    "pm_tasks m2 = pm_tasks m" "tasks_ok m2 q B" "lambdas_ok m2" "lw_lambdas (pm_world m2) l = None"
    "jobs_ok c0 m2 q B a st f (d @ [job_at (pm_world m) l c])"
proof -
  let ?r = "\<lparr>task_lambda = l, completion_callback = c, task_state = TASK_PENDING\<rparr>"
  note A = add_task [OF ok hand t m1]
  have r: "pm_tasks m1 t = Some ?r" by (simp add: m1)
  obtain m2 where m2: "task_free m1 t = Some m2" "pm_pool m2 = pm_pool m1" "pm_nodes m2 = pm_nodes m1"
      "pm_tasks m2 = (pm_tasks m1)(t := None)"
      "lw_calls (pm_world m2) = lw_calls (pm_world m1) @ free_calls (job_of m1 t)"
      "\<And>x. lw_lambdas (pm_world m2) x = (if x \<in> set (held ?r) then None else lw_lambdas (pm_world m1) x)"
    using task_free_spec [OF A(2) r t(1)] by metis
  have tasks: "pm_tasks m2 = pm_tasks m" using m2(4) t(2) by (auto simp: m1)
  have live: "\<And>p u. W_task p u \<in># B \<Longrightarrow> pm_tasks m u \<noteq> None" "\<And>u. u \<in> set q \<Longrightarrow> pm_tasks m u \<noteq> None"
    using live_task [OF ok(1)] live_queued [OF ok(1)] by blast+
  have job: "job_of m2 u = job_of m u" if u: "pm_tasks m u \<noteq> None" for u
  proof -
    have "u \<noteq> t" "pm_tasks m1 u \<noteq> None" using u t(2) by (auto simp: m1)
    then show ?thesis using free_keeps_jobs(2) [OF A(2) r m2(4,6), of u] A(4) [OF u] by simp
  qed
  have "(\<Sum>pc\<in>#B. pc_jobs m2 pc) = (\<Sum>pc\<in>#B. pc_jobs m pc)" "(\<Sum>pc\<in>#B. pc_calls m2 pc) = (\<Sum>pc\<in>#B. pc_calls m pc)"
    by (rule sum_mset_cong, rule pc_cong, rule job, use live in blast)+
  moreover have "map (job_of m2) q = map (job_of m) q" by (intro map_cong refl job) (use live in blast)
  moreover have "lw_calls (pm_world m2) = lw_calls (pm_world m) @ free_calls (job_at (pm_world m) l c)"
    using m2(5) A(5) by (simp add: m1)
  ultimately have "jobs_ok c0 m2 q B a st f (d @ [job_at (pm_world m) l c])"
    using ok(3) by (simp add: jobs_ok_def ac_simps)
  moreover have "tasks_ok m2 q B" using ok(1) by (simp add: tasks_ok_def tasks)
  moreover have "lambdas_ok m2" by (rule free_keeps_jobs(1) [OF A(2) r m2(4,6)])
  moreover have "lw_lambdas (pm_world m2) l = None" by (simp add: m2(6) held_def)
  ultimately show thesis using that [OF m2(1)] m2(2,3) tasks by (simp add: m1)
qed

definition accepts :: "ak_thread_pool \<Rightarrow> bool" where
  "accepts p \<longleftrightarrow> pool_state p = POOL_RUNNING \<and> (max_queue_size p = 0 \<or> queue_size p < max_queue_size p)"

lemma enqueue_cases:
  assumes ok: "queue_inv m ns q" "tasks_ok m q B" "lambdas_ok m" "jobs_ok c0 m q B a st f d"
    and hand: "may_hand m l c" and room: "queue_size (pm_pool m) + 1 < SIZE_RANGE"
  obtains (accepted) t node m' s' where "enqueue_locked m l c s = Some (0, m', s')" "accepts (pm_pool m)"
      "queue_inv m' (ns @ [node]) (q @ [t])" "tasks_ok m' (q @ [t]) B" "lambdas_ok m'"
      "jobs_ok c0 m' (q @ [t]) B (a @ [job_at (pm_world m) l c]) st f d" "pm_world m' = pm_world m"
      "same_pool (pm_pool m) (pm_pool m')"
  | (refused) s' where "enqueue_locked m l c s = Some (-1, m, s')"
  | (dropped) m' s' where "enqueue_locked m l c s = Some (-1, m', s')" "accepts (pm_pool m)"
      "queue_inv m' ns q" "tasks_ok m' q B"
      "lambdas_ok m'" "jobs_ok c0 m' q B a st f (d @ [job_at (pm_world m) l c])" "pm_pool m' = pm_pool m"
      "lw_lambdas (pm_world m') l = None"
proof -
  obtain t m1 s1 where new: "task_new m l c s = (t, m1, s1)" by (cases "task_new m l c s")
  show thesis
  proof (cases "accepts (pm_pool m) \<and> t \<noteq> 0")
    case False
    then have "enqueue_locked m l c s = Some (-1, m, if accepts (pm_pool m) then s1 else s)"
      using new task_new_spec [OF hand new] by (auto simp: enqueue_locked_def accepts_def Let_def)
    then show thesis by (rule refused)
  next
    case True
    then have t: "t \<noteq> 0" "pm_tasks m t = None" and m1:
        "m1 = m\<lparr>pm_tasks := (pm_tasks m)(t \<mapsto> \<lparr>task_lambda = l, completion_callback = c, task_state = TASK_PENDING\<rparr>)\<rparr>"
      using task_new_spec [OF hand new] by auto
    note A = add_task [OF ok(2-4) hand t m1]
    obtain n s2 where cell: "alloc_cell (pm_nodes m1) s1 = (n, s2)" by (cases "alloc_cell (pm_nodes m1) s1")
    have enq: "enqueue_locked m l c s = (case n of
        None \<Rightarrow> do { m2 \<leftarrow> task_free m1 t; Some (-1, m2, s2) }
      | Some node \<Rightarrow> do { m2 \<leftarrow> queue_append m1 node t; Some (0, m2, s2) })"
      using True new cell by (auto simp: enqueue_locked_def accepts_def Let_def)
    show thesis
    proof (cases n)
      case None
      obtain m2 where m2: "task_free m1 t = Some m2" "pm_pool m2 = pm_pool m" "pm_nodes m2 = pm_nodes m"
          "tasks_ok m2 q B" "lambdas_ok m2" "lw_lambdas (pm_world m2) l = None"
          "jobs_ok c0 m2 q B a st f (d @ [job_at (pm_world m) l c])"
        using drop_task [OF ok(2-4) hand t m1] by metis
      have "queue_inv m2 ns q" using ok(1) m2(2,3) by (simp add: queue_inv_def)
      then show thesis using dropped [of m2 s2] enq None m2 True by simp
    next
      case (Some node)
      have node: "node \<noteq> 0" "pm_nodes m1 node = None" using alloc_cell_Some cell Some by blast+
      have q1: "queue_inv m1 ns q" using ok(1) by (simp add: queue_inv_def m1)
      have "length q + 1 < SIZE_RANGE" using room ok(1) by (simp add: queue_inv_def)
      then obtain m2 where m2: "queue_append m1 node t = Some m2" "queue_inv m2 (ns @ [node]) (q @ [t])"
          "pm_tasks m2 = pm_tasks m1" "pm_world m2 = pm_world m1"
          "same_pool (pm_pool m1) (pm_pool m2)"
        using append_queue [OF q1 node(2,1)] by metis
      note S = mem_same [OF m2(3,4)]
      show thesis
        by (rule accepted [of m2 s2 node t]) (use enq Some m2 True S A in \<open>simp_all add: m1 same_pool_def\<close>)
    qed
  qed
qed

section \<open>The invariant of the threads\<close>

definition busy_of :: "pool_sys \<Rightarrow> worker_pc multiset" where
  "busy_of s = filter_mset busy (mset (ps_workers s))"

text \<open>The memory of the pool and the records of the jobs, with the tasks \<open>q\<close> in the queue.\<close>

definition core_inv :: "lambda_event list \<Rightarrow> pool_sys \<Rightarrow> nat list \<Rightarrow> bool" where
  "core_inv calls0 s q \<longleftrightarrow> (\<exists>ns. queue_inv (ps_mem s) ns q) \<and> tasks_ok (ps_mem s) q (busy_of s)
     \<and> lambdas_ok (ps_mem s)
     \<and> jobs_ok calls0 (ps_mem s) q (busy_of s) (ps_accepted s) (ps_started s) (ps_finished s) (ps_dropped s)
     \<and> active_count (pm_pool (ps_mem s)) = size (busy_of s)"

fun phase_ok :: "main_pc \<Rightarrow> ak_pool_state \<Rightarrow> nat list \<Rightarrow> worker_pc list \<Rightarrow> nat \<Rightarrow> bool" where
  "phase_ok M_creating st q ws n \<longleftrightarrow> st = POOL_RUNNING \<and> q = [] \<and> W_exited \<notin> set ws \<and> length ws \<le> n"
| "phase_ok M_running st q ws n \<longleftrightarrow> st = POOL_RUNNING \<and> W_exited \<notin> set ws \<and> length ws = n
     \<and> (W_wait \<in> set ws \<longrightarrow> q = []) \<and> (q \<noteq> [] \<longrightarrow> (\<exists>pc \<in> set ws. pc \<noteq> W_waiting))"
| "phase_ok (M_joining j) st q ws n \<longleftrightarrow> st = POOL_SHUTTING_DOWN \<and> W_waiting \<notin> set ws \<and> W_wait \<notin> set ws
     \<and> length ws = n \<and> (W_exited \<in> set ws \<longrightarrow> q = []) \<and> j \<le> n \<and> (\<forall>k < j. ws ! k = W_exited)"
| "phase_ok M_draining st q ws n \<longleftrightarrow> st = POOL_TERMINATED \<and> q = [] \<and> length ws = n \<and> set ws \<subseteq> {W_exited}"
| "phase_ok M_failing st q ws n \<longleftrightarrow> st = POOL_SHUTTING_DOWN \<and> q = [] \<and> length ws \<le> n"
| "phase_ok (M_abandon j) st q ws n \<longleftrightarrow> st = POOL_SHUTTING_DOWN \<and> q = [] \<and> length ws \<le> n"
| "phase_ok M_gone st q ws n \<longleftrightarrow> st \<noteq> POOL_RUNNING \<and> q = [] \<and> length ws \<le> n"

definition critical :: "worker_pc \<Rightarrow> bool" where
  "critical pc \<longleftrightarrow> pc = W_check \<or> pc = W_wait"

definition sync_inv :: "nat \<Rightarrow> nat \<Rightarrow> pool_sys \<Rightarrow> nat list \<Rightarrow> bool" where
  "sync_inv n limit s q \<longleftrightarrow> 0 < n \<and> n < SIZE_RANGE \<and> worker_count (pm_pool (ps_mem s)) = n
     \<and> max_queue_size (pm_pool (ps_mem s)) = limit \<and> (limit > 0 \<longrightarrow> length q \<le> limit)
     \<and> (\<forall>i < length (ps_workers s). critical (ps_workers s ! i) \<longleftrightarrow> ps_owner s = Some i)
     \<and> (\<forall>i. ps_owner s = Some i \<longrightarrow> i < length (ps_workers s))
     \<and> ((\<exists>c. ps_clients s c = C_waiting) \<longrightarrow> q \<noteq> [] \<or> busy_of s \<noteq> {#})
     \<and> phase_ok (ps_main s) (pool_state (pm_pool (ps_mem s))) q (ps_workers s) n"

lemma busy_update:
  assumes "i < length ws"
  shows "filter_mset busy (mset (ws[i := pc]))
    = filter_mset busy (mset ws) - (if busy (ws ! i) then {#ws ! i#} else {#}) + (if busy pc then {#pc#} else {#})"
  using assms by (simp add: mset_update)

lemma busy_take:
  "i < length (ps_workers s) \<Longrightarrow> busy (ps_workers s ! i) \<Longrightarrow>
   busy_of s = add_mset (ps_workers s ! i) (busy_of s - {#ps_workers s ! i#})"
  by (simp add: busy_of_def)

lemma busy_quiet:
  "i < length (ps_workers s) \<Longrightarrow> \<not> busy (ps_workers s ! i) \<Longrightarrow> ps_workers s' = (ps_workers s)[i := pc] \<Longrightarrow>
   busy_of s' = busy_of s + (if busy pc then {#pc#} else {#})"
  by (simp add: busy_of_def busy_update)

lemma busy_next:
  "i < length (ps_workers s) \<Longrightarrow> busy (ps_workers s ! i) \<Longrightarrow> ps_workers s' = (ps_workers s)[i := pc] \<Longrightarrow>
   busy_of s' = busy_of s - {#ps_workers s ! i#} + (if busy pc then {#pc#} else {#})"
  by (simp add: busy_of_def busy_update)

lemma busy_wake_all: "filter_mset busy (mset (wake_all ws)) = filter_mset busy (mset ws)"
  by (induction ws) (auto simp: wake_all_def)

lemma wake_all_critical: "i < length ws \<Longrightarrow> critical (wake_all ws ! i) = critical (ws ! i)"
  by (auto simp: wake_all_def critical_def)

lemma busy_size: "size (busy_of s) \<le> length (ps_workers s)"
  unfolding busy_of_def by (metis size_filter_mset_lesseq size_mset)

lemma phase_length: "phase_ok mp st q ws n \<Longrightarrow> length ws \<le> n"
  by (cases mp) auto

lemma core_cong:
  "core_inv c s q \<Longrightarrow> ps_mem s' = ps_mem s \<Longrightarrow> busy_of s' = busy_of s \<Longrightarrow> ps_accepted s' = ps_accepted s \<Longrightarrow>
   ps_started s' = ps_started s \<Longrightarrow> ps_finished s' = ps_finished s \<Longrightarrow> ps_dropped s' = ps_dropped s \<Longrightarrow> core_inv c s' q"
  by (simp add: core_inv_def)

text \<open>What a worker finds with the mutex held.\<close>

lemma worker_check_cases:
  assumes "core_inv c s q"
  obtains (wait) "pool_state (pm_pool (ps_mem s)) = POOL_RUNNING" "q = []" "worker_check (ps_mem s) = Some (W_wait, ps_mem s)"
  | (exit) "pool_state (pm_pool (ps_mem s)) \<noteq> POOL_RUNNING" "q = []" "worker_check (ps_mem s) = Some (W_exited, ps_mem s)"
  | (take) t q' m' ns where "q = t # q'" "worker_check (ps_mem s) = Some (W_task T_start t, m')"
      "queue_inv m' ns q'" "pm_tasks m' = pm_tasks (ps_mem s)" "pm_world m' = pm_world (ps_mem s)"
      "active_count (pm_pool m') = sz_add (active_count (pm_pool (ps_mem s))) 1"
      "pool_state (pm_pool m') = pool_state (pm_pool (ps_mem s))"
      "worker_count (pm_pool m') = worker_count (pm_pool (ps_mem s))"
      "max_queue_size (pm_pool m') = max_queue_size (pm_pool (ps_mem s))"
proof -
  let ?m = "ps_mem s"
  obtain ns where ns: "queue_inv ?m ns q" and ok: "tasks_ok ?m q (busy_of s)" using assms by (auto simp: core_inv_def)
  have size: "queue_size (pm_pool ?m) = length q" using ns by (simp add: queue_inv_def)
  show thesis
  proof (cases q)
    case Nil
    then show thesis using wait exit size by (cases "pool_state (pm_pool ?m) = POOL_RUNNING") (auto simp: worker_check_def Let_def)
  next
    case (Cons t q')
    obtain m1 where m1: "pool_dequeue_task ?m = Some (t, m1)" "queue_inv m1 (tl ns) q'"
        "pm_tasks m1 = pm_tasks ?m" "pm_world m1 = pm_world ?m"
        "same_pool (pm_pool ?m) (pm_pool m1)"
      using dequeue_queue ns Cons by metis
    have t: "t \<noteq> 0" using queued_task ok Cons by metis
    let ?m' = "m1\<lparr>pm_pool := (pm_pool m1)\<lparr>active_count := sz_add (active_count (pm_pool m1)) 1\<rparr>\<rparr>"
    have "queue_inv ?m' (tl ns) q'" using m1(2) by (simp add: queue_inv_def)
    then show thesis
      by (intro take [of t q' ?m' "tl ns"]) (use m1 size Cons t in \<open>simp_all add: worker_check_def Let_def same_pool_def\<close>)
  qed
qed

subsection \<open>Steps of the workers\<close>

lemma owner_update:
  assumes own: "\<forall>i < length ws. critical (ws ! i) \<longleftrightarrow> o' = Some i" and i: "i < length ws" "ws ! i = pc0"
    and pc: "critical pc = critical pc0"
  shows "\<forall>k < length (ws[i := pc]). critical (ws[i := pc] ! k) \<longleftrightarrow> o' = Some k"
  using assms by (auto simp: nth_list_update)

lemma owner_release:
  assumes own: "\<forall>i < length ws. critical (ws ! i) \<longleftrightarrow> o' = Some i" and i: "i < length ws" "critical (ws ! i)"
    and pc: "\<not> critical pc"
  shows "\<forall>k < length (ws[i := pc]). critical (ws[i := pc] ! k) \<longleftrightarrow> None = Some k"
  using assms by (auto simp: nth_list_update)

lemma update_cases: "x \<in> set (ws[i := v]) \<Longrightarrow> x = v \<or> x \<in> set ws"
  using set_update_subset_insert by fastforce

text \<open>Replacing the worker \<open>i\<close> by one that is awake keeps the phase of the pool.\<close>

lemma phase_update:
  assumes ok: "phase_ok mp st q ws n" and i: "i < length ws" "ws ! i \<noteq> W_exited"
    and pc: "pc \<noteq> W_waiting" "pc \<noteq> W_wait" "pc \<noteq> W_exited"
  shows "phase_ok mp st q (ws[i := pc]) n"
proof -
  have mem: "pc \<in> set (ws[i := pc])" using i(1) by (rule set_update_memI)
  have sub: "\<And>x. x \<in> set (ws[i := pc]) \<Longrightarrow> x = pc \<or> x \<in> set ws" by (rule update_cases)
  have "mp \<noteq> M_draining"
  proof
    assume "mp = M_draining"
    then have "set ws \<subseteq> {W_exited}" using ok by simp
    then show False using i nth_mem by blast
  qed
  then show ?thesis
    using ok i pc sub mem
    by (cases mp) (auto simp: nth_list_update)
qed

lemma phase_tail:
  assumes "phase_ok mp st (t # q) ws n" and "i < length ws" and "ws ! i \<noteq> W_exited"
    and "pc \<noteq> W_waiting" "pc \<noteq> W_wait" "pc \<noteq> W_exited"
  shows "phase_ok mp st q (ws[i := pc]) n"
proof -
  have "phase_ok mp st q ws n"
    using assms(1) by (cases mp) auto
  then show ?thesis using assms(2-) by (rule phase_update)
qed

lemma take_core:
  assumes core: "core_inv c s q" and sync: "sync_inv n limit s q"
    and i: "i < length (ps_workers s)" "ps_workers s ! i = W_check"
    and check: "worker_check (ps_mem s) = Some (W_task T_start t, m)"
    and s': "s' = s\<lparr>ps_mem := m, ps_owner := None, ps_workers := (ps_workers s)[i := W_task T_start t],
                    ps_started := ps_started s @ [job_of (ps_mem s) t]\<rparr>"
  shows "\<exists>q'. core_inv c s' q' \<and> q = t # q'"
proof -
  obtain q' ns where t: "q = t # q'" "queue_inv m ns q'" "pm_tasks m = pm_tasks (ps_mem s)" "pm_world m = pm_world (ps_mem s)"
      "active_count (pm_pool m) = sz_add (active_count (pm_pool (ps_mem s))) 1"
    using worker_check_cases [OF core] check by (metis Pair_inject option.inject worker_pc.distinct worker_pc.inject)
  have B: "busy_of s' = add_mset (W_task T_start t) (busy_of s)"
    using busy_quiet [of i s s' "W_task T_start t"] i s' by simp
  note S = mem_same [OF t(3,4)]
  have ok: "tasks_ok (ps_mem s) (t # q') (busy_of s)"
      "jobs_ok c (ps_mem s) (t # q') (busy_of s) (ps_accepted s) (ps_started s) (ps_finished s) (ps_dropped s)"
    using core t(1) by (auto simp: core_inv_def)
  note T = take_task [OF ok]
  have "size (busy_of s) < n"
    using busy_size [of s'] B s' phase_length sync unfolding sync_inv_def by fastforce
  then have "active_count (pm_pool m) = size (busy_of s')"
    using t(5) core sync B by (simp add: core_inv_def sync_inv_def sz_add_def)
  then have "core_inv c s' q'"
    using T S t core B s' by (auto simp: core_inv_def)
  then show ?thesis using t(1) by auto
qed

lemma stage_core:
  assumes core: "core_inv c s q"
    and i: "i < length (ps_workers s)" "ps_workers s ! i = W_task pc t"
    and stage: "task_stage pc t (ps_mem s) = Some (pc', m)"
    and s': "s' = s\<lparr>ps_mem := m, ps_workers := (ps_workers s)[i := pc'],
                    ps_finished := ps_finished s @ (if pc = T_free then [job_of (ps_mem s) t] else [])\<rparr>"
  shows "core_inv c s' q" "busy pc'" "pm_pool m = pm_pool (ps_mem s)"
proof -
  let ?B = "busy_of s - {#W_task pc t#}"
  have B: "busy_of s = add_mset (W_task pc t) ?B" using busy_take [of i s] i by simp
  have ok: "tasks_ok (ps_mem s) q (add_mset (W_task pc t) ?B)" "lambdas_ok (ps_mem s)"
      "jobs_ok c (ps_mem s) q (add_mset (W_task pc t) ?B) (ps_accepted s) (ps_started s) (ps_finished s) (ps_dropped s)"
    using core B by (auto simp: core_inv_def)
  have T: "busy pc'" "pm_pool m = pm_pool (ps_mem s)" "pm_nodes m = pm_nodes (ps_mem s)"
      "tasks_ok m q (add_mset pc' ?B)" "lambdas_ok m"
      "jobs_ok c m q (add_mset pc' ?B) (ps_accepted s) (ps_started s)
         (ps_finished s @ (if pc = T_free then [job_of (ps_mem s) t] else [])) (ps_dropped s)"
    using stage_task [OF ok] stage by (metis Pair_inject option.inject)+
  have "busy_of s' = add_mset pc' ?B" using busy_next [of i s s' pc'] i s' T(1) by simp
  moreover have "size (busy_of s) = Suc (size ?B)" using B by (metis size_add_mset)
  ultimately show "core_inv c s' q"
    using T core s' by (simp add: core_inv_def queue_inv_def)
  show "busy pc'" "pm_pool m = pm_pool (ps_mem s)" by (rule T(1), rule T(2))
qed

lemma done_core:
  assumes core: "core_inv c s q" and sync: "sync_inv n limit s q"
    and i: "i < length (ps_workers s)" "ps_workers s ! i = W_done"
    and fin: "worker_done (ps_mem s) = (all_done, m)"
    and s': "s' = s\<lparr>ps_mem := m, ps_workers := (ps_workers s)[i := W_lock], ps_clients := cs\<rparr>"
  shows "core_inv c s' q"
proof -
  let ?B = "busy_of s - {#W_done#}"
  have B: "busy_of s = add_mset W_done ?B" using busy_take [of i s] i by simp
  have B': "busy_of s' = ?B" using busy_next [of i s s' W_lock] i s' by simp
  have m: "pm_tasks m = pm_tasks (ps_mem s)" "pm_world m = pm_world (ps_mem s)"
    using fin by (auto simp: worker_done_def Let_def)
  note S = mem_same [OF m]
  have "size (busy_of s) = Suc (size ?B)" using B by (metis size_add_mset)
  moreover have "size (busy_of s) < SIZE_RANGE"
    using busy_size [of s] phase_length sync unfolding sync_inv_def by fastforce
  ultimately have act: "active_count (pm_pool m) = size (busy_of s')"
    using core fin B' by (auto simp: core_inv_def worker_done_def Let_def sz_pred_Suc)
  have ok: "tasks_ok (ps_mem s) q (add_mset W_done ?B)"
      "jobs_ok c (ps_mem s) q (add_mset W_done ?B) (ps_accepted s) (ps_started s) (ps_finished s) (ps_dropped s)"
    using core B by (auto simp: core_inv_def)
  obtain ns where "queue_inv (ps_mem s) ns q" using core by (auto simp: core_inv_def)
  moreover have "pm_nodes m = pm_nodes (ps_mem s)" "queue_head (pm_pool m) = queue_head (pm_pool (ps_mem s))"
      "queue_tail (pm_pool m) = queue_tail (pm_pool (ps_mem s))" "queue_size (pm_pool m) = queue_size (pm_pool (ps_mem s))"
    using fin by (auto simp: worker_done_def Let_def)
  ultimately have "queue_inv m ns q" by (simp add: queue_inv_def)
  then show "core_inv c s' q"
    using ok [unfolded finish_task] S act core B' s' by (auto simp: core_inv_def)
qed

lemma worker_core:
  assumes core: "core_inv c s q" and sync: "sync_inv n limit s q" and step: "worker_step s i s'"
  shows "\<exists>q'. core_inv c s' q' \<and> (q' = q \<and> ps_started s' = ps_started s \<or>
    (\<exists>t. q = t # q' \<and> ps_started s' = ps_started s @ [job_of (ps_mem s) t]))"
  using step
proof cases
  case w_lock
  then have "busy_of s' = busy_of s" using busy_quiet [of i s s' W_check] by simp
  then show ?thesis using core w_lock by (auto simp: core_inv_def)
next
  case (w_idle m)
  have "m = ps_mem s" using worker_check_cases [OF core] w_idle by (metis Pair_inject option.inject worker_pc.distinct)
  moreover have "busy_of s' = busy_of s" using busy_quiet [of i s s' W_wait] w_idle by simp
  ultimately show ?thesis using core w_idle by (auto simp: core_inv_def)
next
  case (w_exit m)
  have "m = ps_mem s" using worker_check_cases [OF core] w_exit by (metis Pair_inject option.inject worker_pc.distinct)
  moreover have "busy_of s' = busy_of s" using busy_quiet [of i s s' W_exited] w_exit by simp
  ultimately show ?thesis using core w_exit by (auto simp: core_inv_def)
next
  case (w_nothing m)
  then show ?thesis using worker_check_cases [OF core] by (metis Pair_inject option.inject worker_pc.distinct)
next
  case (w_take t m)
  then show ?thesis using take_core [OF core sync w_take(2-4,1)] by auto
next
  case w_sleep
  then have "busy_of s' = busy_of s" using busy_quiet [of i s s' W_waiting] by simp
  then show ?thesis using core w_sleep by (auto simp: core_inv_def)
next
  case (w_stage pc t pc' m)
  then show ?thesis using stage_core(1) [OF core w_stage(2-4,1)] by auto
next
  case (w_done all_done m)
  then show ?thesis using done_core [OF core sync w_done(2,3,5,1)] by auto
qed

text \<open>The parts of the invariant on the synchronisation, to establish it for a next state.\<close>

lemma sync_invI:
  assumes "0 < n" "n < SIZE_RANGE" "worker_count (pm_pool (ps_mem s)) = n"
    "max_queue_size (pm_pool (ps_mem s)) = limit" "limit > 0 \<Longrightarrow> length q \<le> limit"
    "\<forall>i < length (ps_workers s). critical (ps_workers s ! i) \<longleftrightarrow> ps_owner s = Some i"
    "\<And>i. ps_owner s = Some i \<Longrightarrow> i < length (ps_workers s)"
    "\<And>c. ps_clients s c = C_waiting \<Longrightarrow> q \<noteq> [] \<or> busy_of s \<noteq> {#}"
    "phase_ok (ps_main s) (pool_state (pm_pool (ps_mem s))) q (ps_workers s) n"
  shows "sync_inv n limit s q"
  using assms unfolding sync_inv_def by blast

lemma sync_invD:
  assumes "sync_inv n limit s q"
  shows "0 < n" "n < SIZE_RANGE" "worker_count (pm_pool (ps_mem s)) = n"
    "max_queue_size (pm_pool (ps_mem s)) = limit" "limit > 0 \<Longrightarrow> length q \<le> limit"
    "\<forall>i < length (ps_workers s). critical (ps_workers s ! i) \<longleftrightarrow> ps_owner s = Some i"
    "\<And>i. ps_owner s = Some i \<Longrightarrow> i < length (ps_workers s)"
    "\<And>c. ps_clients s c = C_waiting \<Longrightarrow> q \<noteq> [] \<or> busy_of s \<noteq> {#}"
    "phase_ok (ps_main s) (pool_state (pm_pool (ps_mem s))) q (ps_workers s) n"
  using assms unfolding sync_inv_def by blast+

text \<open>A worker that waits found the queue empty and the pool running, or the pool's creation failed since.\<close>

lemma phase_wait:
  assumes "phase_ok mp st q ws n" and "i < length ws" and "st = POOL_RUNNING" and "q = []" and "ws ! i \<noteq> W_exited"
  shows "phase_ok mp st q (ws[i := W_wait]) n"
  using assms update_cases [of _ ws i W_wait] by (cases mp) auto

lemma phase_sleep:
  assumes "phase_ok mp st q ws n" and "i < length ws" and "ws ! i = W_wait"
  shows "phase_ok mp st q (ws[i := W_waiting]) n"
proof -
  have "W_wait \<in> set ws" using assms(2,3) nth_mem by metis
  then show ?thesis using assms update_cases [of _ ws i W_waiting] by (cases mp) auto
qed

lemma phase_exit:
  assumes "phase_ok mp st q ws n" and "i < length ws" and "st \<noteq> POOL_RUNNING" and "q = []" and "ws ! i \<noteq> W_exited"
  shows "phase_ok mp st q (ws[i := W_exited]) n"
  using assms update_cases [of _ ws i W_exited]
  by (cases mp) (auto simp: nth_list_update)

lemma worker_sync:
  assumes core: "core_inv c s q" and sync: "sync_inv n limit s q" and step: "worker_step s i s'"
  shows "\<exists>q'. sync_inv n limit s' q' \<and> core_inv c s' q'"
proof -
  note D = sync_invD [OF sync]
  obtain q' where q': "core_inv c s' q'" "q' = q \<and> ps_started s' = ps_started s \<or>
      (\<exists>t. q = t # q' \<and> ps_started s' = ps_started s @ [job_of (ps_mem s) t])"
    using worker_core [OF core sync step] by blast
  have "sync_inv n limit s' q'"
    using step
  proof cases
    case w_lock
    have "busy_of s' = busy_of s" using busy_quiet [of i s s' W_check] w_lock by simp
    moreover have "phase_ok (ps_main s) (pool_state (pm_pool (ps_mem s))) q ((ps_workers s)[i := W_check]) n"
      using D(9) w_lock by (intro phase_update) auto
    ultimately show ?thesis
      using w_lock q'(2) D by (intro sync_invI) (auto simp: critical_def nth_list_update)
  next
    case (w_idle m)
    have m: "m = ps_mem s" "q = []" "pool_state (pm_pool (ps_mem s)) = POOL_RUNNING"
      using worker_check_cases [OF core] w_idle by (metis Pair_inject option.inject worker_pc.distinct)+
    have "busy_of s' = busy_of s" using busy_quiet [of i s s' W_wait] w_idle by simp
    moreover have "phase_ok (ps_main s) (pool_state (pm_pool (ps_mem s))) q ((ps_workers s)[i := W_wait]) n"
      using D(9) w_idle m by (intro phase_wait) auto
    moreover have "\<forall>k < length (ps_workers s'). critical (ps_workers s' ! k) \<longleftrightarrow> ps_owner s' = Some k"
      using owner_update [OF D(6), of i W_check W_wait] w_idle by (simp add: critical_def)
    ultimately show ?thesis
      using w_idle(1-3) m q'(2) D by (intro sync_invI) auto
  next
    case (w_exit m)
    have m: "m = ps_mem s" "q = []" "pool_state (pm_pool (ps_mem s)) \<noteq> POOL_RUNNING"
      using worker_check_cases [OF core] w_exit by (metis Pair_inject option.inject worker_pc.distinct)+
    have "busy_of s' = busy_of s" using busy_quiet [of i s s' W_exited] w_exit by simp
    moreover have "phase_ok (ps_main s) (pool_state (pm_pool (ps_mem s))) q ((ps_workers s)[i := W_exited]) n"
      using D(9) w_exit m by (intro phase_exit) auto
    moreover have "\<forall>k < length (ps_workers s'). critical (ps_workers s' ! k) \<longleftrightarrow> ps_owner s' = Some k"
      using owner_release [OF D(6), of i W_exited] w_exit by (simp add: critical_def)
    ultimately show ?thesis
      using w_exit(1-3) m q'(2) D by (intro sync_invI) auto
  next
    case (w_nothing m)
    then show ?thesis using worker_check_cases [OF core] by (metis Pair_inject option.inject worker_pc.distinct)
  next
    case (w_take t m)
    obtain u where t: "q = u # q'" using q'(2) w_take(1) by auto
    have m: "pool_state (pm_pool m) = pool_state (pm_pool (ps_mem s))" "worker_count (pm_pool m) = worker_count (pm_pool (ps_mem s))"
        "max_queue_size (pm_pool m) = max_queue_size (pm_pool (ps_mem s))"
      using worker_check_cases [OF core] w_take by (metis Pair_inject option.inject worker_pc.distinct)+
    have "busy_of s' = add_mset (W_task T_start t) (busy_of s)"
      using busy_quiet [of i s s' "W_task T_start t"] w_take by simp
    moreover have "phase_ok (ps_main s) (pool_state (pm_pool (ps_mem s))) q' ((ps_workers s)[i := W_task T_start t]) n"
      using D(9) w_take t by (intro phase_tail) auto
    moreover have "\<forall>k < length (ps_workers s'). critical (ps_workers s' ! k) \<longleftrightarrow> ps_owner s' = Some k"
      using owner_release [OF D(6), of i "W_task T_start t"] w_take by (simp add: critical_def)
    ultimately show ?thesis
      using w_take(1-3) m t D by (intro sync_invI) auto
  next
    case w_sleep
    have "busy_of s' = busy_of s" using busy_quiet [of i s s' W_waiting] w_sleep by simp
    moreover have "phase_ok (ps_main s) (pool_state (pm_pool (ps_mem s))) q ((ps_workers s)[i := W_waiting]) n"
      using D(9) w_sleep by (intro phase_sleep) auto
    moreover have "\<forall>k < length (ps_workers s'). critical (ps_workers s' ! k) \<longleftrightarrow> ps_owner s' = Some k"
      using owner_release [OF D(6), of i W_waiting] w_sleep by (simp add: critical_def)
    ultimately show ?thesis
      using w_sleep q'(2) D by (intro sync_invI) auto
  next
    case (w_stage pc t pc' m)
    note C = stage_core [OF core w_stage(2-4,1)]
    have pc': "\<not> critical pc'" "pc' \<noteq> W_waiting" "pc' \<noteq> W_wait" "pc' \<noteq> W_exited"
      using C(2) by (auto simp: critical_def)
    have "busy_of s' \<noteq> {#}" using busy_next [of i s s' pc'] w_stage C(2) by simp
    moreover have "phase_ok (ps_main s) (pool_state (pm_pool (ps_mem s))) q ((ps_workers s)[i := pc']) n"
      using D(9) w_stage pc' by (intro phase_update) auto
    moreover have "\<forall>k < length (ps_workers s'). critical (ps_workers s' ! k) \<longleftrightarrow> ps_owner s' = Some k"
      using owner_update [OF D(6), of i "W_task pc t" pc'] w_stage pc' by (simp add: critical_def)
    ultimately show ?thesis
      using w_stage(1-3) C(3) q'(2) D by (intro sync_invI) auto
  next
    case (w_done all_done m)
    have m: "pool_state (pm_pool m) = pool_state (pm_pool (ps_mem s))" "worker_count (pm_pool m) = worker_count (pm_pool (ps_mem s))"
        "max_queue_size (pm_pool m) = max_queue_size (pm_pool (ps_mem s))"
        "all_done \<longleftrightarrow> queue_size (pm_pool m) = 0 \<and> active_count (pm_pool m) = 0"
      using w_done(5) by (auto simp: worker_done_def Let_def)
    have eq: "q' = q" using q'(2) w_done(1) by auto
    have all: "all_done \<longleftrightarrow> q = [] \<and> busy_of s' = {#}"
      using q'(1) m(4) w_done(1) eq by (auto simp: core_inv_def queue_inv_def)
    have "phase_ok (ps_main s) (pool_state (pm_pool (ps_mem s))) q ((ps_workers s)[i := W_lock]) n"
      using D(9) w_done by (intro phase_update) auto
    moreover have "\<forall>k < length (ps_workers s'). critical (ps_workers s' ! k) \<longleftrightarrow> ps_owner s' = Some k"
      using owner_update [OF D(6), of i W_done W_lock] w_done by (simp add: critical_def)
    moreover have "q \<noteq> [] \<or> busy_of s' \<noteq> {#}" if "ps_clients s' x = C_waiting" for x
    proof (cases all_done)
      case True
      then show ?thesis using that w_done(1) by (simp add: wake_clients_def split: if_splits)
    next
      case False
      then show ?thesis using all by blast
    qed
    ultimately show ?thesis
      using w_done(1-4) m(1-3) eq D(1-5,7) by (intro sync_invI) simp_all
  qed
  then show ?thesis using q'(1) by blast
qed

subsection \<open>Steps of the clients and of the owner\<close>

text \<open>A worker that is woken up.\<close>

lemma wake_inv:
  assumes core: "core_inv c s q" and sync: "sync_inv n limit s q"
    and i: "i < length (ps_workers s)" "ps_workers s ! i = W_waiting"
    and s': "s' = s\<lparr>ps_workers := (ps_workers s)[i := W_lock]\<rparr>"
  shows "core_inv c s' q" "sync_inv n limit s' q"
proof -
  note D = sync_invD [OF sync]
  have B: "busy_of s' = busy_of s" using busy_quiet [of i s s' W_lock] i s' by simp
  show "core_inv c s' q" by (rule core_cong [OF core]) (use s' B in simp_all)
  have "phase_ok (ps_main s) (pool_state (pm_pool (ps_mem s))) q ((ps_workers s)[i := W_lock]) n"
    using D(9) i by (intro phase_update) auto
  moreover have "\<forall>k < length (ps_workers s'). critical (ps_workers s' ! k) \<longleftrightarrow> ps_owner s' = Some k"
    using owner_update [OF D(6), of i W_waiting W_lock] i s' by (simp add: critical_def)
  ultimately show "sync_inv n limit s' q" using s' B D by (intro sync_invI) simp_all
qed

lemma spurious_inv:
  assumes "core_inv c s q" and "sync_inv n limit s q" and "spurious_step s s'"
  shows "core_inv c s' q \<and> sync_inv n limit s' q"
  using assms(3)
proof cases
  case (s_wake i)
  then show ?thesis using wake_inv [OF assms(1,2) s_wake(2,3,1)] by blast
next
  case (s_client x)
  then have "busy_of s' = busy_of s" by (simp add: busy_of_def)
  moreover have "q \<noteq> [] \<or> busy_of s \<noteq> {#}" using sync_invD(8) [OF assms(2) s_client(2)] .
  ultimately show ?thesis
    using assms(1) sync_invD [OF assms(2)] s_client(1)
    by (intro conjI core_cong [OF assms(1)] sync_invI) simp_all
qed

lemma signal_inv:
  assumes core: "core_inv c s q" and sync: "sync_inv n limit s q" and "signal (ps_workers s) ws"
  shows "core_inv c (s\<lparr>ps_workers := ws\<rparr>) q \<and> sync_inv n limit (s\<lparr>ps_workers := ws\<rparr>) q"
    and "ps_main s = M_running \<Longrightarrow> \<exists>pc \<in> set ws. pc \<noteq> W_waiting"
proof -
  have n: "0 < n" "phase_ok (ps_main s) (pool_state (pm_pool (ps_mem s))) q (ps_workers s) n"
    using sync_invD [OF sync] by blast+
  show "core_inv c (s\<lparr>ps_workers := ws\<rparr>) q \<and> sync_inv n limit (s\<lparr>ps_workers := ws\<rparr>) q"
    using assms(3)
  proof cases
    case (one i)
    then show ?thesis using wake_inv [OF core sync one(2,3) refl] by simp
  qed (use core sync in simp)
  assume "ps_main s = M_running"
  then have len: "length (ps_workers s) = n" using n(2) by simp
  show "\<exists>pc \<in> set ws. pc \<noteq> W_waiting"
    using assms(3)
  proof cases
    case nobody
    then have "ps_workers s ! 0 \<in> set ws" "ps_workers s ! 0 \<noteq> W_waiting"
      using n(1) len by (metis nth_mem)+
    then show ?thesis by blast
  next
    case (one i)
    then have "W_lock \<in> set ws" by (simp add: set_update_memI)
    then show ?thesis by blast
  qed
qed

text \<open>A new lambda of a caller changes nothing for the tasks.\<close>

lemma lambda_new_inv:
  assumes core: "core_inv c s q"
    and new: "ak_lambda_new (pm_world (ps_mem s)) fn ctx free sch = (a, w, sch')"
    and s': "s' = s\<lparr>ps_mem := (ps_mem s)\<lparr>pm_world := w\<rparr>\<rparr>"
  shows "core_inv c s' q"
proof -
  let ?m = "ps_mem s"
  have w: "lw_calls w = lw_calls (pm_world ?m)"
      "\<And>x l. lw_lambdas (pm_world ?m) x = Some l \<Longrightarrow> lw_lambdas w x = Some l"
    using new alloc_cell_Some [of "lw_lambdas (pm_world ?m)" sch]
    by (auto simp: ak_lambda_new_def split: if_splits prod.splits option.splits)
  have ok: "lambdas_ok ?m" and B: "busy_of s' = busy_of s" and ts: "tasks_ok ?m q (busy_of s)"
    using core s' by (auto simp: core_inv_def busy_of_def)
  have grow: "dom (lw_lambdas (pm_world ?m)) \<subseteq> dom (lw_lambdas w)" using w(2) by auto
  have keep: "lw_lambdas w x = lw_lambdas (pm_world ?m) x" if "x \<in> dom (lw_lambdas (pm_world ?m))" for x
    using w(2) that by auto
  have job: "job_of (ps_mem s') u = job_of ?m u" if "pm_tasks ?m u \<noteq> None" for u
  proof -
    obtain r where r: "pm_tasks ?m u = Some r" using \<open>pm_tasks ?m u \<noteq> None\<close> by blast
    then have "set (held r) \<subseteq> dom (lw_lambdas (pm_world ?m))" using ok unfolding lambdas_ok_def by blast
    then show ?thesis by (intro job_of_cong [OF r]) (use r s' keep in auto)
  qed
  have live: "\<And>p u. W_task p u \<in># busy_of s \<Longrightarrow> pm_tasks ?m u \<noteq> None" "\<And>u. u \<in> set q \<Longrightarrow> pm_tasks ?m u \<noteq> None"
    using live_task [OF ts] live_queued [OF ts] by blast+
  have "(\<Sum>pc\<in>#busy_of s. pc_jobs (ps_mem s') pc) = (\<Sum>pc\<in>#busy_of s. pc_jobs ?m pc)"
      "(\<Sum>pc\<in>#busy_of s. pc_calls (ps_mem s') pc) = (\<Sum>pc\<in>#busy_of s. pc_calls ?m pc)"
    by (rule sum_mset_cong, rule pc_cong, rule job, use live in blast)+
  moreover have "map (job_of (ps_mem s')) q = map (job_of ?m) q" by (intro map_cong refl job) (use live in blast)
  moreover have "lambdas_ok (ps_mem s')" using ok grow unfolding lambdas_ok_def s' by (simp, blast)
  ultimately show ?thesis
    using core w(1) B s' by (auto simp: core_inv_def jobs_ok_def tasks_ok_def queue_inv_def)
qed

lemma enqueue_inv:
  assumes core: "core_inv c s q" and sync: "sync_inv n limit s q"
    and use: "usable (ps_main s)" "ps_owner s = None" "may_hand (ps_mem s) l cb"
      "queue_size (pm_pool (ps_mem s)) + 1 < SIZE_RANGE"
    and enq: "enqueue_locked (ps_mem s) l cb sch = Some (0, m, sch')" and signal: "signal (ps_workers s) ws"
    and s': "s' = s\<lparr>ps_mem := m, ps_workers := ws,
                    ps_accepted := ps_accepted s @ [job_at (pm_world (ps_mem s)) l cb]\<rparr>"
  shows "\<exists>q'. core_inv c s' q' \<and> sync_inv n limit s' q'"
proof -
  obtain ns where ns: "queue_inv (ps_mem s) ns q" and ok: "tasks_ok (ps_mem s) q (busy_of s)" "lambdas_ok (ps_mem s)"
      "jobs_ok c (ps_mem s) q (busy_of s) (ps_accepted s) (ps_started s) (ps_finished s) (ps_dropped s)"
    using core by (auto simp: core_inv_def)
  obtain t node where E: "accepts (pm_pool (ps_mem s))" "queue_inv m (ns @ [node]) (q @ [t])"
      "tasks_ok m (q @ [t]) (busy_of s)" "lambdas_ok m" "jobs_ok c m (q @ [t]) (busy_of s)
        (ps_accepted s @ [job_at (pm_world (ps_mem s)) l cb]) (ps_started s) (ps_finished s) (ps_dropped s)"
      "same_pool (pm_pool (ps_mem s)) (pm_pool m)"
    by (rule enqueue_cases [OF ns ok use(3,4), of sch]) (use enq in auto)
  note D = sync_invD [OF sync]
  have run: "ps_main s = M_running" using E(1) D(9) use(1) by (cases "ps_main s") (auto simp: accepts_def)
  let ?s = "s\<lparr>ps_workers := ws\<rparr>"
  have S: "core_inv c ?s q" "sync_inv n limit ?s q" "\<exists>pc \<in> set ws. pc \<noteq> W_waiting"
    using signal_inv [OF core sync signal] run by blast+
  note D' = sync_invD [OF S(2)]
  have B: "busy_of s' = busy_of s" "busy_of ?s = busy_of s"
    using signal s' by (cases; simp add: busy_of_def busy_update)+
  have "core_inv c s' (q @ [t])"
    using E B core s' by (auto simp: core_inv_def same_pool_def)
  moreover have "limit > 0 \<Longrightarrow> length (q @ [t]) \<le> limit"
    using E(1) D(4) ns by (auto simp: accepts_def queue_inv_def)
  moreover have "W_wait \<notin> set ws"
  proof
    assume "W_wait \<in> set ws"
    then obtain i where "i < length ws" "ws ! i = W_wait" by (metis in_set_conv_nth)
    then show False using D'(6) use(2) by (auto simp: critical_def)
  qed
  then have "phase_ok (ps_main s) (pool_state (pm_pool m)) (q @ [t]) ws n"
    using D'(9) S(3) E(6) run by (simp add: same_pool_def)
  ultimately show ?thesis
    using D' E(6) s' B by (intro exI [of _ "q @ [t]"] conjI sync_invI) (simp_all add: same_pool_def)
qed

lemma client_inv:
  assumes core: "core_inv c s q" and sync: "sync_inv n limit s q" and step: "client_step s s'"
  shows "\<exists>q'. core_inv c s' q' \<and> sync_inv n limit s' q'"
  using step
proof cases
  case (c_enqueue l cb sch m sch' ws)
  then show ?thesis using enqueue_inv [OF core sync c_enqueue(2-7,1)] by blast
next
  case (c_refused l cb sch m sch')
  obtain ns where ns: "queue_inv (ps_mem s) ns q" and ok: "tasks_ok (ps_mem s) q (busy_of s)" "lambdas_ok (ps_mem s)"
      "jobs_ok c (ps_mem s) q (busy_of s) (ps_accepted s) (ps_started s) (ps_finished s) (ps_dropped s)"
    using core by (auto simp: core_inv_def)
  note D = sync_invD [OF sync]
  have B: "busy_of s' = busy_of s" using c_refused(1) by (simp add: busy_of_def)
  have live: "lw_lambdas (pm_world (ps_mem s)) l \<noteq> None" using c_refused(4) by (simp add: may_hand_def)
  have "core_inv c s' q \<and> pm_pool m = pm_pool (ps_mem s)"
    by (rule enqueue_cases [OF ns ok c_refused(4,5), of sch])
      (use c_refused(1,6) core B live in \<open>auto simp: core_inv_def\<close>)
  then show ?thesis
    using D c_refused(1) B by (intro exI [of _ q] conjI sync_invI) simp_all
next
  case (c_sleep x)
  have "busy_of s' = busy_of s" using c_sleep by (simp add: busy_of_def)
  moreover have "q \<noteq> [] \<or> busy_of s \<noteq> {#}"
    using c_sleep(5) core by (auto simp: core_inv_def queue_inv_def)
  ultimately show ?thesis
    using sync_invD [OF sync] c_sleep(1)
    by (intro exI [of _ q] conjI core_cong [OF core] sync_invI) simp_all
next
  case (c_return x)
  then have "busy_of s' = busy_of s" by (simp add: busy_of_def)
  then show ?thesis
    using sync_invD [OF sync] c_return(1)
    by (intro exI [of _ q] conjI core_cong [OF core] sync_invI) (auto split: if_splits)
next
  case (c_lambda fn ctx free sch a w sch')
  then show ?thesis
    using lambda_new_inv [OF core c_lambda(2,1)] sync_invD [OF sync]
    by (intro exI [of _ q] conjI sync_invI) (simp_all add: busy_of_def)
qed

lemma set_state_core: "core_inv c s q \<Longrightarrow> core_inv c (s\<lparr>ps_mem := set_state st (ps_mem s)\<rparr>) q"
  by (auto simp: core_inv_def set_state_def queue_inv_def busy_of_def mem_same [of "set_state st (ps_mem s)" "ps_mem s", unfolded set_state_def])

lemma drain_empty: "core_inv c s [] \<Longrightarrow> drain_queue (ps_mem s) = Some (ps_mem s)"
  using queue_inv_empty by (subst drain_queue.simps) (auto simp: core_inv_def)

lemma wake_all_length [simp]: "length (wake_all ws) = length ws"
  by (simp add: wake_all_def)

lemma wake_all_set: "set (wake_all ws) \<subseteq> insert W_lock (set ws - {W_waiting})"
  by (auto simp: wake_all_def)

lemma wake_all_exited: "W_exited \<in> set (wake_all ws) \<longleftrightarrow> W_exited \<in> set ws"
  by (auto simp: wake_all_def split: if_splits)

lemma no_owner_no_wait:
  assumes "sync_inv n limit s q" and "ps_owner s = None"
  shows "W_wait \<notin> set (ps_workers s)"
proof
  assume "W_wait \<in> set (ps_workers s)"
  then obtain i where "i < length (ps_workers s)" "ps_workers s ! i = W_wait" by (metis in_set_conv_nth)
  then show False using sync_invD(6) [OF assms(1)] assms(2) by (auto simp: critical_def)
qed

lemma create_core:
  assumes core: "core_inv c s q" and step: "create_step s s'"
  shows "core_inv c s' q"
  using step
proof cases
  case m_create
  then show ?thesis by (intro core_cong [OF core]) (simp_all add: busy_of_def)
next
  case m_create_fails
  then show ?thesis using core_cong [OF set_state_core [OF core]] by (simp add: busy_of_def)
next
  case m_broadcast
  then show ?thesis by (intro core_cong [OF core]) (simp_all add: busy_of_def busy_wake_all)
qed (use core in \<open>auto simp: core_inv_def busy_of_def\<close>)

lemma create_sync:
  assumes sync: "sync_inv n limit s q" and step: "create_step s s'"
  shows "sync_inv n limit s' q"
  using step
proof cases
  case m_create
  then show ?thesis
    using sync_invD [OF sync] by (intro sync_invI) (auto simp: busy_of_def critical_def nth_append less_Suc_eq)
next
  case m_create_fails
  then show ?thesis using sync_invD [OF sync] by (intro sync_invI) (auto simp: busy_of_def set_state_def)
next
  case m_broadcast
  then show ?thesis
    using sync_invD [OF sync] by (intro sync_invI) (auto simp: busy_of_def busy_wake_all wake_all_critical)
next
  case (m_abandon j)
  then show ?thesis using sync_invD [OF sync] by (intro sync_invI) (auto simp: busy_of_def)
next
  case m_abandoned
  then show ?thesis using sync_invD [OF sync] by (intro sync_invI) (auto simp: busy_of_def)
next
  case m_return
  then show ?thesis using sync_invD [OF sync] by (intro sync_invI) (auto simp: busy_of_def)
qed

lemma main_core:
  assumes core: "core_inv c s q" and sync: "sync_inv n limit s q" and step: "main_step s s'"
  shows "core_inv c s' q"
  using step
proof cases
  case m_new
  then show ?thesis by (rule create_core [OF core])
next
  case m_free
  then show ?thesis using core_cong [OF set_state_core [OF core]] by (simp add: busy_of_def busy_wake_all)
next
  case m_terminate
  then show ?thesis using core_cong [OF set_state_core [OF core]] by (simp add: busy_of_def)
next
  case (m_drain m)
  then have "q = []" using sync_invD(9) [OF sync] by simp
  then have "m = ps_mem s" using drain_empty core m_drain(3) by simp
  then show ?thesis using m_drain(1) by (intro core_cong [OF core]) (simp_all add: busy_of_def)
qed (use core in \<open>auto simp: core_inv_def busy_of_def\<close>)

lemma main_sync:
  assumes core: "core_inv c s q" and sync: "sync_inv n limit s q" and step: "main_step s s'"
  shows "sync_inv n limit s' q"
proof -
  note D = sync_invD [OF sync]
  show ?thesis
    using step
  proof cases
    case m_new
    then show ?thesis by (rule create_sync [OF sync])
  next
    case m_free
    have "phase_ok (M_joining 0) POOL_SHUTTING_DOWN q (wake_all (ps_workers s)) n"
      using D(9) m_free(2) wake_all_set [of "ps_workers s"] wake_all_exited no_owner_no_wait [OF sync m_free(3)]
      by auto
    then show ?thesis
      using m_free D
      by (intro sync_invI) (auto simp: busy_of_def busy_wake_all wake_all_critical set_state_def)
  next
    case (m_join j)
    then show ?thesis using D by (intro sync_invI) (auto simp: busy_of_def less_Suc_eq)
  next
    case m_terminate
    have "set (ps_workers s) \<subseteq> {W_exited}"
      using D(9) m_terminate(2) by (auto simp: in_set_conv_nth)
    moreover have "ps_workers s \<noteq> []" using D(1,9) m_terminate(2) by auto
    ultimately have "W_exited \<in> set (ps_workers s)" by (cases "ps_workers s") auto
    then have "q = []" using D(9) m_terminate(2) by simp
    then show ?thesis
      using \<open>set (ps_workers s) \<subseteq> {W_exited}\<close> m_terminate D by (intro sync_invI) (auto simp: busy_of_def set_state_def)
  next
    case (m_drain m)
    then have "q = []" using D(9) by simp
    then have "m = ps_mem s" using drain_empty core m_drain(3) by simp
    then show ?thesis using m_drain D by (intro sync_invI) (auto simp: busy_of_def)
  qed
qed

lemma pool_start_inv:
  assumes "pool_init cfg sch = (Some p, sch')" and "max_workers p < SIZE_RANGE"
  shows "core_inv (lw_calls w) (pool_start p w) [] \<and>
    sync_inv (max_workers p) (max_queue_size p) (pool_start p w) []"
  using assms
  by (auto simp: pool_init_def Let_def core_inv_def sync_inv_def pool_start_def queue_inv_def tasks_ok_def
      lambdas_ok_def jobs_ok_def busy_of_def split: option.splits if_splits prod.splits)

lemma pool_reach_inv:
  assumes "pool_reach cfg w s"
  shows "\<exists>q. core_inv (lw_calls w) s q \<and>
    sync_inv (worker_count (pm_pool (ps_mem s))) (max_queue_size (pm_pool (ps_mem s))) s q"
  using assms
proof (induction rule: pool_reach.induct)
  case (start sch p sch')
  then show ?case using pool_start_inv [of cfg sch p sch' w] by (auto simp: pool_start_def pool_init_def Let_def split: option.splits if_splits prod.splits)
next
  case (worker s i s')
  then show ?case using worker_sync sync_invD(3,4) by metis
next
  case (spurious s s')
  then show ?case using spurious_inv sync_invD(3,4) by metis
next
  case (client s s')
  then show ?case using client_inv sync_invD(3,4) by metis
next
  case (main s s')
  then show ?case using main_core main_sync sync_invD(3,4) by metis
qed

subsection \<open>Progress\<close>

lemma worker_can_step:
  assumes core: "core_inv c s q" and sync: "sync_inv n limit s q"
    and i: "i < length (ps_workers s)" "ps_workers s ! i \<noteq> W_waiting" "ps_workers s ! i \<noteq> W_exited"
  shows "\<exists>k s'. worker_step s k s'"
proof -
  note own = sync_invD(6,7) [OF sync]
  have crit: "\<exists>s'. worker_step s k s'" if k: "k < length (ps_workers s)" "critical (ps_workers s ! k)" for k
  proof (cases "ps_workers s ! k = W_wait")
    case True
    then show ?thesis using k worker_step.w_sleep by blast
  next
    case False
    then have "ps_workers s ! k = W_check" using k by (simp add: critical_def)
    then show ?thesis
      using worker_check_cases [OF core] k worker_step.w_idle worker_step.w_exit worker_step.w_take by metis
  qed
  have stage: "\<exists>s'. worker_step s i s'" if pc: "ps_workers s ! i = W_task pc t" for pc t
  proof -
    have B: "busy_of s = add_mset (W_task pc t) (busy_of s - {#W_task pc t#})" using busy_take [OF i(1)] pc by simp
    have "tasks_ok (ps_mem s) q (add_mset (W_task pc t) (busy_of s - {#W_task pc t#}))" "lambdas_ok (ps_mem s)"
        "jobs_ok c (ps_mem s) q (add_mset (W_task pc t) (busy_of s - {#W_task pc t#}))
           (ps_accepted s) (ps_started s) (ps_finished s) (ps_dropped s)"
      using core B by (auto simp: core_inv_def)
    then obtain pc' m where "task_stage pc t (ps_mem s) = Some (pc', m)" by (rule stage_task)
    then show ?thesis using worker_step.w_stage [OF i(1) pc] by blast
  qed
  have free: "\<exists>s'. worker_step s i s'" if "ps_owner s = None" "ps_workers s ! i = W_lock \<or> ps_workers s ! i = W_done"
    using that i worker_step.w_lock [OF i(1)] worker_step.w_done [OF i(1)] by (metis surj_pair)
  show ?thesis
  proof (cases "ps_owner s")
    case None
    then show ?thesis using i free stage crit [OF i(1)] by (cases "ps_workers s ! i") (auto simp: critical_def)
  next
    case (Some k)
    then show ?thesis using own crit by blast
  qed
qed

text \<open>What is left to do after the shutdown, as a number that every step of a worker decreases.\<close>

fun pc_weight :: "worker_pc \<Rightarrow> nat" where
  "pc_weight W_exited = 0"
| "pc_weight W_check = 2"
| "pc_weight W_lock = 3"
| "pc_weight W_done = 4"
| "pc_weight (W_task T_free t) = 5"
| "pc_weight (W_task T_callback t) = 6"
| "pc_weight (W_task T_finish t) = 7"
| "pc_weight (W_task T_invoke t) = 8"
| "pc_weight (W_task T_start t) = 9"
| "pc_weight W_waiting = 4"
| "pc_weight W_wait = 5"

definition work_left :: "pool_sys \<Rightarrow> nat" where
  "work_left s = 10 * queue_size (pm_pool (ps_mem s)) + sum_list (map pc_weight (ps_workers s))"

lemma weight_update:
  "i < length ws \<Longrightarrow> sum_list (map pc_weight (ws[i := pc])) + pc_weight (ws ! i) = sum_list (map pc_weight ws) + pc_weight pc"
proof (induction ws arbitrary: i)
  case (Cons x xs)
  then show ?case by (cases i) (auto simp: add.commute add.left_commute)
qed simp

lemma stage_weight:
  "task_stage pc t m = Some (pc', m') \<Longrightarrow> pc_weight pc' < pc_weight (W_task pc t) \<and>
   (pm_pool m' = pm_pool m)"
  by (cases pc) (auto simp: task_transition_state_def task_free_def bind_eq_Some_conv split: if_splits)

lemma worker_step_decreases:
  assumes core: "core_inv c s q" and step: "worker_step s i s'" and down: "pool_state (pm_pool (ps_mem s)) \<noteq> POOL_RUNNING"
    and awake: "W_wait \<notin> set (ps_workers s)"
  shows "work_left s' < work_left s"
  using step
proof cases
  case w_lock
  then show ?thesis using weight_update [of i "ps_workers s" W_check] by (simp add: work_left_def)
next
  case (w_idle m)
  then show ?thesis using worker_check_cases [OF core] down by (metis Pair_inject option.inject worker_pc.distinct)
next
  case (w_exit m)
  have "m = ps_mem s" using worker_check_cases [OF core] w_exit by (metis Pair_inject option.inject worker_pc.distinct)
  then show ?thesis using w_exit weight_update [of i "ps_workers s" W_exited] by (simp add: work_left_def)
next
  case (w_nothing m)
  then show ?thesis using worker_check_cases [OF core] by (metis Pair_inject option.inject worker_pc.distinct)
next
  case (w_take t m)
  obtain q' ns where "q = t # q'" "queue_inv m ns q'"
    using worker_check_cases [OF core] w_take by (metis Pair_inject option.inject worker_pc.distinct worker_pc.inject)
  moreover obtain ns' where "queue_inv (ps_mem s) ns' q" using core by (auto simp: core_inv_def)
  ultimately have "queue_size (pm_pool (ps_mem s)) = Suc (queue_size (pm_pool m))" by (simp add: queue_inv_def)
  then show ?thesis using w_take weight_update [of i "ps_workers s" "W_task T_start t"] by (simp add: work_left_def)
next
  case w_sleep
  then have "W_wait \<in> set (ps_workers s)" by (metis nth_mem)
  then show ?thesis using awake by simp
next
  case (w_stage pc t pc' m)
  then show ?thesis
    using stage_weight [OF w_stage(4)] weight_update [of i "ps_workers s" pc'] by (simp add: work_left_def)
next
  case (w_done all_done m)
  then have "queue_size (pm_pool m) = queue_size (pm_pool (ps_mem s))" by (auto simp: worker_done_def Let_def)
  then show ?thesis using w_done weight_update [of i "ps_workers s" W_lock] by (simp add: work_left_def)
qed

lemma worker_step_main: "worker_step s i s' \<Longrightarrow> ps_main s' = ps_main s \<and> ps_accepted s' = ps_accepted s \<and> ps_dropped s' = ps_dropped s"
  by (cases rule: worker_step.cases) auto

text \<open>A pool with an empty queue and no busy worker has done everything it accepted.\<close>

lemma idle_all_done:
  assumes "core_inv c s []" and "busy_of s = {#}"
  shows "mset (ps_finished s) = mset (ps_accepted s)" "ps_started s = ps_accepted s"
    "mset (lw_calls (pm_world (ps_mem s)))
       = mset c + (\<Sum>j\<in>#mset (ps_accepted s). mset (job_calls j)) + (\<Sum>j\<in>#mset (ps_dropped s). mset (free_calls j))"
proof -
  have *: "ps_accepted s = ps_started s" "mset (ps_started s) = mset (ps_finished s)"
      "mset (lw_calls (pm_world (ps_mem s))) = mset c + (\<Sum>j\<in>#mset (ps_finished s). mset (job_calls j))
         + (\<Sum>j\<in>#mset (ps_dropped s). mset (free_calls j))"
    using assms by (auto simp: core_inv_def jobs_ok_def)
  then show "mset (ps_finished s) = mset (ps_accepted s)" "ps_started s = ps_accepted s"
    "mset (lw_calls (pm_world (ps_mem s)))
       = mset c + (\<Sum>j\<in>#mset (ps_accepted s). mset (job_calls j)) + (\<Sum>j\<in>#mset (ps_dropped s). mset (free_calls j))"
    by simp_all
qed

lemma exited_idle: "set (ps_workers s) \<subseteq> {W_exited} \<Longrightarrow> busy_of s = {#}"
  by (auto simp: busy_of_def)

definition worker_moves :: "pool_sys \<Rightarrow> pool_sys \<Rightarrow> bool" where
  "worker_moves s s' \<longleftrightarrow> (\<exists>i. worker_step s i s')"

lemma shutdown_ends:
  assumes "pool_reach cfg w s" and "ps_main s = M_joining j"
  shows "\<exists>s'. worker_moves\<^sup>*\<^sup>* s s' \<and> set (ps_workers s') \<subseteq> {W_exited} \<and> pool_reach cfg w s'
    \<and> ps_main s' = ps_main s \<and> ps_accepted s' = ps_accepted s"
  using assms
proof (induction "work_left s" arbitrary: s rule: less_induct)
  case less
  obtain q where q: "core_inv (lw_calls w) s q"
      "sync_inv (worker_count (pm_pool (ps_mem s))) (max_queue_size (pm_pool (ps_mem s))) s q"
    using pool_reach_inv [OF less(2)] by blast
  have ph: "pool_state (pm_pool (ps_mem s)) \<noteq> POOL_RUNNING" "W_wait \<notin> set (ps_workers s)" "W_waiting \<notin> set (ps_workers s)"
    using sync_invD(9) [OF q(2)] less(3) by auto
  show ?case
  proof (cases "set (ps_workers s) \<subseteq> {W_exited}")
    case True
    then show ?thesis using less(2) by blast
  next
    case False
    then obtain i where "i < length (ps_workers s)" "ps_workers s ! i \<noteq> W_exited" "ps_workers s ! i \<noteq> W_waiting"
      using ph(3) by (metis in_set_conv_nth singletonI subsetI)
    then obtain k t where k: "worker_step s k t" using worker_can_step [OF q] by blast
    have "work_left t < work_left s" by (rule worker_step_decreases [OF q(1) k ph(1,2)])
    moreover have "pool_reach cfg w t" by (rule pool_reach.worker [OF less(2) k])
    moreover have "ps_main t = M_joining j" using worker_step_main [OF k] less(3) by simp
    ultimately obtain s' where "worker_moves\<^sup>*\<^sup>* t s'" "set (ps_workers s') \<subseteq> {W_exited}" "pool_reach cfg w s'"
        "ps_main s' = ps_main t" "ps_accepted s' = ps_accepted t"
      using less(1) by blast
    moreover have "worker_moves s t" using k by (auto simp: worker_moves_def)
    ultimately show ?thesis using worker_step_main [OF k] by (metis converse_rtranclp_into_rtranclp)
  qed
qed

lemma someone_awake:
  assumes sync: "sync_inv n limit s q" and use: "usable (ps_main s)" and work: "q \<noteq> [] \<or> busy_of s \<noteq> {#}"
  shows "\<exists>pc \<in> set (ps_workers s). pc \<noteq> W_waiting \<and> pc \<noteq> W_exited"
proof (cases "busy_of s = {#}")
  case True
  note ph = sync_invD(1,9) [OF sync]
  show ?thesis
  proof (cases "ps_main s = M_running")
    case True
    then show ?thesis using \<open>busy_of s = {#}\<close> work ph(2) by auto
  next
    case False
    then obtain j where j: "ps_main s = M_joining j" using use by (cases "ps_main s") auto
    then have "hd (ps_workers s) \<in> set (ps_workers s)" using ph by (auto intro: hd_in_set)
    then show ?thesis using \<open>busy_of s = {#}\<close> work ph(2) j by (metis phase_ok.simps(3))
  qed
next
  case False
  then obtain pc where "pc \<in># busy_of s" by blast
  then show ?thesis by (intro bexI [of _ pc]) (auto simp: busy_of_def)
qed

section \<open>Properties of the pool\<close>

text \<open>
  C18: Every accepted task is run once. In every state a pool reaches, for every interleaving
  of its workers with threads that enqueue and wait and with the thread that creates and
  frees it: the tasks started are a prefix of the tasks accepted, in the order of acceptance,
  and the rest is the queue, whose length is the pool's count and stays within its limit;
  every started task is either finished or at one stage of one worker; the calls made so far are
  exactly those of the finished tasks (the lambda once, then its callback once with the state
  COMPLETED, then one call each to free their contexts), the first calls of the running ones, and
  the calls that free the contexts of tasks an enqueue had to give up; the active count is the
  number of busy workers; and at most one worker is between lock and unlock.\<close>

theorem pool_runs_tasks_once:
  assumes "pool_reach cfg w s"
  shows "\<exists>q. ps_accepted s = ps_started s @ map (job_of (ps_mem s)) q
    \<and> queue_size (pm_pool (ps_mem s)) = length q
    \<and> (max_queue_size (pm_pool (ps_mem s)) > 0 \<longrightarrow> length q \<le> max_queue_size (pm_pool (ps_mem s)))
    \<and> mset (ps_started s) = mset (ps_finished s) + (\<Sum>pc\<in>#busy_of s. pc_jobs (ps_mem s) pc)
    \<and> mset (lw_calls (pm_world (ps_mem s))) = mset (lw_calls w)
        + (\<Sum>j\<in>#mset (ps_finished s). mset (job_calls j)) + (\<Sum>pc\<in>#busy_of s. pc_calls (ps_mem s) pc)
        + (\<Sum>j\<in>#mset (ps_dropped s). mset (free_calls j))
    \<and> active_count (pm_pool (ps_mem s)) = size (busy_of s)
    \<and> (\<forall>i k. i < length (ps_workers s) \<and> k < length (ps_workers s)
         \<and> critical (ps_workers s ! i) \<and> critical (ps_workers s ! k) \<longrightarrow> i = k)"
proof -
  obtain q where q: "core_inv (lw_calls w) s q"
      "sync_inv (worker_count (pm_pool (ps_mem s))) (max_queue_size (pm_pool (ps_mem s))) s q"
    using pool_reach_inv [OF assms] by blast
  have "\<forall>i k. i < length (ps_workers s) \<and> k < length (ps_workers s)
      \<and> critical (ps_workers s ! i) \<and> critical (ps_workers s ! k) \<longrightarrow> i = k"
    using sync_invD(6) [OF q(2)] by auto
  then show ?thesis
    using q(1) sync_invD(5) [OF q(2)]
    by (intro exI [of _ q]) (auto simp: core_inv_def jobs_ok_def queue_inv_def)
qed

text \<open>
  C20: Waiting for a pool. While a pool is in use: a thread asleep in a wait has a reason to
  be, a task that is queued or running, so no wake-up is lost; as long as there is such a task
  some worker can take a step, without any spurious wake-up; when the counters let a wait
  return, every accepted task is finished; and while a worker runs a task no wait returns, so
  a task that waits for its own pool never ends.\<close>

theorem pool_wait_spec:
  assumes "pool_reach cfg w s" and "usable (ps_main s)"
  shows "((\<exists>c. ps_clients s c = C_waiting) \<longrightarrow>
      queue_size (pm_pool (ps_mem s)) > 0 \<or> active_count (pm_pool (ps_mem s)) > 0)
    \<and> (queue_size (pm_pool (ps_mem s)) > 0 \<or> active_count (pm_pool (ps_mem s)) > 0 \<longrightarrow>
        (\<exists>i s'. worker_step s i s'))
    \<and> (queue_size (pm_pool (ps_mem s)) = 0 \<and> active_count (pm_pool (ps_mem s)) = 0 \<longrightarrow>
        mset (ps_finished s) = mset (ps_accepted s))
    \<and> (\<forall>pc t. W_task pc t \<in> set (ps_workers s) \<longrightarrow> active_count (pm_pool (ps_mem s)) > 0)"
proof -
  obtain q where q: "core_inv (lw_calls w) s q"
      "sync_inv (worker_count (pm_pool (ps_mem s))) (max_queue_size (pm_pool (ps_mem s))) s q"
    using pool_reach_inv [OF assms(1)] by blast
  have cnt: "queue_size (pm_pool (ps_mem s)) = length q" "active_count (pm_pool (ps_mem s)) = size (busy_of s)"
    using q(1) by (auto simp: core_inv_def queue_inv_def)
  have "\<exists>i s'. worker_step s i s'" if "q \<noteq> [] \<or> busy_of s \<noteq> {#}"
    using someone_awake [OF q(2) assms(2) that] worker_can_step [OF q] by (metis in_set_conv_nth)
  moreover have "q \<noteq> [] \<or> busy_of s \<noteq> {#}" if "ps_clients s c = C_waiting" for c
    using sync_invD(8) [OF q(2) that] .
  moreover have "busy_of s \<noteq> {#}" if "W_task pc t \<in> set (ps_workers s)" for pc t
  proof -
    have "W_task pc t \<in># busy_of s" using that by (simp add: busy_of_def)
    then show ?thesis by auto
  qed
  ultimately show ?thesis using cnt idle_all_done(1) q(1) by (metis gr0I length_0_conv length_greater_0_conv size_eq_0_iff_empty)
qed

text \<open>
  C19: The shutdown of a pool. Once \<open>ak_thread_pool_free\<close> has begun to join: every step of a
  worker decreases the work that is left, so the workers take finitely many steps; as long as a
  worker has not exited some worker can take a step; hence the workers can run to the end, and in
  every state in which all have exited the queue is empty, every task accepted is finished, and
  the calls made are exactly those of the accepted tasks and of the ones that were given up.\<close>

theorem pool_shutdown_completes:
  assumes "pool_reach cfg w s" and "ps_main s = M_joining j"
  shows "(\<forall>i s'. worker_step s i s' \<longrightarrow> work_left s' < work_left s)
    \<and> (\<not> set (ps_workers s) \<subseteq> {W_exited} \<longrightarrow> (\<exists>i s'. worker_step s i s'))
    \<and> (\<exists>s'. worker_moves\<^sup>*\<^sup>* s s' \<and> set (ps_workers s') \<subseteq> {W_exited} \<and> pool_reach cfg w s'
         \<and> ps_main s' = ps_main s \<and> ps_accepted s' = ps_accepted s)
    \<and> (set (ps_workers s) \<subseteq> {W_exited} \<longrightarrow> queue_size (pm_pool (ps_mem s)) = 0
         \<and> mset (ps_finished s) = mset (ps_accepted s)
         \<and> mset (lw_calls (pm_world (ps_mem s))) = mset (lw_calls w)
             + (\<Sum>j\<in>#mset (ps_accepted s). mset (job_calls j)) + (\<Sum>j\<in>#mset (ps_dropped s). mset (free_calls j)))"
proof -
  obtain q where q: "core_inv (lw_calls w) s q"
      "sync_inv (worker_count (pm_pool (ps_mem s))) (max_queue_size (pm_pool (ps_mem s))) s q"
    using pool_reach_inv [OF assms(1)] by blast
  note ph = sync_invD(1,9) [OF q(2)]
  have down: "pool_state (pm_pool (ps_mem s)) \<noteq> POOL_RUNNING" "W_wait \<notin> set (ps_workers s)" "W_waiting \<notin> set (ps_workers s)"
    using ph(2) assms(2) by auto
  have "\<exists>i s'. worker_step s i s'" if "\<not> set (ps_workers s) \<subseteq> {W_exited}"
    using that down(3) worker_can_step [OF q] by (metis in_set_conv_nth singletonI subsetI)
  moreover have empty: "q = []" if "set (ps_workers s) \<subseteq> {W_exited}"
  proof -
    have "ps_workers s \<noteq> []" using ph assms(2) by auto
    then have "W_exited \<in> set (ps_workers s)" using that by (cases "ps_workers s") auto
    then show ?thesis using ph(2) assms(2) by simp
  qed
  moreover have "queue_size (pm_pool (ps_mem s)) = length q" using q(1) by (auto simp: core_inv_def queue_inv_def)
  moreover have "mset (ps_finished s) = mset (ps_accepted s)" "mset (lw_calls (pm_world (ps_mem s))) = mset (lw_calls w)
      + (\<Sum>j\<in>#mset (ps_accepted s). mset (job_calls j)) + (\<Sum>j\<in>#mset (ps_dropped s). mset (free_calls j))"
    if "set (ps_workers s) \<subseteq> {W_exited}"
    using idle_all_done(1,3) [OF _ exited_idle [OF that], of "lw_calls w"] empty [OF that] q(1) by simp_all
  ultimately show ?thesis
    using worker_step_decreases [OF q(1) _ down(1,2)] shutdown_ends [OF assms] by simp
qed

text \<open>A pool with one worker, and the same pool with one task accepted.\<close>

definition demo_pool :: ak_thread_pool where
  "demo_pool = \<lparr>max_workers = 1, max_queue_size = 11, workers_room = 1, worker_count = 1, active_count = 0,
     queue_head = 0, queue_tail = 0, queue_size = 0, pool_state = POOL_RUNNING\<rparr>"

definition demo_world :: lambda_world where
  "demo_world = \<lparr>lw_lambdas = [3 \<mapsto> \<lparr>la_fn = 7, captured_ctx = 5, ctx_free = 9\<rparr>], lw_calls = []\<rparr>"

definition demo_running :: pool_sys where
  "demo_running = (pool_start demo_pool demo_world)\<lparr>ps_workers := [W_lock], ps_main := M_running\<rparr>"

definition demo_queued :: pool_sys where
  "demo_queued = demo_running\<lparr>
     ps_mem := \<lparr>pm_pool = demo_pool\<lparr>queue_head := 21, queue_tail := 21, queue_size := 1\<rparr>,
                pm_nodes = [21 \<mapsto> \<lparr>node_task = 20, node_next = 0\<rparr>],
                pm_tasks = [20 \<mapsto> \<lparr>task_lambda = 3, completion_callback = 0, task_state = TASK_PENDING\<rparr>],
                pm_world = demo_world\<rparr>,
     ps_accepted := [(\<lparr>la_fn = 7, captured_ctx = 5, ctx_free = 9\<rparr>, None)]\<rparr>"

abbreviation demo_config :: "ak_thread_pool_config option" where
  "demo_config \<equiv> Some \<lparr>cfg_max_workers = 1, cfg_max_queue_size = 11\<rparr>"

lemma demo_running_reach: "pool_reach demo_config demo_world demo_running"
proof -
  let ?s0 = "pool_start demo_pool demo_world"
  let ?s1 = "?s0\<lparr>ps_workers := ps_workers ?s0 @ [W_lock]\<rparr>"
  have "pool_init demo_config [Some g, Some g, Some g, Some g, Some g] = (Some demo_pool, [])" for g
    by (simp add: pool_init_def demo_pool_def sz_mul_def)
  then have r0: "pool_reach demo_config demo_world ?s0" by (rule pool_reach.start) (simp add: demo_pool_def)
  have "main_step ?s0 ?s1" by (rule main_step.m_new [OF create_step.m_create]) (simp_all add: pool_start_def demo_pool_def)
  then have r1: "pool_reach demo_config demo_world ?s1" by (rule pool_reach.main [OF r0])
  have "main_step ?s1 (?s1\<lparr>ps_main := M_running\<rparr>)"
    by (rule main_step.m_new [OF create_step.m_return]) (simp_all add: pool_start_def demo_pool_def)
  then have "pool_reach demo_config demo_world (?s1\<lparr>ps_main := M_running\<rparr>)" by (rule pool_reach.main [OF r1])
  moreover have "?s1\<lparr>ps_main := M_running\<rparr> = demo_running" by (simp add: demo_running_def pool_start_def)
  ultimately show ?thesis by simp
qed

lemma demo_queued_reach: "pool_reach demo_config demo_world demo_queued"
proof -
  let ?m = "ps_mem demo_queued"
  have enq: "enqueue_locked (ps_mem demo_running) 3 0 [Some (\<lambda>_. 20), Some (\<lambda>_. 1), Some (\<lambda>_. 21)] = Some (0, ?m, [])"
    by (simp add: enqueue_locked_def task_new_def alloc_cell_def queue_append_def sz_add_def
        demo_queued_def demo_running_def pool_start_def demo_pool_def demo_world_def)
  have "client_step demo_running (demo_running\<lparr>ps_mem := ?m, ps_workers := [W_lock],
      ps_accepted := ps_accepted demo_running @ [job_at (pm_world (ps_mem demo_running)) 3 0]\<rparr>)"
    by (rule client_step.c_enqueue [OF _ _ _ _ enq])
      (auto simp: demo_running_def pool_start_def demo_pool_def demo_world_def may_hand_def intro: signal.nobody)
  then have "pool_reach demo_config demo_world (demo_running\<lparr>ps_mem := ?m, ps_workers := [W_lock],
      ps_accepted := ps_accepted demo_running @ [job_at (pm_world (ps_mem demo_running)) 3 0]\<rparr>)"
    by (rule pool_reach.client [OF demo_running_reach])
  then show ?thesis
    by (simp add: demo_queued_def demo_running_def pool_start_def job_at_def demo_world_def)
qed

theorem pool_runs_tasks_once_witness:
  "pool_reach demo_config demo_world demo_queued \<and>
   (\<exists>q. ps_accepted demo_queued = ps_started demo_queued @ map (job_of (ps_mem demo_queued)) q
     \<and> length q = 1 \<and> active_count (pm_pool (ps_mem demo_queued)) = 0)"
proof -
  obtain q where "ps_accepted demo_queued = ps_started demo_queued @ map (job_of (ps_mem demo_queued)) q"
      "queue_size (pm_pool (ps_mem demo_queued)) = length q"
      "active_count (pm_pool (ps_mem demo_queued)) = size (busy_of demo_queued)"
    using pool_runs_tasks_once [OF demo_queued_reach] by blast
  moreover have "queue_size (pm_pool (ps_mem demo_queued)) = 1" "busy_of demo_queued = {#}"
    by (simp_all add: demo_queued_def demo_running_def pool_start_def busy_of_def)
  ultimately show ?thesis using demo_queued_reach by (intro conjI exI [of _ q]) simp_all
qed

theorem pool_wait_spec_witness: "usable (ps_main demo_queued) \<and> (\<exists>i s'. worker_step demo_queued i s')"
proof -
  have u: "usable (ps_main demo_queued)" by (simp add: demo_queued_def demo_running_def pool_start_def)
  have "queue_size (pm_pool (ps_mem demo_queued)) > 0" by (simp add: demo_queued_def)
  then show ?thesis using pool_wait_spec [OF demo_queued_reach u] u by blast
qed

theorem pool_shutdown_completes_witness:
  "\<exists>s s'. pool_reach demo_config demo_world s \<and> ps_main s = M_joining 0
     \<and> worker_moves\<^sup>*\<^sup>* s s' \<and> set (ps_workers s') \<subseteq> {W_exited}
     \<and> mset (ps_finished s') = mset (ps_accepted s') \<and> length (ps_accepted s') = 1"
proof -
  let ?s = "demo_queued\<lparr>ps_mem := set_state POOL_SHUTTING_DOWN (ps_mem demo_queued),
              ps_workers := wake_all (ps_workers demo_queued), ps_main := M_joining 0\<rparr>"
  have "main_step demo_queued ?s"
    by (rule main_step.m_free) (simp_all add: demo_queued_def demo_running_def pool_start_def)
  then have r: "pool_reach demo_config demo_world ?s" by (rule pool_reach.main [OF demo_queued_reach])
  have j: "ps_main ?s = M_joining 0" by simp
  obtain s' where s': "worker_moves\<^sup>*\<^sup>* ?s s'" "set (ps_workers s') \<subseteq> {W_exited}" "pool_reach demo_config demo_world s'"
      "ps_main s' = ps_main ?s" "ps_accepted s' = ps_accepted ?s"
    using pool_shutdown_completes [OF r j] by blast
  have "mset (ps_finished s') = mset (ps_accepted s')"
    using pool_shutdown_completes [OF s'(3)] s'(2,4) by simp
  moreover have "length (ps_accepted s') = 1" using s'(5) by (simp add: demo_queued_def)
  ultimately show ?thesis using r j s'(1,2) by blast
qed

text \<open>
  The failing path of \<open>ak_thread_pool_new\<close> can lose the wake-up: the first of two workers has
  found the queue empty and holds the mutex, the creation of the second fails, and the state is
  set and the broadcast made without the mutex before the worker is asleep. Then the worker
  sleeps, the owner waits for it to exit, and no thread can take a step any more.
\<close>

theorem pool_new_can_hang:
  "\<exists>cfg w s. pool_reach cfg w s \<and> ps_main s = M_abandon 0 \<and> ps_workers s = [W_waiting]
     \<and> (\<forall>i s'. \<not> worker_step s i s') \<and> (\<forall>s'. \<not> main_step s s')"
proof -
  let ?cfg = "Some \<lparr>cfg_max_workers = 2, cfg_max_queue_size = 0\<rparr>"
  let ?p = "\<lparr>max_workers = 2, max_queue_size = 0, workers_room = 2, worker_count = 2, active_count = 0,
     queue_head = 0, queue_tail = 0, queue_size = 0, pool_state = POOL_RUNNING\<rparr>"
  let ?s0 = "pool_start ?p demo_world"
  let ?s1 = "?s0\<lparr>ps_workers := [W_lock]\<rparr>"
  let ?s2 = "?s1\<lparr>ps_owner := Some 0, ps_workers := [W_check]\<rparr>"
  let ?s3 = "?s2\<lparr>ps_workers := [W_wait]\<rparr>"
  let ?s4 = "?s3\<lparr>ps_mem := set_state POOL_SHUTTING_DOWN (ps_mem ?s3), ps_main := M_failing\<rparr>"
  let ?s5 = "?s4\<lparr>ps_main := M_abandon 0\<rparr>"
  let ?s6 = "?s5\<lparr>ps_owner := None, ps_workers := [W_waiting]\<rparr>"
  have "pool_init ?cfg [Some g, Some g, Some g, Some g, Some g] = (Some ?p, [])" for g
    by (simp add: pool_init_def sz_mul_def)
  then have "pool_reach ?cfg demo_world ?s0" by (rule pool_reach.start) simp
  moreover have "main_step ?s0 ?s1" using main_step.m_new [OF create_step.m_create [of ?s0]] by (simp add: pool_start_def)
  ultimately have "pool_reach ?cfg demo_world ?s1" by (rule pool_reach.main)
  moreover have "worker_step ?s1 0 ?s2" using worker_step.w_lock [of 0 ?s1] by (simp add: pool_start_def)
  ultimately have "pool_reach ?cfg demo_world ?s2" by (rule pool_reach.worker)
  moreover have "worker_step ?s2 0 ?s3"
    using worker_step.w_idle [of 0 ?s2 "ps_mem ?s2"] by (simp add: pool_start_def worker_check_def)
  ultimately have "pool_reach ?cfg demo_world ?s3" by (rule pool_reach.worker)
  moreover have "main_step ?s3 ?s4" using main_step.m_new [OF create_step.m_create_fails [of ?s3]] by (simp add: pool_start_def)
  ultimately have "pool_reach ?cfg demo_world ?s4" by (rule pool_reach.main)
  moreover have "main_step ?s4 ?s5" using main_step.m_new [OF create_step.m_broadcast [of ?s4]] by (simp add: pool_start_def wake_all_def)
  ultimately have "pool_reach ?cfg demo_world ?s5" by (rule pool_reach.main)
  moreover have "worker_step ?s5 0 ?s6" using worker_step.w_sleep [of 0 ?s5] by (simp add: pool_start_def)
  ultimately have "pool_reach ?cfg demo_world ?s6" by (rule pool_reach.worker)
  moreover have "\<not> worker_step ?s6 i s'" for i s'
    by (auto simp: pool_start_def elim: worker_step.cases)
  moreover have "\<not> main_step ?s6 s'" for s'
    by (auto simp: pool_start_def elim!: main_step.cases create_step.cases)
  ultimately show ?thesis by (intro exI [of _ ?cfg] exI [of _ demo_world] exI [of _ ?s6]) simp
qed



end
