(* ===== verification/Log.thy ===== *)
theory Log
  imports Sourceloc
begin

text \<open>
  Model of kernel/log/src/log.c: the global logger with its level, its console output and an
  array of callbacks. Strings are lists of bytes. A call of the logger yields the events a
  reader of the outputs sees, in order: the calls of the lock function, the lines written to
  streams and the calls of the caller's functions. The broken-down local time and the formatted
  message are arguments; streams, functions and user data are numbers, 0 being NULL.

  The lemmas show which outputs a message reaches, in which order and with which text, and that
  registration fills the array in order.
\<close>

section \<open>Definitions\<close>

definition AK24_LOG_MAX_CALLBACKS :: nat where
  "AK24_LOG_MAX_CALLBACKS = 32"

datatype ak_log_level = LEVEL_TRACE | LEVEL_DEBUG | LEVEL_INFO | LEVEL_WARN | LEVEL_ERROR | LEVEL_FATAL

datatype ak_log_path_format = PATH_FULL | PATH_ABBREV

fun level_number :: "ak_log_level \<Rightarrow> nat" where
  "level_number LEVEL_TRACE = 0"
| "level_number LEVEL_DEBUG = 1"
| "level_number LEVEL_INFO = 2"
| "level_number LEVEL_WARN = 3"
| "level_number LEVEL_ERROR = 4"
| "level_number LEVEL_FATAL = 5"

text \<open>The logger's own function that writes to a file, and a function of the caller.\<close>

datatype log_fn = File_callback | User_callback nat

record log_callback =
  cb_fn :: "log_fn option"
  cb_udata :: nat
  cb_level :: ak_log_level

record logger =
  log_udata :: nat
  log_lock :: nat
  log_level :: ak_log_level
  log_quiet :: bool
  use_color :: bool
  path_format :: ak_log_path_format
  log_callbacks :: "log_callback list"

definition logger0 :: logger where
  "logger0 = \<lparr>log_udata = 0, log_lock = 0, log_level = LEVEL_TRACE, log_quiet = False, use_color = False,
     path_format = PATH_FULL,
     log_callbacks = replicate AK24_LOG_MAX_CALLBACKS \<lparr>cb_fn = None, cb_udata = 0, cb_level = LEVEL_TRACE\<rparr>\<rparr>"

record log_time =
  tm_year :: nat
  tm_mon :: nat
  tm_mday :: nat
  tm_hour :: nat
  tm_min :: nat
  tm_sec :: nat

text \<open>What a function of the caller is given.\<close>

record ak_log_event =
  ev_msg :: "u8 list"
  ev_file :: "u8 list"
  ev_time :: log_time
  ev_udata :: nat
  ev_line :: nat
  ev_level :: ak_log_level

datatype log_output = Lock_call nat bool nat | Written nat "u8 list" | Called nat ak_log_event

definition ESC :: u8 where "ESC = 0x1B"

fun level_strings :: "ak_log_level \<Rightarrow> u8 list" where
  "level_strings LEVEL_TRACE = lit ''TRACE''"
| "level_strings LEVEL_DEBUG = lit ''DEBUG''"
| "level_strings LEVEL_INFO = lit ''INFO''"
| "level_strings LEVEL_WARN = lit ''WARN''"
| "level_strings LEVEL_ERROR = lit ''ERROR''"
| "level_strings LEVEL_FATAL = lit ''FATAL''"

fun level_colors :: "ak_log_level \<Rightarrow> u8 list" where
  "level_colors LEVEL_TRACE = ESC # lit ''[94m''"
| "level_colors LEVEL_DEBUG = ESC # lit ''[36m''"
| "level_colors LEVEL_INFO = ESC # lit ''[32m''"
| "level_colors LEVEL_WARN = ESC # lit ''[33m''"
| "level_colors LEVEL_ERROR = ESC # lit ''[31m''"
| "level_colors LEVEL_FATAL = ESC # lit ''[35m''"

text \<open>\<open>strrchr (file, '/')\<close> and the part behind it.\<close>

fun after_last_slash :: "u8 list \<Rightarrow> u8 list option" where
  "after_last_slash [] = None"
| "after_last_slash (c # cs) =
     (case after_last_slash cs of Some r \<Rightarrow> Some r | None \<Rightarrow> if c = 0x2F then Some cs else None)"

definition format_file_path :: "logger \<Rightarrow> u8 list \<Rightarrow> u8 list" where
  "format_file_path L file =
     (if path_format L = PATH_ABBREV
      then (case after_last_slash file of Some r \<Rightarrow> r | None \<Rightarrow> file)
      else file)"

text \<open>The conversions the format strings use: \<open>%02d\<close> and \<open>%-5s\<close>, and the times of \<open>strftime\<close>.\<close>

definition two_digits :: "nat \<Rightarrow> u8 list" where
  "two_digits n = (if n < 10 then lit ''0'' else []) @ decimal n"

definition pad5 :: "u8 list \<Rightarrow> u8 list" where
  "pad5 s = s @ replicate (5 - length s) 0x20"

definition clock :: "log_time \<Rightarrow> u8 list" where
  "clock t = two_digits (tm_hour t) @ lit '':'' @ two_digits (tm_min t) @ lit '':'' @ two_digits (tm_sec t)"

definition date :: "log_time \<Rightarrow> u8 list" where
  "date t = decimal (tm_year t) @ lit ''-'' @ two_digits (tm_mon t) @ lit ''-'' @ two_digits (tm_mday t)"

definition stdout_callback :: "logger \<Rightarrow> ak_log_event \<Rightarrow> u8 list" where
  "stdout_callback L ev =
     (let file_display = format_file_path L (ev_file ev) in
      (if use_color L
       then clock (ev_time ev) @ lit '' '' @ level_colors (ev_level ev) @ pad5 (level_strings (ev_level ev))
            @ ESC # lit ''[0m '' @ ESC # lit ''[90m'' @ file_display @ lit '':'' @ decimal (ev_line ev)
            @ lit '':'' @ ESC # lit ''[0m ''
       else clock (ev_time ev) @ lit '' '' @ pad5 (level_strings (ev_level ev)) @ lit '' ''
            @ file_display @ lit '':'' @ decimal (ev_line ev) @ lit '': '')
      @ ev_msg ev @ [0x0A])"

definition file_callback :: "logger \<Rightarrow> ak_log_event \<Rightarrow> u8 list" where
  "file_callback L ev =
     date (ev_time ev) @ lit '' '' @ clock (ev_time ev) @ lit '' '' @ pad5 (level_strings (ev_level ev)) @ lit '' ''
     @ format_file_path L (ev_file ev) @ lit '':'' @ decimal (ev_line ev) @ lit '': '' @ ev_msg ev @ [0x0A]"

definition lock_calls :: "logger \<Rightarrow> bool \<Rightarrow> log_output list" where
  "lock_calls L b = (if log_lock L \<noteq> 0 then [Lock_call (log_lock L) b (log_udata L)] else [])"

definition ak_log_level_string :: "ak_log_level \<Rightarrow> u8 list" where
  "ak_log_level_string level = level_strings level"

definition ak_log_set_lock :: "logger \<Rightarrow> nat \<Rightarrow> nat \<Rightarrow> logger" where
  "ak_log_set_lock L fn udata = L\<lparr>log_lock := fn, log_udata := udata\<rparr>"

definition ak_log_set_level :: "logger \<Rightarrow> ak_log_level \<Rightarrow> logger" where
  "ak_log_set_level L level = L\<lparr>log_level := level\<rparr>"

definition ak_log_set_quiet :: "logger \<Rightarrow> bool \<Rightarrow> logger" where
  "ak_log_set_quiet L enable = L\<lparr>log_quiet := enable\<rparr>"

definition ak_log_set_color :: "logger \<Rightarrow> bool \<Rightarrow> logger" where
  "ak_log_set_color L enable = L\<lparr>use_color := enable\<rparr>"

definition ak_log_set_path_format :: "logger \<Rightarrow> ak_log_path_format \<Rightarrow> logger" where
  "ak_log_set_path_format L format = L\<lparr>path_format := format\<rparr>"

text \<open>The first slot without a function takes the callback.\<close>

fun fill_slot :: "log_callback list \<Rightarrow> log_callback \<Rightarrow> log_callback list option" where
  "fill_slot [] cb = None"
| "fill_slot (c # cs) cb =
     (if cb_fn c = None then Some (cb # cs) else map_option ((#) c) (fill_slot cs cb))"

definition ak_log_add_callback ::
  "logger \<Rightarrow> log_fn option \<Rightarrow> nat \<Rightarrow> ak_log_level \<Rightarrow> int \<times> logger" where
  "ak_log_add_callback L fn udata level =
     (case fill_slot (log_callbacks L) \<lparr>cb_fn = fn, cb_udata = udata, cb_level = level\<rparr> of
        Some cs \<Rightarrow> (0, L\<lparr>log_callbacks := cs\<rparr>)
      | None \<Rightarrow> (-1, L))"

definition ak_log_add_fp :: "logger \<Rightarrow> nat \<Rightarrow> ak_log_level \<Rightarrow> int \<times> logger" where
  "ak_log_add_fp L fp level = ak_log_add_callback L (Some File_callback) fp level"

definition call_callback :: "logger \<Rightarrow> log_fn \<Rightarrow> ak_log_event \<Rightarrow> log_output" where
  "call_callback L fn ev =
     (case fn of
        File_callback \<Rightarrow> Written (ev_udata ev) (file_callback L ev)
      | User_callback f \<Rightarrow> Called f ev)"

fun run_callbacks :: "logger \<Rightarrow> ak_log_event \<Rightarrow> log_callback list \<Rightarrow> log_output list" where
  "run_callbacks L ev [] = []"
| "run_callbacks L ev (cb # cbs) =
     (case cb_fn cb of
        None \<Rightarrow> []
      | Some fn \<Rightarrow>
          (if level_number (ev_level ev) \<ge> level_number (cb_level cb)
           then [call_callback L fn (ev\<lparr>ev_udata := cb_udata cb\<rparr>)] else [])
          @ run_callbacks L ev cbs)"

text \<open>The stream \<open>stderr\<close> is stream 2.\<close>

definition ak_log_log ::
  "logger \<Rightarrow> ak_log_level \<Rightarrow> u8 list \<Rightarrow> nat \<Rightarrow> u8 list \<Rightarrow> log_time \<Rightarrow> log_output list" where
  "ak_log_log L level file line msg t =
     (let ev = \<lparr>ev_msg = msg, ev_file = file, ev_time = t, ev_udata = 2, ev_line = line, ev_level = level\<rparr>
      in lock_calls L True
         @ (if \<not> log_quiet L \<and> level_number level \<ge> level_number (log_level L)
            then [Written 2 (stdout_callback L ev)] else [])
         @ run_callbacks L ev (log_callbacks L)
         @ lock_calls L False)"

section \<open>Registration\<close>

text \<open>The callbacks registered: those before the first slot without a function.\<close>

definition registered :: "logger \<Rightarrow> log_callback list" where
  "registered L = takeWhile (\<lambda>cb. cb_fn cb \<noteq> None) (log_callbacks L)"

definition logger_ok :: "logger \<Rightarrow> bool" where
  "logger_ok L \<longleftrightarrow> length (log_callbacks L) = AK24_LOG_MAX_CALLBACKS"

definition add_all :: "logger \<Rightarrow> (log_fn \<times> nat \<times> ak_log_level) list \<Rightarrow> logger" where
  "add_all L xs = foldl (\<lambda>L (fn, u, l). snd (ak_log_add_callback L (Some fn) u l)) L xs"

lemma fill_slot_registered:
  "fill_slot cs cb = Some cs' \<Longrightarrow> cb_fn cb \<noteq> None \<Longrightarrow>
     length (takeWhile (\<lambda>c. cb_fn c \<noteq> None) cs) < length cs \<and> length cs' = length cs \<and>
     (dropWhile (\<lambda>c. cb_fn c \<noteq> None) cs = replicate n z \<and> cb_fn z = None \<longrightarrow>
      takeWhile (\<lambda>c. cb_fn c \<noteq> None) cs' = takeWhile (\<lambda>c. cb_fn c \<noteq> None) cs @ [cb] \<and>
      dropWhile (\<lambda>c. cb_fn c \<noteq> None) cs' = replicate (n - 1) z)"
proof (induction cs cb arbitrary: cs' rule: fill_slot.induct)
  case (2 c cs cb)
  show ?case
  proof (cases "cb_fn c = None")
    case True
    have "takeWhile (\<lambda>c. cb_fn c \<noteq> None) (replicate k z) = []" if "cb_fn z = None" for k
      using that by (cases k) auto
    moreover have "dropWhile (\<lambda>c. cb_fn c \<noteq> None) (replicate k z) = replicate k z" if "cb_fn z = None" for k
      using that by (cases k) auto
    ultimately show ?thesis using 2 True by (cases n) auto
  next
    case False
    then show ?thesis using 2 by auto
  qed
qed simp

lemma fill_slot_full: "fill_slot cs cb = None \<longleftrightarrow> (\<forall>c \<in> set cs. cb_fn c \<noteq> None)"
  by (induction cs cb rule: fill_slot.induct) auto

lemma run_callbacks_registered:
  "run_callbacks L ev cs = map (\<lambda>cb. call_callback L (the (cb_fn cb)) (ev\<lparr>ev_udata := cb_udata cb\<rparr>))
     (filter (\<lambda>cb. level_number (ev_level ev) \<ge> level_number (cb_level cb)) (takeWhile (\<lambda>cb. cb_fn cb \<noteq> None) cs))"
  by (induction cs) (auto split: option.splits)

text \<open>The slots behind the registered ones are the initial ones.\<close>

definition slots_ok :: "logger \<Rightarrow> bool" where
  "slots_ok L \<longleftrightarrow> (\<exists>n z. dropWhile (\<lambda>cb. cb_fn cb \<noteq> None) (log_callbacks L) = replicate n z \<and> cb_fn z = None)"

lemma add_callback_registered:
  assumes ok: "logger_ok L" "slots_ok L" and add: "ak_log_add_callback L (Some fn) u l = (r, L')"
  shows "if length (registered L) < AK24_LOG_MAX_CALLBACKS
         then r = 0 \<and> registered L' = registered L @ [\<lparr>cb_fn = Some fn, cb_udata = u, cb_level = l\<rparr>]
         else r = -1 \<and> L' = L"
    and "logger_ok L' \<and> slots_ok L'"
proof -
  let ?cb = "\<lparr>cb_fn = Some fn, cb_udata = u, cb_level = l\<rparr>"
  obtain n z where z: "dropWhile (\<lambda>cb. cb_fn cb \<noteq> None) (log_callbacks L) = replicate n z" "cb_fn z = None"
    using ok(2) by (auto simp: slots_ok_def)
  have len: "length (registered L) + n = AK24_LOG_MAX_CALLBACKS"
    using ok(1) z(1) by (metis (no_types, lifting) length_append length_replicate logger_ok_def registered_def takeWhile_dropWhile_id)
  have both: "(if length (registered L) < AK24_LOG_MAX_CALLBACKS
      then r = 0 \<and> registered L' = registered L @ [?cb] else r = -1 \<and> L' = L) \<and> logger_ok L' \<and> slots_ok L'"
  proof (cases "fill_slot (log_callbacks L) ?cb")
    case None
    then have "\<forall>c \<in> set (log_callbacks L). cb_fn c \<noteq> None" by (simp add: fill_slot_full)
    then have "registered L = log_callbacks L" by (simp add: registered_def takeWhile_eq_all_conv)
    then show ?thesis using None add ok by (auto simp: ak_log_add_callback_def logger_ok_def)
  next
    case (Some cs)
    then have "r = 0" "L' = L\<lparr>log_callbacks := cs\<rparr>" using add by (auto simp: ak_log_add_callback_def)
    moreover have "length (registered L) < length (log_callbacks L)" "length cs = length (log_callbacks L)"
        "takeWhile (\<lambda>c. cb_fn c \<noteq> None) cs = registered L @ [?cb]"
        "dropWhile (\<lambda>c. cb_fn c \<noteq> None) cs = replicate (n - 1) z"
      using fill_slot_registered [OF Some, of n z] z by (simp_all add: registered_def)
    ultimately show ?thesis using ok z(2) by (auto simp: logger_ok_def registered_def slots_ok_def)
  qed
  then show "if length (registered L) < AK24_LOG_MAX_CALLBACKS
      then r = 0 \<and> registered L' = registered L @ [?cb] else r = -1 \<and> L' = L" "logger_ok L' \<and> slots_ok L'"
    by blast+
qed

lemma logger0_ok: "logger_ok logger0" "slots_ok logger0" "registered logger0 = []"
  by (auto simp: logger_ok_def logger0_def slots_ok_def registered_def)

lemma add_all_registered:
  "logger_ok L \<Longrightarrow> slots_ok L \<Longrightarrow> length (registered L) + length xs \<le> AK24_LOG_MAX_CALLBACKS \<Longrightarrow>
   registered (add_all L xs) = registered L @ map (\<lambda>(fn, u, l). \<lparr>cb_fn = Some fn, cb_udata = u, cb_level = l\<rparr>) xs"
proof (induction xs arbitrary: L)
  case (Cons x xs)
  obtain fn u l where x: "x = (fn, u, l)" by (cases x)
  obtain r L' where add: "ak_log_add_callback L (Some fn) u l = (r, L')" by fastforce
  have L': "registered L' = registered L @ [\<lparr>cb_fn = Some fn, cb_udata = u, cb_level = l\<rparr>]" "logger_ok L'" "slots_ok L'"
    using add_callback_registered [OF Cons.prems(1,2) add] Cons.prems(3) by (auto split: if_splits)
  have "add_all L (x # xs) = add_all L' xs" by (simp add: add_all_def x add)
  then show ?case using Cons.IH [OF L'(2,3)] Cons.prems(3) L'(1) by (simp add: x)
qed (simp add: add_all_def)

lemma registered_cong: "log_callbacks L = log_callbacks M \<Longrightarrow> registered L = registered M"
  by (simp add: registered_def)

lemma add_all_ok: "logger_ok L \<Longrightarrow> slots_ok L \<Longrightarrow> logger_ok (add_all L xs) \<and> slots_ok (add_all L xs)"
proof (induction xs arbitrary: L)
  case (Cons x xs)
  obtain fn u l where x: "x = (fn, u, l)" by (cases x)
  obtain r L' where add: "ak_log_add_callback L (Some fn) u l = (r, L')" by fastforce
  have "logger_ok L' \<and> slots_ok L'" by (rule add_callback_registered(2) [OF Cons.prems add])
  moreover have "add_all L (x # xs) = add_all L' xs" by (simp add: add_all_def x add)
  ultimately show ?case using Cons.IH by simp
qed (simp add: add_all_def)

section \<open>Properties of the logger\<close>

text \<open>
  C22: Delivery of log messages. After any sequence of at most 32 registrations and with any
  level, quiet mode, colours, path format and lock, a message is delivered between one call of
  the lock function to lock and one to unlock: first to the console, if the logger is not quiet
  and the message reaches its level, then once to every registered output whose own level it
  reaches, in the order of registration and with the user data registered; the level and the
  quiet mode of the logger do not touch the registered outputs. With 32 outputs registered a
  further registration fails and changes nothing.\<close>

theorem log_delivery_spec:
  assumes "length xs \<le> AK24_LOG_MAX_CALLBACKS" and "log_callbacks L = log_callbacks (add_all logger0 xs)"
  shows "ak_log_log L level file line msg t
      = lock_calls L True
        @ (if \<not> log_quiet L \<and> level_number (log_level L) \<le> level_number level
           then [Written 2 (stdout_callback L \<lparr>ev_msg = msg, ev_file = file, ev_time = t, ev_udata = 2,
                                             ev_line = line, ev_level = level\<rparr>)] else [])
        @ map (\<lambda>(fn, u, l). call_callback L fn \<lparr>ev_msg = msg, ev_file = file, ev_time = t, ev_udata = u,
                                             ev_line = line, ev_level = level\<rparr>)
            (filter (\<lambda>(fn, u, l). level_number l \<le> level_number level) xs)
        @ lock_calls L False
    \<and> (length xs = AK24_LOG_MAX_CALLBACKS \<longrightarrow> ak_log_add_callback L (Some fn) u l = (-1, L))"
proof -
  let ?cb = "\<lambda>(fn, u, l). \<lparr>cb_fn = Some fn, cb_udata = u, cb_level = l\<rparr>"
  have reg: "registered L = map ?cb xs"
    using add_all_registered [OF logger0_ok(1,2), of xs] assms logger0_ok(3) registered_cong [OF assms(2)] by simp
  have "logger_ok L" "slots_ok L"
    using add_all_ok [OF logger0_ok(1,2), of xs] assms(2) by (simp_all add: logger_ok_def slots_ok_def)
  then have "ak_log_add_callback L (Some fn) u l = (-1, L)" if "length xs = AK24_LOG_MAX_CALLBACKS"
    using add_callback_registered(1) [of L fn u l] reg that by (metis length_map less_irrefl surj_pair)
  moreover have "run_callbacks L ev (log_callbacks L)
      = map (\<lambda>(fn, u, l). call_callback L fn (ev\<lparr>ev_udata := u\<rparr>)) (filter (\<lambda>(fn, u, l). level_number l \<le> level_number (ev_level ev)) xs)" for ev
    using reg unfolding run_callbacks_registered registered_def [symmetric]
    by (simp add: filter_map comp_def case_prod_unfold)
  ultimately show ?thesis by (auto simp: ak_log_log_def Let_def)
qed

theorem log_delivery_spec_witness:
  "ak_log_log (ak_log_set_quiet (snd (ak_log_add_fp logger0 11 LEVEL_INFO)) True) LEVEL_ERROR (lit ''a.c'') 12 (lit ''hi'')
     \<lparr>tm_year = 2025, tm_mon = 1, tm_mday = 2, tm_hour = 3, tm_min = 4, tm_sec = 5\<rparr>
   = [Written 11 (lit ''2025-01-02 03:04:05 ERROR a.c:12: hi'' @ [0x0A])]"
proof -
  let ?L = "ak_log_set_quiet (snd (ak_log_add_fp logger0 11 LEVEL_INFO)) True"
  let ?t = "\<lparr>tm_year = 2025, tm_mon = 1, tm_mday = 2, tm_hour = 3, tm_min = 4, tm_sec = 5\<rparr>"
  have "log_callbacks ?L = log_callbacks (add_all logger0 [(File_callback, 11, LEVEL_INFO)])"
    by (simp add: ak_log_set_quiet_def ak_log_add_fp_def add_all_def)
  then have "ak_log_log ?L LEVEL_ERROR (lit ''a.c'') 12 (lit ''hi'') ?t
    = [Written 11 (file_callback ?L \<lparr>ev_msg = lit ''hi'', ev_file = lit ''a.c'', ev_time = ?t, ev_udata = 11,
                                     ev_line = 12, ev_level = LEVEL_ERROR\<rparr>)]"
    using log_delivery_spec [of "[(File_callback, 11, LEVEL_INFO)]" ?L LEVEL_ERROR "lit ''a.c''" 12 "lit ''hi''" ?t]
    by (simp add: AK24_LOG_MAX_CALLBACKS_def lock_calls_def call_callback_def ak_log_set_quiet_def ak_log_add_fp_def
        ak_log_add_callback_def logger0_def split: option.splits)
  also have "file_callback ?L \<lparr>ev_msg = lit ''hi'', ev_file = lit ''a.c'', ev_time = ?t, ev_udata = 11,
      ev_line = 12, ev_level = LEVEL_ERROR\<rparr> = lit ''2025-01-02 03:04:05 ERROR a.c:12: hi'' @ [0x0A]"
    by (simp add: file_callback_def date_def clock_def two_digits_def pad5_def format_file_path_def lit_def decimal.simps
        ak_log_set_quiet_def ak_log_add_fp_def ak_log_add_callback_def logger0_def split: option.splits)
  finally show ?thesis .
qed

end
