(* ===== verification/TcpSocket.thy ===== *)
theory TcpSocket
  imports Prelude
begin

text \<open>
  Model of kernel/tcp/src/tcp_posix.c: the socket layer of the TCP component, as compiled
  for Linux. The operating system is a value of the record \<open>net\<close>: the answers it gives to
  the calls to come, one list for each kind of call, and the trace of what it was told. An
  answer to a call is the value it returns with the value of \<open>errno\<close>; \<open>send\<close> takes at most
  the bytes it is handed and \<open>recv\<close> delivers at most the bytes asked for. A call without
  an answer has not returned: the result of the model is then \<open>None\<close>. Theorems quantify
  over the answers, so they hold for every behaviour of the network. The texts of
  \<open>strerror\<close>, \<open>gai_strerror\<close> and \<open>inet_ntop\<close> are fields of the record as well.

  An out-parameter \<open>const char **error\<close> is an \<open>err_cell\<close>: NULL, or a cell that holds a
  message or NULL.
\<close>

section \<open>The operating system\<close>

datatype family = AF_INET | AF_INET6

datatype sys_call =
  Sys_socket | Sys_setsockopt | Sys_getsockopt | Sys_bind | Sys_listen | Sys_inet_pton
  | Sys_send | Sys_peek | Sys_fcntl | Sys_getaddrinfo | Sys_connect

datatype sock_opt =
  SO_REUSEADDR int | IPV6_V6ONLY int | TCP_NODELAY int | SO_RCVTIMEO nat nat | SO_SNDTIMEO nat nat
  | SO_KEEPALIVE int | TCP_KEEPIDLE int | TCP_KEEPINTVL int | TCP_KEEPCNT int
  | SO_LINGER int int | SO_RCVBUF int | SO_SNDBUF int

datatype net_event =
  Socket_made family int | Opt_set int sock_opt | Bound int family "16 word" | Listening int int
  | Sent int "u8 list" | Received int "u8 list" | Shut_rdwr int | Shut_wr int | Closed int
  | Flags_set int int | Accepted int | Connect_tried int | Addrinfo_freed

text \<open>The address of a peer: the bytes of an IPv4 or IPv6 address and the port in network order.\<close>

datatype sockaddr = Sockaddr4 "u8 list" "16 word" | Sockaddr6 "u8 list" "16 word"

record net =
  answers :: "sys_call \<Rightarrow> (int \<times> int) list"
  incoming :: "(int + u8 list) list"
  polls :: "(int \<times> 16 word \<times> int) list"
  accepts_to_come :: "(int + int \<times> sockaddr) list"
  timeouts :: "(nat \<times> nat) list"
  trace :: "net_event list"
  errno :: int
  strerror :: "int \<Rightarrow> u8 list"
  gai_strerror :: "int \<Rightarrow> u8 list"
  inet_ntop :: "family \<Rightarrow> u8 list \<Rightarrow> u8 list"

type_synonym err_cell = "u8 list option option"

definition set_error :: "err_cell \<Rightarrow> u8 list \<Rightarrow> err_cell" where
  "set_error error msg = map_option (\<lambda>_. Some msg) error"

definition logged :: "net_event \<Rightarrow> net \<Rightarrow> net" where
  "logged e n = n\<lparr>trace := trace n @ [e]\<rparr>"

text \<open>The next answer to a call: the value returned and \<open>errno\<close>.\<close>

definition sys :: "sys_call \<Rightarrow> net \<Rightarrow> ((int \<times> int) \<times> net) option" where
  "sys k n =
     (case answers n k of [] \<Rightarrow> None
      | (r, v) # rs \<Rightarrow>
          Some ((r, v), n\<lparr>answers := (answers n)(k := rs), errno := if r < 0 then v else errno n\<rparr>))"

definition sys_poll :: "net \<Rightarrow> ((int \<times> 16 word) \<times> net) option" where
  "sys_poll n =
     (case polls n of [] \<Rightarrow> None
      | (r, ev, e) # rs \<Rightarrow>
          Some ((r, ev), n\<lparr>polls := rs, errno := if r < 0 then e else errno n\<rparr>))"

definition sys_send :: "int \<Rightarrow> u8 list \<Rightarrow> net \<Rightarrow> (int \<times> net) option" where
  "sys_send fd data n = do {
     ((r, _), n) \<leftarrow> sys Sys_send n;
     if r < 0 then Some (-1, n)
     else let k = min (nat r) (length data) in
       Some (int k, logged (Sent fd (take k data)) n) }"

definition sys_recv :: "int \<Rightarrow> nat \<Rightarrow> net \<Rightarrow> (u8 list option \<times> net) option" where
  "sys_recv fd len n =
     (case incoming n of [] \<Rightarrow> None
      | Inl e # rs \<Rightarrow> Some (None, n\<lparr>incoming := rs, errno := e\<rparr>)
      | Inr bs # rs \<Rightarrow>
          Some (Some (take len bs), logged (Received fd (take len bs)) (n\<lparr>incoming := rs\<rparr>)))"

definition setsockopt :: "int \<Rightarrow> sock_opt \<Rightarrow> net \<Rightarrow> (int \<times> net) option" where
  "setsockopt fd opt n = do {
     ((r, _), n) \<leftarrow> sys Sys_setsockopt n;
     Some (r, if r < 0 then n else logged (Opt_set fd opt) n) }"

definition AK_INVALID_SOCKET :: int where "AK_INVALID_SOCKET = -1"

text \<open>The error numbers and the poll bits of Linux.\<close>

definition ETIMEDOUT :: int where "ETIMEDOUT = 110"
definition EAGAIN :: int where "EAGAIN = 11"
definition EWOULDBLOCK :: int where "EWOULDBLOCK = 11"
definition ECONNRESET :: int where "ECONNRESET = 104"
definition EPIPE :: int where "EPIPE = 32"
definition ENOTCONN :: int where "ENOTCONN = 107"
definition ECONNREFUSED :: int where "ECONNREFUSED = 111"
definition ECONNABORTED :: int where "ECONNABORTED = 103"
definition ENOMEM :: int where "ENOMEM = 12"
definition EINVAL :: int where "EINVAL = 22"
definition EBADF :: int where "EBADF = 9"
definition EINPROGRESS :: int where "EINPROGRESS = 115"

definition POLLIN :: "16 word" where "POLLIN = 0x001"
definition POLLERR :: "16 word" where "POLLERR = 0x008"
definition POLLHUP :: "16 word" where "POLLHUP = 0x010"
definition POLLNVAL :: "16 word" where "POLLNVAL = 0x020"

lemmas errno_defs = ETIMEDOUT_def EAGAIN_def EWOULDBLOCK_def ECONNRESET_def EPIPE_def
  ENOTCONN_def ECONNREFUSED_def ECONNABORTED_def ENOMEM_def EINVAL_def EBADF_def
  EINPROGRESS_def

section \<open>Errors\<close>

datatype ak_tcp_error =
  AK_TCP_OK | AK_TCP_ERR_TIMEOUT | AK_TCP_ERR_CLOSED | AK_TCP_ERR_RESET | AK_TCP_ERR_NETWORK
  | AK_TCP_ERR_MEMORY | AK_TCP_ERR_INVALID | AK_TCP_ERR_LIMIT | AK_TCP_ERR_WOULDBLOCK
  | AK_TCP_ERR_BUFFER_FULL | AK_TCP_ERR_QUEUE_FULL | AK_TCP_ERR_RATE_LIMIT
  | AK_TCP_ERR_TLS_INIT | AK_TCP_ERR_TLS_CERT | AK_TCP_ERR_TLS_HANDSHAKE

definition ak_tcp_map_error :: "int \<Rightarrow> ak_tcp_error" where
  "ak_tcp_map_error platform_errno =
     (if platform_errno = 0 then AK_TCP_OK
      else if platform_errno \<in> {ETIMEDOUT, EAGAIN} then AK_TCP_ERR_TIMEOUT
      else if platform_errno \<in> {ECONNRESET, EPIPE} then AK_TCP_ERR_RESET
      else if platform_errno \<in> {ENOTCONN, ECONNREFUSED, ECONNABORTED} then AK_TCP_ERR_CLOSED
      else if platform_errno = ENOMEM then AK_TCP_ERR_MEMORY
      else if platform_errno \<in> {EINVAL, EBADF} then AK_TCP_ERR_INVALID
      else AK_TCP_ERR_NETWORK)"

text \<open>The common ending of a call that fails with the text of \<open>errno\<close>.\<close>

definition fail_errno :: "err_cell \<Rightarrow> net \<Rightarrow> err_cell" where
  "fail_errno error n = set_error error (strerror n (errno n))"

section \<open>Creating, binding and accepting\<close>

definition ak_tcp_detect_addr_family :: "u8 list option \<Rightarrow> family" where
  "ak_tcp_detect_addr_family addr =
     (case addr of None \<Rightarrow> AF_INET
      | Some a \<Rightarrow>
          if a = lit ''0.0.0.0'' then AF_INET
          else if a = lit ''::'' \<or> a = lit ''::0'' then AF_INET6
          else if of_char (CHR '':'') \<in> set a then AF_INET6
          else AF_INET)"

definition ak_tcp_socket_close :: "int \<Rightarrow> net \<Rightarrow> net" where
  "ak_tcp_socket_close fd n =
     (if fd \<noteq> AK_INVALID_SOCKET then logged (Closed fd) (logged (Shut_rdwr fd) n) else n)"

definition ak_tcp_socket_create_for_addr ::
  "u8 list option \<Rightarrow> err_cell \<Rightarrow> net \<Rightarrow> (int \<times> err_cell \<times> net) option" where
  "ak_tcp_socket_create_for_addr addr error n =
     (let family = ak_tcp_detect_addr_family addr in do {
        ((fd, _), n) \<leftarrow> sys Sys_socket n;
        if fd < 0 then Some (AK_INVALID_SOCKET, fail_errno error n, n)
        else do {
          let n = logged (Socket_made family fd) n;
          (r, n) \<leftarrow> setsockopt fd (SO_REUSEADDR 1) n;
          if r < 0 then Some (AK_INVALID_SOCKET, fail_errno error n, logged (Closed fd) n)
          else if family = AF_INET6 then do {
            (r, n) \<leftarrow> setsockopt fd (IPV6_V6ONLY 0) n;
            if r < 0 then Some (AK_INVALID_SOCKET, fail_errno error n, logged (Closed fd) n)
            else Some (fd, error, n) }
          else Some (fd, error, n) } })"

definition ak_tcp_socket_create :: "err_cell \<Rightarrow> net \<Rightarrow> (int \<times> err_cell \<times> net) option" where
  "ak_tcp_socket_create error n = ak_tcp_socket_create_for_addr None error n"

text \<open>\<open>htons\<close> and \<open>ntohs\<close> on a little-endian machine swap the two bytes.\<close>

definition htons :: "16 word \<Rightarrow> 16 word" where
  "htons p = push_bit 8 p OR drop_bit 8 p"

definition ak_tcp_socket_bind ::
  "int \<Rightarrow> u8 list option \<Rightarrow> 16 word \<Rightarrow> err_cell \<Rightarrow> net \<Rightarrow> (int \<times> err_cell \<times> net) option" where
  "ak_tcp_socket_bind fd addr port error n =
     (let family = ak_tcp_detect_addr_family addr;
          any = (case addr of None \<Rightarrow> True
                 | Some a \<Rightarrow> if family = AF_INET6 then a = lit ''::'' \<or> a = lit ''::0''
                             else a = lit ''0.0.0.0'') in do {
        (valid, n) \<leftarrow> (if any then Some (True, n)
          else do { ((r, _), n) \<leftarrow> sys Sys_inet_pton n; Some (r > 0, n) });
        if \<not> valid
        then Some (-1, set_error error
               (if family = AF_INET6 then lit ''Invalid IPv6 address format''
                else lit ''Invalid IPv4 address format''), n)
        else do {
          ((r, _), n) \<leftarrow> sys Sys_bind n;
          if r < 0 then Some (-1, fail_errno error n, n)
          else Some (0, error, logged (Bound fd family (htons port)) n) } })"

definition ak_tcp_socket_listen ::
  "int \<Rightarrow> int \<Rightarrow> err_cell \<Rightarrow> net \<Rightarrow> (int \<times> err_cell \<times> net) option" where
  "ak_tcp_socket_listen fd backlog error n =
     (let backlog = (if backlog \<le> 0 then 128 else backlog) in do {
        ((r, _), n) \<leftarrow> sys Sys_listen n;
        if r < 0 then Some (-1, fail_errno error n, n)
        else Some (0, error, logged (Listening fd backlog) n) })"

text \<open>\<open>IN6_IS_ADDR_V4MAPPED\<close>: ten zero bytes, two bytes 255, then the IPv4 address.\<close>

definition v4mapped :: "u8 list \<Rightarrow> bool" where
  "v4mapped a \<longleftrightarrow> take 12 a = replicate 10 0 @ [0xFF, 0xFF]"

definition ak_tcp_socket_accept ::
  "int \<Rightarrow> err_cell \<Rightarrow> net \<Rightarrow> (int \<times> u8 list \<times> 16 word \<times> err_cell \<times> net) option" where
  "ak_tcp_socket_accept fd error n =
     (case accepts_to_come n of [] \<Rightarrow> None
      | Inl e # rs \<Rightarrow>
          Some (AK_INVALID_SOCKET, [], 0, fail_errno error (n\<lparr>errno := e\<rparr>),
            n\<lparr>accepts_to_come := rs, errno := e\<rparr>)
      | Inr (client_fd, peer) # rs \<Rightarrow>
          let n = logged (Accepted client_fd) (n\<lparr>accepts_to_come := rs\<rparr>) in
          (case peer of
             Sockaddr6 a p \<Rightarrow>
               Some (client_fd,
                 if v4mapped a then inet_ntop n AF_INET (take 4 (drop 12 a))
                 else inet_ntop n AF_INET6 a, htons p, error, n)
           | Sockaddr4 a p \<Rightarrow> Some (client_fd, inet_ntop n AF_INET a, htons p, error, n)))"

section \<open>Sending and receiving\<close>

definition ak_tcp_socket_send ::
  "int \<Rightarrow> u8 list \<Rightarrow> err_cell \<Rightarrow> net \<Rightarrow> (int \<times> err_cell \<times> net) option" where
  "ak_tcp_socket_send fd data error n = do {
     (sent, n) \<leftarrow> sys_send fd data n;
     if sent < 0 then Some (-1, fail_errno error n, n)
     else Some (sent, error, n) }"

text \<open>The bytes written to the caller's array come back with the count.\<close>

definition ak_tcp_socket_recv ::
  "int \<Rightarrow> nat \<Rightarrow> err_cell \<Rightarrow> net \<Rightarrow> (int \<times> u8 list \<times> err_cell \<times> net) option" where
  "ak_tcp_socket_recv fd len error n = do {
     (r, n) \<leftarrow> sys_recv fd len n;
     (case r of
        None \<Rightarrow> Some (-1, [], fail_errno error n, n)
      | Some bs \<Rightarrow> Some (int (length bs), bs, error, n)) }"

definition ak_tcp_socket_poll_read :: "int \<Rightarrow> net \<Rightarrow> (int \<times> net) option" where
  "ak_tcp_socket_poll_read fd n = do {
     ((ret, _), n) \<leftarrow> sys_poll n;
     if ret < 0 then Some (-1, n)
     else if ret = 0 then Some (0, n)
     else Some (1, n) }"

definition ak_tcp_socket_shutdown :: "int \<Rightarrow> net \<Rightarrow> net" where
  "ak_tcp_socket_shutdown fd n = (if fd \<noteq> AK_INVALID_SOCKET then logged (Shut_wr fd) n else n)"

definition ak_tcp_socket_peer_closed :: "int \<Rightarrow> net \<Rightarrow> (bool \<times> net) option" where
  "ak_tcp_socket_peer_closed fd n =
     (if fd = AK_INVALID_SOCKET then Some (True, n)
      else do {
        ((ret, revents), n) \<leftarrow> sys_poll n;
        if ret < 0 then Some (True, n)
        else if ret = 0 then Some (False, n)
        else if revents AND (POLLHUP OR POLLERR OR POLLNVAL) \<noteq> 0 then Some (True, n)
        else if revents AND POLLIN \<noteq> 0 then do {
          ((r, _), n) \<leftarrow> sys Sys_peek n;
          if r = 0 then Some (True, n)
          else if r < 0 \<and> errno n \<noteq> EAGAIN \<and> errno n \<noteq> EWOULDBLOCK then Some (True, n)
          else Some (False, n) }
        else Some (False, n) })"

section \<open>Options\<close>

definition O_NONBLOCK :: "32 word" where "O_NONBLOCK = 0x800"

definition ak_tcp_socket_set_nonblocking ::
  "int \<Rightarrow> bool \<Rightarrow> err_cell \<Rightarrow> net \<Rightarrow> (int \<times> err_cell \<times> net) option" where
  "ak_tcp_socket_set_nonblocking fd nonblocking error n = do {
     ((flags, _), n) \<leftarrow> sys Sys_fcntl n;
     if flags < 0 then Some (-1, fail_errno error n, n)
     else do {
       let flags = word_of_int flags;
       let flags = (if nonblocking then flags OR O_NONBLOCK else flags AND NOT O_NONBLOCK);
       ((r, _), n) \<leftarrow> sys Sys_fcntl n;
       if r < 0 then Some (-1, fail_errno error n, n)
       else Some (0, error, logged (Flags_set fd (sint flags)) n) } }"

definition set_opt ::
  "int \<Rightarrow> sock_opt \<Rightarrow> err_cell \<Rightarrow> net \<Rightarrow> (int \<times> err_cell \<times> net) option" where
  "set_opt fd opt error n = do {
     (r, n) \<leftarrow> setsockopt fd opt n;
     if r < 0 then Some (-1, fail_errno error n, n) else Some (0, error, n) }"

definition ak_tcp_socket_set_reuseaddr ::
  "int \<Rightarrow> bool \<Rightarrow> err_cell \<Rightarrow> net \<Rightarrow> (int \<times> err_cell \<times> net) option" where
  "ak_tcp_socket_set_reuseaddr fd enable error n =
     set_opt fd (SO_REUSEADDR (if enable then 1 else 0)) error n"

definition ak_tcp_socket_set_nodelay ::
  "int \<Rightarrow> bool \<Rightarrow> err_cell \<Rightarrow> net \<Rightarrow> (int \<times> err_cell \<times> net) option" where
  "ak_tcp_socket_set_nodelay fd enable error n =
     set_opt fd (TCP_NODELAY (if enable then 1 else 0)) error n"

text \<open>A \<open>struct timeval\<close> of milliseconds, and back with the wrap-around of \<open>uint32_t\<close>.\<close>

definition timeval :: "u32 \<Rightarrow> nat \<times> nat" where
  "timeval ms =
     (if ms > 0 then (unat (ms div 1000), unat ((ms mod 1000) * 1000)) else (0, 0))"

definition timeval_ms :: "nat \<times> nat \<Rightarrow> u32" where
  "timeval_ms tv = word_of_nat (fst tv * 1000 + snd tv div 1000)"

definition ak_tcp_socket_set_timeout ::
  "int \<Rightarrow> u32 \<Rightarrow> u32 \<Rightarrow> err_cell \<Rightarrow> net \<Rightarrow> (int \<times> err_cell \<times> net) option" where
  "ak_tcp_socket_set_timeout fd recv_timeout_ms send_timeout_ms error n = do {
     (rc, error, n) \<leftarrow> set_opt fd (case_prod SO_RCVTIMEO (timeval recv_timeout_ms)) error n;
     if rc < 0 then Some (-1, error, n)
     else do {
       (rc, error, n) \<leftarrow> set_opt fd (case_prod SO_SNDTIMEO (timeval send_timeout_ms)) error n;
       if rc < 0 then Some (-1, error, n) else Some (0, error, n) } }"

text \<open>The \<open>timeval\<close> that \<open>getsockopt\<close> stores is the next of \<open>timeouts\<close>.\<close>

definition get_tv :: "err_cell \<Rightarrow> net \<Rightarrow> (u32 option \<times> err_cell \<times> net) option" where
  "get_tv error n = do {
     ((r, _), n) \<leftarrow> sys Sys_getsockopt n;
     if r < 0 then Some (None, fail_errno error n, n)
     else (case timeouts n of [] \<Rightarrow> None
           | tv # rest \<Rightarrow> Some (Some (timeval_ms tv), error, n\<lparr>timeouts := rest\<rparr>)) }"

definition ak_tcp_socket_get_timeout ::
  "int \<Rightarrow> u32 option \<Rightarrow> u32 option \<Rightarrow> err_cell \<Rightarrow> net
   \<Rightarrow> (int \<times> u32 option \<times> u32 option \<times> err_cell \<times> net) option" where
  "ak_tcp_socket_get_timeout fd recv_timeout_ms send_timeout_ms error n = do {
     (ok, recv_timeout_ms, error, n) \<leftarrow>
       (case recv_timeout_ms of None \<Rightarrow> Some (True, None, error, n)
        | Some old \<Rightarrow> do {
            (v, error, n) \<leftarrow> get_tv error n;
            Some (case v of None \<Rightarrow> (False, Some old, error, n) | Some v \<Rightarrow> (True, Some v, error, n)) });
     if \<not> ok then Some (-1, recv_timeout_ms, send_timeout_ms, error, n)
     else (case send_timeout_ms of None \<Rightarrow> Some (0, recv_timeout_ms, None, error, n)
        | Some old \<Rightarrow> do {
            (v, error, n) \<leftarrow> get_tv error n;
            Some (case v of None \<Rightarrow> (-1, recv_timeout_ms, Some old, error, n)
                  | Some v \<Rightarrow> (0, recv_timeout_ms, Some v, error, n)) }) }"

definition ak_tcp_socket_set_keepalive ::
  "int \<Rightarrow> int \<Rightarrow> int \<Rightarrow> int \<Rightarrow> err_cell \<Rightarrow> net \<Rightarrow> (int \<times> err_cell \<times> net) option" where
  "ak_tcp_socket_set_keepalive fd idle_sec interval_sec probe_count error n = do {
     (rc, error, n) \<leftarrow> set_opt fd (SO_KEEPALIVE (if idle_sec > 0 then 1 else 0)) error n;
     if rc < 0 then Some (-1, error, n)
     else if idle_sec \<le> 0 then Some (0, error, n)
     else do {
       (rc, error, n) \<leftarrow> set_opt fd (TCP_KEEPIDLE idle_sec) error n;
       if rc < 0 then Some (-1, error, n)
       else do {
         (rc, error, n) \<leftarrow> set_opt fd (TCP_KEEPINTVL interval_sec) error n;
         if rc < 0 then Some (-1, error, n)
         else do {
           (rc, error, n) \<leftarrow> set_opt fd (TCP_KEEPCNT probe_count) error n;
           if rc < 0 then Some (-1, error, n) else Some (0, error, n) } } } }"

definition ak_tcp_socket_set_linger ::
  "int \<Rightarrow> bool \<Rightarrow> int \<Rightarrow> err_cell \<Rightarrow> net \<Rightarrow> (int \<times> err_cell \<times> net) option" where
  "ak_tcp_socket_set_linger fd enable timeout_sec error n =
     set_opt fd (SO_LINGER (if enable then 1 else 0) timeout_sec) error n"

text \<open>The conversion of a \<open>size_t\<close> to \<open>int\<close>.\<close>

definition size_to_int :: "nat \<Rightarrow> int" where
  "size_to_int k = sint (word_of_nat k :: 32 word)"

definition ak_tcp_socket_set_buffers ::
  "int \<Rightarrow> nat \<Rightarrow> nat \<Rightarrow> err_cell \<Rightarrow> net \<Rightarrow> (int \<times> err_cell \<times> net) option" where
  "ak_tcp_socket_set_buffers fd recv_size send_size error n = do {
     (rc, error, n) \<leftarrow> (if recv_size > 0 then set_opt fd (SO_RCVBUF (size_to_int recv_size)) error n
                      else Some (0, error, n));
     if rc < 0 then Some (-1, error, n)
     else if send_size > 0 then set_opt fd (SO_SNDBUF (size_to_int send_size)) error n
     else Some (0, error, n) }"

section \<open>Connecting\<close>

text \<open>
  The loop over the addresses of \<open>getaddrinfo\<close>, one for each remaining address: the result
  is \<open>Inl\<close> with the error cell for a return from inside the loop, and \<open>Inr\<close> with
  \<open>connect_result\<close> after it. The answer of \<open>getsockopt\<close> carries \<open>so_error\<close>.
\<close>

fun connect_loop ::
  "int \<Rightarrow> u32 \<Rightarrow> nat \<Rightarrow> int \<Rightarrow> err_cell \<Rightarrow> net \<Rightarrow> ((err_cell + int) \<times> net) option" where
  "connect_loop fd timeout_ms 0 connect_result error n = Some (Inr connect_result, n)"
| "connect_loop fd timeout_ms (Suc left) connect_result error n = do {
     ((connect_result, _), n) \<leftarrow> sys Sys_connect n;
     let n = logged (Connect_tried fd) n;
     if connect_result = 0 then Some (Inr 0, n)
     else if errno n = EINPROGRESS \<and> timeout_ms > 0 then do {
       ((poll_result, _), n) \<leftarrow> sys_poll n;
       if poll_result < 0 then Some (Inl (fail_errno error n), n)
       else if poll_result = 0
       then Some (Inl (set_error error (lit ''Connection timed out'')), n)
       else do {
         ((r, so_error), n) \<leftarrow> sys Sys_getsockopt n;
         if r < 0 then Some (Inl (fail_errno error n), n)
         else if so_error = 0 then Some (Inr 0, n)
         else connect_loop fd timeout_ms left connect_result error (n\<lparr>errno := so_error\<rparr>) } }
     else connect_loop fd timeout_ms left connect_result error n }"

text \<open>
  \<open>getaddrinfo\<close> answers zero with the number of addresses, or its error. A descriptor that
  was set to non-blocking is set back, which may fail silently and change \<open>errno\<close>.
\<close>

definition restore_blocking :: "int \<Rightarrow> bool \<Rightarrow> net \<Rightarrow> net option" where
  "restore_blocking fd was_blocking n =
     (if was_blocking then Some n
      else do { (_, _, n) \<leftarrow> ak_tcp_socket_set_nonblocking fd False None n; Some n })"

definition ak_tcp_socket_connect ::
  "int \<Rightarrow> u8 list option \<Rightarrow> 16 word \<Rightarrow> u32 \<Rightarrow> err_cell \<Rightarrow> net
   \<Rightarrow> (int \<times> err_cell \<times> net) option" where
  "ak_tcp_socket_connect fd host port timeout_ms error n =
     (case host of
        None \<Rightarrow> Some (-1, set_error error (lit ''Host is required''), n)
      | Some _ \<Rightarrow> do {
          ((gai_result, count), n) \<leftarrow> sys Sys_getaddrinfo n;
          if gai_result \<noteq> 0 then Some (-1, set_error error (gai_strerror n gai_result), n)
          else do {
            (rc, error, n) \<leftarrow> (if timeout_ms > 0 then ak_tcp_socket_set_nonblocking fd True error n
                             else Some (0, error, n));
            if rc \<noteq> 0 then Some (-1, error, logged Addrinfo_freed n)
            else do {
              let was_blocking = (timeout_ms = 0);
              (res, n) \<leftarrow> connect_loop fd timeout_ms (nat count) (-1) error n;
              n \<leftarrow> restore_blocking fd was_blocking (logged Addrinfo_freed n);
              (case res of
                 Inl error \<Rightarrow> Some (-1, error, n)
               | Inr connect_result \<Rightarrow>
                   if connect_result \<noteq> 0 then Some (-1, fail_errno error n, n)
                   else Some (0, error, n)) } } })"

end
