(* ===== verification/TcpConn.thy ===== *)
theory TcpConn
  imports TcpSocket Buffer Context
begin

text \<open>
  Model of the connections of kernel/tcp/src/tcp.c (lines 1 to 743), built without TLS: the
  context of a connection, sending, receiving with back-pressure, receiving up to a
  delimiter, and the operations that end a connection. Each operation is the whole handler
  for one caller of the connection; the mutex of the context protects single fields only.

  The lemmas show that a send hands the network the bytes of its buffer in order and
  reports exactly whether it handed all of them, that a receive appends exactly what the
  network delivered and keeps the amount within the caller's and the server's limits, and
  that receiving up to a delimiter returns the received bytes up to the first occurrence.
\<close>

section \<open>Definitions\<close>

definition TCP_READ_BUFFER_SIZE :: nat where "TCP_READ_BUFFER_SIZE = 4096"
definition TCP_WRITE_BUFFER_SIZE :: nat where "TCP_WRITE_BUFFER_SIZE = 4096"
definition TCP_RECV_CHUNK_SIZE :: nat where "TCP_RECV_CHUNK_SIZE = 1024"

fun ak_tcp_error_string :: "ak_tcp_error \<Rightarrow> u8 list" where
  "ak_tcp_error_string AK_TCP_OK = lit ''Success''"
| "ak_tcp_error_string AK_TCP_ERR_TIMEOUT = lit ''Operation timed out''"
| "ak_tcp_error_string AK_TCP_ERR_CLOSED = lit ''Connection closed''"
| "ak_tcp_error_string AK_TCP_ERR_RESET = lit ''Connection reset by peer''"
| "ak_tcp_error_string AK_TCP_ERR_NETWORK = lit ''Network error''"
| "ak_tcp_error_string AK_TCP_ERR_MEMORY = lit ''Memory allocation failed''"
| "ak_tcp_error_string AK_TCP_ERR_INVALID = lit ''Invalid argument''"
| "ak_tcp_error_string AK_TCP_ERR_LIMIT = lit ''Limit exceeded''"
| "ak_tcp_error_string AK_TCP_ERR_WOULDBLOCK = lit ''Operation would block''"
| "ak_tcp_error_string AK_TCP_ERR_BUFFER_FULL = lit ''Receive buffer full''"
| "ak_tcp_error_string AK_TCP_ERR_QUEUE_FULL = lit ''Task queue full''"
| "ak_tcp_error_string AK_TCP_ERR_RATE_LIMIT = lit ''Rate limit exceeded''"
| "ak_tcp_error_string AK_TCP_ERR_TLS_INIT = lit ''TLS initialization failed''"
| "ak_tcp_error_string AK_TCP_ERR_TLS_CERT = lit ''TLS certificate error''"
| "ak_tcp_error_string AK_TCP_ERR_TLS_HANDSHAKE = lit ''TLS handshake failed''"

definition ak_tcp_tls_available :: bool where "ak_tcp_tls_available = False"

record ak_tcp_ctx =
  socket_fd :: int
  remote_ip :: "u8 list"
  remote_port :: "16 word"
  read_buffer :: ak_buffer
  write_buffer :: ak_buffer
  alive :: bool
  metadata :: nat
  recv_timeout_ms :: u32
  send_timeout_ms :: u32
  buffered_bytes :: nat
  max_recv_buffer_bytes :: nat
  detached :: bool

text \<open>
  \<open>ak_tcp_ctx_new\<close> allocates the context, two buffers and the metadata context; a failure
  gives everything back. Copying the address keeps at most 45 bytes.
\<close>

definition ak_tcp_ctx_new ::
  "int \<Rightarrow> u8 list option \<Rightarrow> 16 word \<Rightarrow> nat \<Rightarrow> nat \<Rightarrow> ctx_store \<Rightarrow> byte_sched \<Rightarrow> ptr_sched
   \<Rightarrow> ak_tcp_ctx option \<times> ctx_store \<times> byte_sched \<times> ptr_sched" where
  "ak_tcp_ctx_new fd ip port recv_buf_size send_buf_size cs s ps =
     (case sys_alloc s of
        (None, s) \<Rightarrow> (None, cs, s, ps)
      | (Some _, s) \<Rightarrow>
          let recv_size = (if recv_buf_size > 0 then recv_buf_size else TCP_READ_BUFFER_SIZE);
              send_size = (if send_buf_size > 0 then send_buf_size else TCP_WRITE_BUFFER_SIZE) in
          (case ak_buffer_new recv_size s of
             (None, s) \<Rightarrow> (None, cs, s, ps)
           | (Some rb, s) \<Rightarrow>
               (case ak_buffer_new send_size s of
                  (None, s) \<Rightarrow> (None, cs, s, ps)
                | (Some wb, s) \<Rightarrow>
                    (case ak_context_new cs ps of
                       (None, cs, ps) \<Rightarrow> (None, cs, s, ps)
                     | (Some m, cs, ps) \<Rightarrow>
                         (Some \<lparr>socket_fd = fd,
                                remote_ip = (case ip of None \<Rightarrow> [] | Some a \<Rightarrow> take 45 a),
                                remote_port = port, read_buffer = rb, write_buffer = wb,
                                alive = True, metadata = m, recv_timeout_ms = 0,
                                send_timeout_ms = 0, buffered_bytes = 0,
                                max_recv_buffer_bytes = 0, detached = False\<rparr>, cs, s, ps)))))"

definition ak_tcp_ctx_free :: "ak_tcp_ctx option \<Rightarrow> ctx_store \<Rightarrow> net \<Rightarrow> (ctx_store \<times> net) option" where
  "ak_tcp_ctx_free ctx cs n =
     (case ctx of None \<Rightarrow> Some (cs, n)
      | Some c \<Rightarrow>
          let n = (if socket_fd c \<noteq> AK_INVALID_SOCKET then ak_tcp_socket_close (socket_fd c) n
                   else n) in do {
            cs \<leftarrow> ak_context_free cs (Some (metadata c));
            Some (cs, n) })"

definition ak_tcp_ctx_detach :: "ak_tcp_ctx option \<Rightarrow> ak_tcp_ctx option" where
  "ak_tcp_ctx_detach ctx = map_option (\<lambda>c. c\<lparr>detached := True\<rparr>) ctx"

definition ak_tcp_ctx_is_detached :: "ak_tcp_ctx option \<Rightarrow> bool" where
  "ak_tcp_ctx_is_detached ctx = (case ctx of None \<Rightarrow> False | Some c \<Rightarrow> detached c)"

definition ak_tcp_ctx_fd :: "ak_tcp_ctx option \<Rightarrow> int" where
  "ak_tcp_ctx_fd ctx = (case ctx of None \<Rightarrow> AK_INVALID_SOCKET | Some c \<Rightarrow> socket_fd c)"

text \<open>The conversion of a \<open>size_t\<close> to \<open>ssize_t\<close>.\<close>

definition to_ssize :: "nat \<Rightarrow> int" where
  "to_ssize k = (if k < 2 ^ 63 then int k else int k - 2 ^ 64)"

text \<open>
  The loop of \<open>ak_tcp_send\<close>. It needs no fuel: a call that sends nothing ends it, and each
  other call uses up an answer of the network.
\<close>

partial_function (option) send_loop ::
  "ak_tcp_ctx \<Rightarrow> int \<Rightarrow> u8 list \<Rightarrow> nat \<Rightarrow> nat \<Rightarrow> err_cell \<Rightarrow> net
   \<Rightarrow> (int \<times> ak_tcp_ctx \<times> err_cell \<times> net) option" where
  "send_loop c fd ptr total_sent to_send error n =
     (if total_sent < to_send then
        if length ptr < to_send then None
        else do {
        (sent, error, n) \<leftarrow>
          ak_tcp_socket_send fd (take (to_send - total_sent) (drop total_sent ptr)) error n;
        if sent < 0 then Some (-1, c, error, n)
        else if sent = 0 then
          Some (-1, c\<lparr>alive := False\<rparr>, set_error error (lit ''Connection closed by peer''), n)
        else send_loop c fd ptr (total_sent + nat sent) to_send error n }
      else Some (to_ssize total_sent, c, error, n))"

definition ak_tcp_send ::
  "ak_tcp_ctx option \<Rightarrow> ak_buffer option \<Rightarrow> err_cell \<Rightarrow> net
   \<Rightarrow> (int \<times> ak_tcp_ctx option \<times> err_cell \<times> net) option" where
  "ak_tcp_send ctx data error n =
     (case (ctx, data) of
        (Some c, Some b) \<Rightarrow>
          if \<not> alive c
          then Some (-1, ctx, set_error error (lit ''Connection closed''), n)
          else do {
            (rc, c, error, n) \<leftarrow> send_loop c (socket_fd c) (buf_data b) 0 (buf_count b) error n;
            Some (rc, Some c, error, n) }
      | _ \<Rightarrow> Some (-1, ctx, set_error error (lit ''Invalid arguments''), n))"

definition full_msg :: "u8 list" where
  "full_msg = lit ''Receive buffer full (backpressure limit)''"

definition ak_tcp_recv ::
  "ak_tcp_ctx option \<Rightarrow> ak_buffer option \<Rightarrow> nat \<Rightarrow> err_cell \<Rightarrow> net \<Rightarrow> byte_sched
   \<Rightarrow> (int \<times> ak_tcp_ctx option \<times> ak_buffer option \<times> err_cell \<times> net \<times> byte_sched) option" where
  "ak_tcp_recv ctx buffer max_bytes error n s =
     (case (ctx, buffer) of
        (Some c, Some b) \<Rightarrow>
          if \<not> alive c
          then Some (-1, ctx, buffer, set_error error (lit ''Connection closed''), n, s)
          else
            let limit = max_recv_buffer_bytes c;
                buffered = buffered_bytes c;
                to_recv = (if max_bytes < TCP_RECV_CHUNK_SIZE then max_bytes
                           else TCP_RECV_CHUNK_SIZE) in
            if limit > 0 \<and> buffered \<ge> limit
            then Some (-2, ctx, buffer, set_error error full_msg, n, s)
            else
              let to_recv = (if limit > 0 \<and> to_recv > limit - buffered then limit - buffered
                             else to_recv) in do {
                (received, temp, error, n) \<leftarrow> ak_tcp_socket_recv (socket_fd c) to_recv error n;
                if received < 0 then Some (-1, ctx, buffer, error, n, s)
                else if received = 0
                then Some (0, Some (c\<lparr>alive := False\<rparr>), buffer, error, n, s)
                else do {
                  (rc, buffer, s) \<leftarrow> ak_buffer_copy_to buffer (Some temp) (nat received) s;
                  if rc \<noteq> 0
                  then Some (-1, ctx, buffer, set_error error (lit ''Buffer allocation failed''),
                             n, s)
                  else Some (received,
                         Some (c\<lparr>buffered_bytes := sz_add (buffered_bytes c) (nat received)\<rparr>),
                         buffer, error, n, s) } }
      | _ \<Rightarrow> Some (-1, ctx, buffer, set_error error (lit ''Invalid arguments''), n, s))"

definition ak_tcp_is_alive :: "ak_tcp_ctx option \<Rightarrow> net \<Rightarrow> (bool \<times> ak_tcp_ctx option \<times> net) option" where
  "ak_tcp_is_alive ctx n =
     (case ctx of None \<Rightarrow> Some (False, None, n)
      | Some c \<Rightarrow>
          if \<not> alive c \<or> socket_fd c = AK_INVALID_SOCKET then Some (False, ctx, n)
          else do {
            (closed, n) \<leftarrow> ak_tcp_socket_peer_closed (socket_fd c) n;
            if closed then Some (False, Some (c\<lparr>alive := False\<rparr>), n)
            else Some (True, ctx, n) })"

text \<open>
  The search for the delimiter: the first position from \<open>i\<close> on, up to \<open>count - delim_len\<close>,
  where \<open>memcmp\<close> finds it; the outer \<open>option\<close> is an access outside the array.
\<close>

definition mem_is :: "u8 list \<Rightarrow> nat \<Rightarrow> u8 list \<Rightarrow> bool option" where
  "mem_is a i d =
     (if i + length d \<le> length a then Some (take (length d) (drop i a) = d) else None)"

function find_delim :: "u8 list \<Rightarrow> nat \<Rightarrow> u8 list \<Rightarrow> nat \<Rightarrow> nat option option" where
  "find_delim a cnt d i =
     (if i \<le> cnt - length d then
        (case mem_is a i d of None \<Rightarrow> None
         | Some True \<Rightarrow> Some (Some i)
         | Some False \<Rightarrow> find_delim a cnt d (Suc i))
      else Some None)"
  by pat_completeness auto

termination find_delim
  by (relation "measure (\<lambda>(a, cnt, d, i). Suc cnt - i)") auto

text \<open>
  The loop of \<open>ak_tcp_recv_until\<close>; the result is NULL or the buffer. What follows the loop
  is \<open>until_end\<close>.
\<close>

definition until_end :: "ak_buffer \<Rightarrow> ak_buffer option" where
  "until_end b = (if ak_buffer_count (Some b) = 0 then None else Some b)"

definition chunk_size :: "nat \<Rightarrow> nat \<Rightarrow> nat \<Rightarrow> nat \<Rightarrow> nat" where
  "chunk_size max_bytes cnt limit buffered =
     (let to_read = TCP_RECV_CHUNK_SIZE;
          to_read = (if max_bytes > 0 \<and> sz_add cnt to_read > max_bytes
                     then (if max_bytes - cnt = 0 then 1 else max_bytes - cnt)
                     else to_read) in
      if limit > 0 \<and> to_read > limit - buffered then limit - buffered else to_read)"

type_synonym until_result =
  "(ak_buffer option \<times> ak_tcp_ctx option \<times> err_cell \<times> net \<times> byte_sched) option"

partial_function (option) until_loop ::
  "ak_tcp_ctx option \<Rightarrow> u8 list \<Rightarrow> nat \<Rightarrow> ak_buffer \<Rightarrow> err_cell \<Rightarrow> net \<Rightarrow> byte_sched
   \<Rightarrow> (ak_buffer option \<times> ak_tcp_ctx option \<times> err_cell \<times> net \<times> byte_sched) option" where
  "until_loop ctx delim max_bytes b error n s = do {
     (go, ctx, n) \<leftarrow> ak_tcp_is_alive ctx n;
     if \<not> go then Some (until_end b, ctx, error, n, s)
     else do {
       let cnt = buf_count b;
       found \<leftarrow> (if cnt \<ge> length delim then find_delim (buf_data b) cnt delim 0 else Some None);
       (case found of
          Some i \<Rightarrow> Some (Some (b\<lparr>buf_count := i + length delim\<rparr>), ctx, error, n, s)
        | None \<Rightarrow>
            if max_bytes > 0 \<and> cnt \<ge> max_bytes
            then Some (None, ctx,
                   set_error error (lit ''Maximum receive size exceeded before delimiter found''),
                   n, s)
            else (case ctx of None \<Rightarrow> None
              | Some c \<Rightarrow>
                  if \<not> alive c then Some (until_end b, ctx, error, n, s)
                  else if max_recv_buffer_bytes c > 0
                          \<and> buffered_bytes c \<ge> max_recv_buffer_bytes c
                  then Some (None, ctx, set_error error full_msg, n, s)
                  else do {
                    (received, temp, error, n) \<leftarrow>
                      ak_tcp_socket_recv (socket_fd c)
                        (chunk_size max_bytes cnt (max_recv_buffer_bytes c) (buffered_bytes c))
                        error n;
                    if received < 0 then Some (None, ctx, error, n, s)
                    else if received = 0
                    then Some (until_end b, Some (c\<lparr>alive := False\<rparr>), error, n, s)
                    else do {
                      (rc, b, s) \<leftarrow> ak_buffer_copy_to (Some b) (Some temp) (nat received) s;
                      if rc \<noteq> 0
                      then Some (None, ctx,
                             set_error error (lit ''Buffer allocation failed''), n, s)
                      else do {
                        b \<leftarrow> b;
                        until_loop
                          (Some (c\<lparr>buffered_bytes := sz_add (buffered_bytes c) (nat received)\<rparr>))
                          delim max_bytes b error n s } } })) } }"

definition ak_tcp_recv_until ::
  "ak_tcp_ctx option \<Rightarrow> u8 list option \<Rightarrow> nat \<Rightarrow> err_cell \<Rightarrow> net \<Rightarrow> byte_sched \<Rightarrow> until_result" where
  "ak_tcp_recv_until ctx delim max_bytes error n s =
     (case (ctx, delim) of
        (Some c, Some d) \<Rightarrow>
          if length d = 0
          then Some (None, ctx, set_error error (lit ''Empty delimiter''), n, s)
          else (case ak_buffer_new 256 s of
                  (None, s) \<Rightarrow>
                    Some (None, ctx, set_error error (lit ''Buffer allocation failed''), n, s)
                | (Some b, s) \<Rightarrow> until_loop ctx d max_bytes b error n s)
      | _ \<Rightarrow> Some (None, ctx, set_error error (lit ''Invalid arguments''), n, s))"

definition ak_tcp_is_tls :: "ak_tcp_ctx option \<Rightarrow> bool" where "ak_tcp_is_tls ctx = False"

definition ak_tcp_close :: "ak_tcp_ctx option \<Rightarrow> net \<Rightarrow> ak_tcp_ctx option \<times> net" where
  "ak_tcp_close ctx n =
     (case ctx of None \<Rightarrow> (None, n)
      | Some c \<Rightarrow>
          if alive c then
            (if socket_fd c \<noteq> AK_INVALID_SOCKET
             then (Some (c\<lparr>alive := False, socket_fd := AK_INVALID_SOCKET\<rparr>),
                   ak_tcp_socket_close (socket_fd c) n)
             else (Some (c\<lparr>alive := False\<rparr>), n))
          else (ctx, n))"

definition ak_tcp_kill :: "ak_tcp_ctx option \<Rightarrow> net \<Rightarrow> ak_tcp_ctx option \<times> net" where
  "ak_tcp_kill ctx n = ak_tcp_close ctx n"

definition ak_tcp_abort :: "ak_tcp_ctx option \<Rightarrow> net \<Rightarrow> ak_tcp_ctx option \<times> net" where
  "ak_tcp_abort ctx n = ak_tcp_close ctx n"

definition ak_tcp_shutdown :: "ak_tcp_ctx option \<Rightarrow> net \<Rightarrow> ak_tcp_ctx option \<times> net" where
  "ak_tcp_shutdown ctx n =
     (case ctx of None \<Rightarrow> (None, n)
      | Some c \<Rightarrow>
          if alive c \<and> socket_fd c \<noteq> AK_INVALID_SOCKET
          then (Some (c\<lparr>alive := False\<rparr>), ak_tcp_socket_shutdown (socket_fd c) n)
          else (ctx, n))"

definition ak_tcp_set_timeout ::
  "ak_tcp_ctx option \<Rightarrow> u32 \<Rightarrow> u32 \<Rightarrow> net \<Rightarrow> (ak_tcp_error \<times> ak_tcp_ctx option \<times> net) option" where
  "ak_tcp_set_timeout ctx recv_ms send_ms n =
     (case ctx of None \<Rightarrow> Some (AK_TCP_ERR_INVALID, None, n)
      | Some c \<Rightarrow>
          if \<not> alive c \<or> socket_fd c = AK_INVALID_SOCKET then Some (AK_TCP_ERR_CLOSED, ctx, n)
          else do {
            (rc, _, n) \<leftarrow> ak_tcp_socket_set_timeout (socket_fd c) recv_ms send_ms (Some None) n;
            if rc \<noteq> 0 then Some (AK_TCP_ERR_NETWORK, ctx, n)
            else Some (AK_TCP_OK,
                   Some (c\<lparr>recv_timeout_ms := recv_ms, send_timeout_ms := send_ms\<rparr>), n) })"

definition ak_tcp_get_timeout ::
  "ak_tcp_ctx option \<Rightarrow> u32 option \<Rightarrow> u32 option \<Rightarrow> ak_tcp_error \<times> u32 option \<times> u32 option" where
  "ak_tcp_get_timeout ctx recv_ms send_ms =
     (case ctx of None \<Rightarrow> (AK_TCP_ERR_INVALID, recv_ms, send_ms)
      | Some c \<Rightarrow> (AK_TCP_OK, map_option (\<lambda>_. recv_timeout_ms c) recv_ms,
                   map_option (\<lambda>_. send_timeout_ms c) send_ms))"

definition ak_tcp_set_keepalive ::
  "ak_tcp_ctx option \<Rightarrow> int \<Rightarrow> int \<Rightarrow> int \<Rightarrow> net \<Rightarrow> (ak_tcp_error \<times> net) option" where
  "ak_tcp_set_keepalive ctx idle_sec interval_sec probe_count n =
     (case ctx of None \<Rightarrow> Some (AK_TCP_ERR_INVALID, n)
      | Some c \<Rightarrow>
          if \<not> alive c \<or> socket_fd c = AK_INVALID_SOCKET then Some (AK_TCP_ERR_CLOSED, n)
          else do {
            (rc, _, n) \<leftarrow> ak_tcp_socket_set_keepalive (socket_fd c) idle_sec interval_sec
                           probe_count (Some None) n;
            Some (if rc \<noteq> 0 then AK_TCP_ERR_NETWORK else AK_TCP_OK, n) })"

definition ak_tcp_consume_bytes :: "ak_tcp_ctx option \<Rightarrow> nat \<Rightarrow> ak_tcp_ctx option" where
  "ak_tcp_consume_bytes ctx bytes =
     map_option (\<lambda>c. c\<lparr>buffered_bytes :=
       if bytes > buffered_bytes c then 0 else buffered_bytes c - bytes\<rparr>) ctx"

definition ak_tcp_set_meta ::
  "ak_tcp_ctx option \<Rightarrow> u8 list option \<Rightarrow> nat \<Rightarrow> ctx_store \<Rightarrow> ptr_sched
   \<Rightarrow> (ctx_store \<times> ptr_sched) option" where
  "ak_tcp_set_meta ctx key value cs ps =
     (case (ctx, key) of
        (Some c, Some _) \<Rightarrow> do {
          (_, cs, ps) \<leftarrow> ak_context_set cs (Some (metadata c)) key value ps;
          Some (cs, ps) }
      | _ \<Rightarrow> Some (cs, ps))"

definition ak_tcp_get_meta ::
  "ak_tcp_ctx option \<Rightarrow> u8 list option \<Rightarrow> ctx_store \<Rightarrow> nat option" where
  "ak_tcp_get_meta ctx key cs =
     (case (ctx, key) of
        (Some c, Some _) \<Rightarrow> ak_context_get cs (Some (metadata c)) key
      | _ \<Rightarrow> Some 0)"

text \<open>
  The variants with error codes. \<open>strstr\<close> looks for a text in the message of the error
  cell.
\<close>

fun strstr :: "u8 list \<Rightarrow> u8 list \<Rightarrow> bool" where
  "strstr [] t = (t = [])"
| "strstr (x # xs) t = (take (length t) (x # xs) = t \<or> strstr xs t)"

definition error_has :: "err_cell \<Rightarrow> u8 list \<Rightarrow> bool" where
  "error_has error t = (case error of Some (Some m) \<Rightarrow> strstr m t | _ \<Rightarrow> False)"

definition ak_tcp_send_ex ::
  "ak_tcp_ctx option \<Rightarrow> ak_buffer option \<Rightarrow> nat option \<Rightarrow> err_cell \<Rightarrow> net
   \<Rightarrow> (ak_tcp_error \<times> nat option \<times> ak_tcp_ctx option \<times> err_cell \<times> net) option" where
  "ak_tcp_send_ex ctx data bytes_sent error n =
     (let bytes_sent = map_option (\<lambda>_. 0) bytes_sent in do {
        (result, ctx, error, n) \<leftarrow> ak_tcp_send ctx data error n;
        if result < 0 then
          (if ctx = None then Some (AK_TCP_ERR_INVALID, bytes_sent, ctx, error, n)
           else do {
             (up, ctx, n) \<leftarrow> ak_tcp_is_alive ctx n;
             Some (if \<not> up then AK_TCP_ERR_CLOSED else AK_TCP_ERR_NETWORK,
                   bytes_sent, ctx, error, n) })
        else Some (AK_TCP_OK, map_option (\<lambda>_. nat result) bytes_sent, ctx, error, n) })"

definition ak_tcp_recv_ex ::
  "ak_tcp_ctx option \<Rightarrow> ak_buffer option \<Rightarrow> nat \<Rightarrow> nat option \<Rightarrow> err_cell \<Rightarrow> net \<Rightarrow> byte_sched
   \<Rightarrow> (ak_tcp_error \<times> nat option \<times> ak_tcp_ctx option \<times> ak_buffer option \<times> err_cell \<times> net
       \<times> byte_sched) option" where
  "ak_tcp_recv_ex ctx buffer max_bytes bytes_received error n s =
     (let bytes_received = map_option (\<lambda>_. 0) bytes_received in do {
        (result, ctx, buffer, error, n, s) \<leftarrow> ak_tcp_recv ctx buffer max_bytes error n s;
        if result = -2
        then Some (AK_TCP_ERR_BUFFER_FULL, bytes_received, ctx, buffer, error, n, s)
        else if result < 0 then
          (if ctx = None then Some (AK_TCP_ERR_INVALID, bytes_received, ctx, buffer, error, n, s)
           else do {
             (up, ctx, n) \<leftarrow> ak_tcp_is_alive ctx n;
             Some (if \<not> up then AK_TCP_ERR_CLOSED
                   else if error_has error (lit ''timed out'') then AK_TCP_ERR_TIMEOUT
                   else AK_TCP_ERR_NETWORK,
                   bytes_received, ctx, buffer, error, n, s) })
        else if result = 0
        then Some (AK_TCP_ERR_CLOSED, bytes_received, ctx, buffer, error, n, s)
        else Some (AK_TCP_OK, map_option (\<lambda>_. nat result) bytes_received, ctx, buffer, error, n,
                   s) })"

text \<open>The out-parameter \<open>result\<close> is not NULL where \<open>want\<close> holds.\<close>

definition ak_tcp_recv_until_ex ::
  "ak_tcp_ctx option \<Rightarrow> u8 list option \<Rightarrow> nat \<Rightarrow> bool \<Rightarrow> err_cell \<Rightarrow> net \<Rightarrow> byte_sched
   \<Rightarrow> (ak_tcp_error \<times> ak_buffer option \<times> ak_tcp_ctx option \<times> err_cell \<times> net \<times> byte_sched) option" where
  "ak_tcp_recv_until_ex ctx delim max_bytes want error n s =
     (if ctx = None \<or> delim = None \<or> \<not> want
      then Some (AK_TCP_ERR_INVALID, None, ctx, set_error error (lit ''Invalid arguments''), n, s)
      else do {
        (buf, ctx, error, n, s) \<leftarrow> ak_tcp_recv_until ctx delim max_bytes error n s;
        (case buf of
           None \<Rightarrow> do {
             (up, ctx, n) \<leftarrow> ak_tcp_is_alive ctx n;
             Some (if \<not> up then AK_TCP_ERR_CLOSED
                   else if error_has error (lit ''Maximum receive size exceeded'')
                   then AK_TCP_ERR_LIMIT
                   else if error_has error (lit ''timed out'') then AK_TCP_ERR_TIMEOUT
                   else AK_TCP_ERR_NETWORK, None, ctx, error, n, s) }
         | Some b \<Rightarrow> Some (AK_TCP_OK, Some b, ctx, error, n, s)) })"

section \<open>What the network was told\<close>

text \<open>The bytes sent and received over a descriptor, in the order of the trace.\<close>

fun sent_on :: "int \<Rightarrow> net_event list \<Rightarrow> u8 list" where
  "sent_on fd [] = []"
| "sent_on fd (Sent g bs # es) = (if g = fd then bs else []) @ sent_on fd es"
| "sent_on fd (_ # es) = sent_on fd es"

fun received_on :: "int \<Rightarrow> net_event list \<Rightarrow> u8 list" where
  "received_on fd [] = []"
| "received_on fd (Received g bs # es) = (if g = fd then bs else []) @ received_on fd es"
| "received_on fd (_ # es) = received_on fd es"

definition only_sends :: "int \<Rightarrow> net_event list \<Rightarrow> bool" where
  "only_sends fd es \<longleftrightarrow> (\<forall>e \<in> set es. \<exists>bs. e = Sent fd bs)"

definition only_receives :: "int \<Rightarrow> net_event list \<Rightarrow> bool" where
  "only_receives fd es \<longleftrightarrow> (\<forall>e \<in> set es. \<exists>bs. e = Received fd bs)"

lemma sent_on_append [simp]: "sent_on fd (xs @ ys) = sent_on fd xs @ sent_on fd ys"
  by (induction fd xs rule: sent_on.induct) auto

lemma received_on_append [simp]:
  "received_on fd (xs @ ys) = received_on fd xs @ received_on fd ys"
  by (induction fd xs rule: received_on.induct) auto

lemma only_sends_simps [simp]:
  "only_sends fd []" "only_sends fd (e # es) \<longleftrightarrow> (\<exists>bs. e = Sent fd bs) \<and> only_sends fd es"
  by (auto simp: only_sends_def)

lemma only_receives_simps [simp]:
  "only_receives fd []"
  "only_receives fd (e # es) \<longleftrightarrow> (\<exists>bs. e = Received fd bs) \<and> only_receives fd es"
  by (auto simp: only_receives_def)

lemma logged_simps [simp]:
  "trace (logged e n) = trace n @ [e]" "answers (logged e n) = answers n"
  "incoming (logged e n) = incoming n" "polls (logged e n) = polls n"
  "strerror (logged e n) = strerror n" "errno (logged e n) = errno n"
  by (simp_all add: logged_def)

section \<open>Sending\<close>

lemma socket_send_cases:
  assumes "ak_tcp_socket_send fd data error n = Some (sent, error', n')"
  obtains (failed) "sent = -1" "error' = set_error error (strerror n' (errno n'))"
      "trace n' = trace n"
    | (took) k where "sent = int k" "k \<le> length data" "error' = error"
      "trace n' = trace n @ [Sent fd (take k data)]"
  using assms
  by (auto simp: ak_tcp_socket_send_def sys_send_def sys_def fail_errno_def Let_def bind_eq_Some_conv
      split: list.splits if_splits prod.splits)

lemma socket_send_answers:
  assumes "answers n Sys_send = r # rs"
  obtains sent error' n' where "ak_tcp_socket_send fd data error n = Some (sent, error', n')"
    "answers n' Sys_send = rs"
  using assms
  by (cases r; cases "fst r < 0")
    (auto simp: ak_tcp_socket_send_def sys_send_def sys_def fail_errno_def Let_def)

lemma send_loop_spec:
  assumes "send_loop c fd ptr k m error n = Some (rc, c', error', n')"
    and "k \<le> m" and "m \<le> length ptr"
  shows "\<exists>es j. trace n' = trace n @ es \<and> only_sends fd es \<and> k \<le> j \<and> j \<le> m
     \<and> sent_on fd es = take (j - k) (drop k ptr)
     \<and> (rc = to_ssize m \<and> j = m \<and> c' = c \<and> error' = error
        \<or> rc = -1 \<and> j < m \<and> (c' = c \<or> c' = c\<lparr>alive := False\<rparr>)
          \<and> (\<exists>msg. error' = set_error error msg))"
  using assms
proof (induction "m - k" arbitrary: k error n rule: less_induct)
  case less
  show ?case
  proof (cases "k < m")
    case False
    then show ?thesis
      using less.prems send_loop.simps [of c fd ptr k m error n]
      by (intro exI [of _ "[]"] exI [of _ m]) auto
  next
    case True
    let ?data = "take (m - k) (drop k ptr)"
    have unfold: "send_loop c fd ptr k m error n = do {
        (sent, error, n) \<leftarrow> ak_tcp_socket_send fd ?data error n;
        if sent < 0 then Some (-1, c, error, n)
        else if sent = 0 then
          Some (-1, c\<lparr>alive := False\<rparr>, set_error error (lit ''Connection closed by peer''), n)
        else send_loop c fd ptr (k + nat sent) m error n }"
      using True less.prems(3) by (subst send_loop.simps) simp
    obtain sent e1 n1 where s: "ak_tcp_socket_send fd ?data error n = Some (sent, e1, n1)"
      using less.prems(1) unfold by (auto simp: bind_eq_Some_conv)
    from s show ?thesis
    proof (cases rule: socket_send_cases)
      case failed
      then have "rc = -1" "c' = c" "error' = e1" "n' = n1"
        using less.prems(1) unfold s by auto
      then show ?thesis
        using failed True by (intro exI [of _ "[]"] exI [of _ k]) auto
    next
      case (took i)
      show ?thesis
      proof (cases "i = 0")
        case True
        then have "rc = -1" "c' = c\<lparr>alive := False\<rparr>" "n' = n1"
            "error' = set_error error (lit ''Connection closed by peer'')"
          using less.prems(1) unfold s took by simp_all
        then show ?thesis
          using took True \<open>k < m\<close> by (intro exI [of _ "[Sent fd []]"] exI [of _ k]) auto
      next
        case False
        have i: "i \<le> m - k" "k + i \<le> m"
          using took(2) less.prems True by auto
        have "send_loop c fd ptr (k + i) m error n1 = Some (rc, c', error', n')"
          using less.prems(1) unfold s took False by simp
        moreover have "m - (k + i) < m - k"
          using False True by simp
        ultimately obtain es j where es: "trace n' = trace n1 @ es" "only_sends fd es" "k + i \<le> j" "j \<le> m"
            "sent_on fd es = take (j - (k + i)) (drop (k + i) ptr)"
            "rc = to_ssize m \<and> j = m \<and> c' = c \<and> error' = error
             \<or> rc = -1 \<and> j < m \<and> (c' = c \<or> c' = c\<lparr>alive := False\<rparr>)
               \<and> (\<exists>msg. error' = set_error error msg)"
          using less.hyps [of "k + i" error n1] i(2) less.prems(3) by blast
        have "take (j - k) (drop k ptr) = take i (drop k ptr) @ take (j - (k + i)) (drop (k + i) ptr)"
          using es(3) take_add [of i "j - (k + i)" "drop k ptr"] by (simp add: add.commute)
        then show ?thesis
          using es took i
          by (intro exI [of _ "Sent fd (take i (drop k ptr)) # es"] exI [of _ j])
            (auto simp: min_def)
      qed
    qed
  qed
qed

text \<open>When the network answers every call, the loop ends after at most one call for each byte.\<close>

lemma send_loop_returns:
  assumes "m - k \<le> length (answers n Sys_send)" and "m \<le> length ptr"
  shows "\<exists>r. send_loop c fd ptr k m error n = Some r"
  using assms
proof (induction "m - k" arbitrary: k error n rule: less_induct)
  case less
  show ?case
  proof (cases "k < m")
    case False
    then show ?thesis by (subst send_loop.simps) simp
  next
    case True
    then obtain r rs where rs: "answers n Sys_send = r # rs"
      using less.prems by (cases "answers n Sys_send") auto
    from socket_send_answers [OF rs] obtain sent e1 n1 where
      s: "ak_tcp_socket_send fd (take (m - k) (drop k ptr)) error n = Some (sent, e1, n1)"
      and n1: "answers n1 Sys_send = rs" by metis
    have "\<exists>r. send_loop c fd ptr (k + nat sent) m e1 n1 = Some r" if "0 < sent"
      using less.hyps [of "k + nat sent" n1 e1] that less.prems rs n1 True by simp
    then show ?thesis
      using True less.prems(2) s by (subst send_loop.simps) auto
  qed
qed

section \<open>Receiving\<close>

text \<open>The amount that one receive may ask for, and the connection's back-pressure invariant.\<close>

definition allowance :: "ak_tcp_ctx \<Rightarrow> nat \<Rightarrow> nat" where
  "allowance c max_bytes =
     (let k = min max_bytes 1024 in
      if max_recv_buffer_bytes c = 0 then k
      else min k (max_recv_buffer_bytes c - buffered_bytes c))"

definition within_limit :: "ak_tcp_ctx \<Rightarrow> bool" where
  "within_limit c \<longleftrightarrow> buffered_bytes c < SIZE_RANGE \<and> max_recv_buffer_bytes c < SIZE_RANGE
     \<and> (max_recv_buffer_bytes c = 0 \<or> buffered_bytes c \<le> max_recv_buffer_bytes c)"

definition is_full :: "ak_tcp_ctx \<Rightarrow> bool" where
  "is_full c \<longleftrightarrow> 0 < max_recv_buffer_bytes c \<and> max_recv_buffer_bytes c \<le> buffered_bytes c"

text \<open>The connection after \<open>k\<close> more bytes.\<close>

definition counted :: "ak_tcp_ctx \<Rightarrow> nat \<Rightarrow> ak_tcp_ctx" where
  "counted c k = c\<lparr>buffered_bytes := sz_add (buffered_bytes c) k\<rparr>"

lemma counted_simps [simp]:
  "alive (counted c k) = alive c" "socket_fd (counted c k) = socket_fd c"
  "max_recv_buffer_bytes (counted c k) = max_recv_buffer_bytes c"
  "buffered_bytes (counted c k) = sz_add (buffered_bytes c) k"
  by (simp_all add: counted_def)

lemma socket_recv_answers:
  assumes "incoming n = Inr bs # rs"
  shows "ak_tcp_socket_recv fd len error n =
     Some (int (length (take len bs)), take len bs, error,
       logged (Received fd (take len bs)) (n\<lparr>incoming := rs\<rparr>))"
  using assms by (simp add: ak_tcp_socket_recv_def sys_recv_def)

lemma socket_recv_fails:
  assumes "incoming n = Inl e # rs"
  shows "ak_tcp_socket_recv fd len error n =
     Some (-1, [], set_error error (strerror n e), n\<lparr>incoming := rs, errno := e\<rparr>)"
  using assms by (simp add: ak_tcp_socket_recv_def sys_recv_def fail_errno_def)

lemma tcp_recv_unfold:
  assumes "alive c" and "\<not> is_full c"
  shows "ak_tcp_recv (Some c) (Some b) max_bytes error n s = do {
     (received, temp, error, n) \<leftarrow> ak_tcp_socket_recv (socket_fd c) (allowance c max_bytes) error n;
     if received < 0 then Some (-1, Some c, Some b, error, n, s)
     else if received = 0 then Some (0, Some (c\<lparr>alive := False\<rparr>), Some b, error, n, s)
     else do {
       (rc, buffer, s) \<leftarrow> ak_buffer_copy_to (Some b) (Some temp) (nat received) s;
       if rc \<noteq> 0
       then Some (-1, Some c, buffer, set_error error (lit ''Buffer allocation failed''), n, s)
       else Some (received, Some (counted c (nat received)), buffer, error, n, s) } }"
proof -
  have "(let to_recv = (if max_bytes < TCP_RECV_CHUNK_SIZE then max_bytes else TCP_RECV_CHUNK_SIZE) in
      if 0 < max_recv_buffer_bytes c \<and> max_recv_buffer_bytes c - buffered_bytes c < to_recv
      then max_recv_buffer_bytes c - buffered_bytes c else to_recv) = allowance c max_bytes"
    by (auto simp: allowance_def TCP_RECV_CHUNK_SIZE_def Let_def min_def)
  then show ?thesis
    using assms
    by (auto simp: ak_tcp_recv_def is_full_def counted_def Let_def not_le cong: if_cong)
qed

lemma allowance_limit:
  assumes "within_limit c" and "k \<le> allowance c max_bytes" and "buffered_bytes c + 1024 < SIZE_RANGE"
  shows "sz_add (buffered_bytes c) k = buffered_bytes c + k" and "within_limit (counted c k)"
    and "k \<le> max_bytes" and "k \<le> 1024"
proof -
  show "k \<le> max_bytes" "k \<le> 1024"
    using assms(2) by (auto simp: allowance_def Let_def split: if_splits)
  then show 1: "sz_add (buffered_bytes c) k = buffered_bytes c + k"
    using assms(3) by (simp add: sz_add_exact)
  have "max_recv_buffer_bytes c = 0 \<or> buffered_bytes c + k \<le> max_recv_buffer_bytes c"
    using assms(1,2) by (auto simp: allowance_def within_limit_def Let_def split: if_splits)
  then show "within_limit (counted c k)"
    using assms 1 \<open>k \<le> 1024\<close> by (simp add: within_limit_def)
qed

text \<open>One receive on an open connection, on each of its branches.\<close>

lemma tcp_recv_full:
  "alive c \<Longrightarrow> is_full c \<Longrightarrow>
   ak_tcp_recv (Some c) (Some b) max_bytes error n s =
     Some (-2, Some c, Some b, set_error error full_msg, n, s)"
  by (simp add: ak_tcp_recv_def is_full_def Let_def)

lemma tcp_recv_delivers:
  fixes c :: ak_tcp_ctx and max_bytes :: nat
  assumes "alive c" and "\<not> is_full c" and "incoming n = Inr bs # rs" and "buf_ok b"
    and "buf_count b + 1024 \<le> 2 ^ 63"
  defines "d \<equiv> take (allowance c max_bytes) bs"
    and "n' \<equiv> logged (Received (socket_fd c) (take (allowance c max_bytes) bs)) (n\<lparr>incoming := rs\<rparr>)"
  shows "d = [] \<Longrightarrow> ak_tcp_recv (Some c) (Some b) max_bytes error n s =
      Some (0, Some (c\<lparr>alive := False\<rparr>), Some b, error, n', s)"
    and "d \<noteq> [] \<Longrightarrow> \<exists>b' s'. buf_ok b'
      \<and> (ak_tcp_recv (Some c) (Some b) max_bytes error n s =
           Some (int (length d), Some (counted c (length d)), Some b', error, n', s')
         \<and> buf_bytes b' = buf_bytes b @ d
       \<or> ak_tcp_recv (Some c) (Some b) max_bytes error n s =
           Some (-1, Some c, Some b, set_error error (lit ''Buffer allocation failed''), n', s'))"
proof -
  have "ak_tcp_socket_recv (socket_fd c) (allowance c max_bytes) error n =
      Some (int (length d), d, error, n')"
    unfolding d_def n'_def by (rule socket_recv_answers [OF assms(3)])
  note u = tcp_recv_unfold [OF assms(1,2), of b max_bytes error n s] this
  show "ak_tcp_recv (Some c) (Some b) max_bytes error n s =
      Some (0, Some (c\<lparr>alive := False\<rparr>), Some b, error, n', s)" if "d = []"
    using u that by simp
  show "\<exists>b' s'. buf_ok b'
      \<and> (ak_tcp_recv (Some c) (Some b) max_bytes error n s =
           Some (int (length d), Some (counted c (length d)), Some b', error, n', s')
         \<and> buf_bytes b' = buf_bytes b @ d
       \<or> ak_tcp_recv (Some c) (Some b) max_bytes error n s =
           Some (-1, Some c, Some b, set_error error (lit ''Buffer allocation failed''), n', s'))"
    if ne: "d \<noteq> []"
  proof -
    have "length d \<le> 1024"
      by (auto simp: d_def allowance_def Let_def)
    then have "buf_count b + length d \<le> 2 ^ 63"
      using assms(5) by simp
    from copy_to_correct [OF assms(4) order.refl this, of s]
    obtain rc b' s' where cp: "ak_buffer_copy_to (Some b) (Some d) (length d) s = Some (rc, Some b', s')"
      "buf_ok b'" "rc = 0 \<and> buf_bytes b' = buf_bytes b @ d \<or> rc = -1 \<and> b' = b"
      by auto
    have eq: "ak_tcp_recv (Some c) (Some b) max_bytes error n s = do {
        (rc, buffer, s) \<leftarrow> ak_buffer_copy_to (Some b) (Some d) (length d) s;
        if rc \<noteq> 0
        then Some (-1, Some c, buffer, set_error error (lit ''Buffer allocation failed''), n', s)
        else Some (int (length d), Some (counted c (length d)), buffer, error, n', s) }"
      using u ne by (simp cong: if_cong)
    show ?thesis
      using cp by (auto simp: eq intro!: exI [of _ b'] exI [of _ s'])
  qed
qed

section \<open>Receiving up to a delimiter\<close>

text \<open>The delimiter at a position, and at the first position, of a sequence of bytes.\<close>

definition match_at :: "u8 list \<Rightarrow> u8 list \<Rightarrow> nat \<Rightarrow> bool" where
  "match_at xs d j \<longleftrightarrow> j + length d \<le> length xs \<and> take (length d) (drop j xs) = d"

definition first_match :: "u8 list \<Rightarrow> u8 list \<Rightarrow> nat \<Rightarrow> bool" where
  "first_match xs d j \<longleftrightarrow> match_at xs d j \<and> (\<forall>i<j. \<not> match_at xs d i)"

declare find_delim.simps [simp del]

lemma find_delim_spec:
  assumes "length d \<le> cnt" and "cnt \<le> length a"
  shows "\<exists>r. find_delim a cnt d i = Some r
     \<and> (case r of None \<Rightarrow> \<forall>k\<ge>i. \<not> match_at (take cnt a) d k
        | Some j \<Rightarrow> i \<le> j \<and> match_at (take cnt a) d j \<and> (\<forall>k. i \<le> k \<and> k < j \<longrightarrow> \<not> match_at (take cnt a) d k))"
  using assms
proof (induction a cnt d i rule: find_delim.induct)
  case (1 a cnt d i)
  show ?case
  proof (cases "i \<le> cnt - length d")
    case False
    then show ?thesis
      using 1(2,3) by (subst find_delim.simps) (auto simp: match_at_def)
  next
    case True
    have m: "mem_is a i d = Some (match_at (take cnt a) d i)"
      using True 1(2,3) by (auto simp: mem_is_def match_at_def take_drop min_def)
    show ?thesis
    proof (cases "match_at (take cnt a) d i")
      case True
      then show ?thesis
        using m \<open>i \<le> cnt - length d\<close> by (subst find_delim.simps) auto
    next
      case False
      with 1(1) [OF True] m 1(2,3) obtain r where r: "find_delim a cnt d (Suc i) = Some r"
        "case r of None \<Rightarrow> \<forall>k\<ge>Suc i. \<not> match_at (take cnt a) d k
         | Some j \<Rightarrow> Suc i \<le> j \<and> match_at (take cnt a) d j
             \<and> (\<forall>k. Suc i \<le> k \<and> k < j \<longrightarrow> \<not> match_at (take cnt a) d k)"
        by auto
      have "find_delim a cnt d i = find_delim a cnt d (Suc i)"
        using False m True by (subst find_delim.simps) simp
      then show ?thesis
        using r False by (auto split: option.splits simp: Suc_le_eq) (metis le_neq_implies_less)+
    qed
  qed
qed

lemma search_spec:
  assumes "buf_ok b" and "d \<noteq> []"
  obtains (none) "(if length d \<le> buf_count b then find_delim (buf_data b) (buf_count b) d 0 else Some None)
      = Some None" "\<And>k. \<not> match_at (buf_bytes b) d k"
    | (hit) j where "(if length d \<le> buf_count b then find_delim (buf_data b) (buf_count b) d 0
        else Some None) = Some (Some j)" "first_match (buf_bytes b) d j"
proof (cases "length d \<le> buf_count b")
  case True
  have "buf_count b \<le> length (buf_data b)"
    using assms(1) by (simp add: buf_ok_def)
  from find_delim_spec [OF True this, of 0] that True show ?thesis
    by (auto simp: buf_bytes_def first_match_def split: option.splits)
next
  case False
  then have "\<not> match_at (buf_bytes b) d k" for k
    by (auto simp: match_at_def buf_bytes_def)
  with False that(1) show ?thesis by simp
qed

text \<open>The check whether the connection is alive uses one poll and at most one peek.\<close>

lemma peer_closed_effect:
  assumes "ak_tcp_socket_peer_closed fd n = Some (closed, n')" and "fd \<noteq> AK_INVALID_SOCKET"
  shows "trace n' = trace n" and "incoming n' = incoming n" and "strerror n' = strerror n"
    and "length (polls n) = Suc (length (polls n'))"
    and "length (answers n Sys_peek) \<le> Suc (length (answers n' Sys_peek))"
  using assms
  by (auto simp: ak_tcp_socket_peer_closed_def sys_poll_def sys_def bind_eq_Some_conv
      split: if_splits list.splits prod.splits)

lemma peer_closed_answers:
  assumes "polls n \<noteq> []" and "answers n Sys_peek \<noteq> []"
  shows "\<exists>closed n'. ak_tcp_socket_peer_closed fd n = Some (closed, n')"
  using assms
  by (auto simp: ak_tcp_socket_peer_closed_def sys_poll_def sys_def split: list.splits)

lemma is_alive_cases:
  assumes "ak_tcp_is_alive (Some c) n = Some (go, ctx, n')"
  obtains (open_up) "go" "ctx = Some c" "alive c" "socket_fd c \<noteq> AK_INVALID_SOCKET"
      "ak_tcp_socket_peer_closed (socket_fd c) n = Some (False, n')"
    | (closed) "\<not> go" "ctx = Some (c\<lparr>alive := False\<rparr>)" "socket_fd c \<noteq> AK_INVALID_SOCKET"
      "ak_tcp_socket_peer_closed (socket_fd c) n = Some (True, n')"
    | (down) "\<not> go" "ctx = Some c" "\<not> alive c \<or> socket_fd c = AK_INVALID_SOCKET" "n' = n"
  using assms
  by (auto simp: ak_tcp_is_alive_def bind_eq_Some_conv split: if_splits)

text \<open>The bytes that the network still has to deliver.\<close>

definition bytes_ahead :: "net \<Rightarrow> nat" where
  "bytes_ahead n = sum_list (map (case_sum (\<lambda>_. 0) length) (incoming n))"

lemma chunk_size_bounds:
  assumes "max_bytes = 0 \<or> cnt < max_bytes" and "cnt + 1024 < SIZE_RANGE"
    and "limit = 0 \<or> buffered < limit"
  shows "0 < chunk_size max_bytes cnt limit buffered"
    and "chunk_size max_bytes cnt limit buffered \<le> 1024"
    and "0 < max_bytes \<Longrightarrow> cnt + chunk_size max_bytes cnt limit buffered \<le> max_bytes"
    and "0 < limit \<Longrightarrow> buffered + chunk_size max_bytes cnt limit buffered \<le> limit"
  using assms
  by (auto simp: chunk_size_def TCP_RECV_CHUNK_SIZE_def Let_def sz_add_exact)

lemma until_loop_stops:
  assumes "ak_tcp_is_alive (Some c) n = Some (False, ctx, n1)"
  shows "until_loop (Some c) d max_bytes b error n s = Some (until_end b, ctx, error, n1, s)"
  using assms by (subst until_loop.simps) simp

lemma until_loop_hit:
  assumes "ak_tcp_is_alive (Some c) n = Some (True, ctx, n1)"
    and "(if length d \<le> buf_count b then find_delim (buf_data b) (buf_count b) d 0 else Some None)
      = Some (Some j)"
  shows "until_loop (Some c) d max_bytes b error n s =
     Some (Some (b\<lparr>buf_count := j + length d\<rparr>), ctx, error, n1, s)"
  using assms by (subst until_loop.simps) simp

lemma until_loop_on:
  assumes "ak_tcp_is_alive (Some c) n = Some (True, Some c, n1)" and "alive c"
    and "(if length d \<le> buf_count b then find_delim (buf_data b) (buf_count b) d 0 else Some None)
      = Some None"
  shows "until_loop (Some c) d max_bytes b error n s =
     (if 0 < max_bytes \<and> max_bytes \<le> buf_count b
      then Some (None, Some c,
             set_error error (lit ''Maximum receive size exceeded before delimiter found''), n1, s)
      else if is_full c then Some (None, Some c, set_error error full_msg, n1, s)
      else do {
        (received, temp, error, n) \<leftarrow> ak_tcp_socket_recv (socket_fd c)
          (chunk_size max_bytes (buf_count b) (max_recv_buffer_bytes c) (buffered_bytes c)) error n1;
        if received < 0 then Some (None, Some c, error, n, s)
        else if received = 0 then Some (until_end b, Some (c\<lparr>alive := False\<rparr>), error, n, s)
        else do {
          (rc, b, s) \<leftarrow> ak_buffer_copy_to (Some b) (Some temp) (nat received) s;
          if rc \<noteq> 0
          then Some (None, Some c, set_error error (lit ''Buffer allocation failed''), n, s)
          else do {
            b \<leftarrow> b;
            until_loop (Some (counted c (nat received))) d max_bytes b error n s } } })"
  using assms
  by (subst until_loop.simps) (simp add: Let_def is_full_def counted_def cong: if_cong)

text \<open>
  What one call of the loop promises, from a buffer \<open>b\<close>: \<open>got\<close> is everything received so
  far. A buffer that comes back holds it up to the first delimiter, or all of it when the
  connection has ended.
\<close>

definition until_post ::
  "ak_tcp_ctx \<Rightarrow> u8 list \<Rightarrow> nat \<Rightarrow> u8 list \<Rightarrow> ak_buffer option \<Rightarrow> ak_tcp_ctx \<Rightarrow> net_event list \<Rightarrow> bool" where
  "until_post c d max_bytes before r c' es \<longleftrightarrow>
     (let fresh = received_on (socket_fd c) es; got = before @ fresh in
      only_receives (socket_fd c) es \<and> within_limit c'
      \<and> (max_bytes = 0 \<or> length got \<le> max_bytes)
      \<and> (\<forall>b'. r = Some b' \<longrightarrow>
           buf_ok b' \<and> buffered_bytes c' = buffered_bytes c + length fresh
           \<and> ((\<exists>j. first_match got d j \<and> buf_bytes b' = take (j + length d) got)
              \<or> \<not> alive c' \<and> got \<noteq> [] \<and> buf_bytes b' = got)))"

lemma until_post_NoneI:
  "within_limit c \<Longrightarrow> max_bytes = 0 \<or> length before + length bs \<le> max_bytes \<Longrightarrow>
   until_post c d max_bytes before None c [Received (socket_fd c) bs]"
  "within_limit c \<Longrightarrow> max_bytes = 0 \<or> length before \<le> max_bytes \<Longrightarrow>
   until_post c d max_bytes before None c []"
  by (auto simp: until_post_def Let_def)

lemma within_limit_alive [simp]: "within_limit (c\<lparr>alive := v\<rparr>) = within_limit c"
  by (simp add: within_limit_def)

lemma until_post_endI:
  assumes "buf_ok b" and "within_limit c" and "max_bytes = 0 \<or> buf_count b \<le> max_bytes"
    and "es = [] \<or> es = [Received (socket_fd c) []]"
    and "\<not> alive c'" and "buffered_bytes c' = buffered_bytes c" and "within_limit c'"
  shows "until_post c d max_bytes (buf_bytes b) (until_end b) c' es"
  using assms
  by (auto simp: until_post_def until_end_def ak_buffer_count_def Let_def buf_ok_def buf_bytes_def)

lemma until_post_hitI:
  assumes "buf_ok b" and "within_limit c" and "max_bytes = 0 \<or> buf_count b \<le> max_bytes"
    and "first_match (buf_bytes b) d j"
  shows "until_post c d max_bytes (buf_bytes b) (Some (b\<lparr>buf_count := j + length d\<rparr>)) c []"
proof -
  have "j + length d \<le> buf_count b"
    using assms(4) by (auto simp: first_match_def match_at_def buf_bytes_def)
  then show ?thesis
    using assms by (auto simp: until_post_def Let_def buf_ok_def buf_bytes_def min_def)
qed

lemma until_post_step:
  assumes "until_post (counted c (length bs)) d max_bytes (before @ bs) r c' es"
    and "sz_add (buffered_bytes c) (length bs) = buffered_bytes c + length bs"
  shows "until_post c d max_bytes before r c' (Received (socket_fd c) bs # es)"
  using assms by (auto simp: until_post_def Let_def)

text \<open>
  One receive of the loop either ends the call as promised, or it appends bytes and the
  loop goes on.
\<close>

lemma until_loop_goes_on:
  fixes c :: ak_tcp_ctx and b :: ak_buffer and n1 :: net and max_bytes :: nat
  defines "k \<equiv> chunk_size max_bytes (buf_count b) (max_recv_buffer_bytes c) (buffered_bytes c)"
  assumes run: "do {
        (received, temp, error, n) \<leftarrow> ak_tcp_socket_recv (socket_fd c) k error n1;
        if received < 0 then Some (None, Some c, error, n, s)
        else if received = 0 then Some (until_end b, Some (c\<lparr>alive := False\<rparr>), error, n, s)
        else do {
          (rc, b, s) \<leftarrow> ak_buffer_copy_to (Some b) (Some temp) (nat received) s;
          if rc \<noteq> 0
          then Some (None, Some c, set_error error (lit ''Buffer allocation failed''), n, s)
          else do {
            b \<leftarrow> b;
            until_loop (Some (counted c (nat received))) d max_bytes b error n s } } }
      = Some (r, ctx', error', n', s')"
    and ok: "buf_ok b" "within_limit c" "buf_count b + 1024 \<le> 2 ^ 63"
      and go: "\<not> (0 < max_bytes \<and> max_bytes \<le> buf_count b)" "\<not> is_full c"
  shows "(\<exists>c' es. ctx' = Some c' \<and> trace n' = trace n1 @ es
       \<and> until_post c d max_bytes (buf_bytes b) r c' es)
   \<or> (\<exists>bs b2 s2 n2. until_loop (Some (counted c (length bs))) d max_bytes b2 error n2 s2
          = Some (r, ctx', error', n', s')
       \<and> length bs \<le> k \<and> trace n2 = trace n1 @ [Received (socket_fd c) bs]
       \<and> buf_ok b2 \<and> buf_bytes b2 = buf_bytes b @ bs \<and> polls n2 = polls n1
       \<and> length bs + bytes_ahead n2 \<le> bytes_ahead n1)"
proof -
  have k: "k \<le> 1024" "max_bytes = 0 \<or> buf_count b + k \<le> max_bytes"
    using chunk_size_bounds [of max_bytes "buf_count b" "max_recv_buffer_bytes c" "buffered_bytes c"]
      ok(3) go by (auto simp: k_def is_full_def)
  have len: "length (buf_bytes b) = buf_count b"
    using ok(1) by (rule length_buf_bytes)
  consider "incoming n1 = []" | e rs where "incoming n1 = Inl e # rs"
    | bs rs where "incoming n1 = Inr bs # rs"
    by (metis list.exhaust sum.exhaust)
  then show ?thesis
  proof cases
    case 1
    then show ?thesis using run by (simp add: ak_tcp_socket_recv_def sys_recv_def)
  next
    case 2
    then have "r = None" "ctx' = Some c" "trace n' = trace n1"
      using run by (auto simp: socket_recv_fails)
    then show ?thesis
      using until_post_NoneI(2) [of c max_bytes "buf_bytes b"] ok k len by auto
  next
    case (3 bs rs)
    define x where "x = take k bs"
    define n2 where "n2 = logged (Received (socket_fd c) x) (n1\<lparr>incoming := rs\<rparr>)"
    have recv: "ak_tcp_socket_recv (socket_fd c) k error n1 = Some (int (length x), x, error, n2)"
      using socket_recv_answers [OF 3] by (simp add: x_def n2_def)
    have xk: "length x \<le> k" "trace n2 = trace n1 @ [Received (socket_fd c) x]"
      "length x + bytes_ahead n2 \<le> bytes_ahead n1" "polls n2 = polls n1"
      using 3 by (simp_all add: x_def n2_def bytes_ahead_def)
    show ?thesis
    proof (cases "x = []")
      case True
      then have "r = until_end b" "ctx' = Some (c\<lparr>alive := False\<rparr>)" "n' = n2"
        using run recv by auto
      then show ?thesis
        using until_post_endI [OF ok(1,2), of max_bytes "[Received (socket_fd c) []]" "c\<lparr>alive := False\<rparr>" d]
          ok k xk(2) True by auto
    next
      case False
      have "buf_count b + length x \<le> 2 ^ 63"
        using xk(1) ok(3) k(1) by linarith
      from copy_to_correct [OF ok(1) order.refl this, of s]
      obtain rc b2 s2 where cp: "ak_buffer_copy_to (Some b) (Some x) (length x) s = Some (rc, Some b2, s2)"
        "buf_ok b2" "rc = 0 \<and> buf_bytes b2 = buf_bytes b @ x \<or> rc = -1 \<and> b2 = b"
        by auto
      show ?thesis
      proof (cases "rc = 0")
        case True
        then have "until_loop (Some (counted c (length x))) d max_bytes b2 error n2 s2
            = Some (r, ctx', error', n', s')"
          using run recv cp False by simp
        then show ?thesis
          using xk cp True False by (intro disjI2) (auto intro!: exI [of _ x])
      next
        case False
        then have "r = None" "ctx' = Some c" "n' = n2"
          using run recv cp \<open>x \<noteq> []\<close> by auto
        then show ?thesis
          using until_post_NoneI(1) [OF ok(2), of max_bytes "buf_bytes b" x d] xk(1,2) k(2) len
          by auto
      qed
    qed
  qed
qed

text \<open>What the loop needs, and keeps: room in the buffer and in the counters.\<close>

definition until_pre :: "ak_tcp_ctx \<Rightarrow> nat \<Rightarrow> ak_buffer \<Rightarrow> net \<Rightarrow> bool" where
  "until_pre c max_bytes b n \<longleftrightarrow> buf_ok b \<and> within_limit c \<and> socket_fd c \<noteq> AK_INVALID_SOCKET
     \<and> buf_count b + bytes_ahead n < 2 ^ 62 \<and> buffered_bytes c + bytes_ahead n < 2 ^ 63
     \<and> (max_bytes = 0 \<or> buf_count b \<le> max_bytes)"

lemma until_pre_step:
  fixes c :: ak_tcp_ctx
  assumes pre: "until_pre c max_bytes b n"
    and bs: "length bs \<le> chunk_size max_bytes (buf_count b) (max_recv_buffer_bytes c) (buffered_bytes c)"
    and go: "\<not> (0 < max_bytes \<and> max_bytes \<le> buf_count b)" "\<not> is_full c"
    and b2: "buf_ok b2" "buf_bytes b2 = buf_bytes b @ bs"
    and n2: "length bs + bytes_ahead n2 \<le> bytes_ahead n"
  shows "until_pre (counted c (length bs)) max_bytes b2 n2"
    and "sz_add (buffered_bytes c) (length bs) = buffered_bytes c + length bs"
proof -
  have "buf_ok b" "within_limit c" and big: "buf_count b + bytes_ahead n < 2 ^ 62"
      "buffered_bytes c + bytes_ahead n < 2 ^ 63"
    using pre by (auto simp: until_pre_def)
  note ks = chunk_size_bounds [of max_bytes "buf_count b" "max_recv_buffer_bytes c" "buffered_bytes c"]
  have cnt: "buf_count b2 = buf_count b + length bs"
    using b2 \<open>buf_ok b\<close> by (metis length_append length_buf_bytes)
  show add: "sz_add (buffered_bytes c) (length bs) = buffered_bytes c + length bs"
    using n2 big(2) by (simp add: sz_add_exact)
  have "max_bytes = 0 \<or> buf_count b2 \<le> max_bytes"
    using ks(3) go bs big(1) cnt by (cases "max_bytes = 0") (auto simp: is_full_def)
  moreover have "max_recv_buffer_bytes c = 0 \<or> buffered_bytes c + length bs \<le> max_recv_buffer_bytes c"
    using ks(4) go bs big(1)
    by (cases "max_recv_buffer_bytes c = 0"; cases "max_bytes = 0") (auto simp: is_full_def)
  ultimately show "until_pre (counted c (length bs)) max_bytes b2 n2"
    using pre b2(1) n2 cnt add by (auto simp: until_pre_def within_limit_def)
qed

lemma until_loop_spec:
  assumes "until_loop (Some c) d max_bytes b error n s = Some (r, ctx', error', n', s')"
    and "until_pre c max_bytes b n" and "d \<noteq> []"
  shows "\<exists>c' es. ctx' = Some c' \<and> trace n' = trace n @ es
     \<and> until_post c d max_bytes (buf_bytes b) r c' es"
  using assms(1,2)
proof (induction "length (polls n)" arbitrary: c b error n s rule: less_induct)
  case less
  have ok: "buf_ok b" "within_limit c" "socket_fd c \<noteq> AK_INVALID_SOCKET"
    "max_bytes = 0 \<or> buf_count b \<le> max_bytes" "buf_count b + bytes_ahead n < 2 ^ 62"
    using less.prems(2) by (auto simp: until_pre_def)
  obtain go ctx1 n1 where ia: "ak_tcp_is_alive (Some c) n = Some (go, ctx1, n1)"
    using less.prems(1) by (subst (asm) until_loop.simps) (auto simp: bind_eq_Some_conv)
  note run = less.prems(1)
  from ia show ?case
  proof (cases rule: is_alive_cases)
    case down
    then show ?thesis
      using run until_loop_stops ia until_post_endI [OF ok(1,2,4), of "[]" c d] ok by auto
  next
    case closed
    then show ?thesis
      using run until_loop_stops ia until_post_endI [OF ok(1,2,4), of "[]" "c\<lparr>alive := False\<rparr>" d]
        peer_closed_effect(1) ok by auto
  next
    case open_up
    note ia' = ia [unfolded open_up(2)] and eff = peer_closed_effect [OF open_up(5,4)]
    from ok(1) assms(3) show ?thesis
    proof (cases rule: search_spec)
      case (hit j)
      then show ?thesis
        using until_loop_hit ia' open_up(1) run until_post_hitI [OF ok(1,2,4) hit(2)] eff(1) by auto
    next
      case none
      note on = until_loop_on [OF _ open_up(3) none(1), of n n1 max_bytes error s]
      show ?thesis
      proof (cases "0 < max_bytes \<and> max_bytes \<le> buf_count b \<or> is_full c")
        case True
        then show ?thesis
          using on ia' open_up(1) run eff(1) until_post_NoneI(2) [OF ok(2), of max_bytes "buf_bytes b" d]
            ok length_buf_bytes by (auto split: if_splits)
      next
        case False
        have "bytes_ahead n1 = bytes_ahead n"
          using eff(2) by (simp add: bytes_ahead_def)
        with until_loop_goes_on [OF _ ok(1,2), of max_bytes error n1 s d r ctx' error' n' s'] run on ia' False
          ok(5) open_up(1)
        consider c' es where "ctx' = Some c'" "trace n' = trace n1 @ es"
            "until_post c d max_bytes (buf_bytes b) r c' es"
          | bs b2 s2 n2 where
            "until_loop (Some (counted c (length bs))) d max_bytes b2 error n2 s2
              = Some (r, ctx', error', n', s')"
            "length bs \<le> chunk_size max_bytes (buf_count b) (max_recv_buffer_bytes c) (buffered_bytes c)"
            "trace n2 = trace n1 @ [Received (socket_fd c) bs]" "buf_ok b2"
            "buf_bytes b2 = buf_bytes b @ bs" "polls n2 = polls n1"
            "length bs + bytes_ahead n2 \<le> bytes_ahead n"
          by auto
        then show ?thesis
        proof cases
          case 1
          then show ?thesis using eff(1) by auto
        next
          case 2
          note nxt = until_pre_step [OF less.prems(2) 2(2) _ _ 2(4,5,7)]
          obtain c' es where "ctx' = Some c'" "trace n' = trace n2 @ es"
              "until_post (counted c (length bs)) d max_bytes (buf_bytes b2) r c' es"
            using less.hyps [OF _ 2(1) nxt(1)] False eff(4) 2(6) by auto
          then show ?thesis
            using until_post_step [of c bs d max_bytes "buf_bytes b"] 2(3,5) nxt(2) False eff(1) by auto
        qed
      qed
    qed
  qed
qed

text \<open>
  With a maximum and a network that answers every call, the loop returns: each round that
  goes on receives at least one byte.
\<close>

lemma socket_recv_total:
  assumes "incoming n \<noteq> []"
  obtains (failed) error' n' where "ak_tcp_socket_recv fd k error n = Some (-1, [], error', n')"
    | (got) bs n' where "ak_tcp_socket_recv fd k error n = Some (int (length bs), bs, error, n')"
      "length bs \<le> k" "polls n' = polls n" "answers n' = answers n"
      "length bs + bytes_ahead n' \<le> bytes_ahead n" "length (incoming n) = Suc (length (incoming n'))"
proof (cases "incoming n")
  case (Cons a rs)
  then show ?thesis
  proof (cases a)
    case (Inl e)
    then show ?thesis using socket_recv_fails Cons failed by blast
  next
    case (Inr bs)
    with Cons have a: "incoming n = Inr bs # rs" by simp
    show ?thesis
      by (rule got [of "take k bs", OF socket_recv_answers [OF a]])
        (simp_all add: a bytes_ahead_def)
  qed
qed (use assms in simp)

lemma until_loop_returns:
  assumes "until_pre c max_bytes b n" and "d \<noteq> []" and "0 < max_bytes"
    and "max_bytes - buf_count b < length (polls n)"
    and "max_bytes - buf_count b < length (answers n Sys_peek)"
    and "max_bytes - buf_count b \<le> length (incoming n)"
  shows "\<exists>res. until_loop (Some c) d max_bytes b error n s = Some res"
  using assms(1,4-)
proof (induction "max_bytes - buf_count b" arbitrary: c b error n s rule: less_induct)
  case less
  have ok: "buf_ok b" "socket_fd c \<noteq> AK_INVALID_SOCKET" "buf_count b + bytes_ahead n < 2 ^ 62"
    "within_limit c"
    using less.prems(1) by (auto simp: until_pre_def)
  have "polls n \<noteq> []" "answers n Sys_peek \<noteq> []"
    using less.prems by auto
  from peer_closed_answers [OF this] obtain closed n1 where
    pc: "ak_tcp_socket_peer_closed (socket_fd c) n = Some (closed, n1)" by blast
  note eff = peer_closed_effect [OF pc ok(2)]
  show ?case
  proof (cases "alive c \<and> \<not> closed")
    case False
    then have "\<exists>ctx n2. ak_tcp_is_alive (Some c) n = Some (False, ctx, n2)"
      using pc by (auto simp: ak_tcp_is_alive_def)
    then show ?thesis using until_loop_stops by blast
  next
    case True
    then have ia: "ak_tcp_is_alive (Some c) n = Some (True, Some c, n1)"
      using pc ok(2) by (simp add: ak_tcp_is_alive_def)
    from ok(1) assms(2) show ?thesis
    proof (cases rule: search_spec)
      case (hit j)
      then show ?thesis using until_loop_hit [OF ia] by blast
    next
      case none
      let ?k = "chunk_size max_bytes (buf_count b) (max_recv_buffer_bytes c) (buffered_bytes c)"
      note on = until_loop_on [OF ia _ none(1), of max_bytes error s]
      show ?thesis
      proof (cases "max_bytes \<le> buf_count b \<or> is_full c")
        case True
        then show ?thesis using on \<open>alive c \<and> \<not> closed\<close> assms(3) by auto
      next
        case False
        then have "incoming n1 \<noteq> []"
          using less.prems eff(2) by auto
        then show ?thesis
        proof (cases rule: socket_recv_total [where fd = "socket_fd c" and k = ?k and error = error])
          case failed
          then show ?thesis using on True False by auto
        next
          case (got bs n2)
          have "?k \<le> 1024"
            using chunk_size_bounds(2) [of max_bytes "buf_count b" "max_recv_buffer_bytes c"] False ok(3)
            by (auto simp: is_full_def)
          then have "buf_count b + length bs \<le> 2 ^ 63"
            using got(2) ok(3) by simp
          from copy_to_correct [OF ok(1) order.refl this, of s]
          obtain rc b2 s2 where cp: "ak_buffer_copy_to (Some b) (Some bs) (length bs) s = Some (rc, Some b2, s2)"
            "buf_ok b2" "rc = 0 \<and> buf_bytes b2 = buf_bytes b @ bs \<or> rc = -1 \<and> b2 = b"
            by auto
          have ahead: "length bs + bytes_ahead n2 \<le> bytes_ahead n"
            using got(5) eff(2) by (simp add: bytes_ahead_def)
          have "\<exists>res. until_loop (Some (counted c (length bs))) d max_bytes b2 error n2 s2 = Some res"
            if "rc = 0" "bs \<noteq> []"
          proof -
            have b2: "buf_bytes b2 = buf_bytes b @ bs" "buf_count b2 = buf_count b + length bs"
              using cp that(1) ok(1) by (auto, metis length_append length_buf_bytes)
            have lt: "max_bytes - buf_count b2 < max_bytes - buf_count b"
              using that(2) False b2(2) by (cases bs) auto
            have "until_pre (counted c (length bs)) max_bytes b2 n2"
              using until_pre_step(1) [OF less.prems(1) got(2) _ _ cp(2) b2(1) ahead] False by blast
            from less.hyps [OF lt this, of error s2] show ?thesis
              using lt less.prems(2-) eff(2,4,5) got(3,4,6) by simp
          qed
          then show ?thesis using on True False got(1) cp by auto
        qed
      qed
    qed
  qed
qed

section \<open>The descriptor of a connection\<close>

text \<open>
  The operations of a connection as steps on its context and the network. Callbacks and
  buffers of the caller are arbitrary.
\<close>

inductive conn_step :: "ak_tcp_ctx \<times> net \<Rightarrow> ak_tcp_ctx \<times> net \<Rightarrow> bool" where
  step_send: "ak_tcp_send (Some c) data error n = Some (rc, Some c', error', n')
    \<Longrightarrow> conn_step (c, n) (c', n')"
| step_recv: "ak_tcp_recv (Some c) buffer max_bytes error n s = Some (rc, Some c', buffer', error', n', s')
    \<Longrightarrow> conn_step (c, n) (c', n')"
| step_until: "ak_tcp_recv_until (Some c) delim max_bytes error n s = Some (r, Some c', error', n', s')
    \<Longrightarrow> conn_step (c, n) (c', n')"
| step_alive: "ak_tcp_is_alive (Some c) n = Some (up, Some c', n') \<Longrightarrow> conn_step (c, n) (c', n')"
| step_close: "ak_tcp_close (Some c) n = (Some c', n') \<Longrightarrow> conn_step (c, n) (c', n')"
| step_shutdown: "ak_tcp_shutdown (Some c) n = (Some c', n') \<Longrightarrow> conn_step (c, n) (c', n')"
| step_timeout: "ak_tcp_set_timeout (Some c) recv_ms send_ms n = Some (err, Some c', n')
    \<Longrightarrow> conn_step (c, n) (c', n')"
| step_keepalive: "ak_tcp_set_keepalive (Some c) idle interval probes n = Some (err, n')
    \<Longrightarrow> conn_step (c, n) (c, n')"
| step_detach: "ak_tcp_ctx_detach (Some c) = Some c' \<Longrightarrow> conn_step (c, n) (c', n)"
| step_consume: "ak_tcp_consume_bytes (Some c) bytes = Some c' \<Longrightarrow> conn_step (c, n) (c', n)"

definition closes :: "int \<Rightarrow> net_event list \<Rightarrow> nat" where
  "closes fd es = length (filter (\<lambda>e. e = Closed fd) es)"

lemma closes_simps [simp]:
  "closes fd [] = 0" "closes fd (es @ es') = closes fd es + closes fd es'"
  "closes fd (e # es) = (if e = Closed fd then 1 else 0) + closes fd es"
  by (simp_all add: closes_def)

text \<open>The events of a trace that make or close a descriptor.\<close>

definition is_descriptor_event :: "net_event \<Rightarrow> bool" where
  "is_descriptor_event e \<longleftrightarrow> (case e of Socket_made _ _ \<Rightarrow> True | Closed _ \<Rightarrow> True | _ \<Rightarrow> False)"

definition descriptor_events :: "net_event list \<Rightarrow> net_event list" where
  "descriptor_events es = filter is_descriptor_event es"

lemma descriptor_events_simps [simp]:
  "descriptor_events [] = []"
  "descriptor_events (es @ es') = descriptor_events es @ descriptor_events es'"
  "descriptor_events (e # es) = (if is_descriptor_event e then [e] else []) @ descriptor_events es"
  by (simp_all add: descriptor_events_def)

lemma is_descriptor_event_simps [simp]:
  "is_descriptor_event (Socket_made f g)" "is_descriptor_event (Closed g)"
  "\<not> is_descriptor_event (Opt_set g opt)" "\<not> is_descriptor_event (Sent g bs)"
  "\<not> is_descriptor_event (Received g bs)" "\<not> is_descriptor_event (Shut_rdwr g)"
  "\<not> is_descriptor_event (Shut_wr g)" "\<not> is_descriptor_event (Flags_set g k)"
  "\<not> is_descriptor_event (Connect_tried g)" "\<not> is_descriptor_event Addrinfo_freed"
  by (simp_all add: is_descriptor_event_def)

lemma closes_descriptor_events: "closes fd (descriptor_events es) = closes fd es"
  by (auto simp: closes_def descriptor_events_def intro!: arg_cong [where f = length] filter_cong)

lemma descriptor_events_only:
  "only_sends g es \<Longrightarrow> descriptor_events es = []" "only_receives g es \<Longrightarrow> descriptor_events es = []"
  by (auto simp: descriptor_events_def only_sends_def only_receives_def filter_empty_conv)

text \<open>Every operation but closing keeps the descriptor and the address, makes no descriptor and closes none.\<close>

definition keeps_fd :: "ak_tcp_ctx \<Rightarrow> net \<Rightarrow> ak_tcp_ctx \<Rightarrow> net \<Rightarrow> bool" where
  "keeps_fd c n c' n' \<longleftrightarrow> socket_fd c' = socket_fd c \<and> remote_ip c' = remote_ip c
     \<and> descriptor_events (trace n') = descriptor_events (trace n)"

lemma keeps_fd_refl [simp]: "keeps_fd c n c n"
  by (simp add: keeps_fd_def)

lemma keeps_fd_trans: "keeps_fd c n c1 n1 \<Longrightarrow> keeps_fd c1 n1 c2 n2 \<Longrightarrow> keeps_fd c n c2 n2"
  by (simp add: keeps_fd_def)

lemma send_keeps_fd:
  assumes "ak_tcp_send (Some c) data error n = Some (rc, Some c', error', n')"
  shows "keeps_fd c n c' n'"
proof (cases "data = None \<or> \<not> alive c")
  case True
  then show ?thesis using assms by (cases data) (auto simp: ak_tcp_send_def)
next
  case False
  then obtain b where b: "data = Some b" by auto
  then have run: "send_loop c (socket_fd c) (buf_data b) 0 (buf_count b) error n = Some (rc, c', error', n')"
    using assms False by (auto simp: ak_tcp_send_def bind_eq_Some_conv)
  have "buf_count b \<le> length (buf_data b)"
    using run by (subst (asm) send_loop.simps) (auto split: if_splits)
  from send_loop_spec [OF run _ this] show ?thesis
    by (auto simp: keeps_fd_def descriptor_events_only)
qed

lemma socket_recv_keeps:
  assumes "ak_tcp_socket_recv g k error n = Some (r, bs, error', n')"
  shows "descriptor_events (trace n') = descriptor_events (trace n)" and "polls n' = polls n"
  using assms
  by (auto simp: ak_tcp_socket_recv_def sys_recv_def split: list.splits sum.splits)

lemma recv_keeps_fd:
  "ak_tcp_recv (Some c) buffer max_bytes error n s = Some (rc, Some c', buffer', error', n', s')
   \<Longrightarrow> keeps_fd c n c' n'"
  by (auto simp: ak_tcp_recv_def Let_def keeps_fd_def bind_eq_Some_conv
      split: option.splits if_splits dest: socket_recv_keeps(1))

lemma is_alive_keeps_fd:
  assumes "ak_tcp_is_alive (Some c) n = Some (go, ctx, n')"
  obtains c' where "ctx = Some c'" "keeps_fd c n c' n'" "length (polls n') \<le> length (polls n)"
    "go \<Longrightarrow> c' = c" "go \<Longrightarrow> length (polls n') < length (polls n)"
  using assms
proof (cases rule: is_alive_cases)
  case open_up
  then show ?thesis
    using that [of c] peer_closed_effect(1,4) [OF open_up(5,4)] by (simp add: keeps_fd_def)
next
  case closed
  then show ?thesis
    using that [of "c\<lparr>alive := False\<rparr>"] peer_closed_effect(1,4) [OF closed(4,3)]
    by (simp add: keeps_fd_def)
qed (use that in auto)

lemma until_loop_keeps_fd:
  assumes "until_loop (Some c) d max_bytes b error n s = Some (r, ctx', error', n', s')"
  shows "\<exists>c'. ctx' = Some c' \<and> keeps_fd c n c' n'"
  using assms
proof (induction "length (polls n)" arbitrary: c b error n s rule: less_induct)
  case less
  obtain go ctx1 n1 where ia: "ak_tcp_is_alive (Some c) n = Some (go, ctx1, n1)"
    using less.prems by (subst (asm) until_loop.simps) (auto simp: bind_eq_Some_conv)
  from is_alive_keeps_fd [OF ia] obtain c1 where c1: "ctx1 = Some c1" "keeps_fd c n c1 n1"
    "go \<Longrightarrow> c1 = c" "go \<Longrightarrow> length (polls n1) < length (polls n)" by metis
  have "\<exists>c'. ctx' = Some c' \<and> keeps_fd c1 n1 c' n'"
  proof (cases go)
    case False
    then show ?thesis using less.prems until_loop_stops ia c1(1) by auto
  next
    case True
    have step: "\<exists>c'. ctx' = Some c' \<and> keeps_fd c1 n1 c' n'"
      if "ak_tcp_socket_recv (socket_fd c) k error n1 = Some (rec, temp, error2, n2)"
        "until_loop (Some (c\<lparr>buffered_bytes := m\<rparr>)) d max_bytes b2 error2 n2 s2
          = Some (r, ctx', error', n', s')" for k rec temp error2 n2 m b2 s2
    proof -
      note kp = socket_recv_keeps [OF that(1)]
      from less.hyps [OF _ that(2)] c1(4) True kp(2) obtain c' where
        "ctx' = Some c'" "keeps_fd (c\<lparr>buffered_bytes := m\<rparr>) n2 c' n'" by auto
      then show ?thesis
        using kp(1) c1(3) True by (simp add: keeps_fd_def)
    qed
    show ?thesis
      using less.prems True ia c1(1,3)
      by (subst (asm) until_loop.simps)
        (auto simp: Let_def bind_eq_Some_conv keeps_fd_def split: option.splits if_splits
          dest: socket_recv_keeps(1) intro: step [unfolded keeps_fd_def])
  qed
  then show ?case
    using c1(2) keeps_fd_trans by blast
qed

lemma set_opt_keeps:
  "set_opt g opt error n = Some (rc, error', n') \<Longrightarrow> descriptor_events (trace n') = descriptor_events (trace n)"
  by (auto simp: set_opt_def setsockopt_def sys_def bind_eq_Some_conv
      split: list.splits if_splits prod.splits)

lemma set_opt_then_keeps:
  assumes "do { (rc, error, n) \<leftarrow> set_opt g opt error n;
      if rc < 0 then Some (-1, error, n) else f error n } = Some (rc', error', n')"
    and "\<And>error n. f error n = Some (rc', error', n') \<Longrightarrow> descriptor_events (trace n') = descriptor_events (trace n)"
  shows "descriptor_events (trace n') = descriptor_events (trace n)"
proof -
  obtain rc1 e1 n1 where opt: "set_opt g opt error n = Some (rc1, e1, n1)"
    using assms(1) by (auto simp: bind_eq_Some_conv)
  have "n' = n1 \<or> f e1 n1 = Some (rc', error', n')"
    using assms(1) opt by (auto split: if_splits)
  then show ?thesis
    using assms(2) set_opt_keeps [OF opt] by metis
qed

lemma socket_timeout_keeps:
  "ak_tcp_socket_set_timeout g recv_ms send_ms error n = Some (rc, error', n')
   \<Longrightarrow> descriptor_events (trace n') = descriptor_events (trace n)"
  unfolding ak_tcp_socket_set_timeout_def by (elim set_opt_then_keeps) simp

lemma socket_keepalive_keeps:
  assumes "ak_tcp_socket_set_keepalive g idle interval probes error n = Some (rc, error', n')"
  shows "descriptor_events (trace n') = descriptor_events (trace n)"
  using assms unfolding ak_tcp_socket_set_keepalive_def
proof (rule set_opt_then_keeps, goal_cases)
  case (1 error n)
  then show ?case
    by (cases "idle \<le> 0") (auto elim!: set_opt_then_keeps)
qed

lemma timeout_keeps_fd:
  "ak_tcp_set_timeout (Some c) recv_ms send_ms n = Some (err, Some c', n') \<Longrightarrow> keeps_fd c n c' n'"
  by (auto simp: ak_tcp_set_timeout_def keeps_fd_def bind_eq_Some_conv split: if_splits
      dest: socket_timeout_keeps)

lemma keepalive_keeps_fd:
  "ak_tcp_set_keepalive (Some c) idle interval probes n = Some (err, n') \<Longrightarrow> keeps_fd c n c n'"
  by (auto simp: ak_tcp_set_keepalive_def keeps_fd_def bind_eq_Some_conv split: if_splits
      dest: socket_keepalive_keeps)

text \<open>
  Along every run the descriptor is either still the one of the connection and has not been
  closed, or it has been closed once and is gone from the context.
\<close>

definition fd_inv :: "int \<Rightarrow> ak_tcp_ctx \<times> net \<Rightarrow> bool" where
  "fd_inv fd st \<longleftrightarrow> socket_fd (fst st) = fd \<and> closes fd (trace (snd st)) = 0
     \<or> socket_fd (fst st) = AK_INVALID_SOCKET \<and> closes fd (trace (snd st)) = 1"

lemma fd_inv_keeps: "fd_inv fd (c, n) \<Longrightarrow> keeps_fd c n c' n' \<Longrightarrow> fd_inv fd (c', n')"
  using closes_descriptor_events [of fd "trace n"] closes_descriptor_events [of fd "trace n'"]
  by (auto simp: fd_inv_def keeps_fd_def)

lemma until_keeps_fd:
  "ak_tcp_recv_until (Some c) delim max_bytes error n s = Some (r, Some c', error', n', s')
   \<Longrightarrow> keeps_fd c n c' n'"
  by (auto simp: ak_tcp_recv_until_def split: option.splits if_splits prod.splits
      dest: until_loop_keeps_fd)

text \<open>So a step keeps the descriptor, or it is a close.\<close>

lemma conn_step_cases:
  assumes "conn_step (c, n) (c', n')"
  obtains "keeps_fd c n c' n'" | "ak_tcp_close (Some c) n = (Some c', n')"
  using assms
proof (cases rule: conn_step.cases)
  case step_send
  then show ?thesis by (rule that(1) [OF send_keeps_fd])
next
  case step_recv
  then show ?thesis by (rule that(1) [OF recv_keeps_fd])
next
  case step_until
  then show ?thesis by (rule that(1) [OF until_keeps_fd])
next
  case step_timeout
  then show ?thesis by (rule that(1) [OF timeout_keeps_fd])
next
  case step_keepalive
  then show ?thesis using that(1) keepalive_keeps_fd by simp
next
  case step_alive
  then show ?thesis using that(1) is_alive_keeps_fd by (metis option.inject)
next
  case step_shutdown
  then show ?thesis
    using that(1) by (auto simp: ak_tcp_shutdown_def ak_tcp_socket_shutdown_def keeps_fd_def split: if_splits)
next
  case step_detach
  then show ?thesis using that(1) by (auto simp: ak_tcp_ctx_detach_def keeps_fd_def)
next
  case step_consume
  then show ?thesis using that(1) by (auto simp: ak_tcp_consume_bytes_def keeps_fd_def)
qed (rule that(2))

lemma conn_step_remote_ip: "conn_step (c, n) (c', n') \<Longrightarrow> remote_ip c' = remote_ip c"
  by (erule conn_step_cases) (auto simp: keeps_fd_def ak_tcp_close_def split: if_splits)

lemma conn_step_inv:
  assumes "conn_step st st'" and "fd_inv fd st" and "fd \<noteq> AK_INVALID_SOCKET"
  shows "fd_inv fd st'"
proof -
  obtain c n c' n' where st: "st = (c, n)" "st' = (c', n')" by (metis surj_pair)
  from assms(1) [unfolded st] show ?thesis
  proof (cases rule: conn_step_cases)
    case 1
    then show ?thesis using assms(2) st fd_inv_keeps by blast
  next
    case 2
    then show ?thesis
      using assms(2,3) st
      by (auto simp: ak_tcp_close_def ak_tcp_socket_close_def fd_inv_def split: if_splits)
  qed
qed

section \<open>Properties\<close>

text \<open>
  C23: sending on an open connection hands the network the bytes of the buffer in order and
  nothing else. When the network answers every call, the send returns after at most one
  call for each byte: with the number of bytes when all of them were handed over, and with
  -1 and a message when only a proper prefix was; the connection is then unchanged or, when
  the network took nothing, marked as closed.
\<close>

theorem tcp_send_spec:
  assumes "alive c" and "buf_ok b" and "buf_count b < 2 ^ 63"
    and "buf_count b \<le> length (answers n Sys_send)"
  shows "\<exists>rc c' error' n' es k.
     ak_tcp_send (Some c) (Some b) error n = Some (rc, Some c', error', n')
     \<and> trace n' = trace n @ es \<and> only_sends (socket_fd c) es
     \<and> sent_on (socket_fd c) es = take k (buf_bytes b)
     \<and> (rc = int (buf_count b) \<and> k = buf_count b \<and> c' = c \<and> error' = error
        \<or> rc = -1 \<and> k < buf_count b \<and> (c' = c \<or> c' = c\<lparr>alive := False\<rparr>)
          \<and> (\<exists>msg. error' = set_error error msg))"
proof -
  have cap: "buf_count b \<le> length (buf_data b)"
    using assms(2) by (simp add: buf_ok_def)
  obtain rc c' error' n' where run: "send_loop c (socket_fd c) (buf_data b) 0 (buf_count b) error n
      = Some (rc, c', error', n')"
    using send_loop_returns [of "buf_count b" 0 n "buf_data b" c "socket_fd c" error] assms(4) cap
    by auto
  from send_loop_spec [OF run _ cap] obtain es j where
    es: "trace n' = trace n @ es" "only_sends (socket_fd c) es" "j \<le> buf_count b"
      "sent_on (socket_fd c) es = take j (buf_data b)"
      "rc = to_ssize (buf_count b) \<and> j = buf_count b \<and> c' = c \<and> error' = error
       \<or> rc = -1 \<and> j < buf_count b \<and> (c' = c \<or> c' = c\<lparr>alive := False\<rparr>)
         \<and> (\<exists>msg. error' = set_error error msg)"
    by auto
  have "ak_tcp_send (Some c) (Some b) error n = Some (rc, Some c', error', n')"
    using run assms(1) by (simp add: ak_tcp_send_def)
  moreover have "take j (buf_data b) = take j (buf_bytes b)"
    using es(3) by (simp add: buf_bytes_def)
  moreover have "to_ssize (buf_count b) = int (buf_count b)"
    using assms(3) by (simp add: to_ssize_def)
  ultimately show ?thesis
    using es by auto
qed

text \<open>A network and a connection for the examples.\<close>

definition quiet_net :: net where
  "quiet_net = \<lparr>answers = \<lambda>_. [], incoming = [], polls = [], accepts_to_come = [], timeouts = [],
     trace = [], errno = 0, strerror = \<lambda>_. lit ''error'', gai_strerror = \<lambda>_. lit ''error'',
     inet_ntop = \<lambda>_ a. a\<rparr>"

definition demo_buffer :: "u8 list \<Rightarrow> ak_buffer" where
  "demo_buffer bs = \<lparr>buf_data = bs @ replicate 16 0, buf_capacity = length bs + 16,
     buf_count = length bs, buf_origin_offset = 0\<rparr>"

definition demo_conn :: ak_tcp_ctx where
  "demo_conn = \<lparr>socket_fd = 5, remote_ip = lit ''10.0.0.1'', remote_port = 80,
     read_buffer = demo_buffer [], write_buffer = demo_buffer [], alive = True, metadata = 0,
     recv_timeout_ms = 0, send_timeout_ms = 0, buffered_bytes = 0, max_recv_buffer_bytes = 6,
     detached = False\<rparr>"

lemma demo_buffer_ok: "length bs < 100 \<Longrightarrow> buf_ok (demo_buffer bs)" "buf_bytes (demo_buffer bs) = bs"
  by (simp_all add: buf_ok_def demo_buffer_def buf_bytes_def)

theorem tcp_send_spec_witness:
  "\<exists>rc c' error' n' es k.
     ak_tcp_send (Some demo_conn) (Some (demo_buffer [1, 2, 3])) None
       (quiet_net\<lparr>answers := \<lambda>_. [(2, 0), (1, 0), (1, 0)]\<rparr>) = Some (rc, Some c', error', n')
     \<and> trace n' = es \<and> only_sends 5 es \<and> sent_on 5 es = take k [1, 2, 3]
     \<and> (rc = 3 \<and> k = 3 \<or> rc = -1 \<and> k < 3)"
proof -
  let ?n = "quiet_net\<lparr>answers := \<lambda>_. [(2, 0), (1, 0), (1, 0)]\<rparr>"
  have "buf_ok (demo_buffer [1, 2, 3])" "buf_count (demo_buffer [1, 2, 3]) = 3"
    by (simp_all add: demo_buffer_def buf_ok_def)
  with tcp_send_spec [of demo_conn "demo_buffer [1, 2, 3]" ?n None] show ?thesis
    by (fastforce simp: demo_conn_def quiet_net_def demo_buffer_ok)
qed

text \<open>
  C24: one receive on an open connection, on all its branches. When the connection has
  reached its limit the call returns -2 and receives nothing. Otherwise an error of the
  network gives -1 and its message; and of the bytes the network offers, at most
  \<open>max_bytes\<close>, 1024 and what is left of the limit are received: none means that the
  connection is closed, and otherwise they are appended to the buffer and counted, unless
  the buffer cannot grow, when the call returns -1 and they are lost. The count of the
  connection stays within its limit.
\<close>

theorem tcp_recv_spec:
  assumes "alive c" and "within_limit c" and "buffered_bytes c + 1024 < SIZE_RANGE"
    and "buf_ok b" and "buf_count b + 1024 \<le> 2 ^ 63" and "incoming n = a # rs"
  shows "\<exists>rc c' b' error' n' s'.
     ak_tcp_recv (Some c) (Some b) max_bytes error n s = Some (rc, Some c', Some b', error', n', s')
     \<and> within_limit c' \<and> buf_ok b'
     \<and> (if is_full c then rc = -2 \<and> c' = c \<and> b' = b \<and> n' = n
        else case a of
          Inl e \<Rightarrow> rc = -1 \<and> c' = c \<and> b' = b \<and> error' = set_error error (strerror n e)
            \<and> trace n' = trace n
        | Inr bs \<Rightarrow>
            (let d = take (allowance c max_bytes) bs in
             trace n' = trace n @ [Received (socket_fd c) d]
             \<and> (if d = [] then rc = 0 \<and> c' = c\<lparr>alive := False\<rparr> \<and> b' = b
                else rc = int (length d) \<and> buf_bytes b' = buf_bytes b @ d
                       \<and> c' = c\<lparr>buffered_bytes := buffered_bytes c + length d\<rparr>
                     \<or> rc = -1 \<and> c' = c \<and> b' = b)))"
proof (cases "is_full c")
  case True
  then show ?thesis using assms tcp_recv_full by simp
next
  case False
  show ?thesis
  proof (cases a)
    case (Inl e)
    then have i: "incoming n = Inl e # rs" using assms(6) by simp
    then show ?thesis
      using Inl False assms
      by (simp add: tcp_recv_unfold [OF assms(1) False] socket_recv_fails [OF i])
  next
    case (Inr bs)
    then have i: "incoming n = Inr bs # rs" using assms(6) by simp
    let ?d = "take (allowance c max_bytes) bs"
    note del = tcp_recv_delivers [OF assms(1) False i assms(4,5), of max_bytes error s]
    have cnt: "counted c (length ?d) = c\<lparr>buffered_bytes := buffered_bytes c + length ?d\<rparr>"
      "within_limit (counted c (length ?d))"
      using allowance_limit [OF assms(2) _ assms(3), of "length ?d" max_bytes]
      by (simp_all add: counted_def)
    show ?thesis
    proof (cases "?d = []")
      case True
      then show ?thesis using del(1) False Inr assms(2,4) by simp
    next
      case nonempty: False
      from del(2) [OF this] show ?thesis
        using False Inr assms(2,4) nonempty cnt by (auto simp: Let_def)
    qed
  qed
qed

theorem tcp_recv_spec_witness:
  "\<exists>rc c' b' error' n' s'.
     ak_tcp_recv (Some demo_conn) (Some (demo_buffer [1])) 10 None
       (quiet_net\<lparr>incoming := [Inr [2, 3, 4, 5, 6, 7, 8, 9]]\<rparr>) [] =
         Some (rc, Some c', Some b', error', n', s')
     \<and> within_limit c'
     \<and> (rc = 6 \<and> buf_bytes b' = [1, 2, 3, 4, 5, 6, 7] \<and> buffered_bytes c' = 6 \<or> rc = -1)"
proof -
  let ?n = "quiet_net\<lparr>incoming := [Inr [2, 3, 4, 5, 6, 7, 8, 9]]\<rparr>"
  have al: "allowance demo_conn 10 = 6" "\<not> is_full demo_conn" "within_limit demo_conn" "alive demo_conn"
      "buffered_bytes demo_conn = 0"
    by (simp_all add: allowance_def is_full_def within_limit_def demo_conn_def)
  have b: "buf_ok (demo_buffer [1])" "buf_count (demo_buffer [1]) = 1" "buf_bytes (demo_buffer [1]) = [1]"
    using demo_buffer_ok [of "[1]"] by (simp_all add: demo_buffer_def)
  have "take 6 [2, 3, 4, 5, 6, 7, 8, 9 :: u8] = [2, 3, 4, 5, 6, 7]"
    by simp
  with tcp_recv_spec [of demo_conn "demo_buffer [1]" ?n "Inr [2, 3, 4, 5, 6, 7, 8, 9]" "[]" 10 None "[]"]
    al b
  obtain rc c' b' error' n' s' where
    "ak_tcp_recv (Some demo_conn) (Some (demo_buffer [1])) 10 None ?n [] =
       Some (rc, Some c', Some b', error', n', s')"
    "within_limit c'"
    "rc = 6 \<and> buf_bytes b' = [1, 2, 3, 4, 5, 6, 7]
       \<and> buffered_bytes c' = 6 \<or> rc = -1"
    by (auto simp: Let_def)
  then show ?thesis by auto
qed



text \<open>
  C26: the descriptor of a connection is closed exactly once. Whatever operations ran on an
  open connection, in whatever order and with whatever answers of the network, freeing the
  context afterwards leaves exactly one \<open>close\<close> of the descriptor in the trace: none of the
  operations closes it twice, and none loses it.
\<close>

theorem tcp_descriptor_closed_once:
  assumes "conn_step\<^sup>*\<^sup>* (c, n) (c', n')" and "socket_fd c = fd" and "fd \<noteq> AK_INVALID_SOCKET"
    and "closes fd (trace n) = 0" and "ak_tcp_ctx_free (Some c') cs n' = Some (cs', n'')"
  shows "closes fd (trace n'') = 1"
proof -
  have "fd_inv fd (c', n')"
    using assms(1)
  proof (induction rule: rtranclp_induct)
    case base
    then show ?case using assms(2,4) by (simp add: fd_inv_def)
  next
    case (step st st')
    then show ?case using conn_step_inv assms(3) by blast
  qed
  then show ?thesis
    using assms(3,5)
    by (auto simp: fd_inv_def ak_tcp_ctx_free_def ak_tcp_socket_close_def bind_eq_Some_conv Let_def
        split: if_splits)
qed

theorem tcp_descriptor_closed_once_witness:
  "closes 5 (trace (snd (the (ak_tcp_ctx_free (fst (ak_tcp_close (Some demo_conn) quiet_net))
     [0 \<mapsto> new_context] (snd (ak_tcp_close (Some demo_conn) quiet_net)))))) = 1"
proof -
  obtain c1 n1 where close: "ak_tcp_close (Some demo_conn) quiet_net = (Some c1, n1)"
    by (simp add: ak_tcp_close_def demo_conn_def AK_INVALID_SOCKET_def)
  then have run: "conn_step\<^sup>*\<^sup>* (demo_conn, quiet_net) (c1, n1)"
    by (blast intro: step_close)
  have "metadata c1 = 0"
    using close by (auto simp: ak_tcp_close_def demo_conn_def split: if_splits)
  then obtain cs' n2 where free: "ak_tcp_ctx_free (Some c1) [0 \<mapsto> new_context] n1 = Some (cs', n2)"
    by (auto simp: ak_tcp_ctx_free_def ak_context_free_def new_context_def map_deinit_def
        map_init_generic_def list_deinit_def list_init_def Let_def)
  have "closes 5 (trace n2) = 1"
    by (rule tcp_descriptor_closed_once [OF run _ _ _ free])
      (simp_all add: demo_conn_def quiet_net_def AK_INVALID_SOCKET_def)
  then show ?thesis using close free by simp
qed

section \<open>Places where the code departs from its documentation\<close>

text \<open>
  A receive that times out fails with \<open>EAGAIN\<close>, whose text on Linux does not contain the
  words that \<open>ak_tcp_recv_ex\<close> looks for: the caller gets \<open>AK_TCP_ERR_NETWORK\<close>, not
  \<open>AK_TCP_ERR_TIMEOUT\<close>.
\<close>

theorem tcp_timeout_is_network_error:
  assumes "alive c" and "\<not> is_full c" and "socket_fd c \<noteq> AK_INVALID_SOCKET"
    and "incoming n = Inl EAGAIN # rs" and "polls n = (0, ev, e) # ps"
    and "strerror n EAGAIN = lit ''Resource temporarily unavailable''"
  shows "\<exists>n'. ak_tcp_recv_ex (Some c) (Some b) max_bytes None (Some None) n s =
     Some (AK_TCP_ERR_NETWORK, None, Some c, Some b,
       Some (Some (lit ''Resource temporarily unavailable'')), n', s)"
proof -
  let ?n1 = "n\<lparr>incoming := rs, errno := EAGAIN\<rparr>"
  have "ak_tcp_recv (Some c) (Some b) max_bytes (Some None) n s =
      Some (-1, Some c, Some b, Some (Some (lit ''Resource temporarily unavailable'')), ?n1, s)"
    by (simp add: tcp_recv_unfold [OF assms(1,2)] socket_recv_fails [OF assms(4)] assms(6) set_error_def)
  moreover have "\<exists>n'. ak_tcp_is_alive (Some c) ?n1 = Some (True, Some c, n')"
    using assms(1,3,5) by (simp add: ak_tcp_is_alive_def ak_tcp_socket_peer_closed_def sys_poll_def)
  moreover have "\<not> error_has (Some (Some (lit ''Resource temporarily unavailable''))) (lit ''timed out'')"
    by (simp add: error_has_def lit_def)
  ultimately show ?thesis
    by (auto simp: ak_tcp_recv_ex_def Let_def)
qed

text \<open>Asking for no bytes marks an open connection as closed.\<close>

theorem tcp_recv_zero_closes:
  assumes "alive c" and "\<not> is_full c" and "incoming n = Inr bs # rs"
  shows "\<exists>n'. ak_tcp_recv (Some c) (Some b) 0 error n s =
     Some (0, Some (c\<lparr>alive := False\<rparr>), Some b, error, n', s)"
  using socket_recv_answers [OF assms(3), of "socket_fd c" 0 error]
  by (simp add: tcp_recv_unfold [OF assms(1,2)] allowance_def)

text \<open>
  \<open>ak_tcp_shutdown\<close> shuts the sending side only and clears \<open>alive\<close>; a later \<open>ak_tcp_close\<close>
  then does nothing, and the descriptor stays open until the context is freed.
\<close>

theorem tcp_shutdown_keeps_descriptor:
  assumes "alive c" and "socket_fd c \<noteq> AK_INVALID_SOCKET"
    and "ak_tcp_shutdown (Some c) n = (ctx1, n1)" and "ak_tcp_close ctx1 n1 = (ctx2, n2)"
  shows "ctx2 = Some (c\<lparr>alive := False\<rparr>) \<and> trace n2 = trace n @ [Shut_wr (socket_fd c)]"
  using assms by (auto simp: ak_tcp_shutdown_def ak_tcp_close_def ak_tcp_socket_shutdown_def)

text \<open>
  \<open>ak_tcp_send_ex\<close> reports no bytes sent after a send that was cut short, whatever the
  network has already taken.
\<close>

theorem tcp_send_ex_partial:
  assumes "ak_tcp_send (Some c) (Some b) error n = Some (-1, Some c', error', n')"
    and "ak_tcp_send_ex (Some c) (Some b) (Some k) error n = Some (err, sent, ctx, error2, n2)"
  shows "sent = Some 0 \<and> err \<in> {AK_TCP_ERR_CLOSED, AK_TCP_ERR_NETWORK}"
  using assms by (auto simp: ak_tcp_send_ex_def Let_def bind_eq_Some_conv split: if_splits)

end
