(* ===== verification/TcpServer.thy ===== *)
theory TcpServer
  imports TcpConn Threads "HOL-Library.Multiset"
begin

text \<open>
  Model of the server of kernel/tcp/src/tcp.c (lines 760 to 1487), built without TLS: the
  configuration, the trackers of client addresses, and the accept loop, the handlers of
  connections and the owner of the server as threads that interleave. A step is one critical
  section on the server's memory, one call of the operating system, or one step of the
  caller's handler on its connection (any operation of the theory of connections).

  A connection that the accept loop hands to the thread pool is a member of \<open>sv_conns\<close>
  with the place its task has reached. Of the pool the model uses what the theory of thread
  pools proves: an accepted task runs once, and waiting for the pool ends only when no task
  is left.

  The lemmas show that the counter of active connections is exact and never above its
  limit, that the trackers count the connections of each address and keep the limits for an
  address as long as the allocator serves them, and that a server that has been stopped is
  quiet.
\<close>

section \<open>The configuration and the server\<close>

record ak_tcp_server_config =
  cfg_bind_addr :: "u8 list option"
  cfg_port :: "16 word"
  cfg_thread_pool_size :: nat
  cfg_backlog :: int
  cfg_on_connect :: "nat option"
  cfg_on_handle :: "nat option"
  cfg_on_disconnect :: "nat option"
  cfg_max_connections :: nat
  cfg_max_pending_tasks :: nat
  cfg_max_recv_buffer_bytes :: nat
  cfg_max_connections_per_ip :: nat
  cfg_connection_rate_limit :: nat
  cfg_default_recv_timeout_ms :: u32
  cfg_default_send_timeout_ms :: u32
  cfg_shutdown_drain_timeout_ms :: u32
  cfg_enable_linger :: bool
  cfg_linger_timeout_sec :: int
  cfg_enable_keepalive :: bool
  cfg_keepalive_idle_sec :: int
  cfg_keepalive_interval_sec :: int
  cfg_keepalive_count :: int
  cfg_recv_buffer_size :: nat
  cfg_send_buffer_size :: nat
  cfg_socket_recv_buffer :: nat
  cfg_socket_send_buffer :: nat

definition TCP_DEFAULT_KEEPALIVE_IDLE :: int where "TCP_DEFAULT_KEEPALIVE_IDLE = 60"
definition TCP_DEFAULT_KEEPALIVE_INTERVAL :: int where "TCP_DEFAULT_KEEPALIVE_INTERVAL = 10"
definition TCP_DEFAULT_KEEPALIVE_COUNT :: int where "TCP_DEFAULT_KEEPALIVE_COUNT = 5"

definition ak_tcp_server_config_default :: ak_tcp_server_config where
  "ak_tcp_server_config_default =
     \<lparr>cfg_bind_addr = None, cfg_port = 0, cfg_thread_pool_size = 4, cfg_backlog = 128,
      cfg_on_connect = None, cfg_on_handle = None, cfg_on_disconnect = None,
      cfg_max_connections = 0, cfg_max_pending_tasks = 0, cfg_max_recv_buffer_bytes = 0,
      cfg_max_connections_per_ip = 0, cfg_connection_rate_limit = 0,
      cfg_default_recv_timeout_ms = 0, cfg_default_send_timeout_ms = 0,
      cfg_shutdown_drain_timeout_ms = 0, cfg_enable_linger = False, cfg_linger_timeout_sec = 0,
      cfg_enable_keepalive = False, cfg_keepalive_idle_sec = TCP_DEFAULT_KEEPALIVE_IDLE,
      cfg_keepalive_interval_sec = TCP_DEFAULT_KEEPALIVE_INTERVAL,
      cfg_keepalive_count = TCP_DEFAULT_KEEPALIVE_COUNT,
      cfg_recv_buffer_size = TCP_READ_BUFFER_SIZE, cfg_send_buffer_size = TCP_WRITE_BUFFER_SIZE,
      cfg_socket_recv_buffer = 0, cfg_socket_send_buffer = 0\<rparr>"

record ak_tcp_ip_tracker =
  tracker_ip :: "u8 list"
  tracker_active :: nat
  last_connect_time :: int
  connects_this_second :: nat

text \<open>The linked list of trackers is the list of its cells, newest first.\<close>

record ak_tcp_server_internal =
  listen_fd :: int
  thread_pool :: ak_thread_pool
  running :: bool
  draining :: bool
  bind_addr :: "u8 list option"
  port :: "16 word"
  backlog :: int
  max_connections :: nat
  active_connections :: nat
  max_pending_tasks :: nat
  srv_max_recv_buffer_bytes :: nat
  max_connections_per_ip :: nat
  connection_rate_limit :: nat
  ip_trackers :: "ak_tcp_ip_tracker list"
  default_recv_timeout_ms :: u32
  default_send_timeout_ms :: u32
  shutdown_drain_timeout_ms :: u32
  enable_linger :: bool
  linger_timeout_sec :: int
  enable_keepalive :: bool
  keepalive_idle_sec :: int
  keepalive_interval_sec :: int
  keepalive_count :: int
  recv_buffer_size :: nat
  send_buffer_size :: nat
  socket_recv_buffer :: nat
  socket_send_buffer :: nat
  connections_accepted :: nat
  connections_rejected_limit :: nat
  connections_rejected_queue :: nat
  connections_rejected_rate :: nat
  connections_rejected_ip_limit :: nat
  total_bytes_received :: nat
  total_bytes_sent :: nat
  on_connect :: "nat option"
  on_handle :: "nat option"
  on_disconnect :: "nat option"

text \<open>
  \<open>ak_tcp_server_new\<close>. The schedule answers for the two records, the copy of the address and
  the parts of the pool; \<open>threads_ok\<close> says whether the pool could start its threads.
\<close>

definition server_config :: "ak_tcp_server_config \<Rightarrow> ak_thread_pool \<Rightarrow> ak_tcp_server_internal" where
  "server_config cfg pool =
     \<lparr>listen_fd = AK_INVALID_SOCKET, thread_pool = pool, running = False, draining = False,
      bind_addr = cfg_bind_addr cfg, port = cfg_port cfg,
      backlog = (if cfg_backlog cfg > 0 then cfg_backlog cfg else 128),
      max_connections = cfg_max_connections cfg, active_connections = 0,
      max_pending_tasks = cfg_max_pending_tasks cfg,
      srv_max_recv_buffer_bytes = cfg_max_recv_buffer_bytes cfg,
      max_connections_per_ip = cfg_max_connections_per_ip cfg,
      connection_rate_limit = cfg_connection_rate_limit cfg, ip_trackers = [],
      default_recv_timeout_ms = cfg_default_recv_timeout_ms cfg,
      default_send_timeout_ms = cfg_default_send_timeout_ms cfg,
      shutdown_drain_timeout_ms = cfg_shutdown_drain_timeout_ms cfg,
      enable_linger = cfg_enable_linger cfg, linger_timeout_sec = cfg_linger_timeout_sec cfg,
      enable_keepalive = cfg_enable_keepalive cfg,
      keepalive_idle_sec = (if cfg_keepalive_idle_sec cfg > 0 then cfg_keepalive_idle_sec cfg
                            else TCP_DEFAULT_KEEPALIVE_IDLE),
      keepalive_interval_sec = (if cfg_keepalive_interval_sec cfg > 0
                                then cfg_keepalive_interval_sec cfg
                                else TCP_DEFAULT_KEEPALIVE_INTERVAL),
      keepalive_count = (if cfg_keepalive_count cfg > 0 then cfg_keepalive_count cfg
                         else TCP_DEFAULT_KEEPALIVE_COUNT),
      recv_buffer_size = (if cfg_recv_buffer_size cfg > 0 then cfg_recv_buffer_size cfg
                          else TCP_READ_BUFFER_SIZE),
      send_buffer_size = (if cfg_send_buffer_size cfg > 0 then cfg_send_buffer_size cfg
                          else TCP_WRITE_BUFFER_SIZE),
      socket_recv_buffer = cfg_socket_recv_buffer cfg,
      socket_send_buffer = cfg_socket_send_buffer cfg,
      connections_accepted = 0, connections_rejected_limit = 0, connections_rejected_queue = 0,
      connections_rejected_rate = 0, connections_rejected_ip_limit = 0,
      total_bytes_received = 0, total_bytes_sent = 0,
      on_connect = cfg_on_connect cfg, on_handle = cfg_on_handle cfg,
      on_disconnect = cfg_on_disconnect cfg\<rparr>"

definition ak_tcp_server_new ::
  "ak_tcp_server_config option \<Rightarrow> err_cell \<Rightarrow> ptr_sched \<Rightarrow> bool
   \<Rightarrow> ak_tcp_server_internal option \<times> err_cell \<times> ptr_sched" where
  "ak_tcp_server_new config error s threads_ok =
     (case config of
        None \<Rightarrow> (None, set_error error (lit ''Configuration is required''), s)
      | Some cfg \<Rightarrow>
          if cfg_on_handle cfg = None
          then (None, set_error error (lit ''on_handle lambda is required''), s)
          else if cfg_port cfg = 0
          then (None, set_error error (lit ''Port must be non-zero''), s)
          else
            let no_memory = set_error error (lit ''Memory allocation failed'') in
            (case sys_alloc s of (None, s) \<Rightarrow> (None, no_memory, s) | (Some _, s) \<Rightarrow>
              (case sys_alloc s of (None, s) \<Rightarrow> (None, no_memory, s) | (Some _, s) \<Rightarrow>
                (case (if cfg_bind_addr cfg = None then (Some (\<lambda>_. 0), s) else sys_alloc s) of
                   (None, s) \<Rightarrow> (None, no_memory, s)
                 | (Some _, s) \<Rightarrow>
                     let pool_cfg = ak_thread_pool_config_default
                           \<lparr>cfg_max_workers := if cfg_thread_pool_size cfg > 0
                                                then cfg_thread_pool_size cfg else 4,
                            cfg_max_queue_size := cfg_max_pending_tasks cfg\<rparr> in
                     (case pool_init (Some pool_cfg) s of
                        (Some pool, s) \<Rightarrow>
                          if threads_ok then (Some (server_config cfg pool), error, s)
                          else (None, set_error error (lit ''Failed to create thread pool''), s)
                      | (None, s) \<Rightarrow>
                          (None, set_error error (lit ''Failed to create thread pool''), s))))))"

definition ak_tcp_server_connection_count :: "ak_tcp_server_internal option \<Rightarrow> nat" where
  "ak_tcp_server_connection_count server =
     (case server of None \<Rightarrow> 0 | Some srv \<Rightarrow> active_connections srv)"

record ak_tcp_server_stats =
  st_connections_accepted :: nat
  st_connections_rejected_limit :: nat
  st_connections_rejected_queue :: nat
  st_connections_rejected_rate :: nat
  st_connections_rejected_ip_limit :: nat
  st_active_connections :: nat
  st_total_bytes_received :: nat
  st_total_bytes_sent :: nat

definition ak_tcp_server_get_stats ::
  "ak_tcp_server_internal option \<Rightarrow> ak_tcp_server_stats option \<Rightarrow> int \<times> ak_tcp_server_stats option" where
  "ak_tcp_server_get_stats server stats =
     (case (server, stats) of
        (Some srv, Some _) \<Rightarrow>
          (0, Some \<lparr>st_connections_accepted = connections_accepted srv,
                    st_connections_rejected_limit = connections_rejected_limit srv,
                    st_connections_rejected_queue = connections_rejected_queue srv,
                    st_connections_rejected_rate = connections_rejected_rate srv,
                    st_connections_rejected_ip_limit = connections_rejected_ip_limit srv,
                    st_active_connections = active_connections srv,
                    st_total_bytes_received = total_bytes_received srv,
                    st_total_bytes_sent = total_bytes_sent srv\<rparr>)
      | _ \<Rightarrow> (-1, stats))"

definition ak_tcp_server_is_draining :: "ak_tcp_server_internal option \<Rightarrow> bool" where
  "ak_tcp_server_is_draining server = (case server of None \<Rightarrow> False | Some srv \<Rightarrow> draining srv)"

section \<open>The trackers of addresses\<close>

fun ip_tracker_find :: "ak_tcp_ip_tracker list \<Rightarrow> u8 list \<Rightarrow> ak_tcp_ip_tracker option" where
  "ip_tracker_find [] ip = None"
| "ip_tracker_find (t # ts) ip = (if tracker_ip t = ip then Some t else ip_tracker_find ts ip)"

text \<open>Writing through the pointer that the search returns.\<close>

fun tracker_put :: "ak_tcp_ip_tracker \<Rightarrow> ak_tcp_ip_tracker list \<Rightarrow> ak_tcp_ip_tracker list" where
  "tracker_put t [] = []"
| "tracker_put t (u # ts) = (if tracker_ip u = tracker_ip t then t # ts else u # tracker_put t ts)"

definition ip_tracker_get_or_create ::
  "ak_tcp_ip_tracker list \<Rightarrow> u8 list \<Rightarrow> bool \<Rightarrow> ak_tcp_ip_tracker option \<times> ak_tcp_ip_tracker list" where
  "ip_tracker_get_or_create ts ip alloc_ok =
     (case ip_tracker_find ts ip of
        Some t \<Rightarrow> (Some t, ts)
      | None \<Rightarrow>
          if \<not> alloc_ok then (None, ts)
          else let t = \<lparr>tracker_ip = take 45 ip, tracker_active = 0, last_connect_time = 0,
                        connects_this_second = 0\<rparr> in (Some t, t # ts))"

definition ip_tracker_decrement :: "ak_tcp_server_internal \<Rightarrow> u8 list \<Rightarrow> ak_tcp_server_internal" where
  "ip_tracker_decrement srv ip =
     (case ip_tracker_find (ip_trackers srv) ip of
        Some t \<Rightarrow>
          if tracker_active t > 0
          then srv\<lparr>ip_trackers := tracker_put (t\<lparr>tracker_active := tracker_active t - 1\<rparr>) (ip_trackers srv)\<rparr>
          else srv
      | None \<Rightarrow> srv)"

definition ip_trackers_free :: "ak_tcp_server_internal \<Rightarrow> ak_tcp_server_internal" where
  "ip_trackers_free srv = srv\<lparr>ip_trackers := []\<rparr>"

text \<open>The decision of the accept loop on a client address, under the mutex of the trackers.\<close>

datatype verdict = Admit | Ip_limited | Rate_limited

definition judge :: "ak_tcp_server_internal \<Rightarrow> ak_tcp_ip_tracker \<Rightarrow> int \<Rightarrow> verdict \<times> ak_tcp_ip_tracker" where
  "judge srv t now =
     (if max_connections_per_ip srv > 0 \<and> tracker_active t \<ge> max_connections_per_ip srv
      then (Ip_limited, t)
      else
        let (limited, t) =
          (if connection_rate_limit srv > 0 then
             if last_connect_time t = now then
               if connects_this_second t \<ge> connection_rate_limit srv then (True, t)
               else (False, t\<lparr>connects_this_second := sz_add (connects_this_second t) 1\<rparr>)
             else (False, t\<lparr>last_connect_time := now, connects_this_second := 1\<rparr>)
           else (False, t)) in
        if limited then (Rate_limited, t)
        else (Admit, t\<lparr>tracker_active := sz_add (tracker_active t) 1\<rparr>))"

definition accept_track ::
  "ak_tcp_server_internal \<Rightarrow> u8 list \<Rightarrow> int \<Rightarrow> bool \<Rightarrow> verdict \<times> ak_tcp_server_internal" where
  "accept_track srv ip now alloc_ok =
     (if max_connections_per_ip srv > 0 \<or> connection_rate_limit srv > 0 then
        (case ip_tracker_get_or_create (ip_trackers srv) ip alloc_ok of
           (None, ts) \<Rightarrow> (Admit, srv\<lparr>ip_trackers := ts\<rparr>)
         | (Some t, ts) \<Rightarrow>
             (case judge srv t now of
                (v, t) \<Rightarrow> (v, srv\<lparr>ip_trackers := tracker_put t ts\<rparr>)))
      else (Admit, srv))"

section \<open>The critical sections\<close>

definition accept_limit :: "ak_tcp_server_internal \<Rightarrow> bool \<times> ak_tcp_server_internal" where
  "accept_limit srv =
     (if max_connections srv > 0 \<and> active_connections srv \<ge> max_connections srv
      then (True, srv\<lparr>connections_rejected_limit := sz_add (connections_rejected_limit srv) 1\<rparr>)
      else (False, srv))"

definition count_ip_limit :: "ak_tcp_server_internal \<Rightarrow> ak_tcp_server_internal" where
  "count_ip_limit srv =
     srv\<lparr>connections_rejected_ip_limit := sz_add (connections_rejected_ip_limit srv) 1\<rparr>"

definition count_rate_limit :: "ak_tcp_server_internal \<Rightarrow> ak_tcp_server_internal" where
  "count_rate_limit srv =
     srv\<lparr>connections_rejected_rate := sz_add (connections_rejected_rate srv) 1\<rparr>"

definition accept_count :: "ak_tcp_server_internal \<Rightarrow> ak_tcp_server_internal" where
  "accept_count srv =
     srv\<lparr>active_connections := sz_add (active_connections srv) 1,
         connections_accepted := sz_add (connections_accepted srv) 1\<rparr>"

definition uncount :: "ak_tcp_server_internal \<Rightarrow> ak_tcp_server_internal" where
  "uncount srv =
     (if active_connections srv > 0
      then srv\<lparr>active_connections := active_connections srv - 1\<rparr> else srv)"

definition count_queue :: "ak_tcp_server_internal \<Rightarrow> ak_tcp_server_internal" where
  "count_queue srv =
     srv\<lparr>connections_rejected_queue := sz_add (connections_rejected_queue srv) 1\<rparr>"

text \<open>The options of an accepted descriptor; a failure is only logged.\<close>

definition configure_socket ::
  "ak_tcp_server_internal \<Rightarrow> int \<Rightarrow> net \<Rightarrow> net option" where
  "configure_socket srv fd n = do {
     n \<leftarrow> (if default_recv_timeout_ms srv > 0 \<or> default_send_timeout_ms srv > 0
          then map_option (snd \<circ> snd)
            (ak_tcp_socket_set_timeout fd (default_recv_timeout_ms srv)
               (default_send_timeout_ms srv) (Some None) n)
          else Some n);
     n \<leftarrow> (if enable_linger srv
          then map_option (snd \<circ> snd)
            (ak_tcp_socket_set_linger fd True (linger_timeout_sec srv) (Some None) n)
          else Some n);
     n \<leftarrow> (if socket_recv_buffer srv > 0 \<or> socket_send_buffer srv > 0
          then map_option (snd \<circ> snd)
            (ak_tcp_socket_set_buffers fd (socket_recv_buffer srv) (socket_send_buffer srv)
               (Some None) n)
          else Some n);
     (if enable_keepalive srv
      then map_option (snd \<circ> snd)
        (ak_tcp_socket_set_keepalive fd (keepalive_idle_sec srv) (keepalive_interval_sec srv)
           (keepalive_count srv) (Some None) n)
      else Some n) }"

definition make_ctx ::
  "ak_tcp_server_internal \<Rightarrow> int \<Rightarrow> u8 list \<Rightarrow> 16 word \<Rightarrow> ctx_store \<Rightarrow> byte_sched \<Rightarrow> ptr_sched
   \<Rightarrow> ak_tcp_ctx option \<times> ctx_store" where
  "make_ctx srv fd ip rport cs s ps =
     (case ak_tcp_ctx_new fd (Some ip) rport (recv_buffer_size srv) (send_buffer_size srv) cs s ps of
        (c, cs, s, ps) \<Rightarrow>
          (map_option (\<lambda>c. c\<lparr>recv_timeout_ms := default_recv_timeout_ms srv,
              send_timeout_ms := default_send_timeout_ms srv,
              max_recv_buffer_bytes := srv_max_recv_buffer_bytes srv, buffered_bytes := 0\<rparr>) c, cs))"

section \<open>The threads\<close>

text \<open>
  The places of the accept loop, with what it holds there, and of the task of a connection:
  the flag is the local \<open>detached\<close>. \<open>A_broken\<close> is reached by freeing a lambda that the pool
  has freed.
\<close>

datatype accept_pc =
  A_none | A_top | A_poll | A_accept | A_recheck
  | A_limit int "u8 list" "16 word" | A_track int "u8 list" "16 word"
  | A_ip_limited int | A_rate_limited int | A_close int
  | A_ask int "u8 list" "16 word" | A_refuse int "u8 list" | A_setup int "u8 list" "16 word"
  | A_count ak_tcp_ctx | A_hand ak_tcp_ctx | A_undo ak_tcp_ctx bool | A_drop ak_tcp_ctx
  | A_done | A_broken

datatype conn_pc =
  K_queued | K_handling | K_disconnect bool | K_leaving bool | K_uncount bool | K_free bool

datatype server_pc = S_idle | S_running | S_closing | S_joining | S_draining | S_waiting

record server_sys =
  sv :: ak_tcp_server_internal
  sv_net :: net
  sv_ctxs :: ctx_store
  sv_accept :: accept_pc
  sv_conns :: "(ak_tcp_ctx \<times> conn_pc) multiset"
  sv_main :: server_pc
  sv_untracked :: bool

text \<open>
  The accept loop. The address space has no room for \<open>2 ^ 64\<close> connections; \<open>inet_ntop\<close>
  writes an address of at most 45 bytes. \<open>sv_untracked\<close> records that a tracker could not
  be allocated.
\<close>

definition roomy :: "server_sys \<Rightarrow> bool" where
  "roomy s \<longleftrightarrow> size (sv_conns s) + 1 < SIZE_RANGE"

inductive accept_step :: "server_sys \<Rightarrow> server_sys \<Rightarrow> bool" where
  a_top: "sv_accept s = A_top \<Longrightarrow>
    accept_step s (s\<lparr>sv_accept := if running (sv s) then A_poll else A_done\<rparr>)"
| a_poll: "sv_accept s = A_poll \<Longrightarrow>
    ak_tcp_socket_poll_read (listen_fd (sv s)) (sv_net s) = Some (r, n) \<Longrightarrow>
    accept_step s (s\<lparr>sv_net := n,
      sv_accept := if r = 0 then A_top else if r < 0 then A_recheck else A_accept\<rparr>)"
| a_recheck: "sv_accept s = A_recheck \<Longrightarrow>
    accept_step s (s\<lparr>sv_accept := if running (sv s) then A_top else A_done\<rparr>)"
| a_accept: "sv_accept s = A_accept \<Longrightarrow>
    ak_tcp_socket_accept (listen_fd (sv s)) (Some None) (sv_net s) = Some (fd, ip, rport, error, n) \<Longrightarrow>
    length ip \<le> 45 \<Longrightarrow>
    accept_step s (s\<lparr>sv_net := n,
      sv_accept := if fd = AK_INVALID_SOCKET then A_recheck else A_limit fd ip rport\<rparr>)"
| a_limit: "sv_accept s = A_limit fd ip rport \<Longrightarrow> accept_limit (sv s) = (reached, srv) \<Longrightarrow>
    accept_step s (s\<lparr>sv := srv, sv_accept := if reached then A_close fd else A_track fd ip rport\<rparr>)"
| a_close: "sv_accept s = A_close fd \<Longrightarrow>
    accept_step s (s\<lparr>sv_net := ak_tcp_socket_close fd (sv_net s), sv_accept := A_top\<rparr>)"
| a_track: "sv_accept s = A_track fd ip rport \<Longrightarrow> roomy s \<Longrightarrow>
    accept_track (sv s) ip now alloc_ok = (v, srv) \<Longrightarrow>
    accept_step s (s\<lparr>sv := srv,
      sv_untracked := sv_untracked s \<or> \<not> alloc_ok,
      sv_accept := (case v of Admit \<Rightarrow> A_ask fd ip rport
                    | Ip_limited \<Rightarrow> A_ip_limited fd | Rate_limited \<Rightarrow> A_rate_limited fd)\<rparr>)"
| a_ip_limited: "sv_accept s = A_ip_limited fd \<Longrightarrow>
    accept_step s (s\<lparr>sv := count_ip_limit (sv s), sv_accept := A_close fd\<rparr>)"
| a_rate_limited: "sv_accept s = A_rate_limited fd \<Longrightarrow>
    accept_step s (s\<lparr>sv := count_rate_limit (sv s), sv_accept := A_close fd\<rparr>)"
| a_ask: "sv_accept s = A_ask fd ip rport \<Longrightarrow> on_connect (sv s) = None \<longrightarrow> yes \<Longrightarrow>
    accept_step s (s\<lparr>sv_accept := if yes then A_setup fd ip rport else A_refuse fd ip\<rparr>)"
| a_refuse: "sv_accept s = A_refuse fd ip \<Longrightarrow>
    accept_step s (s\<lparr>sv := ip_tracker_decrement (sv s) ip, sv_accept := A_close fd\<rparr>)"
| a_setup: "sv_accept s = A_setup fd ip rport \<Longrightarrow> configure_socket (sv s) fd (sv_net s) = Some n \<Longrightarrow>
    make_ctx (sv s) fd ip rport (sv_ctxs s) sch psch = (ctx, cs) \<Longrightarrow>
    accept_step s (s\<lparr>sv_net := n, sv_ctxs := cs,
      sv_accept := (case ctx of None \<Rightarrow> A_refuse fd ip | Some c \<Rightarrow> A_count c)\<rparr>)"
| a_count: "sv_accept s = A_count c \<Longrightarrow> roomy s \<Longrightarrow>
    accept_step s (s\<lparr>sv := accept_count (sv s), sv_accept := A_hand c\<rparr>)"
| a_hand: "sv_accept s = A_hand c \<Longrightarrow>
    accept_step s (s\<lparr>sv_conns := add_mset (c, K_queued) (sv_conns s), sv_accept := A_top\<rparr>)"
| a_no_task: "sv_accept s = A_hand c \<Longrightarrow>
    accept_step s (s\<lparr>sv := uncount (sv s), sv_accept := A_undo c False\<rparr>)"
| a_no_queue: "sv_accept s = A_hand c \<Longrightarrow>
    accept_step s (s\<lparr>sv := count_queue (uncount (sv s)), sv_accept := A_undo c lambda_freed\<rparr>)"
| a_undo: "sv_accept s = A_undo c lambda_freed \<Longrightarrow>
    accept_step s (s\<lparr>sv := ip_tracker_decrement (sv s) (remote_ip c),
      sv_accept := if lambda_freed then A_broken else A_drop c\<rparr>)"
| a_drop: "sv_accept s = A_drop c \<Longrightarrow> ak_tcp_ctx_free (Some c) (sv_ctxs s) (sv_net s) = Some (cs, n) \<Longrightarrow>
    accept_step s (s\<lparr>sv_ctxs := cs, sv_net := n, sv_accept := A_top\<rparr>)"

text \<open>The task of a connection, in a thread of the pool: \<open>worker_task_fn\<close>.\<close>

inductive task_step :: "server_sys \<Rightarrow> server_sys \<Rightarrow> bool" where
  k_start: "sv_conns s = add_mset (c, K_queued) M \<Longrightarrow>
    task_step s (s\<lparr>sv_conns := add_mset (c, K_handling) M\<rparr>)"
| k_handle: "sv_conns s = add_mset (c, K_handling) M \<Longrightarrow> conn_step (c, sv_net s) (c', n) \<Longrightarrow>
    task_step s (s\<lparr>sv_conns := add_mset (c', K_handling) M, sv_net := n\<rparr>)"
| k_handled: "sv_conns s = add_mset (c, K_handling) M \<Longrightarrow>
    task_step s (s\<lparr>sv_conns := add_mset (c, K_disconnect (ak_tcp_ctx_is_detached (Some c))) M\<rparr>)"
| k_disconnect: "sv_conns s = add_mset (c, K_disconnect False) M \<Longrightarrow> on_disconnect (sv s) \<noteq> None \<Longrightarrow>
    conn_step (c, sv_net s) (c', n) \<Longrightarrow>
    task_step s (s\<lparr>sv_conns := add_mset (c', K_disconnect False) M, sv_net := n\<rparr>)"
| k_disconnected: "sv_conns s = add_mset (c, K_disconnect d) M \<Longrightarrow>
    task_step s (s\<lparr>sv_conns := add_mset (c, K_leaving d) M\<rparr>)"
| k_leave: "sv_conns s = add_mset (c, K_leaving d) M \<Longrightarrow>
    task_step s (s\<lparr>sv := ip_tracker_decrement (sv s) (remote_ip c),
                   sv_conns := add_mset (c, K_uncount d) M\<rparr>)"
| k_uncount: "sv_conns s = add_mset (c, K_uncount d) M \<Longrightarrow>
    task_step s (s\<lparr>sv := uncount (sv s), sv_conns := add_mset (c, K_free d) M\<rparr>)"
| k_free: "sv_conns s = add_mset (c, K_free False) M \<Longrightarrow>
    ak_tcp_ctx_free (Some c) (sv_ctxs s) (sv_net s) = Some (cs, n) \<Longrightarrow>
    task_step s (s\<lparr>sv_ctxs := cs, sv_net := n, sv_conns := M\<rparr>)"
| k_detached: "sv_conns s = add_mset (c, K_free True) M \<Longrightarrow> task_step s (s\<lparr>sv_conns := M\<rparr>)"

text \<open>
  The owner of the server: \<open>ak_tcp_server_start\<close>, whose calls up to \<open>listen\<close> are
  \<open>server_listen\<close>, and \<open>ak_tcp_server_stop\<close>.
\<close>

definition server_listen ::
  "ak_tcp_server_internal \<Rightarrow> err_cell \<Rightarrow> net \<Rightarrow> (int \<times> ak_tcp_server_internal \<times> err_cell \<times> net) option" where
  "server_listen srv error n = do {
     (fd, error, n) \<leftarrow> ak_tcp_socket_create_for_addr (bind_addr srv) error n;
     if fd = AK_INVALID_SOCKET then Some (-1, srv\<lparr>listen_fd := fd\<rparr>, error, n)
     else do {
       (rc, error, n) \<leftarrow> ak_tcp_socket_bind fd (bind_addr srv) (port srv) error n;
       if rc \<noteq> 0
       then Some (-1, srv\<lparr>listen_fd := AK_INVALID_SOCKET\<rparr>, error, ak_tcp_socket_close fd n)
       else do {
         (rc, error, n) \<leftarrow> ak_tcp_socket_listen fd (backlog srv) error n;
         if rc \<noteq> 0
         then Some (-1, srv\<lparr>listen_fd := AK_INVALID_SOCKET\<rparr>, error, ak_tcp_socket_close fd n)
         else Some (0, srv\<lparr>listen_fd := fd\<rparr>, error, n) } } }"

inductive owner_step :: "server_sys \<Rightarrow> server_sys \<Rightarrow> bool" where
  o_start: "sv_main s = S_idle \<Longrightarrow> \<not> running (sv s) \<Longrightarrow>
    server_listen (sv s) error (sv_net s) = Some (0, srv, error', n) \<Longrightarrow>
    owner_step s (s\<lparr>sv := srv\<lparr>running := True\<rparr>, sv_net := n, sv_accept := A_top, sv_main := S_running\<rparr>)"
| o_no_listen: "sv_main s = S_idle \<Longrightarrow> \<not> running (sv s) \<Longrightarrow>
    server_listen (sv s) error (sv_net s) = Some (-1, srv, error', n) \<Longrightarrow>
    owner_step s (s\<lparr>sv := srv, sv_net := n\<rparr>)"
| o_no_thread: "sv_main s = S_idle \<Longrightarrow> \<not> running (sv s) \<Longrightarrow>
    server_listen (sv s) error (sv_net s) = Some (0, srv, error', n) \<Longrightarrow>
    owner_step s (s\<lparr>sv := srv\<lparr>running := False, listen_fd := AK_INVALID_SOCKET\<rparr>,
                    sv_net := ak_tcp_socket_close (listen_fd srv) n\<rparr>)"
| o_stop: "sv_main s = S_running \<Longrightarrow> running (sv s) \<Longrightarrow>
    owner_step s (s\<lparr>sv := (sv s)\<lparr>running := False, draining := True\<rparr>, sv_main := S_closing\<rparr>)"
| o_close: "sv_main s = S_closing \<Longrightarrow>
    owner_step s (s\<lparr>sv := (sv s)\<lparr>listen_fd := AK_INVALID_SOCKET\<rparr>,
                    sv_net := ak_tcp_socket_close (listen_fd (sv s)) (sv_net s), sv_main := S_joining\<rparr>)"
| o_join: "sv_main s = S_joining \<Longrightarrow> sv_accept s = A_done \<Longrightarrow>
    owner_step s (s\<lparr>sv_main := if shutdown_drain_timeout_ms (sv s) > 0 then S_draining else S_waiting\<rparr>)"
| o_drained: "sv_main s = S_draining \<Longrightarrow> active_connections (sv s) = 0 \<Longrightarrow>
    owner_step s (s\<lparr>sv := (sv s)\<lparr>draining := False\<rparr>, sv_main := S_waiting\<rparr>)"
| o_timeout: "sv_main s = S_draining \<Longrightarrow> active_connections (sv s) > 0 \<Longrightarrow>
    owner_step s (s\<lparr>sv := (sv s)\<lparr>draining := False\<rparr>, sv_main := S_waiting\<rparr>)"
| o_waited: "sv_main s = S_waiting \<Longrightarrow> sv_conns s = {#} \<Longrightarrow> owner_step s (s\<lparr>sv_main := S_idle\<rparr>)"

text \<open>The states that a server made with a configuration reaches.\<close>

inductive server_reach :: "ak_tcp_server_config \<Rightarrow> server_sys \<Rightarrow> bool" for cfg where
  fresh: "ak_tcp_server_new (Some cfg) error sch True = (Some srv, error', sch') \<Longrightarrow>
    server_reach cfg \<lparr>sv = srv, sv_net = n, sv_ctxs = cs, sv_accept = A_none, sv_conns = {#},
                      sv_main = S_idle, sv_untracked = False\<rparr>"
| accepting: "server_reach cfg s \<Longrightarrow> accept_step s s' \<Longrightarrow> server_reach cfg s'"
| task: "server_reach cfg s \<Longrightarrow> task_step s s' \<Longrightarrow> server_reach cfg s'"
| owner: "server_reach cfg s \<Longrightarrow> owner_step s s' \<Longrightarrow> server_reach cfg s'"

section \<open>Facts about the trackers\<close>

definition tracked :: "ak_tcp_ip_tracker list \<Rightarrow> u8 list \<Rightarrow> nat" where
  "tracked ts ip = (case ip_tracker_find ts ip of None \<Rightarrow> 0 | Some t \<Rightarrow> tracker_active t)"

lemma tracked_Nil [simp]: "tracked [] ip = 0"
  by (simp add: tracked_def)

lemma tracker_find_Some: "ip_tracker_find ts ip = Some t \<Longrightarrow> tracker_ip t = ip \<and> t \<in> set ts"
  by (induction ts) (auto split: if_splits)

lemma tracker_find_put:
  "ip_tracker_find ts (tracker_ip t) \<noteq> None \<Longrightarrow>
   ip_tracker_find (tracker_put t ts) ip =
     (if ip = tracker_ip t then Some t else ip_tracker_find ts ip)"
  by (induction ts) auto

lemma set_tracker_put: "set (tracker_put t ts) \<subseteq> insert t (set ts)"
  by (induction ts) auto

lemma tracked_put:
  assumes "ip_tracker_find ts ip = Some u" and "tracker_ip t = ip"
  shows "tracked (tracker_put t ts) ip' = (if ip' = ip then tracker_active t else tracked ts ip')"
  using assms tracker_find_put [of ts t ip'] by (auto simp: tracked_def)

lemma decrement_tracked:
  "tracked (ip_trackers (ip_tracker_decrement srv ip)) ip' =
     (if ip' = ip then tracked (ip_trackers srv) ip - 1 else tracked (ip_trackers srv) ip')"
proof (cases "ip_tracker_find (ip_trackers srv) ip")
  case None
  then show ?thesis by (simp add: ip_tracker_decrement_def tracked_def)
next
  case (Some t)
  then have "tracker_ip t = ip"
    by (blast dest: tracker_find_Some)
  with Some show ?thesis
    using tracked_put [OF Some, of "t\<lparr>tracker_active := tracker_active t - 1\<rparr>" ip']
    by (auto simp: ip_tracker_decrement_def tracked_def)
qed

lemma decrement_simps [simp]:
  "max_connections (ip_tracker_decrement srv ip) = max_connections srv"
  "active_connections (ip_tracker_decrement srv ip) = active_connections srv"
  "max_connections_per_ip (ip_tracker_decrement srv ip) = max_connections_per_ip srv"
  "connection_rate_limit (ip_tracker_decrement srv ip) = connection_rate_limit srv"
  "running (ip_tracker_decrement srv ip) = running srv"
  "draining (ip_tracker_decrement srv ip) = draining srv"
  "shutdown_drain_timeout_ms (ip_tracker_decrement srv ip) = shutdown_drain_timeout_ms srv"
  by (simp_all add: ip_tracker_decrement_def split: option.split)

text \<open>Every tracker stays within the limits of the server.\<close>

definition tracker_ok :: "ak_tcp_server_internal \<Rightarrow> ak_tcp_ip_tracker \<Rightarrow> bool" where
  "tracker_ok srv t \<longleftrightarrow>
     (max_connections_per_ip srv > 0 \<longrightarrow> tracker_active t \<le> max_connections_per_ip srv)
     \<and> (connection_rate_limit srv > 0 \<longrightarrow> connects_this_second t \<le> connection_rate_limit srv)"

definition trackers_ok :: "ak_tcp_server_internal \<Rightarrow> bool" where
  "trackers_ok srv \<longleftrightarrow> (\<forall>t \<in> set (ip_trackers srv). tracker_ok srv t)"

lemma trackers_ok_put:
  "trackers_ok srv \<Longrightarrow> tracker_ok srv t \<Longrightarrow>
   trackers_ok (srv\<lparr>ip_trackers := tracker_put t (ip_trackers srv)\<rparr>)"
  using set_tracker_put [of t "ip_trackers srv"]
  by (auto simp: trackers_ok_def tracker_ok_def)

lemma decrement_trackers_ok: "trackers_ok srv \<Longrightarrow> trackers_ok (ip_tracker_decrement srv ip)"
  by (auto simp: ip_tracker_decrement_def split: option.split intro!: trackers_ok_put dest!: tracker_find_Some)
    (auto simp: trackers_ok_def tracker_ok_def)

lemma tracked_le: "trackers_ok srv \<Longrightarrow> max_connections_per_ip srv > 0 \<Longrightarrow>
   tracked (ip_trackers srv) ip \<le> max_connections_per_ip srv"
  by (auto simp: tracked_def trackers_ok_def tracker_ok_def dest!: tracker_find_Some split: option.split)

text \<open>A verdict keeps the tracker's address and adds a connection exactly when it admits it.\<close>

lemma judge_spec:
  assumes "judge srv t now = (v, t')" and "tracker_ok srv t" and "tracker_active t + 1 < SIZE_RANGE"
    and "connection_rate_limit srv < SIZE_RANGE"
  shows "tracker_ip t' = tracker_ip t" and "tracker_ok srv t'"
    and "tracker_active t' = tracker_active t + (if v = Admit then 1 else 0)"
  using assms
  by (auto simp: judge_def tracker_ok_def sz_add_exact split: if_splits)

text \<open>Whether the tracking of addresses is on.\<close>

definition tracking :: "ak_tcp_server_internal \<Rightarrow> bool" where
  "tracking srv \<longleftrightarrow> max_connections_per_ip srv > 0 \<or> connection_rate_limit srv > 0"

lemma accept_track_spec:
  assumes "accept_track srv ip now alloc_ok = (v, srv')" and "trackers_ok srv" and "length ip \<le> 45"
    and "tracked (ip_trackers srv) ip + 1 < SIZE_RANGE" and "connection_rate_limit srv < SIZE_RANGE"
  shows "\<exists>ts. srv' = srv\<lparr>ip_trackers := ts\<rparr> \<and> trackers_ok srv'
     \<and> (\<forall>ip'. tracked ts ip' = tracked (ip_trackers srv) ip'
          + (if ip' = ip \<and> v = Admit \<and> tracking srv
                \<and> (alloc_ok \<or> ip_tracker_find (ip_trackers srv) ip \<noteq> None) then 1 else 0))"
proof (cases "tracking srv")
  case False
  then have "srv' = srv"
    using assms(1) by (simp add: accept_track_def tracking_def)
  then show ?thesis using False assms(2) by (intro exI [of _ "ip_trackers srv"]) simp
next
  case True
  obtain found ts1 where g: "ip_tracker_get_or_create (ip_trackers srv) ip alloc_ok = (found, ts1)"
    by (meson surj_pair)
  show ?thesis
  proof (cases found)
    case None
    then have "srv' = srv" "\<not> alloc_ok" "ip_tracker_find (ip_trackers srv) ip = None"
      using g assms(1) True
      by (auto simp: accept_track_def tracking_def ip_tracker_get_or_create_def Let_def
          split: option.splits if_splits)
    then show ?thesis using assms(2) by (intro exI [of _ "ip_trackers srv"]) simp
  next
    case (Some t)
    let ?srv1 = "srv\<lparr>ip_trackers := ts1\<rparr>"
    have t: "tracker_ip t = ip" "ip_tracker_find ts1 ip = Some t" "trackers_ok ?srv1"
      "tracked ts1 = tracked (ip_trackers srv)" "tracker_active t = tracked (ip_trackers srv) ip"
      "alloc_ok \<or> ip_tracker_find (ip_trackers srv) ip \<noteq> None"
      using g Some assms(2,3)
      by (auto simp: ip_tracker_get_or_create_def Let_def tracked_def fun_eq_iff trackers_ok_def
          tracker_ok_def split: option.splits if_splits dest: tracker_find_Some)
    obtain v' t' where j: "judge srv t now = (v', t')" by (meson surj_pair)
    have ok: "tracker_ok srv t"
      using t(2,3) by (auto simp: trackers_ok_def tracker_ok_def dest!: tracker_find_Some)
    note js = judge_spec [OF j ok]
    have s': "v = v'" "srv' = ?srv1\<lparr>ip_trackers := tracker_put t' ts1\<rparr>"
      using assms(1) True g Some j by (auto simp: accept_track_def tracking_def)
    have "tracker_ok ?srv1 t'"
      using js assms(4,5) t(5) by (simp add: tracker_ok_def)
    from trackers_ok_put [OF t(3) this] have "trackers_ok srv'"
      using s'(2) by simp
    then show ?thesis
      using s' js assms(4,5) t True tracked_put [OF t(2), of t']
      by (intro exI [of _ "tracker_put t' ts1"]) auto
  qed
qed

section \<open>The invariants of the server\<close>

text \<open>
  The places at which a connection is counted as active, and at which it holds a place in
  its tracker.
\<close>

fun is_counted :: "conn_pc \<Rightarrow> bool" where
  "is_counted (K_free d) = False"
| "is_counted _ = True"

fun holds_ip :: "conn_pc \<Rightarrow> bool" where
  "holds_ip (K_uncount d) = False"
| "holds_ip (K_free d) = False"
| "holds_ip _ = True"

fun accept_counted :: "accept_pc \<Rightarrow> nat" where
  "accept_counted (A_hand c) = 1"
| "accept_counted _ = 0"

fun accept_holds :: "accept_pc \<Rightarrow> u8 list option" where
  "accept_holds (A_ask fd ip rport) = Some ip"
| "accept_holds (A_refuse fd ip) = Some ip"
| "accept_holds (A_setup fd ip rport) = Some ip"
| "accept_holds (A_count c) = Some (remote_ip c)"
| "accept_holds (A_hand c) = Some (remote_ip c)"
| "accept_holds (A_undo c lambda_freed) = Some (remote_ip c)"
| "accept_holds _ = None"

text \<open>The places between the check of the limit and the count.\<close>

fun admitting :: "accept_pc \<Rightarrow> bool" where
  "admitting (A_track fd ip rport) = True"
| "admitting (A_ask fd ip rport) = True"
| "admitting (A_setup fd ip rport) = True"
| "admitting (A_count c) = True"
| "admitting _ = False"

fun address_ok :: "accept_pc \<Rightarrow> bool" where
  "address_ok (A_limit fd ip rport) = (length ip \<le> 45)"
| "address_ok (A_track fd ip rport) = (length ip \<le> 45)"
| "address_ok (A_ask fd ip rport) = (length ip \<le> 45)"
| "address_ok (A_setup fd ip rport) = (length ip \<le> 45)"
| "address_ok _ = True"

definition live_connections :: "server_sys \<Rightarrow> nat" where
  "live_connections s =
     size (filter_mset (\<lambda>(c, pc). is_counted pc) (sv_conns s)) + accept_counted (sv_accept s)"

definition holders :: "server_sys \<Rightarrow> u8 list \<Rightarrow> nat" where
  "holders s ip =
     size (filter_mset (\<lambda>(c, pc). holds_ip pc \<and> remote_ip c = ip) (sv_conns s))
     + (if accept_holds (sv_accept s) = Some ip then 1 else 0)"

definition count_inv :: "server_sys \<Rightarrow> bool" where
  "count_inv s \<longleftrightarrow> active_connections (sv s) = live_connections s
     \<and> (max_connections (sv s) > 0 \<longrightarrow> active_connections (sv s) \<le> max_connections (sv s)
          \<and> (admitting (sv_accept s) \<longrightarrow> active_connections (sv s) < max_connections (sv s)))"

definition ip_inv :: "server_sys \<Rightarrow> bool" where
  "ip_inv s \<longleftrightarrow> trackers_ok (sv s) \<and> address_ok (sv_accept s)
     \<and> connection_rate_limit (sv s) < SIZE_RANGE
     \<and> (\<forall>ip. tracked (ip_trackers (sv s)) ip \<le> holders s ip
          \<and> (tracking (sv s) \<and> \<not> sv_untracked s \<longrightarrow> tracked (ip_trackers (sv s)) ip = holders s ip))"

lemma server_update_simps [simp]:
  "max_connections (count_ip_limit srv) = max_connections srv"
  "active_connections (count_ip_limit srv) = active_connections srv"
  "max_connections (count_rate_limit srv) = max_connections srv"
  "active_connections (count_rate_limit srv) = active_connections srv"
  "max_connections (count_queue srv) = max_connections srv"
  "active_connections (count_queue srv) = active_connections srv"
  "max_connections (uncount srv) = max_connections srv"
  "active_connections (uncount srv) = active_connections srv - 1"
  "max_connections (accept_count srv) = max_connections srv"
  "active_connections (accept_count srv) = sz_add (active_connections srv) 1"
  by (simp_all add: count_ip_limit_def count_rate_limit_def count_queue_def uncount_def
      accept_count_def)

lemma server_update_ip_simps [simp]:
  "ip_trackers (count_ip_limit srv) = ip_trackers srv" "ip_trackers (count_rate_limit srv) = ip_trackers srv"
  "ip_trackers (count_queue srv) = ip_trackers srv" "ip_trackers (uncount srv) = ip_trackers srv"
  "ip_trackers (accept_count srv) = ip_trackers srv"
  "max_connections_per_ip (count_ip_limit srv) = max_connections_per_ip srv"
  "max_connections_per_ip (count_rate_limit srv) = max_connections_per_ip srv"
  "max_connections_per_ip (count_queue srv) = max_connections_per_ip srv"
  "max_connections_per_ip (uncount srv) = max_connections_per_ip srv"
  "max_connections_per_ip (accept_count srv) = max_connections_per_ip srv"
  "connection_rate_limit (count_ip_limit srv) = connection_rate_limit srv"
  "connection_rate_limit (count_rate_limit srv) = connection_rate_limit srv"
  "connection_rate_limit (count_queue srv) = connection_rate_limit srv"
  "connection_rate_limit (uncount srv) = connection_rate_limit srv"
  "connection_rate_limit (accept_count srv) = connection_rate_limit srv"
  by (simp_all add: count_ip_limit_def count_rate_limit_def count_queue_def uncount_def
      accept_count_def)

lemma accept_limit_cases:
  assumes "accept_limit srv = (reached, srv')"
  obtains (full) "reached" "max_connections srv > 0"
      "srv' = srv\<lparr>connections_rejected_limit := sz_add (connections_rejected_limit srv) 1\<rparr>"
    | (free) "\<not> reached" "max_connections srv > 0 \<longrightarrow> active_connections srv < max_connections srv" "srv' = srv"
proof (cases "max_connections srv > 0 \<and> active_connections srv \<ge> max_connections srv")
  case True
  then show ?thesis using full assms by (simp add: accept_limit_def)
next
  case False
  with assms have "\<not> reached" "srv' = srv"
    by (simp_all only: accept_limit_def if_False prod.inject) simp_all
  then show ?thesis using free False by auto
qed

lemma accept_track_effect:
  assumes "accept_track srv ip now alloc_ok = (v, srv')"
  obtains ts where "srv' = srv\<lparr>ip_trackers := ts\<rparr>"
proof (cases "max_connections_per_ip srv > 0 \<or> connection_rate_limit srv > 0")
  case True
  obtain found ts1 where g: "ip_tracker_get_or_create (ip_trackers srv) ip alloc_ok = (found, ts1)"
    by (meson surj_pair)
  show ?thesis
  proof (cases found)
    case None
    then show ?thesis using g True assms that [of ts1] by (simp add: accept_track_def)
  next
    case (Some t)
    then show ?thesis
      using g True assms that [of "tracker_put (snd (judge srv t now)) ts1"]
      by (simp add: accept_track_def case_prod_unfold)
  qed
qed (use assms that [of "ip_trackers srv"] in \<open>simp add: accept_track_def\<close>)

lemma server_listen_effect:
  assumes "server_listen srv error n = Some (rc, srv', error', n')"
  obtains fd where "srv' = srv\<lparr>listen_fd := fd\<rparr>"
  using assms by (auto simp: server_listen_def bind_eq_Some_conv split: if_splits)

lemma live_le_size: "live_connections s \<le> size (sv_conns s) + accept_counted (sv_accept s)"
  by (simp add: live_connections_def size_filter_mset_lesseq)

lemma holders_le_size: "accept_holds (sv_accept s) = None \<Longrightarrow> holders s ip \<le> size (sv_conns s)"
  by (simp add: holders_def size_filter_mset_lesseq)

lemma count_inv_accept:
  assumes "accept_step s s'" and "count_inv s"
  shows "count_inv s'"
  using assms
proof (induction rule: accept_step.induct)
  case (a_limit s fd ip rport reached srv)
  from a_limit(2) a_limit(1,3) show ?case
    by (cases rule: accept_limit_cases) (auto simp: count_inv_def live_connections_def)
next
  case (a_track s fd ip rport now alloc_ok v srv)
  from a_track(3) obtain ts where "srv = (sv s)\<lparr>ip_trackers := ts\<rparr>"
    by (rule accept_track_effect)
  then show ?case
    using a_track by (auto simp: count_inv_def live_connections_def split: verdict.split)
next
  case (a_count s c)
  have "active_connections (sv s) + 1 < SIZE_RANGE"
    using a_count live_le_size [of s] by (simp add: count_inv_def roomy_def)
  then show ?case
    using a_count by (auto simp: count_inv_def live_connections_def sz_add_exact)
qed (auto simp: count_inv_def live_connections_def split: option.split)

lemma count_inv_task:
  assumes "task_step s s'" and "count_inv s"
  shows "count_inv s'"
  using assms
  by (induction rule: task_step.induct) (auto simp: count_inv_def live_connections_def)

lemma count_inv_owner:
  assumes "owner_step s s'" and "count_inv s" and "sv_main s = S_idle \<Longrightarrow> accept_counted (sv_accept s) = 0"
  shows "count_inv s'"
  using assms
proof (induction rule: owner_step.induct)
  case (o_start s error srv error' n)
  from o_start(3) obtain fd where "srv = (sv s)\<lparr>listen_fd := fd\<rparr>"
    by (rule server_listen_effect)
  then show ?case
    using o_start(1,4,5) by (auto simp: count_inv_def live_connections_def)
next
  case (o_no_listen s error srv error' n)
  from o_no_listen(3) obtain fd where "srv = (sv s)\<lparr>listen_fd := fd\<rparr>"
    by (rule server_listen_effect)
  then show ?case
    using o_no_listen(4) by (auto simp: count_inv_def live_connections_def)
next
  case (o_no_thread s error srv error' n)
  from o_no_thread(3) obtain fd where "srv = (sv s)\<lparr>listen_fd := fd\<rparr>"
    by (rule server_listen_effect)
  then show ?case
    using o_no_thread(4) by (auto simp: count_inv_def live_connections_def)
qed (auto simp: count_inv_def live_connections_def)

text \<open>The loop that accepts is over, or has not begun, whenever the owner is idle or past the join.\<close>

definition owner_inv :: "server_sys \<Rightarrow> bool" where
  "owner_inv s \<longleftrightarrow> (sv_main s = S_idle \<longrightarrow> sv_accept s \<in> {A_none, A_done})
     \<and> (sv_main s \<in> {S_draining, S_waiting} \<longrightarrow> sv_accept s = A_done)
     \<and> (sv_main s \<in> {S_running, S_closing, S_joining} \<longrightarrow> sv_accept s \<noteq> A_none)
     \<and> (sv_main s = S_running \<longleftrightarrow> running (sv s)) \<and> (sv_main s = S_idle \<longrightarrow> sv_conns s = {#})"

lemma accept_step_shape:
  assumes "accept_step s s'"
  shows "sv_main s' = sv_main s" and "sv_accept s \<notin> {A_none, A_done, A_broken}"
    and "sv_accept s' \<noteq> A_none" and "running (sv s') = running (sv s)"
    and "sv_accept s \<notin> {A_top, A_recheck} \<longrightarrow> sv_accept s' \<noteq> A_done"
    and "running (sv s) \<longrightarrow> sv_accept s' \<noteq> A_done"
  using assms
  by (induction rule: accept_step.induct)
    (auto simp: accept_limit_def count_ip_limit_def count_rate_limit_def accept_count_def uncount_def
      count_queue_def split: if_splits option.splits verdict.splits elim!: accept_track_effect)

lemma task_step_shape:
  assumes "task_step s s'"
  shows "sv_main s' = sv_main s" and "sv_accept s' = sv_accept s" and "running (sv s') = running (sv s)"
    and "sv_conns s \<noteq> {#}" and "sv_untracked s' = sv_untracked s"
  using assms by (induction rule: task_step.induct) (auto simp: uncount_def)

lemma owner_inv_step:
  "accept_step s s' \<Longrightarrow> owner_inv s \<Longrightarrow> owner_inv s'"
  "task_step s s' \<Longrightarrow> owner_inv s \<Longrightarrow> owner_inv s'"
  "owner_step s s' \<Longrightarrow> owner_inv s \<Longrightarrow> owner_inv s'"
proof -
  show "owner_inv s'" if "accept_step s s'" "owner_inv s"
    using accept_step_shape [OF that(1)] that(2) by (auto simp: owner_inv_def)
  show "owner_inv s'" if "task_step s s'" "owner_inv s"
    using task_step_shape [OF that(1)] that(2) by (auto simp: owner_inv_def)
  show "owner_inv s'" if "owner_step s s'" "owner_inv s"
    using that
  proof (induction rule: owner_step.induct)
    case (o_no_listen s error srv error' n)
    from o_no_listen(3) obtain fd where "srv = (sv s)\<lparr>listen_fd := fd\<rparr>"
      by (rule server_listen_effect)
    then show ?case using o_no_listen by (simp add: owner_inv_def)
  qed (auto simp: owner_inv_def)
qed

lemma make_ctx_ip:
  "make_ctx srv fd ip rport cs sch psch = (Some c, cs') \<Longrightarrow> length ip \<le> 45 \<Longrightarrow> remote_ip c = ip"
  by (auto simp: make_ctx_def ak_tcp_ctx_new_def Let_def split: prod.splits option.splits)

lemma ip_inv_decrement:
  assumes "ip_inv s" and "holders s ip = Suc (holders s' ip)"
    and "\<And>ip'. ip' \<noteq> ip \<Longrightarrow> holders s' ip' = holders s ip'"
    and "sv s' = ip_tracker_decrement (sv s) ip" and "sv_untracked s' = sv_untracked s"
    and "address_ok (sv_accept s')"
  shows "ip_inv s'"
proof -
  have "tracked (ip_trackers (sv s')) ip' \<le> holders s' ip'
      \<and> (tracking (sv s') \<and> \<not> sv_untracked s' \<longrightarrow> tracked (ip_trackers (sv s')) ip' = holders s' ip')" for ip'
  proof -
    have "tracked (ip_trackers (sv s)) ip' \<le> holders s ip'"
      "tracking (sv s) \<and> \<not> sv_untracked s \<longrightarrow> tracked (ip_trackers (sv s)) ip' = holders s ip'"
      using assms(1) by (simp_all add: ip_inv_def)
    moreover have "tracking (sv s') = tracking (sv s)"
      using assms(4) by (simp add: tracking_def)
    ultimately show ?thesis
      using assms(2) assms(3) [of ip'] assms(4,5) by (cases "ip' = ip") (auto simp: decrement_tracked)
  qed
  then show ?thesis
    using assms by (simp add: ip_inv_def decrement_trackers_ok)
qed

lemma ip_inv_same:
  assumes "ip_inv s" and "\<And>ip. holders s' ip = holders s ip"
    and "ip_trackers (sv s') = ip_trackers (sv s)"
    and "max_connections_per_ip (sv s') = max_connections_per_ip (sv s)"
    and "connection_rate_limit (sv s') = connection_rate_limit (sv s)"
    and "sv_untracked s' = sv_untracked s" and "address_ok (sv_accept s')"
  shows "ip_inv s'"
  using assms by (simp add: ip_inv_def tracking_def trackers_ok_def tracker_ok_def)

lemma ip_inv_accept:
  assumes "accept_step s s'" and "ip_inv s"
  shows "ip_inv s'"
  using assms
proof (induction rule: accept_step.induct)
  case (a_limit s fd ip rport reached srv)
  from a_limit(2) show ?case
    by (cases rule: accept_limit_cases)
      (rule ip_inv_same [OF a_limit(3)]; use a_limit in \<open>auto simp: holders_def ip_inv_def\<close>)+
next
  case (a_track s fd ip rport now alloc_ok v srv)
  have "tracked (ip_trackers (sv s)) ip + 1 < SIZE_RANGE"
  proof -
    have "tracked (ip_trackers (sv s)) ip \<le> size (sv_conns s)"
      using a_track holders_le_size [of s ip] order.trans by (fastforce simp: ip_inv_def)
    then show ?thesis using a_track(2) by (simp add: roomy_def)
  qed
  with accept_track_spec [OF a_track(3)] a_track obtain ts where
    ts: "srv = (sv s)\<lparr>ip_trackers := ts\<rparr>" "trackers_ok srv"
      "\<And>ip'. tracked ts ip' = tracked (ip_trackers (sv s)) ip'
          + (if ip' = ip \<and> v = Admit \<and> tracking (sv s)
                \<and> (alloc_ok \<or> ip_tracker_find (ip_trackers (sv s)) ip \<noteq> None) then 1 else 0)"
    by (auto simp: ip_inv_def)
  then show ?case
    using a_track by (cases v) (auto simp: ip_inv_def holders_def tracking_def intro: le_SucI)
next
  case (a_refuse s fd ip)
  show ?case
    by (rule ip_inv_decrement [OF a_refuse(2), of ip]) (use a_refuse in \<open>auto simp: holders_def\<close>)
next
  case (a_undo s c lambda_freed)
  show ?case
    by (rule ip_inv_decrement [OF a_undo(2), of "remote_ip c"]) (use a_undo in \<open>auto simp: holders_def\<close>)
next
  case (a_setup s fd ip rport n sch psch ctx cs)
  show ?case
    by (rule ip_inv_same [OF a_setup(4)])
      (use a_setup in \<open>auto simp: holders_def ip_inv_def dest: make_ctx_ip split: option.split\<close>)
qed (((rule ip_inv_same, assumption); auto simp: holders_def ip_inv_def)+)

lemma ip_inv_task:
  assumes "task_step s s'" and "ip_inv s"
  shows "ip_inv s'"
  using assms
proof (induction rule: task_step.induct)
  case (k_leave s c d M)
  show ?case
    by (rule ip_inv_decrement [OF k_leave(2), of "remote_ip c"])
      (use k_leave in \<open>auto simp: holders_def ip_inv_def\<close>)
next
  case (k_handle s c M c' n)
  show ?case
    by (rule ip_inv_same [OF k_handle(3)])
      (use k_handle conn_step_remote_ip in \<open>auto simp: holders_def ip_inv_def\<close>)
next
  case (k_disconnect s c M c' n)
  show ?case
    by (rule ip_inv_same [OF k_disconnect(4)])
      (use k_disconnect conn_step_remote_ip in \<open>auto simp: holders_def ip_inv_def\<close>)
qed (((rule ip_inv_same, assumption); auto simp: holders_def ip_inv_def)+)

lemma ip_inv_owner:
  assumes "owner_step s s'" and "ip_inv s" and "sv_main s = S_idle \<Longrightarrow> accept_holds (sv_accept s) = None"
  shows "ip_inv s'"
  using assms
proof (induction rule: owner_step.induct)
  case (o_start s error srv error' n)
  from o_start(3) obtain fd where "srv = (sv s)\<lparr>listen_fd := fd\<rparr>"
    by (rule server_listen_effect)
  then show ?case
    by (intro ip_inv_same [OF o_start(4)]) (use o_start in \<open>auto simp: holders_def\<close>)
next
  case (o_no_listen s error srv error' n)
  from o_no_listen(3) obtain fd where "srv = (sv s)\<lparr>listen_fd := fd\<rparr>"
    by (rule server_listen_effect)
  then show ?case
    by (intro ip_inv_same [OF o_no_listen(4)]) (use o_no_listen in \<open>auto simp: holders_def ip_inv_def\<close>)
next
  case (o_no_thread s error srv error' n)
  from o_no_thread(3) obtain fd where "srv = (sv s)\<lparr>listen_fd := fd\<rparr>"
    by (rule server_listen_effect)
  then show ?case
    by (intro ip_inv_same [OF o_no_thread(4)]) (use o_no_thread in \<open>auto simp: holders_def ip_inv_def\<close>)
qed (((rule ip_inv_same, assumption); auto simp: holders_def ip_inv_def)+)

text \<open>The limits do not change after the start.\<close>

definition same_limits :: "ak_tcp_server_config \<Rightarrow> ak_tcp_server_internal \<Rightarrow> bool" where
  "same_limits cfg srv \<longleftrightarrow> max_connections srv = cfg_max_connections cfg
     \<and> max_connections_per_ip srv = cfg_max_connections_per_ip cfg
     \<and> connection_rate_limit srv = cfg_connection_rate_limit cfg
     \<and> shutdown_drain_timeout_ms srv = cfg_shutdown_drain_timeout_ms cfg"

lemma server_new_config:
  assumes "ak_tcp_server_new (Some cfg) error sch ok = (Some srv, error', sch')"
  shows "\<exists>pool. srv = server_config cfg pool"
  using assms
  by (auto simp: ak_tcp_server_new_def Let_def split: if_splits prod.splits option.splits)

section \<open>Reachable states\<close>

lemma same_limits_accept:
  assumes "accept_step s s'" and "same_limits cfg (sv s)"
  shows "same_limits cfg (sv s')"
  using assms
proof (induction rule: accept_step.induct)
  case (a_limit s fd ip rport reached srv)
  from a_limit(2,3) show ?case
    by (cases rule: accept_limit_cases) (auto simp: same_limits_def)
next
  case (a_track s fd ip rport now alloc_ok v srv)
  from a_track(3) obtain ts where "srv = (sv s)\<lparr>ip_trackers := ts\<rparr>"
    by (rule accept_track_effect)
  then show ?case using a_track(4) by (simp add: same_limits_def)
qed (auto simp: same_limits_def count_ip_limit_def count_rate_limit_def accept_count_def uncount_def
    count_queue_def)

lemma same_limits_task: "task_step s s' \<Longrightarrow> same_limits cfg (sv s) \<Longrightarrow> same_limits cfg (sv s')"
  by (induction rule: task_step.induct) (auto simp: same_limits_def uncount_def)

lemma same_limits_owner:
  assumes "owner_step s s'" and "same_limits cfg (sv s)"
  shows "same_limits cfg (sv s')"
  using assms
proof (induction rule: owner_step.induct)
  case (o_start s error srv error' n)
  from o_start(3) obtain fd where "srv = (sv s)\<lparr>listen_fd := fd\<rparr>"
    by (rule server_listen_effect)
  then show ?case using o_start(4) by (simp add: same_limits_def)
next
  case (o_no_listen s error srv error' n)
  from o_no_listen(3) obtain fd where "srv = (sv s)\<lparr>listen_fd := fd\<rparr>"
    by (rule server_listen_effect)
  then show ?case using o_no_listen(4) by (simp add: same_limits_def)
next
  case (o_no_thread s error srv error' n)
  from o_no_thread(3) obtain fd where "srv = (sv s)\<lparr>listen_fd := fd\<rparr>"
    by (rule server_listen_effect)
  then show ?case using o_no_thread(4) by (simp add: same_limits_def)
qed (auto simp: same_limits_def)

lemma idle_accept:
  "owner_inv s \<Longrightarrow> sv_main s = S_idle \<Longrightarrow> accept_counted (sv_accept s) = 0"
  "owner_inv s \<Longrightarrow> sv_main s = S_idle \<Longrightarrow> accept_holds (sv_accept s) = None"
  by (auto simp: owner_inv_def)

lemma server_reach_inv:
  assumes "server_reach cfg s"
  shows "count_inv s \<and> owner_inv s \<and> same_limits cfg (sv s)"
  using assms
proof (induction rule: server_reach.induct)
  case (fresh error sch srv error' sch' n cs)
  from server_new_config [OF fresh] obtain pool where "srv = server_config cfg pool" by blast
  then show ?case
    by (simp add: count_inv_def live_connections_def owner_inv_def same_limits_def server_config_def)
next
  case (accepting s s')
  then show ?case using count_inv_accept owner_inv_step(1) same_limits_accept by blast
next
  case (task s s')
  then show ?case using count_inv_task owner_inv_step(2) same_limits_task by blast
next
  case (owner s s')
  then show ?case using count_inv_owner owner_inv_step(3) same_limits_owner idle_accept(1) by blast
qed

lemma server_reach_ip_inv:
  assumes "server_reach cfg s" and "cfg_connection_rate_limit cfg < SIZE_RANGE"
  shows "ip_inv s"
  using assms
proof (induction rule: server_reach.induct)
  case (fresh error sch srv error' sch' n cs)
  from server_new_config [OF fresh(1)] obtain pool where "srv = server_config cfg pool" by blast
  then show ?case
    using fresh(2) by (simp add: ip_inv_def holders_def server_config_def trackers_ok_def)
next
  case (accepting s s')
  then show ?case using ip_inv_accept by blast
next
  case (task s s')
  then show ?case using ip_inv_task by blast
next
  case (owner s s')
  then show ?case using ip_inv_owner server_reach_inv idle_accept(2) by blast
qed

section \<open>Handing a connection to the pool\<close>

text \<open>
  The end of a round of the accept loop, for one caller of the pool: the task, its lambda
  (\<open>worker_fn\<close> is the address of \<open>worker_task_fn\<close>) and the enqueue. \<open>None\<close> is a lambda
  freed twice.
\<close>

datatype handed = Handed | No_task | No_queue

definition hand_over ::
  "pool_mem \<Rightarrow> nat \<Rightarrow> ptr_sched \<Rightarrow> (handed \<times> pool_mem \<times> ptr_sched) option" where
  "hand_over m worker_fn s =
     (case sys_alloc s of
        (None, s) \<Rightarrow> Some (No_task, m, s)
      | (Some g, s) \<Rightarrow>
          (case ak_lambda_new (pm_world m) worker_fn (g 0) 0 s of
             (l, w, s) \<Rightarrow>
               if l = 0 then Some (No_task, m\<lparr>pm_world := w\<rparr>, s)
               else do {
                 (rc, pool, s) \<leftarrow> ak_thread_pool_enqueue (Some (m\<lparr>pm_world := w\<rparr>)) l 0 s;
                 m \<leftarrow> pool;
                 if rc \<noteq> 0 then do {
                   w \<leftarrow> ak_lambda_free (pm_world m) l;
                   Some (No_queue, m\<lparr>pm_world := w\<rparr>, s) }
                 else Some (Handed, m, s) }))"

text \<open>
  When the pool has made its task but finds no memory for the node, it frees the task with
  its lambda and refuses; the accept loop then frees the same lambda again.
\<close>

theorem hand_over_double_free:
  assumes "pool_state (pm_pool m) = POOL_RUNNING" and "max_queue_size (pm_pool m) = 0"
    and "worker_fn \<noteq> 0" and "l \<noteq> 0" and "lw_lambdas (pm_world m) l = None"
    and "t \<noteq> 0" and "pm_tasks m t = None"
  shows "hand_over m worker_fn [Some g, Some (\<lambda>_. l), Some (\<lambda>_. t), Some h, None] = None"
  using assms
  by (simp add: hand_over_def ak_lambda_new_def alloc_cell_def ak_thread_pool_enqueue_def
      enqueue_locked_def task_new_def task_free_def ak_lambda_free_def Let_def)

section \<open>Properties\<close>

text \<open>
  C27: the counter of active connections is exact and respects its limit. In every state
  that the accept loop, the tasks and the owner reach together, the counter that the server
  reports is the number of accepted connections whose task has not left yet, and with a
  limit in the configuration it is never above the limit.
\<close>

theorem server_counts_connections:
  assumes "server_reach cfg s"
  shows "ak_tcp_server_connection_count (Some (sv s)) = live_connections s
     \<and> (0 < cfg_max_connections cfg \<longrightarrow> live_connections s \<le> cfg_max_connections cfg)"
  using server_reach_inv [OF assms]
  by (auto simp: ak_tcp_server_connection_count_def count_inv_def same_limits_def)

text \<open>
  C28: the trackers of addresses. A tracker never counts more connections of an address
  than are open, and while every tracker could be allocated it counts them exactly; so a
  limit for an address holds, and no tracker records more connections in a second than the
  rate limit.
\<close>

theorem server_ip_limits:
  assumes "server_reach cfg s" and "cfg_connection_rate_limit cfg < SIZE_RANGE"
  shows "tracked (ip_trackers (sv s)) ip \<le> holders s ip
     \<and> (\<not> sv_untracked s \<and> 0 < cfg_max_connections_per_ip cfg \<longrightarrow>
          tracked (ip_trackers (sv s)) ip = holders s ip \<and> holders s ip \<le> cfg_max_connections_per_ip cfg)
     \<and> (0 < cfg_connection_rate_limit cfg \<longrightarrow>
          (\<forall>t \<in> set (ip_trackers (sv s)). connects_this_second t \<le> cfg_connection_rate_limit cfg))"
proof -
  have inv: "ip_inv s" and lim: "same_limits cfg (sv s)"
    using server_reach_ip_inv [OF assms] server_reach_inv [OF assms(1)] by auto
  have "tracked (ip_trackers (sv s)) ip \<le> cfg_max_connections_per_ip cfg"
    if "0 < cfg_max_connections_per_ip cfg"
    using tracked_le [of "sv s" ip] inv lim that by (simp add: ip_inv_def same_limits_def)
  then show ?thesis
    using inv lim
    by (auto simp: ip_inv_def same_limits_def tracking_def trackers_ok_def tracker_ok_def)
qed

text \<open>
  C29: a server that has been stopped is quiet. When the owner is back from
  \<open>ak_tcp_server_stop\<close>, the accept loop has ended, no task of a connection is left, no
  connection is counted as active, and the server does not run.
\<close>

theorem server_stop_quiet:
  assumes "server_reach cfg s" and "owner_step s s'" and "sv_main s = S_waiting"
  shows "sv_main s' = S_idle \<and> sv_accept s' = A_done \<and> sv_conns s' = {#}
     \<and> active_connections (sv s') = 0 \<and> \<not> running (sv s')"
proof -
  have s': "s' = s\<lparr>sv_main := S_idle\<rparr>" "sv_conns s = {#}"
    using assms(2,3) by (auto elim: owner_step.cases)
  have "count_inv s" "owner_inv s"
    using server_reach_inv [OF assms(1)] by auto
  then show ?thesis
    using s' assms(3) by (auto simp: count_inv_def live_connections_def owner_inv_def)
qed

section \<open>Places where the code departs from its documentation\<close>

lemma draining_has_timeout:
  "server_reach cfg s \<Longrightarrow> sv_main s = S_draining \<Longrightarrow> cfg_shutdown_drain_timeout_ms cfg > 0"
proof (induction rule: server_reach.induct)
  case (accepting s s')
  then show ?case using accept_step_shape(1) by simp
next
  case (task s s')
  then show ?case using task_step_shape(1) by simp
next
  case (owner s s')
  from owner(1) have "same_limits cfg (sv s)"
    using server_reach_inv by blast
  with owner(2-) show ?case
    by (auto elim!: owner_step.cases simp: same_limits_def split: if_splits)
qed simp

text \<open>
  Without a drain timeout, \<open>ak_tcp_server_stop\<close> never clears the flag \<open>draining\<close>: once it is
  set it stays set, also after the stop has returned and after a new start.
\<close>

theorem server_draining_stays:
  assumes "server_reach cfg s" and "cfg_shutdown_drain_timeout_ms cfg = 0"
    and "owner_step s s'" and "draining (sv s)"
  shows "draining (sv s')"
proof -
  have "sv_main s \<noteq> S_draining"
    using draining_has_timeout [OF assms(1)] assms(2) by auto
  with assms(3,4) show ?thesis
    by (auto elim!: owner_step.cases elim: server_listen_effect)
qed

text \<open>A connection whose tracker cannot be allocated is admitted whatever the limits are.\<close>

theorem tracker_fails_open:
  "ip_tracker_find (ip_trackers srv) ip = None \<Longrightarrow> accept_track srv ip now False = (Admit, srv)"
  by (simp add: accept_track_def ip_tracker_get_or_create_def)

section \<open>A server with one connection\<close>

text \<open>
  The examples: a server for two connections, one for each address, that has accepted its
  first client.
\<close>

definition demo_cfg :: ak_tcp_server_config where
  "demo_cfg = ak_tcp_server_config_default\<lparr>cfg_port := 80, cfg_on_handle := Some 1,
     cfg_max_connections := 2, cfg_max_connections_per_ip := 1\<rparr>"

definition demo_srv :: ak_tcp_server_internal where
  "demo_srv = server_config demo_cfg
     \<lparr>max_workers = 4, max_queue_size = 0, workers_room = 4, worker_count = 4, active_count = 0,
      queue_head = 0, queue_tail = 0, queue_size = 0, pool_state = POOL_RUNNING\<rparr>"

definition demo_net :: net where
  "demo_net = quiet_net\<lparr>answers := (\<lambda>_. [(5, 0)]), polls := [(1, 1, 0)],
     accepts_to_come := [Inr (7, Sockaddr4 [10, 0, 0, 1] 0)]\<rparr>"

lemma demo_srv_new:
  "ak_tcp_server_new (Some demo_cfg) None 
     [Some (\<lambda>_. 1), Some (\<lambda>_. 1), Some (\<lambda>_. 1), Some (\<lambda>_. 1), Some (\<lambda>_. 1), Some (\<lambda>_. 1), Some (\<lambda>_. 1)] True = (Some demo_srv, None, [])"
  by (simp add: ak_tcp_server_new_def demo_cfg_def ak_tcp_server_config_default_def pool_init_def
      ak_thread_pool_config_default_def demo_srv_def sz_mul_def)

lemma demo_listen:
  obtains n where "server_listen demo_srv None demo_net = Some (0, demo_srv\<lparr>listen_fd := 5\<rparr>, None, n)"
    "polls n = polls demo_net" "accepts_to_come n = accepts_to_come demo_net"
    "inet_ntop n = inet_ntop demo_net" "trace n = [Socket_made AF_INET 5, Opt_set 5 (SO_REUSEADDR 1),
       Bound 5 AF_INET (htons 80), Listening 5 128]"
  using that
  by (simp add: server_listen_def demo_srv_def server_config_def demo_cfg_def
      ak_tcp_server_config_default_def ak_tcp_socket_create_for_addr_def ak_tcp_detect_addr_family_def
      sys_def demo_net_def quiet_net_def setsockopt_def logged_def ak_tcp_socket_bind_def
      ak_tcp_socket_listen_def AK_INVALID_SOCKET_def Let_def)

text \<open>The states of the run, by what changes along it.\<close>

definition demo_state ::
  "ak_tcp_server_internal \<Rightarrow> net \<Rightarrow> ctx_store \<Rightarrow> accept_pc \<Rightarrow> (ak_tcp_ctx \<times> conn_pc) multiset \<Rightarrow> server_sys" where
  "demo_state srv n cs pc M = \<lparr>sv = srv, sv_net = n, sv_ctxs = cs, sv_accept = pc, sv_conns = M,
     sv_main = S_running, sv_untracked = False\<rparr>"

definition demo_running_srv :: ak_tcp_server_internal where
  "demo_running_srv = demo_srv\<lparr>listen_fd := 5, running := True\<rparr>"

lemma demo_running_srv_simps:
  "running demo_running_srv" "listen_fd demo_running_srv = 5"
  "max_connections demo_running_srv = 2" "active_connections demo_running_srv = 0"
  "max_connections_per_ip demo_running_srv = 1" "connection_rate_limit demo_running_srv = 0"
  "ip_trackers demo_running_srv = []" "on_connect demo_running_srv = None"
  "default_recv_timeout_ms demo_running_srv = 0" "default_send_timeout_ms demo_running_srv = 0"
  "\<not> enable_linger demo_running_srv" "socket_recv_buffer demo_running_srv = 0"
  "socket_send_buffer demo_running_srv = 0" "\<not> enable_keepalive demo_running_srv"
  by (simp_all add: demo_running_srv_def demo_srv_def server_config_def demo_cfg_def
      ak_tcp_server_config_default_def)

lemma demo_started:
  obtains n where "server_reach demo_cfg (demo_state demo_running_srv n Map.empty A_top {#})"
    "polls n = [(1, 1, 0)]" "accepts_to_come n = [Inr (7, Sockaddr4 [10, 0, 0, 1] 0)]"
    "inet_ntop n = (\<lambda>_ a. a)"
proof -
  obtain n1 where n1: "server_listen demo_srv None demo_net = Some (0, demo_srv\<lparr>listen_fd := 5\<rparr>, None, n1)"
    "polls n1 = [(1, 1, 0)]" "accepts_to_come n1 = [Inr (7, Sockaddr4 [10, 0, 0, 1] 0)]"
    "inet_ntop n1 = (\<lambda>_ a. a)"
    using demo_listen by (auto simp: demo_net_def quiet_net_def)
  define s0 where "s0 = \<lparr>sv = demo_srv, sv_net = demo_net, sv_ctxs = Map.empty, sv_accept = A_none,
      sv_conns = {#}, sv_main = S_idle, sv_untracked = False\<rparr>"
  have r0: "server_reach demo_cfg s0"
    unfolding s0_def by (rule fresh [OF demo_srv_new])
  have "\<not> running demo_srv"
    by (simp add: demo_srv_def server_config_def)
  then have "server_reach demo_cfg (demo_state demo_running_srv n1 Map.empty A_top {#})"
    using owner [OF r0 o_start [of s0 None "demo_srv\<lparr>listen_fd := 5\<rparr>" None n1]] n1(1)
    by (simp add: s0_def demo_state_def demo_running_srv_def)
  then show thesis using n1 that by blast
qed

lemma demo_accepted:
  obtains n where "server_reach demo_cfg
    (demo_state demo_running_srv n Map.empty (A_limit 7 [10, 0, 0, 1] (htons 0)) {#})"
proof -
  let ?st = "\<lambda>n pc. demo_state demo_running_srv n Map.empty pc {#}"
  obtain n1 where r1: "server_reach demo_cfg (?st n1 A_top)" and n1: "polls n1 = [(1, 1, 0)]"
    "accepts_to_come n1 = [Inr (7, Sockaddr4 [10, 0, 0, 1] 0)]" "inet_ntop n1 = (\<lambda>_ a. a)"
    using demo_started by blast
  have r2: "server_reach demo_cfg (?st n1 A_poll)"
    using accepting [OF r1 a_top] by (simp add: demo_state_def demo_running_srv_simps)
  define n2 where "n2 = n1\<lparr>polls := [], errno := errno n1\<rparr>"
  have "ak_tcp_socket_poll_read 5 n1 = Some (1, n2)"
    using n1(1) by (simp add: ak_tcp_socket_poll_read_def sys_poll_def n2_def)
  then have r3: "server_reach demo_cfg (?st n2 A_accept)"
    using accepting [OF r2 a_poll] by (simp add: demo_state_def demo_running_srv_simps)
  define n3 where "n3 = logged (Accepted 7) (n2\<lparr>accepts_to_come := []\<rparr>)"
  have "ak_tcp_socket_accept 5 (Some None) n2 = Some (7, [10, 0, 0, 1], htons 0, Some None, n3)"
    using n1(2,3) by (simp add: ak_tcp_socket_accept_def n2_def n3_def Let_def logged_def)
  then have "server_reach demo_cfg (?st n3 (A_limit 7 [10, 0, 0, 1] (htons 0)))"
    using accepting [OF r3 a_accept]
    by (simp add: demo_state_def demo_running_srv_simps AK_INVALID_SOCKET_def)
  then show thesis by (rule that)
qed

lemma demo_reach:
  obtains s c where "server_reach demo_cfg s" "sv_conns s = {#(c, K_queued)#}" "remote_ip c = [10, 0, 0, 1]"
    "sv_accept s = A_top" "\<not> sv_untracked s"
proof -
  let ?ip = "[10, 0, 0, 1]" and ?srv = demo_running_srv
  obtain n where r0: "server_reach demo_cfg (demo_state ?srv n Map.empty (A_limit 7 ?ip (htons 0)) {#})"
    using demo_accepted by blast
  have r1: "server_reach demo_cfg (demo_state ?srv n Map.empty (A_track 7 ?ip (htons 0)) {#})"
    using accepting [OF r0 a_limit, of 7 ?ip "htons 0" False ?srv]
    by (simp add: demo_state_def accept_limit_def demo_running_srv_simps)
  define srv2 where "srv2 = ?srv\<lparr>ip_trackers := [\<lparr>tracker_ip = ?ip, tracker_active = 1,
      last_connect_time = 0, connects_this_second = 0\<rparr>]\<rparr>"
  have "accept_track ?srv ?ip 0 True = (Admit, srv2)"
    by (simp add: accept_track_def ip_tracker_get_or_create_def judge_def srv2_def sz_add_def Let_def
        demo_running_srv_simps)
  then have r2: "server_reach demo_cfg (demo_state srv2 n Map.empty (A_ask 7 ?ip (htons 0)) {#})"
    using accepting [OF r1 a_track, of 7 ?ip "htons 0" 0 True Admit]
    by (simp add: demo_state_def roomy_def)
  have r3: "server_reach demo_cfg (demo_state srv2 n Map.empty (A_setup 7 ?ip (htons 0)) {#})"
    using accepting [OF r2 a_ask, of 7 ?ip "htons 0" True] by (simp add: demo_state_def)
  have conf: "configure_socket srv2 7 n = Some n"
    by (simp add: configure_socket_def srv2_def demo_running_srv_simps)
  let ?sch = "[Some (\<lambda>_. 0), Some (\<lambda>_. 0), Some (\<lambda>_. 0), Some (\<lambda>_. 0), Some (\<lambda>_. 0)]"
    and ?psch = "[Some (\<lambda>_. 9)]"
  obtain c cs where c: "make_ctx srv2 7 ?ip (htons 0) Map.empty ?sch ?psch = (Some c, cs)"
    by (auto simp: make_ctx_def ak_tcp_ctx_new_def ak_buffer_new_def alloc_bytes_def ak_context_new_def
        alloc_cell_def Let_def)
  have r4: "server_reach demo_cfg (demo_state srv2 n cs (A_count c) {#})"
    using accepting [OF r3 a_setup, of 7 ?ip "htons 0" n ?sch ?psch "Some c" cs] conf c by (simp add: demo_state_def)
  have r5: "server_reach demo_cfg (demo_state (accept_count srv2) n cs (A_hand c) {#})"
    using accepting [OF r4 a_count, of c] by (simp add: roomy_def demo_state_def)
  have r6: "server_reach demo_cfg (demo_state (accept_count srv2) n cs A_top {#(c, K_queued)#})"
    using accepting [OF r5 a_hand, of c] by (simp add: demo_state_def)
  show thesis
    using that [OF r6, of c] make_ctx_ip [OF c] by (simp add: demo_state_def)
qed

theorem server_counts_connections_witness:
  "\<exists>s. server_reach demo_cfg s \<and> ak_tcp_server_connection_count (Some (sv s)) = 1
     \<and> live_connections s = 1 \<and> live_connections s \<le> cfg_max_connections demo_cfg"
proof -
  obtain s c where s: "server_reach demo_cfg s" "sv_conns s = {#(c, K_queued)#}" "sv_accept s = A_top"
    using demo_reach by metis
  then have "live_connections s = 1"
    by (simp add: live_connections_def)
  then show ?thesis
    using server_counts_connections [OF s(1)] s(1) by (auto simp: demo_cfg_def)
qed

theorem server_ip_limits_witness:
  "\<exists>s. server_reach demo_cfg s \<and> tracked (ip_trackers (sv s)) [10, 0, 0, 1] = 1
     \<and> holders s [10, 0, 0, 1] = 1 \<and> holders s [10, 0, 0, 2] = 0"
proof -
  obtain s c where s: "server_reach demo_cfg s" "sv_conns s = {#(c, K_queued)#}" "sv_accept s = A_top"
      "remote_ip c = [10, 0, 0, 1]" "\<not> sv_untracked s"
    using demo_reach by metis
  then have "holders s [10, 0, 0, 1] = 1" "holders s [10, 0, 0, 2] = 0"
    by (simp_all add: holders_def)
  moreover have "cfg_connection_rate_limit demo_cfg < SIZE_RANGE" "0 < cfg_max_connections_per_ip demo_cfg"
    by (simp_all add: demo_cfg_def ak_tcp_server_config_default_def)
  ultimately show ?thesis
    using server_ip_limits [OF s(1), of "[10, 0, 0, 1]"] s(1,5) by (intro exI [of _ s]) simp
qed

theorem server_stop_quiet_witness:
  "\<exists>s s'. server_reach demo_cfg s \<and> owner_step s s' \<and> sv_main s = S_waiting
     \<and> sv_main s' = S_idle \<and> sv_accept s' = A_done \<and> sv_conns s' = {#}
     \<and> active_connections (sv s') = 0 \<and> \<not> running (sv s')"
proof -
  obtain n where r0: "server_reach demo_cfg (demo_state demo_running_srv n Map.empty A_top {#})"
    using demo_started by blast
  define st where "st = (\<lambda>srv n pc main. \<lparr>sv = srv, sv_net = n, sv_ctxs = Map.empty :: ctx_store,
      sv_accept = pc, sv_conns = {#}, sv_main = main, sv_untracked = False\<rparr>)"
  let ?srv = "demo_running_srv\<lparr>running := False, draining := True\<rparr>"
  have r1: "server_reach demo_cfg (st ?srv n A_top S_closing)"
    using owner [OF r0 o_stop] by (simp add: demo_state_def st_def demo_running_srv_simps)
  have r2: "server_reach demo_cfg (st ?srv n A_done S_closing)"
    using accepting [OF r1 a_top] by (simp add: st_def)
  let ?srv3 = "?srv\<lparr>listen_fd := AK_INVALID_SOCKET\<rparr>" and ?n3 = "ak_tcp_socket_close 5 n"
  have r3: "server_reach demo_cfg (st ?srv3 ?n3 A_done S_joining)"
    using owner [OF r2 o_close] by (simp add: st_def demo_running_srv_simps)
  have "shutdown_drain_timeout_ms ?srv3 = 0"
    by (simp add: demo_running_srv_def demo_srv_def server_config_def demo_cfg_def
        ak_tcp_server_config_default_def)
  then have r4: "server_reach demo_cfg (st ?srv3 ?n3 A_done S_waiting)"
    using owner [OF r3 o_join] by (simp add: st_def)
  have step: "owner_step (st ?srv3 ?n3 A_done S_waiting) (st ?srv3 ?n3 A_done S_idle)"
    using o_waited [of "st ?srv3 ?n3 A_done S_waiting"] by (simp add: st_def)
  have "sv_main (st ?srv3 ?n3 A_done S_waiting) = S_waiting"
    by (simp add: st_def)
  then show ?thesis
    using server_stop_quiet [OF r4 step] r4 step by blast
qed

end
