(* ===== verification/Spec2Isabelle.thy ===== *)
theory Spec2Isabelle
  imports Scanner Context Intern Arena Arbuff Sourceloc Atoms Box Filepath Forms Threads Log TcpServer
begin

text \<open>
  Verification of the AK24 application kernel, a C library of containers, text tools, memory
  regions, concurrent buffers, worker threads and TCP connections for applications (sources
  under src/kernel). The development models the code component by component and proves the
  properties that make each component correct. This theory collects the others and documents
  them.

  \<^bold>\<open>The program and its parts.\<close> Each directory of src/kernel is one component with a source and a
  header file. Bytes live in growable buffers (\<open>buffer\<close>) and are decoded by \<open>utf8\<close>; the
  \<open>scanner\<close> reads tokens and bracket groups from a buffer; \<open>sourceloc\<close> maps offsets of a text
  to lines and columns; \<open>filepath\<close> builds paths in buffers and lists. The generic containers are
  the dynamic array \<open>list\<close> and the hash table \<open>map\<close>; on them rest the scopes of \<open>context\<close>, the
  string table \<open>intern\<close>, the graph of \<open>atoms\<close> and the types of \<open>forms\<close>. \<open>arena\<close> hands out
  regions of blocks. \<open>lambda\<close> pairs a function with a context it owns; \<open>box\<close> is a cell under a
  mutex; \<open>arbuff\<close> is a lock-free ring; \<open>threads\<close> is a pool of workers that run lambdas; \<open>log\<close>
  delivers messages to registered outputs; \<open>tcp\<close> is a server whose connections are handled by
  tasks of a thread pool.

  \<^bold>\<open>Theories and sources.\<close>
  \<^item> \<open>Prelude\<close>: C integers, sizes with wrap-around, the allocator, arrays, masks and bytes.
  \<^item> \<open>Utf8\<close>: utf8/src/utf8.c. Decoding is inverse to the encoding of scalar values, validation
    accepts exactly their concatenations.
  \<^item> \<open>Buffer\<close>: buffer/src/buffer.c. The operations act on the contents \<open>buf_bytes\<close> as append,
    rotate, trim, slice and split, keep \<open>buf_ok\<close> and stay inside the arrays; where they do not,
    a theorem says exactly when.
  \<^item> \<open>Scanner\<close>: scanner/src/scanner.c, over buffers. Tokens of a UTF-8 text, comments as trivia,
    the matching end of a group.
  \<^item> \<open>DynList\<close>: list/src/list.c, with its cells in a store; \<open>HashMap\<close>: map/src/map.c. Both refine
    the HOL types of lists and finite maps, for every behaviour of the allocator.
  \<^item> \<open>Context\<close>: context/src/context.c, scopes in a store with parents; lookup, hoisting, popping.
  \<^item> \<open>Intern\<close>: intern/src/intern.c, canonical pointers; \<open>Arena\<close>: arena/src/arena.c, aligned
    disjoint regions, snapshots and resets.
  \<^item> \<open>Arbuff\<close>: arbuff/src/arbuff.c, once for a single caller and once as interleaved accesses to
    the atomics; \<open>Box\<close>: box/src/box.c, likewise; \<open>Lambda\<close>: lambda/src/lambda.c.
  \<^item> \<open>Sourceloc\<close>: sourceloc/src/sourceloc.c, files with reference counts in a store;
    \<open>Filepath\<close>: filepath/src/filepath.c; \<open>Atoms\<close>: atoms/src/atom.c; \<open>Forms\<close>:
    forms/src/forms.c and forms_primitives.c.
  \<^item> \<open>Threads\<close>: threads/src/threads.c, the memory of a pool and its workers, clients and owner as
    interleaved threads; \<open>Log\<close>: log/src/log.c.
  \<^item> \<open>TcpSocket\<close>: tcp/src/tcp_posix.c; \<open>TcpConn\<close> and \<open>TcpServer\<close>: tcp/src/tcp.c, the connections
    and the server.

  \<^bold>\<open>How the code is modelled.\<close> A struct is a record with the fields of the source, an enum a
  datatype, a function of the source a definition of the same name (a suffix where the name is
  taken). The definitions are executable; step relations are inductive predicates whose rules
  call executable definitions of the critical sections.
  \<^item> NULL is \<open>None\<close> or 0 where pointers are addresses of a store. A result with an outer
    \<open>option\<close> is \<open>None\<close> where the C code is undefined (an access outside an array, a use or a
    second release of freed storage) or does not return; theorems that state a result therefore
    state that the code is defined and returns.
  \<^item> Loops whose end is not structural are \<open>partial_function (option)\<close> or functions with a
    measure; no fuel is used. That they end is proved with their result; where the code can loop
    for ever the theorems say when (capacity doubling that wraps, a ring with one slot, a
    cleared ring).
  \<^item> The allocator is a schedule of answers (\<open>sys_alloc\<close>, \<open>alloc_cell\<close>, \<open>alloc_bytes\<close>): each call
    is refused or gets fresh storage with arbitrary contents, and theorems hold for every
    schedule. \<open>grants n s\<close> says that the next \<open>n\<close> calls succeed, \<open>uses n s s'\<close> that at most \<open>n\<close>
    calls were made.
  \<^item> The operating system under sockets is the record \<open>net\<close> of the answers to come and the trace
    of what it was told; a call without an answer has not returned. Files, the local time and
    formatted messages are arguments too.
  \<^item> Mutexes make a critical section one step; threads interleave between steps. Atomics are
    sequentially consistent. Waiting on a condition, spurious wake-ups and signals are steps of
    their own in the thread pool.
  \<^item> Functions of the caller (callbacks, lambdas, handlers) are arguments, recorded calls, or, for
    connection handlers, arbitrary sequences of operations on the connection.

  \<^bold>\<open>Interfaces.\<close> Contracts between components are locales, interpreted on the model's own
  operations: \<open>sequence\<close> (as \<open>dl\<close> on the dynamic list, as \<open>contents\<close> on the items of instances in
  \<open>Forms\<close>), \<open>hash_keys\<close> (as \<open>str\<close> and \<open>mem\<close> on the two hash functions with their comparisons),
  \<open>key_store\<close> (as \<open>str_store\<close> on the table with string keys, used by scopes), \<open>interner\<close> (\<open>tab\<close>),
  \<open>region_allocator\<close> (\<open>ar\<close>) and \<open>bounded_queue\<close> (\<open>ring\<close>).

  \<^bold>\<open>State machines.\<close> \<open>arb_step\<close> (accesses of pushing and popping threads), \<open>arena_exec\<close>,
  \<open>sl_reach\<close>, \<open>lambda_reach\<close>, \<open>box_step\<close> and \<open>box_reach\<close>; \<open>worker_step\<close>, \<open>client_step\<close>,
  \<open>create_step\<close>, \<open>main_step\<close>, \<open>spurious_step\<close> and \<open>pool_reach\<close> of the thread pool; \<open>conn_step\<close> of
  a connection; \<open>accept_step\<close>, \<open>task_step\<close>, \<open>owner_step\<close> and \<open>server_reach\<close> of the server. Their
  invariants are proved by rule induction and give the properties on every interleaving: a ring
  delivers in the order of reservation, a pool runs each accepted task once and shuts down, a
  server counts its connections exactly and keeps its limits.

  \<^bold>\<open>How components meet.\<close> The scanner's theorems rest on the UTF-8 decoder and on \<open>buf_ok\<close>; scopes
  and forms on the refinement of the table; \<open>Threads\<close> runs the lambdas of \<open>Lambda\<close> and the
  theorem \<open>pool_runs_tasks_once\<close> accounts for every context it frees; \<open>TcpConn\<close> appends to buffers
  and keeps metadata in scopes; \<open>TcpServer\<close> interleaves the operations of \<open>TcpConn\<close> with its own
  threads and uses of the pool that accepted tasks run once and that waiting ends when none is
  left; \<open>hand_over\<close> joins the accept loop with the pool's enqueue and the release of lambdas.

  \<^bold>\<open>Bounds.\<close> Where a theorem needs one it is a hypothesis: lists below \<open>2 ^ 31\<close> elements, buffers up
  to \<open>2 ^ 63\<close> bytes, files below 4 GB, fewer than \<open>2 ^ 64\<close> queued nodes and connections, paths and
  components of at most 4096 bytes, 1024 visited atoms, 32 log outputs. Beyond them the theorems
  named in the findings show what the code does.

  \<^bold>\<open>Not modelled.\<close>
  \<^item> tcp/src/tcp_tls.c and tcp/src/tcp_win.c: wrappers around OpenSSL and Winsock; the model is the
    build without TLS on Linux. tcp/src/tcp_client.c: the client with its reconnecting thread over
    the connections of tcp.c.
  \<^item> cjit: a wrapper around the TCC compiler library. The files of src/kernel/src (start-up, lock
    file, signals, loading of modules, the collector's wrappers): calls into the operating system
    and the dynamic loader.
  \<^item> The branches of \<open>filepath\<close> for Windows and macOS, \<open>thread_platform.c\<close> (it forwards to the
    system's threads), and functions that only release storage.
  \<^item> Weak memory orders: the atomics of \<open>arbuff\<close> are taken as sequentially consistent. Forms are
    trees, since a form owns clones of its parts; only affordances are shared by address.
\<close>

end
